(* ===== verification/Prelude.thy ===== *)
theory Prelude
  imports Main "HOL-Library.Word" "HOL-Library.Monad_Syntax"
begin

text \<open>
  What every component theory shares: the fixed-width types of the kernel's C code, the way a
  failed \<^verbatim>\<open>ASSERT\<close>, a \<^verbatim>\<open>PANIC\<close> and an access outside an object are represented, arithmetic on
  \<^verbatim>\<open>size_t\<close> with its wrap-around, the rounding macros of \<^verbatim>\<open>lib/round.h\<close>, bounds-checked array
  access, and the list facts used in several components.

  A kernel function that can stop the machine returns an \<open>option\<close>: \<open>None\<close> means that the kernel
  stopped in that call (a failed assertion, a panic, a null or out-of-bounds access), \<open>Some r\<close> that
  the call returned \<open>r\<close>. A function that reports failure to its caller (a null pointer, \<^verbatim>\<open>false\<close>,
  an error code) returns that as an ordinary value inside \<open>Some\<close>.
\<close>

unbundle bit_operations_syntax

section \<open>Machine types\<close>

type_synonym u8 = "8 word"
type_synonym u16 = "16 word"
type_synonym u32 = "32 word"
type_synonym u64 = "64 word"

text \<open>\<open>size_t\<close> and \<open>uint32_t\<close> values that are only counted or compared are natural numbers
  below \<open>2 ^ 32\<close>; \<open>sz\<close> is the wrap-around of their arithmetic.\<close>

definition sz :: "nat \<Rightarrow> nat" where
  "sz n = n mod 2 ^ 32"

definition SIZE_MAX :: nat where
  "SIZE_MAX = 2 ^ 32 - 1"

lemma sz_id [simp]: "n < 2 ^ 32 \<Longrightarrow> sz n = n"
  by (simp add: sz_def)

lemma sz_less: "sz n < 2 ^ 32"
  by (simp add: sz_def)

lemma sz_le_SIZE_MAX: "sz n \<le> SIZE_MAX"
  using sz_less [of n] by (simp add: SIZE_MAX_def)

section \<open>Collections of facts\<close>

named_theorems abs_simps \<open>the effect of an operation on the abstract value of its component\<close>
named_theorems inv_rules \<open>preservation of the component invariants\<close>

section \<open>Assertions and bounds-checked arrays\<close>

definition ASSERT :: "bool \<Rightarrow> unit option" where
  "ASSERT b = (if b then Some () else None)"

lemma ASSERT_True [simp]: "ASSERT True = Some ()"
  by (simp add: ASSERT_def)

lemma ASSERT_False [simp]: "ASSERT False = None"
  by (simp add: ASSERT_def)

lemma ASSERT_bind [simp]: "ASSERT b \<bind> f = (if b then f () else None)"
  by (simp add: ASSERT_def)

lemma ASSERT_eq_Some [simp]: "ASSERT b = Some u \<longleftrightarrow> b"
  by (simp add: ASSERT_def)

definition arr_get :: "'a list \<Rightarrow> nat \<Rightarrow> 'a option" where
  "arr_get xs i = (if i < length xs then Some (xs ! i) else None)"

definition arr_set :: "'a list \<Rightarrow> nat \<Rightarrow> 'a \<Rightarrow> 'a list option" where
  "arr_set xs i v = (if i < length xs then Some (xs[i := v]) else None)"

lemma arr_get_in [simp]: "i < length xs \<Longrightarrow> arr_get xs i = Some (xs ! i)"
  by (simp add: arr_get_def)

lemma arr_get_out [simp]: "length xs \<le> i \<Longrightarrow> arr_get xs i = None"
  by (simp add: arr_get_def)

lemma arr_set_in [simp]: "i < length xs \<Longrightarrow> arr_set xs i v = Some (xs[i := v])"
  by (simp add: arr_set_def)

lemma arr_set_out [simp]: "length xs \<le> i \<Longrightarrow> arr_set xs i v = None"
  by (simp add: arr_set_def)

lemma arr_get_Some_iff: "arr_get xs i = Some v \<longleftrightarrow> i < length xs \<and> v = xs ! i"
  by (auto simp: arr_get_def)

lemma arr_set_Some_iff: "arr_set xs i v = Some ys \<longleftrightarrow> i < length xs \<and> ys = xs[i := v]"
  by (auto simp: arr_set_def)

lemma bind_eq_Some_iff: "m \<bind> f = Some y \<longleftrightarrow> (\<exists>x. m = Some x \<and> f x = Some y)"
  by (cases m) auto

section \<open>Rounding (lib/round.h)\<close>

definition DIV_ROUND_UP :: "nat \<Rightarrow> nat \<Rightarrow> nat" where
  "DIV_ROUND_UP x step = (x + step - 1) div step"

definition ROUND_UP :: "nat \<Rightarrow> nat \<Rightarrow> nat" where
  "ROUND_UP x step = (x + step - 1) div step * step"

definition ROUND_DOWN :: "nat \<Rightarrow> nat \<Rightarrow> nat" where
  "ROUND_DOWN x step = x div step * step"

lemma DIV_ROUND_UP_bound: "0 < s \<Longrightarrow> x \<le> DIV_ROUND_UP x s * s"
proof -
  assume s: "0 < s"
  have "x + s - 1 = (x + s - 1) div s * s + (x + s - 1) mod s" by simp
  moreover have "(x + s - 1) mod s < s" using s by simp
  ultimately show ?thesis unfolding DIV_ROUND_UP_def by linarith
qed

lemma DIV_ROUND_UP_least: "0 < s \<Longrightarrow> x \<le> k * s \<Longrightarrow> DIV_ROUND_UP x s \<le> k"
proof -
  assume s: "0 < s" and le: "x \<le> k * s"
  have "x + s - 1 < (k + 1) * s" using s le by (simp add: algebra_simps)
  then have "(x + s - 1) div s < k + 1" using s by (simp add: less_mult_imp_div_less)
  then show ?thesis by (simp add: DIV_ROUND_UP_def)
qed

lemma DIV_ROUND_UP_0 [simp]: "0 < s \<Longrightarrow> DIV_ROUND_UP 0 s = 0"
  by (simp add: DIV_ROUND_UP_def)

lemma div_less_DIV_ROUND_UP: "0 < s \<Longrightarrow> i < x \<Longrightarrow> i div s < DIV_ROUND_UP x s"
  using DIV_ROUND_UP_bound [of s x] by (simp add: less_mult_imp_div_less)

lemma DIV_ROUND_UP_pred: "0 < s \<Longrightarrow> 0 < x \<Longrightarrow> DIV_ROUND_UP x s = (x - 1) div s + 1"
proof -
  assume s: "0 < s" and "0 < x"
  then have eq: "x + s - 1 = (x - 1) + s" by simp
  show ?thesis unfolding DIV_ROUND_UP_def eq using s by (rule div_add_self2 [OF less_imp_neq [symmetric]])
qed

lemma ROUND_UP_eq: "ROUND_UP x s = DIV_ROUND_UP x s * s"
  by (simp add: ROUND_UP_def DIV_ROUND_UP_def)

lemma ROUND_UP_ge: "0 < s \<Longrightarrow> x \<le> ROUND_UP x s"
  by (simp add: ROUND_UP_eq DIV_ROUND_UP_bound)

lemma ROUND_UP_dvd: "s dvd ROUND_UP x s"
  by (simp add: ROUND_UP_def)

section \<open>Lists\<close>

lemma nth_eq_iff: "length xs = length ys \<Longrightarrow> (\<And>i. i < length xs \<Longrightarrow> xs ! i = ys ! i) \<Longrightarrow> xs = ys"
  by (rule nth_equalityI) auto

lemma in_set_tlD: "x \<in> set (tl xs) \<Longrightarrow> x \<in> set xs"
  by (cases xs) auto

definition overwrite :: "'a list \<Rightarrow> nat \<Rightarrow> 'a list \<Rightarrow> 'a list" where
  "overwrite xs ofs ys = take ofs xs @ ys @ drop (ofs + length ys) xs"

lemma length_overwrite [simp]: "ofs + length ys \<le> length xs \<Longrightarrow> length (overwrite xs ofs ys) = length xs"
  by (simp add: overwrite_def)

lemma overwrite_nth:
  "ofs + length ys \<le> length xs \<Longrightarrow> i < length xs \<Longrightarrow>
   overwrite xs ofs ys ! i = (if ofs \<le> i \<and> i < ofs + length ys then ys ! (i - ofs) else xs ! i)"
  by (auto simp: overwrite_def nth_append min_def)

lemma overwrite_Nil [simp]: "ofs \<le> length xs \<Longrightarrow> overwrite xs ofs [] = xs"
  by (simp add: overwrite_def)

lemma overwrite_all: "length ys = length xs \<Longrightarrow> overwrite xs 0 ys = ys"
  by (simp add: overwrite_def)

definition segment :: "'a list \<Rightarrow> nat \<Rightarrow> nat \<Rightarrow> 'a list" where
  "segment xs ofs n = take n (drop ofs xs)"

lemma length_segment [simp]: "ofs + n \<le> length xs \<Longrightarrow> length (segment xs ofs n) = n"
  by (simp add: segment_def)

lemma segment_nth: "ofs + n \<le> length xs \<Longrightarrow> i < n \<Longrightarrow> segment xs ofs n ! i = xs ! (ofs + i)"
  by (simp add: segment_def)

lemma segment_map: "ofs + n \<le> length xs \<Longrightarrow> segment xs ofs n = map (\<lambda>k. xs ! (ofs + k)) [0..<n]"
  by (rule nth_eq_iff) (auto simp: segment_nth)

lemma segment_overwrite [simp]:
  "ofs + length ys \<le> length xs \<Longrightarrow> segment (overwrite xs ofs ys) ofs (length ys) = ys"
  by (simp add: segment_def overwrite_def)

lemma segment_overwrite_disjoint:
  "ofs + length ys \<le> length xs \<Longrightarrow> a + n \<le> length xs \<Longrightarrow> a + n \<le> ofs \<or> ofs + length ys \<le> a \<Longrightarrow>
   segment (overwrite xs ofs ys) a n = segment xs a n"
  by (rule nth_eq_iff) (auto simp: segment_nth overwrite_nth)

end
