(* ===== verification/Bitmap.thy ===== *)
theory Bitmap
  imports Prelude
begin

text \<open>
  Bitmaps, \<^verbatim>\<open>lib/kernel/bitmap.c\<close>: an array of 32-bit elements that simulates an array of bits. The
  abstract value of a bitmap is the list of its bits (\<open>bitmap_abs\<close>); each operation is shown to
  act on it as the comments of the source say, and to fail exactly when one of the assertions of
  the source fails. The contract the three allocators of the kernel rely on (the sector map of the
  file system, the page pools and the swap table) is the locale \<open>slot_allocator\<close>, interpreted here on
  \<^verbatim>\<open>bitmap_scan_and_flip\<close> and \<^verbatim>\<open>bitmap_set_multiple\<close>.
\<close>

section \<open>The data and the operations\<close>

record bitmap =
  bit_cnt :: nat
  bits :: "u32 list"

definition ELEM_BITS :: nat where
  "ELEM_BITS = 32"

definition BITMAP_ERROR :: nat where
  "BITMAP_ERROR = SIZE_MAX"

definition elem_idx :: "nat \<Rightarrow> nat" where
  "elem_idx bit_idx = bit_idx div ELEM_BITS"

definition bit_mask :: "nat \<Rightarrow> u32" where
  "bit_mask bit_idx = push_bit (bit_idx mod ELEM_BITS) 1"

definition elem_cnt :: "nat \<Rightarrow> nat" where
  "elem_cnt n = sz (n + ELEM_BITS - 1) div ELEM_BITS"

definition byte_cnt :: "nat \<Rightarrow> nat" where
  "byte_cnt n = sz (4 * elem_cnt n)"

definition last_mask :: "bitmap \<Rightarrow> u32" where
  "last_mask b = (let last_bits = bit_cnt b mod ELEM_BITS in
     if last_bits \<noteq> 0 then push_bit last_bits 1 - 1 else - 1)"

definition bitmap_size :: "bitmap \<Rightarrow> nat" where
  "bitmap_size b = bit_cnt b"

definition bitmap_mark :: "bitmap \<Rightarrow> nat \<Rightarrow> bitmap option" where
  "bitmap_mark b bit_idx = do {
     let idx = elem_idx bit_idx;
     let mask = bit_mask bit_idx;
     e \<leftarrow> arr_get (bits b) idx;
     es \<leftarrow> arr_set (bits b) idx (e OR mask);
     Some (b\<lparr>bits := es\<rparr>) }"

definition bitmap_reset :: "bitmap \<Rightarrow> nat \<Rightarrow> bitmap option" where
  "bitmap_reset b bit_idx = do {
     let idx = elem_idx bit_idx;
     let mask = bit_mask bit_idx;
     e \<leftarrow> arr_get (bits b) idx;
     es \<leftarrow> arr_set (bits b) idx (e AND NOT mask);
     Some (b\<lparr>bits := es\<rparr>) }"

definition bitmap_flip :: "bitmap \<Rightarrow> nat \<Rightarrow> bitmap option" where
  "bitmap_flip b bit_idx = do {
     let idx = elem_idx bit_idx;
     let mask = bit_mask bit_idx;
     e \<leftarrow> arr_get (bits b) idx;
     es \<leftarrow> arr_set (bits b) idx (e XOR mask);
     Some (b\<lparr>bits := es\<rparr>) }"

definition bitmap_set :: "bitmap \<Rightarrow> nat \<Rightarrow> bool \<Rightarrow> bitmap option" where
  "bitmap_set b idx value = do {
     ASSERT (idx < bit_cnt b);
     if value then bitmap_mark b idx else bitmap_reset b idx }"

definition bitmap_test :: "bitmap \<Rightarrow> nat \<Rightarrow> bool option" where
  "bitmap_test b idx = do {
     ASSERT (idx < bit_cnt b);
     e \<leftarrow> arr_get (bits b) (elem_idx idx);
     Some (e AND bit_mask idx \<noteq> 0) }"

text \<open>The loops run \<open>i\<close> from \<open>0\<close> to \<open>cnt\<close>; the recursion counts the iterations that are left.\<close>

fun bitmap_set_loop :: "bitmap \<Rightarrow> nat \<Rightarrow> nat \<Rightarrow> bool \<Rightarrow> bitmap option" where
  "bitmap_set_loop b pos 0 value = Some b"
| "bitmap_set_loop b pos (Suc n) value =
     bitmap_set b (sz pos) value \<bind> (\<lambda>b'. bitmap_set_loop b' (Suc pos) n value)"

definition bitmap_set_multiple :: "bitmap \<Rightarrow> nat \<Rightarrow> nat \<Rightarrow> bool \<Rightarrow> bitmap option" where
  "bitmap_set_multiple b start cnt value = do {
     ASSERT (start \<le> bit_cnt b);
     ASSERT (sz (start + cnt) \<le> bit_cnt b);
     bitmap_set_loop b start cnt value }"

definition bitmap_set_all :: "bitmap \<Rightarrow> bool \<Rightarrow> bitmap option" where
  "bitmap_set_all b value = bitmap_set_multiple b 0 (bitmap_size b) value"

fun bitmap_count_loop :: "bitmap \<Rightarrow> nat \<Rightarrow> nat \<Rightarrow> bool \<Rightarrow> nat \<Rightarrow> nat option" where
  "bitmap_count_loop b pos 0 value value_cnt = Some value_cnt"
| "bitmap_count_loop b pos (Suc n) value value_cnt =
     bitmap_test b (sz pos) \<bind> (\<lambda>v.
       bitmap_count_loop b (Suc pos) n value (if v = value then value_cnt + 1 else value_cnt))"

definition bitmap_count :: "bitmap \<Rightarrow> nat \<Rightarrow> nat \<Rightarrow> bool \<Rightarrow> nat option" where
  "bitmap_count b start cnt value = do {
     ASSERT (start \<le> bit_cnt b);
     ASSERT (sz (start + cnt) \<le> bit_cnt b);
     bitmap_count_loop b start cnt value 0 }"

fun bitmap_contains_loop :: "bitmap \<Rightarrow> nat \<Rightarrow> nat \<Rightarrow> bool \<Rightarrow> bool option" where
  "bitmap_contains_loop b pos 0 value = Some False"
| "bitmap_contains_loop b pos (Suc n) value =
     bitmap_test b (sz pos) \<bind> (\<lambda>v.
       if v = value then Some True else bitmap_contains_loop b (Suc pos) n value)"

definition bitmap_contains :: "bitmap \<Rightarrow> nat \<Rightarrow> nat \<Rightarrow> bool \<Rightarrow> bool option" where
  "bitmap_contains b start cnt value = do {
     ASSERT (start \<le> bit_cnt b);
     ASSERT (sz (start + cnt) \<le> bit_cnt b);
     bitmap_contains_loop b start cnt value }"

definition bitmap_any :: "bitmap \<Rightarrow> nat \<Rightarrow> nat \<Rightarrow> bool option" where
  "bitmap_any b start cnt = bitmap_contains b start cnt True"

definition bitmap_none :: "bitmap \<Rightarrow> nat \<Rightarrow> nat \<Rightarrow> bool option" where
  "bitmap_none b start cnt = map_option Not (bitmap_contains b start cnt True)"

definition bitmap_all :: "bitmap \<Rightarrow> nat \<Rightarrow> nat \<Rightarrow> bool option" where
  "bitmap_all b start cnt = map_option Not (bitmap_contains b start cnt False)"

text \<open>The scan runs \<open>i\<close> from \<open>start\<close> to \<open>last\<close> inclusive; \<open>n\<close> counts the candidates left.\<close>

fun bitmap_scan_loop :: "bitmap \<Rightarrow> nat \<Rightarrow> nat \<Rightarrow> nat \<Rightarrow> bool \<Rightarrow> nat option" where
  "bitmap_scan_loop b i 0 cnt value = Some BITMAP_ERROR"
| "bitmap_scan_loop b i (Suc n) cnt value =
     bitmap_contains b i cnt (\<not> value) \<bind> (\<lambda>c.
       if \<not> c then Some i else bitmap_scan_loop b (Suc i) n cnt value)"

definition bitmap_scan :: "bitmap \<Rightarrow> nat \<Rightarrow> nat \<Rightarrow> bool \<Rightarrow> nat option" where
  "bitmap_scan b start cnt value = do {
     ASSERT (start \<le> bit_cnt b);
     if cnt \<le> bit_cnt b
     then (let last = bit_cnt b - cnt in bitmap_scan_loop b start (Suc last - start) cnt value)
     else Some BITMAP_ERROR }"

definition bitmap_scan_and_flip :: "bitmap \<Rightarrow> nat \<Rightarrow> nat \<Rightarrow> bool \<Rightarrow> (nat \<times> bitmap) option" where
  "bitmap_scan_and_flip b start cnt value = do {
     idx \<leftarrow> bitmap_scan b start cnt value;
     if idx \<noteq> BITMAP_ERROR
     then do { b' \<leftarrow> bitmap_set_multiple b idx cnt (\<not> value); Some (idx, b') }
     else Some (idx, b) }"

text \<open>
  \<^verbatim>\<open>bitmap_create\<close>: \<open>mem\<close> is the uninitialised array that \<^verbatim>\<open>malloc (byte_cnt (bit_cnt))\<close> returned,
  \<open>None\<close> a null pointer; the first argument says whether the header could be allocated.
\<close>

definition bitmap_create :: "bool \<Rightarrow> u32 list option \<Rightarrow> nat \<Rightarrow> bitmap option option" where
  "bitmap_create hdr_ok mem n =
     (if hdr_ok \<and> (mem \<noteq> None \<or> n = 0) then
        map_option Some
          (bitmap_set_all \<lparr>bit_cnt = n, bits = (case mem of None \<Rightarrow> [] | Some es \<Rightarrow> es)\<rparr> False)
      else Some None)"

definition bitmap_buf_size :: "nat \<Rightarrow> nat" where
  "bitmap_buf_size n = sz (8 + byte_cnt n)"

definition bitmap_create_in_buf :: "nat \<Rightarrow> u32 list \<Rightarrow> nat \<Rightarrow> bitmap option" where
  "bitmap_create_in_buf n block block_size = do {
     ASSERT (bitmap_buf_size n \<le> block_size);
     bitmap_set_all \<lparr>bit_cnt = n, bits = block\<rparr> False }"

definition bitmap_file_size :: "bitmap \<Rightarrow> nat" where
  "bitmap_file_size b = byte_cnt (bit_cnt b)"

text \<open>
  The bytes of the element array, in the little-endian order of the i386: what \<^verbatim>\<open>bitmap_write\<close>
  hands to \<^verbatim>\<open>file_write_at\<close>, and what \<^verbatim>\<open>bitmap_read\<close> makes of the bytes it gets back.
\<close>

definition elem_bytes :: "u32 \<Rightarrow> u8 list" where
  "elem_bytes e = [ucast e, ucast (drop_bit 8 e), ucast (drop_bit 16 e), ucast (drop_bit 24 e)]"

definition bitmap_bytes :: "bitmap \<Rightarrow> u8 list" where
  "bitmap_bytes b = concat (map elem_bytes (bits b))"

fun elems_of_bytes :: "u8 list \<Rightarrow> u32 list" where
  "elems_of_bytes (b0 # b1 # b2 # b3 # bs) =
     (ucast b0 OR push_bit 8 (ucast b1) OR push_bit 16 (ucast b2) OR push_bit 24 (ucast b3))
       # elems_of_bytes bs"
| "elems_of_bytes bs = []"

definition bitmap_read_bytes :: "bitmap \<Rightarrow> u8 list \<Rightarrow> bitmap option" where
  "bitmap_read_bytes b bs =
     (if 0 < bit_cnt b then do {
        let es = overwrite (bits b) 0 (elems_of_bytes bs);
        e \<leftarrow> arr_get es (elem_cnt (bit_cnt b) - 1);
        es' \<leftarrow> arr_set es (elem_cnt (bit_cnt b) - 1) (e AND last_mask b);
        Some (b\<lparr>bits := es'\<rparr>) }
      else Some b)"

section \<open>The abstract value\<close>

definition bitmap_wf :: "bitmap \<Rightarrow> bool" where
  "bitmap_wf b \<longleftrightarrow> bit_cnt b + ELEM_BITS \<le> 2 ^ 32 \<and> length (bits b) = DIV_ROUND_UP (bit_cnt b) ELEM_BITS"

definition bitmap_bit :: "bitmap \<Rightarrow> nat \<Rightarrow> bool" where
  "bitmap_bit b i = bit (bits b ! (i div ELEM_BITS)) (i mod ELEM_BITS)"

definition bitmap_abs :: "bitmap \<Rightarrow> bool list" where
  "bitmap_abs b = map (bitmap_bit b) [0..<bit_cnt b]"

lemma length_bitmap_abs [simp]: "length (bitmap_abs b) = bit_cnt b"
  by (simp add: bitmap_abs_def)

lemma bitmap_abs_nth [simp]: "i < bit_cnt b \<Longrightarrow> bitmap_abs b ! i = bitmap_bit b i"
  by (simp add: bitmap_abs_def)

lemma elem_idx_less: "bitmap_wf b \<Longrightarrow> i < bit_cnt b \<Longrightarrow> elem_idx i < length (bits b)"
  by (simp add: bitmap_wf_def elem_idx_def ELEM_BITS_def div_less_DIV_ROUND_UP)

lemma wf_sz: "bitmap_wf b \<Longrightarrow> i \<le> bit_cnt b \<Longrightarrow> sz i = i"
  by (simp add: bitmap_wf_def ELEM_BITS_def)

lemma elem_cnt_eq: "n + ELEM_BITS \<le> 2 ^ 32 \<Longrightarrow> elem_cnt n = DIV_ROUND_UP n ELEM_BITS"
  by (simp add: elem_cnt_def DIV_ROUND_UP_def ELEM_BITS_def)

lemma bit_mask_eq: "bit_mask i = 2 ^ (i mod 32)"
  by (simp add: bit_mask_def ELEM_BITS_def push_bit_eq_mult)

lemma bit_mask_bit: "n < 32 \<Longrightarrow> bit (bit_mask i) n \<longleftrightarrow> n = i mod 32"
  by (auto simp: bit_mask_eq bit_exp_iff)

lemma and_bit_mask: "(e AND bit_mask i \<noteq> 0) = bit e (i mod 32)"
  by (simp add: bit_mask_eq and_exp_eq_0_iff_not_bit)

text \<open>Two bit positions share an element and a place in it only when they are equal.\<close>

lemma bit_pos_eq: "i div 32 = j div 32 \<Longrightarrow> i mod 32 = j mod (32::nat) \<longleftrightarrow> i = j"
  by (metis div_mult_mod_eq)

lemma bitmap_mark_ok:
  assumes "bitmap_wf b" and "i < bit_cnt b"
  shows "\<exists>b'. bitmap_mark b i = Some b' \<and> bitmap_wf b' \<and> bit_cnt b' = bit_cnt b \<and>
           (\<forall>j < bit_cnt b. bitmap_bit b' j = (if j = i then True else bitmap_bit b j))"
proof -
  have e: "elem_idx i < length (bits b)" using assms by (rule elem_idx_less)
  show ?thesis
    using e assms(1)
    by (auto simp: bitmap_mark_def bitmap_wf_def bitmap_bit_def Let_def elem_idx_def ELEM_BITS_def
        nth_list_update bit_or_iff bit_mask_bit bit_pos_eq)
qed

lemma bitmap_reset_ok:
  assumes "bitmap_wf b" and "i < bit_cnt b"
  shows "\<exists>b'. bitmap_reset b i = Some b' \<and> bitmap_wf b' \<and> bit_cnt b' = bit_cnt b \<and>
           (\<forall>j < bit_cnt b. bitmap_bit b' j = (if j = i then False else bitmap_bit b j))"
proof -
  have e: "elem_idx i < length (bits b)" using assms by (rule elem_idx_less)
  show ?thesis
    using e assms(1)
    by (auto simp: bitmap_reset_def bitmap_wf_def bitmap_bit_def Let_def elem_idx_def ELEM_BITS_def
        nth_list_update bit_and_iff bit_not_iff bit_mask_bit bit_pos_eq)
qed

lemma bitmap_flip_ok:
  assumes "bitmap_wf b" and "i < bit_cnt b"
  shows "\<exists>b'. bitmap_flip b i = Some b' \<and> bitmap_wf b' \<and> bitmap_abs b' = (bitmap_abs b)[i := \<not> bitmap_abs b ! i]"
proof -
  have e: "elem_idx i < length (bits b)" using assms by (rule elem_idx_less)
  then obtain b' where b': "bitmap_flip b i = Some b'" "bitmap_wf b'" "bit_cnt b' = bit_cnt b"
    "\<forall>j < bit_cnt b. bitmap_bit b' j = (if j = i then \<not> bitmap_bit b j else bitmap_bit b j)"
    using assms(1)
    by (auto simp: bitmap_flip_def bitmap_wf_def bitmap_bit_def Let_def elem_idx_def ELEM_BITS_def
        nth_list_update bit_xor_iff bit_mask_bit bit_pos_eq)
  then show ?thesis
    using assms(2) by (auto intro!: nth_eq_iff simp: nth_list_update)
qed

lemma bitmap_absI:
  assumes "bit_cnt b' = bit_cnt b" and "\<forall>j < bit_cnt b. bitmap_bit b' j = (if j = i then v else bitmap_bit b j)"
  shows "bitmap_abs b' = (bitmap_abs b)[i := v]"
  using assms by (intro nth_eq_iff) (auto simp: nth_list_update)

lemma bitmap_set_abs:
  assumes "bitmap_wf b" and "i < bit_cnt b"
  shows "\<exists>b'. bitmap_set b i v = Some b' \<and> bitmap_wf b' \<and> bitmap_abs b' = (bitmap_abs b)[i := v]"
  using bitmap_mark_ok [OF assms] bitmap_reset_ok [OF assms] assms(2) bitmap_absI
  by (cases v) (fastforce simp: bitmap_set_def)+

lemma bitmap_set_fail: "bit_cnt b \<le> i \<Longrightarrow> bitmap_set b i v = None"
  by (simp add: bitmap_set_def)

lemma bitmap_test_abs:
  "bitmap_wf b \<Longrightarrow> bitmap_test b i = (if i < bit_cnt b then Some (bitmap_abs b ! i) else None)"
  using elem_idx_less [of b i]
  by (simp add: bitmap_test_def and_bit_mask bitmap_bit_def elem_idx_def ELEM_BITS_def)

lemma bit_cnt_abs: "bitmap_abs b' = ys \<Longrightarrow> bit_cnt b' = length ys"
  by (metis length_bitmap_abs)

section \<open>Ranges of bits\<close>

lemma overwrite_step:
  "pos + Suc n \<le> length xs \<Longrightarrow>
   overwrite (xs[pos := v]) (Suc pos) (replicate n v) = overwrite xs pos (replicate (Suc n) v)"
  by (rule nth_eq_iff) (auto simp: overwrite_nth nth_list_update nth_Cons')

lemma bitmap_set_loop_abs:
  "bitmap_wf b \<Longrightarrow> pos + n \<le> bit_cnt b \<Longrightarrow>
   \<exists>b'. bitmap_set_loop b pos n v = Some b' \<and> bitmap_wf b' \<and>
        bitmap_abs b' = overwrite (bitmap_abs b) pos (replicate n v)"
proof (induction n arbitrary: b pos)
  case 0
  then show ?case by simp
next
  case (Suc n)
  obtain b1 where b1: "bitmap_set b pos v = Some b1" "bitmap_wf b1" "bitmap_abs b1 = (bitmap_abs b)[pos := v]"
    using bitmap_set_abs [of b pos v] Suc.prems by auto
  have "Suc pos + n \<le> bit_cnt b1" using bit_cnt_abs [OF b1(3)] Suc.prems by simp
  from Suc.IH [OF b1(2) this] b1 Suc.prems show ?case
    by (auto simp: wf_sz overwrite_step)
qed

lemma bitmap_set_loop_fail:
  "bitmap_wf b \<Longrightarrow> pos \<le> bit_cnt b \<Longrightarrow> bit_cnt b < pos + n \<Longrightarrow> bitmap_set_loop b pos n v = None"
proof (induction n arbitrary: b pos)
  case 0
  then show ?case by simp
next
  case (Suc n)
  show ?case
  proof (cases "pos < bit_cnt b")
    case True
    then obtain b1 where b1: "bitmap_set b pos v = Some b1" "bitmap_wf b1" "bitmap_abs b1 = (bitmap_abs b)[pos := v]"
      using bitmap_set_abs [of b pos v] Suc.prems by auto
    from Suc.IH [of b1 "Suc pos"] b1 True Suc.prems bit_cnt_abs [OF b1(3)] show ?thesis
      by (simp add: wf_sz)
  next
    case False
    with Suc.prems show ?thesis by (simp add: wf_sz bitmap_set_fail)
  qed
qed

lemma bitmap_set_multiple_abs:
  assumes "bitmap_wf b" and "start + cnt \<le> bit_cnt b"
  shows "\<exists>b'. bitmap_set_multiple b start cnt v = Some b' \<and> bitmap_wf b' \<and>
              bitmap_abs b' = overwrite (bitmap_abs b) start (replicate cnt v)"
  using bitmap_set_loop_abs [OF assms, of v] assms by (simp add: bitmap_set_multiple_def wf_sz)

text \<open>The assertion computes \<open>start + cnt\<close> with wrap-around, yet a range that leaves the bitmap is
  always caught: if not there, then by the assertion of \<^verbatim>\<open>bitmap_set\<close>.\<close>

lemma bitmap_set_multiple_fail:
  "bitmap_wf b \<Longrightarrow> bit_cnt b < start + cnt \<Longrightarrow> bitmap_set_multiple b start cnt v = None"
  by (simp add: bitmap_set_multiple_def bitmap_set_loop_fail)

lemma segment_Suc: "pos + Suc n \<le> length xs \<Longrightarrow> segment xs pos (Suc n) = xs ! pos # segment xs (Suc pos) n"
  by (simp add: segment_def Cons_nth_drop_Suc [symmetric])

lemma bitmap_contains_loop_abs:
  "bitmap_wf b \<Longrightarrow> pos + n \<le> bit_cnt b \<Longrightarrow>
   bitmap_contains_loop b pos n v = Some (v \<in> set (segment (bitmap_abs b) pos n))"
proof (induction n arbitrary: pos)
  case 0
  then show ?case by (simp add: segment_def)
next
  case (Suc n)
  then show ?case by (auto simp: wf_sz bitmap_test_abs segment_Suc)
qed

lemma bitmap_contains_abs:
  "bitmap_wf b \<Longrightarrow> start + cnt \<le> bit_cnt b \<Longrightarrow>
   bitmap_contains b start cnt v = Some (v \<in> set (segment (bitmap_abs b) start cnt))"
  by (simp add: bitmap_contains_def wf_sz bitmap_contains_loop_abs)

lemma bitmap_count_loop_abs:
  "bitmap_wf b \<Longrightarrow> pos + n \<le> bit_cnt b \<Longrightarrow>
   bitmap_count_loop b pos n v acc = Some (acc + count_list (segment (bitmap_abs b) pos n) v)"
proof (induction n arbitrary: pos acc)
  case 0
  then show ?case by (simp add: segment_def)
next
  case (Suc n)
  then show ?case by (simp add: wf_sz bitmap_test_abs segment_Suc)
qed

lemma bitmap_count_abs:
  "bitmap_wf b \<Longrightarrow> start + cnt \<le> bit_cnt b \<Longrightarrow>
   bitmap_count b start cnt v = Some (count_list (segment (bitmap_abs b) start cnt) v)"
  by (simp add: bitmap_count_def wf_sz bitmap_count_loop_abs)

lemma bitmap_all_abs:
  "bitmap_wf b \<Longrightarrow> start + cnt \<le> bit_cnt b \<Longrightarrow>
   bitmap_all b start cnt = Some (\<forall>x \<in> set (segment (bitmap_abs b) start cnt). x)"
  by (simp add: bitmap_all_def bitmap_contains_abs) (metis (full_types))

section \<open>Scanning\<close>

text \<open>\<open>run_at xs i n v\<close>: the \<open>n\<close> bits from \<open>i\<close> on exist and all have the value \<open>v\<close>.\<close>

definition run_at :: "bool list \<Rightarrow> nat \<Rightarrow> nat \<Rightarrow> bool \<Rightarrow> bool" where
  "run_at xs i n v \<longleftrightarrow> i + n \<le> length xs \<and> (\<forall>x \<in> set (segment xs i n). x = v)"

lemma run_at_nth: "run_at xs i n v \<longleftrightarrow> i + n \<le> length xs \<and> (\<forall>j. i \<le> j \<and> j < i + n \<longrightarrow> xs ! j = v)"
proof -
  have "(\<forall>x \<in> set (segment xs i n). x = v) \<longleftrightarrow> (\<forall>j. i \<le> j \<and> j < i + n \<longrightarrow> xs ! j = v)" if "i + n \<le> length xs"
  proof -
    have "(\<forall>k < n. xs ! (i + k) = v) \<longleftrightarrow> (\<forall>j. i \<le> j \<and> j < i + n \<longrightarrow> xs ! j = v)"
    proof
      assume h: "\<forall>k < n. xs ! (i + k) = v"
      show "\<forall>j. i \<le> j \<and> j < i + n \<longrightarrow> xs ! j = v"
      proof (intro allI impI)
        fix j assume j: "i \<le> j \<and> j < i + n"
        then have "j - i < n" and "i + (j - i) = j" by arith+
        with h show "xs ! j = v" by metis
      qed
    qed simp
    then show ?thesis using that by (auto simp: segment_map)
  qed
  then show ?thesis by (auto simp: run_at_def)
qed

lemma bitmap_scan_loop_abs:
  "bitmap_wf b \<Longrightarrow> i + n + cnt = Suc (bit_cnt b) \<or> n = 0 \<Longrightarrow>
   bitmap_scan_loop b i n cnt v =
     Some (case find (\<lambda>k. run_at (bitmap_abs b) k cnt v) [i..<i + n] of None \<Rightarrow> BITMAP_ERROR | Some k \<Rightarrow> k)"
proof (induction n arbitrary: i)
  case 0
  then show ?case by simp
next
  case (Suc n)
  then have le: "i + cnt \<le> bit_cnt b" by simp
  have c: "bitmap_contains b i cnt (\<not> v) = Some (\<not> run_at (bitmap_abs b) i cnt v)"
    using le Suc.prems by (auto simp: bitmap_contains_abs run_at_def)
  have "[i..<i + Suc n] = i # [Suc i..<Suc i + n]" by (simp add: upt_rec)
  then show ?case using Suc.IH [of "Suc i"] Suc.prems c by auto
qed

lemma bitmap_scan_abs:
  assumes "bitmap_wf b" and "start \<le> bit_cnt b"
  shows "bitmap_scan b start cnt v =
     Some (case find (\<lambda>k. run_at (bitmap_abs b) k cnt v) [start..<Suc (bit_cnt b) - cnt] of
             None \<Rightarrow> BITMAP_ERROR | Some k \<Rightarrow> k)"
proof (cases "cnt \<le> bit_cnt b")
  case True
  show ?thesis
  proof (cases "start \<le> bit_cnt b - cnt")
    case True
    with \<open>cnt \<le> bit_cnt b\<close> have "start + (Suc (bit_cnt b - cnt) - start) + cnt = Suc (bit_cnt b)" by simp
    note loop = bitmap_scan_loop_abs [OF assms(1) disjI1, OF this, of v]
    from True \<open>cnt \<le> bit_cnt b\<close> have "start + (Suc (bit_cnt b - cnt) - start) = Suc (bit_cnt b) - cnt" by simp
    with loop assms(2) \<open>cnt \<le> bit_cnt b\<close> show ?thesis
      unfolding bitmap_scan_def Let_def by (simp del: bitmap_scan_loop.simps upt_Suc)
  next
    case False
    with \<open>cnt \<le> bit_cnt b\<close> assms show ?thesis by (simp add: bitmap_scan_def)
  qed
next
  case False
  with assms show ?thesis by (simp add: bitmap_scan_def)
qed

lemma find_upt_Some_iff:
  "find P [a..<b] = Some i \<longleftrightarrow> a \<le> i \<and> i < b \<and> P i \<and> (\<forall>j. a \<le> j \<and> j < i \<longrightarrow> \<not> P j)"
proof (induction "b - a" arbitrary: a)
  case 0
  then show ?case by auto
next
  case (Suc n)
  then have "[a..<b] = a # [Suc a..<b]" by (simp add: upt_conv_Cons)
  with Suc show ?case by (auto simp: Suc_le_eq dest: le_neq_implies_less)
qed

text \<open>\<open>bitmap_scan\<close> returns the start of the first run, and \<open>BITMAP_ERROR\<close> only when there is none.\<close>

lemma bitmap_scan_cases:
  assumes "bitmap_wf b" and "start \<le> bit_cnt b" and "0 < cnt"
  obtains (found) i where "bitmap_scan b start cnt v = Some i" and "i \<noteq> BITMAP_ERROR"
      and "start \<le> i" and "run_at (bitmap_abs b) i cnt v"
      and "\<And>j. start \<le> j \<Longrightarrow> j < i \<Longrightarrow> \<not> run_at (bitmap_abs b) j cnt v"
    | (missing) "bitmap_scan b start cnt v = Some BITMAP_ERROR"
      and "\<And>j. start \<le> j \<Longrightarrow> \<not> run_at (bitmap_abs b) j cnt v"
proof (cases "find (\<lambda>k. run_at (bitmap_abs b) k cnt v) [start..<Suc (bit_cnt b) - cnt]")
  case None
  have "\<not> run_at (bitmap_abs b) j cnt v" if "start \<le> j" for j
    using None that by (auto simp: find_None_iff run_at_def)
  with None missing show ?thesis using bitmap_scan_abs [OF assms(1,2), of cnt v] by simp
next
  case (Some i)
  then have i: "start \<le> i" "run_at (bitmap_abs b) i cnt v"
    "\<And>j. start \<le> j \<Longrightarrow> j < i \<Longrightarrow> \<not> run_at (bitmap_abs b) j cnt v"
    by (auto simp: find_upt_Some_iff)
  moreover have "i \<noteq> BITMAP_ERROR"
    using i(2) assms(1,3) by (auto simp: run_at_def bitmap_wf_def BITMAP_ERROR_def SIZE_MAX_def ELEM_BITS_def)
  ultimately show ?thesis using Some found bitmap_scan_abs [OF assms(1,2), of cnt v] by simp
qed

section \<open>The allocator contract\<close>

text \<open>
  What a table of slots promises to the code that allocates from it: \<open>alloc s n\<close> takes a run of \<open>n\<close>
  free slots (or reports that there is none, changing nothing), \<open>release s i n\<close> gives a run back.
\<close>

locale slot_source =
  fixes alloc :: "'s \<Rightarrow> nat \<Rightarrow> (nat option \<times> 's) option"
    and used :: "'s \<Rightarrow> nat set"
    and cap :: "'s \<Rightarrow> nat"
    and invar :: "'s \<Rightarrow> bool"
  assumes alloc_returns: "invar s \<Longrightarrow> 0 < n \<Longrightarrow> \<exists>r. alloc s n = Some r"
    and alloc_found: "invar s \<Longrightarrow> 0 < n \<Longrightarrow> alloc s n = Some (Some i, s') \<Longrightarrow>
      invar s' \<and> cap s' = cap s \<and> i + n \<le> cap s \<and> {i..<i + n} \<inter> used s = {} \<and> used s' = used s \<union> {i..<i + n}"
    and alloc_missing: "invar s \<Longrightarrow> 0 < n \<Longrightarrow> alloc s n = Some (None, s') \<Longrightarrow>
      s' = s \<and> (\<forall>i. i + n \<le> cap s \<longrightarrow> {i..<i + n} \<inter> used s \<noteq> {})"
begin

lemma alloc_disjoint:
  assumes "invar s" and "0 < n" and "0 < m"
    and "alloc s n = Some (Some i, s1)" and "alloc s1 m = Some (Some j, s2)"
  shows "{i..<i + n} \<inter> {j..<j + m} = {} \<and> used s2 = used s \<union> {i..<i + n} \<union> {j..<j + m}"
proof -
  have 1: "invar s1" "used s1 = used s \<union> {i..<i + n}" using alloc_found [OF assms(1,2,4)] by simp_all
  have "{j..<j + m} \<inter> used s1 = {}" "used s2 = used s1 \<union> {j..<j + m}"
    using alloc_found [OF 1(1) assms(3,5)] by simp_all
  with 1(2) show ?thesis by blast
qed

end

locale slot_allocator = slot_source alloc used cap invar
  for alloc :: "'s \<Rightarrow> nat \<Rightarrow> (nat option \<times> 's) option" and used cap invar +
  fixes release :: "'s \<Rightarrow> nat \<Rightarrow> nat \<Rightarrow> 's option"
  assumes release_returns: "invar s \<Longrightarrow> i + n \<le> cap s \<Longrightarrow> {i..<i + n} \<subseteq> used s \<Longrightarrow>
      \<exists>s'. release s i n = Some s' \<and> invar s' \<and> cap s' = cap s \<and> used s' = used s - {i..<i + n}"
begin

lemma alloc_release:
  assumes "invar s" and "0 < n" and "alloc s n = Some (Some i, s1)"
  shows "\<exists>s2. release s1 i n = Some s2 \<and> invar s2 \<and> cap s2 = cap s \<and> used s2 = used s"
proof -
  have s1: "invar s1" "cap s1 = cap s" "i + n \<le> cap s" "{i..<i + n} \<inter> used s = {}" "used s1 = used s \<union> {i..<i + n}"
    using alloc_found [OF assms] by simp_all
  obtain s2 where "release s1 i n = Some s2" "invar s2" "cap s2 = cap s1" "used s2 = used s1 - {i..<i + n}"
    using release_returns [OF s1(1), of i n] s1 by auto
  moreover have "used s1 - {i..<i + n} = used s" using s1(4,5) by blast
  ultimately show ?thesis using s1(2) by auto
qed

lemma release_then_alloc:
  assumes "invar s" and "0 < n" and "i + n \<le> cap s" and "{i..<i + n} \<subseteq> used s" and "release s i n = Some s1"
  shows "\<exists>j s2. alloc s1 n = Some (Some j, s2)"
proof -
  have s1: "invar s1" "cap s1 = cap s" "used s1 = used s - {i..<i + n}"
    using release_returns [OF assms(1,3,4)] assms(5) by auto
  obtain r s2 where r: "alloc s1 n = Some (r, s2)" using alloc_returns [OF s1(1) assms(2)] by auto
  have "r \<noteq> None" using alloc_missing [OF s1(1) assms(2), of s2] r s1 assms(3) by fastforce
  with r show ?thesis by auto
qed

end

definition bitmap_alloc :: "bitmap \<Rightarrow> nat \<Rightarrow> (nat option \<times> bitmap) option" where
  "bitmap_alloc b n = map_option (\<lambda>(i, b'). (if i = BITMAP_ERROR then None else Some i, b'))
     (bitmap_scan_and_flip b 0 n False)"

definition bitmap_release :: "bitmap \<Rightarrow> nat \<Rightarrow> nat \<Rightarrow> bitmap option" where
  "bitmap_release b i n = bitmap_set_multiple b i n False"

definition bitmap_used :: "bitmap \<Rightarrow> nat set" where
  "bitmap_used b = {i. i < bit_cnt b \<and> bitmap_abs b ! i}"

lemma bitmap_used_overwrite:
  assumes "bitmap_abs b' = overwrite (bitmap_abs b) i (replicate n v)" and "i + n \<le> bit_cnt b"
  shows "bitmap_used b' = (if v then bitmap_used b \<union> {i..<i + n} else bitmap_used b - {i..<i + n})"
    and "bit_cnt b' = bit_cnt b"
proof -
  show c: "bit_cnt b' = bit_cnt b" using bit_cnt_abs [OF assms(1)] assms(2) by simp
  show "bitmap_used b' = (if v then bitmap_used b \<union> {i..<i + n} else bitmap_used b - {i..<i + n})"
    unfolding bitmap_used_def assms(1) c using assms(2) by (auto simp: overwrite_nth split: if_splits)
qed

lemma run_at_used: "run_at (bitmap_abs b) i n False \<longleftrightarrow> i + n \<le> bit_cnt b \<and> {i..<i + n} \<inter> bitmap_used b = {}"
  by (auto simp: run_at_nth bitmap_used_def)

text \<open>What \<^verbatim>\<open>bitmap_scan_and_flip (b, 0, cnt, false)\<close> does, branch by branch.\<close>

lemma bitmap_alloc_cases:
  assumes "bitmap_wf b" and "0 < n"
  obtains (found) i b' where "bitmap_alloc b n = Some (Some i, b')" and "run_at (bitmap_abs b) i n False"
      and "bitmap_wf b'" and "bitmap_abs b' = overwrite (bitmap_abs b) i (replicate n True)"
      and "\<And>j. j < i \<Longrightarrow> \<not> run_at (bitmap_abs b) j n False"
    | (missing) "bitmap_alloc b n = Some (None, b)" and "\<And>j. \<not> run_at (bitmap_abs b) j n False"
proof (cases rule: bitmap_scan_cases [OF assms(1) le0 assms(2), of False])
  case (1 i)
  then have "i + n \<le> bit_cnt b" by (simp add: run_at_def)
  from bitmap_set_multiple_abs [OF assms(1) this, of True] 1 found show ?thesis
    by (auto simp: bitmap_alloc_def bitmap_scan_and_flip_def)
next
  case 2
  with missing show ?thesis by (auto simp: bitmap_alloc_def bitmap_scan_and_flip_def)
qed

interpretation bm: slot_allocator bitmap_alloc bitmap_used bit_cnt bitmap_wf bitmap_release
proof (unfold_locales, goal_cases)
  case (1 s n)
  then show ?case by (cases rule: bitmap_alloc_cases) auto
next
  case (2 s n i s')
  from 2(1,2) show ?case
    using 2(3) bitmap_used_overwrite [of s' s i n True]
    by (cases rule: bitmap_alloc_cases) (auto simp: run_at_used)
next
  case (3 s n s')
  from 3(1,2) show ?case
    using 3(3) by (cases rule: bitmap_alloc_cases) (auto simp: run_at_used)
next
  case (4 s i n)
  from bitmap_set_multiple_abs [OF 4(1,2), of False] bitmap_used_overwrite [of _ s i n False] 4(2) show ?case
    by (fastforce simp: bitmap_release_def)
qed

section \<open>The bitmap in a file\<close>

lemma elem_bytes_roundtrip: "elems_of_bytes (elem_bytes e @ bs) = e # elems_of_bytes bs"
proof -
  have "ucast (ucast e :: u8) OR push_bit 8 (ucast (ucast (drop_bit 8 e) :: u8)) OR
        push_bit 16 (ucast (ucast (drop_bit 16 e) :: u8)) OR push_bit 24 (ucast (ucast (drop_bit 24 e) :: u8)) = e"
    (is "?l = e")
  proof (rule bit_word_eqI)
    fix n assume "n < LENGTH(32)"
    then show "bit ?l n = bit e n"
      by (cases "n < 8"; cases "n < 16"; cases "n < 24") (auto simp: bit_simps)
  qed
  then show ?thesis by (simp add: elem_bytes_def)
qed

lemma bitmap_bytes_roundtrip: "elems_of_bytes (concat (map elem_bytes es)) = es"
  by (induction es) (simp_all add: elem_bytes_roundtrip)

lemma length_bitmap_bytes: "length (bitmap_bytes b) = 4 * length (bits b)"
proof -
  have "length (concat (map elem_bytes es)) = 4 * length es" for es
    by (induction es) (auto simp: elem_bytes_def)
  then show ?thesis by (simp add: bitmap_bytes_def)
qed

lemma last_mask_bit: "n < 32 \<Longrightarrow> bit (last_mask b) n \<longleftrightarrow> bit_cnt b mod 32 = 0 \<or> n < bit_cnt b mod 32"
  by (auto simp: last_mask_def Let_def ELEM_BITS_def push_bit_eq_mult bit_simps simp flip: mask_eq_exp_minus_1)

section \<open>Properties\<close>

text \<open>
  \<^verbatim>\<open>bitmap_scan_and_flip\<close> is first fit. On a well-formed bitmap it returns the lowest index at or after
  \<open>start\<close> where \<open>cnt\<close> bits in a row have the value \<open>v\<close>, and flips exactly these bits; when there is no such
  group it returns \<^verbatim>\<open>BITMAP_ERROR\<close> and leaves the bitmap alone.
\<close>

theorem bitmap_first_fit:
  assumes "bitmap_wf b" and "start \<le> bit_cnt b" and "0 < cnt"
  shows "(\<exists>i b'. bitmap_scan_and_flip b start cnt v = Some (i, b') \<and> bitmap_wf b' \<and> start \<le> i \<and> run_at (bitmap_abs b) i cnt v \<and>
      (\<forall>j. start \<le> j \<and> j < i \<longrightarrow> \<not> run_at (bitmap_abs b) j cnt v) \<and>
      bitmap_abs b' = overwrite (bitmap_abs b) i (replicate cnt (\<not> v))) \<or>
    (bitmap_scan_and_flip b start cnt v = Some (BITMAP_ERROR, b) \<and> (\<forall>j. start \<le> j \<longrightarrow> \<not> run_at (bitmap_abs b) j cnt v))"
proof (cases rule: bitmap_scan_cases [OF assms, of v])
  case (1 i)
  then have "i + cnt \<le> bit_cnt b" by (simp add: run_at_def)
  from bitmap_set_multiple_abs [OF assms(1) this, of "\<not> v"] 1 show ?thesis
    by (auto simp: bitmap_scan_and_flip_def)
next
  case 2
  then show ?thesis by (auto simp: bitmap_scan_and_flip_def)
qed

definition demo_bitmap :: bitmap where
  "demo_bitmap = \<lparr>bit_cnt = 40, bits = [0x0000000f, 0]\<rparr>"

lemma demo_bitmap_wf: "bitmap_wf demo_bitmap" "bit_cnt demo_bitmap = 40"
  by (simp_all add: bitmap_wf_def demo_bitmap_def ELEM_BITS_def DIV_ROUND_UP_def)

theorem bitmap_first_fit_witness: "\<exists>i b'. bitmap_scan_and_flip demo_bitmap 0 3 False = Some (i, b')"
  using bitmap_first_fit [of demo_bitmap 0 3 False] demo_bitmap_wf by auto

text \<open>
  two allocations from the same bitmap never overlap: if runs of \<open>n\<close> and then \<open>m\<close> clear bits were
  found and set, the two runs are disjoint, and the bits in use afterwards are those in use before
  and the two runs. This is what makes the free map, the page allocator and the swap table safe.
\<close>

theorem bitmap_allocations_disjoint:
  assumes "bitmap_wf b" and "0 < n" and "0 < m"
    and "bitmap_scan_and_flip b 0 n False = Some (i, b1)" and "i \<noteq> BITMAP_ERROR"
    and "bitmap_scan_and_flip b1 0 m False = Some (j, b2)" and "j \<noteq> BITMAP_ERROR"
  shows "{i..<i + n} \<inter> {j..<j + m} = {} \<and> bitmap_used b2 = bitmap_used b \<union> {i..<i + n} \<union> {j..<j + m}"
  by (rule bm.alloc_disjoint [of b n m i b1 j b2]) (use assms in \<open>auto simp: bitmap_alloc_def\<close>)

lemma run_at_one: "run_at xs i (Suc 0) v \<longleftrightarrow> i < length xs \<and> xs ! i = v"
proof -
  have "(\<forall>j. i \<le> j \<and> j < i + Suc 0 \<longrightarrow> P j) \<longleftrightarrow> P i" for P by (metis add.commute add_Suc leI le_add1 less_Suc_eq_le le_antisym plus_nat.add_0 lessI)
  then show ?thesis unfolding run_at_nth by (simp add: Suc_le_eq)
qed

lemma demo_two_allocations:
  "\<exists>i b1 j b2. bitmap_scan_and_flip demo_bitmap 0 1 False = Some (i, b1) \<and> i \<noteq> BITMAP_ERROR \<and>
     bitmap_scan_and_flip b1 0 1 False = Some (j, b2) \<and> j \<noteq> BITMAP_ERROR"
proof -
  have clear: "\<not> bitmap_bit demo_bitmap 4" "\<not> bitmap_bit demo_bitmap 5" by (simp_all add: bitmap_bit_def demo_bitmap_def ELEM_BITS_def)
  then have free: "run_at (bitmap_abs demo_bitmap) 4 1 False" "run_at (bitmap_abs demo_bitmap) 5 1 False"
    using demo_bitmap_wf(2) by (auto simp: run_at_one)
  obtain i b1 where b1: "bitmap_alloc demo_bitmap 1 = Some (Some i, b1)" "bitmap_wf b1" "i \<le> 4"
    "bitmap_abs b1 = overwrite (bitmap_abs demo_bitmap) i (replicate 1 True)" "i + 1 \<le> bit_cnt demo_bitmap"
  proof (cases rule: bitmap_alloc_cases [OF demo_bitmap_wf(1) zero_less_one])
    case (1 i b')
    have "i \<le> 4" using 1(5) [of 4] free(1) by (meson not_le)
    moreover have "i + 1 \<le> bit_cnt demo_bitmap" using 1(2) by (simp add: run_at_def)
    ultimately show thesis using 1(1,3,4) that by blast
  next
    case 2
    then show thesis using free(1) by blast
  qed
  have "length (bitmap_abs b1) = 40" using b1(3,4) demo_bitmap_wf(2) by simp
  then have free5: "run_at (bitmap_abs b1) 5 1 False"
    using b1(3,4) free(2) demo_bitmap_wf(2) by (auto simp: run_at_one overwrite_nth)
  obtain j b2 where b2: "bitmap_alloc b1 1 = Some (Some j, b2)"
    using free5 by (cases rule: bitmap_alloc_cases [OF b1(2) zero_less_one]) blast+
  show ?thesis using b1(1) b2 by (auto simp: bitmap_alloc_def split: if_splits)
qed

theorem bitmap_allocations_disjoint_witness:
  "\<exists>i b1 j b2. bitmap_scan_and_flip demo_bitmap 0 1 False = Some (i, b1) \<and>
     bitmap_scan_and_flip b1 0 1 False = Some (j, b2) \<and> {i..<i + 1} \<inter> {j..<j + 1} = {}"
proof -
  obtain i b1 j b2 where r: "bitmap_scan_and_flip demo_bitmap 0 1 False = Some (i, b1)" "i \<noteq> BITMAP_ERROR"
    "bitmap_scan_and_flip b1 0 1 False = Some (j, b2)" "j \<noteq> BITMAP_ERROR"
    using demo_two_allocations by blast
  from bitmap_allocations_disjoint [OF demo_bitmap_wf(1) _ _ r] r(1,3) show ?thesis by simp
qed

text \<open>
  a bitmap survives a round trip through a file: what \<^verbatim>\<open>bitmap_read\<close> makes of the bytes \<^verbatim>\<open>bitmap_write\<close>
  wrote has the same bits, whatever the bitmap it is read into held before.
\<close>

theorem bitmap_file_roundtrip:
  assumes wf: "bitmap_wf b" "bitmap_wf b'" and cnt: "bit_cnt b' = bit_cnt b"
  shows "\<exists>b''. bitmap_read_bytes b' (bitmap_bytes b) = Some b'' \<and> bitmap_wf b'' \<and> bitmap_abs b'' = bitmap_abs b"
proof (cases "bit_cnt b = 0")
  case True
  then show ?thesis using wf cnt by (intro exI [of _ b']) (simp add: bitmap_read_bytes_def bitmap_abs_def)
next
  case False
  let ?k = "elem_cnt (bit_cnt b) - 1"
  have len: "length (bits b') = length (bits b)" using wf cnt by (simp add: bitmap_wf_def)
  have es: "overwrite (bits b') 0 (elems_of_bytes (bitmap_bytes b)) = bits b"
    using len by (simp add: bitmap_bytes_def bitmap_bytes_roundtrip overwrite_all)
  have n: "length (bits b) = (bit_cnt b - 1) div 32 + 1" and k: "?k = (bit_cnt b - 1) div 32"
    using wf(1) False by (simp_all add: bitmap_wf_def elem_cnt_def elem_cnt_eq ELEM_BITS_def DIV_ROUND_UP_pred)
  let ?b = "b'\<lparr>bits := (bits b)[?k := bits b ! ?k AND last_mask b']\<rparr>"
  have "bitmap_read_bytes b' (bitmap_bytes b) = Some ?b"
    using False cnt es n k by (simp add: bitmap_read_bytes_def Let_def)
  moreover have "bitmap_wf ?b" using wf cnt by (simp add: bitmap_wf_def)
  moreover have "bitmap_bit ?b i = bitmap_bit b i" if i: "i < bit_cnt b" for i
  proof (cases "i div 32 = ?k")
    case True
    have "i mod 32 < bit_cnt b mod 32" if "bit_cnt b mod 32 \<noteq> 0"
    proof -
      have "(bit_cnt b - 1) div 32 = bit_cnt b div 32" using that by (metis (no_types) Suc_pred' div_Suc False mod_Suc neq0_conv)
      then show ?thesis using True k i by (metis div_mult_mod_eq nat_add_left_cancel_less)
    qed
    then show ?thesis using True n k cnt by (auto simp: bitmap_bit_def ELEM_BITS_def bit_and_iff last_mask_bit)
  next
    case False
    then show ?thesis by (simp add: bitmap_bit_def ELEM_BITS_def)
  qed
  ultimately show ?thesis using cnt by (intro exI [of _ ?b]) (auto simp: bitmap_abs_def)
qed

theorem bitmap_file_roundtrip_witness:
  "\<exists>b''. bitmap_read_bytes \<lparr>bit_cnt = 40, bits = [0, 0]\<rparr> (bitmap_bytes demo_bitmap) = Some b'' \<and> bitmap_abs b'' = bitmap_abs demo_bitmap"
  using bitmap_file_roundtrip [of demo_bitmap "\<lparr>bit_cnt = 40, bits = [0, 0]\<rparr>"] demo_bitmap_wf
  by (auto simp: bitmap_wf_def ELEM_BITS_def DIV_ROUND_UP_def)

end
