(* ===== verification/Kernel_List.thy ===== *)
theory Kernel_List
  imports Prelude "HOL-Library.Multiset"
begin

text \<open>
  Doubly linked lists, \<^verbatim>\<open>lib/kernel/list.c\<close>. List elements live in a heap that maps an address to the
  \<^verbatim>\<open>prev\<close> and \<^verbatim>\<open>next\<close> pointers of the \<^verbatim>\<open>struct list_elem\<close> stored there; every pointer assignment of
  the source is one update of that heap, so aliasing is the C code's. A list is the pair of
  addresses of its two header elements. Loops over the heap are \<^verbatim>\<open>partial_function\<close>s: on a heap that
  is not a list they may not return, on a list they are shown to. The relation \<open>dlist h l xs\<close> says
  that in heap \<open>h\<close> the list \<open>l\<close> holds exactly the elements \<open>xs\<close>, in that order.
\<close>

section \<open>The heap of list elements\<close>

type_synonym ptr = nat

abbreviation (input) NULL :: ptr where
  "NULL \<equiv> 0"

record list_elem =
  prv :: ptr
  nxt :: ptr

type_synonym heap = "ptr \<rightharpoonup> list_elem"

record klist =
  l_head :: ptr
  l_tail :: ptr

definition get_prev :: "heap \<Rightarrow> ptr \<Rightarrow> ptr option" where
  "get_prev h p = map_option prv (h p)"

definition get_next :: "heap \<Rightarrow> ptr \<Rightarrow> ptr option" where
  "get_next h p = map_option nxt (h p)"

definition upd_prev :: "heap \<Rightarrow> ptr \<Rightarrow> ptr \<Rightarrow> heap" where
  "upd_prev h p v = h(p := map_option (prv_update (\<lambda>_. v)) (h p))"

definition upd_next :: "heap \<Rightarrow> ptr \<Rightarrow> ptr \<Rightarrow> heap" where
  "upd_next h p v = h(p := map_option (nxt_update (\<lambda>_. v)) (h p))"

text \<open>An assignment through a pointer that points to no element stops the kernel.\<close>

definition set_prev :: "heap \<Rightarrow> ptr \<Rightarrow> ptr \<Rightarrow> heap option" where
  "set_prev h p v = (if p \<in> dom h then Some (upd_prev h p v) else None)"

definition set_next :: "heap \<Rightarrow> ptr \<Rightarrow> ptr \<Rightarrow> heap option" where
  "set_next h p v = (if p \<in> dom h then Some (upd_next h p v) else None)"

section \<open>The operations of list.c\<close>

definition is_head :: "heap \<Rightarrow> ptr \<Rightarrow> bool" where
  "is_head h e = (e \<noteq> NULL \<and> (case h e of None \<Rightarrow> False | Some n \<Rightarrow> prv n = NULL \<and> nxt n \<noteq> NULL))"

definition is_interior :: "heap \<Rightarrow> ptr \<Rightarrow> bool" where
  "is_interior h e = (e \<noteq> NULL \<and> (case h e of None \<Rightarrow> False | Some n \<Rightarrow> prv n \<noteq> NULL \<and> nxt n \<noteq> NULL))"

definition is_tail :: "heap \<Rightarrow> ptr \<Rightarrow> bool" where
  "is_tail h e = (e \<noteq> NULL \<and> (case h e of None \<Rightarrow> False | Some n \<Rightarrow> prv n \<noteq> NULL \<and> nxt n = NULL))"

definition list_init :: "heap \<Rightarrow> klist \<Rightarrow> heap option" where
  "list_init h l = do {
     h \<leftarrow> set_prev h (l_head l) NULL;
     h \<leftarrow> set_next h (l_head l) (l_tail l);
     h \<leftarrow> set_prev h (l_tail l) (l_head l);
     set_next h (l_tail l) NULL }"

definition list_begin :: "heap \<Rightarrow> klist \<Rightarrow> ptr option" where
  "list_begin h l = get_next h (l_head l)"

definition list_next :: "heap \<Rightarrow> ptr \<Rightarrow> ptr option" where
  "list_next h e = do { ASSERT (is_head h e \<or> is_interior h e); get_next h e }"

definition list_end :: "klist \<Rightarrow> ptr" where
  "list_end l = l_tail l"

definition list_rbegin :: "heap \<Rightarrow> klist \<Rightarrow> ptr option" where
  "list_rbegin h l = get_prev h (l_tail l)"

definition list_prev :: "heap \<Rightarrow> ptr \<Rightarrow> ptr option" where
  "list_prev h e = do { ASSERT (is_interior h e \<or> is_tail h e); get_prev h e }"

definition list_rend :: "klist \<Rightarrow> ptr" where
  "list_rend l = l_head l"

definition list_head :: "klist \<Rightarrow> ptr" where
  "list_head l = l_head l"

definition list_tail :: "klist \<Rightarrow> ptr" where
  "list_tail l = l_tail l"

definition list_insert :: "heap \<Rightarrow> ptr \<Rightarrow> ptr \<Rightarrow> heap option" where
  "list_insert h before e = do {
     ASSERT (is_interior h before \<or> is_tail h before);
     ASSERT (e \<noteq> NULL);
     bp \<leftarrow> get_prev h before;
     h \<leftarrow> set_prev h e bp;
     h \<leftarrow> set_next h e before;
     bp \<leftarrow> get_prev h before;
     h \<leftarrow> set_next h bp e;
     set_prev h before e }"

definition list_splice :: "heap \<Rightarrow> ptr \<Rightarrow> ptr \<Rightarrow> ptr \<Rightarrow> heap option" where
  "list_splice h before first lst = do {
     ASSERT (is_interior h before \<or> is_tail h before);
     if first = lst then Some h else do {
       lst \<leftarrow> list_prev h lst;
       ASSERT (is_interior h first);
       ASSERT (is_interior h lst);
       fp \<leftarrow> get_prev h first;
       ln \<leftarrow> get_next h lst;
       h \<leftarrow> set_next h fp ln;
       ln \<leftarrow> get_next h lst;
       fp \<leftarrow> get_prev h first;
       h \<leftarrow> set_prev h ln fp;
       bp \<leftarrow> get_prev h before;
       h \<leftarrow> set_prev h first bp;
       h \<leftarrow> set_next h lst before;
       bp \<leftarrow> get_prev h before;
       h \<leftarrow> set_next h bp first;
       set_prev h before lst } }"

definition list_push_front :: "heap \<Rightarrow> klist \<Rightarrow> ptr \<Rightarrow> heap option" where
  "list_push_front h l e = do { b \<leftarrow> list_begin h l; list_insert h b e }"

definition list_push_back :: "heap \<Rightarrow> klist \<Rightarrow> ptr \<Rightarrow> heap option" where
  "list_push_back h l e = list_insert h (list_end l) e"

definition list_remove :: "heap \<Rightarrow> ptr \<Rightarrow> (ptr \<times> heap) option" where
  "list_remove h e = do {
     ASSERT (is_interior h e);
     ep \<leftarrow> get_prev h e;
     en \<leftarrow> get_next h e;
     h \<leftarrow> set_next h ep en;
     en \<leftarrow> get_next h e;
     ep \<leftarrow> get_prev h e;
     h \<leftarrow> set_prev h en ep;
     r \<leftarrow> get_next h e;
     Some (r, h) }"

definition list_empty :: "heap \<Rightarrow> klist \<Rightarrow> bool option" where
  "list_empty h l = do { b \<leftarrow> list_begin h l; Some (b = list_end l) }"

definition list_front :: "heap \<Rightarrow> klist \<Rightarrow> ptr option" where
  "list_front h l = do { em \<leftarrow> list_empty h l; ASSERT (\<not> em); get_next h (l_head l) }"

definition list_back :: "heap \<Rightarrow> klist \<Rightarrow> ptr option" where
  "list_back h l = do { em \<leftarrow> list_empty h l; ASSERT (\<not> em); get_prev h (l_tail l) }"

definition list_pop_front :: "heap \<Rightarrow> klist \<Rightarrow> (ptr \<times> heap) option" where
  "list_pop_front h l = do { f \<leftarrow> list_front h l; (_, h) \<leftarrow> list_remove h f; Some (f, h) }"

definition list_pop_back :: "heap \<Rightarrow> klist \<Rightarrow> (ptr \<times> heap) option" where
  "list_pop_back h l = do { b \<leftarrow> list_back h l; (_, h) \<leftarrow> list_remove h b; Some (b, h) }"

partial_function (option) list_size_loop :: "heap \<Rightarrow> ptr \<Rightarrow> ptr \<Rightarrow> nat \<Rightarrow> nat option" where
  "list_size_loop h e fin cnt =
     (if e = fin then Some cnt
      else do { e' \<leftarrow> list_next h e; list_size_loop h e' fin (sz (cnt + 1)) })"

definition list_size :: "heap \<Rightarrow> klist \<Rightarrow> nat option" where
  "list_size h l = do { b \<leftarrow> list_begin h l; list_size_loop h b (list_end l) 0 }"

partial_function (option) list_reverse_loop :: "heap \<Rightarrow> ptr \<Rightarrow> ptr \<Rightarrow> heap option" where
  "list_reverse_loop h e fin =
     (if e = fin then Some h
      else do {
        p \<leftarrow> get_prev h e;
        n \<leftarrow> get_next h e;
        h \<leftarrow> set_prev h e n;
        h \<leftarrow> set_next h e p;
        e' \<leftarrow> get_prev h e;
        list_reverse_loop h e' fin })"

definition list_reverse :: "heap \<Rightarrow> klist \<Rightarrow> heap option" where
  "list_reverse h l = do {
     em \<leftarrow> list_empty h l;
     if em then Some h else do {
       b \<leftarrow> list_begin h l;
       h \<leftarrow> list_reverse_loop h b (list_end l);
       hn \<leftarrow> get_next h (l_head l);
       tp \<leftarrow> get_prev h (l_tail l);
       h \<leftarrow> set_next h (l_head l) tp;
       h \<leftarrow> set_prev h (l_tail l) hn;
       f \<leftarrow> get_next h (l_head l);
       b \<leftarrow> get_prev h (l_tail l);
       fp \<leftarrow> get_prev h f;
       bn \<leftarrow> get_next h b;
       h \<leftarrow> set_prev h f bn;
       set_next h b fp } }"

text \<open>The comparison \<^verbatim>\<open>less (a, b, aux)\<close> reads the structures the elements are embedded in, which the
  list code never changes; it is a parameter on addresses.\<close>

type_synonym less_fn = "ptr \<Rightarrow> ptr \<Rightarrow> bool"

partial_function (option) is_sorted_loop :: "heap \<Rightarrow> ptr \<Rightarrow> ptr \<Rightarrow> less_fn \<Rightarrow> bool option" where
  "is_sorted_loop h a b lt = do {
     a' \<leftarrow> list_next h a;
     if a' = b then Some True
     else do {
       p \<leftarrow> list_prev h a';
       if lt a' p then Some False else is_sorted_loop h a' b lt } }"

definition is_sorted :: "heap \<Rightarrow> ptr \<Rightarrow> ptr \<Rightarrow> less_fn \<Rightarrow> bool option" where
  "is_sorted h a b lt = (if a \<noteq> b then is_sorted_loop h a b lt else Some True)"

partial_function (option) find_end_of_run_loop :: "heap \<Rightarrow> ptr \<Rightarrow> ptr \<Rightarrow> less_fn \<Rightarrow> ptr option" where
  "find_end_of_run_loop h a b lt = do {
     a' \<leftarrow> list_next h a;
     if a' = b then Some a'
     else do {
       p \<leftarrow> list_prev h a';
       if \<not> lt a' p then find_end_of_run_loop h a' b lt else Some a' } }"

definition find_end_of_run :: "heap \<Rightarrow> ptr \<Rightarrow> ptr \<Rightarrow> less_fn \<Rightarrow> ptr option" where
  "find_end_of_run h a b lt = do {
     ASSERT (a \<noteq> NULL);
     ASSERT (b \<noteq> NULL);
     ASSERT (a \<noteq> b);
     find_end_of_run_loop h a b lt }"

partial_function (option) inplace_merge_loop ::
  "heap \<Rightarrow> ptr \<Rightarrow> ptr \<Rightarrow> ptr \<Rightarrow> less_fn \<Rightarrow> heap option" where
  "inplace_merge_loop h a0 a1b0 b1 lt =
     (if a0 \<noteq> a1b0 \<and> a1b0 \<noteq> b1 then
        (if \<not> lt a1b0 a0 then do {
           a0' \<leftarrow> list_next h a0;
           inplace_merge_loop h a0' a1b0 b1 lt }
         else do {
           a1b0' \<leftarrow> list_next h a1b0;
           p \<leftarrow> list_prev h a1b0';
           h \<leftarrow> list_splice h a0 p a1b0';
           inplace_merge_loop h a0 a1b0' b1 lt })
      else Some h)"

definition inplace_merge :: "heap \<Rightarrow> ptr \<Rightarrow> ptr \<Rightarrow> ptr \<Rightarrow> less_fn \<Rightarrow> heap option" where
  "inplace_merge h a0 a1b0 b1 lt = do {
     ASSERT (a0 \<noteq> NULL);
     ASSERT (a1b0 \<noteq> NULL);
     ASSERT (b1 \<noteq> NULL);
     s \<leftarrow> is_sorted h a0 a1b0 lt;
     ASSERT s;
     s \<leftarrow> is_sorted h a1b0 b1 lt;
     ASSERT s;
     inplace_merge_loop h a0 a1b0 b1 lt }"

text \<open>One pass of the sort: the \<^verbatim>\<open>for\<close> loop, which returns the number of runs it produced.\<close>

partial_function (option) list_sort_pass ::
  "heap \<Rightarrow> ptr \<Rightarrow> ptr \<Rightarrow> less_fn \<Rightarrow> nat \<Rightarrow> (nat \<times> heap) option" where
  "list_sort_pass h a0 fin lt output_run_cnt =
     (if a0 = fin then Some (output_run_cnt, h)
      else do {
        let cnt = sz (output_run_cnt + 1);
        a1b0 \<leftarrow> find_end_of_run h a0 fin lt;
        if a1b0 = fin then Some (cnt, h)
        else do {
          b1 \<leftarrow> find_end_of_run h a1b0 fin lt;
          h \<leftarrow> inplace_merge h a0 a1b0 b1 lt;
          list_sort_pass h b1 fin lt cnt } })"

partial_function (option) list_sort_loop :: "heap \<Rightarrow> klist \<Rightarrow> less_fn \<Rightarrow> heap option" where
  "list_sort_loop h l lt = do {
     b \<leftarrow> list_begin h l;
     (cnt, h) \<leftarrow> list_sort_pass h b (list_end l) lt 0;
     if 1 < cnt then list_sort_loop h l lt else Some h }"

definition list_sort :: "heap \<Rightarrow> klist \<Rightarrow> less_fn \<Rightarrow> heap option" where
  "list_sort h l lt = do {
     h \<leftarrow> list_sort_loop h l lt;
     b \<leftarrow> list_begin h l;
     s \<leftarrow> is_sorted h b (list_end l) lt;
     ASSERT s;
     Some h }"

partial_function (option) insert_ordered_loop ::
  "heap \<Rightarrow> ptr \<Rightarrow> ptr \<Rightarrow> ptr \<Rightarrow> less_fn \<Rightarrow> ptr option" where
  "insert_ordered_loop h e fin elem lt =
     (if e = fin then Some e
      else if lt elem e then Some e
      else do { e' \<leftarrow> list_next h e; insert_ordered_loop h e' fin elem lt })"

definition list_insert_ordered :: "heap \<Rightarrow> klist \<Rightarrow> ptr \<Rightarrow> less_fn \<Rightarrow> heap option" where
  "list_insert_ordered h l elem lt = do {
     ASSERT (elem \<noteq> NULL);
     b \<leftarrow> list_begin h l;
     e \<leftarrow> insert_ordered_loop h b (list_end l) elem lt;
     list_insert h e elem }"

partial_function (option) list_unique_loop ::
  "heap \<Rightarrow> ptr \<Rightarrow> ptr \<Rightarrow> klist option \<Rightarrow> less_fn \<Rightarrow> heap option" where
  "list_unique_loop h elem fin duplicates lt = do {
     nx \<leftarrow> list_next h elem;
     if nx = fin then Some h
     else if \<not> lt elem nx \<and> \<not> lt nx elem then do {
       (_, h) \<leftarrow> list_remove h nx;
       h \<leftarrow> (case duplicates of None \<Rightarrow> Some h | Some d \<Rightarrow> list_push_back h d nx);
       list_unique_loop h elem fin duplicates lt }
     else list_unique_loop h nx fin duplicates lt }"

definition list_unique :: "heap \<Rightarrow> klist \<Rightarrow> klist option \<Rightarrow> less_fn \<Rightarrow> heap option" where
  "list_unique h l duplicates lt = do {
     em \<leftarrow> list_empty h l;
     if em then Some h else do {
       b \<leftarrow> list_begin h l;
       list_unique_loop h b (list_end l) duplicates lt } }"

partial_function (option) list_max_loop ::
  "heap \<Rightarrow> ptr \<Rightarrow> ptr \<Rightarrow> ptr \<Rightarrow> less_fn \<Rightarrow> ptr option" where
  "list_max_loop h e fin m lt =
     (if e = fin then Some m
      else do {
        e' \<leftarrow> list_next h e;
        list_max_loop h e' fin (if lt m e then e else m) lt })"

definition list_max :: "heap \<Rightarrow> klist \<Rightarrow> less_fn \<Rightarrow> ptr option" where
  "list_max h l lt = do {
     m \<leftarrow> list_begin h l;
     if m \<noteq> list_end l then do { e \<leftarrow> list_next h m; list_max_loop h e (list_end l) m lt }
     else Some m }"

partial_function (option) list_min_loop ::
  "heap \<Rightarrow> ptr \<Rightarrow> ptr \<Rightarrow> ptr \<Rightarrow> less_fn \<Rightarrow> ptr option" where
  "list_min_loop h e fin m lt =
     (if e = fin then Some m
      else do {
        e' \<leftarrow> list_next h e;
        list_min_loop h e' fin (if lt e m then e else m) lt })"

definition list_min :: "heap \<Rightarrow> klist \<Rightarrow> less_fn \<Rightarrow> ptr option" where
  "list_min h l lt = do {
     m \<leftarrow> list_begin h l;
     if m \<noteq> list_end l then do { e \<leftarrow> list_next h m; list_min_loop h e (list_end l) m lt }
     else Some m }"

section \<open>Chains of elements\<close>

lemma get_upd [simp]:
  "get_prev (upd_prev h p v) q = (if q = p \<and> p \<in> dom h then Some v else get_prev h q)"
  "get_next (upd_next h p v) q = (if q = p \<and> p \<in> dom h then Some v else get_next h q)"
  "get_prev (upd_next h p v) q = get_prev h q"
  "get_next (upd_prev h p v) q = get_next h q"
  by (cases "h p"; auto simp: get_prev_def get_next_def upd_prev_def upd_next_def)+

lemma dom_upd [simp]: "dom (upd_prev h p v) = dom h" "dom (upd_next h p v) = dom h"
  by (auto simp: upd_prev_def upd_next_def split: if_splits)

lemma get_dom: "get_prev h p = Some q \<Longrightarrow> p \<in> dom h" "get_next h p = Some q \<Longrightarrow> p \<in> dom h"
  by (auto simp: get_prev_def get_next_def)

lemma set_in_dom [simp]:
  "p \<in> dom h \<Longrightarrow> set_prev h p v = Some (upd_prev h p v)"
  "p \<in> dom h \<Longrightarrow> set_next h p v = Some (upd_next h p v)"
  by (auto simp: set_prev_def set_next_def)

lemma get_node: "p \<in> dom h \<Longrightarrow> \<exists>a b. get_prev h p = Some a \<and> get_next h p = Some b"
  by (auto simp: get_prev_def get_next_def)

lemma is_interior_iff: "is_interior h e \<longleftrightarrow> e \<noteq> NULL \<and> (\<exists>p n. get_prev h e = Some p \<and> get_next h e = Some n \<and> p \<noteq> NULL \<and> n \<noteq> NULL)"
  by (auto simp: is_interior_def get_prev_def get_next_def split: option.splits)

lemma not_first_iff: "is_interior h e \<or> is_tail h e \<longleftrightarrow> e \<noteq> NULL \<and> (\<exists>p. get_prev h e = Some p \<and> p \<noteq> NULL)"
  by (auto simp: is_interior_def is_tail_def get_prev_def split: option.splits)

lemma not_last_iff: "is_head h e \<or> is_interior h e \<longleftrightarrow> e \<noteq> NULL \<and> (\<exists>n. get_next h e = Some n \<and> n \<noteq> NULL)"
  by (auto simp: is_head_def is_interior_def get_next_def split: option.splits)

fun linked :: "heap \<Rightarrow> ptr list \<Rightarrow> bool" where
  "linked h (p # q # ps) = (get_next h p = Some q \<and> get_prev h q = Some p \<and> linked h (q # ps))"
| "linked h ps = True"

lemma linked_append:
  "A \<noteq> [] \<Longrightarrow> B \<noteq> [] \<Longrightarrow>
   linked h (A @ B) \<longleftrightarrow> linked h A \<and> linked h B \<and> get_next h (last A) = Some (hd B) \<and> get_prev h (hd B) = Some (last A)"
proof (induction A)
  case (Cons a A)
  then show ?case by (cases A; cases B) auto
qed simp

lemma linked_cong:
  "(\<And>p. p \<in> set (butlast ps) \<Longrightarrow> get_next h' p = get_next h p) \<Longrightarrow>
   (\<And>p. p \<in> set (tl ps) \<Longrightarrow> get_prev h' p = get_prev h p) \<Longrightarrow> linked h' ps = linked h ps"
  by (induction h ps rule: linked.induct) auto

lemma last_notin_butlast: "distinct A \<Longrightarrow> A \<noteq> [] \<Longrightarrow> last A \<notin> set (butlast A)"
  by (metis append_butlast_last_id distinct_append disjoint_iff list.set_intros(1))

lemma hd_notin_tl: "distinct A \<Longrightarrow> A \<noteq> [] \<Longrightarrow> hd A \<notin> set (tl A)"
  by (cases A) auto

lemma linked_dom: "linked h ps \<Longrightarrow> 1 < length ps \<Longrightarrow> p \<in> set ps \<Longrightarrow> p \<in> dom h"
proof (induction h ps rule: linked.induct)
  case (1 h p' q ps)
  then show ?case by (cases ps) (auto dest: get_dom)
qed auto

text \<open>Writing the forward pointer of the last element and the backward pointer of the first one
  leaves a chain as it is, and so do writes to elements outside it.\<close>

lemma linked_upd_next: "distinct ps \<Longrightarrow> p \<notin> set ps \<or> (ps \<noteq> [] \<and> p = last ps) \<Longrightarrow> linked (upd_next h p v) ps = linked h ps"
  by (rule linked_cong) (auto dest: in_set_butlastD last_notin_butlast)

lemma linked_upd_prev: "distinct ps \<Longrightarrow> p \<notin> set ps \<or> (ps \<noteq> [] \<and> p = hd ps) \<Longrightarrow> linked (upd_prev h p v) ps = linked h ps"
  by (rule linked_cong) (auto dest: hd_notin_tl in_set_tlD)

lemma upd_other [simp]: "q \<noteq> p \<Longrightarrow> upd_prev h p v q = h q" "q \<noteq> p \<Longrightarrow> upd_next h p v q = h q"
  by (simp_all add: upd_prev_def upd_next_def)

lemma list_insert_chain:
  assumes lk: "linked h (A @ B)" and d: "distinct (A @ B)" and nn: "NULL \<notin> set (A @ B)"
    and ne: "A \<noteq> []" "B \<noteq> []" and e: "e \<notin> set (A @ B)" "e \<noteq> NULL" "e \<in> dom h"
  shows "\<exists>h'. list_insert h (hd B) e = Some h' \<and> linked h' (A @ e # B) \<and>
    get_prev h' (hd A) = get_prev h (hd A) \<and> get_next h' (last B) = get_next h (last B) \<and>
    dom h' = dom h \<and> (\<forall>p. p \<notin> set (A @ e # B) \<longrightarrow> h' p = h p)"
proof -
  let ?p = "last A" and ?q = "hd B"
  let ?h' = "upd_prev (upd_next (upd_next (upd_prev h e ?p) e ?q) ?p e) ?q e"
  have c: "linked h A" "linked h B" "get_next h ?p = Some ?q" "get_prev h ?q = Some ?p"
    using lk ne by (auto simp: linked_append)
  have m: "?p \<in> set A" "?q \<in> set B" "hd A \<in> set A" "last B \<in> set B" using ne by simp_all
  then have neq: "?p \<noteq> ?q" "e \<noteq> ?p" "e \<noteq> ?q" "hd A \<noteq> ?q" "hd A \<noteq> e" "last B \<noteq> ?p" "last B \<noteq> e" "?p \<noteq> NULL" "?q \<noteq> NULL"
      "?p \<notin> set B" "?q \<notin> set A"
    using d e nn by auto
  have dm: "?p \<in> dom h" "?q \<in> dom h" using c get_dom by auto
  have run: "list_insert h ?q e = Some ?h'"
    using c neq dm e(2,3) unfolding list_insert_def by (simp add: not_first_iff)
  have "linked ?h' A" "linked ?h' B"
    using c(1,2) d e(1) ne neq by (simp_all add: linked_upd_next linked_upd_prev)
  moreover have "linked ?h' (e # B)"
    using calculation(2) ne neq dm e(3) by (cases B) auto
  ultimately have "linked ?h' (A @ e # B)"
    using ne neq dm e(3) by (subst linked_append) auto
  moreover have "\<forall>p. p \<notin> set (A @ e # B) \<longrightarrow> ?h' p = h p" using m by (auto simp: upd_prev_def upd_next_def)
  ultimately show ?thesis using run neq by (intro exI [of _ ?h']) simp
qed

lemma list_remove_chain:
  assumes lk: "linked h (A @ e # B)" and d: "distinct (A @ e # B)" and nn: "NULL \<notin> set (A @ e # B)"
    and ne: "A \<noteq> []" "B \<noteq> []"
  shows "\<exists>h'. list_remove h e = Some (hd B, h') \<and> linked h' (A @ B) \<and>
    get_prev h' (hd A) = get_prev h (hd A) \<and> get_next h' (last B) = get_next h (last B) \<and>
    dom h' = dom h \<and> (\<forall>p. p \<notin> set (A @ B) \<longrightarrow> h' p = h p)"
proof -
  let ?p = "last A" and ?q = "hd B"
  let ?h' = "upd_prev (upd_next h ?p ?q) ?q ?p"
  have c: "linked h A" "linked h B" "get_next h ?p = Some e" "get_prev h e = Some ?p"
    "get_next h e = Some ?q" "get_prev h ?q = Some e"
    using lk ne linked_append [of A "e # B" h] linked_append [of "[e]" B h] by auto
  have m: "?p \<in> set A" "?q \<in> set B" "hd A \<in> set A" "last B \<in> set B" using ne by simp_all
  then have neq: "?p \<noteq> ?q" "e \<noteq> ?p" "e \<noteq> ?q" "hd A \<noteq> ?q" "last B \<noteq> ?p" "?p \<noteq> NULL" "?q \<noteq> NULL" "e \<noteq> NULL"
      "?p \<notin> set B" "?q \<notin> set A"
    using d nn by auto
  have dm: "?p \<in> dom h" "?q \<in> dom h" using c get_dom by auto
  have run: "list_remove h e = Some (?q, ?h')"
    using c neq dm unfolding list_remove_def by (simp add: is_interior_iff)
  have "linked ?h' A" "linked ?h' B"
    using c(1,2) d ne neq by (simp_all add: linked_upd_next linked_upd_prev)
  then have "linked ?h' (A @ B)" using ne neq dm by (subst linked_append) auto
  moreover have "\<forall>p. p \<notin> set (A @ B) \<longrightarrow> ?h' p = h p" using m by (auto simp: upd_prev_def upd_next_def)
  ultimately show ?thesis using run neq by (intro exI [of _ ?h']) simp
qed

section \<open>Lists\<close>

text \<open>The addresses of a list: its two headers around its elements.\<close>

definition cells :: "klist \<Rightarrow> ptr list \<Rightarrow> ptr list" where
  "cells l xs = l_head l # xs @ [l_tail l]"

definition dlist :: "heap \<Rightarrow> klist \<Rightarrow> ptr list \<Rightarrow> bool" where
  "dlist h l xs \<longleftrightarrow> linked h (cells l xs) \<and> distinct (cells l xs) \<and> NULL \<notin> set (cells l xs) \<and>
     get_prev h (l_head l) = Some NULL \<and> get_next h (l_tail l) = Some NULL"

lemma cells_append: "cells l (xs @ ys) = (l_head l # xs) @ (ys @ [l_tail l])"
  by (simp add: cells_def)

lemma dlist_cells: "dlist h l (xs @ ys) \<longleftrightarrow>
  linked h ((l_head l # xs) @ (ys @ [l_tail l])) \<and> distinct ((l_head l # xs) @ (ys @ [l_tail l])) \<and>
  NULL \<notin> set ((l_head l # xs) @ (ys @ [l_tail l])) \<and>
  get_prev h (hd (l_head l # xs)) = Some NULL \<and> get_next h (last (ys @ [l_tail l])) = Some NULL"
  unfolding dlist_def cells_append by simp

lemma dlist_frame:
  "dlist h l xs \<Longrightarrow> (\<And>p. p \<in> set (cells l xs) \<Longrightarrow> h' p = h p) \<Longrightarrow> dlist h' l xs"
  unfolding dlist_def
  by (subst linked_cong [of _ h' h])
    (auto simp: get_prev_def get_next_def cells_def dest: in_set_butlastD in_set_tlD)

lemma list_init_dlist:
  assumes "l_head l \<in> dom h" and "l_tail l \<in> dom h" and "l_head l \<noteq> l_tail l"
    and "l_head l \<noteq> NULL" and "l_tail l \<noteq> NULL"
  shows "\<exists>h'. list_init h l = Some h' \<and> dlist h' l []"
  using assms by (simp add: list_init_def dlist_def cells_def)

lemma list_begin_dlist: "dlist h l xs \<Longrightarrow> list_begin h l = Some (hd (xs @ [l_tail l]))"
  using dlist_cells [of h l "[]" xs] linked_append [of "[l_head l]" "xs @ [l_tail l]" h]
  by (simp add: list_begin_def)

lemma list_rbegin_dlist: "dlist h l xs \<Longrightarrow> list_rbegin h l = Some (last (l_head l # xs))"
  using dlist_cells [of h l xs "[]"] linked_append [of "l_head l # xs" "[l_tail l]" h]
  by (simp add: list_rbegin_def)

lemma list_empty_dlist: "dlist h l xs \<Longrightarrow> list_empty h l = Some (xs = [])"
proof -
  assume d: "dlist h l xs"
  then have "hd (xs @ [l_tail l]) = l_tail l \<longleftrightarrow> xs = []" by (cases xs) (auto simp: dlist_def cells_def)
  then show ?thesis using list_begin_dlist [OF d] by (simp add: list_empty_def list_end_def)
qed

text \<open>Insertion just before any position: \<open>ys\<close> is what follows the insertion point.\<close>

lemma list_insert_dlist:
  assumes "dlist h l (xs @ ys)" and "e \<notin> set (cells l (xs @ ys))" and "e \<noteq> NULL" and "e \<in> dom h"
  shows "\<exists>h'. list_insert h (hd (ys @ [l_tail l])) e = Some h' \<and> dlist h' l (xs @ e # ys) \<and>
    dom h' = dom h \<and> (\<forall>p. p \<notin> set (cells l (xs @ e # ys)) \<longrightarrow> h' p = h p)"
proof -
  have d: "linked h ((l_head l # xs) @ (ys @ [l_tail l]))" "distinct ((l_head l # xs) @ (ys @ [l_tail l]))"
    "NULL \<notin> set ((l_head l # xs) @ (ys @ [l_tail l]))"
    "get_prev h (hd (l_head l # xs)) = Some NULL" "get_next h (last (ys @ [l_tail l])) = Some NULL"
    using assms(1) unfolding dlist_cells by auto
  from list_insert_chain [OF d(1-3) _ _ _ assms(3,4)] assms(2) d(2-5) assms(3) show ?thesis
    unfolding dlist_def cells_def by auto
qed

lemma list_remove_dlist:
  assumes "dlist h l (xs @ e # ys)"
  shows "\<exists>h'. list_remove h e = Some (hd (ys @ [l_tail l]), h') \<and> dlist h' l (xs @ ys) \<and>
    dom h' = dom h \<and> (\<forall>p. p \<notin> set (cells l (xs @ ys)) \<longrightarrow> h' p = h p)"
proof -
  have d: "linked h ((l_head l # xs) @ e # (ys @ [l_tail l]))" "distinct ((l_head l # xs) @ e # (ys @ [l_tail l]))"
    "NULL \<notin> set ((l_head l # xs) @ e # (ys @ [l_tail l]))"
    "get_prev h (hd (l_head l # xs)) = Some NULL" "get_next h (last (ys @ [l_tail l])) = Some NULL"
    using assms unfolding dlist_cells by auto
  from list_remove_chain [OF d(1-3)] d(2-5) show ?thesis
    unfolding dlist_def cells_def by auto
qed

lemma list_push_back_dlist:
  assumes "dlist h l xs" and "e \<notin> set (cells l xs)" and "e \<noteq> NULL" and "e \<in> dom h"
  shows "\<exists>h'. list_push_back h l e = Some h' \<and> dlist h' l (xs @ [e]) \<and>
    dom h' = dom h \<and> (\<forall>p. p \<notin> set (cells l (xs @ [e])) \<longrightarrow> h' p = h p)"
  using list_insert_dlist [of h l xs "[]" e] assms by (simp add: list_push_back_def list_end_def)

lemma list_push_front_dlist:
  assumes "dlist h l xs" and "e \<notin> set (cells l xs)" and "e \<noteq> NULL" and "e \<in> dom h"
  shows "\<exists>h'. list_push_front h l e = Some h' \<and> dlist h' l (e # xs) \<and>
    dom h' = dom h \<and> (\<forall>p. p \<notin> set (cells l (e # xs)) \<longrightarrow> h' p = h p)"
  using list_insert_dlist [of h l "[]" xs e] assms list_begin_dlist [OF assms(1)]
  by (simp add: list_push_front_def)

lemma list_pop_front_dlist:
  assumes "dlist h l (x # xs)"
  shows "\<exists>h'. list_pop_front h l = Some (x, h') \<and> dlist h' l xs \<and>
    dom h' = dom h \<and> (\<forall>p. p \<notin> set (cells l xs) \<longrightarrow> h' p = h p)"
  using list_remove_dlist [of h l "[]" x xs] assms list_begin_dlist [OF assms] list_empty_dlist [OF assms]
  by (auto simp: list_pop_front_def list_front_def list_begin_def)

lemma list_pop_back_dlist:
  assumes "dlist h l (xs @ [x])"
  shows "\<exists>h'. list_pop_back h l = Some (x, h') \<and> dlist h' l xs \<and>
    dom h' = dom h \<and> (\<forall>p. p \<notin> set (cells l xs) \<longrightarrow> h' p = h p)"
  using list_remove_dlist [of h l xs x "[]"] assms list_rbegin_dlist [OF assms] list_empty_dlist [OF assms]
  by (auto simp: list_pop_back_def list_back_def list_rbegin_def)

lemma list_pop_front_empty: "dlist h l [] \<Longrightarrow> list_pop_front h l = None"
  using list_empty_dlist [of h l "[]"] by (simp add: list_pop_front_def list_front_def)

section \<open>Traversal\<close>

lemma chain_step:
  assumes "linked h (A @ B)" and "NULL \<notin> set (A @ B)" and "A \<noteq> []" and "B \<noteq> []"
  shows "list_next h (last A) = Some (hd B)" and "list_prev h (hd B) = Some (last A)"
proof -
  have n: "last A \<noteq> NULL" "hd B \<noteq> NULL"
    using assms(2) last_in_set [OF assms(3)] hd_in_set [OF assms(4)] by (metis Un_iff set_append)+
  have "get_next h (last A) = Some (hd B)" "get_prev h (hd B) = Some (last A)"
    using assms by (simp_all add: linked_append)
  with n show "list_next h (last A) = Some (hd B)" and "list_prev h (hd B) = Some (last A)"
    by (simp_all add: list_next_def list_prev_def not_last_iff not_first_iff)
qed

lemma dlist_next: "dlist h l (xs @ x # ys) \<Longrightarrow> list_next h x = Some (hd (ys @ [l_tail l]))"
  using chain_step(1) [of h "l_head l # xs @ [x]" "ys @ [l_tail l]"] by (simp add: dlist_def cells_def)

lemma dlist_hd_tail: "dlist h l (xs @ y # ys) \<Longrightarrow> y \<noteq> l_tail l"
  by (auto simp: dlist_def cells_def)

lemma list_size_loop_dlist:
  "dlist h l (xs @ ys) \<Longrightarrow> cnt + length ys < 2 ^ 32 \<Longrightarrow>
   list_size_loop h (hd (ys @ [l_tail l])) (l_tail l) cnt = Some (cnt + length ys)"
proof (induction ys arbitrary: xs cnt)
  case Nil
  then show ?case by (simp add: list_size_loop.simps)
next
  case (Cons y ys)
  have "list_size_loop h y (l_tail l) cnt = list_size_loop h (hd (ys @ [l_tail l])) (l_tail l) (cnt + 1)"
    using dlist_hd_tail [OF Cons.prems(1)] dlist_next [OF Cons.prems(1)] Cons.prems(2)
    by (subst list_size_loop.simps) simp
  then show ?case using Cons.IH [of "xs @ [y]" "cnt + 1"] Cons.prems by simp
qed

lemma list_size_dlist: "dlist h l xs \<Longrightarrow> length xs < 2 ^ 32 \<Longrightarrow> list_size h l = Some (length xs)"
  using list_size_loop_dlist [of h l "[]" xs 0] by (simp add: list_size_def list_begin_dlist list_end_def)

text \<open>Ordered insertion puts the element before the first one it is less than.\<close>

lemma insert_ordered_loop_dlist:
  "dlist h l (xs @ ys) \<Longrightarrow>
   insert_ordered_loop h (hd (ys @ [l_tail l])) (l_tail l) e lt =
     Some (hd (dropWhile (\<lambda>y. \<not> lt e y) ys @ [l_tail l]))"
proof (induction ys arbitrary: xs)
  case Nil
  then show ?case by (simp add: insert_ordered_loop.simps)
next
  case (Cons y ys)
  show ?case
    using dlist_hd_tail [OF Cons.prems] dlist_next [OF Cons.prems] Cons.IH [of "xs @ [y]"] Cons.prems
    by (subst insert_ordered_loop.simps) simp
qed

lemma list_insert_ordered_dlist:
  assumes "dlist h l xs" and "e \<notin> set (cells l xs)" and "e \<noteq> NULL" and "e \<in> dom h"
  shows "\<exists>h'. list_insert_ordered h l e lt = Some h' \<and> dom h' = dom h \<and>
    dlist h' l (takeWhile (\<lambda>y. \<not> lt e y) xs @ e # dropWhile (\<lambda>y. \<not> lt e y) xs)"
  using list_insert_dlist [of h l "takeWhile (\<lambda>y. \<not> lt e y) xs" "dropWhile (\<lambda>y. \<not> lt e y) xs" e] assms
    insert_ordered_loop_dlist [of h l "[]" xs e lt] list_begin_dlist [OF assms(1)]
  by (auto simp: list_insert_ordered_def list_end_def)

text \<open>\<^verbatim>\<open>list_max\<close> and \<^verbatim>\<open>list_min\<close> are folds over the elements; ties keep the earlier element.\<close>

lemma list_max_loop_dlist:
  "dlist h l (xs @ ys) \<Longrightarrow>
   list_max_loop h (hd (ys @ [l_tail l])) (l_tail l) m lt = Some (fold (\<lambda>e m. if lt m e then e else m) ys m)"
proof (induction ys arbitrary: xs m)
  case Nil
  then show ?case by (simp add: list_max_loop.simps)
next
  case (Cons y ys)
  show ?case
    using dlist_hd_tail [OF Cons.prems] dlist_next [OF Cons.prems] Cons.IH [of "xs @ [y]"] Cons.prems
    by (subst list_max_loop.simps) simp
qed

lemma list_min_loop_dlist:
  "dlist h l (xs @ ys) \<Longrightarrow>
   list_min_loop h (hd (ys @ [l_tail l])) (l_tail l) m lt = Some (fold (\<lambda>e m. if lt e m then e else m) ys m)"
proof (induction ys arbitrary: xs m)
  case Nil
  then show ?case by (simp add: list_min_loop.simps)
next
  case (Cons y ys)
  show ?case
    using dlist_hd_tail [OF Cons.prems] dlist_next [OF Cons.prems] Cons.IH [of "xs @ [y]"] Cons.prems
    by (subst list_min_loop.simps) simp
qed

lemma list_max_dlist:
  assumes "dlist h l (x # xs)"
  shows "list_max h l lt = Some (fold (\<lambda>e m. if lt m e then e else m) xs x)"
  using dlist_hd_tail [of h l "[]" x xs] dlist_next [of h l "[]" x xs] list_max_loop_dlist [of h l "[x]" xs x lt] assms
  by (simp add: list_max_def list_begin_dlist list_end_def)

lemma list_min_dlist:
  assumes "dlist h l (x # xs)"
  shows "list_min h l lt = Some (fold (\<lambda>e m. if lt e m then e else m) xs x)"
  using dlist_hd_tail [of h l "[]" x xs] dlist_next [of h l "[]" x xs] list_min_loop_dlist [of h l "[x]" xs x lt] assms
  by (simp add: list_min_def list_begin_dlist list_end_def)

section \<open>Sorting\<close>

text \<open>Moving one element \<open>y\<close> in front of an earlier position of the same list.\<close>

lemma list_splice_chain:
  assumes lk: "linked h (A @ X @ y # Z)" and d: "distinct (A @ X @ y # Z)" and nn: "NULL \<notin> set (A @ X @ y # Z)"
    and ne: "A \<noteq> []" "X \<noteq> []" "Z \<noteq> []"
  shows "\<exists>h'. list_splice h (hd X) y (hd Z) = Some h' \<and> linked h' (A @ y # X @ Z) \<and>
    get_prev h' (hd A) = get_prev h (hd A) \<and> get_next h' (last Z) = get_next h (last Z) \<and>
    dom h' = dom h \<and> (\<forall>p. p \<notin> set (A @ X @ y # Z) \<longrightarrow> h' p = h p)"
proof -
  let ?u = "last A" and ?x = "hd X" and ?w = "last X" and ?z = "hd Z"
  let ?h1 = "upd_prev (upd_next h ?w ?z) ?z ?w"
  let ?h' = "upd_prev (upd_next (upd_next (upd_prev ?h1 y ?u) y ?x) ?u y) ?x y"
  have c: "linked h A" "linked h X" "linked h Z" "get_next h ?u = Some ?x" "get_prev h ?x = Some ?u"
    "get_next h ?w = Some y" "get_prev h y = Some ?w" "get_next h y = Some ?z" "get_prev h ?z = Some y"
    using lk ne linked_append [of A "X @ y # Z" h] linked_append [of X "y # Z" h] linked_append [of "[y]" Z h] by auto
  have m: "?u \<in> set A" "?x \<in> set X" "?w \<in> set X" "?z \<in> set Z" "hd A \<in> set A" "last Z \<in> set Z" using ne by simp_all
  then have neq: "?u \<noteq> ?x" "?u \<noteq> ?w" "?u \<noteq> y" "?u \<noteq> ?z" "?x \<noteq> y" "?x \<noteq> ?z" "?w \<noteq> y" "?w \<noteq> ?z" "y \<noteq> ?z"
    "hd A \<noteq> ?x" "hd A \<noteq> y" "hd A \<noteq> ?z" "last Z \<noteq> ?w" "last Z \<noteq> y" "last Z \<noteq> ?u"
    "?u \<noteq> NULL" "?x \<noteq> NULL" "?w \<noteq> NULL" "y \<noteq> NULL" "?z \<noteq> NULL"
    "?u \<notin> set X" "?u \<notin> set Z" "?x \<notin> set A" "?x \<notin> set Z" "?w \<notin> set A" "?w \<notin> set Z" "?z \<notin> set A" "?z \<notin> set X"
    "y \<notin> set A" "y \<notin> set X" "y \<notin> set Z"
    using d nn by auto
  have dm: "?u \<in> dom h" "?x \<in> dom h" "?w \<in> dom h" "y \<in> dom h" "?z \<in> dom h" using c get_dom by auto
  have lp: "list_prev h ?z = Some y" using c neq by (simp add: list_prev_def not_first_iff)
  have guards: "is_interior h ?x \<or> is_tail h ?x" "is_interior h y"
    unfolding not_first_iff using c neq by (auto simp: is_interior_iff)
  have run: "list_splice h ?x y ?z = Some ?h'"
    using c neq neq(1-15) [symmetric] dm lp guards unfolding list_splice_def by simp
  have "linked ?h' A" "linked ?h' X" "linked ?h' Z"
    using c(1-3) d ne neq by (simp_all add: linked_upd_next linked_upd_prev)
  then have "linked ?h' (A @ y # X @ Z)"
    using ne neq neq(1-15) [symmetric] dm linked_append [of A "y # X @ Z" ?h'] linked_append [of "[y]" "X @ Z" ?h'] linked_append [of X Z ?h']
    by simp
  moreover have "\<forall>p. p \<notin> set (A @ X @ y # Z) \<longrightarrow> ?h' p = h p" using m by (auto simp: upd_prev_def upd_next_def)
  ultimately show ?thesis using run neq by (intro exI [of _ ?h']) simp
qed

text \<open>The merge of two runs as the code does it: it takes from the second run only when that
  element is strictly less, which makes the sort stable.\<close>

fun mrg :: "less_fn \<Rightarrow> ptr list \<Rightarrow> ptr list \<Rightarrow> ptr list" where
  "mrg lt (x # X) (y # Y) = (if \<not> lt y x then x # mrg lt X (y # Y) else y # mrg lt (x # X) Y)"
| "mrg lt X Y = X @ Y"

definition sort_order :: "less_fn \<Rightarrow> bool" where
  "sort_order lt \<longleftrightarrow> (\<forall>a b. lt a b \<longrightarrow> \<not> lt b a) \<and> transp (\<lambda>a b. \<not> lt b a)"

abbreviation in_order :: "less_fn \<Rightarrow> ptr list \<Rightarrow> bool" where
  "in_order lt \<equiv> sorted_wrt (\<lambda>a b. \<not> lt b a)"

lemma mset_mrg: "mset (mrg lt X Y) = mset X + mset Y"
  by (induction lt X Y rule: mrg.induct) auto

lemma set_mrg: "set (mrg lt X Y) = set X \<union> set Y"
  by (induction lt X Y rule: mrg.induct) auto

lemma in_order_mrg: "sort_order lt \<Longrightarrow> in_order lt X \<Longrightarrow> in_order lt Y \<Longrightarrow> in_order lt (mrg lt X Y)"
proof (induction lt X Y rule: mrg.induct)
  case (1 lt x X y Y)
  have s: "set (mrg lt X Y) = set X \<union> set Y" for X Y
    by (rule set_mrg)
  have t: "\<not> lt b a \<Longrightarrow> \<not> lt c b \<Longrightarrow> \<not> lt c a" for a b c
    using "1.prems"(1) unfolding sort_order_def transp_def by blast
  have asym: "lt a b \<Longrightarrow> \<not> lt b a" for a b using "1.prems"(1) by (simp add: sort_order_def)
  have X: "\<forall>z \<in> set X. \<not> lt z x" "in_order lt X" and Y: "\<forall>z \<in> set Y. \<not> lt z y" "in_order lt Y"
    using "1.prems"(2,3) by simp_all
  show ?case
  proof (cases "lt y x")
    case False
    have "\<not> lt z x" if "z \<in> set Y" for z using t [OF False, of z] Y(1) that by blast
    then show ?thesis using "1.IH"(1) [OF False "1.prems"(1) X(2) "1.prems"(3)] False X(1) by (auto simp: s)
  next
    case True
    have "\<not> lt z y" if "z \<in> set X" for z using t [OF asym [OF True], of z] X(1) that by blast
    moreover have "in_order lt (mrg lt (x # X) Y)" using "1.IH"(2) True "1.prems" Y(2) by simp
    ultimately show ?thesis using True Y(1) asym [OF True] by (auto simp: s)
  qed
qed simp_all

lemma is_sorted_loop_chain:
  "linked h (A @ x # S @ B) \<Longrightarrow> distinct (A @ x # S @ B) \<Longrightarrow> NULL \<notin> set (A @ x # S @ B) \<Longrightarrow> B \<noteq> [] \<Longrightarrow>
   is_sorted_loop h x (hd B) lt = Some (successively (\<lambda>a b. \<not> lt b a) (x # S))"
proof (induction S arbitrary: A x)
  case Nil
  then show ?case using chain_step(1) [of h "A @ [x]" B] by (simp add: is_sorted_loop.simps)
next
  case (Cons y S)
  have "list_next h x = Some y" "list_prev h y = Some x"
    using chain_step [of h "A @ [x]" "y # S @ B"] Cons.prems by auto
  moreover have "y \<noteq> hd B" using Cons.prems(2,4) by (cases B) auto
  moreover have "is_sorted_loop h y (hd B) lt = Some (successively (\<lambda>a b. \<not> lt b a) (y # S))"
    using Cons.IH [of "A @ [x]" y] Cons.prems by simp
  ultimately show ?case by (subst is_sorted_loop.simps) simp
qed

lemma is_sorted_chain:
  assumes "linked h (A @ S @ B)" and "distinct (A @ S @ B)" and "NULL \<notin> set (A @ S @ B)" and "B \<noteq> []"
  shows "is_sorted h (hd (S @ B)) (hd B) lt = Some (successively (\<lambda>a b. \<not> lt b a) S)"
proof (cases S)
  case (Cons x T)
  then have "x \<noteq> hd B" using assms(2,4) by (cases B) auto
  with is_sorted_loop_chain [of h A x T B lt] assms Cons show ?thesis by (simp add: is_sorted_def)
qed (simp add: is_sorted_def)

lemma find_end_of_run_loop_chain:
  "linked h (A @ x # Y @ B) \<Longrightarrow> distinct (A @ x # Y @ B) \<Longrightarrow> NULL \<notin> set (A @ x # Y @ B) \<Longrightarrow> B \<noteq> [] \<Longrightarrow>
   \<exists>Y1 Y2. Y = Y1 @ Y2 \<and> find_end_of_run_loop h x (hd B) lt = Some (hd (Y2 @ B)) \<and>
     successively (\<lambda>a b. \<not> lt b a) (x # Y1) \<and> (Y2 \<noteq> [] \<longrightarrow> lt (hd Y2) (last (x # Y1)))"
proof (induction Y arbitrary: A x)
  case Nil
  then show ?case using chain_step(1) [of h "A @ [x]" B] by (simp add: find_end_of_run_loop.simps)
next
  case (Cons y Y)
  have st: "list_next h x = Some y" "list_prev h y = Some x"
    using chain_step [of h "A @ [x]" "y # Y @ B"] Cons.prems by auto
  have "y \<noteq> hd B" using Cons.prems(2,4) by (cases B) auto
  then have unf: "find_end_of_run_loop h x (hd B) lt =
      (if \<not> lt y x then find_end_of_run_loop h y (hd B) lt else Some y)"
    using st by (subst find_end_of_run_loop.simps) simp
  show ?case
  proof (cases "lt y x")
    case True
    then show ?thesis using unf by (intro exI [of _ "[]"] exI [of _ "y # Y"]) simp
  next
    case False
    obtain Y1 Y2 where "Y = Y1 @ Y2" "find_end_of_run_loop h y (hd B) lt = Some (hd (Y2 @ B))"
      "successively (\<lambda>a b. \<not> lt b a) (y # Y1)" "Y2 \<noteq> [] \<longrightarrow> lt (hd Y2) (last (y # Y1))"
      using Cons.IH [of "A @ [x]" y] Cons.prems by auto
    with False unf show ?thesis by (intro exI [of _ "y # Y1"] exI [of _ Y2]) simp
  qed
qed

lemma inplace_merge_loop_chain:
  "linked h (A @ X @ Y @ B) \<Longrightarrow> distinct (A @ X @ Y @ B) \<Longrightarrow> NULL \<notin> set (A @ X @ Y @ B) \<Longrightarrow> A \<noteq> [] \<Longrightarrow> B \<noteq> [] \<Longrightarrow>
   \<exists>h'. inplace_merge_loop h (hd (X @ Y @ B)) (hd (Y @ B)) (hd B) lt = Some h' \<and> linked h' (A @ mrg lt X Y @ B) \<and>
     get_prev h' (hd A) = get_prev h (hd A) \<and> get_next h' (last B) = get_next h (last B) \<and>
     dom h' = dom h \<and> (\<forall>p. p \<notin> set (A @ X @ Y @ B) \<longrightarrow> h' p = h p)"
proof (induction lt X Y arbitrary: h A rule: mrg.induct)
  case (1 lt x X y Y)
  note p = "1.prems"
  have neq: "x \<noteq> y" "y \<noteq> hd B" using p(2,5) by (cases B; auto)+
  have nx: "list_next h x = Some (hd (X @ y # Y @ B))" "list_next h y = Some (hd (Y @ B))"
    "list_prev h (hd (Y @ B)) = Some y"
    using chain_step [of h "A @ [x]" "X @ y # Y @ B"] chain_step [of h "A @ x # X @ [y]" "Y @ B"] p by auto
  show ?case
  proof (cases "lt y x")
    case False
    then have unf: "inplace_merge_loop h x y (hd B) lt = inplace_merge_loop h (hd (X @ y # Y @ B)) y (hd B) lt"
      using neq nx by (subst inplace_merge_loop.simps) simp
    show ?thesis using "1.IH"(1) [OF False, of h "A @ [x]"] p False unf by auto
  next
    case True
    obtain h1 where h1: "list_splice h x y (hd (Y @ B)) = Some h1" "linked h1 (A @ y # (x # X) @ Y @ B)"
      "get_prev h1 (hd A) = get_prev h (hd A)" "get_next h1 (last (Y @ B)) = get_next h (last (Y @ B))"
      "dom h1 = dom h" "\<forall>p. p \<notin> set (A @ (x # X) @ y # Y @ B) \<longrightarrow> h1 p = h p"
      using list_splice_chain [of h A "x # X" y "Y @ B"] p by auto
    have unf: "inplace_merge_loop h x y (hd B) lt = inplace_merge_loop h1 x (hd (Y @ B)) (hd B) lt"
      using neq nx h1(1) True by (subst inplace_merge_loop.simps) simp
    show ?thesis using "1.IH"(2) [of h1 "A @ [y]"] p True unf h1(2-6) by auto
  qed
qed (simp_all add: inplace_merge_loop.simps)

lemma inplace_merge_chain:
  assumes c: "linked h (A @ X @ Y @ B)" "distinct (A @ X @ Y @ B)" "NULL \<notin> set (A @ X @ Y @ B)" "A \<noteq> []" "B \<noteq> []"
    and s: "successively (\<lambda>a b. \<not> lt b a) X" "successively (\<lambda>a b. \<not> lt b a) Y"
  shows "\<exists>h'. inplace_merge h (hd (X @ Y @ B)) (hd (Y @ B)) (hd B) lt = Some h' \<and> linked h' (A @ mrg lt X Y @ B) \<and>
     get_prev h' (hd A) = get_prev h (hd A) \<and> get_next h' (last B) = get_next h (last B) \<and>
     dom h' = dom h \<and> (\<forall>p. p \<notin> set (A @ X @ Y @ B) \<longrightarrow> h' p = h p)"
proof -
  have "is_sorted h (hd (X @ Y @ B)) (hd (Y @ B)) lt = Some True"
    using is_sorted_chain [of h A X "Y @ B" lt] c s(1) by simp
  moreover have "is_sorted h (hd (Y @ B)) (hd B) lt = Some True"
    using is_sorted_chain [of h "A @ X" Y B lt] c s(2) by simp
  moreover have "hd (X @ Y @ B) \<in> set (X @ Y @ B)" "hd (Y @ B) \<in> set (Y @ B)" "hd B \<in> set B"
    using c(5) by (auto intro!: hd_in_set simp del: set_append)
  then have "hd (X @ Y @ B) \<noteq> NULL" "hd (Y @ B) \<noteq> NULL" "hd B \<noteq> NULL"
    using c(3) by (metis Un_iff set_append)+
  ultimately show ?thesis using inplace_merge_loop_chain [OF c, of lt] by (simp add: inplace_merge_def)
qed

text \<open>The number of maximal runs of a list: what a pass of the sort roughly halves.\<close>

fun nruns :: "less_fn \<Rightarrow> ptr list \<Rightarrow> nat" where
  "nruns lt [] = 0"
| "nruns lt [x] = 1"
| "nruns lt (x # y # xs) = (if lt y x then Suc (nruns lt (y # xs)) else nruns lt (y # xs))"

lemma nruns_length: "nruns lt xs \<le> length xs"
  by (induction lt xs rule: nruns.induct) auto

lemma nruns_Cons_pos: "0 < nruns lt (x # xs)"
  by (induction xs arbitrary: x) auto

lemma nruns_append: "nruns lt (X @ Y) \<le> nruns lt X + nruns lt Y"
proof (induction lt X rule: nruns.induct)
  case (2 lt x)
  then show ?case by (cases Y) auto
qed auto

lemma nruns_run: "successively (\<lambda>a b. \<not> lt b a) (x # X) \<Longrightarrow> Y = [] \<or> lt (hd Y) (last (x # X)) \<Longrightarrow>
  nruns lt (x # X @ Y) = Suc (nruns lt Y)"
proof (induction X arbitrary: x)
  case Nil
  then show ?case by (cases Y) auto
qed auto

lemma nruns_le_1_iff: "nruns lt xs \<le> 1 \<longleftrightarrow> successively (\<lambda>a b. \<not> lt b a) xs"
proof (induction lt xs rule: nruns.induct)
  case (3 lt x y xs)
  then show ?case using nruns_Cons_pos [of lt y xs] by auto
qed auto

lemma find_end_of_run_chain:
  assumes "linked h (A @ x # Y @ B)" "distinct (A @ x # Y @ B)" "NULL \<notin> set (A @ x # Y @ B)" "B \<noteq> []"
  obtains Y1 Y2 where "Y = Y1 @ Y2" "find_end_of_run h x (hd B) lt = Some (hd (Y2 @ B))"
    "successively (\<lambda>a b. \<not> lt b a) (x # Y1)" "Y2 = [] \<or> lt (hd Y2) (last (x # Y1))"
proof -
  have "x \<noteq> NULL" "hd B \<noteq> NULL" "x \<noteq> hd B" using assms(2-4) by (cases B; auto)+
  then have "find_end_of_run h x (hd B) lt = find_end_of_run_loop h x (hd B) lt"
    by (simp add: find_end_of_run_def)
  with find_end_of_run_loop_chain [OF assms, of lt] that show ?thesis by metis
qed

lemma list_sort_pass_chain:
  assumes "sort_order lt" and "T \<noteq> NULL"
  shows "linked h (A @ L @ [T]) \<Longrightarrow> distinct (A @ L @ [T]) \<Longrightarrow> NULL \<notin> set (A @ L @ [T]) \<Longrightarrow> A \<noteq> [] \<Longrightarrow>
    c + length L < 2 ^ 32 \<Longrightarrow>
    \<exists>n h' L'. list_sort_pass h (hd (L @ [T])) T lt c = Some (c + n, h') \<and> linked h' (A @ L' @ [T]) \<and>
      mset L' = mset L \<and> 2 * n \<le> nruns lt L + 1 \<and> nruns lt L' \<le> n \<and>
      get_prev h' (hd A) = get_prev h (hd A) \<and> get_next h' T = get_next h T \<and> dom h' = dom h \<and>
      (\<forall>p. p \<notin> set (A @ L @ [T]) \<longrightarrow> h' p = h p)"
proof (induction "length L" arbitrary: h A L c rule: less_induct)
  case less
  note p = less.prems
  show ?case
  proof (cases L)
    case Nil
    then show ?thesis using p by (intro exI [of _ 0]) (auto simp: list_sort_pass.simps)
  next
    case (Cons x R)
    obtain X Y where 1: "R = X @ Y" "find_end_of_run h x T lt = Some (hd (Y @ [T]))"
      "successively (\<lambda>a b. \<not> lt b a) (x # X)" "Y = [] \<or> lt (hd Y) (last (x # X))"
      using find_end_of_run_chain [of h A x R "[T]" lt] p Cons by auto
    have x: "x \<noteq> T" "sz (c + 1) = c + 1" using p Cons by auto
    have runsL: "nruns lt L = Suc (nruns lt Y)" using nruns_run [OF 1(3,4)] Cons 1(1) by simp
    show ?thesis
    proof (cases Y)
      case Nil
      then have "list_sort_pass h x T lt c = Some (c + 1, h)"
        using 1(2) x by (subst list_sort_pass.simps) simp
      then show ?thesis using Cons p runsL Nil by (intro exI [of _ 1] exI [of _ h] exI [of _ L]) simp
    next
      case (Cons y S)
      obtain Y1 Y2 where 2: "S = Y1 @ Y2" "find_end_of_run h y T lt = Some (hd (Y2 @ [T]))"
        "successively (\<lambda>a b. \<not> lt b a) (y # Y1)" "Y2 = [] \<or> lt (hd Y2) (last (y # Y1))"
        using find_end_of_run_chain [of h "A @ x # X" y S "[T]" lt] p \<open>L = x # R\<close> 1(1) Cons by auto
      have L: "L = (x # X) @ (y # Y1) @ Y2" using \<open>L = x # R\<close> 1(1) Cons 2(1) by simp
      let ?M = "mrg lt (x # X) (y # Y1)"
      have merged: "mset ?M = mset ((x # X) @ (y # Y1))" by (simp only: mset_mrg mset_append)
      obtain h1 where h1: "inplace_merge h x y (hd (Y2 @ [T])) lt = Some h1" "linked h1 (A @ ?M @ Y2 @ [T])"
        "get_prev h1 (hd A) = get_prev h (hd A)" "get_next h1 T = get_next h T" "dom h1 = dom h"
        "\<forall>p. p \<notin> set (A @ L @ [T]) \<longrightarrow> h1 p = h p"
        using inplace_merge_chain [of h A "x # X" "y # Y1" "Y2 @ [T]" lt] p(1-4) L 1(3) 2(3) by auto
      have dM: "distinct ?M" "set ?M = set ((x # X) @ (y # Y1))"
        using p(2) L mset_eq_imp_distinct_iff [OF merged] mset_eq_setD [OF merged] by auto
      have p': "distinct ((A @ ?M) @ Y2 @ [T])" "NULL \<notin> set ((A @ ?M) @ Y2 @ [T])"
        using p(2,3) L dM by auto
      have len: "length ?M = length (x # X) + length (y # Y1)" using arg_cong [OF merged, of size] by simp
      obtain n h2 L2 where IH: "list_sort_pass h1 (hd (Y2 @ [T])) T lt (c + 1) = Some (c + 1 + n, h2)"
        "linked h2 ((A @ ?M) @ L2 @ [T])" "mset L2 = mset Y2" "2 * n \<le> nruns lt Y2 + 1" "nruns lt L2 \<le> n"
        "get_prev h2 (hd (A @ ?M)) = get_prev h1 (hd (A @ ?M))" "get_next h2 T = get_next h1 T" "dom h2 = dom h1"
        "\<forall>p. p \<notin> set ((A @ ?M) @ Y2 @ [T]) \<longrightarrow> h2 p = h1 p"
        using less.hyps [of Y2 h1 "A @ ?M" "c + 1"] h1(2) p' p(4,5) L by auto
      have unf: "list_sort_pass h x T lt c = Some (c + (1 + n), h2)"
        using 1(2) 2(2) x Cons p(2) L h1(1) IH(1) by (subst list_sort_pass.simps) simp
      have "in_order lt ?M"
        using assms(1) 1(3) 2(3) by (intro in_order_mrg) (auto simp: sort_order_def successively_conv_sorted_wrt)
      then have "nruns lt ?M \<le> 1"
        using assms(1) by (subst nruns_le_1_iff) (auto simp: sort_order_def successively_conv_sorted_wrt)
      then have "nruns lt (?M @ L2) \<le> 1 + n" using nruns_append [of lt ?M L2] IH(5) by simp
      moreover have "2 * (1 + n) \<le> nruns lt L + 1"
        using runsL nruns_run [OF 2(3,4)] Cons 2(1) IH(4) by simp
      moreover have "mset (?M @ L2) = mset L" using merged IH(3) L by simp
      ultimately show ?thesis
        using unf IH h1 p(4) \<open>L = x # R\<close> L dM by (intro exI [of _ "1 + n"] exI [of _ h2] exI [of _ "?M @ L2"]) auto
    qed
  qed
qed

lemma list_sort_loop_dlist:
  assumes "sort_order lt"
  shows "dlist h l xs \<Longrightarrow> length xs < 2 ^ 32 \<Longrightarrow>
    \<exists>h' ys. list_sort_loop h l lt = Some h' \<and> dlist h' l ys \<and> mset ys = mset xs \<and> nruns lt ys \<le> 1 \<and>
      dom h' = dom h \<and> (\<forall>p. p \<notin> set (cells l xs) \<longrightarrow> h' p = h p)"
proof (induction "nruns lt xs" arbitrary: h xs rule: less_induct)
  case less
  note d = less.prems(1)
  obtain n h1 ys where 1: "list_sort_pass h (hd (xs @ [l_tail l])) (l_tail l) lt 0 = Some (n, h1)"
    "linked h1 ([l_head l] @ ys @ [l_tail l])" "mset ys = mset xs" "2 * n \<le> nruns lt xs + 1" "nruns lt ys \<le> n"
    "get_prev h1 (l_head l) = get_prev h (l_head l)" "get_next h1 (l_tail l) = get_next h (l_tail l)" "dom h1 = dom h"
    "\<forall>p. p \<notin> set (cells l xs) \<longrightarrow> h1 p = h p"
    using list_sort_pass_chain [OF assms, of "l_tail l" h "[l_head l]" xs 0] d less.prems(2)
    by (auto simp: dlist_def cells_def)
  have d1: "dlist h1 l ys"
    using d 1 mset_eq_imp_distinct_iff [OF 1(3)] mset_eq_setD [OF 1(3)] by (auto simp: dlist_def cells_def)
  have unf: "list_sort_loop h l lt = (if 1 < n then list_sort_loop h1 l lt else Some h1)"
    using list_begin_dlist [OF d] 1(1) by (subst list_sort_loop.simps) (simp add: list_end_def)
  show ?case
  proof (cases "1 < n")
    case True
    then have "nruns lt ys < nruns lt xs" using 1(4,5) by simp
    from less.hyps [OF this d1] True unf 1(3,8,9) less.prems(2) mset_eq_setD [OF 1(3)] mset_eq_length [OF 1(3)]
    show ?thesis by (auto simp: cells_def)
  next
    case False
    then show ?thesis using unf d1 1 by auto
  qed
qed

lemma list_sort_dlist:
  assumes "dlist h l xs" and "length xs < 2 ^ 32" and "sort_order lt"
  shows "\<exists>h' ys. list_sort h l lt = Some h' \<and> dlist h' l ys \<and> mset ys = mset xs \<and> in_order lt ys \<and>
    (\<forall>p. p \<notin> set (cells l xs) \<longrightarrow> h' p = h p)"
proof -
  obtain h' ys where 1: "list_sort_loop h l lt = Some h'" "dlist h' l ys" "mset ys = mset xs" "nruns lt ys \<le> 1"
    "\<forall>p. p \<notin> set (cells l xs) \<longrightarrow> h' p = h p"
    using list_sort_loop_dlist [OF assms(3,1,2)] by auto
  have s: "successively (\<lambda>a b. \<not> lt b a) ys" using 1(4) nruns_le_1_iff by blast
  have "is_sorted h' (hd (ys @ [l_tail l])) (l_tail l) lt = Some True"
    using is_sorted_chain [of h' "[l_head l]" ys "[l_tail l]" lt] 1(2) s by (simp add: dlist_def cells_def)
  moreover have "in_order lt ys"
    using s assms(3) by (auto simp: sort_order_def successively_conv_sorted_wrt)
  moreover have "list_sort h l lt = Some h'"
    using 1(1) calculation(1) list_begin_dlist [OF 1(2)] by (simp add: list_sort_def list_end_def)
  ultimately show ?thesis using 1 by blast
qed

section \<open>Reversal\<close>

lemma list_reverse_loop_chain:
  "linked h (Y @ B) \<Longrightarrow> distinct (Y @ B) \<Longrightarrow> set Y \<subseteq> dom h \<Longrightarrow> B \<noteq> [] \<Longrightarrow>
   \<exists>h'. list_reverse_loop h (hd (Y @ B)) (hd B) = Some h' \<and> dom h' = dom h \<and>
     (\<forall>p. get_prev h' p = (if p \<in> set Y then get_next h p else get_prev h p)) \<and>
     (\<forall>p. get_next h' p = (if p \<in> set Y then get_prev h p else get_next h p)) \<and>
     (\<forall>p. p \<notin> set Y \<longrightarrow> h' p = h p)"
proof (induction Y arbitrary: h)
  case Nil
  then show ?case by (simp add: list_reverse_loop.simps)
next
  case (Cons y Y)
  have c: "get_next h y = Some (hd (Y @ B))" "linked h (Y @ B)"
    using Cons.prems linked_append [of "[y]" "Y @ B" h] by auto
  obtain p where p: "get_prev h y = Some p" and dm: "y \<in> dom h" using Cons.prems(3) get_node [of y h] by auto
  let ?h1 = "upd_next (upd_prev h y (hd (Y @ B))) y p"
  have "y \<noteq> hd B" using Cons.prems by (cases B) auto
  then have unf: "list_reverse_loop h y (hd B) = list_reverse_loop ?h1 (hd (Y @ B)) (hd B)"
    using c p dm by (subst list_reverse_loop.simps) simp
  have "linked ?h1 (Y @ B)"
    using c(2) Cons.prems(2) by (simp add: linked_upd_next linked_upd_prev)
  then obtain h' where h': "list_reverse_loop ?h1 (hd (Y @ B)) (hd B) = Some h'" "dom h' = dom ?h1"
     "\<forall>p. get_prev h' p = (if p \<in> set Y then get_next ?h1 p else get_prev ?h1 p)"
     "\<forall>p. get_next h' p = (if p \<in> set Y then get_prev ?h1 p else get_next ?h1 p)"
     "\<forall>p. p \<notin> set Y \<longrightarrow> h' p = ?h1 p"
    using Cons.IH [of ?h1] Cons.prems by auto
  then show ?case using unf c(1) p dm Cons.prems(2) by (intro exI [of _ h']) auto
qed

lemma linked_swap:
  "linked h ps \<Longrightarrow> (\<And>p. p \<in> set ps \<Longrightarrow> get_prev h' p = get_next h p \<and> get_next h' p = get_prev h p) \<Longrightarrow> linked h' (rev ps)"
proof (induction h ps rule: linked.induct)
  case (1 h p q ps)
  then have "linked h' (rev (q # ps))" by simp
  moreover have "rev (p # q # ps) = rev (q # ps) @ [p]" by simp
  ultimately show ?case using "1.prems" linked_append [of "rev (q # ps)" "[p]" h'] by (simp add: last_rev)
qed simp_all

lemma list_reverse_dlist:
  assumes d: "dlist h l xs"
  shows "\<exists>h'. list_reverse h l = Some h' \<and> dlist h' l (rev xs) \<and> (\<forall>p. p \<notin> set (cells l xs) \<longrightarrow> h' p = h p)"
proof (cases "xs = []")
  case True
  then show ?thesis using d list_empty_dlist [OF d] by (simp add: list_reverse_def)
next
  case False
  let ?H = "l_head l" and ?T = "l_tail l" and ?f = "hd xs" and ?b = "last xs"
  have c: "linked h xs" "linked h (xs @ [?T])" "get_next h ?H = Some ?f" "get_prev h ?f = Some ?H"
    "get_next h ?b = Some ?T" "get_prev h ?T = Some ?b" "get_prev h ?H = Some NULL" "get_next h ?T = Some NULL"
    "distinct (?H # xs @ [?T])" "NULL \<notin> set (?H # xs @ [?T])"
    using d False linked_append [of "[?H]" "xs @ [?T]" h] linked_append [of xs "[?T]" h]
    by (auto simp: dlist_def cells_def hd_append)
  have dm: "set xs \<subseteq> dom h" "?H \<in> dom h" "?T \<in> dom h"
    using linked_dom [of h "cells l xs"] d by (auto simp: dlist_def cells_def)
  have m: "?f \<in> set xs" "?b \<in> set xs" "?f \<in> dom h" "?b \<in> dom h"
    using dm(1) hd_in_set [OF False] last_in_set [OF False] by (blast+)
  then have neq: "?f \<noteq> ?H" "?f \<noteq> ?T" "?b \<noteq> ?H" "?b \<noteq> ?T" "?H \<noteq> ?T" "?H \<notin> set xs" "?T \<notin> set xs"
    using c(9) by auto
  obtain h1 where h1: "list_reverse_loop h ?f ?T = Some h1" "dom h1 = dom h"
     "\<And>p. get_prev h1 p = (if p \<in> set xs then get_next h p else get_prev h p)"
     "\<And>p. get_next h1 p = (if p \<in> set xs then get_prev h p else get_next h p)"
     "\<And>p. p \<notin> set xs \<Longrightarrow> h1 p = h p"
    using list_reverse_loop_chain [of h xs "[?T]"] c dm False by (auto simp: hd_append)
  let ?h2 = "upd_next (upd_prev (upd_prev (upd_next h1 ?H ?b) ?T ?f) ?b ?H) ?f ?T"
  have run: "list_reverse h l = Some ?h2"
    using list_empty_dlist [OF d] list_begin_dlist [OF d] False h1 c dm m neq neq(1-5) [symmetric]
    by (simp add: list_reverse_def list_end_def)
  have "linked h1 (rev xs)" using linked_swap [OF c(1)] h1(3,4) by simp
  then have "linked ?h2 (rev xs)"
    using c(9) neq False by (simp add: linked_upd_next linked_upd_prev hd_rev last_rev)
  then have "linked ?h2 (cells l (rev xs))"
    using False dm m h1(2) neq neq(1-5) [symmetric] linked_append [of "[?H]" "rev xs @ [?T]" ?h2] linked_append [of "rev xs" "[?T]" ?h2]
    by (auto simp: cells_def hd_append hd_rev last_rev)
  moreover have "\<forall>p. p \<notin> set (cells l xs) \<longrightarrow> ?h2 p = h p"
    using h1(5) m by (auto simp: cells_def upd_prev_def upd_next_def)
  ultimately show ?thesis
    using run c(7-10) h1(3,4) neq neq(1-5) [symmetric] by (intro exI [of _ ?h2]) (auto simp: dlist_def cells_def)
qed

section \<open>Queues\<close>

text \<open>
  The contract the rest of the kernel relies on when it uses a list as a queue (the run queue, the
  waiters of a semaphore): \<open>rep s xs\<close> says that \<open>s\<close> represents the queue \<open>xs\<close>, \<open>fresh s e\<close> that \<open>e\<close> is an
  element that may be added.
\<close>

fun enq_all :: "('e \<Rightarrow> 's \<Rightarrow> 's option) \<Rightarrow> 'e list \<Rightarrow> 's \<Rightarrow> 's option" where
  "enq_all enq [] s = Some s"
| "enq_all enq (e # es) s = do { s \<leftarrow> enq e s; enq_all enq es s }"

fun deq_n :: "('s \<Rightarrow> ('e \<times> 's) option) \<Rightarrow> nat \<Rightarrow> 's \<Rightarrow> ('e list \<times> 's) option" where
  "deq_n deq 0 s = Some ([], s)"
| "deq_n deq (Suc n) s = do { (e, s) \<leftarrow> deq s; (es, s) \<leftarrow> deq_n deq n s; Some (e # es, s) }"

locale queue =
  fixes enq :: "'e \<Rightarrow> 's \<Rightarrow> 's option"
    and deq :: "'s \<Rightarrow> ('e \<times> 's) option"
    and rep :: "'s \<Rightarrow> 'e list \<Rightarrow> bool"
    and fresh :: "'s \<Rightarrow> 'e \<Rightarrow> bool"
  assumes enq_law: "rep s xs \<Longrightarrow> fresh s e \<Longrightarrow> e \<notin> set xs \<Longrightarrow>
      \<exists>s'. enq e s = Some s' \<and> rep s' (xs @ [e]) \<and> (\<forall>f. fresh s f \<longrightarrow> fresh s' f)"
    and deq_law: "rep s (x # xs) \<Longrightarrow> \<exists>s'. deq s = Some (x, s') \<and> rep s' xs \<and> (\<forall>f. fresh s f \<longrightarrow> fresh s' f)"
    and deq_empty: "rep s [] \<Longrightarrow> deq s = None"
begin

lemma enq_all_rep:
  "rep s xs \<Longrightarrow> distinct (xs @ es) \<Longrightarrow> \<forall>e \<in> set es. fresh s e \<Longrightarrow> \<exists>s'. enq_all enq es s = Some s' \<and> rep s' (xs @ es)"
proof (induction es arbitrary: s xs)
  case (Cons e es)
  then obtain s1 where s1: "enq e s = Some s1" "rep s1 (xs @ [e])" "\<forall>f. fresh s f \<longrightarrow> fresh s1 f"
    using enq_law [of s xs e] by auto
  show ?case using Cons.IH [OF s1(2)] Cons.prems s1 by auto
qed auto

lemma deq_n_rep: "rep s (xs @ ys) \<Longrightarrow> \<exists>s'. deq_n deq (length xs) s = Some (xs, s') \<and> rep s' ys"
proof (induction xs arbitrary: s)
  case (Cons x xs)
  then obtain s1 where s1: "deq s = Some (x, s1)" "rep s1 (xs @ ys)" using deq_law [of s x "xs @ ys"] by auto
  from Cons.IH [OF s1(2)] s1(1) show ?case by auto
qed auto

lemma fifo:
  assumes "rep s []" and "distinct es" and "\<forall>e \<in> set es. fresh s e"
  shows "\<exists>s1 s2. enq_all enq es s = Some s1 \<and> deq_n deq (length es) s1 = Some (es, s2) \<and> rep s2 []"
  using enq_all_rep [of s "[]" es] deq_n_rep [of _ es "[]"] assms by fastforce

end

text \<open>A kernel list used with \<^verbatim>\<open>list_push_back\<close> and \<^verbatim>\<open>list_pop_front\<close>; the state is the heap and the list header.\<close>

definition kq_enq :: "ptr \<Rightarrow> heap \<times> klist \<Rightarrow> (heap \<times> klist) option" where
  "kq_enq e = (\<lambda>(h, l). map_option (\<lambda>h'. (h', l)) (list_push_back h l e))"

definition kq_deq :: "heap \<times> klist \<Rightarrow> (ptr \<times> heap \<times> klist) option" where
  "kq_deq = (\<lambda>(h, l). map_option (\<lambda>(e, h'). (e, h', l)) (list_pop_front h l))"

definition kq_rep :: "heap \<times> klist \<Rightarrow> ptr list \<Rightarrow> bool" where
  "kq_rep = (\<lambda>(h, l). dlist h l)"

definition kq_fresh :: "heap \<times> klist \<Rightarrow> ptr \<Rightarrow> bool" where
  "kq_fresh = (\<lambda>(h, l) e. e \<in> dom h \<and> e \<noteq> NULL \<and> e \<noteq> l_head l \<and> e \<noteq> l_tail l)"

interpretation kq: queue kq_enq kq_deq kq_rep kq_fresh
proof (unfold_locales, goal_cases)
  case (1 s xs e)
  obtain h l where s: "s = (h, l)" by (cases s)
  have e: "e \<notin> set (cells l xs)" "e \<noteq> NULL" "e \<in> dom h" using 1 s by (auto simp: kq_fresh_def cells_def)
  obtain h' where "list_push_back h l e = Some h'" "dlist h' l (xs @ [e])" "dom h' = dom h"
    using list_push_back_dlist [of h l xs e] 1(1) e s by (auto simp: kq_rep_def)
  then show ?case using s by (auto simp: kq_enq_def kq_rep_def kq_fresh_def)
next
  case (2 s x xs)
  obtain h l where s: "s = (h, l)" by (cases s)
  obtain h' where "list_pop_front h l = Some (x, h')" "dlist h' l xs" "dom h' = dom h"
    using list_pop_front_dlist [of h l x xs] 2 s by (auto simp: kq_rep_def)
  then show ?case using s by (auto simp: kq_deq_def kq_rep_def kq_fresh_def)
next
  case (3 s)
  then show ?case by (cases s) (auto simp: kq_deq_def kq_rep_def list_pop_front_empty)
qed

section \<open>Properties\<close>

text \<open>
  C31: \<^verbatim>\<open>list_sort\<close> sorts. On a well-formed list of fewer than \<open>2 ^ 32\<close> elements the in-place natural merge sort
  terminates without a failed assertion and leaves a well-formed list of the same elements in
  nondecreasing order, and touches no memory outside the list. The comparison has to be asymmetric with a
  transitive negation, that is, a strict weak order.
\<close>

theorem list_sort_correct:
  assumes "dlist h l xs" and "length xs < 2 ^ 32" and "sort_order lt"
  shows "\<exists>h' ys. list_sort h l lt = Some h' \<and> dlist h' l ys \<and> mset ys = mset xs \<and> in_order lt ys \<and>
    (\<forall>p. p \<notin> set (cells l xs) \<longrightarrow> h' p = h p)"
  using assms by (rule list_sort_dlist)

definition demo_list :: klist where "demo_list = \<lparr>l_head = 1, l_tail = 2\<rparr>"

definition demo_heap :: heap where
  "demo_heap = [1 \<mapsto> \<lparr>prv = 0, nxt = 30\<rparr>, 30 \<mapsto> \<lparr>prv = 1, nxt = 10\<rparr>, 10 \<mapsto> \<lparr>prv = 30, nxt = 20\<rparr>, 20 \<mapsto> \<lparr>prv = 10, nxt = 2\<rparr>,
     2 \<mapsto> \<lparr>prv = 20, nxt = 0\<rparr>, 40 \<mapsto> \<lparr>prv = 0, nxt = 0\<rparr>]"

lemma demo_dlist: "dlist demo_heap demo_list [30, 10, 20]"
  by (simp add: dlist_def demo_heap_def demo_list_def cells_def get_prev_def get_next_def)

theorem list_sort_witness: "\<exists>h' ys. list_sort demo_heap demo_list (<) = Some h' \<and> dlist h' demo_list ys \<and> mset ys = {#30, 10, 20#} \<and> sorted ys"
proof -
  have "sort_order (<)" by (auto simp: sort_order_def transp_def)
  from list_sort_correct [OF demo_dlist _ this] show ?thesis by (auto simp: not_less)
qed

text \<open>
  reversing a list twice gives the list back, and reversing once gives the reversed sequence, with
  no memory outside the list touched.
\<close>

theorem list_reverse_correct:
  assumes "dlist h l xs"
  shows "\<exists>h1 h2. list_reverse h l = Some h1 \<and> dlist h1 l (rev xs) \<and> list_reverse h1 l = Some h2 \<and> dlist h2 l xs \<and>
    (\<forall>p. p \<notin> set (cells l xs) \<longrightarrow> h2 p = h p)"
proof -
  obtain h1 where h1: "list_reverse h l = Some h1" "dlist h1 l (rev xs)" "\<forall>p. p \<notin> set (cells l xs) \<longrightarrow> h1 p = h p"
    using list_reverse_dlist [OF assms] by blast
  moreover obtain h2 where "list_reverse h1 l = Some h2" "dlist h2 l (rev (rev xs))" "\<forall>p. p \<notin> set (cells l (rev xs)) \<longrightarrow> h2 p = h1 p"
    using list_reverse_dlist [OF h1(2)] by blast
  moreover have "set (cells l (rev xs)) = set (cells l xs)" by (simp add: cells_def)
  ultimately show ?thesis by auto
qed

theorem list_reverse_witness: "\<exists>h1. list_reverse demo_heap demo_list = Some h1 \<and> dlist h1 demo_list [20, 10, 30]"
  using list_reverse_correct [OF demo_dlist] by auto

text \<open>
  a kernel list is a first-in-first-out queue: pushing distinct elements at the back of an empty list
  and popping as many from the front returns them in order and leaves the list empty.
\<close>

theorem list_fifo:
  assumes "dlist h l []" and "distinct es" and "\<forall>e \<in> set es. e \<in> dom h \<and> e \<noteq> NULL \<and> e \<noteq> l_head l \<and> e \<noteq> l_tail l"
  shows "\<exists>h1 h2. enq_all kq_enq es (h, l) = Some (h1, l) \<and> deq_n kq_deq (length es) (h1, l) = Some (es, (h2, l)) \<and> dlist h2 l []"
proof -
  have enq_l: "snd s' = snd s" if "enq_all kq_enq xs s = Some s'" for xs s s'
    using that by (induction xs arbitrary: s) (auto simp: kq_enq_def bind_eq_Some_iff split: prod.splits)
  have deq_l: "snd s' = snd s" if "deq_n kq_deq n s = Some (xs, s')" for n xs s s'
    using that by (induction n arbitrary: s xs) (auto simp: kq_deq_def bind_eq_Some_iff split: prod.splits)
  obtain s1 s2 where s: "enq_all kq_enq es (h, l) = Some s1" "deq_n kq_deq (length es) s1 = Some (es, s2)" "kq_rep s2 []"
    using kq.fifo [of "(h, l)" es] assms by (auto simp: kq_rep_def kq_fresh_def)
  then show ?thesis using enq_l [OF s(1)] deq_l [OF s(2)] by (cases s1; cases s2) (auto simp: kq_rep_def)
qed

theorem list_fifo_witness:
  "\<exists>h1 h2. enq_all kq_enq [7, 5] ([1 \<mapsto> \<lparr>prv = 0, nxt = 2\<rparr>, 2 \<mapsto> \<lparr>prv = 1, nxt = 0\<rparr>, 5 \<mapsto> \<lparr>prv = 9, nxt = 9\<rparr>, 7 \<mapsto> \<lparr>prv = 9, nxt = 9\<rparr>], demo_list) =
     Some (h1, demo_list) \<and> deq_n kq_deq 2 (h1, demo_list) = Some ([7, 5], (h2, demo_list))"
proof -
  let ?h = "[1 \<mapsto> \<lparr>prv = 0, nxt = 2\<rparr>, 2 \<mapsto> \<lparr>prv = 1, nxt = 0\<rparr>, 5 \<mapsto> \<lparr>prv = 9, nxt = 9\<rparr>, 7 \<mapsto> \<lparr>prv = 9, nxt = 9\<rparr>] :: heap"
  have "dlist ?h demo_list []" by (simp add: dlist_def demo_list_def cells_def get_prev_def get_next_def)
  moreover have "\<forall>e \<in> set [7, 5]. e \<in> dom ?h \<and> e \<noteq> NULL \<and> e \<noteq> l_head demo_list \<and> e \<noteq> l_tail demo_list" by (simp add: demo_list_def)
  ultimately show ?thesis using list_fifo [of ?h demo_list "[7, 5]"] by (simp add: numeral_2_eq_2) blast
qed

end
