(* ===== verification/Threads.thy ===== *)
theory Threads
  imports Prelude
begin

text \<open>
  The thread system, \<^verbatim>\<open>threads/thread.c\<close>, with the interrupt level of \<^verbatim>\<open>threads/interrupt.c\<close> it
  relies on. The state \<open>ksys\<close> holds the static variables of the two files, the thread structures by
  the address of their page, and the semaphores by where they live in memory. The run queue and the
  other lists are kept as sequences of thread addresses, which is the abstract value of the
  \<^verbatim>\<open>struct list\<close>s (theory \<open>Kernel_List\<close>). A context switch changes \<open>running\<close>: the rest of the function
  that called \<^verbatim>\<open>schedule\<close> belongs to the thread that is switched to.
\<close>

section \<open>Data\<close>

datatype thread_status = THREAD_RUNNING | THREAD_READY | THREAD_BLOCKED | THREAD_DYING

type_synonym tptr = nat

abbreviation (input) NO_THREAD :: tptr where
  "NO_THREAD \<equiv> 0"

definition PRI_MIN :: int where "PRI_MIN = 0"
definition PRI_DEFAULT :: int where "PRI_DEFAULT = 31"
definition PRI_MAX :: int where "PRI_MAX = 63"
definition THREAD_MAGIC :: nat where "THREAD_MAGIC = 0xcd6abf4b"
definition TIME_SLICE :: nat where "TIME_SLICE = 4"
definition TID_ERROR :: int where "TID_ERROR = -1"
definition PGSIZE :: nat where "PGSIZE = 4096"

record thread =
  t_tid :: int
  t_parent_tid :: int
  t_status :: thread_status
  t_exit_status :: int
  t_child_born_status :: int
  t_waited :: bool
  t_name :: string
  t_stack :: nat
  t_priority :: int
  t_run_file :: nat
  t_curr_dir :: nat
  t_children :: "tptr list"
  t_pagedir :: nat
  t_function :: nat
  t_aux :: nat
  t_magic :: nat

text \<open>A semaphore is named by the object it is a member of: the thread structure, a lock, the stack
  frame of a call of \<^verbatim>\<open>thread_sleep\<close> or \<^verbatim>\<open>cond_wait\<close>, or a variable of its own.\<close>

datatype sema_id =
    ExitSema tptr | ExitStatusReadSema tptr | ChildSema tptr
  | LockSema nat | SleepSema tptr | WaiterSema tptr | VarSema nat

record semaphore =
  s_value :: nat
  s_waiters :: "tptr list"

record ksys =
  threads :: "tptr \<rightharpoonup> thread"
  running :: tptr
  ready_list :: "tptr list"
  all_list :: "tptr list"
  sleeping_list :: "(int \<times> tptr) list"
  idle_thread :: tptr
  initial_thread :: tptr
  idle_ticks :: int
  kernel_ticks :: int
  user_ticks :: int
  thread_ticks :: nat
  next_tid :: int
  intr_on :: bool
  in_external_intr :: bool
  yield_on_return :: bool
  semas :: "sema_id \<rightharpoonup> semaphore"
  holders :: "nat \<rightharpoonup> tptr"
  cond_waiters :: "nat \<rightharpoonup> tptr list"

section \<open>Interrupt level\<close>

definition intr_disable :: "ksys \<Rightarrow> bool \<times> ksys" where
  "intr_disable s = (intr_on s, s\<lparr>intr_on := False\<rparr>)"

definition intr_enable :: "ksys \<Rightarrow> (bool \<times> ksys) option" where
  "intr_enable s = do { ASSERT (\<not> in_external_intr s); Some (intr_on s, s\<lparr>intr_on := True\<rparr>) }"

definition intr_set_level :: "bool \<Rightarrow> ksys \<Rightarrow> (bool \<times> ksys) option" where
  "intr_set_level level s = (if level then intr_enable s else Some (intr_disable s))"

definition intr_context :: "ksys \<Rightarrow> bool" where
  "intr_context s = in_external_intr s"

definition intr_yield_on_return :: "ksys \<Rightarrow> ksys option" where
  "intr_yield_on_return s = do { ASSERT (intr_context s); Some (s\<lparr>yield_on_return := True\<rparr>) }"

section \<open>Threads\<close>

definition is_thread :: "ksys \<Rightarrow> tptr \<Rightarrow> bool" where
  "is_thread s t = (t \<noteq> NO_THREAD \<and> (case threads s t of None \<Rightarrow> False | Some th \<Rightarrow> t_magic th = THREAD_MAGIC))"

definition set_thread :: "tptr \<Rightarrow> (thread \<Rightarrow> thread) \<Rightarrow> ksys \<Rightarrow> ksys option" where
  "set_thread t f s = (case threads s t of None \<Rightarrow> None | Some th \<Rightarrow> Some (s\<lparr>threads := (threads s)(t \<mapsto> f th)\<rparr>))"

abbreviation set_status :: "tptr \<Rightarrow> thread_status \<Rightarrow> ksys \<Rightarrow> ksys option" where
  "set_status t st \<equiv> set_thread t (t_status_update (\<lambda>_. st))"

definition thread_current :: "ksys \<Rightarrow> (tptr \<times> thread) option" where
  "thread_current s = do {
     let t = running s;
     ASSERT (is_thread s t);
     th \<leftarrow> threads s t;
     ASSERT (t_status th = THREAD_RUNNING);
     Some (t, th) }"

definition thread_tid :: "ksys \<Rightarrow> int option" where
  "thread_tid s = map_option (\<lambda>(t, th). t_tid th) (thread_current s)"

definition thread_name :: "ksys \<Rightarrow> string option" where
  "thread_name s = map_option (\<lambda>(t, th). t_name th) (thread_current s)"

definition next_thread_to_run :: "ksys \<Rightarrow> tptr \<times> ksys" where
  "next_thread_to_run s = (case ready_list s of
     [] \<Rightarrow> (idle_thread s, s)
   | t # ts \<Rightarrow> (t, s\<lparr>ready_list := ts\<rparr>))"

text \<open>\<^verbatim>\<open>process_activate\<close> only loads the page-table base and the kernel stack pointer of the CPU, which
  are not part of this state.\<close>

definition thread_schedule_tail :: "tptr \<Rightarrow> ksys \<Rightarrow> ksys option" where
  "thread_schedule_tail prev s = do {
     let cur = running s;
     ASSERT (\<not> intr_on s);
     s \<leftarrow> set_status cur THREAD_RUNNING s;
     let s = s\<lparr>thread_ticks := 0\<rparr>;
     if prev = NO_THREAD then Some s
     else do {
       p \<leftarrow> threads s prev;
       if t_status p = THREAD_DYING \<and> prev \<noteq> initial_thread s
       then do { ASSERT (prev \<noteq> cur); Some (s\<lparr>threads := (threads s)(prev := None)\<rparr>) }
       else Some s } }"

definition schedule :: "ksys \<Rightarrow> ksys option" where
  "schedule s = do {
     let cur = running s;
     let (nx, s) = next_thread_to_run s;
     ASSERT (\<not> intr_on s);
     c \<leftarrow> threads s cur;
     ASSERT (t_status c \<noteq> THREAD_RUNNING);
     ASSERT (is_thread s nx);
     if cur \<noteq> nx then thread_schedule_tail cur (s\<lparr>running := nx\<rparr>)
     else thread_schedule_tail NO_THREAD s }"

definition thread_block :: "ksys \<Rightarrow> ksys option" where
  "thread_block s = do {
     ASSERT (\<not> intr_context s);
     ASSERT (\<not> intr_on s);
     (t, _) \<leftarrow> thread_current s;
     s \<leftarrow> set_status t THREAD_BLOCKED s;
     schedule s }"

definition thread_unblock :: "tptr \<Rightarrow> ksys \<Rightarrow> ksys option" where
  "thread_unblock t s = do {
     ASSERT (is_thread s t);
     let (old_level, s) = intr_disable s;
     th \<leftarrow> threads s t;
     ASSERT (t_status th = THREAD_BLOCKED);
     let s = s\<lparr>ready_list := ready_list s @ [t]\<rparr>;
     s \<leftarrow> set_status t THREAD_READY s;
     (_, s) \<leftarrow> intr_set_level old_level s;
     Some s }"

text \<open>\<^verbatim>\<open>thread_yield\<close> up to the switch; \<open>thread_yield_return\<close> is its last statement, run when the
  yielding thread is scheduled again, with the level it saved.\<close>

definition thread_yield :: "ksys \<Rightarrow> (bool \<times> ksys) option" where
  "thread_yield s = do {
     (cur, _) \<leftarrow> thread_current s;
     ASSERT (\<not> intr_context s);
     let (old_level, s) = intr_disable s;
     let s = (if cur \<noteq> idle_thread s then s\<lparr>ready_list := ready_list s @ [cur]\<rparr> else s);
     s \<leftarrow> set_status cur THREAD_READY s;
     s \<leftarrow> schedule s;
     Some (old_level, s) }"

definition thread_yield_return :: "bool \<Rightarrow> ksys \<Rightarrow> ksys option" where
  "thread_yield_return old_level s = map_option snd (intr_set_level old_level s)"

text \<open>\<open>cleanup\<close> stands for \<^verbatim>\<open>close_all_files_and_dir\<close> and \<^verbatim>\<open>process_exit\<close>, which run first.\<close>

definition thread_exit :: "(ksys \<Rightarrow> ksys option) \<Rightarrow> ksys \<Rightarrow> ksys option" where
  "thread_exit cleanup s = do {
     ASSERT (\<not> intr_context s);
     s \<leftarrow> cleanup s;
     let (_, s) = intr_disable s;
     (t, _) \<leftarrow> thread_current s;
     let s = s\<lparr>all_list := remove1 t (all_list s)\<rparr>;
     s \<leftarrow> set_status t THREAD_DYING s;
     schedule s }"

definition thread_exit_with_status :: "(ksys \<Rightarrow> ksys option) \<Rightarrow> int \<Rightarrow> ksys \<Rightarrow> ksys option" where
  "thread_exit_with_status cleanup stat s = do {
     (t, _) \<leftarrow> thread_current s;
     s \<leftarrow> set_thread t (t_exit_status_update (\<lambda>_. stat)) s;
     thread_exit cleanup s }"

definition thread_set_priority :: "int \<Rightarrow> ksys \<Rightarrow> ksys option" where
  "thread_set_priority p s = do { (t, _) \<leftarrow> thread_current s; set_thread t (t_priority_update (\<lambda>_. p)) s }"

definition thread_get_priority :: "ksys \<Rightarrow> int option" where
  "thread_get_priority s = map_option (\<lambda>(t, th). t_priority th) (thread_current s)"

text \<open>The new page: zeroed, then the fields \<^verbatim>\<open>init_thread\<close> sets; the name is cut to 15 characters.\<close>

definition init_thread_struct :: "tptr \<Rightarrow> string \<Rightarrow> int \<Rightarrow> thread" where
  "init_thread_struct t name priority = \<lparr>t_tid = 0, t_parent_tid = 0, t_status = THREAD_BLOCKED,
     t_exit_status = 0, t_child_born_status = 0, t_waited = False, t_name = take 15 name,
     t_stack = t + PGSIZE, t_priority = priority, t_run_file = 0, t_curr_dir = 0, t_children = [],
     t_pagedir = 0, t_function = 0, t_aux = 0, t_magic = THREAD_MAGIC\<rparr>"

definition init_thread :: "tptr \<Rightarrow> string \<Rightarrow> int \<Rightarrow> ksys \<Rightarrow> ksys option" where
  "init_thread t name priority s = do {
     ASSERT (t \<noteq> NO_THREAD);
     ASSERT (PRI_MIN \<le> priority \<and> priority \<le> PRI_MAX);
     let s = s\<lparr>threads := (threads s)(t \<mapsto> init_thread_struct t name priority),
               semas := (semas s)(ExitSema t \<mapsto> \<lparr>s_value = 0, s_waiters = []\<rparr>,
                                  ExitStatusReadSema t \<mapsto> \<lparr>s_value = 0, s_waiters = []\<rparr>,
                                  ChildSema t \<mapsto> \<lparr>s_value = 0, s_waiters = []\<rparr>)\<rparr>;
     let (old_level, s) = intr_disable s;
     let s = s\<lparr>all_list := all_list s @ [t]\<rparr>;
     map_option snd (intr_set_level old_level s) }"

definition alloc_frame :: "tptr \<Rightarrow> nat \<Rightarrow> ksys \<Rightarrow> ksys option" where
  "alloc_frame t n s = do {
     ASSERT (is_thread s t);
     ASSERT (n mod 4 = 0);
     set_thread t (\<lambda>th. th\<lparr>t_stack := t_stack th - n\<rparr>) s }"

fun lookup_tid_loop :: "ksys \<Rightarrow> tptr list \<Rightarrow> int \<Rightarrow> tptr option" where
  "lookup_tid_loop s [] tid = Some NO_THREAD"
| "lookup_tid_loop s (t # ts) tid = do {
     th \<leftarrow> threads s t;
     if t_tid th = tid then Some t else lookup_tid_loop s ts tid }"

text \<open>The interrupt level is turned off and restored around the search; only the result is returned.\<close>

definition lookup_tid :: "int \<Rightarrow> ksys \<Rightarrow> tptr option" where
  "lookup_tid tid s = do {
     let (old_level, s) = intr_disable s;
     ASSERT (\<not> intr_on s);
     r \<leftarrow> lookup_tid_loop s (all_list s) tid;
     (_, s) \<leftarrow> intr_set_level old_level s;
     Some r }"

fun thread_foreach_loop :: "(tptr \<Rightarrow> ksys \<Rightarrow> ksys option) \<Rightarrow> tptr list \<Rightarrow> ksys \<Rightarrow> ksys option" where
  "thread_foreach_loop func [] s = Some s"
| "thread_foreach_loop func (t # ts) s = do { s \<leftarrow> func t s; thread_foreach_loop func ts s }"

definition thread_foreach :: "(tptr \<Rightarrow> ksys \<Rightarrow> ksys option) \<Rightarrow> ksys \<Rightarrow> ksys option" where
  "thread_foreach func s = do { ASSERT (\<not> intr_on s); thread_foreach_loop func (all_list s) s }"

section \<open>The scheduler's invariant\<close>

definition status_of :: "ksys \<Rightarrow> tptr \<Rightarrow> thread_status option" where
  "status_of s t = map_option t_status (threads s t)"

definition all_waiters :: "ksys \<Rightarrow> tptr set" where
  "all_waiters s = (\<Union>sem \<in> ran (semas s). set (s_waiters sem))"

text \<open>
  \<open>sched_core\<close> is what holds throughout the scheduler, also while the current thread has left the
  running state and no other one has entered it: every thread structure is intact (\<open>threads_ok\<close>);
  the run queue holds each ready thread once, the idle thread is never on it, and nobody but the
  current thread is marked running (\<open>queue_ok\<close>); a thread waits on at most one semaphore, once, and
  only while it is blocked (\<open>waiters_ok\<close>).
\<close>

definition threads_ok :: "ksys \<Rightarrow> bool" where
  "threads_ok s \<longleftrightarrow> threads s NO_THREAD = None \<and>
     (\<forall>t th. threads s t = Some th \<longrightarrow> t_magic th = THREAD_MAGIC) \<and>
     running s \<in> dom (threads s) \<and> idle_thread s \<in> dom (threads s)"

definition queue_ok :: "ksys \<Rightarrow> bool" where
  "queue_ok s \<longleftrightarrow> distinct (ready_list s) \<and> idle_thread s \<notin> set (ready_list s) \<and>
     (\<forall>t. t \<in> set (ready_list s) \<longrightarrow> status_of s t = Some THREAD_READY) \<and>
     (\<forall>t. status_of s t = Some THREAD_READY \<longrightarrow> t \<in> set (ready_list s) \<or> t = idle_thread s) \<and>
     (\<forall>t. status_of s t = Some THREAD_RUNNING \<longrightarrow> t = running s)"

definition waiters_ok :: "ksys \<Rightarrow> bool" where
  "waiters_ok s \<longleftrightarrow> idle_thread s \<notin> all_waiters s \<and>
     (\<forall>m sem. semas s m = Some sem \<longrightarrow> distinct (s_waiters sem)) \<and>
     (\<forall>m m' sem sem'. semas s m = Some sem \<longrightarrow> semas s m' = Some sem' \<longrightarrow> m \<noteq> m' \<longrightarrow>
        set (s_waiters sem) \<inter> set (s_waiters sem') = {}) \<and>
     (\<forall>t \<in> all_waiters s. status_of s t = Some THREAD_BLOCKED)"

definition sched_core :: "ksys \<Rightarrow> bool" where
  "sched_core s \<longleftrightarrow> threads_ok s \<and> queue_ok s \<and> waiters_ok s"

definition sched_inv :: "ksys \<Rightarrow> bool" where
  "sched_inv s \<longleftrightarrow> sched_core s \<and> status_of s (running s) = Some THREAD_RUNNING"

lemma status_of_Some: "status_of s t = Some st \<longleftrightarrow> (\<exists>th. threads s t = Some th \<and> t_status th = st)"
  by (auto simp: status_of_def)

lemma is_thread_iff: "threads_ok s \<Longrightarrow> is_thread s t \<longleftrightarrow> t \<in> dom (threads s)"
  by (cases "t = NO_THREAD") (auto simp: threads_ok_def is_thread_def split: option.splits)

lemma thread_not_null: "threads_ok s \<Longrightarrow> threads s t = Some th \<Longrightarrow> t \<noteq> NO_THREAD"
  by (cases "t = NO_THREAD") (auto simp: threads_ok_def)

lemma is_thread_cong: "threads s' = threads s \<Longrightarrow> is_thread s' t = is_thread s t"
  by (simp add: is_thread_def)

lemma sched_inv_current:
  assumes "sched_inv s"
  obtains th where "thread_current s = Some (running s, th)" and "threads s (running s) = Some th" and "t_status th = THREAD_RUNNING"
proof -
  from assms obtain th where th: "threads s (running s) = Some th" "t_status th = THREAD_RUNNING"
    by (auto simp: sched_inv_def status_of_Some)
  have "is_thread s (running s)" using assms th(1) by (auto simp: sched_inv_def sched_core_def is_thread_iff)
  with th that show thesis by (simp add: thread_current_def)
qed

lemma set_thread_in: "threads s t = Some th \<Longrightarrow> set_thread t f s = Some (s\<lparr>threads := (threads s)(t \<mapsto> f th)\<rparr>)"
  by (simp add: set_thread_def)

lemma queue_okD:
  "queue_ok s \<Longrightarrow> t \<in> set (ready_list s) \<Longrightarrow> status_of s t = Some THREAD_READY"
  "queue_ok s \<Longrightarrow> status_of s t = Some THREAD_RUNNING \<Longrightarrow> t = running s"
  "queue_ok s \<Longrightarrow> status_of s t = Some THREAD_READY \<Longrightarrow> t \<noteq> idle_thread s \<Longrightarrow> t \<in> set (ready_list s)"
  unfolding queue_ok_def by blast+

lemma waiters_okD: "waiters_ok s \<Longrightarrow> t \<in> all_waiters s \<Longrightarrow> status_of s t = Some THREAD_BLOCKED"
  unfolding waiters_ok_def by blast

lemma running_not_queued:
  assumes "sched_inv s"
  shows "running s \<notin> set (ready_list s)" and "running s \<notin> all_waiters s"
proof -
  have *: "queue_ok s" "waiters_ok s" "status_of s (running s) = Some THREAD_RUNNING"
    using assms by (simp_all add: sched_inv_def sched_core_def)
  show "running s \<notin> set (ready_list s)" using queue_okD(1) [OF *(1), of "running s"] *(3) by auto
  show "running s \<notin> all_waiters s" using waiters_okD [OF *(2), of "running s"] *(3) by auto
qed

text \<open>Changing the status of one thread, and what the parts of the invariant need from it.\<close>

lemma status_of_cong: "threads s' = threads s \<Longrightarrow> status_of s' = status_of s"
  by (simp add: status_of_def fun_eq_iff)

lemma all_waiters_cong: "semas s' = semas s \<Longrightarrow> all_waiters s' = all_waiters s"
  by (simp add: all_waiters_def)

lemma threads_ok_upd:
  "threads_ok s \<Longrightarrow> t \<in> dom (threads s) \<Longrightarrow> t_magic th = THREAD_MAGIC \<Longrightarrow>
   threads s' = (threads s)(t \<mapsto> th) \<Longrightarrow> running s' \<in> dom (threads s) \<Longrightarrow> idle_thread s' = idle_thread s \<Longrightarrow> threads_ok s'"
  by (cases "t = NO_THREAD") (auto simp: threads_ok_def)

text \<open>A state that differs in the status of one existing thread, and not in who runs or idles.\<close>

lemma threads_ok_status:
  assumes "threads_ok s" and "threads s t = Some th"
    and "threads s' = (threads s)(t \<mapsto> th\<lparr>t_status := st\<rparr>)" and "running s' = running s" and "idle_thread s' = idle_thread s"
  shows "threads_ok s'"
proof -
  have "t_magic th = THREAD_MAGIC" "running s \<in> dom (threads s)" using assms(1,2) unfolding threads_ok_def by blast+
  then show ?thesis using threads_ok_upd [OF assms(1) domI _ assms(3) _ assms(5), of th] assms(2,4) by simp
qed

lemma waiters_ok_upd:
  "waiters_ok s \<Longrightarrow> semas s' = semas s \<Longrightarrow> idle_thread s' = idle_thread s \<Longrightarrow>
   (\<And>t. t \<in> all_waiters s \<Longrightarrow> status_of s' t = status_of s t) \<Longrightarrow> waiters_ok s'"
  unfolding waiters_ok_def by (simp add: all_waiters_cong [of s' s])

definition next_thread :: "ksys \<Rightarrow> tptr" where
  "next_thread s = (if ready_list s = [] then idle_thread s else hd (ready_list s))"

lemma next_thread_to_run_eq: "next_thread_to_run s = (next_thread s, s\<lparr>ready_list := tl (ready_list s)\<rparr>)"
  by (cases "ready_list s") (auto simp: next_thread_to_run_def next_thread_def)

lemma next_thread_valid:
  assumes "sched_core s"
  shows "next_thread s \<in> dom (threads s)" and "next_thread s \<notin> all_waiters s"
proof -
  have "next_thread s \<in> dom (threads s) \<and> next_thread s \<notin> all_waiters s"
  proof (cases "ready_list s")
    case Nil
    with assms show ?thesis by (simp add: next_thread_def sched_core_def threads_ok_def waiters_ok_def)
  next
    case (Cons t ts)
    with assms have "status_of s t = Some THREAD_READY" by (simp add: sched_core_def queue_ok_def)
    with assms Cons show ?thesis by (auto simp: next_thread_def sched_core_def waiters_ok_def status_of_Some)
  qed
  then show "next_thread s \<in> dom (threads s)" and "next_thread s \<notin> all_waiters s" by blast+
qed

text \<open>What a reschedule does to the queue and to the statuses keeps the queue part of the invariant.\<close>

lemma queue_ok_schedule:
  assumes q: "queue_ok s" and nr: "status_of s (running s) \<noteq> Some THREAD_RUNNING"
    and r: "ready_list s' = tl (ready_list s)" "running s' = next_thread s" "idle_thread s' = idle_thread s"
    and st: "status_of s' (next_thread s) = Some THREAD_RUNNING"
      "\<And>t. t \<noteq> next_thread s \<Longrightarrow> status_of s' t = status_of s t \<or> (status_of s t = Some THREAD_DYING \<and> status_of s' t = None)"
  shows "queue_ok s'"
proof -
  have d: "distinct (ready_list s)" "idle_thread s \<notin> set (ready_list s)" using q by (auto simp: queue_ok_def)
  have ready: "status_of s' t = Some THREAD_READY" if "t \<in> set (tl (ready_list s))" for t
  proof -
    have "t \<noteq> next_thread s" using that d by (cases "ready_list s") (auto simp: next_thread_def)
    moreover have "status_of s t = Some THREAD_READY" using q in_set_tlD [OF that] by (simp add: queue_ok_def)
    ultimately show ?thesis using st(2) [of t] by auto
  qed
  have queued: "t \<in> set (tl (ready_list s)) \<or> t = idle_thread s" if "status_of s' t = Some THREAD_READY" for t
  proof -
    have "t \<noteq> next_thread s" using that st(1) by auto
    moreover have "status_of s t = Some THREAD_READY" using that st(2) [OF calculation] by auto
    ultimately show ?thesis using q by (cases "ready_list s") (auto simp: queue_ok_def next_thread_def)
  qed
  have run: "t = next_thread s" if "status_of s' t = Some THREAD_RUNNING" for t
  proof (rule ccontr)
    assume "t \<noteq> next_thread s"
    then have "status_of s t = Some THREAD_RUNNING" using that st(2) [of t] by auto
    with q have "t = running s" by (simp add: queue_ok_def)
    with \<open>status_of s t = Some THREAD_RUNNING\<close> nr show False by simp
  qed
  have "distinct (tl (ready_list s))" "idle_thread s \<notin> set (tl (ready_list s))"
    using d by (auto simp: distinct_tl dest: in_set_tlD)
  then show ?thesis using ready queued run r by (simp add: queue_ok_def)
qed

lemma schedule_ok:
  assumes core: "sched_core s" and off: "\<not> intr_on s"
    and c: "threads s (running s) = Some c" "t_status c \<noteq> THREAD_RUNNING"
    and idle: "t_status c = THREAD_DYING \<Longrightarrow> running s \<noteq> idle_thread s"
  shows "\<exists>s'. schedule s = Some s' \<and> sched_inv s' \<and> running s' = next_thread s \<and> ready_list s' = tl (ready_list s) \<and>
    thread_ticks s' = 0 \<and> \<not> intr_on s' \<and> semas s' = semas s \<and>
    (\<forall>t. t \<noteq> next_thread s \<longrightarrow> t_status c \<noteq> THREAD_DYING \<or> t \<noteq> running s \<longrightarrow> threads s' t = threads s t)"
proof -
  let ?n = "next_thread s"
  obtain n where n: "threads s ?n = Some n" using next_thread_valid(1) [OF core] by auto
  let ?free = "running s \<noteq> ?n \<and> t_status c = THREAD_DYING \<and> running s \<noteq> initial_thread s"
  let ?th = "(threads s)(?n \<mapsto> n\<lparr>t_status := THREAD_RUNNING\<rparr>)"
  let ?s' = "s\<lparr>ready_list := tl (ready_list s), running := ?n, thread_ticks := 0,
               threads := (if ?free then ?th(running s := None) else ?th)\<rparr>"
  have tok: "threads_ok s" "queue_ok s" "waiters_ok s" using core by (auto simp: sched_core_def)
  have nz: "running s \<noteq> NO_THREAD" using tok(1) c(1) by (rule thread_not_null)
  have ist: "is_thread (s\<lparr>ready_list := tl (ready_list s)\<rparr>) ?n"
    using is_thread_iff [OF tok(1), of ?n] n is_thread_cong [of "s\<lparr>ready_list := tl (ready_list s)\<rparr>" s] by auto
  have run: "schedule s = Some ?s'"
    using c n off ist nz
    by (cases "running s = ?n")
      (auto simp: schedule_def next_thread_to_run_eq thread_schedule_tail_def set_thread_def Let_def)
  have st: "status_of ?s' ?n = Some THREAD_RUNNING"
    "\<And>t. t \<noteq> ?n \<Longrightarrow> status_of ?s' t = status_of s t \<or> (status_of s t = Some THREAD_DYING \<and> status_of ?s' t = None)"
    using c(1) by (auto simp: status_of_def)
  have "status_of s (running s) \<noteq> Some THREAD_RUNNING" using c by (simp add: status_of_def)
  then have "queue_ok ?s'" by (rule queue_ok_schedule [OF tok(2)]) (use st in auto)
  moreover have "threads_ok ?s'"
    using tok(1) n idle by (cases "?n = NO_THREAD") (auto simp: threads_ok_def)
  moreover have "waiters_ok ?s'"
  proof (rule waiters_ok_upd [OF tok(3)])
    fix t assume t: "t \<in> all_waiters s"
    then have "t \<noteq> ?n" using next_thread_valid(2) [OF core] by auto
    moreover have "status_of s t = Some THREAD_BLOCKED" using tok(3) t by (simp add: waiters_ok_def)
    ultimately show "status_of ?s' t = status_of s t" using st(2) [of t] by auto
  qed simp_all
  ultimately have "sched_inv ?s'" using st(1) by (simp add: sched_inv_def sched_core_def)
  then show ?thesis using run off by (intro exI [of _ ?s']) auto
qed

section \<open>The operations keep the invariant\<close>

text \<open>\<^verbatim>\<open>thread_block\<close> from any state that is consistent once the current thread is marked blocked: the
  current thread may already be on the wait list of a semaphore.\<close>

lemma thread_block_core:
  assumes c: "thread_current s = Some (running s, c)" "threads s (running s) = Some c"
    and core: "sched_core (s\<lparr>threads := (threads s)(running s \<mapsto> c\<lparr>t_status := THREAD_BLOCKED\<rparr>)\<rparr>)"
    and off: "\<not> intr_on s" and ctx: "\<not> intr_context s"
  shows "\<exists>s'. thread_block s = Some s' \<and> sched_inv s' \<and> running s' = next_thread s \<and>
    ready_list s' = tl (ready_list s) \<and> \<not> intr_on s' \<and> semas s' = semas s \<and>
    (running s \<noteq> next_thread s \<longrightarrow> status_of s' (running s) = Some THREAD_BLOCKED)"
proof -
  let ?c = "c\<lparr>t_status := THREAD_BLOCKED\<rparr>"
  let ?s1 = "s\<lparr>threads := (threads s)(running s \<mapsto> ?c)\<rparr>"
  from schedule_ok [OF core, of ?c] off obtain s' where s': "schedule ?s1 = Some s'" "sched_inv s'"
    "running s' = next_thread ?s1" "ready_list s' = tl (ready_list s)" "\<not> intr_on s'" "semas s' = semas s"
    "\<forall>t. t \<noteq> next_thread ?s1 \<longrightarrow> threads s' t = threads ?s1 t"
    by auto
  have nx: "next_thread ?s1 = next_thread s" by (simp add: next_thread_def)
  have "thread_block s = Some s'"
    using c off ctx s'(1) by (simp add: thread_block_def set_thread_def)
  with s' nx show ?thesis by (auto simp: status_of_def)
qed

lemma thread_block_ok:
  assumes inv: "sched_inv s" and off: "\<not> intr_on s" and ctx: "\<not> intr_context s"
  shows "\<exists>s'. thread_block s = Some s' \<and> sched_inv s' \<and> running s' = next_thread s \<and>
    ready_list s' = tl (ready_list s) \<and> \<not> intr_on s' \<and> semas s' = semas s \<and>
    (running s \<noteq> next_thread s \<longrightarrow> status_of s' (running s) = Some THREAD_BLOCKED)"
proof -
  obtain c where c: "thread_current s = Some (running s, c)" "threads s (running s) = Some c" "t_status c = THREAD_RUNNING"
    using inv by (rule sched_inv_current)
  let ?s1 = "s\<lparr>threads := (threads s)(running s \<mapsto> c\<lparr>t_status := THREAD_BLOCKED\<rparr>)\<rparr>"
  have core: "threads_ok s" "queue_ok s" "waiters_ok s" using inv by (auto simp: sched_inv_def sched_core_def)
  have st: "status_of ?s1 t = (if t = running s then Some THREAD_BLOCKED else status_of s t)" for t
    by (simp add: status_of_def)
  note nr = running_not_queued [OF inv]
  have "threads_ok ?s1" by (rule threads_ok_status [OF core(1) c(2)]) simp_all
  moreover have "queue_ok ?s1" using core(2) nr by (auto simp: queue_ok_def st)
  moreover have "waiters_ok ?s1" by (rule waiters_ok_upd [OF core(3)]) (use nr in \<open>auto simp: st\<close>)
  ultimately have "sched_core ?s1" by (simp add: sched_core_def)
  with c off ctx show ?thesis by (intro thread_block_core)
qed

lemma thread_unblock_ok:
  assumes inv: "sched_inv s" and t: "status_of s t = Some THREAD_BLOCKED" "t \<notin> all_waiters s" "t \<noteq> idle_thread s"
    and lvl: "intr_on s \<Longrightarrow> \<not> in_external_intr s"
  shows "\<exists>s'. thread_unblock t s = Some s' \<and> sched_inv s' \<and> ready_list s' = ready_list s @ [t] \<and>
    running s' = running s \<and> intr_on s' = intr_on s \<and> semas s' = semas s \<and> idle_thread s' = idle_thread s \<and>
    status_of s' = (status_of s)(t \<mapsto> THREAD_READY) \<and> s' = s\<lparr>ready_list := ready_list s', threads := threads s'\<rparr>"
proof -
  obtain th where th: "threads s t = Some th" "t_status th = THREAD_BLOCKED" using t(1) by (auto simp: status_of_Some)
  have core: "threads_ok s" "queue_ok s" "waiters_ok s" "status_of s (running s) = Some THREAD_RUNNING"
    using inv by (auto simp: sched_inv_def sched_core_def)
  let ?s' = "s\<lparr>ready_list := ready_list s @ [t], threads := (threads s)(t \<mapsto> th\<lparr>t_status := THREAD_READY\<rparr>)\<rparr>"
  have run: "thread_unblock t s = Some ?s'"
    using th is_thread_iff [OF core(1), of t] lvl
    by (cases "intr_on s") (auto simp: thread_unblock_def intr_disable_def intr_set_level_def intr_enable_def set_thread_def Let_def)
  have st: "status_of ?s' = (status_of s)(t \<mapsto> THREAD_READY)" by (simp add: status_of_def fun_eq_iff)
  have nr: "t \<notin> set (ready_list s)" "t \<noteq> running s" using queue_okD(1) [OF core(2), of t] core(4) t(1) by auto
  have "threads_ok ?s'"
    by (rule threads_ok_status [OF core(1) th(1)]) simp_all
  moreover have "queue_ok ?s'" using core(2) nr t by (auto simp: queue_ok_def st)
  moreover have "waiters_ok ?s'" by (rule waiters_ok_upd [OF core(3)]) (use t in \<open>auto simp: st\<close>)
  ultimately have "sched_inv ?s'" using core(4) nr st by (simp add: sched_inv_def sched_core_def)
  then show ?thesis using run st by (intro exI [of _ ?s']) simp
qed

lemma thread_yield_ok:
  assumes inv: "sched_inv s" and ctx: "\<not> intr_context s"
  shows "\<exists>s'. thread_yield s = Some (intr_on s, s') \<and> sched_inv s' \<and> semas s' = semas s \<and>
    ready_list s' = (if running s = idle_thread s then tl (ready_list s) else tl (ready_list s @ [running s])) \<and>
    running s' = (if running s = idle_thread s then next_thread s else hd (ready_list s @ [running s]))"
proof -
  obtain c where c: "thread_current s = Some (running s, c)" "threads s (running s) = Some c" "t_status c = THREAD_RUNNING"
    using inv by (rule sched_inv_current)
  let ?c = "c\<lparr>t_status := THREAD_READY\<rparr>"
  let ?rl = "if running s = idle_thread s then ready_list s else ready_list s @ [running s]"
  let ?s1 = "s\<lparr>intr_on := False, ready_list := ?rl, threads := (threads s)(running s \<mapsto> ?c)\<rparr>"
  have core: "threads_ok s" "queue_ok s" "waiters_ok s" using inv by (auto simp: sched_inv_def sched_core_def)
  have st: "status_of ?s1 t = (if t = running s then Some THREAD_READY else status_of s t)" for t
    by (simp add: status_of_def)
  note nr = running_not_queued [OF inv]
  have "threads_ok ?s1"
    by (rule threads_ok_status [OF core(1) c(2)]) simp_all
  moreover have "queue_ok ?s1" using core(2) nr by (auto simp: queue_ok_def st)
  moreover have "waiters_ok ?s1" by (rule waiters_ok_upd [OF core(3)]) (use nr in \<open>auto simp: st\<close>)
  ultimately have "sched_core ?s1" by (simp add: sched_core_def)
  from schedule_ok [OF this, of ?c] obtain s' where s': "schedule ?s1 = Some s'" "sched_inv s'"
    "running s' = next_thread ?s1" "ready_list s' = tl ?rl" "semas s' = semas s"
    by auto
  have "?s1 = (if running s = idle_thread s then s else s\<lparr>ready_list := ready_list s @ [running s]\<rparr>)
      \<lparr>intr_on := False, threads := (threads s)(running s \<mapsto> ?c)\<rparr>" by simp
  then have "thread_yield s = Some (intr_on s, s')"
    using c ctx s'(1) by (auto simp: thread_yield_def set_thread_def intr_disable_def intr_context_def)
  with s' show ?thesis by (auto simp: next_thread_def)
qed

lemma thread_exit_ok:
  assumes cl: "cleanup s = Some s0" and inv: "sched_inv s0" and ctx: "\<not> intr_context s" and ni: "running s0 \<noteq> idle_thread s0"
  shows "\<exists>s'. thread_exit cleanup s = Some s' \<and> sched_inv s' \<and> running s' = next_thread s0 \<and> running s' \<noteq> running s0 \<and>
    ready_list s' = tl (ready_list s0) \<and> (running s0 \<noteq> initial_thread s0 \<longrightarrow> threads s' (running s0) = None)"
proof -
  obtain c where c: "threads s0 (running s0) = Some c" "t_status c = THREAD_RUNNING"
    using inv by (rule sched_inv_current)
  let ?c = "c\<lparr>t_status := THREAD_DYING\<rparr>"
  let ?s1 = "s0\<lparr>intr_on := False, all_list := remove1 (running s0) (all_list s0), threads := (threads s0)(running s0 \<mapsto> ?c)\<rparr>"
  have core: "threads_ok s0" "queue_ok s0" "waiters_ok s0" using inv by (auto simp: sched_inv_def sched_core_def)
  have st: "status_of ?s1 t = (if t = running s0 then Some THREAD_DYING else status_of s0 t)" for t
    by (simp add: status_of_def)
  note nr = running_not_queued [OF inv]
  have "threads_ok ?s1" by (rule threads_ok_status [OF core(1) c(1)]) simp_all
  moreover have "queue_ok ?s1" using core(2) nr by (auto simp: queue_ok_def st)
  moreover have "waiters_ok ?s1" by (rule waiters_ok_upd [OF core(3)]) (use nr in \<open>auto simp: st\<close>)
  ultimately have c1: "sched_core ?s1" by (simp add: sched_core_def)
  have nx: "next_thread ?s1 = next_thread s0" by (simp add: next_thread_def)
  have nne: "next_thread s0 \<noteq> running s0" using nr(1) ni by (cases "ready_list s0") (auto simp: next_thread_def)
  from schedule_ok [OF c1, of ?c] ni obtain s' where s': "schedule ?s1 = Some s'" "sched_inv s'"
    "running s' = next_thread ?s1" "ready_list s' = tl (ready_list s0)" by auto
  have "thread_current (s0\<lparr>intr_on := False\<rparr>) = Some (running s0, c)"
    using is_thread_iff [OF core(1), of "running s0"] c is_thread_cong [of "s0\<lparr>intr_on := False\<rparr>" s0] by (auto simp: thread_current_def Let_def)
  then have run: "thread_exit cleanup s = Some s'"
    using cl ctx c s'(1) by (simp add: thread_exit_def intr_disable_def set_thread_def)
  have "threads s' (running s0) = None" if "running s0 \<noteq> initial_thread s0"
  proof -
    obtain n where "threads s0 (next_thread s0) = Some n"
      using next_thread_valid(1) [of s0] inv by (auto simp: sched_inv_def)
    then show ?thesis using s'(1) nne that c thread_not_null [OF core(1) c(1)]
      by (auto simp: schedule_def next_thread_to_run_eq nx thread_schedule_tail_def set_thread_def Let_def split: if_splits)
  qed
  with run s' nx nne show ?thesis by auto
qed

lemma schedule_idle: "schedule s = Some s' \<Longrightarrow> idle_thread s' = idle_thread s"
  by (auto simp: schedule_def next_thread_to_run_eq thread_schedule_tail_def set_thread_def Let_def bind_eq_Some_iff
      split: if_splits option.splits)

lemma thread_block_idle: "thread_block s = Some s' \<Longrightarrow> idle_thread s' = idle_thread s"
  by (auto simp: thread_block_def set_thread_def bind_eq_Some_iff dest!: schedule_idle split: if_splits option.splits)

text \<open>
  Round robin: a thread at position \<open>k\<close> of the run queue runs after \<open>k + 1\<close> yields, whichever
  threads those are, since each yield takes the front of the queue and appends at its back.
\<close>

fun yields :: "nat \<Rightarrow> ksys \<Rightarrow> ksys option" where
  "yields 0 s = Some s"
| "yields (Suc n) s = do { (_, s) \<leftarrow> thread_yield (s\<lparr>in_external_intr := False\<rparr>); yields n s }"

lemma sched_inv_ctx: "sched_inv (s\<lparr>in_external_intr := b\<rparr>) = sched_inv s"
  by (simp add: sched_inv_def sched_core_def threads_ok_def queue_ok_def waiters_ok_def status_of_def all_waiters_def)

lemma yields_position:
  "sched_inv s \<Longrightarrow> k < length (ready_list s) \<Longrightarrow>
   \<exists>s'. yields (Suc k) s = Some s' \<and> sched_inv s' \<and> running s' = ready_list s ! k"
proof (induction k arbitrary: s)
  case 0
  then show ?case
    using thread_yield_ok [of "s\<lparr>in_external_intr := False\<rparr>"]
    by (cases "ready_list s") (auto simp: sched_inv_ctx intr_context_def next_thread_def)
next
  case (Suc k)
  obtain l s1 where s1: "thread_yield (s\<lparr>in_external_intr := False\<rparr>) = Some (l, s1)" "sched_inv s1"
    "k < length (ready_list s1)" "ready_list s1 ! k = ready_list s ! Suc k"
    using thread_yield_ok [of "s\<lparr>in_external_intr := False\<rparr>"] Suc.prems
    by (cases "ready_list s") (auto simp: sched_inv_ctx intr_context_def nth_append split: if_splits)
  then show ?case using Suc.IH [OF s1(2,3)] by simp
qed

section \<open>Properties\<close>

text \<open>
  C34: round-robin scheduling starves nobody: from any state that satisfies the scheduler's invariant, the thread
  at position \<open>k\<close> of the run queue is running after exactly \<open>k + 1\<close> calls of \<^verbatim>\<open>thread_yield\<close>, made by
  whichever threads run meanwhile; no assertion fails on the way and the invariant holds at the end.
\<close>

theorem thread_yield_round_robin:
  assumes "sched_inv s" and "k < length (ready_list s)"
  shows "\<exists>s'. yields (Suc k) s = Some s' \<and> sched_inv s' \<and> running s' = ready_list s ! k"
  using assms by (rule yields_position)

text \<open>
  a thread that blocks is not run again until it is unblocked. \<^verbatim>\<open>thread_block\<close>, called with interrupts off
  by a thread other than the idle thread, marks it blocked, and hands the CPU to the first thread of the run
  queue, or to the idle thread when the queue is empty; unblocking it then puts it at the end of the run queue.
  Both keep the scheduler's invariant and the interrupt level.
\<close>

theorem thread_block_unblock:
  assumes "sched_inv s" and "\<not> intr_on s" and "\<not> intr_context s" and "running s \<noteq> idle_thread s"
  shows "\<exists>s1 s2. thread_block s = Some s1 \<and> sched_inv s1 \<and> status_of s1 (running s) = Some THREAD_BLOCKED \<and>
    running s1 = (case ready_list s of [] \<Rightarrow> idle_thread s | t # ts \<Rightarrow> t) \<and> running s \<notin> set (ready_list s1) \<and>
    thread_unblock (running s) s1 = Some s2 \<and> sched_inv s2 \<and> ready_list s2 = tl (ready_list s) @ [running s] \<and>
    running s2 = running s1 \<and> \<not> intr_on s2"
proof -
  note nr = running_not_queued [OF assms(1)]
  have nx: "next_thread s = (case ready_list s of [] \<Rightarrow> idle_thread s | t # ts \<Rightarrow> t)" by (cases "ready_list s") (auto simp: next_thread_def)
  have ne: "running s \<noteq> next_thread s" using nr(1) assms(4) by (cases "ready_list s") (auto simp: next_thread_def)
  obtain s1 where s1: "thread_block s = Some s1" "sched_inv s1" "running s1 = next_thread s" "ready_list s1 = tl (ready_list s)"
    "\<not> intr_on s1" "semas s1 = semas s" "status_of s1 (running s) = Some THREAD_BLOCKED"
    using thread_block_ok [OF assms(1-3)] ne by blast
  have idle: "idle_thread s1 = idle_thread s" using thread_block_idle [OF s1(1)] .
  have "running s \<notin> all_waiters s1" using nr(2) all_waiters_cong [OF s1(6)] by simp
  then obtain s2 where "thread_unblock (running s) s1 = Some s2" "sched_inv s2" "ready_list s2 = ready_list s1 @ [running s]"
    "running s2 = running s1" "intr_on s2 = intr_on s1"
    using thread_unblock_ok [OF s1(2,7)] assms(4) idle s1(5) by auto
  then show ?thesis using s1 nx nr(1) by (intro exI [of _ s1] exI [of _ s2]) (auto dest: in_set_tlD)
qed

text \<open>
  a thread that exits is gone: after \<^verbatim>\<open>thread_exit\<close> another thread runs, the exiting thread's page is
  freed (unless it is the initial thread, whose page the loader owns), and the scheduler's invariant holds.
  The clean-up of files and process memory that runs first is any step that keeps the invariant.
\<close>

theorem thread_exit_frees_thread:
  assumes "cleanup s = Some s0" and "sched_inv s0" and "\<not> intr_context s" and "running s0 \<noteq> idle_thread s0"
  shows "\<exists>s'. thread_exit cleanup s = Some s' \<and> sched_inv s' \<and> running s' \<noteq> running s0 \<and>
    (running s0 \<noteq> initial_thread s0 \<longrightarrow> threads s' (running s0) = None)"
  using thread_exit_ok [of cleanup s s0, OF assms] by blast

definition demo_sys :: ksys where
  "demo_sys = \<lparr>threads = [4096 \<mapsto> (init_thread_struct 4096 ''main'' 31)\<lparr>t_status := THREAD_RUNNING\<rparr>,
       8192 \<mapsto> (init_thread_struct 8192 ''a'' 31)\<lparr>t_status := THREAD_READY\<rparr>,
       12288 \<mapsto> (init_thread_struct 12288 ''b'' 31)\<lparr>t_status := THREAD_READY\<rparr>,
       16384 \<mapsto> init_thread_struct 16384 ''idle'' 0],
     running = 4096, ready_list = [8192, 12288], all_list = [4096, 16384, 8192, 12288], sleeping_list = [], idle_thread = 16384,
     initial_thread = 4096, idle_ticks = 0, kernel_ticks = 0, user_ticks = 0, thread_ticks = 0, next_tid = 5, intr_on = False,
     in_external_intr = False, yield_on_return = False, semas = Map.empty, holders = Map.empty, cond_waiters = Map.empty\<rparr>"

lemma demo_sys_inv: "sched_inv demo_sys"
  by (auto simp: sched_inv_def sched_core_def threads_ok_def queue_ok_def waiters_ok_def status_of_def all_waiters_def demo_sys_def
      init_thread_struct_def split: if_splits)

theorem thread_yield_round_robin_witness: "\<exists>s'. yields 2 demo_sys = Some s' \<and> running s' = 12288"
  using thread_yield_round_robin [OF demo_sys_inv, of 1] by (auto simp: demo_sys_def numeral_2_eq_2)

theorem thread_block_unblock_witness:
  "\<exists>s1 s2. thread_block demo_sys = Some s1 \<and> running s1 = 8192 \<and> thread_unblock 4096 s1 = Some s2 \<and> ready_list s2 = [12288, 4096]"
  using thread_block_unblock [OF demo_sys_inv] by (auto simp: demo_sys_def intr_context_def)

theorem thread_exit_frees_thread_witness:
  "\<exists>s'. thread_exit Some (demo_sys\<lparr>initial_thread := 0\<rparr>) = Some s' \<and> threads s' 4096 = None"
proof -
  have "sched_inv (demo_sys\<lparr>initial_thread := 0\<rparr>)"
    using demo_sys_inv by (simp add: sched_inv_def sched_core_def threads_ok_def queue_ok_def waiters_ok_def status_of_def all_waiters_def)
  from thread_exit_frees_thread [of Some, OF refl this] show ?thesis by (auto simp: demo_sys_def intr_context_def)
qed

end
