(* ===== verification/Synch.thy ===== *)
theory Synch
  imports Threads
begin

text \<open>
  Synchronisation, \<^verbatim>\<open>threads/synch.c\<close>: semaphores, locks and condition variables, and the parts of
  \<^verbatim>\<open>threads/thread.c\<close> and \<^verbatim>\<open>devices/timer.c\<close> that use them (thread creation, sleeping, the timer tick).
  A call that may sleep returns an \<open>outcome\<close>: \<open>Returned\<close> when it ran to its end, \<open>Switched lvl\<close> when
  the calling thread went to sleep inside it with the saved interrupt level \<open>lvl\<close> and another thread
  is now running; the sleeping thread continues with the next iteration of the loop in \<^verbatim>\<open>sema_down\<close>.
\<close>

datatype outcome = Returned | Switched bool

section \<open>Semaphores\<close>

definition sema_init :: "sema_id \<Rightarrow> nat \<Rightarrow> ksys \<Rightarrow> ksys" where
  "sema_init m value s = s\<lparr>semas := (semas s)(m \<mapsto> \<lparr>s_value = value, s_waiters = []\<rparr>)\<rparr>"

text \<open>One iteration of the loop of \<^verbatim>\<open>sema_down\<close> together with the decrement after it.\<close>

definition sema_down_iter :: "sema_id \<Rightarrow> ksys \<Rightarrow> (bool \<times> ksys) option" where
  "sema_down_iter m s = do {
     sem \<leftarrow> semas s m;
     if s_value sem = 0 then do {
       (t, _) \<leftarrow> thread_current s;
       let s = s\<lparr>semas := (semas s)(m \<mapsto> sem\<lparr>s_waiters := s_waiters sem @ [t]\<rparr>)\<rparr>;
       s \<leftarrow> thread_block s;
       Some (False, s) }
     else Some (True, s\<lparr>semas := (semas s)(m \<mapsto> sem\<lparr>s_value := s_value sem - 1\<rparr>)\<rparr>) }"

definition sema_down_resume :: "sema_id \<Rightarrow> bool \<Rightarrow> ksys \<Rightarrow> (outcome \<times> ksys) option" where
  "sema_down_resume m old_level s = do {
     (fin, s) \<leftarrow> sema_down_iter m s;
     if fin then do { (_, s) \<leftarrow> intr_set_level old_level s; Some (Returned, s) }
     else Some (Switched old_level, s) }"

definition sema_down :: "sema_id \<Rightarrow> ksys \<Rightarrow> (outcome \<times> ksys) option" where
  "sema_down m s = do {
     ASSERT (\<not> intr_context s);
     let (old_level, s) = intr_disable s;
     sema_down_resume m old_level s }"

definition sema_try_down :: "sema_id \<Rightarrow> ksys \<Rightarrow> (bool \<times> ksys) option" where
  "sema_try_down m s = do {
     let (old_level, s) = intr_disable s;
     sem \<leftarrow> semas s m;
     let (success, s) =
       (if 0 < s_value sem
        then (True, s\<lparr>semas := (semas s)(m \<mapsto> sem\<lparr>s_value := s_value sem - 1\<rparr>)\<rparr>)
        else (False, s));
     (_, s) \<leftarrow> intr_set_level old_level s;
     Some (success, s) }"

definition sema_up :: "sema_id \<Rightarrow> ksys \<Rightarrow> ksys option" where
  "sema_up m s = do {
     let (old_level, s) = intr_disable s;
     sem \<leftarrow> semas s m;
     s \<leftarrow> (case s_waiters sem of
             [] \<Rightarrow> Some s
           | t # ts \<Rightarrow> thread_unblock t (s\<lparr>semas := (semas s)(m \<mapsto> sem\<lparr>s_waiters := ts\<rparr>)\<rparr>));
     sem \<leftarrow> semas s m;
     let s = s\<lparr>semas := (semas s)(m \<mapsto> sem\<lparr>s_value := sz (s_value sem + 1)\<rparr>)\<rparr>;
     (_, s) \<leftarrow> intr_set_level old_level s;
     Some s }"

section \<open>Locks\<close>

definition lock_init :: "nat \<Rightarrow> ksys \<Rightarrow> ksys" where
  "lock_init l s = sema_init (LockSema l) 1 (s\<lparr>holders := (holders s)(l \<mapsto> NO_THREAD)\<rparr>)"

definition lock_held_by_current_thread :: "nat \<Rightarrow> ksys \<Rightarrow> bool option" where
  "lock_held_by_current_thread l s = do {
     h \<leftarrow> holders s l;
     (t, _) \<leftarrow> thread_current s;
     Some (h = t) }"

definition set_holder :: "nat \<Rightarrow> tptr \<Rightarrow> ksys \<Rightarrow> ksys" where
  "set_holder l t s = s\<lparr>holders := (holders s)(l \<mapsto> t)\<rparr>"

text \<open>The statement after \<^verbatim>\<open>sema_down\<close> in \<^verbatim>\<open>lock_acquire\<close>: with interrupts on, the thread may be
  preempted just before it.\<close>

definition lock_acquire_finish :: "nat \<Rightarrow> ksys \<Rightarrow> ksys option" where
  "lock_acquire_finish l s = do { (t, _) \<leftarrow> thread_current s; Some (set_holder l t s) }"

definition lock_acquire :: "nat \<Rightarrow> ksys \<Rightarrow> (outcome \<times> ksys) option" where
  "lock_acquire l s = do {
     ASSERT (\<not> intr_context s);
     held \<leftarrow> lock_held_by_current_thread l s;
     ASSERT (\<not> held);
     (r, s) \<leftarrow> sema_down (LockSema l) s;
     case r of
       Returned \<Rightarrow> do { s \<leftarrow> lock_acquire_finish l s; Some (Returned, s) }
     | Switched lvl \<Rightarrow> Some (Switched lvl, s) }"

definition lock_try_acquire :: "nat \<Rightarrow> ksys \<Rightarrow> (bool \<times> ksys) option" where
  "lock_try_acquire l s = do {
     held \<leftarrow> lock_held_by_current_thread l s;
     ASSERT (\<not> held);
     (success, s) \<leftarrow> sema_try_down (LockSema l) s;
     if success then do { s \<leftarrow> lock_acquire_finish l s; Some (True, s) } else Some (False, s) }"

definition lock_release :: "nat \<Rightarrow> ksys \<Rightarrow> ksys option" where
  "lock_release l s = do {
     held \<leftarrow> lock_held_by_current_thread l s;
     ASSERT held;
     let s = set_holder l NO_THREAD s;
     sema_up (LockSema l) s }"

section \<open>Condition variables\<close>

definition cond_init :: "nat \<Rightarrow> ksys \<Rightarrow> ksys" where
  "cond_init c s = s\<lparr>cond_waiters := (cond_waiters s)(c \<mapsto> [])\<rparr>"

text \<open>\<^verbatim>\<open>cond_wait\<close> up to the point where it sleeps; after it is woken it acquires the lock again.\<close>

definition cond_wait :: "nat \<Rightarrow> nat \<Rightarrow> ksys \<Rightarrow> (outcome \<times> ksys) option" where
  "cond_wait c l s = do {
     ASSERT (\<not> intr_context s);
     held \<leftarrow> lock_held_by_current_thread l s;
     ASSERT held;
     (t, _) \<leftarrow> thread_current s;
     let s = sema_init (WaiterSema t) 0 s;
     ws \<leftarrow> cond_waiters s c;
     let s = s\<lparr>cond_waiters := (cond_waiters s)(c \<mapsto> ws @ [t])\<rparr>;
     s \<leftarrow> lock_release l s;
     (r, s) \<leftarrow> sema_down (WaiterSema t) s;
     case r of Returned \<Rightarrow> lock_acquire l s | Switched lvl \<Rightarrow> Some (Switched lvl, s) }"

definition cond_signal :: "nat \<Rightarrow> nat \<Rightarrow> ksys \<Rightarrow> ksys option" where
  "cond_signal c l s = do {
     ASSERT (\<not> intr_context s);
     held \<leftarrow> lock_held_by_current_thread l s;
     ASSERT held;
     ws \<leftarrow> cond_waiters s c;
     case ws of
       [] \<Rightarrow> Some s
     | t # ts \<Rightarrow> sema_up (WaiterSema t) (s\<lparr>cond_waiters := (cond_waiters s)(c \<mapsto> ts)\<rparr>) }"

partial_function (option) cond_broadcast :: "nat \<Rightarrow> nat \<Rightarrow> ksys \<Rightarrow> ksys option" where
  "cond_broadcast c l s = do {
     ws \<leftarrow> cond_waiters s c;
     if ws = [] then Some s
     else do { s \<leftarrow> cond_signal c l s; cond_broadcast c l s } }"

section \<open>Thread identifiers and thread creation\<close>

definition tid_lock :: nat where "tid_lock = 0"

definition allocate_tid :: "ksys \<Rightarrow> (int option \<times> ksys) option" where
  "allocate_tid s = do {
     (r, s) \<leftarrow> lock_acquire tid_lock s;
     case r of
       Returned \<Rightarrow> do {
         let tid = next_tid s;
         let s = s\<lparr>next_tid := next_tid s + 1\<rparr>;
         s \<leftarrow> lock_release tid_lock s;
         Some (Some tid, s) }
     | Switched _ \<Rightarrow> Some (None, s) }"

text \<open>
  \<open>page\<close> is what \<^verbatim>\<open>palloc_get_page (PAL_ZERO)\<close> returned, \<open>NO_THREAD\<close> for a null pointer. The result
  is \<open>None\<close> inside when the call went to sleep on the lock of \<^verbatim>\<open>allocate_tid\<close>. The three stack frames
  are 12, 4 and 28 bytes; of their contents the model keeps the thread function and its argument.
\<close>

definition thread_create :: "tptr \<Rightarrow> string \<Rightarrow> int \<Rightarrow> nat \<Rightarrow> nat \<Rightarrow> ksys \<Rightarrow> (int option \<times> ksys) option" where
  "thread_create page name priority func aux s = do {
     ASSERT (func \<noteq> 0);
     let t = page;
     if t = NO_THREAD then Some (Some TID_ERROR, s)
     else do {
       s \<leftarrow> init_thread t name priority s;
       (r, s) \<leftarrow> allocate_tid s;
       case r of
         None \<Rightarrow> Some (None, s)
       | Some tid \<Rightarrow> do {
           s \<leftarrow> set_thread t (t_tid_update (\<lambda>_. tid)) s;
           (_, cur) \<leftarrow> thread_current s;
           s \<leftarrow> set_thread t (\<lambda>th. th\<lparr>t_parent_tid := t_tid cur, t_curr_dir := t_curr_dir cur\<rparr>) s;
           s \<leftarrow> alloc_frame t 12 s;
           s \<leftarrow> set_thread t (\<lambda>th. th\<lparr>t_function := func, t_aux := aux\<rparr>) s;
           s \<leftarrow> alloc_frame t 4 s;
           s \<leftarrow> alloc_frame t 28 s;
           s \<leftarrow> thread_unblock t s;
           Some (Some tid, s) } } }"

definition thread_init :: "tptr \<Rightarrow> ksys \<Rightarrow> (int option \<times> ksys) option" where
  "thread_init esp_page s = do {
     ASSERT (\<not> intr_on s);
     let s = lock_init tid_lock s;
     let s = s\<lparr>ready_list := [], all_list := [], sleeping_list := [], initial_thread := esp_page, running := esp_page\<rparr>;
     s \<leftarrow> init_thread esp_page ''main'' PRI_DEFAULT s;
     s \<leftarrow> set_status esp_page THREAD_RUNNING s;
     (r, s) \<leftarrow> allocate_tid s;
     case r of
       None \<Rightarrow> Some (None, s)
     | Some tid \<Rightarrow> do { s \<leftarrow> set_thread esp_page (t_tid_update (\<lambda>_. tid)) s; Some (Some tid, s) } }"

section \<open>Sleeping and the timer tick\<close>

text \<open>The search of \<^verbatim>\<open>thread_sleep\<close> runs backwards from the end of the sleeping list, so the recursion
  is over the reversed list.\<close>

fun sleep_insert_rev :: "int \<Rightarrow> tptr \<Rightarrow> (int \<times> tptr) list \<Rightarrow> (int \<times> tptr) list" where
  "sleep_insert_rev until t [] = [(until, t)]"
| "sleep_insert_rev until t (x # xs) =
     (if fst x \<le> until then (until, t) # x # xs else x # sleep_insert_rev until t xs)"

definition sleep_insert :: "int \<Rightarrow> tptr \<Rightarrow> (int \<times> tptr) list \<Rightarrow> (int \<times> tptr) list" where
  "sleep_insert until t xs = rev (sleep_insert_rev until t (rev xs))"

definition thread_sleep :: "int \<Rightarrow> ksys \<Rightarrow> (outcome \<times> ksys) option" where
  "thread_sleep until s = do {
     let (older_level, s) = intr_disable s;
     (t, _) \<leftarrow> thread_current s;
     let s = sema_init (SleepSema t) 0 s;
     let s = s\<lparr>sleeping_list := sleep_insert until t (sleeping_list s)\<rparr>;
     (r, s) \<leftarrow> sema_down (SleepSema t) s;
     case r of
       Returned \<Rightarrow> do { (_, s) \<leftarrow> intr_set_level older_level s; Some (Returned, s) }
     | Switched _ \<Rightarrow> Some (Switched older_level, s) }"

partial_function (option) wake_loop :: "int \<Rightarrow> ksys \<Rightarrow> ksys option" where
  "wake_loop now s =
     (case sleeping_list s of
        [] \<Rightarrow> Some s
      | x # xs \<Rightarrow>
          if fst x < now then do {
            s \<leftarrow> sema_up (SleepSema (snd x)) (s\<lparr>sleeping_list := xs\<rparr>);
            wake_loop now s }
          else Some s)"

definition thread_tick :: "int \<Rightarrow> ksys \<Rightarrow> ksys option" where
  "thread_tick now s = do {
     (t, th) \<leftarrow> thread_current s;
     let s = (if t = idle_thread s then s\<lparr>idle_ticks := idle_ticks s + 1\<rparr>
              else if t_pagedir th \<noteq> 0 then s\<lparr>user_ticks := user_ticks s + 1\<rparr>
              else s\<lparr>kernel_ticks := kernel_ticks s + 1\<rparr>);
     s \<leftarrow> wake_loop now s;
     let s = s\<lparr>thread_ticks := sz (thread_ticks s + 1)\<rparr>;
     if TIME_SLICE \<le> thread_ticks s then intr_yield_on_return s else Some s }"

text \<open>\<^verbatim>\<open>devices/timer.c\<close>: the tick counter is passed beside the thread state.\<close>

definition timer_interrupt :: "int \<times> ksys \<Rightarrow> (int \<times> ksys) option" where
  "timer_interrupt = (\<lambda>(ticks, s). do {
     let ticks = ticks + 1;
     s \<leftarrow> thread_tick ticks s;
     Some (ticks, s) })"

definition timer_ticks :: "int \<times> ksys \<Rightarrow> (int \<times> ksys) option" where
  "timer_ticks = (\<lambda>(ticks, s). do {
     let (old_level, s) = intr_disable s;
     let t = ticks;
     (_, s) \<leftarrow> intr_set_level old_level s;
     Some (t, s) })"

definition timer_elapsed :: "int \<Rightarrow> int \<times> ksys \<Rightarrow> int option" where
  "timer_elapsed since ts = map_option (\<lambda>(t, _). t - since) (timer_ticks ts)"

definition timer_sleep :: "int \<Rightarrow> int \<times> ksys \<Rightarrow> (outcome \<times> ksys) option" where
  "timer_sleep n = (\<lambda>(ticks, s). do {
     ASSERT (intr_on s);
     if 0 < n then do {
       (now, s) \<leftarrow> timer_ticks (ticks, s);
       thread_sleep (now + n) s }
     else Some (Returned, s) })"

text \<open>The external-interrupt path of \<^verbatim>\<open>intr_handler\<close> for a registered handler, with the yield it may end in.\<close>

definition intr_handler_external :: "(ksys \<Rightarrow> ksys option) \<Rightarrow> ksys \<Rightarrow> ksys option" where
  "intr_handler_external handler s = do {
     ASSERT (\<not> intr_on s);
     ASSERT (\<not> intr_context s);
     let s = s\<lparr>in_external_intr := True, yield_on_return := False\<rparr>;
     s \<leftarrow> handler s;
     ASSERT (\<not> intr_on s);
     ASSERT (intr_context s);
     let s = s\<lparr>in_external_intr := False\<rparr>;
     if yield_on_return s then map_option snd (thread_yield s) else Some s }"

text \<open>The idle thread: it announces itself, then blocks whenever it runs; \<^verbatim>\<open>sti; hlt\<close> turns interrupts
  on again when it has been switched to.\<close>

definition idle_begin :: "sema_id \<Rightarrow> ksys \<Rightarrow> ksys option" where
  "idle_begin idle_started s = do {
     (t, _) \<leftarrow> thread_current s;
     sema_up idle_started (s\<lparr>idle_thread := t\<rparr>) }"

definition idle_iter :: "ksys \<Rightarrow> ksys option" where
  "idle_iter s = thread_block (snd (intr_disable s))"

section \<open>Semaphores keep the scheduler's invariant\<close>

lemma all_waiters_iff: "t \<in> all_waiters s \<longleftrightarrow> (\<exists>m sem. semas s m = Some sem \<and> t \<in> set (s_waiters sem))"
  by (auto simp: all_waiters_def ran_def)

lemma waiters_ok_sema:
  assumes w: "waiters_ok s" and sm: "semas s' = (semas s)(m \<mapsto> sem')" and id: "idle_thread s' = idle_thread s"
    and d: "distinct (s_waiters sem')"
    and new: "\<And>t. t \<in> set (s_waiters sem') \<Longrightarrow> t \<noteq> idle_thread s \<and> status_of s' t = Some THREAD_BLOCKED \<and>
        (\<forall>m' sem. m' \<noteq> m \<longrightarrow> semas s m' = Some sem \<longrightarrow> t \<notin> set (s_waiters sem))"
    and old: "\<And>t m' sem. m' \<noteq> m \<Longrightarrow> semas s m' = Some sem \<Longrightarrow> t \<in> set (s_waiters sem) \<Longrightarrow> status_of s' t = status_of s t"
  shows "waiters_ok s'"
proof -
  have st: "status_of s' t = Some THREAD_BLOCKED \<and> t \<noteq> idle_thread s" if "t \<in> all_waiters s'" for t
  proof -
    obtain m' sem where m': "semas s' m' = Some sem" "t \<in> set (s_waiters sem)" using \<open>t \<in> all_waiters s'\<close> by (auto simp: all_waiters_iff)
    show ?thesis
    proof (cases "m' = m")
      case True
      with m' sm new show ?thesis by auto
    next
      case False
      then have "semas s m' = Some sem" using m'(1) sm by simp
      moreover have "t \<in> all_waiters s" using calculation m'(2) by (auto simp: all_waiters_iff)
      then have "status_of s t = Some THREAD_BLOCKED" "t \<noteq> idle_thread s" using w by (auto simp: waiters_ok_def)
      ultimately show ?thesis using old [OF False _ m'(2)] by auto
    qed
  qed
  have dis: "set (s_waiters a) \<inter> set (s_waiters b) = {}" if "semas s' x = Some a" "semas s' y = Some b" "x \<noteq> y" for x y a b
  proof (cases "x = m \<or> y = m")
    case True
    with that sm have "x = m \<and> a = sem' \<and> y \<noteq> m \<and> semas s y = Some b \<or> y = m \<and> b = sem' \<and> x \<noteq> m \<and> semas s x = Some a"
      by (auto split: if_splits)
    with new show ?thesis by blast
  next
    case False
    with that sm have "semas s x = Some a" "semas s y = Some b" by simp_all
    with w that(3) show ?thesis unfolding waiters_ok_def by blast
  qed
  have "distinct (s_waiters a)" if "semas s' x = Some a" for x a
    using that sm d w unfolding waiters_ok_def by (cases "x = m") auto
  with st dis id show ?thesis unfolding waiters_ok_def by auto
qed

lemma waiters_of_sema:
  assumes "waiters_ok s" and "semas s m = Some sem"
  shows "distinct (s_waiters sem)"
    and "t \<in> set (s_waiters sem) \<Longrightarrow> t \<noteq> idle_thread s \<and> status_of s t = Some THREAD_BLOCKED"
    and "t \<in> set (s_waiters sem) \<Longrightarrow> m' \<noteq> m \<Longrightarrow> semas s m' = Some sem2 \<Longrightarrow> t \<notin> set (s_waiters sem2)"
proof -
  have aw: "t \<in> all_waiters s" if "t \<in> set (s_waiters sem)" for t using that assms(2) by (auto simp: all_waiters_iff)
  show "distinct (s_waiters sem)" using assms unfolding waiters_ok_def by blast
  show "t \<in> set (s_waiters sem) \<Longrightarrow> t \<noteq> idle_thread s \<and> status_of s t = Some THREAD_BLOCKED"
    using aw [of t] assms(1) unfolding waiters_ok_def by blast
  show "t \<in> set (s_waiters sem) \<Longrightarrow> m' \<noteq> m \<Longrightarrow> semas s m' = Some sem2 \<Longrightarrow> t \<notin> set (s_waiters sem2)"
    using assms unfolding waiters_ok_def by blast
qed

text \<open>A change to one semaphore that adds no waiter.\<close>

lemma sched_inv_sema:
  assumes inv: "sched_inv s" and sem: "semas s m = Some sem" and sub: "set (s_waiters sem') \<subseteq> set (s_waiters sem)" "distinct (s_waiters sem')"
    and s': "semas s' = (semas s)(m \<mapsto> sem')" "threads s' = threads s" "running s' = running s" "ready_list s' = ready_list s" "idle_thread s' = idle_thread s"
  shows "sched_inv s'"
proof -
  have core: "threads_ok s" "queue_ok s" "waiters_ok s" "status_of s (running s) = Some THREAD_RUNNING"
    using inv by (auto simp: sched_inv_def sched_core_def)
  have st: "status_of s' = status_of s" using s'(2) by (rule status_of_cong)
  have "waiters_ok s'"
    by (rule waiters_ok_sema [OF core(3) s'(1,5) sub(2)]) (use sub(1) waiters_of_sema [OF core(3) sem] st in auto)
  moreover have "threads_ok s'" "queue_ok s'"
    using core(1,2) s' st by (simp_all add: threads_ok_def queue_ok_def)
  ultimately show ?thesis using core(4) st s' by (simp add: sched_inv_def sched_core_def)
qed

lemma sched_inv_intr: "sched_inv (s\<lparr>intr_on := b\<rparr>) = sched_inv s"
  by (simp add: sched_inv_def sched_core_def threads_ok_def queue_ok_def waiters_ok_def status_of_def all_waiters_def)

lemma sema_up_ok:
  assumes inv: "sched_inv s" and sem: "semas s m = Some sem" and lvl: "intr_on s \<Longrightarrow> \<not> in_external_intr s"
  shows "\<exists>s'. sema_up m s = Some s' \<and> sched_inv s' \<and> running s' = running s \<and> intr_on s' = intr_on s \<and>
    s' = s\<lparr>ready_list := ready_list s', threads := threads s', semas := semas s'\<rparr> \<and>
    semas s' = (semas s)(m \<mapsto> \<lparr>s_value = sz (s_value sem + 1), s_waiters = tl (s_waiters sem)\<rparr>) \<and>
    ready_list s' = ready_list s @ take 1 (s_waiters sem) \<and>
    (\<forall>t. t \<notin> set (take 1 (s_waiters sem)) \<longrightarrow> status_of s' t = status_of s t)"
proof (cases "s_waiters sem")
  case Nil
  let ?s' = "s\<lparr>semas := (semas s)(m \<mapsto> sem\<lparr>s_value := sz (s_value sem + 1)\<rparr>)\<rparr>"
  have "sema_up m s = Some ?s'"
    using sem Nil lvl by (cases "intr_on s") (auto simp: sema_up_def intr_disable_def intr_set_level_def intr_enable_def)
  moreover have "sched_inv ?s'"
    by (rule sched_inv_sema [OF inv sem, of "sem\<lparr>s_value := sz (s_value sem + 1)\<rparr>"]) (simp_all add: Nil)
  ultimately show ?thesis using Nil by (intro exI [of _ ?s']) (cases sem, simp add: status_of_def)
next
  case (Cons t ts)
  have core: "waiters_ok s" using inv by (auto simp: sched_inv_def sched_core_def)
  note w = waiters_of_sema [OF core sem]
  let ?s1 = "s\<lparr>intr_on := False, semas := (semas s)(m \<mapsto> sem\<lparr>s_waiters := ts\<rparr>)\<rparr>"
  have inv1: "sched_inv ?s1"
    by (rule sched_inv_sema [OF inv sem, of "sem\<lparr>s_waiters := ts\<rparr>"]) (use Cons w(1) in auto)
  have "t \<notin> all_waiters ?s1" using Cons w(1) w(3) [of t] by (auto simp: all_waiters_iff split: if_splits)
  moreover have "status_of ?s1 t = Some THREAD_BLOCKED" "t \<noteq> idle_thread ?s1"
    using w(2) [of t] Cons by (auto simp: status_of_def)
  ultimately obtain s2 where s2: "thread_unblock t ?s1 = Some s2" "sched_inv s2" "ready_list s2 = ready_list s @ [t]"
    "running s2 = running s" "\<not> intr_on s2" "semas s2 = semas ?s1" "idle_thread s2 = idle_thread s"
    "status_of s2 = (status_of ?s1)(t \<mapsto> THREAD_READY)" "s2 = ?s1\<lparr>ready_list := ready_list s2, threads := threads s2\<rparr>"
    using thread_unblock_ok [OF inv1, of t] by auto
  have s2': "in_external_intr s2 = in_external_intr s"
    "s2\<lparr>intr_on := b, semas := q\<rparr> = s\<lparr>intr_on := b, ready_list := ready_list s2, threads := threads s2, semas := q\<rparr>" for b q
    by (subst s2(9), simp)+
  let ?s' = "s2\<lparr>intr_on := intr_on s, semas := (semas s2)(m \<mapsto> sem\<lparr>s_waiters := ts, s_value := sz (s_value sem + 1)\<rparr>)\<rparr>"
  have "sema_up m s = Some ?s'"
    using sem Cons lvl s2(1-8) s2'(1) by (cases "intr_on s") (auto simp: sema_up_def intr_disable_def intr_set_level_def intr_enable_def)
  moreover have "sched_inv ?s'"
    by (rule sched_inv_sema [OF s2(2), of m "sem\<lparr>s_waiters := ts\<rparr>"]) (use s2(6) Cons w(1) in auto)
  moreover have "?s' = s\<lparr>ready_list := ready_list ?s', threads := threads ?s', semas := semas ?s'\<rparr>"
    by (subst s2'(2)) simp
  moreover have "status_of ?s' u = status_of s u" if "u \<noteq> t" for u using s2(8) that by (simp add: status_of_def fun_eq_iff)
  ultimately show ?thesis using Cons s2(1-8) by (intro exI [of _ ?s']) (cases sem, simp)
qed

lemma sema_down_iter_pass:
  assumes inv: "sched_inv s" and sem: "semas s m = Some sem" and pos: "0 < s_value sem"
  shows "\<exists>s'. sema_down_iter m s = Some (True, s') \<and> sched_inv s' \<and> running s' = running s \<and> ready_list s' = ready_list s \<and>
    semas s' = (semas s)(m \<mapsto> sem\<lparr>s_value := s_value sem - 1\<rparr>)"
proof -
  let ?s' = "s\<lparr>semas := (semas s)(m \<mapsto> sem\<lparr>s_value := s_value sem - 1\<rparr>)\<rparr>"
  have "distinct (s_waiters sem)" using inv sem waiters_of_sema(1) by (auto simp: sched_inv_def sched_core_def)
  then have "sched_inv ?s'" by (intro sched_inv_sema [OF inv sem, of "sem\<lparr>s_value := s_value sem - 1\<rparr>"]) simp_all
  then show ?thesis using sem pos by (intro exI [of _ ?s']) (simp add: sema_down_iter_def)
qed

lemma sema_down_iter_wait:
  assumes inv: "sched_inv s" and sem: "semas s m = Some sem" and zero: "s_value sem = 0"
    and off: "\<not> intr_on s" and ctx: "\<not> intr_context s" and ni: "running s \<noteq> idle_thread s"
  shows "\<exists>s'. sema_down_iter m s = Some (False, s') \<and> sched_inv s' \<and> running s' = next_thread s \<and> running s' \<noteq> running s \<and>
    ready_list s' = tl (ready_list s) \<and> \<not> intr_on s' \<and>
    semas s' = (semas s)(m \<mapsto> sem\<lparr>s_waiters := s_waiters sem @ [running s]\<rparr>) \<and>
    status_of s' (running s) = Some THREAD_BLOCKED"
proof -
  obtain c where c: "thread_current s = Some (running s, c)" "threads s (running s) = Some c" "t_status c = THREAD_RUNNING"
    using inv by (rule sched_inv_current)
  let ?s1 = "s\<lparr>semas := (semas s)(m \<mapsto> sem\<lparr>s_waiters := s_waiters sem @ [running s]\<rparr>)\<rparr>"
  let ?s2 = "s\<lparr>semas := (semas s)(m \<mapsto> sem\<lparr>s_waiters := s_waiters sem @ [running s]\<rparr>),
              threads := (threads s)(running s \<mapsto> c\<lparr>t_status := THREAD_BLOCKED\<rparr>)\<rparr>"
  have core: "threads_ok s" "queue_ok s" "waiters_ok s" using inv by (auto simp: sched_inv_def sched_core_def)
  note nr = running_not_queued [OF inv] and w = waiters_of_sema [OF core(3) sem]
  have st: "status_of ?s2 t = (if t = running s then Some THREAD_BLOCKED else status_of s t)" for t by (simp add: status_of_def)
  have nw: "running s \<notin> set (s_waiters q)" if "semas s x = Some q" for x q using nr(2) that by (auto simp: all_waiters_iff)
  have "threads_ok ?s2" by (rule threads_ok_status [OF core(1) c(2)]) simp_all
  moreover have "queue_ok ?s2" using core(2) nr(1) by (auto simp: queue_ok_def st)
  moreover have "waiters_ok ?s2"
    by (rule waiters_ok_sema [OF core(3), of _ m "sem\<lparr>s_waiters := s_waiters sem @ [running s]\<rparr>"])
      (use w ni nw sem st in auto)
  ultimately have "sched_core ?s2" by (simp add: sched_core_def)
  moreover have nx: "next_thread ?s1 = next_thread s" by (simp add: next_thread_def)
  moreover have "thread_current ?s1 = Some (running ?s1, c)"
    using c(1) is_thread_cong [of ?s1 s] by (simp add: thread_current_def)
  ultimately obtain s' where s': "thread_block ?s1 = Some s'" "sched_inv s'" "running s' = next_thread s"
    "ready_list s' = tl (ready_list s)" "\<not> intr_on s'" "semas s' = semas ?s1"
    "running s \<noteq> next_thread s \<longrightarrow> status_of s' (running s) = Some THREAD_BLOCKED"
    using thread_block_core [of ?s1 c] c(2) off ctx nx by (auto simp: intr_context_def)
  have "next_thread s \<noteq> running s" using nr(1) ni by (cases "ready_list s") (auto simp: next_thread_def)
  with s' c sem zero show ?thesis by (intro exI [of _ s']) (simp add: sema_down_iter_def)
qed

section \<open>Sleeping threads\<close>

text \<open>The sleeping list is ordered by wake-up time, ties in the order in which the threads went to
  sleep, and each sleeper is the only waiter of its own semaphore.\<close>

definition sleepers_ok :: "ksys \<Rightarrow> bool" where
  "sleepers_ok s \<longleftrightarrow> sorted (map fst (sleeping_list s)) \<and> distinct (map snd (sleeping_list s)) \<and>
     (\<forall>x \<in> set (sleeping_list s). semas s (SleepSema (snd x)) = Some \<lparr>s_value = 0, s_waiters = [snd x]\<rparr>)"

lemma sleep_insert_rev_eq:
  "sleep_insert_rev until t xs = takeWhile (\<lambda>x. until < fst x) xs @ (until, t) # dropWhile (\<lambda>x. until < fst x) xs"
  by (induction xs) auto

lemma sleep_insert_set: "set (sleep_insert until t xs) = insert (until, t) (set xs)"
proof -
  have "set (sleep_insert_rev until t ys) = insert (until, t) (set ys)" for ys
    by (induction ys) auto
  then show ?thesis by (simp add: sleep_insert_def)
qed

lemma sleep_insert_sorted: "sorted (map fst xs) \<Longrightarrow> sorted (map fst (sleep_insert until t xs))"
proof -
  assume s: "sorted (map fst xs)"
  have "sorted_wrt (\<ge>) (map fst (sleep_insert_rev until t ys))" if "sorted_wrt (\<ge>) (map fst ys)" for ys
    using that by (induction ys) (auto simp: sleep_insert_rev_eq dest: set_takeWhileD set_dropWhileD)
  moreover have "sorted_wrt (\<ge>) (map fst (rev xs))" using s by (simp add: sorted_wrt_rev flip: rev_map)
  ultimately show ?thesis by (simp add: sleep_insert_def sorted_wrt_rev flip: rev_map)
qed

lemma sched_inv_sleeping: "sched_inv (s\<lparr>sleeping_list := xs\<rparr>) = sched_inv s"
  by (simp add: sched_inv_def sched_core_def threads_ok_def queue_ok_def waiters_ok_def status_of_def all_waiters_def)

lemma wake_loop_ok:
  "sched_inv s \<Longrightarrow> sleepers_ok s \<Longrightarrow> \<not> intr_on s \<Longrightarrow>
   \<exists>s'. wake_loop now s = Some s' \<and> sched_inv s' \<and> sleepers_ok s' \<and> \<not> intr_on s' \<and>
     in_external_intr s' = in_external_intr s \<and> running s' = running s \<and> idle_thread s' = idle_thread s \<and>
     sleeping_list s' = dropWhile (\<lambda>x. fst x < now) (sleeping_list s) \<and>
     ready_list s' = ready_list s @ map snd (takeWhile (\<lambda>x. fst x < now) (sleeping_list s))"
proof (induction "sleeping_list s" arbitrary: s)
  case Nil
  then show ?case by (subst wake_loop.simps) (auto split: list.splits)
next
  case (Cons x xs)
  note sl = Cons.hyps(2) [symmetric]
  show ?case
  proof (cases "fst x < now")
    case False
    then show ?thesis using Cons.prems sl by (subst wake_loop.simps) auto
  next
    case True
    let ?s1 = "s\<lparr>sleeping_list := xs\<rparr>"
    have sem: "semas ?s1 (SleepSema (snd x)) = Some \<lparr>s_value = 0, s_waiters = [snd x]\<rparr>"
      using Cons.prems(2) sl by (simp add: sleepers_ok_def)
    have inv1: "sched_inv ?s1" using Cons.prems(1) by (simp add: sched_inv_sleeping)
    obtain s2 where s2: "sema_up (SleepSema (snd x)) ?s1 = Some s2" "sched_inv s2" "running s2 = running s" "\<not> intr_on s2"
      "in_external_intr s2 = in_external_intr s" "idle_thread s2 = idle_thread s" "ready_list s2 = ready_list s @ [snd x]"
      "semas s2 = (semas s)(SleepSema (snd x) \<mapsto> \<lparr>s_value = 1, s_waiters = []\<rparr>)" "sleeping_list s2 = xs"
    proof -
      from sema_up_ok [OF inv1 sem] Cons.prems(3) obtain s2 where s2: "sema_up (SleepSema (snd x)) ?s1 = Some s2"
        "sched_inv s2" "running s2 = running s" "\<not> intr_on s2" "ready_list s2 = ready_list s @ [snd x]"
        "semas s2 = (semas s)(SleepSema (snd x) \<mapsto> \<lparr>s_value = 1, s_waiters = []\<rparr>)"
        "s2 = ?s1\<lparr>ready_list := ready_list s2, threads := threads s2, semas := semas s2\<rparr>" by auto
      have "in_external_intr s2 = in_external_intr s" "idle_thread s2 = idle_thread s" "sleeping_list s2 = xs"
        by (subst s2(7), simp)+
      with s2(1-6) that show thesis by blast
    qed
    have "snd x \<noteq> snd y" if "y \<in> set xs" for y using Cons.prems(2) sl that by (auto simp: sleepers_ok_def)
    then have "sleepers_ok s2" using Cons.prems(2) sl s2(8,9) by (fastforce simp: sleepers_ok_def)
    from Cons.hyps(1) [of s2, OF s2(9) [symmetric] s2(2) this s2(4)] s2 True sl show ?thesis
      by (subst wake_loop.simps) auto
  qed
qed

lemma takeWhile_sorted: "sorted (map fst xs) \<Longrightarrow> takeWhile (\<lambda>x. fst x < now) xs = filter (\<lambda>x. fst x < now) xs"
  for now :: int
proof (induction xs)
  case (Cons x xs)
  then show ?case by (cases "fst x < now") (auto intro!: filter_False [symmetric])
qed simp

lemma dropWhile_sorted: "sorted (map fst xs) \<Longrightarrow> dropWhile (\<lambda>x. fst x < now) xs = filter (\<lambda>x. \<not> fst x < now) xs"
  for now :: int
proof (induction xs)
  case (Cons x xs)
  then show ?case by (cases "fst x < now") (auto intro!: filter_True [symmetric])
qed simp

text \<open>A tick, run by the interrupt handler: every thread whose time has come is made ready, in the
  order of the sleeping list, and nobody else; the running thread is preempted at the end of its slice.\<close>

lemma thread_tick_ok:
  assumes inv: "sched_inv s" and sl: "sleepers_ok s" and off: "\<not> intr_on s" and ctx: "in_external_intr s"
  shows "\<exists>s'. thread_tick now s = Some s' \<and> sched_inv s' \<and> sleepers_ok s' \<and> running s' = running s \<and>
    sleeping_list s' = filter (\<lambda>x. now \<le> fst x) (sleeping_list s) \<and>
    ready_list s' = ready_list s @ map snd (filter (\<lambda>x. fst x < now) (sleeping_list s)) \<and>
    (TIME_SLICE \<le> thread_ticks s' \<longrightarrow> yield_on_return s')"
proof -
  obtain c where c: "thread_current s = Some (running s, c)"
    using inv by (rule sched_inv_current)
  define s1 where "s1 = (if running s = idle_thread s then s\<lparr>idle_ticks := idle_ticks s + 1\<rparr>
              else if t_pagedir c \<noteq> 0 then s\<lparr>user_ticks := user_ticks s + 1\<rparr>
              else s\<lparr>kernel_ticks := kernel_ticks s + 1\<rparr>)"
  have s1: "sched_inv s1" "sleepers_ok s1" "\<not> intr_on s1" "in_external_intr s1" "running s1 = running s"
    "sleeping_list s1 = sleeping_list s" "ready_list s1 = ready_list s"
    using inv sl off ctx
    by (auto simp: s1_def sched_inv_def sched_core_def threads_ok_def queue_ok_def waiters_ok_def status_of_def
        all_waiters_def sleepers_ok_def)
  obtain s2 where s2: "wake_loop now s1 = Some s2" "sched_inv s2" "sleepers_ok s2" "in_external_intr s2" "running s2 = running s"
    "sleeping_list s2 = filter (\<lambda>x. now \<le> fst x) (sleeping_list s)"
    "ready_list s2 = ready_list s @ map snd (filter (\<lambda>x. fst x < now) (sleeping_list s))"
    using wake_loop_ok [OF s1(1-3), of now] s1(4-7) sl
    by (auto simp: sleepers_ok_def takeWhile_sorted dropWhile_sorted not_less)
  let ?s3 = "s2\<lparr>thread_ticks := sz (thread_ticks s2 + 1)\<rparr>"
  let ?s' = "if TIME_SLICE \<le> thread_ticks ?s3 then ?s3\<lparr>yield_on_return := True\<rparr> else ?s3"
  have "thread_tick now s = Some ?s'"
    using c s2(1,4) by (auto simp: thread_tick_def s1_def intr_yield_on_return_def intr_context_def Let_def)
  moreover have "sched_inv ?s'" "sleepers_ok ?s'"
    using s2(2,3)
    by (auto simp: sched_inv_def sched_core_def threads_ok_def queue_ok_def waiters_ok_def status_of_def
        all_waiters_def sleepers_ok_def)
  ultimately show ?thesis using s2 by (intro exI [of _ ?s']) auto
qed

section \<open>Properties\<close>

text \<open>
  C33: semaphores wake the waiters first come, first served and without loss. \<^verbatim>\<open>sema_up\<close> raises the value by
  one (modulo \<open>2 ^ 32\<close>), moves exactly the thread that has waited longest, if any, to the end of the run queue,
  keeps the other waiters in order, changes the status of no other thread, and restores the interrupt level.
\<close>

theorem sema_up_wakes_first_waiter:
  assumes "sched_inv s" and "semas s m = Some sem" and "intr_on s \<Longrightarrow> \<not> in_external_intr s"
  shows "\<exists>s'. sema_up m s = Some s' \<and> sched_inv s' \<and> running s' = running s \<and> intr_on s' = intr_on s \<and>
    semas s' = (semas s)(m \<mapsto> \<lparr>s_value = sz (s_value sem + 1), s_waiters = tl (s_waiters sem)\<rparr>) \<and>
    ready_list s' = ready_list s @ take 1 (s_waiters sem) \<and>
    (\<forall>t. t \<notin> set (take 1 (s_waiters sem)) \<longrightarrow> status_of s' t = status_of s t)"
  using sema_up_ok [OF assms] by blast

text \<open>
  \<^verbatim>\<open>sema_down\<close> passes exactly when the value is positive. Called outside an interrupt handler by a thread
  other than the idle thread, it either decrements a positive value and returns with the interrupt level
  it was called with, or queues the caller behind the waiters, blocks it and switches to another thread.
\<close>

theorem sema_down_passes_or_waits:
  assumes inv: "sched_inv s" and sem: "semas s m = Some sem" and ctx: "\<not> intr_context s" and ni: "running s \<noteq> idle_thread s"
  shows "if 0 < s_value sem
    then \<exists>s'. sema_down m s = Some (Returned, s') \<and> sched_inv s' \<and> running s' = running s \<and> intr_on s' = intr_on s \<and>
      semas s' = (semas s)(m \<mapsto> sem\<lparr>s_value := s_value sem - 1\<rparr>)
    else \<exists>s'. sema_down m s = Some (Switched (intr_on s), s') \<and> sched_inv s' \<and> running s' \<noteq> running s \<and>
      status_of s' (running s) = Some THREAD_BLOCKED \<and>
      semas s' = (semas s)(m \<mapsto> sem\<lparr>s_waiters := s_waiters sem @ [running s]\<rparr>)"
proof -
  let ?s = "s\<lparr>intr_on := False\<rparr>"
  have inv': "sched_inv ?s" using inv by (simp add: sched_inv_intr)
  have start: "sema_down m s = sema_down_resume m (intr_on s) ?s" using ctx by (simp add: sema_down_def intr_disable_def)
  show ?thesis
  proof (cases "0 < s_value sem")
    case True
    let ?s' = "s\<lparr>semas := (semas s)(m \<mapsto> sem\<lparr>s_value := s_value sem - 1\<rparr>)\<rparr>"
    have "distinct (s_waiters sem)" using inv sem waiters_of_sema(1) by (auto simp: sched_inv_def sched_core_def)
    then have "sched_inv ?s'" by (intro sched_inv_sema [OF inv sem, of "sem\<lparr>s_value := s_value sem - 1\<rparr>"]) simp_all
    moreover have "sema_down m s = Some (Returned, ?s')"
      using start sem True ctx by (cases "intr_on s")
        (auto simp: sema_down_resume_def sema_down_iter_def intr_set_level_def intr_enable_def intr_disable_def intr_context_def)
    ultimately show ?thesis using True by simp
  next
    case False
    then obtain s' where "sema_down_iter m ?s = Some (False, s')" "sched_inv s'" "running s' \<noteq> running s"
      "semas s' = (semas s)(m \<mapsto> sem\<lparr>s_waiters := s_waiters sem @ [running s]\<rparr>)" "status_of s' (running s) = Some THREAD_BLOCKED"
      using sema_down_iter_wait [OF inv', of m sem] sem ctx ni by (auto simp: intr_context_def)
    then show ?thesis using False start by (auto simp: sema_down_resume_def)
  qed
qed

text \<open>
  C35: the timer wakes the right sleepers. A tick at time \<open>now\<close>, run by the interrupt handler, makes ready exactly
  the threads whose wake-up time lies strictly before \<open>now\<close>, in order of wake-up time, leaves the others
  asleep, keeps the scheduler's invariant, and asks for a yield when the running thread has used up its slice.
\<close>

theorem thread_tick_wakes_sleepers:
  assumes "sched_inv s" and "sleepers_ok s" and "\<not> intr_on s" and "in_external_intr s"
  shows "\<exists>s'. thread_tick now s = Some s' \<and> sched_inv s' \<and> sleepers_ok s' \<and> running s' = running s \<and>
    sleeping_list s' = filter (\<lambda>x. now \<le> fst x) (sleeping_list s) \<and>
    ready_list s' = ready_list s @ map snd (filter (\<lambda>x. fst x < now) (sleeping_list s)) \<and>
    (TIME_SLICE \<le> thread_ticks s' \<longrightarrow> yield_on_return s')"
  using assms by (rule thread_tick_ok)

text \<open>
  the sleeping list stays ordered by wake-up time when a thread is added, and a new sleeper goes behind
  all threads with the same or an earlier wake-up time.
\<close>

theorem thread_sleep_keeps_order:
  assumes "sorted (map fst xs)"
  shows "sorted (map fst (sleep_insert until t xs)) \<and> set (sleep_insert until t xs) = insert (until, t) (set xs) \<and>
    (\<exists>ys zs. sleep_insert until t xs = ys @ (until, t) # zs \<and> xs = ys @ zs \<and> (\<forall>z \<in> set zs. until < fst z) \<and>
       (ys = [] \<or> fst (last ys) \<le> until))"
proof -
  let ?zs = "rev (takeWhile (\<lambda>x. until < fst x) (rev xs))" and ?ys = "rev (dropWhile (\<lambda>x. until < fst x) (rev xs))"
  have "sleep_insert until t xs = ?ys @ (until, t) # ?zs" by (simp add: sleep_insert_def sleep_insert_rev_eq)
  moreover have "xs = ?ys @ ?zs" by (metis rev_append rev_rev_ident takeWhile_dropWhile_id)
  moreover have "\<forall>z \<in> set ?zs. until < fst z" by (auto dest: set_takeWhileD)
  moreover have "?ys = [] \<or> fst (last ?ys) \<le> until"
    using hd_dropWhile [of "\<lambda>x. until < fst x" "rev xs"] by (metis last_rev not_less rev_is_Nil_conv)
  ultimately show ?thesis using sleep_insert_sorted [OF assms] sleep_insert_set by blast
qed

theorem thread_sleep_keeps_order_witness:
  "sorted (map fst (sleep_insert 5 1 [(3, 2), (5, 3), (9, 4)])) \<and> sleep_insert 5 1 [(3, 2), (5, 3), (9, 4)] = [(3, 2), (5, 3), (5, 1), (9, 4)]"
  using thread_sleep_keeps_order [of "[(3, 2), (5, 3), (9, 4)]" 5 1] by (simp add: sleep_insert_def)

definition demo_sema :: ksys where
  "demo_sema = demo_sys\<lparr>semas := [VarSema 0 \<mapsto> \<lparr>s_value = 0, s_waiters = []\<rparr>,
     SleepSema 20480 \<mapsto> \<lparr>s_value = 0, s_waiters = [20480]\<rparr>],
     threads := (threads demo_sys)(20480 \<mapsto> init_thread_struct 20480 ''sleeper'' 31), sleeping_list := [(100, 20480)]\<rparr>"

lemma demo_sema_inv: "sched_inv demo_sema" "sleepers_ok demo_sema"
  by (auto simp: sched_inv_def sched_core_def threads_ok_def queue_ok_def waiters_ok_def status_of_def all_waiters_iff demo_sema_def demo_sys_def
      init_thread_struct_def sleepers_ok_def split: if_splits)

theorem sema_up_wakes_first_waiter_witness:
  "\<exists>s'. sema_up (SleepSema 20480) demo_sema = Some s' \<and> ready_list s' = [8192, 12288, 20480]"
  using sema_up_wakes_first_waiter [OF demo_sema_inv(1), of "SleepSema 20480"] by (auto simp: demo_sema_def demo_sys_def)

theorem sema_down_passes_or_waits_witness:
  "\<exists>s'. sema_down (VarSema 0) demo_sema = Some (Switched False, s') \<and> running s' \<noteq> 4096 \<and> status_of s' 4096 = Some THREAD_BLOCKED"
  using sema_down_passes_or_waits [OF demo_sema_inv(1), of "VarSema 0"] by (auto simp: demo_sema_def demo_sys_def intr_context_def)

theorem thread_tick_wakes_sleepers_witness:
  "\<exists>s'. thread_tick 101 (demo_sema\<lparr>in_external_intr := True\<rparr>) = Some s' \<and> ready_list s' = [8192, 12288, 20480] \<and> sleeping_list s' = []"
proof -
  let ?s = "demo_sema\<lparr>in_external_intr := True\<rparr>"
  have "sched_inv ?s" using demo_sema_inv(1) by (simp add: sched_inv_ctx)
  moreover have "sleepers_ok ?s" using demo_sema_inv(2) by (simp add: sleepers_ok_def)
  ultimately show ?thesis using thread_tick_wakes_sleepers [of ?s 101] by (auto simp: demo_sema_def demo_sys_def)
qed

end
