(* ===== verification/Lock_Protocol.thy ===== *)
theory Lock_Protocol
  imports Synch
begin

text \<open>
  The locks of \<^verbatim>\<open>threads/synch.c\<close> under preemption. Threads run one after the other on a single CPU;
  between the interrupt-free sections of \<^verbatim>\<open>lock_acquire\<close> and \<^verbatim>\<open>lock_release\<close> any thread may be preempted.
  A configuration adds to the kernel state the point each thread has reached in the lock code, and
  the locks for which its \<^verbatim>\<open>lock_acquire\<close> has returned. Every rule of the step relation runs one
  interrupt-free section of the model of \<open>Synch\<close>; \<open>other\<close> is any code that is not part of the lock
  implementation. Mutual exclusion is an invariant of the reachable configurations.
\<close>

datatype lock_pc =
    Outside
  | Acquiring nat bool   \<comment> \<open>in the loop of \<^verbatim>\<open>sema_down\<close>, interrupts off, with the saved level\<close>
  | Acquired nat         \<comment> \<open>\<^verbatim>\<open>sema_down\<close> has returned, \<^verbatim>\<open>holder\<close> is not yet set\<close>
  | Releasing nat        \<comment> \<open>\<^verbatim>\<open>holder\<close> is cleared, \<^verbatim>\<open>sema_up\<close> not yet called\<close>

record lconf =
  kst :: ksys
  pc :: "tptr \<Rightarrow> lock_pc"
  held :: "tptr \<Rightarrow> nat set"

text \<open>A thread that is switched to goes on with the interrupt level of its own place in the code.\<close>

definition resume_level :: "lock_pc \<Rightarrow> bool" where
  "resume_level p = (case p of Acquiring _ _ \<Rightarrow> False | _ \<Rightarrow> True)"

definition switch_in :: "(tptr \<Rightarrow> lock_pc) \<Rightarrow> ksys \<Rightarrow> ksys" where
  "switch_in p s = s\<lparr>intr_on := resume_level (p (running s))\<rparr>"

inductive lock_step :: "lconf \<Rightarrow> lconf \<Rightarrow> bool" where
  acquire_start:
    "pc c (running (kst c)) = Outside \<Longrightarrow> \<not> intr_context (kst c) \<Longrightarrow>
     lock_held_by_current_thread l (kst c) = Some False \<Longrightarrow> semas (kst c) (LockSema l) \<noteq> None \<Longrightarrow>
     intr_disable (kst c) = (lvl, s') \<Longrightarrow>
     lock_step c (c\<lparr>kst := s', pc := (pc c)(running (kst c) := Acquiring l lvl)\<rparr>)"
| acquire_pass:
    "pc c (running (kst c)) = Acquiring l lvl \<Longrightarrow> sema_down_iter (LockSema l) (kst c) = Some (True, s1) \<Longrightarrow>
     intr_set_level lvl s1 = Some (b, s') \<Longrightarrow>
     lock_step c (c\<lparr>kst := s', pc := (pc c)(running (kst c) := Acquired l)\<rparr>)"
| acquire_wait:
    "pc c (running (kst c)) = Acquiring l lvl \<Longrightarrow> sema_down_iter (LockSema l) (kst c) = Some (False, s') \<Longrightarrow>
     lock_step c (c\<lparr>kst := switch_in (pc c) s'\<rparr>)"
| try_acquire:
    "pc c (running (kst c)) = Outside \<Longrightarrow> lock_held_by_current_thread l (kst c) = Some False \<Longrightarrow>
     sema_try_down (LockSema l) (kst c) = Some (True, s') \<Longrightarrow>
     lock_step c (c\<lparr>kst := s', pc := (pc c)(running (kst c) := Acquired l)\<rparr>)"
| acquire_finish:
    "pc c (running (kst c)) = Acquired l \<Longrightarrow> lock_acquire_finish l (kst c) = Some s' \<Longrightarrow>
     lock_step c (c\<lparr>kst := s', pc := (pc c)(running (kst c) := Outside),
       held := (held c)(running (kst c) := insert l (held c (running (kst c))))\<rparr>)"
| release_start:
    "pc c (running (kst c)) = Outside \<Longrightarrow> lock_held_by_current_thread l (kst c) = Some True \<Longrightarrow>
     lock_step c (c\<lparr>kst := set_holder l NO_THREAD (kst c), pc := (pc c)(running (kst c) := Releasing l),
       held := (held c)(running (kst c) := held c (running (kst c)) - {l})\<rparr>)"
| release_up:
    "pc c (running (kst c)) = Releasing l \<Longrightarrow> sema_up (LockSema l) (kst c) = Some s' \<Longrightarrow>
     lock_step c (c\<lparr>kst := s', pc := (pc c)(running (kst c) := Outside)\<rparr>)"
| preempt:
    "intr_on (kst c) \<Longrightarrow> thread_yield (kst c) = Some (lvl, s') \<Longrightarrow>
     lock_step c (c\<lparr>kst := switch_in (pc c) s'\<rparr>)"
| new_lock:
    "holders (kst c) l = None \<Longrightarrow> semas (kst c) (LockSema l) = None \<Longrightarrow>
     lock_step c (c\<lparr>kst := lock_init l (kst c)\<rparr>)"
| other:
    "pc c (running (kst c)) = Outside \<Longrightarrow> (\<And>l. semas s' (LockSema l) = semas (kst c) (LockSema l)) \<Longrightarrow>
     holders s' = holders (kst c) \<Longrightarrow> lock_step c (c\<lparr>kst := s'\<rparr>)"

definition lock_start :: "lconf \<Rightarrow> bool" where
  "lock_start c \<longleftrightarrow> holders (kst c) = Map.empty \<and> (\<forall>l. semas (kst c) (LockSema l) = None) \<and>
     pc c = (\<lambda>_. Outside) \<and> held c = (\<lambda>_. {})"

inductive lock_reachable :: "lconf \<Rightarrow> bool" where
  start: "lock_start c \<Longrightarrow> lock_reachable c"
| step: "lock_reachable c \<Longrightarrow> lock_step c c' \<Longrightarrow> lock_reachable c'"

section \<open>What the sections do to the semaphore of a lock\<close>

lemma schedule_frame: "schedule s = Some s' \<Longrightarrow> semas s' = semas s \<and> holders s' = holders s"
  by (auto simp: schedule_def next_thread_to_run_eq thread_schedule_tail_def set_thread_def Let_def bind_eq_Some_iff
      split: if_splits option.splits)

lemma thread_block_frame: "thread_block s = Some s' \<Longrightarrow> semas s' = semas s \<and> holders s' = holders s"
  by (auto simp: thread_block_def set_thread_def bind_eq_Some_iff dest!: schedule_frame split: if_splits option.splits)

lemma thread_yield_frame: "thread_yield s = Some (lvl, s') \<Longrightarrow> semas s' = semas s \<and> holders s' = holders s"
  by (auto simp: thread_yield_def set_thread_def intr_disable_def bind_eq_Some_iff Let_def dest!: schedule_frame
      split: if_splits option.splits)

lemma intr_set_level_frame: "intr_set_level lvl s = Some (b, s') \<Longrightarrow> semas s' = semas s \<and> holders s' = holders s"
  by (auto simp: intr_set_level_def intr_enable_def intr_disable_def split: if_splits)

lemma thread_unblock_frame: "thread_unblock t s = Some s' \<Longrightarrow> semas s' = semas s \<and> holders s' = holders s"
  by (auto simp: thread_unblock_def set_thread_def intr_disable_def bind_eq_Some_iff dest!: intr_set_level_frame
      split: if_splits option.splits)

lemma sema_down_iter_frame:
  assumes "sema_down_iter m s = Some (fin, s')"
  obtains sem sem' where "semas s m = Some sem" and "semas s' = (semas s)(m \<mapsto> sem')" and "holders s' = holders s"
    and "fin \<Longrightarrow> 0 < s_value sem \<and> s_value sem' = s_value sem - 1" and "\<not> fin \<Longrightarrow> s_value sem' = s_value sem"
  using assms
  by (auto simp: sema_down_iter_def bind_eq_Some_iff dest!: thread_block_frame split: if_splits)

lemma sema_try_down_frame:
  assumes "sema_try_down m s = Some (True, s')"
  obtains sem sem' where "semas s m = Some sem" and "semas s' = (semas s)(m \<mapsto> sem')" and "holders s' = holders s"
    and "0 < s_value sem" and "s_value sem' = s_value sem - 1"
  using assms
  by (auto simp: sema_try_down_def intr_disable_def bind_eq_Some_iff dest!: intr_set_level_frame split: if_splits)

lemma sema_up_frame:
  assumes "sema_up m s = Some s'"
  obtains sem sem' where "semas s m = Some sem" and "semas s' = (semas s)(m \<mapsto> sem')" and "holders s' = holders s"
    and "s_value sem' = sz (s_value sem + 1)"
proof -
  from assms obtain sem where sem: "semas s m = Some sem" by (auto simp: sema_up_def intr_disable_def bind_eq_Some_iff)
  show thesis
  proof (cases "s_waiters sem")
    case Nil
    then show thesis using assms sem that [of sem]
      by (auto simp: sema_up_def intr_disable_def bind_eq_Some_iff dest!: intr_set_level_frame)
  next
    case (Cons t ts)
    then show thesis using assms sem that [of sem]
      by (auto simp: sema_up_def intr_disable_def bind_eq_Some_iff dest!: intr_set_level_frame thread_unblock_frame)
  qed
qed

section \<open>Mutual exclusion\<close>

text \<open>The threads that own a lock: those whose \<^verbatim>\<open>lock_acquire\<close> has passed the semaphore and whose
  \<^verbatim>\<open>lock_release\<close> has not yet raised it again.\<close>

definition owners :: "lconf \<Rightarrow> nat \<Rightarrow> tptr set" where
  "owners c l = {t. pc c t = Acquired l \<or> pc c t = Releasing l \<or> l \<in> held c t}"

definition lock_ok :: "lconf \<Rightarrow> nat \<Rightarrow> bool" where
  "lock_ok c l \<longleftrightarrow>
     (case semas (kst c) (LockSema l) of
        None \<Rightarrow> holders (kst c) l = None \<and> owners c l = {}
      | Some sem \<Rightarrow> (s_value sem = 1 \<and> owners c l = {}) \<or> (s_value sem = 0 \<and> (\<exists>t. owners c l = {t}))) \<and>
     (\<forall>t. l \<in> held c t \<longleftrightarrow> holders (kst c) l = Some t \<and> t \<noteq> NO_THREAD) \<and>
     (\<forall>t. pc c t = Releasing l \<longrightarrow> l \<notin> held c t)"

definition mutex_inv :: "lconf \<Rightarrow> bool" where
  "mutex_inv c \<longleftrightarrow> (\<forall>l. lock_ok c l)"

lemma thread_current_running: "thread_current s = Some (t, th) \<Longrightarrow> t = running s \<and> t \<noteq> NO_THREAD"
  by (auto simp: thread_current_def is_thread_def Let_def bind_eq_Some_iff split: if_splits)

lemma lock_ok_frame:
  assumes "lock_ok c l" and "map_option s_value (semas (kst c') (LockSema l)) = map_option s_value (semas (kst c) (LockSema l))"
    and "holders (kst c') l = holders (kst c) l"
    and "\<And>t. l \<in> held c' t \<longleftrightarrow> l \<in> held c t"
    and "\<And>t. pc c' t = Releasing l \<longleftrightarrow> pc c t = Releasing l"
    and "\<And>t. pc c' t = Acquired l \<longleftrightarrow> pc c t = Acquired l"
  shows "lock_ok c' l"
proof -
  have "owners c' l = owners c l" using assms(4-6) by (simp add: owners_def)
  with assms show ?thesis unfolding lock_ok_def by (auto split: option.splits)
qed

lemma mutex_inv_frame:
  assumes "mutex_inv c"
    and "\<And>l. map_option s_value (semas (kst c') (LockSema l)) = map_option s_value (semas (kst c) (LockSema l))"
    and "holders (kst c') = holders (kst c)" and "held c' = held c"
    and "\<And>l t. pc c' t = Releasing l \<longleftrightarrow> pc c t = Releasing l"
    and "\<And>l t. pc c' t = Acquired l \<longleftrightarrow> pc c t = Acquired l"
  shows "mutex_inv c'"
  unfolding mutex_inv_def
proof
  fix l
  show "lock_ok c' l" by (rule lock_ok_frame [of c]) (use assms in \<open>auto simp: mutex_inv_def\<close>)
qed

text \<open>The two moments at which a lock changes hands: a thread passes the semaphore, and a thread
  raises it again.\<close>

lemma lock_ok_pass:
  assumes ok: "lock_ok c l" and sem: "semas (kst c) (LockSema l) = Some sem" "0 < s_value sem"
    and new: "semas (kst c') (LockSema l) = Some sem'" "s_value sem' = s_value sem - 1" "holders (kst c') = holders (kst c)"
    and pc: "pc c' = (pc c)(t := Acquired l)" "held c' = held c"
  shows "lock_ok c' l"
proof -
  have v: "s_value sem = 1" "owners c l = {}" using ok sem by (auto simp: lock_ok_def)
  then have "owners c' l = {t}" using pc by (auto simp: owners_def)
  then show ?thesis using ok sem new pc v by (auto simp: lock_ok_def)
qed

lemma lock_ok_up:
  assumes ok: "lock_ok c l" and p: "pc c t = Releasing l"
    and new: "semas (kst c) (LockSema l) = Some sem" "semas (kst c') (LockSema l) = Some sem'"
      "s_value sem' = sz (s_value sem + 1)" "holders (kst c') = holders (kst c)"
    and pc: "pc c' = (pc c)(t := Outside)" "held c' = held c"
  shows "lock_ok c' l"
proof -
  have t: "t \<in> owners c l" "l \<notin> held c t" using p ok by (auto simp: owners_def lock_ok_def)
  with ok new(1) have v: "s_value sem = 0" "owners c l = {t}" by (auto simp: lock_ok_def)
  then have "owners c' l = {}" using pc t by (auto simp: owners_def split: if_splits)
  then show ?thesis using ok new pc v by (auto simp: lock_ok_def)
qed

lemma lock_ok_owner:
  assumes ok: "lock_ok c l" and t: "t \<in> owners c l"
  shows "owners c l = {t}" and "\<And>u. l \<in> held c u \<or> pc c u = Acquired l \<or> pc c u = Releasing l \<Longrightarrow> u = t"
proof -
  show o: "owners c l = {t}" using ok t by (auto simp: lock_ok_def split: option.splits)
  show "u = t" if "l \<in> held c u \<or> pc c u = Acquired l \<or> pc c u = Releasing l" for u
    using o that by (auto simp: owners_def)
qed

lemma lock_ok_owned:
  assumes ok: "lock_ok c l" and own: "owners c l = {t}" "owners c' l = {t}"
    and same: "semas (kst c') (LockSema l) = semas (kst c) (LockSema l)"
    and new: "\<And>u. l \<in> held c' u \<longleftrightarrow> holders (kst c') l = Some u \<and> u \<noteq> NO_THREAD"
      "\<And>u. pc c' u = Releasing l \<Longrightarrow> l \<notin> held c' u"
  shows "lock_ok c' l"
  using assms by (cases "semas (kst c) (LockSema l)") (auto simp: lock_ok_def)

lemma mutex_inv_pass:
  assumes inv: "mutex_inv c" and p: "pc c t = Outside \<or> pc c t = Acquiring l lvl"
    and sem: "semas (kst c) (LockSema l) = Some sem" "0 < s_value sem"
    and new: "semas s' = (semas (kst c))(LockSema l \<mapsto> sem')" "s_value sem' = s_value sem - 1" "holders s' = holders (kst c)"
  shows "mutex_inv (c\<lparr>kst := s', pc := (pc c)(t := Acquired l)\<rparr>)" (is "mutex_inv ?c")
  unfolding mutex_inv_def
proof
  fix k
  show "lock_ok ?c k"
  proof (cases "k = l")
    case True
    show ?thesis unfolding True
      by (rule lock_ok_pass [OF _ sem]) (use inv new in \<open>auto simp: mutex_inv_def\<close>)
  next
    case False
    show ?thesis
      by (rule lock_ok_frame [of c]) (use False inv p new in \<open>auto simp: mutex_inv_def\<close>)
  qed
qed

lemma mutex_inv_finish:
  assumes inv: "mutex_inv c" and p: "pc c t = Acquired l" and t: "t \<noteq> NO_THREAD"
  shows "mutex_inv (c\<lparr>kst := set_holder l t (kst c), pc := (pc c)(t := Outside),
    held := (held c)(t := insert l (held c t))\<rparr>)" (is "mutex_inv ?c")
  unfolding mutex_inv_def
proof
  fix k
  have ok: "lock_ok c l" using inv by (simp add: mutex_inv_def)
  have "t \<in> owners c l" using p by (simp add: owners_def)
  note o = lock_ok_owner [OF ok this]
  show "lock_ok ?c k"
  proof (cases "k = l")
    case True
    have "owners ?c l = {t}" using o(2) by (auto simp: owners_def split: if_splits)
    then show ?thesis unfolding True using o(2) t
      by (intro lock_ok_owned [OF ok o(1)]) (auto simp: set_holder_def split: if_splits)
  next
    case False
    show ?thesis
      by (rule lock_ok_frame [of c]) (use False inv p in \<open>auto simp: mutex_inv_def set_holder_def\<close>)
  qed
qed

lemma mutex_inv_release:
  assumes inv: "mutex_inv c" and p: "pc c t = Outside" and h: "holders (kst c) l = Some t" "t \<noteq> NO_THREAD"
  shows "mutex_inv (c\<lparr>kst := set_holder l NO_THREAD (kst c), pc := (pc c)(t := Releasing l),
    held := (held c)(t := held c t - {l})\<rparr>)" (is "mutex_inv ?c")
  unfolding mutex_inv_def
proof
  fix k
  have ok: "lock_ok c l" using inv by (simp add: mutex_inv_def)
  then have "t \<in> owners c l" using h by (simp add: owners_def lock_ok_def)
  note o = lock_ok_owner [OF ok this]
  show "lock_ok ?c k"
  proof (cases "k = l")
    case True
    have "owners ?c l = {t}" using o(2) by (auto simp: owners_def split: if_splits)
    then show ?thesis unfolding True using o(2)
      by (intro lock_ok_owned [OF ok o(1)]) (auto simp: set_holder_def split: if_splits)
  next
    case False
    show ?thesis
      by (rule lock_ok_frame [of c]) (use False inv p in \<open>auto simp: mutex_inv_def set_holder_def\<close>)
  qed
qed

lemma mutex_inv_up:
  assumes inv: "mutex_inv c" and p: "pc c t = Releasing l" and sem: "semas (kst c) (LockSema l) = Some sem"
    and new: "semas s' = (semas (kst c))(LockSema l \<mapsto> sem')" "s_value sem' = sz (s_value sem + 1)" "holders s' = holders (kst c)"
  shows "mutex_inv (c\<lparr>kst := s', pc := (pc c)(t := Outside)\<rparr>)" (is "mutex_inv ?c")
  unfolding mutex_inv_def
proof
  fix k
  show "lock_ok ?c k"
  proof (cases "k = l")
    case True
    show ?thesis unfolding True
      by (rule lock_ok_up [OF _ p sem]) (use inv new in \<open>auto simp: mutex_inv_def\<close>)
  next
    case False
    show ?thesis
      by (rule lock_ok_frame [of c]) (use False inv p new in \<open>auto simp: mutex_inv_def\<close>)
  qed
qed

lemma mutex_inv_new:
  assumes inv: "mutex_inv c" and none: "holders (kst c) l = None" "semas (kst c) (LockSema l) = None"
  shows "mutex_inv (c\<lparr>kst := lock_init l (kst c)\<rparr>)" (is "mutex_inv ?c")
  unfolding mutex_inv_def
proof
  fix k
  show "lock_ok ?c k"
  proof (cases "k = l")
    case True
    have "owners ?c l = owners c l" by (simp add: owners_def)
    moreover have "lock_ok c l" using inv by (simp add: mutex_inv_def)
    ultimately show ?thesis using none unfolding True
      by (auto simp: lock_ok_def lock_init_def sema_init_def)
  next
    case False
    show ?thesis
      by (rule lock_ok_frame [of c]) (use False inv in \<open>auto simp: mutex_inv_def lock_init_def sema_init_def\<close>)
  qed
qed

lemma mutex_inv_step: "lock_step c c' \<Longrightarrow> mutex_inv c \<Longrightarrow> mutex_inv c'"
proof (induction rule: lock_step.induct)
  case (acquire_start c l lvl s')
  then show ?case by (intro mutex_inv_frame [OF acquire_start(6)]) (auto simp: intr_disable_def)
next
  case (acquire_pass c l lvl s1 b s')
  from acquire_pass(2) show ?case
    by (rule sema_down_iter_frame)
      (use acquire_pass(1,4) intr_set_level_frame [OF acquire_pass(3)] in \<open>auto intro!: mutex_inv_pass\<close>)
next
  case (acquire_wait c l lvl s')
  from acquire_wait(2) show ?case
    by (rule sema_down_iter_frame) (auto intro!: mutex_inv_frame [OF acquire_wait(3)] simp: switch_in_def)
next
  case (try_acquire c l s')
  from try_acquire(3) show ?case
    by (rule sema_try_down_frame) (use try_acquire(1,4) in \<open>auto intro!: mutex_inv_pass\<close>)
next
  case (acquire_finish c l s')
  then show ?case
    by (auto simp: lock_acquire_finish_def bind_eq_Some_iff dest!: thread_current_running intro!: mutex_inv_finish)
next
  case (release_start c l)
  then show ?case
    by (intro mutex_inv_release) (auto simp: lock_held_by_current_thread_def bind_eq_Some_iff dest!: thread_current_running)
next
  case (release_up c l s')
  from release_up(2) show ?case
    by (rule sema_up_frame) (rule mutex_inv_up [OF release_up(3,1)], auto)
next
  case (preempt c lvl s')
  then show ?case using thread_yield_frame [OF preempt(2)]
    by (intro mutex_inv_frame [OF preempt(3)]) (auto simp: switch_in_def)
next
  case (new_lock c l)
  then show ?case by (intro mutex_inv_new)
next
  case (other c s')
  then show ?case by (intro mutex_inv_frame [OF other(4)]) auto
qed

lemma mutex_inv_reachable: "lock_reachable c \<Longrightarrow> mutex_inv c"
proof (induction rule: lock_reachable.induct)
  case (start c)
  then show ?case by (auto simp: mutex_inv_def lock_ok_def lock_start_def owners_def)
qed (rule mutex_inv_step)

text \<open>
  C1: locks exclude each other. In every configuration the kernel can reach, if the
  \<^verbatim>\<open>lock_acquire\<close> (or \<^verbatim>\<open>lock_try_acquire\<close>) of thread \<open>t\<close> on lock \<open>l\<close> has returned and its
  \<^verbatim>\<open>lock_release\<close> has not started, then no other thread holds \<open>l\<close>, the \<^verbatim>\<open>holder\<close> field is \<open>t\<close>, and the
  semaphore of the lock is zero, so that nobody else passes it, whatever the interleaving of the
  threads at the points where interrupts are on.
\<close>

theorem lock_mutual_exclusion:
  assumes "lock_reachable c" and "l \<in> held c t"
  shows "holders (kst c) l = Some t \<and> (\<forall>u. l \<in> held c u \<longrightarrow> u = t) \<and>
    (\<exists>sem. semas (kst c) (LockSema l) = Some sem \<and> s_value sem = 0)"
proof -
  have ok: "lock_ok c l" using mutex_inv_reachable [OF assms(1)] by (simp add: mutex_inv_def)
  have "t \<in> owners c l" using assms(2) by (simp add: owners_def)
  with ok assms(2) show ?thesis by (auto simp: lock_ok_def split: option.splits)
qed

text \<open>A run of one thread that creates lock 7 and acquires it.\<close>

definition one_thread :: ksys where
  "one_thread = \<lparr>threads = [4096 \<mapsto> (init_thread_struct 4096 ''main'' 31)\<lparr>t_status := THREAD_RUNNING\<rparr>],
     running = 4096, ready_list = [], all_list = [4096], sleeping_list = [], idle_thread = 4096, initial_thread = 4096,
     idle_ticks = 0, kernel_ticks = 0, user_ticks = 0, thread_ticks = 0, next_tid = 2, intr_on = True,
     in_external_intr = False, yield_on_return = False, semas = Map.empty, holders = Map.empty, cond_waiters = Map.empty\<rparr>"

definition one_conf :: lconf where
  "one_conf = \<lparr>kst = one_thread, pc = (\<lambda>_. Outside), held = (\<lambda>_. {})\<rparr>"

lemma one_conf_acquires: "\<exists>c. lock_reachable c \<and> 7 \<in> held c 4096 \<and> semas (kst c) (LockSema 7) = Some \<lparr>s_value = 0, s_waiters = []\<rparr>"
proof -
  let ?c1 = "one_conf\<lparr>kst := lock_init 7 one_thread\<rparr>"
  let ?s1 = "lock_init 7 one_thread"
  let ?c2 = "?c1\<lparr>kst := ?s1\<lparr>intr_on := False\<rparr>, pc := (pc ?c1)(4096 := Acquiring 7 True)\<rparr>"
  let ?s3 = "?s1\<lparr>semas := (semas ?s1)(LockSema 7 \<mapsto> \<lparr>s_value = 0, s_waiters = []\<rparr>)\<rparr>"
  let ?c3 = "?c2\<lparr>kst := ?s3, pc := (pc ?c2)(4096 := Acquired 7)\<rparr>"
  let ?c4 = "?c3\<lparr>kst := set_holder 7 4096 ?s3, pc := (pc ?c3)(4096 := Outside), held := (held ?c3)(4096 := insert 7 (held ?c3 4096))\<rparr>"
  note defs = one_conf_def one_thread_def lock_init_def sema_init_def thread_current_def is_thread_def init_thread_struct_def
    intr_disable_def intr_enable_def intr_set_level_def intr_context_def lock_held_by_current_thread_def
  have "lock_reachable one_conf" by (rule lock_reachable.start) (simp add: lock_start_def one_conf_def one_thread_def)
  moreover have "lock_step one_conf ?c1" using lock_step.new_lock [of one_conf 7] by (simp add: one_conf_def one_thread_def)
  moreover have "lock_step ?c1 ?c2" using lock_step.acquire_start [of ?c1 7 True "?s1\<lparr>intr_on := False\<rparr>"] by (simp add: defs)
  moreover have "lock_step ?c2 ?c3"
    using lock_step.acquire_pass [of ?c2 7 True "?s3\<lparr>intr_on := False\<rparr>" False "?s3"] by (simp add: defs sema_down_iter_def)
  moreover have "lock_step ?c3 ?c4"
    using lock_step.acquire_finish [of ?c3 7 "set_holder 7 4096 ?s3"] by (simp add: defs lock_acquire_finish_def set_holder_def)
  ultimately have "lock_reachable ?c4" by (meson lock_reachable.step)
  then show ?thesis by (intro exI [of _ ?c4]) (simp add: set_holder_def)
qed

theorem lock_mutual_exclusion_witness:
  "\<exists>c. lock_reachable c \<and> 7 \<in> held c 4096 \<and> holders (kst c) 7 = Some 4096 \<and> (\<forall>u. 7 \<in> held c u \<longrightarrow> u = 4096)"
  using one_conf_acquires lock_mutual_exclusion [of _ 7 4096] by blast

end
