(* ===== verification/Block.thy ===== *)
theory Block
  imports Prelude
begin

text \<open>
  Block devices, \<^verbatim>\<open>devices/block.c\<close>, and their partitions, \<^verbatim>\<open>devices/partition.c\<close>. A block device is
  named by its position in \<^verbatim>\<open>all_blocks\<close>. Its driver operations are those of a disk or those of a
  partition, which pass the request on to the device the partition lies on. The contents of the
  disks, which the disk driver reaches through the hardware, are a function from sector numbers to
  sectors: a sector holds what was last written to it. Memory for the descriptors is assumed to be
  available (the source panics otherwise), and console messages are not modelled.
\<close>

section \<open>Data\<close>

type_synonym sector = "u8 list"

definition BLOCK_SECTOR_SIZE :: nat where "BLOCK_SECTOR_SIZE = 512"

datatype block_type = BLOCK_KERNEL | BLOCK_FILESYS | BLOCK_SCRATCH | BLOCK_SWAP | BLOCK_RAW | BLOCK_FOREIGN

definition is_role :: "block_type \<Rightarrow> bool" where
  "is_role t = (t \<in> {BLOCK_KERNEL, BLOCK_FILESYS, BLOCK_SCRATCH, BLOCK_SWAP})"

text \<open>\<open>PartOps b start\<close> is \<^verbatim>\<open>partition_operations\<close> with the \<^verbatim>\<open>struct partition\<close> it is passed.\<close>

datatype block_operations = DiskOps | PartOps (p_block: nat) (p_start: nat)

record block =
  blk_name :: string
  blk_type :: block_type
  blk_size :: nat
  blk_ops :: block_operations
  read_cnt :: u64
  write_cnt :: u64

record devices =
  all_blocks :: "block list"
  block_by_role :: "block_type \<Rightarrow> nat option"
  media :: "nat \<Rightarrow> nat \<Rightarrow> sector"

section \<open>Reading and writing sectors\<close>

definition check_sector :: "block \<Rightarrow> nat \<Rightarrow> unit option" where
  "check_sector blk sector = (if blk_size blk \<le> sector then None else Some ())"

definition bump_read :: "nat \<Rightarrow> devices \<Rightarrow> devices" where
  "bump_read b d = d\<lparr>all_blocks := (all_blocks d)[b := (all_blocks d ! b)\<lparr>read_cnt := read_cnt (all_blocks d ! b) + 1\<rparr>]\<rparr>"

definition bump_write :: "nat \<Rightarrow> devices \<Rightarrow> devices" where
  "bump_write b d = d\<lparr>all_blocks := (all_blocks d)[b := (all_blocks d ! b)\<lparr>write_cnt := write_cnt (all_blocks d ! b) + 1\<rparr>]\<rparr>"

partial_function (option) block_read :: "nat \<Rightarrow> nat \<Rightarrow> devices \<Rightarrow> (sector \<times> devices) option" where
  "block_read b sector d = do {
     blk \<leftarrow> arr_get (all_blocks d) b;
     check_sector blk sector;
     (buffer, d) \<leftarrow> (case blk_ops blk of
         DiskOps \<Rightarrow> Some (media d b sector, d)
       | PartOps p start \<Rightarrow> block_read p (sz (start + sector)) d);
     Some (buffer, bump_read b d) }"

partial_function (option) block_write :: "nat \<Rightarrow> nat \<Rightarrow> sector \<Rightarrow> devices \<Rightarrow> devices option" where
  "block_write b sector buffer d = do {
     blk \<leftarrow> arr_get (all_blocks d) b;
     check_sector blk sector;
     ASSERT (blk_type blk \<noteq> BLOCK_FOREIGN);
     d \<leftarrow> (case blk_ops blk of
         DiskOps \<Rightarrow> Some (d\<lparr>media := (media d)(b := (media d b)(sector := buffer))\<rparr>)
       | PartOps p start \<Rightarrow> block_write p (sz (start + sector)) buffer d);
     Some (bump_write b d) }"

section \<open>The device list\<close>

definition block_get_role :: "block_type \<Rightarrow> devices \<Rightarrow> nat option option" where
  "block_get_role role d = do { ASSERT (is_role role); Some (block_by_role d role) }"

definition block_set_role :: "block_type \<Rightarrow> nat option \<Rightarrow> devices \<Rightarrow> devices option" where
  "block_set_role role b d = do { ASSERT (is_role role); Some (d\<lparr>block_by_role := (block_by_role d)(role := b)\<rparr>) }"

definition block_first :: "devices \<Rightarrow> nat option" where
  "block_first d = (if all_blocks d = [] then None else Some 0)"

definition block_next :: "nat \<Rightarrow> devices \<Rightarrow> nat option" where
  "block_next b d = (if b + 1 < length (all_blocks d) then Some (b + 1) else None)"

fun block_get_by_name_loop :: "string \<Rightarrow> nat \<Rightarrow> block list \<Rightarrow> nat option" where
  "block_get_by_name_loop name i [] = None"
| "block_get_by_name_loop name i (b # bs) = (if name = blk_name b then Some i else block_get_by_name_loop name (i + 1) bs)"

definition block_get_by_name :: "string \<Rightarrow> devices \<Rightarrow> nat option" where
  "block_get_by_name name d = block_get_by_name_loop name 0 (all_blocks d)"

definition block_size :: "nat \<Rightarrow> devices \<Rightarrow> nat option" where
  "block_size b d = map_option blk_size (arr_get (all_blocks d) b)"

definition block_register :: "string \<Rightarrow> block_type \<Rightarrow> nat \<Rightarrow> block_operations \<Rightarrow> devices \<Rightarrow> nat \<times> devices" where
  "block_register name type cnt ops d =
     (length (all_blocks d),
      d\<lparr>all_blocks := all_blocks d @ [\<lparr>blk_name = take 15 name, blk_type = type, blk_size = cnt, blk_ops = ops,
                                        read_cnt = 0, write_cnt = 0\<rparr>]\<rparr>)"

section \<open>Partition tables\<close>

text \<open>Little-endian fields of the sector buffer.\<close>

definition get_u8 :: "sector \<Rightarrow> nat \<Rightarrow> nat" where
  "get_u8 s i = unat (s ! i)"

definition get_u16 :: "sector \<Rightarrow> nat \<Rightarrow> nat" where
  "get_u16 s i = get_u8 s i + 256 * get_u8 s (i + 1)"

definition get_u32 :: "sector \<Rightarrow> nat \<Rightarrow> nat" where
  "get_u32 s i = get_u16 s i + 65536 * get_u16 s (i + 2)"

record partition_table_entry =
  e_type :: nat
  e_offset :: nat
  e_size :: nat

text \<open>Entry \<open>i\<close> of the packed \<^verbatim>\<open>struct partition_table\<close>: 446 bytes of loader, then entries of 16 bytes.\<close>

definition pt_entry :: "sector \<Rightarrow> nat \<Rightarrow> partition_table_entry" where
  "pt_entry pt i = (let ofs = 446 + 16 * i in
     \<lparr>e_type = get_u8 pt (ofs + 4), e_offset = get_u32 pt (ofs + 8), e_size = get_u32 pt (ofs + 12)\<rparr>)"

definition pt_signature :: "sector \<Rightarrow> nat" where
  "pt_signature pt = get_u16 pt 510"

fun digits :: "nat \<Rightarrow> string" where
  "digits n = (if n < 10 then [char_of (48 + n)] else digits (n div 10) @ [char_of (48 + n mod 10)])"

declare digits.simps [simp del]

definition partition_block_type :: "nat \<Rightarrow> block_type" where
  "partition_block_type part_type =
     (if part_type = 0x20 then BLOCK_KERNEL else if part_type = 0x21 then BLOCK_FILESYS
      else if part_type = 0x22 then BLOCK_SCRATCH else if part_type = 0x23 then BLOCK_SWAP else BLOCK_FOREIGN)"

definition found_partition :: "nat \<Rightarrow> nat \<Rightarrow> nat \<Rightarrow> nat \<Rightarrow> nat \<Rightarrow> devices \<Rightarrow> devices option" where
  "found_partition b part_type start cnt part_nr d = do {
     blk \<leftarrow> arr_get (all_blocks d) b;
     if blk_size blk \<le> start then Some d
     else if sz (start + cnt) < start \<or> blk_size blk < sz (start + cnt) then Some d
     else Some (snd (block_register (take 15 (blk_name blk @ digits part_nr)) (partition_block_type part_type) cnt
                       (PartOps b start) d)) }"

definition is_extended :: "nat \<Rightarrow> bool" where
  "is_extended t = (t = 0x05 \<or> t = 0x0f \<or> t = 0x85 \<or> t = 0xc5)"

text \<open>The partition table is read with \<^verbatim>\<open>block_read (block, 0, pt)\<close> whatever \<open>sector\<close> is. The recursive
  calls are taken by the loop over the four entries, which is unrolled by \<open>entries\<close>.\<close>

partial_function (option) read_partition_table ::
    "nat \<Rightarrow> nat \<Rightarrow> nat \<Rightarrow> (sector \<times> nat) option \<Rightarrow> nat \<times> devices \<Rightarrow> (nat \<times> devices) option" where
  "read_partition_table b sector primary_extended_sector at st =
     (case at of
        None \<Rightarrow> do {
          n \<leftarrow> block_size b (snd st);
          if n \<le> sector then Some st
          else do {
            (pt, d) \<leftarrow> block_read b 0 (snd st);
            if pt_signature pt \<noteq> 0xaa55 then Some (fst st, d)
            else read_partition_table b sector primary_extended_sector (Some (pt, 0)) (fst st, d) } }
      | Some (pt, i) \<Rightarrow>
          if 4 \<le> i then Some st
          else do {
            let e = pt_entry pt i;
            st \<leftarrow> (if e_size e = 0 \<or> e_type e = 0 then Some st
                   else if is_extended (e_type e) then
                     (if sector = 0 then read_partition_table b (e_offset e) (e_offset e) None st
                      else read_partition_table b (sz (e_offset e + primary_extended_sector)) primary_extended_sector None st)
                   else do {
                     let part_nr = fst st + 1;
                     d \<leftarrow> found_partition b (e_type e) (sz (e_offset e + sector)) (e_size e) part_nr (snd st);
                     Some (part_nr, d) });
            read_partition_table b sector primary_extended_sector (Some (pt, i + 1)) st })"

definition partition_scan :: "nat \<Rightarrow> devices \<Rightarrow> (nat \<times> devices) option" where
  "partition_scan b d = read_partition_table b 0 0 None (0, d)"

section \<open>A device as a store of sectors\<close>

text \<open>\<open>locate d b n\<close> is the disk sector behind sector \<open>n\<close> of device \<open>b\<close>: partitions lie directly on a
  disk and inside it.\<close>

definition dev_ok :: "nat \<Rightarrow> devices \<Rightarrow> bool" where
  "dev_ok b d \<longleftrightarrow> b < length (all_blocks d) \<and> blk_size (all_blocks d ! b) < 2 ^ 32 \<and>
     blk_type (all_blocks d ! b) \<noteq> BLOCK_FOREIGN \<and>
     (case blk_ops (all_blocks d ! b) of
        DiskOps \<Rightarrow> True
      | PartOps p start \<Rightarrow> p < length (all_blocks d) \<and> p \<noteq> b \<and> blk_ops (all_blocks d ! p) = DiskOps \<and>
          blk_type (all_blocks d ! p) \<noteq> BLOCK_FOREIGN \<and> blk_size (all_blocks d ! p) < 2 ^ 32 \<and>
          start + blk_size (all_blocks d ! b) \<le> blk_size (all_blocks d ! p)) \<and>
     (\<forall>p n. length (media d p n) = BLOCK_SECTOR_SIZE)"

definition locate :: "devices \<Rightarrow> nat \<Rightarrow> nat \<Rightarrow> nat \<times> nat" where
  "locate d b n = (case blk_ops (all_blocks d ! b) of DiskOps \<Rightarrow> (b, n) | PartOps p start \<Rightarrow> (p, start + n))"

definition dev_size :: "devices \<Rightarrow> nat \<Rightarrow> nat" where
  "dev_size d b = blk_size (all_blocks d ! b)"

definition dev_sector :: "devices \<Rightarrow> nat \<Rightarrow> nat \<Rightarrow> sector" where
  "dev_sector d b n = (case locate d b n of (p, m) \<Rightarrow> media d p m)"


lemma dev_sector_bump [simp]:
  "b < length (all_blocks d) \<Longrightarrow> dev_sector (bump_read b d) c n = dev_sector d c n"
  "b < length (all_blocks d) \<Longrightarrow> dev_sector (bump_write b d) c n = dev_sector d c n"
  by (auto simp: dev_sector_def locate_def bump_read_def bump_write_def nth_list_update split: block_operations.splits)

lemma same_shape_bump:
  "b < length (all_blocks d) \<Longrightarrow> dev_ok c (bump_read b d) = dev_ok c d"
  "b < length (all_blocks d) \<Longrightarrow> dev_ok c (bump_write b d) = dev_ok c d"
  "b < length (all_blocks d) \<Longrightarrow> dev_size (bump_read b d) c = dev_size d c"
  "b < length (all_blocks d) \<Longrightarrow> dev_size (bump_write b d) c = dev_size d c"
  by (auto simp: dev_ok_def dev_size_def bump_read_def bump_write_def nth_list_update split: block_operations.splits)

lemma length_bump [simp]:
  "length (all_blocks (bump_read b d)) = length (all_blocks d)"
  "length (all_blocks (bump_write b d)) = length (all_blocks d)"
  by (simp_all add: bump_read_def bump_write_def)

lemma block_read_disk:
  "b < length (all_blocks d) \<Longrightarrow> blk_ops (all_blocks d ! b) = DiskOps \<Longrightarrow> n < blk_size (all_blocks d ! b) \<Longrightarrow>
   block_read b n d = Some (media d b n, bump_read b d)"
  by (subst block_read.simps) (simp add: check_sector_def)

lemma block_read_part:
  "b < length (all_blocks d) \<Longrightarrow> blk_ops (all_blocks d ! b) = PartOps p start \<Longrightarrow> n < blk_size (all_blocks d ! b) \<Longrightarrow>
   p < length (all_blocks d) \<Longrightarrow> blk_ops (all_blocks d ! p) = DiskOps \<Longrightarrow> blk_size (all_blocks d ! p) < 2 ^ 32 \<Longrightarrow>
   start + n < blk_size (all_blocks d ! p) \<Longrightarrow>
   block_read b n d = Some (media d p (start + n), bump_read b (bump_read p d))"
  by (subst block_read.simps) (simp add: check_sector_def block_read_disk)

definition set_media :: "nat \<times> nat \<Rightarrow> sector \<Rightarrow> devices \<Rightarrow> devices" where
  "set_media pm buf d = d\<lparr>media := (media d)(fst pm := (media d (fst pm))(snd pm := buf))\<rparr>"

lemma block_write_disk:
  "b < length (all_blocks d) \<Longrightarrow> blk_ops (all_blocks d ! b) = DiskOps \<Longrightarrow> n < blk_size (all_blocks d ! b) \<Longrightarrow>
   blk_type (all_blocks d ! b) \<noteq> BLOCK_FOREIGN \<Longrightarrow>
   block_write b n buf d = Some (bump_write b (set_media (b, n) buf d))"
  by (subst block_write.simps) (simp add: check_sector_def set_media_def)

lemma block_write_part:
  "b < length (all_blocks d) \<Longrightarrow> blk_ops (all_blocks d ! b) = PartOps p start \<Longrightarrow> n < blk_size (all_blocks d ! b) \<Longrightarrow>
   blk_type (all_blocks d ! b) \<noteq> BLOCK_FOREIGN \<Longrightarrow> blk_type (all_blocks d ! p) \<noteq> BLOCK_FOREIGN \<Longrightarrow>
   p < length (all_blocks d) \<Longrightarrow> blk_ops (all_blocks d ! p) = DiskOps \<Longrightarrow> blk_size (all_blocks d ! p) < 2 ^ 32 \<Longrightarrow>
   start + n < blk_size (all_blocks d ! p) \<Longrightarrow>
   block_write b n buf d = Some (bump_write b (bump_write p (set_media (p, start + n) buf d)))"
  by (subst block_write.simps) (simp add: check_sector_def block_write_disk)

text \<open>\<open>same_shape\<close>: the two states have the same devices, with the same sizes and the same well-formedness.\<close>

definition same_shape :: "devices \<Rightarrow> devices \<Rightarrow> bool" where
  "same_shape d d' \<longleftrightarrow> length (all_blocks d') = length (all_blocks d) \<and> (\<forall>c. dev_ok c d \<longrightarrow> dev_ok c d') \<and>
     (\<forall>c. dev_size d' c = dev_size d c) \<and> (\<forall>c < length (all_blocks d). locate d' c = locate d c)"

lemma same_shapeD:
  assumes "same_shape d d'"
  shows "dev_ok c d \<Longrightarrow> dev_ok c d'" and "dev_size d' c = dev_size d c" and "length (all_blocks d') = length (all_blocks d)"
    and "c < length (all_blocks d) \<Longrightarrow> locate d' c = locate d c"
  using assms by (auto simp: same_shape_def)

lemma same_shape_refl [simp]: "same_shape d d"
  by (simp add: same_shape_def)

lemma same_shape_trans: "same_shape d d' \<Longrightarrow> same_shape d' d'' \<Longrightarrow> same_shape d d''"
  by (simp add: same_shape_def)

lemma same_shape_bumps:
  "b < length (all_blocks d) \<Longrightarrow> same_shape d (bump_read b d)"
  "b < length (all_blocks d) \<Longrightarrow> same_shape d (bump_write b d)"
  unfolding same_shape_def by (simp_all add: same_shape_bump) (auto simp: locate_def fun_eq_iff bump_read_def bump_write_def nth_list_update)

lemma same_shape_media: "length buf = BLOCK_SECTOR_SIZE \<Longrightarrow> same_shape d (set_media pm buf d)"
  by (auto simp: same_shape_def dev_ok_def dev_size_def locate_def set_media_def fun_eq_iff split: block_operations.splits)

lemma dev_sector_media: "dev_sector (set_media pm buf d) c n = (if locate d c n = pm then buf else dev_sector d c n)"
proof (cases pm)
  case (Pair p m)
  have "locate (set_media pm buf d) = locate d" by (simp add: locate_def set_media_def fun_eq_iff)
  then show ?thesis using Pair by (cases "locate d c n") (auto simp: dev_sector_def set_media_def)
qed

lemma dev_okD:
  assumes "dev_ok b d"
  shows "b < length (all_blocks d)" and "blk_size (all_blocks d ! b) < 2 ^ 32" and "blk_type (all_blocks d ! b) \<noteq> BLOCK_FOREIGN"
    and "blk_ops (all_blocks d ! b) = PartOps p start \<Longrightarrow> p < length (all_blocks d) \<and> blk_ops (all_blocks d ! p) = DiskOps \<and>
          blk_type (all_blocks d ! p) \<noteq> BLOCK_FOREIGN \<and> blk_size (all_blocks d ! p) < 2 ^ 32 \<and>
          start + blk_size (all_blocks d ! b) \<le> blk_size (all_blocks d ! p)"
    and "length (dev_sector d c n) = BLOCK_SECTOR_SIZE"
  using assms by (auto simp: dev_ok_def dev_sector_def split: prod.splits)

text \<open>Reading leaves every device as it is but for the statistics; writing replaces one sector.\<close>

lemma block_read_ok:
  assumes ok: "dev_ok b d" and n: "n < dev_size d b"
  obtains d' where "block_read b n d = Some (dev_sector d b n, d')" and "same_shape d d'" and "dev_sector d' = dev_sector d"
proof (cases "blk_ops (all_blocks d ! b)")
  case DiskOps
  show thesis
    by (rule that [of "bump_read b d"])
      (use ok n DiskOps dev_okD [OF ok] in \<open>auto simp: block_read_disk dev_size_def dev_sector_def [of d b n] locate_def same_shape_bumps fun_eq_iff\<close>)
next
  case (PartOps p start)
  note pd = dev_okD(4) [OF ok PartOps] dev_okD(1-3) [OF ok]
  have "block_read b n d = Some (media d p (start + n), bump_read b (bump_read p d))"
    by (rule block_read_part) (use pd n PartOps in \<open>auto simp: dev_size_def\<close>)
  moreover have "same_shape d (bump_read b (bump_read p d))"
    by (rule same_shape_trans [OF same_shape_bumps(1) [of p] same_shape_bumps(1)]) (use pd in simp_all)
  ultimately show thesis
    by (intro that) (use pd PartOps in \<open>auto simp: dev_sector_def [of d b n] locate_def fun_eq_iff\<close>)
qed

lemma block_write_ok:
  assumes ok: "dev_ok b d" and n: "n < dev_size d b" and len: "length buf = BLOCK_SECTOR_SIZE"
  obtains d' where "block_write b n buf d = Some d'" and "same_shape d d'"
    and "\<And>c m. dev_sector d' c m = (if locate d c m = locate d b n then buf else dev_sector d c m)"
proof (cases "blk_ops (all_blocks d ! b)")
  case DiskOps
  let ?d = "set_media (b, n) buf d"
  note shape = same_shape_media [OF len, of d "(b, n)"]
  have b: "b < length (all_blocks ?d)" using dev_okD(1) [OF ok] same_shapeD(3) [OF shape] by simp
  show thesis
    by (rule that [of "bump_write b ?d"])
      (use ok n DiskOps dev_okD [OF ok] same_shape_trans [OF shape same_shape_bumps(2)] b in
        \<open>auto simp: block_write_disk dev_size_def locate_def [of d b n] dev_sector_media\<close>)
next
  case (PartOps p start)
  let ?d = "set_media (p, start + n) buf d"
  note pd = dev_okD(4) [OF ok PartOps] dev_okD(1-3) [OF ok] and shape = same_shape_media [OF len, of d "(p, start + n)"]
  have b: "b < length (all_blocks ?d)" "p < length (all_blocks ?d)" using pd same_shapeD(3) [OF shape] by simp_all
  have "block_write b n buf d = Some (bump_write b (bump_write p ?d))"
    by (rule block_write_part) (use pd n PartOps in \<open>auto simp: dev_size_def\<close>)
  moreover have "same_shape d (bump_write b (bump_write p ?d))"
    by (rule same_shape_trans [OF shape same_shape_trans [OF same_shape_bumps(2) [of p] same_shape_bumps(2)]]) (use b in simp_all)
  ultimately show thesis
    by (intro that) (use b PartOps in \<open>auto simp: locate_def [of d b n] dev_sector_media\<close>)
qed

lemma block_read_value:
  assumes "dev_ok b d" and "n < dev_size d b"
  shows "map_option fst (block_read b n d) = Some (dev_sector d b n)"
  using assms by (rule block_read_ok) simp

lemma block_read_past_end: "dev_size d b \<le> n \<Longrightarrow> block_read b n d = None"
  by (subst block_read.simps) (auto simp: dev_size_def arr_get_def check_sector_def)

lemma block_write_past_end: "dev_size d b \<le> n \<Longrightarrow> block_write b n buf d = None"
  by (subst block_write.simps) (auto simp: dev_size_def arr_get_def check_sector_def)

lemma locate_inj: "locate d b m = locate d b n \<Longrightarrow> m = n"
  by (auto simp: locate_def split: block_operations.splits)

section \<open>Partitions\<close>

text \<open>A partition that is registered lies inside its disk, so that requests to it stay inside it.\<close>

lemma found_partition_ok:
  assumes ok: "dev_ok b d" and disk: "blk_ops (all_blocks d ! b) = DiskOps" and type: "0x20 \<le> ty \<and> ty \<le> 0x23"
    and fits: "start + cnt \<le> dev_size d b" "0 < cnt"
  obtains d' where "found_partition b ty start cnt nr d = Some d'" and "dev_ok (length (all_blocks d)) d'"
    and "dev_size d' (length (all_blocks d)) = cnt"
    and "\<And>n. dev_sector d' (length (all_blocks d)) n = dev_sector d b (start + n)"
proof -
  note ok' = dev_okD(1-3) [OF ok]
  let ?name = "take 15 (blk_name (all_blocks d ! b) @ digits nr)"
  let ?d = "snd (block_register ?name (partition_block_type ty) cnt (PartOps b start) d)"
  have "found_partition b ty start cnt nr d = Some ?d"
    using ok' fits by (simp add: found_partition_def dev_size_def)
  moreover have "partition_block_type ty \<noteq> BLOCK_FOREIGN" using type by (auto simp: partition_block_type_def)
  ultimately show thesis
    by (intro that) (use ok ok' disk fits in
      \<open>auto simp: block_register_def dev_ok_def dev_size_def dev_sector_def locate_def nth_append\<close>)
qed

text \<open>
  C36: partitions are isolated. If the partitions \<open>b\<close> and \<open>c\<close> lie on the same disk at disjoint ranges of
  sectors, then a write to any sector of \<open>b\<close> succeeds, is what a later read of that sector of \<open>b\<close>
  returns, and changes no sector of \<open>c\<close>.
\<close>

theorem partition_isolation:
  assumes "dev_ok b d" and "dev_ok c d" and "length buf = BLOCK_SECTOR_SIZE" and "n < dev_size d b"
    and "blk_ops (all_blocks d ! b) = PartOps p sb" and "blk_ops (all_blocks d ! c) = PartOps p sc"
    and "sb + dev_size d b \<le> sc \<or> sc + dev_size d c \<le> sb"
  shows "\<exists>d'. block_write b n buf d = Some d' \<and> map_option fst (block_read b n d') = Some buf \<and>
    (\<forall>m < dev_size d c. map_option fst (block_read c m d') = Some (dev_sector d c m))"
proof -
  obtain d' where d': "block_write b n buf d = Some d'" "same_shape d d'"
    "\<And>c m. dev_sector d' c m = (if locate d c m = locate d b n then buf else dev_sector d c m)"
    by (rule block_write_ok [OF assms(1,4,3)]) (rule that)
  note sh = same_shapeD [OF d'(2)]
  have "map_option fst (block_read b n d') = Some buf"
    using block_read_value [OF sh(1) [OF assms(1)], of n] sh(2) [of b] assms(4) d'(3) [of b n] by simp
  moreover have "map_option fst (block_read c m d') = Some (dev_sector d c m)" if m: "m < dev_size d c" for m
  proof -
    have "locate d c m \<noteq> locate d b n" using assms(4-7) m by (auto simp: locate_def)
    then show ?thesis
      using block_read_value [OF sh(1) [OF assms(2)], of m] sh(2) [of c] m d'(3) [of c m] by simp
  qed
  ultimately show ?thesis using d'(1) by auto
qed

definition two_partitions :: devices where
  "two_partitions = \<lparr>all_blocks =
      [\<lparr>blk_name = ''hda'', blk_type = BLOCK_RAW, blk_size = 100, blk_ops = DiskOps, read_cnt = 0, write_cnt = 0\<rparr>,
       \<lparr>blk_name = ''hda1'', blk_type = BLOCK_FILESYS, blk_size = 40, blk_ops = PartOps 0 1, read_cnt = 0, write_cnt = 0\<rparr>,
       \<lparr>blk_name = ''hda2'', blk_type = BLOCK_SWAP, blk_size = 20, blk_ops = PartOps 0 41, read_cnt = 0, write_cnt = 0\<rparr>],
     block_by_role = (\<lambda>_. None), media = (\<lambda>_ _. replicate 512 0)\<rparr>"

lemma two_partitions_ok: "dev_ok 1 two_partitions" "dev_ok 2 two_partitions" "dev_size two_partitions 1 = 40" "dev_size two_partitions 2 = 20"
  by (simp_all add: two_partitions_def dev_ok_def dev_size_def BLOCK_SECTOR_SIZE_def)

theorem partition_isolation_witness:
  "\<exists>d'. block_write 1 39 (replicate 512 7) two_partitions = Some d' \<and>
     map_option fst (block_read 1 39 d') = Some (replicate 512 7) \<and>
     (\<forall>m < 20. map_option fst (block_read 2 m d') = Some (dev_sector two_partitions 2 m))"
  using partition_isolation [of 1 two_partitions 2 "replicate 512 7" 39 0 1 41] two_partitions_ok
  by (simp add: BLOCK_SECTOR_SIZE_def two_partitions_def)

text \<open>The partition table is always read from sector 0, so a nested table is never reached.\<close>

definition loops_at :: "nat \<Rightarrow> nat \<Rightarrow> sector \<Rightarrow> nat \<Rightarrow> nat \<Rightarrow> (sector \<times> nat) option \<Rightarrow> devices \<Rightarrow> bool" where
  "loops_at b ofs pt sector pes at d \<longleftrightarrow> dev_ok b d \<and> dev_sector d b 0 = pt \<and> sector < dev_size d b \<and>
     2 * ofs < dev_size d b \<and> (sector = 0 \<or> pes = ofs) \<and> (at = None \<or> at = Some (pt, 0))"

lemma read_partition_table_loops:
  assumes sig: "pt_signature pt = 0xaa55" and e0: "e_size (pt_entry pt 0) \<noteq> 0" "is_extended (e_type (pt_entry pt 0))"
    and ofs: "e_offset (pt_entry pt 0) = ofs"
    and run: "read_partition_table b sector pes at st = Some r"
  shows "\<not> loops_at b ofs pt sector pes at (snd st)"
  using run
proof (induction rule: read_partition_table.raw_induct [rotated, consumes 1, case_names step])
  case (step rec b sector pes at st r)
  note IH = step(1) and run = step(2)
  show ?case
  proof
  assume bad: "loops_at b ofs pt sector pes at (snd st)"
  have inv: "dev_ok b (snd st)" "dev_sector (snd st) b 0 = pt" "sector < dev_size (snd st) b" "2 * ofs < dev_size (snd st) b"
    "sector = 0 \<or> pes = ofs" "at = None \<or> at = Some (pt, 0)" using bad by (auto simp: loops_at_def)
  note bl = dev_okD(1,2) [OF inv(1)]
  have e0': "e_type (pt_entry pt 0) \<noteq> 0" using e0(2) by (auto simp: is_extended_def)
  show False
  proof (cases at)
    case None
    obtain d' where d': "block_read b 0 (snd st) = Some (pt, d')" "same_shape (snd st) d'" "dev_sector d' = dev_sector (snd st)"
      using block_read_ok [OF inv(1), of 0] inv(2,3) by auto
    have "rec b sector pes (Some (pt, 0)) (fst st, d') = Some r"
      using run None inv(3) bl d'(1) sig by (simp add: block_size_def dev_size_def)
    from IH [OF this] show False
      using inv d' same_shapeD [OF d'(2)] by (auto simp: loops_at_def)
  next
    case (Some x)
    then have x: "x = (pt, 0)" using inv(6) by simp
    obtain st' where "(if sector = 0 then rec b ofs ofs None st else rec b (sz (ofs + pes)) pes None st) = Some st'"
      using run Some x e0 e0' ofs by (auto simp: Let_def bind_eq_Some_iff split: if_splits)
    then show False using inv bl
      by (auto simp: loops_at_def dev_size_def split: if_splits dest!: IH)
  qed
  qed
qed

text \<open>
  scanning a disk whose first partition table entry is a (non-empty) extended partition, of which
  twice the offset still lies on the disk, never returns: every nested call reads sector 0 again
  instead of the table of the extended partition, finds the same entry and recurses.
\<close>

theorem partition_scan_extended_never_returns:
  assumes "dev_ok b d" and "pt_signature (dev_sector d b 0) = 0xaa55"
    and "e_size (pt_entry (dev_sector d b 0) 0) \<noteq> 0" and "is_extended (e_type (pt_entry (dev_sector d b 0) 0))"
    and "2 * e_offset (pt_entry (dev_sector d b 0) 0) < dev_size d b"
  shows "partition_scan b d = None"
proof (rule ccontr)
  assume "partition_scan b d \<noteq> None"
  then obtain r where "read_partition_table b 0 0 None (0, d) = Some r" by (auto simp: partition_scan_def)
  from read_partition_table_loops [OF assms(2-4) refl this] assms(1,5) show False
    by (auto simp: loops_at_def)
qed

definition extended_mbr :: sector where
  "extended_mbr = (replicate 512 0)[450 := 5, 454 := 10, 458 := 1, 510 := 0x55, 511 := 0xaa]"

definition extended_disk :: devices where
  "extended_disk = \<lparr>all_blocks = [\<lparr>blk_name = ''hda'', blk_type = BLOCK_RAW, blk_size = 100, blk_ops = DiskOps, read_cnt = 0, write_cnt = 0\<rparr>],
     block_by_role = (\<lambda>_. None), media = (\<lambda>_ _. extended_mbr)\<rparr>"

theorem partition_scan_extended_witness: "dev_ok 0 extended_disk \<and> partition_scan 0 extended_disk = None"
proof -
  have mbr: "extended_mbr ! 510 = 0x55" "extended_mbr ! 511 = 0xaa" "extended_mbr ! 450 = 5" "extended_mbr ! 454 = 10"
    "extended_mbr ! 455 = 0" "extended_mbr ! 456 = 0" "extended_mbr ! 457 = 0"
    "extended_mbr ! 458 = 1" "extended_mbr ! 459 = 0" "extended_mbr ! 460 = 0" "extended_mbr ! 461 = 0"
    by (simp_all add: extended_mbr_def nth_list_update)
  have ok: "dev_ok 0 extended_disk" "dev_size extended_disk 0 = 100" "dev_sector extended_disk 0 0 = extended_mbr"
    by (simp_all add: extended_disk_def extended_mbr_def dev_ok_def dev_size_def dev_sector_def locate_def BLOCK_SECTOR_SIZE_def)
  show ?thesis using partition_scan_extended_never_returns [of 0 extended_disk] ok mbr
    by (simp add: pt_signature_def pt_entry_def get_u8_def get_u16_def get_u32_def is_extended_def)
qed

end
