(* ===== verification/Cache.thy ===== *)
theory Cache
  imports Block
begin

text \<open>
  The buffer cache, \<^verbatim>\<open>filesys/cache.c\<close>: 64 sectors of the file-system device, replaced by a clock
  with a second chance, written back on eviction, by the flush daemon and at shutdown. The operations
  run one at a time; the locks are part of the state, so that acquiring a lock that is held, or
  releasing one that is not, stops the kernel. A lock is a flag because only the running thread can
  hold it. The data daemons' endless loops are modelled by one round of their body.
  The local variable \<^verbatim>\<open>is_allowed\<close> of \<^verbatim>\<open>bc_block_write\<close> is tested before it is assigned: the field
  \<open>uninit\<close> is the oracle that says what the stack holds at each call, and \<open>write_calls\<close> counts the calls.
\<close>

section \<open>Data\<close>

definition MAX_CACHE_SECTORS :: nat where "MAX_CACHE_SECTORS = 64"
definition MAX_READ_AHEAD :: nat where "MAX_READ_AHEAD = 10"
definition EMPTY_SECTOR :: nat where "EMPTY_SECTOR = SIZE_MAX"

record buffer_cache_entry =
  e_sector :: nat
  e_data :: "u8 list"
  is_in_second_chance :: bool
  is_dirty :: bool
  readers :: nat
  elock :: bool

record bcache =
  cache :: "buffer_cache_entry list"
  cache_lock :: bool
  read_ahead :: "nat list"
  rh_sema :: nat
  daemon_started :: bool
  fs_device :: nat
  devs :: devices
  uninit :: "nat \<Rightarrow> bool"
  write_calls :: nat

definition cache_lock_acquire :: "bcache \<Rightarrow> bcache option" where
  "cache_lock_acquire s = (if cache_lock s then None else Some (s\<lparr>cache_lock := True\<rparr>))"

definition cache_lock_release :: "bcache \<Rightarrow> bcache option" where
  "cache_lock_release s = (if cache_lock s then Some (s\<lparr>cache_lock := False\<rparr>) else None)"

definition get_entry :: "nat \<Rightarrow> bcache \<Rightarrow> buffer_cache_entry option" where
  "get_entry i s = arr_get (cache s) i"

definition upd_entry :: "nat \<Rightarrow> (buffer_cache_entry \<Rightarrow> buffer_cache_entry) \<Rightarrow> bcache \<Rightarrow> bcache option" where
  "upd_entry i f s = do { e \<leftarrow> get_entry i s; Some (s\<lparr>cache := (cache s)[i := f e]\<rparr>) }"

definition elock_acquire :: "nat \<Rightarrow> bcache \<Rightarrow> bcache option" where
  "elock_acquire i s = do { e \<leftarrow> get_entry i s; ASSERT (\<not> elock e); upd_entry i (elock_update (\<lambda>_. True)) s }"

text \<open>A lock that is held is held by the running thread, and \<^verbatim>\<open>lock_try_acquire\<close> asserts that it is not.\<close>

definition elock_try_acquire :: "nat \<Rightarrow> bcache \<Rightarrow> (bool \<times> bcache) option" where
  "elock_try_acquire i s = do { s \<leftarrow> elock_acquire i s; Some (True, s) }"

definition elock_release :: "nat \<Rightarrow> bcache \<Rightarrow> bcache option" where
  "elock_release i s = do { e \<leftarrow> get_entry i s; ASSERT (elock e); upd_entry i (elock_update (\<lambda>_. False)) s }"

definition fs_read :: "nat \<Rightarrow> bcache \<Rightarrow> (u8 list \<times> bcache) option" where
  "fs_read sector s = do { (buf, d) \<leftarrow> block_read (fs_device s) sector (devs s); Some (buf, s\<lparr>devs := d\<rparr>) }"

definition fs_write :: "nat \<Rightarrow> u8 list \<Rightarrow> bcache \<Rightarrow> bcache option" where
  "fs_write sector buf s = do { d \<leftarrow> block_write (fs_device s) sector buf (devs s); Some (s\<lparr>devs := d\<rparr>) }"

section \<open>Operations\<close>

text \<open>\<^verbatim>\<open>bc_init\<close> initialises the entries of the cache but neither their data nor the read-ahead requests.\<close>

definition bc_init :: "bcache \<Rightarrow> bcache" where
  "bc_init s = s\<lparr>cache := map (\<lambda>e. e\<lparr>e_sector := EMPTY_SECTOR, is_in_second_chance := False, is_dirty := False,
       readers := 0, elock := False\<rparr>) (cache s), cache_lock := False, rh_sema := 0, daemon_started := False\<rparr>"

definition bc_flush :: "nat \<Rightarrow> bcache \<Rightarrow> bcache option" where
  "bc_flush i s = do {
     e \<leftarrow> get_entry i s;
     s \<leftarrow> fs_write (e_sector e) (e_data e) s;
     upd_entry i (is_dirty_update (\<lambda>_. False)) s }"

fun bc_find :: "nat \<Rightarrow> nat \<Rightarrow> buffer_cache_entry list \<Rightarrow> nat option" where
  "bc_find sector i [] = None"
| "bc_find sector i (e # es) = (if e_sector e = sector then Some i else bc_find sector (i + 1) es)"

definition bc_get_entry_by_sector :: "nat \<Rightarrow> bcache \<Rightarrow> nat option" where
  "bc_get_entry_by_sector sector s = bc_find sector 0 (cache s)"

partial_function (option) bc_clock :: "nat \<Rightarrow> nat \<Rightarrow> bcache \<Rightarrow> (nat \<times> bcache) option" where
  "bc_clock i round s = do {
     let allow_halt = 5 < round;
     (taken, s) \<leftarrow> (if allow_halt then do { s \<leftarrow> elock_acquire i s; Some (True, s) } else elock_try_acquire i s);
     e \<leftarrow> get_entry i s;
     if taken \<and> \<not> 0 < readers e \<and> (e_sector e = EMPTY_SECTOR \<or> is_in_second_chance e) then Some (i, s)
     else do {
       s \<leftarrow> (if taken then do {
               s \<leftarrow> (if \<not> 0 < readers e \<and> (\<not> is_dirty e \<or> 0 < round)
                     then upd_entry i (is_in_second_chance_update (\<lambda>_. True)) s else Some s);
               elock_release i s }
             else Some s);
       if i = MAX_CACHE_SECTORS - 1 then bc_clock 0 (round + 1) s else bc_clock (i + 1) round s } }"

definition bc_get_free_entry :: "bcache \<Rightarrow> (nat \<times> bcache) option" where
  "bc_get_free_entry s = do {
     (victim, s) \<leftarrow> bc_clock 0 0 s;
     e \<leftarrow> get_entry victim s;
     ASSERT (elock e);
     s \<leftarrow> (if e_sector e \<noteq> EMPTY_SECTOR \<and> is_dirty e then bc_flush victim s else Some s);
     Some (victim, s) }"

text \<open>The result is the entry and whether it was a cache miss.\<close>

partial_function (option) bc_get_and_lock_entry :: "nat \<Rightarrow> bcache \<Rightarrow> (bool \<times> nat \<times> bcache) option" where
  "bc_get_and_lock_entry sector s = do {
     s \<leftarrow> cache_lock_acquire s;
     (is_cache_miss, i, s) \<leftarrow>
       (case bc_get_entry_by_sector sector s of
          None \<Rightarrow> do {
            (i, s) \<leftarrow> bc_get_free_entry s;
            s \<leftarrow> upd_entry i (\<lambda>e. e\<lparr>e_sector := sector, is_dirty := False\<rparr>) s;
            Some (True, i, s) }
        | Some i \<Rightarrow> do { s \<leftarrow> elock_acquire i s; Some (False, i, s) });
     e \<leftarrow> get_entry i s;
     ASSERT (elock e);
     let found = (sector = e_sector e);
     s \<leftarrow> (if \<not> found then elock_release i s else Some s);
     s \<leftarrow> cache_lock_release s;
     if found then Some (is_cache_miss, i, s) else bc_get_and_lock_entry sector s }"

definition bc_block_read :: "nat \<Rightarrow> nat \<Rightarrow> nat \<Rightarrow> bcache \<Rightarrow> (u8 list \<times> bcache) option" where
  "bc_block_read sector offset cnt s = do {
     ASSERT (offset + cnt \<le> BLOCK_SECTOR_SIZE);
     (is_cache_miss, i, s) \<leftarrow> bc_get_and_lock_entry sector s;
     s \<leftarrow> cache_lock_acquire s;
     s \<leftarrow> (if is_cache_miss then do {
             (data, s) \<leftarrow> fs_read sector s;
             upd_entry i (e_data_update (\<lambda>_. data)) s }
           else Some s);
     s \<leftarrow> cache_lock_release s;
     s \<leftarrow> upd_entry i (\<lambda>e. e\<lparr>is_in_second_chance := False, readers := sz (readers e + 1)\<rparr>) s;
     s \<leftarrow> elock_release i s;
     e \<leftarrow> get_entry i s;
     let buffer = segment (e_data e) offset cnt;
     s \<leftarrow> elock_acquire i s;
     s \<leftarrow> upd_entry i (\<lambda>e. e\<lparr>readers := readers e - 1\<rparr>) s;
     s \<leftarrow> elock_release i s;
     Some (buffer, s) }"

definition bc_request_read_ahead :: "nat \<Rightarrow> bcache \<Rightarrow> bcache option" where
  "bc_request_read_ahead sector s =
     (case find (\<lambda>i. read_ahead s ! i \<noteq> EMPTY_SECTOR) [0..<MAX_READ_AHEAD] of
        None \<Rightarrow> Some s
      | Some i \<Rightarrow> Some (s\<lparr>read_ahead := (read_ahead s)[i := sector], rh_sema := sz (rh_sema s + 1)\<rparr>))"

text \<open>\<open>is_allowed\<close> is the value of the uninitialised local variable: when it happens to be true the loop
  is skipped and the null \<^verbatim>\<open>cache_entry\<close> is written to.\<close>

partial_function (option) bc_write_loop :: "bool \<Rightarrow> nat option \<Rightarrow> nat \<Rightarrow> nat \<Rightarrow> nat \<Rightarrow> bcache \<Rightarrow> (nat option \<times> bcache) option" where
  "bc_write_loop is_allowed cache_entry sector offset cnt s =
     (if is_allowed then Some (cache_entry, s)
      else do {
        (is_cache_miss, i, s) \<leftarrow> bc_get_and_lock_entry sector s;
        s \<leftarrow> (if is_cache_miss then
                (if 0 < offset \<or> cnt + offset < BLOCK_SECTOR_SIZE then do {
                   (data, s) \<leftarrow> fs_read sector s;
                   upd_entry i (e_data_update (\<lambda>_. data)) s }
                 else upd_entry i (e_data_update (\<lambda>_. replicate BLOCK_SECTOR_SIZE 0)) s)
              else Some s);
        e \<leftarrow> get_entry i s;
        let allowed = (readers e = 0);
        s \<leftarrow> (if \<not> allowed then elock_release i s else Some s);
        bc_write_loop allowed (Some i) sector offset cnt s })"

definition bc_block_write_from :: "bool \<Rightarrow> nat \<Rightarrow> u8 list \<Rightarrow> nat \<Rightarrow> bcache \<Rightarrow> bcache option" where
  "bc_block_write_from is_allowed sector buffer offset s = do {
     ASSERT (offset + length buffer \<le> BLOCK_SECTOR_SIZE);
     (cache_entry, s) \<leftarrow> bc_write_loop is_allowed None sector offset (length buffer) s;
     i \<leftarrow> cache_entry;
     s \<leftarrow> upd_entry i (\<lambda>e. e\<lparr>is_in_second_chance := False, is_dirty := True,
                             e_data := overwrite (e_data e) offset buffer\<rparr>) s;
     elock_release i s }"

text \<open>A call finds in the uninitialised variable what the oracle holds for it.\<close>

definition bc_block_write :: "nat \<Rightarrow> u8 list \<Rightarrow> nat \<Rightarrow> bcache \<Rightarrow> bcache option" where
  "bc_block_write sector buffer offset s =
     bc_block_write_from (uninit s (write_calls s)) sector buffer offset (s\<lparr>write_calls := write_calls s + 1\<rparr>)"

fun bc_flush_from :: "nat list \<Rightarrow> bcache \<Rightarrow> bcache option" where
  "bc_flush_from [] s = Some s"
| "bc_flush_from (i # is) s = do {
     s \<leftarrow> elock_acquire i s;
     e \<leftarrow> get_entry i s;
     s \<leftarrow> (if e_sector e \<noteq> EMPTY_SECTOR \<and> is_dirty e then bc_flush i s else Some s);
     s \<leftarrow> elock_release i s;
     bc_flush_from is s }"

definition bc_flush_all :: "bcache \<Rightarrow> bcache option" where
  "bc_flush_all s = do {
     s \<leftarrow> cache_lock_acquire s;
     s \<leftarrow> bc_flush_from [0..<MAX_CACHE_SECTORS] s;
     cache_lock_release s }"

definition bc_remove :: "nat \<Rightarrow> bcache \<Rightarrow> bcache option" where
  "bc_remove sector s = do {
     s \<leftarrow> cache_lock_acquire s;
     case bc_find sector 0 (cache s) of
       None \<Rightarrow> cache_lock_release s
     | Some i \<Rightarrow> do {
         s \<leftarrow> elock_acquire i s;
         e \<leftarrow> get_entry i s;
         s \<leftarrow> (if e_sector e = sector then upd_entry i (e_sector_update (\<lambda>_. EMPTY_SECTOR)) s else Some s);
         s \<leftarrow> elock_release i s;
         cache_lock_release s } }"

fun bc_daemon_flush_from :: "nat list \<Rightarrow> bcache \<Rightarrow> bcache option" where
  "bc_daemon_flush_from [] s = Some s"
| "bc_daemon_flush_from (i # is) s = do {
     s \<leftarrow> elock_acquire i s;
     e \<leftarrow> get_entry i s;
     s \<leftarrow> (if is_dirty e then bc_flush i s else Some s);
     s \<leftarrow> elock_release i s;
     bc_daemon_flush_from is s }"

definition bc_daemon_flush :: "bcache \<Rightarrow> bcache option" where
  "bc_daemon_flush s = do {
     s \<leftarrow> cache_lock_acquire s;
     s \<leftarrow> bc_daemon_flush_from [0..<MAX_CACHE_SECTORS] s;
     cache_lock_release s }"

definition bc_read_ahead_one :: "nat \<Rightarrow> bcache \<Rightarrow> bcache option" where
  "bc_read_ahead_one sector s = do {
     (is_cache_miss, i, s) \<leftarrow> bc_get_and_lock_entry sector s;
     s \<leftarrow> cache_lock_acquire s;
     s \<leftarrow> (if is_cache_miss then do {
             (data, s) \<leftarrow> fs_read sector s;
             upd_entry i (e_data_update (\<lambda>_. data)) s }
           else Some s);
     s \<leftarrow> cache_lock_release s;
     s \<leftarrow> upd_entry i (is_in_second_chance_update (\<lambda>_. False)) s;
     elock_release i s }"

fun bc_read_ahead_from :: "nat list \<Rightarrow> bcache \<Rightarrow> bcache option" where
  "bc_read_ahead_from [] s = Some s"
| "bc_read_ahead_from (k # ks) s = do {
     sector \<leftarrow> arr_get (read_ahead s) k;
     s \<leftarrow> (if sector \<noteq> EMPTY_SECTOR then do {
             s \<leftarrow> bc_read_ahead_one sector s;
             Some (s\<lparr>read_ahead := (read_ahead s)[k := EMPTY_SECTOR]\<rparr>) }
           else Some s);
     bc_read_ahead_from ks s }"

text \<open>One round of the daemon, when the semaphore lets it pass; otherwise it sleeps.\<close>

definition bc_daemon_read_ahead :: "bcache \<Rightarrow> bcache option" where
  "bc_daemon_read_ahead s =
     (if rh_sema s = 0 then Some s else bc_read_ahead_from [0..<MAX_READ_AHEAD] (s\<lparr>rh_sema := rh_sema s - 1\<rparr>))"

text \<open>The alternative bodies of the two operations for a build without \<^verbatim>\<open>ENABLE_BUFFER_CACHE\<close>: every access goes
  to the device through a bounce buffer. They serve as the reference for the cache.\<close>

definition uncached_block_read :: "nat \<Rightarrow> nat \<Rightarrow> nat \<Rightarrow> bcache \<Rightarrow> (u8 list \<times> bcache) option" where
  "uncached_block_read sector offset cnt s = do {
     ASSERT (offset + cnt \<le> BLOCK_SECTOR_SIZE);
     s \<leftarrow> cache_lock_acquire s;
     (bounce, s) \<leftarrow> fs_read sector s;
     let buffer = segment bounce offset cnt;
     s \<leftarrow> cache_lock_release s;
     Some (buffer, s) }"

definition uncached_block_write :: "nat \<Rightarrow> u8 list \<Rightarrow> nat \<Rightarrow> bcache \<Rightarrow> bcache option" where
  "uncached_block_write sector buffer offset s = do {
     s \<leftarrow> cache_lock_acquire s;
     (bounce, s) \<leftarrow> (if 0 < offset \<or> length buffer + offset < BLOCK_SECTOR_SIZE then fs_read sector s
                     else Some (replicate BLOCK_SECTOR_SIZE 0, s));
     s \<leftarrow> fs_write sector (overwrite bounce offset buffer) s;
     cache_lock_release s }"

section \<open>The clock finds a victim\<close>

text \<open>Between two operations no entry is locked or being read.\<close>

definition quiet :: "bcache \<Rightarrow> bool" where
  "quiet s \<longleftrightarrow> length (cache s) = MAX_CACHE_SECTORS \<and> (\<forall>e \<in> set (cache s). readers e = 0 \<and> \<not> elock e)"

text \<open>Two cache arrays that differ in the second-chance flags only.\<close>

definition flags_only :: "buffer_cache_entry list \<Rightarrow> buffer_cache_entry list \<Rightarrow> bool" where
  "flags_only c c' \<longleftrightarrow> length c' = length c \<and>
     (\<forall>i < length c. c' ! i = (c ! i)\<lparr>is_in_second_chance := is_in_second_chance (c' ! i)\<rparr>)"

definition evictable :: "buffer_cache_entry \<Rightarrow> bool" where
  "evictable e \<longleftrightarrow> e_sector e = EMPTY_SECTOR \<or> is_in_second_chance e"

definition lock_at :: "nat \<Rightarrow> bcache \<Rightarrow> bcache" where
  "lock_at i s = s\<lparr>cache := (cache s)[i := (cache s ! i)\<lparr>elock := True\<rparr>]\<rparr>"

definition mark_at :: "nat \<Rightarrow> nat \<Rightarrow> bcache \<Rightarrow> bcache" where
  "mark_at i round s = s\<lparr>cache := (cache s)[i := (cache s ! i)\<lparr>is_in_second_chance := (\<not> is_dirty (cache s ! i) \<or> 0 < round)\<rparr>]\<rparr>"

lemma quietD: "quiet s \<Longrightarrow> i < MAX_CACHE_SECTORS \<Longrightarrow> i < length (cache s) \<and> readers (cache s ! i) = 0 \<and> \<not> elock (cache s ! i)"
  by (simp add: quiet_def)

lemma quiet_mark: "quiet s \<Longrightarrow> i < MAX_CACHE_SECTORS \<Longrightarrow> quiet (mark_at i r s)"
  by (auto simp: quiet_def mark_at_def dest!: set_update_subset_insert [THEN subsetD])

lemma flags_only_refl [simp]: "flags_only c c"
  by (simp add: flags_only_def)

lemma flags_only_mark: "i < length (cache s) \<Longrightarrow> \<not> is_in_second_chance (cache s ! i) \<Longrightarrow> flags_only (cache s) (cache (mark_at i r s))"
  by (auto simp: flags_only_def mark_at_def nth_list_update)

lemma flag_trans:
  "e' = e\<lparr>is_in_second_chance := a\<rparr> \<Longrightarrow> e'' = e'\<lparr>is_in_second_chance := b\<rparr> \<Longrightarrow> e'' = e\<lparr>is_in_second_chance := is_in_second_chance e''\<rparr>"
  for e :: buffer_cache_entry
  by simp

lemma flags_only_trans: "flags_only c c' \<Longrightarrow> flags_only c' c'' \<Longrightarrow> flags_only c c''"
proof -
  assume a: "flags_only c c'" "flags_only c' c''"
  show ?thesis unfolding flags_only_def
  proof (intro conjI allI impI)
    show "length c'' = length c" using a by (simp add: flags_only_def)
    fix i assume i: "i < length c"
    have "c' ! i = (c ! i)\<lparr>is_in_second_chance := is_in_second_chance (c' ! i)\<rparr>"
      "c'' ! i = (c' ! i)\<lparr>is_in_second_chance := is_in_second_chance (c'' ! i)\<rparr>" using a i by (simp_all add: flags_only_def)
    then show "c'' ! i = (c ! i)\<lparr>is_in_second_chance := is_in_second_chance (c'' ! i)\<rparr>"
      by (rule flag_trans)
  qed
qed

lemma bc_clock_step:
  assumes q: "quiet s" and i: "i < MAX_CACHE_SECTORS"
  shows "bc_clock i r s = (if evictable (cache s ! i) then Some (i, lock_at i s)
    else if i = MAX_CACHE_SECTORS - 1 then bc_clock 0 (r + 1) (mark_at i r s) else bc_clock (i + 1) r (mark_at i r s))"
proof -
  note e = quietD [OF q i]
  obtain n d sc di where c: "cache s ! i = \<lparr>e_sector = n, e_data = d, is_in_second_chance = sc, is_dirty = di, readers = 0, elock = False\<rparr>"
    using e by (cases "cache s ! i") auto
  then have upd: "(cache s)[i := \<lparr>e_sector = n, e_data = d, is_in_second_chance = sc, is_dirty = di, readers = 0, elock = False\<rparr>] = cache s"
    by (metis list_update_id)
  show ?thesis
    by (subst bc_clock.simps, cases "i = MAX_CACHE_SECTORS - 1"; cases sc; cases di)
      (use e c upd in \<open>simp_all add: elock_acquire_def elock_try_acquire_def elock_release_def upd_entry_def get_entry_def
        evictable_def lock_at_def mark_at_def\<close>)
qed

definition clock_result :: "bcache \<Rightarrow> (nat \<times> bcache) option \<Rightarrow> bool" where
  "clock_result s r \<longleftrightarrow> (\<exists>v c. r = Some (v, lock_at v (s\<lparr>cache := c\<rparr>)) \<and> v < MAX_CACHE_SECTORS \<and> flags_only (cache s) c \<and> evictable (c ! v))"

lemma clock_result_mark:
  assumes "quiet s" and "i < MAX_CACHE_SECTORS" and "\<not> evictable (cache s ! i)" and "clock_result (mark_at i r s) res"
  shows "clock_result s res"
proof -
  have f: "flags_only (cache s) (cache (mark_at i r s))"
    using assms(1-3) quietD by (intro flags_only_mark) (auto simp: evictable_def)
  have "(mark_at i r s)\<lparr>cache := c\<rparr> = s\<lparr>cache := c\<rparr>" for c by (simp add: mark_at_def)
  with assms(4) f show ?thesis unfolding clock_result_def by (metis flags_only_trans)
qed

lemma clock_result_here:
  assumes "quiet s" and "i < MAX_CACHE_SECTORS" and "evictable (cache s ! i)"
  shows "clock_result s (bc_clock i r s)"
  unfolding clock_result_def by (rule exI [of _ i], rule exI [of _ "cache s"]) (use assms in \<open>simp add: bc_clock_step\<close>)

lemma evictable_mark_other: "k \<noteq> i \<Longrightarrow> evictable (cache (mark_at i r s) ! k) = evictable (cache s ! k)"
  by (simp add: mark_at_def)

text \<open>First case: the rest of this round holds a victim. Second: after round 0 every entry passed is
  given its second chance, so the next round has one. Third: from the start.\<close>

lemma bc_clock_this_round:
  "quiet s \<Longrightarrow> i \<le> k \<Longrightarrow> k < MAX_CACHE_SECTORS \<Longrightarrow> evictable (cache s ! k) \<Longrightarrow> clock_result s (bc_clock i r s)"
proof (induction "k - i" arbitrary: i s)
  case 0
  then show ?case by (intro clock_result_here) auto
next
  case (Suc n)
  show ?case
  proof (cases "evictable (cache s ! i)")
    case True
    then show ?thesis using Suc.prems by (intro clock_result_here) auto
  next
    case False
    have i: "i < MAX_CACHE_SECTORS" "i \<noteq> MAX_CACHE_SECTORS - 1" "k \<noteq> i" using Suc.hyps(2) Suc.prems(3) by auto
    have "clock_result (mark_at i r s) (bc_clock (i + 1) r (mark_at i r s))"
      using Suc.prems Suc.hyps(2) i by (intro Suc.hyps(1)) (auto simp: quiet_mark evictable_mark_other)
    then show ?thesis using Suc.prems(1) i False by (auto simp: bc_clock_step intro: clock_result_mark)
  qed
qed

lemma evictable_mark: "i < length (cache s) \<Longrightarrow> 0 < r \<Longrightarrow> evictable (cache (mark_at i r s) ! i)"
  by (simp add: mark_at_def evictable_def)

lemma bc_clock_later_round: "quiet s \<Longrightarrow> i < MAX_CACHE_SECTORS \<Longrightarrow> 0 < r \<Longrightarrow> clock_result s (bc_clock i r s)"
proof (induction "MAX_CACHE_SECTORS - i" arbitrary: i s)
  case (Suc n)
  show ?case
  proof (cases "evictable (cache s ! i)")
    case True
    then show ?thesis using Suc.prems by (intro clock_result_here)
  next
    case False
    let ?s = "mark_at i r s"
    have q: "quiet ?s" using Suc.prems by (simp add: quiet_mark)
    have "clock_result ?s (if i = MAX_CACHE_SECTORS - 1 then bc_clock 0 (r + 1) ?s else bc_clock (i + 1) r ?s)"
      using bc_clock_this_round [OF q, of 0 i "r + 1"] evictable_mark [of i s r] Suc.prems quietD [OF Suc.prems(1,2)]
        Suc.hyps(1) [of "i + 1" ?s] Suc.hyps(2) q by auto
    then show ?thesis using Suc.prems(1,2) False by (auto simp: bc_clock_step intro: clock_result_mark)
  qed
qed simp

lemma bc_clock_first_round: "quiet s \<Longrightarrow> i < MAX_CACHE_SECTORS \<Longrightarrow> clock_result s (bc_clock i 0 s)"
proof (induction "MAX_CACHE_SECTORS - i" arbitrary: i s)
  case (Suc n)
  show ?case
  proof (cases "evictable (cache s ! i)")
    case True
    then show ?thesis using Suc.prems by (intro clock_result_here)
  next
    case False
    let ?s = "mark_at i 0 s"
    have q: "quiet ?s" using Suc.prems by (simp add: quiet_mark)
    have "clock_result ?s (if i = MAX_CACHE_SECTORS - 1 then bc_clock 0 1 ?s else bc_clock (i + 1) 0 ?s)"
      using bc_clock_later_round [OF q, of 0 1] Suc.prems Suc.hyps(1) [of "i + 1" ?s] Suc.hyps(2) q
      by (auto simp: MAX_CACHE_SECTORS_def)
    then show ?thesis using Suc.prems False by (auto simp: bc_clock_step intro: clock_result_mark)
  qed
qed simp

section \<open>The contents of the file-system device as its users see them\<close>

definition fs_size :: "bcache \<Rightarrow> nat" where
  "fs_size s = dev_size (devs s) (fs_device s)"

definition fs_sector :: "bcache \<Rightarrow> nat \<Rightarrow> sector" where
  "fs_sector s = dev_sector (devs s) (fs_device s)"

text \<open>
  \<open>cache_wf H c n dev\<close>: the cache array \<open>c\<close> over a device of \<open>n\<close> sectors with contents \<open>dev\<close>. No sector is
  cached twice, a cached sector is a sector of the device, and a clean entry agrees with the device,
  except for the entries in \<open>H\<close>, which are being filled.
\<close>

definition entry_ok :: "nat set \<Rightarrow> nat \<Rightarrow> (nat \<Rightarrow> sector) \<Rightarrow> nat \<Rightarrow> buffer_cache_entry \<Rightarrow> bool" where
  "entry_ok H n dev i e \<longleftrightarrow> length (e_data e) = BLOCK_SECTOR_SIZE \<and>
     (e_sector e \<noteq> EMPTY_SECTOR \<longrightarrow> e_sector e < n \<and> (is_dirty e \<or> i \<in> H \<or> e_data e = dev (e_sector e)))"

definition cache_wf :: "nat set \<Rightarrow> buffer_cache_entry list \<Rightarrow> nat \<Rightarrow> (nat \<Rightarrow> sector) \<Rightarrow> bool" where
  "cache_wf H c n dev \<longleftrightarrow> length c = MAX_CACHE_SECTORS \<and> n \<le> EMPTY_SECTOR \<and>
     (\<forall>i < MAX_CACHE_SECTORS. entry_ok H n dev i (c ! i)) \<and>
     (\<forall>i < MAX_CACHE_SECTORS. \<forall>j < MAX_CACHE_SECTORS.
        e_sector (c ! i) = e_sector (c ! j) \<longrightarrow> e_sector (c ! i) \<noteq> EMPTY_SECTOR \<longrightarrow> i = j)"

definition cview :: "buffer_cache_entry list \<Rightarrow> (nat \<Rightarrow> sector) \<Rightarrow> nat \<Rightarrow> sector" where
  "cview c dev n = (case bc_find n 0 c of Some i \<Rightarrow> e_data (c ! i) | None \<Rightarrow> dev n)"

definition bc_view :: "bcache \<Rightarrow> nat \<Rightarrow> sector" where
  "bc_view s = cview (cache s) (fs_sector s)"

definition bc_inv :: "nat set \<Rightarrow> bcache \<Rightarrow> bool" where
  "bc_inv H s \<longleftrightarrow> cache_wf H (cache s) (fs_size s) (fs_sector s) \<and> dev_ok (fs_device s) (devs s)"

text \<open>\<open>reads_false s\<close>: the uninitialised local variable of \<^verbatim>\<open>bc_block_write\<close> reads as false at every call.\<close>

definition reads_false :: "bcache \<Rightarrow> bool" where
  "reads_false s \<longleftrightarrow> (\<forall>n. \<not> uninit s n)"

definition bc_ok :: "bcache \<Rightarrow> bool" where
  "bc_ok s \<longleftrightarrow> bc_inv {} s \<and> quiet s \<and> \<not> cache_lock s \<and> reads_false s"

lemma reads_false_frame [simp]:
  "reads_false (s\<lparr>cache := c\<rparr>) = reads_false s" "reads_false (s\<lparr>devs := d\<rparr>) = reads_false s"
  "reads_false (s\<lparr>cache_lock := b\<rparr>) = reads_false s" "reads_false (s\<lparr>read_ahead := r\<rparr>) = reads_false s"
  "reads_false (s\<lparr>rh_sema := m\<rparr>) = reads_false s" "reads_false (s\<lparr>daemon_started := b\<rparr>) = reads_false s"
  "reads_false (s\<lparr>write_calls := k\<rparr>) = reads_false s"
  by (simp_all add: reads_false_def)

lemma bc_find_None: "bc_find n k c = None \<longleftrightarrow> (\<forall>e \<in> set c. e_sector e \<noteq> n)"
  by (induction c arbitrary: k) auto

lemma bc_find_Some: "bc_find n k c = Some i \<Longrightarrow> k \<le> i \<and> i < k + length c \<and> e_sector (c ! (i - k)) = n"
proof (induction c arbitrary: k)
  case (Cons e es)
  show ?case
  proof (cases "e_sector e = n")
    case False
    then have "bc_find n (k + 1) es = Some i" using Cons.prems by simp
    from Cons.IH [OF this] show ?thesis by (auto simp: nth_Cons')
  qed (use Cons.prems in auto)
qed simp

lemma bc_find_0: "bc_find n 0 c = Some i \<Longrightarrow> i < length c \<and> e_sector (c ! i) = n"
  using bc_find_Some [of n 0 c i] by simp

lemma cview_hit:
  assumes "cache_wf H c m dev" and "i < MAX_CACHE_SECTORS" and "e_sector (c ! i) = n" and "n \<noteq> EMPTY_SECTOR"
  shows "bc_find n 0 c = Some i" and "cview c dev n = e_data (c ! i)"
proof -
  have len: "length c = MAX_CACHE_SECTORS" using assms(1) by (simp add: cache_wf_def)
  have "c ! i \<in> set c" using assms(2) len by simp
  then have "bc_find n 0 c \<noteq> None" using assms(3) by (auto simp: bc_find_None)
  then obtain j where j: "bc_find n 0 c = Some j" by blast
  with assms len have "j = i" using bc_find_0 [OF j] by (auto simp: cache_wf_def)
  with j show "bc_find n 0 c = Some i" and "cview c dev n = e_data (c ! i)" by (auto simp: cview_def)
qed

lemma cview_miss:
  assumes "\<And>i. i < length c \<Longrightarrow> e_sector (c ! i) \<noteq> n"
  shows "bc_find n 0 c = None" and "cview c dev n = dev n"
proof -
  show "bc_find n 0 c = None" using assms by (metis bc_find_None in_set_conv_nth)
  then show "cview c dev n = dev n" by (simp add: cview_def)
qed

lemma cview_cases:
  assumes "cache_wf H c m dev" and "n < m"
  obtains (hit) i where "i < MAX_CACHE_SECTORS" and "e_sector (c ! i) = n" and "cview c dev n = e_data (c ! i)" and "bc_find n 0 c = Some i"
  | (miss) "\<And>i. i < MAX_CACHE_SECTORS \<Longrightarrow> e_sector (c ! i) \<noteq> n" and "cview c dev n = dev n" and "bc_find n 0 c = None"
proof (cases "\<exists>i < MAX_CACHE_SECTORS. e_sector (c ! i) = n")
  case True
  then obtain i where i: "i < MAX_CACHE_SECTORS" "e_sector (c ! i) = n" by blast
  have "n \<noteq> EMPTY_SECTOR" using assms by (auto simp: cache_wf_def)
  from cview_hit [OF assms(1) i this] i show thesis by (intro hit) auto
next
  case False
  have "length c = MAX_CACHE_SECTORS" using assms(1) by (simp add: cache_wf_def)
  with False cview_miss [of c n] show thesis by (intro miss) auto
qed

text \<open>Replacing one entry, with a change of the device that the other entries do not notice.\<close>

lemma all_upd:
  "length c = N \<Longrightarrow> v < N \<Longrightarrow> (\<forall>i < N. P i (c[v := e] ! i)) \<longleftrightarrow> P v e \<and> (\<forall>i < N. i \<noteq> v \<longrightarrow> P i (c ! i))"
  by (auto simp: nth_list_update)

definition others_agree :: "nat \<Rightarrow> buffer_cache_entry list \<Rightarrow> (nat \<Rightarrow> sector) \<Rightarrow> (nat \<Rightarrow> sector) \<Rightarrow> bool" where
  "others_agree v c dev dev' \<longleftrightarrow> (\<forall>n. n \<noteq> e_sector (c ! v) \<longrightarrow> dev' n = dev n)"

lemma cache_wf_set:
  assumes wf: "cache_wf H c m dev" and v: "v < MAX_CACHE_SECTORS" and e': "entry_ok H' m dev' v e'"
    and dist: "\<And>i. i < MAX_CACHE_SECTORS \<Longrightarrow> i \<noteq> v \<Longrightarrow> e_sector (c ! i) = e_sector e' \<Longrightarrow> e_sector e' = EMPTY_SECTOR"
    and H: "H - {v} \<subseteq> H'" and dev: "others_agree v c dev dev'"
  shows "cache_wf H' (c[v := e']) m dev'"
proof -
  have len: "length c = MAX_CACHE_SECTORS" and m: "m \<le> EMPTY_SECTOR" using wf by (simp_all add: cache_wf_def)
  have "entry_ok H' m dev' i (c ! i)" if "i < MAX_CACHE_SECTORS" "i \<noteq> v" for i
  proof -
    have "entry_ok H m dev i (c ! i)" and "e_sector (c ! i) = e_sector (c ! v) \<Longrightarrow> e_sector (c ! v) = EMPTY_SECTOR"
      using wf that v by (auto simp: cache_wf_def)
    then show ?thesis using dev H that
      by (cases "e_sector (c ! i) = e_sector (c ! v)") (auto simp: entry_ok_def others_agree_def)
  qed
  then have "\<forall>i < MAX_CACHE_SECTORS. entry_ok H' m dev' i (c[v := e'] ! i)" using e' by (simp add: all_upd [OF len v])
  moreover have "i = j" if ij: "i < MAX_CACHE_SECTORS" "j < MAX_CACHE_SECTORS"
    and eq: "e_sector (c[v := e'] ! i) = e_sector (c[v := e'] ! j)" "e_sector (c[v := e'] ! i) \<noteq> EMPTY_SECTOR" for i j
  proof -
    have "e_sector (c ! i) = e_sector (c ! j) \<Longrightarrow> e_sector (c ! i) \<noteq> EMPTY_SECTOR \<Longrightarrow> i = j"
      using wf ij by (auto simp: cache_wf_def)
    then show ?thesis using eq dist [of i] dist [of j] ij len v by (auto simp: nth_list_update split: if_splits)
  qed
  ultimately show ?thesis using len m unfolding cache_wf_def by simp
qed

lemma cview_set:
  assumes wf: "cache_wf H c m dev" and wf': "cache_wf H' (c[v := e']) m dev'" and v: "v < MAX_CACHE_SECTORS"
    and n: "n < m" and dev: "others_agree v c dev dev'"
  shows "cview (c[v := e']) dev' n = (if n = e_sector e' then e_data e' else if n = e_sector (c ! v) then dev' n else cview c dev n)"
proof -
  let ?c = "c[v := e']"
  have len: "length c = MAX_CACHE_SECTORS" and m: "n \<noteq> EMPTY_SECTOR" using wf n by (auto simp: cache_wf_def)
  have nth: "?c ! i = (if i = v then e' else c ! i)" if "i < MAX_CACHE_SECTORS" for i using that len by (simp add: nth_list_update)
  consider "n = e_sector e'" | "n \<noteq> e_sector e'" "n = e_sector (c ! v)" | "n \<noteq> e_sector e'" "n \<noteq> e_sector (c ! v)" by blast
  then show ?thesis
  proof cases
    case 1
    then show ?thesis using cview_hit(2) [OF wf' v, of n] nth [OF v] m by simp
  next
    case 2
    have "\<forall>j < MAX_CACHE_SECTORS. e_sector (c ! j) = n \<longrightarrow> j = v" using wf v 2(2) m by (auto simp: cache_wf_def)
    then have "cview ?c dev' n = dev' n" using 2 len by (intro cview_miss(2)) (auto simp: nth)
    then show ?thesis using 2 by simp
  next
    case 3
    from wf n show ?thesis
    proof (cases rule: cview_cases)
      case (hit i)
      then have "i \<noteq> v" using 3(2) by auto
      then show ?thesis using 3 cview_hit(2) [OF wf' hit(1), of n] nth [OF hit(1)] hit m by simp
    next
      case miss
      then have "cview ?c dev' n = dev' n" using 3 len by (intro cview_miss(2)) (auto simp: nth)
      then show ?thesis using miss 3 dev by (simp add: others_agree_def)
    qed
  qed
qed

lemma others_agree_refl [simp]: "others_agree v c dev dev"
  by (simp add: others_agree_def)

section \<open>Device accesses below the cache\<close>

lemma fs_read_ok:
  assumes "dev_ok (fs_device s) (devs s)" and "n < fs_size s"
  obtains d where "fs_read n s = Some (fs_sector s n, s\<lparr>devs := d\<rparr>)" and "dev_ok (fs_device s) d"
    and "dev_size d (fs_device s) = fs_size s" and "dev_sector d (fs_device s) = fs_sector s"
proof -
  obtain d where d: "block_read (fs_device s) n (devs s) = Some (dev_sector (devs s) (fs_device s) n, d)" "same_shape (devs s) d"
    "dev_sector d = dev_sector (devs s)"
    by (rule block_read_ok [OF assms(1), of n]) (use assms(2) in \<open>auto simp: fs_size_def\<close>)
  show thesis
    by (rule that [of d]) (use d same_shapeD [OF d(2)] assms in \<open>auto simp: fs_read_def fs_sector_def fs_size_def\<close>)
qed

lemma fs_write_ok:
  assumes "dev_ok (fs_device s) (devs s)" and "n < fs_size s" and "length buf = BLOCK_SECTOR_SIZE"
  obtains d where "fs_write n buf s = Some (s\<lparr>devs := d\<rparr>)" and "dev_ok (fs_device s) d"
    and "dev_size d (fs_device s) = fs_size s" and "dev_sector d (fs_device s) = (fs_sector s)(n := buf)"
proof -
  obtain d where d: "block_write (fs_device s) n buf (devs s) = Some d" "same_shape (devs s) d"
    "\<And>c m. dev_sector d c m = (if locate (devs s) c m = locate (devs s) (fs_device s) n then buf else dev_sector (devs s) c m)"
    by (rule block_write_ok [OF assms(1) _ assms(3), of n]) (use assms(2) in \<open>auto simp: fs_size_def\<close>)
  show thesis
    by (rule that [of d])
      (use d same_shapeD [OF d(2)] assms in \<open>auto simp: fs_write_def fs_sector_def fs_size_def fun_eq_iff dest: locate_inj\<close>)
qed

lemma fs_write_past_end: "fs_size s \<le> n \<Longrightarrow> fs_write n buf s = None"
  by (simp add: fs_write_def fs_size_def block_write_past_end)

text \<open>Locks, reader counts and second-chance flags do not matter for the contents.\<close>

definition same_data :: "buffer_cache_entry list \<Rightarrow> buffer_cache_entry list \<Rightarrow> bool" where
  "same_data c c' \<longleftrightarrow> map (\<lambda>e. (e_sector e, e_data e, is_dirty e)) c' = map (\<lambda>e. (e_sector e, e_data e, is_dirty e)) c"

lemma same_dataD:
  assumes "same_data c c'"
  shows "length c' = length c"
    and "i < length c \<Longrightarrow> e_sector (c' ! i) = e_sector (c ! i) \<and> e_data (c' ! i) = e_data (c ! i) \<and> is_dirty (c' ! i) = is_dirty (c ! i)"
proof -
  note eq = assms [unfolded same_data_def]
  show len: "length c' = length c" using arg_cong [OF eq, of length] by simp
  show "e_sector (c' ! i) = e_sector (c ! i) \<and> e_data (c' ! i) = e_data (c ! i) \<and> is_dirty (c' ! i) = is_dirty (c ! i)" if "i < length c"
    using arg_cong [OF eq, of "\<lambda>xs. xs ! i"] that len by simp
qed

lemma same_dataI:
  "length c' = length c \<Longrightarrow>
   (\<And>i. i < length c \<Longrightarrow> e_sector (c' ! i) = e_sector (c ! i) \<and> e_data (c' ! i) = e_data (c ! i) \<and> is_dirty (c' ! i) = is_dirty (c ! i)) \<Longrightarrow>
   same_data c c'"
  by (auto simp: same_data_def list_eq_iff_nth_eq)

lemma same_data_upd:
  "v < length c \<Longrightarrow> e_sector e = e_sector (c ! v) \<Longrightarrow> e_data e = e_data (c ! v) \<Longrightarrow> is_dirty e = is_dirty (c ! v) \<Longrightarrow> same_data c (c[v := e])"
  by (rule same_dataI) (auto simp: nth_list_update)

lemma same_data_trans: "same_data c c' \<Longrightarrow> same_data c' c'' \<Longrightarrow> same_data c c''"
  by (simp add: same_data_def)

lemma flags_same_data: "flags_only c c' \<Longrightarrow> same_data c c'"
proof (rule same_dataI)
  assume f: "flags_only c c'"
  then show "length c' = length c" by (simp add: flags_only_def)
  fix i assume "i < length c"
  then have "c' ! i = (c ! i)\<lparr>is_in_second_chance := is_in_second_chance (c' ! i)\<rparr>" using f by (simp add: flags_only_def)
  then obtain b where "c' ! i = (c ! i)\<lparr>is_in_second_chance := b\<rparr>" by blast
  then show "e_sector (c' ! i) = e_sector (c ! i) \<and> e_data (c' ! i) = e_data (c ! i) \<and> is_dirty (c' ! i) = is_dirty (c ! i)" by simp
qed

lemma cache_wf_same:
  assumes "same_data c c'"
  shows "cache_wf H c' m dev = cache_wf H c m dev"
proof -
  have eq: "i < MAX_CACHE_SECTORS \<Longrightarrow> e_sector (c' ! i) = e_sector (c ! i) \<and> e_data (c' ! i) = e_data (c ! i) \<and> is_dirty (c' ! i) = is_dirty (c ! i)"
    if "length c = MAX_CACHE_SECTORS" for i using same_dataD [OF assms] that by simp
  show ?thesis
  proof (cases "length c = MAX_CACHE_SECTORS")
    case True
    show ?thesis unfolding cache_wf_def entry_ok_def using eq [OF True] same_dataD(1) [OF assms] by (auto simp: Ball_def)
  next
    case False
    then show ?thesis using same_dataD(1) [OF assms] by (simp add: cache_wf_def)
  qed
qed

lemma bc_find_same: "map e_sector c' = map e_sector c \<Longrightarrow> bc_find n k c' = bc_find n k c"
proof (induction c arbitrary: c' k)
  case (Cons e es)
  obtain e' es' where c': "c' = e' # es'" "e_sector e' = e_sector e" "map e_sector es' = map e_sector es"
    using Cons.prems by (cases c') auto
  then show ?case using Cons.IH [OF c'(3), of "k + 1"] by simp
qed simp

lemma cview_same:
  assumes "same_data c c'"
  shows "cview c' dev n = cview c dev n"
proof -
  have "map e_sector c' = map e_sector c"
    using same_dataD [OF assms] by (auto simp: list_eq_iff_nth_eq)
  from bc_find_same [OF this] have "bc_find n 0 c' = bc_find n 0 c" .
  then show ?thesis using same_dataD(2) [OF assms] by (auto simp: cview_def split: option.splits dest!: bc_find_0)
qed

section \<open>Getting a locked entry for a sector\<close>

text \<open>\<open>only_locked v s\<close>: entry \<open>v\<close> is the only locked one, and nobody reads.\<close>

definition only_locked :: "nat \<Rightarrow> bcache \<Rightarrow> bool" where
  "only_locked v s \<longleftrightarrow> length (cache s) = MAX_CACHE_SECTORS \<and>
     (\<forall>i < MAX_CACHE_SECTORS. readers (cache s ! i) = 0 \<and> elock (cache s ! i) = (i = v))"

lemma quiet_iff: "quiet s \<longleftrightarrow> length (cache s) = MAX_CACHE_SECTORS \<and>
    (\<forall>i < MAX_CACHE_SECTORS. readers (cache s ! i) = 0 \<and> \<not> elock (cache s ! i))"
  by (auto simp: quiet_def all_set_conv_all_nth)

lemma lock_at_ok:
  assumes "quiet s" and "v < MAX_CACHE_SECTORS"
  shows "only_locked v (lock_at v s)" and "same_data (cache s) (cache (lock_at v s))"
proof -
  show "only_locked v (lock_at v s)" using assms by (auto simp: quiet_iff only_locked_def lock_at_def nth_list_update)
  show "same_data (cache s) (cache (lock_at v s))"
    using assms by (auto simp: lock_at_def quiet_def intro!: same_data_upd)
qed

lemma flags_quiet: "quiet s \<Longrightarrow> flags_only (cache s) c \<Longrightarrow> quiet (s\<lparr>cache := c\<rparr>)"
proof -
  assume q: "quiet s" and f: "flags_only (cache s) c"
  have "readers (c ! i) = readers (cache s ! i) \<and> elock (c ! i) = elock (cache s ! i)" if "i < MAX_CACHE_SECTORS" for i
  proof -
    have "c ! i = (cache s ! i)\<lparr>is_in_second_chance := is_in_second_chance (c ! i)\<rparr>" using f q that by (simp add: flags_only_def quiet_iff)
    then obtain b where "c ! i = (cache s ! i)\<lparr>is_in_second_chance := b\<rparr>" by blast
    then show ?thesis by simp
  qed
  then show ?thesis using q f by (simp add: quiet_iff flags_only_def)
qed

text \<open>Fields of the state that only the daemons and the initialisation change.\<close>

definition same_env :: "bcache \<Rightarrow> bcache \<Rightarrow> bool" where
  "same_env s s' \<longleftrightarrow> read_ahead s' = read_ahead s \<and> rh_sema s' = rh_sema s \<and> daemon_started s' = daemon_started s \<and>
     fs_device s' = fs_device s \<and> fs_size s' = fs_size s \<and> uninit s' = uninit s"

lemma same_env_reads: "same_env s s' \<Longrightarrow> reads_false s' = reads_false s"
  by (simp add: same_env_def reads_false_def)

lemma bc_inv_same: "same_data (cache s) (cache s') \<Longrightarrow> fs_device s' = fs_device s \<Longrightarrow> devs s' = devs s \<Longrightarrow> bc_inv H s' = bc_inv H s"
  by (simp add: bc_inv_def fs_size_def fs_sector_def cache_wf_same)

lemma bc_view_same: "same_data (cache s) (cache s') \<Longrightarrow> fs_device s' = fs_device s \<Longrightarrow> devs s' = devs s \<Longrightarrow> bc_view s' = bc_view s"
  by (simp add: bc_view_def fs_sector_def cview_same fun_eq_iff)

lemma only_locked_upd:
  "only_locked v s \<Longrightarrow> readers e = 0 \<Longrightarrow> elock e \<Longrightarrow> only_locked v (s\<lparr>cache := (cache s)[v := e], devs := d\<rparr>)"
  by (auto simp: only_locked_def nth_list_update)

text \<open>Writing back a dirty entry.\<close>

lemma bc_flush_ok:
  assumes inv: "bc_inv H s" and v: "v < MAX_CACHE_SECTORS" and ne: "e_sector (cache s ! v) \<noteq> EMPTY_SECTOR" and nh: "v \<notin> H"
  obtains d s' where "s' = s\<lparr>cache := (cache s)[v := (cache s ! v)\<lparr>is_dirty := False\<rparr>], devs := d\<rparr>"
    and "bc_flush v s = Some s'" and "bc_inv H s'" and "fs_size s' = fs_size s"
    and "fs_sector s' = (fs_sector s)(e_sector (cache s ! v) := e_data (cache s ! v))"
    and "\<forall>n < fs_size s. bc_view s' n = bc_view s n"
proof -
  let ?e = "cache s ! v"
  have wf: "cache_wf H (cache s) (fs_size s) (fs_sector s)" and dev: "dev_ok (fs_device s) (devs s)" using inv by (auto simp: bc_inv_def)
  have e: "e_sector ?e < fs_size s" "length (e_data ?e) = BLOCK_SECTOR_SIZE" "length (cache s) = MAX_CACHE_SECTORS"
    using wf v ne by (auto simp: cache_wf_def entry_ok_def)
  obtain d where d: "fs_write (e_sector ?e) (e_data ?e) s = Some (s\<lparr>devs := d\<rparr>)" "dev_ok (fs_device s) d"
    "dev_size d (fs_device s) = fs_size s" "dev_sector d (fs_device s) = (fs_sector s)(e_sector ?e := e_data ?e)"
    by (rule fs_write_ok [OF dev e(1,2)])
  let ?s' = "s\<lparr>cache := (cache s)[v := ?e\<lparr>is_dirty := False\<rparr>], devs := d\<rparr>"
  let ?dev = "(fs_sector s)(e_sector ?e := e_data ?e)"
  have wf': "cache_wf H (cache ?s') (fs_size s) ?dev"
    unfolding bcache.simps
    by (simp, rule cache_wf_set [OF wf v])
      (use e ne wf v in \<open>auto simp: entry_ok_def others_agree_def cache_wf_def\<close>)
  have fs: "fs_size ?s' = fs_size s" "fs_sector ?s' = ?dev" using d(3,4) by (simp_all add: fs_size_def fs_sector_def)
  have view: "bc_view ?s' n = bc_view s n" if n: "n < fs_size s" for n
    using cview_set [OF wf wf' [simplified] v n] cview_hit(2) [OF wf v refl ne]
    by (auto simp: bc_view_def fs(2) others_agree_def)
  show thesis
    by (rule that [of ?s' d]) (use view d(1,2) e(3) v wf' fs in \<open>auto simp: bc_flush_def get_entry_def upd_entry_def bc_inv_def\<close>)
qed

lemma bc_get_free_entry_ok:
  assumes inv: "bc_inv {} s" and q: "quiet s"
  obtains v s' where "bc_get_free_entry s = Some (v, s')" and "v < MAX_CACHE_SECTORS" and "bc_inv {} s'" and "only_locked v s'"
    and "same_env s s'" and "cache_lock s' = cache_lock s"
    and "e_sector (cache s' ! v) = EMPTY_SECTOR \<or> \<not> is_dirty (cache s' ! v)"
    and "\<forall>n < fs_size s. bc_view s' n = bc_view s n" and "map e_sector (cache s') = map e_sector (cache s)"
proof -
  obtain v c where vc: "bc_clock 0 0 s = Some (v, lock_at v (s\<lparr>cache := c\<rparr>))" "v < MAX_CACHE_SECTORS" "flags_only (cache s) c"
    using bc_clock_first_round [OF q, of 0] by (auto simp: clock_result_def MAX_CACHE_SECTORS_def)
  let ?s0 = "s\<lparr>cache := c\<rparr>" and ?s1 = "lock_at v (s\<lparr>cache := c\<rparr>)"
  have q0: "quiet ?s0" using q vc(3) by (rule flags_quiet)
  note l = lock_at_ok [OF q0 vc(2)]
  have same: "same_data (cache s) (cache ?s1)" using same_data_trans [OF flags_same_data [OF vc(3)]] l(2) by simp
  have fr: "fs_device ?s1 = fs_device s" "devs ?s1 = devs s" "cache_lock ?s1 = cache_lock s" "same_env s ?s1"
    by (simp_all add: lock_at_def same_env_def fs_size_def)
  note inv1 = bc_inv_same [OF same fr(1,2), of "{}"] and view1 = bc_view_same [OF same fr(1,2)]
  have sec1: "map e_sector (cache ?s1) = map e_sector (cache s)"
    using same_dataD [OF same] by (auto simp: list_eq_iff_nth_eq)
  have len: "length (cache ?s1) = MAX_CACHE_SECTORS" "elock (cache ?s1 ! v)" "readers (cache ?s1 ! v) = 0"
    using l(1) vc(2) by (auto simp: only_locked_def)
  have get: "get_entry v ?s1 = Some (cache ?s1 ! v)" using len vc(2) by (simp add: get_entry_def)
  show thesis
  proof (cases "e_sector (cache ?s1 ! v) \<noteq> EMPTY_SECTOR \<and> is_dirty (cache ?s1 ! v)")
    case True
    obtain d s' where s': "s' = ?s1\<lparr>cache := (cache ?s1)[v := (cache ?s1 ! v)\<lparr>is_dirty := False\<rparr>], devs := d\<rparr>"
      "bc_flush v ?s1 = Some s'" "bc_inv {} s'" "fs_size s' = fs_size ?s1" "\<forall>n < fs_size ?s1. bc_view s' n = bc_view ?s1 n"
      by (rule bc_flush_ok [of "{}" ?s1 v]) (use inv inv1 vc(2) True in auto)
    have "only_locked v s'" unfolding s'(1) by (rule only_locked_upd [OF l(1)]) (use len in simp_all)
    moreover have "map e_sector (cache s') = map e_sector (cache ?s1)"
      unfolding s'(1) using len(1) vc(2) by (simp add: map_update list_update_same_conv)
    moreover have "same_env s s'" using fr(4) s'(4) unfolding same_env_def s'(1) by simp
    moreover have "fs_size ?s1 = fs_size s" using fr(4) by (simp add: same_env_def)
    ultimately show thesis
      by (intro that [of v s']) (use vc(1,2) get len True s' view1 sec1 fr in \<open>auto simp: bc_get_free_entry_def\<close>)
  next
    case False
    have "fs_size ?s1 = fs_size s" using fr(4) by (simp add: same_env_def)
    show thesis
      by (rule that [of v ?s1]) (use False vc(1,2) get len inv inv1 view1 sec1 fr l(1) in \<open>auto simp: bc_get_free_entry_def\<close>)
  qed
qed

text \<open>
  What \<^verbatim>\<open>bc_get_and_lock_entry\<close> promises for a sector of the device: a locked entry for it, which
  holds its contents on a hit, and is clean and still to be filled on a miss.
\<close>

definition got_entry :: "nat \<Rightarrow> bcache \<Rightarrow> bool \<Rightarrow> nat \<Rightarrow> bcache \<Rightarrow> bool" where
  "got_entry n s missed i s' \<longleftrightarrow> i < MAX_CACHE_SECTORS \<and> e_sector (cache s' ! i) = n \<and> only_locked i s' \<and> same_env s s' \<and>
     \<not> cache_lock s' \<and> (\<forall>k < fs_size s. k \<noteq> n \<longrightarrow> bc_view s' k = bc_view s k) \<and>
     (if missed then bc_inv {i} s' \<and> \<not> is_dirty (cache s' ! i) \<and> fs_sector s' n = bc_view s n
      else bc_inv {} s' \<and> e_data (cache s' ! i) = bc_view s n)"

lemma cache_lock_frame:
  "bc_inv H (s\<lparr>cache_lock := b\<rparr>) = bc_inv H s" "quiet (s\<lparr>cache_lock := b\<rparr>) = quiet s" "bc_view (s\<lparr>cache_lock := b\<rparr>) = bc_view s"
  "only_locked v (s\<lparr>cache_lock := b\<rparr>) = only_locked v s" "fs_size (s\<lparr>cache_lock := b\<rparr>) = fs_size s"
  "fs_sector (s\<lparr>cache_lock := b\<rparr>) = fs_sector s" "same_env (s\<lparr>cache_lock := b\<rparr>) t = same_env s t"
  "same_env t (s\<lparr>cache_lock := b\<rparr>) = same_env t s"
  by (simp_all add: bc_inv_def quiet_def bc_view_def only_locked_def fs_size_def fs_sector_def same_env_def)

lemma bc_inv_sector: "bc_inv H s \<Longrightarrow> n < fs_size s \<Longrightarrow> n \<noteq> EMPTY_SECTOR"
  by (auto simp: bc_inv_def cache_wf_def)

lemma only_locked_get:
  assumes "only_locked v s" and "v < MAX_CACHE_SECTORS"
  shows "get_entry v s = Some (cache s ! v)" and "upd_entry v f s = Some (s\<lparr>cache := (cache s)[v := f (cache s ! v)]\<rparr>)"
    and "elock (cache s ! v)" and "readers (cache s ! v) = 0" and "v < length (cache s)"
  using assms by (auto simp: only_locked_def get_entry_def upd_entry_def)

lemma bc_get_and_lock_hit:
  assumes ok: "bc_ok s" and n: "n < fs_size s" and hit: "bc_find n 0 (cache s) = Some i"
  shows "\<exists>s'. bc_get_and_lock_entry n s = Some (False, i, s') \<and> got_entry n s False i s'"
proof -
  have inv: "bc_inv {} s" and q: "quiet s" and cl: "\<not> cache_lock s" using ok by (auto simp: bc_ok_def)
  have i: "i < MAX_CACHE_SECTORS" "e_sector (cache s ! i) = n" "i < length (cache s)" "\<not> elock (cache s ! i)"
    using bc_find_0 [OF hit] q quietD [OF q] by (auto simp: quiet_def)
  let ?s' = "lock_at i s"
  note l = lock_at_ok [OF q i(1)]
  have fr: "fs_device ?s' = fs_device s" "devs ?s' = devs s" "\<not> cache_lock ?s'" "same_env s ?s'"
    using cl by (simp_all add: lock_at_def same_env_def fs_size_def)
  have inv': "bc_inv {} ?s'" using inv bc_inv_same [OF l(2) fr(1,2)] by simp
  have view: "bc_view ?s' = bc_view s" by (rule bc_view_same [OF l(2) fr(1,2)])
  have e: "e_sector (cache ?s' ! i) = n" "e_data (cache ?s' ! i) = e_data (cache s ! i)" using i by (simp_all add: lock_at_def)
  moreover have "bc_view s n = e_data (cache s ! i)" by (simp add: bc_view_def cview_def hit)
  moreover have "bc_get_and_lock_entry n s = Some (False, i, ?s')"
    by (subst bc_get_and_lock_entry.simps)
      (use cl i hit in \<open>auto simp: cache_lock_acquire_def cache_lock_release_def bc_get_entry_by_sector_def elock_acquire_def
        get_entry_def upd_entry_def lock_at_def\<close>)
  ultimately show ?thesis using i inv' l(1) fr view by (auto simp: got_entry_def)
qed

lemma bc_get_and_lock_miss:
  assumes ok: "bc_ok s" and n: "n < fs_size s" and miss: "bc_find n 0 (cache s) = None"
  shows "\<exists>i s'. bc_get_and_lock_entry n s = Some (True, i, s') \<and> got_entry n s True i s'"
proof -
  have inv: "bc_inv {} s" and q: "quiet s" and cl: "\<not> cache_lock s" using ok by (auto simp: bc_ok_def)
  let ?s0 = "s\<lparr>cache_lock := True\<rparr>"
  obtain v s1 where s1: "bc_get_free_entry ?s0 = Some (v, s1)" "v < MAX_CACHE_SECTORS" "bc_inv {} s1" "only_locked v s1"
    "same_env s s1" "cache_lock s1" "e_sector (cache s1 ! v) = EMPTY_SECTOR \<or> \<not> is_dirty (cache s1 ! v)"
    "\<forall>n < fs_size s. bc_view s1 n = bc_view s n" "map e_sector (cache s1) = map e_sector (cache s)"
    by (rule bc_get_free_entry_ok [of ?s0]) (use inv q in \<open>simp_all add: cache_lock_frame\<close>)
  note g = only_locked_get [OF s1(4,2)]
  let ?e = "(cache s1 ! v)\<lparr>e_sector := n, is_dirty := False\<rparr>"
  let ?s2 = "s1\<lparr>cache := (cache s1)[v := ?e]\<rparr>"
  let ?s' = "?s2\<lparr>cache_lock := False\<rparr>"
  have size: "fs_size s1 = fs_size s" using s1(5) by (simp add: same_env_def)
  have wf: "cache_wf {} (cache s1) (fs_size s) (fs_sector s1)" and dev: "dev_ok (fs_device s1) (devs s1)"
    using s1(3) size by (auto simp: bc_inv_def)
  have len: "length (cache s1) = MAX_CACHE_SECTORS" using wf by (simp add: cache_wf_def)
  have nc: "e_sector (cache s1 ! j) \<noteq> n" if "j < MAX_CACHE_SECTORS" for j
  proof -
    have "bc_find n 0 (cache s1) = None" using miss bc_find_same [OF s1(9)] by simp
    then show ?thesis using that len by (auto simp: bc_find_None)
  qed
  have e: "entry_ok {v} (fs_size s) (fs_sector s1) v ?e" using wf s1(2) n by (auto simp: cache_wf_def entry_ok_def)
  have wf': "cache_wf {v} ((cache s1)[v := ?e]) (fs_size s) (fs_sector s1)"
    by (rule cache_wf_set [OF wf s1(2) e]) (use nc in auto)
  have view: "bc_view ?s2 k = bc_view s k" if k: "k < fs_size s" "k \<noteq> n" for k
  proof -
    have "bc_view ?s2 k = (if k = e_sector (cache s1 ! v) then fs_sector s1 k else bc_view s1 k)"
      using cview_set [OF wf wf' s1(2) k(1)] k(2) by (simp add: bc_view_def fs_sector_def)
    moreover have "bc_view s1 k = fs_sector s1 k" if "k = e_sector (cache s1 ! v)"
    proof -
      have ke: "k \<noteq> EMPTY_SECTOR" using inv k(1) by (rule bc_inv_sector)
      then have "e_data (cache s1 ! v) = fs_sector s1 k" using wf s1(2,7) that by (auto simp: cache_wf_def entry_ok_def)
      then show ?thesis using cview_hit(2) [OF wf s1(2) that [symmetric] ke] by (simp add: bc_view_def)
    qed
    ultimately show ?thesis using s1(8) k(1) by simp
  qed
  have fv: "fs_sector s1 n = bc_view s n"
    using cview_miss(2) [of "cache s1" n "fs_sector s1"] nc len s1(8) n by (simp add: bc_view_def)
  have "bc_get_and_lock_entry n s = Some (True, v, ?s')"
    by (subst bc_get_and_lock_entry.simps)
      (use cl miss s1(1,2,6) g len in \<open>auto simp: cache_lock_acquire_def cache_lock_release_def bc_get_entry_by_sector_def get_entry_def upd_entry_def\<close>)
  moreover have "only_locked v ?s'"
    using only_locked_upd [OF s1(4), of ?e "devs s1"] g by (simp add: cache_lock_frame only_locked_def)
  moreover have "bc_inv {v} ?s'" using wf' dev size unfolding bc_inv_def by (simp add: fs_size_def fs_sector_def)
  moreover have "same_env s ?s'" using s1(5) by (auto simp: same_env_def fs_size_def)
  ultimately show ?thesis
    using s1(2) len view fv by (intro exI [of _ v] exI [of _ ?s']) (simp add: got_entry_def cache_lock_frame fs_sector_def)
qed

lemma bc_get_and_lock_ok:
  assumes "bc_ok s" and "n < fs_size s"
  obtains missed i s' where "bc_get_and_lock_entry n s = Some (missed, i, s')" and "got_entry n s missed i s'"
  using bc_get_and_lock_hit [OF assms] bc_get_and_lock_miss [OF assms] by (cases "bc_find n 0 (cache s)") blast+

text \<open>Filling and unlocking the entry ends the operation; the device may have been read meanwhile.\<close>

lemma got_entry_done:
  assumes got: "got_entry n s missed i s'" and n: "n < fs_size s" and ok: "bc_ok s"
    and s'': "s'' = s'\<lparr>cache := (cache s')[i := e], devs := d\<rparr>"
    and e: "e_sector e = n" "length (e_data e) = BLOCK_SECTOR_SIZE" "is_dirty e \<or> e_data e = fs_sector s' n" "readers e = 0" "\<not> elock e"
    and d: "dev_ok (fs_device s') d" "dev_size d (fs_device s') = fs_size s'" "dev_sector d (fs_device s') = fs_sector s'"
  shows "bc_ok s''" and "same_env s s''" and "\<And>k. k < fs_size s \<Longrightarrow> bc_view s'' k = (if k = n then e_data e else bc_view s k)"
proof -
  have i: "i < MAX_CACHE_SECTORS" and sec: "e_sector (cache s' ! i) = n" and ol: "only_locked i s'" and env: "same_env s s'"
    and cl: "\<not> cache_lock s'" and v: "\<forall>k < fs_size s. k \<noteq> n \<longrightarrow> bc_view s' k = bc_view s k"
    using got by (auto simp: got_entry_def)
  have size: "fs_size s' = fs_size s" "fs_size s'' = fs_size s" and fs: "fs_sector s'' = fs_sector s'"
    using env d s'' by (auto simp: same_env_def fs_size_def fs_sector_def)
  have "bc_inv {i} s'" using got unfolding got_entry_def bc_inv_def cache_wf_def entry_ok_def by (auto split: if_splits)
  then have wf: "cache_wf {i} (cache s') (fs_size s) (fs_sector s')" using size by (simp add: bc_inv_def)
  have ne: "n \<noteq> EMPTY_SECTOR" using wf n by (auto simp: cache_wf_def)
  have "entry_ok {} (fs_size s) (fs_sector s') i e" using e n by (auto simp: entry_ok_def)
  then have wf': "cache_wf {} ((cache s')[i := e]) (fs_size s) (fs_sector s')"
    by (rule cache_wf_set [OF wf i]) (use e(1) sec wf i ne in \<open>auto simp: cache_wf_def\<close>)
  have "quiet s''" using ol i e unfolding quiet_iff only_locked_def s'' by (auto simp: nth_list_update)
  then show "bc_ok s''" using wf' d(1) size fs cl ok same_env_reads [OF env] unfolding bc_ok_def bc_inv_def by (simp add: s'')
  show "same_env s s''" using env size unfolding same_env_def s'' by simp
  show "bc_view s'' k = (if k = n then e_data e else bc_view s k)" if "k < fs_size s" for k
    using cview_set [OF wf wf' i that] e(1) sec v that unfolding bc_view_def fs by (simp add: s'')
qed

lemma bc_inv_clean:
  "bc_inv {} s \<Longrightarrow> i < MAX_CACHE_SECTORS \<Longrightarrow> e_sector (cache s ! i) = n \<Longrightarrow> n \<noteq> EMPTY_SECTOR \<Longrightarrow>
   (is_dirty (cache s ! i) \<or> e_data (cache s ! i) = fs_sector s n)"
  by (auto simp: bc_inv_def cache_wf_def entry_ok_def)

lemma bc_view_length: "bc_inv {} s \<Longrightarrow> length (bc_view s n) = BLOCK_SECTOR_SIZE"
  unfolding bc_view_def cview_def fs_sector_def
  by (auto simp: bc_inv_def cache_wf_def entry_ok_def dev_okD(5) split: option.splits dest!: bc_find_0)

lemma bc_block_read_ok:
  assumes ok: "bc_ok s" and n: "n < fs_size s" and range: "ofs + cnt \<le> BLOCK_SECTOR_SIZE"
  shows "\<exists>s'. bc_block_read n ofs cnt s = Some (segment (bc_view s n) ofs cnt, s') \<and> bc_ok s' \<and> same_env s s' \<and>
    (\<forall>k < fs_size s. bc_view s' k = bc_view s k)"
proof -
  obtain missed i s1 where g: "bc_get_and_lock_entry n s = Some (missed, i, s1)" "got_entry n s missed i s1"
    using bc_get_and_lock_ok [OF ok n] by blast
  have inv: "bc_inv {} s" using ok by (simp add: bc_ok_def)
  have i: "i < MAX_CACHE_SECTORS" "only_locked i s1" "\<not> cache_lock s1" "e_sector (cache s1 ! i) = n" "fs_size s1 = fs_size s"
    "dev_ok (fs_device s1) (devs s1)"
    using g(2) by (auto simp: got_entry_def same_env_def bc_inv_def split: if_splits)
  note o = only_locked_get [OF i(2,1)]
  obtain d where d: "dev_ok (fs_device s1) d" "dev_size d (fs_device s1) = fs_size s1" "dev_sector d (fs_device s1) = fs_sector s1"
    "missed \<Longrightarrow> fs_read n (s1\<lparr>cache_lock := True\<rparr>) = Some (fs_sector s1 n, s1\<lparr>cache_lock := True, devs := d\<rparr>)" "\<not> missed \<Longrightarrow> d = devs s1"
  proof (cases missed)
    case True
    show thesis
      by (rule fs_read_ok [of "s1\<lparr>cache_lock := True\<rparr>" n]) (use i n True in \<open>auto simp: cache_lock_frame intro: that\<close>)
  next
    case False
    then show thesis using i by (intro that [of "devs s1"]) (simp_all add: fs_size_def fs_sector_def)
  qed
  let ?data = "if missed then fs_sector s1 n else e_data (cache s1 ! i)"
  let ?e = "(cache s1 ! i)\<lparr>e_data := ?data, is_in_second_chance := False, readers := 0, elock := False\<rparr>"
  let ?s' = "s1\<lparr>cache := (cache s1)[i := ?e], devs := d\<rparr>"
  have data: "?data = bc_view s n" using g(2) by (auto simp: got_entry_def)
  have "n \<noteq> EMPTY_SECTOR" using inv n by (rule bc_inv_sector)
  then have clean: "is_dirty ?e \<or> e_data ?e = fs_sector s1 n"
    using bc_inv_clean [of s1 i n] g(2) i by (auto simp: got_entry_def)
  note fin = got_entry_done [OF g(2) n ok refl, of ?e d]
  have "bc_block_read n ofs cnt s = Some (segment ?data ofs cnt, ?s')"
    using g(1) range i(3) o d(4,5)
    by (cases missed)
      (auto simp: bc_block_read_def cache_lock_acquire_def cache_lock_release_def elock_release_def elock_acquire_def
        get_entry_def upd_entry_def)
  moreover have "bc_ok ?s' \<and> same_env s ?s' \<and> (\<forall>k < fs_size s. bc_view ?s' k = bc_view s k)"
    using fin i(4) bc_view_length [OF inv, of n] data clean d(1-3) by auto
  ultimately show ?thesis using data by auto
qed

lemma bc_block_write_from_dirty:
  assumes ok: "bc_ok s" and n: "n < fs_size s" and range: "ofs + length buf \<le> BLOCK_SECTOR_SIZE"
  shows "\<exists>s' i. bc_block_write_from False n buf ofs s = Some s' \<and> bc_ok s' \<and> same_env s s' \<and>
    (\<forall>k < fs_size s. bc_view s' k = (if k = n then overwrite (bc_view s n) ofs buf else bc_view s k)) \<and>
    i < MAX_CACHE_SECTORS \<and> e_sector (cache s' ! i) = n \<and> is_dirty (cache s' ! i)"
proof -
  obtain missed i s1 where g: "bc_get_and_lock_entry n s = Some (missed, i, s1)" "got_entry n s missed i s1"
    using bc_get_and_lock_ok [OF ok n] by blast
  have inv: "bc_inv {} s" using ok by (simp add: bc_ok_def)
  have i: "i < MAX_CACHE_SECTORS" "only_locked i s1" "\<not> cache_lock s1" "e_sector (cache s1 ! i) = n" "fs_size s1 = fs_size s"
    "dev_ok (fs_device s1) (devs s1)"
    using g(2) by (auto simp: got_entry_def same_env_def bc_inv_def split: if_splits)
  note o = only_locked_get [OF i(2,1)]
  let ?partial = "0 < ofs \<or> length buf + ofs < BLOCK_SECTOR_SIZE"
  obtain d where d: "dev_ok (fs_device s1) d" "dev_size d (fs_device s1) = fs_size s1" "dev_sector d (fs_device s1) = fs_sector s1"
    "missed \<and> ?partial \<Longrightarrow> fs_read n s1 = Some (fs_sector s1 n, s1\<lparr>devs := d\<rparr>)" "\<not> (missed \<and> ?partial) \<Longrightarrow> d = devs s1"
  proof (cases "missed \<and> ?partial")
    case True
    show thesis by (rule fs_read_ok [of s1 n]) (use i n True in \<open>auto intro: that\<close>)
  next
    case False
    show thesis by (rule that [of "devs s1"]) (use i False in \<open>auto simp: fs_size_def fs_sector_def\<close>)
  qed
  let ?data = "if missed then (if ?partial then fs_sector s1 n else replicate BLOCK_SECTOR_SIZE 0) else e_data (cache s1 ! i)"
  let ?e = "(cache s1 ! i)\<lparr>e_data := overwrite ?data ofs buf, is_in_second_chance := False, is_dirty := True, elock := False\<rparr>"
  let ?s' = "s1\<lparr>cache := (cache s1)[i := ?e], devs := d\<rparr>"
  have len: "length (bc_view s n) = BLOCK_SECTOR_SIZE" using inv by (rule bc_view_length)
  have data: "overwrite ?data ofs buf = overwrite (bc_view s n) ofs buf"
  proof (cases ?partial)
    case True
    then show ?thesis using g(2) by (auto simp: got_entry_def)
  next
    case False
    then show ?thesis using g(2) len range by (auto simp: got_entry_def overwrite_all)
  qed
  have run: "bc_write_loop False None n ofs (length buf) s =
    Some (Some i, s1\<lparr>cache := (cache s1)[i := (cache s1 ! i)\<lparr>e_data := ?data\<rparr>], devs := d\<rparr>)"
  proof -
    have rep: "(cache s1)[i := (cache s1 ! i)\<lparr>e_data := e_data (cache s1 ! i)\<rparr>] = cache s1" by simp
    have end_loop: "bc_write_loop True (Some i) n ofs (length buf) t = Some (Some i, t)" for t by (subst bc_write_loop.simps) simp
    show ?thesis
      by (subst bc_write_loop.simps, cases missed; cases ?partial)
        (use g(1) o d(4,5) rep end_loop in \<open>auto simp: get_entry_def upd_entry_def\<close>)
  qed
  have comm: "s1\<lparr>devs := d, cache := c\<rparr> = s1\<lparr>cache := c, devs := d\<rparr>" for c by (cases s1) simp
  have comm': "e\<lparr>is_in_second_chance := False, is_dirty := True, e_data := x, elock := False\<rparr> =
      e\<lparr>e_data := x, is_in_second_chance := False, is_dirty := True, elock := False\<rparr>" for x and e :: buffer_cache_entry
    by (cases e) simp
  have "bc_block_write_from False n buf ofs s = Some ?s'"
    using run range o by (simp add: comm comm' bc_block_write_from_def upd_entry_def get_entry_def elock_release_def)
  moreover have "bc_ok ?s' \<and> same_env s ?s' \<and> (\<forall>k < fs_size s. bc_view ?s' k = (if k = n then overwrite (bc_view s n) ofs buf else bc_view s k))"
    using got_entry_done [OF g(2) n ok refl, of ?e d] i(4) len data range o d(1-3) by auto
  ultimately show ?thesis using i o by (intro exI [of _ ?s'] exI [of _ i]) auto
qed

lemma write_calls_frame:
  "bc_ok (s\<lparr>write_calls := k\<rparr>) = bc_ok s" "bc_view (s\<lparr>write_calls := k\<rparr>) = bc_view s" "fs_size (s\<lparr>write_calls := k\<rparr>) = fs_size s"
  "same_env (s\<lparr>write_calls := k\<rparr>) s' = same_env s s'"
  by (simp_all add: bc_ok_def bc_inv_def quiet_def reads_false_def bc_view_def fs_size_def fs_sector_def same_env_def)

lemma bc_block_write_dirty:
  assumes ok: "bc_ok s" and n: "n < fs_size s" and range: "ofs + length buf \<le> BLOCK_SECTOR_SIZE"
  shows "\<exists>s' i. bc_block_write n buf ofs s = Some s' \<and> bc_ok s' \<and> same_env s s' \<and>
    (\<forall>k < fs_size s. bc_view s' k = (if k = n then overwrite (bc_view s n) ofs buf else bc_view s k)) \<and>
    i < MAX_CACHE_SECTORS \<and> e_sector (cache s' ! i) = n \<and> is_dirty (cache s' ! i)"
proof -
  have "bc_block_write n buf ofs s = bc_block_write_from False n buf ofs (s\<lparr>write_calls := write_calls s + 1\<rparr>)"
    using ok by (simp add: bc_block_write_def bc_ok_def reads_false_def)
  then show ?thesis
    using bc_block_write_from_dirty [of "s\<lparr>write_calls := write_calls s + 1\<rparr>" n ofs buf] ok n range
    by (simp only: write_calls_frame simp_thms)
qed

section \<open>Write-back, removal, daemons\<close>

text \<open>One step of the loops that write dirty entries back.\<close>

lemma flush_step:
  assumes ok: "bc_inv {} s" and q: "quiet s" and i: "i < MAX_CACHE_SECTORS" and ne: "e_sector (cache s ! i) \<noteq> EMPTY_SECTOR"
  shows "\<exists>s'. (do { s \<leftarrow> elock_acquire i s; s \<leftarrow> bc_flush i s; elock_release i s }) = Some s' \<and> bc_inv {} s' \<and> quiet s' \<and>
    same_env s s' \<and> cache_lock s' = cache_lock s \<and> (\<forall>k < fs_size s. bc_view s' k = bc_view s k) \<and>
    map e_sector (cache s') = map e_sector (cache s) \<and>
    (\<forall>j < MAX_CACHE_SECTORS. is_dirty (cache s' ! j) = (is_dirty (cache s ! j) \<and> j \<noteq> i))"
proof -
  let ?s1 = "lock_at i s"
  note l = lock_at_ok [OF q i]
  have fr: "fs_device ?s1 = fs_device s" "devs ?s1 = devs s" "cache_lock ?s1 = cache_lock s" "same_env s ?s1" "fs_size ?s1 = fs_size s"
    by (simp_all add: lock_at_def same_env_def fs_size_def)
  note o = only_locked_get [OF l(1) i]
  have len: "length (cache s) = MAX_CACHE_SECTORS" "\<not> elock (cache s ! i)" "readers (cache s ! i) = 0" using q i by (auto simp: quiet_iff)
  have e1: "cache ?s1 ! i = (cache s ! i)\<lparr>elock := True\<rparr>" using len i by (simp add: lock_at_def)
  obtain d s2 where s2: "s2 = ?s1\<lparr>cache := (cache ?s1)[i := (cache ?s1 ! i)\<lparr>is_dirty := False\<rparr>], devs := d\<rparr>"
    "bc_flush i ?s1 = Some s2" "bc_inv {} s2" "fs_size s2 = fs_size ?s1" "\<forall>n < fs_size ?s1. bc_view s2 n = bc_view ?s1 n"
    by (rule bc_flush_ok [of "{}" ?s1 i]) (use ok i ne e1 bc_inv_same [OF l(2) fr(1,2)] in auto)
  have l2: "only_locked i s2" unfolding s2(1) by (rule only_locked_upd [OF l(1)]) (use o in simp_all)
  note o2 = only_locked_get [OF l2 i]
  let ?s' = "s2\<lparr>cache := (cache s2)[i := (cache s2 ! i)\<lparr>elock := False\<rparr>]\<rparr>"
  have same: "same_data (cache s2) (cache ?s')" using o2(5) by (auto intro!: same_data_upd)
  have c': "cache ?s' = (cache s)[i := (cache s ! i)\<lparr>is_dirty := False\<rparr>]"
    using s2(1) len i by (cases "cache s ! i") (simp add: lock_at_def)
  have "(do { s \<leftarrow> elock_acquire i s; s \<leftarrow> bc_flush i s; elock_release i s }) = Some ?s'"
    using len i s2(2) o2 by (simp add: elock_acquire_def elock_release_def get_entry_def upd_entry_def flip: lock_at_def)
  moreover have "bc_inv {} ?s'" using s2(3) bc_inv_same [OF same] by simp
  moreover have "quiet ?s'" using l2 i by (auto simp: quiet_iff only_locked_def nth_list_update)
  moreover have "bc_view ?s' = bc_view s2" by (rule bc_view_same [OF same]) simp_all
  moreover have "bc_view ?s1 = bc_view s" by (rule bc_view_same [OF l(2) fr(1,2)])
  moreover have "same_env s ?s'" "cache_lock ?s' = cache_lock s"
    using fr s2(4) by (auto simp: same_env_def s2(1) fs_size_def)
  moreover have "map e_sector (cache ?s') = map e_sector (cache s)"
    unfolding c' using len(1) i by (simp add: map_update list_update_same_conv)
  moreover have "\<forall>j < MAX_CACHE_SECTORS. is_dirty (cache ?s' ! j) = (is_dirty (cache s ! j) \<and> j \<noteq> i)"
    unfolding c' using len(1) i by (auto simp: nth_list_update)
  ultimately show ?thesis using s2(5) fr(5) by (intro exI [of _ ?s']) simp
qed

lemma flush_skip:
  "quiet s \<Longrightarrow> i < MAX_CACHE_SECTORS \<Longrightarrow> (do { s \<leftarrow> elock_acquire i s; elock_release i s }) = Some s"
  by (auto simp: quiet_iff elock_acquire_def elock_release_def get_entry_def upd_entry_def list_update_same_conv)

lemma bc_flush_from_ok:
  "bc_inv {} s \<Longrightarrow> quiet s \<Longrightarrow> set is \<subseteq> {..<MAX_CACHE_SECTORS} \<Longrightarrow>
   \<exists>s'. bc_flush_from is s = Some s' \<and> bc_inv {} s' \<and> quiet s' \<and> same_env s s' \<and> cache_lock s' = cache_lock s \<and>
     (\<forall>k < fs_size s. bc_view s' k = bc_view s k) \<and> map e_sector (cache s') = map e_sector (cache s) \<and>
     (\<forall>j < MAX_CACHE_SECTORS. is_dirty (cache s' ! j) = (is_dirty (cache s ! j) \<and> (j \<notin> set is \<or> e_sector (cache s ! j) = EMPTY_SECTOR)))"
proof (induction "is" arbitrary: s)
  case Nil
  then show ?case by (auto simp: same_env_def)
next
  case (Cons i "is")
  have i: "i < MAX_CACHE_SECTORS" and is': "set is \<subseteq> {..<MAX_CACHE_SECTORS}" using Cons.prems(3) by auto
  have len: "length (cache s) = MAX_CACHE_SECTORS" using Cons.prems(2) by (simp add: quiet_def)
  let ?fl = "e_sector (cache s ! i) \<noteq> EMPTY_SECTOR \<and> is_dirty (cache s ! i)"
  obtain s1 where s1: "(do { s \<leftarrow> elock_acquire i s; e \<leftarrow> get_entry i s;
        s \<leftarrow> (if e_sector e \<noteq> EMPTY_SECTOR \<and> is_dirty e then bc_flush i s else Some s); elock_release i s }) = Some s1"
    "bc_inv {} s1" "quiet s1" "same_env s s1" "cache_lock s1 = cache_lock s" "\<forall>k < fs_size s. bc_view s1 k = bc_view s k"
    "map e_sector (cache s1) = map e_sector (cache s)"
    "\<forall>j < MAX_CACHE_SECTORS. is_dirty (cache s1 ! j) = (is_dirty (cache s ! j) \<and> (j \<noteq> i \<or> e_sector (cache s ! i) = EMPTY_SECTOR))"
  proof -
    have get: "elock_acquire i s = Some (lock_at i s)" "get_entry i (lock_at i s) = Some ((cache s ! i)\<lparr>elock := True\<rparr>)"
      using quietD [OF Cons.prems(2) i] by (auto simp: elock_acquire_def get_entry_def upd_entry_def lock_at_def)
    show thesis
    proof (cases ?fl)
      case True
      then obtain s1 where "(do { s \<leftarrow> elock_acquire i s; s \<leftarrow> bc_flush i s; elock_release i s }) = Some s1" "bc_inv {} s1" "quiet s1"
        "same_env s s1" "cache_lock s1 = cache_lock s" "\<forall>k < fs_size s. bc_view s1 k = bc_view s k"
        "map e_sector (cache s1) = map e_sector (cache s)"
        "\<forall>j < MAX_CACHE_SECTORS. is_dirty (cache s1 ! j) = (is_dirty (cache s ! j) \<and> j \<noteq> i)"
        using flush_step [OF Cons.prems(1,2) i] by blast
      then show thesis using True get by (intro that [of s1]) auto
    next
      case False
      then show thesis using get Cons.prems(1,2) flush_skip [OF Cons.prems(2) i]
        by (intro that [of s]) (auto simp: same_env_def)
    qed
  qed
  have sec: "e_sector (cache s1 ! j) = e_sector (cache s ! j)" if "j < MAX_CACHE_SECTORS" for j
    using s1(3,7) that len by (metis (no_types, lifting) length_map nth_map)
  have fs: "fs_size s1 = fs_size s" using s1(4) by (simp add: same_env_def)
  from Cons.IH [OF s1(2,3) is'] obtain s' where s': "bc_flush_from is s1 = Some s'" "bc_inv {} s'" "quiet s'" "same_env s1 s'"
    "cache_lock s' = cache_lock s1" "\<forall>k < fs_size s1. bc_view s' k = bc_view s1 k" "map e_sector (cache s') = map e_sector (cache s1)"
    "\<forall>j < MAX_CACHE_SECTORS. is_dirty (cache s' ! j) = (is_dirty (cache s1 ! j) \<and> (j \<notin> set is \<or> e_sector (cache s1 ! j) = EMPTY_SECTOR))"
    by blast
  have "bc_flush_from (i # is) s = Some s'"
    using s1(1) s'(1) by (auto simp: bind_eq_Some_iff split: if_splits)
  moreover have "same_env s s'" using s1(4) s'(4) by (simp add: same_env_def)
  ultimately show ?case using s1 s' sec fs by (intro exI [of _ s']) auto
qed

lemma bc_flush_all_ok:
  assumes "bc_ok s"
  shows "\<exists>s'. bc_flush_all s = Some s' \<and> bc_ok s' \<and> same_env s s' \<and>
    (\<forall>n < fs_size s. bc_view s' n = bc_view s n \<and> fs_sector s' n = bc_view s n)"
proof -
  let ?s0 = "s\<lparr>cache_lock := True\<rparr>"
  have ok: "bc_inv {} ?s0" "quiet ?s0" "\<not> cache_lock s" using assms by (auto simp: bc_ok_def cache_lock_frame)
  obtain s1 where s1: "bc_flush_from [0..<MAX_CACHE_SECTORS] ?s0 = Some s1" "bc_inv {} s1" "quiet s1" "same_env ?s0 s1" "cache_lock s1"
    "\<forall>k < fs_size s. bc_view s1 k = bc_view s k" "map e_sector (cache s1) = map e_sector (cache s)"
    "\<forall>j < MAX_CACHE_SECTORS. is_dirty (cache s1 ! j) = (is_dirty (cache s ! j) \<and> e_sector (cache s ! j) = EMPTY_SECTOR)"
    using bc_flush_from_ok [OF ok(1,2), of "[0..<MAX_CACHE_SECTORS]"] by (auto simp: cache_lock_frame atLeast0LessThan)
  let ?s' = "s1\<lparr>cache_lock := False\<rparr>"
  have "fs_sector s1 n = bc_view s1 n" if n: "n < fs_size s" for n
  proof -
    have wf: "cache_wf {} (cache s1) (fs_size s) (fs_sector s1)"
      using s1(2,4) by (auto simp: bc_inv_def same_env_def cache_lock_frame)
    from wf n show ?thesis
    proof (cases rule: cview_cases)
      case (hit i)
      have ne: "n \<noteq> EMPTY_SECTOR" using wf n by (auto simp: cache_wf_def)
      have "e_sector (cache s ! i) = n" using s1(7) hit(1,2) ok(2) s1(3)
        by (metis (no_types, lifting) bcache.select_convs(1) length_map nth_map quiet_def)
      then have "\<not> is_dirty (cache s1 ! i)" using s1(8) hit(1) ne by simp
      then show ?thesis using bc_inv_clean [OF s1(2) hit(1,2) ne] hit(3) by (simp add: bc_view_def)
    next
      case miss
      then show ?thesis by (simp add: bc_view_def)
    qed
  qed
  then have "\<forall>n < fs_size s. bc_view ?s' n = bc_view s n \<and> fs_sector ?s' n = bc_view s n"
    using s1(6) by (simp add: cache_lock_frame)
  moreover have "bc_flush_all s = Some ?s'" using ok(3) s1(1,5) by (simp add: bc_flush_all_def cache_lock_acquire_def cache_lock_release_def)
  moreover have "bc_ok ?s'" using s1(2,3) same_env_reads [OF s1(4)] assms by (simp add: bc_ok_def cache_lock_frame)
  moreover have "same_env s ?s'" using s1(4) by (simp add: cache_lock_frame)
  ultimately show ?thesis by blast
qed

text \<open>The flush daemon does not test for empty entries: a removed entry that is still dirty stops it.\<close>

lemma bc_daemon_flush_from_stops:
  "bc_inv {} s \<Longrightarrow> quiet s \<Longrightarrow> set is \<subseteq> {..<MAX_CACHE_SECTORS} \<Longrightarrow> j \<in> set is \<Longrightarrow> e_sector (cache s ! j) = EMPTY_SECTOR \<Longrightarrow>
   is_dirty (cache s ! j) \<Longrightarrow> bc_daemon_flush_from is s = None"
proof (induction "is" arbitrary: s)
  case (Cons i "is")
  have i: "i < MAX_CACHE_SECTORS" and j: "j < MAX_CACHE_SECTORS" and is': "set is \<subseteq> {..<MAX_CACHE_SECTORS}" using Cons.prems(3,4) by auto
  have len: "length (cache s) = MAX_CACHE_SECTORS" using Cons.prems(2) by (simp add: quiet_def)
  have get: "elock_acquire i s = Some (lock_at i s)" "get_entry i (lock_at i s) = Some ((cache s ! i)\<lparr>elock := True\<rparr>)"
    using quietD [OF Cons.prems(2) i] by (auto simp: elock_acquire_def get_entry_def upd_entry_def lock_at_def)
  consider "is_dirty (cache s ! i)" "e_sector (cache s ! i) = EMPTY_SECTOR" | "is_dirty (cache s ! i)" "e_sector (cache s ! i) \<noteq> EMPTY_SECTOR"
    | "\<not> is_dirty (cache s ! i)" by blast
  then show ?case
  proof cases
    case 1
    have "fs_size (lock_at i s) \<le> EMPTY_SECTOR" using Cons.prems(1) by (simp add: bc_inv_def cache_wf_def lock_at_def fs_size_def)
    then have "bc_flush i (lock_at i s) = None" using 1 get(2) by (simp add: bc_flush_def fs_write_past_end)
    then show ?thesis using 1 get by simp
  next
    case 2
    obtain s1 where s1: "(do { s \<leftarrow> elock_acquire i s; s \<leftarrow> bc_flush i s; elock_release i s }) = Some s1" "bc_inv {} s1" "quiet s1"
      "map e_sector (cache s1) = map e_sector (cache s)"
      "\<forall>j < MAX_CACHE_SECTORS. is_dirty (cache s1 ! j) = (is_dirty (cache s ! j) \<and> j \<noteq> i)"
      using flush_step [OF Cons.prems(1,2) i 2(2)] by blast
    have "e_sector (cache s1 ! j) = e_sector (cache s ! j)"
      using s1(3,4) j len by (metis (no_types, lifting) length_map nth_map)
    then have "bc_daemon_flush_from is s1 = None" using Cons.prems s1 2 j is' by (intro Cons.IH) auto
    then show ?thesis using 2 get s1(1) by (auto simp: bind_eq_Some_iff)
  next
    case 3
    then have "bc_daemon_flush_from is s = None" using Cons.prems is' by (intro Cons.IH) auto
    then show ?thesis using 3 get flush_skip [OF Cons.prems(2) i] by (auto simp: bind_eq_Some_iff)
  qed
qed simp

lemma bc_daemon_flush_from_eq:
  "bc_inv {} s \<Longrightarrow> quiet s \<Longrightarrow> set is \<subseteq> {..<MAX_CACHE_SECTORS} \<Longrightarrow>
   (\<forall>j < MAX_CACHE_SECTORS. e_sector (cache s ! j) = EMPTY_SECTOR \<longrightarrow> \<not> is_dirty (cache s ! j)) \<Longrightarrow>
   bc_daemon_flush_from is s = bc_flush_from is s"
proof (induction "is" arbitrary: s)
  case (Cons i "is")
  have i: "i < MAX_CACHE_SECTORS" and is': "set is \<subseteq> {..<MAX_CACHE_SECTORS}" using Cons.prems(3) by auto
  have len: "length (cache s) = MAX_CACHE_SECTORS" using Cons.prems(2) by (simp add: quiet_def)
  have get: "elock_acquire i s = Some (lock_at i s)" "get_entry i (lock_at i s) = Some ((cache s ! i)\<lparr>elock := True\<rparr>)"
    using quietD [OF Cons.prems(2) i] by (auto simp: elock_acquire_def get_entry_def upd_entry_def lock_at_def)
  show ?case
  proof (cases "is_dirty (cache s ! i)")
    case True
    then have ne: "e_sector (cache s ! i) \<noteq> EMPTY_SECTOR" using Cons.prems(4) i by blast
    obtain s1 where s1: "(do { s \<leftarrow> elock_acquire i s; s \<leftarrow> bc_flush i s; elock_release i s }) = Some s1" "bc_inv {} s1" "quiet s1"
      "map e_sector (cache s1) = map e_sector (cache s)"
      "\<forall>j < MAX_CACHE_SECTORS. is_dirty (cache s1 ! j) = (is_dirty (cache s ! j) \<and> j \<noteq> i)"
      using flush_step [OF Cons.prems(1,2) i ne] by blast
    have "e_sector (cache s1 ! j) = e_sector (cache s ! j)" if "j < MAX_CACHE_SECTORS" for j
      using s1(3,4) that len by (metis (no_types, lifting) length_map nth_map)
    then have "bc_daemon_flush_from is s1 = bc_flush_from is s1" using Cons.prems s1 is' by (intro Cons.IH) auto
    then show ?thesis using True ne get s1(1) by (auto simp: bind_eq_Some_iff)
  next
    case False
    then show ?thesis using get flush_skip [OF Cons.prems(2) i] Cons.IH [OF Cons.prems(1,2) is' Cons.prems(4)]
      by (auto simp: bind_eq_Some_iff)
  qed
qed simp

text \<open>Removing a sector drops what the cache holds of it, written back or not.\<close>

lemma bc_remove_ok:
  assumes ok: "bc_ok s" and n: "n < fs_size s"
  shows "\<exists>s'. bc_remove n s = Some s' \<and> bc_ok s' \<and> same_env s s' \<and>
    (\<forall>k < fs_size s. bc_view s' k = (if k = n then fs_sector s n else bc_view s k)) \<and> fs_sector s' = fs_sector s \<and>
    (\<forall>i < MAX_CACHE_SECTORS. e_sector (cache s ! i) = n \<longrightarrow> e_sector (cache s' ! i) = EMPTY_SECTOR \<and> is_dirty (cache s' ! i) = is_dirty (cache s ! i))"
proof (cases "bc_find n 0 (cache s)")
  case None
  have cl: "\<not> cache_lock s" and len: "length (cache s) = MAX_CACHE_SECTORS" using ok by (auto simp: bc_ok_def quiet_def)
  then have "bc_remove n s = Some s" using None by (simp add: bc_remove_def cache_lock_acquire_def cache_lock_release_def)
  moreover have "bc_view s n = fs_sector s n" using None by (simp add: bc_view_def cview_def)
  moreover have "\<forall>i < MAX_CACHE_SECTORS. e_sector (cache s ! i) \<noteq> n" using None len by (auto simp: bc_find_None)
  ultimately show ?thesis using ok by (intro exI [of _ s]) (auto simp: same_env_def)
next
  case (Some i)
  have inv: "bc_inv {} s" and q: "quiet s" and cl: "\<not> cache_lock s" using ok by (auto simp: bc_ok_def)
  have i: "i < MAX_CACHE_SECTORS" "e_sector (cache s ! i) = n" "length (cache s) = MAX_CACHE_SECTORS" "\<not> elock (cache s ! i)" "readers (cache s ! i) = 0"
    using bc_find_0 [OF Some] q by (auto simp: quiet_iff)
  have wf: "cache_wf {} (cache s) (fs_size s) (fs_sector s)" using inv by (simp add: bc_inv_def)
  have ne: "n \<noteq> EMPTY_SECTOR" using inv n by (rule bc_inv_sector)
  let ?e = "(cache s ! i)\<lparr>e_sector := EMPTY_SECTOR\<rparr>"
  let ?s' = "s\<lparr>cache := (cache s)[i := ?e]\<rparr>"
  have e_eq: "(cache s ! i)\<lparr>e_sector := EMPTY_SECTOR, elock := False\<rparr> = ?e" using i(4) by (cases "cache s ! i") simp
  have s_eq: "s\<lparr>cache := c, cache_lock := False\<rparr> = s\<lparr>cache := c\<rparr>" for c using cl by (cases s) simp
  have run: "bc_remove n s = Some ?s'"
    using cl i Some by (simp add: bc_remove_def cache_lock_acquire_def cache_lock_release_def elock_acquire_def elock_release_def
        get_entry_def upd_entry_def) (simp only: e_eq s_eq)
  have e: "entry_ok {} (fs_size s) (fs_sector s) i ?e" using wf i by (auto simp: cache_wf_def entry_ok_def)
  have wf': "cache_wf {} ((cache s)[i := ?e]) (fs_size s) (fs_sector s)"
    by (rule cache_wf_set [OF wf i(1) e]) auto
  have fs: "fs_size ?s' = fs_size s" "fs_sector ?s' = fs_sector s" by (simp_all add: fs_size_def fs_sector_def)
  have "bc_inv {} ?s'" using wf' inv unfolding bc_inv_def fs by simp
  moreover have "quiet ?s'" using q i by (auto simp: quiet_iff nth_list_update)
  ultimately have "bc_ok ?s'" using cl ok by (simp add: bc_ok_def)
  moreover have "bc_view ?s' k = (if k = n then fs_sector s n else bc_view s k)" if "k < fs_size s" for k
    using cview_set [OF wf wf' i(1) that] i(2) bc_inv_sector [OF inv that] unfolding bc_view_def fs by simp
  moreover have "j = i" if "j < MAX_CACHE_SECTORS" "e_sector (cache s ! j) = n" for j using wf i(1,2) ne that by (auto simp: cache_wf_def)
  moreover have "same_env s ?s'" using fs by (simp add: same_env_def)
  ultimately show ?thesis using run fs(2) i(1,3) by (intro exI [of _ ?s']) (auto simp: nth_list_update)
qed

text \<open>Reading ahead brings sectors into the cache and changes nothing its users see.\<close>

lemma read_ahead_frame:
  "bc_ok (s\<lparr>read_ahead := r, rh_sema := m\<rparr>) = bc_ok s" "bc_view (s\<lparr>read_ahead := r, rh_sema := m\<rparr>) = bc_view s"
  "fs_size (s\<lparr>read_ahead := r, rh_sema := m\<rparr>) = fs_size s"
  "bc_ok (s\<lparr>read_ahead := r\<rparr>) = bc_ok s" "bc_view (s\<lparr>read_ahead := r\<rparr>) = bc_view s"
  "fs_size (s\<lparr>read_ahead := r\<rparr>) = fs_size s"
  "bc_ok (s\<lparr>rh_sema := m\<rparr>) = bc_ok s" "bc_view (s\<lparr>rh_sema := m\<rparr>) = bc_view s" "fs_size (s\<lparr>rh_sema := m\<rparr>) = fs_size s"
  by (simp_all add: bc_ok_def bc_inv_def quiet_def bc_view_def fs_size_def fs_sector_def)

lemma bc_read_ahead_step:
  assumes ok: "bc_ok s" and n: "n < fs_size s"
  shows "\<exists>s'. bc_read_ahead_one n s = Some s' \<and> bc_ok s' \<and> same_env s s' \<and> (\<forall>k < fs_size s. bc_view s' k = bc_view s k)"
proof -
  obtain missed i s1 where g: "bc_get_and_lock_entry n s = Some (missed, i, s1)" "got_entry n s missed i s1"
    using bc_get_and_lock_ok [OF ok n] by blast
  have inv: "bc_inv {} s" using ok by (simp add: bc_ok_def)
  have i: "i < MAX_CACHE_SECTORS" "only_locked i s1" "\<not> cache_lock s1" "e_sector (cache s1 ! i) = n" "fs_size s1 = fs_size s"
    "dev_ok (fs_device s1) (devs s1)"
    using g(2) by (auto simp: got_entry_def same_env_def bc_inv_def split: if_splits)
  note o = only_locked_get [OF i(2,1)]
  obtain d where d: "dev_ok (fs_device s1) d" "dev_size d (fs_device s1) = fs_size s1" "dev_sector d (fs_device s1) = fs_sector s1"
    "missed \<Longrightarrow> fs_read n (s1\<lparr>cache_lock := True\<rparr>) = Some (fs_sector s1 n, s1\<lparr>cache_lock := True, devs := d\<rparr>)" "\<not> missed \<Longrightarrow> d = devs s1"
  proof (cases missed)
    case True
    show thesis
      by (rule fs_read_ok [of "s1\<lparr>cache_lock := True\<rparr>" n]) (use i n True in \<open>auto simp: cache_lock_frame intro: that\<close>)
  next
    case False
    then show thesis using i by (intro that [of "devs s1"]) (simp_all add: fs_size_def fs_sector_def)
  qed
  let ?data = "if missed then fs_sector s1 n else e_data (cache s1 ! i)"
  let ?e = "(cache s1 ! i)\<lparr>e_data := ?data, is_in_second_chance := False, elock := False\<rparr>"
  let ?s' = "s1\<lparr>cache := (cache s1)[i := ?e], devs := d\<rparr>"
  have data: "?data = bc_view s n" using g(2) by (auto simp: got_entry_def)
  have "n \<noteq> EMPTY_SECTOR" using inv n by (rule bc_inv_sector)
  then have clean: "is_dirty ?e \<or> e_data ?e = fs_sector s1 n"
    using bc_inv_clean [of s1 i n] g(2) i by (auto simp: got_entry_def)
  have "bc_ok ?s' \<and> same_env s ?s' \<and> (\<forall>k < fs_size s. bc_view ?s' k = bc_view s k)"
    using got_entry_done [OF g(2) n ok refl, of ?e d] i(4) bc_view_length [OF inv, of n] data clean d(1-3) o by auto
  moreover have s_eq: "s1\<lparr>devs := d, cache_lock := False, cache := c\<rparr> = s1\<lparr>cache := c, devs := d\<rparr>"
    "s1\<lparr>cache_lock := False, cache := c\<rparr> = s1\<lparr>cache := c, devs := devs s1\<rparr>" for c
    using i(3) by (cases s1, simp)+
  have "bc_read_ahead_one n s = Some ?s'"
    using g(1) i(3) o d(4,5)
    by (cases missed)
      (simp_all add: bc_read_ahead_one_def cache_lock_acquire_def cache_lock_release_def elock_release_def get_entry_def upd_entry_def s_eq)
  ultimately show ?thesis by blast
qed

lemma bc_read_ahead_from_ok:
  "bc_ok s \<Longrightarrow> length (read_ahead s) = MAX_READ_AHEAD \<Longrightarrow> set ks \<subseteq> {..<MAX_READ_AHEAD} \<Longrightarrow>
   (\<forall>n \<in> set (read_ahead s). n < fs_size s \<or> n = EMPTY_SECTOR) \<Longrightarrow>
   \<exists>s'. bc_read_ahead_from ks s = Some s' \<and> bc_ok s' \<and> fs_size s' = fs_size s \<and> (\<forall>k < fs_size s. bc_view s' k = bc_view s k)"
proof (induction ks arbitrary: s)
  case (Cons k ks)
  have k: "k < length (read_ahead s)" and ks: "set ks \<subseteq> {..<MAX_READ_AHEAD}" using Cons.prems(2,3) by auto
  show ?case
  proof (cases "read_ahead s ! k = EMPTY_SECTOR")
    case True
    then show ?thesis using Cons.IH [OF Cons.prems(1,2) ks Cons.prems(4)] k by simp
  next
    case False
    then have n: "read_ahead s ! k < fs_size s" using Cons.prems(4) k by auto
    from bc_read_ahead_step [OF Cons.prems(1) n] obtain s1 where s1: "bc_read_ahead_one (read_ahead s ! k) s = Some s1"
      "bc_ok s1" "same_env s s1" "\<forall>k < fs_size s. bc_view s1 k = bc_view s k" by blast
    let ?s2 = "s1\<lparr>read_ahead := (read_ahead s1)[k := EMPTY_SECTOR]\<rparr>"
    have ra: "read_ahead s1 = read_ahead s" "fs_size s1 = fs_size s" using s1(3) by (simp_all add: same_env_def)
    have "\<forall>n \<in> set (read_ahead ?s2). n < fs_size ?s2 \<or> n = EMPTY_SECTOR"
      using Cons.prems(4) ra by (auto simp: read_ahead_frame dest!: set_update_subset_insert [THEN subsetD])
    then obtain s' where s': "bc_read_ahead_from ks ?s2 = Some s'" "bc_ok s'" "fs_size s' = fs_size s" "\<forall>k < fs_size s. bc_view s' k = bc_view s1 k"
      using Cons.IH [of ?s2] s1(2) Cons.prems(2) ra ks by (auto simp: read_ahead_frame)
    have "bc_read_ahead_from (k # ks) s = bc_read_ahead_from ks ?s2"
      using s1(1) k False by (auto simp: bind_eq_Some_iff)
    then show ?thesis using s' s1(4) by auto
  qed
qed auto

section \<open>The interface of a sector store\<close>

text \<open>
  What the file system relies on: numbered sectors, parts of which can be read and written. A sequence
  of accesses has the results of a plain function from sector numbers to contents.
\<close>

datatype disk_op = Rd nat nat nat | Wr nat "u8 list" nat

fun op_ok :: "nat \<Rightarrow> disk_op \<Rightarrow> bool" where
  "op_ok m (Rd n ofs cnt) = (n < m \<and> ofs + cnt \<le> BLOCK_SECTOR_SIZE)"
| "op_ok m (Wr n buf ofs) = (n < m \<and> ofs + length buf \<le> BLOCK_SECTOR_SIZE)"

fun run_ops :: "(nat \<Rightarrow> nat \<Rightarrow> nat \<Rightarrow> 's \<Rightarrow> (u8 list \<times> 's) option) \<Rightarrow> (nat \<Rightarrow> u8 list \<Rightarrow> nat \<Rightarrow> 's \<Rightarrow> 's option) \<Rightarrow>
    disk_op list \<Rightarrow> 's \<Rightarrow> (u8 list list \<times> 's) option" where
  "run_ops rd wr [] s = Some ([], s)"
| "run_ops rd wr (Rd n ofs cnt # ops) s = do { (x, s) \<leftarrow> rd n ofs cnt s; (xs, s) \<leftarrow> run_ops rd wr ops s; Some (x # xs, s) }"
| "run_ops rd wr (Wr n buf ofs # ops) s = do { s \<leftarrow> wr n buf ofs s; run_ops rd wr ops s }"

fun spec_ops :: "disk_op list \<Rightarrow> (nat \<Rightarrow> sector) \<Rightarrow> u8 list list \<times> (nat \<Rightarrow> sector)" where
  "spec_ops [] f = ([], f)"
| "spec_ops (Rd n ofs cnt # ops) f = (let (xs, g) = spec_ops ops f in (segment (f n) ofs cnt # xs, g))"
| "spec_ops (Wr n buf ofs # ops) f = spec_ops ops (f(n := overwrite (f n) ofs buf))"

lemma spec_ops_agree:
  "\<forall>x \<in> set ops. op_ok m x \<Longrightarrow> \<forall>n < m. f n = g n \<Longrightarrow>
   fst (spec_ops ops f) = fst (spec_ops ops g) \<and> (\<forall>n < m. snd (spec_ops ops f) n = snd (spec_ops ops g) n)"
proof (induction ops arbitrary: f g)
  case (Cons x ops)
  show ?case
  proof (cases x)
    case (Rd n ofs cnt)
    then show ?thesis using Cons.IH [of f g] Cons.prems by (auto simp: case_prod_beta)
  next
    case (Wr n buf ofs)
    have eq: "\<forall>k < m. (f(n := overwrite (f n) ofs buf)) k = (g(n := overwrite (g n) ofs buf)) k"
      using Cons.prems Wr by simp
    have "\<forall>x \<in> set ops. op_ok m x" using Cons.prems(1) by simp
    from Cons.IH [OF this eq] Wr show ?thesis by (simp add: fun_upd_def)
  qed
qed simp

locale sector_store =
  fixes rd :: "nat \<Rightarrow> nat \<Rightarrow> nat \<Rightarrow> 's \<Rightarrow> (u8 list \<times> 's) option"
    and wr :: "nat \<Rightarrow> u8 list \<Rightarrow> nat \<Rightarrow> 's \<Rightarrow> 's option"
    and view :: "'s \<Rightarrow> nat \<Rightarrow> sector"
    and cap :: "'s \<Rightarrow> nat"
    and ok :: "'s \<Rightarrow> bool"
  assumes rd_law: "ok s \<Longrightarrow> n < cap s \<Longrightarrow> ofs + cnt \<le> BLOCK_SECTOR_SIZE \<Longrightarrow>
      \<exists>s'. rd n ofs cnt s = Some (segment (view s n) ofs cnt, s') \<and> ok s' \<and> cap s' = cap s \<and> (\<forall>k < cap s. view s' k = view s k)"
    and wr_law: "ok s \<Longrightarrow> n < cap s \<Longrightarrow> ofs + length buf \<le> BLOCK_SECTOR_SIZE \<Longrightarrow>
      \<exists>s'. wr n buf ofs s = Some s' \<and> ok s' \<and> cap s' = cap s \<and>
        (\<forall>k < cap s. view s' k = (if k = n then overwrite (view s n) ofs buf else view s k))"
    and view_length: "ok s \<Longrightarrow> n < cap s \<Longrightarrow> length (view s n) = BLOCK_SECTOR_SIZE"
begin

lemma rd_wr:
  assumes "ok s" and "n < cap s" and "ofs + length buf \<le> BLOCK_SECTOR_SIZE"
  shows "\<exists>s'. wr n buf ofs s = Some s' \<and> map_option fst (rd n ofs (length buf) s') = Some buf"
proof -
  obtain s' where s': "wr n buf ofs s = Some s'" "ok s'" "cap s' = cap s" "view s' n = overwrite (view s n) ofs buf"
    using wr_law [OF assms] assms(2) by auto
  have "segment (view s' n) ofs (length buf) = buf"
    using s'(4) assms(3) view_length [OF assms(1,2)] by simp
  then show ?thesis using s' rd_law [of s' n ofs "length buf"] assms by auto
qed

lemma run_ops_spec:
  "ok s \<Longrightarrow> \<forall>x \<in> set ops. op_ok (cap s) x \<Longrightarrow>
   \<exists>s'. run_ops rd wr ops s = Some (fst (spec_ops ops (view s)), s') \<and> ok s' \<and> cap s' = cap s \<and>
     (\<forall>k < cap s. view s' k = snd (spec_ops ops (view s)) k)"
proof (induction ops arbitrary: s)
  case (Cons x ops)
  show ?case
  proof (cases x)
    case (Rd n ofs cnt)
    then obtain s1 where s1: "rd n ofs cnt s = Some (segment (view s n) ofs cnt, s1)" "ok s1" "cap s1 = cap s" "\<forall>k < cap s. view s1 k = view s k"
      using rd_law [of s n ofs cnt] Cons.prems by auto
    then show ?thesis using Rd Cons.IH [of s1] Cons.prems spec_ops_agree [of ops "cap s" "view s1" "view s"]
      by (fastforce simp: case_prod_beta)
  next
    case (Wr n buf ofs)
    then obtain s1 where s1: "wr n buf ofs s = Some s1" "ok s1" "cap s1 = cap s"
      "\<forall>k < cap s. view s1 k = (if k = n then overwrite (view s n) ofs buf else view s k)"
      using wr_law [of s n ofs buf] Cons.prems by auto
    then show ?thesis using Wr Cons.IH [of s1] Cons.prems
        spec_ops_agree [of ops "cap s" "view s1" "(view s)(n := overwrite (view s n) ofs buf)"] by fastforce
  qed
qed simp

end

interpretation bc: sector_store bc_block_read bc_block_write bc_view fs_size bc_ok
proof unfold_locales
  fix s :: bcache and n ofs cnt :: nat
  assume "bc_ok s" and "n < fs_size s" and "ofs + cnt \<le> BLOCK_SECTOR_SIZE"
  from bc_block_read_ok [OF this] show "\<exists>s'. bc_block_read n ofs cnt s = Some (segment (bc_view s n) ofs cnt, s') \<and> bc_ok s' \<and>
      fs_size s' = fs_size s \<and> (\<forall>k < fs_size s. bc_view s' k = bc_view s k)" by (auto simp: same_env_def)
next
  fix s :: bcache and n ofs :: nat and buf :: "u8 list"
  assume "bc_ok s" and "n < fs_size s" and "ofs + length buf \<le> BLOCK_SECTOR_SIZE"
  from bc_block_write_dirty [OF this] show "\<exists>s'. bc_block_write n buf ofs s = Some s' \<and> bc_ok s' \<and> fs_size s' = fs_size s \<and>
      (\<forall>k < fs_size s. bc_view s' k = (if k = n then overwrite (bc_view s n) ofs buf else bc_view s k))" by (auto simp: same_env_def)
next
  fix s n assume "bc_ok s"
  then show "length (bc_view s n) = BLOCK_SECTOR_SIZE" by (auto simp: bc_ok_def intro: bc_view_length)
qed

definition direct_ok :: "bcache \<Rightarrow> bool" where
  "direct_ok s \<longleftrightarrow> dev_ok (fs_device s) (devs s) \<and> \<not> cache_lock s"

lemma uncached_read_ok:
  assumes ok: "direct_ok s" and n: "n < fs_size s" and range: "ofs + cnt \<le> BLOCK_SECTOR_SIZE"
  shows "\<exists>s'. uncached_block_read n ofs cnt s = Some (segment (fs_sector s n) ofs cnt, s') \<and> direct_ok s' \<and>
    fs_size s' = fs_size s \<and> (\<forall>k < fs_size s. fs_sector s' k = fs_sector s k)"
proof -
  let ?s = "s\<lparr>cache_lock := True\<rparr>"
  obtain d where d: "fs_read n ?s = Some (fs_sector s n, ?s\<lparr>devs := d\<rparr>)" "dev_ok (fs_device s) d"
    "dev_size d (fs_device s) = fs_size s" "dev_sector d (fs_device s) = fs_sector s"
    by (rule fs_read_ok [of ?s n]) (use ok n in \<open>auto simp: direct_ok_def cache_lock_frame\<close>)
  then show ?thesis using ok range
    by (simp add: uncached_block_read_def cache_lock_acquire_def cache_lock_release_def direct_ok_def fs_size_def fs_sector_def)
qed

lemma uncached_write_ok:
  assumes ok: "direct_ok s" and n: "n < fs_size s" and range: "ofs + length buf \<le> BLOCK_SECTOR_SIZE"
  shows "\<exists>s'. uncached_block_write n buf ofs s = Some s' \<and> direct_ok s' \<and> fs_size s' = fs_size s \<and>
    (\<forall>k < fs_size s. fs_sector s' k = (if k = n then overwrite (fs_sector s n) ofs buf else fs_sector s k))"
proof -
  let ?s = "s\<lparr>cache_lock := True\<rparr>" and ?partial = "0 < ofs \<or> length buf + ofs < BLOCK_SECTOR_SIZE"
  have dev: "dev_ok (fs_device s) (devs s)" and cl: "\<not> cache_lock s" using ok by (auto simp: direct_ok_def)
  have len: "length (fs_sector s n) = BLOCK_SECTOR_SIZE" using dev by (simp add: fs_sector_def dev_okD(5))
  obtain d b where d: "(if ?partial then fs_read n ?s else Some (replicate BLOCK_SECTOR_SIZE 0, ?s)) = Some (b, ?s\<lparr>devs := d\<rparr>)"
    "dev_ok (fs_device s) d" "dev_size d (fs_device s) = fs_size s" "dev_sector d (fs_device s) = fs_sector s"
    "overwrite b ofs buf = overwrite (fs_sector s n) ofs buf"
  proof (cases ?partial)
    case True
    show thesis
      by (rule fs_read_ok [of ?s n]) (use dev n True in \<open>auto simp: cache_lock_frame intro: that\<close>)
  next
    case False
    show thesis
      by (rule that [of "replicate BLOCK_SECTOR_SIZE 0" "devs s"])
        (use False dev range len in \<open>auto simp: fs_size_def fs_sector_def overwrite_all\<close>)
  qed
  let ?s1 = "?s\<lparr>devs := d\<rparr>"
  obtain d' where d': "fs_write n (overwrite (fs_sector s n) ofs buf) ?s1 = Some (?s1\<lparr>devs := d'\<rparr>)" "dev_ok (fs_device s) d'"
    "dev_size d' (fs_device s) = fs_size s" "dev_sector d' (fs_device s) = (fs_sector s)(n := overwrite (fs_sector s n) ofs buf)"
    by (rule fs_write_ok [of ?s1 n "overwrite (fs_sector s n) ofs buf"])
      (use d n range len in \<open>auto simp: fs_size_def fs_sector_def\<close>)
  have "uncached_block_write n buf ofs s = Some (s\<lparr>cache_lock := False, devs := d'\<rparr>)"
    using cl d(1,5) d'(1) by (auto simp: uncached_block_write_def cache_lock_acquire_def cache_lock_release_def)
  then show ?thesis using d' by (auto simp: direct_ok_def fs_size_def fs_sector_def)
qed

interpretation direct: sector_store uncached_block_read uncached_block_write fs_sector fs_size direct_ok
  by unfold_locales (use uncached_read_ok uncached_write_ok in \<open>auto simp: direct_ok_def fs_sector_def dev_okD(5)\<close>)

section \<open>Properties\<close>

lemma bc_init_ok:
  assumes "length (cache s) = MAX_CACHE_SECTORS" and "\<forall>e \<in> set (cache s). length (e_data e) = BLOCK_SECTOR_SIZE"
    and "dev_ok (fs_device s) (devs s)" and "reads_false s"
  shows "bc_ok (bc_init s)" and "\<forall>n < fs_size s. bc_view (bc_init s) n = fs_sector s n" and "fs_size (bc_init s) = fs_size s"
proof -
  let ?s = "bc_init s"
  have fs: "fs_size ?s = fs_size s" "fs_sector ?s = fs_sector s" "fs_device ?s = fs_device s" "devs ?s = devs s"
    by (simp_all add: bc_init_def fs_size_def fs_sector_def)
  have nth: "e_sector (cache ?s ! i) = EMPTY_SECTOR \<and> length (e_data (cache ?s ! i)) = BLOCK_SECTOR_SIZE" if "i < MAX_CACHE_SECTORS" for i
    using assms that by (simp add: bc_init_def)
  have "fs_size s \<le> EMPTY_SECTOR" using dev_okD(2) [OF assms(3)] by (simp add: fs_size_def dev_size_def EMPTY_SECTOR_def SIZE_MAX_def)
  then have "cache_wf {} (cache ?s) (fs_size s) (fs_sector s)"
    using nth assms(1) unfolding cache_wf_def entry_ok_def by (simp add: bc_init_def)
  then show "bc_ok ?s" using assms fs by (auto simp: bc_ok_def bc_inv_def quiet_def) (auto simp: bc_init_def)
  show "\<forall>n < fs_size s. bc_view ?s n = fs_sector s n"
    unfolding bc_view_def fs
    by (intro allI impI cview_miss(2)) (use nth assms(1) \<open>fs_size s \<le> EMPTY_SECTOR\<close> in \<open>auto simp: bc_init_def\<close>)
  show "fs_size ?s = fs_size s" by (rule fs)
qed

text \<open>
  C2: the buffer cache is transparent. Take a cache in a consistent state and an uncached file system
  over a device with the contents the cache presents. Provided that the uninitialised local variable
  \<^verbatim>\<open>is_allowed\<close> of \<^verbatim>\<open>bc_block_write\<close> reads as false at every call (the conjunct \<open>reads_false s\<close> of
  \<open>bc_ok s\<close>; \<open>cache_write_uninitialised_flag\<close> shows that a write stops the kernel otherwise), any
  sequence of reads and writes within the device runs to its end on both (in particular the search for an entry to evict always finds one), the
  reads return the same bytes, both end in a consistent state, and the contents agree again.
\<close>

theorem cache_transparent:
  assumes "bc_ok s" and "direct_ok t" and "fs_size t = fs_size s" and "\<forall>n < fs_size s. fs_sector t n = bc_view s n"
    and "\<forall>x \<in> set ops. op_ok (fs_size s) x"
  shows "\<exists>out s' t'. run_ops bc_block_read bc_block_write ops s = Some (out, s') \<and>
    run_ops uncached_block_read uncached_block_write ops t = Some (out, t') \<and>
    bc_ok s' \<and> direct_ok t' \<and> fs_size s' = fs_size s \<and> (\<forall>n < fs_size s. fs_sector t' n = bc_view s' n)"
proof -
  have ops: "\<forall>x \<in> set ops. op_ok (fs_size t) x" using assms(3,5) by simp
  show ?thesis
    using bc.run_ops_spec [OF assms(1,5)] direct.run_ops_spec [OF assms(2) ops]
      spec_ops_agree [OF assms(5), of "fs_sector t" "bc_view s"] assms(3,4) by auto
qed

text \<open>
  C32: flushing makes the contents durable. Provided that the uninitialised local variable \<^verbatim>\<open>is_allowed\<close> of
  \<^verbatim>\<open>bc_block_write\<close> reads as false at every call (the conjunct \<open>reads_false s\<close> of \<open>bc_ok s\<close>), any sequence
  of reads and writes through a consistent cache runs to its end, and after it \<^verbatim>\<open>bc_flush_all\<close> succeeds and the device itself then holds, in every sector, what the sequence wrote.
\<close>

theorem cache_flush_durable:
  assumes "bc_ok s" and "\<forall>x \<in> set ops. op_ok (fs_size s) x"
  shows "\<exists>out s1 s2. run_ops bc_block_read bc_block_write ops s = Some (out, s1) \<and> bc_flush_all s1 = Some s2 \<and> bc_ok s2 \<and>
    (\<forall>n < fs_size s. fs_sector s2 n = snd (spec_ops ops (bc_view s)) n)"
proof -
  obtain s1 where s1: "run_ops bc_block_read bc_block_write ops s = Some (fst (spec_ops ops (bc_view s)), s1)" "bc_ok s1"
    "fs_size s1 = fs_size s" "\<forall>k < fs_size s. bc_view s1 k = snd (spec_ops ops (bc_view s)) k"
    using bc.run_ops_spec [OF assms] by blast
  then show ?thesis using bc_flush_all_ok [OF s1(2)] by auto
qed

text \<open>
  a sector that is written and then removed from the cache stops the kernel at the next round of the
  flush daemon: \<^verbatim>\<open>bc_remove\<close> empties the entry but leaves it dirty, and the daemon writes it back to
  the sector number that marks empty entries, which lies past the end of every device.
\<close>

theorem cache_remove_then_flush_daemon_panics:
  assumes "bc_ok s" and "n < fs_size s" and "ofs + length buf \<le> BLOCK_SECTOR_SIZE"
  shows "\<exists>s1 s2. bc_block_write n buf ofs s = Some s1 \<and> bc_remove n s1 = Some s2 \<and> bc_ok s2 \<and> bc_daemon_flush s2 = None"
proof -
  obtain s1 i where s1: "bc_block_write n buf ofs s = Some s1" "bc_ok s1" "same_env s s1" "i < MAX_CACHE_SECTORS"
    "e_sector (cache s1 ! i) = n" "is_dirty (cache s1 ! i)"
    using bc_block_write_dirty [OF assms] by blast
  have "n < fs_size s1" using s1(3) assms(2) by (simp add: same_env_def)
  then obtain s2 where s2: "bc_remove n s1 = Some s2" "bc_ok s2" "e_sector (cache s2 ! i) = EMPTY_SECTOR" "is_dirty (cache s2 ! i)"
    using bc_remove_ok [OF s1(2), of n] s1(4-6) by blast
  let ?s = "s2\<lparr>cache_lock := True\<rparr>"
  have "bc_daemon_flush_from [0..<MAX_CACHE_SECTORS] ?s = None"
    by (rule bc_daemon_flush_from_stops [of _ _ i]) (use s2 s1(4) in \<open>auto simp: bc_ok_def cache_lock_frame\<close>)
  then have "bc_daemon_flush s2 = None" using s2(2) by (simp add: bc_daemon_flush_def cache_lock_acquire_def bc_ok_def)
  then show ?thesis using s1(1) s2(1,2) by blast
qed

text \<open>
  as long as no removed entry is dirty, a round of the flush daemon does what \<^verbatim>\<open>bc_flush_all\<close> does:
  it leaves the contents unchanged and the device up to date.
\<close>

theorem cache_flush_daemon_ok:
  assumes "bc_ok s" and "\<forall>e \<in> set (cache s). e_sector e = EMPTY_SECTOR \<longrightarrow> \<not> is_dirty e"
  shows "\<exists>s'. bc_daemon_flush s = Some s' \<and> bc_ok s' \<and> (\<forall>n < fs_size s. bc_view s' n = bc_view s n \<and> fs_sector s' n = bc_view s n)"
proof -
  let ?s = "s\<lparr>cache_lock := True\<rparr>"
  have "bc_daemon_flush_from [0..<MAX_CACHE_SECTORS] ?s = bc_flush_from [0..<MAX_CACHE_SECTORS] ?s"
    by (rule bc_daemon_flush_from_eq) (use assms in \<open>auto simp: bc_ok_def cache_lock_frame quiet_def\<close>)
  then have "bc_daemon_flush s = bc_flush_all s"
    using assms(1) by (simp add: bc_daemon_flush_def bc_flush_all_def cache_lock_acquire_def bc_ok_def)
  then show ?thesis using bc_flush_all_ok [OF assms(1)] by auto
qed

text \<open>
  reading ahead is invisible. One round of the read-ahead daemon over requests for sectors of the
  device ends in a consistent state with the same contents.
\<close>

theorem cache_read_ahead_invisible:
  assumes "bc_ok s" and "length (read_ahead s) = MAX_READ_AHEAD" and "\<forall>n \<in> set (read_ahead s). n < fs_size s \<or> n = EMPTY_SECTOR"
  shows "\<exists>s'. bc_daemon_read_ahead s = Some s' \<and> bc_ok s' \<and> (\<forall>k < fs_size s. bc_view s' k = bc_view s k)"
  using bc_read_ahead_from_ok [of "s\<lparr>rh_sema := rh_sema s - 1\<rparr>" "[0..<MAX_READ_AHEAD]"] assms
  by (cases "rh_sema s = 0") (auto simp: bc_daemon_read_ahead_def read_ahead_frame atLeast0LessThan)

text \<open>
  \<^verbatim>\<open>bc_block_write\<close> tests its local variable \<^verbatim>\<open>is_allowed\<close> before assigning it: when the stack happens to
  hold a non-zero value there, the entry is never looked up and the write through the null pointer
  stops the kernel, for every sector, buffer and state.
\<close>

theorem cache_write_uninitialised_flag:
  "uninit s (write_calls s) \<Longrightarrow> bc_block_write n buf ofs s = None"
  by (simp add: bc_block_write_def bc_block_write_from_def) (subst bc_write_loop.simps, simp)

section \<open>A concrete cache\<close>

definition demo_cache :: bcache where
  "demo_cache = bc_init \<lparr>cache = replicate MAX_CACHE_SECTORS \<lparr>e_sector = 0, e_data = replicate BLOCK_SECTOR_SIZE 0,
       is_in_second_chance = False, is_dirty = False, readers = 0, elock = False\<rparr>,
     cache_lock = False, read_ahead = replicate MAX_READ_AHEAD 0, rh_sema = 0, daemon_started = False, fs_device = 1,
     devs = two_partitions, uninit = (\<lambda>_. False), write_calls = 0\<rparr>"

lemma demo_cache_ok:
  "bc_ok demo_cache" "fs_size demo_cache = 40" "\<forall>n < 40. fs_sector demo_cache n = bc_view demo_cache n" "direct_ok demo_cache"
proof -
  let ?s = "\<lparr>cache = replicate MAX_CACHE_SECTORS \<lparr>e_sector = 0, e_data = replicate BLOCK_SECTOR_SIZE 0,
       is_in_second_chance = False, is_dirty = False, readers = 0, elock = False\<rparr>,
     cache_lock = False, read_ahead = replicate MAX_READ_AHEAD 0, rh_sema = 0, daemon_started = False, fs_device = 1,
     devs = two_partitions, uninit = (\<lambda>_. False), write_calls = 0\<rparr>"
  have pre: "length (cache ?s) = MAX_CACHE_SECTORS" "\<forall>e \<in> set (cache ?s). length (e_data e) = BLOCK_SECTOR_SIZE"
    "dev_ok (fs_device ?s) (devs ?s)" "reads_false ?s" "fs_size ?s = 40"
    using two_partitions_ok by (auto simp: fs_size_def reads_false_def)
  have fs: "fs_sector (bc_init ?s) = fs_sector ?s" by (simp add: bc_init_def fs_sector_def)
  show "bc_ok demo_cache" "fs_size demo_cache = 40" "\<forall>n < 40. fs_sector demo_cache n = bc_view demo_cache n"
    using bc_init_ok [OF pre(1-4)] pre(5) fs by (simp_all add: demo_cache_def)
  show "direct_ok demo_cache" using two_partitions_ok by (simp add: demo_cache_def bc_init_def direct_ok_def)
qed

theorem cache_transparent_witness:
  "\<exists>out s' t'. run_ops bc_block_read bc_block_write [Wr 3 [1, 2] 510, Rd 3 0 512] demo_cache = Some (out, s') \<and>
     run_ops uncached_block_read uncached_block_write [Wr 3 [1, 2] 510, Rd 3 0 512] demo_cache = Some (out, t')"
  using cache_transparent [of demo_cache demo_cache "[Wr 3 [1, 2] 510, Rd 3 0 512]"] demo_cache_ok
  by (auto simp: BLOCK_SECTOR_SIZE_def)

theorem cache_flush_durable_witness:
  "\<exists>out s1 s2. run_ops bc_block_read bc_block_write [Wr 3 [1, 2] 510] demo_cache = Some (out, s1) \<and> bc_flush_all s1 = Some s2 \<and>
     fs_sector s2 3 = overwrite (bc_view demo_cache 3) 510 [1, 2]"
  using cache_flush_durable [of demo_cache "[Wr 3 [1, 2] 510]"] demo_cache_ok
  by (auto simp: BLOCK_SECTOR_SIZE_def)

theorem cache_remove_panics_witness:
  "\<exists>s1 s2. bc_block_write 3 [1] 0 demo_cache = Some s1 \<and> bc_remove 3 s1 = Some s2 \<and> bc_daemon_flush s2 = None"
  using cache_remove_then_flush_daemon_panics [of demo_cache 3 0 "[1]"] demo_cache_ok
  by (auto simp: BLOCK_SECTOR_SIZE_def)

theorem cache_flush_daemon_witness: "\<exists>s'. bc_daemon_flush demo_cache = Some s' \<and> bc_ok s'"
proof -
  have "\<forall>e \<in> set (cache demo_cache). e_sector e = EMPTY_SECTOR \<longrightarrow> \<not> is_dirty e" by (simp add: demo_cache_def bc_init_def)
  from cache_flush_daemon_ok [OF demo_cache_ok(1) this] show ?thesis by blast
qed

theorem cache_read_ahead_witness: "\<exists>s'. bc_daemon_read_ahead (demo_cache\<lparr>rh_sema := 1\<rparr>) = Some s' \<and> bc_ok s'"
proof -
  have "read_ahead demo_cache = replicate MAX_READ_AHEAD 0" by (simp add: demo_cache_def bc_init_def)
  then show ?thesis
    using cache_read_ahead_invisible [of "demo_cache\<lparr>rh_sema := 1\<rparr>"] demo_cache_ok(1,2) by (auto simp: read_ahead_frame)
qed

end
