(* ===== verification/Fs_Base.thy ===== *)
theory Fs_Base
  imports Bitmap Cache "HOL-Library.Signed_Division"
begin

text \<open>
  The state of the file system, shared by the free map, inodes, files and directories
  (\<^verbatim>\<open>filesys/\<close>), and the free map itself, \<^verbatim>\<open>filesys/free-map.c\<close>. Inodes, files and directories in
  memory are named by their address; memory allocation is assumed to succeed and returns a fresh
  address. The locks of the structures are flags, as in the buffer cache. Offsets and lengths
  (\<^verbatim>\<open>off_t\<close>) are integers; the sums the code forms are assumed to stay below \<open>2 ^ 31\<close>.
\<close>

section \<open>Inodes on disk\<close>

definition INODE_MAGIC :: nat where "INODE_MAGIC = 0x494e4f44"
definition DIRECT_BLOCKS :: nat where "DIRECT_BLOCKS = 11"
definition INDIRECT_BLOCKS :: nat where "INDIRECT_BLOCKS = 65"
definition D_INDIRECT_BLOCKS :: nat where "D_INDIRECT_BLOCKS = 3"
definition METADATA_BLOCKS :: nat where
  "METADATA_BLOCKS = 1 + INDIRECT_BLOCKS + D_INDIRECT_BLOCKS * D_INDIRECT_BLOCKS"
definition INDEX_MAIN_ENTRIES :: nat where
  "INDEX_MAIN_ENTRIES = DIRECT_BLOCKS + INDIRECT_BLOCKS + D_INDIRECT_BLOCKS"
definition INDEX_BLOCK_ENTRIES :: nat where "INDEX_BLOCK_ENTRIES = 64"
definition UNUSED_SIZE :: nat where "UNUSED_SIZE = 123 - INDEX_MAIN_ENTRIES"
definition SECTOR_ERROR :: nat where "SECTOR_ERROR = 6666666"
definition INODE_ACCESS_DIRECT :: nat where "INODE_ACCESS_DIRECT = DIRECT_BLOCKS - 1"
definition INODE_ACCESS_INDIRECT :: nat where
  "INODE_ACCESS_INDIRECT = INODE_ACCESS_DIRECT + INDIRECT_BLOCKS * INDEX_BLOCK_ENTRIES"
definition INODE_ACCESS_MAX :: nat where
  "INODE_ACCESS_MAX = INODE_ACCESS_INDIRECT + D_INDIRECT_BLOCKS * INDEX_BLOCK_ENTRIES * INDEX_BLOCK_ENTRIES - METADATA_BLOCKS"

lemmas inode_constants = DIRECT_BLOCKS_def INDIRECT_BLOCKS_def D_INDIRECT_BLOCKS_def METADATA_BLOCKS_def INDEX_MAIN_ENTRIES_def
  INDEX_BLOCK_ENTRIES_def UNUSED_SIZE_def INODE_ACCESS_DIRECT_def INODE_ACCESS_INDIRECT_def INODE_ACCESS_MAX_def

text \<open>The union of the two index tables has the 79 entries of the longer one.\<close>

record inode_disk =
  d_start :: nat
  d_parent :: nat
  d_length :: int
  d_index :: "nat list"
  d_is_index_block :: nat
  d_magic :: nat
  d_unused :: "nat list"

definition u32_bytes :: "nat \<Rightarrow> u8 list" where
  "u32_bytes n = [of_nat n, of_nat (n div 256), of_nat (n div 65536), of_nat (n div 16777216)]"

definition off_bits :: "int \<Rightarrow> nat" where
  "off_bits i = nat (i mod 2 ^ 32)"

definition bits_off :: "nat \<Rightarrow> int" where
  "bits_off n = (if n < 2 ^ 31 then int n else int n - 2 ^ 32)"

definition disk_words :: "inode_disk \<Rightarrow> nat list" where
  "disk_words d = [d_start d, d_parent d, off_bits (d_length d)] @ d_index d @ [d_is_index_block d, d_magic d] @ d_unused d"

definition disk_bytes :: "inode_disk \<Rightarrow> u8 list" where
  "disk_bytes d = concat (map u32_bytes (disk_words d))"

fun words_of_bytes :: "u8 list \<Rightarrow> nat list" where
  "words_of_bytes (b0 # b1 # b2 # b3 # bs) =
     (unat b0 + 256 * unat b1 + 65536 * unat b2 + 16777216 * unat b3) # words_of_bytes bs"
| "words_of_bytes bs = []"

definition disk_of_words :: "nat list \<Rightarrow> inode_disk" where
  "disk_of_words ws = \<lparr>d_start = ws ! 0, d_parent = ws ! 1, d_length = bits_off (ws ! 2),
     d_index = take INDEX_MAIN_ENTRIES (drop 3 ws), d_is_index_block = ws ! (3 + INDEX_MAIN_ENTRIES),
     d_magic = ws ! (4 + INDEX_MAIN_ENTRIES), d_unused = drop (5 + INDEX_MAIN_ENTRIES) ws\<rparr>"

definition disk_of_bytes :: "u8 list \<Rightarrow> inode_disk" where
  "disk_of_bytes bs = disk_of_words (words_of_bytes bs)"

section \<open>Structures in memory\<close>

record inode =
  i_sector :: nat
  open_cnt :: int
  open_fd_cnt :: int
  cwd_cnt :: int
  removed :: bool
  deny_write_cnt :: int
  i_data :: "inode_disk option"
  inode_lock :: bool
  inode_growth :: bool
  access_count :: int
  logical_length :: int

record kfile =
  f_inode :: nat
  f_pos :: int
  f_deny_write :: bool
  f_memory_mapped :: bool

record dir =
  dr_inode :: nat
  dr_lock :: bool
  dr_pos :: int

type_synonym addr = nat

abbreviation (input) NULL :: addr where
  "NULL \<equiv> 0"

record fsys =
  bc :: bcache
  free_map :: bitmap
  free_map_file :: addr
  inodes :: "addr \<rightharpoonup> inode"
  open_inodes :: "addr list"
  files :: "addr \<rightharpoonup> kfile"
  dirs :: "addr \<rightharpoonup> dir"
  next_addr :: addr

definition upd_inode :: "addr \<Rightarrow> (inode \<Rightarrow> inode) \<Rightarrow> fsys \<Rightarrow> fsys option" where
  "upd_inode p f s = do { i \<leftarrow> inodes s p; Some (s\<lparr>inodes := (inodes s)(p \<mapsto> f i)\<rparr>) }"

text \<open>Access to the sectors of the device through the buffer cache.\<close>

definition fs_block_read :: "nat \<Rightarrow> nat \<Rightarrow> nat \<Rightarrow> fsys \<Rightarrow> (u8 list \<times> fsys) option" where
  "fs_block_read sector ofs cnt s = do { (x, b) \<leftarrow> bc_block_read sector ofs cnt (bc s); Some (x, s\<lparr>bc := b\<rparr>) }"

definition fs_block_write :: "nat \<Rightarrow> u8 list \<Rightarrow> nat \<Rightarrow> fsys \<Rightarrow> fsys option" where
  "fs_block_write sector buf ofs s = do { b \<leftarrow> bc_block_write sector buf ofs (bc s); Some (s\<lparr>bc := b\<rparr>) }"

section \<open>The free map\<close>

definition FREE_MAP_SECTOR :: nat where "FREE_MAP_SECTOR = 0"
definition ROOT_DIR_SECTOR :: nat where "ROOT_DIR_SECTOR = 1"

text \<open>
  Changing the free map writes it to its file. That write is a parameter \<open>fmw\<close> here, because it goes
  through \<^verbatim>\<open>inode_write_at\<close>, which is defined further on and itself allocates sectors; the theory
  \<open>File\<close> ties the knot. The result of an allocation is the sector, or \<open>None\<close> for \<^verbatim>\<open>false\<close>.
\<close>

type_synonym fm_writer = "fsys \<Rightarrow> (bool \<times> fsys) option"

definition free_map_allocate :: "fm_writer \<Rightarrow> nat \<Rightarrow> fsys \<Rightarrow> (nat option \<times> fsys) option" where
  "free_map_allocate fmw cnt s = do {
     (sector, fm) \<leftarrow> bitmap_scan_and_flip (free_map s) 0 cnt False;
     let s = s\<lparr>free_map := fm\<rparr>;
     if sector \<noteq> BITMAP_ERROR \<and> free_map_file s \<noteq> NULL then do {
       (written, s) \<leftarrow> fmw s;
       if written then Some (Some sector, s)
       else do {
         fm \<leftarrow> bitmap_set_multiple (free_map s) sector cnt False;
         Some (None, s\<lparr>free_map := fm\<rparr>) } }
     else Some (if sector \<noteq> BITMAP_ERROR then Some sector else None, s) }"

fun bc_remove_run :: "nat \<Rightarrow> nat \<Rightarrow> fsys \<Rightarrow> fsys option" where
  "bc_remove_run sector 0 s = Some s"
| "bc_remove_run sector (Suc cnt) s = do {
     b \<leftarrow> bc_remove sector (bc s);
     bc_remove_run (sz (sector + 1)) cnt (s\<lparr>bc := b\<rparr>) }"

definition free_map_release :: "fm_writer \<Rightarrow> nat \<Rightarrow> nat \<Rightarrow> fsys \<Rightarrow> fsys option" where
  "free_map_release fmw sector cnt s = do {
     all_used \<leftarrow> bitmap_all (free_map s) sector cnt;
     ASSERT all_used;
     fm \<leftarrow> bitmap_set_multiple (free_map s) sector cnt False;
     (_, s) \<leftarrow> fmw (s\<lparr>free_map := fm\<rparr>);
     bc_remove_run sector cnt s }"

text \<open>\<open>bitmap_create\<close> gets memory for the header and \<open>mem\<close> for the bits.\<close>

definition free_map_init :: "u32 list option \<Rightarrow> fsys \<Rightarrow> fsys option" where
  "free_map_init mem s = do {
     n \<leftarrow> block_size (fs_device (bc s)) (devs (bc s));
     fm \<leftarrow> bitmap_create True mem n;
     b \<leftarrow> fm;
     b \<leftarrow> bitmap_mark b FREE_MAP_SECTOR;
     b \<leftarrow> bitmap_mark b ROOT_DIR_SECTOR;
     Some (s\<lparr>free_map := b\<rparr>) }"

section \<open>The encoding of inodes\<close>

definition disk_ok :: "inode_disk \<Rightarrow> bool" where
  "disk_ok d \<longleftrightarrow> length (d_index d) = INDEX_MAIN_ENTRIES \<and> length (d_unused d) = UNUSED_SIZE \<and>
     (\<forall>w \<in> set ([d_start d, d_parent d] @ d_index d @ [d_is_index_block d, d_magic d] @ d_unused d). w < 2 ^ 32) \<and>
     - (2 ^ 31) \<le> d_length d \<and> d_length d < 2 ^ 31"

lemma u32_bytes_words:
  assumes "n < 2 ^ 32"
  shows "words_of_bytes (u32_bytes n @ bs) = n # words_of_bytes bs"
proof -
  have d: "n div 65536 = n div 256 div 256" "n div 16777216 = n div 256 div 256 div 256"
    by (simp_all add: div_mult2_eq [symmetric])
  have top: "n div 256 div 256 div 256 mod 256 = n div 256 div 256 div 256"
    using assms by (simp add: div_mult2_eq [symmetric] less_mult_imp_div_less)
  have s: "x mod 256 + 256 * (x div 256) = x" for x :: nat by simp
  have "n mod 256 + 256 * (n div 256 mod 256) + 65536 * (n div 65536 mod 256) + 16777216 * (n div 16777216) = n"
    using s [of n] s [of "n div 256"] s [of "n div 256 div 256"] unfolding d by linarith
  moreover have "n div 16777216 mod 256 = n div 16777216" using top unfolding d .
  ultimately show ?thesis by (simp add: u32_bytes_def unat_of_nat)
qed

lemma words_of_bytes_concat: "\<forall>w \<in> set ws. w < 2 ^ 32 \<Longrightarrow> words_of_bytes (concat (map u32_bytes ws)) = ws"
  by (induction ws) (simp_all add: u32_bytes_words)

lemma off_roundtrip:
  assumes "- (2 ^ 31) \<le> i" and "i < 2 ^ 31"
  shows "bits_off (off_bits i) = i"
proof (cases "0 \<le> i")
  case True
  then show ?thesis using assms by (simp add: bits_off_def off_bits_def nat_less_iff)
next
  case False
  have "i mod 2 ^ 32 = (i + 2 ^ 32) mod 2 ^ 32" by simp
  also have "\<dots> = i + 2 ^ 32" using assms False by (intro mod_pos_pos_trivial) auto
  finally show ?thesis using assms False by (simp add: bits_off_def off_bits_def nat_less_iff)
qed

lemma off_bits_less: "off_bits i < 2 ^ 32"
  by (simp add: off_bits_def nat_less_iff)

lemma disk_of_words_inverse:
  assumes "length (d_index d) = INDEX_MAIN_ENTRIES" and "bits_off (off_bits (d_length d)) = d_length d"
  shows "disk_of_words (disk_words d) = d"
proof -
  have "drop (5 + INDEX_MAIN_ENTRIES) (disk_words d) = d_unused d"
    using assms by (simp add: disk_words_def numeral_eq_Suc)
  moreover have "disk_words d ! (4 + INDEX_MAIN_ENTRIES) = d_magic d"
    using assms by (simp add: disk_words_def nth_append numeral_eq_Suc)
  ultimately show ?thesis
    using assms by (cases d) (simp add: disk_of_words_def, simp add: disk_words_def nth_append)
qed

lemma disk_roundtrip: "disk_ok d \<Longrightarrow> disk_of_bytes (disk_bytes d) = d"
proof -
  assume d: "disk_ok d"
  have "\<forall>w \<in> set (disk_words d). w < 2 ^ 32" using d off_bits_less by (auto simp: disk_ok_def disk_words_def)
  then show ?thesis using d
    by (simp add: disk_of_bytes_def disk_bytes_def words_of_bytes_concat disk_of_words_inverse disk_ok_def off_roundtrip)
qed

lemma length_disk_bytes: "disk_ok d \<Longrightarrow> length (disk_bytes d) = BLOCK_SECTOR_SIZE"
proof -
  assume d: "disk_ok d"
  have "length (concat (map u32_bytes ws)) = 4 * length ws" for ws by (induction ws) (auto simp: u32_bytes_def)
  then show ?thesis using d
    by (simp only: disk_bytes_def) (simp add: disk_words_def disk_ok_def inode_constants BLOCK_SECTOR_SIZE_def)
qed

lemma u8_less: "unat (b :: u8) < 256"
  by (rule order_less_le_trans [OF unsigned_less]) simp

lemma u32_bytes_of_parts:
  "u32_bytes (unat (b0 :: u8) + 256 * unat (b1 :: u8) + 65536 * unat (b2 :: u8) + 16777216 * unat (b3 :: u8)) = [b0, b1, b2, b3]"
proof -
  let ?n = "unat b0 + 256 * unat b1 + 65536 * unat b2 + 16777216 * unat b3"
  have lt: "unat b0 < 256" "unat b1 < 256" "unat b2 < 256" "unat b3 < 256" by (rule u8_less)+
  have d1: "?n div 256 = unat b1 + 256 * unat b2 + 65536 * unat b3" using lt by simp
  have d2: "?n div 65536 = unat b2 + 256 * unat b3"
  proof -
    have "?n div 65536 = ?n div 256 div 256" by (simp add: div_mult2_eq [symmetric])
    then show ?thesis using lt unfolding d1 by simp
  qed
  have d3: "?n div 16777216 = unat b3"
  proof -
    have "?n div 16777216 = ?n div 65536 div 256" by (simp add: div_mult2_eq [symmetric])
    then show ?thesis using lt unfolding d2 by simp
  qed
  have w: "(256 :: u8) = 0" "(65536 :: u8) = 0" "(16777216 :: u8) = 0" by simp_all
  show ?thesis unfolding u32_bytes_def d1 d2 d3 by (simp add: w)
qed

lemma bytes_of_words_of_bytes:
  "4 dvd length bs \<Longrightarrow> concat (map u32_bytes (words_of_bytes bs)) = bs"
proof (induction bs rule: words_of_bytes.induct)
  case (1 b0 b1 b2 b3 bs)
  then have "4 dvd length bs" by (simp add: dvd_def) presburger
  then show ?case using 1 by (simp add: u32_bytes_of_parts)
qed (auto dest: dvd_imp_le)

lemma length_words_of_bytes: "length (words_of_bytes bs) = length bs div 4"
  by (induction bs rule: words_of_bytes.induct) simp_all

lemma word_parts_less:
  "unat (b0 :: u8) + 256 * unat (b1 :: u8) + 65536 * unat (b2 :: u8) + 16777216 * unat (b3 :: u8) < 2 ^ 32"
proof -
  have "unat b0 < 256" "unat b1 < 256" "unat b2 < 256" "unat b3 < 256" by (rule u8_less)+
  then show ?thesis by simp
qed

lemma words_of_bytes_less: "w \<in> set (words_of_bytes bs) \<Longrightarrow> w < 2 ^ 32"
  by (induction bs rule: words_of_bytes.induct) (use word_parts_less in \<open>auto simp del: power_numeral\<close>)

lemma bits_roundtrip: "w < 2 ^ 32 \<Longrightarrow> off_bits (bits_off w) = w"
proof (cases "w < 2 ^ 31")
  case False
  assume w: "w < 2 ^ 32"
  have "(int w - 2 ^ 32) mod 2 ^ 32 = int w mod 2 ^ 32" by simp
  also have "\<dots> = int w" using w by simp
  finally show ?thesis using False by (simp add: off_bits_def bits_off_def)
qed (simp add: off_bits_def bits_off_def)

lemma disk_words_inverse:
  assumes "length ws = 128" and "\<forall>w \<in> set ws. w < 2 ^ 32"
  shows "disk_words (disk_of_words ws) = ws"
proof (rule nth_eq_iff)
  have w2: "off_bits (bits_off (ws ! 2)) = ws ! 2" using assms by (intro bits_roundtrip) auto
  have c: "INDEX_MAIN_ENTRIES = 79" by (simp add: inode_constants)
  show "length (disk_words (disk_of_words ws)) = length ws" using assms(1) c by (simp add: disk_words_def disk_of_words_def)
  fix i assume "i < length (disk_words (disk_of_words ws))"
  then have i: "i < 128" using assms(1) c by (simp add: disk_words_def disk_of_words_def)
  then consider "i = 0" | "i = 1" | "i = 2" | "3 \<le> i" "i < 82" | "i = 82" | "i = 83" | "84 \<le> i" by linarith
  then show "disk_words (disk_of_words ws) ! i = ws ! i"
    using assms(1) i w2 unfolding disk_words_def disk_of_words_def c by cases (auto simp: nth_append nth_Cons' numeral_2_eq_2)
qed

lemma disk_bytes_inverse:
  assumes "length bs = BLOCK_SECTOR_SIZE"
  shows "disk_bytes (disk_of_bytes bs) = bs"
  using assms disk_words_inverse [of "words_of_bytes bs"] words_of_bytes_less [of _ bs]
  by (simp add: disk_bytes_def disk_of_bytes_def length_words_of_bytes BLOCK_SECTOR_SIZE_def bytes_of_words_of_bytes)

lemma length_d_index: "length bs = BLOCK_SECTOR_SIZE \<Longrightarrow> length (d_index (disk_of_bytes bs)) = INDEX_MAIN_ENTRIES"
  by (simp add: disk_of_bytes_def disk_of_words_def length_words_of_bytes BLOCK_SECTOR_SIZE_def inode_constants)

end
