(* ===== verification/Inode.thy ===== *)
theory Inode
  imports Fs_Base
begin

text \<open>
  Inodes, \<^verbatim>\<open>filesys/inode.c\<close>: opening and closing, the index of a file's sectors (direct, indirect and
  doubly indirect), reading, writing and growth. An index read or written outside its table stops
  the kernel in the model. \<open>fmw\<close> is the write of the free map to its file (theory \<open>Fs_Base\<close>).
\<close>

section \<open>Sizes\<close>

definition sectors_to_bytes :: "nat \<Rightarrow> nat" where
  "sectors_to_bytes n = sz (n * BLOCK_SECTOR_SIZE)"

definition bytes_to_sectors :: "int \<Rightarrow> nat" where
  "bytes_to_sectors n = nat (((n + int BLOCK_SECTOR_SIZE - 1) sdiv int BLOCK_SECTOR_SIZE) mod 2 ^ 32)"

definition round_up_to_sector_boundary :: "int \<Rightarrow> int" where
  "round_up_to_sector_boundary n = bits_off (sectors_to_bytes (bytes_to_sectors n))"

section \<open>Opening inodes\<close>

definition inode_init :: "fsys \<Rightarrow> fsys" where
  "inode_init s = s\<lparr>open_inodes := []\<rparr>"

definition inode_reopen :: "addr \<Rightarrow> fsys \<Rightarrow> (addr \<times> fsys) option" where
  "inode_reopen p s =
     (if p \<noteq> NULL then do { s \<leftarrow> upd_inode p (\<lambda>i. i\<lparr>open_cnt := open_cnt i + 1\<rparr>) s; Some (p, s) } else Some (p, s))"

fun find_open :: "nat \<Rightarrow> addr list \<Rightarrow> fsys \<Rightarrow> addr option option" where
  "find_open sector [] s = Some None"
| "find_open sector (p # ps) s = do {
     i \<leftarrow> inodes s p;
     if i_sector i = sector then Some (Some p) else find_open sector ps s }"

definition new_inode :: "nat \<Rightarrow> inode" where
  "new_inode sector = \<lparr>i_sector = sector, open_cnt = 1, open_fd_cnt = 0, cwd_cnt = 0, removed = False, deny_write_cnt = 0,
     i_data = None, inode_lock = False, inode_growth = False, access_count = 0, logical_length = -1\<rparr>"

definition inode_open :: "nat \<Rightarrow> fsys \<Rightarrow> (addr \<times> fsys) option" where
  "inode_open sector s = do {
     found \<leftarrow> find_open sector (open_inodes s) s;
     case found of
       Some p \<Rightarrow> inode_reopen p s
     | None \<Rightarrow> do {
         let p = next_addr s;
         Some (p, s\<lparr>inodes := (inodes s)(p \<mapsto> new_inode sector), open_inodes := p # open_inodes s, next_addr := p + 1\<rparr>) } }"

definition inode_get_inumber :: "addr \<Rightarrow> fsys \<Rightarrow> nat option" where
  "inode_get_inumber p s = map_option i_sector (inodes s p)"

definition inode_load_disk :: "addr \<Rightarrow> fsys \<Rightarrow> fsys option" where
  "inode_load_disk p s = do {
     i \<leftarrow> inodes s p;
     ASSERT (\<not> inode_lock i);
     ASSERT (access_count i \<noteq> 0 \<or> i_data i = None);
     s \<leftarrow> (if access_count i = 0 then do {
             (buf, s) \<leftarrow> fs_block_read (i_sector i) 0 BLOCK_SECTOR_SIZE s;
             let d = disk_of_bytes buf;
             upd_inode p (\<lambda>i. i\<lparr>i_data := Some d,
               logical_length := (if logical_length i = -1 then d_length d else logical_length i)\<rparr>) s }
           else Some s);
     upd_inode p (\<lambda>i. i\<lparr>access_count := access_count i + 1\<rparr>) s }"

definition inode_release_disk :: "addr \<Rightarrow> fsys \<Rightarrow> fsys option" where
  "inode_release_disk p s = do {
     i \<leftarrow> inodes s p;
     ASSERT (\<not> inode_lock i);
     ASSERT (0 < access_count i);
     s \<leftarrow> upd_inode p (\<lambda>i. i\<lparr>access_count := access_count i - 1\<rparr>) s;
     if access_count i - 1 = 0 then do {
       d \<leftarrow> i_data i;
       s \<leftarrow> fs_block_write (i_sector i) (disk_bytes d) 0 s;
       upd_inode p (i_data_update (\<lambda>_. None)) s }
     else Some s }"

definition get_data :: "addr \<Rightarrow> fsys \<Rightarrow> inode_disk option" where
  "get_data p s = do { i \<leftarrow> inodes s p; i_data i }"

definition upd_data :: "addr \<Rightarrow> (inode_disk \<Rightarrow> inode_disk) \<Rightarrow> fsys \<Rightarrow> fsys option" where
  "upd_data p f s = do { d \<leftarrow> get_data p s; upd_inode p (i_data_update (\<lambda>_. Some (f d))) s }"

definition inode_get_parent :: "addr \<Rightarrow> fsys \<Rightarrow> (nat \<times> fsys) option" where
  "inode_get_parent p s = do {
     ASSERT (p \<noteq> NULL);
     s \<leftarrow> inode_load_disk p s;
     d \<leftarrow> get_data p s;
     s \<leftarrow> inode_release_disk p s;
     Some (d_parent d, s) }"

definition inode_length :: "addr \<Rightarrow> fsys \<Rightarrow> (int \<times> fsys) option" where
  "inode_length p s = do {
     s \<leftarrow> inode_load_disk p s;
     d \<leftarrow> get_data p s;
     s \<leftarrow> inode_release_disk p s;
     Some (d_length d, s) }"

definition inode_remove :: "addr \<Rightarrow> fsys \<Rightarrow> fsys option" where
  "inode_remove p s = do { ASSERT (p \<noteq> NULL); upd_inode p (removed_update (\<lambda>_. True)) s }"

definition inode_deny_write :: "addr \<Rightarrow> fsys \<Rightarrow> fsys option" where
  "inode_deny_write p s = do {
     ASSERT (p \<noteq> NULL);
     i \<leftarrow> inodes s p;
     ASSERT (deny_write_cnt i + 1 \<le> open_cnt i);
     upd_inode p (\<lambda>i. i\<lparr>deny_write_cnt := deny_write_cnt i + 1\<rparr>) s }"

definition inode_allow_write :: "addr \<Rightarrow> fsys \<Rightarrow> fsys option" where
  "inode_allow_write p s = do {
     ASSERT (p \<noteq> NULL);
     i \<leftarrow> inodes s p;
     ASSERT (0 < deny_write_cnt i);
     ASSERT (deny_write_cnt i \<le> open_cnt i);
     upd_inode p (\<lambda>i. i\<lparr>deny_write_cnt := deny_write_cnt i - 1\<rparr>) s }"

definition inode_close :: "fm_writer \<Rightarrow> addr \<Rightarrow> fsys \<Rightarrow> fsys option" where
  "inode_close fmw p s =
     (if p = NULL then Some s
      else do {
        s \<leftarrow> upd_inode p (\<lambda>i. i\<lparr>open_cnt := open_cnt i - 1\<rparr>) s;
        i \<leftarrow> inodes s p;
        if open_cnt i = 0 then do {
          let s = s\<lparr>open_inodes := remove1 p (open_inodes s)\<rparr>;
          s \<leftarrow> (if removed i then do {
                  s \<leftarrow> free_map_release fmw (i_sector i) 1 s;
                  s \<leftarrow> inode_load_disk p s;
                  d \<leftarrow> get_data p s;
                  s \<leftarrow> free_map_release fmw (d_start d) (bytes_to_sectors (d_length d)) s;
                  inode_release_disk p s }
                else Some s);
          Some (s\<lparr>inodes := (inodes s)(p := None)\<rparr>) }
        else Some s })"

section \<open>Allocation of sectors\<close>

definition set_index :: "addr \<Rightarrow> nat \<Rightarrow> nat \<Rightarrow> nat \<Rightarrow> fsys \<Rightarrow> fsys option" where
  "set_index p entries idx v s = do {
     d \<leftarrow> get_data p s;
     ASSERT (idx < entries);
     ix \<leftarrow> arr_set (d_index d) idx v;
     upd_data p (d_index_update (\<lambda>_. ix)) s }"

definition get_index :: "addr \<Rightarrow> nat \<Rightarrow> nat \<Rightarrow> fsys \<Rightarrow> nat option" where
  "get_index p entries idx s = do {
     d \<leftarrow> get_data p s;
     ASSERT (idx < entries);
     arr_get (d_index d) idx }"

text \<open>The part of \<^verbatim>\<open>allocate_new_block\<close> before the table entry is set.\<close>

definition allocate_zeroed :: "fm_writer \<Rightarrow> fsys \<Rightarrow> (nat \<times> fsys) option" where
  "allocate_zeroed fmw s = do {
     (r, s) \<leftarrow> free_map_allocate fmw 1 s;
     case r of
       None \<Rightarrow> Some (SECTOR_ERROR, s)
     | Some sector \<Rightarrow> do {
         s \<leftarrow> fs_block_write sector (replicate BLOCK_SECTOR_SIZE 0) 0 s;
         Some (sector, s) } }"

definition allocate_new_block :: "fm_writer \<Rightarrow> addr \<Rightarrow> nat \<Rightarrow> nat \<Rightarrow> fsys \<Rightarrow> (nat \<times> fsys) option" where
  "allocate_new_block fmw p entries idx s = do {
     (sector, s) \<leftarrow> allocate_zeroed fmw s;
     if sector = SECTOR_ERROR then Some (SECTOR_ERROR, s)
     else do { s \<leftarrow> set_index p entries idx sector s; Some (sector, s) } }"

definition index_inode_disk :: inode_disk where
  "index_inode_disk = \<lparr>d_start = 0, d_parent = 0, d_length = 0,
     d_index = replicate INDEX_BLOCK_ENTRIES SECTOR_ERROR @ replicate (INDEX_MAIN_ENTRIES - INDEX_BLOCK_ENTRIES) 0,
     d_is_index_block = 1, d_magic = INODE_MAGIC, d_unused = replicate UNUSED_SIZE 0\<rparr>"

text \<open>\<^verbatim>\<open>inode_create\<close> with \<^verbatim>\<open>is_index_block\<close> set.\<close>

definition inode_create_index :: "nat \<Rightarrow> fsys \<Rightarrow> (bool \<times> fsys) option" where
  "inode_create_index sector s = do {
     s \<leftarrow> fs_block_write sector (disk_bytes index_inode_disk) 0 s;
     Some (True, s) }"

definition allocate_new_index_inode :: "fm_writer \<Rightarrow> addr \<Rightarrow> nat \<Rightarrow> nat \<Rightarrow> fsys \<Rightarrow> (nat \<times> fsys) option" where
  "allocate_new_index_inode fmw p entries idx s = do {
     (r, s) \<leftarrow> free_map_allocate fmw 1 s;
     case r of
       None \<Rightarrow> Some (SECTOR_ERROR, s)
     | Some sector \<Rightarrow> do {
         (success, s) \<leftarrow> inode_create_index sector s;
         if \<not> success then Some (SECTOR_ERROR, s)
         else do { s \<leftarrow> set_index p entries idx sector s; Some (sector, s) } } }"

text \<open>The macro \<^verbatim>\<open>CHECK_ALLOCATE_AND_GET_SECTOR\<close>; when it yields \<^verbatim>\<open>SECTOR_ERROR\<close>, the function around it
  returns at once.\<close>

definition check_allocate_and_get_sector ::
    "fm_writer \<Rightarrow> bool \<Rightarrow> addr \<Rightarrow> nat \<Rightarrow> nat \<Rightarrow> bool \<Rightarrow> fsys \<Rightarrow> (nat \<times> fsys) option" where
  "check_allocate_and_get_sector fmw allocate_new p entries idx is_index_block s = do {
     cur \<leftarrow> get_index p entries idx s;
     if allocate_new \<and> cur = SECTOR_ERROR then
       (if is_index_block then allocate_new_index_inode fmw p entries idx s
        else allocate_new_block fmw p entries idx s)
     else Some (cur, s) }"

section \<open>From positions to sectors\<close>

definition main_idx_indirect :: "nat \<Rightarrow> nat" where
  "main_idx_indirect rel = DIV_ROUND_UP (rel - INODE_ACCESS_DIRECT) INDEX_BLOCK_ENTRIES + INODE_ACCESS_DIRECT"

definition inner_idx_indirect :: "nat \<Rightarrow> nat" where
  "inner_idx_indirect rel = rel - (DIRECT_BLOCKS + INDEX_BLOCK_ENTRIES * (main_idx_indirect rel - DIRECT_BLOCKS))"

definition main_idx_double :: "nat \<Rightarrow> nat" where
  "main_idx_double rel = DIV_ROUND_UP (rel - INODE_ACCESS_INDIRECT) (INDEX_BLOCK_ENTRIES * INDEX_BLOCK_ENTRIES) + INODE_ACCESS_INDIRECT"

text \<open>\<open>open_index\<close> opens and loads the index inode in a sector; it is never closed again by this function.\<close>

definition open_index :: "nat \<Rightarrow> fsys \<Rightarrow> (addr \<times> fsys) option" where
  "open_index sector s = do {
     (q, s) \<leftarrow> inode_open sector s;
     ASSERT (q \<noteq> NULL);
     s \<leftarrow> inode_load_disk q s;
     d \<leftarrow> get_data q s;
     ASSERT (d_is_index_block d \<noteq> 0);
     Some (q, s) }"

definition double_indirect_sector :: "fm_writer \<Rightarrow> addr \<Rightarrow> nat \<Rightarrow> bool \<Rightarrow> fsys \<Rightarrow> (nat \<times> fsys) option" where
  "double_indirect_sector fmw p rel allocate_new s = do {
     let main_idx = main_idx_double rel;
     (sector, s) \<leftarrow> check_allocate_and_get_sector fmw allocate_new p INDEX_MAIN_ENTRIES main_idx True s;
     if sector = SECTOR_ERROR then Some (SECTOR_ERROR, s)
     else do {
       (q, s) \<leftarrow> open_index sector s;
       let start = DIRECT_BLOCKS + INDIRECT_BLOCKS * INDEX_BLOCK_ENTRIES;
       let inner_idx = rel - (start + INDEX_BLOCK_ENTRIES * INDEX_BLOCK_ENTRIES * (main_idx - start));
       (sector, s) \<leftarrow> check_allocate_and_get_sector fmw allocate_new q INDEX_BLOCK_ENTRIES inner_idx True s;
       if sector = SECTOR_ERROR then Some (SECTOR_ERROR, s)
       else do {
         (q', s) \<leftarrow> open_index sector s;
         let d_inner_idx = rel - (start + INDEX_BLOCK_ENTRIES * (main_idx - start));
         (sector, s) \<leftarrow> check_allocate_and_get_sector fmw allocate_new q' INDEX_BLOCK_ENTRIES d_inner_idx False s;
         if sector = SECTOR_ERROR then Some (SECTOR_ERROR, s)
         else do {
           s \<leftarrow> inode_release_disk q' s;
           s \<leftarrow> inode_release_disk q s;
           Some (sector, s) } } } }"

definition inode_pos_to_real_sector :: "fm_writer \<Rightarrow> addr \<Rightarrow> int \<Rightarrow> bool \<Rightarrow> fsys \<Rightarrow> (nat \<times> fsys) option" where
  "inode_pos_to_real_sector fmw p pos allocate_new s = do {
     ASSERT (p \<noteq> NULL);
     ASSERT (0 \<le> pos);
     let rel = nat (pos div int BLOCK_SECTOR_SIZE);
     if rel \<le> INODE_ACCESS_DIRECT then
       check_allocate_and_get_sector fmw allocate_new p INDEX_MAIN_ENTRIES rel False s
     else if INODE_ACCESS_DIRECT + 1 \<le> rel \<and> rel \<le> INODE_ACCESS_INDIRECT then do {
       (sector, s) \<leftarrow> check_allocate_and_get_sector fmw allocate_new p INDEX_MAIN_ENTRIES (main_idx_indirect rel) True s;
       if sector = SECTOR_ERROR then Some (SECTOR_ERROR, s)
       else do {
         (q, s) \<leftarrow> open_index sector s;
         (sector, s) \<leftarrow> check_allocate_and_get_sector fmw allocate_new q INDEX_BLOCK_ENTRIES (inner_idx_indirect rel) False s;
         if sector = SECTOR_ERROR then Some (SECTOR_ERROR, s)
         else do { s \<leftarrow> inode_release_disk q s; Some (sector, s) } } }
     else if INODE_ACCESS_INDIRECT + 1 \<le> rel \<and> rel \<le> INODE_ACCESS_MAX then
       double_indirect_sector fmw p rel allocate_new s
     else None }"

definition byte_to_sector :: "fm_writer \<Rightarrow> addr \<Rightarrow> int \<Rightarrow> fsys \<Rightarrow> (nat \<times> fsys) option" where
  "byte_to_sector fmw p pos s = do {
     ASSERT (p \<noteq> NULL);
     d \<leftarrow> get_data p s;
     if pos < d_length d then inode_pos_to_real_sector fmw p pos False s
     else Some (SECTOR_ERROR, s) }"

section \<open>Growth\<close>

fun grow_loop :: "fm_writer \<Rightarrow> addr \<Rightarrow> nat \<Rightarrow> nat list \<Rightarrow> fsys \<Rightarrow> (bool \<times> fsys) option" where
  "grow_loop fmw p last_sector [] s = Some (True, s)"
| "grow_loop fmw p last_sector (i # is) s = do {
     d \<leftarrow> get_data p s;
     let rel = last_sector + i - d_start d;
     (r, s) \<leftarrow> inode_pos_to_real_sector fmw p (bits_off (sectors_to_bytes rel)) True s;
     if r = SECTOR_ERROR then Some (False, s) else grow_loop fmw p last_sector is s }"

definition inode_grow :: "fm_writer \<Rightarrow> addr \<Rightarrow> int \<Rightarrow> int \<Rightarrow> fsys \<Rightarrow> (bool \<times> fsys) option" where
  "inode_grow fmw p cnt offset s = do {
     ASSERT (0 < cnt);
     d \<leftarrow> get_data p s;
     if round_up_to_sector_boundary (d_length d) < offset + cnt then do {
       let last_sector = (if d_length d \<le> int BLOCK_SECTOR_SIZE then d_start d
                          else d_start d + bytes_to_sectors (d_length d) - 1);
       let grow_len_bytes = offset + cnt - round_up_to_sector_boundary (d_length d);
       let grow_len = bytes_to_sectors grow_len_bytes;
       ASSERT (0 < grow_len);
       (grown, s) \<leftarrow> grow_loop fmw p last_sector [1..<grow_len + 1] s;
       if \<not> grown then Some (False, s)
       else do {
         s \<leftarrow> upd_data p (\<lambda>d. d\<lparr>d_length := d_length d + grow_len_bytes\<rparr>) s;
         Some (True, s) } }
     else do {
       s \<leftarrow> upd_data p (\<lambda>d. d\<lparr>d_length := offset + cnt\<rparr>) s;
       Some (True, s) } }"

section \<open>Reading and writing\<close>

text \<open>The number of bytes handled in one iteration of the loops below.\<close>

definition chunk_size :: "int \<Rightarrow> int \<Rightarrow> int \<Rightarrow> int" where
  "chunk_size cnt inode_left sector_left =
     (let min_left = (if inode_left < sector_left then inode_left else sector_left)
      in if cnt < min_left then cnt else min_left)"

partial_function (option) inode_read_loop :: "fm_writer \<Rightarrow> addr \<Rightarrow> int \<Rightarrow> int \<Rightarrow> u8 list \<Rightarrow> fsys \<Rightarrow> (u8 list \<times> fsys) option" where
  "inode_read_loop fmw p cnt offset acc s =
     (if 0 < cnt then do {
        (sector_idx, s) \<leftarrow> byte_to_sector fmw p offset s;
        if sector_idx = SECTOR_ERROR then Some (acc, s)
        else do {
          i \<leftarrow> inodes s p;
          let sector_ofs = offset smod int BLOCK_SECTOR_SIZE;
          let inode_left = logical_length i - offset;
          let sector_left = int BLOCK_SECTOR_SIZE - sector_ofs;
          let chunk = chunk_size cnt inode_left sector_left;
          if chunk \<le> 0 then Some (acc, s)
          else do {
            (bytes, s) \<leftarrow> fs_block_read sector_idx (nat sector_ofs) (nat chunk) s;
            inode_read_loop fmw p (cnt - chunk) (offset + chunk) (acc @ bytes) s } } }
      else Some (acc, s))"

text \<open>The bytes read are the result; their number is what the C function returns.\<close>

definition inode_read_at :: "fm_writer \<Rightarrow> addr \<Rightarrow> int \<Rightarrow> int \<Rightarrow> fsys \<Rightarrow> (u8 list \<times> fsys) option" where
  "inode_read_at fmw p cnt offset s = do {
     i \<leftarrow> inodes s p;
     if logical_length i = 0 then Some ([], s)
     else do {
       s \<leftarrow> inode_load_disk p s;
       (bytes, s) \<leftarrow> inode_read_loop fmw p cnt offset [] s;
       s \<leftarrow> inode_release_disk p s;
       Some (bytes, s) } }"

text \<open>One iteration of the loop of \<^verbatim>\<open>inode_write_at\<close>: the number of bytes written, 0 for a \<^verbatim>\<open>break\<close>.
  Growing holds \<^verbatim>\<open>inode_lock\<close>.\<close>

definition inode_write_chunk :: "fm_writer \<Rightarrow> addr \<Rightarrow> u8 list \<Rightarrow> int \<Rightarrow> fsys \<Rightarrow> (nat \<times> fsys) option" where
  "inode_write_chunk fmw p buffer offset s = do {
     let cnt = int (length buffer);
     (sector_idx, s) \<leftarrow> byte_to_sector fmw p offset s;
     let sector_ofs = offset smod int BLOCK_SECTOR_SIZE;
     (is_growing, failed, sector_idx, s) \<leftarrow>
       (if sector_idx = SECTOR_ERROR then do {
          i \<leftarrow> inodes s p;
          ASSERT (\<not> inode_lock i);
          s \<leftarrow> upd_inode p (inode_lock_update (\<lambda>_. True)) s;
          (grown, s) \<leftarrow> inode_grow fmw p cnt offset s;
          if \<not> grown then do {
            s \<leftarrow> upd_inode p (inode_lock_update (\<lambda>_. False)) s;
            Some (False, True, sector_idx, s) }
          else do {
            (sector_idx, s) \<leftarrow> byte_to_sector fmw p offset s;
            Some (True, False, sector_idx, s) } }
        else Some (False, False, sector_idx, s));
     if failed then Some (0, s)
     else do {
       d \<leftarrow> get_data p s;
       let inode_left = d_length d - offset;
       let sector_left = int BLOCK_SECTOR_SIZE - sector_ofs;
       let chunk = chunk_size cnt inode_left sector_left;
       s \<leftarrow> (if chunk \<le> 0 then Some s
             else fs_block_write sector_idx (take (nat chunk) buffer) (nat sector_ofs) s);
       s \<leftarrow> (if is_growing then do {
               d \<leftarrow> get_data p s;
               upd_inode p (\<lambda>i. i\<lparr>logical_length := d_length d, inode_lock := False\<rparr>) s }
             else Some s);
       Some (nat chunk, s) } }"

partial_function (option) inode_write_loop :: "fm_writer \<Rightarrow> addr \<Rightarrow> u8 list \<Rightarrow> int \<Rightarrow> nat \<Rightarrow> fsys \<Rightarrow> (nat \<times> fsys) option" where
  "inode_write_loop fmw p buffer offset bytes_written s = do {
     i \<leftarrow> inodes s p;
     if buffer \<noteq> [] \<and> deny_write_cnt i = 0 then do {
       (n, s) \<leftarrow> inode_write_chunk fmw p buffer offset s;
       if n = 0 then Some (bytes_written, s)
       else inode_write_loop fmw p (drop n buffer) (offset + int n) (bytes_written + n) s }
     else Some (bytes_written, s) }"

definition inode_write_at :: "fm_writer \<Rightarrow> addr \<Rightarrow> u8 list \<Rightarrow> int \<Rightarrow> fsys \<Rightarrow> (nat \<times> fsys) option" where
  "inode_write_at fmw p buffer offset s = do {
     s \<leftarrow> inode_load_disk p s;
     (n, s) \<leftarrow> inode_write_loop fmw p buffer offset 0 s;
     i \<leftarrow> inodes s p;
     ASSERT (\<not> inode_lock i);
     ASSERT (\<not> inode_growth i);
     s \<leftarrow> inode_release_disk p s;
     Some (n, s) }"

section \<open>Creation\<close>

definition inode_create :: "fm_writer \<Rightarrow> nat \<Rightarrow> int \<Rightarrow> nat \<Rightarrow> bool \<Rightarrow> fsys \<Rightarrow> (bool \<times> fsys) option" where
  "inode_create fmw sector len parent is_index_block s = do {
     ASSERT (0 \<le> len);
     if is_index_block then inode_create_index sector s
     else do {
       (start_block, s) \<leftarrow> allocate_zeroed fmw s;
       if start_block = SECTOR_ERROR then Some (False, s)
       else do {
         let d = \<lparr>d_start = start_block, d_parent = parent,
                  d_length = (if int BLOCK_SECTOR_SIZE \<le> len then int BLOCK_SECTOR_SIZE else len),
                  d_index = start_block # replicate (INDEX_MAIN_ENTRIES - 1) SECTOR_ERROR,
                  d_is_index_block = 0, d_magic = INODE_MAGIC, d_unused = replicate UNUSED_SIZE 0\<rparr>;
         s \<leftarrow> fs_block_write sector (disk_bytes d) 0 s;
         if int BLOCK_SECTOR_SIZE < len then do {
           (p, s) \<leftarrow> inode_open sector s;
           s \<leftarrow> inode_load_disk p s;
           (success, s) \<leftarrow> inode_grow fmw p len 0 s;
           s \<leftarrow> inode_release_disk p s;
           s \<leftarrow> inode_close fmw p s;
           Some (success, s) }
         else Some (True, s) } } }"

end
