(* ===== verification/Inode_File.thy ===== *)
theory Inode_File
  imports Inode
begin

text \<open>
  What \<^verbatim>\<open>filesys/inode.c\<close> promises about the contents of a file: an open inode whose index leads to valid
  sectors is a byte array, reading returns a segment of it and writing inside the file overwrites a
  segment, through direct and indirect index entries alike.
\<close>

section \<open>The index arithmetic\<close>

lemma main_idx_indirect_eq:
  "INODE_ACCESS_DIRECT < rel \<Longrightarrow> main_idx_indirect rel = DIRECT_BLOCKS + (rel - DIRECT_BLOCKS) div INDEX_BLOCK_ENTRIES"
  using DIV_ROUND_UP_pred [of INDEX_BLOCK_ENTRIES "rel - INODE_ACCESS_DIRECT"]
  by (simp add: main_idx_indirect_def inode_constants)

lemma inner_idx_indirect_eq:
  "INODE_ACCESS_DIRECT < rel \<Longrightarrow> inner_idx_indirect rel = (rel - DIRECT_BLOCKS) mod INDEX_BLOCK_ENTRIES"
proof -
  assume "INODE_ACCESS_DIRECT < rel"
  from main_idx_indirect_eq [OF this] show ?thesis
    by (simp add: inner_idx_indirect_def diff_diff_left [symmetric] minus_mult_div_eq_mod)
qed

lemma indirect_in_bounds:
  assumes "INODE_ACCESS_DIRECT < rel" and "rel \<le> INODE_ACCESS_INDIRECT"
  shows "DIRECT_BLOCKS \<le> main_idx_indirect rel" "main_idx_indirect rel < DIRECT_BLOCKS + INDIRECT_BLOCKS"
    "inner_idx_indirect rel < INDEX_BLOCK_ENTRIES" "main_idx_indirect rel < INDEX_MAIN_ENTRIES"
proof -
  have "rel - DIRECT_BLOCKS < INDIRECT_BLOCKS * INDEX_BLOCK_ENTRIES" using assms by (simp add: inode_constants)
  then have "(rel - DIRECT_BLOCKS) div INDEX_BLOCK_ENTRIES < INDIRECT_BLOCKS" by (rule less_mult_imp_div_less)
  then show "main_idx_indirect rel < DIRECT_BLOCKS + INDIRECT_BLOCKS" "main_idx_indirect rel < INDEX_MAIN_ENTRIES"
    using main_idx_indirect_eq [OF assms(1)] by (simp_all add: INDEX_MAIN_ENTRIES_def)
  show "DIRECT_BLOCKS \<le> main_idx_indirect rel" using main_idx_indirect_eq [OF assms(1)] by simp
  show "inner_idx_indirect rel < INDEX_BLOCK_ENTRIES"
    using inner_idx_indirect_eq [OF assms(1)] by (simp add: INDEX_BLOCK_ENTRIES_def)
qed

text \<open>
  the index of a file addresses every block it should. For the blocks of the indirect range, the entry of
  the main table lies among the indirect entries, the entry of the index block lies inside that block, and
  two different blocks never share both.
\<close>

theorem indirect_index_bijective:
  assumes "INODE_ACCESS_DIRECT < rel" and "rel \<le> INODE_ACCESS_INDIRECT"
    and "INODE_ACCESS_DIRECT < rel'" and "rel' \<le> INODE_ACCESS_INDIRECT"
  shows "DIRECT_BLOCKS \<le> main_idx_indirect rel \<and> main_idx_indirect rel < DIRECT_BLOCKS + INDIRECT_BLOCKS \<and>
    inner_idx_indirect rel < INDEX_BLOCK_ENTRIES \<and>
    (main_idx_indirect rel = main_idx_indirect rel' \<and> inner_idx_indirect rel = inner_idx_indirect rel' \<longleftrightarrow> rel = rel')"
proof -
  have ge: "DIRECT_BLOCKS \<le> rel" "DIRECT_BLOCKS \<le> rel'" using assms by (simp_all add: inode_constants)
  have "rel = rel'" if "main_idx_indirect rel = main_idx_indirect rel'" "inner_idx_indirect rel = inner_idx_indirect rel'"
  proof -
    have "(rel - DIRECT_BLOCKS) div INDEX_BLOCK_ENTRIES = (rel' - DIRECT_BLOCKS) div INDEX_BLOCK_ENTRIES"
      using that(1) main_idx_indirect_eq [OF assms(1)] main_idx_indirect_eq [OF assms(3)] by simp
    moreover have "(rel - DIRECT_BLOCKS) mod INDEX_BLOCK_ENTRIES = (rel' - DIRECT_BLOCKS) mod INDEX_BLOCK_ENTRIES"
      using that(2) inner_idx_indirect_eq [OF assms(1)] inner_idx_indirect_eq [OF assms(3)] by simp
    ultimately have "rel - DIRECT_BLOCKS = rel' - DIRECT_BLOCKS" by (metis div_mult_mod_eq)
    then show ?thesis using ge by simp
  qed
  then show ?thesis using indirect_in_bounds [OF assms(1,2)] by blast
qed

theorem indirect_index_bijective_witness:
  "main_idx_indirect 4170 < DIRECT_BLOCKS + INDIRECT_BLOCKS \<and> inner_idx_indirect 4170 < INDEX_BLOCK_ENTRIES \<and>
   (main_idx_indirect 4170 = main_idx_indirect 11 \<and> inner_idx_indirect 4170 = inner_idx_indirect 11 \<longleftrightarrow> 4170 = (11 :: nat))"
  using indirect_index_bijective [of 4170 11] by (simp add: inode_constants)

text \<open>
  The doubly indirect range cannot be used: for every block in it, from \<open>INODE_ACCESS_INDIRECT + 1\<close> to \<open>INODE_ACCESS_MAX\<close>, the entry of
  the main table that the code computes lies past the 79 entries of the table, because the number of the block and not the number of
  index blocks before it is added. An access to such a block therefore stops the kernel in the model (in the code it reads or
  writes memory behind the table); beyond \<open>INODE_ACCESS_MAX\<close> the code panics on purpose.
\<close>

lemma double_index_out_of_bounds: "INODE_ACCESS_INDIRECT \<le> main_idx_double rel \<and> INDEX_MAIN_ENTRIES < main_idx_double rel"
  by (simp add: main_idx_double_def inode_constants)

theorem double_indirect_stops:
  assumes "INODE_ACCESS_INDIRECT < nat (pos div int BLOCK_SECTOR_SIZE)"
  shows "get_index p INDEX_MAIN_ENTRIES (main_idx_double (nat (pos div int BLOCK_SECTOR_SIZE))) s = None \<and>
    inode_pos_to_real_sector fmw p pos allocate_new s = None"
proof -
  let ?rel = "nat (pos div int BLOCK_SECTOR_SIZE)"
  have gt: "INODE_ACCESS_DIRECT < ?rel" using assms by (simp add: inode_constants)
  have "get_index p INDEX_MAIN_ENTRIES (main_idx_double ?rel) s = None"
    using double_index_out_of_bounds [of ?rel] by (cases "get_data p s") (simp_all add: get_index_def)
  then show ?thesis using assms gt
    by (simp add: inode_pos_to_real_sector_def double_indirect_sector_def check_allocate_and_get_sector_def Let_def)
qed

section \<open>Consistent states\<close>

abbreviation fs_view :: "fsys \<Rightarrow> nat \<Rightarrow> sector" where
  "fs_view s \<equiv> bc_view (bc s)"

abbreviation fs_cap :: "fsys \<Rightarrow> nat" where
  "fs_cap s \<equiv> fs_size (bc s)"

text \<open>An inode that no operation is using, over a device of \<open>n\<close> sectors with contents \<open>v\<close>.\<close>

definition inode_idle :: "(nat \<Rightarrow> sector) \<Rightarrow> nat \<Rightarrow> inode \<Rightarrow> bool" where
  "inode_idle v n i \<longleftrightarrow> access_count i = 0 \<and> i_data i = None \<and> \<not> inode_lock i \<and> \<not> inode_growth i \<and> i_sector i < n \<and>
     (logical_length i = -1 \<or> logical_length i = d_length (disk_of_bytes (v (i_sector i))))"

text \<open>\<open>tab_ok X s\<close>: the table of open inodes is consistent and all of them but those in \<open>X\<close> are idle.\<close>

definition tab_ok :: "addr set \<Rightarrow> fsys \<Rightarrow> bool" where
  "tab_ok X s \<longleftrightarrow> bc_ok (bc s) \<and> distinct (open_inodes s) \<and> 0 < next_addr s \<and>
     (\<forall>q \<in> set (open_inodes s). 0 < q \<and> q < next_addr s \<and>
        (\<exists>i. inodes s q = Some i \<and> (q \<notin> X \<longrightarrow> inode_idle (fs_view s) (fs_cap s) i))) \<and>
     (\<forall>q \<in> set (open_inodes s). \<forall>q' \<in> set (open_inodes s).
        map_option i_sector (inodes s q) = map_option i_sector (inodes s q') \<longrightarrow> q = q')"

definition same_disk :: "bcache \<Rightarrow> bcache \<Rightarrow> bool" where
  "same_disk b b' \<longleftrightarrow> bc_ok b' \<and> fs_size b' = fs_size b \<and> (\<forall>k < fs_size b. bc_view b' k = bc_view b k)"

lemma same_disk_trans: "same_disk a b \<Longrightarrow> same_disk b c \<Longrightarrow> same_disk a c"
  by (auto simp: same_disk_def)

lemma tab_okD:
  assumes "tab_ok X s" and "q \<in> set (open_inodes s)"
  shows "bc_ok (bc s)" "0 < q" "q < next_addr s"
  using assms by (auto simp: tab_ok_def)

lemma tab_ok_idle: "tab_ok X s \<Longrightarrow> q \<in> set (open_inodes s) \<Longrightarrow> q \<notin> X \<Longrightarrow> inodes s q = Some i \<Longrightarrow> inode_idle (fs_view s) (fs_cap s) i"
  by (fastforce simp: tab_ok_def)

lemma inode_idle_cong: "i_sector i < n \<Longrightarrow> v (i_sector i) = v' (i_sector i) \<Longrightarrow> inode_idle v n i = inode_idle v' n i"
  by (simp add: inode_idle_def)

lemma tab_ok_upd:
  assumes ok: "tab_ok X s" and b: "same_disk (bc s) b" and q: "q \<in> set (open_inodes s)" "inodes s q = Some i"
    and sec: "i_sector i' = i_sector i" and Y: "X \<subseteq> insert q Y"
    and idle: "q \<notin> Y \<Longrightarrow> inode_idle (fs_view s) (fs_cap s) i'"
  shows "tab_ok Y (s\<lparr>bc := b, inodes := (inodes s)(q \<mapsto> i')\<rparr>)"
proof -
  let ?s = "s\<lparr>bc := b, inodes := (inodes s)(q \<mapsto> i')\<rparr>"
  have id: "inode_idle (bc_view b) (fs_size b) j" if "inode_idle (fs_view s) (fs_cap s) j" for j
    using that b by (auto simp: inode_idle_def same_disk_def)
  have sec': "map_option i_sector (inodes ?s x) = map_option i_sector (inodes s x)" for x
    using q sec by simp
  have "0 < x \<and> x < next_addr s \<and> (\<exists>j. inodes ?s x = Some j \<and> (x \<notin> Y \<longrightarrow> inode_idle (bc_view b) (fs_size b) j))"
    if x: "x \<in> set (open_inodes s)" for x
  proof (cases "x = q")
    case True
    then show ?thesis using tab_okD [OF ok x] idle id by simp
  next
    case False
    obtain j where j: "inodes s x = Some j" using ok x by (auto simp: tab_ok_def)
    have "x \<notin> Y \<Longrightarrow> inode_idle (fs_view s) (fs_cap s) j" using tab_ok_idle [OF ok x _ j] Y False by auto
    then show ?thesis using tab_okD [OF ok x] False j id by simp
  qed
  moreover have "\<forall>x \<in> set (open_inodes s). \<forall>y \<in> set (open_inodes s).
      map_option i_sector (inodes ?s x) = map_option i_sector (inodes ?s y) \<longrightarrow> x = y"
    unfolding sec' using ok by (auto simp: tab_ok_def)
  ultimately show ?thesis using ok b by (auto simp: tab_ok_def same_disk_def)
qed

section \<open>Loading and releasing an inode\<close>

lemma fs_block_read_ok:
  assumes "bc_ok (bc s)" and "n < fs_cap s" and "ofs + cnt \<le> BLOCK_SECTOR_SIZE"
  shows "\<exists>b. fs_block_read n ofs cnt s = Some (segment (fs_view s n) ofs cnt, s\<lparr>bc := b\<rparr>) \<and> same_disk (bc s) b"
  using bc.rd_law [OF assms] by (auto simp: fs_block_read_def same_disk_def)

lemma fs_block_write_ok:
  assumes "bc_ok (bc s)" and "n < fs_cap s" and "ofs + length buf \<le> BLOCK_SECTOR_SIZE"
  shows "\<exists>b. fs_block_write n buf ofs s = Some (s\<lparr>bc := b\<rparr>) \<and> bc_ok b \<and> fs_size b = fs_cap s \<and>
    (\<forall>k < fs_cap s. bc_view b k = (if k = n then overwrite (fs_view s n) ofs buf else fs_view s k))"
  using bc.wr_law [OF assms] by (auto simp: fs_block_write_def)

lemma inode_load_disk_ok:
  assumes ok: "bc_ok (bc s)" and q: "inodes s q = Some i" and idle: "inode_idle (fs_view s) (fs_cap s) i"
    and d: "d = disk_of_bytes (fs_view s (i_sector i))"
  shows "\<exists>b. inode_load_disk q s = Some (s\<lparr>bc := b, inodes := (inodes s)(q \<mapsto>
           i\<lparr>i_data := Some d, logical_length := d_length d, access_count := 1\<rparr>)\<rparr>) \<and> same_disk (bc s) b"
proof -
  have i: "access_count i = 0" "i_data i = None" "\<not> inode_lock i" "i_sector i < fs_cap s"
    "logical_length i = -1 \<or> logical_length i = d_length d" using idle d by (auto simp: inode_idle_def)
  have len: "length (fs_view s (i_sector i)) = BLOCK_SECTOR_SIZE" using ok i(4) by (rule bc.view_length)
  obtain b where b: "fs_block_read (i_sector i) 0 BLOCK_SECTOR_SIZE s = Some (fs_view s (i_sector i), s\<lparr>bc := b\<rparr>)" "same_disk (bc s) b"
    using fs_block_read_ok [OF ok i(4), of 0 BLOCK_SECTOR_SIZE] len by (auto simp: segment_def)
  have ll: "logical_length i \<noteq> -1 \<Longrightarrow>
      i\<lparr>i_data := Some d, access_count := 1\<rparr> = i\<lparr>i_data := Some d, logical_length := d_length d, access_count := 1\<rparr>"
    using i(5) by (cases i) simp
  show ?thesis using q i(1-4) b ll
    by (intro exI [of _ b]) (simp add: inode_load_disk_def upd_inode_def Let_def d [symmetric])
qed

lemma inode_release_disk_ok:
  assumes ok: "bc_ok (bc s)" and q: "inodes s q = Some i" "access_count i = 1" "i_data i = Some d" "\<not> inode_lock i"
    and n: "i_sector i < fs_cap s" and len: "length (disk_bytes d) = BLOCK_SECTOR_SIZE"
  shows "\<exists>b. inode_release_disk q s = Some (s\<lparr>bc := b, inodes := (inodes s)(q \<mapsto> i\<lparr>access_count := 0, i_data := None\<rparr>)\<rparr>) \<and>
    bc_ok b \<and> fs_size b = fs_cap s \<and> (\<forall>k < fs_cap s. bc_view b k = (if k = i_sector i then disk_bytes d else fs_view s k))"
proof -
  let ?s = "s\<lparr>inodes := (inodes s)(q \<mapsto> i\<lparr>access_count := 0\<rparr>)\<rparr>"
  obtain b where b: "fs_block_write (i_sector i) (disk_bytes d) 0 ?s = Some (?s\<lparr>bc := b\<rparr>)" "bc_ok b" "fs_size b = fs_cap s"
    "\<forall>k < fs_cap s. bc_view b k = (if k = i_sector i then overwrite (fs_view s (i_sector i)) 0 (disk_bytes d) else fs_view s k)"
    using fs_block_write_ok [of ?s "i_sector i" 0 "disk_bytes d"] ok n len by auto
  have "overwrite (fs_view s (i_sector i)) 0 (disk_bytes d) = disk_bytes d"
    using bc.view_length [OF ok n] len by (simp add: overwrite_all)
  moreover have "inode_release_disk q s = Some (s\<lparr>bc := b, inodes := (inodes s)(q \<mapsto> i\<lparr>access_count := 0, i_data := None\<rparr>)\<rparr>)"
    using q b(1) by (simp add: inode_release_disk_def upd_inode_def q(2))
  ultimately show ?thesis using b by (intro exI [of _ b]) auto
qed

lemma inode_release_unchanged:
  assumes ok: "bc_ok (bc s)" and q: "inodes s q = Some i" "access_count i = 1" "\<not> inode_lock i"
    and d: "i_data i = Some (disk_of_bytes (fs_view s (i_sector i)))" and n: "i_sector i < fs_cap s"
  shows "\<exists>b. inode_release_disk q s = Some (s\<lparr>bc := b, inodes := (inodes s)(q \<mapsto> i\<lparr>access_count := 0, i_data := None\<rparr>)\<rparr>) \<and> same_disk (bc s) b"
proof -
  have inv: "disk_bytes (disk_of_bytes (fs_view s (i_sector i))) = fs_view s (i_sector i)"
    using bc.view_length [OF ok n] by (rule disk_bytes_inverse)
  then have len: "length (disk_bytes (disk_of_bytes (fs_view s (i_sector i)))) = BLOCK_SECTOR_SIZE"
    using bc.view_length [OF ok n] by simp
  from inode_release_disk_ok [OF ok q(1,2) d q(3) n len] inv show ?thesis by (auto simp: same_disk_def)
qed

section \<open>From blocks to sectors\<close>

definition is_indirect :: "nat \<Rightarrow> bool" where
  "is_indirect k \<longleftrightarrow> INODE_ACCESS_DIRECT < k"

text \<open>The sector of block \<open>k\<close> of the file with inode \<open>d\<close>, read off the disk contents \<open>v\<close>.\<close>

definition data_sector :: "(nat \<Rightarrow> sector) \<Rightarrow> inode_disk \<Rightarrow> nat \<Rightarrow> nat" where
  "data_sector v d k = (if is_indirect k then d_index (disk_of_bytes (v (d_index d ! main_idx_indirect k))) ! inner_idx_indirect k
     else d_index d ! k)"

definition index_sectors :: "inode_disk \<Rightarrow> nat \<Rightarrow> nat set" where
  "index_sectors d n = {d_index d ! main_idx_indirect k |k. k < n \<and> is_indirect k}"

text \<open>\<open>layout_ok v cap own d n\<close>: the first \<open>n\<close> blocks of the file with inode \<open>d\<close> in sector \<open>own\<close> are in place.\<close>

definition layout_ok :: "(nat \<Rightarrow> sector) \<Rightarrow> nat \<Rightarrow> nat \<Rightarrow> inode_disk \<Rightarrow> nat \<Rightarrow> bool" where
  "layout_ok v cap own d n \<longleftrightarrow> n \<le> INODE_ACCESS_INDIRECT + 1 \<and> length (d_index d) = INDEX_MAIN_ENTRIES \<and>
     (\<forall>m \<in> index_sectors d n. m < cap \<and> m \<noteq> SECTOR_ERROR \<and> m \<noteq> own \<and> d_is_index_block (disk_of_bytes (v m)) \<noteq> 0) \<and>
     (\<forall>k < n. data_sector v d k < cap \<and> data_sector v d k \<noteq> SECTOR_ERROR)"

definition open_sectors :: "fsys \<Rightarrow> nat set" where
  "open_sectors s = {n. \<exists>q \<in> set (open_inodes s). map_option i_sector (inodes s q) = Some n}"

definition same_rest :: "fsys \<Rightarrow> fsys \<Rightarrow> bool" where
  "same_rest s s' \<longleftrightarrow> free_map s' = free_map s \<and> free_map_file s' = free_map_file s \<and> files s' = files s \<and> dirs s' = dirs s"

lemma same_rest_trans: "same_rest s s' \<Longrightarrow> same_rest s' s'' \<Longrightarrow> same_rest s s''"
  by (simp add: same_rest_def)

text \<open>What looking up sectors of the file of inode \<open>p\<close> may change: inodes of the index sectors \<open>M\<close> are opened.\<close>

definition frame :: "addr \<Rightarrow> nat set \<Rightarrow> fsys \<Rightarrow> fsys \<Rightarrow> bool" where
  "frame p M s s' \<longleftrightarrow> same_disk (bc s) (bc s') \<and> inodes s' p = inodes s p \<and> set (open_inodes s) \<subseteq> set (open_inodes s') \<and>
     open_sectors s' \<subseteq> open_sectors s \<union> M \<and>
     same_rest s s' \<and>
     (\<forall>q \<in> set (open_inodes s). map_option (\<lambda>i. (i_sector i, removed i, deny_write_cnt i)) (inodes s' q) =
        map_option (\<lambda>i. (i_sector i, removed i, deny_write_cnt i)) (inodes s q))"

lemma frame_trans:
  assumes 1: "frame p M s s'" and 2: "frame p M s' s''"
  shows "frame p M s s''"
  unfolding frame_def
proof (intro conjI ballI)
  show "same_disk (bc s) (bc s'')" using 1 2 same_disk_trans unfolding frame_def by blast
  show "open_sectors s'' \<subseteq> open_sectors s \<union> M" using 1 2 unfolding frame_def by blast
  show "set (open_inodes s) \<subseteq> set (open_inodes s'')" using 1 2 unfolding frame_def by blast
  fix q assume q: "q \<in> set (open_inodes s)"
  then have q': "q \<in> set (open_inodes s')" using 1 unfolding frame_def by blast
  have "map_option (\<lambda>i. (i_sector i, removed i, deny_write_cnt i)) (inodes s' q) =
      map_option (\<lambda>i. (i_sector i, removed i, deny_write_cnt i)) (inodes s q)" using 1 q unfolding frame_def by blast
  moreover have "map_option (\<lambda>i. (i_sector i, removed i, deny_write_cnt i)) (inodes s'' q) =
      map_option (\<lambda>i. (i_sector i, removed i, deny_write_cnt i)) (inodes s' q)" using 2 q' unfolding frame_def by blast
  ultimately show "map_option (\<lambda>i. (i_sector i, removed i, deny_write_cnt i)) (inodes s'' q) =
      map_option (\<lambda>i. (i_sector i, removed i, deny_write_cnt i)) (inodes s q)" by (rule trans [rotated])
next
  show "inodes s'' p = inodes s p" using 1 2 unfolding frame_def by simp
  show "same_rest s s''" using 1 2 same_rest_trans unfolding frame_def by blast
qed

lemma frame_refl: "bc_ok (bc s) \<Longrightarrow> frame p M s s"
  by (simp add: frame_def same_disk_def same_rest_def)

lemma find_open_find:
  "\<forall>q \<in> set ps. inodes s q \<noteq> None \<Longrightarrow> find_open n ps s = Some (List.find (\<lambda>q. map_option i_sector (inodes s q) = Some n) ps)"
  by (induction ps) auto

lemma find_open_cases:
  assumes "\<forall>q \<in> set ps. inodes s q \<noteq> None"
  shows "find_open n ps s = Some None \<and> (\<forall>q \<in> set ps. map_option i_sector (inodes s q) \<noteq> Some n) \<or>
    (\<exists>q \<in> set ps. find_open n ps s = Some (Some q) \<and> map_option i_sector (inodes s q) = Some n)"
proof (cases "List.find (\<lambda>q. map_option i_sector (inodes s q) = Some n) ps")
  case None
  then show ?thesis using find_open_find [OF assms] by (auto simp: find_None_iff)
next
  case (Some q)
  then have "find_open n ps s = Some (Some q)" using find_open_find [OF assms] by simp
  moreover have "q \<in> set ps \<and> map_option i_sector (inodes s q) = Some n" using Some by (auto simp: find_Some_iff)
  ultimately show ?thesis by blast
qed

text \<open>Opening an inode of a consistent table.\<close>

lemma inode_open_ok:
  assumes ok: "tab_ok X s" and n: "n < fs_cap s" and X: "X \<subseteq> set (open_inodes s)" "\<forall>x \<in> X. map_option i_sector (inodes s x) \<noteq> Some n"
  shows "\<exists>q s' i. inode_open n s = Some (q, s') \<and> tab_ok X s' \<and> q \<in> set (open_inodes s') \<and> q \<notin> X \<and>
    inodes s' q = Some i \<and> i_sector i = n \<and> bc s' = bc s \<and> (\<forall>p \<in> X. frame p {n} s s')"
proof -
  have "\<forall>q \<in> set (open_inodes s). inodes s q \<noteq> None" using ok by (auto simp: tab_ok_def)
  from find_open_cases [OF this, of n] show ?thesis
  proof (elim disjE bexE conjE)
    assume none: "find_open n (open_inodes s) s = Some None" "\<forall>q \<in> set (open_inodes s). map_option i_sector (inodes s q) \<noteq> Some n"
    let ?q = "next_addr s"
    let ?s = "s\<lparr>inodes := (inodes s)(?q \<mapsto> new_inode n), open_inodes := ?q # open_inodes s, next_addr := ?q + 1\<rparr>"
    have fresh: "?q \<notin> set (open_inodes s)" using ok by (auto simp: tab_ok_def)
    have "inode_idle (fs_view s) (fs_cap s) (new_inode n)" using n by (simp add: inode_idle_def new_inode_def)
    moreover have "\<forall>q \<in> set (open_inodes s). Some n \<noteq> map_option i_sector (inodes s q)" using none(2) by metis
    ultimately have "tab_ok X ?s" using ok fresh none(2) by (auto simp: tab_ok_def new_inode_def less_Suc_eq)
    moreover have "frame p {n} s ?s" if "p \<in> set (open_inodes s)" for p
      using ok fresh that by (auto simp: frame_def open_sectors_def new_inode_def same_disk_def same_rest_def tab_ok_def)
    moreover have "inode_open n s = Some (?q, ?s)" using none(1) by (simp add: inode_open_def Let_def)
    moreover have "i_sector (new_inode n) = n" by (simp add: new_inode_def)
    ultimately show ?thesis using fresh X(1)
      by (intro exI [of _ ?q] exI [of _ ?s] exI [of _ "new_inode n"]) auto
  next
    fix q assume q: "q \<in> set (open_inodes s)" "find_open n (open_inodes s) s = Some (Some q)" "map_option i_sector (inodes s q) = Some n"
    then obtain i where i: "inodes s q = Some i" "i_sector i = n" by auto
    let ?i = "i\<lparr>open_cnt := open_cnt i + 1\<rparr>"
    let ?s = "s\<lparr>inodes := (inodes s)(q \<mapsto> ?i)\<rparr>"
    have qX: "q \<notin> X" using X(2) q(3) by auto
    have same: "same_disk (bc s) (bc s)" using ok by (simp add: same_disk_def tab_ok_def)
    have "inode_idle (fs_view s) (fs_cap s) ?i" using tab_ok_idle [OF ok q(1) qX i(1)] by (simp add: inode_idle_def)
    then have "tab_ok X (s\<lparr>bc := bc s, inodes := (inodes s)(q \<mapsto> ?i)\<rparr>)"
      by (intro tab_ok_upd [OF ok same q(1) i(1)]) auto
    then have "tab_ok X ?s" by simp
    moreover have "frame p {n} s ?s" if "p \<in> X" for p
      using ok q i qX that by (auto simp: frame_def open_sectors_def same_disk_def same_rest_def tab_ok_def)
    moreover have "q \<noteq> NULL" using tab_okD [OF ok q(1)] by simp
    ultimately show ?thesis using q i qX
      by (intro exI [of _ q] exI [of _ ?s] exI [of _ ?i]) (auto simp: inode_open_def inode_reopen_def upd_inode_def)
  qed
qed

lemma frame_mono: "frame p M s s' \<Longrightarrow> M \<subseteq> M' \<Longrightarrow> frame p M' s s'"
  unfolding frame_def by blast

lemma frame_upd:
  assumes "same_disk (bc s) b" and "inodes s q = Some i" and "q \<noteq> p"
    and "i_sector i' = i_sector i" and "removed i' = removed i" and "deny_write_cnt i' = deny_write_cnt i"
  shows "frame p M s (s\<lparr>bc := b, inodes := (inodes s)(q \<mapsto> i')\<rparr>)"
  using assms by (auto simp: frame_def open_sectors_def same_rest_def)

lemma frame_view: "frame p M s s' \<Longrightarrow> fs_cap s' = fs_cap s \<and> (\<forall>k < fs_cap s. fs_view s' k = fs_view s k) \<and> bc_ok (bc s')"
  by (simp add: frame_def same_disk_def)

text \<open>Reading one entry of the index block in sector \<open>m\<close> and closing the block's inode again.\<close>

lemma index_block_lookup:
  assumes ok: "tab_ok {p} s" and p: "p \<in> set (open_inodes s)" "inodes s p = Some i" "i_sector i \<noteq> m" and m: "m < fs_cap s"
    and ix: "d_is_index_block (disk_of_bytes (fs_view s m)) \<noteq> 0" and j: "j < INDEX_BLOCK_ENTRIES"
  shows "\<exists>q s2 s3. open_index m s = Some (q, s2) \<and>
    check_allocate_and_get_sector fmw False q INDEX_BLOCK_ENTRIES j False s2 = Some (d_index (disk_of_bytes (fs_view s m)) ! j, s2) \<and>
    inode_release_disk q s2 = Some s3 \<and> frame p {m} s s3 \<and> tab_ok {p} s3 \<and> p \<in> set (open_inodes s3)"
proof -
  let ?d = "disk_of_bytes (fs_view s m)"
  obtain q s1 i1 where o: "inode_open m s = Some (q, s1)" "tab_ok {p} s1" "q \<in> set (open_inodes s1)" "q \<noteq> p"
      "inodes s1 q = Some i1" "i_sector i1 = m" "bc s1 = bc s" "frame p {m} s s1"
    using inode_open_ok [OF ok m, unfolded singleton_iff] p by fastforce
  have bc1: "bc_ok (bc s1)" using tab_okD [OF o(2,3)] by simp
  have idle: "inode_idle (fs_view s1) (fs_cap s1) i1" using tab_ok_idle [OF o(2,3) _ o(5)] o(4) by simp
  let ?i2 = "i1\<lparr>i_data := Some ?d, logical_length := d_length ?d, access_count := 1\<rparr>"
  obtain b where b: "inode_load_disk q s1 = Some (s1\<lparr>bc := b, inodes := (inodes s1)(q \<mapsto> ?i2)\<rparr>)" "same_disk (bc s1) b"
    using inode_load_disk_ok [OF bc1 o(5) idle refl] o(6,7) by auto
  let ?s2 = "s1\<lparr>bc := b, inodes := (inodes s1)(q \<mapsto> ?i2)\<rparr>"
  have bc2: "bc_ok (bc ?s2)" and v2: "bc_view b m = fs_view s m" and cap2: "fs_size b = fs_cap s"
    using b(2) o(7) m by (auto simp: same_disk_def)
  have t2: "tab_ok {p, q} ?s2" by (intro tab_ok_upd [OF o(2) b(2) o(3,5)]) auto
  have f2: "frame p {m} s1 ?s2" by (intro frame_upd [OF b(2) o(5,4)]) simp_all
  have unl: "\<not> inode_lock ?i2" using idle by (simp add: inode_idle_def)
  obtain b3 where b3: "inode_release_disk q ?s2 = Some (?s2\<lparr>bc := b3, inodes := (inodes ?s2)(q \<mapsto> ?i2\<lparr>access_count := 0, i_data := None\<rparr>)\<rparr>)"
      "same_disk (bc ?s2) b3"
    using inode_release_unchanged [OF bc2, of q ?i2] unl o(6) v2 cap2 m by auto
  let ?s3 = "?s2\<lparr>bc := b3, inodes := (inodes ?s2)(q \<mapsto> ?i2\<lparr>access_count := 0, i_data := None\<rparr>)\<rparr>"
  have q2: "q \<in> set (open_inodes ?s2)" "inodes ?s2 q = Some ?i2" using o(3) by simp_all
  have "tab_ok {p} ?s3"
    by (rule tab_ok_upd [OF t2 b3(2) q2]) (use idle o(6) v2 cap2 m in \<open>auto simp: inode_idle_def\<close>)
  moreover have "frame p {m} ?s2 ?s3" by (intro frame_upd [OF b3(2) q2(2) o(4)]) simp_all
  then have "frame p {m} s ?s3" using frame_trans [OF frame_trans [OF o(8) f2]] by blast
  moreover have "open_index m s = Some (q, ?s2)"
    using o(1,3,4) b(1) ix tab_okD [OF o(2,3)] by (simp add: open_index_def get_data_def)
  moreover have "check_allocate_and_get_sector fmw False q INDEX_BLOCK_ENTRIES j False ?s2 = Some (d_index ?d ! j, ?s2)"
    using j length_d_index [of "fs_view s m"] bc.view_length [OF tab_okD(1) [OF ok p(1)] m]
    by (simp add: check_allocate_and_get_sector_def get_index_def get_data_def inode_constants)
  moreover have "p \<in> set (open_inodes ?s3)" using o(8) p(1) by (auto simp: frame_def)
  ultimately show ?thesis using b3(1) by blast
qed

lemma pos_to_real_sector_ok:
  assumes ok: "tab_ok {p} s" and p: "p \<in> set (open_inodes s)" "inodes s p = Some i" "i_data i = Some d"
    and lay: "layout_ok (fs_view s) (fs_cap s) (i_sector i) d n" and pos: "0 \<le> pos" "nat (pos div int BLOCK_SECTOR_SIZE) = k" and k: "k < n"
  shows "\<exists>s'. inode_pos_to_real_sector fmw p pos False s = Some (data_sector (fs_view s) d k, s') \<and>
    frame p (index_sectors d n) s s' \<and> tab_ok {p} s' \<and> p \<in> set (open_inodes s')"
proof (cases "is_indirect k")
  case False
  then have "k \<le> INODE_ACCESS_DIRECT" "k < INDEX_MAIN_ENTRIES" by (auto simp: is_indirect_def inode_constants)
  then show ?thesis using False assms tab_okD [OF ok p(1)] frame_refl [of s p "index_sectors d n"]
    by (intro exI [of _ s]) (simp add: inode_pos_to_real_sector_def check_allocate_and_get_sector_def get_index_def get_data_def
      data_sector_def layout_ok_def Let_def)
next
  case True
  let ?m = "d_index d ! main_idx_indirect k"
  have dir: "INODE_ACCESS_DIRECT < k" "k \<le> INODE_ACCESS_INDIRECT" using True k lay by (auto simp: is_indirect_def layout_ok_def)
  have m: "?m \<in> index_sectors d n" using True k by (auto simp: index_sectors_def)
  then have m': "?m < fs_cap s" "?m \<noteq> SECTOR_ERROR" "i_sector i \<noteq> ?m" "d_is_index_block (disk_of_bytes (fs_view s ?m)) \<noteq> 0"
    using lay by (auto simp: layout_ok_def)
  obtain q s2 s3 where o: "open_index ?m s = Some (q, s2)"
      "check_allocate_and_get_sector fmw False q INDEX_BLOCK_ENTRIES (inner_idx_indirect k) False s2 = Some (data_sector (fs_view s) d k, s2)"
      "inode_release_disk q s2 = Some s3" "frame p {?m} s s3" "tab_ok {p} s3" "p \<in> set (open_inodes s3)"
    using index_block_lookup [where fmw = fmw, OF ok p(1,2) m'(3,1,4) indirect_in_bounds(3) [OF dir]] True unfolding data_sector_def by auto
  have c: "check_allocate_and_get_sector fmw False p INDEX_MAIN_ENTRIES (main_idx_indirect k) True s = Some (?m, s)"
    using indirect_in_bounds(4) [OF dir] p lay by (simp add: check_allocate_and_get_sector_def get_index_def get_data_def layout_ok_def)
  have ne: "data_sector (fs_view s) d k \<noteq> SECTOR_ERROR" using lay k by (auto simp: layout_ok_def)
  have "inode_pos_to_real_sector fmw p pos False s = Some (data_sector (fs_view s) d k, s3)"
    using dir pos tab_okD [OF ok p(1)] c o(1-3) m'(2) ne by (simp add: inode_pos_to_real_sector_def Let_def)
  then show ?thesis using o(4-6) m frame_mono [OF o(4), of "index_sectors d n"] by auto
qed

section \<open>The bytes of a file\<close>

definition file_bytes :: "(nat \<Rightarrow> sector) \<Rightarrow> inode_disk \<Rightarrow> u8 list" where
  "file_bytes v d = map (\<lambda>j. v (data_sector v d (j div BLOCK_SECTOR_SIZE)) ! (j mod BLOCK_SECTOR_SIZE)) [0..<nat (d_length d)]"

definition file_blocks :: "inode_disk \<Rightarrow> nat" where
  "file_blocks d = DIV_ROUND_UP (nat (d_length d)) BLOCK_SECTOR_SIZE"

abbreviation file_ok :: "(nat \<Rightarrow> sector) \<Rightarrow> nat \<Rightarrow> nat \<Rightarrow> inode_disk \<Rightarrow> bool" where
  "file_ok v cap own d \<equiv> layout_ok v cap own d (file_blocks d)"

lemma sector_pos [simp]: "0 < BLOCK_SECTOR_SIZE"
  by (simp add: BLOCK_SECTOR_SIZE_def)

lemma smod_nat: "int a smod int b = int (a mod b)"
  by (cases "a = 0") (simp_all add: signed_modulo_int_def zmod_int)

lemma block_of_byte: "j < nat (d_length d) \<Longrightarrow> j div BLOCK_SECTOR_SIZE < file_blocks d"
  unfolding file_blocks_def by (rule div_less_DIV_ROUND_UP) simp_all

lemma data_sector_cong:
  assumes lay: "layout_ok v cap own d n" and k: "k < n" and v: "\<forall>m \<in> index_sectors d n. v' m = v m"
  shows "data_sector v' d k = data_sector v d k"
  using v k by (auto simp: data_sector_def index_sectors_def)

lemma layout_ok_cong:
  assumes lay: "layout_ok v cap own d n" and v: "\<forall>m \<in> index_sectors d n. v' m = v m"
  shows "layout_ok v' cap own d n"
  using lay v data_sector_cong [OF lay _ v] by (simp add: layout_ok_def)

lemma index_sectors_less: "layout_ok v cap own d n \<Longrightarrow> m \<in> index_sectors d n \<Longrightarrow> m < cap"
  by (simp add: layout_ok_def)

lemma file_bytes_cong:
  assumes lay: "file_ok v cap own d" and v: "\<forall>m < cap. v' m = v m"
  shows "file_bytes v' d = file_bytes v d"
proof -
  have "v' (data_sector v' d k) = v (data_sector v d k)" if "k < file_blocks d" for k
    using that data_sector_cong [OF lay that, of v'] index_sectors_less [OF lay] v lay by (simp add: layout_ok_def)
  then show ?thesis using block_of_byte by (simp add: file_bytes_def)
qed

text \<open>The working state of a read or write: inode \<open>p\<close> is loaded with \<open>d\<close>, every other inode is idle.\<close>

definition busy :: "addr \<Rightarrow> inode \<Rightarrow> inode_disk \<Rightarrow> fsys \<Rightarrow> bool" where
  "busy p i d s \<longleftrightarrow> tab_ok {p} s \<and> p \<in> set (open_inodes s) \<and> inodes s p = Some i \<and> i_data i = Some d \<and>
     i_sector i < fs_cap s \<and> file_ok (fs_view s) (fs_cap s) (i_sector i) d"

lemma busy_frame:
  assumes "busy p i d s" and "frame p M s s'" and "tab_ok {p} s'" and "p \<in> set (open_inodes s')"
  shows "busy p i d s'" "file_bytes (fs_view s') d = file_bytes (fs_view s) d"
proof -
  have v: "\<forall>k < fs_cap s. fs_view s' k = fs_view s k" "fs_cap s' = fs_cap s" using frame_view [OF assms(2)] by simp_all
  have lay: "file_ok (fs_view s) (fs_cap s) (i_sector i) d" using assms(1) by (simp add: busy_def)
  have "file_ok (fs_view s') (fs_cap s) (i_sector i) d" 
    by (rule layout_ok_cong [OF lay]) (use index_sectors_less [OF lay] v(1) in blast)
  moreover have "inodes s' p = inodes s p" using assms(2) unfolding frame_def by blast
  ultimately show "busy p i d s'" using assms(1,3,4) v(2) by (simp add: busy_def)
  show "file_bytes (fs_view s') d = file_bytes (fs_view s) d" by (rule file_bytes_cong [OF lay v(1)])
qed

lemma byte_to_sector_inside:
  assumes "busy p i d s" and "ofs < nat (d_length d)"
  shows "\<exists>s'. byte_to_sector fmw p (int ofs) s = Some (data_sector (fs_view s) d (ofs div BLOCK_SECTOR_SIZE), s') \<and>
    frame p (index_sectors d (file_blocks d)) s s' \<and> tab_ok {p} s' \<and> p \<in> set (open_inodes s')"
proof -
  have b: "tab_ok {p} s" "p \<in> set (open_inodes s)" "inodes s p = Some i" "i_data i = Some d"
    "file_ok (fs_view s) (fs_cap s) (i_sector i) d" using assms(1) by (simp_all add: busy_def)
  have k: "nat (int ofs div int BLOCK_SECTOR_SIZE) = ofs div BLOCK_SECTOR_SIZE" by (simp add: zdiv_int [symmetric])
  have "int ofs < d_length d" using assms(2) by linarith
  then show ?thesis
    using pos_to_real_sector_ok [OF b, of "int ofs", OF _ k block_of_byte [OF assms(2)], of fmw] tab_okD [OF b(1,2)] b(3,4) assms(2)
    by (simp add: byte_to_sector_def get_data_def)
qed

lemma byte_to_sector_outside:
  assumes "busy p i d s" and "d_length d \<le> pos"
  shows "byte_to_sector fmw p pos s = Some (SECTOR_ERROR, s)"
  using assms tab_okD [of "{p}" s p] by (simp add: byte_to_sector_def get_data_def busy_def)

lemma div_mod_within:
  fixes b :: nat
  assumes "a mod b + j < b"
  shows "(a + j) div b = a div b" "(a + j) mod b = a mod b + j"
proof -
  show "(a + j) mod b = a mod b + j" using assms mod_add_left_eq [of a b j] by simp
  show "(a + j) div b = a div b" using assms div_add1_eq [of a j b] by simp
qed

lemma segment_in_sector:
  assumes lay: "file_ok v cap own d" and len: "length (v (data_sector v d (ofs div BLOCK_SECTOR_SIZE))) = BLOCK_SECTOR_SIZE"
    and c: "ofs mod BLOCK_SECTOR_SIZE + c \<le> BLOCK_SECTOR_SIZE" "ofs + c \<le> nat (d_length d)"
  shows "segment (v (data_sector v d (ofs div BLOCK_SECTOR_SIZE))) (ofs mod BLOCK_SECTOR_SIZE) c = segment (file_bytes v d) ofs c"
proof (rule nth_eq_iff)
  show "length (segment (v (data_sector v d (ofs div BLOCK_SECTOR_SIZE))) (ofs mod BLOCK_SECTOR_SIZE) c) = length (segment (file_bytes v d) ofs c)"
    using c len by (simp add: file_bytes_def)
  fix j assume "j < length (segment (v (data_sector v d (ofs div BLOCK_SECTOR_SIZE))) (ofs mod BLOCK_SECTOR_SIZE) c)"
  then have j: "j < c" using c len by simp
  then have lt: "ofs mod BLOCK_SECTOR_SIZE + j < BLOCK_SECTOR_SIZE" using c(1) by linarith
  from div_mod_within [OF this] show "segment (v (data_sector v d (ofs div BLOCK_SECTOR_SIZE))) (ofs mod BLOCK_SECTOR_SIZE) c ! j = segment (file_bytes v d) ofs c ! j"
    using j c len by (simp add: segment_nth file_bytes_def)
qed

lemma segment_add: "m \<le> n \<Longrightarrow> segment xs a m @ segment xs (a + m) (n - m) = segment xs a n"
  using take_add [of m "n - m" "drop a xs"] by (simp add: segment_def add.commute)

section \<open>Reading\<close>

lemma chunk_size_nat:
  assumes "ofs < nat L" and "m \<le> B"
  shows "chunk_size (int cnt) (L - int ofs) (int B - int m) = int (min cnt (min (nat L - ofs) (B - m)))"
proof -
  have e: "L - int ofs = int (nat L - ofs)" "int B - int m = int (B - m)" using assms by linarith+
  show ?thesis unfolding e chunk_size_def Let_def by (simp add: min_def del: of_nat_diff)
qed

lemma inode_read_step:
  assumes b: "busy p i d s" and ll: "logical_length i = d_length d" and cnt: "0 < cnt" and ofs: "ofs < nat (d_length d)"
    and c: "c = min cnt (min (nat (d_length d) - ofs) (BLOCK_SECTOR_SIZE - ofs mod BLOCK_SECTOR_SIZE))"
  shows "\<exists>s'. inode_read_loop fmw p (int cnt) (int ofs) acc s =
      inode_read_loop fmw p (int (cnt - c)) (int (ofs + c)) (acc @ segment (file_bytes (fs_view s) d) ofs c) s' \<and>
    frame p (index_sectors d (file_blocks d)) s s' \<and> tab_ok {p} s' \<and> p \<in> set (open_inodes s')"
proof -
  let ?n = "data_sector (fs_view s) d (ofs div BLOCK_SECTOR_SIZE)" and ?o = "ofs mod BLOCK_SECTOR_SIZE"
  obtain s1 where s1: "byte_to_sector fmw p (int ofs) s = Some (?n, s1)" "frame p (index_sectors d (file_blocks d)) s s1"
      "tab_ok {p} s1" "p \<in> set (open_inodes s1)"
    using byte_to_sector_inside [OF b ofs] by blast
  have lay: "file_ok (fs_view s) (fs_cap s) (i_sector i) d" and ok: "bc_ok (bc s)" and p: "inodes s p = Some i"
    using b tab_okD by (auto simp: busy_def)
  have n: "?n < fs_cap s" "?n \<noteq> SECTOR_ERROR" using lay block_of_byte [OF ofs] by (auto simp: layout_ok_def)
  have o: "?o < BLOCK_SECTOR_SIZE" by simp
  have c': "0 < c" "c \<le> cnt" "?o + c \<le> BLOCK_SECTOR_SIZE" "ofs + c \<le> nat (d_length d)" using c cnt ofs o by linarith+
  have v1: "fs_view s1 ?n = fs_view s ?n" "fs_cap s1 = fs_cap s" "bc_ok (bc s1)" using frame_view [OF s1(2)] n by auto
  obtain b1 where b1: "fs_block_read ?n ?o c s1 = Some (segment (fs_view s ?n) ?o c, s1\<lparr>bc := b1\<rparr>)" "same_disk (bc s1) b1"
    using fs_block_read_ok [OF v1(3), of ?n ?o c] n c' v1 by auto
  have seg: "segment (fs_view s ?n) ?o c = segment (file_bytes (fs_view s) d) ofs c"
    by (rule segment_in_sector [OF lay bc.view_length [OF ok n(1)] c'(3,4)])
  have p1: "inodes s1 p = Some i" using s1(2) p by (simp add: frame_def)
  note chunk = chunk_size_nat [OF ofs less_imp_le [OF o], of cnt, folded c]
  have eq: "inode_read_loop fmw p (int cnt) (int ofs) acc s =
      inode_read_loop fmw p (int cnt - int c) (int ofs + int c) (acc @ segment (file_bytes (fs_view s) d) ofs c) (s1\<lparr>bc := b1\<rparr>)"
    by (subst inode_read_loop.simps) (use cnt s1(1) n(2) p1 ll b1(1) seg c' in \<open>simp add: Let_def smod_nat chunk\<close>)
  have "inodes (s1\<lparr>bc := b1\<rparr>) = (inodes s1)(p \<mapsto> i)" using p1 by auto
  then have upd: "s1\<lparr>bc := b1\<rparr> = s1\<lparr>bc := b1, inodes := (inodes s1)(p \<mapsto> i)\<rparr>" by simp
  have "tab_ok {p} (s1\<lparr>bc := b1\<rparr>)" 
    by (subst upd, intro tab_ok_upd [OF s1(3) b1(2) s1(4) p1]) auto
  moreover have "frame p (index_sectors d (file_blocks d)) s1 (s1\<lparr>bc := b1\<rparr>)"
    using b1(2) by (simp add: frame_def open_sectors_def same_rest_def)
  then have "frame p (index_sectors d (file_blocks d)) s (s1\<lparr>bc := b1\<rparr>)" by (rule frame_trans [OF s1(2)])
  ultimately show ?thesis using eq s1(4) c'(2) by (intro exI [of _ "s1\<lparr>bc := b1\<rparr>"]) (simp add: of_nat_diff)
qed

lemma inode_read_loop_ok:
  "busy p i d s \<Longrightarrow> logical_length i = d_length d \<Longrightarrow>
   \<exists>s'. inode_read_loop fmw p (int cnt) (int ofs) acc s = Some (acc @ segment (file_bytes (fs_view s) d) ofs cnt, s') \<and>
     frame p (index_sectors d (file_blocks d)) s s' \<and> tab_ok {p} s' \<and> p \<in> set (open_inodes s')"
proof (induction cnt arbitrary: ofs acc s rule: less_induct)
  case (less cnt)
  have triv: "frame p (index_sectors d (file_blocks d)) s s" "tab_ok {p} s" "p \<in> set (open_inodes s)"
    using less.prems(1) frame_refl tab_okD by (auto simp: busy_def)
  consider "cnt = 0" | "0 < cnt" "nat (d_length d) \<le> ofs" | "0 < cnt" "ofs < nat (d_length d)" by linarith
  then show ?case
  proof cases
    case 1
    then show ?thesis using triv by (subst inode_read_loop.simps) (simp add: segment_def)
  next
    case 2
    then have "byte_to_sector fmw p (int ofs) s = Some (SECTOR_ERROR, s)"
      using byte_to_sector_outside [OF less.prems(1), of "int ofs"] by simp
    then show ?thesis using 2 triv by (subst inode_read_loop.simps) (simp add: segment_def file_bytes_def)
  next
    case 3
    define c where "c = min cnt (min (nat (d_length d) - ofs) (BLOCK_SECTOR_SIZE - ofs mod BLOCK_SECTOR_SIZE))"
    have c: "0 < c" "c \<le> cnt" using 3 mod_less_divisor [of BLOCK_SECTOR_SIZE ofs] by (auto simp: c_def simp del: mod_less_divisor)
    obtain s1 where s1: "inode_read_loop fmw p (int cnt) (int ofs) acc s =
        inode_read_loop fmw p (int (cnt - c)) (int (ofs + c)) (acc @ segment (file_bytes (fs_view s) d) ofs c) s1"
      "frame p (index_sectors d (file_blocks d)) s s1" "tab_ok {p} s1" "p \<in> set (open_inodes s1)"
      using inode_read_step [OF less.prems 3 c_def] by blast
    note b1 = busy_frame [OF less.prems(1) s1(2-4)]
    obtain s2 where s2: "inode_read_loop fmw p (int (cnt - c)) (int (ofs + c)) (acc @ segment (file_bytes (fs_view s) d) ofs c) s1 =
        Some ((acc @ segment (file_bytes (fs_view s) d) ofs c) @ segment (file_bytes (fs_view s) d) (ofs + c) (cnt - c), s2)"
      "frame p (index_sectors d (file_blocks d)) s1 s2" "tab_ok {p} s2" "p \<in> set (open_inodes s2)"
      using less.IH [of "cnt - c" s1 "ofs + c", OF _ b1(1) less.prems(2)] c 3 unfolding b1(2) by fastforce
    then show ?thesis using s1(1) frame_trans [OF s1(2) s2(2)] segment_add [OF c(2)] by auto
  qed
qed

abbreviation fs_ok :: "fsys \<Rightarrow> bool" where
  "fs_ok s \<equiv> tab_ok {} s"

lemma open_sectors_upd:
  assumes "inodes s q = Some i" and "i_sector i' = i_sector i"
  shows "open_sectors (s\<lparr>bc := b, inodes := (inodes s)(q \<mapsto> i')\<rparr>) = open_sectors s"
proof -
  have "map_option i_sector (((inodes s)(q \<mapsto> i')) x) = map_option i_sector (inodes s x)" for x using assms by simp
  then show ?thesis unfolding open_sectors_def by simp
qed

text \<open>Loading an idle inode gives a busy one, and releasing it unchanged an idle one.\<close>

lemma load_busy:
  assumes ok: "fs_ok s" and p: "p \<in> set (open_inodes s)" "inodes s p = Some i" and d: "d = disk_of_bytes (fs_view s (i_sector i))"
    and lay: "file_ok (fs_view s) (fs_cap s) (i_sector i) d"
  shows "\<exists>s1. inode_load_disk p s = Some s1 \<and>
    busy p (i\<lparr>i_data := Some d, logical_length := d_length d, access_count := 1\<rparr>) d s1 \<and> same_disk (bc s) (bc s1) \<and>
    open_sectors s1 = open_sectors s \<and> same_rest s s1 \<and> set (open_inodes s1) = set (open_inodes s)"
proof -
  let ?i = "i\<lparr>i_data := Some d, logical_length := d_length d, access_count := 1\<rparr>"
  have idle: "inode_idle (fs_view s) (fs_cap s) i" using tab_ok_idle [OF ok p(1) _ p(2)] by simp
  obtain b where b: "inode_load_disk p s = Some (s\<lparr>bc := b, inodes := (inodes s)(p \<mapsto> ?i)\<rparr>)" "same_disk (bc s) b"
    using inode_load_disk_ok [OF tab_okD(1) [OF ok p(1)] p(2) idle d] by blast
  let ?s1 = "s\<lparr>bc := b, inodes := (inodes s)(p \<mapsto> ?i)\<rparr>"
  have "tab_ok {p} ?s1" by (intro tab_ok_upd [OF ok b(2) p]) auto
  moreover have "file_ok (bc_view b) (fs_size b) (i_sector i) d"
    using layout_ok_cong [OF lay, of "bc_view b"] index_sectors_less [OF lay] b(2) by (simp add: same_disk_def)
  moreover have "open_sectors ?s1 = open_sectors s" by (rule open_sectors_upd [OF p(2)]) simp
  ultimately show ?thesis using b p(1) idle by (intro exI [of _ ?s1]) (simp add: busy_def inode_idle_def same_disk_def same_rest_def)
qed

lemma release_busy:
  assumes b: "busy p i d s" and i: "access_count i = 1" "\<not> inode_lock i" "\<not> inode_growth i" "logical_length i = d_length d"
    and d: "d = disk_of_bytes (fs_view s (i_sector i))"
  shows "\<exists>s'. inode_release_disk p s = Some s' \<and> fs_ok s' \<and> same_disk (bc s) (bc s') \<and> p \<in> set (open_inodes s') \<and>
    inodes s' p = Some (i\<lparr>access_count := 0, i_data := None\<rparr>) \<and> same_rest s s' \<and> open_sectors s' = open_sectors s"
proof -
  have ok: "tab_ok {p} s" "p \<in> set (open_inodes s)" "inodes s p = Some i" "i_data i = Some d" and n: "i_sector i < fs_cap s"
    using b by (simp_all add: busy_def)
  obtain b' where b': "inode_release_disk p s = Some (s\<lparr>bc := b', inodes := (inodes s)(p \<mapsto> i\<lparr>access_count := 0, i_data := None\<rparr>)\<rparr>)"
      "same_disk (bc s) b'"
    using inode_release_unchanged [OF tab_okD(1) [OF ok(1,2)] ok(3) i(1,2) _ n] ok(4) d by auto
  have "fs_ok (s\<lparr>bc := b', inodes := (inodes s)(p \<mapsto> i\<lparr>access_count := 0, i_data := None\<rparr>)\<rparr>)"
    by (rule tab_ok_upd [OF ok(1) b'(2) ok(2,3)]) (use i d n in \<open>simp_all add: inode_idle_def\<close>)
  moreover have "open_sectors (s\<lparr>bc := b', inodes := (inodes s)(p \<mapsto> i\<lparr>access_count := 0, i_data := None\<rparr>)\<rparr>) = open_sectors s"
    by (rule open_sectors_upd [OF ok(3)]) simp
  ultimately show ?thesis using b' ok(2) by (auto simp: same_rest_def)
qed

lemma inode_read_at_ok:
  assumes "fs_ok s" and "p \<in> set (open_inodes s)" and "inodes s p = Some i"
    and "d = disk_of_bytes (fs_view s (i_sector i))" and "file_ok (fs_view s) (fs_cap s) (i_sector i) d"
  shows "\<exists>s' i'. inode_read_at fmw p (int cnt) (int ofs) s = Some (segment (file_bytes (fs_view s) d) ofs cnt, s') \<and>
    fs_ok s' \<and> same_disk (bc s) (bc s') \<and> same_rest s s' \<and> p \<in> set (open_inodes s') \<and>
    open_sectors s' \<subseteq> open_sectors s \<union> index_sectors d (file_blocks d) \<and>
    inodes s' p = Some i' \<and> i_sector i' = i_sector i \<and> deny_write_cnt i' = deny_write_cnt i"
proof (cases "logical_length i = 0")
  case True
  have "inode_idle (fs_view s) (fs_cap s) i" using tab_ok_idle [OF assms(1,2) _ assms(3)] by simp
  then have "d_length d = 0" using True assms(4) by (auto simp: inode_idle_def)
  then show ?thesis using True assms(1,2,3) tab_okD(1) [OF assms(1,2)]
    by (intro exI [of _ s] exI [of _ i]) (simp add: inode_read_at_def file_bytes_def segment_def same_disk_def same_rest_def)
next
  case False
  let ?i = "i\<lparr>i_data := Some d, logical_length := d_length d, access_count := 1\<rparr>"
  have idle: "inode_idle (fs_view s) (fs_cap s) i" using tab_ok_idle [OF assms(1,2) _ assms(3)] by simp
  obtain s1 where s1: "inode_load_disk p s = Some s1" "busy p ?i d s1" "same_disk (bc s) (bc s1)" "open_sectors s1 = open_sectors s" "same_rest s s1"
    using load_busy [OF assms] by blast
  obtain s2 where s2: "inode_read_loop fmw p (int cnt) (int ofs) [] s1 = Some (segment (file_bytes (fs_view s1) d) ofs cnt, s2)"
      "frame p (index_sectors d (file_blocks d)) s1 s2" "tab_ok {p} s2" "p \<in> set (open_inodes s2)"
    using inode_read_loop_ok [OF s1(2), of fmw cnt ofs "[]"] by auto
  note b2 = busy_frame [OF s1(2) s2(2-4)]
  have sd: "same_disk (bc s) (bc s2)" using s1(3) s2(2) same_disk_trans by (auto simp: frame_def)
  have fr: "same_rest s1 s2" "open_sectors s2 \<subseteq> open_sectors s1 \<union> index_sectors d (file_blocks d)"
    using s2(2) unfolding frame_def by blast+
  obtain s3 where s3: "inode_release_disk p s2 = Some s3" "fs_ok s3" "same_disk (bc s2) (bc s3)" "p \<in> set (open_inodes s3)"
      "inodes s3 p = Some (?i\<lparr>access_count := 0, i_data := None\<rparr>)" "same_rest s2 s3" "open_sectors s3 = open_sectors s2"
    using release_busy [OF b2(1)] idle assms(4) sd by (auto simp: inode_idle_def same_disk_def)
  have "file_bytes (fs_view s1) d = file_bytes (fs_view s) d"
    using file_bytes_cong [OF assms(5), of "fs_view s1"] s1(3) by (simp add: same_disk_def)
  then have "inode_read_at fmw p (int cnt) (int ofs) s = Some (segment (file_bytes (fs_view s) d) ofs cnt, s3)"
    using False assms(3) s1(1) s2(1) s3(1) by (simp add: inode_read_at_def)
  then show ?thesis
    using s3(2,4,5) same_disk_trans [OF sd s3(3)] same_rest_trans [OF same_rest_trans [OF s1(5) fr(1)] s3(6)] fr(2) s3(7) s1(4)
    by (intro exI [of _ s3] exI [of _ "?i\<lparr>access_count := 0, i_data := None\<rparr>"]) simp
qed

text \<open>
  C5: reading a file. For an open file whose index is in order, up to the end of the indirect range,
  \<^verbatim>\<open>inode_read_at\<close> returns, and what it returns is the requested segment of the bytes of the file, cut off at the end
  of the file; it leaves the contents of the disk as they are and the table of open inodes consistent.
\<close>

theorem inode_read_at_segment:
  assumes "fs_ok s" and "p \<in> set (open_inodes s)" and "inodes s p = Some i"
    and "d = disk_of_bytes (fs_view s (i_sector i))" and "file_ok (fs_view s) (fs_cap s) (i_sector i) d"
  shows "\<exists>s'. inode_read_at fmw p (int cnt) (int ofs) s = Some (segment (file_bytes (fs_view s) d) ofs cnt, s') \<and>
    fs_ok s' \<and> same_disk (bc s) (bc s')"
  using inode_read_at_ok [OF assms] by blast

section \<open>Writing inside a file\<close>

text \<open>\<open>apart v d n M\<close>: the first \<open>n\<close> blocks of the file are in different sectors, which hold neither index blocks
  nor any of the inodes in the sectors \<open>M\<close>.\<close>

definition apart :: "(nat \<Rightarrow> sector) \<Rightarrow> inode_disk \<Rightarrow> nat \<Rightarrow> nat set \<Rightarrow> bool" where
  "apart v d n M \<longleftrightarrow> inj_on (data_sector v d) {..<n} \<and> (\<forall>k < n. data_sector v d k \<notin> index_sectors d n \<union> M)"

lemma apart_cong:
  assumes "layout_ok v cap own d n" and "\<forall>m \<in> index_sectors d n. v' m = v m" and "apart v d n M" and "M' \<subseteq> M \<union> index_sectors d n"
  shows "apart v' d n M'"
proof -
  have eq: "data_sector v' d k = data_sector v d k" if "k < n" for k using data_sector_cong [OF assms(1) that assms(2)] .
  then have "inj_on (data_sector v' d) {..<n} = inj_on (data_sector v d) {..<n}" by (intro inj_on_cong) simp
  then show ?thesis using assms(3,4) eq by (auto simp: apart_def)
qed

lemma overwrite_append:
  assumes "a + length ys + length zs \<le> length xs"
  shows "overwrite (overwrite xs a ys) (a + length ys) zs = overwrite xs a (ys @ zs)"
proof (rule nth_eq_iff)
  show "length (overwrite (overwrite xs a ys) (a + length ys) zs) = length (overwrite xs a (ys @ zs))" using assms by simp
  fix i assume "i < length (overwrite (overwrite xs a ys) (a + length ys) zs)"
  then have "i < length xs" using assms by simp
  then show "overwrite (overwrite xs a ys) (a + length ys) zs ! i = overwrite xs a (ys @ zs) ! i"
    using assms by (auto simp: overwrite_nth nth_append)
qed

lemma file_bytes_write:
  assumes lay: "file_ok v cap own d" and ap: "apart v d (file_blocks d) M"
    and len: "\<forall>n < cap. length (v n) = BLOCK_SECTOR_SIZE"
    and c: "ofs mod BLOCK_SECTOR_SIZE + length buf \<le> BLOCK_SECTOR_SIZE" "ofs + length buf \<le> nat (d_length d)" "ofs < nat (d_length d)"
    and n: "n = data_sector v d (ofs div BLOCK_SECTOR_SIZE)"
    and v': "\<forall>k < cap. v' k = (if k = n then overwrite (v n) (ofs mod BLOCK_SECTOR_SIZE) buf else v k)"
  shows "file_bytes v' d = overwrite (file_bytes v d) ofs buf"
proof (rule nth_eq_iff)
  have k0: "ofs div BLOCK_SECTOR_SIZE < file_blocks d" using c(3) by (rule block_of_byte)
  have ds: "data_sector v d k < cap" "data_sector v d k \<notin> index_sectors d (file_blocks d)" if "k < file_blocks d" for k
    using that lay ap by (auto simp: layout_ok_def apart_def)
  have ix: "\<forall>m \<in> index_sectors d (file_blocks d). v' m = v m" using v' index_sectors_less [OF lay] ds(2) [OF k0] n by auto
  show "length (file_bytes v' d) = length (overwrite (file_bytes v d) ofs buf)" using c by (simp add: file_bytes_def)
  fix j assume "j < length (file_bytes v' d)"
  then have j: "j < nat (d_length d)" by (simp add: file_bytes_def)
  let ?k = "j div BLOCK_SECTOR_SIZE"
  have k: "?k < file_blocks d" using j by (rule block_of_byte)
  have sec: "data_sector v' d ?k = data_sector v d ?k" using data_sector_cong [OF lay k ix] .
  have same: "data_sector v d ?k = n \<longleftrightarrow> ?k = ofs div BLOCK_SECTOR_SIZE"
    using ap k k0 n by (auto simp: apart_def dest: inj_onD)
  have inside: "(ofs \<le> j \<and> j < ofs + length buf) \<longleftrightarrow> (?k = ofs div BLOCK_SECTOR_SIZE \<and> ofs mod BLOCK_SECTOR_SIZE \<le> j mod BLOCK_SECTOR_SIZE \<and>
      j mod BLOCK_SECTOR_SIZE < ofs mod BLOCK_SECTOR_SIZE + length buf)" (is "?A \<longleftrightarrow> ?B")
  proof
    assume ?A
    then have "ofs mod BLOCK_SECTOR_SIZE + (j - ofs) < BLOCK_SECTOR_SIZE" using c(1) by linarith
    from div_mod_within [OF this] \<open>?A\<close> show ?B by auto
  next
    assume ?B
    then have e: "?k = ofs div BLOCK_SECTOR_SIZE" by simp
    show ?A using div_mult_mod_eq [of j BLOCK_SECTOR_SIZE, unfolded e] div_mult_mod_eq [of ofs BLOCK_SECTOR_SIZE] \<open>?B\<close> by linarith
  qed
  have diff: "j mod BLOCK_SECTOR_SIZE - ofs mod BLOCK_SECTOR_SIZE = j - ofs" if "?k = ofs div BLOCK_SECTOR_SIZE"
    using div_mult_mod_eq [of j BLOCK_SECTOR_SIZE, unfolded that] div_mult_mod_eq [of ofs BLOCK_SECTOR_SIZE] by linarith
  have "file_bytes v' d ! j = v' (data_sector v d ?k) ! (j mod BLOCK_SECTOR_SIZE)" using j sec by (simp add: file_bytes_def)
  also have "\<dots> = (if ?B then buf ! (j - ofs) else v (data_sector v d ?k) ! (j mod BLOCK_SECTOR_SIZE))"
    using v' ds(1) [OF k] ds(1) [OF k0] len same n diff c(1) by (auto simp: overwrite_nth)
  also have "\<dots> = overwrite (file_bytes v d) ofs buf ! j"
    using inside j c(2) by (simp add: overwrite_nth file_bytes_def)
  finally show "file_bytes v' d ! j = overwrite (file_bytes v d) ofs buf ! j" .
qed

lemma tab_ok_write:
  assumes "tab_ok X s" and "bc_ok b" and "fs_size b = fs_cap s" and "\<forall>k \<in> open_sectors s. bc_view b k = fs_view s k"
  shows "tab_ok X (s\<lparr>bc := b\<rparr>)"
proof -
  have "inode_idle (bc_view b) (fs_size b) i"
    if "q \<in> set (open_inodes s)" "inodes s q = Some i" "inode_idle (fs_view s) (fs_cap s) i" for q i
  proof -
    have "i_sector i \<in> open_sectors s" using that(1,2) by (auto simp: open_sectors_def)
    then show ?thesis using that(3) assms(3,4) by (simp add: inode_idle_def)
  qed
  then show ?thesis using assms unfolding tab_ok_def by fastforce
qed

text \<open>The state of a write in progress: the file is busy and its sectors are kept apart.\<close>

definition writing :: "addr \<Rightarrow> inode \<Rightarrow> inode_disk \<Rightarrow> fsys \<Rightarrow> bool" where
  "writing p i d s \<longleftrightarrow> busy p i d s \<and> apart (fs_view s) d (file_blocks d) (open_sectors s)"

definition written :: "inode_disk \<Rightarrow> fsys \<Rightarrow> fsys \<Rightarrow> bool" where
  "written d s s' \<longleftrightarrow> bc_ok (bc s') \<and> same_rest s s' \<and> fs_cap s' = fs_cap s \<and>
     (\<forall>n < fs_cap s. n \<notin> data_sector (fs_view s) d ` {..<file_blocks d} \<longrightarrow> fs_view s' n = fs_view s n) \<and>
     (\<forall>k < file_blocks d. data_sector (fs_view s') d k = data_sector (fs_view s) d k)"

lemma written_trans: "written d s s' \<Longrightarrow> written d s' s'' \<Longrightarrow> written d s s''"
  unfolding written_def using same_rest_trans [of s s' s''] by (auto simp: image_iff)

lemma writing_write:
  assumes w: "writing p i d s" and k: "k < file_blocks d" and b: "bc_ok b" "fs_size b = fs_cap s"
    and v: "\<forall>n < fs_cap s. n \<noteq> data_sector (fs_view s) d k \<longrightarrow> bc_view b n = fs_view s n"
  shows "writing p i d (s\<lparr>bc := b\<rparr>)" "written d s (s\<lparr>bc := b\<rparr>)"
proof -
  have bs: "tab_ok {p} s" "p \<in> set (open_inodes s)" "inodes s p = Some i" "i_data i = Some d"
    and own: "i_sector i < fs_cap s"
    and lay: "file_ok (fs_view s) (fs_cap s) (i_sector i) d" and ap: "apart (fs_view s) d (file_blocks d) (open_sectors s)"
    using w by (simp_all add: writing_def busy_def)
  have ne: "data_sector (fs_view s) d k \<notin> index_sectors d (file_blocks d) \<union> open_sectors s" using ap k by (simp add: apart_def)
  have "n < fs_cap s" if n: "n \<in> open_sectors s" for n
  proof -
    obtain q j where q: "q \<in> set (open_inodes s)" "inodes s q = Some j" "i_sector j = n" using n(1) by (auto simp: open_sectors_def)
    show ?thesis using tab_ok_idle [OF bs(1) q(1) _ q(2)] q(2,3) bs(3) own by (cases "q = p") (auto simp: inode_idle_def)
  qed
  then have op: "\<forall>n \<in> open_sectors s. bc_view b n = fs_view s n" using v ne by auto
  have ix: "\<forall>m \<in> index_sectors d (file_blocks d). bc_view b m = fs_view s m" using v ne index_sectors_less [OF lay] by auto
  have ds: "\<forall>k < file_blocks d. data_sector (bc_view b) d k = data_sector (fs_view s) d k" using data_sector_cong [OF lay _ ix] by blast
  have "tab_ok {p} (s\<lparr>bc := b\<rparr>)" by (rule tab_ok_write [OF bs(1) b op])
  then show "writing p i d (s\<lparr>bc := b\<rparr>)"
    using bs b own layout_ok_cong [OF lay ix] apart_cong [OF lay ix ap, of "open_sectors s"]
    by (simp add: writing_def busy_def open_sectors_def)
  show "written d s (s\<lparr>bc := b\<rparr>)" using b v k ds by (auto simp: written_def same_rest_def)
qed

lemma writing_frame:
  assumes "writing p i d s" and "frame p (index_sectors d (file_blocks d)) s s'" and "tab_ok {p} s'" and "p \<in> set (open_inodes s')"
  shows "writing p i d s'" "written d s s'" "file_bytes (fs_view s') d = file_bytes (fs_view s) d"
proof -
  have b: "busy p i d s" and lay: "file_ok (fs_view s) (fs_cap s) (i_sector i) d"
    and ap: "apart (fs_view s) d (file_blocks d) (open_sectors s)" using assms(1) by (simp_all add: writing_def busy_def)
  have fr: "fs_cap s' = fs_cap s" "\<forall>k < fs_cap s. fs_view s' k = fs_view s k" "bc_ok (bc s')" using frame_view [OF assms(2)] by simp_all
  have ix: "\<forall>m \<in> index_sectors d (file_blocks d). fs_view s' m = fs_view s m" using fr(2) index_sectors_less [OF lay] by blast
  have op: "open_sectors s' \<subseteq> open_sectors s \<union> index_sectors d (file_blocks d)" using assms(2) unfolding frame_def by blast
  show "writing p i d s'" using busy_frame(1) [OF b assms(2-4)] apart_cong [OF lay ix ap op] by (simp add: writing_def)
  show "file_bytes (fs_view s') d = file_bytes (fs_view s) d" by (rule busy_frame(2) [OF b assms(2-4)])
  have "\<forall>k < file_blocks d. data_sector (fs_view s') d k = data_sector (fs_view s) d k" using data_sector_cong [OF lay _ ix] by blast
  moreover have "same_rest s s'" using assms(2) unfolding frame_def by blast
  ultimately show "written d s s'" using fr unfolding written_def by blast
qed

lemma inode_write_chunk_ok:
  assumes w: "writing p i d s" and buf: "buf \<noteq> []" and ofs: "ofs < nat (d_length d)"
    and c: "c = min (length buf) (min (nat (d_length d) - ofs) (BLOCK_SECTOR_SIZE - ofs mod BLOCK_SECTOR_SIZE))"
  shows "\<exists>s'. inode_write_chunk fmw p buf (int ofs) s = Some (c, s') \<and> writing p i d s' \<and> written d s s' \<and>
    file_bytes (fs_view s') d = overwrite (file_bytes (fs_view s) d) ofs (take c buf)"
proof -
  let ?k = "ofs div BLOCK_SECTOR_SIZE" and ?o = "ofs mod BLOCK_SECTOR_SIZE"
  let ?n = "data_sector (fs_view s) d ?k"
  have b: "busy p i d s" using w by (simp add: writing_def)
  obtain s1 where s1: "byte_to_sector fmw p (int ofs) s = Some (?n, s1)" "frame p (index_sectors d (file_blocks d)) s s1"
      "tab_ok {p} s1" "p \<in> set (open_inodes s1)"
    using byte_to_sector_inside [OF b ofs] by blast
  note w1 = writing_frame [OF w s1(2-4)]
  have k: "?k < file_blocks d" using ofs by (rule block_of_byte)
  have n1: "data_sector (fs_view s1) d ?k = ?n" using w1(2) k by (simp add: written_def)
  have b1: "inodes s1 p = Some i" "i_data i = Some d" and lay1: "file_ok (fs_view s1) (fs_cap s1) (i_sector i) d" and ok1: "bc_ok (bc s1)"
    and ap1: "apart (fs_view s1) d (file_blocks d) (open_sectors s1)"
    using w1(1) s1(3,4) tab_okD by (auto simp: writing_def busy_def)
  have n: "?n < fs_cap s1" "?n \<noteq> SECTOR_ERROR" using lay1 k n1 by (auto simp: layout_ok_def)
  have o: "?o < BLOCK_SECTOR_SIZE" by simp
  have lb: "0 < length buf" using buf by simp
  have c': "0 < c" "c \<le> length buf" "?o + c \<le> BLOCK_SECTOR_SIZE" "ofs + c \<le> nat (d_length d)" using c lb ofs o by linarith+
  have lt: "length (take c buf) = c" using c' by simp
  obtain b2 where b2: "fs_block_write ?n (take c buf) ?o s1 = Some (s1\<lparr>bc := b2\<rparr>)" "bc_ok b2" "fs_size b2 = fs_cap s1"
      "\<forall>k < fs_cap s1. bc_view b2 k = (if k = ?n then overwrite (fs_view s1 ?n) ?o (take c buf) else fs_view s1 k)"
    using fs_block_write_ok [OF ok1 n(1), of ?o "take c buf"] lt c'(3) by auto
  have w2: "writing p i d (s1\<lparr>bc := b2\<rparr>)" "written d s1 (s1\<lparr>bc := b2\<rparr>)"
    using writing_write [OF w1(1) k b2(2,3)] b2(4) n1 by auto
  have "file_bytes (bc_view b2) d = overwrite (file_bytes (fs_view s1) d) ofs (take c buf)"
    using bc.view_length [OF ok1] lt c' ofs b2(4) n1 by (intro file_bytes_write [OF lay1 ap1]) auto
  moreover have "inode_write_chunk fmw p buf (int ofs) s = Some (c, s1\<lparr>bc := b2\<rparr>)"
    using s1(1) n(2) b1 b2(1) c' chunk_size_nat [OF ofs less_imp_le [OF o], of "length buf", folded c]
    by (simp add: inode_write_chunk_def Let_def smod_nat get_data_def)
  ultimately show ?thesis using w1(3) w2 written_trans [OF w1(2) w2(2)] by auto
qed

lemma inode_write_loop_ok:
  "writing p i d s \<Longrightarrow> deny_write_cnt i = 0 \<Longrightarrow> ofs + length buf \<le> nat (d_length d) \<Longrightarrow>
   \<exists>s'. inode_write_loop fmw p buf (int ofs) n s = Some (n + length buf, s') \<and> writing p i d s' \<and> written d s s' \<and>
     file_bytes (fs_view s') d = overwrite (file_bytes (fs_view s) d) ofs buf"
proof (induction "length buf" arbitrary: buf ofs n s rule: less_induct)
  case less
  have p: "inodes s p = Some i" and ok: "bc_ok (bc s)" using less.prems(1) tab_okD by (auto simp: writing_def busy_def)
  show ?case
  proof (cases "buf = []")
    case True
    then show ?thesis using less.prems p ok
      by (subst inode_write_loop.simps) (auto simp: written_def file_bytes_def same_rest_def)
  next
    case False
    have ofs: "ofs < nat (d_length d)" using False less.prems(3) by (cases buf) auto
    define c where "c = min (length buf) (min (nat (d_length d) - ofs) (BLOCK_SECTOR_SIZE - ofs mod BLOCK_SECTOR_SIZE))"
    have lb: "0 < length buf" and o: "ofs mod BLOCK_SECTOR_SIZE < BLOCK_SECTOR_SIZE" using False by simp_all
    have c: "0 < c" "c \<le> length buf" using lb o ofs unfolding c_def by linarith+
    obtain s1 where s1: "inode_write_chunk fmw p buf (int ofs) s = Some (c, s1)" "writing p i d s1" "written d s s1"
        "file_bytes (fs_view s1) d = overwrite (file_bytes (fs_view s) d) ofs (take c buf)"
      using inode_write_chunk_ok [OF less.prems(1) False ofs c_def] by blast
    obtain s2 where s2: "inode_write_loop fmw p (drop c buf) (int (ofs + c)) (n + c) s1 = Some (n + c + length (drop c buf), s2)"
        "writing p i d s2" "written d s1 s2" "file_bytes (fs_view s2) d = overwrite (file_bytes (fs_view s1) d) (ofs + c) (drop c buf)"
      using less.hyps [of "drop c buf" s1 "ofs + c" "n + c", OF _ s1(2) less.prems(2)] less.prems(3) c lb by auto
    have "inode_write_loop fmw p buf (int ofs) n s = inode_write_loop fmw p (drop c buf) (int (ofs + c)) (n + c) s1"
      by (subst inode_write_loop.simps) (use p False less.prems(2) s1(1) c in simp)
    moreover have "overwrite (overwrite (file_bytes (fs_view s) d) ofs (take c buf)) (ofs + c) (drop c buf) = overwrite (file_bytes (fs_view s) d) ofs buf"
      using overwrite_append [of ofs "take c buf" "drop c buf" "file_bytes (fs_view s) d"] c less.prems(3) by (simp add: file_bytes_def)
    ultimately show ?thesis using s2 s1(4) c written_trans [OF s1(3) s2(3)] by auto
  qed
qed

lemma inode_write_at_ok:
  assumes ok: "fs_ok s" and p: "p \<in> set (open_inodes s)" "inodes s p = Some i" "deny_write_cnt i = 0"
    and d: "d = disk_of_bytes (fs_view s (i_sector i))" and lay: "file_ok (fs_view s) (fs_cap s) (i_sector i) d"
    and ap: "apart (fs_view s) d (file_blocks d) (open_sectors s)" and range: "ofs + length buf \<le> nat (d_length d)"
  shows "\<exists>s' i'. inode_write_at fmw p buf (int ofs) s = Some (length buf, s') \<and> fs_ok s' \<and> written d s s' \<and>
    p \<in> set (open_inodes s') \<and> inodes s' p = Some i' \<and> i_sector i' = i_sector i \<and> deny_write_cnt i' = 0 \<and>
    d = disk_of_bytes (fs_view s' (i_sector i)) \<and> file_ok (fs_view s') (fs_cap s') (i_sector i) d \<and>
    apart (fs_view s') d (file_blocks d) (open_sectors s') \<and>
    file_bytes (fs_view s') d = overwrite (file_bytes (fs_view s) d) ofs buf"
proof -
  let ?i = "i\<lparr>i_data := Some d, logical_length := d_length d, access_count := 1\<rparr>"
  have idle: "inode_idle (fs_view s) (fs_cap s) i" using tab_ok_idle [OF ok p(1) _ p(2)] by simp
  then have own: "i_sector i < fs_cap s" by (simp add: inode_idle_def)
  have own_ne: "i_sector i \<notin> data_sector (fs_view s) d ` {..<file_blocks d}"
    using p(1,2) ap by (auto simp: apart_def open_sectors_def)
  obtain s1 where s1: "inode_load_disk p s = Some s1" "busy p ?i d s1" "same_disk (bc s) (bc s1)" "open_sectors s1 = open_sectors s" "same_rest s s1"
    using load_busy [OF ok p(1,2) d lay] by blast
  have v1: "\<forall>m < fs_cap s. fs_view s1 m = fs_view s m" "fs_cap s1 = fs_cap s" "bc_ok (bc s1)" using s1(3) by (simp_all add: same_disk_def)
  have ix: "\<forall>m \<in> index_sectors d (file_blocks d). fs_view s1 m = fs_view s m" using v1(1) index_sectors_less [OF lay] by blast
  have ds: "\<forall>k < file_blocks d. data_sector (fs_view s1) d k = data_sector (fs_view s) d k" using data_sector_cong [OF lay _ ix] by blast
  have "written d s s1" using v1 ds s1(5) by (simp add: written_def)
  moreover have "writing p ?i d s1" using s1(2,4) apart_cong [OF lay ix ap] by (simp add: writing_def)
  ultimately obtain s2 where s2: "inode_write_loop fmw p buf (int ofs) 0 s1 = Some (length buf, s2)" "writing p ?i d s2" "written d s s2"
      "file_bytes (fs_view s2) d = overwrite (file_bytes (fs_view s1) d) ofs buf"
    using inode_write_loop_ok [of p ?i d s1 ofs buf fmw 0] p(3) range written_trans by auto
  have v2: "fs_view s2 (i_sector i) = fs_view s (i_sector i)" "fs_cap s2 = fs_cap s" using s2(3) own own_ne by (auto simp: written_def)
  have b2: "busy p ?i d s2" and ap2: "apart (fs_view s2) d (file_blocks d) (open_sectors s2)" using s2(2) by (simp_all add: writing_def)
  obtain s3 where s3: "inode_release_disk p s2 = Some s3" "fs_ok s3" "same_disk (bc s2) (bc s3)" "p \<in> set (open_inodes s3)"
      "inodes s3 p = Some (?i\<lparr>access_count := 0, i_data := None\<rparr>)" "same_rest s2 s3" "open_sectors s3 = open_sectors s2"
    using release_busy [OF b2] idle d v2 by (auto simp: inode_idle_def)
  have v3: "\<forall>n < fs_cap s. fs_view s3 n = fs_view s2 n" "fs_cap s3 = fs_cap s" "bc_ok (bc s3)" using s3(3) v2(2) by (auto simp: same_disk_def)
  have lay2: "file_ok (fs_view s2) (fs_cap s) (i_sector i) d" using b2 v2(2) by (simp add: busy_def)
  have ix3: "\<forall>m \<in> index_sectors d (file_blocks d). fs_view s3 m = fs_view s2 m" using v3(1) index_sectors_less [OF lay2] by blast
  have lay3: "file_ok (fs_view s3) (fs_cap s3) (i_sector i) d" unfolding v3(2) by (rule layout_ok_cong [OF lay2 ix3])
  have ap3: "apart (fs_view s3) d (file_blocks d) (open_sectors s3)" by (rule apart_cong [OF lay2 ix3 ap2]) (simp add: s3(7))
  have ds3: "\<forall>k < file_blocks d. data_sector (fs_view s3) d k = data_sector (fs_view s2) d k" using data_sector_cong [OF lay2 _ ix3] by blast
  have wr: "written d s s3" using s2(3) v2(2) v3 ds3 s3(6) same_rest_trans [of s s2 s3] by (simp add: written_def)
  have bytes: "file_bytes (fs_view s3) d = overwrite (file_bytes (fs_view s) d) ofs buf"
    using file_bytes_cong [OF lay2 v3(1)] s2(4) file_bytes_cong [OF lay v1(1)] by simp
  have d3: "d = disk_of_bytes (fs_view s3 (i_sector i))" using d v2 v3 own by simp
  have "inode_write_at fmw p buf (int ofs) s = Some (length buf, s3)"
    using s1(1) s2(1) s3(1) b2 idle by (simp add: inode_write_at_def busy_def inode_idle_def)
  then show ?thesis using s3(2,4,5) p(3) wr d3 lay3 ap3 bytes
    by (intro exI [of _ s3] exI [of _ "?i\<lparr>access_count := 0, i_data := None\<rparr>"]) simp
qed

section \<open>A file as a byte array\<close>

text \<open>The contract that clients of files rely on: reads return segments, writes inside the file overwrite them.\<close>

locale byte_file =
  fixes rd :: "nat \<Rightarrow> nat \<Rightarrow> 's \<Rightarrow> (u8 list \<times> 's) option"
    and wr :: "u8 list \<Rightarrow> nat \<Rightarrow> 's \<Rightarrow> (nat \<times> 's) option"
    and bytes :: "'s \<Rightarrow> u8 list"
    and ok :: "'s \<Rightarrow> bool"
  assumes rd_law: "ok s \<Longrightarrow> \<exists>s'. rd cnt ofs s = Some (segment (bytes s) ofs cnt, s') \<and> ok s' \<and> bytes s' = bytes s"
    and wr_law: "ok s \<Longrightarrow> ofs + length buf \<le> length (bytes s) \<Longrightarrow>
      \<exists>s'. wr buf ofs s = Some (length buf, s') \<and> ok s' \<and> bytes s' = overwrite (bytes s) ofs buf"
begin

lemma rd_after_wr:
  assumes "ok s" and "ofs + length buf \<le> length (bytes s)"
  shows "\<exists>s'. wr buf ofs s = Some (length buf, s') \<and> ok s' \<and> map_option fst (rd (length buf) ofs s') = Some buf"
proof -
  obtain s' where s': "wr buf ofs s = Some (length buf, s')" "ok s'" "bytes s' = overwrite (bytes s) ofs buf"
    using wr_law [OF assms] by blast
  then show ?thesis using rd_law [OF s'(2), of "length buf" ofs] assms(2) by auto
qed

end

definition good_file :: "addr \<Rightarrow> inode_disk \<Rightarrow> fsys \<Rightarrow> bool" where
  "good_file p d s \<longleftrightarrow> fs_ok s \<and> p \<in> set (open_inodes s) \<and> (\<exists>i. inodes s p = Some i \<and> deny_write_cnt i = 0 \<and>
     d = disk_of_bytes (fs_view s (i_sector i)) \<and> file_ok (fs_view s) (fs_cap s) (i_sector i) d) \<and>
     apart (fs_view s) d (file_blocks d) (open_sectors s)"

definition file_content :: "inode_disk \<Rightarrow> fsys \<Rightarrow> u8 list" where
  "file_content d s = file_bytes (fs_view s) d"

lemma good_read:
  assumes "good_file p d s"
  shows "\<exists>s'. inode_read_at fmw p (int cnt) (int ofs) s = Some (segment (file_content d s) ofs cnt, s') \<and> good_file p d s' \<and>
    file_content d s' = file_content d s \<and> same_rest s s' \<and> same_disk (bc s) (bc s')"
proof -
  obtain i where g: "fs_ok s" "p \<in> set (open_inodes s)" "inodes s p = Some i" "deny_write_cnt i = 0" "d = disk_of_bytes (fs_view s (i_sector i))"
      "file_ok (fs_view s) (fs_cap s) (i_sector i) d" "apart (fs_view s) d (file_blocks d) (open_sectors s)"
    using assms by (auto simp: good_file_def)
  obtain s' i' where s': "inode_read_at fmw p (int cnt) (int ofs) s = Some (segment (file_bytes (fs_view s) d) ofs cnt, s')"
    "fs_ok s'" "same_disk (bc s) (bc s')" "same_rest s s'" "p \<in> set (open_inodes s')"
    "open_sectors s' \<subseteq> open_sectors s \<union> index_sectors d (file_blocks d)"
    "inodes s' p = Some i'" "i_sector i' = i_sector i" "deny_write_cnt i' = deny_write_cnt i"
    using inode_read_at_ok [OF g(1-3,5,6)] by blast
  have v: "\<forall>k < fs_cap s. fs_view s' k = fs_view s k" "fs_cap s' = fs_cap s" using s'(3) by (simp_all add: same_disk_def)
  have ix: "\<forall>m \<in> index_sectors d (file_blocks d). fs_view s' m = fs_view s m" using v(1) index_sectors_less [OF g(6)] by blast
  have own: "i_sector i < fs_cap s" using tab_ok_idle [OF g(1,2) _ g(3)] by (simp add: inode_idle_def)
  have "good_file p d s'" unfolding good_file_def
    using s' g(4,5) v own layout_ok_cong [OF g(6) ix] apart_cong [OF g(6) ix g(7) s'(6)] by auto
  then show ?thesis using s'(1,3,4) file_bytes_cong [OF g(6) v(1)] by (simp add: file_content_def)
qed

lemma good_write:
  assumes "good_file p d s" and range: "ofs + length buf \<le> length (file_content d s)"
  shows "\<exists>s'. inode_write_at fmw p buf (int ofs) s = Some (length buf, s') \<and> good_file p d s' \<and>
    file_content d s' = overwrite (file_content d s) ofs buf \<and> written d s s'"
proof -
  obtain i where g: "fs_ok s" "p \<in> set (open_inodes s)" "inodes s p = Some i" "deny_write_cnt i = 0" "d = disk_of_bytes (fs_view s (i_sector i))"
      "file_ok (fs_view s) (fs_cap s) (i_sector i) d" "apart (fs_view s) d (file_blocks d) (open_sectors s)"
    using assms by (auto simp: good_file_def)
  have r: "ofs + length buf \<le> nat (d_length d)" using range by (simp add: file_content_def file_bytes_def)
  obtain s' i' where s': "inode_write_at fmw p buf (int ofs) s = Some (length buf, s')" "fs_ok s'" "written d s s'"
    "p \<in> set (open_inodes s')" "inodes s' p = Some i'" "i_sector i' = i_sector i" "deny_write_cnt i' = 0"
    "d = disk_of_bytes (fs_view s' (i_sector i))" "file_ok (fs_view s') (fs_cap s') (i_sector i) d"
    "apart (fs_view s') d (file_blocks d) (open_sectors s')"
    "file_bytes (fs_view s') d = overwrite (file_bytes (fs_view s) d) ofs buf"
    using inode_write_at_ok [OF g r] by blast
  have "good_file p d s'" unfolding good_file_def using s'(2,4-10) by auto
  then show ?thesis using s'(1,3,11) by (simp add: file_content_def)
qed

interpretation inode: byte_file "\<lambda>cnt ofs. inode_read_at fmw p (int cnt) (int ofs)" "\<lambda>buf ofs. inode_write_at fmw p buf (int ofs)"
  "file_content d" "good_file p d" for fmw p d
proof unfold_locales
  fix s :: fsys and cnt ofs assume "good_file p d s"
  from good_read [OF this] show "\<exists>s'. inode_read_at fmw p (int cnt) (int ofs) s = Some (segment (file_content d s) ofs cnt, s') \<and>
      good_file p d s' \<and> file_content d s' = file_content d s" by blast
next
  fix s :: fsys and ofs and buf :: "u8 list" assume "good_file p d s" and "ofs + length buf \<le> length (file_content d s)"
  from good_write [OF this] show "\<exists>s'. inode_write_at fmw p buf (int ofs) s = Some (length buf, s') \<and> good_file p d s' \<and>
      file_content d s' = overwrite (file_content d s) ofs buf" by blast
qed

text \<open>
  C3: writing inside a file. For an open file whose sectors are in order and shared with nothing else,
  \<^verbatim>\<open>inode_write_at\<close> of bytes that lie inside the file returns their number; afterwards the bytes of the file are
  the old ones with that segment overwritten, no sector outside the file has changed, and reading the segment back
  gives what was written. (The consistency of the cache below includes that the flag of \<open>bc_block_write\<close> reads as false, as theory \<open>Cache\<close> says.)
\<close>

theorem inode_write_at_overwrites:
  assumes "good_file p d s" and "ofs + length buf \<le> length (file_content d s)"
  shows "\<exists>s'. inode_write_at fmw p buf (int ofs) s = Some (length buf, s') \<and> good_file p d s' \<and>
    file_content d s' = overwrite (file_content d s) ofs buf \<and>
    (\<forall>n < fs_cap s. n \<notin> data_sector (fs_view s) d ` {..<file_blocks d} \<longrightarrow> fs_view s' n = fs_view s n) \<and>
    map_option fst (inode_read_at fmw p (int (length buf)) (int ofs) s') = Some buf"
  using good_write [OF assms, of fmw] inode.rd_after_wr [OF assms, of fmw] by (auto simp: written_def)

section \<open>A concrete file\<close>

definition demo_inode :: inode_disk where
  "demo_inode = \<lparr>d_start = 6, d_parent = 1, d_length = 1000, d_index = 6 # 7 # replicate 77 SECTOR_ERROR,
     d_is_index_block = 0, d_magic = INODE_MAGIC, d_unused = replicate UNUSED_SIZE 0\<rparr>"

definition demo_fs :: "bcache \<Rightarrow> fsys" where
  "demo_fs b = \<lparr>bc = b, free_map = \<lparr>bit_cnt = 0, bits = []\<rparr>, free_map_file = NULL, inodes = [1 \<mapsto> new_inode 5], open_inodes = [1],
     files = Map.empty, dirs = Map.empty, next_addr = 2\<rparr>"

lemma demo_inode_ok: "disk_ok demo_inode"
  by (simp add: disk_ok_def demo_inode_def inode_constants INODE_MAGIC_def SECTOR_ERROR_def)

lemma demo_data_sector: "k < 2 \<Longrightarrow> data_sector v demo_inode k = (if k = 0 then 6 else 7)"
  by (cases k) (auto simp: data_sector_def is_indirect_def inode_constants demo_inode_def)

lemma demo_blocks: "file_blocks demo_inode = 2" "index_sectors demo_inode 2 = {}"
  by (auto simp: file_blocks_def demo_inode_def BLOCK_SECTOR_SIZE_def DIV_ROUND_UP_def index_sectors_def is_indirect_def inode_constants)

lemma demo_file:
  "\<exists>b. bc_block_write 5 (disk_bytes demo_inode) 0 demo_cache = Some b \<and> fs_ok (demo_fs b) \<and>
     demo_inode = disk_of_bytes (fs_view (demo_fs b) 5) \<and> file_ok (fs_view (demo_fs b)) (fs_cap (demo_fs b)) 5 demo_inode \<and>
     apart (fs_view (demo_fs b)) demo_inode (file_blocks demo_inode) (open_sectors (demo_fs b)) \<and>
     file_content demo_inode (demo_fs b) = replicate 1000 0"
proof -
  have len: "length (disk_bytes demo_inode) = BLOCK_SECTOR_SIZE" using demo_inode_ok by (rule length_disk_bytes)
  obtain b where b: "bc_block_write 5 (disk_bytes demo_inode) 0 demo_cache = Some b" "bc_ok b" "fs_size b = 40"
      "bc_view b 5 = overwrite (bc_view demo_cache 5) 0 (disk_bytes demo_inode)" "\<forall>k < 40. k \<noteq> 5 \<longrightarrow> bc_view b k = bc_view demo_cache k"
    using bc.wr_law [OF demo_cache_ok(1), of 5 0 "disk_bytes demo_inode"] demo_cache_ok(2) len by auto
  have "bc_view b 5 = disk_bytes demo_inode"
    using b(4) len bc.view_length [OF demo_cache_ok(1), of 5] demo_cache_ok(2) by (simp add: overwrite_all)
  then have dd: "demo_inode = disk_of_bytes (bc_view b 5)" using disk_roundtrip [OF demo_inode_ok] by simp
  have op: "open_sectors (demo_fs b) = {5}" by (auto simp: open_sectors_def demo_fs_def new_inode_def)
  have "fs_ok (demo_fs b)" using b(2,3) by (simp add: tab_ok_def demo_fs_def inode_idle_def new_inode_def)
  moreover have "file_ok (fs_view (demo_fs b)) (fs_cap (demo_fs b)) 5 demo_inode"
    using b(3) by (auto simp: layout_ok_def demo_blocks demo_data_sector demo_fs_def SECTOR_ERROR_def)
      (simp_all add: demo_inode_def inode_constants)
  moreover have "apart (fs_view (demo_fs b)) demo_inode (file_blocks demo_inode) (open_sectors (demo_fs b))"
    by (auto simp: apart_def demo_blocks op demo_data_sector inj_on_def less_2_cases_iff split: if_splits)
  moreover have "file_content demo_inode (demo_fs b) = replicate 1000 0"
  proof (rule nth_eq_iff)
    show "length (file_content demo_inode (demo_fs b)) = length (replicate 1000 (0 :: u8))" by (simp add: file_content_def file_bytes_def demo_inode_def)
    fix j assume "j < length (file_content demo_inode (demo_fs b))"
    then have j: "j < 1000" by (simp add: file_content_def file_bytes_def demo_inode_def)
    have zero: "bc_view b n = replicate 512 0" if "n = 6 \<or> n = 7" for n
      using that b(5) demo_cache_ok(3) by (auto simp: fs_sector_def demo_cache_def bc_init_def two_partitions_def dev_sector_def locate_def)
    have "data_sector (bc_view b) demo_inode (j div 512) = 6 \<or> data_sector (bc_view b) demo_inode (j div 512) = 7"
      using j demo_data_sector [of "j div 512"] by auto
    from zero [OF this] j show "file_content demo_inode (demo_fs b) ! j = replicate 1000 0 ! j"
      by (simp add: file_content_def file_bytes_def demo_fs_def BLOCK_SECTOR_SIZE_def demo_inode_def)
  qed
  ultimately show ?thesis using b(1) dd by (intro exI [of _ b]) (simp add: demo_fs_def)
qed

lemma demo_open: "1 \<in> set (open_inodes (demo_fs b))" "inodes (demo_fs b) 1 = Some (new_inode 5)"
  by (simp_all add: demo_fs_def)

lemma demo_good:
  "\<exists>b. bc_block_write 5 (disk_bytes demo_inode) 0 demo_cache = Some b \<and> good_file 1 demo_inode (demo_fs b) \<and>
     file_content demo_inode (demo_fs b) = replicate 1000 0"
proof -
  obtain b where b: "file_content demo_inode (demo_fs b) = replicate 1000 0" "bc_block_write 5 (disk_bytes demo_inode) 0 demo_cache = Some b" "fs_ok (demo_fs b)"
      "demo_inode = disk_of_bytes (fs_view (demo_fs b) (i_sector (new_inode 5)))"
      "file_ok (fs_view (demo_fs b)) (fs_cap (demo_fs b)) (i_sector (new_inode 5)) demo_inode"
      "apart (fs_view (demo_fs b)) demo_inode (file_blocks demo_inode) (open_sectors (demo_fs b))"
    using demo_file by (auto simp: new_inode_def)
  moreover have "deny_write_cnt (new_inode 5) = 0" by (simp add: new_inode_def)
  ultimately show ?thesis unfolding good_file_def using demo_open by auto
qed

lemma demo_content: "length (file_content demo_inode s) = 1000"
  by (simp add: file_content_def file_bytes_def demo_inode_def)

theorem inode_read_at_witness:
  "\<exists>b s'. bc_block_write 5 (disk_bytes demo_inode) 0 demo_cache = Some b \<and>
     inode_read_at (\<lambda>s. None) 1 (int 600) (int 500) (demo_fs b) = Some (segment (file_bytes (fs_view (demo_fs b)) demo_inode) 500 600, s')"
proof -
  obtain b where b: "bc_block_write 5 (disk_bytes demo_inode) 0 demo_cache = Some b" "fs_ok (demo_fs b)"
      "demo_inode = disk_of_bytes (fs_view (demo_fs b) (i_sector (new_inode 5)))"
      "file_ok (fs_view (demo_fs b)) (fs_cap (demo_fs b)) (i_sector (new_inode 5)) demo_inode"
    using demo_file by (auto simp: new_inode_def)
  show ?thesis using inode_read_at_segment [OF b(2) demo_open b(3,4), of "\<lambda>s. None" 600 500] b(1) by blast
qed

theorem inode_write_at_witness:
  "\<exists>b s'. bc_block_write 5 (disk_bytes demo_inode) 0 demo_cache = Some b \<and>
     inode_write_at (\<lambda>s. None) 1 [1, 2, 3] (int 510) (demo_fs b) = Some (3, s') \<and>
     map_option fst (inode_read_at (\<lambda>s. None) 1 (int 3) (int 510) s') = Some [1, 2, 3]"
proof -
  obtain b where b: "bc_block_write 5 (disk_bytes demo_inode) 0 demo_cache = Some b" "good_file 1 demo_inode (demo_fs b)"
    using demo_good by blast
  show ?thesis using inode_write_at_overwrites [OF b(2), of 510 "[1, 2, 3]" "\<lambda>s. None"] b(1) by (auto simp: demo_content)
qed

end
