(* ===== verification/CString.thy ===== *)
theory CString
  imports Prelude
begin

text \<open>
  Memory blocks and null-terminated strings, \<^verbatim>\<open>lib/string.c\<close>. The functions run on a flat memory, a
  partial map from addresses to bytes; an access to an address that is not mapped stops the kernel,
  and address 0 is the null pointer. Blocks may overlap, so copying is stated for the memory as a whole.
\<close>

type_synonym mem = "nat \<rightharpoonup> u8"

definition store :: "nat \<Rightarrow> u8 \<Rightarrow> mem \<Rightarrow> mem option" where
  "store a v m = (if m a = None then None else Some (m(a \<mapsto> v)))"

section \<open>Blocks\<close>

primrec copy_up :: "nat \<Rightarrow> nat \<Rightarrow> nat \<Rightarrow> mem \<Rightarrow> mem option" where
  "copy_up 0 dst src m = Some m"
| "copy_up (Suc n) dst src m = do { v \<leftarrow> m src; m \<leftarrow> store dst v m; copy_up n (dst + 1) (src + 1) m }"

text \<open>\<open>dst\<close> and \<open>src\<close> are the addresses after the blocks, as in the second loop of \<^verbatim>\<open>memmove\<close>.\<close>

primrec copy_down :: "nat \<Rightarrow> nat \<Rightarrow> nat \<Rightarrow> mem \<Rightarrow> mem option" where
  "copy_down 0 dst src m = Some m"
| "copy_down (Suc n) dst src m = do { v \<leftarrow> m (src - 1); m \<leftarrow> store (dst - 1) v m; copy_down n (dst - 1) (src - 1) m }"

definition memcpy :: "nat \<Rightarrow> nat \<Rightarrow> nat \<Rightarrow> mem \<Rightarrow> (nat \<times> mem) option" where
  "memcpy dst src n m = do {
     ASSERT (dst \<noteq> 0 \<or> n = 0);
     ASSERT (src \<noteq> 0 \<or> n = 0);
     m \<leftarrow> copy_up n dst src m;
     Some (dst, m) }"

text \<open>The returned pointer is the variable \<^verbatim>\<open>dst\<close>, which the first loop has moved to the end of the block.\<close>

definition memmove :: "nat \<Rightarrow> nat \<Rightarrow> nat \<Rightarrow> mem \<Rightarrow> (nat \<times> mem) option" where
  "memmove dst src n m = do {
     ASSERT (dst \<noteq> 0 \<or> n = 0);
     ASSERT (src \<noteq> 0 \<or> n = 0);
     if dst < src then do { m \<leftarrow> copy_up n dst src m; Some (dst + n, m) }
     else do { m \<leftarrow> copy_down n (dst + n) (src + n) m; Some (dst, m) } }"

primrec memcmp_loop :: "nat \<Rightarrow> nat \<Rightarrow> nat \<Rightarrow> mem \<Rightarrow> int option" where
  "memcmp_loop 0 a b m = Some 0"
| "memcmp_loop (Suc n) a b m = do {
     x \<leftarrow> m a;
     y \<leftarrow> m b;
     if x \<noteq> y then Some (if x > y then 1 else -1) else memcmp_loop n (a + 1) (b + 1) m }"

definition memcmp :: "nat \<Rightarrow> nat \<Rightarrow> nat \<Rightarrow> mem \<Rightarrow> int option" where
  "memcmp a b n m = do { ASSERT (a \<noteq> 0 \<or> n = 0); ASSERT (b \<noteq> 0 \<or> n = 0); memcmp_loop n a b m }"

primrec memchr_loop :: "nat \<Rightarrow> nat \<Rightarrow> u8 \<Rightarrow> mem \<Rightarrow> nat option option" where
  "memchr_loop 0 block ch m = Some None"
| "memchr_loop (Suc n) block ch m = do {
     x \<leftarrow> m block;
     if x = ch then Some (Some block) else memchr_loop n (block + 1) ch m }"

text \<open>A null pointer as a result is \<open>None\<close>.\<close>

definition memchr :: "nat \<Rightarrow> u8 \<Rightarrow> nat \<Rightarrow> mem \<Rightarrow> nat option option" where
  "memchr block ch n m = do { ASSERT (block \<noteq> 0 \<or> n = 0); memchr_loop n block ch m }"

primrec memset_loop :: "nat \<Rightarrow> nat \<Rightarrow> u8 \<Rightarrow> mem \<Rightarrow> mem option" where
  "memset_loop 0 dst v m = Some m"
| "memset_loop (Suc n) dst v m = do { m \<leftarrow> store dst v m; memset_loop n (dst + 1) v m }"

definition memset :: "nat \<Rightarrow> u8 \<Rightarrow> nat \<Rightarrow> mem \<Rightarrow> (nat \<times> mem) option" where
  "memset dst v n m = do { ASSERT (dst \<noteq> 0 \<or> n = 0); m \<leftarrow> memset_loop n dst v m; Some (dst, m) }"

section \<open>Strings\<close>

partial_function (option) strlen_loop :: "nat \<Rightarrow> mem \<Rightarrow> nat option" where
  "strlen_loop p m = do { x \<leftarrow> m p; if x \<noteq> 0 then strlen_loop (p + 1) m else Some p }"

definition strlen :: "nat \<Rightarrow> mem \<Rightarrow> nat option" where
  "strlen s m = do { ASSERT (s \<noteq> 0); p \<leftarrow> strlen_loop s m; Some (p - s) }"

partial_function (option) strnlen_loop :: "nat \<Rightarrow> nat \<Rightarrow> nat \<Rightarrow> mem \<Rightarrow> nat option" where
  "strnlen_loop s maxlen len m = do {
     x \<leftarrow> m (s + len);
     if x \<noteq> 0 \<and> len < maxlen then strnlen_loop s maxlen (len + 1) m else Some len }"

definition strnlen :: "nat \<Rightarrow> nat \<Rightarrow> mem \<Rightarrow> nat option" where
  "strnlen s maxlen m = strnlen_loop s maxlen 0 m"

partial_function (option) strcmp_loop :: "nat \<Rightarrow> nat \<Rightarrow> mem \<Rightarrow> int option" where
  "strcmp_loop a b m = do {
     x \<leftarrow> m a;
     y \<leftarrow> m b;
     if x \<noteq> 0 \<and> x = y then strcmp_loop (a + 1) (b + 1) m
     else Some (if x < y then -1 else if x > y then 1 else 0) }"

definition strcmp :: "nat \<Rightarrow> nat \<Rightarrow> mem \<Rightarrow> int option" where
  "strcmp a b m = do { ASSERT (a \<noteq> 0); ASSERT (b \<noteq> 0); strcmp_loop a b m }"

partial_function (option) strchr_loop :: "nat \<Rightarrow> u8 \<Rightarrow> mem \<Rightarrow> nat option option" where
  "strchr_loop s c m = do {
     x \<leftarrow> m s;
     if x = c then Some (Some s) else if x = 0 then Some None else strchr_loop (s + 1) c m }"

definition strchr :: "nat \<Rightarrow> u8 \<Rightarrow> mem \<Rightarrow> nat option option" where
  "strchr s c m = do { ASSERT (s \<noteq> 0); strchr_loop s c m }"

partial_function (option) strrchr_loop :: "nat \<Rightarrow> u8 \<Rightarrow> nat option \<Rightarrow> mem \<Rightarrow> nat option option" where
  "strrchr_loop s c p m = do {
     x \<leftarrow> m s;
     if x \<noteq> 0 then strrchr_loop (s + 1) c (if x = c then Some s else p) m else Some p }"

definition strrchr :: "nat \<Rightarrow> u8 \<Rightarrow> mem \<Rightarrow> nat option option" where
  "strrchr s c m = strrchr_loop s c None m"

partial_function (option) strcspn_loop :: "nat \<Rightarrow> nat \<Rightarrow> nat \<Rightarrow> mem \<Rightarrow> nat option" where
  "strcspn_loop s stop len m = do {
     x \<leftarrow> m (s + len);
     if x \<noteq> 0 then do {
       r \<leftarrow> strchr stop x m;
       if r \<noteq> None then Some len else strcspn_loop s stop (len + 1) m }
     else Some len }"

definition strcspn :: "nat \<Rightarrow> nat \<Rightarrow> mem \<Rightarrow> nat option" where
  "strcspn s stop m = strcspn_loop s stop 0 m"

partial_function (option) strspn_loop :: "nat \<Rightarrow> nat \<Rightarrow> nat \<Rightarrow> mem \<Rightarrow> nat option" where
  "strspn_loop s skip len m = do {
     x \<leftarrow> m (s + len);
     if x \<noteq> 0 then do {
       r \<leftarrow> strchr skip x m;
       if r = None then Some len else strspn_loop s skip (len + 1) m }
     else Some len }"

definition strspn :: "nat \<Rightarrow> nat \<Rightarrow> mem \<Rightarrow> nat option" where
  "strspn s skip m = strspn_loop s skip 0 m"

partial_function (option) strpbrk :: "nat \<Rightarrow> nat \<Rightarrow> mem \<Rightarrow> nat option option" where
  "strpbrk s stop m = do {
     x \<leftarrow> m s;
     if x \<noteq> 0 then do {
       r \<leftarrow> strchr stop x m;
       if r \<noteq> None then Some (Some s) else strpbrk (s + 1) stop m }
     else Some None }"

fun strstr_loop :: "nat list \<Rightarrow> nat \<Rightarrow> nat \<Rightarrow> nat \<Rightarrow> mem \<Rightarrow> nat option option" where
  "strstr_loop [] haystack needle needle_len m = Some None"
| "strstr_loop (i # is) haystack needle needle_len m = do {
     c \<leftarrow> memcmp (haystack + i) needle needle_len m;
     if c = 0 then Some (Some (haystack + i)) else strstr_loop is haystack needle needle_len m }"

definition strstr :: "nat \<Rightarrow> nat \<Rightarrow> mem \<Rightarrow> nat option option" where
  "strstr haystack needle m = do {
     haystack_len \<leftarrow> strlen haystack m;
     needle_len \<leftarrow> strlen needle m;
     if needle_len \<le> haystack_len then strstr_loop [0..<haystack_len - needle_len + 1] haystack needle needle_len m
     else Some None }"

text \<open>The two loops of \<^verbatim>\<open>strtok_r\<close>: over the delimiters, where \<open>None\<close> reports the end of the string, and
  over the token.\<close>

partial_function (option) skip_delims :: "nat \<Rightarrow> nat \<Rightarrow> mem \<Rightarrow> (bool \<times> nat) option" where
  "skip_delims s delimiters m = do {
     x \<leftarrow> m s;
     r \<leftarrow> strchr delimiters x m;
     if r \<noteq> None then (if x = 0 then Some (False, s) else skip_delims (s + 1) delimiters m)
     else Some (True, s) }"

partial_function (option) skip_token :: "nat \<Rightarrow> nat \<Rightarrow> mem \<Rightarrow> nat option" where
  "skip_token s delimiters m = do {
     x \<leftarrow> m s;
     r \<leftarrow> strchr delimiters x m;
     if r = None then skip_token (s + 1) delimiters m else Some s }"

text \<open>The result is the token (\<open>None\<close> for a null pointer), the saved position and the memory.\<close>

definition strtok_r :: "nat \<Rightarrow> nat \<Rightarrow> nat \<Rightarrow> mem \<Rightarrow> (nat option \<times> nat \<times> mem) option" where
  "strtok_r s delimiters save_ptr m = do {
     ASSERT (delimiters \<noteq> 0);
     let s = (if s = 0 then save_ptr else s);
     ASSERT (s \<noteq> 0);
     (found, token) \<leftarrow> skip_delims s delimiters m;
     if \<not> found then Some (None, token, m)
     else do {
       e \<leftarrow> skip_token token delimiters m;
       x \<leftarrow> m e;
       if x \<noteq> 0 then do { m \<leftarrow> store e 0 m; Some (Some token, e + 1, m) }
       else Some (Some token, e, m) } }"

definition strlcpy :: "nat \<Rightarrow> nat \<Rightarrow> nat \<Rightarrow> mem \<Rightarrow> (nat \<times> mem) option" where
  "strlcpy dst src n m = do {
     ASSERT (dst \<noteq> 0);
     ASSERT (src \<noteq> 0);
     src_len \<leftarrow> strlen src m;
     if 0 < n then do {
       let dst_len = (if src_len < n - 1 then src_len else n - 1);
       (_, m) \<leftarrow> memcpy dst src dst_len m;
       m \<leftarrow> store (dst + dst_len) 0 m;
       Some (src_len, m) }
     else Some (src_len, m) }"

definition strlcat :: "nat \<Rightarrow> nat \<Rightarrow> nat \<Rightarrow> mem \<Rightarrow> (nat \<times> mem) option" where
  "strlcat dst src n m = do {
     ASSERT (dst \<noteq> 0);
     ASSERT (src \<noteq> 0);
     src_len \<leftarrow> strlen src m;
     dst_len \<leftarrow> strlen dst m;
     if 0 < n \<and> dst_len < n then do {
       let copy_cnt = (if src_len < n - dst_len - 1 then src_len else n - dst_len - 1);
       (_, m) \<leftarrow> memcpy (dst + dst_len) src copy_cnt m;
       m \<leftarrow> store (dst + dst_len + copy_cnt) 0 m;
       Some (src_len + dst_len, m) }
     else Some (src_len + dst_len, m) }"

section \<open>Blocks and strings in memory\<close>

definition mapped :: "mem \<Rightarrow> nat \<Rightarrow> nat \<Rightarrow> bool" where
  "mapped m a n \<longleftrightarrow> (\<forall>i < n. m (a + i) \<noteq> None)"

definition block_at :: "mem \<Rightarrow> nat \<Rightarrow> u8 list \<Rightarrow> bool" where
  "block_at m a xs \<longleftrightarrow> (\<forall>i < length xs. m (a + i) = Some (xs ! i))"

definition put :: "nat \<Rightarrow> u8 list \<Rightarrow> mem \<Rightarrow> mem" where
  "put a xs m = (\<lambda>x. if a \<le> x \<and> x < a + length xs then Some (xs ! (x - a)) else m x)"

definition cstr :: "mem \<Rightarrow> nat \<Rightarrow> u8 list \<Rightarrow> bool" where
  "cstr m a s \<longleftrightarrow> a \<noteq> 0 \<and> 0 \<notin> set s \<and> block_at m a (s @ [0])"

definition disjoint :: "nat \<Rightarrow> nat \<Rightarrow> nat \<Rightarrow> nat \<Rightarrow> bool" where
  "disjoint a n b k \<longleftrightarrow> a + n \<le> b \<or> b + k \<le> a"

lemma put_Nil [simp]: "put a [] m = m"
  by (auto simp: put_def fun_eq_iff)

lemma put_Cons: "put a (x # xs) m = put (Suc a) xs (m(a \<mapsto> x))"
  by (auto simp: put_def fun_eq_iff nth_Cons')

lemma put_snoc: "put a (xs @ [x]) m = put a xs (m(a + length xs \<mapsto> x))"
  by (auto simp: put_def fun_eq_iff nth_append)

lemma put_append: "put a (xs @ ys) m = put (a + length xs) ys (put a xs m)"
  by (auto simp: put_def fun_eq_iff nth_append)

lemma block_at_put: "block_at (put a xs m) a xs"
  by (simp add: block_at_def put_def)

lemma block_at_put_other: "block_at m b ys \<Longrightarrow> disjoint a (length xs) b (length ys) \<Longrightarrow> block_at (put a xs m) b ys"
  by (auto simp: block_at_def put_def disjoint_def)

lemma block_at_Cons: "block_at m a (x # xs) \<longleftrightarrow> m a = Some x \<and> block_at m (Suc a) xs"
  by (auto simp: block_at_def nth_Cons split: nat.splits)

lemma block_at_append: "block_at m a (xs @ ys) \<longleftrightarrow> block_at m a xs \<and> block_at m (a + length xs) ys"
proof
  assume b: "block_at m a (xs @ ys)"
  have "m (a + length xs + i) = Some (ys ! i)" if "i < length ys" for i
    using b that by (auto simp: block_at_def nth_append add.assoc dest!: spec [of _ "length xs + i"])
  then show "block_at m a xs \<and> block_at m (a + length xs) ys" using b by (auto simp: block_at_def nth_append)
next
  assume "block_at m a xs \<and> block_at m (a + length xs) ys"
  moreover have "m (a + i) = Some (ys ! (i - length xs))" if "block_at m (a + length xs) ys" "length xs \<le> i" "i < length xs + length ys" for i
    using that by (auto simp: block_at_def dest!: spec [of _ "i - length xs"])
  ultimately show "block_at m a (xs @ ys)" by (auto simp: block_at_def nth_append)
qed

lemma cstr_step: "cstr m a (x # xs) \<Longrightarrow> m a = Some x \<and> x \<noteq> 0 \<and> cstr m (Suc a) xs"
  by (auto simp: cstr_def block_at_Cons)

lemma cstr_end: "cstr m a [] \<Longrightarrow> m a = Some 0"
  by (simp add: cstr_def block_at_Cons)

lemma cstr_suffix: "cstr m a (xs @ ys) \<Longrightarrow> cstr m (a + length xs) ys"
  by (auto simp: cstr_def block_at_append)

section \<open>Copying\<close>

lemma copy_up_ok:
  "block_at m src xs \<Longrightarrow> mapped m dst (length xs) \<Longrightarrow> dst \<le> src \<or> src + length xs \<le> dst \<Longrightarrow>
   copy_up (length xs) dst src m = Some (put dst xs m)"
proof (induction xs arbitrary: dst src m)
  case (Cons x xs)
  have m: "m src = Some x" "block_at m (Suc src) xs" using Cons.prems(1) by (auto simp: block_at_Cons)
  have d: "m dst \<noteq> None" "mapped m (Suc dst) (length xs)" using Cons.prems(2) by (auto simp: mapped_def)
  have "block_at (m(dst \<mapsto> x)) (Suc src) xs" using m(2) Cons.prems(3) by (auto simp: block_at_def)
  moreover have "mapped (m(dst \<mapsto> x)) (Suc dst) (length xs)" using d(2) by (auto simp: mapped_def)
  moreover have "Suc dst \<le> Suc src \<or> Suc src + length xs \<le> Suc dst" using Cons.prems(3) by auto
  ultimately have "copy_up (length xs) (Suc dst) (Suc src) (m(dst \<mapsto> x)) = Some (put (Suc dst) xs (m(dst \<mapsto> x)))" by (rule Cons.IH)
  then show ?case using m(1) d(1) by (simp add: store_def put_Cons)
qed simp

lemma copy_down_ok:
  "block_at m src xs \<Longrightarrow> mapped m dst (length xs) \<Longrightarrow> src \<le> dst \<Longrightarrow>
   copy_down (length xs) (dst + length xs) (src + length xs) m = Some (put dst xs m)"
proof (induction xs arbitrary: m rule: rev_induct)
  case (snoc x xs)
  let ?a = "dst + length xs"
  have m: "m (src + length xs) = Some x" "block_at m src xs" using snoc.prems(1) by (auto simp: block_at_append block_at_Cons)
  have d: "m ?a \<noteq> None" "mapped m dst (length xs)" using snoc.prems(2) by (auto simp: mapped_def)
  have "block_at (m(?a \<mapsto> x)) src xs" using m(2) snoc.prems(3) by (auto simp: block_at_def)
  moreover have "mapped (m(?a \<mapsto> x)) dst (length xs)" using d(2) by (auto simp: mapped_def)
  ultimately have "copy_down (length xs) (dst + length xs) (src + length xs) (m(?a \<mapsto> x)) = Some (put dst xs (m(?a \<mapsto> x)))"
    using snoc.prems(3) by (rule snoc.IH)
  then show ?case using m(1) d(1) by (simp add: store_def put_snoc)
qed simp

text \<open>
  \<^verbatim>\<open>memmove\<close> copies overlapping blocks correctly in both directions: the destination holds the old bytes of the
  source and nothing else in memory has changed. The pointer it returns is the destination only when the block moves
  upwards; otherwise it is the end of the destination, although the comment promises the destination.
\<close>

theorem memmove_correct:
  assumes "block_at m src xs" and "mapped m dst (length xs)" and "src \<noteq> 0" and "dst \<noteq> 0"
  shows "memmove dst src (length xs) m = Some (if dst < src then dst + length xs else dst, put dst xs m)"
  using assms copy_up_ok [OF assms(1,2)] copy_down_ok [OF assms(1,2)] by (simp add: memmove_def)

theorem memmove_correct_witness:
  "memmove 11 10 2 [10 \<mapsto> 1, 11 \<mapsto> 2, 12 \<mapsto> 3] = Some (11, put 11 [1, 2] [10 \<mapsto> 1, 11 \<mapsto> 2, 12 \<mapsto> 3])"
  using memmove_correct [of "[10 \<mapsto> 1, 11 \<mapsto> 2, 12 \<mapsto> 3]" 10 "[1, 2]" 11] 
  by (auto simp: block_at_def mapped_def less_Suc_eq nth_Cons' numeral_2_eq_2)

section \<open>Length and comparison\<close>

lemma strlen_loop_ok: "cstr m a s \<Longrightarrow> strlen_loop a m = Some (a + length s)"
proof (induction s arbitrary: a)
  case Nil
  then show ?case by (subst strlen_loop.simps) (simp add: cstr_end)
next
  case (Cons x s)
  then show ?case using cstr_step [OF Cons.prems] by (subst strlen_loop.simps) simp
qed

lemma strlen_ok: "cstr m a s \<Longrightarrow> strlen a m = Some (length s)"
  by (simp add: strlen_def strlen_loop_ok) (simp add: cstr_def)

lemma strnlen_loop_ok: "cstr m (a + k) s \<Longrightarrow> k \<le> n \<Longrightarrow> strnlen_loop a n k m = Some (k + min (length s) (n - k))"
proof (induction s arbitrary: k)
  case Nil
  then show ?case by (subst strnlen_loop.simps) (simp add: cstr_end)
next
  case (Cons x s)
  then show ?case using cstr_step [OF Cons.prems(1)] by (subst strnlen_loop.simps) (auto simp: min_def)
qed

lemma strnlen_ok: "cstr m a s \<Longrightarrow> strnlen a n m = Some (min (length s) n)"
  using strnlen_loop_ok [of m a 0 s n] by (simp add: strnlen_def)

definition str_compare :: "u8 list \<Rightarrow> u8 list \<Rightarrow> int" where
  "str_compare s t = (if s = t then 0 else if (s, t) \<in> lexord {(x, y). x < y} then -1 else 1)"

lemma strcmp_loop_ok: "cstr m a s \<Longrightarrow> cstr m b t \<Longrightarrow> strcmp_loop a b m = Some (str_compare s t)"
proof (induction s arbitrary: a b t)
  case Nil
  show ?case
  proof (cases t)
    case Nil
    then show ?thesis using cstr_end [OF \<open>cstr m a []\<close>] cstr_end [of m b] \<open>cstr m b t\<close>
      by (subst strcmp_loop.simps) (simp add: str_compare_def)
  next
    case (Cons y t')
    then show ?thesis using cstr_end [OF \<open>cstr m a []\<close>] cstr_step [of m b y t'] \<open>cstr m b t\<close>
      by (subst strcmp_loop.simps) (auto simp: str_compare_def word_neq_0_conv)
  qed
next
  case (Cons x s)
  note a = cstr_step [OF Cons.prems(1)]
  show ?case
  proof (cases t)
    case Nil
    then show ?thesis using a cstr_end [of m b] Cons.prems(2)
      by (subst strcmp_loop.simps) (auto simp: str_compare_def word_neq_0_conv)
  next
    case (Cons y t')
    then have b: "m b = Some y" "y \<noteq> 0" "cstr m (Suc b) t'" using cstr_step \<open>cstr m b t\<close> by auto
    show ?thesis using a b Cons.IH [of "Suc a" "Suc b" t'] \<open>t = y # t'\<close>
      by (subst strcmp_loop.simps) (auto simp: str_compare_def)
  qed
qed

lemma strcmp_ok: "cstr m a s \<Longrightarrow> cstr m b t \<Longrightarrow> strcmp a b m = Some (str_compare s t)"
  by (simp add: strcmp_def strcmp_loop_ok) (simp add: cstr_def)

lemma str_compare_eq: "str_compare s t = 0 \<longleftrightarrow> s = t"
  by (simp add: str_compare_def)

section \<open>Searching\<close>

lemma strchr_loop_ok:
  "cstr m a s \<Longrightarrow> strchr_loop a c m = Some (if c \<in> set s \<or> c = 0 then Some (a + length (takeWhile (\<lambda>x. x \<noteq> c) s)) else None)"
proof (induction s arbitrary: a)
  case Nil
  then show ?case by (subst strchr_loop.simps) (simp add: cstr_end)
next
  case (Cons x s)
  then show ?case using cstr_step [OF Cons.prems] by (subst strchr_loop.simps) auto
qed

lemma strchr_ok:
  "cstr m a s \<Longrightarrow> strchr a c m = Some (if c \<in> set s \<or> c = 0 then Some (a + length (takeWhile (\<lambda>x. x \<noteq> c) s)) else None)"
  by (simp add: strchr_def strchr_loop_ok) (simp add: cstr_def)

lemma strrchr_loop_ok:
  "cstr m a s \<Longrightarrow> strrchr_loop a c p m = Some (if c \<in> set s then Some (a + length s - Suc (length (takeWhile (\<lambda>x. x \<noteq> c) (rev s)))) else p)"
proof (induction s arbitrary: a p)
  case Nil
  then show ?case by (subst strrchr_loop.simps) (simp add: cstr_end)
next
  case (Cons x s)
  have rev: "takeWhile (\<lambda>y. y \<noteq> c) (rev s @ [x]) = (if c \<in> set s then takeWhile (\<lambda>y. y \<noteq> c) (rev s) else rev s @ takeWhile (\<lambda>y. y \<noteq> c) [x])"
    by (auto simp: takeWhile_append)
  show ?case using Cons.IH [of "Suc a"] cstr_step [OF Cons.prems] by (subst strrchr_loop.simps) (auto simp: rev)
qed

lemma strcspn_loop_ok:
  "cstr m (a + k) s \<Longrightarrow> cstr m b t \<Longrightarrow> strcspn_loop a b k m = Some (k + length (takeWhile (\<lambda>x. x \<notin> set t) s))"
proof (induction s arbitrary: k)
  case Nil
  then show ?case by (subst strcspn_loop.simps) (simp add: cstr_end)
next
  case (Cons x s)
  then show ?case using cstr_step [OF Cons.prems(1)] Cons.IH [of "Suc k"] by (subst strcspn_loop.simps) (auto simp: strchr_ok)
qed

lemma strspn_loop_ok:
  "cstr m (a + k) s \<Longrightarrow> cstr m b t \<Longrightarrow> strspn_loop a b k m = Some (k + length (takeWhile (\<lambda>x. x \<in> set t) s))"
proof (induction s arbitrary: k)
  case Nil
  then show ?case by (subst strspn_loop.simps) (simp add: cstr_end)
next
  case (Cons x s)
  then show ?case using cstr_step [OF Cons.prems(1)] Cons.IH [of "Suc k"] by (subst strspn_loop.simps) (auto simp: strchr_ok)
qed

section \<open>Tokens\<close>

lemma skip_delims_ok:
  "cstr m a s \<Longrightarrow> cstr m d ds \<Longrightarrow>
   skip_delims a d m = Some (dropWhile (\<lambda>x. x \<in> set ds) s \<noteq> [], a + length (takeWhile (\<lambda>x. x \<in> set ds) s))"
proof (induction s arbitrary: a)
  case Nil
  then show ?case by (subst skip_delims.simps) (simp add: cstr_end strchr_ok)
next
  case (Cons x s)
  then show ?case using cstr_step [OF Cons.prems(1)] Cons.IH [of "Suc a"] by (subst skip_delims.simps) (auto simp: strchr_ok)
qed

lemma skip_token_ok:
  "cstr m a s \<Longrightarrow> cstr m d ds \<Longrightarrow> skip_token a d m = Some (a + length (takeWhile (\<lambda>x. x \<notin> set ds) s))"
proof (induction s arbitrary: a)
  case Nil
  then show ?case by (subst skip_token.simps) (simp add: cstr_end strchr_ok)
next
  case (Cons x s)
  then show ?case using cstr_step [OF Cons.prems(1)] Cons.IH [of "Suc a"] by (subst skip_token.simps) (auto simp: strchr_ok)
qed

lemma cstr_upd_other: "cstr m a s \<Longrightarrow> b < a \<or> a + length s < b \<Longrightarrow> cstr (m(b \<mapsto> v)) a s"
  by (auto simp: cstr_def block_at_def nth_append less_Suc_eq)

lemma cstr_cut: "cstr m a (xs @ y # ys) \<Longrightarrow> cstr (m(a + length xs \<mapsto> 0)) a xs"
  by (auto simp: cstr_def block_at_def nth_append less_Suc_eq)

text \<open>What one call of \<^verbatim>\<open>strtok_r\<close> does to the string \<open>s\<close> it works on, given the delimiters \<open>ds\<close>.\<close>

definition next_token :: "u8 list \<Rightarrow> u8 list \<Rightarrow> u8 list" where
  "next_token ds s = takeWhile (\<lambda>x. x \<notin> set ds) (dropWhile (\<lambda>x. x \<in> set ds) s)"

definition after_token :: "u8 list \<Rightarrow> u8 list \<Rightarrow> u8 list" where
  "after_token ds s = tl (dropWhile (\<lambda>x. x \<notin> set ds) (dropWhile (\<lambda>x. x \<in> set ds) s))"

lemma strtok_r_ok:
  assumes a: "cstr m a s" and d: "cstr m d ds" and dis: "disjoint a (length s + 1) d (length ds + 1)" and p: "p = 0 \<and> q = a \<or> p = a"
  shows "next_token ds s = [] \<Longrightarrow> strtok_r p d q m = Some (None, a + length s, m)"
    and "next_token ds s \<noteq> [] \<Longrightarrow> \<exists>t e m'. strtok_r p d q m = Some (Some t, e, m') \<and> cstr m' t (next_token ds s) \<and>
      cstr m' e (after_token ds s) \<and> cstr m' d ds \<and> a \<le> t \<and>
      (t + length (next_token ds s) < e \<or> after_token ds s = [] \<and> t + length (next_token ds s) = e) \<and> e + length (after_token ds s) = a + length s \<and>
      (\<forall>x. x < a \<or> a + length s \<le> x \<longrightarrow> m' x = m x)"
proof -
  let ?skip = "takeWhile (\<lambda>x. x \<in> set ds) s" and ?rest = "dropWhile (\<lambda>x. x \<in> set ds) s"
  let ?tok = "takeWhile (\<lambda>x. x \<notin> set ds) ?rest" and ?tail = "dropWhile (\<lambda>x. x \<notin> set ds) ?rest"
  have s: "s = ?skip @ ?rest" and r: "?rest = ?tok @ ?tail" by simp_all
  have nz: "d \<noteq> 0" "a \<noteq> 0" using a d by (simp_all add: cstr_def)
  have start: "(if p = 0 then q else p) = a" using p nz by auto
  have iff: "next_token ds s = [] \<longleftrightarrow> ?rest = []"
  proof (cases ?rest)
    case Nil
    then show ?thesis unfolding next_token_def Nil by simp
  next
    case (Cons x xs)
    then show ?thesis using hd_dropWhile [of "\<lambda>x. x \<in> set ds" s] unfolding next_token_def Cons by simp
  qed
  note sk = skip_delims_ok [OF a d]
  {
    assume "next_token ds s = []"
    then have e: "?rest = []" using iff by simp
    then have "length ?skip = length s" using s by (metis append_Nil2)
    then show "strtok_r p d q m = Some (None, a + length s, m)" using sk e nz start by (simp add: strtok_r_def)
  }
  {
    assume ne: "next_token ds s \<noteq> []"
    let ?t = "a + length ?skip"
    let ?e = "?t + length ?tok"
    have t: "cstr m ?t ?rest" using cstr_suffix [of m a ?skip ?rest] a s by simp
    have e: "cstr m ?e ?tail" using cstr_suffix [of m ?t ?tok ?tail] t r by simp
    have te: "?t + length (next_token ds s) = ?e" by (simp add: next_token_def)
    have len: "length s = length ?skip + (length ?tok + length ?tail)" using s r by (metis length_append)
    note tk = skip_token_ok [OF t d]
    have sk': "skip_delims a d m = Some (True, ?t)" unfolding sk using ne iff by blast
    show "\<exists>t e m'. strtok_r p d q m = Some (Some t, e, m') \<and> cstr m' t (next_token ds s) \<and>
      cstr m' e (after_token ds s) \<and> cstr m' d ds \<and> a \<le> t \<and>
      (t + length (next_token ds s) < e \<or> after_token ds s = [] \<and> t + length (next_token ds s) = e) \<and> e + length (after_token ds s) = a + length s \<and>
      (\<forall>x. x < a \<or> a + length s \<le> x \<longrightarrow> m' x = m x)"
    proof (cases ?tail)
      case Nil
      have e0: "m ?e = Some 0" using cstr_end [of m ?e] e unfolding Nil by blast
      have "?tok = ?rest" using r Nil by (metis append_Nil2)
      then have "cstr m ?t (next_token ds s)" using t by (simp only: next_token_def)
      moreover have "strtok_r p d q m = Some (Some ?t, ?e, m)"
        using nz start e0 by (simp add: strtok_r_def sk' tk)
      moreover have at: "after_token ds s = []" unfolding after_token_def Nil by simp
      moreover have "cstr m ?e (after_token ds s)" using e unfolding Nil at .
      moreover have "?t + length (next_token ds s) < ?e \<or> after_token ds s = [] \<and> ?t + length (next_token ds s) = ?e" using te at by blast
      moreover have "?e + length (after_token ds s) = a + length s" using len unfolding Nil at by simp
      moreover have "a \<le> ?t" by simp
      ultimately show ?thesis using d by blast
    next
      case (Cons y ys)
      have y: "m ?e = Some y" "y \<noteq> 0" "cstr m (Suc ?e) ys" using cstr_step [of m ?e y ys] e Cons by auto
      let ?m = "m(?e \<mapsto> 0)"
      have "cstr ?m ?t (next_token ds s)" using cstr_cut [of m ?t ?tok y ys] t r Cons by (simp add: next_token_def)
      moreover have "cstr ?m (Suc ?e) ys" by (rule cstr_upd_other [OF y(3)]) simp
      moreover have "cstr ?m d ds" by (rule cstr_upd_other [OF d]) (use dis len Cons in \<open>auto simp: disjoint_def\<close>)
      moreover have "strtok_r p d q m = Some (Some ?t, Suc ?e, ?m)"
        using nz start y by (simp add: strtok_r_def store_def sk' tk)
      moreover have "\<forall>x. x < a \<or> a + length s \<le> x \<longrightarrow> ?m x = m x" using len Cons by auto
      moreover have at: "after_token ds s = ys" unfolding after_token_def Cons by simp
      moreover have "?t + length (next_token ds s) < Suc ?e \<or> after_token ds s = [] \<and> ?t + length (next_token ds s) = Suc ?e"
        unfolding te by simp
      moreover have "Suc ?e + length ys = a + length s" using len unfolding Cons by simp
      moreover have "a \<le> ?t" by simp
      ultimately show ?thesis unfolding at by blast
    qed
  }
qed

function tokens :: "u8 list \<Rightarrow> u8 list \<Rightarrow> u8 list list" where
  "tokens ds s = (if next_token ds s = [] then [] else next_token ds s # tokens ds (after_token ds s))"
  by auto
termination
proof (relation "measure (\<lambda>(ds, s). length s)")
  fix ds s :: "u8 list" assume ne: "next_token ds s \<noteq> []"
  let ?rest = "dropWhile (\<lambda>x. x \<in> set ds) s"
  have "length ?rest = length (next_token ds s) + length (dropWhile (\<lambda>x. x \<notin> set ds) ?rest)"
    unfolding next_token_def by (metis length_append takeWhile_dropWhile_id)
  moreover have "length ?rest \<le> length s" by (rule length_dropWhile_le)
  ultimately show "((ds, after_token ds s), (ds, s)) \<in> measure (\<lambda>(ds, s). length s)"
    using ne by (cases "next_token ds s") (auto simp: after_token_def)
qed simp

declare tokens.simps [simp del]

text \<open>The loop in which \<^verbatim>\<open>strtok_r\<close> is used, collecting the tokens.\<close>

partial_function (option) strtok_all :: "nat \<Rightarrow> nat \<Rightarrow> nat \<Rightarrow> mem \<Rightarrow> (nat list \<times> mem) option" where
  "strtok_all p d q m = do {
     (t, q, m) \<leftarrow> strtok_r p d q m;
     case t of None \<Rightarrow> Some ([], m)
     | Some token \<Rightarrow> do { (ts, m) \<leftarrow> strtok_all 0 d q m; Some (token # ts, m) } }"

lemma cstr_agree: "cstr m a s \<Longrightarrow> \<forall>x. a \<le> x \<and> x \<le> a + length s \<longrightarrow> m' x = m x \<Longrightarrow> cstr m' a s"
  by (auto simp: cstr_def block_at_def nth_append less_Suc_eq)

lemma strtok_all_ok:
  "cstr m a s \<Longrightarrow> cstr m d ds \<Longrightarrow> disjoint a (length s + 1) d (length ds + 1) \<Longrightarrow> p = 0 \<and> q = a \<or> p = a \<Longrightarrow>
   \<exists>ts m'. strtok_all p d q m = Some (ts, m') \<and> list_all2 (cstr m') ts (tokens ds s) \<and>
     (\<forall>x. x < a \<or> a + length s \<le> x \<longrightarrow> m' x = m x)"
proof (induction ds s arbitrary: m a p q rule: tokens.induct)
  case (1 ds s)
  show ?case
  proof (cases "next_token ds s = []")
    case True
    then show ?thesis using strtok_r_ok(1) [OF 1(2-5) True] by (subst strtok_all.simps) (simp add: tokens.simps)
  next
    case False
    let ?tok = "next_token ds s" and ?s = "after_token ds s"
    obtain t e m1 where t: "strtok_r p d q m = Some (Some t, e, m1)" "cstr m1 t ?tok" "cstr m1 e ?s" "cstr m1 d ds" "a \<le> t"
        "t + length ?tok < e \<or> ?s = [] \<and> t + length ?tok = e" "e + length ?s = a + length s" "\<forall>x. x < a \<or> a + length s \<le> x \<longrightarrow> m1 x = m x"
      using strtok_r_ok(2) [OF 1(2-5) False] by blast
    have e0: "e \<noteq> 0" "a \<le> e" using t(3,5,6) by (auto simp: cstr_def)
    have dis: "disjoint e (length ?s + 1) d (length ds + 1)" using 1(4) t(7) e0 by (auto simp: disjoint_def)
    obtain ts m2 where ts: "strtok_all 0 d e m1 = Some (ts, m2)" "list_all2 (cstr m2) ts (tokens ds ?s)"
        "\<forall>x. x < e \<or> e + length ?s \<le> x \<longrightarrow> m2 x = m1 x"
      using 1(1) [OF False t(3,4) dis, of 0 e] by blast
    have "cstr m2 t ?tok" by (rule cstr_agree [OF t(2)]) (use ts(3) t(6) in auto)
    moreover have "strtok_all p d q m = Some (t # ts, m2)" using t(1) ts(1) by (subst strtok_all.simps) simp
    ultimately show ?thesis using ts(2,3) t(7,8) e0 False
      by (intro exI [of _ "t # ts"] exI [of _ m2]) (auto simp: tokens.simps [of ds s])
  qed
qed

text \<open>
  C37: calling \<^verbatim>\<open>strtok_r\<close> until it returns a null pointer ends and yields all tokens of the string in order: the
  returned pointers are strings in the final memory, equal to the maximal runs of non-delimiters, and no byte outside the
  string has changed.
\<close>

theorem strtok_r_tokens:
  assumes "cstr m a s" and "cstr m d ds" and "disjoint a (length s + 1) d (length ds + 1)"
  shows "\<exists>ts m'. strtok_all a d q m = Some (ts, m') \<and> list_all2 (cstr m') ts (tokens ds s) \<and>
    (\<forall>x. x < a \<or> a + length s \<le> x \<longrightarrow> m' x = m x)"
  using strtok_all_ok [OF assms, of a q] by simp

theorem strtok_r_tokens_witness:
  "\<exists>ts m'. strtok_all 10 20 0 (put 10 [47, 97, 47, 47, 98, 0] (put 20 [47, 0] Map.empty)) = Some (ts, m') \<and> list_all2 (cstr m') ts [[97], [98]]"
proof -
  have a: "cstr (put 10 [47, 97, 47, 47, 98, 0] (put 20 [47, 0] Map.empty)) 10 [47, 97, 47, 47, 98]"
    by (auto simp: cstr_def block_at_Cons) (auto simp: put_def block_at_def)
  have d: "cstr (put 10 [47, 97, 47, 47, 98, 0] (put 20 [47, 0] Map.empty)) 20 [47]"
    by (auto simp: cstr_def block_at_Cons) (auto simp: put_def block_at_def)
  have "tokens [47] [47, 97, 47, 47, 98 :: u8] = [[97], [98]]"
    by (simp add: tokens.simps next_token_def after_token_def)
  then show ?thesis using strtok_r_tokens [OF a d, of 0] by (auto simp: disjoint_def)
qed

section \<open>Copying strings\<close>

text \<open>
  \<^verbatim>\<open>strlcpy\<close> never writes more than \<^verbatim>\<open>size\<close> bytes and always terminates the copy: it returns the length of the
  source, the destination becomes the string of its first \<^verbatim>\<open>size\<close> - 1 characters, and nothing else changes.
\<close>

theorem strlcpy_correct:
  assumes src: "cstr m src s" and dst: "dst \<noteq> 0" "mapped m dst n" and n: "0 < n" and dis: "disjoint dst n src (length s + 1)"
  shows "strlcpy dst src n m = Some (length s, put dst (take (n - 1) s @ [0]) m) \<and>
    cstr (put dst (take (n - 1) s @ [0]) m) dst (take (n - 1) s) \<and> length (take (n - 1) s @ [0]) \<le> n"
proof -
  have src0: "src \<noteq> 0" using src by (simp add: cstr_def)
  have k: "(if length s < n - 1 then length s else n - 1) = length (take (n - 1) s)" by simp
  have b: "block_at m src (take (n - 1) s)" using src by (auto simp: cstr_def block_at_def nth_append)
  have mp: "mapped m dst (length (take (n - 1) s))" using dst(2) by (auto simp: mapped_def)
  have "copy_up (length (take (n - 1) s)) dst src m = Some (put dst (take (n - 1) s) m)"
    by (rule copy_up_ok [OF b mp]) (use dis in \<open>auto simp: disjoint_def\<close>)
  then have c: "memcpy dst src (length (take (n - 1) s)) m = Some (dst, put dst (take (n - 1) s) m)"
    using dst src by (simp add: memcpy_def cstr_def)
  have "put dst (take (n - 1) s) m (dst + length (take (n - 1) s)) \<noteq> None"
    using dst(2) n by (auto simp: put_def mapped_def)
  then have "store (dst + length (take (n - 1) s)) 0 (put dst (take (n - 1) s) m) = Some (put dst (take (n - 1) s @ [0]) m)"
    by (simp add: store_def put_append put_Cons)
  then have "strlcpy dst src n m = Some (length s, put dst (take (n - 1) s @ [0]) m)"
    unfolding strlcpy_def strlen_ok [OF src] using dst(1) n c src0 k by (cases "length s < n - 1") (simp_all add: Let_def)
  moreover have "0 \<notin> set (take (n - 1) s)" using src by (auto simp: cstr_def dest: in_set_takeD)
  ultimately show ?thesis using block_at_put [of dst "take (n - 1) s @ [0]" m] dst n by (simp add: cstr_def)
qed

theorem strlcpy_correct_witness:
  "strlcpy 30 10 3 (put 10 [97, 98, 99, 0] (put 30 [1, 1, 1, 1] Map.empty)) =
     Some (3, put 30 [97, 98, 0] (put 10 [97, 98, 99, 0] (put 30 [1, 1, 1, 1] Map.empty)))"
proof -
  let ?m = "put 10 [97, 98, 99, 0] (put 30 [1, 1, 1, 1] Map.empty)"
  have a: "cstr ?m 10 [97, 98, 99]" by (auto simp: cstr_def block_at_Cons) (auto simp: put_def block_at_def)
  have d: "mapped ?m 30 3" by (auto simp: mapped_def put_def)
  show ?thesis using strlcpy_correct [OF a _ d] by (simp add: disjoint_def)
qed

end

