(* ===== verification/File.thy ===== *)
theory File
  imports Inode_File
begin

text \<open>
  Open files, \<^verbatim>\<open>filesys/file.c\<close>, and the rest of the free map, \<^verbatim>\<open>filesys/free-map.c\<close>, which keeps its bits in a
  file: \<open>fm_write\<close> is the write of the free map that the operations of the theories below take as a parameter.
\<close>

section \<open>Open files\<close>

definition upd_file :: "addr \<Rightarrow> (kfile \<Rightarrow> kfile) \<Rightarrow> fsys \<Rightarrow> fsys option" where
  "upd_file f g s = do { k \<leftarrow> files s f; Some (s\<lparr>files := (files s)(f \<mapsto> g k)\<rparr>) }"

definition file_open :: "addr \<Rightarrow> fsys \<Rightarrow> (addr \<times> fsys) option" where
  "file_open p s =
     (if p \<noteq> NULL then do {
        let f = next_addr s;
        Some (f, s\<lparr>files := (files s)(f \<mapsto> \<lparr>f_inode = p, f_pos = 0, f_deny_write = False, f_memory_mapped = False\<rparr>), next_addr := f + 1\<rparr>) }
      else Some (NULL, s))"

definition file_reopen :: "addr \<Rightarrow> fsys \<Rightarrow> (addr \<times> fsys) option" where
  "file_reopen f s = do {
     k \<leftarrow> files s f;
     (p, s) \<leftarrow> inode_reopen (f_inode k) s;
     file_open p s }"

definition file_get_inode :: "addr \<Rightarrow> fsys \<Rightarrow> addr option" where
  "file_get_inode f s = map_option f_inode (files s f)"

definition file_read :: "fm_writer \<Rightarrow> addr \<Rightarrow> int \<Rightarrow> fsys \<Rightarrow> (u8 list \<times> fsys) option" where
  "file_read fmw f cnt s = do {
     k \<leftarrow> files s f;
     (bytes, s) \<leftarrow> inode_read_at fmw (f_inode k) cnt (f_pos k) s;
     s \<leftarrow> upd_file f (\<lambda>k. k\<lparr>f_pos := f_pos k + int (length bytes)\<rparr>) s;
     Some (bytes, s) }"

definition file_read_at :: "fm_writer \<Rightarrow> addr \<Rightarrow> int \<Rightarrow> int \<Rightarrow> fsys \<Rightarrow> (u8 list \<times> fsys) option" where
  "file_read_at fmw f cnt file_ofs s = do { k \<leftarrow> files s f; inode_read_at fmw (f_inode k) cnt file_ofs s }"

definition file_write :: "fm_writer \<Rightarrow> addr \<Rightarrow> u8 list \<Rightarrow> fsys \<Rightarrow> (nat \<times> fsys) option" where
  "file_write fmw f buffer s = do {
     k \<leftarrow> files s f;
     (n, s) \<leftarrow> inode_write_at fmw (f_inode k) buffer (f_pos k) s;
     s \<leftarrow> upd_file f (\<lambda>k. k\<lparr>f_pos := f_pos k + int n\<rparr>) s;
     Some (n, s) }"

definition file_write_at :: "fm_writer \<Rightarrow> addr \<Rightarrow> u8 list \<Rightarrow> int \<Rightarrow> fsys \<Rightarrow> (nat \<times> fsys) option" where
  "file_write_at fmw f buffer file_ofs s = do { k \<leftarrow> files s f; inode_write_at fmw (f_inode k) buffer file_ofs s }"

definition file_deny_write :: "addr \<Rightarrow> fsys \<Rightarrow> fsys option" where
  "file_deny_write f s = do {
     ASSERT (f \<noteq> NULL);
     k \<leftarrow> files s f;
     if \<not> f_deny_write k then do {
       s \<leftarrow> upd_file f (f_deny_write_update (\<lambda>_. True)) s;
       inode_deny_write (f_inode k) s }
     else Some s }"

definition file_allow_write :: "addr \<Rightarrow> fsys \<Rightarrow> fsys option" where
  "file_allow_write f s = do {
     ASSERT (f \<noteq> NULL);
     k \<leftarrow> files s f;
     if f_deny_write k then do {
       s \<leftarrow> upd_file f (f_deny_write_update (\<lambda>_. False)) s;
       inode_allow_write (f_inode k) s }
     else Some s }"

definition file_close :: "fm_writer \<Rightarrow> addr \<Rightarrow> fsys \<Rightarrow> fsys option" where
  "file_close fmw f s =
     (if f \<noteq> NULL then do {
        s \<leftarrow> file_allow_write f s;
        k \<leftarrow> files s f;
        s \<leftarrow> inode_close fmw (f_inode k) s;
        Some (s\<lparr>files := (files s)(f := None)\<rparr>) }
      else Some s)"

definition file_length :: "addr \<Rightarrow> fsys \<Rightarrow> (int \<times> fsys) option" where
  "file_length f s = do { ASSERT (f \<noteq> NULL); k \<leftarrow> files s f; inode_length (f_inode k) s }"

definition file_seek :: "addr \<Rightarrow> int \<Rightarrow> fsys \<Rightarrow> fsys option" where
  "file_seek f new_pos s = do { ASSERT (f \<noteq> NULL); ASSERT (0 \<le> new_pos); upd_file f (f_pos_update (\<lambda>_. new_pos)) s }"

definition file_tell :: "addr \<Rightarrow> fsys \<Rightarrow> int option" where
  "file_tell f s = do { ASSERT (f \<noteq> NULL); map_option f_pos (files s f) }"

section \<open>The file of the free map\<close>

definition bitmap_write :: "fm_writer \<Rightarrow> bitmap \<Rightarrow> addr \<Rightarrow> fsys \<Rightarrow> (bool \<times> fsys) option" where
  "bitmap_write fmw b f s = do {
     (n, s) \<leftarrow> file_write_at fmw f (take (byte_cnt (bit_cnt b)) (bitmap_bytes b)) 0 s;
     Some (n = byte_cnt (bit_cnt b), s) }"

text \<open>
  Writing the free map to its file goes through \<^verbatim>\<open>inode_write_at\<close>, which may allocate sectors and so write the free
  map again. \<open>fm_write n\<close> allows \<open>n\<close> such nested writes; a write that stays inside the file needs one.
\<close>

primrec fm_write :: "nat \<Rightarrow> fm_writer" where
  "fm_write 0 = (\<lambda>s. None)"
| "fm_write (Suc n) = (\<lambda>s. bitmap_write (fm_write n) (free_map s) (free_map_file s) s)"

definition bitmap_read :: "fm_writer \<Rightarrow> bitmap \<Rightarrow> addr \<Rightarrow> fsys \<Rightarrow> (bool \<times> bitmap \<times> fsys) option" where
  "bitmap_read fmw b f s =
     (if 0 < bit_cnt b then do {
        (bytes, s) \<leftarrow> file_read_at fmw f (int (byte_cnt (bit_cnt b))) 0 s;
        b' \<leftarrow> bitmap_read_bytes b bytes;
        Some (length bytes = byte_cnt (bit_cnt b), b', s) }
      else Some (True, b, s))"

definition free_map_open :: "fm_writer \<Rightarrow> fsys \<Rightarrow> fsys option" where
  "free_map_open fmw s = do {
     (p, s) \<leftarrow> inode_open FREE_MAP_SECTOR s;
     (f, s) \<leftarrow> file_open p s;
     ASSERT (f \<noteq> NULL);
     let s = s\<lparr>free_map_file := f\<rparr>;
     (success, b, s) \<leftarrow> bitmap_read fmw (free_map s) f s;
     ASSERT success;
     Some (s\<lparr>free_map := b\<rparr>) }"

text \<open>\<^verbatim>\<open>free_map_file\<close> keeps the address of the closed file.\<close>

definition free_map_close :: "fm_writer \<Rightarrow> fsys \<Rightarrow> fsys option" where
  "free_map_close fmw s = file_close fmw (free_map_file s) s"

definition free_map_create :: "fm_writer \<Rightarrow> fsys \<Rightarrow> fsys option" where
  "free_map_create fmw s = do {
     (success, s) \<leftarrow> inode_create fmw FREE_MAP_SECTOR (int (bitmap_file_size (free_map s))) FREE_MAP_SECTOR False s;
     ASSERT success;
     (p, s) \<leftarrow> inode_open FREE_MAP_SECTOR s;
     (f, s) \<leftarrow> file_open p s;
     ASSERT (f \<noteq> NULL);
     let s = s\<lparr>free_map_file := f\<rparr>;
     (success, s) \<leftarrow> bitmap_write fmw (free_map s) f s;
     ASSERT success;
     Some s }"

section \<open>The free map as an allocator\<close>

text \<open>\<open>fm_ok p d s\<close>: the free map is well formed and its file, inode \<open>p\<close> with contents \<open>d\<close>, is open, in order and
  large enough.\<close>

definition fm_ok :: "addr \<Rightarrow> inode_disk \<Rightarrow> fsys \<Rightarrow> bool" where
  "fm_ok p d s \<longleftrightarrow> good_file p d s \<and> bitmap_wf (free_map s) \<and> free_map_file s \<noteq> NULL \<and>
     map_option f_inode (files s (free_map_file s)) = Some p \<and> byte_cnt (bit_cnt (free_map s)) \<le> length (file_content d s)"

lemma byte_cnt_bytes: "bitmap_wf b \<Longrightarrow> byte_cnt (bit_cnt b) = length (bitmap_bytes b)"
proof -
  assume wf: "bitmap_wf b"
  have "elem_cnt (bit_cnt b) = DIV_ROUND_UP (bit_cnt b) ELEM_BITS" using wf by (simp add: elem_cnt_eq bitmap_wf_def)
  moreover have "DIV_ROUND_UP (bit_cnt b) 32 \<le> 2 ^ 27"
    using wf by (intro DIV_ROUND_UP_least) (auto simp: bitmap_wf_def ELEM_BITS_def)
  ultimately show ?thesis using wf by (simp add: byte_cnt_def length_bitmap_bytes bitmap_wf_def ELEM_BITS_def)
qed

lemma good_file_upd: "good_file p d (s\<lparr>free_map := b\<rparr>) = good_file p d s" "file_content d (s\<lparr>free_map := b\<rparr>) = file_content d s"
  by (simp_all add: good_file_def tab_ok_def open_sectors_def file_content_def)

lemma fm_write_ok:
  assumes g: "good_file p d s" and wf: "bitmap_wf (free_map s)" and f: "map_option f_inode (files s (free_map_file s)) = Some p"
    and len: "byte_cnt (bit_cnt (free_map s)) \<le> length (file_content d s)"
  shows "\<exists>s'. fm_write (Suc n) s = Some (True, s') \<and> good_file p d s' \<and> same_rest s s' \<and> fs_cap s' = fs_cap s \<and>
    file_content d s' = overwrite (file_content d s) 0 (bitmap_bytes (free_map s))"
proof -
  have bc: "byte_cnt (bit_cnt (free_map s)) = length (bitmap_bytes (free_map s))" by (rule byte_cnt_bytes [OF wf])
  obtain k where k: "files s (free_map_file s) = Some k" "f_inode k = p" using f by auto
  obtain s' where "inode_write_at (fm_write n) p (bitmap_bytes (free_map s)) (int 0) s = Some (length (bitmap_bytes (free_map s)), s')"
      "good_file p d s'" "file_content d s' = overwrite (file_content d s) 0 (bitmap_bytes (free_map s))" "written d s s'"
    using good_write [OF g, of 0 "bitmap_bytes (free_map s)"] len bc by auto
  then show ?thesis using k bc by (auto simp: bitmap_write_def file_write_at_def written_def)
qed

text \<open>The two outcomes of an allocation.\<close>

lemma free_map_allocate_cases:
  assumes ok: "fm_ok p d s" and n: "0 < n"
  obtains (found) i s' where "free_map_allocate (fm_write (Suc m)) n s = Some (Some i, s')" and "fm_ok p d s'"
      and "bitmap_alloc (free_map s) n = Some (Some i, free_map s')" and "fs_cap s' = fs_cap s"
      and "file_content d s' = overwrite (file_content d s) 0 (bitmap_bytes (free_map s'))"
    | (missing) "free_map_allocate (fm_write (Suc m)) n s = Some (None, s)" and "bitmap_alloc (free_map s) n = Some (None, free_map s)"
proof -
  have o: "good_file p d s" "bitmap_wf (free_map s)" "free_map_file s \<noteq> NULL" "map_option f_inode (files s (free_map_file s)) = Some p"
    "byte_cnt (bit_cnt (free_map s)) \<le> length (file_content d s)" using ok by (simp_all add: fm_ok_def)
  from o(2) n show thesis
  proof (cases rule: bitmap_alloc_cases)
    case (found i b)
    have i: "bitmap_scan_and_flip (free_map s) 0 n False = Some (i, b)" "i \<noteq> BITMAP_ERROR"
      using found(1) by (auto simp: bitmap_alloc_def split: if_splits)
    have cnt: "bit_cnt b = bit_cnt (free_map s)"
      using bm.alloc_found [OF o(2) n found(1)] by simp
    let ?s = "s\<lparr>free_map := b\<rparr>"
    obtain s' where s': "fm_write (Suc m) ?s = Some (True, s')" "good_file p d s'" "same_rest ?s s'" "fs_cap s' = fs_cap s"
        "file_content d s' = overwrite (file_content d s) 0 (bitmap_bytes b)"
      using fm_write_ok [of p d ?s m] o found(3) cnt by (auto simp: good_file_upd)
    have eq: "free_map s' = b" "free_map_file s' = free_map_file s" "files s' = files s" using s'(3) by (simp_all add: same_rest_def)
    have "length (bitmap_bytes b) \<le> length (file_content d s)" using o(5) byte_cnt_bytes [OF found(3)] cnt by simp
    then have "length (file_content d s') = length (file_content d s)" unfolding s'(5) by simp
    then have "fm_ok p d s'" using s'(2) o eq found(3) cnt by (simp add: fm_ok_def)
    moreover have "free_map_allocate (fm_write (Suc m)) n s = Some (Some i, s')"
      using i o(3) s'(1) by (simp add: free_map_allocate_def del: fm_write.simps)
    ultimately show thesis using that(1) found(1) eq(1) s'(4,5) by blast
  next
    case missing
    then have "bitmap_scan_and_flip (free_map s) 0 n False = Some (BITMAP_ERROR, free_map s)"
      by (auto simp: bitmap_alloc_def split: if_splits)
    then have "free_map_allocate (fm_write (Suc m)) n s = Some (None, s)" by (simp add: free_map_allocate_def)
    then show thesis using that(2) missing(1) by blast
  qed
qed

interpretation fm: slot_source "\<lambda>s n. free_map_allocate (fm_write (Suc m)) n s" "\<lambda>s. bitmap_used (free_map s)"
  "\<lambda>s. bit_cnt (free_map s)" "fm_ok p d" for m p d
proof (unfold_locales, goal_cases)
  case (1 s n)
  then show ?case by (cases rule: free_map_allocate_cases [where m = m]) auto
next
  case (2 s n i s')
  have wf: "bitmap_wf (free_map s)" using 2(1) by (simp add: fm_ok_def)
  from 2(1,2) show ?case
    using 2(3) bm.alloc_found [OF wf 2(2)] by (cases rule: free_map_allocate_cases [where m = m]) auto
next
  case (3 s n s')
  have wf: "bitmap_wf (free_map s)" using 3(1) by (simp add: fm_ok_def)
  from 3(1,2) show ?case
    using 3(3) bm.alloc_missing [OF wf 3(2)] by (cases rule: free_map_allocate_cases [where m = m]) auto
qed

text \<open>
  C17: sectors are allocated at most once, and the allocation is on disk. While the free map's file is in order, two
  allocations in a row that succeed return disjoint runs of sectors that were free before; the sectors then in use are
  those in use before and the two runs, and the file of the free map holds exactly the bits of the free map. (As in theory \<open>Cache\<close>, the flag of
  \<open>bc_block_write\<close> reads as false.)
\<close>

theorem free_map_allocations_disjoint:
  assumes ok: "fm_ok p d s" and n: "0 < n" "0 < k"
    and a: "free_map_allocate (fm_write (Suc m)) n s = Some (Some i, s1)" and b: "free_map_allocate (fm_write (Suc m)) k s1 = Some (Some j, s2)"
  shows "{i..<i + n} \<inter> {j..<j + k} = {} \<and> {i..<i + n} \<inter> bitmap_used (free_map s) = {} \<and>
    bitmap_used (free_map s2) = bitmap_used (free_map s) \<union> {i..<i + n} \<union> {j..<j + k} \<and>
    take (byte_cnt (bit_cnt (free_map s2))) (file_content d s2) = bitmap_bytes (free_map s2)"
proof -
  have ok1: "fm_ok p d s1" "{i..<i + n} \<inter> bitmap_used (free_map s) = {}" using fm.alloc_found [OF ok n(1) a] by auto
  have "take (byte_cnt (bit_cnt (free_map s2))) (file_content d s2) = bitmap_bytes (free_map s2)"
    using ok1(1) n(2)
  proof (cases rule: free_map_allocate_cases [where m = m])
    case (found j' s')
    then have "s' = s2" using b by simp
    moreover have "byte_cnt (bit_cnt (free_map s')) = length (bitmap_bytes (free_map s'))"
      using found(2) byte_cnt_bytes by (simp add: fm_ok_def)
    ultimately show ?thesis using found(5) by (simp add: overwrite_def)
  qed (use b in simp)
  then show ?thesis using fm.alloc_disjoint [OF ok n a b] ok1(2) by blast
qed

definition demo_fm :: "bcache \<Rightarrow> fsys" where
  "demo_fm b = (demo_fs b)\<lparr>free_map := demo_bitmap, free_map_file := 9,
     files := [9 \<mapsto> \<lparr>f_inode = 1, f_pos = 0, f_deny_write = False, f_memory_mapped = False\<rparr>]\<rparr>"

lemma demo_fm_ok: "good_file 1 demo_inode (demo_fs b) \<Longrightarrow> fm_ok 1 demo_inode (demo_fm b)"
  using demo_bitmap_wf byte_cnt_bytes [of demo_bitmap] length_bitmap_bytes [of demo_bitmap]
  by (simp add: fm_ok_def demo_fm_def demo_content) (simp add: good_file_def tab_ok_def open_sectors_def demo_bitmap_def)

lemma demo_free: "10 \<notin> bitmap_used demo_bitmap" "11 \<notin> bitmap_used demo_bitmap"
  by (simp_all add: bitmap_used_def demo_bitmap_def bitmap_bit_def ELEM_BITS_def bit_numeral_rec)

theorem free_map_allocations_disjoint_witness:
  "\<exists>b i s1 j s2. bc_block_write 5 (disk_bytes demo_inode) 0 demo_cache = Some b \<and>
     free_map_allocate (fm_write (Suc 0)) 1 (demo_fm b) = Some (Some i, s1) \<and>
     free_map_allocate (fm_write (Suc 0)) 1 s1 = Some (Some j, s2) \<and> i \<noteq> j"
proof -
  obtain b where b: "bc_block_write 5 (disk_bytes demo_inode) 0 demo_cache = Some b" "fm_ok 1 demo_inode (demo_fm b)"
    using demo_good demo_fm_ok by blast
  have sing: "{i..<i + 1} = {i}" for i :: nat by auto
  have u: "bitmap_used (free_map (demo_fm b)) = bitmap_used demo_bitmap" "bit_cnt (free_map (demo_fm b)) = 40"
    using demo_bitmap_wf by (simp_all add: demo_fm_def)
  obtain r s1 where r: "free_map_allocate (fm_write (Suc 0)) 1 (demo_fm b) = Some (r, s1)"
    using fm.alloc_returns [OF b(2), of 1 0] by auto
  have "r \<noteq> None"
  proof
    assume "r = None"
    then have "\<forall>i. i + 1 \<le> 40 \<longrightarrow> {i..<i + 1} \<inter> bitmap_used demo_bitmap \<noteq> {}"
      using fm.alloc_missing [OF b(2), of 1 0 s1] r u by simp
    from this [rule_format, of 10, unfolded sing] show False using demo_free by simp
  qed
  then obtain i where i: "free_map_allocate (fm_write (Suc 0)) 1 (demo_fm b) = Some (Some i, s1)" using r by auto
  have s1: "fm_ok 1 demo_inode s1" "bit_cnt (free_map s1) = 40" "bitmap_used (free_map s1) = bitmap_used demo_bitmap \<union> {i..<i + 1}"
    using fm.alloc_found [OF b(2) _ i] u by auto
  obtain r' s2 where r': "free_map_allocate (fm_write (Suc 0)) 1 s1 = Some (r', s2)"
    using fm.alloc_returns [OF s1(1), of 1 0] by auto
  have "r' \<noteq> None"
  proof
    assume "r' = None"
    then have all: "\<forall>i. i + 1 \<le> 40 \<longrightarrow> {i..<i + 1} \<inter> bitmap_used (free_map s1) \<noteq> {}"
      using fm.alloc_missing [OF s1(1), of 1 0 s2] r' s1(2) by simp
    show False using all [rule_format, of 10, unfolded sing] all [rule_format, of 11, unfolded sing] s1(3) demo_free by auto
  qed
  then obtain j where j: "free_map_allocate (fm_write (Suc 0)) 1 s1 = Some (Some j, s2)" using r' by auto
  have "{i..<i + 1} \<inter> {j..<j + 1} = {}"
    using free_map_allocations_disjoint [OF b(2) _ _ i j] by simp
  then show ?thesis using b(1) i j by auto
qed

end

