(* ===== verification/Directory.thy ===== *)
theory Directory
  imports File CString
begin

text \<open>
  Directories, \<^verbatim>\<open>filesys/directory.c\<close>. A directory is a file of 72-byte entries. Strings (names and
  paths) are the lists of their characters; theory \<open>CString\<close> shows that the string functions compute the list
  functions used here. The current directory of the running thread is the argument \<open>cwd\<close> (a null pointer for
  the root), and \<open>junk\<close> stands for what uninitialised local variables happen to hold.
\<close>

section \<open>Directory entries\<close>

definition NAME_MAX :: nat where "NAME_MAX = 63"
definition DIR_PATH_MAX :: nat where "DIR_PATH_MAX = 600"
definition DIR_INITIAL_SIZE :: nat where "DIR_INITIAL_SIZE = 10"
definition DIRENT_SIZE :: nat where "DIRENT_SIZE = 72"

text \<open>The bytes of \<^verbatim>\<open>struct dir_entry\<close>: the sector in bytes 0 to 3, the name in 4 to 67, \<^verbatim>\<open>in_use\<close> in 68, \<^verbatim>\<open>is_dir\<close>
  in 69, two bytes of padding.\<close>

type_synonym dirent = "u8 list"

definition de_sector :: "dirent \<Rightarrow> nat" where
  "de_sector e = hd (words_of_bytes (take 4 e))"

definition de_in_use :: "dirent \<Rightarrow> bool" where "de_in_use e \<longleftrightarrow> e ! 68 \<noteq> 0"
definition de_is_dir :: "dirent \<Rightarrow> bool" where "de_is_dir e \<longleftrightarrow> e ! 69 \<noteq> 0"

text \<open>The name as a string: up to the first null byte after its start. Without one the comparison leaves the structure.\<close>

definition de_name :: "dirent \<Rightarrow> u8 list option" where
  "de_name e = (if 0 \<in> set (drop 4 e) then Some (takeWhile (\<lambda>c. c \<noteq> 0) (drop 4 e)) else None)"

definition de_fill :: "dirent \<Rightarrow> u8 list \<Rightarrow> nat \<Rightarrow> bool \<Rightarrow> dirent" where
  "de_fill e name sector isdir =
     (overwrite (overwrite (overwrite e 4 (take NAME_MAX name @ [0])) 0 (u32_bytes sector)) 68 [1, if isdir then 1 else 0])"

definition de_clear :: "dirent \<Rightarrow> dirent" where "de_clear e = e[68 := 0]"

text \<open>The loop that \<^verbatim>\<open>lookup\<close>, \<^verbatim>\<open>dir_add\<close> and \<^verbatim>\<open>dir_is_empty\<close> share: read entries from \<open>ofs\<close> on into \<open>e\<close> until one
  satisfies \<open>P\<close> or a read is short.\<close>

partial_function (option) scan_entries ::
    "(nat \<Rightarrow> nat \<Rightarrow> 's \<Rightarrow> (u8 list \<times> 's) option) \<Rightarrow> (dirent \<Rightarrow> bool option) \<Rightarrow> nat \<Rightarrow> dirent \<Rightarrow> 's \<Rightarrow> (bool \<times> dirent \<times> nat \<times> 's) option" where
  "scan_entries rd P ofs e s = do {
     (bytes, s) \<leftarrow> rd DIRENT_SIZE ofs s;
     let e = overwrite e 0 bytes;
     if length bytes = DIRENT_SIZE then do {
       found \<leftarrow> P e;
       if found then Some (True, e, ofs, s) else scan_entries rd P (ofs + DIRENT_SIZE) e s }
     else Some (False, e, ofs, s) }"

section \<open>Opening directories\<close>

definition dir_create :: "fm_writer \<Rightarrow> nat \<Rightarrow> nat \<Rightarrow> nat \<Rightarrow> fsys \<Rightarrow> (bool \<times> fsys) option" where
  "dir_create fmw sector initial_entry_cnt parent s =
     inode_create fmw sector (bits_off (sz (initial_entry_cnt * DIRENT_SIZE))) parent False s"

definition dir_open :: "addr \<Rightarrow> fsys \<Rightarrow> (addr \<times> fsys) option" where
  "dir_open p s =
     (if p \<noteq> NULL then do {
        let a = next_addr s;
        Some (a, s\<lparr>dirs := (dirs s)(a \<mapsto> \<lparr>dr_inode = p, dr_lock = False, dr_pos = 0\<rparr>), next_addr := a + 1\<rparr>) }
      else Some (NULL, s))"

definition dir_open_root :: "fsys \<Rightarrow> (addr \<times> fsys) option" where
  "dir_open_root s = do { (p, s) \<leftarrow> inode_open ROOT_DIR_SECTOR s; dir_open p s }"

definition dir_get_inode :: "addr \<Rightarrow> fsys \<Rightarrow> addr option" where
  "dir_get_inode a s = map_option dr_inode (dirs s a)"

definition dir_reopen :: "addr \<Rightarrow> fsys \<Rightarrow> (addr \<times> fsys) option" where
  "dir_reopen a s = do {
     q \<leftarrow> dir_get_inode a s;
     (p, s) \<leftarrow> inode_reopen q s;
     dir_open p s }"

definition dir_close :: "fm_writer \<Rightarrow> addr \<Rightarrow> fsys \<Rightarrow> fsys option" where
  "dir_close fmw a s =
     (if a \<noteq> NULL then do {
        p \<leftarrow> dir_get_inode a s;
        s \<leftarrow> inode_close fmw p s;
        Some (s\<lparr>dirs := (dirs s)(a := None)\<rparr>) }
      else Some s)"

definition dir_lock_acquire :: "addr \<Rightarrow> fsys \<Rightarrow> fsys option" where
  "dir_lock_acquire a s = do {
     d \<leftarrow> dirs s a;
     ASSERT (\<not> dr_lock d);
     Some (s\<lparr>dirs := (dirs s)(a \<mapsto> d\<lparr>dr_lock := True\<rparr>)\<rparr>) }"

definition dir_lock_release :: "addr \<Rightarrow> fsys \<Rightarrow> fsys option" where
  "dir_lock_release a s = do {
     d \<leftarrow> dirs s a;
     ASSERT (dr_lock d);
     Some (s\<lparr>dirs := (dirs s)(a \<mapsto> d\<lparr>dr_lock := False\<rparr>)\<rparr>) }"

section \<open>Entries of a directory\<close>

definition entry_named :: "u8 list \<Rightarrow> dirent \<Rightarrow> bool option" where
  "entry_named name e = (if de_in_use e then do { n \<leftarrow> de_name e; Some (name = n) } else Some False)"

text \<open>The result is the entry found and its offset, \<open>None\<close> for \<^verbatim>\<open>false\<close>.\<close>

definition lookup :: "fm_writer \<Rightarrow> dirent \<Rightarrow> addr \<Rightarrow> u8 list \<Rightarrow> fsys \<Rightarrow> ((dirent \<times> nat) option \<times> fsys) option" where
  "lookup fmw junk a name s = do {
     ASSERT (a \<noteq> NULL);
     p \<leftarrow> dir_get_inode a s;
     (found, e, ofs, s) \<leftarrow> scan_entries (\<lambda>cnt ofs. inode_read_at fmw p (int cnt) (int ofs)) (entry_named name) 0 junk s;
     Some (if found then Some (e, ofs) else None, s) }"

definition dir_lookup_entry :: "fm_writer \<Rightarrow> dirent \<Rightarrow> addr \<Rightarrow> u8 list \<Rightarrow> bool \<Rightarrow> fsys \<Rightarrow> (bool \<times> addr \<times> fsys) option" where
  "dir_lookup_entry fmw junk a name isdir s =
     (if a \<noteq> NULL then do {
        (r, s) \<leftarrow> lookup fmw junk a name s;
        case r of
          None \<Rightarrow> Some (False, NULL, s)
        | Some (e, _) \<Rightarrow>
            (if isdir \<longrightarrow> de_is_dir e then do {
               (p, s) \<leftarrow> inode_open (de_sector e) s;
               Some (p \<noteq> NULL, p, s) }
             else Some (False, NULL, s)) }
      else Some (False, NULL, s))"

definition dir_add :: "fm_writer \<Rightarrow> dirent \<Rightarrow> addr \<Rightarrow> u8 list \<Rightarrow> nat \<Rightarrow> bool \<Rightarrow> fsys \<Rightarrow> (bool \<times> fsys) option" where
  "dir_add fmw junk a name inode_sector isdir s = do {
     s \<leftarrow> dir_lock_acquire a s;
     if name = [] \<or> NAME_MAX < length name then Some (False, s)
     else do {
       (r, s) \<leftarrow> lookup fmw junk a name s;
       case r of
         Some _ \<Rightarrow> do { s \<leftarrow> dir_lock_release a s; Some (False, s) }
       | None \<Rightarrow> do {
           p \<leftarrow> dir_get_inode a s;
           (_, e, ofs, s) \<leftarrow> scan_entries (\<lambda>cnt ofs. inode_read_at fmw p (int cnt) (int ofs)) (\<lambda>e. Some (\<not> de_in_use e)) 0 junk s;
           let e = de_fill e name inode_sector isdir;
           (n, s) \<leftarrow> inode_write_at fmw p e (int ofs) s;
           s \<leftarrow> dir_lock_release a s;
           Some (n = DIRENT_SIZE, s) } } }"

definition dir_is_empty :: "fm_writer \<Rightarrow> dirent \<Rightarrow> addr \<Rightarrow> fsys \<Rightarrow> (bool \<times> fsys) option" where
  "dir_is_empty fmw junk a s = do {
     ASSERT (a \<noteq> NULL);
     p \<leftarrow> dir_get_inode a s;
     (used, _, _, s) \<leftarrow> scan_entries (\<lambda>cnt ofs. inode_read_at fmw p (int cnt) (int ofs)) (\<lambda>e. Some (de_in_use e)) 0 junk s;
     Some (\<not> used, s) }"

text \<open>The code after the label \<^verbatim>\<open>done\<close> of \<^verbatim>\<open>dir_remove\<close>. For a directory the inode is closed twice, once through
  \<open>dir_to_remove\<close>.\<close>

definition dir_remove_done :: "fm_writer \<Rightarrow> addr \<Rightarrow> addr \<Rightarrow> addr \<Rightarrow> bool \<Rightarrow> fsys \<Rightarrow> (bool \<times> fsys) option" where
  "dir_remove_done fmw a dir_to_remove p success s = do {
     s \<leftarrow> dir_close fmw dir_to_remove s;
     s \<leftarrow> inode_close fmw p s;
     s \<leftarrow> dir_lock_release a s;
     Some (success, s) }"

definition dir_remove :: "fm_writer \<Rightarrow> dirent \<Rightarrow> addr \<Rightarrow> u8 list \<Rightarrow> fsys \<Rightarrow> (bool \<times> fsys) option" where
  "dir_remove fmw junk a name s = do {
     s \<leftarrow> dir_lock_acquire a s;
     (r, s) \<leftarrow> lookup fmw junk a name s;
     case r of
       None \<Rightarrow> dir_remove_done fmw a NULL NULL False s
     | Some (e, ofs) \<Rightarrow> do {
         (p, s) \<leftarrow> inode_open (de_sector e) s;
         if p = NULL then dir_remove_done fmw a NULL p False s
         else do {
           (dir_to_remove, s) \<leftarrow> (if de_is_dir e then dir_open p s else Some (NULL, s));
           (empty, s) \<leftarrow> (if de_is_dir e then dir_is_empty fmw junk dir_to_remove s else Some (True, s));
           if \<not> empty then dir_remove_done fmw a dir_to_remove p False s
           else do {
             q \<leftarrow> dir_get_inode a s;
             (n, s) \<leftarrow> inode_write_at fmw q (de_clear e) (int ofs) s;
             if n \<noteq> DIRENT_SIZE then dir_remove_done fmw a dir_to_remove p False s
             else do {
               s \<leftarrow> inode_remove p s;
               dir_remove_done fmw a dir_to_remove p True s } } } } }"

text \<open>\<^verbatim>\<open>dir_readdir\<close> keeps its position in the directory structure; the result is the name, \<open>None\<close> for \<^verbatim>\<open>false\<close>.\<close>

partial_function (option) dir_readdir :: "fm_writer \<Rightarrow> dirent \<Rightarrow> addr \<Rightarrow> fsys \<Rightarrow> (u8 list option \<times> fsys) option" where
  "dir_readdir fmw junk a s = do {
     d \<leftarrow> dirs s a;
     (bytes, s) \<leftarrow> inode_read_at fmw (dr_inode d) (int DIRENT_SIZE) (dr_pos d) s;
     let e = overwrite junk 0 bytes;
     if length bytes = DIRENT_SIZE then do {
       d \<leftarrow> dirs s a;
       let s = s\<lparr>dirs := (dirs s)(a \<mapsto> d\<lparr>dr_pos := dr_pos d + int DIRENT_SIZE\<rparr>)\<rparr>;
       if de_in_use e then do { name \<leftarrow> de_name e; Some (Some (take NAME_MAX name), s) }
       else dir_readdir fmw e a s }
     else Some (None, s) }"

section \<open>Paths\<close>

definition SLASH :: u8 where "SLASH = 47"
definition DOT :: u8 where "DOT = 46"

definition path_str_wellformed :: "u8 list \<Rightarrow> bool" where
  "path_str_wellformed path = True"

definition get_path_last_entry :: "u8 list \<Rightarrow> u8 list" where
  "get_path_last_entry path =
     (if SLASH \<in> set path then (if length path = 1 then path else rev (takeWhile (\<lambda>c. c \<noteq> SLASH) (rev path))) else path)"

text \<open>The token is copied to a buffer of \<open>cap\<close> bytes without a check.\<close>

definition get_path_entry :: "nat \<Rightarrow> u8 list \<Rightarrow> nat \<Rightarrow> u8 list option option" where
  "get_path_entry cap path n =
     (let ts = tokens [SLASH] path in
      if n < length ts then do { ASSERT (length (ts ! n) + 1 \<le> cap); Some (Some (ts ! n)) } else Some None)"

definition get_path_entry_cnt :: "u8 list \<Rightarrow> int" where
  "get_path_entry_cnt path = int (length (tokens [SLASH] path))"

definition get_curr_working_dir :: "addr \<Rightarrow> fsys \<Rightarrow> (addr \<times> fsys) option" where
  "get_curr_working_dir cwd s = (if cwd = NULL then dir_open_root s else Some (cwd, s))"

partial_function (option) path_loop ::
    "fm_writer \<Rightarrow> dirent \<Rightarrow> u8 list \<Rightarrow> u8 list \<Rightarrow> int \<Rightarrow> nat \<Rightarrow> u8 list \<Rightarrow> addr \<Rightarrow> addr \<Rightarrow> addr \<Rightarrow> fsys \<Rightarrow> (addr \<times> fsys) option" where
  "path_loop fmw junk path target last_entry_idx i entry_name working prev p s =
     (if entry_name \<noteq> target \<or> int i \<le> last_entry_idx then do {
        r \<leftarrow> get_path_entry (NAME_MAX + 1) path i;
        let entry_name = (case r of Some t \<Rightarrow> t | None \<Rightarrow> entry_name);
        if entry_name = [DOT] then do {
          p \<leftarrow> dir_get_inode working s;
          path_loop fmw junk path target last_entry_idx (i + 1) entry_name working prev p s }
        else if entry_name = [DOT, DOT] then do {
          q \<leftarrow> dir_get_inode working s;
          (sector, s) \<leftarrow> inode_get_parent q s;
          (q, s) \<leftarrow> inode_open sector s;
          (working, s) \<leftarrow> dir_open q s;
          p \<leftarrow> dir_get_inode working s;
          s \<leftarrow> dir_close fmw prev s;
          path_loop fmw junk path target last_entry_idx (i + 1) entry_name working working p s }
        else do {
          (found, p, s) \<leftarrow> dir_lookup_entry fmw junk working entry_name True s;
          if \<not> found then Some (NULL, s)
          else do {
            (working, s) \<leftarrow> dir_open p s;
            s \<leftarrow> dir_close fmw prev s;
            path_loop fmw junk path target last_entry_idx (i + 1) entry_name working working p s } } }
      else Some (p, s))"

definition dir_path_lookup :: "fm_writer \<Rightarrow> dirent \<Rightarrow> addr \<Rightarrow> u8 list \<Rightarrow> fsys \<Rightarrow> (addr \<times> fsys) option" where
  "dir_path_lookup fmw junk cwd path s =
     (if \<not> path_str_wellformed path then Some (NULL, s)
      else if path = [SLASH] then inode_open ROOT_DIR_SECTOR s
      else do {
        (working, s) \<leftarrow> (if path \<noteq> [] \<and> hd path = SLASH then dir_open_root s else get_curr_working_dir cwd s);
        path_loop fmw junk path (get_path_last_entry path) (get_path_entry_cnt path - 1) 0 (takeWhile (\<lambda>c. c \<noteq> 0) junk) working NULL NULL s })"

definition get_parent_directory :: "fm_writer \<Rightarrow> dirent \<Rightarrow> addr \<Rightarrow> u8 list \<Rightarrow> fsys \<Rightarrow> (addr \<times> fsys) option" where
  "get_parent_directory fmw junk cwd path s =
     (if SLASH \<notin> set path then get_curr_working_dir cwd s
      else do {
        r \<leftarrow> get_path_entry (DIR_PATH_MAX + 1) path 1;
        case r of
          None \<Rightarrow> dir_open_root s
        | Some _ \<Rightarrow> do {
            ASSERT (length path \<le> DIR_PATH_MAX);
            let cut = take (length path - length (takeWhile (\<lambda>c. c \<noteq> SLASH) (rev path)) - 1) path;
            (p, s) \<leftarrow> dir_path_lookup fmw junk cwd cut s;
            dir_open p s } })"

definition path_is_dir :: "fm_writer \<Rightarrow> dirent \<Rightarrow> addr \<Rightarrow> u8 list \<Rightarrow> fsys \<Rightarrow> (bool \<times> fsys) option" where
  "path_is_dir fmw junk cwd path s = do {
     (parent, s) \<leftarrow> get_parent_directory fmw junk cwd path s;
     let target = get_path_last_entry path;
     (found, _, s) \<leftarrow> dir_lookup_entry fmw junk parent target True s;
     Some (found \<or> target = [SLASH] \<or> target = [DOT] \<or> target = [DOT, DOT], s) }"

section \<open>A directory as a map from names\<close>

definition dent :: "u8 list \<Rightarrow> nat \<Rightarrow> dirent" where
  "dent bs k = segment bs (DIRENT_SIZE * k) DIRENT_SIZE"

definition dent_cnt :: "u8 list \<Rightarrow> nat" where
  "dent_cnt bs = length bs div DIRENT_SIZE"

definition first_dent :: "(dirent \<Rightarrow> bool) \<Rightarrow> u8 list \<Rightarrow> nat \<Rightarrow> nat option" where
  "first_dent Q bs k = List.find (\<lambda>i. Q (dent bs i)) [k..<dent_cnt bs]"

text \<open>Every entry in use has a terminated name.\<close>

definition dents_ok :: "u8 list \<Rightarrow> bool" where
  "dents_ok bs \<longleftrightarrow> (\<forall>k < dent_cnt bs. de_in_use (dent bs k) \<longrightarrow> de_name (dent bs k) \<noteq> None)"

definition is_named :: "u8 list \<Rightarrow> dirent \<Rightarrow> bool" where
  "is_named name e \<longleftrightarrow> de_in_use e \<and> de_name e = Some name"

definition dir_map :: "u8 list \<Rightarrow> u8 list \<Rightarrow> (nat \<times> bool) option" where
  "dir_map bs name = map_option (\<lambda>k. (de_sector (dent bs k), de_is_dir (dent bs k))) (first_dent (is_named name) bs 0)"

lemma dirent_pos [simp]: "0 < DIRENT_SIZE"
  by (simp add: DIRENT_SIZE_def)

lemma dent_in: "k < dent_cnt bs \<longleftrightarrow> DIRENT_SIZE * k + DIRENT_SIZE \<le> length bs"
  using less_eq_div_iff_mult_less_eq [of DIRENT_SIZE "Suc k" "length bs"] by (simp add: dent_cnt_def Suc_le_eq algebra_simps)

lemma length_dent: "length (dent bs k) = DIRENT_SIZE \<longleftrightarrow> k < dent_cnt bs"
proof -
  have "length (dent bs k) = min DIRENT_SIZE (length bs - DIRENT_SIZE * k)" by (simp add: dent_def segment_def min.commute)
  moreover have "0 < DIRENT_SIZE" by simp
  ultimately show ?thesis unfolding dent_in by linarith
qed

lemma length_dent_le: "length (dent bs k) \<le> DIRENT_SIZE"
  by (simp add: dent_def segment_def)

lemma first_dent_step: "first_dent Q bs k = (if k < dent_cnt bs then if Q (dent bs k) then Some k else first_dent Q bs (Suc k) else None)"
  by (simp add: first_dent_def upt_conv_Cons)

lemma first_dent_Some: "first_dent Q bs k = Some i \<Longrightarrow> k \<le> i \<and> i < dent_cnt bs \<and> Q (dent bs i) \<and> (\<forall>j. k \<le> j \<and> j < i \<longrightarrow> \<not> Q (dent bs j))"
  unfolding first_dent_def find_Some_iff by (auto simp: nth_upt) (metis add_diff_inverse_nat less_diff_conv2 not_less nat_add_left_cancel_less)

lemma first_dent_None: "first_dent Q bs k = None \<longleftrightarrow> (\<forall>j. k \<le> j \<and> j < dent_cnt bs \<longrightarrow> \<not> Q (dent bs j))"
  by (auto simp: first_dent_def find_None_iff)

context byte_file
begin

text \<open>The loop over the entries finds the first entry that satisfies its condition, or stops after the last whole one.\<close>

lemma scan_entries_ok:
  assumes "ok s" and "length e = DIRENT_SIZE"
    and "\<And>i. k \<le> i \<Longrightarrow> i < dent_cnt (bytes s) \<Longrightarrow> P (dent (bytes s) i) = Some (Q (dent (bytes s) i))"
  shows "(case first_dent Q (bytes s) k of
      Some i \<Rightarrow> \<exists>s'. scan_entries rd P (DIRENT_SIZE * k) e s = Some (True, dent (bytes s) i, DIRENT_SIZE * i, s') \<and> ok s' \<and> bytes s' = bytes s
    | None \<Rightarrow> \<exists>e' s'. scan_entries rd P (DIRENT_SIZE * k) e s = Some (False, e', DIRENT_SIZE * max k (dent_cnt (bytes s)), s') \<and>
        length e' = DIRENT_SIZE \<and> ok s' \<and> bytes s' = bytes s)"
  using assms
proof (induction "dent_cnt (bytes s) - k" arbitrary: k e s)
  case 0
  obtain s' where s': "rd DIRENT_SIZE (DIRENT_SIZE * k) s = Some (dent (bytes s) k, s')" "ok s'" "bytes s' = bytes s"
    using rd_law [OF 0(2)] unfolding dent_def by blast
  have k: "\<not> k < dent_cnt (bytes s)" using 0(1) by simp
  then have "length (dent (bytes s) k) \<noteq> DIRENT_SIZE" using length_dent by blast
  then show ?case using s' k 0(3) length_dent_le [of "bytes s" k]
    by (subst scan_entries.simps) (auto simp: first_dent_step [of Q "bytes s" k] Let_def max_def)
next
  case (Suc n)
  have k: "k < dent_cnt (bytes s)" using Suc(2) by simp
  then have len: "length (dent (bytes s) k) = DIRENT_SIZE" using length_dent by blast
  obtain s' where s': "rd DIRENT_SIZE (DIRENT_SIZE * k) s = Some (dent (bytes s) k, s')" "ok s'" "bytes s' = bytes s"
    using rd_law [OF Suc(3)] unfolding dent_def by blast
  have e: "overwrite e 0 (dent (bytes s) k) = dent (bytes s) k" using len Suc(4) by (simp add: overwrite_all)
  have step: "scan_entries rd P (DIRENT_SIZE * k) e s = (if Q (dent (bytes s) k) then Some (True, dent (bytes s) k, DIRENT_SIZE * k, s')
      else scan_entries rd P (DIRENT_SIZE * Suc k) (dent (bytes s) k) s')"
    using s'(1) len e Suc(5) [of k] k by (subst scan_entries.simps) (simp add: Let_def add.commute)
  show ?case
  proof (cases "Q (dent (bytes s) k)")
    case True
    then show ?thesis using step s' k by (simp add: first_dent_step [of Q "bytes s" k])
  next
    case False
    have "n = dent_cnt (bytes s') - Suc k" using Suc(2) s'(3) by simp
    from Suc(1) [OF this s'(2) len] Suc(5) s'(3) step False k show ?thesis
      by (simp add: first_dent_step [of Q "bytes s" k] max_def split: option.splits)
  qed
qed

end

text \<open>The file of a directory, with the rest of the state as in \<open>s0\<close>.\<close>

definition dir_file :: "addr \<Rightarrow> inode_disk \<Rightarrow> fsys \<Rightarrow> fsys \<Rightarrow> bool" where
  "dir_file p d s0 s \<longleftrightarrow> good_file p d s \<and> same_rest s0 s"

interpretation dirf: byte_file "\<lambda>cnt ofs. inode_read_at fmw p (int cnt) (int ofs)" "\<lambda>buf ofs. inode_write_at fmw p buf (int ofs)"
  "file_content d" "dir_file p d s0" for fmw p d s0
proof unfold_locales
  fix s :: fsys and cnt ofs assume "dir_file p d s0 s"
  then show "\<exists>s'. inode_read_at fmw p (int cnt) (int ofs) s = Some (segment (file_content d s) ofs cnt, s') \<and>
      dir_file p d s0 s' \<and> file_content d s' = file_content d s"
    using good_read [of p d s fmw cnt ofs] same_rest_trans by (auto simp: dir_file_def)
next
  fix s :: fsys and ofs and buf :: "u8 list" assume "dir_file p d s0 s" and "ofs + length buf \<le> length (file_content d s)"
  then show "\<exists>s'. inode_write_at fmw p buf (int ofs) s = Some (length buf, s') \<and> dir_file p d s0 s' \<and>
      file_content d s' = overwrite (file_content d s) ofs buf"
    using good_write [of p d s ofs buf fmw] same_rest_trans by (auto simp: dir_file_def written_def)
qed

text \<open>\<open>dir_ok a p d s\<close>: the directory structure \<open>a\<close> is open on inode \<open>p\<close>, whose file is in order with terminated names.\<close>

definition dir_ok :: "addr \<Rightarrow> addr \<Rightarrow> inode_disk \<Rightarrow> fsys \<Rightarrow> bool" where
  "dir_ok a p d s \<longleftrightarrow> a \<noteq> NULL \<and> map_option dr_inode (dirs s a) = Some p \<and> good_file p d s \<and> dents_ok (file_content d s)"

lemma entry_named_ok: "dents_ok bs \<Longrightarrow> i < dent_cnt bs \<Longrightarrow> entry_named name (dent bs i) = Some (is_named name (dent bs i))"
  by (auto simp: entry_named_def is_named_def dents_ok_def)

lemma lookup_ok:
  assumes ok: "dir_ok a p d s" and junk: "length junk = DIRENT_SIZE"
  shows "\<exists>s'. lookup fmw junk a name s = Some (map_option (\<lambda>k. (dent (file_content d s) k, DIRENT_SIZE * k)) (first_dent (is_named name) (file_content d s) 0), s') \<and>
    dir_file p d s s' \<and> file_content d s' = file_content d s"
proof -
  have g: "dir_file p d s s" using ok by (simp add: dir_ok_def dir_file_def same_rest_def)
  have a: "a \<noteq> NULL" "dir_get_inode a s = Some p" "dents_ok (file_content d s)" using ok by (simp_all add: dir_ok_def dir_get_inode_def)
  show ?thesis
    using dirf.scan_entries_ok [OF g junk, of 0 "entry_named name" "is_named name" fmw] entry_named_ok [OF a(3)] a(1,2)
    by (cases "first_dent (is_named name) (file_content d s) 0") (auto simp: lookup_def)
qed

text \<open>
  C30: looking a name up in a directory. \<^verbatim>\<open>lookup\<close> scans the entries of the directory's file and returns; it finds an
  entry exactly when the directory, seen as a map from names, has the name, the entry carries the sector and kind
  the map gives, and the contents of the directory stay as they are.
\<close>

theorem lookup_is_map_lookup:
  assumes "dir_ok a p d s" and "length junk = DIRENT_SIZE"
  shows "\<exists>r s'. lookup fmw junk a name s = Some (r, s') \<and>
    map_option (\<lambda>(e, _). (de_sector e, de_is_dir e)) r = dir_map (file_content d s) name \<and>
    dir_ok a p d s' \<and> file_content d s' = file_content d s"
  using lookup_ok [OF assms, of fmw name] assms(1)
  by (auto simp: dir_map_def option.map_comp comp_def dir_ok_def dir_file_def same_rest_def)

section \<open>Adding an entry\<close>

lemma dent_nth: "k < dent_cnt bs \<Longrightarrow> j < DIRENT_SIZE \<Longrightarrow> dent bs k ! j = bs ! (DIRENT_SIZE * k + j)"
  unfolding dent_in dent_def by (simp add: segment_nth)

lemma dent_overwrite:
  assumes "k < dent_cnt bs" and "length e = DIRENT_SIZE"
  shows "dent_cnt (overwrite bs (DIRENT_SIZE * k) e) = dent_cnt bs"
    and "dent (overwrite bs (DIRENT_SIZE * k) e) k = e"
    and "i \<noteq> k \<Longrightarrow> i < dent_cnt bs \<Longrightarrow> dent (overwrite bs (DIRENT_SIZE * k) e) i = dent bs i"
proof -
  have in_k: "DIRENT_SIZE * k + length e \<le> length bs" using assms unfolding dent_in by simp
  then show "dent_cnt (overwrite bs (DIRENT_SIZE * k) e) = dent_cnt bs" by (simp add: dent_cnt_def)
  show "dent (overwrite bs (DIRENT_SIZE * k) e) k = e"
    using segment_overwrite [OF in_k] assms(2) by (simp add: dent_def)
  assume i: "i \<noteq> k" "i < dent_cnt bs"
  have "DIRENT_SIZE * Suc i \<le> DIRENT_SIZE * k \<or> DIRENT_SIZE * Suc k \<le> DIRENT_SIZE * i"
  proof (cases "i < k")
    case True
    then have "DIRENT_SIZE * Suc i \<le> DIRENT_SIZE * k" by (intro mult_le_mono2) simp
    then show ?thesis ..
  next
    case False
    then have "DIRENT_SIZE * Suc k \<le> DIRENT_SIZE * i" using i(1) by (intro mult_le_mono2) simp
    then show ?thesis ..
  qed
  then have "DIRENT_SIZE * i + DIRENT_SIZE \<le> DIRENT_SIZE * k \<or> DIRENT_SIZE * k + length e \<le> DIRENT_SIZE * i" using assms(2) by auto
  then show "dent (overwrite bs (DIRENT_SIZE * k) e) i = dent bs i"
    using in_k i(2) unfolding dent_in dent_def by (intro segment_overwrite_disjoint) auto
qed

lemma de_fill_ok:
  assumes "length e = DIRENT_SIZE" and "name \<noteq> []" and "length name \<le> NAME_MAX" and "0 \<notin> set name" and "sector < 2 ^ 32"
  shows "length (de_fill e name sector isdir) = DIRENT_SIZE" "de_in_use (de_fill e name sector isdir)"
    "de_is_dir (de_fill e name sector isdir) = isdir" "de_sector (de_fill e name sector isdir) = sector"
    "de_name (de_fill e name sector isdir) = Some name"
proof -
  let ?u = "u32_bytes sector" and ?n = "take NAME_MAX name @ [0 :: u8]"
  have n: "?n = name @ [0]" "length (name @ [0 :: u8]) \<le> 64" using assms(3) by (simp_all add: NAME_MAX_def)
  have u: "length ?u = 4" by (simp add: u32_bytes_def)
  let ?e1 = "overwrite e 4 (name @ [0])"
  let ?e2 = "overwrite ?e1 0 ?u"
  have l1: "length ?e1 = 72" using assms(1) n by (simp add: DIRENT_SIZE_def)
  have l2: "length ?e2 = 72" using l1 u by simp
  have f: "de_fill e name sector isdir = overwrite ?e2 68 [1, if isdir then 1 else 0]" by (simp add: de_fill_def n)
  then show len: "length (de_fill e name sector isdir) = DIRENT_SIZE" using l2 by (simp add: DIRENT_SIZE_def)
  show "de_in_use (de_fill e name sector isdir)" "de_is_dir (de_fill e name sector isdir) = isdir"
    unfolding f de_in_use_def de_is_dir_def using l2 by (simp_all add: overwrite_nth)
  have t4: "take 4 (de_fill e name sector isdir) = ?u"
  proof (rule nth_eq_iff)
    show "length (take 4 (de_fill e name sector isdir)) = length ?u" using len u by (simp add: DIRENT_SIZE_def)
    fix i assume "i < length (take 4 (de_fill e name sector isdir))"
    then have "i < 4" by simp
    then show "take 4 (de_fill e name sector isdir) ! i = ?u ! i" unfolding f using l1 l2 u by (simp add: overwrite_nth)
  qed
  have "words_of_bytes (?u @ []) = sector # words_of_bytes []" using assms(5) by (rule u32_bytes_words)
  then show "de_sector (de_fill e name sector isdir) = sector" unfolding de_sector_def t4 by simp
  have dr: "drop 4 (de_fill e name sector isdir) = name @ 0 # drop (5 + length name) (de_fill e name sector isdir)"
  proof (rule nth_eq_iff)
    show "length (drop 4 (de_fill e name sector isdir)) = length (name @ 0 # drop (5 + length name) (de_fill e name sector isdir))"
      using len n by (simp add: DIRENT_SIZE_def)
    fix i assume "i < length (drop 4 (de_fill e name sector isdir))"
    then have i: "i < 68" using len by (simp add: DIRENT_SIZE_def)
    show "drop 4 (de_fill e name sector isdir) ! i = (name @ 0 # drop (5 + length name) (de_fill e name sector isdir)) ! i"
    proof (cases "i \<le> length name")
      case True
      then have "i + 4 < 68" using n(2) by simp
      then have "de_fill e name sector isdir ! (4 + i) = (name @ [0]) ! i"
        unfolding f using l1 l2 u assms(1) n(2) True by (simp add: overwrite_nth DIRENT_SIZE_def add.commute)
      then show ?thesis using True len i by (cases "i = length name") (simp_all add: nth_append DIRENT_SIZE_def)
    next
      case False
      then show ?thesis using len i n(2) by (simp add: nth_append nth_Cons' DIRENT_SIZE_def)
    qed
  qed
  show "de_name (de_fill e name sector isdir) = Some name"
    unfolding de_name_def dr using assms(4) by (auto simp: takeWhile_append)
qed

lemma good_file_dirs: "good_file p d (s\<lparr>dirs := x\<rparr>) = good_file p d s" "file_content d (s\<lparr>dirs := x\<rparr>) = file_content d s"
  by (simp_all add: good_file_def tab_ok_def open_sectors_def file_content_def)

lemma dir_lock_ok:
  assumes "dir_ok a p d s" and "dirs s a = Some dr" and "\<not> dr_lock dr"
  shows "\<exists>s1. dir_lock_acquire a s = Some s1 \<and> dir_ok a p d s1 \<and> file_content d s1 = file_content d s \<and>
    dirs s1 = (dirs s)(a \<mapsto> dr\<lparr>dr_lock := True\<rparr>)"
  using assms by (simp add: dir_lock_acquire_def dir_ok_def good_file_dirs)

lemma dir_unlock_ok:
  assumes "dir_ok a p d s" and "dirs s = ds(a \<mapsto> dr\<lparr>dr_lock := True\<rparr>)" and "ds a = Some dr" and "\<not> dr_lock dr"
  shows "\<exists>s1. dir_lock_release a s = Some s1 \<and> dir_ok a p d s1 \<and> file_content d s1 = file_content d s \<and> dirs s1 = ds"
proof -
  have "ds(a \<mapsto> dr\<lparr>dr_lock := False\<rparr>) = ds" using assms(3,4) by (cases dr) (auto simp: fun_eq_iff)
  then show ?thesis using assms by (simp add: dir_lock_release_def dir_ok_def good_file_dirs)
qed

lemma dir_map_add:
  assumes k: "k < dent_cnt bs" "\<not> de_in_use (dent bs k)" and e: "length e = DIRENT_SIZE" "is_named name e" and new: "dir_map bs name = None"
  shows "dir_map (overwrite bs (DIRENT_SIZE * k) e) = (dir_map bs)(name \<mapsto> (de_sector e, de_is_dir e))"
proof
  fix x
  let ?bs = "overwrite bs (DIRENT_SIZE * k) e"
  note w = dent_overwrite [OF k(1) e(1)]
  have other: "is_named x (dent ?bs i) = (if i = k then x = name else is_named x (dent bs i))" if "i < dent_cnt bs" for i
    using w(2) w(3) [OF _ that] e(2) by (auto simp: is_named_def)
  show "dir_map ?bs x = ((dir_map bs)(name \<mapsto> (de_sector e, de_is_dir e))) x"
  proof (cases "x = name")
    case True
    have "\<forall>j < dent_cnt bs. \<not> is_named name (dent bs j)" using new by (auto simp: dir_map_def first_dent_None)
    then have "\<And>i. i < dent_cnt bs \<Longrightarrow> is_named name (dent ?bs i) \<longleftrightarrow> i = k" using other True by auto
    then have "first_dent (is_named name) ?bs 0 = Some k"
      using k(1) first_dent_Some [of "is_named name" ?bs 0] first_dent_None [of "is_named name" ?bs 0] w(1)
      by (cases "first_dent (is_named name) ?bs 0") auto
    then show ?thesis using True w(2) by (simp add: dir_map_def)
  next
    case False
    have not_k: "\<not> is_named x (dent bs k)" using k(2) by (simp add: is_named_def)
    have same: "is_named x (dent ?bs i) = is_named x (dent bs i)" if "i < dent_cnt bs" for i
      using other [OF that] False not_k by auto
    have eq: "first_dent (is_named x) ?bs 0 = first_dent (is_named x) bs 0"
      unfolding first_dent_def w(1) using same by (intro find_cong) auto
    moreover have "dent ?bs i = dent bs i" if "first_dent (is_named x) bs 0 = Some i" for i
      using first_dent_Some [OF that] not_k w(3) [of i] by auto
    ultimately show ?thesis using False by (cases "first_dent (is_named x) bs 0") (auto simp: dir_map_def)
  qed
qed

lemma dents_ok_overwrite:
  assumes "k < dent_cnt bs" and "length e = DIRENT_SIZE" and "de_in_use e \<longrightarrow> de_name e \<noteq> None" and "dents_ok bs"
  shows "dents_ok (overwrite bs (DIRENT_SIZE * k) e)"
  unfolding dents_ok_def dent_overwrite(1) [OF assms(1,2)]
proof (intro allI impI)
  fix i assume "i < dent_cnt bs" and "de_in_use (dent (overwrite bs (DIRENT_SIZE * k) e) i)"
  then show "de_name (dent (overwrite bs (DIRENT_SIZE * k) e) i) \<noteq> None"
    using dent_overwrite(2) [OF assms(1,2)] dent_overwrite(3) [OF assms(1,2), of i] assms(3,4)
    by (cases "i = k") (auto simp: dents_ok_def)
qed

lemma dir_add_ok:
  assumes ok: "dir_ok a p d s" and dr: "dirs s a = Some dr" "\<not> dr_lock dr" and junk: "length junk = DIRENT_SIZE"
    and name: "name \<noteq> []" "length name \<le> NAME_MAX" "0 \<notin> set name" and sec: "sector < 2 ^ 32"
    and free: "\<exists>k < dent_cnt (file_content d s). \<not> de_in_use (dent (file_content d s) k)"
  shows "\<exists>s'. dir_add fmw junk a name sector isdir s = Some (dir_map (file_content d s) name = None, s') \<and> dir_ok a p d s' \<and> dirs s' = dirs s \<and>
    dir_map (file_content d s') = (if dir_map (file_content d s) name = None then (dir_map (file_content d s))(name \<mapsto> (sector, isdir))
      else dir_map (file_content d s))"
proof -
  let ?bs = "file_content d s"
  obtain s1 where s1: "dir_lock_acquire a s = Some s1" "dir_ok a p d s1" "file_content d s1 = ?bs" "dirs s1 = (dirs s)(a \<mapsto> dr\<lparr>dr_lock := True\<rparr>)"
    using dir_lock_ok [OF ok dr] by blast
  obtain s2 where s2: "lookup fmw junk a name s1 = Some (map_option (\<lambda>k. (dent ?bs k, DIRENT_SIZE * k)) (first_dent (is_named name) ?bs 0), s2)"
      "dir_file p d s1 s2" "file_content d s2 = ?bs"
    using lookup_ok [OF s1(2) junk, of fmw name] s1(3) by auto
  have s2': "dir_ok a p d s2" "dirs s2 = (dirs s)(a \<mapsto> dr\<lparr>dr_lock := True\<rparr>)"
    using s1 s2 by (auto simp: dir_ok_def dir_file_def same_rest_def)
  have nm: "\<not> (name = [] \<or> NAME_MAX < length name)" using name by simp
  show ?thesis
  proof (cases "first_dent (is_named name) ?bs 0")
    case (Some k)
    obtain s3 where s3: "dir_lock_release a s2 = Some s3" "dir_ok a p d s3" "file_content d s3 = file_content d s2" "dirs s3 = dirs s"
      using dir_unlock_ok [OF s2' dr] by blast
    have "dir_add fmw junk a name sector isdir s = Some (False, s3)" using s1(1) s2(1) s3(1) Some nm by (simp add: dir_add_def)
    then show ?thesis using s3 s2(3) Some by (simp add: dir_map_def)
  next
    case None
    define k where "k = the (first_dent (\<lambda>e. \<not> de_in_use e) ?bs 0)"
    have fd: "first_dent (\<lambda>e. \<not> de_in_use e) ?bs 0 = Some k" using free unfolding k_def
      by (cases "first_dent (\<lambda>e. \<not> de_in_use e) ?bs 0") (auto simp: first_dent_None)
    have k: "k < dent_cnt ?bs" "\<not> de_in_use (dent ?bs k)" using first_dent_Some [OF fd] by auto
    have g2: "dir_file p d s2 s2" using s2'(1) by (simp add: dir_ok_def dir_file_def same_rest_def)
    obtain s3 where s3: "scan_entries (\<lambda>cnt ofs. inode_read_at fmw p (int cnt) (int ofs)) (\<lambda>e. Some (\<not> de_in_use e)) 0 junk s2 =
        Some (True, dent ?bs k, DIRENT_SIZE * k, s3)" "dir_file p d s2 s3" "file_content d s3 = ?bs"
      using dirf.scan_entries_ok [OF g2 junk, of 0 "\<lambda>e. Some (\<not> de_in_use e)" "\<lambda>e. \<not> de_in_use e" fmw] fd s2(3) by auto
    let ?e = "de_fill (dent ?bs k) name sector isdir"
    have dl: "length (dent ?bs k) = DIRENT_SIZE" using k(1) length_dent by blast
    note e = de_fill_ok [OF dl name sec, of isdir]
    have "DIRENT_SIZE * k + length ?e \<le> length (file_content d s3)" using k(1) e(1) s3(3) unfolding dent_in by simp
    then obtain s4 where s4: "inode_write_at fmw p ?e (int (DIRENT_SIZE * k)) s3 = Some (DIRENT_SIZE, s4)" "dir_file p d s2 s4"
        "file_content d s4 = overwrite ?bs (DIRENT_SIZE * k) ?e"
      using dirf.wr_law [OF s3(2)] s3(3) e(1) by fastforce
    have "dents_ok (overwrite ?bs (DIRENT_SIZE * k) ?e)"
      using dents_ok_overwrite [OF k(1) e(1)] e(5) ok by (simp add: dir_ok_def)
    then have s4': "dir_ok a p d s4" "dirs s4 = (dirs s)(a \<mapsto> dr\<lparr>dr_lock := True\<rparr>)"
      using s2' s4(2,3) by (auto simp: dir_ok_def dir_file_def same_rest_def)
    obtain s5 where s5: "dir_lock_release a s4 = Some s5" "dir_ok a p d s5" "file_content d s5 = file_content d s4" "dirs s5 = dirs s"
      using dir_unlock_ok [OF s4' dr] by blast
    have "dir_get_inode a s2 = Some p" using s2'(1) by (simp add: dir_ok_def dir_get_inode_def)
    then have "dir_add fmw junk a name sector isdir s = Some (True, s5)"
      using s1(1) s2(1) s3(1) s4(1) s5(1) None nm by (simp add: dir_add_def Let_def)
    moreover have new: "dir_map ?bs name = None" using None by (simp add: dir_map_def)
    moreover have "dir_map (overwrite ?bs (DIRENT_SIZE * k) ?e) = (dir_map ?bs)(name \<mapsto> (sector, isdir))"
      using dir_map_add [OF k e(1) _ new] e(2-5) by (simp add: is_named_def)
    ultimately show ?thesis using s5 s4(3) by simp
  qed
qed

text \<open>
  C28: adding a name to a directory with a free entry. For a valid name that the directory does not have,
  \<^verbatim>\<open>dir_add\<close> succeeds and the directory, as a map from names, is the old one with this name added; it stays in
  order and its lock is free again, so that a following \<^verbatim>\<open>lookup\<close> finds the new entry and all others as before. A name
  that is already there is refused and nothing changes. (As in theory \<open>Cache\<close>, the flag of \<open>bc_block_write\<close> reads as false.)
\<close>

theorem dir_add_updates_map:
  assumes ok: "dir_ok a p d s" and dr: "dirs s a = Some dr" "\<not> dr_lock dr" and junk: "length junk = DIRENT_SIZE"
    and name: "name \<noteq> []" "length name \<le> NAME_MAX" "0 \<notin> set name" and sec: "sector < 2 ^ 32"
    and free: "\<exists>k < dent_cnt (file_content d s). \<not> de_in_use (dent (file_content d s) k)"
  shows "\<exists>s'. dir_add fmw junk a name sector isdir s = Some (dir_map (file_content d s) name = None, s') \<and> dir_ok a p d s' \<and> dirs s' = dirs s \<and>
    dir_map (file_content d s') = (if dir_map (file_content d s) name = None then (dir_map (file_content d s))(name \<mapsto> (sector, isdir))
      else dir_map (file_content d s))"
  using assms by (rule dir_add_ok)

text \<open>
  adding a name that is empty or longer than 63 characters returns \<^verbatim>\<open>false\<close> without giving back the lock of the
  directory; the next call on the same structure then stops in \<^verbatim>\<open>lock_acquire\<close>.
\<close>

theorem dir_add_bad_name_keeps_lock:
  assumes "dirs s a = Some dr" and "\<not> dr_lock dr" and "name = [] \<or> NAME_MAX < length name"
  shows "\<exists>s'. dir_add fmw junk a name sector isdir s = Some (False, s') \<and> dir_add fmw junk' a name' sector' isdir' s' = None \<and>
    dir_remove fmw junk' a name' s' = None"
  using assms by (auto simp: dir_add_def dir_remove_def dir_lock_acquire_def)

section \<open>A concrete directory\<close>

definition demo_dir :: "bcache \<Rightarrow> fsys" where
  "demo_dir b = (demo_fs b)\<lparr>dirs := [3 \<mapsto> \<lparr>dr_inode = 1, dr_lock = False, dr_pos = 0\<rparr>]\<rparr>"

abbreviation (input) no_dent :: dirent where
  "no_dent \<equiv> replicate DIRENT_SIZE 0"

lemma zero_dents: "k < dent_cnt (replicate 1000 0) \<Longrightarrow> \<not> de_in_use (dent (replicate 1000 0) k)"
proof -
  assume k: "k < dent_cnt (replicate 1000 (0 :: u8))"
  then have "dent (replicate 1000 0) k ! 68 = (0 :: u8)"
    using dent_nth [OF k, of 68] k unfolding dent_in by (simp add: DIRENT_SIZE_def)
  then show ?thesis by (simp add: de_in_use_def)
qed

lemma demo_dir_ok:
  assumes "good_file 1 demo_inode (demo_fs b)" and "file_content demo_inode (demo_fs b) = replicate 1000 0"
  shows "dir_ok 3 1 demo_inode (demo_dir b)" "file_content demo_inode (demo_dir b) = replicate 1000 0"
    "dirs (demo_dir b) 3 = Some \<lparr>dr_inode = 1, dr_lock = False, dr_pos = 0\<rparr>"
  using assms zero_dents by (simp_all add: dir_ok_def demo_dir_def good_file_dirs dents_ok_def)

theorem lookup_is_map_lookup_witness:
  "\<exists>b r s'. bc_block_write 5 (disk_bytes demo_inode) 0 demo_cache = Some b \<and>
     lookup (\<lambda>s. None) no_dent 3 [97] (demo_dir b) = Some (r, s') \<and> dir_ok 3 1 demo_inode s'"
proof -
  obtain b where b: "bc_block_write 5 (disk_bytes demo_inode) 0 demo_cache = Some b" "dir_ok 3 1 demo_inode (demo_dir b)"
    using demo_good demo_dir_ok by blast
  show ?thesis using lookup_is_map_lookup [OF b(2), of no_dent "\<lambda>s. None" "[97]"] b(1) by auto
qed

lemma zero_dir:
  "dir_map (replicate 1000 0) [97] = None" "\<exists>k < dent_cnt (replicate 1000 0). \<not> de_in_use (dent (replicate 1000 0) k)"
proof -
  show "dir_map (replicate 1000 0) [97] = None" using zero_dents by (auto simp: dir_map_def first_dent_None is_named_def)
  have "0 < dent_cnt (replicate 1000 (0 :: u8))" by (simp add: dent_cnt_def DIRENT_SIZE_def)
  then show "\<exists>k < dent_cnt (replicate 1000 0). \<not> de_in_use (dent (replicate 1000 0) k)" using zero_dents by blast
qed

lemma demo_dir_add:
  assumes "good_file 1 demo_inode (demo_fs b)" and "file_content demo_inode (demo_fs b) = replicate 1000 0"
  shows "\<exists>s'. dir_add (\<lambda>s. None) no_dent 3 [97] 20 isdir (demo_dir b) = Some (True, s') \<and> dir_ok 3 1 demo_inode s' \<and>
    dir_map (file_content demo_inode s') [97] = Some (20, isdir)"
  using dir_add_ok [OF demo_dir_ok(1,3) [OF assms] _ _ _ _ _ _, of no_dent "[97]" 20 "\<lambda>s. None" isdir] demo_dir_ok(2) [OF assms] zero_dir
  by (auto simp: NAME_MAX_def)

theorem dir_add_updates_map_witness:
  "\<exists>b s'. bc_block_write 5 (disk_bytes demo_inode) 0 demo_cache = Some b \<and>
     dir_add (\<lambda>s. None) no_dent 3 [97] 20 True (demo_dir b) = Some (True, s') \<and>
     dir_map (file_content demo_inode s') [97] = Some (20, True)"
proof -
  obtain b where b: "bc_block_write 5 (disk_bytes demo_inode) 0 demo_cache = Some b" "good_file 1 demo_inode (demo_fs b)"
      "file_content demo_inode (demo_fs b) = replicate 1000 0" using demo_good by blast
  note ok = demo_dir_ok [OF b(2,3)]
  show ?thesis
    using dir_add_updates_map [OF ok(1,3) _ _ _ _ _ _, of no_dent "[97]" 20 "\<lambda>s. None" True] b(1) ok(2) zero_dir
    by (auto simp: NAME_MAX_def)
qed

theorem dir_add_bad_name_witness:
  "\<forall>b. \<exists>s'. dir_add (\<lambda>s. None) no_dent 3 [] 20 False (demo_dir b) = Some (False, s') \<and> dir_add (\<lambda>s. None) no_dent 3 [97] 21 False s' = None"
proof
  fix b
  have "dirs (demo_dir b) 3 = Some \<lparr>dr_inode = 1, dr_lock = False, dr_pos = 0\<rparr>" by (simp add: demo_dir_def)
  from dir_add_bad_name_keeps_lock [OF this] show "\<exists>s'. dir_add (\<lambda>s. None) no_dent 3 [] 20 False (demo_dir b) = Some (False, s') \<and>
    dir_add (\<lambda>s. None) no_dent 3 [97] 21 False s' = None" by fastforce
qed

end
