(* ===== verification/Filesys.thy ===== *)
theory Filesys
  imports Directory
begin

text \<open>
  The file system as a whole, \<^verbatim>\<open>filesys/filesys.c\<close>, and the system calls on file descriptors,
  \<^verbatim>\<open>filesys/fsaccess.c\<close>. \<open>fmw\<close>, \<open>junk\<close> and \<open>cwd\<close> are the write of the free map, the contents of
  uninitialised locals and the current directory, as in theory \<open>Directory\<close>.
\<close>

section \<open>filesys.c\<close>

text \<open>\<open>mem\<close> is the memory for the bits of the free map.\<close>

definition do_format :: "fm_writer \<Rightarrow> fsys \<Rightarrow> fsys option" where
  "do_format fmw s = do {
     s \<leftarrow> free_map_create fmw s;
     (success, s) \<leftarrow> dir_create fmw ROOT_DIR_SECTOR 16 ROOT_DIR_SECTOR s;
     ASSERT success;
     free_map_close fmw s }"

definition filesys_init :: "fm_writer \<Rightarrow> u32 list option \<Rightarrow> bool \<Rightarrow> fsys \<Rightarrow> fsys option" where
  "filesys_init fmw mem format s = do {
     role \<leftarrow> block_get_role BLOCK_FILESYS (devs (bc s));
     dev \<leftarrow> role;
     let s = s\<lparr>bc := bc_init ((bc s)\<lparr>fs_device := dev\<rparr>)\<rparr>;
     let s = inode_init s;
     s \<leftarrow> free_map_init mem s;
     s \<leftarrow> (if format then do_format fmw s else Some s);
     free_map_open fmw s }"

definition filesys_done :: "fm_writer \<Rightarrow> fsys \<Rightarrow> fsys option" where
  "filesys_done fmw s = do {
     b \<leftarrow> bc_flush_all (bc s);
     free_map_close fmw (s\<lparr>bc := b\<rparr>) }"

text \<open>The allocated sector; 0 stands for none, as in the code.\<close>

definition filesys_create :: "fm_writer \<Rightarrow> dirent \<Rightarrow> addr \<Rightarrow> u8 list \<Rightarrow> int \<Rightarrow> fsys \<Rightarrow> (bool \<times> fsys) option" where
  "filesys_create fmw junk cwd path initial_size s = do {
     let last_entry = get_path_last_entry path;
     (parent, s) \<leftarrow> get_parent_directory fmw junk cwd path s;
     if parent = NULL then Some (False, s)
     else do {
       p \<leftarrow> dir_get_inode parent s;
       parent_sector \<leftarrow> inode_get_inumber p s;
       (r, s) \<leftarrow> free_map_allocate fmw 1 s;
       let sector = (case r of None \<Rightarrow> 0 | Some n \<Rightarrow> n);
       (success, s) \<leftarrow>
         (if r = None then Some (False, s)
          else if 0 \<le> initial_size then inode_create fmw sector initial_size parent_sector False s
          else dir_create fmw sector DIR_INITIAL_SIZE parent_sector s);
       (success, s) \<leftarrow> (if success then dir_add fmw junk parent last_entry sector (initial_size < 0) s else Some (False, s));
       s \<leftarrow> (if \<not> success \<and> sector \<noteq> 0 then free_map_release fmw sector 1 s else Some s);
       Some (success, s) } }"

definition filesys_open :: "fm_writer \<Rightarrow> dirent \<Rightarrow> addr \<Rightarrow> u8 list \<Rightarrow> fsys \<Rightarrow> (addr \<times> fsys) option" where
  "filesys_open fmw junk cwd path s = do {
     let last_entry = get_path_last_entry path;
     (parent, s) \<leftarrow> get_parent_directory fmw junk cwd path s;
     (_, p, s) \<leftarrow> (if parent \<noteq> NULL then dir_lookup_entry fmw junk parent last_entry False s else Some (False, NULL, s));
     file_open p s }"

definition filesys_remove :: "fm_writer \<Rightarrow> dirent \<Rightarrow> addr \<Rightarrow> u8 list \<Rightarrow> fsys \<Rightarrow> (bool \<times> fsys) option" where
  "filesys_remove fmw junk cwd path s =
     (if path = [SLASH] then Some (False, s)
      else do {
        let last_entry = get_path_last_entry path;
        (parent, s) \<leftarrow> get_parent_directory fmw junk cwd path s;
        if parent \<noteq> NULL then dir_remove fmw junk parent last_entry s else Some (False, s) })"

section \<open>File descriptors\<close>

record file_descriptor =
  fd_num :: nat
  open_file :: addr
  open_dir :: addr
  owner :: nat
  fd_is_dir :: bool

record fsaccess =
  fs :: fsys
  open_files :: "file_descriptor list"
  fd_count :: nat
  files_lock :: bool

text \<open>\<open>tid\<close> is the running thread, \<open>valid\<close> what \<^verbatim>\<open>is_valid_address_of_thread\<close> says of the argument in user memory.\<close>

definition fsaccess_init :: "fsaccess \<Rightarrow> fsaccess" where
  "fsaccess_init t = t\<lparr>files_lock := False, open_files := [], fd_count := 2\<rparr>"

definition lock_fs :: "fsaccess \<Rightarrow> fsaccess option" where
  "lock_fs t = do { ASSERT (\<not> files_lock t); Some (t\<lparr>files_lock := True\<rparr>) }"

definition unlock_fs :: "fsaccess \<Rightarrow> fsaccess option" where
  "unlock_fs t = do { ASSERT (files_lock t); Some (t\<lparr>files_lock := False\<rparr>) }"

definition create_file :: "fm_writer \<Rightarrow> dirent \<Rightarrow> addr \<Rightarrow> bool \<Rightarrow> u8 list \<Rightarrow> nat \<Rightarrow> fsaccess \<Rightarrow> (bool \<times> fsaccess) option" where
  "create_file fmw junk cwd valid path len t =
     (if valid \<and> path \<noteq> [] then do {
        t \<leftarrow> lock_fs t;
        (result, s) \<leftarrow> filesys_create fmw junk cwd path (bits_off len) (fs t);
        t \<leftarrow> unlock_fs (t\<lparr>fs := s\<rparr>);
        Some (result, t) }
      else Some (False, t))"

definition create_directory :: "fm_writer \<Rightarrow> dirent \<Rightarrow> addr \<Rightarrow> bool \<Rightarrow> u8 list \<Rightarrow> fsaccess \<Rightarrow> (bool \<times> fsaccess) option" where
  "create_directory fmw junk cwd valid path t =
     (if valid \<and> path \<noteq> [] then do {
        (result, s) \<leftarrow> filesys_create fmw junk cwd path (-1) (fs t);
        Some (result, t\<lparr>fs := s\<rparr>) }
      else Some (False, t))"

text \<open>The result is the new current directory of the thread with the flag the function returns.\<close>

definition change_directory :: "fm_writer \<Rightarrow> dirent \<Rightarrow> addr \<Rightarrow> u8 list \<Rightarrow> fsaccess \<Rightarrow> (bool \<times> addr \<times> fsaccess) option" where
  "change_directory fmw junk cwd path t = do {
     t \<leftarrow> lock_fs t;
     (p, s) \<leftarrow> dir_path_lookup fmw junk cwd path (fs t);
     (new_dir, s) \<leftarrow> dir_open p s;
     if new_dir = NULL then do { t \<leftarrow> unlock_fs (t\<lparr>fs := s\<rparr>); Some (False, cwd, t) }
     else do {
       (old_dir, s) \<leftarrow> get_curr_working_dir cwd s;
       q \<leftarrow> dir_get_inode old_dir s;
       s \<leftarrow> upd_inode q (\<lambda>i. i\<lparr>cwd_cnt := cwd_cnt i - 1\<rparr>) s;
       s \<leftarrow> dir_close fmw old_dir s;
       n \<leftarrow> dir_get_inode new_dir s;
       s \<leftarrow> upd_inode n (\<lambda>i. i\<lparr>cwd_cnt := cwd_cnt i + 1\<rparr>) s;
       t \<leftarrow> unlock_fs (t\<lparr>fs := s\<rparr>);
       Some (True, new_dir, t) } }"

definition is_dir_open_fd_global :: "addr \<Rightarrow> fsys \<Rightarrow> bool option" where
  "is_dir_open_fd_global a s = do { ASSERT (a \<noteq> NULL); p \<leftarrow> dir_get_inode a s; i \<leftarrow> inodes s p; Some (0 < open_fd_cnt i) }"

definition is_dir_cwd_global :: "addr \<Rightarrow> fsys \<Rightarrow> bool option" where
  "is_dir_cwd_global a s = do { ASSERT (a \<noteq> NULL); p \<leftarrow> dir_get_inode a s; i \<leftarrow> inodes s p; Some (0 < cwd_cnt i) }"

definition remove_file_or_dir :: "fm_writer \<Rightarrow> dirent \<Rightarrow> addr \<Rightarrow> bool \<Rightarrow> u8 list \<Rightarrow> fsaccess \<Rightarrow> (bool \<times> fsaccess) option" where
  "remove_file_or_dir fmw junk cwd valid path t =
     (if valid then do {
        (isdir, s) \<leftarrow> path_is_dir fmw junk cwd path (fs t);
        if isdir then do {
          (p, s) \<leftarrow> dir_path_lookup fmw junk cwd path s;
          (dir, s) \<leftarrow> dir_open p s;
          (empty, s) \<leftarrow> dir_is_empty fmw junk dir s;
          opened \<leftarrow> (if empty then is_dir_open_fd_global dir s else Some False);
          used \<leftarrow> (if empty \<and> \<not> opened then is_dir_cwd_global dir s else Some False);
          (result, s) \<leftarrow> (if empty \<and> \<not> opened \<and> \<not> used then filesys_remove fmw junk cwd path s else Some (False, s));
          Some (result, t\<lparr>fs := s\<rparr>) }
        else do { (result, s) \<leftarrow> filesys_remove fmw junk cwd path s; Some (result, t\<lparr>fs := s\<rparr>) } }
      else Some (False, t))"

definition get_file_descriptor :: "nat \<Rightarrow> nat \<Rightarrow> fsaccess \<Rightarrow> file_descriptor option" where
  "get_file_descriptor tid n t = List.find (\<lambda>fd. fd_num fd = n \<and> owner fd = tid) (rev (open_files t))"

text \<open>The descriptor number, \<open>None\<close> for -1.\<close>

definition open_file_or_dir :: "fm_writer \<Rightarrow> dirent \<Rightarrow> addr \<Rightarrow> nat \<Rightarrow> u8 list \<Rightarrow> fsaccess \<Rightarrow> (nat option \<times> fsaccess) option" where
  "open_file_or_dir fmw junk cwd tid path t = do {
     t \<leftarrow> lock_fs t;
     (isdir, s) \<leftarrow> path_is_dir fmw junk cwd path (fs t);
     (f, s) \<leftarrow> (if isdir then do { (p, s) \<leftarrow> dir_path_lookup fmw junk cwd path s; dir_open p s }
                else filesys_open fmw junk cwd path s);
     if f = NULL then do { t \<leftarrow> unlock_fs (t\<lparr>fs := s\<rparr>); Some (None, t) }
     else do {
       s \<leftarrow> (if isdir then do { p \<leftarrow> dir_get_inode f s; upd_inode p (\<lambda>i. i\<lparr>open_fd_cnt := open_fd_cnt i + 1\<rparr>) s } else Some s);
       let fd = \<lparr>fd_num = fd_count t, open_file = (if isdir then NULL else f), open_dir = (if isdir then f else NULL), owner = tid, fd_is_dir = isdir\<rparr>;
       t \<leftarrow> unlock_fs (t\<lparr>fs := s, open_files := fd # open_files t, fd_count := sz (fd_count t + 1)\<rparr>);
       Some (Some (fd_num fd), t) } }"

definition filelength_open_file :: "nat \<Rightarrow> nat \<Rightarrow> fsaccess \<Rightarrow> (int \<times> fsaccess) option" where
  "filelength_open_file tid n t = do {
     t \<leftarrow> lock_fs t;
     (result, s) \<leftarrow> (case get_file_descriptor tid n t of Some fd \<Rightarrow> file_length (open_file fd) (fs t) | None \<Rightarrow> Some (-1, fs t));
     t \<leftarrow> unlock_fs (t\<lparr>fs := s\<rparr>);
     Some (result, t) }"

text \<open>Reading from the keyboard: \<open>keys\<close> are the characters \<^verbatim>\<open>input_getc\<close> returns; the bytes written to the buffer
  are followed by a null byte.\<close>

fun read_keys :: "nat \<Rightarrow> u8 list \<Rightarrow> u8 list option" where
  "read_keys 0 keys = Some []"
| "read_keys (Suc n) [] = None"
| "read_keys (Suc n) (c # keys) = (if c \<noteq> 0 then map_option ((#) c) (read_keys n keys) else Some [])"

text \<open>The results are what the function returns and the bytes stored in the buffer.\<close>

definition read_open_file :: "fm_writer \<Rightarrow> u8 list \<Rightarrow> nat \<Rightarrow> nat \<Rightarrow> nat \<Rightarrow> fsaccess \<Rightarrow> (int \<times> u8 list \<times> fsaccess) option" where
  "read_open_file fmw keys tid n len t =
     (if n = 0 then do {
        t \<leftarrow> lock_fs t;
        bytes \<leftarrow> read_keys len keys;
        t \<leftarrow> unlock_fs t;
        Some (int (length bytes), bytes @ [0], t) }
      else if n = 1 then Some (-1, [], t)
      else do {
        t \<leftarrow> lock_fs t;
        let fd = get_file_descriptor tid n t;
        t \<leftarrow> unlock_fs t;
        t \<leftarrow> lock_fs t;
        (result, bytes, s) \<leftarrow>
          (case fd of
             Some d \<Rightarrow> (if \<not> fd_is_dir d then do { (bytes, s) \<leftarrow> file_read fmw (open_file d) (bits_off len) (fs t); Some (int (length bytes), bytes, s) }
                        else Some (-1, [], fs t))
           | None \<Rightarrow> Some (-1, [], fs t));
        t \<leftarrow> unlock_fs (t\<lparr>fs := s\<rparr>);
        Some (result, bytes, t) })"

text \<open>Writing; the second result is what \<^verbatim>\<open>putbuf\<close> shows on the console. An invalid buffer sets the result to -1, but
  the function goes on and the later assignments replace it.\<close>

definition write_open_file :: "fm_writer \<Rightarrow> bool \<Rightarrow> nat \<Rightarrow> nat \<Rightarrow> u8 list \<Rightarrow> fsaccess \<Rightarrow> (int \<times> u8 list \<times> fsaccess) option" where
  "write_open_file fmw valid tid n buffer t = do {
     let result = (if \<not> valid then -1 else 0 :: int);
     if n = 0 then Some (-1, [], t)
     else if n = 1 then do {
       t \<leftarrow> lock_fs t;
       t \<leftarrow> unlock_fs t;
       Some (result, buffer, t) }
     else do {
       t \<leftarrow> lock_fs t;
       let fd = get_file_descriptor tid n t;
       t \<leftarrow> unlock_fs t;
       t \<leftarrow> lock_fs t;
       (result, s) \<leftarrow>
         (case fd of
            Some d \<Rightarrow> (if \<not> fd_is_dir d then do { (k, s) \<leftarrow> file_write fmw (open_file d) buffer (fs t); Some (int k, s) }
                       else Some (-1, fs t))
          | None \<Rightarrow> Some (-1, fs t));
       t \<leftarrow> unlock_fs (t\<lparr>fs := s\<rparr>);
       Some (result, [], t) } }"

definition seek_open_file :: "nat \<Rightarrow> nat \<Rightarrow> nat \<Rightarrow> fsaccess \<Rightarrow> fsaccess option" where
  "seek_open_file tid n position t = do {
     t \<leftarrow> lock_fs t;
     s \<leftarrow> (case get_file_descriptor tid n t of Some fd \<Rightarrow> file_seek (open_file fd) (bits_off position) (fs t) | None \<Rightarrow> Some (fs t));
     unlock_fs (t\<lparr>fs := s\<rparr>) }"

definition tell_open_file :: "nat \<Rightarrow> nat \<Rightarrow> fsaccess \<Rightarrow> (int \<times> fsaccess) option" where
  "tell_open_file tid n t = do {
     t \<leftarrow> lock_fs t;
     result \<leftarrow> (case get_file_descriptor tid n t of Some fd \<Rightarrow> file_tell (open_file fd) (fs t) | None \<Rightarrow> Some 0);
     t \<leftarrow> unlock_fs t;
     Some (result, t) }"

text \<open>What closing a descriptor does to its file or directory; a directory stays open.\<close>

definition close_descriptor :: "fm_writer \<Rightarrow> file_descriptor \<Rightarrow> fsys \<Rightarrow> fsys option" where
  "close_descriptor fmw fd s =
     (if fd_is_dir fd then do { p \<leftarrow> dir_get_inode (open_dir fd) s; upd_inode p (\<lambda>i. i\<lparr>open_fd_cnt := open_fd_cnt i - 1\<rparr>) s }
      else file_close fmw (open_file fd) s)"

definition close_open_file_or_dir :: "fm_writer \<Rightarrow> nat \<Rightarrow> nat \<Rightarrow> fsaccess \<Rightarrow> fsaccess option" where
  "close_open_file_or_dir fmw tid n t = do {
     t \<leftarrow> lock_fs t;
     t \<leftarrow> (case get_file_descriptor tid n t of
             Some fd \<Rightarrow> (if owner fd = tid then do {
                 s \<leftarrow> close_descriptor fmw fd (fs t);
                 Some (t\<lparr>fs := s, open_files := remove1 fd (open_files t)\<rparr>) } else Some t)
           | None \<Rightarrow> Some t);
     unlock_fs t }"

fun close_all_loop :: "fm_writer \<Rightarrow> nat \<Rightarrow> file_descriptor list \<Rightarrow> fsaccess \<Rightarrow> fsaccess option" where
  "close_all_loop fmw tid [] t = Some t"
| "close_all_loop fmw tid (fd # fds) t =
     (if owner fd = tid then do {
        s \<leftarrow> close_descriptor fmw fd (fs t);
        close_all_loop fmw tid fds (t\<lparr>fs := s, open_files := remove1 fd (open_files t)\<rparr>) }
      else close_all_loop fmw tid fds t)"

text \<open>The loop runs from the last descriptor to the first; \<^verbatim>\<open>unmap_all\<close> follows it (theory \<open>Page\<close>).\<close>

definition close_all_files_and_dir :: "fm_writer \<Rightarrow> nat \<Rightarrow> fsaccess \<Rightarrow> fsaccess option" where
  "close_all_files_and_dir fmw tid t = do {
     t \<leftarrow> lock_fs t;
     t \<leftarrow> close_all_loop fmw tid (rev (open_files t)) t;
     unlock_fs t }"

definition read_directory :: "fm_writer \<Rightarrow> dirent \<Rightarrow> bool \<Rightarrow> nat \<Rightarrow> nat \<Rightarrow> fsaccess \<Rightarrow> (u8 list option \<times> fsaccess) option" where
  "read_directory fmw junk valid tid n t =
     (case get_file_descriptor tid n t of
        Some fd \<Rightarrow> (if fd_is_dir fd \<and> valid then do { (r, s) \<leftarrow> dir_readdir fmw junk (open_dir fd) (fs t); Some (r, t\<lparr>fs := s\<rparr>) } else Some (None, t))
      | None \<Rightarrow> Some (None, t))"

definition is_directory :: "nat \<Rightarrow> nat \<Rightarrow> fsaccess \<Rightarrow> bool" where
  "is_directory tid n t = (case get_file_descriptor tid n t of Some fd \<Rightarrow> fd_is_dir fd | None \<Rightarrow> False)"

definition fd_inode_number :: "nat \<Rightarrow> nat \<Rightarrow> fsaccess \<Rightarrow> int option" where
  "fd_inode_number tid n t =
     (case get_file_descriptor tid n t of
        None \<Rightarrow> Some (-1)
      | Some fd \<Rightarrow>
          (if open_file fd \<noteq> NULL then do { p \<leftarrow> file_get_inode (open_file fd) (fs t); k \<leftarrow> inode_get_inumber p (fs t); Some (int k) }
           else if open_dir fd \<noteq> NULL then do { p \<leftarrow> dir_get_inode (open_dir fd) (fs t); k \<leftarrow> inode_get_inumber p (fs t); Some (int k) }
           else Some (-1)))"

section \<open>Descriptors belong to their process\<close>

definition fds_ok :: "fsaccess \<Rightarrow> bool" where
  "fds_ok t \<longleftrightarrow> distinct (map fd_num (open_files t)) \<and> (\<forall>fd \<in> set (open_files t). fd_num fd < fd_count t)"

lemma find_SomeD: "List.find P xs = Some x \<Longrightarrow> x \<in> set xs \<and> P x"
  by (induction xs) (auto split: if_splits)

lemma get_fdD: "get_file_descriptor tid n t = Some fd \<Longrightarrow> fd \<in> set (open_files t) \<and> fd_num fd = n \<and> owner fd = tid"
  unfolding get_file_descriptor_def by (drule find_SomeD) simp

lemma get_fd_iff:
  assumes "fds_ok t"
  shows "get_file_descriptor tid n t = Some fd \<longleftrightarrow> fd \<in> set (open_files t) \<and> fd_num fd = n \<and> owner fd = tid"
proof
  assume "get_file_descriptor tid n t = Some fd"
  then show "fd \<in> set (open_files t) \<and> fd_num fd = n \<and> owner fd = tid" by (rule get_fdD)
next
  assume fd: "fd \<in> set (open_files t) \<and> fd_num fd = n \<and> owner fd = tid"
  then obtain fd' where fd': "get_file_descriptor tid n t = Some fd'"
    by (cases "get_file_descriptor tid n t") (auto simp: get_file_descriptor_def find_None_iff)
  then have "fd' \<in> set (open_files t)" "fd_num fd' = n" by (simp_all add: get_fdD)
  moreover have "inj_on fd_num (set (open_files t))" using assms by (simp add: fds_ok_def distinct_map)
  ultimately show "get_file_descriptor tid n t = Some fd" using fd fd' by (auto dest: inj_onD)
qed

lemma lock_fs_simps:
  "lock_fs t = Some t' \<Longrightarrow> open_files t' = open_files t \<and> fd_count t' = fd_count t"
  "unlock_fs t = Some t' \<Longrightarrow> open_files t' = open_files t \<and> fd_count t' = fd_count t"
  by (auto simp: lock_fs_def unlock_fs_def split: if_splits)

lemma open_file_or_dir_Some:
  assumes "open_file_or_dir fmw junk cwd tid path t = Some (Some n, t')"
  shows "\<exists>fd. open_files t' = fd # open_files t \<and> fd_num fd = n \<and> owner fd = tid \<and> n = fd_count t \<and> fd_count t' = sz (fd_count t + 1)"
  using assms
  by (auto simp: open_file_or_dir_def bind_eq_Some_iff Let_def split: if_splits prod.splits dest!: lock_fs_simps)

lemma close_open_file_or_dir_Some:
  assumes "close_open_file_or_dir fmw tid n t = Some t'"
  shows "fd_count t' = fd_count t \<and> open_files t' = (case get_file_descriptor tid n t of Some fd \<Rightarrow> remove1 fd (open_files t) | None \<Rightarrow> open_files t)"
proof -
  obtain t1 t2 where t: "lock_fs t = Some t1" "unlock_fs t2 = Some t'"
      "(case get_file_descriptor tid n t1 of Some fd \<Rightarrow> (if owner fd = tid then do {
           s \<leftarrow> close_descriptor fmw fd (fs t1);
           Some (t1\<lparr>fs := s, open_files := remove1 fd (open_files t1)\<rparr>) } else Some t1) | None \<Rightarrow> Some t1) = Some t2"
    using assms unfolding close_open_file_or_dir_def by (auto simp: bind_eq_Some_iff)
  have g: "get_file_descriptor tid n t1 = get_file_descriptor tid n t"
    using lock_fs_simps(1) [OF t(1)] by (simp add: get_file_descriptor_def)
  show ?thesis
  proof (cases "get_file_descriptor tid n t")
    case None
    then show ?thesis using t(3) lock_fs_simps(1) [OF t(1)] lock_fs_simps(2) [OF t(2)] by (simp add: g)
  next
    case (Some fd)
    then show ?thesis using t(3) get_fdD [OF Some] lock_fs_simps(1) [OF t(1)] lock_fs_simps(2) [OF t(2)]
      by (auto simp: g bind_eq_Some_iff)
  qed
qed

text \<open>
  C38: file descriptors are private and fresh. Opening gives the calling thread a number no descriptor has, and closing
  it gives exactly this one back; every other pair of thread and number means the same descriptor before, between and after.
\<close>

theorem descriptors_private:
  assumes inv: "fds_ok t" and bound: "fd_count t + 1 < 2 ^ 32"
    and opened: "open_file_or_dir fmw junk cwd tid path t = Some (Some n, t1)"
  shows "fds_ok t1 \<and> get_file_descriptor tid n t = None \<and> get_file_descriptor tid n t1 \<noteq> None \<and>
    (\<forall>tid' m. (tid', m) \<noteq> (tid, n) \<longrightarrow> get_file_descriptor tid' m t1 = get_file_descriptor tid' m t) \<and>
    (\<forall>t2. close_open_file_or_dir fmw' tid n t1 = Some t2 \<longrightarrow>
      fds_ok t2 \<and> (\<forall>tid' m. get_file_descriptor tid' m t2 = get_file_descriptor tid' m t))"
proof -
  obtain fd where fd: "open_files t1 = fd # open_files t" "fd_num fd = n" "owner fd = tid" "n = fd_count t" "fd_count t1 = fd_count t + 1"
    using open_file_or_dir_Some [OF opened] bound by auto
  have new: "\<forall>x \<in> set (open_files t). fd_num x \<noteq> n" using inv fd(4) by (auto simp: fds_ok_def)
  have inv1: "fds_ok t1" using inv fd new by (force simp: fds_ok_def)
  have gt: "get_file_descriptor tid n t = None"
    using new get_fd_iff [OF inv] by (cases "get_file_descriptor tid n t") auto
  have g1: "get_file_descriptor tid n t1 = Some fd" using get_fd_iff [OF inv1] fd by simp
  have "fds_ok t2 \<and> (\<forall>tid' m. get_file_descriptor tid' m t2 = get_file_descriptor tid' m t)"
    if "close_open_file_or_dir fmw' tid n t1 = Some t2" for t2
    using close_open_file_or_dir_Some [OF that] g1 fd(1,5) inv by (auto simp: fds_ok_def get_file_descriptor_def)
  moreover have "get_file_descriptor tid' m t1 = get_file_descriptor tid' m t" if "(tid', m) \<noteq> (tid, n)" for tid' m
  proof -
    have "get_file_descriptor tid' m t1 = Some x \<longleftrightarrow> get_file_descriptor tid' m t = Some x" for x
      using get_fd_iff [OF inv1] get_fd_iff [OF inv] fd that by auto
    then show ?thesis by (metis option.exhaust)
  qed
  ultimately show ?thesis using inv1 gt g1 by blast
qed

text \<open>
  a process can stop the kernel with \<^verbatim>\<open>seek\<close>. On a directory, or with a position that is negative as an
  \<^verbatim>\<open>off_t\<close>, \<^verbatim>\<open>seek_open_file\<close> runs into an assertion of \<^verbatim>\<open>file_seek\<close>; so do \<^verbatim>\<open>tell\<close> and
  \<^verbatim>\<open>filesize\<close> on a directory.
\<close>

theorem seek_stops_kernel:
  assumes "get_file_descriptor tid n t = Some fd" and "open_file fd = NULL \<or> 2 ^ 31 \<le> position" and "position < 2 ^ 32"
  shows "seek_open_file tid n position t = None \<and>
    (open_file fd = NULL \<longrightarrow> tell_open_file tid n t = None \<and> filelength_open_file tid n t = None)"
proof -
  have g: "get_file_descriptor tid n (t\<lparr>files_lock := True\<rparr>) = Some fd" using assms(1) by (simp add: get_file_descriptor_def)
  have "bits_off position < 0" if "2 ^ 31 \<le> position" using that assms(3) by (simp add: bits_off_def)
  then show ?thesis using assms(2) g
    by (auto simp: seek_open_file_def tell_open_file_def filelength_open_file_def lock_fs_def file_seek_def file_tell_def file_length_def)
qed

definition demo_fds :: "fsys \<Rightarrow> fsaccess" where
  "demo_fds s = \<lparr>fs = s, open_files = [\<lparr>fd_num = 2, open_file = 9, open_dir = NULL, owner = 7, fd_is_dir = False\<rparr>],
     fd_count = 3, files_lock = False\<rparr>"

theorem seek_stops_kernel_witness: "\<forall>s. seek_open_file 7 2 (2 ^ 31) (demo_fds s) = None"
proof
  fix s
  have "get_file_descriptor 7 2 (demo_fds s) = Some \<lparr>fd_num = 2, open_file = 9, open_dir = NULL, owner = 7, fd_is_dir = False\<rparr>"
    by (simp add: get_file_descriptor_def demo_fds_def)
  from seek_stops_kernel [OF this, of "2 ^ 31"] show "seek_open_file 7 2 (2 ^ 31) (demo_fds s) = None" by simp
qed

text \<open>Opening a file that is in the current directory.\<close>

lemma inode_open_some:
  assumes "fs_ok s"
  shows "\<exists>q s'. inode_open n s = Some (q, s') \<and> q \<noteq> NULL \<and> 0 < next_addr s'"
proof -
  have t: "\<forall>q \<in> set (open_inodes s). inodes s q \<noteq> None \<and> q \<noteq> NULL" "0 < next_addr s" using assms by (auto simp: tab_ok_def)
  have "\<forall>q \<in> set (open_inodes s). inodes s q \<noteq> None" using t(1) by blast
  from find_open_cases [OF this, of n] t show ?thesis
    by (auto simp: inode_open_def Let_def inode_reopen_def upd_inode_def)
qed

lemma open_in_current_dir:
  assumes ok: "dir_ok a p d (fs t)" and junk: "length junk = DIRENT_SIZE" and lock: "\<not> files_lock t"
    and path: "SLASH \<notin> set path" "path \<noteq> [DOT]" "path \<noteq> [DOT, DOT]" and dm: "dir_map (file_content d (fs t)) path = Some (sector, False)"
  shows "\<exists>t'. open_file_or_dir fmw junk a tid path t = Some (Some (fd_count t), t')"
proof -
  have a: "a \<noteq> NULL" using ok by (simp add: dir_ok_def)
  obtain k where k: "first_dent (is_named path) (file_content d (fs t)) 0 = Some k" "\<not> de_is_dir (dent (file_content d (fs t)) k)"
    using dm by (auto simp: dir_map_def)
  obtain s1 where s1: "lookup fmw junk a path (fs t) = Some (Some (dent (file_content d (fs t)) k, DIRENT_SIZE * k), s1)"
      "dir_file p d (fs t) s1" "file_content d s1 = file_content d (fs t)"
    using lookup_ok [OF ok junk, of fmw path] k(1) by auto
  have ok1: "dir_ok a p d s1" using ok s1(2,3) by (auto simp: dir_ok_def dir_file_def same_rest_def)
  obtain s2 where s2: "lookup fmw junk a path s1 = Some (Some (dent (file_content d (fs t)) k, DIRENT_SIZE * k), s2)" "dir_file p d s1 s2"
    using lookup_ok [OF ok1 junk, of fmw path] k(1) s1(3) by auto
  have "fs_ok s2" using s2(2) by (simp add: dir_file_def good_file_def)
  then obtain q s3 where s3: "inode_open (de_sector (dent (file_content d (fs t)) k)) s2 = Some (q, s3)" "q \<noteq> NULL" "0 < next_addr s3"
    using inode_open_some by blast
  have last: "get_path_last_entry path = path" using path(1) by (simp add: get_path_last_entry_def)
  have par: "get_parent_directory fmw junk a path s = Some (a, s)" for s
    using path(1) a by (simp add: get_parent_directory_def get_curr_working_dir_def)
  have "path \<noteq> [SLASH]" using path(1) by auto
  then have "path_is_dir fmw junk a path (fs t) = Some (False, s1)"
    using s1(1) k(2) a path by (simp add: path_is_dir_def par last dir_lookup_entry_def)
  moreover have "filesys_open fmw junk a path s1 = file_open q s3"
    using s2(1) s3(1) a by (simp add: filesys_open_def par last dir_lookup_entry_def)
  ultimately show ?thesis using lock s3(2,3)
    by (simp add: open_file_or_dir_def lock_fs_def unlock_fs_def file_open_def Let_def)
qed

theorem descriptors_private_witness:
  "\<exists>b s1 t1. bc_block_write 5 (disk_bytes demo_inode) 0 demo_cache = Some b \<and>
     dir_add (\<lambda>s. None) no_dent 3 [97] 20 False (demo_dir b) = Some (True, s1) \<and>
     open_file_or_dir (\<lambda>s. None) no_dent 3 7 [97] (demo_fds s1) = Some (Some 3, t1) \<and> fds_ok t1 \<and>
     get_file_descriptor 7 2 t1 = get_file_descriptor 7 2 (demo_fds s1)"
proof -
  obtain b where b: "bc_block_write 5 (disk_bytes demo_inode) 0 demo_cache = Some b" "good_file 1 demo_inode (demo_fs b)"
      "file_content demo_inode (demo_fs b) = replicate 1000 0" using demo_good by blast
  obtain s1 where s1: "dir_add (\<lambda>s. None) no_dent 3 [97] 20 False (demo_dir b) = Some (True, s1)" "dir_ok 3 1 demo_inode s1"
      "dir_map (file_content demo_inode s1) [97] = Some (20, False)"
    using demo_dir_add [OF b(2,3), of False] by blast
  have inv: "fds_ok (demo_fds s1)" by (simp add: fds_ok_def demo_fds_def)
  obtain t1 where t1: "open_file_or_dir (\<lambda>s. None) no_dent 3 7 [97] (demo_fds s1) = Some (Some 3, t1)"
    using open_in_current_dir [of 3 1 demo_inode "demo_fds s1" no_dent "[97]" 20 "\<lambda>s. None" 7] s1(2,3)
    by (auto simp: demo_fds_def SLASH_def DOT_def)
  have bd: "fd_count (demo_fds s1) + 1 < 2 ^ 32" by (simp add: demo_fds_def)
  show ?thesis using b(1) s1(1) t1 descriptors_private [OF inv bd t1] by auto
qed

end

