(* ===== verification/Arith64.thy ===== *)
theory Arith64
  imports Prelude "HOL-Library.Signed_Division"
begin

text \<open>
  The 64-bit division routines of \<^verbatim>\<open>lib/arithmetic.c\<close>, which the compiler calls on a 32-bit machine. The only
  division the hardware offers is \<^verbatim>\<open>divl\<close>, of a 64-bit by a 32-bit number with a 32-bit quotient; it traps when
  the divisor is zero or the quotient does not fit. A trap is \<open>None\<close>.
\<close>

section \<open>The routines\<close>

definition divl :: "u64 \<Rightarrow> u32 \<Rightarrow> u32 option" where
  "divl n d = (if d = 0 \<or> 2 ^ 32 \<le> unat n div unat d then None else Some (of_nat (unat n div unat d)))"

text \<open>One of the four steps of \<^verbatim>\<open>nlz\<close>: if the upper \<open>k\<close> bits are zero, shift by \<open>k\<close>.\<close>

definition nlz_step :: "nat \<Rightarrow> nat \<times> u32 \<Rightarrow> nat \<times> u32" where
  "nlz_step k = (\<lambda>(n, x). if x \<le> mask (32 - k) then (n + k, push_bit k x) else (n, x))"

definition nlz :: "u32 \<Rightarrow> nat" where
  "nlz x = (let (n, x) = nlz_step 2 (nlz_step 4 (nlz_step 8 (nlz_step 16 (0, x)))) in
     if x \<le> 0x7FFFFFFF then n + 1 else n)"

definition udiv64 :: "u64 \<Rightarrow> u64 \<Rightarrow> u64 option" where
  "udiv64 n d =
     (if drop_bit 32 d = 0 then
        let b = push_bit 32 1; n1 = (ucast (drop_bit 32 n) :: u32); n0 = (ucast n :: u32); d0 = (ucast d :: u32) in
        if d0 = 0 then None
        else do {
          q \<leftarrow> divl (b * ucast (n1 mod d0) + ucast n0) d0;
          Some (ucast q + b * ucast (n1 div d0)) }
      else if n < d then Some 0
      else do {
        let d1 = (ucast (drop_bit 32 d) :: u32);
        let s = nlz d1;
        q1 \<leftarrow> divl (drop_bit 1 n) (ucast (drop_bit 32 (push_bit s d)));
        let q = (ucast (drop_bit (31 - s) q1) :: u64);
        Some (if n - (q - 1) * d < d then q - 1 else q) })"

text \<open>The remainder is returned as a \<^verbatim>\<open>uint32_t\<close>, that of the signed division as an \<^verbatim>\<open>int32_t\<close>.\<close>

definition umod64 :: "u64 \<Rightarrow> u64 \<Rightarrow> u32 option" where
  "umod64 n d = do { q \<leftarrow> udiv64 n d; Some (ucast (n - d * q)) }"

definition sdiv64 :: "u64 \<Rightarrow> u64 \<Rightarrow> u64 option" where
  "sdiv64 n d = do {
     let n_abs = (if 0 \<le> sint n then n else - n);
     let d_abs = (if 0 \<le> sint d then d else - d);
     q_abs \<leftarrow> udiv64 n_abs d_abs;
     Some (if (sint n < 0) = (sint d < 0) then q_abs else - q_abs) }"

definition smod64 :: "u64 \<Rightarrow> u64 \<Rightarrow> u32 option" where
  "smod64 n d = do { q \<leftarrow> sdiv64 n d; Some (ucast (n - d * q)) }"

definition divdi3 :: "u64 \<Rightarrow> u64 \<Rightarrow> u64 option" where "divdi3 n d = sdiv64 n d"

definition moddi3 :: "u64 \<Rightarrow> u64 \<Rightarrow> u64 option" where "moddi3 n d = map_option scast (smod64 n d)"

definition udivdi3 :: "u64 \<Rightarrow> u64 \<Rightarrow> u64 option" where "udivdi3 n d = udiv64 n d"

definition umoddi3 :: "u64 \<Rightarrow> u64 \<Rightarrow> u64 option" where "umoddi3 n d = map_option ucast (umod64 n d)"

section \<open>Leading zeros\<close>

lemma unat_u64_less: "unat (w :: u64) < 2 ^ 64" and unat_u32_less: "unat (w' :: u32) < 2 ^ 32"
  using unsigned_less [of w] unsigned_less [of w'] by simp_all

lemma unat_push_bit_exact: "unat (w :: 'a :: len word) * 2 ^ k < 2 ^ LENGTH('a) \<Longrightarrow> unat (push_bit k w) = unat w * 2 ^ k"
  unfolding unsigned_push_bit_eq by (subst push_bit_eq_mult) (simp add: take_bit_nat_eq_self)

lemma pow2_mult: "(2::nat) ^ a * 2 ^ b = 2 ^ (a + b)"
  by (simp add: power_add)

lemma le_mask_iff: "k \<le> 32 \<Longrightarrow> (x :: u32) \<le> mask k \<longleftrightarrow> unat x < 2 ^ k"
  proof -
  assume k: "k \<le> 32"
  have "uint (mask k :: u32) = 2 ^ k - 1" unfolding uint_mask_eq using k by (simp add: mask_eq_exp_minus_1 min_def)
  then have "x \<le> mask k \<longleftrightarrow> int (unat x) < 2 ^ k" by (simp add: word_le_def)
  then show ?thesis by (metis of_nat_less_iff of_nat_numeral of_nat_power)
qed

lemma nlz_step_ok:
  assumes "nlz_step k (n, x) = (n', x')" and "0 < k" "k \<le> 16" and "2 ^ (32 - 2 * k) \<le> unat x"
  shows "n \<le> n' \<and> unat x' = unat x * 2 ^ (n' - n) \<and> 2 ^ (32 - k) \<le> unat x' \<and> n' \<le> n + k"
proof (cases "unat x < 2 ^ (32 - k)")
  case True
  then have "unat x * 2 ^ k < 2 ^ (32 - k) * 2 ^ k" by (intro mult_strict_right_mono) simp_all
  also have "\<dots> = 2 ^ 32" using assms(3) by (simp add: power_add [symmetric])
  finally have p: "unat (push_bit k x) = unat x * 2 ^ k" by (intro unat_push_bit_exact) simp
  have "2 ^ (32 - 2 * k) * 2 ^ k \<le> unat x * 2 ^ k" using assms(4) by (intro mult_right_mono) simp_all
  moreover have "(2::nat) ^ (32 - 2 * k) * 2 ^ k = 2 ^ (32 - k)" using assms(3) by (simp add: power_add [symmetric])
  ultimately show ?thesis using True assms(1) p by (auto simp: nlz_step_def le_mask_iff)
next
  case False
  with assms(1) show ?thesis by (auto simp: nlz_step_def le_mask_iff)
qed

lemma nlz_normalises:
  assumes "x \<noteq> 0"
  shows "2 ^ 31 \<le> unat x * 2 ^ nlz x" and "unat x * 2 ^ nlz x < 2 ^ 32" and "nlz x \<le> 31"
proof -
  obtain n1 x1 where 1: "nlz_step 16 (0, x) = (n1, x1)" by (cases "nlz_step 16 (0, x)")
  obtain n2 x2 where 2: "nlz_step 8 (n1, x1) = (n2, x2)" by (cases "nlz_step 8 (n1, x1)")
  obtain n3 x3 where 3: "nlz_step 4 (n2, x2) = (n3, x3)" by (cases "nlz_step 4 (n2, x2)")
  obtain n4 x4 where 4: "nlz_step 2 (n3, x3) = (n4, x4)" by (cases "nlz_step 2 (n3, x3)")
  have "Suc 0 \<le> unat x" using assms by (simp add: Suc_leI unat_gt_0)
  with nlz_step_ok [OF 1] have s1: "unat x1 = unat x * 2 ^ n1" "2 ^ 16 \<le> unat x1" "n1 \<le> 16" by simp_all
  with nlz_step_ok [OF 2] have s2: "n1 \<le> n2" "unat x2 = unat x1 * 2 ^ (n2 - n1)" "2 ^ 24 \<le> unat x2" "n2 \<le> n1 + 8" by simp_all
  with nlz_step_ok [OF 3] have s3: "n2 \<le> n3" "unat x3 = unat x2 * 2 ^ (n3 - n2)" "2 ^ 28 \<le> unat x3" "n3 \<le> n2 + 4" by simp_all
  with nlz_step_ok [OF 4] have s4: "n3 \<le> n4" "unat x4 = unat x3 * 2 ^ (n4 - n3)" "2 ^ 30 \<le> unat x4" "n4 \<le> n3 + 2" by simp_all
  have x4: "unat x4 = unat x * 2 ^ n4"
    using s1 s2 s3 s4 by (simp add: mult.assoc power_add [symmetric])
  have lo: "2 ^ 30 \<le> unat x4" and hi: "unat x4 < 2 ^ 32" and n4: "n4 \<le> 30" using s1(3) s2(4) s3(4) s4(3,4) unsigned_less [of x4] by simp_all
  have small: "x4 \<le> 0x7FFFFFFF \<longleftrightarrow> unat x4 < 2 ^ 31" by (auto simp: word_le_nat_alt)
  have nlz: "nlz x = (if unat x4 < 2 ^ 31 then n4 + 1 else n4)" by (simp add: nlz_def 1 2 3 4 small)
  show "2 ^ 31 \<le> unat x * 2 ^ nlz x" "unat x * 2 ^ nlz x < 2 ^ 32" "nlz x \<le> 31"
    using lo hi n4 x4 by (auto simp: nlz not_less)
qed

section \<open>The quotient estimate\<close>

text \<open>
  Dividing by the \<open>32\<close> leading bits of the divisor instead of by the divisor gives the quotient or one more.
\<close>

lemma div_estimate:
  fixes n d k Q :: nat
  assumes n: "n < 2 ^ 64" and k: "1 \<le> k" "k \<le> 32" and d: "2 ^ (31 + k) \<le> d"
  shows "n div (d div 2 ^ k * 2 ^ k) = n div d \<or> n div (d div 2 ^ k * 2 ^ k) = n div d + 1"
proof -
  let ?D = "d div 2 ^ k * 2 ^ k" and ?r = "d mod 2 ^ k" and ?Q = "n div d"
  have D: "d = ?D + ?r" by (rule div_mult_mod_eq [symmetric])
  have r: "?r \<le> 2 ^ k - 1" using mod_less_divisor [of "2 ^ k" d] by (simp del: mod_less_divisor)
  have "2 ^ (31 + k) div 2 ^ k \<le> d div 2 ^ k" using d by (rule div_le_mono)
  then have "2 ^ 31 \<le> d div 2 ^ k" by (simp add: power_add)
  then have Dge: "2 ^ (31 + k) \<le> ?D" by (simp add: power_add mult_right_mono)
  then have Dpos: "0 < ?D" by (metis less_le_trans zero_less_numeral zero_less_power)
  have "n < 2 ^ (33 - k) * 2 ^ (31 + k)" using n k(2) by (simp add: power_add [symmetric])
  also have "\<dots> \<le> 2 ^ (33 - k) * d" using d by (rule mult_le_mono2)
  finally have "?Q < 2 ^ (33 - k)" by (simp add: less_mult_imp_div_less)
  then have "(?Q + 1) * ?r \<le> 2 ^ (33 - k) * (2 ^ k - 1)" using r by (intro mult_le_mono) simp_all
  also have "\<dots> \<le> 2 ^ (31 + k)"
  proof (cases "k = 1")
    case False
    have "(2::nat) ^ (33 - k) * 2 ^ k = 2 ^ 33" unfolding pow2_mult using k by simp
    also have "(2::nat) ^ 33 \<le> 2 ^ (31 + k)" using False k by (intro power_increasing) simp_all
    finally have "(2::nat) ^ (33 - k) * 2 ^ k \<le> 2 ^ (31 + k)" .
    then show ?thesis by (meson diff_le_self le_trans mult_le_mono2)
  qed simp
  also have "\<dots> \<le> ?D" by (rule Dge)
  finally have small: "(?Q + 1) * ?r \<le> ?D" .
  have "n < (?Q + 1) * d" using Dpos D by (metis add.commute add_gr_0 dividend_less_div_times less_add_same_cancel1 mult_Suc plus_1_eq_Suc)
  also have "\<dots> = (?Q + 1) * ?D + (?Q + 1) * ?r" by (subst D) (simp only: distrib_left)
  also have "\<dots> \<le> (?Q + 1) * ?D + ?D" using small by (rule add_left_mono)
  also have "\<dots> = (?Q + 2) * ?D" by (simp add: distrib_right)
  finally have "n div ?D < ?Q + 2" by (simp add: less_mult_imp_div_less)
  moreover have "?Q \<le> n div ?D" using Dpos by (intro div_le_mono2) simp_all
  ultimately show ?thesis by linarith
qed

section \<open>Unsigned division\<close>

lemma unat_high: "unat (ucast (drop_bit 32 (w :: u64)) :: u32) = unat w div 2 ^ 32"
proof -
  have "unat w div 2 ^ 32 < 2 ^ 32" using unat_u64_less [of w] by (intro less_mult_imp_div_less) simp
  then show ?thesis unfolding unsigned_ucast_eq unat_drop_bit_eq by (simp only: drop_bit_eq_div take_bit_nat_eq_self_iff) simp
qed

lemma unat_low: "unat (ucast (w :: u64) :: u32) = unat w mod 2 ^ 32"
  by (simp add: unsigned_ucast_eq take_bit_eq_mod)

lemma unat_wide: "unat (ucast (w :: u32) :: u64) = unat w"
  using unat_u32_less [of w] by (simp add: unsigned_ucast_eq take_bit_nat_eq_self)

lemma divl_ok: "d \<noteq> 0 \<Longrightarrow> unat n < 2 ^ 32 * unat d \<Longrightarrow> \<exists>q. divl n d = Some q \<and> unat q = unat n div unat d"
proof -
  assume d: "d \<noteq> 0" and "unat n < 2 ^ 32 * unat d"
  then have "unat n div unat d < 2 ^ 32" by (intro less_mult_imp_div_less)
  with d show ?thesis by (simp add: divl_def unat_of_nat not_le)
qed

text \<open>A divisor below \<open>2 ^ 32\<close>: schoolbook division of the two digits of the dividend.\<close>

lemma udiv64_small:
  assumes "drop_bit 32 d = 0" and "d \<noteq> 0"
  shows "\<exists>q. udiv64 n d = Some q \<and> unat q = unat n div unat d"
proof -
  let ?n1 = "ucast (drop_bit 32 n) :: u32" and ?n0 = "ucast n :: u32" and ?d0 = "ucast d :: u32"
  have "unat d div 2 ^ 32 = 0" using assms(1) by (metis drop_bit_eq_div unat_drop_bit_eq unsigned_0)
  then have d: "unat d < 2 ^ 32" by simp
  have d0: "unat ?d0 = unat d" using d by (simp add: unat_low)
  have d0_nz: "?d0 \<noteq> 0" using assms(2) d0 by (metis unat_eq_zero)
  let ?N = "push_bit 32 1 * ucast (?n1 mod ?d0) + ucast ?n0 :: u64"
  let ?r = "unat ?n1 mod unat d"
  have r: "?r + 1 \<le> unat d" using assms(2) by (metis Suc_eq_plus1 Suc_leI bot_nat_0.not_eq_extremum mod_less_divisor unat_eq_zero)
  have n0: "unat ?n0 < 2 ^ 32" by (rule unat_u32_less)
  have "2 ^ 32 * ?r + unat ?n0 < 2 ^ 32 * (?r + 1)" using n0 by simp
  also have "\<dots> \<le> 2 ^ 32 * unat d" using r by (rule mult_le_mono2)
  finally have small: "2 ^ 32 * ?r + unat ?n0 < 2 ^ 32 * unat d" .
  have "2 ^ 32 * unat d < (2::nat) ^ 64" using d by simp
  then have N: "unat ?N = 2 ^ 32 * ?r + unat ?n0"
    using small by (simp add: unat_word_ariths unat_wide unat_mod_distrib d0 push_bit_eq_mult)
  obtain q where q: "divl ?N ?d0 = Some q" "unat q = unat ?N div unat d"
    using divl_ok [OF d0_nz, of ?N] small N d0 by auto
  let ?R = "ucast q + push_bit 32 1 * ucast (?n1 div ?d0) :: u64"
  have "unat n = 2 ^ 32 * unat ?n1 + unat ?n0" by (simp only: unat_high [of n] unat_low [of n] mult_div_mod_eq)
  also have "\<dots> = 2 ^ 32 * (unat ?n1 div unat d * unat d + ?r) + unat ?n0" by (simp only: div_mult_mod_eq)
  also have "\<dots> = unat ?N + 2 ^ 32 * (unat ?n1 div unat d) * unat d"
    unfolding N by (simp only: distrib_left mult.assoc add.assoc add.commute add.left_commute)
  finally have eq: "unat n div unat d = unat q + 2 ^ 32 * (unat ?n1 div unat d)"
    using assms(2) q(2) by (simp add: unat_eq_0)
  have "unat n div unat d < 2 ^ 64" using unat_u64_less [of n] div_le_dividend [of "unat n" "unat d"] by (rule le_less_trans [rotated])
  then have "unat ?R = unat q + 2 ^ 32 * (unat ?n1 div unat d)"
    unfolding eq by (simp add: unat_word_ariths unat_wide unat_div_distrib d0 push_bit_eq_mult)
  with eq q(1) assms(1) d0_nz show ?thesis by (simp add: udiv64_def Let_def)
qed

text \<open>A divisor of at least \<open>2 ^ 32\<close>: the estimate from its leading \<open>32\<close> bits, corrected by one.\<close>

lemma shifted_divisor:
  assumes "drop_bit 32 d \<noteq> (0 :: u64)" and "s = nlz (ucast (drop_bit 32 d))"
  shows "unat (ucast (drop_bit 32 (push_bit s d)) :: u32) = unat d div 2 ^ (32 - s)"
    and "s \<le> 31" and "2 ^ (63 - s) \<le> unat d"
proof -
  let ?d1 = "ucast (drop_bit 32 d) :: u32"
  have d1: "unat ?d1 = unat d div 2 ^ 32" by (rule unat_high)
  have "unat d div 2 ^ 32 \<noteq> 0" using assms(1) by (metis drop_bit_eq_div unat_drop_bit_eq unat_eq_zero)
  then have nz: "?d1 \<noteq> 0" by (metis d1 unsigned_0)
  show s: "s \<le> 31" using nlz_normalises(3) [OF nz] assms(2) by simp
  have hi: "unat d div 2 ^ 32 * 2 ^ s < 2 ^ 32" and lo: "2 ^ 31 \<le> unat d div 2 ^ 32 * 2 ^ s"
    using nlz_normalises(1,2) [OF nz] assms(2) d1 by simp_all
  have e32: "(2::nat) ^ 32 = 2 ^ (32 - s) * 2 ^ s" and e31: "(2::nat) ^ 31 = 2 ^ (31 - s) * 2 ^ s"
    using s by (simp_all add: power_add [symmetric])
  have "unat d div 2 ^ 32 < 2 ^ (32 - s)" using hi e32 by (metis mult_less_cancel2)
  then have "unat d < 2 ^ (32 - s) * 2 ^ 32" by (simp add: div_less_iff_less_mult)
  then have "unat d * 2 ^ s < 2 ^ (32 - s) * 2 ^ 32 * 2 ^ s" by (intro mult_strict_right_mono) simp_all
  also have "\<dots> = 2 ^ 64" using s by (simp add: power_add [symmetric])
  finally have p: "unat (push_bit s d) = unat d * 2 ^ s" by (intro unat_push_bit_exact) simp
  have "unat (ucast (drop_bit 32 (push_bit s d)) :: u32) = unat d * 2 ^ s div 2 ^ 32" unfolding unat_high p ..
  also have "\<dots> = unat d div 2 ^ (32 - s)" unfolding e32 by (rule div_mult_mult2) simp
  finally show "unat (ucast (drop_bit 32 (push_bit s d)) :: u32) = unat d div 2 ^ (32 - s)" .
  have "2 ^ (31 - s) \<le> unat d div 2 ^ 32" using lo e31 by (metis mult_le_cancel2 zero_less_numeral zero_less_power)
  then have "2 ^ (31 - s) * 2 ^ 32 \<le> unat d" by (simp add: less_eq_div_iff_mult_less_eq)
  moreover have "31 - s + 32 = 63 - s" using s by simp
  ultimately show "2 ^ (63 - s) \<le> unat d" unfolding pow2_mult by simp
qed

text \<open>The correction: an estimate that is right or one too large becomes the quotient.\<close>

lemma correct_estimate:
  fixes n d q :: u64
  assumes "d \<le> n" and "d \<noteq> 0" and "unat q = unat n div unat d \<or> unat q = unat n div unat d + 1"
  shows "unat (if n - (q - 1) * d < d then q - 1 else q) = unat n div unat d"
proof -
  let ?Q = "unat n div unat d"
  have d: "0 < unat d" "unat d \<le> unat n" using assms(1,2) by (simp_all add: unat_gt_0 word_le_nat_alt)
  then have Q: "1 \<le> ?Q" by (simp add: Suc_le_eq div_greater_zero_iff)
  have n: "unat n = ?Q * unat d + unat n mod unat d" by (rule div_mult_mod_eq [symmetric])
  have q: "q \<noteq> 0" using assms(3) Q by (metis One_nat_def add_is_0 not_one_le_zero unat_eq_zero)
  have q1: "unat (q - 1) = unat q - 1" by (rule unat_minus_one [OF q])
  have le: "(unat q - 1) * unat d \<le> unat n"
  proof -
    have "unat q - 1 \<le> ?Q" using assms(3) by auto
    then have "(unat q - 1) * unat d \<le> ?Q * unat d" by (rule mult_le_mono1)
    also have "\<dots> \<le> unat n" using n by linarith
    finally show ?thesis .
  qed
  then have "unat ((q - 1) * d) = (unat q - 1) * unat d"
    using unat_u64_less [of n] unat_mult_lem [of "q - 1" d] by (simp add: q1)
  then have m: "unat (n - (q - 1) * d) = unat n - (unat q - 1) * unat d" using le by (simp add: unat_sub word_le_nat_alt)
  have small: "unat n mod unat d < unat d" using d(1) by (rule mod_less_divisor)
  from assms(3) show ?thesis
  proof
    assume e: "unat q = ?Q"
    have "(?Q - 1) * unat d + unat d \<le> unat n" 
    proof -
      have "(?Q - 1) * unat d + unat d = ?Q * unat d" using Q by (cases ?Q) simp_all
      then show ?thesis using n by linarith
    qed
    then have "\<not> n - (q - 1) * d < d" unfolding word_less_nat_alt m e by simp
    then show ?thesis using e by simp
  next
    assume e: "unat q = ?Q + 1"
    then have "unat n - (unat q - 1) * unat d = unat n mod unat d" by (simp add: minus_div_mult_eq_mod)
    then have "n - (q - 1) * d < d" unfolding word_less_nat_alt m using small by simp
    then show ?thesis using e q1 by simp
  qed
qed

lemma udiv64_large:
  assumes "drop_bit 32 d \<noteq> (0 :: u64)"
  shows "\<exists>q. udiv64 n d = Some q \<and> unat q = unat n div unat d"
proof (cases "n < d")
  case True
  then show ?thesis using assms by (simp add: udiv64_def word_less_nat_alt)
next
  case False
  define s where "s = nlz (ucast (drop_bit 32 d))"
  let ?v = "ucast (drop_bit 32 (push_bit s d)) :: u32"
  note sd = shifted_divisor [OF assms s_def]
  have "2 ^ (63 - s) div 2 ^ (32 - s) \<le> unat d div 2 ^ (32 - s)" using sd(3) by (rule div_le_mono)
  moreover have "(2::nat) ^ (63 - s) = 2 ^ 31 * 2 ^ (32 - s)" unfolding pow2_mult using sd(2) by simp
  ultimately have v: "2 ^ 31 \<le> unat ?v" unfolding sd(1) by simp
  have u: "unat (drop_bit 1 n) = unat n div 2" unfolding unat_drop_bit_eq by (simp add: drop_bit_eq_div)
  have "unat n div 2 < 2 ^ 32 * unat ?v" using unat_u64_less [of n] v by simp
  moreover have "?v \<noteq> 0"
  proof
    assume "?v = 0"
    with v show False by (simp only: unsigned_0) simp
  qed
  ultimately obtain q1 where q1: "divl (drop_bit 1 n) ?v = Some q1" "unat q1 = unat n div 2 div unat ?v"
    using divl_ok [of ?v "drop_bit 1 n"] unfolding u by blast
  let ?q = "ucast (drop_bit (31 - s) q1) :: u64"
  have "unat ?q = unat n div 2 div unat ?v div 2 ^ (31 - s)"
    unfolding unat_wide unat_drop_bit_eq q1(2) by (rule drop_bit_eq_div)
  also have "\<dots> = unat n div (unat ?v * (2 * 2 ^ (31 - s)))"
    by (simp add: div_mult2_eq [symmetric] mult.commute mult.left_commute)
  also have "2 * 2 ^ (31 - s) = (2::nat) ^ (32 - s)" using sd(2) by (simp add: power_Suc [symmetric] Suc_diff_le del: power_Suc)
  finally have q: "unat ?q = unat n div (unat d div 2 ^ (32 - s) * 2 ^ (32 - s))" unfolding sd(1) .
  have "63 - s = 31 + (32 - s)" using sd(2) by simp
  then have "unat ?q = unat n div unat d \<or> unat ?q = unat n div unat d + 1"
    unfolding q using sd(2,3) unat_u64_less [of n] by (intro div_estimate) auto
  moreover have "d \<noteq> 0" using assms by auto
  ultimately have "unat (if n - (?q - 1) * d < d then ?q - 1 else ?q) = unat n div unat d"
    using False by (intro correct_estimate) auto
  moreover have "udiv64 n d = Some (if n - (?q - 1) * d < d then ?q - 1 else ?q)"
    using assms False q1(1) by (simp add: udiv64_def Let_def s_def [symmetric])
  ultimately show ?thesis by blast
qed

lemma udiv64_div: "d \<noteq> 0 \<Longrightarrow> udiv64 n d = Some (n div d)"
  using udiv64_small [of d n] udiv64_large [of d n] by (metis unat_div_distrib word_unat_eq_iff)

lemma udiv64_zero: "udiv64 n 0 = None"
  by (simp add: udiv64_def Let_def)

section \<open>Signed division\<close>

lemma unat_abs: "int (unat (if 0 \<le> sint w then w else - w :: u64)) = \<bar>sint w\<bar>"
proof -
  let ?a = "if 0 \<le> sint w then w else - w"
  have "?a = word_of_int \<bar>sint w\<bar>" by (simp add: abs_if)
  moreover have "\<bar>sint w\<bar> < 2 ^ 64" using sint_lt [of w] sint_ge [of w] by (auto simp: abs_if)
  ultimately have "uint ?a = \<bar>sint w\<bar>" by (simp only: uint_word_of_int_eq) (simp add: take_bit_int_eq_self)
  then show ?thesis by simp
qed

lemma sdiv64_sdiv: "d \<noteq> 0 \<Longrightarrow> sdiv64 n d = Some (word_of_int (sint n sdiv sint d))"
proof -
  let ?n = "if 0 \<le> sint n then n else - n" and ?d = "if 0 \<le> sint d then d else - d"
  assume "d \<noteq> 0"
  then have "?d \<noteq> 0" and d: "sint d \<noteq> 0" by (auto simp: signed_eq_0_iff)
  then have "udiv64 ?n ?d = Some (?n div ?d)" by (intro udiv64_div)
  moreover have "?n div ?d = word_of_int (\<bar>sint n\<bar> div \<bar>sint d\<bar>)"
    unfolding unat_abs [symmetric] by (simp add: word_div_def)
  ultimately show ?thesis using d
    by (auto simp: sdiv64_def Let_def signed_divide_int_def sgn_if)
qed

section \<open>Properties\<close>

text \<open>
  C26: the division routines the compiler calls compute the 64-bit quotients. For every dividend and every nonzero
  divisor no \<^verbatim>\<open>divl\<close> instruction inside traps, \<^verbatim>\<open>__udivdi3\<close> returns the unsigned quotient and \<^verbatim>\<open>__divdi3\<close> the signed
  quotient rounded towards zero (with the wrap-around of \<^verbatim>\<open>INT64_MIN / -1\<close>); a zero divisor traps.
\<close>

theorem division_correct:
  "udivdi3 n d = (if d = 0 then None else Some (n div d)) \<and>
   divdi3 n d = (if d = 0 then None else Some (word_of_int (sint n sdiv sint d)))"
proof -
  have "sdiv64 n 0 = None" by (simp add: sdiv64_def udiv64_zero)
  then show ?thesis by (simp add: udivdi3_def divdi3_def udiv64_div sdiv64_sdiv udiv64_zero)
qed

text \<open>
  the remainder routines return only the low 32 bits of the remainder, since \<^verbatim>\<open>umod64\<close> is declared to return
  \<^verbatim>\<open>uint32_t\<close>: \<^verbatim>\<open>__umoddi3\<close> is wrong exactly when the remainder needs more than 32 bits, as for
  \<open>2 ^ 33\<close> modulo \<open>2 ^ 34\<close>.
\<close>

theorem remainder_truncated:
  "umoddi3 n d = (if d = 0 then None else Some (take_bit 32 (n mod d))) \<and>
   umoddi3 (2 ^ 33) (2 ^ 34) = Some 0 \<and> (2 ^ 33 :: u64) mod 2 ^ 34 = 2 ^ 33"
proof -
  have u: "umoddi3 n d = (if d = 0 then None else Some (take_bit 32 (n mod d)))" for n d
  proof (cases "d = 0")
    case False
    then have "umoddi3 n d = Some (ucast (ucast (n mod d) :: u32))"
      by (simp add: umoddi3_def umod64_def udiv64_div minus_mult_div_eq_mod)
    moreover have "ucast (ucast (n mod d) :: u32) = take_bit 32 (n mod d)"
      by (rule bit_word_eqI) (auto simp: bit_ucast_iff bit_take_bit_iff)
    ultimately show ?thesis using False by simp
  qed (simp add: umoddi3_def umod64_def udiv64_zero)
  show ?thesis by (simp add: u)
qed

end
