(* ===== verification/Stdlib.thy ===== *)
theory Stdlib
  imports CString "HOL-Library.Multiset"
begin

text \<open>
  \<^verbatim>\<open>lib/stdlib.c\<close>: parsing of decimal numbers, the heap sort behind \<^verbatim>\<open>qsort\<close> and the binary search behind
  \<^verbatim>\<open>bsearch\<close>. An array of \<open>cnt\<close> elements of \<open>size\<close> bytes each is the list of its bytes, indexed from its start;
  an access outside it stops the kernel. The comparison function (with its auxiliary data) is an argument
  that is applied to the bytes of two elements.
\<close>

section \<open>Numbers\<close>

definition isspace :: "u8 \<Rightarrow> bool" where
  "isspace c \<longleftrightarrow> c = 32 \<or> c = 12 \<or> c = 10 \<or> c = 13 \<or> c = 9 \<or> c = 11"

definition isdigit :: "u8 \<Rightarrow> bool" where
  "isdigit c \<longleftrightarrow> 48 \<le> c \<and> c \<le> 57"

partial_function (option) skip_space :: "nat \<Rightarrow> mem \<Rightarrow> nat option" where
  "skip_space s m = do { c \<leftarrow> m s; if isspace c then skip_space (s + 1) m else Some s }"

text \<open>Signed arithmetic that leaves the range of an \<^verbatim>\<open>int\<close> is undefined; it counts as stopping the kernel.\<close>

definition int_ok :: "int \<Rightarrow> bool" where
  "int_ok v \<longleftrightarrow> - (2 ^ 31) \<le> v \<and> v < 2 ^ 31"

partial_function (option) atoi_digits :: "nat \<Rightarrow> int \<Rightarrow> mem \<Rightarrow> int option" where
  "atoi_digits s v m = do {
     c \<leftarrow> m s;
     if isdigit c then do {
       ASSERT (int_ok (v * 10));
       ASSERT (int_ok (v * 10 - (int (unat c) - 48)));
       atoi_digits (s + 1) (v * 10 - (int (unat c) - 48)) m }
     else Some v }"

definition atoi :: "nat \<Rightarrow> mem \<Rightarrow> int option" where
  "atoi s m = do {
     ASSERT (s \<noteq> 0);
     s \<leftarrow> skip_space s m;
     c \<leftarrow> m s;
     let (negative, s) = (if c = 43 then (False, s + 1) else if c = 45 then (True, s + 1) else (False, s));
     v \<leftarrow> atoi_digits s 0 m;
     if \<not> negative then do { ASSERT (int_ok (- v)); Some (- v) } else Some v }"

section \<open>Sorting and searching\<close>

type_synonym cmp_fn = "u8 list \<Rightarrow> u8 list \<Rightarrow> int"

text \<open>The element with the 0-based index \<open>i\<close>.\<close>

definition elem :: "u8 list \<Rightarrow> nat \<Rightarrow> nat \<Rightarrow> u8 list" where
  "elem array esize i = segment array (i * esize) esize"

function do_swap_loop :: "u8 list \<Rightarrow> nat \<Rightarrow> nat \<Rightarrow> nat \<Rightarrow> nat \<Rightarrow> u8 list option" where
  "do_swap_loop array a b i esize =
     (if i < esize then do {
        t \<leftarrow> arr_get array (a + i);
        u \<leftarrow> arr_get array (b + i);
        array \<leftarrow> arr_set array (a + i) u;
        array \<leftarrow> arr_set array (b + i) t;
        do_swap_loop array a b (i + 1) esize }
      else Some array)"
  by pat_completeness auto
termination by (relation "measure (\<lambda>(array, a, b, i, esize). esize - i)") auto

declare do_swap_loop.simps [simp del]

definition do_swap :: "u8 list \<Rightarrow> nat \<Rightarrow> nat \<Rightarrow> nat \<Rightarrow> u8 list option" where
  "do_swap array a_idx b_idx esize = do_swap_loop array ((a_idx - 1) * esize) ((b_idx - 1) * esize) 0 esize"

definition do_compare :: "u8 list \<Rightarrow> nat \<Rightarrow> nat \<Rightarrow> nat \<Rightarrow> cmp_fn \<Rightarrow> int option" where
  "do_compare array a_idx b_idx esize compare =
     (if a_idx * esize \<le> length array \<and> b_idx * esize \<le> length array
      then Some (compare (elem array esize (a_idx - 1)) (elem array esize (b_idx - 1))) else None)"

partial_function (option) heapify :: "u8 list \<Rightarrow> nat \<Rightarrow> nat \<Rightarrow> nat \<Rightarrow> cmp_fn \<Rightarrow> u8 list option" where
  "heapify array i cnt esize compare = do {
     let left = sz (2 * i);
     let right = sz (2 * i + 1);
     let mx = i;
     mx \<leftarrow> (if left \<le> cnt then do { c \<leftarrow> do_compare array left mx esize compare; Some (if c > 0 then left else mx) } else Some mx);
     mx \<leftarrow> (if right \<le> cnt then do { c \<leftarrow> do_compare array right mx esize compare; Some (if c > 0 then right else mx) } else Some mx);
     if mx = i then Some array
     else do { array \<leftarrow> do_swap array i mx esize; heapify array mx cnt esize compare } }"

primrec build_heap :: "nat \<Rightarrow> u8 list \<Rightarrow> nat \<Rightarrow> nat \<Rightarrow> cmp_fn \<Rightarrow> u8 list option" where
  "build_heap 0 array cnt esize compare = Some array"
| "build_heap (Suc i) array cnt esize compare = do {
     array \<leftarrow> heapify array (Suc i) cnt esize compare;
     build_heap i array cnt esize compare }"

fun sort_heap :: "nat \<Rightarrow> u8 list \<Rightarrow> nat \<Rightarrow> cmp_fn \<Rightarrow> u8 list option" where
  "sort_heap i array esize compare =
     (if i > 1 then do {
        array \<leftarrow> do_swap array 1 i esize;
        array \<leftarrow> heapify array 1 (i - 1) esize compare;
        sort_heap (i - 1) array esize compare }
      else Some array)"

declare sort_heap.simps [simp del]

definition sort_array :: "u8 list \<Rightarrow> nat \<Rightarrow> nat \<Rightarrow> cmp_fn \<Rightarrow> u8 list option" where
  "sort_array array cnt esize compare = do {
     ASSERT (esize > 0);
     array \<leftarrow> build_heap (cnt div 2) array cnt esize compare;
     sort_heap cnt array esize compare }"

definition qsort :: "u8 list \<Rightarrow> nat \<Rightarrow> nat \<Rightarrow> cmp_fn \<Rightarrow> u8 list option" where
  "qsort array cnt esize compare = sort_array array cnt esize compare"

text \<open>\<open>first\<close> and \<open>lst\<close> are byte offsets into the array, as is the result; a null pointer is \<open>None\<close>.\<close>

partial_function (option) search_loop :: "u8 list \<Rightarrow> u8 list \<Rightarrow> nat \<Rightarrow> nat \<Rightarrow> nat \<Rightarrow> cmp_fn \<Rightarrow> nat option option" where
  "search_loop key array first lst esize compare =
     (if first < lst then do {
        let rng = (lst - first) div esize;
        let middle = first + rng div 2 * esize;
        ASSERT (middle + esize \<le> length array);
        let c = compare key (segment array middle esize);
        if c < 0 then search_loop key array first middle esize compare
        else if c > 0 then search_loop key array (middle + esize) lst esize compare
        else Some (Some middle) }
      else Some None)"

definition binary_search :: "u8 list \<Rightarrow> u8 list \<Rightarrow> nat \<Rightarrow> nat \<Rightarrow> cmp_fn \<Rightarrow> nat option option" where
  "binary_search key array cnt esize compare = search_loop key array 0 (esize * cnt) esize compare"

definition bsearch :: "u8 list \<Rightarrow> u8 list \<Rightarrow> nat \<Rightarrow> nat \<Rightarrow> cmp_fn \<Rightarrow> nat option option" where
  "bsearch key array cnt esize compare = binary_search key array cnt esize compare"

section \<open>Arrays as lists of elements\<close>

definition elems :: "u8 list \<Rightarrow> nat \<Rightarrow> nat \<Rightarrow> u8 list list" where
  "elems array esize cnt = map (elem array esize) [0..<cnt]"

definition swap :: "'a list \<Rightarrow> nat \<Rightarrow> nat \<Rightarrow> 'a list" where
  "swap xs i j = xs[i := xs ! j, j := xs ! i]"

lemma length_elems [simp]: "length (elems array esize cnt) = cnt"
  by (simp add: elems_def)

lemma length_swap [simp]: "length (swap xs i j) = length xs"
  by (simp add: swap_def)

lemma mset_swap_eq: "i < length xs \<Longrightarrow> j < length xs \<Longrightarrow> mset (swap xs i j) = mset xs"
  unfolding swap_def by (rule mset_swap)

lemma swap_nth: "i < length xs \<Longrightarrow> j < length xs \<Longrightarrow> k < length xs \<Longrightarrow>
   swap xs i j ! k = (if k = j then xs ! i else if k = i then xs ! j else xs ! k)"
  by (simp add: swap_def nth_list_update)

lemma elem_bound: "i < cnt \<Longrightarrow> i * esize + esize \<le> cnt * (esize :: nat)"
proof -
  assume "i < cnt"
  then have "(i + 1) * esize \<le> cnt * esize" by (intro mult_le_mono1) simp
  then show ?thesis by simp
qed

lemma length_elem: "length array = cnt * esize \<Longrightarrow> i < cnt \<Longrightarrow> length (elem array esize i) = esize"
  using elem_bound [of i cnt esize] by (simp add: elem_def)

lemma elem_nth: "length array = cnt * esize \<Longrightarrow> i < cnt \<Longrightarrow> k < esize \<Longrightarrow> elem array esize i ! k = array ! (i * esize + k)"
  using elem_bound [of i cnt esize] by (simp add: elem_def segment_nth)

lemma elems_nth [simp]: "i < cnt \<Longrightarrow> elems array esize cnt ! i = elem array esize i"
  by (simp add: elems_def)

lemma mset_swap_list: "i < length xs \<Longrightarrow> j < length xs \<Longrightarrow> mset (xs[i := xs ! j, j := xs ! i]) = mset xs"
  by (rule mset_swap)

text \<open>The byte loop of \<^verbatim>\<open>do_swap\<close> exchanges the two elements.\<close>

lemma do_swap_loop_ok:
  "k \<le> esize \<Longrightarrow> a + esize \<le> length array \<Longrightarrow> b + esize \<le> length array \<Longrightarrow> a + esize \<le> b \<or> b + esize \<le> a \<Longrightarrow>
   \<exists>array'. do_swap_loop array a b k esize = Some array' \<and> length array' = length array \<and>
     (\<forall>i < length array. array' ! i =
       (if a + k \<le> i \<and> i < a + esize then array ! (i - a + b)
        else if b + k \<le> i \<and> i < b + esize then array ! (i - b + a) else array ! i))"
proof (induction "esize - k" arbitrary: k array)
  case 0
  then show ?case by (subst do_swap_loop.simps) auto
next
  case (Suc n)
  then have k: "k < esize" by simp
  let ?A = "array[a + k := array ! (b + k), b + k := array ! (a + k)]"
  have "\<exists>array'. do_swap_loop ?A a b (Suc k) esize = Some array' \<and> length array' = length ?A \<and>
     (\<forall>i < length ?A. array' ! i =
       (if a + Suc k \<le> i \<and> i < a + esize then ?A ! (i - a + b)
        else if b + Suc k \<le> i \<and> i < b + esize then ?A ! (i - b + a) else ?A ! i))"
    using Suc.prems k Suc.hyps(2) by (intro Suc.hyps(1)) auto
  then obtain array' where A: "do_swap_loop ?A a b (Suc k) esize = Some array'" "length array' = length array"
    "\<And>i. i < length array \<Longrightarrow> array' ! i =
       (if a + Suc k \<le> i \<and> i < a + esize then ?A ! (i - a + b)
        else if b + Suc k \<le> i \<and> i < b + esize then ?A ! (i - b + a) else ?A ! i)" by auto
  have "do_swap_loop array a b k esize = Some array'"
    using Suc.prems k A(1) by (subst do_swap_loop.simps) (simp add: nth_list_update)
  moreover have "array' ! i =
       (if a + k \<le> i \<and> i < a + esize then array ! (i - a + b)
        else if b + k \<le> i \<and> i < b + esize then array ! (i - b + a) else array ! i)" if i: "i < length array" for i
  proof -
    consider "i = a + k" | "i = b + k" | "a + k < i" "i < a + esize" | "b + k < i" "i < b + esize"
      | "i \<noteq> a + k" "i \<noteq> b + k" "\<not> (a + k \<le> i \<and> i < a + esize)" "\<not> (b + k \<le> i \<and> i < b + esize)"
      using le_eq_less_or_eq by blast
    then show ?thesis
    proof cases
      case 1
      then show ?thesis unfolding A(3) [OF i] using Suc.prems k by (auto simp: nth_list_update add.commute)
    next
      case 2
      then show ?thesis unfolding A(3) [OF i] using Suc.prems k by (auto simp: nth_list_update add.commute)
    next
      case 3
      then have "?A ! (i - a + b) = array ! (i - a + b)" using Suc.prems k
        by (subst nth_list_update_neq, linarith)+ (rule refl)
      with 3 show ?thesis unfolding A(3) [OF i] by simp
    next
      case 4
      then have "?A ! (i - b + a) = array ! (i - b + a)" using Suc.prems k
        by (subst nth_list_update_neq, linarith)+ (rule refl)
      with 4 Suc.prems show ?thesis unfolding A(3) [OF i] by auto
    next
      case 5
      then show ?thesis unfolding A(3) [OF i] by auto
    qed
  qed
  ultimately show ?case using A(2) by blast
qed

lemma elem_apart: "x \<noteq> y \<Longrightarrow> x * n + n \<le> y * n \<or> y * n + n \<le> x * (n :: nat)"
  using elem_bound [of x y n] elem_bound [of y x n] by linarith

lemma elem_range: "k < n \<Longrightarrow> x * n \<le> y * n + k \<and> y * n + k < x * n + n \<longleftrightarrow> x = (y :: nat)"
  using elem_apart [of x y n] by (cases "x = y") (simp, linarith)

lemma do_swap_elems:
  assumes len: "length array = cnt * esize" and ij: "1 \<le> i" "i \<le> cnt" "1 \<le> j" "j \<le> cnt" "i \<noteq> j"
  shows "\<exists>array'. do_swap array i j esize = Some array' \<and> length array' = cnt * esize \<and>
    elems array' esize cnt = swap (elems array esize cnt) (i - 1) (j - 1)"
proof -
  let ?a = "(i - 1) * esize" and ?b = "(j - 1) * esize"
  have a: "?a + esize \<le> length array" using elem_bound [of "i - 1" cnt esize] assms by simp
  have b: "?b + esize \<le> length array" using elem_bound [of "j - 1" cnt esize] assms by simp
  have ne: "i - 1 \<noteq> j - 1" using ij by auto
  obtain array' where A: "do_swap_loop array ?a ?b 0 esize = Some array'" "length array' = length array"
    "\<And>x. x < length array \<Longrightarrow> array' ! x = (if ?a \<le> x \<and> x < ?a + esize then array ! (x - ?a + ?b)
        else if ?b \<le> x \<and> x < ?b + esize then array ! (x - ?b + ?a) else array ! x)"
    using do_swap_loop_ok [OF le0 a b elem_apart [OF ne]] by auto
  have "elem array' esize c = swap (elems array esize cnt) (i - 1) (j - 1) ! c" if c: "c < cnt" for c
  proof (rule nth_equalityI)
    have i': "i - 1 < cnt" "j - 1 < cnt" using ij by auto
    show l: "length (elem array' esize c) = length (swap (elems array esize cnt) (i - 1) (j - 1) ! c)"
      using c i' len A(2) by (simp add: swap_nth length_elem [of array cnt] length_elem [of array' cnt])
    fix k assume "k < length (elem array' esize c)"
    then have k: "k < esize" using c len A(2) by (simp add: length_elem [of array' cnt])
    then have x: "c * esize + k < length array" using elem_bound [OF c, of esize] len by simp
    have ra: "?a \<le> c * esize + k \<and> c * esize + k < ?a + esize \<longleftrightarrow> i - 1 = c"
      and rb: "?b \<le> c * esize + k \<and> c * esize + k < ?b + esize \<longleftrightarrow> j - 1 = c" using k by (rule elem_range)+
    have "elem array' esize c ! k = array' ! (c * esize + k)" using elem_nth [of array' cnt] c k len A(2) by simp
    also have "\<dots> = swap (elems array esize cnt) (i - 1) (j - 1) ! c ! k"
      unfolding A(3) [OF x] ra rb using c i' ne k len by (auto simp: swap_nth elem_nth [of array cnt] add.commute)
    finally show "elem array' esize c ! k = swap (elems array esize cnt) (i - 1) (j - 1) ! c ! k" .
  qed
  then have "elems array' esize cnt = swap (elems array esize cnt) (i - 1) (j - 1)" by (intro nth_equalityI) simp_all
  with A(1,2) len show ?thesis by (simp add: do_swap_def)
qed

section \<open>Heaps\<close>

text \<open>The contract of a comparison function: a total preorder, with the sign of the result reversed by exchanging the arguments.\<close>

definition cmp_ok :: "cmp_fn \<Rightarrow> bool" where
  "cmp_ok cmp \<longleftrightarrow> (\<forall>a b. cmp a b < 0 \<longleftrightarrow> cmp b a > 0) \<and> (\<forall>a b c. cmp a b \<le> 0 \<longrightarrow> cmp b c \<le> 0 \<longrightarrow> cmp a c \<le> 0)"

lemma cmp_refl: "cmp_ok cmp \<Longrightarrow> cmp a a \<le> 0"
  unfolding cmp_ok_def by (metis linorder_not_less order_less_asym)

lemma cmp_trans: "cmp_ok cmp \<Longrightarrow> cmp a b \<le> 0 \<Longrightarrow> cmp b c \<le> 0 \<Longrightarrow> cmp a c \<le> 0"
  unfolding cmp_ok_def by blast

lemma cmp_flip: "cmp_ok cmp \<Longrightarrow> 0 < cmp a b \<Longrightarrow> cmp b a \<le> 0"
  unfolding cmp_ok_def by (metis less_imp_le)

text \<open>
  \<open>heap_at e cmp lo cnt\<close>: among the first \<open>cnt\<close> elements (numbered from 1) every one whose parent is at least \<open>lo\<close>
  is not greater than its parent. \<open>heap_but\<close> leaves out the children of \<open>i\<close>, which are only compared with
  the parent of \<open>i\<close>.
\<close>

definition heap_at :: "(nat \<Rightarrow> u8 list) \<Rightarrow> cmp_fn \<Rightarrow> nat \<Rightarrow> nat \<Rightarrow> bool" where
  "heap_at e cmp lo cnt \<longleftrightarrow> (\<forall>j. 2 \<le> j \<and> j \<le> cnt \<and> lo \<le> j div 2 \<longrightarrow> cmp (e j) (e (j div 2)) \<le> 0)"

definition heap_but :: "(nat \<Rightarrow> u8 list) \<Rightarrow> cmp_fn \<Rightarrow> nat \<Rightarrow> nat \<Rightarrow> nat \<Rightarrow> bool" where
  "heap_but e cmp lo cnt i \<longleftrightarrow> (\<forall>j. 2 \<le> j \<and> j \<le> cnt \<and> lo \<le> j div 2 \<longrightarrow>
     (if j div 2 = i then lo \<le> i div 2 \<longrightarrow> cmp (e j) (e (i div 2)) \<le> 0 else cmp (e j) (e (j div 2)) \<le> 0))"

lemma heap_but_done:
  assumes "heap_but e cmp lo cnt i" and "\<And>j. 2 \<le> j \<Longrightarrow> j \<le> cnt \<Longrightarrow> j div 2 = i \<Longrightarrow> cmp (e j) (e i) \<le> 0"
  shows "heap_at e cmp lo cnt"
  using assms unfolding heap_but_def heap_at_def by metis

lemma heap_but_sift:
  assumes c: "cmp_ok cmp" and h: "heap_but e cmp lo cnt i" and i: "1 \<le> i" "lo \<le> i"
    and m: "m div 2 = i" "m \<le> cnt" "cmp (e i) (e m) \<le> 0"
    and mx: "\<And>j. 2 \<le> j \<Longrightarrow> j \<le> cnt \<Longrightarrow> j div 2 = i \<Longrightarrow> cmp (e j) (e m) \<le> 0"
  shows "heap_but (e(i := e m, m := e i)) cmp lo cnt m"
  unfolding heap_but_def
proof (intro allI impI)
  let ?e = "e(i := e m, m := e i)"
  fix j assume j: "2 \<le> j \<and> j \<le> cnt \<and> lo \<le> j div 2"
  have mi: "m \<noteq> i" "2 \<le> m" using m i by auto
  have hj: "if j div 2 = i then lo \<le> i div 2 \<longrightarrow> cmp (e j) (e (i div 2)) \<le> 0 else cmp (e j) (e (j div 2)) \<le> 0"
    using h j unfolding heap_but_def by blast
  show "if j div 2 = m then lo \<le> m div 2 \<longrightarrow> cmp (?e j) (?e (m div 2)) \<le> 0 else cmp (?e j) (?e (j div 2)) \<le> 0"
  proof (cases "j div 2 = m")
    case True
    then have "j \<noteq> m" "j \<noteq> i" "j div 2 \<noteq> i" using mi m i by auto
    with True hj mi m show ?thesis by simp
  next
    case False
    consider (m) "j = m" | (i) "j = i" | (sib) "j \<noteq> m" "j div 2 = i" | (other) "j \<noteq> m" "j \<noteq> i" "j div 2 \<noteq> i" by blast
    then show ?thesis
    proof cases
      case m
      then show ?thesis using mi assms(5) \<open>cmp (e i) (e m) \<le> 0\<close> False by simp
    next
      case i
      have "2 \<le> m \<and> m \<le> cnt \<and> lo \<le> m div 2" using mi m assms by simp
      then have "lo \<le> i div 2 \<longrightarrow> cmp (e m) (e (i div 2)) \<le> 0" using h m(1) unfolding heap_but_def by metis
      moreover have "j div 2 \<noteq> i" using i j by linarith
      ultimately show ?thesis using i j False mi by simp
    next
      case sib
      then have "j \<noteq> i" using j by auto
      then show ?thesis using sib mx [of j] j False by simp
    next
      case other
      then show ?thesis using hj False by simp
    qed
  qed
qed

lemma heap_but_cong:
  assumes "\<And>j. 1 \<le> j \<Longrightarrow> j \<le> cnt \<Longrightarrow> e j = e' j" and "1 \<le> lo"
  shows "heap_but e cmp lo cnt i \<longleftrightarrow> heap_but e' cmp lo cnt i"
proof -
  have "e j = e' j" "e (j div 2) = e' (j div 2)" if "2 \<le> j \<and> j \<le> cnt \<and> lo \<le> j div 2" for j
    using assms(1) [of j] assms(1) [of "j div 2"] that by auto
  moreover have "e (i div 2) = e' (i div 2)" if "2 \<le> j \<and> j \<le> cnt \<and> lo \<le> j div 2" "j div 2 = i" "lo \<le> i div 2" for j
    using assms(1) [of "i div 2"] assms(2) that by auto
  ultimately show ?thesis unfolding heap_but_def by (intro all_cong1 imp_cong refl) auto
qed

lemma heap_root:
  assumes "cmp_ok cmp" and "heap_at e cmp 1 cnt"
  shows "1 \<le> j \<Longrightarrow> j \<le> cnt \<Longrightarrow> cmp (e j) (e 1) \<le> 0"
proof (induction j rule: less_induct)
  case (less j)
  show ?case
  proof (cases "j = 1")
    case False
    then have "2 \<le> j" "1 \<le> j div 2" "j div 2 < j" using less.prems by auto
    then have "cmp (e j) (e (j div 2)) \<le> 0" and "cmp (e (j div 2)) (e 1) \<le> 0"
      using assms(2) less unfolding heap_at_def by auto
    then show ?thesis by (rule cmp_trans [OF assms(1)])
  qed (simp add: cmp_refl [OF assms(1)])
qed

section \<open>The sort\<close>

abbreviation nth1 :: "'a list \<Rightarrow> nat \<Rightarrow> 'a" where
  "nth1 xs \<equiv> \<lambda>j. xs ! (j - 1)"

definition largest :: "(nat \<Rightarrow> u8 list) \<Rightarrow> cmp_fn \<Rightarrow> nat \<Rightarrow> nat \<Rightarrow> nat" where
  "largest e cmp i cnt =
     (let m = (if 2 * i \<le> cnt \<and> cmp (e (2 * i)) (e i) > 0 then 2 * i else i)
      in if 2 * i + 1 \<le> cnt \<and> cmp (e (2 * i + 1)) (e m) > 0 then 2 * i + 1 else m)"

lemma largest_unfold:
  "m = (if 2 * i \<le> cnt \<and> cmp (e (2 * i)) (e i) > 0 then 2 * i else i) \<Longrightarrow>
   largest e cmp i cnt = (if 2 * i + 1 \<le> cnt \<and> cmp (e (2 * i + 1)) (e m) > 0 then 2 * i + 1 else m)"
  by (simp only: largest_def Let_def)

lemma largest_max:
  assumes c: "cmp_ok cmp" and i: "1 \<le> i"
  shows "cmp (e i) (e (largest e cmp i cnt)) \<le> 0"
    and "2 \<le> j \<Longrightarrow> j \<le> cnt \<Longrightarrow> j div 2 = i \<Longrightarrow> cmp (e j) (e (largest e cmp i cnt)) \<le> 0"
    and "largest e cmp i cnt \<noteq> i \<Longrightarrow> largest e cmp i cnt div 2 = i \<and> largest e cmp i cnt \<le> cnt"
proof -
  define m where "m = (if 2 * i \<le> cnt \<and> cmp (e (2 * i)) (e i) > 0 then 2 * i else i)"
  have L: "largest e cmp i cnt = (if 2 * i + 1 \<le> cnt \<and> cmp (e (2 * i + 1)) (e m) > 0 then 2 * i + 1 else m)"
    by (rule largest_unfold [where e = e and cmp = cmp, OF m_def])
  have im: "cmp (e i) (e m) \<le> 0" using cmp_refl [OF c] cmp_flip [OF c] by (auto simp: m_def)
  have lm: "cmp (e (2 * i)) (e m) \<le> 0" if "2 * i \<le> cnt" using that cmp_refl [OF c] by (auto simp: m_def)
  have mL: "cmp (e m) (e (largest e cmp i cnt)) \<le> 0" using cmp_refl [OF c] cmp_flip [OF c] by (auto simp: L)
  have rL: "cmp (e (2 * i + 1)) (e (largest e cmp i cnt)) \<le> 0" if "2 * i + 1 \<le> cnt"
    using that cmp_refl [OF c] by (auto simp: L)
  show "cmp (e i) (e (largest e cmp i cnt)) \<le> 0" using im mL by (rule cmp_trans [OF c])
  show "largest e cmp i cnt \<noteq> i \<Longrightarrow> largest e cmp i cnt div 2 = i \<and> largest e cmp i cnt \<le> cnt"
    by (auto simp: L m_def split: if_splits)
  assume j: "2 \<le> j" "j \<le> cnt" "j div 2 = i"
  then have "j = 2 * i \<or> j = 2 * i + 1" by presburger
  then show "cmp (e j) (e (largest e cmp i cnt)) \<le> 0"
    using rL cmp_trans [OF c lm mL] j(2) by auto
qed

lemma do_compare_ok:
  assumes "length array = n * esize" and "1 \<le> a" "a \<le> n" "1 \<le> b" "b \<le> n"
  shows "do_compare array a b esize cmp = Some (cmp (nth1 (elems array esize n) a) (nth1 (elems array esize n) b))"
  using assms by (simp add: do_compare_def mult_le_mono1)

lemma heapify_unfold:
  assumes len: "length array = n * esize" and "1 \<le> i" "i \<le> cnt" "cnt \<le> n" "2 * n + 1 < 2 ^ 32"
  shows "heapify array i cnt esize cmp =
    (let m = largest (nth1 (elems array esize n)) cmp i cnt in
     if m = i then Some array else do { array \<leftarrow> do_swap array i m esize; heapify array m cnt esize cmp })"
proof -
  let ?e = "nth1 (elems array esize n)"
  define m where "m = (if 2 * i \<le> cnt \<and> cmp (?e (2 * i)) (?e i) > 0 then 2 * i else i)"
  have m: "1 \<le> m" "m \<le> n" using assms by (auto simp: m_def)
  have s: "sz (2 * i) = 2 * i" "sz (2 * i + 1) = 2 * i + 1" using assms by simp_all
  have l: "(if 2 * i \<le> cnt then do { c \<leftarrow> do_compare array (2 * i) i esize cmp; Some (if c > 0 then 2 * i else i) } else Some i) = Some m"
    using assms by (simp add: do_compare_ok [OF len] m_def del: elems_nth)
  have r: "(if 2 * i + 1 \<le> cnt then do { c \<leftarrow> do_compare array (2 * i + 1) m esize cmp; Some (if c > 0 then 2 * i + 1 else m) } else Some m)
    = Some (largest ?e cmp i cnt)"
    using assms m unfolding largest_unfold [where e = ?e and cmp = cmp, OF m_def] by (simp add: do_compare_ok [OF len] del: elems_nth)
  show ?thesis unfolding heapify.simps [of array i] Let_def s l by (simp only: bind.bind_lunit r)
qed

text \<open>\<open>same_above\<close>: the elements after the first \<open>cnt\<close> have not moved.\<close>

definition same_above :: "nat \<Rightarrow> 'a list \<Rightarrow> 'a list \<Rightarrow> bool" where
  "same_above cnt xs ys \<longleftrightarrow> mset ys = mset xs \<and> drop cnt ys = drop cnt xs"

lemma same_above_refl: "same_above cnt xs xs"
  by (simp add: same_above_def)

lemma same_above_trans: "same_above cnt xs ys \<Longrightarrow> same_above cnt ys zs \<Longrightarrow> same_above cnt xs zs"
  by (simp add: same_above_def)

lemma same_above_mono: "same_above c xs ys \<Longrightarrow> c \<le> d \<Longrightarrow> same_above d xs ys"
  unfolding same_above_def by (metis drop_drop le_add_diff_inverse2)

lemma same_above_swap: "i < cnt \<Longrightarrow> j < cnt \<Longrightarrow> cnt \<le> length xs \<Longrightarrow> same_above cnt xs (swap xs i j)"
  unfolding same_above_def by (simp add: mset_swap_eq) (simp add: swap_def)

lemma same_above_set: "same_above cnt xs ys \<Longrightarrow> cnt \<le> length xs \<Longrightarrow> mset (take cnt ys) = mset (take cnt xs)"
proof -
  assume a: "same_above cnt xs ys"
  then have "mset (take cnt ys) + mset (drop cnt ys) = mset (take cnt xs) + mset (drop cnt xs)"
    unfolding same_above_def by (metis append_take_drop_id mset_append)
  with a show ?thesis by (simp add: same_above_def)
qed

lemma heapify_ok:
  assumes c: "cmp_ok cmp" and n: "cnt \<le> n" "2 * n + 1 < 2 ^ 32"
  shows "length array = n * esize \<Longrightarrow> 1 \<le> i \<Longrightarrow> i \<le> cnt \<Longrightarrow> lo \<le> i \<Longrightarrow> heap_but (nth1 (elems array esize n)) cmp lo cnt i \<Longrightarrow> 1 \<le> lo \<Longrightarrow>
    \<exists>array'. heapify array i cnt esize cmp = Some array' \<and> length array' = n * esize \<and>
      same_above cnt (elems array esize n) (elems array' esize n) \<and> heap_at (nth1 (elems array' esize n)) cmp lo cnt"
proof (induction "cnt - i" arbitrary: i array rule: less_induct)
  case less
  let ?e = "nth1 (elems array esize n)"
  let ?m = "largest ?e cmp i cnt"
  note big = largest_max [OF c less.prems(2), where e = ?e and cnt = cnt]
  have u: "heapify array i cnt esize cmp = (if ?m = i then Some array else do { array \<leftarrow> do_swap array i ?m esize; heapify array ?m cnt esize cmp })"
    using heapify_unfold [OF less.prems(1,2,3) n] by (simp add: Let_def)
  show ?case
  proof (cases "?m = i")
    case True
    have "heap_at ?e cmp lo cnt" using less.prems(5) big(2) unfolding True by (rule heap_but_done)
    then show ?thesis using u True less.prems(1) by (simp add: same_above_refl)
  next
    case False
    from big(3) [OF False] have m: "?m div 2 = i" "?m \<le> cnt" by simp_all
    then have im: "i < ?m" "1 \<le> ?m" using less.prems(2) by auto
    obtain A where A: "do_swap array i ?m esize = Some A" "length A = n * esize"
      "elems A esize n = swap (elems array esize n) (i - 1) (?m - 1)"
      using do_swap_elems [OF less.prems(1,2) _ im(2)] less.prems(3) m(2) n False by auto
    have e: "nth1 (elems A esize n) j = (?e(i := ?e ?m, ?m := ?e i)) j" if "1 \<le> j" "j \<le> n" for j
      using that less.prems(2,3) m(2) im n by (auto simp: A(3) swap_nth)
    have "heap_but (?e(i := ?e ?m, ?m := ?e i)) cmp lo cnt ?m"
      using c less.prems(5,2,4) m big(1,2) by (rule heap_but_sift)
    moreover have "heap_but (nth1 (elems A esize n)) cmp lo cnt ?m \<longleftrightarrow> heap_but (?e(i := ?e ?m, ?m := ?e i)) cmp lo cnt ?m"
      using n(1) less.prems(6) by (intro heap_but_cong e) simp_all
    ultimately have hb: "heap_but (nth1 (elems A esize n)) cmp lo cnt ?m" by blast
    have less_m: "cnt - ?m < cnt - i" using im m(2) by simp
    have lo_m: "lo \<le> ?m" using less.prems(4) im by simp
    obtain B where B: "heapify A ?m cnt esize cmp = Some B" "length B = n * esize"
      "same_above cnt (elems A esize n) (elems B esize n)" "heap_at (nth1 (elems B esize n)) cmp lo cnt"
      using less.hyps [OF less_m A(2) im(2) m(2) lo_m hb less.prems(6)] by blast
    have "same_above cnt (elems array esize n) (elems A esize n)"
      unfolding A(3) using less.prems(2,3) m(2) im n by (intro same_above_swap) auto
    with B A u False show ?thesis using same_above_trans by auto
  qed
qed

lemma build_heap_ok:
  assumes c: "cmp_ok cmp" and n: "2 * n + 1 < 2 ^ 32"
  shows "i \<le> n div 2 \<Longrightarrow> length array = n * esize \<Longrightarrow> heap_at (nth1 (elems array esize n)) cmp (Suc i) n \<Longrightarrow>
    \<exists>array'. build_heap i array n esize cmp = Some array' \<and> length array' = n * esize \<and>
      mset (elems array' esize n) = mset (elems array esize n) \<and> heap_at (nth1 (elems array' esize n)) cmp 1 n"
proof (induction i arbitrary: array)
  case (Suc i)
  have "heap_but (nth1 (elems array esize n)) cmp (Suc i) n (Suc i)"
    using Suc.prems(3) unfolding heap_but_def heap_at_def by (auto simp: le_Suc_eq)
  moreover have "Suc i \<le> n" using Suc.prems(1) by auto
  ultimately obtain A where A: "heapify array (Suc i) n esize cmp = Some A" "length A = n * esize"
    "same_above n (elems array esize n) (elems A esize n)" "heap_at (nth1 (elems A esize n)) cmp (Suc i) n"
    using heapify_ok [OF c order_refl n Suc.prems(2), of "Suc i" "Suc i"] by auto
  show ?case using Suc.IH [OF _ A(2,4)] A(1,3) Suc.prems(1) by (auto simp: same_above_def)
qed auto

text \<open>While the heap is taken apart: the elements from \<open>i\<close> on are in order and not less than those before.\<close>

definition sorted_above :: "cmp_fn \<Rightarrow> nat \<Rightarrow> u8 list list \<Rightarrow> bool" where
  "sorted_above cmp i xs \<longleftrightarrow> sorted_wrt (\<lambda>a b. cmp a b \<le> 0) (drop i xs) \<and>
     (\<forall>a \<in> set (take i xs). \<forall>b \<in> set (drop i xs). cmp a b \<le> 0)"

lemma sorted_above_step:
  assumes c: "cmp_ok cmp" and i: "1 \<le> i" "i < length xs" and s: "sorted_above cmp (Suc i) xs"
    and h: "heap_at (nth1 xs) cmp 1 (Suc i)"
  shows "sorted_above cmp i (swap xs 0 i)"
proof -
  let ?ys = "swap xs 0 i"
  have ys: "drop i ?ys = xs ! 0 # drop (Suc i) xs"
    using i by (simp add: swap_def Cons_nth_drop_Suc [symmetric])
  have x0: "xs ! 0 \<in> set (take (Suc i) xs)" using i by (auto simp: in_set_conv_nth intro!: exI [of _ 0])
  have sub: "set (take i ?ys) \<subseteq> set (take (Suc i) xs)"
  proof
    fix y assume "y \<in> set (take i ?ys)"
    then obtain k where k: "k < i" "y = ?ys ! k" using i by (auto simp: in_set_conv_nth)
    then have "y = xs ! (if k = 0 then i else k)" using i by (simp only:) (subst swap_nth, auto)
    moreover have "(if k = 0 then i else k) < length (take (Suc i) xs)" using k i by auto
    ultimately show "y \<in> set (take (Suc i) xs)" by (metis nth_mem nth_take length_take min_less_iff_conj)
  qed
  have root: "cmp y (xs ! 0) \<le> 0" if "y \<in> set (take (Suc i) xs)" for y
  proof -
    from that obtain k where "k < Suc i" "y = xs ! k" using i by (auto simp: in_set_conv_nth)
    then show ?thesis using heap_root [OF c h, of "Suc k"] by simp
  qed
  show ?thesis using s sub root x0 unfolding sorted_above_def ys by auto
qed

lemma sorted_above_perm:
  "sorted_above cmp i xs \<Longrightarrow> same_above i xs ys \<Longrightarrow> i \<le> length xs \<Longrightarrow> sorted_above cmp i ys"
  unfolding sorted_above_def using same_above_set [of i xs ys] by (auto simp: same_above_def dest: mset_eq_setD)

lemma heap_at_swap_root:
  assumes "heap_at (nth1 xs) cmp 1 (Suc i)" and "1 \<le> i" "i < length xs"
  shows "heap_but (nth1 (swap xs 0 i)) cmp 1 i 1"
  unfolding heap_but_def
proof (intro allI impI)
  fix j assume j: "2 \<le> j \<and> j \<le> i \<and> 1 \<le> j div 2"
  have e: "swap xs 0 i ! (k - 1) = xs ! (k - 1)" if "2 \<le> k" "k \<le> i" for k
    using that assms by (subst swap_nth) auto
  have "cmp (xs ! (j - 1)) (xs ! (j div 2 - 1)) \<le> 0" using assms(1) j unfolding heap_at_def by auto
  then show "if j div 2 = 1 then 1 \<le> 1 div (2::nat) \<longrightarrow> cmp (swap xs 0 i ! (j - 1)) (swap xs 0 i ! (1 div 2 - 1)) \<le> 0
    else cmp (swap xs 0 i ! (j - 1)) (swap xs 0 i ! (j div 2 - 1)) \<le> 0"
    using e [of j] e [of "j div 2"] j by auto
qed

lemma sort_heap_ok:
  assumes c: "cmp_ok cmp" and n: "2 * n + 1 < 2 ^ 32"
  shows "i \<le> n \<Longrightarrow> length array = n * esize \<Longrightarrow> heap_at (nth1 (elems array esize n)) cmp 1 i \<Longrightarrow>
    sorted_above cmp i (elems array esize n) \<Longrightarrow>
    \<exists>array'. sort_heap i array esize cmp = Some array' \<and> length array' = n * esize \<and>
      mset (elems array' esize n) = mset (elems array esize n) \<and>
      sorted_wrt (\<lambda>a b. cmp a b \<le> 0) (elems array' esize n)"
proof (induction i arbitrary: array)
  case 0
  then show ?case by (subst sort_heap.simps) (simp add: sorted_above_def)
next
  case (Suc i)
  let ?x = "elems array esize n"
  show ?case
  proof (cases "i = 0")
    case True
    then have "sorted_wrt (\<lambda>a b. cmp a b \<le> 0) ?x"
      using Suc.prems(1,4) by (cases ?x) (auto simp: sorted_above_def)
    then show ?thesis using Suc.prems(2) True by (subst sort_heap.simps) simp
  next
    case False
    then have i: "1 \<le> i" "i < length ?x" using Suc.prems(1) by auto
    obtain A where A: "do_swap array 1 (Suc i) esize = Some A" "length A = n * esize" "elems A esize n = swap ?x 0 i"
      using do_swap_elems [OF Suc.prems(2), of 1 "Suc i"] Suc.prems(1) i by auto
    have hb: "heap_but (nth1 (elems A esize n)) cmp 1 i 1"
      unfolding A(3) using Suc.prems(3) i by (rule heap_at_swap_root)
    obtain B where B: "heapify A 1 i esize cmp = Some B" "length B = n * esize"
      "same_above i (elems A esize n) (elems B esize n)" "heap_at (nth1 (elems B esize n)) cmp 1 i"
      using heapify_ok [OF c _ n A(2) order_refl i(1) order_refl hb order_refl] Suc.prems(1) by auto
    have "sorted_above cmp i (elems A esize n)" unfolding A(3) using c i Suc.prems(4,3) by (rule sorted_above_step)
    then have sB: "sorted_above cmp i (elems B esize n)" using B(3) i(2) by (auto intro: sorted_above_perm)
    have "mset (elems A esize n) = mset ?x" unfolding A(3) using i by (intro mset_swap_eq) auto
    then have mB: "mset (elems B esize n) = mset ?x" using B(3) by (simp add: same_above_def)
    have "sort_heap (Suc i) array esize cmp = sort_heap i B esize cmp"
      using A(1) B(1) i(1) by (subst sort_heap.simps) simp
    then show ?thesis using Suc.IH [OF _ B(2,4) sB] mB Suc.prems(1) by auto
  qed
qed

lemma sort_array_ok:
  assumes "cmp_ok cmp" and "2 * n + 1 < 2 ^ 32" and "length array = n * esize" and "0 < esize"
  shows "\<exists>array'. sort_array array n esize cmp = Some array' \<and> length array' = length array \<and>
    mset (elems array' esize n) = mset (elems array esize n) \<and> sorted_wrt (\<lambda>a b. cmp a b \<le> 0) (elems array' esize n)"
proof -
  have "heap_at (nth1 (elems array esize n)) cmp (Suc (n div 2)) n" by (auto simp: heap_at_def)
  then obtain A where A: "build_heap (n div 2) array n esize cmp = Some A" "length A = n * esize"
    "mset (elems A esize n) = mset (elems array esize n)" "heap_at (nth1 (elems A esize n)) cmp 1 n"
    using build_heap_ok [OF assms(1,2) order_refl assms(3)] by auto
  have "sorted_above cmp n (elems A esize n)" by (simp add: sorted_above_def)
  then show ?thesis using sort_heap_ok [OF assms(1,2) order_refl A(2,4)] A(1,3) assms(3,4) by (auto simp: sort_array_def)
qed

section \<open>The search\<close>

text \<open>
  The loop keeps: what is before \<open>first\<close> is less than the key and what is from \<open>lst\<close> on is greater; \<open>f\<close> and \<open>l\<close> are the element
  numbers of the two offsets.
\<close>

definition key_order :: "cmp_fn \<Rightarrow> u8 list \<Rightarrow> u8 list list \<Rightarrow> bool" where
  "key_order cmp key xs \<longleftrightarrow>
     (\<forall>i j. i < j \<and> j < length xs \<longrightarrow> (cmp key (xs ! i) \<le> 0 \<longrightarrow> cmp key (xs ! j) \<le> 0) \<and> (cmp key (xs ! i) < 0 \<longrightarrow> cmp key (xs ! j) < 0))"

lemma key_orderI:
  assumes c: "cmp_ok cmp" and s: "sorted_wrt (\<lambda>a b. cmp a b \<le> 0) xs"
  shows "key_order cmp key xs"
  unfolding key_order_def
proof (intro allI impI)
  fix i j assume ij: "i < j \<and> j < length xs"
  then have le: "cmp (xs ! i) (xs ! j) \<le> 0" using s by (simp add: sorted_wrt_iff_nth_less)
  have "cmp key (xs ! j) < 0" if "cmp key (xs ! i) < 0"
  proof (rule ccontr)
    assume "\<not> cmp key (xs ! j) < 0"
    then have "cmp (xs ! j) key \<le> 0" using c unfolding cmp_ok_def by (metis linorder_not_less)
    with le have "cmp (xs ! i) key \<le> 0" by (rule cmp_trans [OF c])
    with that c show False unfolding cmp_ok_def by (metis linorder_not_less)
  qed
  with cmp_trans [OF c _ le, of key]
  show "(cmp key (xs ! i) \<le> 0 \<longrightarrow> cmp key (xs ! j) \<le> 0) \<and> (cmp key (xs ! i) < 0 \<longrightarrow> cmp key (xs ! j) < 0)" by blast
qed

lemma search_loop_ok:
  assumes len: "length array = n * esize" and z: "0 < esize" and k: "key_order cmp key (elems array esize n)"
  shows "f \<le> n \<Longrightarrow> l \<le> n \<Longrightarrow> (\<forall>i < f. cmp key (elem array esize i) > 0) \<Longrightarrow> (\<forall>i. l \<le> i \<and> i < n \<longrightarrow> cmp key (elem array esize i) < 0) \<Longrightarrow>
    \<exists>r. search_loop key array (f * esize) (l * esize) esize cmp = Some r \<and>
      (case r of None \<Rightarrow> \<forall>i < n. cmp key (elem array esize i) \<noteq> 0
       | Some p \<Rightarrow> \<exists>i < n. p = i * esize \<and> cmp key (elem array esize i) = 0)"
proof (induction "l - f" arbitrary: f l rule: less_induct)
  case less
  let ?K = "\<lambda>i. cmp key (elem array esize i)"
  show ?case
  proof (cases "f < l")
    case False
    then have "cmp key (elem array esize i) \<noteq> 0" if "i < n" for i
    proof (cases "i < f")
      case True
      then have "?K i > 0" using less.prems(3) by blast
      then show ?thesis by simp
    next
      case i: False
      then have "?K i < 0" using less.prems(4) False that by simp
      then show ?thesis by simp
    qed
    moreover have "search_loop key array (f * esize) (l * esize) esize cmp = Some None"
      using False z by (subst search_loop.simps) simp
    ultimately show ?thesis by auto
  next
    case True
    let ?m = "f + (l - f) div 2"
    have m: "f \<le> ?m" "?m < l" using True by auto
    have K: "?K i \<le> 0 \<longrightarrow> ?K j \<le> 0" "?K i < 0 \<longrightarrow> ?K j < 0" if "i < j" "j < n" for i j
      using k that unfolding key_order_def by auto
    have rng: "(l * esize - f * esize) div esize = l - f" using z by (simp add: diff_mult_distrib [symmetric])
    have mid: "f * esize + (l - f) div 2 * esize = ?m * esize" by (rule distrib_right [symmetric])
    have bnd: "?m * esize + esize \<le> length array" "?m * esize + esize = Suc ?m * esize"
      using elem_bound [of ?m n esize] m less.prems(2) len by simp_all
    have fl: "f * esize < l * esize" using True z by simp
    have u: "search_loop key array (f * esize) (l * esize) esize cmp =
      (if ?K ?m < 0 then search_loop key array (f * esize) (?m * esize) esize cmp
       else if ?K ?m > 0 then search_loop key array (Suc ?m * esize) (l * esize) esize cmp
       else Some (Some (?m * esize)))"
      by (subst search_loop.simps) (simp only: Let_def rng mid ASSERT_bind if_P [OF fl] elem_def bnd(2) if_P [OF bnd(1) [unfolded bnd(2)]])
    show ?thesis
    proof (cases "?K ?m" "0::int" rule: linorder_cases)
      case less
      then have "\<forall>i. ?m \<le> i \<and> i < n \<longrightarrow> ?K i < 0" using K(2) [of ?m] by (metis le_eq_less_or_eq)
      then show ?thesis using u less "less.hyps" [of ?m f] "less.prems" m by auto
    next
      case equal
      have "?m < n" using m "less.prems"(2) by simp
      with equal u show ?thesis by auto
    next
      case greater
      have mn: "?m < n" using m "less.prems"(2) by simp
      have "?K i > 0" if "i < Suc ?m" for i
      proof (cases "i = ?m")
        case False
        then have "\<not> ?K i \<le> 0" using K(1) [of i ?m] greater mn that by simp
        then show ?thesis by simp
      qed (use greater in simp)
      then show ?thesis using u greater "less.hyps" [of l "Suc ?m"] "less.prems"(2,4) m mn by auto
    qed
  qed
qed

section \<open>Decimal numbers\<close>

fun digits :: "nat \<Rightarrow> nat list" where
  "digits n = (if n < 10 then [n] else digits (n div 10) @ [n mod 10])"

declare digits.simps [simp del]

definition digit_char :: "nat \<Rightarrow> u8" where
  "digit_char d = of_nat (48 + d)"

definition decimal :: "nat \<Rightarrow> u8 list" where
  "decimal n = map digit_char (digits n)"

lemma digits_small: "\<forall>d \<in> set (digits n). d < 10"
proof (induction n rule: digits.induct)
  case (1 n)
  then show ?case by (subst digits.simps) auto
qed

lemma digit_char_unat: "d < 10 \<Longrightarrow> unat (digit_char d) = 48 + d"
  unfolding digit_char_def unat_of_nat by simp

lemma digit_char_isdigit: "d < 10 \<Longrightarrow> isdigit (digit_char d)"
  by (simp add: isdigit_def word_le_nat_alt digit_char_unat)

definition parse_step :: "int \<Rightarrow> nat \<Rightarrow> int" where
  "parse_step v d = v * 10 - int d"

lemma parse_le: "v \<le> 0 \<Longrightarrow> foldl parse_step v ds \<le> v"
proof (induction ds arbitrary: v)
  case (Cons d ds)
  have "parse_step v d \<le> v" "parse_step v d \<le> 0" using Cons.prems by (auto simp: parse_step_def)
  then show ?case using Cons.IH [of "parse_step v d"] by simp
qed simp

lemma parse_digits: "foldl parse_step 0 (digits n) = - int n"
proof (induction n rule: digits.induct)
  case (1 n)
  show ?case
  proof (cases "n < 10")
    case True
    then show ?thesis by (subst digits.simps) (simp add: parse_step_def)
  next
    case False
    then have "foldl parse_step 0 (digits n) = parse_step (- int (n div 10)) (n mod 10)" using 1 by (subst digits.simps) simp
    also have "\<dots> = - int n" unfolding parse_step_def by (simp add: zdiv_int zmod_int minus_div_mult_eq_mod [symmetric])
    finally show ?thesis .
  qed
qed

lemma atoi_digits_ok:
  "cstr m a (map digit_char ds @ rest) \<Longrightarrow> \<forall>d \<in> set ds. d < 10 \<Longrightarrow> rest = [] \<or> \<not> isdigit (hd rest) \<Longrightarrow> v \<le> 0 \<Longrightarrow>
   - (2 ^ 31) \<le> foldl parse_step v ds \<Longrightarrow> atoi_digits a v m = Some (foldl parse_step v ds)"
proof (induction ds arbitrary: a v)
  case Nil
  then show ?case
    using cstr_end [of m a] cstr_step [of m a "hd rest" "tl rest"]
    by (subst atoi_digits.simps) (cases rest, auto simp: isdigit_def)
next
  case (Cons d ds)
  have m: "m a = Some (digit_char d)" "cstr m (Suc a) (map digit_char ds @ rest)"
    using cstr_step [of m a "digit_char d"] Cons.prems(1) by simp_all
  have d: "d < 10" using Cons.prems(2) by simp
  have "parse_step v d \<le> 0" using Cons.prems(4) by (simp add: parse_step_def)
  moreover have "foldl parse_step (parse_step v d) ds \<le> parse_step v d" using calculation by (rule parse_le)
  ultimately have "- (2 ^ 31) \<le> parse_step v d" "parse_step v d \<le> 0" using Cons.prems(5) by simp_all
  then have ok: "int_ok (v * 10)" "int_ok (parse_step v d)"
    using Cons.prems(4) by (auto simp: int_ok_def parse_step_def)
  have "atoi_digits (Suc a) (parse_step v d) m = Some (foldl parse_step (parse_step v d) ds)"
    using Cons.prems m(2) \<open>parse_step v d \<le> 0\<close> by (intro Cons.IH) simp_all
  moreover have "v * 10 - (int (unat (digit_char d)) - 48) = parse_step v d"
    using d by (simp add: parse_step_def digit_char_unat)
  ultimately show ?case using m(1) d ok by (subst atoi_digits.simps) (simp add: digit_char_isdigit)
qed

lemma skip_space_ok: "cstr m a (replicate k 32 @ s) \<Longrightarrow> s = [] \<or> \<not> isspace (hd s) \<Longrightarrow> skip_space a m = Some (a + k)"
proof (induction k arbitrary: a)
  case 0
  then show ?case using cstr_end [of m a] cstr_step [of m a "hd s" "tl s"]
    by (subst skip_space.simps) (cases s, auto simp: isspace_def)
next
  case (Suc k)
  then show ?case using cstr_step [of m a 32] by (subst skip_space.simps) (simp add: isspace_def)
qed

lemma atoi_ok:
  assumes s: "cstr m a (replicate k 32 @ sg @ decimal n @ rest)" and r: "rest = [] \<or> \<not> isdigit (hd rest)"
    and n: "sg = [] \<and> v = int n \<or> sg = [43] \<and> v = int n \<or> sg = [45] \<and> v = - int n" and v: "int_ok v"
  shows "atoi a m = Some v"
proof -
  obtain d ds where ds: "digits n = d # ds" by (cases "digits n") (auto simp: digits.simps [of n] split: if_splits)
  have d: "d < 10" using digits_small [of n] ds by simp
  have c: "\<not> isspace (hd (sg @ decimal n @ rest))"
  proof (cases "sg = []")
    case True
    have "\<not> isspace (digit_char d)" using digit_char_unat [OF d] by (auto simp: isspace_def)
    then show ?thesis using True by (simp add: decimal_def ds)
  qed (use n in \<open>auto simp: isspace_def\<close>)
  have sk: "skip_space a m = Some (a + k)" using s disjI2 [OF c] by (rule skip_space_ok)
  have s1: "cstr m (a + k) (sg @ decimal n @ rest)" using cstr_suffix [OF s] by simp
  have s2: "cstr m (a + k + length sg) (decimal n @ rest)" using cstr_suffix [OF s1] by simp
  have dg: "atoi_digits (a + k + length sg) 0 m = Some (- int n)"
    using s2 r v n atoi_digits_ok [of m "a + k + length sg" "digits n" rest 0]
    by (auto simp: decimal_def parse_digits digits_small int_ok_def)
  have a: "a \<noteq> 0" using s by (simp add: cstr_def)
  show ?thesis
  proof (cases "sg = []")
    case True
    have "m (a + k) = Some (digit_char d)" using cstr_step [of m "a + k" "digit_char d"] s1 True by (simp add: decimal_def ds)
    moreover have "digit_char d \<noteq> 43" "digit_char d \<noteq> 45" using digit_char_unat [OF d] by auto
    ultimately show ?thesis using a sk dg True n v by (auto simp: atoi_def)
  next
    case False
    then obtain x where x: "sg = [x]" using n by auto
    then have "m (a + k) = Some x" using cstr_step [of m "a + k" x] s1 by simp
    then show ?thesis using a sk dg x n v by (auto simp: atoi_def)
  qed
qed

section \<open>Properties\<close>

text \<open>
  C27: \<^verbatim>\<open>qsort\<close> sorts. For an array of fewer than \<open>2 ^ 31\<close> elements of any positive size and a comparison function that keeps its
  contract, the heap sort ends without an access outside the array, the elements of the result are a permutation of the
  elements given, and they are in nondecreasing order.
\<close>

theorem qsort_correct:
  assumes "cmp_ok compare" and "2 * cnt + 1 < 2 ^ 32" and "length array = cnt * n" and "0 < n"
  shows "\<exists>array'. qsort array cnt n compare = Some array' \<and> length array' = length array \<and>
    mset (elems array' n cnt) = mset (elems array n cnt) \<and> sorted_wrt (\<lambda>a b. compare a b \<le> 0) (elems array' n cnt)"
  unfolding qsort_def using assms by (rule sort_array_ok)

definition demo_cmp :: cmp_fn where
  "demo_cmp a b = int (unat (hd (a @ [0]))) - int (unat (hd (b @ [0])))"

lemma demo_cmp_ok: "cmp_ok demo_cmp"
  by (auto simp: cmp_ok_def demo_cmp_def)

theorem qsort_witness:
  "\<exists>array'. qsort [3, 7, 1, 7, 2, 7] 3 2 demo_cmp = Some array' \<and> sorted_wrt (\<lambda>a b. demo_cmp a b \<le> 0) (elems array' 2 3) \<and>
     mset (elems array' 2 3) = {#[3, 7], [1, 7], [2, 7]#}"
proof -
  have "mset (elems [3, 7, 1, 7, 2, 7] 2 3) = {#[3, 7], [1, 7], [2, 7 :: u8]#}"
    by (simp add: elems_def elem_def segment_def upt_rec numeral_2_eq_2 numeral_3_eq_3)
  then show ?thesis using qsort_correct [OF demo_cmp_ok, of 3 "[3, 7, 1, 7, 2, 7]" 2] by auto
qed

text \<open>
  \<^verbatim>\<open>bsearch\<close> finds. In an array that is in order the search ends, a result points to an element that compares equal to
  the key, and a null pointer is returned only when no element does.
\<close>

theorem bsearch_correct:
  assumes "cmp_ok compare" and "length array = cnt * n" and "0 < n" and "sorted_wrt (\<lambda>a b. compare a b \<le> 0) (elems array n cnt)"
  shows "\<exists>r. bsearch key array cnt n compare = Some r \<and>
    (case r of None \<Rightarrow> \<forall>i < cnt. compare key (elem array n i) \<noteq> 0
     | Some p \<Rightarrow> \<exists>i < cnt. p = i * n \<and> compare key (elem array n i) = 0)"
  using search_loop_ok [OF assms(2,3) key_orderI [OF assms(1,4)], of 0 cnt key] assms(2)
  by (simp add: bsearch_def binary_search_def mult.commute)

theorem bsearch_witness:
  "bsearch [2] [1, 7, 2, 7] 2 2 demo_cmp = Some (Some 2)"
proof -
  have e: "elems [1, 7, 2, 7] 2 2 = [[1, 7], [2, 7 :: u8]]" "elem [1, 7, 2, 7] 2 0 = [1, 7 :: u8]" "elem [1, 7, 2, 7] 2 1 = [2, 7 :: u8]"
    by (simp_all add: elems_def elem_def segment_def upt_rec numeral_2_eq_2)
  have c: "demo_cmp [2] [2, 7] = 0" "demo_cmp [2] [1, 7] \<noteq> 0" by (simp_all add: demo_cmp_def)
  have s: "sorted_wrt (\<lambda>a b. demo_cmp a b \<le> 0) (elems [1, 7, 2, 7] 2 2)" by (simp add: e demo_cmp_def)
  obtain r where "bsearch [2] [1, 7, 2, 7] 2 2 demo_cmp = Some r"
    "case r of None \<Rightarrow> \<forall>i < 2. demo_cmp [2] (elem [1, 7, 2, 7] 2 i) \<noteq> 0
     | Some p \<Rightarrow> \<exists>i < 2. p = i * 2 \<and> demo_cmp [2] (elem [1, 7, 2, 7] 2 i) = 0"
    using bsearch_correct [OF demo_cmp_ok _ _ s, of "[2]"] by auto
  then show ?thesis using e c by (cases r) (auto simp: less_2_cases_iff)
qed

text \<open>
  \<^verbatim>\<open>atoi\<close> reads back every number in the range of an \<^verbatim>\<open>int\<close> from its decimal representation, after any number of
  spaces, with an optional sign, up to the first character that is not a digit; \<^verbatim>\<open>INT_MIN\<close> is included and no
  intermediate value overflows.
\<close>

theorem atoi_decimal:
  assumes "cstr m a (replicate k 32 @ sg @ decimal n @ rest)" and "rest = [] \<or> \<not> isdigit (hd rest)"
    and "sg = [] \<and> v = int n \<or> sg = [43] \<and> v = int n \<or> sg = [45] \<and> v = - int n" and "- (2 ^ 31) \<le> v" and "v < 2 ^ 31"
  shows "atoi a m = Some v"
  using atoi_ok [OF assms(1,2,3)] assms(4,5) by (simp add: int_ok_def)

theorem atoi_witness:
  "atoi 1 [1 \<mapsto> 32, 2 \<mapsto> 45, 3 \<mapsto> 52, 4 \<mapsto> 50, 5 \<mapsto> 0] = Some (- 42)"
proof -
  have "decimal 42 = [52, 50]" by (simp add: decimal_def digits.simps digit_char_def)
  then have "cstr [1 \<mapsto> 32, 2 \<mapsto> 45, 3 \<mapsto> 52, 4 \<mapsto> 50, 5 \<mapsto> 0] 1 (replicate 1 32 @ [45] @ decimal 42 @ [])"
    by (auto simp: cstr_def block_at_def less_Suc_eq)
  from atoi_decimal [OF this, of "- 42"] show ?thesis by simp
qed

end
