(* ===== verification/Hash.thy ===== *)
theory Hash
  imports Prelude "HOL-Library.Multiset"
begin

text \<open>
  The chained hash table of \<^verbatim>\<open>lib/kernel/hash.c\<close>. A bucket is the list of the elements linked into it, front first;
  that the linked lists of \<^verbatim>\<open>lib/kernel/list.c\<close> behave as such lists is shown in \<open>Kernel_List\<close>. The hash and the
  comparison function of a table, with its auxiliary data, are arguments of the operations. \<open>mem\<close> says whether
  \<^verbatim>\<open>malloc\<close> returns memory for the new bucket array.
\<close>

section \<open>The table\<close>

record 'e hash =
  h_elem_cnt :: nat
  bucket_cnt :: nat
  buckets :: "'e list list"

type_synonym 'e hash_fn = "'e \<Rightarrow> u32"
type_synonym 'e hless_fn = "'e \<Rightarrow> 'e \<Rightarrow> bool"

definition hash_clear :: "('e \<Rightarrow> 's \<Rightarrow> 's option) option \<Rightarrow> 'e hash \<Rightarrow> 's \<Rightarrow> ('e hash \<times> 's) option" where
  "hash_clear destructor h s = do {
     s \<leftarrow> (case destructor of None \<Rightarrow> Some s | Some d \<Rightarrow> foldl (\<lambda>r e. r \<bind> d e) (Some s) (concat (buckets h)));
     Some (h\<lparr>h_elem_cnt := 0, buckets := replicate (bucket_cnt h) []\<rparr>, s) }"

definition hash_init :: "bool \<Rightarrow> (bool \<times> 'e hash) option" where
  "hash_init mem =
     (let h = \<lparr>h_elem_cnt = 0, bucket_cnt = 4, buckets = []\<rparr> in
      if mem then do { (h, _) \<leftarrow> hash_clear None h (); Some (True, h) } else Some (False, h))"

definition hash_destroy :: "('e \<Rightarrow> 's \<Rightarrow> 's option) option \<Rightarrow> 'e hash \<Rightarrow> 's \<Rightarrow> 's option" where
  "hash_destroy destructor h s = (if destructor \<noteq> None then map_option snd (hash_clear destructor h s) else Some s)"

definition find_bucket :: "'e hash_fn \<Rightarrow> 'e hash \<Rightarrow> 'e \<Rightarrow> nat option" where
  "find_bucket hf h e =
     (let idx = unat (hf e AND (of_nat (bucket_cnt h) - 1)) in if idx < length (buckets h) then Some idx else None)"

fun find_elem :: "'e hless_fn \<Rightarrow> 'e list \<Rightarrow> 'e \<Rightarrow> 'e option" where
  "find_elem lt [] e = None"
| "find_elem lt (hi # bucket) e = (if \<not> lt hi e \<and> \<not> lt e hi then Some hi else find_elem lt bucket e)"

definition insert_elem :: "nat \<Rightarrow> 'e \<Rightarrow> 'e hash \<Rightarrow> 'e hash" where
  "insert_elem b e h = h\<lparr>h_elem_cnt := sz (h_elem_cnt h + 1), buckets := (buckets h)[b := e # buckets h ! b]\<rparr>"

text \<open>Unlinking takes the element out of the bucket it is in.\<close>

definition remove_elem :: "'e \<Rightarrow> 'e hash \<Rightarrow> 'e hash" where
  "remove_elem e h = h\<lparr>h_elem_cnt := sz (h_elem_cnt h + (2 ^ 32 - 1)), buckets := map (remove1 e) (buckets h)\<rparr>"

definition turn_off_least_1bit :: "u32 \<Rightarrow> u32" where
  "turn_off_least_1bit x = x AND (x - 1)"

definition is_power_of_2 :: "u32 \<Rightarrow> bool" where
  "is_power_of_2 x \<longleftrightarrow> x \<noteq> 0 \<and> turn_off_least_1bit x = 0"

partial_function (option) round_to_power :: "u32 \<Rightarrow> u32 option" where
  "round_to_power x = (if \<not> is_power_of_2 x then round_to_power (turn_off_least_1bit x) else Some x)"

definition BEST_ELEMS_PER_BUCKET :: nat where "BEST_ELEMS_PER_BUCKET = 2"

text \<open>Moving one element into the new table: it is pushed to the front of its bucket.\<close>

definition rehash_move :: "'e hash_fn \<Rightarrow> 'e \<Rightarrow> 'e hash \<Rightarrow> 'e hash option" where
  "rehash_move hf e h = do { b \<leftarrow> find_bucket hf h e; Some (h\<lparr>buckets := (buckets h)[b := e # buckets h ! b]\<rparr>) }"

fun rehash_loop :: "'e hash_fn \<Rightarrow> 'e list \<Rightarrow> 'e hash \<Rightarrow> 'e hash option" where
  "rehash_loop hf [] h = Some h"
| "rehash_loop hf (e # es) h = do { h \<leftarrow> rehash_move hf e h; rehash_loop hf es h }"

definition rehash :: "'e hash_fn \<Rightarrow> bool \<Rightarrow> 'e hash \<Rightarrow> 'e hash option" where
  "rehash hf mem h = do {
     let new = h_elem_cnt h div BEST_ELEMS_PER_BUCKET;
     let new = (if new < 4 then 4 else new);
     new_bucket_cnt \<leftarrow> round_to_power (of_nat new);
     if unat new_bucket_cnt = bucket_cnt h then Some h
     else if \<not> mem then Some h
     else rehash_loop hf (concat (buckets h))
            (h\<lparr>bucket_cnt := unat new_bucket_cnt, buckets := replicate (unat new_bucket_cnt) []\<rparr>) }"

definition hash_insert :: "'e hash_fn \<Rightarrow> 'e hless_fn \<Rightarrow> bool \<Rightarrow> 'e \<Rightarrow> 'e hash \<Rightarrow> ('e option \<times> 'e hash) option" where
  "hash_insert hf lt mem new h = do {
     b \<leftarrow> find_bucket hf h new;
     let old = find_elem lt (buckets h ! b) new;
     let h = (if old = None then insert_elem b new h else h);
     h \<leftarrow> rehash hf mem h;
     Some (old, h) }"

definition hash_replace :: "'e hash_fn \<Rightarrow> 'e hless_fn \<Rightarrow> bool \<Rightarrow> 'e \<Rightarrow> 'e hash \<Rightarrow> ('e option \<times> 'e hash) option" where
  "hash_replace hf lt mem new h = do {
     b \<leftarrow> find_bucket hf h new;
     let old = find_elem lt (buckets h ! b) new;
     let h = (case old of None \<Rightarrow> h | Some e \<Rightarrow> remove_elem e h);
     let h = insert_elem b new h;
     h \<leftarrow> rehash hf mem h;
     Some (old, h) }"

definition hash_find :: "'e hash_fn \<Rightarrow> 'e hless_fn \<Rightarrow> 'e \<Rightarrow> 'e hash \<Rightarrow> 'e option option" where
  "hash_find hf lt e h = do { b \<leftarrow> find_bucket hf h e; Some (find_elem lt (buckets h ! b) e) }"

definition hash_delete :: "'e hash_fn \<Rightarrow> 'e hless_fn \<Rightarrow> bool \<Rightarrow> 'e \<Rightarrow> 'e hash \<Rightarrow> ('e option \<times> 'e hash) option" where
  "hash_delete hf lt mem e h = do {
     b \<leftarrow> find_bucket hf h e;
     case find_elem lt (buckets h ! b) e of
       None \<Rightarrow> Some (None, h)
     | Some found \<Rightarrow> do { h \<leftarrow> rehash hf mem (remove_elem found h); Some (Some found, h) } }"

definition hash_apply :: "('e \<Rightarrow> 's \<Rightarrow> 's option) \<Rightarrow> 'e hash \<Rightarrow> 's \<Rightarrow> 's option" where
  "hash_apply action h s = foldl (\<lambda>r e. r \<bind> action e) (Some s) (concat (buckets h))"

definition hash_size :: "'e hash \<Rightarrow> nat" where "hash_size h = h_elem_cnt h"

definition hash_empty :: "'e hash \<Rightarrow> bool" where "hash_empty h \<longleftrightarrow> h_elem_cnt h = 0"

text \<open>
  An iterator: the bucket it is in and its place there, 0 for the list head and \<open>k + 1\<close> for element \<open>k\<close>. The current
  element is \<open>None\<close> for a null pointer. The loop of \<^verbatim>\<open>hash_next\<close> skips the buckets that have no more elements.
\<close>

record hash_iterator =
  it_bucket :: nat
  it_elem :: nat

definition hash_first :: hash_iterator where
  "hash_first = \<lparr>it_bucket = 0, it_elem = 0\<rparr>"

definition hash_cur :: "'e hash \<Rightarrow> hash_iterator \<Rightarrow> 'e option" where
  "hash_cur h i = (if it_bucket i < bucket_cnt h \<and> 0 < it_elem i then Some (buckets h ! it_bucket i ! (it_elem i - 1)) else None)"

function hash_next_loop :: "'e hash \<Rightarrow> hash_iterator \<Rightarrow> hash_iterator" where
  "hash_next_loop h i =
     (if it_bucket i < bucket_cnt h \<and> it_elem i = length (buckets h ! it_bucket i) + 1
      then hash_next_loop h \<lparr>it_bucket = it_bucket i + 1, it_elem = 1\<rparr> else i)"
  by pat_completeness auto
termination by (relation "measure (\<lambda>(h, i). bucket_cnt h - it_bucket i)") auto

declare hash_next_loop.simps [simp del]

definition hash_next :: "'e hash \<Rightarrow> hash_iterator \<Rightarrow> 'e option \<times> hash_iterator" where
  "hash_next h i = (let i = hash_next_loop h (i\<lparr>it_elem := it_elem i + 1\<rparr>) in (hash_cur h i, i))"

section \<open>Hash functions\<close>

definition FNV_32_PRIME :: u32 where "FNV_32_PRIME = 16777619"

definition FNV_32_BASIS :: u32 where "FNV_32_BASIS = 2166136261"

definition hash_bytes :: "u8 list \<Rightarrow> u32" where
  "hash_bytes buf = foldl (\<lambda>h b. (h * FNV_32_PRIME) XOR ucast b) FNV_32_BASIS buf"

definition hash_string :: "u8 list \<Rightarrow> u32" where
  "hash_string s = foldl (\<lambda>h b. (h * FNV_32_PRIME) XOR ucast b) FNV_32_BASIS (takeWhile (\<lambda>c. c \<noteq> 0) s)"

text \<open>The bytes of a 32-bit value in memory, lowest first.\<close>

definition word_bytes :: "u32 \<Rightarrow> u8 list" where
  "word_bytes w = map (\<lambda>k. ucast (drop_bit (8 * k) w)) [0..<4]"

definition hash_int :: "u32 \<Rightarrow> u32" where
  "hash_int i = hash_bytes (word_bytes i)"

section \<open>The number of buckets\<close>

lemma and_pred_even: "0 < (y::nat) \<Longrightarrow> (2 * y) AND (2 * y - 1) = 2 * (y AND (y - 1))"
proof -
  assume "0 < y"
  then have "(2 * y - 1) div 2 = y - 1" "odd (2 * y - 1)" by auto
  then show ?thesis by (subst and_rec) simp
qed

lemma and_pred_odd: "odd (x::nat) \<Longrightarrow> x AND (x - 1) = x - 1"
proof -
  assume "odd x"
  then obtain y where x: "x = 2 * y + 1" by (elim oddE)
  have "(2 * y + 1) AND (2 * y) = 2 * (y AND y)" by (subst and_rec) simp
  then show ?thesis using x by simp
qed

lemma power_of_2_iff: "0 < x \<Longrightarrow> x AND (x - 1) = 0 \<Longrightarrow> \<exists>b. x = (2::nat) ^ b"
proof (induction x rule: less_induct)
  case (less x)
  show ?case
  proof (cases "even x")
    case True
    then obtain y where y: "x = 2 * y" by (elim evenE)
    then have "0 < y" "y < x" using less.prems by auto
    moreover have "y AND (y - 1) = 0" using less.prems y and_pred_even [of y] \<open>0 < y\<close> by simp
    ultimately obtain b where "y = 2 ^ b" using less.IH [of y] by auto
    then show ?thesis using y by (intro exI [of _ "Suc b"]) simp
  next
    case False
    then have "x = 1" using less.prems and_pred_odd [of x] by (auto elim: oddE)
    then show ?thesis by (intro exI [of _ 0]) simp
  qed
qed

lemma and_pred_ge_4:
  assumes "4 \<le> (x::nat)" and "x AND (x - 1) \<noteq> 0"
  shows "4 \<le> x AND (x - 1)"
proof (cases "even x")
  case True
  then obtain y where y: "x = 2 * y" by (elim evenE)
  then have e: "x AND (x - 1) = 2 * (y AND (y - 1))" using and_pred_even [of y] assms(1) by simp
  have "y AND (y - 1) \<noteq> 1"
  proof (cases "even y")
    case True
    then obtain z where "y = 2 * z" by (elim evenE)
    then show ?thesis using and_pred_even [of z] by (cases "z = 0") auto
  next
    case False
    then have "y \<noteq> 2" "y AND (y - 1) = y - 1" using and_pred_odd [of y] by auto
    then show ?thesis using y assms(1) by simp
  qed
  then show ?thesis using e assms(2) by auto
next
  case False
  then show ?thesis using and_pred_odd [of x] assms(1) by (auto elim: oddE)
qed

lemma turn_off_unat: "x \<noteq> 0 \<Longrightarrow> unat (turn_off_least_1bit x) = unat x AND (unat x - 1)"
  by (simp add: turn_off_least_1bit_def unsigned_and_eq unat_minus_one)

lemma turn_off_less: "x \<noteq> 0 \<Longrightarrow> unat (turn_off_least_1bit x) < unat x"
proof -
  assume x: "x \<noteq> 0"
  have "turn_off_least_1bit x \<le> x - 1" unfolding turn_off_least_1bit_def by (rule word_and_le1)
  then show ?thesis using x unat_gt_0 [of x] by (simp add: word_le_nat_alt unat_minus_one)
qed

text \<open>The loop that rounds the number of buckets down ends, at a power of two that is at least 4.\<close>

lemma round_to_power_ok:
  "4 \<le> unat x \<Longrightarrow> \<exists>y b. round_to_power x = Some y \<and> unat y = 2 ^ b \<and> 2 \<le> b \<and> b < 32 \<and> unat y \<le> unat x"
proof (induction "unat x" arbitrary: x rule: less_induct)
  case less
  have x: "x \<noteq> 0" using less.prems by auto
  show ?case
  proof (cases "is_power_of_2 x")
    case True
    then have "unat x AND (unat x - 1) = 0" using turn_off_unat [OF x] by (simp add: is_power_of_2_def)
    then obtain b where b: "unat x = 2 ^ b" using power_of_2_iff [of "unat x"] less.prems by auto
    have "2 ^ 2 \<le> (2::nat) ^ b" using less.prems b by simp
    then have "2 \<le> b" by (rule power_le_imp_le_exp [rotated]) simp
    moreover have "unat x < 2 ^ LENGTH(32)" by (rule unsigned_less)
    then have "(2::nat) ^ b < 2 ^ 32" using b by simp
    then have "b < 32" by (rule power_less_imp_less_exp [rotated]) simp
    ultimately show ?thesis using b True by (subst round_to_power.simps) auto
  next
    case False
    let ?y = "turn_off_least_1bit x"
    have "?y \<noteq> 0" using False x by (simp add: is_power_of_2_def)
    then have "unat ?y \<noteq> 0" by (metis unat_eq_zero)
    then have "4 \<le> unat ?y" unfolding turn_off_unat [OF x] by (rule and_pred_ge_4 [OF less.prems])
    then obtain y b where "round_to_power ?y = Some y" "unat y = 2 ^ b" "2 \<le> b" "b < 32" "unat y \<le> unat ?y"
      using less.hyps [OF turn_off_less [OF x]] by auto
    then show ?thesis using False turn_off_less [OF x] by (subst round_to_power.simps) auto
  qed
qed

section \<open>Well-formed tables\<close>

definition bucket_of :: "'e hash_fn \<Rightarrow> nat \<Rightarrow> 'e \<Rightarrow> nat" where
  "bucket_of hf cnt e = unat (hf e AND (of_nat cnt - 1))"

definition contents :: "'e hash \<Rightarrow> 'e list" where
  "contents h = concat (buckets h)"

text \<open>The number of buckets is a power of two, and every element is in the bucket its hash value selects.\<close>

definition placed :: "'e hash_fn \<Rightarrow> 'e hash \<Rightarrow> bool" where
  "placed hf h \<longleftrightarrow> (\<exists>b. 2 \<le> b \<and> b < 32 \<and> bucket_cnt h = 2 ^ b) \<and> length (buckets h) = bucket_cnt h \<and>
     (\<forall>i < bucket_cnt h. \<forall>e \<in> set (buckets h ! i). bucket_of hf (bucket_cnt h) e = i)"

definition hash_wf :: "'e hash_fn \<Rightarrow> ('e \<Rightarrow> 'k) \<Rightarrow> 'e hash \<Rightarrow> bool" where
  "hash_wf hf key h \<longleftrightarrow> placed hf h \<and> distinct (map key (contents h)) \<and>
     h_elem_cnt h = length (contents h) \<and> h_elem_cnt h < 2 ^ 32"

text \<open>The finite map a table stands for: from keys to the elements that have them.\<close>

definition hash_map :: "('e \<Rightarrow> 'k) \<Rightarrow> 'e hash \<Rightarrow> 'k \<rightharpoonup> 'e" where
  "hash_map key h = map_of (map (\<lambda>e. (key e, e)) (contents h))"

lemma bucket_of_less: "b < 32 \<Longrightarrow> bucket_of hf (2 ^ b) e < 2 ^ b"
proof -
  assume b: "b < 32"
  have "hf e AND (of_nat (2 ^ b) - 1) = take_bit b (hf e)" by (simp add: take_bit_eq_mask mask_eq_exp_minus_1)
  then show ?thesis by (simp add: bucket_of_def unsigned_take_bit_eq)
qed

lemma bucket_in_range: "placed hf h \<Longrightarrow> bucket_of hf (bucket_cnt h) e < length (buckets h)"
  using bucket_of_less [of _ hf e] by (auto simp: placed_def)

lemma find_bucket_ok: "placed hf h \<Longrightarrow> find_bucket hf h e = Some (bucket_of hf (bucket_cnt h) e)"
  using bucket_in_range [of hf h e] by (simp add: find_bucket_def bucket_of_def Let_def)

lemma placed_member:
  assumes "placed hf h" and "e \<in> set (contents h)"
  shows "e \<in> set (buckets h ! bucket_of hf (bucket_cnt h) e)"
proof -
  obtain i where "i < length (buckets h)" "e \<in> set (buckets h ! i)"
    using assms(2) by (auto simp: contents_def in_set_conv_nth [where xs = "buckets h"])
  with assms(1) show ?thesis by (auto simp: placed_def)
qed

lemma bucket_subset: "i < length (buckets h) \<Longrightarrow> set (buckets h ! i) \<subseteq> set (contents h)"
  unfolding contents_def set_concat using nth_mem by blast

text \<open>Pushing an element into its bucket.\<close>

lemma mset_push: "i < length bs \<Longrightarrow> mset (concat (bs[i := e # bs ! i])) = add_mset e (mset (concat bs))"
proof (induction bs arbitrary: i)
  case (Cons b bs)
  then show ?case by (cases i) auto
qed simp

lemma placed_push:
  assumes "placed hf h" and "b = bucket_of hf (bucket_cnt h) e"
  shows "placed hf (h\<lparr>buckets := (buckets h)[b := e # buckets h ! b]\<rparr>)"
proof -
  have "bucket_of hf (bucket_cnt h) x = i"
    if "i < bucket_cnt h" "x \<in> set ((buckets h)[b := e # buckets h ! b] ! i)" for i x
    using assms that by (cases "i = b") (auto simp: placed_def)
  then show ?thesis using assms(1) by (simp add: placed_def)
qed

lemma placed_cong: "bucket_cnt h = bucket_cnt h' \<Longrightarrow> buckets h = buckets h' \<Longrightarrow> placed hf h = placed hf h'"
  by (simp only: placed_def)

text \<open>Taking an element out of the table.\<close>

lemma concat_remove1: "distinct (concat bs) \<Longrightarrow> concat (map (remove1 e) bs) = remove1 e (concat bs)"
proof (induction bs)
  case (Cons b bs)
  show ?case
  proof (cases "e \<in> set b")
    case True
    then have "map (remove1 e) bs = bs" using Cons.prems by (intro map_idI remove1_idem) auto
    with True show ?thesis by (simp add: remove1_append)
  next
    case False
    then show ?thesis using Cons by (simp add: remove1_append remove1_idem)
  qed
qed simp

lemma placed_remove: "placed hf h \<Longrightarrow> placed hf (h\<lparr>buckets := map (remove1 e) (buckets h)\<rparr>)"
  using notin_set_remove1 by (fastforce simp: placed_def)

text \<open>Rehashing keeps the elements and puts each into its new bucket.\<close>

lemma rehash_loop_ok:
  "placed hf h \<Longrightarrow> \<exists>h'. rehash_loop hf es h = Some h' \<and> placed hf h' \<and> h_elem_cnt h' = h_elem_cnt h \<and>
     mset (contents h') = mset es + mset (contents h)"
proof (induction es arbitrary: h)
  case (Cons e es)
  let ?b = "bucket_of hf (bucket_cnt h) e"
  let ?h = "h\<lparr>buckets := (buckets h)[?b := e # buckets h ! ?b]\<rparr>"
  have "rehash_move hf e h = Some ?h" using find_bucket_ok [OF Cons.prems] by (simp add: rehash_move_def)
  moreover have "mset (contents ?h) = add_mset e (mset (contents h))"
    using mset_push [OF bucket_in_range [OF Cons.prems, of e]] by (simp add: contents_def)
  moreover have "placed hf ?h" by (rule placed_push [OF Cons.prems refl])
  ultimately show ?case using Cons.IH [of ?h] by auto
qed simp

lemma contents_empty [simp]: "contents (h\<lparr>bucket_cnt := n, buckets := replicate m []\<rparr>) = []"
  by (simp add: contents_def)

lemma rehash_ok:
  assumes "placed hf h" and "h_elem_cnt h < 2 ^ 32"
  shows "\<exists>h'. rehash hf mem h = Some h' \<and> placed hf h' \<and> h_elem_cnt h' = h_elem_cnt h \<and> mset (contents h') = mset (contents h)"
proof -
  let ?n = "if h_elem_cnt h div BEST_ELEMS_PER_BUCKET < 4 then 4 else h_elem_cnt h div BEST_ELEMS_PER_BUCKET"
  have n: "4 \<le> ?n" "?n < 2 ^ 32" using assms(2) by (auto simp: BEST_ELEMS_PER_BUCKET_def)
  then have "unat (of_nat ?n :: u32) = ?n" by (simp only: unat_of_nat) simp
  then obtain y b where y: "round_to_power (of_nat ?n) = Some y" "unat y = 2 ^ b" "2 \<le> b" "b < 32"
    using round_to_power_ok [of "of_nat ?n"] n(1) by auto
  let ?h = "h\<lparr>bucket_cnt := unat y, buckets := replicate (unat y) []\<rparr>"
  have "placed hf ?h" using y by (auto simp: placed_def)
  then obtain h' where h': "rehash_loop hf (concat (buckets h)) ?h = Some h'" "placed hf h'" "h_elem_cnt h' = h_elem_cnt h"
    "mset (contents h') = mset (contents h)"
    using rehash_loop_ok [of hf ?h "concat (buckets h)"] by (auto simp: contents_def)
  show ?thesis using assms(1) h' y(1) by (auto simp: rehash_def Let_def)
qed

section \<open>A table as a finite map\<close>

lemma map_of_keys: "distinct (map key es) \<Longrightarrow> map_of (map (\<lambda>e. (key e, e)) es) k = Some e \<longleftrightarrow> e \<in> set es \<and> key e = k"
  by (subst map_of_eq_Some_iff) (auto simp: comp_def)

lemma hash_map_Some: "hash_wf hf key h \<Longrightarrow> hash_map key h k = Some e \<longleftrightarrow> e \<in> set (contents h) \<and> key e = k"
  unfolding hash_map_def by (rule map_of_keys) (simp add: hash_wf_def)

lemma map_eqI: "(\<And>k e. m k = Some e \<longleftrightarrow> m' k = Some e) \<Longrightarrow> m = m'"
  by (rule ext) (metis option.exhaust)

text \<open>The contract of the two functions of a table: they see only a key of the element.\<close>

locale hash_keys =
  fixes hf :: "'e \<Rightarrow> u32" and lt :: "'e \<Rightarrow> 'e \<Rightarrow> bool" and key :: "'e \<Rightarrow> 'k :: linorder"
  assumes lt_key: "lt a b \<longleftrightarrow> key a < key b"
    and hash_key: "key a = key b \<Longrightarrow> hf a = hf b"
begin

lemma find_elem_Some: "find_elem lt es e = Some x \<Longrightarrow> x \<in> set es \<and> key x = key e"
  by (induction es) (auto simp: lt_key split: if_splits)

lemma find_elem_None: "find_elem lt es e = None \<longleftrightarrow> (\<forall>x \<in> set es. key x \<noteq> key e)"
  by (induction es) (auto simp: lt_key)

lemma find_elem_map:
  assumes wf: "hash_wf hf key h"
  shows "find_elem lt (buckets h ! bucket_of hf (bucket_cnt h) e) e = hash_map key h (key e)"
proof -
  let ?b = "bucket_of hf (bucket_cnt h) e"
  have p: "placed hf h" using wf by (simp add: hash_wf_def)
  have sub: "set (buckets h ! ?b) \<subseteq> set (contents h)" using bucket_in_range [OF p] by (rule bucket_subset)
  show ?thesis
  proof (cases "find_elem lt (buckets h ! ?b) e")
    case None
    have "hash_map key h (key e) \<noteq> Some x" for x
    proof
      assume "hash_map key h (key e) = Some x"
      then have x: "x \<in> set (contents h)" "key x = key e" using hash_map_Some [OF wf] by auto
      then have "x \<in> set (buckets h ! ?b)" using placed_member [OF p x(1)] hash_key [OF x(2)] by (simp add: bucket_of_def)
      with None x(2) show False using find_elem_None by blast
    qed
    with None show ?thesis by (metis not_None_eq)
  next
    case (Some x)
    then have "x \<in> set (contents h)" "key x = key e" using find_elem_Some sub by blast+
    then have "hash_map key h (key e) = Some x" using hash_map_Some [OF wf] by blast
    with Some show ?thesis by simp
  qed
qed

lemma wf_from_mset:
  assumes "placed hf h'" and "h_elem_cnt h' = length (contents h')" and "h_elem_cnt h' < 2 ^ 32"
    and "mset (contents h') = mset es" and "distinct (map key es)"
  shows "hash_wf hf key h' \<and> set (contents h') = set es"
proof -
  have "mset (map key (contents h')) = mset (map key es)" using assms(4) by simp
  then have "distinct (map key (contents h'))" using assms(5) mset_eq_imp_distinct_iff by blast
  then show ?thesis using assms mset_eq_setD [OF assms(4)] by (simp add: hash_wf_def)
qed

lemma hash_map_upd:
  assumes "hash_wf hf key h" and "hash_wf hf key h'" and "set (contents h') = insert e (set (contents h))"
    and "hash_map key h (key e) = None"
  shows "hash_map key h' = (hash_map key h)(key e \<mapsto> e)"
proof (rule map_eqI)
  fix k x
  have "x \<notin> set (contents h)" if "key x = key e" for x
    using hash_map_Some [OF assms(1)] assms(4) that by (metis option.distinct(1))
  then show "hash_map key h' k = Some x \<longleftrightarrow> ((hash_map key h)(key e \<mapsto> e)) k = Some x"
    using hash_map_Some [OF assms(1)] hash_map_Some [OF assms(2)] assms(3) by auto
qed

lemma hash_map_del:
  assumes "hash_wf hf key h" and "hash_wf hf key h'" and "set (contents h') = set (contents h) - {e}"
    and "hash_map key h (key e) = Some e"
  shows "hash_map key h' = (hash_map key h)(key e := None)"
proof (rule map_eqI)
  fix k x
  have "x = e" if "x \<in> set (contents h)" "key x = key e" for x
    using hash_map_Some [OF assms(1), of "key e"] assms(4) that by (metis option.inject)
  then show "hash_map key h' k = Some x \<longleftrightarrow> ((hash_map key h)(key e := None)) k = Some x"
    using hash_map_Some [OF assms(1)] hash_map_Some [OF assms(2)] assms(3) by auto
qed

lemma find_map: "hash_wf hf key h \<Longrightarrow> hash_find hf lt e h = Some (hash_map key h (key e))"
  by (simp add: hash_find_def find_bucket_ok hash_wf_def find_elem_map [unfolded hash_wf_def])

lemma rehash_map:
  assumes "placed hf h" and "h_elem_cnt h = length (contents h)" and "h_elem_cnt h < 2 ^ 32" and "distinct (map key (contents h))"
  obtains h' where "rehash hf mem h = Some h'" "hash_wf hf key h'" "set (contents h') = set (contents h)" "h_elem_cnt h' = h_elem_cnt h"
proof -
  obtain h' where h': "rehash hf mem h = Some h'" "placed hf h'" "h_elem_cnt h' = h_elem_cnt h" "mset (contents h') = mset (contents h)"
    using rehash_ok [OF assms(1,3)] by blast
  then have "h_elem_cnt h' = length (contents h')" using assms(2) mset_eq_length by metis
  then show ?thesis using that [OF h'(1) _ _ h'(3)] wf_from_mset [OF h'(2) _ _ h'(4) assms(4)] h'(3) assms(3) by metis
qed

text \<open>The table after an insertion without rehashing.\<close>

lemma insert_elem_ok:
  assumes wf: "hash_wf hf key h" and e: "\<forall>x \<in> set (contents h). key x \<noteq> key e" and n: "h_elem_cnt h + 1 < 2 ^ 32"
  defines "h' \<equiv> insert_elem (bucket_of hf (bucket_cnt h) e) e h"
  shows "placed hf h'" "h_elem_cnt h' = length (contents h')" "h_elem_cnt h' < 2 ^ 32" "distinct (map key (contents h'))"
    "set (contents h') = insert e (set (contents h))"
proof -
  let ?b = "bucket_of hf (bucket_cnt h) e"
  have p: "placed hf h" using wf by (simp add: hash_wf_def)
  have c: "mset (contents h') = add_mset e (mset (contents h))"
    using mset_push [OF bucket_in_range [OF p, of e], of e] by (simp add: h'_def insert_elem_def contents_def)
  show "placed hf h'" using placed_push [OF p refl, of e] by (rule placed_cong [THEN iffD1, rotated 2]) (simp_all add: h'_def insert_elem_def)
  show "h_elem_cnt h' = length (contents h')"
  proof -
    have "length (contents h') = length (contents h) + 1" using c by (metis Suc_eq_plus1 size_add_mset size_mset)
    moreover have "h_elem_cnt h' = sz (h_elem_cnt h + 1)" by (simp add: h'_def insert_elem_def)
    ultimately show ?thesis using n wf by (simp add: hash_wf_def)
  qed
  show "h_elem_cnt h' < 2 ^ 32" using sz_less [of "h_elem_cnt h + 1"] by (simp add: h'_def insert_elem_def)
  show s: "set (contents h') = insert e (set (contents h))" using c by (metis set_mset_add_mset_insert set_mset_mset)
  have "mset (map key (contents h')) = mset (map key (e # contents h))" using c by simp
  moreover have "distinct (map key (e # contents h))" using wf e by (auto simp: hash_wf_def)
  ultimately show "distinct (map key (contents h'))" using mset_eq_imp_distinct_iff by blast
qed

lemma remove_elem_ok:
  assumes wf: "hash_wf hf key h" and e: "e \<in> set (contents h)"
  shows "hash_wf hf key (remove_elem e h)" "set (contents (remove_elem e h)) = set (contents h) - {e}"
    "bucket_cnt (remove_elem e h) = bucket_cnt h" "h_elem_cnt (remove_elem e h) = h_elem_cnt h - 1"
proof -
  have d: "distinct (contents h)" using wf by (simp add: hash_wf_def distinct_map)
  then have c: "contents (remove_elem e h) = remove1 e (contents h)"
    by (simp add: contents_def remove_elem_def concat_remove1)
  have n: "h_elem_cnt h = length (contents h)" "0 < h_elem_cnt h" "h_elem_cnt h < 2 ^ 32"
    using wf e by (auto simp: hash_wf_def)
  show cnt: "h_elem_cnt (remove_elem e h) = h_elem_cnt h - 1" using n(2,3) by (simp add: remove_elem_def sz_def mod_if)
  show "set (contents (remove_elem e h)) = set (contents h) - {e}" using d by (simp add: c)
  show "bucket_cnt (remove_elem e h) = bucket_cnt h" by (simp add: remove_elem_def)
  have "placed hf (remove_elem e h)" using placed_remove [of hf h e] wf by (simp add: remove_elem_def placed_def hash_wf_def)
  moreover have "distinct (map key (remove1 e (contents h)))" using wf
    by (auto simp: hash_wf_def distinct_map intro: inj_on_subset)
  ultimately show "hash_wf hf key (remove_elem e h)"
    using cnt n e by (simp add: hash_wf_def c length_remove1)
qed

lemma insert_map:
  assumes wf: "hash_wf hf key h" and n: "h_elem_cnt h + 1 < 2 ^ 32"
  shows "\<exists>h'. hash_insert hf lt mem e h = Some (hash_map key h (key e), h') \<and> hash_wf hf key h' \<and>
    hash_map key h' = (if hash_map key h (key e) = None then (hash_map key h)(key e \<mapsto> e) else hash_map key h)"
proof (cases "hash_map key h (key e)")
  case None
  have p: "placed hf h" using wf by (simp add: hash_wf_def)
  have e: "\<forall>x \<in> set (contents h). key x \<noteq> key e" using hash_map_Some [OF wf] None by (metis option.distinct(1))
  note i = insert_elem_ok [OF wf e n]
  obtain h' where h': "rehash hf mem (insert_elem (bucket_of hf (bucket_cnt h) e) e h) = Some h'" "hash_wf hf key h'"
    "set (contents h') = insert e (set (contents h))"
    using rehash_map [OF i(1-4)] i(5) by metis
  then have "hash_insert hf lt mem e h = Some (None, h')"
    by (simp add: hash_insert_def find_bucket_ok [OF p] find_elem_map [OF wf] None)
  then show ?thesis using hash_map_upd [OF wf h'(2,3) None] h'(2) None by simp
next
  case (Some x)
  have p: "placed hf h" using wf by (simp add: hash_wf_def)
  obtain h' where h': "rehash hf mem h = Some h'" "hash_wf hf key h'" "set (contents h') = set (contents h)"
    using rehash_map [of h mem] wf unfolding hash_wf_def by metis
  then have "hash_insert hf lt mem e h = Some (Some x, h')"
    by (simp add: hash_insert_def find_bucket_ok [OF p] find_elem_map [OF wf] Some)
  moreover have "hash_map key h' = hash_map key h"
    using hash_map_Some [OF wf] hash_map_Some [OF h'(2)] h'(3) by (intro map_eqI) auto
  ultimately show ?thesis using h'(2) Some by simp
qed

lemma delete_map:
  assumes wf: "hash_wf hf key h"
  shows "\<exists>h'. hash_delete hf lt mem e h = Some (hash_map key h (key e), h') \<and> hash_wf hf key h' \<and>
    hash_map key h' = (hash_map key h)(key e := None)"
proof (cases "hash_map key h (key e)")
  case None
  have p: "placed hf h" using wf by (simp add: hash_wf_def)
  show ?thesis using wf None by (simp add: hash_delete_def find_bucket_ok [OF p] find_elem_map [OF wf] fun_upd_idem)
next
  case (Some x)
  have p: "placed hf h" using wf by (simp add: hash_wf_def)
  have x: "x \<in> set (contents h)" "key x = key e" using hash_map_Some [OF wf] Some by auto
  note r = remove_elem_ok [OF wf x(1)]
  obtain h' where h': "rehash hf mem (remove_elem x h) = Some h'" "hash_wf hf key h'" "set (contents h') = set (contents h) - {x}"
    using rehash_map [of "remove_elem x h" mem] r(1,2) unfolding hash_wf_def by metis
  then have "hash_delete hf lt mem e h = Some (Some x, h')"
    by (simp add: hash_delete_def find_bucket_ok [OF p] find_elem_map [OF wf] Some)
  moreover have "hash_map key h' = (hash_map key h)(key x := None)"
    using Some x(2) by (intro hash_map_del [OF wf h'(2,3)]) simp
  ultimately show ?thesis using h'(2) Some x(2) by simp
qed

lemma replace_map:
  assumes wf: "hash_wf hf key h" and n: "h_elem_cnt h + 1 < 2 ^ 32"
  shows "\<exists>h'. hash_replace hf lt mem e h = Some (hash_map key h (key e), h') \<and> hash_wf hf key h' \<and>
    hash_map key h' = (hash_map key h)(key e \<mapsto> e)"
proof -
  let ?old = "hash_map key h (key e)"
  define g where "g = (case ?old of None \<Rightarrow> h | Some x \<Rightarrow> remove_elem x h)"
  have p: "placed hf h" using wf by (simp add: hash_wf_def)
  have g: "hash_wf hf key g" "bucket_cnt g = bucket_cnt h" "h_elem_cnt g \<le> h_elem_cnt h" "hash_map key g = (hash_map key h)(key e := None)"
  proof -
    have "hash_wf hf key g \<and> bucket_cnt g = bucket_cnt h \<and> h_elem_cnt g \<le> h_elem_cnt h \<and> hash_map key g = (hash_map key h)(key e := None)"
    proof (cases ?old)
      case None
      then show ?thesis using wf by (simp add: g_def fun_upd_idem)
    next
      case (Some x)
      then have x: "x \<in> set (contents h)" "key x = key e" using hash_map_Some [OF wf] by auto
      note r = remove_elem_ok [OF wf x(1)]
      show ?thesis using r hash_map_del [OF wf r(1,2)] Some x(2) by (simp add: g_def)
    qed
    then show "hash_wf hf key g" "bucket_cnt g = bucket_cnt h" "h_elem_cnt g \<le> h_elem_cnt h" "hash_map key g = (hash_map key h)(key e := None)"
      by blast+
  qed
  have none: "hash_map key g (key e) = None" using g(4) by simp
  then have e: "\<forall>x \<in> set (contents g). key x \<noteq> key e" using hash_map_Some [OF g(1)] by (metis option.distinct(1))
  have "h_elem_cnt g + 1 < 2 ^ 32" using g(3) n by linarith
  note i = insert_elem_ok [OF g(1) e this]
  obtain h' where h': "rehash hf mem (insert_elem (bucket_of hf (bucket_cnt g) e) e g) = Some h'" "hash_wf hf key h'"
    "set (contents h') = insert e (set (contents g))"
    using rehash_map [OF i(1-4)] i(5) by metis
  then have "hash_replace hf lt mem e h = Some (?old, h')"
    by (simp add: hash_replace_def find_bucket_ok [OF p] find_elem_map [OF wf] g_def [symmetric] g(2))
  moreover have "hash_map key h' = (hash_map key h)(key e \<mapsto> e)"
    using hash_map_upd [OF g(1) h'(2,3) none] g(4) by simp
  ultimately show ?thesis using h'(2) by simp
qed

lemma init_map: "hash_init True = Some (True, h) \<Longrightarrow> hash_wf hf key h \<and> hash_map key h = Map.empty"
  by (auto simp: hash_init_def hash_clear_def hash_wf_def placed_def hash_map_def contents_def intro!: exI [of _ 2])

end

section \<open>Iteration\<close>

text \<open>What an iterator has still to visit.\<close>

definition ahead :: "'e hash \<Rightarrow> hash_iterator \<Rightarrow> 'e list" where
  "ahead h i = (if it_bucket i < bucket_cnt h then drop (it_elem i) (buckets h ! it_bucket i) @ concat (drop (it_bucket i + 1) (buckets h)) else [])"

fun visit :: "'e hash \<Rightarrow> nat \<Rightarrow> hash_iterator \<Rightarrow> 'e option list" where
  "visit h 0 i = []"
| "visit h (Suc n) i = (let (e, i) = hash_next h i in e # visit h n i)"

lemma hash_next_ahead:
  "length (buckets h) = bucket_cnt h \<Longrightarrow> it_bucket i < bucket_cnt h \<Longrightarrow> it_elem i \<le> length (buckets h ! it_bucket i) \<Longrightarrow>
   case ahead h i of
     [] \<Rightarrow> fst (hash_next h i) = None
   | e # es \<Rightarrow> fst (hash_next h i) = Some e \<and> ahead h (snd (hash_next h i)) = es \<and>
       it_bucket (snd (hash_next h i)) < bucket_cnt h \<and> it_elem (snd (hash_next h i)) \<le> length (buckets h ! it_bucket (snd (hash_next h i)))"
proof (induction "bucket_cnt h - it_bucket i" arbitrary: i rule: less_induct)
  case less
  let ?b = "it_bucket i" and ?k = "it_elem i"
  let ?j = "i\<lparr>it_elem := ?k + 1\<rparr>"
  show ?case
  proof (cases "?k = length (buckets h ! ?b)")
    case False
    then have k: "?k < length (buckets h ! ?b)" using less.prems by simp
    have "hash_next_loop h ?j = ?j" using k by (subst hash_next_loop.simps) simp
    then have "hash_next h i = (Some (buckets h ! ?b ! ?k), ?j)"
      using less.prems(2) by (simp add: hash_next_def hash_cur_def Let_def)
    moreover have "ahead h i = (buckets h ! ?b ! ?k) # ahead h ?j"
      using less.prems(2) k by (simp add: ahead_def Cons_nth_drop_Suc)
    ultimately show ?thesis using k less.prems(2) by simp
  next
    case True
    let ?i = "\<lparr>it_bucket = ?b + 1, it_elem = 0\<rparr>"
    have l: "hash_next_loop h ?j = hash_next_loop h \<lparr>it_bucket = ?b + 1, it_elem = 1\<rparr>"
      using True less.prems(2) by (subst hash_next_loop.simps) simp
    then have n: "hash_next h i = hash_next h ?i" by (simp add: hash_next_def)
    show ?thesis
    proof (cases "?b + 1 < bucket_cnt h")
      case last: True
      have a: "ahead h i = ahead h ?i"
        using True last less.prems(1,2) by (simp add: ahead_def Cons_nth_drop_Suc [symmetric])
      show ?thesis unfolding n a by (rule less.hyps) (use less.prems(1) last in simp_all)
    next
      case last: False
      then have "ahead h i = []" using True less.prems(1) by (simp add: ahead_def)
      moreover have "hash_next_loop h \<lparr>it_bucket = ?b + 1, it_elem = 1\<rparr> = \<lparr>it_bucket = ?b + 1, it_elem = 1\<rparr>"
        using last by (subst hash_next_loop.simps) simp
      ultimately show ?thesis using last n l by (simp add: hash_next_def hash_cur_def Let_def)
    qed
  qed
qed

lemma visit_ahead:
  "length (buckets h) = bucket_cnt h \<Longrightarrow> it_bucket i < bucket_cnt h \<Longrightarrow> it_elem i \<le> length (buckets h ! it_bucket i) \<Longrightarrow>
   visit h (length (ahead h i) + 1) i = map Some (ahead h i) @ [None]"
proof (induction "length (ahead h i)" arbitrary: i)
  case 0
  then show ?case using hash_next_ahead [OF "0.prems"] by (simp add: case_prod_beta)
next
  case (Suc n)
  then obtain e es where es: "ahead h i = e # es" by (metis length_Suc_conv)
  have "visit h (length (ahead h (snd (hash_next h i))) + 1) (snd (hash_next h i)) = map Some (ahead h (snd (hash_next h i))) @ [None]"
    using hash_next_ahead [OF Suc.prems] es Suc.hyps(2) Suc.prems(1) by (intro Suc.hyps(1)) auto
  then show ?case using hash_next_ahead [OF Suc.prems] es by (simp add: case_prod_beta Let_def)
qed

lemma ahead_first: "placed hf h \<Longrightarrow> ahead h hash_first = contents h"
  by (cases "buckets h") (auto simp: placed_def ahead_def hash_first_def contents_def)

lemma visit_contents: "placed hf h \<Longrightarrow> visit h (length (contents h) + 1) hash_first = map Some (contents h) @ [None]"
proof -
  assume p: "placed hf h"
  then have pos: "0 < length (buckets h)" "length (buckets h) = bucket_cnt h" by (auto simp: placed_def)
  then show ?thesis using ahead_first [OF p] visit_ahead [of h hash_first] pos by (simp add: hash_first_def)
qed

section \<open>Properties\<close>

text \<open>
  C19: a hash table is a finite map. When the comparison function compares a key of the elements and the hash function
  depends on that key only, the lookup, insertion, replacement and deletion in a well-formed table return, whether or not there
  is memory for a new bucket array, keep the table well-formed, and do on the map from keys to elements what they
  say: \<^verbatim>\<open>hash_insert\<close> adds an element unless its key is there, \<^verbatim>\<open>hash_replace\<close> always, \<^verbatim>\<open>hash_delete\<close> removes,
  and each returns the element that was there before.
\<close>

theorem hash_table_is_map:
  fixes key :: "'e \<Rightarrow> 'k :: linorder"
  assumes lt: "\<And>a b. lt a b \<longleftrightarrow> key a < key b" and hf: "\<And>a b. key a = key b \<Longrightarrow> hf a = hf b"
    and wf: "hash_wf hf key h" and n: "h_elem_cnt h + 1 < 2 ^ 32"
  shows "hash_find hf lt e h = Some (hash_map key h (key e)) \<and>
    (\<exists>h'. hash_insert hf lt mem e h = Some (hash_map key h (key e), h') \<and> hash_wf hf key h' \<and>
       hash_map key h' = (if hash_map key h (key e) = None then (hash_map key h)(key e \<mapsto> e) else hash_map key h)) \<and>
    (\<exists>h'. hash_replace hf lt mem e h = Some (hash_map key h (key e), h') \<and> hash_wf hf key h' \<and>
       hash_map key h' = (hash_map key h)(key e \<mapsto> e)) \<and>
    (\<exists>h'. hash_delete hf lt mem e h = Some (hash_map key h (key e), h') \<and> hash_wf hf key h' \<and>
       hash_map key h' = (hash_map key h)(key e := None))"
proof -
  have k: "hash_keys hf lt key" using lt hf by (rule hash_keys.intro)
  show ?thesis
    by (intro conjI hash_keys.find_map [OF k wf] hash_keys.insert_map [OF k wf n] hash_keys.replace_map [OF k wf n] hash_keys.delete_map [OF k wf])
qed

definition demo_hash :: "u32 hash" where
  "demo_hash = \<lparr>h_elem_cnt = 0, bucket_cnt = 4, buckets = [[], [], [], []]\<rparr>"

lemma demo_hash_wf: "hash_wf hash_int unat demo_hash"
proof -
  have "placed hash_int demo_hash"
    unfolding placed_def demo_hash_def by (auto simp: less_Suc_eq eval_nat_numeral intro!: exI [of _ 2])
  then show ?thesis by (simp add: hash_wf_def demo_hash_def contents_def)
qed

theorem hash_table_is_map_witness:
  "\<exists>h'. hash_insert hash_int (\<lambda>a b. unat a < unat b) True 7 demo_hash = Some (None, h') \<and> hash_map unat h' = [7 \<mapsto> 7]"
proof -
  have e: "hash_map unat demo_hash = Map.empty" by (simp add: hash_map_def contents_def demo_hash_def)
  have n: "h_elem_cnt demo_hash + 1 < 2 ^ 32" by (simp add: demo_hash_def)
  have "\<exists>h'. hash_insert hash_int (\<lambda>a b. unat a < unat b) True 7 demo_hash = Some (hash_map unat demo_hash (unat (7 :: u32)), h') \<and>
    hash_wf hash_int unat h' \<and> hash_map unat h' = (if hash_map unat demo_hash (unat (7 :: u32)) = None
      then (hash_map unat demo_hash)(unat (7 :: u32) \<mapsto> 7) else hash_map unat demo_hash)"
    by (rule hash_table_is_map [OF refl _ demo_hash_wf n, THEN conjunct2, THEN conjunct1]) (drule unsigned_word_eqI, simp)
  then show ?thesis by (auto simp: e)
qed

text \<open>
  an iterator visits every element of a table once. Calling \<^verbatim>\<open>hash_next\<close> on a well-formed table after \<^verbatim>\<open>hash_first\<close>
  returns the elements of all buckets in turn, none left out and none repeated, and then a null pointer.
\<close>

theorem hash_iteration_complete:
  assumes "hash_wf hf key h"
  shows "visit h (hash_size h + 1) hash_first = map Some (contents h) @ [None] \<and> distinct (contents h) \<and>
    set (contents h) = ran (hash_map key h)"
proof -
  have "ran (hash_map key h) = set (contents h)" using hash_map_Some [OF assms] by (auto simp: ran_def)
  then show ?thesis using visit_contents [of hf h] assms by (auto simp: hash_wf_def hash_size_def distinct_map)
qed

definition demo_hash2 :: "u32 hash" where
  "demo_hash2 = \<lparr>h_elem_cnt = 2, bucket_cnt = 4, buckets = [[], [1], [], [3]]\<rparr>"

theorem hash_iteration_witness:
  "visit demo_hash2 3 hash_first = [Some 1, Some 3, None] \<and> hash_wf id unat demo_hash2"
proof -
  have "placed id demo_hash2"
  proof -
    have four: "i < 4 \<Longrightarrow> i = 0 \<or> i = 1 \<or> i = 2 \<or> i = 3" for i :: nat by auto
    show ?thesis unfolding placed_def demo_hash2_def bucket_of_def by (auto intro!: exI [of _ 2] dest!: four)
  qed
  then have w: "hash_wf id unat demo_hash2" by (simp add: hash_wf_def demo_hash2_def contents_def)
  have "hash_size demo_hash2 + 1 = 3" "contents demo_hash2 = [1, 3]" by (simp_all add: hash_size_def contents_def demo_hash2_def)
  then show ?thesis using hash_iteration_complete [OF w] w by simp
qed

text \<open>
  the loop of \<^verbatim>\<open>rehash\<close> that rounds the number of buckets to a power of two terminates for every starting value
  of at least 4, which \<^verbatim>\<open>rehash\<close> ensures, and its result is a power of two between 4 and the starting value.
\<close>

theorem rehash_rounding_terminates:
  assumes "4 \<le> unat x"
  shows "\<exists>y b. round_to_power x = Some y \<and> unat y = 2 ^ b \<and> 4 \<le> unat y \<and> unat y \<le> unat x"
proof -
  obtain y b where y: "round_to_power x = Some y" "unat y = 2 ^ b" "2 \<le> b" "unat y \<le> unat x"
    using round_to_power_ok [OF assms] by blast
  have "(2::nat) ^ 2 \<le> 2 ^ b" using y(3) by (intro power_increasing) simp_all
  with y show ?thesis by auto
qed

theorem rehash_rounding_witness:
  "\<exists>y b. round_to_power 100 = Some y \<and> unat y = 2 ^ b \<and> 4 \<le> unat y \<and> unat y \<le> 100"
  using rehash_rounding_terminates [of 100] by simp

end
