(* ===== verification/Palloc.thy ===== *)
theory Palloc
  imports Bitmap Threads
begin

text \<open>
  The page allocator, \<^verbatim>\<open>threads/palloc.c\<close>: two pools of pages, each with a bitmap of the pages in use. Addresses are
  natural numbers below \<open>2 ^ 32\<close>; \<open>ram\<close> is the contents of the kernel's memory. The lock of a pool is a flag, which has
  to be free when it is acquired.
\<close>

section \<open>Addresses (threads/vaddr.h)\<close>

definition PGBITS :: nat where "PGBITS = 12"

definition pg_ofs :: "nat \<Rightarrow> nat" where "pg_ofs va = va mod 2 ^ PGBITS"

definition pg_no :: "nat \<Rightarrow> nat" where "pg_no va = va div 2 ^ PGBITS"

definition pg_round_down :: "nat \<Rightarrow> nat" where "pg_round_down va = va - va mod 2 ^ PGBITS"

definition pg_round_up :: "nat \<Rightarrow> nat" where "pg_round_up va = pg_round_down (sz (va + (PGSIZE - 1)))"

definition PHYS_BASE :: nat where "PHYS_BASE = 0xc0000000"

definition is_user_vaddr :: "nat \<Rightarrow> bool" where "is_user_vaddr va \<longleftrightarrow> va < PHYS_BASE"

definition is_kernel_vaddr :: "nat \<Rightarrow> bool" where "is_kernel_vaddr va \<longleftrightarrow> PHYS_BASE \<le> va"

definition ptov :: "nat \<Rightarrow> nat option" where
  "ptov paddr = do { ASSERT (paddr < PHYS_BASE); Some (sz (paddr + PHYS_BASE)) }"

definition vtop :: "nat \<Rightarrow> nat option" where
  "vtop va = do { ASSERT (is_kernel_vaddr va); Some (va - PHYS_BASE) }"

section \<open>Pools\<close>

record pool =
  pool_lock :: bool
  used_map :: bitmap
  pool_base :: nat

record palloc =
  kernel_pool :: pool
  user_pool :: pool
  ram :: "nat \<Rightarrow> u8"

type_synonym palloc_flags = u32

definition PAL_ASSERT :: palloc_flags where "PAL_ASSERT = 1"
definition PAL_ZERO :: palloc_flags where "PAL_ZERO = 2"
definition PAL_USER :: palloc_flags where "PAL_USER = 4"

definition fill :: "nat \<Rightarrow> u8 \<Rightarrow> nat \<Rightarrow> palloc \<Rightarrow> palloc" where
  "fill a v n s = s\<lparr>ram := (\<lambda>x. if a \<le> x \<and> x < a + n then v else ram s x)\<rparr>"

definition set_pool :: "bool \<Rightarrow> pool \<Rightarrow> palloc \<Rightarrow> palloc" where
  "set_pool user p s = (if user then s\<lparr>user_pool := p\<rparr> else s\<lparr>kernel_pool := p\<rparr>)"

definition get_pool :: "bool \<Rightarrow> palloc \<Rightarrow> pool" where
  "get_pool user s = (if user then user_pool s else kernel_pool s)"

text \<open>
  \<^verbatim>\<open>init_pool\<close>: the bitmap is put at the base of the pool; \<open>block\<close> is what that memory holds, as 32-bit elements.
\<close>

definition init_pool :: "nat \<Rightarrow> nat \<Rightarrow> u32 list \<Rightarrow> pool option" where
  "init_pool base page_cnt block = do {
     let bm_pages = DIV_ROUND_UP (bitmap_buf_size page_cnt) PGSIZE;
     ASSERT (\<not> bm_pages > page_cnt);
     m \<leftarrow> bitmap_create_in_buf (page_cnt - bm_pages) block (bm_pages * PGSIZE);
     Some \<lparr>pool_lock = False, used_map = m, pool_base = base + bm_pages * PGSIZE\<rparr> }"

definition palloc_init :: "nat \<Rightarrow> nat \<Rightarrow> u32 list \<Rightarrow> u32 list \<Rightarrow> (nat \<Rightarrow> u8) \<Rightarrow> palloc option" where
  "palloc_init init_ram_pages user_page_limit kblock ublock memory = do {
     free_start \<leftarrow> ptov (1024 * 1024);
     free_end \<leftarrow> ptov (init_ram_pages * PGSIZE);
     let free_pages = (free_end - free_start) div PGSIZE;
     let user_pages = free_pages div 2;
     let user_pages = (if user_pages > user_page_limit then user_page_limit else user_pages);
     let kernel_pages = free_pages - user_pages;
     k \<leftarrow> init_pool free_start kernel_pages kblock;
     u \<leftarrow> init_pool (free_start + kernel_pages * PGSIZE) user_pages ublock;
     Some \<lparr>kernel_pool = k, user_pool = u, ram = memory\<rparr> }"

text \<open>A null pointer is \<open>None\<close>.\<close>

definition palloc_get_multiple :: "palloc_flags \<Rightarrow> nat \<Rightarrow> palloc \<Rightarrow> (nat option \<times> palloc) option" where
  "palloc_get_multiple flags page_cnt s = do {
     let user = (flags AND PAL_USER \<noteq> 0);
     let p = get_pool user s;
     if page_cnt = 0 then Some (None, s)
     else do {
       ASSERT (\<not> pool_lock p);
       (page_idx, m) \<leftarrow> bitmap_scan_and_flip (used_map p) 0 page_cnt False;
       let s = set_pool user (p\<lparr>used_map := m\<rparr>) s;
       let pages = (if page_idx \<noteq> BITMAP_ERROR then Some (pool_base p + PGSIZE * page_idx) else None);
       case pages of
         Some a \<Rightarrow> Some (pages, if flags AND PAL_ZERO \<noteq> 0 then fill a 0 (PGSIZE * page_cnt) s else s)
       | None \<Rightarrow> do { ASSERT (flags AND PAL_ASSERT = 0); Some (None, s) } } }"

definition palloc_get_page :: "palloc_flags \<Rightarrow> palloc \<Rightarrow> (nat option \<times> palloc) option" where
  "palloc_get_page flags s = palloc_get_multiple flags 1 s"

definition page_from_pool :: "pool \<Rightarrow> nat \<Rightarrow> bool" where
  "page_from_pool p page \<longleftrightarrow> (let start = pg_no (pool_base p) in start \<le> pg_no page \<and> pg_no page < start + bitmap_size (used_map p))"

definition palloc_free_multiple :: "nat \<Rightarrow> nat \<Rightarrow> palloc \<Rightarrow> palloc option" where
  "palloc_free_multiple pages page_cnt s = do {
     ASSERT (pg_ofs pages = 0);
     if pages = 0 \<or> page_cnt = 0 then Some s
     else do {
       user \<leftarrow> (if page_from_pool (kernel_pool s) pages then Some False
                else if page_from_pool (user_pool s) pages then Some True else None);
       let p = get_pool user s;
       let page_idx = pg_no pages - pg_no (pool_base p);
       let s = fill pages 0xcc (PGSIZE * page_cnt) s;
       all_used \<leftarrow> bitmap_all (used_map p) page_idx page_cnt;
       ASSERT all_used;
       m \<leftarrow> bitmap_set_multiple (used_map p) page_idx page_cnt False;
       Some (set_pool user (p\<lparr>used_map := m\<rparr>) s) } }"

definition palloc_free_page :: "nat \<Rightarrow> palloc \<Rightarrow> palloc option" where
  "palloc_free_page page s = palloc_free_multiple page 1 s"

section \<open>The memory in use\<close>

definition pool_end :: "pool \<Rightarrow> nat" where
  "pool_end p = pool_base p + PGSIZE * bit_cnt (used_map p)"

definition pool_ok :: "pool \<Rightarrow> bool" where
  "pool_ok p \<longleftrightarrow> \<not> pool_lock p \<and> bitmap_wf (used_map p) \<and> pool_base p mod PGSIZE = 0 \<and> 0 < pool_base p \<and> pool_end p \<le> 2 ^ 32"

definition palloc_ok :: "palloc \<Rightarrow> bool" where
  "palloc_ok s \<longleftrightarrow> pool_ok (kernel_pool s) \<and> pool_ok (user_pool s) \<and> pool_end (kernel_pool s) \<le> pool_base (user_pool s)"

text \<open>The addresses of the pages that a pool has handed out.\<close>

definition page_range :: "nat \<Rightarrow> nat \<Rightarrow> nat set" where
  "page_range a n = {a..<a + PGSIZE * n}"

definition pool_used :: "pool \<Rightarrow> nat set" where
  "pool_used p = {x. pool_base p \<le> x \<and> (x - pool_base p) div PGSIZE \<in> bitmap_used (used_map p)}"

definition in_use :: "palloc \<Rightarrow> nat set" where
  "in_use s = pool_used (kernel_pool s) \<union> pool_used (user_pool s)"

lemma PGSIZE_pos [simp]: "0 < PGSIZE"
  by (simp add: PGSIZE_def)

lemma PGSIZE_bits: "2 ^ PGBITS = PGSIZE"
  by (simp add: PGSIZE_def PGBITS_def)

lemma page_range_div: "x \<in> page_range (b + PGSIZE * i) n \<longleftrightarrow> b \<le> x \<and> (x - b) div PGSIZE \<in> {i..<i + n}"
proof -
  have "b + PGSIZE * i \<le> x \<longleftrightarrow> b \<le> x \<and> i \<le> (x - b) div PGSIZE"
    by (auto simp: less_eq_div_iff_mult_less_eq mult.commute)
  moreover have "x < b + PGSIZE * i + PGSIZE * n \<longleftrightarrow> (x - b) div PGSIZE < i + n" if "b \<le> x"
    using that by (simp add: div_less_iff_less_mult algebra_simps less_diff_conv2)
  ultimately show ?thesis by (auto simp: page_range_def)
qed

lemma pool_used_update:
  assumes "bitmap_used m = bitmap_used (used_map p) \<union> {i..<i + n}"
  shows "pool_used (p\<lparr>used_map := m\<rparr>) = pool_used p \<union> page_range (pool_base p + PGSIZE * i) n"
  using assms by (auto simp: pool_used_def page_range_div)

lemma pool_used_release:
  assumes "bitmap_used m = bitmap_used (used_map p) - {i..<i + n}"
  shows "pool_used (p\<lparr>used_map := m\<rparr>) = pool_used p - page_range (pool_base p + PGSIZE * i) n"
  using assms by (auto simp: pool_used_def page_range_div)

lemma pool_used_bounds: "x \<in> pool_used p \<Longrightarrow> pool_base p \<le> x \<and> x < pool_end p"
proof -
  assume "x \<in> pool_used p"
  then have x: "pool_base p \<le> x" "(x - pool_base p) div PGSIZE < bit_cnt (used_map p)"
    by (auto simp: pool_used_def bitmap_used_def)
  then have "x - pool_base p < bit_cnt (used_map p) * PGSIZE" by (simp add: div_less_iff_less_mult)
  with x(1) show ?thesis by (simp add: pool_end_def mult.commute)
qed

text \<open>What taking pages from one pool does.\<close>

lemma pool_alloc:
  assumes p: "pool_ok p" and n: "0 < n"
  obtains (found) i m where "bitmap_scan_and_flip (used_map p) 0 n False = Some (i, m)" and "i \<noteq> BITMAP_ERROR"
      and "pool_ok (p\<lparr>used_map := m\<rparr>)" and "pool_end (p\<lparr>used_map := m\<rparr>) = pool_end p"
      and "page_range (pool_base p + PGSIZE * i) n \<inter> pool_used p = {}"
      and "pool_used (p\<lparr>used_map := m\<rparr>) = pool_used p \<union> page_range (pool_base p + PGSIZE * i) n"
      and "page_range (pool_base p + PGSIZE * i) n \<subseteq> {pool_base p..<pool_end p}"
    | (missing) "bitmap_scan_and_flip (used_map p) 0 n False = Some (BITMAP_ERROR, used_map p)"
      and "\<forall>i. i + n \<le> bit_cnt (used_map p) \<longrightarrow> {i..<i + n} \<inter> bitmap_used (used_map p) \<noteq> {}"
proof -
  have wf: "bitmap_wf (used_map p)" using p by (simp add: pool_ok_def)
  obtain r m where r: "bitmap_alloc (used_map p) n = Some (r, m)" using bm.alloc_returns [OF wf n] by auto
  then obtain i where i: "bitmap_scan_and_flip (used_map p) 0 n False = Some (i, m)" "r = (if i = BITMAP_ERROR then None else Some i)"
    by (auto simp: bitmap_alloc_def)
  show ?thesis
  proof (cases r)
    case (Some j)
    then have j: "j = i" "i \<noteq> BITMAP_ERROR" using i(2) by (auto split: if_splits)
    note a = bm.alloc_found [OF wf n r [unfolded Some]]
    have e: "pool_end (p\<lparr>used_map := m\<rparr>) = pool_end p" using a by (simp add: pool_end_def)
    show ?thesis
    proof (rule found [OF i(1) j(2) _ e])
      show "pool_ok (p\<lparr>used_map := m\<rparr>)" using p a e by (simp add: pool_ok_def)
      show "page_range (pool_base p + PGSIZE * i) n \<inter> pool_used p = {}"
        using a j(1) by (auto simp: page_range_div pool_used_def)
      show "pool_used (p\<lparr>used_map := m\<rparr>) = pool_used p \<union> page_range (pool_base p + PGSIZE * i) n"
        using a j(1) by (intro pool_used_update) simp
      have "PGSIZE * (i + n) \<le> PGSIZE * bit_cnt (used_map p)" using a j(1) by (intro mult_le_mono2) simp
      then show "page_range (pool_base p + PGSIZE * i) n \<subseteq> {pool_base p..<pool_end p}"
        by (auto simp: page_range_def pool_end_def distrib_left)
    qed
  next
    case None
    then have e: "i = BITMAP_ERROR" using i(2) by (auto split: if_splits)
    have "m = used_map p" "\<forall>i. i + n \<le> bit_cnt (used_map p) \<longrightarrow> {i..<i + n} \<inter> bitmap_used (used_map p) \<noteq> {}"
      using bm.alloc_missing [OF wf n r [unfolded None]] by auto
    then show ?thesis using missing i(1) e by simp
  qed
qed

lemma get_pool_ok: "palloc_ok s \<Longrightarrow> pool_ok (get_pool u s)"
  by (simp add: palloc_ok_def get_pool_def)

lemma in_use_split: "in_use s = pool_used (get_pool u s) \<union> pool_used (get_pool (\<not> u) s)"
  by (auto simp: in_use_def get_pool_def)

lemma other_pool_disjoint:
  assumes "palloc_ok s" and "R \<subseteq> {pool_base (get_pool u s)..<pool_end (get_pool u s)}"
  shows "R \<inter> pool_used (get_pool (\<not> u) s) = {}"
proof -
  have "x \<notin> pool_used (get_pool (\<not> u) s)" if "x \<in> R" for x
  proof
    assume "x \<in> pool_used (get_pool (\<not> u) s)"
    then have "pool_base (get_pool (\<not> u) s) \<le> x" "x < pool_end (get_pool (\<not> u) s)" using pool_used_bounds by blast+
    then show False using assms that by (cases u) (auto simp: palloc_ok_def get_pool_def subset_iff)
  qed
  then show ?thesis by blast
qed

lemma set_pool_simps [simp]:
  "get_pool u (set_pool u p s) = p" "get_pool (\<not> u) (set_pool u p s) = get_pool (\<not> u) s" "ram (set_pool u p s) = ram s"
  by (simp_all add: get_pool_def set_pool_def)

lemma set_pool_palloc_ok:
  "palloc_ok s \<Longrightarrow> pool_ok p \<Longrightarrow> pool_base p = pool_base (get_pool u s) \<Longrightarrow> pool_end p = pool_end (get_pool u s) \<Longrightarrow> palloc_ok (set_pool u p s)"
  by (auto simp: palloc_ok_def set_pool_def get_pool_def split: if_splits)

lemma fill_simps [simp]:
  "kernel_pool (fill a v n s) = kernel_pool s" "user_pool (fill a v n s) = user_pool s" "in_use (fill a v n s) = in_use s"
  "palloc_ok (fill a v n s) = palloc_ok s"
  by (simp_all add: fill_def in_use_def palloc_ok_def)

text \<open>What \<^verbatim>\<open>palloc_get_multiple\<close> does on each of its branches.\<close>

lemma palloc_get_ok:
  assumes s: "palloc_ok s" and n: "0 < n"
  obtains (found) a s' where "palloc_get_multiple flags n s = Some (Some a, s')" and "palloc_ok s'"
      and "pg_ofs a = 0" and "a \<noteq> 0" and "page_range a n \<inter> in_use s = {}" and "in_use s' = in_use s \<union> page_range a n"
      and "page_range a n \<subseteq> {pool_base (get_pool (flags AND PAL_USER \<noteq> 0) s)..<pool_end (get_pool (flags AND PAL_USER \<noteq> 0) s)}"
      and "\<And>x. ram s' x = (if x \<in> page_range a n \<and> flags AND PAL_ZERO \<noteq> 0 then 0 else ram s x)"
      and "\<And>v. pool_base (get_pool v s') = pool_base (get_pool v s) \<and> pool_end (get_pool v s') = pool_end (get_pool v s)"
    | (missing) "palloc_get_multiple flags n s = (if flags AND PAL_ASSERT = 0 then Some (None, s) else None)"
      and "\<forall>i. i + n \<le> bit_cnt (used_map (get_pool (flags AND PAL_USER \<noteq> 0) s)) \<longrightarrow>
        {i..<i + n} \<inter> bitmap_used (used_map (get_pool (flags AND PAL_USER \<noteq> 0) s)) \<noteq> {}"
proof -
  let ?u = "flags AND PAL_USER \<noteq> 0"
  let ?p = "get_pool ?u s"
  have p: "pool_ok ?p" using s by (rule get_pool_ok)
  then have lk: "\<not> pool_lock ?p" by (simp add: pool_ok_def)
  show ?thesis
  proof (cases rule: pool_alloc [OF p n])
    case (1 i m)
    let ?a = "pool_base ?p + PGSIZE * i" and ?s = "set_pool ?u (?p\<lparr>used_map := m\<rparr>) s"
    have al: "?a mod PGSIZE = 0" "?a \<noteq> 0" using p by (auto simp: pool_ok_def)
    show ?thesis
    proof (rule found)
      show "palloc_get_multiple flags n s = Some (Some ?a, if flags AND PAL_ZERO \<noteq> 0 then fill ?a 0 (PGSIZE * n) ?s else ?s)"
        using 1(1,2) n lk by (simp add: palloc_get_multiple_def Let_def)
      show "palloc_ok (if flags AND PAL_ZERO \<noteq> 0 then fill ?a 0 (PGSIZE * n) ?s else ?s)"
        using set_pool_palloc_ok [OF s 1(3)] 1(4) by simp
      show "pg_ofs ?a = 0" using al(1) by (simp add: pg_ofs_def PGSIZE_bits)
      show "?a \<noteq> 0" by (rule al(2))
      show "page_range ?a n \<inter> in_use s = {}"
        using 1(5) other_pool_disjoint [OF s 1(7)] unfolding in_use_split [of s ?u] by blast
      have "in_use ?s = in_use s \<union> page_range ?a n"
        unfolding in_use_split [of s ?u] in_use_split [of ?s ?u] set_pool_simps 1(6) by blast
      then show "in_use (if flags AND PAL_ZERO \<noteq> 0 then fill ?a 0 (PGSIZE * n) ?s else ?s) = in_use s \<union> page_range ?a n" by simp
      show "page_range ?a n \<subseteq> {pool_base ?p..<pool_end ?p}" by (rule 1(7))
      show "ram (if flags AND PAL_ZERO \<noteq> 0 then fill ?a 0 (PGSIZE * n) ?s else ?s) x =
        (if x \<in> page_range ?a n \<and> flags AND PAL_ZERO \<noteq> 0 then 0 else ram s x)" for x
        by (simp add: fill_def page_range_def)
      show "pool_base (get_pool v (if flags AND PAL_ZERO \<noteq> 0 then fill ?a 0 (PGSIZE * n) ?s else ?s)) = pool_base (get_pool v s) \<and>
        pool_end (get_pool v (if flags AND PAL_ZERO \<noteq> 0 then fill ?a 0 (PGSIZE * n) ?s else ?s)) = pool_end (get_pool v s)" for v
        using 1(4) by (auto simp: get_pool_def set_pool_def)
    qed
  next
    case 2
    have "set_pool ?u (?p\<lparr>used_map := used_map ?p\<rparr>) s = s" by (simp add: set_pool_def get_pool_def)
    then show ?thesis using 2 n lk by (intro missing) (auto simp: palloc_get_multiple_def Let_def)
  qed
qed

text \<open>What \<^verbatim>\<open>palloc_free_multiple\<close> does with pages that were handed out together.\<close>

lemma page_index:
  assumes "pool_base p mod PGSIZE = 0" and "pg_ofs a = 0" and "pool_base p \<le> a"
  shows "pool_base p + PGSIZE * (pg_no a - pg_no (pool_base p)) = a"
proof -
  have "PGSIZE * pg_no a = a" "PGSIZE * pg_no (pool_base p) = pool_base p"
    using assms(1,2) by (simp_all add: pg_no_def pg_ofs_def PGSIZE_bits) (metis add_cancel_right_right mult_div_mod_eq)+
  then have "PGSIZE * (pg_no a - pg_no (pool_base p)) = a - pool_base p" by (simp add: diff_mult_distrib2)
  with assms(3) show ?thesis by simp
qed

lemma page_from_pool_iff:
  assumes "pool_base p mod PGSIZE = 0" and "pg_ofs a = 0"
  shows "page_from_pool p a \<longleftrightarrow> pool_base p \<le> a \<and> a < pool_end p"
proof -
  have a: "PGSIZE * pg_no a = a" and b: "PGSIZE * pg_no (pool_base p) = pool_base p"
    using assms by (simp_all add: pg_no_def pg_ofs_def PGSIZE_bits) (metis add_cancel_right_right mult_div_mod_eq)+
  have "pg_no (pool_base p) \<le> pg_no a \<longleftrightarrow> pool_base p \<le> a"
    by (metis a b PGSIZE_pos mult_le_cancel1)
  moreover have "pg_no a < pg_no (pool_base p) + bit_cnt (used_map p) \<longleftrightarrow> a < pool_end p"
    unfolding pool_end_def by (metis a b PGSIZE_pos distrib_left mult_less_cancel1)
  ultimately show ?thesis by (simp add: page_from_pool_def bitmap_size_def Let_def)
qed

lemma palloc_free_ok:
  assumes s: "palloc_ok s" and a: "pg_ofs a = 0" and n: "0 < n"
    and u: "page_range a n \<subseteq> pool_used (get_pool u s)"
  shows "\<exists>s'. palloc_free_multiple a n s = Some s' \<and> palloc_ok s' \<and> in_use s' = in_use s - page_range a n \<and>
    (\<forall>x. ram s' x = (if x \<in> page_range a n then 0xcc else ram s x)) \<and>
    (\<forall>v. pool_base (get_pool v s') = pool_base (get_pool v s) \<and> pool_end (get_pool v s') = pool_end (get_pool v s))"
proof -
  let ?p = "get_pool u s"
  have p: "pool_ok ?p" using s by (rule get_pool_ok)
  then have al: "pool_base ?p mod PGSIZE = 0" and wf: "bitmap_wf (used_map ?p)" by (simp_all add: pool_ok_def)
  have "a \<in> page_range a n" using n by (simp add: page_range_def)
  then have b: "pool_base ?p \<le> a" "a < pool_end ?p" using u pool_used_bounds [of a ?p] by auto
  have a0: "a \<noteq> 0" using b(1) p by (auto simp: pool_ok_def)
  define i where "i = pg_no a - pg_no (pool_base ?p)"
  have i: "pool_base ?p + PGSIZE * i = a" unfolding i_def by (rule page_index [OF al a b(1)])
  have sub: "{i..<i + n} \<subseteq> bitmap_used (used_map ?p)"
  proof
    fix k assume "k \<in> {i..<i + n}"
    then have "pool_base ?p + PGSIZE * k \<in> page_range a n" unfolding i [symmetric] page_range_div by simp
    with u have "pool_base ?p + PGSIZE * k \<in> pool_used ?p" by blast
    then show "k \<in> bitmap_used (used_map ?p)" by (simp add: pool_used_def)
  qed
  have "i + n - 1 \<in> bitmap_used (used_map ?p)" using sub n by auto
  then have cap: "i + n \<le> bit_cnt (used_map ?p)" by (auto simp: bitmap_used_def)
  have all: "bitmap_all (used_map ?p) i n = Some True"
    using bitmap_all_abs [OF wf cap] sub cap
    by (auto simp: in_set_conv_nth segment_nth bitmap_used_def subset_iff length_segment)
  obtain m where m: "bitmap_set_multiple (used_map ?p) i n False = Some m" "bitmap_wf m" "bit_cnt m = bit_cnt (used_map ?p)"
    "bitmap_used m = bitmap_used (used_map ?p) - {i..<i + n}"
    using bm.release_returns [OF wf cap sub] by (auto simp: bitmap_release_def)
  have pool: "(if page_from_pool (kernel_pool s) a then Some False else if page_from_pool (user_pool s) a then Some True else None) = Some u"
  proof -
    have k: "page_from_pool (get_pool v s) a \<longleftrightarrow> pool_base (get_pool v s) \<le> a \<and> a < pool_end (get_pool v s)" for v
      using get_pool_ok [OF s, of v] a by (intro page_from_pool_iff) (simp_all add: pool_ok_def)
    show ?thesis using k [of False] k [of True] b s by (cases u) (auto simp: get_pool_def palloc_ok_def)
  qed
  let ?s = "set_pool u (?p\<lparr>used_map := m\<rparr>) (fill a 0xcc (PGSIZE * n) s)"
  have g: "get_pool v (fill a 0xcc (PGSIZE * n) s) = get_pool v s" for v by (simp add: get_pool_def)
  have "palloc_free_multiple a n s = Some ?s"
    unfolding palloc_free_multiple_def Let_def pool using a a0 n all m(1) by (simp add: i_def [symmetric])
  moreover have "palloc_ok ?s"
  proof (rule set_pool_palloc_ok)
    show "pool_end (?p\<lparr>used_map := m\<rparr>) = pool_end (get_pool u (fill a 204 (PGSIZE * n) s))" using m(3) by (simp add: g pool_end_def get_pool_def)
    show "pool_ok (?p\<lparr>used_map := m\<rparr>)" using p m by (simp add: pool_ok_def pool_end_def)
  qed (use s in \<open>simp_all add: get_pool_def\<close>)
  moreover have "in_use ?s = in_use s - page_range a n"
  proof -
    have "page_range a n \<inter> pool_used (get_pool (\<not> u) s) = {}"
      using u pool_used_bounds [of _ ?p] by (intro other_pool_disjoint [OF s]) auto
    moreover have "pool_used (?p\<lparr>used_map := m\<rparr>) = pool_used ?p - page_range a n"
      using pool_used_release [OF m(4)] i by simp
    moreover have "get_pool (\<not> u) (fill a 0xcc (PGSIZE * n) s) = get_pool (\<not> u) s" by (simp add: get_pool_def)
    ultimately show ?thesis unfolding in_use_split [of s u] in_use_split [of ?s u] set_pool_simps by auto
  qed
  moreover have "\<forall>v. pool_base (get_pool v ?s) = pool_base (get_pool v s) \<and> pool_end (get_pool v ?s) = pool_end (get_pool v s)"
    using m(3) by (simp add: get_pool_def set_pool_def fill_def pool_end_def)
  ultimately show ?thesis by (auto simp: fill_def page_range_def)
qed

lemma palloc_get_Some:
  assumes "palloc_ok s" and "0 < n" and "palloc_get_multiple flags n s = Some (Some a, s')"
  shows "palloc_ok s'" "pg_ofs a = 0" "a \<noteq> 0" "page_range a n \<inter> in_use s = {}" "in_use s' = in_use s \<union> page_range a n"
    "page_range a n \<subseteq> {pool_base (get_pool (flags AND PAL_USER \<noteq> 0) s)..<pool_end (get_pool (flags AND PAL_USER \<noteq> 0) s)}"
    "ram s' x = (if x \<in> page_range a n \<and> flags AND PAL_ZERO \<noteq> 0 then 0 else ram s x)"
    "pool_base (get_pool v s') = pool_base (get_pool v s)" "pool_end (get_pool v s') = pool_end (get_pool v s)"
proof -
  obtain "palloc_ok s'" "pg_ofs a = 0" "a \<noteq> 0" "page_range a n \<inter> in_use s = {}" "in_use s' = in_use s \<union> page_range a n"
    "page_range a n \<subseteq> {pool_base (get_pool (flags AND PAL_USER \<noteq> 0) s)..<pool_end (get_pool (flags AND PAL_USER \<noteq> 0) s)}"
    "\<And>x. ram s' x = (if x \<in> page_range a n \<and> flags AND PAL_ZERO \<noteq> 0 then 0 else ram s x)"
    "\<And>v. pool_base (get_pool v s') = pool_base (get_pool v s) \<and> pool_end (get_pool v s') = pool_end (get_pool v s)"
  proof (cases rule: palloc_get_ok [OF assms(1,2), of flags])
    case (1 a' t)
    then have "a' = a" "t = s'" using assms(3) by simp_all
    with 1(2-9) show ?thesis by (intro that) simp_all
  next
    case 2
    then show ?thesis using assms(3) by (simp split: if_splits)
  qed
  then show "palloc_ok s'" "pg_ofs a = 0" "a \<noteq> 0" "page_range a n \<inter> in_use s = {}" "in_use s' = in_use s \<union> page_range a n"
    "page_range a n \<subseteq> {pool_base (get_pool (flags AND PAL_USER \<noteq> 0) s)..<pool_end (get_pool (flags AND PAL_USER \<noteq> 0) s)}"
    "ram s' x = (if x \<in> page_range a n \<and> flags AND PAL_ZERO \<noteq> 0 then 0 else ram s x)"
    "pool_base (get_pool v s') = pool_base (get_pool v s)" "pool_end (get_pool v s') = pool_end (get_pool v s)"
    by blast+
qed

lemma pool_used_of_in_use:
  assumes "palloc_ok s" and "R \<subseteq> in_use s" and "R \<subseteq> {pool_base (get_pool u s)..<pool_end (get_pool u s)}"
  shows "R \<subseteq> pool_used (get_pool u s)"
  using assms(2) other_pool_disjoint [OF assms(1,3)] unfolding in_use_split [of s u] by blast

section \<open>Properties\<close>

text \<open>
  C20: pages are never handed out twice. Two requests for pages that succeed, from whichever pool and with whichever flags,
  return page-aligned blocks that are disjoint from each other and from everything in use, zeroed when asked
  for, and the second request changes nothing in the first block; freeing the first block then leaves the second one in use.
\<close>

theorem palloc_blocks_disjoint:
  assumes s: "palloc_ok s" and n: "0 < n" "0 < m"
    and 1: "palloc_get_multiple f n s = Some (Some a, s1)" and 2: "palloc_get_multiple g m s1 = Some (Some b, s2)"
  shows "page_range a n \<inter> page_range b m = {} \<and> (page_range a n \<union> page_range b m) \<inter> in_use s = {} \<and>
    in_use s2 = in_use s \<union> page_range a n \<union> page_range b m \<and> pg_ofs a = 0 \<and> pg_ofs b = 0 \<and>
    (f AND PAL_ZERO \<noteq> 0 \<longrightarrow> (\<forall>x \<in> page_range a n. ram s2 x = 0)) \<and>
    (\<exists>s3. palloc_free_multiple a n s2 = Some s3 \<and> palloc_ok s3 \<and> in_use s3 = in_use s \<union> page_range b m)"
proof -
  note a = palloc_get_Some [OF s n(1) 1]
  note b = palloc_get_Some [OF a(1) n(2) 2]
  have d: "page_range a n \<inter> page_range b m = {}" "page_range b m \<inter> in_use s = {}" using a(5) b(4) by blast+
  have "page_range a n \<subseteq> pool_used (get_pool (f AND PAL_USER \<noteq> 0) s2)"
    using a(5,6,8,9) b(5,8,9) by (intro pool_used_of_in_use [OF b(1)]) auto
  then obtain s3 where s3: "palloc_free_multiple a n s2 = Some s3" "palloc_ok s3" "in_use s3 = in_use s2 - page_range a n"
    using palloc_free_ok [OF b(1) a(2) n(1)] by blast
  have "in_use s3 = in_use s \<union> page_range b m" unfolding s3(3) b(5) a(5) using d(1) a(4) by blast
  moreover have "\<forall>x \<in> page_range a n. ram s2 x = 0" if "f AND PAL_ZERO \<noteq> 0" using a(7) b(7) d(1) that by auto
  ultimately show ?thesis using a(2,4,5) b(2,5) d s3(1,2) by blast
qed

definition demo_pool :: "nat \<Rightarrow> pool" where
  "demo_pool a = \<lparr>pool_lock = False, used_map = \<lparr>bit_cnt = 8, bits = [0]\<rparr>, pool_base = a\<rparr>"

definition demo_palloc :: palloc where
  "demo_palloc = \<lparr>kernel_pool = demo_pool 0x100000, user_pool = demo_pool 0x200000, ram = (\<lambda>_. 7)\<rparr>"

lemma demo_palloc_ok: "palloc_ok demo_palloc"
  by (simp add: palloc_ok_def pool_ok_def pool_end_def demo_palloc_def demo_pool_def bitmap_wf_def elem_cnt_def ELEM_BITS_def DIV_ROUND_UP_def PGSIZE_def)

lemma demo_unused: "bitmap_used \<lparr>bit_cnt = 8, bits = [0]\<rparr> = {}"
  by (auto simp: bitmap_used_def bitmap_abs_def bitmap_bit_def ELEM_BITS_def)

lemma user_pool_untouched: "flags AND PAL_USER = 0 \<Longrightarrow> palloc_get_multiple flags n s = Some (r, s') \<Longrightarrow> user_pool s' = user_pool s"
  by (auto simp: palloc_get_multiple_def set_pool_def fill_def Let_def bind_eq_Some_iff split: if_splits)

theorem palloc_blocks_witness:
  "\<exists>a b s1 s2. palloc_get_multiple PAL_ZERO 2 demo_palloc = Some (Some a, s1) \<and> palloc_get_multiple PAL_USER 1 s1 = Some (Some b, s2) \<and>
     page_range a 2 \<inter> page_range b 1 = {} \<and> (\<forall>x \<in> page_range a 2. ram s2 x = 0)"
proof -
  have z: "PAL_ZERO AND PAL_USER = 0" by (simp add: PAL_ZERO_def PAL_USER_def)
  obtain a s1 where 1: "palloc_get_multiple PAL_ZERO 2 demo_palloc = Some (Some a, s1)" "palloc_ok s1"
    by (cases rule: palloc_get_ok [OF demo_palloc_ok, of 2 PAL_ZERO])
      (auto simp: z get_pool_def demo_palloc_def demo_pool_def demo_unused)
  have "user_pool s1 = demo_pool 0x200000" using user_pool_untouched [OF z 1(1)] by (simp add: demo_palloc_def)
  then obtain b s2 where 2: "palloc_get_multiple PAL_USER 1 s1 = Some (Some b, s2)"
    by (cases rule: palloc_get_ok [OF 1(2), of 1 PAL_USER]) (auto simp: PAL_USER_def get_pool_def demo_pool_def demo_unused)
  show ?thesis using palloc_blocks_disjoint [OF demo_palloc_ok _ _ 1(1) 2] 1(1) 2 by (auto simp: PAL_ZERO_def)
qed

text \<open>
  freeing a page that is not in use stops the kernel, so that a double free is always detected.
\<close>

theorem palloc_double_free_stops:
  assumes "palloc_ok s" and "pg_ofs a = 0" and "a \<noteq> 0" and "a \<notin> in_use s"
  shows "palloc_free_page a s = None"
proof -
  have "bitmap_all (used_map (get_pool u s)) (pg_no a - pg_no (pool_base (get_pool u s))) 1 = Some False"
    if "page_from_pool (get_pool u s) a" for u
  proof -
    let ?p = "get_pool u s"
    have p: "pool_ok ?p" using assms(1) by (rule get_pool_ok)
    then have al: "pool_base ?p mod PGSIZE = 0" and wf: "bitmap_wf (used_map ?p)" by (simp_all add: pool_ok_def)
    define i where "i = pg_no a - pg_no (pool_base ?p)"
    have b: "pool_base ?p \<le> a" "a < pool_end ?p" using that page_from_pool_iff [OF al assms(2)] by auto
    have i: "pool_base ?p + PGSIZE * i = a" unfolding i_def by (rule page_index [OF al assms(2) b(1)])
    then have "i < bit_cnt (used_map ?p)" using b(2) unfolding pool_end_def by (metis PGSIZE_pos add_less_cancel_left mult_less_cancel1)
    moreover have "i \<notin> bitmap_used (used_map ?p)"
    proof
      assume "i \<in> bitmap_used (used_map ?p)"
      then have "a \<in> pool_used ?p" using i by (auto simp: pool_used_def i [symmetric])
      with assms(4) show False by (auto simp: in_use_split [of s u])
    qed
    ultimately have "\<not> bitmap_abs (used_map ?p) ! i" "i + 1 \<le> bit_cnt (used_map ?p)" by (auto simp: bitmap_used_def)
    then show ?thesis using bitmap_all_abs [OF wf, of i 1] unfolding i_def [symmetric]
      by (auto simp: in_set_conv_nth segment_nth)
  qed
  from this [of False] this [of True] show ?thesis using assms(2,3)
    by (auto simp: palloc_free_page_def palloc_free_multiple_def get_pool_def Let_def)
qed

theorem palloc_double_free_witness: "palloc_free_page 0x200000 demo_palloc = None"
proof -
  have "in_use demo_palloc = {}" by (simp add: in_use_def pool_used_def demo_palloc_def demo_pool_def demo_unused)
  then show ?thesis using palloc_double_free_stops [OF demo_palloc_ok, of "0x200000"] by (simp add: pg_ofs_def PGBITS_def)
qed

end
