(* ===== verification/Pagedir.thy ===== *)
theory Pagedir
  imports Palloc
begin

text \<open>
  Page directories, \<^verbatim>\<open>userprog/pagedir.c\<close> with \<^verbatim>\<open>threads/pte.h\<close>. Directories and page tables are pages of 1024 words in
  the kernel's memory, read and written there as four bytes per word. \<open>cr3\<close> is the page directory base register;
  \<open>flushes\<close> counts how often it is loaded, which is what empties the translation lookaside buffer.
\<close>

section \<open>Entries (threads/pte.h)\<close>

definition PTE_ADDR :: u32 where "PTE_ADDR = 0xfffff000"
definition PTE_P :: u32 where "PTE_P = 0x1"
definition PTE_W :: u32 where "PTE_W = 0x2"
definition PTE_U :: u32 where "PTE_U = 0x4"
definition PTE_A :: u32 where "PTE_A = 0x20"
definition PTE_D :: u32 where "PTE_D = 0x40"

definition pt_no :: "nat \<Rightarrow> nat" where "pt_no va = va div 2 ^ 12 mod 2 ^ 10"

definition pd_no :: "nat \<Rightarrow> nat" where "pd_no va = va div 2 ^ 22"

definition pde_create :: "nat \<Rightarrow> u32 option" where
  "pde_create pt = do { ASSERT (pg_ofs pt = 0); p \<leftarrow> vtop pt; Some (of_nat p OR PTE_U OR PTE_P OR PTE_W) }"

definition pde_get_pt :: "u32 \<Rightarrow> nat option" where
  "pde_get_pt pde = do { ASSERT (pde AND PTE_P \<noteq> 0); ptov (unat (pde AND PTE_ADDR)) }"

definition pte_create_kernel :: "nat \<Rightarrow> bool \<Rightarrow> u32 option" where
  "pte_create_kernel page writable = do {
     ASSERT (pg_ofs page = 0);
     p \<leftarrow> vtop page;
     Some (of_nat p OR PTE_P OR (if writable then PTE_W else 0)) }"

definition pte_create_user :: "nat \<Rightarrow> bool \<Rightarrow> u32 option" where
  "pte_create_user page writable = do { e \<leftarrow> pte_create_kernel page writable; Some (e OR PTE_U) }"

definition pte_get_page :: "u32 \<Rightarrow> nat option" where
  "pte_get_page pte = ptov (unat (pte AND PTE_ADDR))"

section \<open>Words in memory\<close>

record pgs =
  pal :: palloc
  cr3 :: nat
  flushes :: nat
  init_page_dir :: nat
  init_ram_pages :: nat

definition word_at :: "'a pgs_scheme \<Rightarrow> nat \<Rightarrow> u32" where
  "word_at s a = (let r = ram (pal s) in
     ucast (r a) OR push_bit 8 (ucast (r (a + 1))) OR push_bit 16 (ucast (r (a + 2))) OR push_bit 24 (ucast (r (a + 3))))"

definition store_word :: "nat \<Rightarrow> u32 \<Rightarrow> 'a pgs_scheme \<Rightarrow> 'a pgs_scheme" where
  "store_word a w s = s\<lparr>pal := (pal s)\<lparr>ram := (ram (pal s))
     (a := ucast w, a + 1 := ucast (drop_bit 8 w), a + 2 := ucast (drop_bit 16 w), a + 3 := ucast (drop_bit 24 w))\<rparr>\<rparr>"

text \<open>\<^verbatim>\<open>memcpy (dst, src, PGSIZE)\<close> for pages that do not overlap.\<close>

definition copy_page :: "nat \<Rightarrow> nat \<Rightarrow> 'a pgs_scheme \<Rightarrow> 'a pgs_scheme" where
  "copy_page dst src s = s\<lparr>pal := (pal s)\<lparr>ram := (\<lambda>x. if dst \<le> x \<and> x < dst + PGSIZE then ram (pal s) (src + (x - dst)) else ram (pal s) x)\<rparr>\<rparr>"

section \<open>Page directories\<close>

definition pagedir_create :: "'a pgs_scheme \<Rightarrow> (nat option \<times> 'a pgs_scheme) option" where
  "pagedir_create s = do {
     (pd, p) \<leftarrow> palloc_get_page 0 (pal s);
     let s = s\<lparr>pal := p\<rparr>;
     Some (pd, case pd of None \<Rightarrow> s | Some a \<Rightarrow> copy_page a (init_page_dir s) s) }"

text \<open>The address of the entry for \<open>vaddr\<close>; a null pointer is \<open>None\<close>.\<close>

definition lookup_page :: "nat \<Rightarrow> nat \<Rightarrow> bool \<Rightarrow> 'a pgs_scheme \<Rightarrow> (nat option \<times> 'a pgs_scheme) option" where
  "lookup_page pd vaddr create s = do {
     ASSERT (pd \<noteq> 0);
     ASSERT (\<not> create \<or> is_user_vaddr vaddr);
     let pde = pd + 4 * pd_no vaddr;
     (missing, s) \<leftarrow>
       (if word_at s pde = 0 then
          if create then do {
            (pt, p) \<leftarrow> palloc_get_page PAL_ZERO (pal s);
            let s = s\<lparr>pal := p\<rparr>;
            case pt of
              None \<Rightarrow> Some (True, s)
            | Some pt \<Rightarrow> do { e \<leftarrow> pde_create pt; Some (False, store_word pde e s) } }
          else Some (True, s)
        else Some (False, s));
     if missing then Some (None, s)
     else do {
       pt \<leftarrow> pde_get_pt (word_at s pde);
       Some (Some (pt + 4 * pt_no vaddr), s) } }"

definition pagedir_activate :: "nat \<Rightarrow> 'a pgs_scheme \<Rightarrow> 'a pgs_scheme option" where
  "pagedir_activate pd s = do {
     p \<leftarrow> vtop (if pd = 0 then init_page_dir s else pd);
     Some (s\<lparr>cr3 := p, flushes := flushes s + 1\<rparr>) }"

definition active_pd :: "'a pgs_scheme \<Rightarrow> nat option" where
  "active_pd s = ptov (cr3 s)"

definition invalidate_pagedir :: "nat \<Rightarrow> 'a pgs_scheme \<Rightarrow> 'a pgs_scheme option" where
  "invalidate_pagedir pd s = do { a \<leftarrow> active_pd s; if a = pd then pagedir_activate pd s else Some s }"

definition pagedir_set_page :: "nat \<Rightarrow> nat \<Rightarrow> nat \<Rightarrow> bool \<Rightarrow> 'a pgs_scheme \<Rightarrow> (bool \<times> 'a pgs_scheme) option" where
  "pagedir_set_page pd upage kpage writable s = do {
     ASSERT (pg_ofs upage = 0);
     ASSERT (pg_ofs kpage = 0);
     ASSERT (is_user_vaddr upage);
     p \<leftarrow> vtop kpage;
     ASSERT (p div 2 ^ 12 < init_ram_pages s);
     ASSERT (pd \<noteq> init_page_dir s);
     (pte, s) \<leftarrow> lookup_page pd upage True s;
     case pte of
       None \<Rightarrow> Some (False, s)
     | Some pte \<Rightarrow> do {
         ASSERT (word_at s pte AND PTE_P = 0);
         e \<leftarrow> pte_create_user kpage writable;
         Some (True, store_word pte e s) } }"

definition pagedir_get_page :: "nat \<Rightarrow> nat \<Rightarrow> 'a pgs_scheme \<Rightarrow> nat option option" where
  "pagedir_get_page pd uaddr s = do {
     ASSERT (is_user_vaddr uaddr);
     (pte, s) \<leftarrow> lookup_page pd uaddr False s;
     case pte of
       None \<Rightarrow> Some None
     | Some pte \<Rightarrow> if word_at s pte AND PTE_P \<noteq> 0 then do { k \<leftarrow> pte_get_page (word_at s pte); Some (Some (k + pg_ofs uaddr)) }
         else Some None }"

definition pagedir_clear_page :: "nat \<Rightarrow> nat \<Rightarrow> 'a pgs_scheme \<Rightarrow> 'a pgs_scheme option" where
  "pagedir_clear_page pd upage s = do {
     ASSERT (pg_ofs upage = 0);
     ASSERT (is_user_vaddr upage);
     (pte, s) \<leftarrow> lookup_page pd upage False s;
     case pte of
       None \<Rightarrow> Some s
     | Some pte \<Rightarrow> if word_at s pte AND PTE_P \<noteq> 0 then invalidate_pagedir pd (store_word pte (word_at s pte AND NOT PTE_P) s) else Some s }"

text \<open>The tests and updates of single flags of an entry have the same shape.\<close>

definition pagedir_test :: "u32 \<Rightarrow> nat \<Rightarrow> nat \<Rightarrow> 'a pgs_scheme \<Rightarrow> bool option" where
  "pagedir_test flag pd vpage s = do {
     (pte, s) \<leftarrow> lookup_page pd vpage False s;
     Some (case pte of None \<Rightarrow> False | Some pte \<Rightarrow> word_at s pte AND flag \<noteq> 0) }"

definition pagedir_update :: "u32 \<Rightarrow> nat \<Rightarrow> nat \<Rightarrow> bool \<Rightarrow> 'a pgs_scheme \<Rightarrow> 'a pgs_scheme option" where
  "pagedir_update flag pd vpage v s = do {
     (pte, s) \<leftarrow> lookup_page pd vpage False s;
     case pte of
       None \<Rightarrow> Some s
     | Some pte \<Rightarrow>
         if v then Some (store_word pte (word_at s pte OR flag) s)
         else invalidate_pagedir pd (store_word pte (word_at s pte AND NOT flag) s) }"

definition pagedir_is_dirty :: "nat \<Rightarrow> nat \<Rightarrow> 'a pgs_scheme \<Rightarrow> bool option" where "pagedir_is_dirty = pagedir_test PTE_D"

definition pagedir_is_writable :: "nat \<Rightarrow> nat \<Rightarrow> 'a pgs_scheme \<Rightarrow> bool option" where "pagedir_is_writable = pagedir_test PTE_W"

definition pagedir_set_dirty :: "nat \<Rightarrow> nat \<Rightarrow> bool \<Rightarrow> 'a pgs_scheme \<Rightarrow> 'a pgs_scheme option" where "pagedir_set_dirty = pagedir_update PTE_D"

definition pagedir_is_accessed :: "nat \<Rightarrow> nat \<Rightarrow> 'a pgs_scheme \<Rightarrow> bool option" where "pagedir_is_accessed = pagedir_test PTE_A"

definition pagedir_set_accessed :: "nat \<Rightarrow> nat \<Rightarrow> bool \<Rightarrow> 'a pgs_scheme \<Rightarrow> 'a pgs_scheme option" where "pagedir_set_accessed = pagedir_update PTE_A"

text \<open>\<^verbatim>\<open>pagedir_destroy\<close>: \<open>frame_free\<close> is \<^verbatim>\<open>vm_frame_free\<close>, on a state that has the memory as a part.\<close>

fun destroy_table :: "(nat \<Rightarrow> 'a pgs_scheme \<Rightarrow> 'a pgs_scheme option) \<Rightarrow> nat \<Rightarrow> nat \<Rightarrow> 'a pgs_scheme \<Rightarrow> 'a pgs_scheme option" where
  "destroy_table frame_free pte 0 s = Some s"
| "destroy_table frame_free pte (Suc n) s = do {
     s \<leftarrow> (if word_at s pte AND PTE_P \<noteq> 0 then do { k \<leftarrow> pte_get_page (word_at s pte); frame_free k s } else Some s);
     destroy_table frame_free (pte + 4) n s }"

fun destroy_tables :: "(nat \<Rightarrow> 'a pgs_scheme \<Rightarrow> 'a pgs_scheme option) \<Rightarrow> nat \<Rightarrow> nat \<Rightarrow> 'a pgs_scheme \<Rightarrow> 'a pgs_scheme option" where
  "destroy_tables frame_free pde 0 s = Some s"
| "destroy_tables frame_free pde (Suc n) s = do {
     s \<leftarrow> (if word_at s pde AND PTE_P \<noteq> 0 then do {
             pt \<leftarrow> pde_get_pt (word_at s pde);
             s \<leftarrow> destroy_table frame_free pt (PGSIZE div 4) s;
             p \<leftarrow> palloc_free_page pt (pal s);
             Some (s\<lparr>pal := p\<rparr>) }
           else Some s);
     destroy_tables frame_free (pde + 4) n s }"

definition pagedir_destroy :: "(nat \<Rightarrow> 'a pgs_scheme \<Rightarrow> 'a pgs_scheme option) \<Rightarrow> nat \<Rightarrow> 'a pgs_scheme \<Rightarrow> 'a pgs_scheme option" where
  "pagedir_destroy frame_free pd s =
     (if pd = 0 then Some s
      else do {
        ASSERT (pd \<noteq> init_page_dir s);
        s \<leftarrow> destroy_tables frame_free pd (pd_no PHYS_BASE) s;
        p \<leftarrow> palloc_free_page pd (pal s);
        Some (s\<lparr>pal := p\<rparr>) })"

section \<open>Words\<close>

lemma word_at_eq: "word_at s a = hd (elems_of_bytes [ram (pal s) a, ram (pal s) (a + 1), ram (pal s) (a + 2), ram (pal s) (a + 3)])"
  by (simp add: word_at_def Let_def)

lemma word_at_store [simp]: "word_at (store_word a w s) a = w"
  using elem_bytes_roundtrip [of w "[]"] unfolding word_at_eq by (simp add: store_word_def elem_bytes_def)

lemma word_at_cong: "(\<And>x. a \<le> x \<Longrightarrow> x < a + 4 \<Longrightarrow> ram (pal s) x = ram (pal t) x) \<Longrightarrow> word_at s a = word_at t a"
  by (simp add: word_at_def Let_def)

lemma word_at_store_other: "a + 4 \<le> b \<or> b + 4 \<le> a \<Longrightarrow> word_at (store_word a w s) b = word_at s b"
  by (rule word_at_cong) (auto simp: store_word_def)

lemma word_at_zero: "(\<And>x. a \<le> x \<Longrightarrow> x < a + 4 \<Longrightarrow> ram (pal s) x = 0) \<Longrightarrow> word_at s a = 0"
  by (simp add: word_at_def Let_def)

lemma store_word_simps [simp]:
  "cr3 (store_word a w s) = cr3 s" "flushes (store_word a w s) = flushes s" "init_page_dir (store_word a w s) = init_page_dir s"
  "init_ram_pages (store_word a w s) = init_ram_pages s" "in_use (pal (store_word a w s)) = in_use (pal s)"
  "palloc_ok (pal (store_word a w s)) = palloc_ok (pal s)" "kernel_pool (pal (store_word a w s)) = kernel_pool (pal s)"
  "user_pool (pal (store_word a w s)) = user_pool (pal s)"
  by (simp_all add: store_word_def in_use_def palloc_ok_def)

text \<open>An entry made from a page address and flags gives both back.\<close>

lemma PTE_ADDR_mask: "PTE_ADDR = NOT (mask 12)"
  by (simp add: PTE_ADDR_def mask_eq_exp_minus_1)

definition kernel_page :: "nat \<Rightarrow> bool" where
  "kernel_page a \<longleftrightarrow> PHYS_BASE \<le> a \<and> a < 2 ^ 32 \<and> pg_ofs a = 0"

lemma entry_addr:
  assumes a: "kernel_page a" and f: "f AND NOT (mask 12) = 0"
  shows "ptov (unat ((of_nat (a - PHYS_BASE) OR f) AND PTE_ADDR)) = Some a" and "vtop a = Some (a - PHYS_BASE)"
    and "k < 12 \<Longrightarrow> bit (of_nat (a - PHYS_BASE) OR f :: u32) k = bit f k"
proof -
  let ?x = "a - PHYS_BASE"
  have "4096 dvd a" "4096 dvd PHYS_BASE" using a by (auto simp: kernel_page_def pg_ofs_def PGBITS_def PHYS_BASE_def)
  then have "4096 dvd ?x" by (rule dvd_diff_nat)
  then obtain y where y: "?x = 4096 * y" by (elim dvdE)
  have xl: "?x < 2 ^ 30" using a by (auto simp: kernel_page_def PHYS_BASE_def)
  have p: "of_nat ?x = (push_bit 12 (of_nat y) :: u32)" unfolding y by (simp add: push_bit_eq_mult)
  have m: "(of_nat ?x :: u32) AND NOT (mask 12) = of_nat ?x"
    unfolding p by (rule bit_word_eqI) (auto simp: bit_simps)
  then have "(of_nat ?x OR f) AND PTE_ADDR = of_nat ?x" using f unfolding PTE_ADDR_mask by (simp add: word_ao_dist)
  then have "unat ((of_nat ?x OR f) AND PTE_ADDR) = ?x" using xl by (simp add: unat_of_nat)
  moreover have "?x + PHYS_BASE = a" using a by (simp add: kernel_page_def)
  ultimately show "ptov (unat ((of_nat ?x OR f) AND PTE_ADDR)) = Some a"
    using xl a by (simp add: ptov_def kernel_page_def PHYS_BASE_def)
  show "vtop a = Some ?x" using a by (simp add: vtop_def kernel_page_def is_kernel_vaddr_def)
  show "k < 12 \<Longrightarrow> bit (of_nat ?x OR f) k = bit f k" unfolding p by (simp add: bit_simps)
qed

section \<open>A directory as a map\<close>

definition pde_of :: "nat \<Rightarrow> u32" where
  "pde_of pt = of_nat (pt - PHYS_BASE) OR (PTE_U OR PTE_P OR PTE_W)"

text \<open>The page table for directory index \<open>i\<close>.\<close>

definition tab :: "'a pgs_scheme \<Rightarrow> nat \<Rightarrow> nat \<Rightarrow> nat option" where
  "tab s pd i = (if word_at s (pd + 4 * i) = 0 then None else pde_get_pt (word_at s (pd + 4 * i)))"

text \<open>
  A directory is sound when it is an allocated page and each of its entries for user addresses is empty or
  points to an allocated page table of its own.
\<close>

definition pd_ok :: "nat \<Rightarrow> 'a pgs_scheme \<Rightarrow> bool" where
  "pd_ok pd s \<longleftrightarrow> palloc_ok (pal s) \<and> PHYS_BASE \<le> pool_base (kernel_pool (pal s)) \<and> kernel_page pd \<and> page_range pd 1 \<subseteq> in_use (pal s) \<and>
     (\<forall>i < pd_no PHYS_BASE. word_at s (pd + 4 * i) = 0 \<or>
       (\<exists>pt. word_at s (pd + 4 * i) = pde_of pt \<and> kernel_page pt \<and> pt \<noteq> pd \<and> page_range pt 1 \<subseteq> in_use (pal s))) \<and>
     (\<forall>i j. i < pd_no PHYS_BASE \<longrightarrow> j < pd_no PHYS_BASE \<longrightarrow> i \<noteq> j \<longrightarrow> tab s pd i \<noteq> None \<longrightarrow> tab s pd i \<noteq> tab s pd j)"

text \<open>The entry of the page with a given number, 0 when there is no table for it.\<close>

definition entry :: "'a pgs_scheme \<Rightarrow> nat \<Rightarrow> nat \<Rightarrow> u32" where
  "entry s pd n = (case tab s pd (n div 2 ^ 10) of None \<Rightarrow> 0 | Some pt \<Rightarrow> word_at s (pt + 4 * (n mod 2 ^ 10)))"

lemma pde_of_create: "kernel_page pt \<Longrightarrow> pde_create pt = Some (pde_of pt)"
  using entry_addr(2) [of pt "PTE_U OR PTE_P OR PTE_W"]
  by (simp add: pde_create_def pde_of_def kernel_page_def PTE_U_def PTE_P_def PTE_W_def mask_eq_exp_minus_1)

lemma flags_low: "(PTE_U OR PTE_P OR PTE_W) AND NOT (mask 12) = 0"
  by (simp add: PTE_U_def PTE_P_def PTE_W_def mask_eq_exp_minus_1)

lemma pde_of_get: "kernel_page pt \<Longrightarrow> pde_get_pt (pde_of pt) = Some pt \<and> pde_of pt \<noteq> 0"
proof -
  assume pt: "kernel_page pt"
  have "bit (pde_of pt) 0" using entry_addr(3) [OF pt flags_low, of 0] by (simp add: pde_of_def PTE_P_def PTE_U_def PTE_W_def bit_simps)
  then have "pde_of pt AND PTE_P \<noteq> 0" "pde_of pt \<noteq> 0" by (auto simp: PTE_P_def and_one_eq bit_0 odd_iff_mod_2_eq_one)
  with entry_addr(1) [OF pt flags_low] show ?thesis by (simp add: pde_get_pt_def pde_of_def)
qed

lemma pd_okD:
  assumes "pd_ok pd s"
  shows "palloc_ok (pal s)" "kernel_page pd" "page_range pd 1 \<subseteq> in_use (pal s)" "pd \<noteq> 0" "PHYS_BASE \<le> pool_base (kernel_pool (pal s))"
    and "i < pd_no PHYS_BASE \<Longrightarrow> tab s pd i = Some pt \<Longrightarrow>
      word_at s (pd + 4 * i) = pde_of pt \<and> kernel_page pt \<and> pt \<noteq> pd \<and> page_range pt 1 \<subseteq> in_use (pal s)"
    and "i < pd_no PHYS_BASE \<Longrightarrow> tab s pd i = None \<longleftrightarrow> word_at s (pd + 4 * i) = 0"
    and "i < pd_no PHYS_BASE \<Longrightarrow> j < pd_no PHYS_BASE \<Longrightarrow> i \<noteq> j \<Longrightarrow> tab s pd i = Some pt \<Longrightarrow> tab s pd j = Some pt' \<Longrightarrow> pt \<noteq> pt'"
proof -
  show "palloc_ok (pal s)" "kernel_page pd" "page_range pd 1 \<subseteq> in_use (pal s)" "PHYS_BASE \<le> pool_base (kernel_pool (pal s))"
    using assms by (simp_all add: pd_ok_def)
  then show "pd \<noteq> 0" by (auto simp: kernel_page_def PHYS_BASE_def)
  have t: "word_at s (pd + 4 * i) = 0 \<or> (\<exists>pt. word_at s (pd + 4 * i) = pde_of pt \<and> kernel_page pt \<and> pt \<noteq> pd \<and> page_range pt 1 \<subseteq> in_use (pal s))"
    if "i < pd_no PHYS_BASE" for i using assms that unfolding pd_ok_def by blast
  show "word_at s (pd + 4 * i) = pde_of pt \<and> kernel_page pt \<and> pt \<noteq> pd \<and> page_range pt 1 \<subseteq> in_use (pal s)"
    if "i < pd_no PHYS_BASE" "tab s pd i = Some pt"
    using t [OF that(1)] that(2) pde_of_get by (auto simp: tab_def split: if_splits)
  show "tab s pd i = None \<longleftrightarrow> word_at s (pd + 4 * i) = 0" if "i < pd_no PHYS_BASE"
    using t [OF that] pde_of_get by (auto simp: tab_def)
  show "i < pd_no PHYS_BASE \<Longrightarrow> j < pd_no PHYS_BASE \<Longrightarrow> i \<noteq> j \<Longrightarrow> tab s pd i = Some pt \<Longrightarrow> tab s pd j = Some pt' \<Longrightarrow> pt \<noteq> pt'"
    using assms unfolding pd_ok_def by (metis option.distinct(1))
qed

lemma user_index: "is_user_vaddr va \<Longrightarrow> pd_no va < pd_no PHYS_BASE \<and> pd_no PHYS_BASE = 768"
proof -
  assume "is_user_vaddr va"
  then have "va < 768 * 2 ^ 22" by (simp add: is_user_vaddr_def PHYS_BASE_def)
  then show ?thesis by (simp add: pd_no_def PHYS_BASE_def div_less_iff_less_mult)
qed

lemma pd_no_split: "va div 2 ^ 12 div 2 ^ 10 = pd_no va"
  by (simp add: pd_no_def div_mult2_eq [symmetric])

lemma entry_va: "entry s pd (va div 2 ^ 12) = (case tab s pd (pd_no va) of None \<Rightarrow> 0 | Some pt \<Rightarrow> word_at s (pt + 4 * pt_no va))"
  unfolding entry_def pt_no_def pd_no_split ..

lemma lookup_page_found:
  assumes ok: "pd_ok pd s" and va: "is_user_vaddr va"
  shows "lookup_page pd va False s = Some (map_option (\<lambda>pt. pt + 4 * pt_no va) (tab s pd (pd_no va)), s)"
proof (cases "tab s pd (pd_no va)")
  case None
  then show ?thesis using pd_okD(4,7) [OF ok] user_index [OF va] by (simp add: lookup_page_def)
next
  case (Some pt)
  then have "word_at s (pd + 4 * pd_no va) = pde_of pt" "kernel_page pt" using pd_okD(6) [OF ok] user_index [OF va] by auto
  then show ?thesis using Some pde_of_get [of pt] pd_okD(4) [OF ok] by (simp add: lookup_page_def)
qed

text \<open>Words of different pages, and different words of a page, do not overlap.\<close>

lemma words_apart:
  assumes "kernel_page a" "kernel_page b" "i < 1024" "j < 1024" and "a \<noteq> b \<or> i \<noteq> j"
  shows "a + 4 * i + 4 \<le> b + 4 * j \<or> b + 4 * j + 4 \<le> a + 4 * i"
proof (cases "a = b")
  case False
  obtain k l where k: "a = 4096 * k" "b = 4096 * l"
    using assms(1,2) by (auto simp: kernel_page_def pg_ofs_def PGBITS_def elim!: dvdE simp: mod_eq_0_iff_dvd)
  with False have "k < l \<or> l < k" by auto
  then have "a + 4096 \<le> b \<or> b + 4096 \<le> a" using k by auto
  then show ?thesis using assms(3,4) by auto
next
  case True
  then show ?thesis using assms by auto
qed

text \<open>Storing into the page table of a user page changes exactly that entry.\<close>

lemma tab_store_other:
  assumes "kernel_page pd" "kernel_page pt" "pt \<noteq> pd" "k < 1024" "i < pd_no PHYS_BASE"
  shows "word_at (store_word (pt + 4 * k) w s) (pd + 4 * i) = word_at s (pd + 4 * i)"
    and "tab (store_word (pt + 4 * k) w s) pd i = tab s pd i"
proof -
  have "i < 1024" using assms(5) by (simp add: pd_no_def PHYS_BASE_def)
  then show "word_at (store_word (pt + 4 * k) w s) (pd + 4 * i) = word_at s (pd + 4 * i)"
    using words_apart [of pt pd k i] assms by (intro word_at_store_other) auto
  then show "tab (store_word (pt + 4 * k) w s) pd i = tab s pd i" by (simp add: tab_def)
qed

lemma pd_ok_store:
  assumes ok: "pd_ok pd s" and pt: "kernel_page pt" "pt \<noteq> pd" and k: "k < 1024"
  shows "pd_ok pd (store_word (pt + 4 * k) w s)"
proof -
  note t = tab_store_other [OF pd_okD(2) [OF ok] pt k]
  show ?thesis using ok unfolding pd_ok_def by (simp add: t)
qed

definition user_page_no :: "nat \<Rightarrow> bool" where
  "user_page_no n \<longleftrightarrow> n < PHYS_BASE div 2 ^ 12"

lemma user_page_noD: "user_page_no n \<Longrightarrow> n div 2 ^ 10 < pd_no PHYS_BASE"
proof -
  assume "user_page_no n"
  then have "n < 768 * 2 ^ 10" by (simp add: user_page_no_def PHYS_BASE_def)
  then show ?thesis by (simp add: pd_no_def PHYS_BASE_def div_less_iff_less_mult)
qed

lemma entry_store:
  assumes ok: "pd_ok pd s" and va: "is_user_vaddr va" and pt: "tab s pd (pd_no va) = Some pt" and n: "user_page_no n"
  shows "entry (store_word (pt + 4 * pt_no va) w s) pd n = (if n = va div 2 ^ 12 then w else entry s pd n)"
proof -
  let ?s = "store_word (pt + 4 * pt_no va) w s" and ?i = "n div 2 ^ 10"
  have i: "?i < pd_no PHYS_BASE" using n by (rule user_page_noD)
  have vi: "pd_no va < pd_no PHYS_BASE" using user_index [OF va] by simp
  have k: "pt_no va < 1024" by (simp add: pt_no_def)
  note p = pd_okD(6) [OF ok vi pt]
  have t: "tab ?s pd ?i = tab s pd ?i" using p k i by (intro tab_store_other pd_okD(2) [OF ok]) auto
  have same: "n = va div 2 ^ 12 \<longleftrightarrow> ?i = pd_no va \<and> n mod 2 ^ 10 = pt_no va"
  proof
    assume "?i = pd_no va \<and> n mod 2 ^ 10 = pt_no va"
    moreover have "va div 2 ^ 12 = pd_no va * 2 ^ 10 + pt_no va"
      unfolding pt_no_def pd_no_split [symmetric] by (rule div_mult_mod_eq [symmetric])
    ultimately show "n = va div 2 ^ 12" by (metis div_mult_mod_eq)
  qed (simp add: pt_no_def pd_no_split [symmetric])
  show ?thesis
  proof (cases "tab s pd ?i")
    case None
    then have "?i \<noteq> pd_no va" using pt by auto
    then show ?thesis using None t same by (simp add: entry_def)
  next
    case (Some pt')
    note p' = pd_okD(6) [OF ok i Some]
    show ?thesis
    proof (cases "?i = pd_no va")
      case True
      then have "pt' = pt" using Some pt by simp
      then show ?thesis using Some t same True words_apart [of pt pt "pt_no va" "n mod 2 ^ 10"] p k
        by (auto simp: entry_def word_at_store_other)
    next
      case False
      then have "pt' \<noteq> pt" using pd_okD(8) [OF ok i vi False Some pt] by simp
      then show ?thesis using Some t same False words_apart [of pt pt' "pt_no va" "n mod 2 ^ 10"] p p' k
        by (auto simp: entry_def word_at_store_other)
    qed
  qed
qed

text \<open>A new page table: every entry reads as before.\<close>

lemma lookup_page_create_tabs:
  assumes ok: "pd_ok pd s" and va: "is_user_vaddr va"
  shows "lookup_page pd va True s = Some (None, s) \<or>
    (\<exists>pt s'. lookup_page pd va True s = Some (Some (pt + 4 * pt_no va), s') \<and> pd_ok pd s' \<and> tab s' pd (pd_no va) = Some pt \<and>
       (\<forall>n. user_page_no n \<longrightarrow> entry s' pd n = entry s pd n) \<and> init_page_dir s' = init_page_dir s \<and> init_ram_pages s' = init_ram_pages s \<and>
       cr3 s' = cr3 s \<and> in_use (pal s) \<subseteq> in_use (pal s') \<and>
       (\<forall>j < pd_no PHYS_BASE. \<forall>q. tab s' pd j = Some q \<longrightarrow> tab s pd j = Some q \<or> page_range q 1 \<inter> in_use (pal s) = {}))"
proof (cases "tab s pd (pd_no va)")
  case (Some pt)
  have i: "pd_no va < pd_no PHYS_BASE" using user_index [OF va] by simp
  note p = pd_okD(6) [OF ok i Some]
  have "lookup_page pd va True s = Some (Some (pt + 4 * pt_no va), s)"
    using p pde_of_get [of pt] pd_okD(4) [OF ok] va by (simp add: lookup_page_def)
  then show ?thesis using ok Some by auto
next
  case None
  have i: "pd_no va < pd_no PHYS_BASE" using user_index [OF va] by simp
  have w0: "word_at s (pd + 4 * pd_no va) = 0" using pd_okD(7) [OF ok i] None by simp
  have z: "PAL_ZERO AND PAL_USER = 0" "PAL_ZERO AND PAL_ASSERT = 0" "PAL_ZERO AND PAL_ZERO \<noteq> 0"
    by (simp_all add: PAL_ZERO_def PAL_USER_def PAL_ASSERT_def)
  show ?thesis
  proof (cases rule: palloc_get_ok [OF pd_okD(1) [OF ok] zero_less_one, of PAL_ZERO])
    case 2
    then have "lookup_page pd va True s = Some (None, s)"
      using w0 va z pd_okD(4) [OF ok] by (simp add: lookup_page_def palloc_get_page_def)
    then show ?thesis ..
  next
    case (1 pt p)
    let ?s = "s\<lparr>pal := p\<rparr>" and ?pde = "pd + 4 * pd_no va"
    let ?t = "store_word ?pde (pde_of pt) ?s"
    have "pt \<in> page_range pt 1" by (simp add: page_range_def)
    then have "pool_base (kernel_pool (pal s)) \<le> pt" "pt < pool_end (kernel_pool (pal s))"
      using 1(7) z by (auto simp: get_pool_def)
    then have kp: "kernel_page pt"
      using 1(3) pd_okD(1,5) [OF ok] by (auto simp: kernel_page_def palloc_ok_def pool_ok_def)
    have fresh: "page_range pt 1 \<inter> in_use (pal s) = {}" using 1(5) .
    have ram: "ram p x = (if x \<in> page_range pt 1 then 0 else ram (pal s) x)" for x using 1(8) z by simp
    have old: "word_at ?s (a + 4 * j) = word_at s (a + 4 * j)" if "page_range a 1 \<subseteq> in_use (pal s)" "j < 1024" for a j
    proof (rule word_at_cong)
      fix x assume "a + 4 * j \<le> x" "x < a + 4 * j + 4"
      then have "x \<in> page_range a 1" using that(2) by (simp add: page_range_def PGSIZE_def)
      then show "ram (pal ?s) x = ram (pal s) x" using ram fresh that(1) by auto
    qed
    have new: "word_at ?s (pt + 4 * j) = 0" if "j < 1024" for j
      by (rule word_at_zero) (use that ram in \<open>simp add: page_range_def PGSIZE_def\<close>)
    have ne: "pt \<noteq> a" if "page_range a 1 \<subseteq> in_use (pal s)" for a
      using that fresh \<open>pt \<in> page_range pt 1\<close> by auto
    have i1024: "j < pd_no PHYS_BASE \<Longrightarrow> j < 1024" for j by (simp add: pd_no_def PHYS_BASE_def)
    note pdp = pd_okD(2,3) [OF ok]
    have wt: "word_at ?t (pd + 4 * j) = (if j = pd_no va then pde_of pt else word_at s (pd + 4 * j))" if "j < pd_no PHYS_BASE" for j
      using words_apart [of pd pd "pd_no va" j] pdp i i1024 that old [OF pdp(2), of j] by (auto simp: word_at_store_other)
    have tt: "tab ?t pd j = (if j = pd_no va then Some pt else tab s pd j)" if "j < pd_no PHYS_BASE" for j
      using wt [OF that] pde_of_get [OF kp] by (simp add: tab_def)
    have look: "lookup_page pd va True s = Some (Some (pt + 4 * pt_no va), ?t)"
      using 1(1) w0 va pd_okD(4) [OF ok] pde_of_create [OF kp] pde_of_get [OF kp]
      by (simp add: lookup_page_def palloc_get_page_def)
    have use: "in_use (pal ?t) = in_use (pal s) \<union> page_range pt 1" using 1(6) by simp
    have "pd_ok pd ?t"
    proof -
      have "\<forall>j < pd_no PHYS_BASE. word_at ?t (pd + 4 * j) = 0 \<or>
        (\<exists>q. word_at ?t (pd + 4 * j) = pde_of q \<and> kernel_page q \<and> q \<noteq> pd \<and> page_range q 1 \<subseteq> in_use (pal ?t))"
      proof (intro allI impI)
        fix j assume j: "j < pd_no PHYS_BASE"
        show "word_at ?t (pd + 4 * j) = 0 \<or>
          (\<exists>q. word_at ?t (pd + 4 * j) = pde_of q \<and> kernel_page q \<and> q \<noteq> pd \<and> page_range q 1 \<subseteq> in_use (pal ?t))"
        proof (cases "j = pd_no va")
          case True
          then show ?thesis unfolding wt [OF j] use using kp ne [OF pdp(2)] by auto
        next
          case False
          have "word_at s (pd + 4 * j) = 0 \<or>
            (\<exists>q. word_at s (pd + 4 * j) = pde_of q \<and> kernel_page q \<and> q \<noteq> pd \<and> page_range q 1 \<subseteq> in_use (pal s))"
            using ok j unfolding pd_ok_def by blast
          then show ?thesis unfolding wt [OF j] use if_not_P [OF False] by blast
        qed
      qed
      moreover have "\<forall>j k. j < pd_no PHYS_BASE \<longrightarrow> k < pd_no PHYS_BASE \<longrightarrow> j \<noteq> k \<longrightarrow> tab ?t pd j \<noteq> None \<longrightarrow> tab ?t pd j \<noteq> tab ?t pd k"
        using tt ok pd_okD(6) [OF ok] ne unfolding pd_ok_def by (metis option.inject)
      ultimately show ?thesis using ok 1(2) use 1(9) [of False] unfolding pd_ok_def by (auto simp: get_pool_def)
    qed
    moreover have "entry ?t pd n = entry s pd n" if "user_page_no n" for n
    proof -
      have j: "n div 2 ^ 10 < pd_no PHYS_BASE" "n mod 2 ^ 10 < 1024" using user_page_noD [OF that] by simp_all
      have r: "word_at ?t (a + 4 * (n mod 2 ^ 10)) = word_at ?s (a + 4 * (n mod 2 ^ 10))" if "kernel_page a" "a \<noteq> pd" for a
        using words_apart [of pd a "pd_no va" "n mod 2 ^ 10"] that pdp i i1024 j by (intro word_at_store_other) auto
      show ?thesis
      proof (cases "n div 2 ^ 10 = pd_no va")
        case True
        then show ?thesis using tt [OF j(1)] None r [OF kp ne [OF pdp(2)]] new [OF j(2)] by (simp add: entry_def)
      next
        case False
        then show ?thesis using tt [OF j(1)] r old j(2) pd_okD(6) [OF ok j(1)] by (auto simp: entry_def split: option.splits)
      qed
    qed
    ultimately show ?thesis using look tt [OF i] tt fresh use by auto
  qed
qed

lemma lookup_page_create:
  assumes ok: "pd_ok pd s" and va: "is_user_vaddr va"
  shows "lookup_page pd va True s = Some (None, s) \<or>
    (\<exists>pt s'. lookup_page pd va True s = Some (Some (pt + 4 * pt_no va), s') \<and> pd_ok pd s' \<and> tab s' pd (pd_no va) = Some pt \<and>
       (\<forall>n. user_page_no n \<longrightarrow> entry s' pd n = entry s pd n) \<and> init_page_dir s' = init_page_dir s \<and> init_ram_pages s' = init_ram_pages s \<and>
       cr3 s' = cr3 s \<and> in_use (pal s) \<subseteq> in_use (pal s'))"
  using lookup_page_create_tabs [OF ok va] by blast

section \<open>Setting and clearing entries\<close>

lemma pte_of_user:
  assumes "kernel_page k"
  shows "\<exists>e. pte_create_user k w = Some e \<and> pte_get_page e = Some k \<and> e AND PTE_P \<noteq> 0 \<and> (e AND PTE_W \<noteq> 0 \<longleftrightarrow> w)"
proof -
  let ?f = "PTE_P OR (if w then PTE_W else 0) OR PTE_U"
  let ?e = "of_nat (k - PHYS_BASE) OR ?f :: u32"
  have f: "?f AND NOT (mask 12) = 0" by (simp add: PTE_U_def PTE_P_def PTE_W_def mask_eq_exp_minus_1)
  note a = entry_addr [OF assms f]
  have "pte_create_user k w = Some ?e"
    using a(2) assms by (simp add: pte_create_user_def pte_create_kernel_def kernel_page_def or.assoc)
  moreover have "pte_get_page ?e = Some k" using a(1) by (simp add: pte_get_page_def)
  moreover have "bit ?e 0" "bit ?e 1 \<longleftrightarrow> w" using a(3) [of 0] a(3) [of 1] by (simp_all add: PTE_U_def PTE_P_def PTE_W_def bit_simps)
  then have "?e AND PTE_P \<noteq> 0" "?e AND PTE_W \<noteq> 0 \<longleftrightarrow> w"
    using and_exp_eq_0_iff_not_bit [of ?e 0] and_exp_eq_0_iff_not_bit [of ?e 1] by (simp_all add: PTE_P_def PTE_W_def)
  ultimately show ?thesis by blast
qed

text \<open>The mapping of a user page: its frame and whether it is writable.\<close>

definition mapping :: "'a pgs_scheme \<Rightarrow> nat \<Rightarrow> nat \<Rightarrow> (nat \<times> bool) option" where
  "mapping s pd n = (if entry s pd n AND PTE_P = 0 then None
     else map_option (\<lambda>k. (k, entry s pd n AND PTE_W \<noteq> 0)) (pte_get_page (entry s pd n)))"

lemma get_page_mapping:
  assumes ok: "pd_ok pd s" and va: "is_user_vaddr va" and m: "mapping s pd (va div 2 ^ 12) = Some (k, w) \<or> entry s pd (va div 2 ^ 12) AND PTE_P = 0"
  shows "pagedir_get_page pd va s = Some (map_option (\<lambda>(k, w). k + pg_ofs va) (mapping s pd (va div 2 ^ 12)))"
  using m va unfolding pagedir_get_page_def lookup_page_found [OF ok va] mapping_def entry_va
  by (auto split: option.splits if_splits)

lemma set_page_mapping:
  assumes ok: "pd_ok pd s" and u: "is_user_vaddr upage" "pg_ofs upage = 0" and k: "kernel_page kpage" "(kpage - PHYS_BASE) div 2 ^ 12 < init_ram_pages s"
    and pd: "pd \<noteq> init_page_dir s" and free: "mapping s pd (upage div 2 ^ 12) = None" "entry s pd (upage div 2 ^ 12) AND PTE_P = 0"
  shows "pagedir_set_page pd upage kpage writable s = Some (False, s) \<or>
    (\<exists>s'. pagedir_set_page pd upage kpage writable s = Some (True, s') \<and> pd_ok pd s' \<and>
       (\<forall>n. user_page_no n \<longrightarrow> mapping s' pd n = (if n = upage div 2 ^ 12 then Some (kpage, writable) else mapping s pd n)))"
  using lookup_page_create [OF ok u(1)]
proof
  have v: "vtop kpage = Some (kpage - PHYS_BASE)" using k(1) by (simp add: vtop_def kernel_page_def is_kernel_vaddr_def)
  note simps = pagedir_set_page_def v u k(1) [unfolded kernel_page_def] pd
  {
    assume "lookup_page pd upage True s = Some (None, s)"
    then show ?thesis using k(2) by (simp add: simps)
  next
    assume "\<exists>pt s'. lookup_page pd upage True s = Some (Some (pt + 4 * pt_no upage), s') \<and> pd_ok pd s' \<and> tab s' pd (pd_no upage) = Some pt \<and>
       (\<forall>n. user_page_no n \<longrightarrow> entry s' pd n = entry s pd n) \<and> init_page_dir s' = init_page_dir s \<and> init_ram_pages s' = init_ram_pages s \<and>
       cr3 s' = cr3 s \<and> in_use (pal s) \<subseteq> in_use (pal s')"
    then obtain pt s1 where 1: "lookup_page pd upage True s = Some (Some (pt + 4 * pt_no upage), s1)" "pd_ok pd s1" "tab s1 pd (pd_no upage) = Some pt"
      "\<And>n. user_page_no n \<Longrightarrow> entry s1 pd n = entry s pd n" by auto
    obtain e where e: "pte_create_user kpage writable = Some e" "pte_get_page e = Some kpage" "e AND PTE_P \<noteq> 0" "e AND PTE_W \<noteq> 0 \<longleftrightarrow> writable"
      using pte_of_user [OF k(1)] by blast
    have un: "user_page_no (upage div 2 ^ 12)" using u(1) by (simp add: user_page_no_def is_user_vaddr_def PHYS_BASE_def less_mult_imp_div_less)
    have "word_at s1 (pt + 4 * pt_no upage) AND PTE_P = 0"
      using 1(3) 1(4) [of "upage div 2 ^ 12"] un free(2) unfolding entry_va [of s1] by simp
    then have "pagedir_set_page pd upage kpage writable s = Some (True, store_word (pt + 4 * pt_no upage) e s1)"
      using 1(1) e(1) k(2) by (simp add: simps)
    moreover have "pd_ok pd (store_word (pt + 4 * pt_no upage) e s1)"
      using pd_okD(6) [OF 1(2) _ 1(3)] user_index [OF u(1)] by (intro pd_ok_store 1(2)) (auto simp: pt_no_def)
    ultimately show ?thesis
      using entry_store [OF 1(2) u(1) 1(3)] 1(4) e by (auto simp: mapping_def)
  }
qed

lemma set_page_keeps:
  assumes "pagedir_set_page pd upage kpage writable s = Some (ok, s')"
  shows "cr3 s' = cr3 s" and "init_page_dir s' = init_page_dir s" and "init_ram_pages s' = init_ram_pages s"
  using assms
  by (auto simp: pagedir_set_page_def lookup_page_def bind_eq_Some_iff Let_def split: if_splits option.splits)

text \<open>What a directory says depends on the memory alone; loading the base register changes none of it.\<close>

lemma word_at_pal: "pal s = pal t \<Longrightarrow> word_at s a = word_at t a"
  by (simp add: word_at_def)

lemma entry_pal: "pal s = pal t \<Longrightarrow> entry s pd n = entry t pd n"
  using word_at_pal [of s t] by (simp add: entry_def tab_def split: option.split)

lemma pd_ok_pal: "pal s = pal t \<Longrightarrow> pd_ok pd s = pd_ok pd t"
  using word_at_pal [of s t] by (simp add: pd_ok_def tab_def)

lemma activate_keeps: "pagedir_activate pd s = Some s' \<Longrightarrow> pal s' = pal s \<and> init_page_dir s' = init_page_dir s \<and> init_ram_pages s' = init_ram_pages s"
  by (auto simp: pagedir_activate_def bind_eq_Some_iff)

lemma invalidate_ok:
  assumes "kernel_page pd" and "cr3 s < PHYS_BASE"
  shows "\<exists>s'. invalidate_pagedir pd s = Some s' \<and> pal s' = pal s \<and> cr3 s' < PHYS_BASE"
  using assms by (auto simp: invalidate_pagedir_def active_pd_def ptov_def pagedir_activate_def vtop_def kernel_page_def is_kernel_vaddr_def PHYS_BASE_def)

lemma bind_Some_map: "m \<bind> (\<lambda>x. Some (f x)) = map_option f m"
  by (cases m) simp_all

lemma get_page_entry:
  assumes ok: "pd_ok pd s" and va: "is_user_vaddr va"
  shows "pagedir_get_page pd va s = (let e = entry s pd (va div 2 ^ 12) in
    if e AND PTE_P \<noteq> 0 then map_option (\<lambda>k. Some (k + pg_ofs va)) (pte_get_page e) else Some None)"
  using va unfolding pagedir_get_page_def lookup_page_found [OF ok va] entry_va Let_def
  by (auto simp: bind_Some_map split: option.splits if_splits)

lemma clear_page_entry:
  assumes ok: "pd_ok pd s" and u: "is_user_vaddr upage" "pg_ofs upage = 0" and c: "cr3 s < PHYS_BASE"
  shows "\<exists>s'. pagedir_clear_page pd upage s = Some s' \<and> pd_ok pd s' \<and> cr3 s' < PHYS_BASE \<and>
    (\<forall>j < pd_no PHYS_BASE. tab s' pd j = tab s pd j) \<and>
    (\<forall>n. user_page_no n \<longrightarrow> entry s' pd n = (if n = upage div 2 ^ 12 \<and> entry s pd n AND PTE_P \<noteq> 0 then entry s pd n AND NOT PTE_P else entry s pd n))"
proof (cases "entry s pd (upage div 2 ^ 12) AND PTE_P = 0")
  case True
  then have "pagedir_clear_page pd upage s = Some s"
    using u unfolding entry_va by (auto simp: pagedir_clear_page_def lookup_page_found [OF ok u(1)] split: option.splits)
  then show ?thesis using ok c True by auto
next
  case False
  then obtain pt where pt: "tab s pd (pd_no upage) = Some pt" unfolding entry_va by (auto split: option.splits)
  let ?w = "entry s pd (upage div 2 ^ 12) AND NOT PTE_P"
  let ?t = "store_word (pt + 4 * pt_no upage) ?w s"
  have i: "pd_no upage < pd_no PHYS_BASE" using user_index [OF u(1)] by simp
  have t: "pd_ok pd ?t" using pd_okD(6) [OF ok i pt] by (intro pd_ok_store ok) (auto simp: pt_no_def)
  have "cr3 ?t < PHYS_BASE" using c by simp
  then obtain s' where s': "invalidate_pagedir pd ?t = Some s'" "pal s' = pal ?t" "cr3 s' < PHYS_BASE"
    using invalidate_ok [OF pd_okD(2) [OF ok]] by blast
  have "pagedir_clear_page pd upage s = Some s'"
    using u False pt s'(1) unfolding entry_va by (simp add: pagedir_clear_page_def lookup_page_found [OF ok u(1)])
  moreover have "entry s' pd n = (if n = upage div 2 ^ 12 then ?w else entry s pd n)" if "user_page_no n" for n
    using entry_store [OF ok u(1) pt that] unfolding entry_pal [OF s'(2)] .
  moreover have "tab s' pd j = tab s pd j" if "j < pd_no PHYS_BASE" for j
  proof -
    have "tab s' pd j = tab ?t pd j" using word_at_pal [OF s'(2)] by (simp add: tab_def)
    then show ?thesis using tab_store_other(2) [OF pd_okD(2) [OF ok], of pt "pt_no upage" j] pd_okD(6) [OF ok i pt] that
      by (simp add: pt_no_def)
  qed
  ultimately show ?thesis using s'(3) t False by (auto simp: pd_ok_pal [OF s'(2)])
qed

lemma user_page_no_va: "is_user_vaddr va \<Longrightarrow> user_page_no (va div 2 ^ 12)"
  by (simp add: user_page_no_def is_user_vaddr_def PHYS_BASE_def less_mult_imp_div_less)

text \<open>Setting a page that is not present, at the level of the entries.\<close>

lemma set_page_entry:
  assumes ok: "pd_ok pd s" and u: "is_user_vaddr upage" "pg_ofs upage = 0" and k: "kernel_page kpage" "(kpage - PHYS_BASE) div 2 ^ 12 < init_ram_pages s"
    and pd: "pd \<noteq> init_page_dir s" and free: "entry s pd (upage div 2 ^ 12) AND PTE_P = 0"
  shows "pagedir_set_page pd upage kpage writable s = Some (False, s) \<or>
    (\<exists>s' e. pagedir_set_page pd upage kpage writable s = Some (True, s') \<and> pd_ok pd s' \<and>
       pte_create_user kpage writable = Some e \<and>
       (\<forall>n. user_page_no n \<longrightarrow> entry s' pd n = (if n = upage div 2 ^ 12 then e else entry s pd n)))"
  using lookup_page_create [OF ok u(1)]
proof
  have v: "vtop kpage = Some (kpage - PHYS_BASE)" using k(1) by (simp add: vtop_def kernel_page_def is_kernel_vaddr_def)
  note simps = pagedir_set_page_def v u k(1) [unfolded kernel_page_def] pd
  assume "lookup_page pd upage True s = Some (None, s)"
  then show ?thesis using k(2) by (simp add: simps)
next
  have v: "vtop kpage = Some (kpage - PHYS_BASE)" using k(1) by (simp add: vtop_def kernel_page_def is_kernel_vaddr_def)
  note simps = pagedir_set_page_def v u k(1) [unfolded kernel_page_def] pd
  assume "\<exists>pt s'. lookup_page pd upage True s = Some (Some (pt + 4 * pt_no upage), s') \<and> pd_ok pd s' \<and> tab s' pd (pd_no upage) = Some pt \<and>
     (\<forall>n. user_page_no n \<longrightarrow> entry s' pd n = entry s pd n) \<and> init_page_dir s' = init_page_dir s \<and> init_ram_pages s' = init_ram_pages s \<and>
     cr3 s' = cr3 s \<and> in_use (pal s) \<subseteq> in_use (pal s')"
  then obtain pt s1 where 1: "lookup_page pd upage True s = Some (Some (pt + 4 * pt_no upage), s1)" "pd_ok pd s1" "tab s1 pd (pd_no upage) = Some pt"
    "\<And>n. user_page_no n \<Longrightarrow> entry s1 pd n = entry s pd n" by auto
  obtain e where e: "pte_create_user kpage writable = Some e" using pte_of_user [OF k(1)] by blast
  have "word_at s1 (pt + 4 * pt_no upage) AND PTE_P = 0"
    using 1(3) 1(4) [OF user_page_no_va [OF u(1)]] free unfolding entry_va [of s1] by simp
  then have "pagedir_set_page pd upage kpage writable s = Some (True, store_word (pt + 4 * pt_no upage) e s1)"
    using 1(1) e k(2) by (simp add: simps)
  moreover have "pd_ok pd (store_word (pt + 4 * pt_no upage) e s1)"
    using pd_okD(6) [OF 1(2) _ 1(3)] user_index [OF u(1)] by (intro pd_ok_store 1(2)) (auto simp: pt_no_def)
  ultimately show ?thesis using entry_store [OF 1(2) u(1) 1(3)] 1(4) e by auto
qed

section \<open>Properties\<close>

text \<open>
  C18: a page directory is a map from user pages to frames. When a page that is not present is installed and there is
  memory for its page table, every address of the page is then translated to its frame with the same offset, and every
  other user address as before; clearing the page takes the translation away again and no other. The tables stay sound and the
  kernel does not stop.
\<close>

theorem page_directory_is_map:
  assumes "pd_ok pd s" and "is_user_vaddr upage" "pg_ofs upage = 0" and "kernel_page kpage" "(kpage - PHYS_BASE) div 2 ^ 12 < init_ram_pages s"
    and "pd \<noteq> init_page_dir s" and "pagedir_get_page pd upage s = Some None" and "cr3 s < PHYS_BASE"
  shows "pagedir_set_page pd upage kpage writable s = Some (False, s) \<or>
    (\<exists>s1 s2. pagedir_set_page pd upage kpage writable s = Some (True, s1) \<and> pd_ok pd s1 \<and> pagedir_is_writable pd upage s1 = Some writable \<and>
       pagedir_clear_page pd upage s1 = Some s2 \<and> pd_ok pd s2 \<and>
       (\<forall>va. is_user_vaddr va \<longrightarrow>
          pagedir_get_page pd va s1 = (if va div 2 ^ 12 = upage div 2 ^ 12 then Some (Some (kpage + pg_ofs va)) else pagedir_get_page pd va s) \<and>
          pagedir_get_page pd va s2 = (if va div 2 ^ 12 = upage div 2 ^ 12 then Some None else pagedir_get_page pd va s)))"
proof -
  have free: "entry s pd (upage div 2 ^ 12) AND PTE_P = 0"
    using assms(7) unfolding get_page_entry [OF assms(1,2)] by (auto simp: Let_def split: if_splits)
  obtain e0 where e0: "pte_create_user kpage writable = Some e0" "pte_get_page e0 = Some kpage" "e0 AND PTE_P \<noteq> 0" "e0 AND PTE_W \<noteq> 0 \<longleftrightarrow> writable"
    using pte_of_user [OF assms(4)] by blast
  from set_page_entry [OF assms(1-6) free, of writable] show ?thesis
  proof (elim disjE exE conjE)
    fix s1 e assume s1: "pagedir_set_page pd upage kpage writable s = Some (True, s1)" "pd_ok pd s1" "pte_create_user kpage writable = Some e"
      and ent: "\<forall>n. user_page_no n \<longrightarrow> entry s1 pd n = (if n = upage div 2 ^ 12 then e else entry s pd n)"
    have e: "e = e0" using s1(3) e0(1) by simp
    have "cr3 s1 < PHYS_BASE" using set_page_keeps(1) [OF s1(1)] assms(8) by simp
    then obtain s2 where s2: "pagedir_clear_page pd upage s1 = Some s2" "pd_ok pd s2"
      and ent2: "\<And>n. user_page_no n \<Longrightarrow> entry s2 pd n = (if n = upage div 2 ^ 12 \<and> entry s1 pd n AND PTE_P \<noteq> 0 then entry s1 pd n AND NOT PTE_P else entry s1 pd n)"
      using clear_page_entry [OF s1(2) assms(2,3)] by blast
    have p0: "(e0 AND NOT PTE_P) AND PTE_P = 0" by (simp add: PTE_P_def and.assoc)
    have "pagedir_is_writable pd upage s1 = Some writable"
      using ent [rule_format, OF user_page_no_va [OF assms(2)]] e e0(3,4)
      unfolding entry_va by (auto simp: pagedir_is_writable_def pagedir_test_def lookup_page_found [OF s1(2) assms(2)] split: option.splits)
    moreover have "pagedir_get_page pd va s1 = Some (Some (kpage + pg_ofs va)) \<and> pagedir_get_page pd va s2 = Some None"
      if "is_user_vaddr va" "va div 2 ^ 12 = upage div 2 ^ 12" for va
      using ent [rule_format, OF user_page_no_va [OF that(1)]] ent2 [OF user_page_no_va [OF that(1)]] that(2) e e0(2,3) p0
      unfolding get_page_entry [OF s1(2) that(1)] get_page_entry [OF s2(2) that(1)] by simp
    moreover have "pagedir_get_page pd va s1 = pagedir_get_page pd va s \<and> pagedir_get_page pd va s2 = pagedir_get_page pd va s"
      if "is_user_vaddr va" "va div 2 ^ 12 \<noteq> upage div 2 ^ 12" for va
      using ent [rule_format, OF user_page_no_va [OF that(1)]] ent2 [OF user_page_no_va [OF that(1)]] that(2)
      unfolding get_page_entry [OF s1(2) that(1)] get_page_entry [OF s2(2) that(1)] get_page_entry [OF assms(1) that(1)] by simp
    ultimately show ?thesis using s1(1,2) s2 by (intro disjI2 exI [of _ s1] exI [of _ s2]) simp
  qed simp
qed

definition demo_pgs :: pgs where
  "demo_pgs = \<lparr>pal = \<lparr>kernel_pool = \<lparr>pool_lock = False, used_map = \<lparr>bit_cnt = 8, bits = [1]\<rparr>, pool_base = 0xC0100000\<rparr>,
       user_pool = demo_pool 0xC0200000, ram = (\<lambda>_. 0)\<rparr>,
     cr3 = 0x100000, flushes = 0, init_page_dir = 0xC0108000, init_ram_pages = 1024\<rparr>"

lemma demo_word: "word_at demo_pgs a = 0"
  by (rule word_at_zero) (simp add: demo_pgs_def)

lemma one_used: "bitmap_used \<lparr>bit_cnt = 8, bits = [1]\<rparr> = {0}"
proof -
  have "bit (1 :: u32) i \<longleftrightarrow> i = 0" for i by (auto simp: bit_1_iff)
  then have "bitmap_bit \<lparr>bit_cnt = 8, bits = [1]\<rparr> i \<longleftrightarrow> i = 0" if "i < 8" for i
    using that by (simp add: bitmap_bit_def ELEM_BITS_def)
  then show ?thesis by (auto simp: bitmap_used_def bitmap_abs_def simp del: upt_Suc upt_rec_numeral)
qed

lemma demo_pgs_ok: "pd_ok 0xC0100000 demo_pgs"
proof -
  have "palloc_ok (pal demo_pgs)"
    by (simp add: demo_pgs_def palloc_ok_def pool_ok_def pool_end_def demo_pool_def bitmap_wf_def elem_cnt_def ELEM_BITS_def DIV_ROUND_UP_def PGSIZE_def)
  moreover have "page_range 0xC0100000 1 \<subseteq> in_use (pal demo_pgs)"
  proof
    fix x assume "x \<in> page_range 0xC0100000 1"
    then have x: "0xC0100000 \<le> x" "x - 0xC0100000 < 4096" by (auto simp: page_range_def PGSIZE_def)
    then have "(x - 0xC0100000) div PGSIZE = 0" unfolding PGSIZE_def by (intro div_less)
    with x(1) show "x \<in> in_use (pal demo_pgs)" by (simp add: in_use_def pool_used_def demo_pgs_def one_used)
  qed
  moreover have "kernel_page 0xC0100000" by (simp add: kernel_page_def PHYS_BASE_def pg_ofs_def PGBITS_def)
  moreover have "PHYS_BASE \<le> pool_base (kernel_pool (pal demo_pgs))" by (simp add: demo_pgs_def PHYS_BASE_def)
  ultimately show ?thesis by (simp add: pd_ok_def demo_word tab_def)
qed

theorem page_directory_witness:
  "\<exists>s1 s2. pagedir_set_page 0xC0100000 0x8048000 0xC0200000 False demo_pgs = Some (True, s1) \<and>
     pagedir_get_page 0xC0100000 0x8048123 s1 = Some (Some 0xC0200123) \<and> pagedir_is_writable 0xC0100000 0x8048000 s1 = Some False \<and>
     pagedir_clear_page 0xC0100000 0x8048000 s1 = Some s2 \<and> pagedir_get_page 0xC0100000 0x8048123 s2 = Some None"
proof -
  have u: "is_user_vaddr 0x8048000" "is_user_vaddr 0x8048123" "pg_ofs 0x8048000 = 0" "pg_ofs 0x8048123 = 0x123"
    by (simp_all add: is_user_vaddr_def PHYS_BASE_def pg_ofs_def PGBITS_def)
  have k: "kernel_page 0xC0200000" "(0xC0200000 - PHYS_BASE) div 2 ^ 12 < init_ram_pages demo_pgs"
    by (simp_all add: kernel_page_def PHYS_BASE_def pg_ofs_def PGBITS_def demo_pgs_def)
  have z: "PAL_ZERO AND PAL_USER = 0" "PAL_ZERO AND PAL_ASSERT = 0" by (simp_all add: PAL_ZERO_def PAL_USER_def PAL_ASSERT_def)
  have "pagedir_get_page 0xC0100000 0x8048000 demo_pgs = Some None"
    unfolding get_page_entry [OF demo_pgs_ok u(1)] by (simp add: entry_def tab_def demo_word)
  moreover have "cr3 demo_pgs < PHYS_BASE" "0xC0100000 \<noteq> init_page_dir demo_pgs" by (simp_all add: demo_pgs_def PHYS_BASE_def)
  moreover have "pagedir_set_page 0xC0100000 0x8048000 0xC0200000 False demo_pgs \<noteq> Some (False, demo_pgs)"
  proof (cases rule: palloc_get_ok [OF pd_okD(1) [OF demo_pgs_ok] zero_less_one, of PAL_ZERO])
    case (1 a p)
    then show ?thesis using u(1)
      by (auto simp: pagedir_set_page_def lookup_page_def palloc_get_page_def demo_word bind_eq_Some_iff)
  next
    case 2
    then show ?thesis by (auto simp: z get_pool_def demo_pgs_def one_used)
  qed
  ultimately show ?thesis
    using page_directory_is_map [OF demo_pgs_ok u(1,3) k, of False] u by (auto simp: pg_ofs_def PGBITS_def)
qed

end
