(* ===== verification/Swap.thy ===== *)
theory Swap
  imports Bitmap Block Threads
begin

text \<open>
  Swap space, \<^verbatim>\<open>vm/swap.c\<close>: pages are kept in slots of eight consecutive sectors of the swap device, and a bitmap
  records the slots that are free (a set bit is a free slot). A page is the list of its bytes. The two locks,
  \<^verbatim>\<open>swap_lock\<close> and the file system's, are flags that have to be free when they are acquired.
\<close>

section \<open>Operations\<close>

definition SECTORS_PER_PAGE :: nat where "SECTORS_PER_PAGE = PGSIZE div BLOCK_SECTOR_SIZE"

record swap =
  swap_lock :: bool
  swap_fs_lock :: bool
  swap_bm :: bitmap
  swap_device :: nat
  swap_devs :: devices

text \<open>\<open>mem\<close> is the memory that \<^verbatim>\<open>bitmap_create\<close> gets for the bits; without it an assertion fails.\<close>

definition swap_init :: "u32 list option \<Rightarrow> devices \<Rightarrow> swap option" where
  "swap_init mem d = do {
     dev \<leftarrow> block_get_role BLOCK_SWAP d;
     dev \<leftarrow> dev;
     n \<leftarrow> block_size dev d;
     bm \<leftarrow> bitmap_create True mem (n div SECTORS_PER_PAGE);
     bm \<leftarrow> bm;
     bm \<leftarrow> bitmap_set_all bm True;
     Some \<lparr>swap_lock = False, swap_fs_lock = False, swap_bm = bm, swap_device = dev, swap_devs = d\<rparr> }"

definition swap_free :: "nat \<Rightarrow> swap \<Rightarrow> swap option" where
  "swap_free st s = do { bm \<leftarrow> bitmap_flip (swap_bm s) st; Some (s\<lparr>swap_bm := bm\<rparr>) }"

primrec swap_in_loop :: "nat \<Rightarrow> nat \<Rightarrow> swap \<Rightarrow> (u8 list \<times> swap) option" where
  "swap_in_loop 0 from s = Some ([], s)"
| "swap_in_loop (Suc n) from s = do {
     ASSERT (\<not> swap_fs_lock s);
     (buf, d) \<leftarrow> block_read (swap_device s) from (swap_devs s);
     (rest, s) \<leftarrow> swap_in_loop n (from + 1) (s\<lparr>swap_devs := d\<rparr>);
     Some (buf @ rest, s) }"

definition swap_in :: "nat \<Rightarrow> swap \<Rightarrow> (u8 list \<times> swap) option" where
  "swap_in slot s = do {
     ASSERT (\<not> swap_lock s);
     let swap_addr_base = sz (slot * SECTORS_PER_PAGE);
     (page, s) \<leftarrow> swap_in_loop SECTORS_PER_PAGE swap_addr_base s;
     s \<leftarrow> swap_free slot s;
     Some (page, s) }"

primrec swap_out_loop :: "nat \<Rightarrow> nat \<Rightarrow> u8 list \<Rightarrow> swap \<Rightarrow> swap option" where
  "swap_out_loop 0 to page s = Some s"
| "swap_out_loop (Suc n) to page s = do {
     d \<leftarrow> block_write (swap_device s) to (take BLOCK_SECTOR_SIZE page) (swap_devs s);
     swap_out_loop n (to + 1) (drop BLOCK_SECTOR_SIZE page) (s\<lparr>swap_devs := d\<rparr>) }"

text \<open>\<^verbatim>\<open>SWAP_ERROR\<close> is \<open>None\<close>.\<close>

definition swap_out :: "u8 list \<Rightarrow> swap \<Rightarrow> (nat option \<times> swap) option" where
  "swap_out page s = do {
     ASSERT (\<not> swap_lock s);
     (slot, bm) \<leftarrow> bitmap_scan_and_flip (swap_bm s) 0 1 True;
     let s = s\<lparr>swap_bm := bm\<rparr>;
     if slot \<noteq> BITMAP_ERROR then do {
       ASSERT (\<not> swap_fs_lock s);
       s \<leftarrow> swap_out_loop SECTORS_PER_PAGE (sz (slot * SECTORS_PER_PAGE)) page s;
       Some (Some slot, s) }
     else Some (None, s) }"

section \<open>The contract of a page store\<close>

text \<open>
  What the code that evicts pages relies on: a page that was put away is kept, whatever else is put away after it,
  until it is fetched, and fetching it frees its slot.
\<close>

fun put_all :: "('p \<Rightarrow> 's \<Rightarrow> (nat option \<times> 's) option) \<Rightarrow> 'p list \<Rightarrow> 's \<Rightarrow> (nat option list \<times> 's) option" where
  "put_all put [] s = Some ([], s)"
| "put_all put (p # ps) s = do { (i, s) \<leftarrow> put p s; (is, s) \<leftarrow> put_all put ps s; Some (i # is, s) }"

locale page_store =
  fixes put :: "'p \<Rightarrow> 's \<Rightarrow> (nat option \<times> 's) option"
    and fetch :: "nat \<Rightarrow> 's \<Rightarrow> ('p \<times> 's) option"
    and view :: "'s \<Rightarrow> nat \<rightharpoonup> 'p"
    and slots :: "'s \<Rightarrow> nat"
    and invar :: "'s \<Rightarrow> bool"
    and is_page :: "'p \<Rightarrow> bool"
  assumes put_law: "invar s \<Longrightarrow> is_page p \<Longrightarrow>
      (\<exists>i s'. put p s = Some (Some i, s') \<and> invar s' \<and> slots s' = slots s \<and> view s i = None \<and> view s' = (view s)(i \<mapsto> p)) \<or>
      put p s = Some (None, s) \<and> (\<forall>i < slots s. view s i \<noteq> None)"
    and fetch_law: "invar s \<Longrightarrow> view s i = Some p \<Longrightarrow>
      \<exists>s'. fetch i s = Some (p, s') \<and> invar s' \<and> slots s' = slots s \<and> view s' = (view s)(i := None)"
begin

lemma put_all_keeps:
  "invar s \<Longrightarrow> \<forall>p \<in> set ps. is_page p \<Longrightarrow> view s i = Some q \<Longrightarrow> \<exists>r s'. put_all put ps s = Some (r, s') \<and> invar s' \<and> view s' i = Some q"
proof (induction ps arbitrary: s)
  case (Cons p ps)
  from put_law [OF Cons.prems(1), of p] Cons.prems(2)
  consider (1) j s1 where "put p s = Some (Some j, s1)" "invar s1" "view s j = None" "view s1 = (view s)(j \<mapsto> p)"
    | (2) "put p s = Some (None, s)" by auto
  then show ?case
  proof cases
    case 1
    then have "view s1 i = Some q" using Cons.prems(3) by auto
    then obtain r s' where "put_all put ps s1 = Some (r, s')" "invar s'" "view s' i = Some q"
      using Cons.IH [OF 1(2)] Cons.prems(2) by auto
    then show ?thesis using 1(1) by simp
  next
    case 2
    then show ?thesis using Cons.IH [OF Cons.prems(1)] Cons.prems(2,3) by auto
  qed
qed simp

lemma put_fetch:
  assumes "invar s" and "is_page p" and "put p s = Some (Some i, s1)" and "\<forall>q \<in> set qs. is_page q"
  shows "\<exists>r s2 s3. put_all put qs s1 = Some (r, s2) \<and> fetch i s2 = Some (p, s3) \<and> invar s3 \<and> view s3 i = None"
proof -
  have "invar s1" "view s1 i = Some p" using put_law [OF assms(1,2)] assms(3) by auto
  then obtain r s2 where 2: "put_all put qs s1 = Some (r, s2)" "invar s2" "view s2 i = Some p"
    using put_all_keeps assms(4) by blast
  then show ?thesis using fetch_law [OF 2(2,3)] by auto
qed

end

section \<open>Swap space keeps the contract\<close>

definition swap_ok :: "swap \<Rightarrow> bool" where
  "swap_ok s \<longleftrightarrow> \<not> swap_lock s \<and> \<not> swap_fs_lock s \<and> bitmap_wf (swap_bm s) \<and> dev_ok (swap_device s) (swap_devs s) \<and>
     bit_cnt (swap_bm s) * SECTORS_PER_PAGE \<le> dev_size (swap_devs s) (swap_device s)"

definition slot_page :: "swap \<Rightarrow> nat \<Rightarrow> u8 list" where
  "slot_page s i = concat (map (dev_sector (swap_devs s) (swap_device s)) [i * SECTORS_PER_PAGE..<i * SECTORS_PER_PAGE + SECTORS_PER_PAGE])"

definition swap_view :: "swap \<Rightarrow> nat \<rightharpoonup> u8 list" where
  "swap_view s i = (if i < bit_cnt (swap_bm s) \<and> \<not> bitmap_abs (swap_bm s) ! i then Some (slot_page s i) else None)"

definition is_page :: "u8 list \<Rightarrow> bool" where
  "is_page page \<longleftrightarrow> length page = PGSIZE"

lemma swap_in_loop_ok:
  "dev_ok (swap_device s) (swap_devs s) \<Longrightarrow> from + n \<le> dev_size (swap_devs s) (swap_device s) \<Longrightarrow> \<not> swap_fs_lock s \<Longrightarrow>
   \<exists>d. swap_in_loop n from s = Some (concat (map (dev_sector (swap_devs s) (swap_device s)) [from..<from + n]), s\<lparr>swap_devs := d\<rparr>) \<and>
     same_shape (swap_devs s) d \<and> dev_sector d = dev_sector (swap_devs s)"
proof (induction n arbitrary: "from" s)
  case 0
  then show ?case by (intro exI [of _ "swap_devs s"]) simp
next
  case (Suc n)
  obtain d where d: "block_read (swap_device s) from (swap_devs s) = Some (dev_sector (swap_devs s) (swap_device s) from, d)"
    "same_shape (swap_devs s) d" "dev_sector d = dev_sector (swap_devs s)"
    using block_read_ok [OF Suc.prems(1), of "from"] Suc.prems(2) by auto
  let ?s = "s\<lparr>swap_devs := d\<rparr>"
  obtain d' where "swap_in_loop n (from + 1) ?s = Some (concat (map (dev_sector d (swap_device s)) [from + 1..<from + 1 + n]), s\<lparr>swap_devs := d'\<rparr>)"
    "same_shape d d'" "dev_sector d' = dev_sector d"
    using Suc.IH [of ?s "from + 1"] Suc.prems same_shapeD [OF d(2)] by auto
  moreover have "[from..<from + Suc n] = from # [from + 1..<from + 1 + n]" by (simp add: upt_conv_Cons del: upt_Suc)
  ultimately show ?case using d Suc.prems(3) same_shape_trans [OF d(2)] by (auto simp del: upt_Suc)
qed

lemma swap_out_loop_ok:
  "dev_ok (swap_device s) (swap_devs s) \<Longrightarrow> to + n \<le> dev_size (swap_devs s) (swap_device s) \<Longrightarrow> length page = n * BLOCK_SECTOR_SIZE \<Longrightarrow>
   \<exists>d. swap_out_loop n to page s = Some (s\<lparr>swap_devs := d\<rparr>) \<and> same_shape (swap_devs s) d \<and>
     (\<forall>m. dev_sector d (swap_device s) m =
       (if to \<le> m \<and> m < to + n then segment page ((m - to) * BLOCK_SECTOR_SIZE) BLOCK_SECTOR_SIZE else dev_sector (swap_devs s) (swap_device s) m))"
proof (induction n arbitrary: to page s)
  case 0
  then show ?case by (intro exI [of _ "swap_devs s"]) auto
next
  case (Suc n)
  let ?b = "swap_device s" and ?S = BLOCK_SECTOR_SIZE
  obtain d where d: "block_write ?b to (take ?S page) (swap_devs s) = Some d" "same_shape (swap_devs s) d"
    "\<And>m. dev_sector d ?b m = (if m = to then take ?S page else dev_sector (swap_devs s) ?b m)"
  proof (rule block_write_ok [OF Suc.prems(1), of to "take ?S page"])
    fix d' assume "block_write ?b to (take ?S page) (swap_devs s) = Some d'" "same_shape (swap_devs s) d'"
      "\<And>c m. dev_sector d' c m = (if locate (swap_devs s) c m = locate (swap_devs s) ?b to then take ?S page else dev_sector (swap_devs s) c m)"
    then show thesis using locate_inj that by metis
  qed (use Suc.prems in auto)
  let ?s = "s\<lparr>swap_devs := d\<rparr>"
  obtain d' where d': "swap_out_loop n (to + 1) (drop ?S page) ?s = Some (s\<lparr>swap_devs := d'\<rparr>)" "same_shape d d'"
    "\<And>m. dev_sector d' ?b m = (if to + 1 \<le> m \<and> m < to + 1 + n then segment (drop ?S page) ((m - (to + 1)) * ?S) ?S else dev_sector d ?b m)"
    using Suc.IH [of ?s "to + 1" "drop ?S page"] Suc.prems same_shapeD [OF d(2)] by auto
  have "dev_sector d' ?b m = (if to \<le> m \<and> m < to + Suc n then segment page ((m - to) * ?S) ?S else dev_sector (swap_devs s) ?b m)" for m
  proof (cases "to + 1 \<le> m \<and> m < to + 1 + n")
    case True
    then have "?S + (m - (to + 1)) * ?S = (m - to) * ?S" by (metis Suc_diff_le Suc_eq_plus1 diff_Suc_Suc mult_Suc add_diff_inverse_nat linorder_not_less)
    with True show ?thesis by (simp add: d'(3) segment_def add.commute)
  next
    case False
    then show ?thesis using d'(3) [of m] d(3) [of m] by (auto simp: segment_def)
  qed
  then show ?case using d(1) d'(1,2) same_shape_trans [OF d(2)] by auto
qed

lemma concat_segments: "n * k \<le> length xs \<Longrightarrow> concat (map (\<lambda>j. segment xs (j * k) k) [0..<n]) = take (n * k) xs"
proof (induction n)
  case (Suc n)
  then have "take (Suc n * k) xs = take (n * k) xs @ segment xs (n * k) k"
    by (simp add: segment_def take_add [symmetric] add.commute)
  then show ?case using Suc by simp
qed simp

lemma sectors_per_page: "SECTORS_PER_PAGE * BLOCK_SECTOR_SIZE = PGSIZE" "0 < SECTORS_PER_PAGE"
  by (simp_all add: SECTORS_PER_PAGE_def PGSIZE_def BLOCK_SECTOR_SIZE_def)

lemma slot_page_written:
  assumes "is_page page"
    and "\<forall>m. dev_sector d b m = (if i * SECTORS_PER_PAGE \<le> m \<and> m < i * SECTORS_PER_PAGE + SECTORS_PER_PAGE
      then segment page ((m - i * SECTORS_PER_PAGE) * BLOCK_SECTOR_SIZE) BLOCK_SECTOR_SIZE else dev_sector d0 b m)"
  shows "concat (map (dev_sector d b) [j * SECTORS_PER_PAGE..<j * SECTORS_PER_PAGE + SECTORS_PER_PAGE]) =
    (if j = i then page else concat (map (dev_sector d0 b) [j * SECTORS_PER_PAGE..<j * SECTORS_PER_PAGE + SECTORS_PER_PAGE]))"
proof -
  let ?n = SECTORS_PER_PAGE
  have up: "[j * ?n..<j * ?n + ?n] = map (\<lambda>k. j * ?n + k) [0..<?n]" by (simp add: map_add_upt add.commute)
  show ?thesis
  proof (cases "j = i")
    case True
    have "map (dev_sector d b) [j * ?n..<j * ?n + ?n] = map (\<lambda>k. segment page (k * BLOCK_SECTOR_SIZE) BLOCK_SECTOR_SIZE) [0..<?n]"
      unfolding up map_map comp_def using assms(2) True by (intro map_cong refl) simp
    then show ?thesis using True concat_segments [of ?n BLOCK_SECTOR_SIZE page] assms(1) sectors_per_page by (simp add: is_page_def)
  next
    case False
    have "\<not> (i * ?n \<le> m \<and> m < i * ?n + ?n)" if "j * ?n \<le> m" "m < j * ?n + ?n" for m
    proof
      assume m: "i * ?n \<le> m \<and> m < i * ?n + ?n"
      have "m div ?n = i" using m sectors_per_page(2) by (intro div_nat_eqI) (simp_all add: mult.commute)
      moreover have "m div ?n = j" using that sectors_per_page(2) by (intro div_nat_eqI) (simp_all add: mult.commute)
      ultimately show False using False by simp
    qed
    then have "map (dev_sector d b) [j * ?n..<j * ?n + ?n] = map (dev_sector d0 b) [j * ?n..<j * ?n + ?n]"
      using assms(2) by (intro map_cong refl) auto
    then show ?thesis by (simp only: if_not_P [OF False])
  qed
qed

lemma slot_in_device:
  assumes "swap_ok s" and "i < bit_cnt (swap_bm s)"
  shows "i * SECTORS_PER_PAGE + SECTORS_PER_PAGE \<le> dev_size (swap_devs s) (swap_device s)" and "sz (i * SECTORS_PER_PAGE) = i * SECTORS_PER_PAGE"
proof -
  have "(i + 1) * SECTORS_PER_PAGE \<le> bit_cnt (swap_bm s) * SECTORS_PER_PAGE" using assms(2) by (intro mult_le_mono1) simp
  then show le: "i * SECTORS_PER_PAGE + SECTORS_PER_PAGE \<le> dev_size (swap_devs s) (swap_device s)" using assms(1) by (simp add: swap_ok_def)
  have "dev_size (swap_devs s) (swap_device s) < 2 ^ 32" using assms(1) dev_okD(2) by (auto simp: swap_ok_def dev_size_def)
  with le show "sz (i * SECTORS_PER_PAGE) = i * SECTORS_PER_PAGE" by simp
qed

lemma swap_bm_cases:
  assumes "bitmap_wf b"
  obtains (found) i b' where "bitmap_scan_and_flip b 0 1 True = Some (i, b')" "i \<noteq> BITMAP_ERROR" "i < bit_cnt b" "bitmap_abs b ! i"
      "bitmap_wf b'" "bit_cnt b' = bit_cnt b" "bitmap_abs b' = (bitmap_abs b)[i := False]"
    | (missing) "bitmap_scan_and_flip b 0 1 True = Some (BITMAP_ERROR, b)" "\<forall>i < bit_cnt b. \<not> bitmap_abs b ! i"
proof (cases rule: bitmap_scan_cases [OF assms le0 zero_less_one, of True])
  case (1 i)
  have i: "i < bit_cnt b" "bitmap_abs b ! i" using 1(4) by (auto simp: run_at_one)
  then have "i + 1 \<le> bit_cnt b" by simp
  from bitmap_set_multiple_abs [OF assms this, of False]
  obtain b' where b': "bitmap_set_multiple b i 1 False = Some b'" "bitmap_wf b'" "bitmap_abs b' = overwrite (bitmap_abs b) i [False]" by auto
  have "overwrite (bitmap_abs b) i [False] = (bitmap_abs b)[i := False]"
    using i(1) by (simp add: overwrite_def upd_conv_take_nth_drop)
  then show ?thesis using found [of i b'] 1(1,2) i b' bit_cnt_abs [OF b'(3)] i(1) by (simp add: bitmap_scan_and_flip_def)
next
  case 2
  then show ?thesis using missing by (auto simp: bitmap_scan_and_flip_def run_at_one)
qed

interpretation sw: page_store swap_out swap_in swap_view "\<lambda>s. bit_cnt (swap_bm s)" swap_ok is_page
proof (unfold_locales, goal_cases)
  case (1 s page)
  note ok = 1(1) [unfolded swap_ok_def]
  from ok have wf: "bitmap_wf (swap_bm s)" by simp
  show ?case
  proof (cases rule: swap_bm_cases [OF wf])
    case (1 i bm)
    note b = slot_in_device [OF \<open>swap_ok s\<close> 1(3)]
    let ?s = "s\<lparr>swap_bm := bm\<rparr>"
    obtain d where d: "swap_out_loop SECTORS_PER_PAGE (i * SECTORS_PER_PAGE) page ?s = Some (?s\<lparr>swap_devs := d\<rparr>)" "same_shape (swap_devs s) d"
      "\<forall>m. dev_sector d (swap_device s) m = (if i * SECTORS_PER_PAGE \<le> m \<and> m < i * SECTORS_PER_PAGE + SECTORS_PER_PAGE
        then segment page ((m - i * SECTORS_PER_PAGE) * BLOCK_SECTOR_SIZE) BLOCK_SECTOR_SIZE else dev_sector (swap_devs s) (swap_device s) m)"
      using swap_out_loop_ok [of ?s "i * SECTORS_PER_PAGE" SECTORS_PER_PAGE page] ok b(1) \<open>is_page page\<close> sectors_per_page by (auto simp: is_page_def)
    let ?t = "?s\<lparr>swap_devs := d\<rparr>"
    have "swap_out page s = Some (Some i, ?t)" using 1(1,2) ok b(2) d(1) by (simp add: swap_out_def)
    moreover have "swap_ok ?t" using ok 1(5,6) same_shapeD(1,2) [OF d(2)] by (simp add: swap_ok_def)
    moreover have "swap_view s i = None" using 1(4) by (simp add: swap_view_def)
    moreover have "swap_view ?t = (swap_view s)(i \<mapsto> page)"
      using 1(3,6,7) slot_page_written [OF \<open>is_page page\<close> d(3)]
      by (auto simp: swap_view_def slot_page_def fun_eq_iff nth_list_update simp del: bitmap_abs_nth)
    ultimately show ?thesis using 1(6) by auto
  next
    case 2
    then have "swap_out page s = Some (None, s)" using ok by (simp add: swap_out_def)
    then show ?thesis using 2(2) by (simp add: swap_view_def)
  qed
next
  case (2 s i page)
  note ok = 2(1) [unfolded swap_ok_def]
  have i: "i < bit_cnt (swap_bm s)" "\<not> bitmap_abs (swap_bm s) ! i" "page = slot_page s i"
    using 2(2) by (auto simp: swap_view_def split: if_splits)
  note b = slot_in_device [OF 2(1) i(1)]
  obtain d where d: "swap_in_loop SECTORS_PER_PAGE (i * SECTORS_PER_PAGE) s = Some (page, s\<lparr>swap_devs := d\<rparr>)"
    "same_shape (swap_devs s) d" "dev_sector d = dev_sector (swap_devs s)"
    using swap_in_loop_ok [of s "i * SECTORS_PER_PAGE" SECTORS_PER_PAGE] ok b(1) i(3) by (auto simp: slot_page_def)
  obtain bm where bm: "bitmap_flip (swap_bm s) i = Some bm" "bitmap_wf bm" "bitmap_abs bm = (bitmap_abs (swap_bm s))[i := True]"
    using bitmap_flip_ok [of "swap_bm s" i] ok i by auto
  let ?t = "s\<lparr>swap_devs := d, swap_bm := bm\<rparr>"
  have cnt: "bit_cnt bm = bit_cnt (swap_bm s)" using bit_cnt_abs [OF bm(3)] by simp
  have "swap_in i s = Some (page, ?t)" using ok b(2) d(1) bm(1) by (simp add: swap_in_def swap_free_def)
  moreover have "swap_ok ?t" using ok bm(2) cnt same_shapeD(1,2) [OF d(2)] by (simp add: swap_ok_def)
  moreover have "swap_view ?t = (swap_view s)(i := None)"
  proof
    fix j
    have "slot_page ?t j = slot_page s j" unfolding slot_page_def by (simp add: d(3))
    then show "swap_view ?t j = ((swap_view s)(i := None)) j"
      using i(1) bm(3) cnt by (simp add: swap_view_def nth_list_update del: bitmap_abs_nth)
  qed
  ultimately show ?case using cnt by auto
qed

section \<open>Properties\<close>

text \<open>
  C24: a page that was swapped out comes back unchanged. If \<^verbatim>\<open>swap_out\<close> returned a slot for a page, then after any number
  of further pages have been swapped out, whether or not there was a slot for each, \<^verbatim>\<open>swap_in\<close> of that slot returns the bytes of the page,
  and the slot is free again.
\<close>

theorem swap_roundtrip:
  assumes "swap_ok s" and "length page = PGSIZE" and "swap_out page s = Some (Some slot, s1)" and "\<forall>q \<in> set others. length q = PGSIZE"
  shows "\<exists>r s2 s3. put_all swap_out others s1 = Some (r, s2) \<and> swap_in slot s2 = Some (page, s3) \<and> swap_ok s3 \<and> swap_view s3 slot = None"
  using sw.put_fetch [OF assms(1) _ assms(3)] assms(2,4) by (simp add: is_page_def)

definition demo_swap :: swap where
  "demo_swap = \<lparr>swap_lock = False, swap_fs_lock = False, swap_bm = \<lparr>bit_cnt = 2, bits = [3]\<rparr>, swap_device = 2, swap_devs = two_partitions\<rparr>"

lemma demo_swap_ok: "swap_ok demo_swap"
  using two_partitions_ok
  by (simp add: swap_ok_def demo_swap_def bitmap_wf_def ELEM_BITS_def DIV_ROUND_UP_def SECTORS_PER_PAGE_def PGSIZE_def BLOCK_SECTOR_SIZE_def)

theorem swap_roundtrip_witness:
  "\<exists>slot s1 s3. swap_out (replicate 4096 7) demo_swap = Some (Some slot, s1) \<and> swap_in slot s1 = Some (replicate 4096 7, s3)"
proof -
  have p: "is_page (replicate 4096 7)" by (simp add: is_page_def PGSIZE_def)
  have "swap_view demo_swap 0 = None" by (simp add: swap_view_def demo_swap_def bitmap_bit_def ELEM_BITS_def)
  moreover have "0 < bit_cnt (swap_bm demo_swap)" by (simp add: demo_swap_def)
  ultimately obtain slot s1 where "swap_out (replicate 4096 7) demo_swap = Some (Some slot, s1)"
    using sw.put_law [OF demo_swap_ok p] by blast
  with swap_roundtrip [OF demo_swap_ok _ this, of "[]"] show ?thesis by (auto simp: PGSIZE_def)
qed

end
