(* ===== verification/Suppl.thy ===== *)
theory Suppl
  imports Hash Pagedir
begin

text \<open>
  The supplemental page table, the part of \<^verbatim>\<open>vm/page.c\<close> and \<^verbatim>\<open>vm/page.h\<close> that stores and finds its entries. An entry
  describes a user page that is not simply in memory: a page of a memory-mapped file, a page of an executable that is
  read on its first use, or a page in swap space.
\<close>

section \<open>Entries\<close>

definition MMF :: u32 where "MMF = 0b0100"
definition LAZY :: u32 where "LAZY = 0b1000"
definition PRESENCE_MASK :: u32 where "PRESENCE_MASK = 0b0011"
definition TYPE_MASK :: u32 where "TYPE_MASK = 0b1100"
definition UNLOADED :: u32 where "UNLOADED = 0b0000"
definition PRESENT :: u32 where "PRESENT = 0b0001"
definition SWAPPED :: u32 where "SWAPPED = 0b0010"

definition SET_TYPE :: "u32 \<Rightarrow> u32 \<Rightarrow> u32" where "SET_TYPE status new_type = (status AND PRESENCE_MASK) OR new_type"
definition GET_TYPE :: "u32 \<Rightarrow> u32" where "GET_TYPE status = status AND TYPE_MASK"
definition IS_MMF :: "u32 \<Rightarrow> bool" where "IS_MMF status \<longleftrightarrow> status AND TYPE_MASK = MMF"
definition IS_LAZY :: "u32 \<Rightarrow> bool" where "IS_LAZY status \<longleftrightarrow> status AND TYPE_MASK = LAZY"
definition SET_PRESENCE :: "u32 \<Rightarrow> u32 \<Rightarrow> u32" where "SET_PRESENCE status new_presence = (status AND TYPE_MASK) OR new_presence"
definition IS_UNLOADED :: "u32 \<Rightarrow> bool" where "IS_UNLOADED status \<longleftrightarrow> status AND PRESENCE_MASK = UNLOADED"
definition IS_PRESENT :: "u32 \<Rightarrow> bool" where "IS_PRESENT status \<longleftrightarrow> status AND PRESENCE_MASK = PRESENT"
definition IS_SWAPPED :: "u32 \<Rightarrow> bool" where "IS_SWAPPED status \<longleftrightarrow> status AND PRESENCE_MASK = SWAPPED"

record pt_suppl_file_info =
  fi_file :: nat
  fi_owner :: tptr
  fi_map_id :: int
  fi_offset :: int
  fi_read_bytes :: nat
  fi_zero_bytes :: nat
  fi_writable :: bool

text \<open>\<open>file_info\<close> is \<open>None\<close> for a null pointer.\<close>

record pt_suppl_entry =
  pt_vaddr :: nat
  pt_status :: u32
  pt_swap_slot :: nat
  pt_file_info :: "pt_suppl_file_info option"

definition MMF_UNLOADED :: u32 where "MMF_UNLOADED = MMF OR UNLOADED"
definition MMF_PRESENT :: u32 where "MMF_PRESENT = MMF OR PRESENT"
definition MMF_SWAPPED :: u32 where "MMF_SWAPPED = MMF OR SWAPPED"
definition LAZY_UNLOADED :: u32 where "LAZY_UNLOADED = LAZY OR UNLOADED"

section \<open>Hash and comparison\<close>

text \<open>
  \<open>auxil\<close> is the address passed as auxiliary data and \<open>helem\<close> that of the element. The tables are initialised with a
  null pointer as auxiliary data, which no element is at.
\<close>

definition pt_suppl_hash :: "nat \<Rightarrow> nat \<Rightarrow> pt_suppl_entry \<Rightarrow> u32" where
  "pt_suppl_hash auxil helem e = (if auxil \<noteq> helem then hash_bytes (word_bytes (of_nat auxil)) else hash_bytes (word_bytes (of_nat (pt_vaddr e))))"

definition pt_suppl_less :: "pt_suppl_entry \<Rightarrow> pt_suppl_entry \<Rightarrow> bool option" where
  "pt_suppl_less e1 e2 =
     (if pt_vaddr e1 = 0 \<or> pt_vaddr e2 = 0 then do {
        ASSERT (pt_file_info e1 \<noteq> None \<or> pt_file_info e2 \<noteq> None);
        if GET_TYPE (pt_status e1) \<noteq> GET_TYPE (pt_status e2) then Some True
        else do {
          i1 \<leftarrow> pt_file_info e1;
          i2 \<leftarrow> pt_file_info e2;
          if fi_map_id i1 < 0 \<or> fi_map_id i2 < 0 then Some (fi_owner i1 < fi_owner i2) else Some (fi_map_id i1 < fi_map_id i2) } }
      else Some (pt_vaddr e1 < pt_vaddr e2))"

text \<open>
  The comparison may stop the kernel, so an operation on a table first makes all the comparisons of its search:
  those with the elements of the bucket up to the first that is equal.
\<close>

definition pt_hash :: "pt_suppl_entry \<Rightarrow> u32" where "pt_hash = pt_suppl_hash 0 1"

definition pt_less :: "pt_suppl_entry \<Rightarrow> pt_suppl_entry \<Rightarrow> bool" where "pt_less a b \<longleftrightarrow> pt_suppl_less a b = Some True"

fun pt_search :: "pt_suppl_entry list \<Rightarrow> pt_suppl_entry \<Rightarrow> unit option" where
  "pt_search [] e = Some ()"
| "pt_search (hi # bucket) e = do {
     a \<leftarrow> pt_suppl_less hi e;
     b \<leftarrow> (if a then Some True else pt_suppl_less e hi);
     if \<not> a \<and> \<not> b then Some () else pt_search bucket e }"

definition pt_compare :: "pt_suppl_entry \<Rightarrow> pt_suppl_entry hash \<Rightarrow> unit option" where
  "pt_compare e tbl = do { b \<leftarrow> find_bucket pt_hash tbl e; pt_search (buckets tbl ! b) e }"

definition pt_hash_find :: "pt_suppl_entry \<Rightarrow> pt_suppl_entry hash \<Rightarrow> pt_suppl_entry option option" where
  "pt_hash_find e tbl = do { _ \<leftarrow> pt_compare e tbl; hash_find pt_hash pt_less e tbl }"

definition pt_hash_insert :: "bool \<Rightarrow> pt_suppl_entry \<Rightarrow> pt_suppl_entry hash \<Rightarrow> (pt_suppl_entry option \<times> pt_suppl_entry hash) option" where
  "pt_hash_insert mem e tbl = do { _ \<leftarrow> pt_compare e tbl; hash_insert pt_hash pt_less mem e tbl }"

definition pt_hash_delete :: "bool \<Rightarrow> pt_suppl_entry \<Rightarrow> pt_suppl_entry hash \<Rightarrow> (pt_suppl_entry option \<times> pt_suppl_entry hash) option" where
  "pt_hash_delete mem e tbl = do { _ \<leftarrow> pt_compare e tbl; hash_delete pt_hash pt_less mem e tbl }"

section \<open>Operations on a table\<close>

definition pt_suppl_init :: "bool \<Rightarrow> (bool \<times> pt_suppl_entry hash) option" where
  "pt_suppl_init mem = hash_init mem"

text \<open>Only the address of the key is set; \<open>junk\<close> is what its other members happen to hold.\<close>

definition pt_suppl_get :: "pt_suppl_entry \<Rightarrow> nat \<Rightarrow> pt_suppl_entry hash \<Rightarrow> pt_suppl_entry option option" where
  "pt_suppl_get junk pg tbl = pt_hash_find (junk\<lparr>pt_vaddr := pg\<rparr>) tbl"

text \<open>The entry is \<open>None\<close> when there was no memory for it. An entry that is not inserted is not freed.\<close>

definition pt_suppl_add :: "bool \<Rightarrow> pt_suppl_entry option \<Rightarrow> pt_suppl_entry hash \<Rightarrow> (bool \<times> pt_suppl_entry hash) option" where
  "pt_suppl_add mem ent tbl = do { e \<leftarrow> ent; (_, tbl) \<leftarrow> pt_hash_insert mem e tbl; Some (True, tbl) }"

text \<open>Changing an entry through a pointer to it.\<close>

definition pt_update :: "pt_suppl_entry \<Rightarrow> (pt_suppl_entry \<Rightarrow> pt_suppl_entry) \<Rightarrow> pt_suppl_entry hash \<Rightarrow> pt_suppl_entry hash" where
  "pt_update e f tbl = tbl\<lparr>buckets := map (map (\<lambda>x. if x = e then f x else x)) (buckets tbl)\<rparr>"

section \<open>Tables whose entries all have an address\<close>

definition pt_wf :: "pt_suppl_entry hash \<Rightarrow> bool" where
  "pt_wf tbl \<longleftrightarrow> hash_wf pt_hash pt_vaddr tbl \<and> (\<forall>e \<in> set (contents tbl). pt_vaddr e \<noteq> 0)"

text \<open>
  The comparison of addresses is the comparison function wherever both are not null; with it the table is a map from
  addresses.
\<close>

definition vaddr_less :: "pt_suppl_entry \<Rightarrow> pt_suppl_entry \<Rightarrow> bool" where "vaddr_less a b \<longleftrightarrow> pt_vaddr a < pt_vaddr b"

interpretation pt: hash_keys pt_hash vaddr_less pt_vaddr
  by unfold_locales (simp_all add: vaddr_less_def pt_hash_def pt_suppl_hash_def)

lemma pt_less_vaddr: "pt_vaddr a \<noteq> 0 \<Longrightarrow> pt_vaddr b \<noteq> 0 \<Longrightarrow> pt_suppl_less a b = Some (vaddr_less a b)"
  by (simp add: pt_suppl_less_def vaddr_less_def)

lemma pt_search_ok: "pt_vaddr e \<noteq> 0 \<Longrightarrow> \<forall>x \<in> set es. pt_vaddr x \<noteq> 0 \<Longrightarrow> pt_search es e = Some ()"
  by (induction es) (simp_all add: pt_less_vaddr)

lemma find_elem_vaddr: "pt_vaddr e \<noteq> 0 \<Longrightarrow> \<forall>x \<in> set es. pt_vaddr x \<noteq> 0 \<Longrightarrow> find_elem pt_less es e = find_elem vaddr_less es e"
  by (induction es) (simp_all add: pt_less_vaddr pt_less_def)

lemma pt_bucket:
  assumes "pt_wf tbl"
  shows "find_bucket pt_hash tbl e = Some (bucket_of pt_hash (bucket_cnt tbl) e)"
    and "\<forall>x \<in> set (buckets tbl ! bucket_of pt_hash (bucket_cnt tbl) e). pt_vaddr x \<noteq> 0"
proof -
  have p: "placed pt_hash tbl" using assms by (simp add: pt_wf_def hash_wf_def)
  show "find_bucket pt_hash tbl e = Some (bucket_of pt_hash (bucket_cnt tbl) e)" using p by (rule find_bucket_ok)
  show "\<forall>x \<in> set (buckets tbl ! bucket_of pt_hash (bucket_cnt tbl) e). pt_vaddr x \<noteq> 0"
    using bucket_subset [OF bucket_in_range [OF p]] assms by (auto simp: pt_wf_def)
qed

lemma pt_compare_ok: "pt_wf tbl \<Longrightarrow> pt_vaddr e \<noteq> 0 \<Longrightarrow> pt_compare e tbl = Some ()"
  by (simp add: pt_compare_def pt_bucket pt_search_ok)

lemma pt_ops_vaddr:
  assumes "pt_wf tbl" and "pt_vaddr e \<noteq> 0"
  shows "pt_hash_find e tbl = hash_find pt_hash vaddr_less e tbl"
    and "pt_hash_insert mem e tbl = hash_insert pt_hash vaddr_less mem e tbl"
    and "pt_hash_delete mem e tbl = hash_delete pt_hash vaddr_less mem e tbl"
  using assms pt_bucket [OF assms(1)]
  by (simp_all add: pt_hash_find_def pt_hash_insert_def pt_hash_delete_def pt_compare_ok hash_find_def hash_insert_def hash_delete_def
      find_elem_vaddr Let_def)

lemma hash_map_ran: "hash_wf hf key h \<Longrightarrow> set (contents h) = ran (hash_map key h)"
  by (auto simp: ran_def hash_map_Some)

lemma pt_wf_map: "pt_wf tbl \<longleftrightarrow> hash_wf pt_hash pt_vaddr tbl \<and> hash_map pt_vaddr tbl 0 = None"
proof (cases "hash_wf pt_hash pt_vaddr tbl")
  case True
  then have "hash_map pt_vaddr tbl 0 = Some e \<longleftrightarrow> e \<in> set (contents tbl) \<and> pt_vaddr e = 0" for e by (rule hash_map_Some)
  then show ?thesis using True unfolding pt_wf_def by (metis option.exhaust option.distinct(1))
qed (simp add: pt_wf_def)

lemma pt_find_map: "pt_wf tbl \<Longrightarrow> pg \<noteq> 0 \<Longrightarrow> pt_suppl_get junk pg tbl = Some (hash_map pt_vaddr tbl pg)"
  by (simp add: pt_suppl_get_def pt_ops_vaddr pt.find_map pt_wf_def)

lemma pt_insert_map:
  assumes "pt_wf tbl" and "pt_vaddr e \<noteq> 0" and "h_elem_cnt tbl + 1 < 2 ^ 32"
  shows "\<exists>tbl'. pt_hash_insert mem e tbl = Some (hash_map pt_vaddr tbl (pt_vaddr e), tbl') \<and> pt_wf tbl' \<and>
    hash_map pt_vaddr tbl' = (if hash_map pt_vaddr tbl (pt_vaddr e) = None then (hash_map pt_vaddr tbl)(pt_vaddr e \<mapsto> e) else hash_map pt_vaddr tbl)"
  using pt.insert_map [of tbl mem e] assms unfolding pt_ops_vaddr(2) [OF assms(1,2)] pt_wf_map by (auto split: if_splits)

lemma pt_delete_map:
  assumes "pt_wf tbl" and "pt_vaddr e \<noteq> 0"
  shows "\<exists>tbl'. pt_hash_delete mem e tbl = Some (hash_map pt_vaddr tbl (pt_vaddr e), tbl') \<and> pt_wf tbl' \<and>
    hash_map pt_vaddr tbl' = (hash_map pt_vaddr tbl)(pt_vaddr e := None)"
  using pt.delete_map [of tbl mem e] assms unfolding pt_ops_vaddr(3) [OF assms] pt_wf_map by auto

end
