(* ===== verification/Frame.thy ===== *)
theory Frame
  imports Suppl Swap Filesys
begin

text \<open>
  Frames and eviction, \<^verbatim>\<open>vm/frame.c\<close>: a hash table from the user pages in use to the thread and the user address they
  serve, and the second-chance choice of a page to evict when there is no free one. The state adds to the memory and
  the page directories the swap space, the file system with the table of open files, and of each thread its page directory,
  the file it runs and its supplemental page table.
\<close>

section \<open>The state\<close>

record frame_entry =
  fr_page :: nat
  fr_owner :: tptr
  fr_vaddr :: nat

record proc =
  p_tid :: nat
  p_pagedir :: nat
  p_run_file :: addr
  p_pt_suppl :: "pt_suppl_entry hash"
  p_pt_suppl_lock :: bool

text \<open>
  \<open>mallocs n\<close> says whether the \<open>n\<close>-th request for kernel memory succeeds, where an insertion into a hash table counts as one
  request; \<open>stack_junk\<close> is what an entry on the stack holds before it is assigned. The swap space and the file system
  share the block devices and the lock of the file system; both are kept in \<open>vm_fs\<close>.
\<close>

record vms = pgs +
  vm_swap :: swap
  vm_fs :: fsaccess
  frame_hash :: "frame_entry hash"
  frame_hash_lock :: bool
  frame_fs_lock :: bool
  procs :: "tptr \<rightharpoonup> proc"
  cur :: tptr
  last_map :: int
  mallocs :: "nat \<Rightarrow> bool"
  malloc_no :: nat
  stack_junk :: pt_suppl_entry

definition vm_malloc :: "vms \<Rightarrow> bool \<times> vms" where
  "vm_malloc s = (mallocs s (malloc_no s), s\<lparr>malloc_no := malloc_no s + 1\<rparr>)"

definition current_proc :: "vms \<Rightarrow> proc option" where "current_proc s = procs s (cur s)"

definition upd_proc :: "tptr \<Rightarrow> (proc \<Rightarrow> proc) \<Rightarrow> vms \<Rightarrow> vms option" where
  "upd_proc t f s = do { p \<leftarrow> procs s t; Some (s\<lparr>procs := (procs s)(t \<mapsto> f p)\<rparr>) }"

section \<open>Memory seen through the active page directory\<close>

text \<open>
  Addresses of the kernel are mapped as they are. For a user address the processor looks up the entry in the active directory,
  demands that it is present and, for a write, writable (the kernel runs with write protection on), and sets the accessed and
  the dirty flag. An access that faults is \<open>None\<close>.
\<close>

definition mmu_access :: "bool \<Rightarrow> nat \<Rightarrow> 'a pgs_scheme \<Rightarrow> (nat \<times> 'a pgs_scheme) option" where
  "mmu_access wr va s =
     (if is_user_vaddr va then do {
        pd \<leftarrow> active_pd s;
        (pte, s) \<leftarrow> lookup_page pd va False s;
        pte \<leftarrow> pte;
        let e = word_at s pte;
        ASSERT (e AND PTE_P \<noteq> 0 \<and> (wr \<longrightarrow> e AND PTE_W \<noteq> 0));
        k \<leftarrow> pte_get_page e;
        Some (k + pg_ofs va, store_word pte (e OR PTE_A OR (if wr then PTE_D else 0)) s) }
      else Some (va, s))"

fun load_bytes :: "nat \<Rightarrow> nat \<Rightarrow> 'a pgs_scheme \<Rightarrow> (u8 list \<times> 'a pgs_scheme) option" where
  "load_bytes va 0 s = Some ([], s)"
| "load_bytes va (Suc n) s = do {
     (a, s) \<leftarrow> mmu_access False va s;
     (bs, s') \<leftarrow> load_bytes (va + 1) n s;
     Some (ram (pal s) a # bs, s') }"

fun store_bytes :: "nat \<Rightarrow> u8 list \<Rightarrow> 'a pgs_scheme \<Rightarrow> 'a pgs_scheme option" where
  "store_bytes va [] s = Some s"
| "store_bytes va (b # bs) s = do {
     (a, s) \<leftarrow> mmu_access True va s;
     store_bytes (va + 1) bs (s\<lparr>pal := (pal s)\<lparr>ram := (ram (pal s))(a := b)\<rparr>\<rparr>) }"

section \<open>Swap space and files\<close>

definition to_swap :: "vms \<Rightarrow> swap" where
  "to_swap s = (vm_swap s)\<lparr>swap_fs_lock := files_lock (vm_fs s), swap_devs := devs (bc (fs (vm_fs s)))\<rparr>"

definition of_swap :: "swap \<Rightarrow> vms \<Rightarrow> vms" where
  "of_swap w s = s\<lparr>vm_swap := w,
     vm_fs := (vm_fs s)\<lparr>fs := (fs (vm_fs s))\<lparr>bc := (bc (fs (vm_fs s)))\<lparr>devs := swap_devs w\<rparr>\<rparr>\<rparr>\<rparr>"

definition vm_swap_out :: "nat \<Rightarrow> vms \<Rightarrow> (nat option \<times> vms) option" where
  "vm_swap_out pg s = do { (slot, w) \<leftarrow> swap_out (map (ram (pal s)) [pg..<pg + PGSIZE]) (to_swap s); Some (slot, of_swap w s) }"

definition vm_swap_in :: "nat \<Rightarrow> nat \<Rightarrow> vms \<Rightarrow> vms option" where
  "vm_swap_in slot pg s = do { (page, w) \<leftarrow> swap_in slot (to_swap s); store_bytes pg page (of_swap w s) }"

definition with_fs :: "(fsys \<Rightarrow> ('b \<times> fsys) option) \<Rightarrow> vms \<Rightarrow> ('b \<times> vms) option" where
  "with_fs op s = do { (r, f) \<leftarrow> op (fs (vm_fs s)); Some (r, s\<lparr>vm_fs := (vm_fs s)\<lparr>fs := f\<rparr>\<rparr>) }"

section \<open>The frame table\<close>

definition compare_frame :: "frame_entry \<Rightarrow> frame_entry \<Rightarrow> bool" where
  "compare_frame frm1 frm2 \<longleftrightarrow> fr_page frm1 < fr_page frm2"

definition find_frame :: "frame_entry \<Rightarrow> u32" where
  "find_frame frm = hash_bytes (word_bytes (of_nat (fr_page frm)))"

definition vm_frame_alloc_init :: "bool \<Rightarrow> vms \<Rightarrow> vms option" where
  "vm_frame_alloc_init mem s = do {
     (_, h) \<leftarrow> hash_init mem;
     Some (s\<lparr>frame_hash := h, frame_hash_lock := False, frame_fs_lock := False\<rparr>) }"

text \<open>Changing an entry through a pointer to it; a page has at most one entry.\<close>

definition upd_frame :: "nat \<Rightarrow> (frame_entry \<Rightarrow> frame_entry) \<Rightarrow> vms \<Rightarrow> vms" where
  "upd_frame pg f s = s\<lparr>frame_hash := (frame_hash s)\<lparr>buckets := map (map (\<lambda>x. if fr_page x = pg then f x else x)) (buckets (frame_hash s))\<rparr>\<rparr>"

definition frame_hash_add :: "nat \<Rightarrow> palloc_flags \<Rightarrow> nat \<Rightarrow> vms \<Rightarrow> (bool \<times> vms) option" where
  "frame_hash_add pg pflag thread_vaddr s = do {
     let (frm, s) = vm_malloc s;
     if \<not> frm then Some (False, s)
     else do {
       let frm = \<lparr>fr_page = pg, fr_owner = cur s, fr_vaddr = thread_vaddr\<rparr>;
       ASSERT (\<not> frame_hash_lock s);
       if pflag AND PAL_USER \<noteq> 0 then do {
         let (mem, s) = vm_malloc s;
         (_, h) \<leftarrow> hash_insert find_frame compare_frame mem frm (frame_hash s);
         Some (True, s\<lparr>frame_hash := h\<rparr>) }
       else Some (True, s) } }"

definition vm_frame_free :: "nat \<Rightarrow> vms \<Rightarrow> vms option" where
  "vm_frame_free pg s = do {
     let find = \<lparr>fr_page = pg, fr_owner = 0, fr_vaddr = 0\<rparr>;
     ASSERT (\<not> frame_hash_lock s);
     element \<leftarrow> hash_find find_frame compare_frame find (frame_hash s);
     element \<leftarrow> element;
     let (mem, s) = vm_malloc s;
     (_, h) \<leftarrow> hash_delete find_frame compare_frame mem element (frame_hash s);
     p \<leftarrow> palloc_free_page pg (pal s);
     Some (s\<lparr>frame_hash := h, pal := p\<rparr>) }"

section \<open>Eviction\<close>

text \<open>One round of the clock: the accessed flags it finds set are cleared, the first page without one is taken.\<close>

partial_function (option) clock_pass :: "hash_iterator \<Rightarrow> vms \<Rightarrow> (frame_entry option \<times> vms) option" where
  "clock_pass itr s = (case hash_next (frame_hash s) itr of
       (None, itr) \<Rightarrow> Some (None, s)
     | (Some fe, itr) \<Rightarrow> do {
         ow \<leftarrow> procs s (fr_owner fe);
         accessed \<leftarrow> pagedir_is_accessed (p_pagedir ow) (fr_vaddr fe) s;
         if accessed then do { s \<leftarrow> pagedir_set_accessed (p_pagedir ow) (fr_vaddr fe) False s; clock_pass itr s }
         else Some (Some fe, s) })"

partial_function (option) select_frame_to_evict :: "vms \<Rightarrow> (frame_entry \<times> vms) option" where
  "select_frame_to_evict s = do {
     (fe, s) \<leftarrow> clock_pass hash_first s;
     case fe of None \<Rightarrow> select_frame_to_evict s | Some fe \<Rightarrow> Some (fe, s) }"

text \<open>The bytes of a memory-mapped page are read through the active directory, at the address in the owner's space.\<close>

definition page_out_evicted_frame :: "fm_writer \<Rightarrow> frame_entry \<Rightarrow> vms \<Rightarrow> (bool \<times> vms) option" where
  "page_out_evicted_frame fmw fe s = do {
     ow \<leftarrow> procs s (fr_owner fe);
     pt \<leftarrow> pt_suppl_get (stack_junk s) (fr_vaddr fe) (p_pt_suppl ow);
     case pt of
       None \<Rightarrow> do {
         (swap_slot_id, s) \<leftarrow> vm_swap_out (fr_page fe) s;
         swap_slot_id \<leftarrow> swap_slot_id;
         let (mem, s) = vm_malloc s;
         ASSERT mem;
         let pt = \<lparr>pt_vaddr = fr_vaddr fe, pt_status = SET_PRESENCE (SET_TYPE (pt_status (stack_junk s)) LAZY) SWAPPED,
                   pt_swap_slot = swap_slot_id, pt_file_info = None\<rparr>;
         let (mem, s) = vm_malloc s;
         (_, tbl) \<leftarrow> pt_hash_insert mem pt (p_pt_suppl ow);
         s \<leftarrow> upd_proc (fr_owner fe) (p_pt_suppl_update (\<lambda>_. tbl)) s;
         s \<leftarrow> pagedir_clear_page (p_pagedir ow) (fr_vaddr fe) s;
         Some (True, s) }
     | Some pt \<Rightarrow>
         if IS_MMF (pt_status pt) then do {
           dirty \<leftarrow> pagedir_is_dirty (p_pagedir ow) (pt_vaddr pt) s;
           s \<leftarrow> (if dirty then do {
                  ASSERT (\<not> frame_fs_lock s);
                  info \<leftarrow> pt_file_info pt;
                  (bytes, s) \<leftarrow> load_bytes (pt_vaddr pt) (fi_read_bytes info) s;
                  (_, s) \<leftarrow> with_fs (file_write_at fmw (fi_file info) bytes (fi_offset info)) s;
                  Some s }
                else Some s);
           s \<leftarrow> upd_proc (fr_owner fe) (p_pt_suppl_update (pt_update pt (\<lambda>e. e\<lparr>pt_status := SET_PRESENCE (SET_TYPE (pt_status e) MMF) UNLOADED\<rparr>))) s;
           s \<leftarrow> pagedir_clear_page (p_pagedir ow) (pt_vaddr pt) s;
           Some (True, s) }
         else None }"

definition evict_and_get_frame :: "fm_writer \<Rightarrow> vms \<Rightarrow> (frame_entry \<times> vms) option" where
  "evict_and_get_frame fmw s = do {
     ASSERT (\<not> frame_hash_lock s);
     let s = s\<lparr>frame_hash_lock := True\<rparr>;
     (vict, s) \<leftarrow> select_frame_to_evict s;
     (ok, s) \<leftarrow> page_out_evicted_frame fmw vict s;
     ASSERT ok;
     let s = upd_frame (fr_page vict) (\<lambda>f. f\<lparr>fr_owner := cur s\<rparr>) s;
     Some (vict, s\<lparr>frame_hash_lock := False\<rparr>) }"

text \<open>The result is never a null pointer: without a free page, one is evicted or the kernel stops.\<close>

definition vm_frame_alloc :: "fm_writer \<Rightarrow> palloc_flags \<Rightarrow> nat \<Rightarrow> vms \<Rightarrow> (nat \<times> vms) option" where
  "vm_frame_alloc fmw pflag thread_vaddr s = do {
     (pg, s) \<leftarrow> (if pflag AND PAL_USER \<noteq> 0 then do { (pg, p) \<leftarrow> palloc_get_page pflag (pal s); Some (pg, s\<lparr>pal := p\<rparr>) }
                 else Some (None, s));
     case pg of
       Some pg \<Rightarrow> do { (added, s) \<leftarrow> frame_hash_add pg pflag (pg_round_down thread_vaddr) s; ASSERT added; Some (pg, s) }
     | None \<Rightarrow> do {
         (fe, s) \<leftarrow> evict_and_get_frame fmw s;
         Some (fr_page fe, upd_frame (fr_page fe) (\<lambda>f. f\<lparr>fr_vaddr := thread_vaddr\<rparr>) s) } }"

section \<open>The table as a map\<close>

text \<open>Both functions see only the page of an entry, so that the table is a map from pages.\<close>

interpretation fr: hash_keys find_frame compare_frame fr_page
  by unfold_locales (simp_all add: compare_frame_def find_frame_def)

abbreviation frame_map :: "vms \<Rightarrow> nat \<rightharpoonup> frame_entry" where
  "frame_map s \<equiv> hash_map fr_page (frame_hash s)"

text \<open>Every frame of the table is an allocated page of the user pool.\<close>

definition user_frame :: "nat \<Rightarrow> palloc \<Rightarrow> bool" where
  "user_frame pg p \<longleftrightarrow> kernel_page pg \<and> page_range pg 1 \<subseteq> in_use p \<and> page_range pg 1 \<subseteq> {pool_base (user_pool p)..<pool_end (user_pool p)}"

definition frames_ok :: "vms \<Rightarrow> bool" where
  "frames_ok s \<longleftrightarrow> hash_wf find_frame fr_page (frame_hash s) \<and> \<not> frame_hash_lock s \<and> palloc_ok (pal s) \<and>
     PHYS_BASE \<le> pool_base (user_pool (pal s)) \<and>
     (\<forall>pg \<in> dom (frame_map s). user_frame pg (pal s))"

text \<open>There are at most \<open>2 ^ 20\<close> pages, so that the number of elements of the table does not overflow.\<close>

lemma pages_disjoint: "kernel_page a \<Longrightarrow> kernel_page b \<Longrightarrow> a \<noteq> b \<Longrightarrow> page_range a 1 \<inter> page_range b 1 = {}"
proof -
  assume "kernel_page a" "kernel_page b" "a \<noteq> b"
  then obtain k l where k: "a = 4096 * k" "b = 4096 * l" "k \<noteq> l"
    by (auto simp: kernel_page_def pg_ofs_def PGBITS_def mod_eq_0_iff_dvd elim!: dvdE)
  then have "a + 4096 \<le> b \<or> b + 4096 \<le> a" by auto
  then show ?thesis by (auto simp: page_range_def PGSIZE_def)
qed

lemma frames_few:
  assumes "frames_ok s"
  shows "h_elem_cnt (frame_hash s) \<le> 2 ^ 20"
proof -
  let ?es = "contents (frame_hash s)"
  have wf: "hash_wf find_frame fr_page (frame_hash s)" using assms by (simp add: frames_ok_def)
  then have d: "distinct (map fr_page ?es)" and n: "h_elem_cnt (frame_hash s) = length ?es" by (simp_all add: hash_wf_def)
  have "fr_page e \<in> (\<lambda>i. 4096 * i) ` {..<2 ^ 20}" if "e \<in> set ?es" for e
  proof -
    have "frame_map s (fr_page e) = Some e" using hash_map_Some [OF wf] that by blast
    then have "kernel_page (fr_page e)" using assms by (auto simp: frames_ok_def user_frame_def)
    then have "fr_page e < 2 ^ 32" "4096 dvd fr_page e" by (auto simp: kernel_page_def pg_ofs_def PGBITS_def)
    then obtain i where "fr_page e = 4096 * i" by (auto elim: dvdE)
    with \<open>fr_page e < 2 ^ 32\<close> show ?thesis by auto
  qed
  then have "set (map fr_page ?es) \<subseteq> (\<lambda>i. 4096 * i) ` {..<2 ^ 20}" by auto
  then have "card (set (map fr_page ?es)) \<le> card ((\<lambda>i :: nat. 4096 * i) ` {..<2 ^ 20})" by (intro card_mono) auto
  also have "\<dots> \<le> 2 ^ 20" by (metis card_image_le card_lessThan finite_lessThan)
  finally show ?thesis using distinct_card [OF d] n by simp
qed

lemma frame_hash_add_ok:
  assumes "frames_ok s" and u: "f AND PAL_USER \<noteq> 0" and m: "mallocs s (malloc_no s)" and new: "frame_map s pg = None"
    and pg: "user_frame pg (pal s)"
  shows "\<exists>s'. frame_hash_add pg f va s = Some (True, s') \<and> frames_ok s' \<and> pal s' = pal s \<and>
    s' = s\<lparr>malloc_no := malloc_no s', frame_hash := frame_hash s'\<rparr> \<and>
    frame_map s' = (frame_map s)(pg \<mapsto> \<lparr>fr_page = pg, fr_owner = cur s, fr_vaddr = va\<rparr>)"
proof -
  let ?e = "\<lparr>fr_page = pg, fr_owner = cur s, fr_vaddr = va\<rparr>"
  let ?n = "malloc_no s + 1"
  have wf: "hash_wf find_frame fr_page (frame_hash s)" using assms(1) by (simp add: frames_ok_def)
  have c: "h_elem_cnt (frame_hash s) + 1 < 2 ^ 32" using frames_few [OF assms(1)] by simp
  obtain h where h: "hash_insert find_frame compare_frame (mallocs s ?n) ?e (frame_hash s) = Some (None, h)" "hash_wf find_frame fr_page h"
    "hash_map fr_page h = (frame_map s)(pg \<mapsto> ?e)"
    using fr.insert_map [OF wf c, of "mallocs s ?n" ?e] new by auto
  let ?s = "s\<lparr>malloc_no := ?n + 1, frame_hash := h\<rparr>"
  have "frame_hash_add pg f va s = Some (True, ?s)"
    using m u h(1) assms(1) by (simp add: frame_hash_add_def vm_malloc_def Let_def frames_ok_def)
  moreover have "frames_ok ?s" using assms(1) h pg by (auto simp: frames_ok_def)
  ultimately show ?thesis using h(3) by auto
qed

lemma vm_frame_free_ok:
  assumes "frames_ok s" and "frame_map s pg = Some e"
  shows "\<exists>s'. vm_frame_free pg s = Some s' \<and> frames_ok s' \<and> frame_map s' = (frame_map s)(pg := None) \<and>
    in_use (pal s') = in_use (pal s) - page_range pg 1 \<and> pool_base (user_pool (pal s')) = pool_base (user_pool (pal s)) \<and>
    pool_end (user_pool (pal s')) = pool_end (user_pool (pal s))"
proof -
  let ?k = "\<lparr>fr_page = pg, fr_owner = 0, fr_vaddr = 0\<rparr>" and ?m = "mallocs s (malloc_no s)"
  have wf: "hash_wf find_frame fr_page (frame_hash s)" using assms(1) by (simp add: frames_ok_def)
  have e: "fr_page e = pg" using hash_map_Some [OF wf] assms(2) by blast
  obtain h where h: "hash_delete find_frame compare_frame ?m e (frame_hash s) = Some (Some e, h)" "hash_wf find_frame fr_page h"
    "hash_map fr_page h = (frame_map s)(pg := None)"
    using fr.delete_map [OF wf, of ?m e] e assms(2) by auto
  have pg: "user_frame pg (pal s)" and pk: "palloc_ok (pal s)" using assms by (auto simp: frames_ok_def)
  then have "page_range pg 1 \<subseteq> pool_used (get_pool True (pal s))"
    by (intro pool_used_of_in_use) (auto simp: user_frame_def get_pool_def)
  then obtain p where p: "palloc_free_multiple pg 1 (pal s) = Some p" "palloc_ok p" "in_use p = in_use (pal s) - page_range pg 1"
    and b: "pool_base (user_pool p) = pool_base (user_pool (pal s))" "pool_end (user_pool p) = pool_end (user_pool (pal s))"
    using palloc_free_ok [OF pk, of pg 1 True] pg by (auto simp: user_frame_def kernel_page_def get_pool_def all_bool_eq)
  let ?s = "s\<lparr>malloc_no := malloc_no s + 1, frame_hash := h, pal := p\<rparr>"
  have "vm_frame_free pg s = Some ?s"
    using fr.find_map [OF wf, of ?k] assms h(1) p(1)
    by (simp add: vm_frame_free_def vm_malloc_def Let_def frames_ok_def palloc_free_page_def)
  moreover have "user_frame x p" if "user_frame x (pal s)" "x \<noteq> pg" for x
  proof -
    have "page_range x 1 \<inter> page_range pg 1 = {}" using that pg by (intro pages_disjoint) (auto simp: user_frame_def)
    then show ?thesis using that(1) unfolding user_frame_def p(3) b by blast
  qed
  then have "frames_ok ?s" using assms(1) h(2,3) p(2) b by (auto simp: frames_ok_def)
  ultimately show ?thesis using h(3) p(3) b by auto
qed

lemma frame_fresh:
  assumes "frames_ok s" and "page_range pg 1 \<inter> in_use (pal s) = {}"
  shows "frame_map s pg = None"
proof (rule ccontr)
  assume "frame_map s pg \<noteq> None"
  then have "page_range pg 1 \<subseteq> in_use (pal s)" using assms(1) by (auto simp: frames_ok_def user_frame_def)
  moreover have "pg \<in> page_range pg 1" by (simp add: page_range_def)
  ultimately show False using assms(2) by blast
qed

lemma vm_frame_alloc_ok:
  assumes ok: "frames_ok s" and u: "f AND PAL_USER \<noteq> 0" and m: "mallocs s (malloc_no s)" and p: "palloc_get_page f (pal s) = Some (Some pg, p)"
  shows "\<exists>s'. vm_frame_alloc fmw f va s = Some (pg, s') \<and> frames_ok s' \<and> pal s' = p \<and> user_frame pg p \<and>
    s' = s\<lparr>pal := p, malloc_no := malloc_no s', frame_hash := frame_hash s'\<rparr> \<and>
    frame_map s pg = None \<and> frame_map s' = (frame_map s)(pg \<mapsto> \<lparr>fr_page = pg, fr_owner = cur s, fr_vaddr = pg_round_down va\<rparr>)"
proof -
  have pk: "palloc_ok (pal s)" using ok by (simp add: frames_ok_def)
  note a = palloc_get_Some [OF pk zero_less_one p [unfolded palloc_get_page_def]]
  let ?s = "s\<lparr>pal := p\<rparr>"
  have new: "frame_map s pg = None" using a(4) by (rule frame_fresh [OF ok])
  have b: "pool_base (user_pool p) = pool_base (user_pool (pal s))" "pool_end (user_pool p) = pool_end (user_pool (pal s))"
    using a(8,9) [of True] by (simp_all add: get_pool_def)
  have r: "page_range pg 1 \<subseteq> {pool_base (user_pool p)..<pool_end (user_pool p)}" using a(6) u unfolding b by (simp add: get_pool_def)
  have "pg \<in> page_range pg 1" by (simp add: page_range_def)
  then have "PHYS_BASE \<le> pg" "pg < 2 ^ 32"
    using r ok a(1) unfolding b by (auto simp: frames_ok_def palloc_ok_def pool_ok_def)
  then have uf: "user_frame pg p" using a(2,5) r by (auto simp: user_frame_def kernel_page_def)
  have "user_frame x p" if "user_frame x (pal s)" for x using that a(5) b by (auto simp: user_frame_def)
  then have "frames_ok ?s" using ok a(1) b by (auto simp: frames_ok_def)
  then obtain s' where "frame_hash_add pg f (pg_round_down va) ?s = Some (True, s')" "frames_ok s'" "pal s' = p"
    "s' = s\<lparr>pal := p, malloc_no := malloc_no s', frame_hash := frame_hash s'\<rparr>"
    "frame_map s' = (frame_map s)(pg \<mapsto> \<lparr>fr_page = pg, fr_owner = cur s, fr_vaddr = pg_round_down va\<rparr>)"
    using frame_hash_add_ok [of ?s f pg "pg_round_down va"] u m new uf by auto
  then show ?thesis using u p new uf by (simp add: vm_frame_alloc_def)
qed

text \<open>The table is exact when, besides, every allocated page of the user pool is in it.\<close>

definition frames_exact :: "vms \<Rightarrow> bool" where
  "frames_exact s \<longleftrightarrow> frames_ok s \<and> dom (frame_map s) = {pg. user_frame pg (pal s)}"

lemma vm_frame_alloc_exact:
  assumes ex: "frames_exact s" and u: "f AND PAL_USER \<noteq> 0" and m: "mallocs s (malloc_no s)" and p: "palloc_get_page f (pal s) = Some (Some pg, p)"
  shows "\<exists>s1. vm_frame_alloc fmw f va s = Some (pg, s1) \<and> frames_exact s1 \<and> pal s1 = p \<and> frame_map s pg = None \<and>
    frame_map s1 = (frame_map s)(pg \<mapsto> \<lparr>fr_page = pg, fr_owner = cur s, fr_vaddr = pg_round_down va\<rparr>)"
proof -
  have ok: "frames_ok s" and d: "dom (frame_map s) = {x. user_frame x (pal s)}" using ex by (simp_all add: frames_exact_def)
  obtain s1 where s1: "vm_frame_alloc fmw f va s = Some (pg, s1)" "frames_ok s1" "pal s1 = p" "user_frame pg p" "frame_map s pg = None"
    "frame_map s1 = (frame_map s)(pg \<mapsto> \<lparr>fr_page = pg, fr_owner = cur s, fr_vaddr = pg_round_down va\<rparr>)"
    using vm_frame_alloc_ok [OF ok u m p] by blast
  have "palloc_ok (pal s)" using ok by (simp add: frames_ok_def)
  note a = palloc_get_Some [OF this zero_less_one p [unfolded palloc_get_page_def]]
  have b: "pool_base (user_pool p) = pool_base (user_pool (pal s))" "pool_end (user_pool p) = pool_end (user_pool (pal s))"
    using a(8,9) [of True] by (simp_all add: get_pool_def)
  have "user_frame x p \<longleftrightarrow> user_frame x (pal s) \<or> x = pg" for x
  proof
    assume x: "user_frame x p"
    show "user_frame x (pal s) \<or> x = pg"
    proof (rule disjCI)
      assume "x \<noteq> pg"
      then have "page_range x 1 \<inter> page_range pg 1 = {}" using x s1(4) by (intro pages_disjoint) (auto simp: user_frame_def)
      then show "user_frame x (pal s)" using x a(5) b by (auto simp: user_frame_def)
    qed
  next
    assume "user_frame x (pal s) \<or> x = pg"
    then show "user_frame x p" using s1(4) a(5) b by (auto simp: user_frame_def)
  qed
  then have "frames_exact s1" using s1(2,3,6) d by (auto simp: frames_exact_def)
  then show ?thesis using s1 by auto
qed

lemma vm_frame_free_exact:
  assumes ex: "frames_exact s" and e: "frame_map s pg = Some e"
  shows "\<exists>s'. vm_frame_free pg s = Some s' \<and> frames_exact s' \<and> frame_map s' = (frame_map s)(pg := None) \<and>
    in_use (pal s') = in_use (pal s) - page_range pg 1"
proof -
  have ok: "frames_ok s" and d: "dom (frame_map s) = {x. user_frame x (pal s)}" using ex by (simp_all add: frames_exact_def)
  obtain s' where s': "vm_frame_free pg s = Some s'" "frames_ok s'" "frame_map s' = (frame_map s)(pg := None)"
    "in_use (pal s') = in_use (pal s) - page_range pg 1" "pool_base (user_pool (pal s')) = pool_base (user_pool (pal s))"
    "pool_end (user_pool (pal s')) = pool_end (user_pool (pal s))"
    using vm_frame_free_ok [OF ok e] by blast
  have pg: "user_frame pg (pal s)" using e d by blast
  have "user_frame x (pal s') \<longleftrightarrow> user_frame x (pal s) \<and> x \<noteq> pg" for x
  proof -
    have "page_range x 1 \<inter> page_range pg 1 = {}" if "kernel_page x" "x \<noteq> pg" using that pg by (intro pages_disjoint) (auto simp: user_frame_def)
    moreover have "pg \<in> page_range pg 1" by (simp add: page_range_def)
    ultimately show ?thesis unfolding user_frame_def s'(4-6) by blast
  qed
  then have "frames_exact s'" using s'(2,3) d by (auto simp: frames_exact_def)
  then show ?thesis using s' by blast
qed

section \<open>A machine with an empty table\<close>

definition no_entries :: "'e hash" where
  "no_entries = \<lparr>h_elem_cnt = 0, bucket_cnt = 4, buckets = [[], [], [], []]\<rparr>"

lemma no_entries_wf: "hash_wf hf key no_entries" "hash_map key no_entries = Map.empty" "contents no_entries = []"
proof -
  have "placed hf no_entries"
    unfolding placed_def no_entries_def by (auto simp: less_Suc_eq eval_nat_numeral intro!: exI [of _ 2])
  then show "hash_wf hf key no_entries" by (simp add: hash_wf_def no_entries_def contents_def)
qed (simp_all add: no_entries_def hash_map_def contents_def)

definition demo_vms :: vms where
  "demo_vms = \<lparr>pal = pal demo_pgs, cr3 = cr3 demo_pgs, flushes = 0, init_page_dir = init_page_dir demo_pgs, init_ram_pages = init_ram_pages demo_pgs,
     vm_swap = demo_swap, vm_fs = demo_fds (demo_fs demo_cache), frame_hash = no_entries, frame_hash_lock = False, frame_fs_lock = False,
     procs = [1 \<mapsto> \<lparr>p_tid = 1, p_pagedir = 0xC0100000, p_run_file = 0, p_pt_suppl = no_entries, p_pt_suppl_lock = False\<rparr>], cur = 1,
     last_map = 0, mallocs = (\<lambda>_. True), malloc_no = 0,
     stack_junk = \<lparr>pt_vaddr = 0, pt_status = 0, pt_swap_slot = 0, pt_file_info = None\<rparr>\<rparr>"

lemma demo_vms_ok: "frames_ok demo_vms" "palloc_ok (pal demo_vms)"
  using pd_okD(1) [OF demo_pgs_ok]
  by (simp_all add: no_entries_wf frames_ok_def demo_vms_def demo_pgs_def demo_pool_def PHYS_BASE_def)

lemma demo_user_page: "\<exists>pg p. palloc_get_page PAL_USER (pal demo_vms) = Some (Some pg, p)"
  unfolding palloc_get_page_def
  by (cases rule: palloc_get_ok [OF demo_vms_ok(2) zero_less_one, of PAL_USER])
    (auto simp: PAL_USER_def get_pool_def demo_vms_def demo_pgs_def demo_pool_def demo_unused)

lemma demo_vms_exact: "frames_exact demo_vms"
proof -
  have "pool_used (user_pool (pal demo_vms)) = {}" by (simp add: demo_vms_def demo_pgs_def demo_pool_def demo_unused pool_used_def)
  have "\<not> user_frame pg (pal demo_vms)" for pg
  proof
    assume "user_frame pg (pal demo_vms)"
    moreover have "pg \<in> page_range pg 1" by (simp add: page_range_def)
    ultimately have "pg \<in> in_use (pal demo_vms)" "pg \<in> {pool_base (user_pool (pal demo_vms))..<pool_end (user_pool (pal demo_vms))}"
      by (auto simp: user_frame_def)
    moreover have "bitmap_used (used_map (kernel_pool (pal demo_vms))) = {0}" "pool_base (kernel_pool (pal demo_vms)) = 0xC0100000"
      by (simp_all add: demo_vms_def demo_pgs_def one_used)
    moreover have "pool_base (user_pool (pal demo_vms)) = 0xC0200000" by (simp add: demo_vms_def demo_pgs_def demo_pool_def)
    moreover have "\<not> (0xC0200000 \<le> pg \<and> 0xC0100000 \<le> pg \<and> (pg - 0xC0100000) div PGSIZE = 0)" by (auto simp: PGSIZE_def)
    ultimately show False using \<open>pool_used (user_pool (pal demo_vms)) = {}\<close> by (auto simp: in_use_def pool_used_def)
  qed
  then show ?thesis using demo_vms_ok(1) no_entries_wf(2) by (simp add: frames_exact_def demo_vms_def)
qed

end
