(* ===== verification/Page.thy ===== *)
theory Page
  imports Frame
begin

text \<open>
  Demand paging, the operations of \<^verbatim>\<open>vm/page.c\<close> that load, map and unmap pages, with the callers that decide on
  addresses: the checks of user pointers in \<^verbatim>\<open>threads/thread.c\<close>, the mapping of files in \<^verbatim>\<open>filesys/fsaccess.c\<close> and the page
  fault handler of \<^verbatim>\<open>userprog/exception.c\<close>.
\<close>

section \<open>Entries\<close>

definition MAX_STACK :: int where "MAX_STACK = 8 * 2 ^ 20"

text \<open>The difference of two pointers is a signed 32-bit number.\<close>

definition ptrdiff :: "nat \<Rightarrow> nat \<Rightarrow> int" where
  "ptrdiff a b = bits_off (off_bits (int a - int b))"

definition vm_memset :: "nat \<Rightarrow> u8 \<Rightarrow> nat \<Rightarrow> vms \<Rightarrow> vms" where
  "vm_memset a v n s = s\<lparr>pal := fill a v n (pal s)\<rparr>"

definition set_pt_suppl :: "pt_suppl_entry hash \<Rightarrow> vms \<Rightarrow> vms option" where
  "set_pt_suppl tbl s = upd_proc (cur s) (p_pt_suppl_update (\<lambda>_. tbl)) s"

definition pt_suppl_get_entry_by_addr :: "nat \<Rightarrow> vms \<Rightarrow> pt_suppl_entry option option" where
  "pt_suppl_get_entry_by_addr vaddr s = do {
     current \<leftarrow> current_proc s;
     pt_suppl_get (stack_junk s) (pg_round_down vaddr) (p_pt_suppl current) }"

definition pt_suppl_setup_file_info ::
    "nat \<Rightarrow> int \<Rightarrow> nat \<Rightarrow> nat \<Rightarrow> nat \<Rightarrow> bool \<Rightarrow> u32 \<Rightarrow> vms \<Rightarrow> pt_suppl_entry option \<times> vms" where
  "pt_suppl_setup_file_info fe ofs page_addr rb zb writ status s =
     (let (ent, s) = vm_malloc s in
      if \<not> ent then (None, s)
      else let (info, s) = vm_malloc s in
        if \<not> info then (None, s)
        else (Some \<lparr>pt_vaddr = page_addr, pt_status = status, pt_swap_slot = 0,
                    pt_file_info = Some \<lparr>fi_file = fe, fi_owner = cur s, fi_map_id = last_map s, fi_offset = ofs,
                                         fi_read_bytes = rb, fi_zero_bytes = zb, fi_writable = writ\<rparr>\<rparr>, s))"

definition pt_suppl_add_current :: "pt_suppl_entry option \<Rightarrow> vms \<Rightarrow> (bool \<times> vms) option" where
  "pt_suppl_add_current ent s = do {
     current \<leftarrow> current_proc s;
     let (mem, s) = vm_malloc s;
     (passed, tbl) \<leftarrow> pt_suppl_add mem ent (p_pt_suppl current);
     s \<leftarrow> set_pt_suppl tbl s;
     ASSERT passed;
     Some (ent \<noteq> None, s) }"

definition pt_suppl_add_mmf :: "nat \<Rightarrow> int \<Rightarrow> nat \<Rightarrow> nat \<Rightarrow> vms \<Rightarrow> (bool \<times> vms) option" where
  "pt_suppl_add_mmf fe ofs page_addr read_bytes s = do {
     let (ent, s) = pt_suppl_setup_file_info fe ofs page_addr read_bytes (PGSIZE - read_bytes) True MMF_UNLOADED s;
     pt_suppl_add_current ent s }"

definition pt_suppl_add_lazy :: "nat \<Rightarrow> int \<Rightarrow> nat \<Rightarrow> nat \<Rightarrow> nat \<Rightarrow> bool \<Rightarrow> vms \<Rightarrow> (bool \<times> vms) option" where
  "pt_suppl_add_lazy fe ofs page_addr rb zb writ s = do {
     let (ent, s) = pt_suppl_setup_file_info fe ofs page_addr rb zb writ LAZY_UNLOADED s;
     current \<leftarrow> current_proc s;
     ASSERT (\<not> p_pt_suppl_lock current);
     pt_suppl_add_current ent s }"

section \<open>Loading a page\<close>

text \<open>After its page is loaded, the entry of a lazily loaded page is removed and that of a mapped file is kept.\<close>

definition page_in_done :: "pt_suppl_entry \<Rightarrow> vms \<Rightarrow> (bool \<times> vms) option" where
  "page_in_done ent s = do {
     current \<leftarrow> current_proc s;
     s \<leftarrow> (if GET_TYPE (pt_status ent) = LAZY then do {
            let (mem, s) = vm_malloc s;
            (dele, tbl) \<leftarrow> pt_hash_delete mem ent (p_pt_suppl current);
            ASSERT (dele \<noteq> None);
            set_pt_suppl tbl s }
          else set_pt_suppl (pt_update ent (\<lambda>e. e\<lparr>pt_status := SET_PRESENCE (pt_status e) PRESENT\<rparr>) (p_pt_suppl current)) s);
     Some (True, s) }"

definition pt_suppl_page_in :: "fm_writer \<Rightarrow> pt_suppl_entry \<Rightarrow> vms \<Rightarrow> (bool \<times> vms) option" where
  "pt_suppl_page_in fmw ent s = do {
     (frm, s) \<leftarrow> vm_frame_alloc fmw PAL_USER (pt_vaddr ent) s;
     current \<leftarrow> current_proc s;
     if IS_SWAPPED (pt_status ent) then do {
       let is_writ = (case pt_file_info ent of None \<Rightarrow> True | Some info \<Rightarrow> fi_writable info);
       (pgdir, s) \<leftarrow> pagedir_set_page (p_pagedir current) (pt_vaddr ent) frm is_writ s;
       if \<not> pgdir then do { s \<leftarrow> vm_frame_free frm s; Some (False, s) }
       else do {
         s \<leftarrow> vm_swap_in (pt_swap_slot ent) (pt_vaddr ent) s;
         page_in_done ent s } }
     else if IS_UNLOADED (pt_status ent) then do {
       info \<leftarrow> pt_file_info ent;
       (_, s) \<leftarrow> with_fs (\<lambda>f. map_option (Pair ()) (file_seek (fi_file info) (fi_offset info) f)) s;
       (read, s) \<leftarrow>
         (if fi_read_bytes info > 0 then do {
            (bytes, s) \<leftarrow> with_fs (file_read fmw (fi_file info) (int (fi_read_bytes info))) s;
            s \<leftarrow> store_bytes frm bytes s;
            Some (bytes \<noteq> [], vm_memset (frm + fi_read_bytes info) 0 (fi_zero_bytes info) s) }
          else Some (True, vm_memset frm 0 (fi_zero_bytes info) s));
       (pgdir, s) \<leftarrow> (if read then pagedir_set_page (p_pagedir current) (pt_vaddr ent) frm (fi_writable info) s else Some (False, s));
       if pgdir then page_in_done ent s
       else do { s \<leftarrow> vm_frame_free frm s; Some (False, s) } }
     else None }"

section \<open>The stack\<close>

definition pt_suppl_grow_stack :: "fm_writer \<Rightarrow> nat \<Rightarrow> vms \<Rightarrow> vms option" where
  "pt_suppl_grow_stack fmw front s = do {
     (pg, s) \<leftarrow> vm_frame_alloc fmw (PAL_USER OR PAL_ZERO) (pg_round_down front) s;
     current \<leftarrow> current_proc s;
     (passed, s) \<leftarrow> pagedir_set_page (p_pagedir current) (pg_round_down front) pg True s;
     if \<not> passed then vm_frame_free pg s else Some s }"

definition pt_suppl_check_and_grow_stack :: "fm_writer \<Rightarrow> nat \<Rightarrow> nat \<Rightarrow> vms \<Rightarrow> (bool \<times> vms) option" where
  "pt_suppl_check_and_grow_stack fmw vaddress esp s = do {
     let pg = pg_round_down vaddress;
     let is_stack_growth = (sz (esp + (2 ^ 32 - 32)) \<le> vaddress);
     let is_stack_growth = (is_stack_growth \<and> ptrdiff PHYS_BASE pg \<le> MAX_STACK);
     s \<leftarrow> (if is_stack_growth then pt_suppl_grow_stack fmw vaddress s else Some s);
     Some (is_stack_growth, s) }"

section \<open>Page faults\<close>

definition pt_suppl_handle_page_fault :: "fm_writer \<Rightarrow> nat \<Rightarrow> nat \<Rightarrow> vms \<Rightarrow> (bool \<times> vms) option" where
  "pt_suppl_handle_page_fault fmw vaddress esp s = do {
     ASSERT (vaddress \<noteq> 0 \<and> vaddress < PHYS_BASE);
     ent \<leftarrow> pt_suppl_get_entry_by_addr vaddress s;
     case ent of
       Some e \<Rightarrow> pt_suppl_page_in fmw e s
     | None \<Rightarrow> pt_suppl_check_and_grow_stack fmw vaddress esp s }"

text \<open>What becomes of the faulting thread: it resumes, or it exits with a status. A panic is \<open>None\<close>.\<close>

datatype fault_outcome = Resume | Exit int

definition PF_P :: u32 where "PF_P = 0x1"
definition PF_W :: u32 where "PF_W = 0x2"
definition PF_U :: u32 where "PF_U = 0x4"

text \<open>\<^verbatim>\<open>SEL_UCSEG\<close> and \<^verbatim>\<open>SEL_KCSEG\<close>, the code segments of user programs and of the kernel.\<close>

definition SEL_KCSEG :: nat where "SEL_KCSEG = 0x08"
definition SEL_UCSEG :: nat where "SEL_UCSEG = 0x1B"

definition kill :: "nat \<Rightarrow> vms \<Rightarrow> (fault_outcome \<times> vms) option" where
  "kill cs s = (if cs = SEL_UCSEG then Some (Exit (-1), s) else if cs = SEL_KCSEG then None else Some (Exit (-1), s))"

definition page_fault :: "fm_writer \<Rightarrow> nat \<Rightarrow> u32 \<Rightarrow> nat \<Rightarrow> nat \<Rightarrow> vms \<Rightarrow> (fault_outcome \<times> vms) option" where
  "page_fault fmw fault_addr error_code cs esp s = do {
     let not_present = (error_code AND PF_P = 0);
     current \<leftarrow> current_proc s;
     if not_present \<and> fault_addr \<noteq> 0 \<and> is_user_vaddr fault_addr then do {
       (handled, s) \<leftarrow> pt_suppl_handle_page_fault fmw fault_addr esp s;
       if handled then do {
         success \<leftarrow> pagedir_get_page (p_pagedir current) fault_addr s;
         Some (if success = None then Exit (-1) else Resume, s) }
       else Some (Exit (-1), s) }
     else kill cs s }"

section \<open>Memory-mapped files\<close>

text \<open>The flag is the one that makes \<^verbatim>\<open>pt_suppl_handle_mmap\<close> return -1.\<close>

function mmap_loop :: "nat \<Rightarrow> int \<Rightarrow> int \<Rightarrow> nat \<Rightarrow> vms \<Rightarrow> (bool \<times> vms) option" where
  "mmap_loop fe len ofs page_address s =
     (if ofs < len then do {
        current \<leftarrow> current_proc s;
        let pg = sz (nat (int page_address + ofs));
        ent \<leftarrow> pt_suppl_get (stack_junk s) pg (p_pt_suppl current);
        mapped \<leftarrow> (if ent \<noteq> None then Some True else map_option (\<lambda>k. k \<noteq> None) (pagedir_get_page (p_pagedir current) pg s));
        if mapped then Some (True, s)
        else do {
          let left = (if len - ofs \<ge> int PGSIZE then int PGSIZE else len - ofs);
          (added, s) \<leftarrow> pt_suppl_add_mmf fe ofs page_address (nat left) s;
          if \<not> added then Some (True, s) else mmap_loop fe len (ofs + int PGSIZE) (page_address + PGSIZE) s } }
      else Some (False, s))"
  by pat_completeness auto
termination by (relation "measure (\<lambda>(fe, len, ofs, pa, s). nat (len - ofs))") (auto simp: PGSIZE_def)

declare mmap_loop.simps [simp del]

definition pt_suppl_handle_mmap :: "nat \<Rightarrow> nat \<Rightarrow> vms \<Rightarrow> (int \<times> vms) option" where
  "pt_suppl_handle_mmap fe start_pg s = do {
     ASSERT (\<not> files_lock (vm_fs s));
     (len, s) \<leftarrow> with_fs (file_length fe) s;
     if len = 0 then Some (-1, s)
     else do {
       let s = s\<lparr>last_map := last_map s + 1\<rparr>;
       (err, s) \<leftarrow> mmap_loop fe len 0 start_pg s;
       Some (if err then -1 else last_map s, s) } }"

definition pt_suppl_flush_mmf :: "fm_writer \<Rightarrow> pt_suppl_entry \<Rightarrow> vms \<Rightarrow> vms option" where
  "pt_suppl_flush_mmf fmw ent s =
     (if pt_status ent = MMF_PRESENT \<or> pt_status ent = MMF_SWAPPED then do {
        mmfile \<leftarrow> pt_file_info ent;
        (_, s) \<leftarrow> with_fs (\<lambda>f. map_option (Pair ()) (file_seek (fi_file mmfile) (fi_offset mmfile) f)) s;
        (bytes, s) \<leftarrow> load_bytes (pt_vaddr ent) (fi_read_bytes mmfile) s;
        (_, s) \<leftarrow> with_fs (file_write fmw (fi_file mmfile) bytes) s;
        Some s }
      else Some s)"

text \<open>The key with which the entries of a mapping are found; only its address, status and mapping are set.\<close>

definition mmf_key :: "int \<Rightarrow> tptr \<Rightarrow> pt_suppl_entry" where
  "mmf_key map_id ow = \<lparr>pt_vaddr = 0, pt_status = MMF, pt_swap_slot = 0,
     pt_file_info = Some \<lparr>fi_file = 0, fi_owner = ow, fi_map_id = map_id, fi_offset = 0, fi_read_bytes = 0, fi_zero_bytes = 0, fi_writable = False\<rparr>\<rparr>"

partial_function (option) unmap_loop :: "fm_writer \<Rightarrow> int \<Rightarrow> nat option \<Rightarrow> vms \<Rightarrow> (nat option \<times> vms) option" where
  "unmap_loop fmw map_id file_to_close s = do {
     current \<leftarrow> current_proc s;
     let (mem, s) = vm_malloc s;
     (dele, tbl) \<leftarrow> pt_hash_delete mem (mmf_key map_id 0) (p_pt_suppl current);
     s \<leftarrow> set_pt_suppl tbl s;
     case dele of
       None \<Rightarrow> Some (file_to_close, s)
     | Some delet \<Rightarrow> do {
         dirty \<leftarrow> pagedir_is_dirty (p_pagedir current) (pt_vaddr delet) s;
         s \<leftarrow> (if dirty then pt_suppl_flush_mmf fmw delet s else Some s);
         info \<leftarrow> pt_file_info delet;
         unmap_loop fmw map_id (Some (fi_file info)) s } }"

definition pt_suppl_handle_unmap :: "fm_writer \<Rightarrow> int \<Rightarrow> vms \<Rightarrow> vms option" where
  "pt_suppl_handle_unmap fmw map_id s = do {
     (file_to_close, s) \<leftarrow> unmap_loop fmw map_id None s;
     case file_to_close of
       None \<Rightarrow> Some s
     | Some f \<Rightarrow> do {
         ASSERT (\<not> files_lock (vm_fs s));
         (_, s) \<leftarrow> with_fs (\<lambda>x. map_option (Pair ()) (file_close fmw f x)) s;
         Some s } }"

partial_function (option) unmap_all_loop :: "fm_writer \<Rightarrow> vms \<Rightarrow> vms option" where
  "unmap_all_loop fmw s = do {
     current \<leftarrow> current_proc s;
     dele \<leftarrow> pt_hash_find (mmf_key (-1) (cur s)) (p_pt_suppl current);
     case dele of
       None \<Rightarrow> Some s
     | Some delet \<Rightarrow> do {
         info \<leftarrow> pt_file_info delet;
         s \<leftarrow> pt_suppl_handle_unmap fmw (fi_map_id info) s;
         unmap_all_loop fmw s } }"

definition with_suppl_lock :: "(vms \<Rightarrow> vms option) \<Rightarrow> vms \<Rightarrow> vms option" where
  "with_suppl_lock f s = do {
     current \<leftarrow> current_proc s;
     ASSERT (\<not> p_pt_suppl_lock current);
     s \<leftarrow> upd_proc (cur s) (p_pt_suppl_lock_update (\<lambda>_. True)) s;
     s \<leftarrow> f s;
     upd_proc (cur s) (p_pt_suppl_lock_update (\<lambda>_. False)) s }"

definition unmap_all :: "fm_writer \<Rightarrow> vms \<Rightarrow> vms option" where
  "unmap_all fmw s = with_suppl_lock (unmap_all_loop fmw) s"

definition memory_map_file :: "nat \<Rightarrow> nat \<Rightarrow> vms \<Rightarrow> (int \<times> vms) option" where
  "memory_map_file n start_page s =
     (case do { p \<leftarrow> current_proc s; get_file_descriptor (p_tid p) n (vm_fs s) } of
        None \<Rightarrow> Some (-1, s)
      | Some fd \<Rightarrow>
          if n = 0 \<or> n = 1 \<or> start_page = 0 \<or> pg_ofs start_page \<noteq> 0 then Some (-1, s)
          else do {
            let f = open_file fd;
            ASSERT (f \<noteq> 0);
            ASSERT (\<not> files_lock (vm_fs s));
            (rf, s) \<leftarrow> with_fs (file_reopen f) s;
            pt_suppl_handle_mmap rf start_page s })"

definition memory_unmap_file :: "fm_writer \<Rightarrow> int \<Rightarrow> vms \<Rightarrow> vms option" where
  "memory_unmap_file fmw map_id s = with_suppl_lock (pt_suppl_handle_unmap fmw map_id) s"

section \<open>Checks of user pointers\<close>

definition is_valid_address_of_thread :: "fm_writer \<Rightarrow> proc \<Rightarrow> nat \<Rightarrow> bool \<Rightarrow> nat \<Rightarrow> vms \<Rightarrow> (bool \<times> vms) option" where
  "is_valid_address_of_thread fmw thr pointerr wannawrite esp s =
     (if pointerr \<noteq> 0 \<and> is_user_vaddr pointerr then do {
        loaded \<leftarrow> pagedir_get_page (p_pagedir thr) pointerr s;
        if loaded \<noteq> None then
          if wannawrite then do { w \<leftarrow> pagedir_is_writable (p_pagedir thr) pointerr s; Some (w, s) } else Some (True, s)
        else do {
          ent \<leftarrow> pt_suppl_get_entry_by_addr pointerr s;
          (grown, s) \<leftarrow> (if esp \<noteq> 0 then pt_suppl_check_and_grow_stack fmw pointerr esp s else Some (False, s));
          if grown then Some (True, s)
          else case ent of
            None \<Rightarrow> Some (False, s)
          | Some e \<Rightarrow> Some (case pt_file_info e of None \<Rightarrow> True | Some info \<Rightarrow> wannawrite \<longrightarrow> fi_writable info, s) } }
      else Some (False, s))"

function valid_range_loop :: "fm_writer \<Rightarrow> proc \<Rightarrow> nat \<Rightarrow> nat \<Rightarrow> bool \<Rightarrow> nat \<Rightarrow> vms \<Rightarrow> (bool \<times> vms) option" where
  "valid_range_loop fmw thr starttt ending wannawrite esp s =
     (if starttt < ending then do {
        (ok, s) \<leftarrow> is_valid_address_of_thread fmw thr starttt wannawrite esp s;
        if \<not> ok then Some (False, s) else valid_range_loop fmw thr (starttt + PGSIZE) ending wannawrite esp s }
      else is_valid_address_of_thread fmw thr ending wannawrite esp s)"
  by pat_completeness auto
termination by (relation "measure (\<lambda>(fmw, thr, starttt, ending, w, esp, s). ending - starttt)") (auto simp: PGSIZE_def)

declare valid_range_loop.simps [simp del]

definition is_valid_address_range_of_thread :: "fm_writer \<Rightarrow> proc \<Rightarrow> nat \<Rightarrow> nat \<Rightarrow> bool \<Rightarrow> nat \<Rightarrow> vms \<Rightarrow> (bool \<times> vms) option" where
  "is_valid_address_range_of_thread fmw thr starttt ending wannawrite esp s =
     (if starttt = 0 \<or> ending = 0 \<or> ending < starttt then Some (False, s)
      else valid_range_loop fmw thr starttt ending wannawrite esp s)"

section \<open>Adding entries\<close>

lemma hash_cnt: "hash_wf hf key h \<Longrightarrow> h_elem_cnt h = card (dom (hash_map key h))"
proof -
  assume wf: "hash_wf hf key h"
  then have "dom (hash_map key h) = key ` set (contents h)" by (force simp: hash_map_Some dom_def)
  then show ?thesis using wf distinct_card [of "map key (contents h)"] by (simp add: hash_wf_def)
qed

lemma hash_cnt_insert:
  assumes "hash_wf hf key h" and "hash_wf hf' key' h'" and "dom (hash_map key' h') \<subseteq> insert k (dom (hash_map key h))"
  shows "h_elem_cnt h' \<le> h_elem_cnt h + 1"
proof -
  have "finite (dom (hash_map key h))" by (simp add: hash_map_def finite_dom_map_of)
  then have "card (dom (hash_map key' h')) \<le> card (insert k (dom (hash_map key h)))" using assms(3) by (intro card_mono) auto
  also have "\<dots> \<le> card (dom (hash_map key h)) + 1" using card_insert_le_m1 [of _ "dom (hash_map key h)" k] by (simp add: card_insert_if finite_dom_map_of hash_map_def)
  finally show ?thesis using hash_cnt [OF assms(1)] hash_cnt [OF assms(2)] by simp
qed

text \<open>An entry is added where there is none; otherwise the table stays as it is and the new entry is lost.\<close>

lemma add_current_ok:
  assumes pr: "procs s (cur s) = Some pr" and tbl: "pt_wf (p_pt_suppl pr)" "h_elem_cnt (p_pt_suppl pr) + 1 < 2 ^ 32" and e: "pt_vaddr e \<noteq> 0"
  shows "\<exists>s' pr'. pt_suppl_add_current (Some e) s = Some (True, s') \<and> s' = s\<lparr>malloc_no := malloc_no s + 1, procs := (procs s)(cur s \<mapsto> pr')\<rparr> \<and>
    p_pagedir pr' = p_pagedir pr \<and> p_pt_suppl_lock pr' = p_pt_suppl_lock pr \<and> p_tid pr' = p_tid pr \<and> pt_wf (p_pt_suppl pr') \<and>
    h_elem_cnt (p_pt_suppl pr') \<le> h_elem_cnt (p_pt_suppl pr) + 1 \<and>
    hash_map pt_vaddr (p_pt_suppl pr') = (if hash_map pt_vaddr (p_pt_suppl pr) (pt_vaddr e) = None
       then (hash_map pt_vaddr (p_pt_suppl pr))(pt_vaddr e \<mapsto> e) else hash_map pt_vaddr (p_pt_suppl pr))"
proof -
  let ?m = "mallocs s (malloc_no s)" and ?h = "hash_map pt_vaddr (p_pt_suppl pr)"
  obtain tbl' where tbl': "pt_hash_insert ?m e (p_pt_suppl pr) = Some (?h (pt_vaddr e), tbl')" "pt_wf tbl'"
      "hash_map pt_vaddr tbl' = (if ?h (pt_vaddr e) = None then ?h(pt_vaddr e \<mapsto> e) else ?h)"
    using pt_insert_map [OF tbl(1) e tbl(2), of ?m] by blast
  have "h_elem_cnt tbl' \<le> h_elem_cnt (p_pt_suppl pr) + 1"
    using tbl(1) tbl'(2,3) by (intro hash_cnt_insert [where k = "pt_vaddr e"]) (auto simp: pt_wf_def split: if_splits)
  moreover have "pt_suppl_add_current (Some e) s =
      Some (True, s\<lparr>malloc_no := malloc_no s + 1, procs := (procs s)(cur s \<mapsto> pr\<lparr>p_pt_suppl := tbl'\<rparr>)\<rparr>)"
    using pr tbl'(1) by (simp add: pt_suppl_add_current_def current_proc_def vm_malloc_def pt_suppl_add_def set_pt_suppl_def upd_proc_def Let_def)
  ultimately show ?thesis using tbl'(2,3)
    by (intro exI [of _ "s\<lparr>malloc_no := malloc_no s + 1, procs := (procs s)(cur s \<mapsto> pr\<lparr>p_pt_suppl := tbl'\<rparr>)\<rparr>"] exI [of _ "pr\<lparr>p_pt_suppl := tbl'\<rparr>"]) simp
qed

definition file_entry :: "nat \<Rightarrow> tptr \<Rightarrow> int \<Rightarrow> int \<Rightarrow> nat \<Rightarrow> nat \<Rightarrow> nat \<Rightarrow> bool \<Rightarrow> u32 \<Rightarrow> pt_suppl_entry" where
  "file_entry fe t mid ofs pg rb zb writ st = \<lparr>pt_vaddr = pg, pt_status = st, pt_swap_slot = 0,
     pt_file_info = Some \<lparr>fi_file = fe, fi_owner = t, fi_map_id = mid, fi_offset = ofs, fi_read_bytes = rb, fi_zero_bytes = zb, fi_writable = writ\<rparr>\<rparr>"

lemma file_entry_vaddr [simp]: "pt_vaddr (file_entry fe t mid ofs pg rb zb writ st) = pg"
  by (simp add: file_entry_def)

lemma setup_ok:
  "\<forall>n. mallocs s n \<Longrightarrow> pt_suppl_setup_file_info fe ofs pg rb zb writ st s =
     (Some (file_entry fe (cur s) (last_map s) ofs pg rb zb writ st), s\<lparr>malloc_no := malloc_no s + 2\<rparr>)"
  by (simp add: pt_suppl_setup_file_info_def vm_malloc_def file_entry_def Let_def)

lemma add_file_page:
  assumes pr: "procs s (cur s) = Some pr" and tbl: "pt_wf (p_pt_suppl pr)" "h_elem_cnt (p_pt_suppl pr) + 1 < 2 ^ 32"
    and m: "\<forall>n. mallocs s n" and pg: "pg \<noteq> 0"
  shows "\<exists>s' pr'. pt_suppl_add_current (fst (pt_suppl_setup_file_info fe ofs pg rb zb writ st s)) (snd (pt_suppl_setup_file_info fe ofs pg rb zb writ st s)) = Some (True, s') \<and>
    s' = s\<lparr>malloc_no := malloc_no s + 3, procs := (procs s)(cur s \<mapsto> pr')\<rparr> \<and>
    p_pagedir pr' = p_pagedir pr \<and> p_pt_suppl_lock pr' = p_pt_suppl_lock pr \<and> p_tid pr' = p_tid pr \<and> pt_wf (p_pt_suppl pr') \<and>
    h_elem_cnt (p_pt_suppl pr') \<le> h_elem_cnt (p_pt_suppl pr) + 1 \<and>
    hash_map pt_vaddr (p_pt_suppl pr') = (if hash_map pt_vaddr (p_pt_suppl pr) pg = None
       then (hash_map pt_vaddr (p_pt_suppl pr))(pg \<mapsto> file_entry fe (cur s) (last_map s) ofs pg rb zb writ st) else hash_map pt_vaddr (p_pt_suppl pr))"
  using add_current_ok [of "s\<lparr>malloc_no := malloc_no s + 2\<rparr>" pr "file_entry fe (cur s) (last_map s) ofs pg rb zb writ st"] pr tbl pg
  unfolding setup_ok [OF m] by (simp add: numeral_3_eq_3 cong: if_cong)

section \<open>Properties\<close>

text \<open>
  when the stack grows. The handler of a fault on a page that is not known grows the stack exactly when the address is at
  most 32 bytes below the stack pointer (computed modulo \<open>2 ^ 32\<close>) and the page is either within the 8 MB below the top of user
  memory, as intended, or at or below \<open>0x40000000\<close>: there the distance to the top does not fit a signed number, counts as
  negative and passes the test of the limit. In all other cases nothing changes.
\<close>

theorem stack_growth_condition:
  assumes "is_user_vaddr va" and "esp < 2 ^ 32"
  shows "pt_suppl_check_and_grow_stack fmw va esp s =
    (if (if 32 \<le> esp then esp - 32 else esp + 2 ^ 32 - 32) \<le> va \<and>
        (PHYS_BASE - 8 * 2 ^ 20 \<le> pg_round_down va \<or> pg_round_down va \<le> 0x40000000)
     then map_option (Pair True) (pt_suppl_grow_stack fmw va s) else Some (False, s))"
proof -
  let ?pg = "pg_round_down va"
  have u: "?pg < 0xC0000000" using assms(1) by (simp add: is_user_vaddr_def PHYS_BASE_def pg_round_down_def)
  have d: "off_bits (int PHYS_BASE - int ?pg) = 0xC0000000 - ?pg" using u by (simp add: off_bits_def PHYS_BASE_def)
  have "ptrdiff PHYS_BASE ?pg \<le> MAX_STACK \<longleftrightarrow> 0xBF800000 \<le> ?pg \<or> ?pg \<le> 0x40000000"
    using u unfolding ptrdiff_def d bits_off_def MAX_STACK_def by (auto simp: of_nat_diff)
  moreover have "sz (esp + (2 ^ 32 - 32)) = (if 32 \<le> esp then esp - 32 else esp + 2 ^ 32 - 32)"
    using assms(2) by (auto simp: sz_def mod_if)
  ultimately show ?thesis
    by (cases "pt_suppl_grow_stack fmw va s") (auto simp: pt_suppl_check_and_grow_stack_def Let_def PHYS_BASE_def)
qed

theorem stack_growth_witness:
  "pt_suppl_check_and_grow_stack (\<lambda>s. None) 0x10000100 0x10000000 demo_vms = map_option (Pair True) (pt_suppl_grow_stack (\<lambda>s. None) 0x10000100 demo_vms) \<and>
   pt_suppl_check_and_grow_stack (\<lambda>s. None) 0x80000100 0x80000000 demo_vms = Some (False, demo_vms)"
proof -
  have u: "is_user_vaddr 0x10000100" "is_user_vaddr 0x80000100" by (simp_all add: is_user_vaddr_def PHYS_BASE_def)
  show ?thesis
    using stack_growth_condition [OF u(1), of "0x10000000" "\<lambda>s. None" demo_vms] stack_growth_condition [OF u(2), of "0x80000000" "\<lambda>s. None" demo_vms]
    by (simp add: pg_round_down_def PGBITS_def PHYS_BASE_def)
qed

text \<open>
  A mapping may silently lie over a page that is in use. For a file of more than one and at most two pages,
  \<^verbatim>\<open>pt_suppl_handle_mmap\<close> tests the first page and the one after the second, since its loop adds the offset to an address
  that was already advanced. So when the second page has an entry, and the two pages tested are free, the call
  returns a mapping, although only the first page was entered and the second still belongs to what was there.
\<close>

lemma get_page_pal: "pd_ok pd s \<Longrightarrow> pal t = pal s \<Longrightarrow> is_user_vaddr va \<Longrightarrow> pagedir_get_page pd va t = pagedir_get_page pd va s"
  using pd_ok_pal [of t s] entry_pal [of t s] by (simp add: get_page_entry Let_def)

theorem mmap_overlap_undetected:
  assumes pr: "procs s (cur s) = Some pr" and tbl: "pt_wf (p_pt_suppl pr)" "h_elem_cnt (p_pt_suppl pr) + 2 < 2 ^ 32" and m: "\<forall>n. mallocs s n"
    and len: "\<not> files_lock (vm_fs s)" "file_length fe (fs (vm_fs s)) = Some (len, f)" "int PGSIZE < len" "len \<le> 2 * int PGSIZE"
    and a: "a \<noteq> 0" "a + 2 * PGSIZE < PHYS_BASE" and pd: "pd_ok (p_pagedir pr) s"
    and free: "pagedir_get_page (p_pagedir pr) a s = Some None" "pagedir_get_page (p_pagedir pr) (a + 2 * PGSIZE) s = Some None"
      "hash_map pt_vaddr (p_pt_suppl pr) a = None" "hash_map pt_vaddr (p_pt_suppl pr) (a + 2 * PGSIZE) = None"
    and used: "hash_map pt_vaddr (p_pt_suppl pr) (a + PGSIZE) = Some e"
  shows "\<exists>s' pr'. pt_suppl_handle_mmap fe a s = Some (last_map s + 1, s') \<and> procs s' (cur s) = Some pr' \<and>
    hash_map pt_vaddr (p_pt_suppl pr') =
      (hash_map pt_vaddr (p_pt_suppl pr))(a \<mapsto> file_entry fe (cur s) (last_map s + 1) 0 a PGSIZE 0 True MMF_UNLOADED)"
proof -
  let ?s = "s\<lparr>vm_fs := (vm_fs s)\<lparr>fs := f\<rparr>, last_map := last_map s + 1\<rparr>" and ?pd = "p_pagedir pr"
  have P: "PGSIZE = 4096" "PHYS_BASE = 3221225472" by (simp_all add: PGSIZE_def PHYS_BASE_def)
  have addr: "sz (nat (int a + 0)) = a" "sz (nat (int (a + PGSIZE) + int PGSIZE)) = a + 2 * PGSIZE" "is_user_vaddr a" "is_user_vaddr (a + 2 * PGSIZE)"
    using a(2) by (simp_all add: P is_user_vaddr_def)
  have "procs ?s (cur ?s) = Some pr" "h_elem_cnt (p_pt_suppl pr) + 1 < 2 ^ 32" "\<forall>n. mallocs ?s n" using pr tbl(2) m by simp_all
  from add_file_page [OF this(1) tbl(1) this(2,3) a(1), of fe 0 PGSIZE 0 True MMF_UNLOADED] free(3) obtain s1 pr1 where
    s1: "pt_suppl_add_mmf fe 0 a PGSIZE ?s = Some (True, s1)" "s1 = ?s\<lparr>malloc_no := malloc_no s + 3, procs := (procs s)(cur s \<mapsto> pr1)\<rparr>"
      "p_pagedir pr1 = ?pd" "pt_wf (p_pt_suppl pr1)" "h_elem_cnt (p_pt_suppl pr1) \<le> h_elem_cnt (p_pt_suppl pr) + 1"
      "hash_map pt_vaddr (p_pt_suppl pr1) = (hash_map pt_vaddr (p_pt_suppl pr))(a \<mapsto> file_entry fe (cur s) (last_map s + 1) 0 a PGSIZE 0 True MMF_UNLOADED)"
    by (auto simp: pt_suppl_add_mmf_def case_prod_beta Let_def)
  have "procs s1 (cur s1) = Some pr1" "h_elem_cnt (p_pt_suppl pr1) + 1 < 2 ^ 32" "\<forall>n. mallocs s1 n" "a + PGSIZE \<noteq> 0"
    using s1(2,5) tbl(2) m a(1) by simp_all
  from add_file_page [OF this(1) s1(4) this(2-4), of fe "int PGSIZE" "nat (len - int PGSIZE)" "PGSIZE - nat (len - int PGSIZE)" True MMF_UNLOADED]
  obtain s2 pr2 where s2: "pt_suppl_add_mmf fe (int PGSIZE) (a + PGSIZE) (nat (len - int PGSIZE)) s1 = Some (True, s2)"
      "s2 = s1\<lparr>malloc_no := malloc_no s1 + 3, procs := (procs s1)(cur s1 \<mapsto> pr2)\<rparr>" "hash_map pt_vaddr (p_pt_suppl pr2) = hash_map pt_vaddr (p_pt_suppl pr1)"
    using used s1(6) a(1) by (auto simp: pt_suppl_add_mmf_def case_prod_beta Let_def P)
  have g1: "pagedir_get_page ?pd a ?s = Some None" using get_page_pal [OF pd _ addr(3), of ?s] free(1) by simp
  have g2: "pagedir_get_page ?pd (a + 2 * PGSIZE) s1 = Some None" using get_page_pal [OF pd _ addr(4), of s1] free(2) s1(2) by simp
  have f1: "pt_suppl_get (stack_junk ?s) a (p_pt_suppl pr) = Some None" using pt_find_map [OF tbl(1) a(1)] free(3) by simp
  have f2: "pt_suppl_get (stack_junk s1) (a + 2 * PGSIZE) (p_pt_suppl pr1) = Some None"
    using pt_find_map [OF s1(4), of "a + 2 * PGSIZE"] a(1) free(4) s1(6) by (simp add: P)
  have "mmap_loop fe len (int PGSIZE + int PGSIZE) (a + PGSIZE + PGSIZE) s2 = Some (False, s2)"
    using len(4) by (subst mmap_loop.simps) (simp add: P)
  moreover have "(if len - int PGSIZE \<ge> int PGSIZE then int PGSIZE else len - int PGSIZE) = len - int PGSIZE" using len(3,4) by (simp add: P)
  ultimately have "mmap_loop fe len (int PGSIZE) (a + PGSIZE) s1 = Some (False, s2)"
    using len(3) s1(2,3) s2(1) f2 g2 addr(2) by (subst mmap_loop.simps) (simp add: current_proc_def Let_def)
  then have "mmap_loop fe len 0 a ?s = Some (False, s2)"
    using len(3) pr f1 g1 s1(1) addr(1) by (subst mmap_loop.simps) (simp add: current_proc_def Let_def P)
  then have "pt_suppl_handle_mmap fe a s = Some (last_map s + 1, s2)"
    using len s1(2) s2(2) by (simp add: pt_suppl_handle_mmap_def with_fs_def Let_def P)
  then show ?thesis using s1(2,6) s2(2,3) by auto
qed

end
