(* ===== verification/Eviction.thy ===== *)
theory Eviction
  imports Page
begin

text \<open>
  What eviction achieves: the second-chance choice of \<^verbatim>\<open>vm/frame.c\<close>, that a page put into swap space by it comes back with
  the same contents when it is next used, and that the frame table records exactly the pages handed out, whether they were free or evicted.
\<close>

section \<open>Address spaces that do not overlap\<close>

definition pd_pages :: "'a pgs_scheme \<Rightarrow> nat \<Rightarrow> nat set" where
  "pd_pages s pd = insert pd {pt. \<exists>i < pd_no PHYS_BASE. tab s pd i = Some pt}"

definition pds_ok :: "'a pgs_scheme \<Rightarrow> nat set \<Rightarrow> bool" where
  "pds_ok s P \<longleftrightarrow> (\<forall>pd \<in> P. pd_ok pd s) \<and> (\<forall>a \<in> P. \<forall>b \<in> P. a \<noteq> b \<longrightarrow> pd_pages s a \<inter> pd_pages s b = {})"

lemma pds_store:
  fixes w :: u32
  assumes ok: "pds_ok s P" and pd: "pd \<in> P" and va: "is_user_vaddr va" and pt: "tab s pd (pd_no va) = Some pt"
  defines "s' \<equiv> store_word (pt + 4 * pt_no va) w s"
  shows "pds_ok s' P" and "\<And>q n. q \<in> P \<Longrightarrow> user_page_no n \<Longrightarrow> entry s' q n = (if q = pd \<and> n = va div 2 ^ 12 then w else entry s q n)"
proof -
  have pk: "pd_ok q s" if "q \<in> P" for q using ok that by (simp add: pds_ok_def)
  have vi: "pd_no va < pd_no PHYS_BASE" using user_index [OF va] by simp
  have k: "pt_no va < 1024" by (simp add: pt_no_def)
  note p = pd_okD(6) [OF pk [OF pd] vi pt]
  have ptin: "pt \<in> pd_pages s pd" using vi pt by (auto simp: pd_pages_def)
  have ne: "pt \<noteq> x" if "q \<in> P" "q \<noteq> pd" "x \<in> pd_pages s q" for q x
    using ok pd that ptin unfolding pds_ok_def by blast
  have ptq: "pt \<noteq> q" if "q \<in> P" for q using ne [of q q] that p by (cases "q = pd") (auto simp: pd_pages_def)
  have t: "tab s' q i = tab s q i" if "q \<in> P" "i < pd_no PHYS_BASE" for q i
    unfolding s'_def using pd_okD(2) [OF pk [OF that(1)]] p ptq [OF that(1)] k that(2) by (intro tab_store_other) auto
  have ok': "pd_ok q s'" if "q \<in> P" for q
    unfolding s'_def using p ptq [OF that] k by (intro pd_ok_store pk [OF that]) auto
  have "pd_pages s' q = pd_pages s q" if "q \<in> P" for q using t [OF that] by (auto simp: pd_pages_def)
  then show "pds_ok s' P" using ok ok' unfolding pds_ok_def by simp
  show "entry s' q n = (if q = pd \<and> n = va div 2 ^ 12 then w else entry s q n)" if "q \<in> P" "user_page_no n" for q n
  proof (cases "q = pd")
    case True
    then show ?thesis unfolding s'_def using entry_store [OF pk [OF pd] va pt that(2)] by simp
  next
    case False
    let ?i = "n div 2 ^ 10" and ?j = "n mod 2 ^ 10"
    have i: "?i < pd_no PHYS_BASE" using that(2) by (rule user_page_noD)
    show ?thesis
    proof (cases "tab s q ?i")
      case None
      then show ?thesis using False t [OF that(1) i] by (simp add: entry_def)
    next
      case (Some pt')
      then have "pt' \<in> pd_pages s q" using i by (auto simp: pd_pages_def)
      then have "pt \<noteq> pt'" using ne [OF that(1) False] by blast
      then have "word_at s' (pt' + 4 * ?j) = word_at s (pt' + 4 * ?j)"
        unfolding s'_def using words_apart [of pt pt' "pt_no va" ?j] p k pd_okD(6) [OF pk [OF that(1)] i Some]
        by (intro word_at_store_other) auto
      then show ?thesis using False t [OF that(1) i] Some by (simp add: entry_def)
    qed
  qed
qed

lemma pds_ok_pal: "pal s = pal t \<Longrightarrow> pds_ok s P = pds_ok t P"
proof -
  assume p: "pal s = pal t"
  then have "tab s pd i = tab t pd i" for pd i using word_at_pal [OF p] by (simp add: tab_def)
  then show ?thesis using pd_ok_pal [OF p] by (simp add: pds_ok_def pd_pages_def)
qed

section \<open>Reading and clearing flags\<close>

text \<open>Steps that change the contents of memory and reload the page directory base register only.\<close>

definition only_memory :: "'a pgs_scheme \<Rightarrow> 'a pgs_scheme \<Rightarrow> bool" where
  "only_memory s s' \<longleftrightarrow> (\<exists>p c f. s' = s\<lparr>pal := p, cr3 := c, flushes := f\<rparr>)"

lemma only_memoryI: "s' = s\<lparr>pal := p, cr3 := c, flushes := f\<rparr> \<Longrightarrow> only_memory s s'"
  unfolding only_memory_def by blast

lemma only_memory_refl [simp]: "only_memory s s"
  by (rule only_memoryI [where p = "pal s" and c = "cr3 s" and f = "flushes s"]) simp

lemma only_memory_trans: "only_memory s t \<Longrightarrow> only_memory t u \<Longrightarrow> only_memory s u"
  unfolding only_memory_def by (elim exE, intro exI) simp

lemma only_memoryD:
  assumes "only_memory s s'"
  shows "frame_hash s' = frame_hash s" "procs s' = procs s" "cur s' = cur s" "vm_swap s' = vm_swap s" "vm_fs s' = vm_fs s"
    "mallocs s' = mallocs s" "malloc_no s' = malloc_no s" "stack_junk s' = stack_junk s" "frame_hash_lock s' = frame_hash_lock s"
    "init_page_dir s' = init_page_dir s" "init_ram_pages s' = init_ram_pages s" "frame_fs_lock s' = frame_fs_lock s" "last_map s' = last_map s"
  using assms by (auto simp: only_memory_def)

lemma test_entry:
  assumes "pd_ok pd s" and "is_user_vaddr va"
  shows "pagedir_test flag pd va s = Some (entry s pd (va div 2 ^ 12) AND flag \<noteq> 0)"
  unfolding entry_va by (simp add: pagedir_test_def lookup_page_found [OF assms] split: option.split)

lemma activate_rest: "invalidate_pagedir pd s = Some s' \<Longrightarrow> only_memory s s'"
proof -
  have "only_memory s (s\<lparr>cr3 := c, flushes := f\<rparr>)" for c f by (rule only_memoryI [where p = "pal s"]) simp
  then show "invalidate_pagedir pd s = Some s' \<Longrightarrow> only_memory s s'"
    by (auto simp: invalidate_pagedir_def pagedir_activate_def bind_eq_Some_iff split: if_splits)
qed

lemma store_word_rest [simp]: "only_memory s (store_word a w s)"
  unfolding store_word_def by (rule only_memoryI [where c = "cr3 s" and f = "flushes s"]) simp

lemma clear_flag:
  assumes ok: "pds_ok s P" and pd: "pd \<in> P" and va: "is_user_vaddr va" and c: "cr3 s < PHYS_BASE"
  shows "\<exists>s'. pagedir_update flag pd va False s = Some s' \<and> pds_ok s' P \<and> cr3 s' < PHYS_BASE \<and>
    only_memory s s' \<and>
    (\<forall>q \<in> P. \<forall>n. user_page_no n \<longrightarrow> entry s' q n = (if q = pd \<and> n = va div 2 ^ 12 then entry s q n AND NOT flag else entry s q n))"
proof (cases "tab s pd (pd_no va)")
  have pk: "pd_ok pd s" using ok pd by (simp add: pds_ok_def)
  case None
  have e: "entry s pd (va div 2 ^ 12) = 0" unfolding entry_va None by simp
  have "pagedir_update flag pd va False s = Some s" by (simp add: pagedir_update_def lookup_page_found [OF pk va] None)
  then show ?thesis using ok c e by auto
next
  case (Some pt)
  have pk: "pd_ok pd s" using ok pd by (simp add: pds_ok_def)
  let ?w = "word_at s (pt + 4 * pt_no va) AND NOT flag"
  let ?t = "store_word (pt + 4 * pt_no va) ?w s"
  have e: "entry s pd (va div 2 ^ 12) = word_at s (pt + 4 * pt_no va)" unfolding entry_va Some by simp
  note t = pds_store [OF ok pd va Some, where w = ?w]
  have "cr3 ?t < PHYS_BASE" using c by simp
  then obtain s' where s': "invalidate_pagedir pd ?t = Some s'" "pal s' = pal ?t" "cr3 s' < PHYS_BASE"
    using invalidate_ok [OF pd_okD(2) [OF pk]] by blast
  have "pagedir_update flag pd va False s = Some s'" using s'(1) by (simp add: pagedir_update_def lookup_page_found [OF pk va] Some)
  moreover have "only_memory s s'" by (rule only_memory_trans [OF store_word_rest activate_rest [OF s'(1)]])
  moreover have "entry s' q n = (if q = pd \<and> n = va div 2 ^ 12 then entry s q n AND NOT flag else entry s q n)" if "q \<in> P" "user_page_no n" for q n
    unfolding entry_pal [OF s'(2)] t(2) [OF that] using e by auto
  ultimately show ?thesis using s'(3) t(1) by (auto simp: pds_ok_pal [OF s'(2)])
qed

section \<open>The clock\<close>

definition frame_pd :: "vms \<Rightarrow> frame_entry \<Rightarrow> nat" where
  "frame_pd s fe = (case procs s (fr_owner fe) of None \<Rightarrow> 0 | Some p \<Rightarrow> p_pagedir p)"

text \<open>The accessed flag of a frame.\<close>

definition accessed :: "vms \<Rightarrow> frame_entry \<Rightarrow> bool" where
  "accessed s fe \<longleftrightarrow> entry s (frame_pd s fe) (fr_vaddr fe div 2 ^ 12) AND PTE_A \<noteq> 0"

definition frame_key :: "vms \<Rightarrow> frame_entry \<Rightarrow> nat \<times> nat" where
  "frame_key s fe = (frame_pd s fe, fr_vaddr fe div 2 ^ 12)"

definition clock_ok :: "nat set \<Rightarrow> vms \<Rightarrow> frame_entry list \<Rightarrow> bool" where
  "clock_ok P s es \<longleftrightarrow> pds_ok s P \<and> cr3 s < PHYS_BASE \<and> distinct (map (frame_key s) es) \<and>
     (\<forall>fe \<in> set es. procs s (fr_owner fe) \<noteq> None \<and> frame_pd s fe \<in> P \<and> is_user_vaddr (fr_vaddr fe))"

lemma clock_pass_ok:
  assumes "clock_ok P s es" and "ahead (frame_hash s) i = es" and "length (buckets (frame_hash s)) = bucket_cnt (frame_hash s)"
    and "it_bucket i < bucket_cnt (frame_hash s)" and "it_elem i \<le> length (buckets (frame_hash s) ! it_bucket i)"
  shows "\<exists>s'. clock_pass i s = Some (List.find (\<lambda>x. \<not> accessed s x) es, s') \<and> pds_ok s' P \<and> cr3 s' < PHYS_BASE \<and>
    only_memory s s' \<and>
    (\<forall>q \<in> P. \<forall>n. user_page_no n \<longrightarrow> entry s' q n =
       (if (q, n) \<in> frame_key s ` set (takeWhile (accessed s) es) then entry s q n AND NOT PTE_A else entry s q n))"
  using assms
proof (induction es arbitrary: i s)
  case Nil
  obtain i' where "hash_next (frame_hash s) i = (None, i')"
    using hash_next_ahead [OF Nil.prems(3-5)] Nil.prems(2) by (cases "hash_next (frame_hash s) i") auto
  then have "clock_pass i s = Some (None, s)" by (subst clock_pass.simps) simp
  then show ?case using Nil.prems(1) by (auto simp: clock_ok_def)
next
  case (Cons fe es)
  obtain i' where i: "hash_next (frame_hash s) i = (Some fe, i')" "ahead (frame_hash s) i' = es"
    "it_bucket i' < bucket_cnt (frame_hash s)" "it_elem i' \<le> length (buckets (frame_hash s) ! it_bucket i')"
    using hash_next_ahead [OF Cons.prems(3-5)] Cons.prems(2) by (cases "hash_next (frame_hash s) i") auto
  note ok = Cons.prems(1) [unfolded clock_ok_def]
  obtain pr where pr: "procs s (fr_owner fe) = Some pr" "p_pagedir pr \<in> P" "is_user_vaddr (fr_vaddr fe)"
    using ok by (auto simp: frame_pd_def)
  have fpd: "frame_pd s fe = p_pagedir pr" using pr(1) by (simp add: frame_pd_def)
  have pk: "pd_ok (p_pagedir pr) s" using ok pr(2) by (simp add: pds_ok_def)
  have test: "pagedir_is_accessed (p_pagedir pr) (fr_vaddr fe) s = Some (accessed s fe)"
    unfolding pagedir_is_accessed_def test_entry [OF pk pr(3)] by (simp add: accessed_def fpd)
  show ?case
  proof (cases "accessed s fe")
    case False
    then have "clock_pass i s = Some (Some fe, s)" using i(1) pr(1) test by (subst clock_pass.simps) simp
    then show ?thesis using False ok by auto
  next
    case True
    have "pds_ok s P" "cr3 s < PHYS_BASE" using ok by simp_all
    from clear_flag [OF this(1) pr(2,3) this(2), of PTE_A] obtain s1 where
      s1: "pagedir_set_accessed (p_pagedir pr) (fr_vaddr fe) False s = Some s1" "pds_ok s1 P" "cr3 s1 < PHYS_BASE"
      and rest: "only_memory s s1"
      and ent: "\<And>q n. q \<in> P \<Longrightarrow> user_page_no n \<Longrightarrow>
        entry s1 q n = (if q = p_pagedir pr \<and> n = fr_vaddr fe div 2 ^ 12 then entry s q n AND NOT PTE_A else entry s q n)"
      unfolding pagedir_set_accessed_def by blast
    have h: "frame_hash s1 = frame_hash s" "procs s1 = procs s" using only_memoryD [OF rest] by simp_all
    then have key: "frame_key s1 = frame_key s" "frame_pd s1 = frame_pd s" by (simp_all add: frame_key_def frame_pd_def fun_eq_iff)
    have other: "accessed s1 x = accessed s x" if "x \<in> set es" for x
    proof -
      have "frame_key s x \<noteq> frame_key s fe" using ok that by (metis (no_types, lifting) distinct.simps(2) image_eqI list.set_map list.simps(9))
      then show ?thesis using ent [of "frame_pd s x" "fr_vaddr x div 2 ^ 12"] ok that user_page_no_va
        by (auto simp: accessed_def key frame_key_def fpd)
    qed
    have "clock_ok P s1 es" using ok s1(2,3) h by (auto simp: clock_ok_def key)
    from Cons.IH [OF this, of i'] i(2-4) Cons.prems(3) obtain s' where
      s': "clock_pass i' s1 = Some (List.find (\<lambda>x. \<not> accessed s1 x) es, s')" "pds_ok s' P" "cr3 s' < PHYS_BASE"
      and rest': "only_memory s1 s'"
      and ent': "\<forall>q \<in> P. \<forall>n. user_page_no n \<longrightarrow> entry s' q n =
        (if (q, n) \<in> frame_key s1 ` set (takeWhile (accessed s1) es) then entry s1 q n AND NOT PTE_A else entry s1 q n)"
      by (auto simp: h)
    have "List.find (\<lambda>x. \<not> accessed s1 x) es = List.find (\<lambda>x. \<not> accessed s x) es" "takeWhile (accessed s1) es = takeWhile (accessed s) es"
      using other by (auto intro: find_cong takeWhile_cong)
    note eq = this
    have "clock_pass i s = Some (List.find (\<lambda>x. \<not> accessed s x) (fe # es), s')"
      using i(1) pr(1) test True s1(1) s'(1) eq by (subst clock_pass.simps) simp
    moreover have "only_memory s s'" using rest rest' by (rule only_memory_trans)
    moreover have "entry s' q n = (if (q, n) \<in> frame_key s ` set (takeWhile (accessed s) (fe # es)) then entry s q n AND NOT PTE_A else entry s q n)"
      if "q \<in> P" "user_page_no n" for q n
      using ent' that ent [OF that] True unfolding eq key by (auto simp: frame_key_def fpd and.assoc)
    ultimately show ?thesis using s'(2,3) by blast
  qed
qed

lemma pass_from_start:
  assumes "clock_ok P s (contents (frame_hash s))" and "hash_wf find_frame fr_page (frame_hash s)"
  obtains s' where "clock_pass hash_first s = Some (List.find (\<lambda>x. \<not> accessed s x) (contents (frame_hash s)), s')"
    "pds_ok s' P" "cr3 s' < PHYS_BASE" "only_memory s s'"
    "\<And>q n. q \<in> P \<Longrightarrow> user_page_no n \<Longrightarrow> entry s' q n =
       (if (q, n) \<in> frame_key s ` set (takeWhile (accessed s) (contents (frame_hash s))) then entry s q n AND NOT PTE_A else entry s q n)"
proof -
  let ?h = "frame_hash s"
  have p: "placed find_frame ?h" using assms(2) by (simp add: hash_wf_def)
  then have len: "0 < length (buckets ?h)" "length (buckets ?h) = bucket_cnt ?h" by (auto simp: placed_def)
  have a: "ahead ?h hash_first = contents ?h" using p by (cases "buckets ?h") (auto simp: placed_def ahead_def hash_first_def contents_def)
  show ?thesis using clock_pass_ok [OF assms(1) a len(2)] len that by (fastforce simp: hash_first_def)
qed

lemma select_ok:
  assumes ok: "clock_ok P s (contents (frame_hash s))" and wf: "hash_wf find_frame fr_page (frame_hash s)" and ne: "contents (frame_hash s) \<noteq> []"
  shows "\<exists>s'. select_frame_to_evict s =
      Some (case List.find (\<lambda>x. \<not> accessed s x) (contents (frame_hash s)) of Some fe \<Rightarrow> fe | None \<Rightarrow> hd (contents (frame_hash s)), s') \<and>
    only_memory s s' \<and> pds_ok s' P \<and> cr3 s' < PHYS_BASE \<and>
    (\<forall>q \<in> P. \<forall>n. user_page_no n \<longrightarrow> entry s' q n =
       (if (q, n) \<in> frame_key s ` set (takeWhile (accessed s) (contents (frame_hash s))) then entry s q n AND NOT PTE_A else entry s q n))"
proof -
  let ?es = "contents (frame_hash s)"
  obtain s1 where s1: "clock_pass hash_first s = Some (List.find (\<lambda>x. \<not> accessed s x) ?es, s1)" "pds_ok s1 P" "cr3 s1 < PHYS_BASE" "only_memory s s1"
    and ent: "\<And>q n. q \<in> P \<Longrightarrow> user_page_no n \<Longrightarrow> entry s1 q n =
       (if (q, n) \<in> frame_key s ` set (takeWhile (accessed s) ?es) then entry s q n AND NOT PTE_A else entry s q n)"
    using pass_from_start [OF ok wf] by metis
  show ?thesis
  proof (cases "List.find (\<lambda>x. \<not> accessed s x) ?es")
    case (Some fe)
    then have "select_frame_to_evict s = Some (fe, s1)" using s1(1) by (subst select_frame_to_evict.simps) simp
    then show ?thesis using Some s1(2-4) ent by auto
  next
    case None
    then have all: "\<forall>x \<in> set ?es. accessed s x" by (simp add: find_None_iff)
    then have tw: "takeWhile (accessed s) ?es = ?es" by (simp add: takeWhile_eq_all_conv)
    have h: "frame_hash s1 = frame_hash s" "procs s1 = procs s" using only_memoryD [OF s1(4)] by simp_all
    then have key: "frame_key s1 = frame_key s" "frame_pd s1 = frame_pd s" by (simp_all add: frame_key_def frame_pd_def fun_eq_iff)
    have no: "\<not> accessed s1 x" if "x \<in> set ?es" for x
    proof -
      have "frame_pd s x \<in> P" "is_user_vaddr (fr_vaddr x)" using ok that by (auto simp: clock_ok_def)
      then show ?thesis using ent [of "frame_pd s x" "fr_vaddr x div 2 ^ 12"] that user_page_no_va tw
        by (auto simp: accessed_def key frame_key_def and.assoc)
    qed
    then have tw1: "takeWhile (accessed s1) ?es = []" and f1: "List.find (\<lambda>x. \<not> accessed s1 x) ?es = Some (hd ?es)"
      using ne by (cases "?es"; auto)+
    have "clock_ok P s1 (contents (frame_hash s1))" using ok s1(2,3) h by (auto simp: clock_ok_def key)
    then obtain s2 where s2: "clock_pass hash_first s1 = Some (Some (hd ?es), s2)" "pds_ok s2 P" "cr3 s2 < PHYS_BASE" "only_memory s1 s2"
      and ent2: "\<And>q n. q \<in> P \<Longrightarrow> user_page_no n \<Longrightarrow> entry s2 q n = entry s1 q n"
      using pass_from_start [of P s1] wf f1 tw1 by (auto simp: h)
    have "select_frame_to_evict s1 = Some (hd ?es, s2)" using s2(1) by (subst select_frame_to_evict.simps) simp
    then have "select_frame_to_evict s = Some (hd ?es, s2)" using s1(1) None by (subst select_frame_to_evict.simps) simp
    then show ?thesis using None s2(2,3) ent ent2 only_memory_trans [OF s1(4) s2(4)] by auto
  qed
qed

section \<open>Memory outside the tables\<close>

text \<open>A directory stays as it is when memory outside its pages changes and pages are allocated.\<close>

lemma pd_ok_cong:
  assumes ok: "pd_ok pd s" and p: "palloc_ok (pal s')" "in_use (pal s) \<subseteq> in_use (pal s')" "pool_base (kernel_pool (pal s')) = pool_base (kernel_pool (pal s))"
    and same: "\<And>q x. q \<in> pd_pages s pd \<Longrightarrow> x \<in> page_range q 1 \<Longrightarrow> ram (pal s') x = ram (pal s) x"
  shows "pd_ok pd s'" and "i < pd_no PHYS_BASE \<Longrightarrow> tab s' pd i = tab s pd i" and "user_page_no n \<Longrightarrow> entry s' pd n = entry s pd n"
proof -
  have w: "word_at s' (q + 4 * j) = word_at s (q + 4 * j)" if "q \<in> pd_pages s pd" "j < 1024" for q j
  proof (rule word_at_cong)
    fix x assume "q + 4 * j \<le> x" "x < q + 4 * j + 4"
    then have "x \<in> page_range q 1" using that(2) by (simp add: page_range_def PGSIZE_def)
    then show "ram (pal s') x = ram (pal s) x" using same that(1) by blast
  qed
  have i1024: "j < pd_no PHYS_BASE \<Longrightarrow> j < 1024" for j by (simp add: pd_no_def PHYS_BASE_def)
  have wd: "word_at s' (pd + 4 * j) = word_at s (pd + 4 * j)" if "j < pd_no PHYS_BASE" for j
    using w [of pd j] i1024 [OF that] by (simp add: pd_pages_def)
  then show t: "tab s' pd i = tab s pd i" if "i < pd_no PHYS_BASE" for i using that by (simp add: tab_def)
  note D = ok [unfolded pd_ok_def]
  have "\<forall>j < pd_no PHYS_BASE. word_at s' (pd + 4 * j) = 0 \<or>
      (\<exists>pt. word_at s' (pd + 4 * j) = pde_of pt \<and> kernel_page pt \<and> pt \<noteq> pd \<and> page_range pt 1 \<subseteq> in_use (pal s'))"
    using D p(2) by (simp add: wd) (meson order_trans)
  moreover have "\<forall>j k. j < pd_no PHYS_BASE \<longrightarrow> k < pd_no PHYS_BASE \<longrightarrow> j \<noteq> k \<longrightarrow> tab s' pd j \<noteq> None \<longrightarrow> tab s' pd j \<noteq> tab s' pd k"
    using D by (simp add: t)
  moreover have "page_range pd 1 \<subseteq> in_use (pal s')" using D p(2) by blast
  ultimately show "pd_ok pd s'" using D p unfolding pd_ok_def by simp
  show "entry s' pd n = entry s pd n" if "user_page_no n"
  proof (cases "tab s pd (n div 2 ^ 10)")
    case None
    then show ?thesis using t [OF user_page_noD [OF that]] by (simp add: entry_def)
  next
    case (Some pt)
    then have "pt \<in> pd_pages s pd" using user_page_noD [OF that] by (auto simp: pd_pages_def)
    then show ?thesis using Some t [OF user_page_noD [OF that]] w [of pt "n mod 2 ^ 10"] by (simp add: entry_def)
  qed
qed

lemma pd_pages_in_use: "pd_ok pd s \<Longrightarrow> q \<in> pd_pages s pd \<Longrightarrow> kernel_page q \<and> page_range q 1 \<subseteq> in_use (pal s)"
  using pd_okD(2,3,6) [of pd s] by (auto simp: pd_pages_def)

text \<open>Installing a page whose table exists.\<close>

lemma set_page_table:
  assumes ok: "pd_ok pd s" and u: "is_user_vaddr upage" "pg_ofs upage = 0" and k: "kernel_page kpage" "(kpage - PHYS_BASE) div 2 ^ 12 < init_ram_pages s"
    and pd: "pd \<noteq> init_page_dir s" and pt: "tab s pd (pd_no upage) = Some pt" and free: "entry s pd (upage div 2 ^ 12) AND PTE_P = 0"
    and e: "pte_create_user kpage writable = Some e"
  shows "pagedir_set_page pd upage kpage writable s = Some (True, store_word (pt + 4 * pt_no upage) e s)"
proof -
  have i: "pd_no upage < pd_no PHYS_BASE" using user_index [OF u(1)] by simp
  note p = pd_okD(6) [OF ok i pt]
  have "lookup_page pd upage True s = Some (Some (pt + 4 * pt_no upage), s)"
    using p pde_of_get [of pt] pd_okD(4) [OF ok] u(1) by (simp add: lookup_page_def)
  moreover have "word_at s (pt + 4 * pt_no upage) AND PTE_P = 0" using free unfolding entry_va pt by simp
  moreover have "vtop kpage = Some (kpage - PHYS_BASE)" using k(1) by (simp add: vtop_def kernel_page_def is_kernel_vaddr_def)
  ultimately show ?thesis using u k pd e by (simp add: pagedir_set_page_def kernel_page_def)
qed

text \<open>Reloading the base register for the active directory does not change it.\<close>

lemma invalidate_cr3:
  assumes "invalidate_pagedir pd s = Some s'" and "pd \<noteq> 0"
  shows "cr3 s' = cr3 s"
proof (cases "active_pd s = Some pd")
  case True
  then have c: "cr3 s < 3221225472" "sz (cr3 s + 3221225472) = pd" by (auto simp: active_pd_def ptov_def PHYS_BASE_def split: if_splits)
  have a: "pagedir_activate pd s = Some s'" using assms(1) True by (simp add: invalidate_pagedir_def)
  then have "3221225472 \<le> pd" "cr3 s' = pd - 3221225472"
    using assms(2) by (auto simp: pagedir_activate_def vtop_def is_kernel_vaddr_def PHYS_BASE_def split: if_splits)
  then show ?thesis using c by (simp add: sz_def mod_if split: if_splits)
next
  case False
  then show ?thesis using assms(1) by (auto simp: invalidate_pagedir_def bind_eq_Some_iff split: if_splits)
qed

lemma clear_page_rest:
  assumes "pagedir_clear_page pd va s = Some s'"
  shows "only_memory s s' \<and> kernel_pool (pal s') = kernel_pool (pal s) \<and> user_pool (pal s') = user_pool (pal s) \<and> cr3 s' = cr3 s"
proof -
  have "pd \<noteq> 0" using assms by (auto simp: pagedir_clear_page_def lookup_page_def split: if_splits)
  then have a: "only_memory s s' \<and> kernel_pool (pal s') = kernel_pool (pal s) \<and> user_pool (pal s') = user_pool (pal s) \<and> cr3 s' = cr3 s"
    if "invalidate_pagedir pd (store_word x w s) = Some s'" for x w
    using only_memory_trans [OF store_word_rest activate_rest [OF that]] invalidate_cr3 [OF that] that
    by (auto simp: invalidate_pagedir_def pagedir_activate_def bind_eq_Some_iff store_word_def split: if_splits)
  have "lookup_page pd va False s = Some (pte, t) \<Longrightarrow> t = s" for pte t
    by (auto simp: lookup_page_def Let_def bind_eq_Some_iff split: if_splits)
  then show ?thesis using assms a
    by (auto simp: pagedir_clear_page_def bind_eq_Some_iff split: option.splits if_splits)
qed

text \<open>The bytes of a page directory and its page tables; the operations on it write nowhere else.\<close>

definition pt_bytes :: "'a pgs_scheme \<Rightarrow> nat \<Rightarrow> nat set" where
  "pt_bytes s pd = (\<Union>q \<in> pd_pages s pd. page_range q 1)"

lemma pt_bytes_cong:
  assumes "\<And>j. j < pd_no PHYS_BASE \<Longrightarrow> tab s' pd j = tab s pd j"
  shows "pd_pages s' pd = pd_pages s pd" and "pt_bytes s' pd = pt_bytes s pd"
proof -
  show "pd_pages s' pd = pd_pages s pd" using assms by (auto simp: pd_pages_def)
  then show "pt_bytes s' pd = pt_bytes s pd" by (simp add: pt_bytes_def)
qed

lemma store_word_ram:
  assumes "q \<in> pd_pages s pd" and "k < 1024" and "x \<notin> pt_bytes s pd"
  shows "ram (pal (store_word (q + 4 * k) w s)) x = ram (pal s) x"
proof -
  have "q + 4 * k + d \<in> page_range q 1" if "d < 4" for d
    using assms(2) that by (simp add: page_range_def PGSIZE_def)
  then have "x \<noteq> q + 4 * k + d" if "d < 4" for d using assms(1,3) that unfolding pt_bytes_def by blast
  from this [of 0] this [of 1] this [of 2] this [of 3] show ?thesis by (simp add: store_word_def)
qed

lemma invalidate_pal: "invalidate_pagedir pd s = Some s' \<Longrightarrow> pal s' = pal s"
  by (auto simp: invalidate_pagedir_def pagedir_activate_def bind_eq_Some_iff split: if_splits)

lemma clear_page_ram:
  assumes ok: "pd_ok pd s" and u: "is_user_vaddr va" and c: "pagedir_clear_page pd va s = Some s'" and x: "x \<notin> pt_bytes s pd"
  shows "ram (pal s') x = ram (pal s) x"
proof (cases "tab s pd (pd_no va)")
  case None
  then show ?thesis using c by (auto simp: pagedir_clear_page_def lookup_page_found [OF ok u] split: if_splits)
next
  case (Some pt)
  have "pt \<in> pd_pages s pd" using Some user_index [OF u] by (auto simp: pd_pages_def)
  from store_word_ram [OF this _ x, of "pt_no va"] show ?thesis
    using c Some by (auto simp: pagedir_clear_page_def lookup_page_found [OF ok u] pt_no_def dest!: invalidate_pal split: if_splits)
qed

text \<open>The clock leaves the pools as they are.\<close>

definition pools :: "'a pgs_scheme \<Rightarrow> pool \<times> pool" where
  "pools s = (kernel_pool (pal s), user_pool (pal s))"

lemma update_pools: "pagedir_update flag pd va b s = Some s' \<Longrightarrow> pools s' = pools s"
proof -
  have l: "lookup_page pd va False s = Some (pte, t) \<Longrightarrow> t = s" for pte t
    by (auto simp: lookup_page_def Let_def bind_eq_Some_iff split: if_splits)
  assume "pagedir_update flag pd va b s = Some s'"
  then show ?thesis
    by (auto simp: pagedir_update_def bind_eq_Some_iff pools_def store_word_def dest!: l invalidate_pal split: option.splits if_splits)
qed

lemma clock_pass_pools: "clock_pass i s = Some (r, s') \<Longrightarrow> pools s' = pools s"
proof -
  assume "clock_pass i s = Some (r, s')"
  then have "pools (snd (r, s')) = pools s"
  proof (induction i s "(r, s')" arbitrary: r s' rule: clock_pass.raw_induct [rotated, consumes 1, case_names step])
    case (step rec i s)
    then show ?case using update_pools unfolding pagedir_set_accessed_def
      by (fastforce simp: bind_eq_Some_iff split: prod.splits option.splits if_splits)
  qed
  then show ?thesis by simp
qed

lemma select_pools: "select_frame_to_evict s = Some (fe, s') \<Longrightarrow> pools s' = pools s"
proof -
  assume "select_frame_to_evict s = Some (fe, s')"
  then have "pools (snd (fe, s')) = pools s"
  proof (induction s "(fe, s')" arbitrary: fe s' rule: select_frame_to_evict.raw_induct [rotated, consumes 1, case_names step])
    case (step rec s)
    then show ?case using clock_pass_pools by (fastforce simp: bind_eq_Some_iff split: option.splits)
  qed
  then show ?thesis by simp
qed

section \<open>Writing through a mapping\<close>

text \<open>The page at \<open>va\<close> is mapped to the frame \<open>k\<close>, writable, in the active directory.\<close>

definition maps_to :: "'a pgs_scheme \<Rightarrow> nat \<Rightarrow> nat \<Rightarrow> nat \<Rightarrow> bool" where
  "maps_to s pd va k \<longleftrightarrow> pd_ok pd s \<and> cr3 s = pd - PHYS_BASE \<and> is_user_vaddr va \<and> pg_ofs va = 0 \<and> kernel_page k \<and>
     (\<forall>q \<in> pd_pages s pd. page_range q 1 \<inter> page_range k 1 = {}) \<and>
     (\<exists>e. entry s pd (va div 2 ^ 12) = e \<and> e AND PTE_P \<noteq> 0 \<and> e AND PTE_W \<noteq> 0 \<and> pte_get_page e = Some k)"

lemma or_flag: "e AND m \<noteq> 0 \<Longrightarrow> (e OR f) AND m \<noteq> (0 :: u32)"
proof
  assume "e AND m \<noteq> 0" and z: "(e OR f) AND m = 0"
  have "e AND m = (e AND ((e OR f) AND m))" by (rule bit_word_eqI) (auto simp: bit_simps)
  with z \<open>e AND m \<noteq> 0\<close> show False by simp
qed

lemma active_kernel: "kernel_page pd \<Longrightarrow> cr3 s = pd - PHYS_BASE \<Longrightarrow> active_pd s = Some pd"
proof -
  assume k: "kernel_page pd" and c: "cr3 s = pd - PHYS_BASE"
  have "PHYS_BASE \<le> pd" "pd < 4294967296" using k by (simp_all add: kernel_page_def)
  moreover from this have "pd - PHYS_BASE < PHYS_BASE" unfolding PHYS_BASE_def by linarith
  ultimately show "active_pd s = Some pd" unfolding active_pd_def ptov_def c by simp
qed

lemma page_parts: "pg_ofs va = 0 \<Longrightarrow> i < 4096 \<Longrightarrow> (va + i) div 2 ^ 12 = va div 2 ^ 12 \<and> pg_ofs (va + i) = i \<and> (is_user_vaddr va \<longrightarrow> is_user_vaddr (va + i))"
proof -
  assume "pg_ofs va = 0" and i: "i < 4096"
  then obtain j where j: "va = 4096 * j" by (auto simp: pg_ofs_def PGBITS_def mod_eq_0_iff_dvd elim!: dvdE)
  then show ?thesis using i by (auto simp: pg_ofs_def PGBITS_def is_user_vaddr_def PHYS_BASE_def)
qed

lemma write_byte:
  assumes m: "maps_to s pd va k" and i: "i < 4096"
  shows "\<exists>s1. mmu_access True (va + i) s = Some (k + i, s1) \<and>
    (let s2 = s1\<lparr>pal := (pal s1)\<lparr>ram := (ram (pal s1))(k + i := b)\<rparr>\<rparr> in
      maps_to s2 pd va k \<and> only_memory s s2 \<and> in_use (pal s2) = in_use (pal s) \<and> palloc_ok (pal s2) = palloc_ok (pal s) \<and>
      kernel_pool (pal s2) = kernel_pool (pal s) \<and> user_pool (pal s2) = user_pool (pal s) \<and>
      (\<forall>j < 4096. ram (pal s2) (k + j) = (if j = i then b else ram (pal s) (k + j))) \<and>
      (\<forall>n. user_page_no n \<longrightarrow> n \<noteq> va div 2 ^ 12 \<longrightarrow> entry s2 pd n = entry s pd n) \<and>
      pd_pages s2 pd = pd_pages s pd \<and> (\<forall>x. x \<notin> pt_bytes s pd \<longrightarrow> x \<noteq> k + i \<longrightarrow> ram (pal s2) x = ram (pal s) x))"
proof -
  note md = m [unfolded maps_to_def]
  have ok: "pd_ok pd s" using md by simp
  have va: "is_user_vaddr va" "pg_ofs va = 0" using md by simp_all
  note pp = page_parts [OF va(2) i]
  then have vai: "is_user_vaddr (va + i)" using va(1) by simp
  have nos: "pd_no (va + i) = pd_no va" "pt_no (va + i) = pt_no va"
    unfolding pd_no_split [symmetric] pt_no_def using pp by simp_all
  let ?e = "entry s pd (va div 2 ^ 12)"
  have e: "?e AND PTE_P \<noteq> 0" "?e AND PTE_W \<noteq> 0" "pte_get_page ?e = Some k" using md by auto
  obtain pt where pt: "tab s pd (pd_no va) = Some pt" "?e = word_at s (pt + 4 * pt_no va)"
    using e(1) unfolding entry_va by (auto split: option.splits)
  have i768: "pd_no va < pd_no PHYS_BASE" using user_index [OF va(1)] by simp
  have kp: "kernel_page pd" using pd_okD(2) [OF ok] .
  let ?w = "?e OR PTE_A OR PTE_D"
  let ?s1 = "store_word (pt + 4 * pt_no va) ?w s"
  let ?s2 = "?s1\<lparr>pal := (pal ?s1)\<lparr>ram := (ram (pal ?s1))(k + i := b)\<rparr>\<rparr>"
  have "active_pd s = Some pd" using md by (intro active_kernel [OF kp]) simp
  then have acc: "mmu_access True (va + i) s = Some (k + i, ?s1)"
    using vai pt e pp by (simp add: mmu_access_def lookup_page_found [OF ok vai] nos Let_def)
  have P: "pds_ok s {pd}" using ok by (simp add: pds_ok_def)
  have s1: "pd_ok pd ?s1" "\<And>n. user_page_no n \<Longrightarrow> entry ?s1 pd n = (if n = va div 2 ^ 12 then ?w else entry s pd n)"
    using pds_store [OF P _ va(1) pt(1), where w = ?w] by (simp_all add: pds_ok_def)
  have t1: "tab ?s1 pd j = tab s pd j" if "j < pd_no PHYS_BASE" for j
    using pd_okD(6) [OF ok i768 pt(1)] that kp by (intro tab_store_other) (auto simp: pt_no_def)
  then have pp1: "pd_pages ?s1 pd = pd_pages s pd" by (auto simp: pd_pages_def)
  have kin: "k + i \<in> page_range k 1" using i by (simp add: page_range_def PGSIZE_def)
  have out: "ram (pal ?s2) x = ram (pal ?s1) x" if "q \<in> pd_pages ?s1 pd" "x \<in> page_range q 1" for q x
    using that md kin unfolding pp1 by auto
  have keep: "palloc_ok (pal ?s2) = palloc_ok (pal s)" "in_use (pal ?s2) = in_use (pal s)" "kernel_pool (pal ?s2) = kernel_pool (pal s)"
    "user_pool (pal ?s2) = user_pool (pal s)"
    by (simp_all add: store_word_def palloc_ok_def in_use_def)
  have pk: "palloc_ok (pal ?s2)" using keep(1) pd_okD(1) [OF ok] by simp
  have in2: "in_use (pal ?s1) \<subseteq> in_use (pal ?s2)" "pool_base (kernel_pool (pal ?s2)) = pool_base (kernel_pool (pal ?s1))" using keep by simp_all
  have c: "pd_ok pd ?s2" "\<And>j. j < pd_no PHYS_BASE \<Longrightarrow> tab ?s2 pd j = tab ?s1 pd j" "\<And>n. user_page_no n \<Longrightarrow> entry ?s2 pd n = entry ?s1 pd n"
    by (rule pd_ok_cong [OF s1(1) pk in2], rule out, assumption+)+
  have pp2: "pd_pages ?s2 pd = pd_pages s pd" using c(2) t1 by (auto simp: pd_pages_def)
  have e2: "entry ?s2 pd n = (if n = va div 2 ^ 12 then ?w else entry s pd n)" if "user_page_no n" for n
    using c(3) [OF that] s1(2) [OF that] by simp
  have w: "?w AND PTE_P \<noteq> 0" "?w AND PTE_W \<noteq> 0" using e(1,2) or_flag [of ?e] by (simp_all add: or.assoc)
  have "(PTE_A OR PTE_D) AND PTE_ADDR = 0" by (simp add: PTE_A_def PTE_D_def PTE_ADDR_def)
  then have "?w AND PTE_ADDR = ?e AND PTE_ADDR" by (simp add: word_ao_dist or.assoc)
  then have "pte_get_page ?w = Some k" using e(3) by (simp add: pte_get_page_def)
  then have "maps_to ?s2 pd va k"
    unfolding maps_to_def pp2 using md c(1) e2 [OF user_page_no_va [OF va(1)]] w by simp
  moreover have "only_memory s ?s2"
    unfolding store_word_def by (rule only_memoryI [where c = "cr3 s" and f = "flushes s"]) simp
  moreover have "ram (pal ?s2) (k + j) = (if j = i then b else ram (pal s) (k + j))" if j: "j < 4096" for j
  proof -
    have ptin: "pt \<in> pd_pages s pd" using i768 pt(1) by (auto simp: pd_pages_def)
    then have "page_range pt 1 \<inter> page_range k 1 = {}" using md by blast
    moreover have "k + j \<in> page_range k 1" using j by (simp add: page_range_def PGSIZE_def)
    moreover have "pt + 4 * pt_no va + d \<in> page_range pt 1" if "d < 4" for d
      using that by (simp add: page_range_def PGSIZE_def pt_no_def)
    ultimately have "k + j \<noteq> pt + 4 * pt_no va + d" if "d < 4" for d using that by (metis disjoint_iff)
    from this [of 0] this [of 1] this [of 2] this [of 3] show ?thesis by (simp add: store_word_def)
  qed
  moreover have "ram (pal ?s2) x = ram (pal s) x" if "x \<notin> pt_bytes s pd" "x \<noteq> k + i" for x
  proof -
    have "pt \<in> pd_pages s pd" "pt_no va < 1024" using i768 pt(1) by (auto simp: pd_pages_def pt_no_def)
    from store_word_ram [OF this that(1)] show ?thesis using that(2) by simp
  qed
  ultimately show ?thesis using acc e2 keep pp2 unfolding Let_def by (intro exI [of _ ?s1]) auto
qed

lemma store_bytes_page:
  "maps_to s pd va k \<Longrightarrow> off + length bs \<le> 4096 \<Longrightarrow> \<exists>s'. store_bytes (va + off) bs s = Some s' \<and> maps_to s' pd va k \<and> only_memory s s' \<and>
     (\<forall>n. user_page_no n \<longrightarrow> n \<noteq> va div 2 ^ 12 \<longrightarrow> entry s' pd n = entry s pd n) \<and>
     (\<forall>x. x \<notin> pt_bytes s pd \<longrightarrow> x \<notin> page_range k 1 \<longrightarrow> ram (pal s') x = ram (pal s) x) \<and>
     kernel_pool (pal s') = kernel_pool (pal s) \<and> user_pool (pal s') = user_pool (pal s) \<and>
     (\<forall>j < 4096. ram (pal s') (k + j) = (if off \<le> j \<and> j < off + length bs then bs ! (j - off) else ram (pal s) (k + j)))"
proof (induction bs arbitrary: off s)
  case Nil
  then show ?case by (auto intro: exI [of _ s])
next
  case (Cons b bs)
  from write_byte [OF Cons.prems(1), of off b] Cons.prems(2) obtain s1 s2 where
    1: "mmu_access True (va + off) s = Some (k + off, s1)" "s2 = s1\<lparr>pal := (pal s1)\<lparr>ram := (ram (pal s1))(k + off := b)\<rparr>\<rparr>"
      "maps_to s2 pd va k" "only_memory s s2" "kernel_pool (pal s2) = kernel_pool (pal s)" "user_pool (pal s2) = user_pool (pal s)"
      "pd_pages s2 pd = pd_pages s pd"
    and e: "\<And>n. user_page_no n \<Longrightarrow> n \<noteq> va div 2 ^ 12 \<Longrightarrow> entry s2 pd n = entry s pd n"
    and x: "\<And>x. x \<notin> pt_bytes s pd \<Longrightarrow> x \<noteq> k + off \<Longrightarrow> ram (pal s2) x = ram (pal s) x"
    and r: "\<And>j. j < 4096 \<Longrightarrow> ram (pal s2) (k + j) = (if j = off then b else ram (pal s) (k + j))"
    by (auto simp: Let_def)
  from Cons.IH [OF 1(3), of "off + 1"] Cons.prems(2) obtain s' where
    s': "store_bytes (va + (off + 1)) bs s2 = Some s'" "maps_to s' pd va k" "only_memory s2 s'"
      "kernel_pool (pal s') = kernel_pool (pal s2)" "user_pool (pal s') = user_pool (pal s2)"
    and e': "\<And>n. user_page_no n \<Longrightarrow> n \<noteq> va div 2 ^ 12 \<Longrightarrow> entry s' pd n = entry s2 pd n"
    and x': "\<And>x. x \<notin> pt_bytes s2 pd \<Longrightarrow> x \<notin> page_range k 1 \<Longrightarrow> ram (pal s') x = ram (pal s2) x"
    and r': "\<And>j. j < 4096 \<Longrightarrow> ram (pal s') (k + j) = (if off + 1 \<le> j \<and> j < off + 1 + length bs then bs ! (j - (off + 1)) else ram (pal s2) (k + j))"
    by auto
  have "store_bytes (va + off) (b # bs) s = Some s'" using 1(1,2) s'(1) by (simp add: add.assoc)
  moreover have "ram (pal s') (k + j) = (if off \<le> j \<and> j < off + length (b # bs) then (b # bs) ! (j - off) else ram (pal s) (k + j))" if "j < 4096" for j
    using r [OF that] r' [OF that] by (auto simp: nth_Cons')
  moreover have "ram (pal s') x = ram (pal s) x" if "x \<notin> pt_bytes s pd" "x \<notin> page_range k 1" for x
  proof -
    have "x \<noteq> k + off" using that(2) Cons.prems(2) by (auto simp: page_range_def PGSIZE_def)
    moreover have "x \<notin> pt_bytes s2 pd" using that(1) by (simp add: pt_bytes_def 1(7))
    ultimately show ?thesis using x [OF that(1)] x' [OF _ that(2)] by simp
  qed
  ultimately show ?case using only_memory_trans [OF 1(4) s'(3)] s'(2,4,5) 1(5,6) e e' by auto
qed

section \<open>Evicting a page and using it again\<close>

lemma same_pools: "kernel_pool p = kernel_pool q \<Longrightarrow> user_pool p = user_pool q \<Longrightarrow> in_use p = in_use q \<and> palloc_ok p = palloc_ok q"
  by (simp add: in_use_def palloc_ok_def)

lemma lazy_swapped: "SET_PRESENCE (SET_TYPE st LAZY) SWAPPED = LAZY OR SWAPPED"
  by (simp add: SET_PRESENCE_def SET_TYPE_def LAZY_def SWAPPED_def TYPE_MASK_def PRESENCE_MASK_def word_ao_dist and.assoc)

lemma of_swap_simps [simp]:
  "pal (of_swap w s) = pal s" "cr3 (of_swap w s) = cr3 s" "init_page_dir (of_swap w s) = init_page_dir s" "init_ram_pages (of_swap w s) = init_ram_pages s"
  "frame_hash (of_swap w s) = frame_hash s" "frame_hash_lock (of_swap w s) = frame_hash_lock s" "procs (of_swap w s) = procs s" "cur (of_swap w s) = cur s"
  "mallocs (of_swap w s) = mallocs s" "malloc_no (of_swap w s) = malloc_no s" "stack_junk (of_swap w s) = stack_junk s" "files_lock (vm_fs (of_swap w s)) = files_lock (vm_fs s)"
  "vm_swap (of_swap w s) = w" "devs (bc (fs (vm_fs (of_swap w s)))) = swap_devs w"
  by (simp_all add: of_swap_def)

lemma to_of_swap: "swap_ok w \<Longrightarrow> swap_ok (to_swap s) \<Longrightarrow> to_swap (of_swap w s) = w"
proof -
  assume "swap_ok w" "swap_ok (to_swap s)"
  then have "\<not> swap_fs_lock w" "\<not> files_lock (vm_fs s)" by (simp_all add: swap_ok_def to_swap_def)
  then show "to_swap (of_swap w s) = w" by (simp add: to_swap_def)
qed

text \<open>A page of the stack or of data, without an entry in the supplemental table, goes to swap space.\<close>

lemma page_out_ok:
  assumes pr: "procs s (fr_owner fe) = Some pr" and pd: "pd_ok (p_pagedir pr) s" "cr3 s < PHYS_BASE"
    and va: "is_user_vaddr (fr_vaddr fe)" "pg_ofs (fr_vaddr fe) = 0" "fr_vaddr fe \<noteq> 0"
    and tbl: "pt_wf (p_pt_suppl pr)" "hash_map pt_vaddr (p_pt_suppl pr) (fr_vaddr fe) = None" "h_elem_cnt (p_pt_suppl pr) + 1 < 2 ^ 32"
    and sw: "swap_ok (to_swap s)" "\<exists>i < bit_cnt (swap_bm (to_swap s)). swap_view (to_swap s) i = None" and m: "\<forall>n. mallocs s n"
  shows "\<exists>s' slot pr' e. page_out_evicted_frame fmw fe s = Some (True, s') \<and>
    e = \<lparr>pt_vaddr = fr_vaddr fe, pt_status = LAZY OR SWAPPED, pt_swap_slot = slot, pt_file_info = None\<rparr> \<and>
    procs s' = (procs s)(fr_owner fe \<mapsto> pr') \<and> p_pagedir pr' = p_pagedir pr \<and> p_pt_suppl_lock pr' = p_pt_suppl_lock pr \<and>
    pt_wf (p_pt_suppl pr') \<and> hash_map pt_vaddr (p_pt_suppl pr') = (hash_map pt_vaddr (p_pt_suppl pr))(fr_vaddr fe \<mapsto> e) \<and>
    swap_ok (to_swap s') \<and> swap_view (to_swap s') slot = Some (map (ram (pal s)) [fr_page fe..<fr_page fe + PGSIZE]) \<and>
    swap_view (to_swap s) slot = None \<and> (\<forall>i. i \<noteq> slot \<longrightarrow> swap_view (to_swap s') i = swap_view (to_swap s) i) \<and>
    (\<forall>x. x \<notin> pt_bytes s (p_pagedir pr) \<longrightarrow> ram (pal s') x = ram (pal s) x) \<and>
    pd_ok (p_pagedir pr) s' \<and> kernel_pool (pal s') = kernel_pool (pal s) \<and> user_pool (pal s') = user_pool (pal s) \<and> cr3 s' = cr3 s \<and>
    (\<forall>j < pd_no PHYS_BASE. tab s' (p_pagedir pr) j = tab s (p_pagedir pr) j) \<and>
    (\<forall>n. user_page_no n \<longrightarrow> entry s' (p_pagedir pr) n = (if n = fr_vaddr fe div 2 ^ 12 \<and> entry s (p_pagedir pr) n AND PTE_P \<noteq> 0
       then entry s (p_pagedir pr) n AND NOT PTE_P else entry s (p_pagedir pr) n)) \<and>
    frame_hash s' = frame_hash s \<and> frame_hash_lock s' = frame_hash_lock s \<and> cur s' = cur s \<and> mallocs s' = mallocs s \<and> stack_junk s' = stack_junk s \<and>
    init_page_dir s' = init_page_dir s \<and> init_ram_pages s' = init_ram_pages s"
proof -
  let ?page = "map (ram (pal s)) [fr_page fe..<fr_page fe + PGSIZE]"
  have "is_page ?page" by (simp add: is_page_def)
  from sw.put_law [OF sw(1) this] sw(2) obtain slot w where
    w: "swap_out ?page (to_swap s) = Some (Some slot, w)" "swap_ok w" "swap_view w slot = Some ?page"
      "swap_view (to_swap s) slot = None" "\<forall>i. i \<noteq> slot \<longrightarrow> swap_view w i = swap_view (to_swap s) i" by auto
  let ?e = "\<lparr>pt_vaddr = fr_vaddr fe, pt_status = LAZY OR SWAPPED, pt_swap_slot = slot, pt_file_info = None\<rparr>"
  let ?m = "mallocs s (malloc_no s + 1)"
  obtain tbl' where tbl': "pt_hash_insert ?m ?e (p_pt_suppl pr) = Some (None, tbl')" "pt_wf tbl'"
      "hash_map pt_vaddr tbl' = (hash_map pt_vaddr (p_pt_suppl pr))(fr_vaddr fe \<mapsto> ?e)"
    using pt_insert_map [OF tbl(1), of ?e ?m] va(3) tbl(2,3) by auto
  let ?s1 = "(of_swap w s)\<lparr>malloc_no := malloc_no s + 2\<rparr>"
  let ?pr = "pr\<lparr>p_pt_suppl := tbl'\<rparr>"
  let ?s2 = "?s1\<lparr>procs := (procs s)(fr_owner fe \<mapsto> ?pr)\<rparr>"
  have p2: "pal ?s2 = pal s" "cr3 ?s2 < PHYS_BASE" using pd(2) by simp_all
  have "pd_ok (p_pagedir pr) ?s2" using pd(1) pd_ok_pal [OF p2(1)] by simp
  from clear_page_entry [OF this va(1,2) p2(2)] obtain s3 where s3: "pagedir_clear_page (p_pagedir pr) (fr_vaddr fe) ?s2 = Some s3"
      "pd_ok (p_pagedir pr) s3" "\<forall>j < pd_no PHYS_BASE. tab s3 (p_pagedir pr) j = tab ?s2 (p_pagedir pr) j"
    and ent: "\<And>n. user_page_no n \<Longrightarrow> entry s3 (p_pagedir pr) n = (if n = fr_vaddr fe div 2 ^ 12 \<and> entry ?s2 (p_pagedir pr) n AND PTE_P \<noteq> 0
       then entry ?s2 (p_pagedir pr) n AND NOT PTE_P else entry ?s2 (p_pagedir pr) n)" by blast
  have rest: "only_memory ?s2 s3" "kernel_pool (pal s3) = kernel_pool (pal s)" "user_pool (pal s3) = user_pool (pal s)" "cr3 s3 = cr3 s"
    using clear_page_rest [OF s3(1)] by simp_all
  have "page_out_evicted_frame fmw fe s = Some (True, s3)"
    using pr pt_find_map [OF tbl(1) va(3)] tbl(2) w(1) m tbl'(1) s3(1)
    by (simp add: page_out_evicted_frame_def vm_swap_out_def vm_malloc_def Let_def lazy_swapped upd_proc_def)
  moreover have "to_swap s3 = w" using to_of_swap [OF w(2) sw(1)] only_memoryD [OF rest(1)] by (simp add: to_swap_def)
  moreover have "entry s3 (p_pagedir pr) n = (if n = fr_vaddr fe div 2 ^ 12 \<and> entry s (p_pagedir pr) n AND PTE_P \<noteq> 0
       then entry s (p_pagedir pr) n AND NOT PTE_P else entry s (p_pagedir pr) n)" if "user_page_no n" for n
    using ent [OF that] unfolding entry_pal [OF p2(1)] .
  moreover have t2: "tab ?s2 (p_pagedir pr) j = tab s (p_pagedir pr) j" for j using word_at_pal [OF p2(1)] by (simp add: tab_def)
  moreover have "ram (pal s3) x = ram (pal s) x" if "x \<notin> pt_bytes s (p_pagedir pr)" for x
  proof -
    have "x \<notin> pt_bytes ?s2 (p_pagedir pr)" using that t2 by (simp add: pt_bytes_def pd_pages_def)
    from clear_page_ram [OF _ va(1) s3(1) this] show ?thesis using pd(1) pd_ok_pal [OF p2(1)] by simp
  qed
  ultimately show ?thesis using w(2-5) s3(2,3) tbl'(2,3) rest(2-4) only_memoryD [OF rest(1)]
    by (intro exI [of _ s3] exI [of _ slot] exI [of _ ?pr] exI [of _ ?e]) simp
qed

text \<open>A page in swap space comes back when a free frame is left.\<close>

lemma maps_to_pal: "maps_to s pd va k \<Longrightarrow> pal t = pal s \<Longrightarrow> cr3 t = cr3 s \<Longrightarrow> maps_to t pd va k"
proof -
  assume m: "maps_to s pd va k" and p: "pal t = pal s" "cr3 t = cr3 s"
  have "tab t pd i = tab s pd i" for i using word_at_pal [OF p(1)] by (simp add: tab_def)
  then show ?thesis using m p(2) pd_ok_pal [OF p(1)] entry_pal [OF p(1)] by (simp add: maps_to_def pd_pages_def)
qed

lemma maps_to_get:
  assumes "maps_to s pd va k" and "j < 4096"
  shows "pagedir_get_page pd (va + j) s = Some (Some (k + j))"
proof -
  note m = assms(1) [unfolded maps_to_def]
  have pp: "(va + j) div 2 ^ 12 = va div 2 ^ 12" "pg_ofs (va + j) = j" "is_user_vaddr (va + j)"
    using page_parts [OF _ assms(2), of va] m by auto
  have ok: "pd_ok pd s" using m by simp
  show ?thesis unfolding get_page_entry [OF ok pp(3)] Let_def pp(1,2) using m by auto
qed

lemma page_in_ok:
  assumes ok: "frames_ok s" and m: "\<forall>n. mallocs s n"
    and free: "i < bit_cnt (used_map (user_pool (pal s)))" "i \<notin> bitmap_used (used_map (user_pool (pal s)))"
    and pr: "procs s (cur s) = Some pr" and pd: "pd_ok (p_pagedir pr) s" "cr3 s = p_pagedir pr - PHYS_BASE" "p_pagedir pr \<noteq> init_page_dir s"
    and top: "pool_end (user_pool (pal s)) \<le> PHYS_BASE + init_ram_pages s * 2 ^ 12"
    and va: "is_user_vaddr va" "pg_ofs va = 0" "va \<noteq> 0" and un: "entry s (p_pagedir pr) (va div 2 ^ 12) AND PTE_P = 0" "tab s (p_pagedir pr) (pd_no va) = Some pt"
    and e: "e = \<lparr>pt_vaddr = va, pt_status = LAZY OR SWAPPED, pt_swap_slot = slot, pt_file_info = None\<rparr>"
    and tbl: "pt_wf (p_pt_suppl pr)" "hash_map pt_vaddr (p_pt_suppl pr) va = Some e"
    and sw: "swap_ok (to_swap s)" "swap_view (to_swap s) slot = Some page" "length page = PGSIZE"
  shows "\<exists>s' k pr'. pt_suppl_page_in fmw e s = Some (True, s') \<and> maps_to s' (p_pagedir pr) va k \<and>
    (\<forall>j < 4096. ram (pal s') (k + j) = page ! j) \<and> procs s' = (procs s)(cur s \<mapsto> pr') \<and> p_pagedir pr' = p_pagedir pr \<and>
    hash_map pt_vaddr (p_pt_suppl pr') = (hash_map pt_vaddr (p_pt_suppl pr))(va := None) \<and>
    swap_ok (to_swap s') \<and> swap_view (to_swap s') = (swap_view (to_swap s))(slot := None) \<and>
    (\<forall>n. user_page_no n \<longrightarrow> n \<noteq> va div 2 ^ 12 \<longrightarrow> entry s' (p_pagedir pr) n = entry s (p_pagedir pr) n) \<and>
    (\<forall>x \<in> in_use (pal s) - pt_bytes s (p_pagedir pr). ram (pal s') x = ram (pal s) x)"
proof -
  let ?pd = "p_pagedir pr"
  have flags: "PAL_USER AND PAL_USER \<noteq> 0" "PAL_USER AND PAL_ZERO = 0" by (simp_all add: PAL_USER_def PAL_ZERO_def)
  have pk: "palloc_ok (pal s)" using ok by (simp add: frames_ok_def)
  obtain pg p where p: "palloc_get_page PAL_USER (pal s) = Some (Some pg, p)"
    by (cases rule: palloc_get_ok [OF pk zero_less_one, of PAL_USER])
      (use free flags in \<open>auto simp: palloc_get_page_def get_pool_def\<close>)
  note a = palloc_get_Some [OF pk zero_less_one p [unfolded palloc_get_page_def]]
  obtain s1 where s1: "vm_frame_alloc fmw PAL_USER va s = Some (pg, s1)" "pal s1 = p" "user_frame pg p"
      "s1 = s\<lparr>pal := p, malloc_no := malloc_no s1, frame_hash := frame_hash s1\<rparr>"
    using vm_frame_alloc_ok [OF ok flags(1) _ p, of fmw va] m by blast
  have r1: "cr3 s1 = cr3 s" "procs s1 = procs s" "cur s1 = cur s" "vm_swap s1 = vm_swap s" "vm_fs s1 = vm_fs s" "init_page_dir s1 = init_page_dir s"
    "init_ram_pages s1 = init_ram_pages s" "mallocs s1 = mallocs s"
    by (subst s1(4), simp)+
  have base: "pool_base (kernel_pool p) = pool_base (kernel_pool (pal s))" "pool_end (user_pool p) = pool_end (user_pool (pal s))"
    using a(8) [of False] a(9) [of True] by (simp_all add: get_pool_def)
  have same: "ram (pal s1) x = ram (pal s) x" for x using a(7) flags(2) by (simp add: s1(2))
  have c: "pd_ok ?pd s1" "\<And>j. j < pd_no PHYS_BASE \<Longrightarrow> tab s1 ?pd j = tab s ?pd j" "\<And>n. user_page_no n \<Longrightarrow> entry s1 ?pd n = entry s ?pd n"
    by (rule pd_ok_cong [OF pd(1)]; use a(1,5) base(1) same in \<open>simp add: s1(2)\<close>)+
  have vi: "pd_no va < pd_no PHYS_BASE" using user_index [OF va(1)] by simp
  have kp: "kernel_page pg" using s1(3) by (simp add: user_frame_def)
  have "pg \<in> page_range pg 1" by (simp add: page_range_def)
  then have "pg < PHYS_BASE + init_ram_pages s * 2 ^ 12" using s1(3) base(2) top by (auto simp: user_frame_def)
  then have "pg - PHYS_BASE < init_ram_pages s * 2 ^ 12" using kp unfolding kernel_page_def by linarith
  then have room: "(pg - PHYS_BASE) div 2 ^ 12 < init_ram_pages s1" unfolding r1(7) by (rule less_mult_imp_div_less)
  obtain w where w: "pte_create_user pg True = Some w" "pte_get_page w = Some pg" "w AND PTE_P \<noteq> 0" "w AND PTE_W \<noteq> 0"
    using pte_of_user [OF kp, of True] by blast
  have t1: "tab s1 ?pd (pd_no va) = Some pt" using c(2) [OF vi] un(2) by simp
  let ?s2 = "store_word (pt + 4 * pt_no va) w s1"
  have "pagedir_set_page ?pd va pg True s1 = Some (True, ?s2)"
    using un(1) c(3) [OF user_page_no_va [OF va(1)]] pd(3) r1(6) by (intro set_page_table c(1) va kp room t1 w(1)) simp_all
  note set = this
  have P: "pds_ok s1 {?pd}" using c(1) by (simp add: pds_ok_def)
  have s2: "pd_ok ?pd ?s2" "\<And>n. user_page_no n \<Longrightarrow> entry ?s2 ?pd n = (if n = va div 2 ^ 12 then w else entry s1 ?pd n)"
    using pds_store [OF P _ va(1) t1, where w = w] by (simp_all add: pds_ok_def)
  have "tab ?s2 ?pd j = tab s ?pd j" if "j < pd_no PHYS_BASE" for j
    using pd_okD(6) [OF c(1) vi t1] pd_okD(2) [OF pd(1)] that c(2) [OF that] by (subst tab_store_other(2)) (auto simp: pt_no_def)
  then have pp: "pd_pages ?s2 ?pd = pd_pages s ?pd" by (auto simp: pd_pages_def)
  have "page_range q 1 \<inter> page_range pg 1 = {}" if "q \<in> pd_pages s ?pd" for q
    using pd_pages_in_use [OF pd(1) that] a(4) by blast
  then have "maps_to ?s2 ?pd va pg"
    unfolding maps_to_def pp using s2 va(1,2) kp w(2-4) pd(2) r1(1) user_page_no_va [OF va(1)] by simp
  note map2 = this
  have to2: "to_swap ?s2 = to_swap s" using only_memoryD [OF store_word_rest] r1(4,5) by (simp add: to_swap_def store_word_def)
  obtain sw' where sw': "swap_in slot (to_swap s) = Some (page, sw')" "swap_ok sw'" "swap_view sw' = (swap_view (to_swap s))(slot := None)"
    using sw.fetch_law [OF sw(1,2)] by auto
  let ?s3 = "of_swap sw' ?s2"
  have "maps_to ?s3 ?pd va pg" using map2 by (rule maps_to_pal) simp_all
  from store_bytes_page [OF this, of 0 page] sw(3) obtain s4 where s4: "store_bytes va page ?s3 = Some s4" "maps_to s4 ?pd va pg" "only_memory ?s3 s4"
    and ent4: "\<And>n. user_page_no n \<Longrightarrow> n \<noteq> va div 2 ^ 12 \<Longrightarrow> entry s4 ?pd n = entry ?s3 ?pd n"
    and ram4: "\<And>x. x \<notin> pt_bytes ?s3 ?pd \<Longrightarrow> x \<notin> page_range pg 1 \<Longrightarrow> ram (pal s4) x = ram (pal ?s3) x"
    and bytes: "\<And>j. j < 4096 \<Longrightarrow> ram (pal s4) (pg + j) = page ! j" by (auto simp: PGSIZE_def)
  have s4p: "procs s4 = procs s" "cur s4 = cur s" "mallocs s4 = mallocs s" "vm_swap s4 = sw'" "vm_fs s4 = vm_fs ?s3"
    using only_memoryD [OF s4(3)] only_memoryD [OF store_word_rest [of s1]] r1 by simp_all
  let ?m = "mallocs s4 (malloc_no s4)"
  obtain tbl' where tbl': "pt_hash_delete ?m e (p_pt_suppl pr) = Some (Some e, tbl')" "hash_map pt_vaddr tbl' = (hash_map pt_vaddr (p_pt_suppl pr))(va := None)"
    using pt_delete_map [OF tbl(1), of e ?m] tbl(2) va(3) e by auto
  let ?pr = "pr\<lparr>p_pt_suppl := tbl'\<rparr>"
  let ?s5 = "s4\<lparr>malloc_no := malloc_no s4 + 1, procs := (procs s)(cur s \<mapsto> ?pr)\<rparr>"
  have "GET_TYPE (LAZY OR SWAPPED) = LAZY" "IS_SWAPPED (LAZY OR SWAPPED)"
    by (simp_all add: GET_TYPE_def IS_SWAPPED_def LAZY_def SWAPPED_def TYPE_MASK_def PRESENCE_MASK_def)
  then have "pt_suppl_page_in fmw e s = Some (True, ?s5)"
    using s1(1) pr r1(2,3) set to2 sw'(1) s4(1) s4p(1,2) tbl'(1) e
    by (simp add: pt_suppl_page_in_def page_in_done_def current_proc_def vm_swap_in_def vm_malloc_def Let_def set_pt_suppl_def upd_proc_def)
  moreover have "maps_to ?s5 ?pd va pg" using s4(2) by (rule maps_to_pal) simp_all
  moreover have "to_swap ?s5 = sw'"
    using to_of_swap [OF sw'(2), of ?s2] sw(1) s4p(4,5) unfolding to2 by (simp add: to_swap_def)
  moreover have "entry ?s5 ?pd n = entry s ?pd n" if n: "user_page_no n" "n \<noteq> va div 2 ^ 12" for n
    using ent4 [OF n] s2(2) [OF n(1)] c(3) [OF n(1)] n(2) entry_pal [of ?s5 s4] entry_pal [of ?s3 ?s2] by simp
  moreover have "ram (pal ?s5) x = ram (pal s) x" if x: "x \<in> in_use (pal s)" "x \<notin> pt_bytes s ?pd" for x
  proof -
    have "tab ?s3 ?pd j = tab ?s2 ?pd j" for j using word_at_pal [of ?s3 ?s2] by (simp add: tab_def)
    then have "pt_bytes ?s3 ?pd = pt_bytes ?s2 ?pd" by (rule pt_bytes_cong(2))
    then have "x \<notin> pt_bytes ?s3 ?pd" using x(2) by (simp add: pt_bytes_def pp)
    moreover have "x \<notin> page_range pg 1" using x(1) a(4) by blast
    ultimately have "ram (pal s4) x = ram (pal ?s2) x" using ram4 by simp
    moreover have "pt_bytes s1 ?pd = pt_bytes s ?pd" using c(2) by (rule pt_bytes_cong(2))
    then have "x \<notin> pt_bytes s1 ?pd" using x(2) by simp
    moreover have "pt \<in> pd_pages s1 ?pd" using t1 vi by (auto simp: pd_pages_def)
    ultimately show ?thesis using store_word_ram [of pt s1 ?pd "pt_no va" x w] same by (simp add: pt_no_def)
  qed
  ultimately show ?thesis using bytes tbl'(2) sw'(2,3)
    by (intro exI [of _ ?s5] exI [of _ pg] exI [of _ ?pr]) simp
qed

section \<open>Properties\<close>

text \<open>
  C29: eviction gives every page a second chance, and ends. With at least one frame in the table and sound, separate page
  directories, \<^verbatim>\<open>select_frame_to_evict\<close> returns; it takes the first frame, in the order of the table, whose page was not
  accessed since its flag was last cleared, and if all were accessed the first frame of the table after one full round. It changes
  no entry of a page table but in the accessed flag, and clears exactly those it passed over.
\<close>

theorem second_chance:
  assumes "clock_ok P s (contents (frame_hash s))" and "hash_wf find_frame fr_page (frame_hash s)" and "contents (frame_hash s) \<noteq> []"
  shows "\<exists>s'. select_frame_to_evict s =
      Some (case List.find (\<lambda>x. \<not> accessed s x) (contents (frame_hash s)) of Some fe \<Rightarrow> fe | None \<Rightarrow> hd (contents (frame_hash s)), s') \<and>
    only_memory s s' \<and>
    (\<forall>pd \<in> P. \<forall>n. user_page_no n \<longrightarrow> entry s' pd n =
       (if (pd, n) \<in> frame_key s ` set (takeWhile (accessed s) (contents (frame_hash s))) then entry s pd n AND NOT PTE_A else entry s pd n))"
  using select_ok [OF assms] by blast

text \<open>
  C4: a page that was evicted comes back unchanged. When a page of the running process that has no entry in the
  supplemental table is put out and there is a slot in the swap space, it is no longer mapped; when the process then
  touches any address of the page and there is a free frame, the page fault handler lets it resume, every
  address of the page is mapped again, writable, to a frame with the bytes the page had. Nothing else of the memory changes:
  the supplemental table and the contents of swap space are what they were before, the entry of every other user page in the page tables
  of the process is the same, every byte in use outside those tables keeps its value, and so does every other process.
\<close>

theorem evicted_page_returns:
  assumes ok: "frames_ok s" and m: "\<forall>n. mallocs s n" and fe: "fr_owner fe = cur s" "fr_vaddr fe = va"
    and free: "i < bit_cnt (used_map (user_pool (pal s)))" "i \<notin> bitmap_used (used_map (user_pool (pal s)))"
    and pr: "procs s (cur s) = Some pr" and pd: "p_pagedir pr = pd" "pd_ok pd s" "cr3 s = pd - PHYS_BASE" "pd \<noteq> init_page_dir s"
    and top: "pool_end (user_pool (pal s)) \<le> PHYS_BASE + init_ram_pages s * 2 ^ 12"
    and va: "is_user_vaddr va" "pg_ofs va = 0" "va \<noteq> 0" and mapped: "pagedir_get_page pd va s = Some (Some (fr_page fe))"
    and tbl: "pt_wf (p_pt_suppl pr)" "hash_map pt_vaddr (p_pt_suppl pr) va = None" "h_elem_cnt (p_pt_suppl pr) + 1 < 2 ^ 32"
    and sw: "swap_ok (to_swap s)" "\<exists>i < bit_cnt (swap_bm (to_swap s)). swap_view (to_swap s) i = None"
    and j: "j < 4096" and np: "error_code AND PF_P = 0"
  shows "\<exists>s1 s2 k pr'. page_out_evicted_frame fmw fe s = Some (True, s1) \<and> pagedir_get_page pd va s1 = Some None \<and>
    page_fault fmw (va + j) error_code cs esp s1 = Some (Resume, s2) \<and>
    (\<forall>j < 4096. pagedir_get_page pd (va + j) s2 = Some (Some (k + j)) \<and> ram (pal s2) (k + j) = ram (pal s) (fr_page fe + j)) \<and>
    pagedir_is_writable pd va s2 = Some True \<and> procs s2 = (procs s)(cur s \<mapsto> pr') \<and> p_pagedir pr' = pd \<and>
    hash_map pt_vaddr (p_pt_suppl pr') = hash_map pt_vaddr (p_pt_suppl pr) \<and>
    (\<exists>slot. swap_view (to_swap s) slot = None \<and> swap_view (to_swap s1) slot \<noteq> None) \<and> swap_view (to_swap s2) = swap_view (to_swap s) \<and>
    (\<forall>n. user_page_no n \<longrightarrow> n \<noteq> va div 2 ^ 12 \<longrightarrow> entry s2 pd n = entry s pd n) \<and>
    (\<forall>x \<in> in_use (pal s) - pt_bytes s pd. ram (pal s2) x = ram (pal s) x)"
proof -
  have act: "cr3 s < PHYS_BASE" using active_kernel [OF pd_okD(2) [OF pd(2)] pd(3)] by (auto simp: active_pd_def ptov_def split: if_splits)
  have P: "entry s pd (va div 2 ^ 12) AND PTE_P \<noteq> 0"
    using mapped unfolding get_page_entry [OF pd(2) va(1)] by (auto simp: Let_def split: if_splits)
  then obtain pt where pt: "tab s pd (pd_no va) = Some pt" unfolding entry_va by (auto split: option.splits)
  let ?page = "map (ram (pal s)) [fr_page fe..<fr_page fe + PGSIZE]"
  obtain s1 slot pr1 e where out: "page_out_evicted_frame fmw fe s = Some (True, s1)"
      "e = \<lparr>pt_vaddr = va, pt_status = LAZY OR SWAPPED, pt_swap_slot = slot, pt_file_info = None\<rparr>"
      "procs s1 = (procs s)(cur s \<mapsto> pr1)" "p_pagedir pr1 = pd" "pt_wf (p_pt_suppl pr1)"
      "hash_map pt_vaddr (p_pt_suppl pr1) = (hash_map pt_vaddr (p_pt_suppl pr))(va \<mapsto> e)"
      "swap_ok (to_swap s1)" "swap_view (to_swap s1) slot = Some ?page"
      "pd_ok pd s1" "kernel_pool (pal s1) = kernel_pool (pal s)" "user_pool (pal s1) = user_pool (pal s)" "cr3 s1 = cr3 s"
      "frame_hash s1 = frame_hash s" "frame_hash_lock s1 = frame_hash_lock s" "cur s1 = cur s" "mallocs s1 = mallocs s" "stack_junk s1 = stack_junk s"
      "init_page_dir s1 = init_page_dir s" "init_ram_pages s1 = init_ram_pages s" "\<forall>j < pd_no PHYS_BASE. tab s1 pd j = tab s pd j"
      "swap_view (to_swap s) slot = None" "\<forall>i. i \<noteq> slot \<longrightarrow> swap_view (to_swap s1) i = swap_view (to_swap s) i"
    and ram1: "\<And>x. x \<notin> pt_bytes s pd \<Longrightarrow> ram (pal s1) x = ram (pal s) x"
    and ent: "\<And>n. user_page_no n \<Longrightarrow> entry s1 pd n = (if n = va div 2 ^ 12 \<and> entry s pd n AND PTE_P \<noteq> 0 then entry s pd n AND NOT PTE_P else entry s pd n)"
    using page_out_ok [of s fe pr fmw] fe pr pd va tbl sw m act by (auto simp del: fun_upd_apply)
  have un: "entry s1 pd (va div 2 ^ 12) AND PTE_P = 0" using ent [OF user_page_no_va [OF va(1)]] by (auto simp: PTE_P_def and.assoc)
  have t1: "tab s1 pd (pd_no va) = Some pt" using out(20) pt user_index [OF va(1)] by simp
  have ok1: "frames_ok s1" using ok same_pools [OF out(10,11)] out(11,13,14) by (simp add: frames_ok_def user_frame_def)
  have pr1: "procs s1 (cur s1) = Some pr1" using out(3,15) by simp
  have h1: "hash_map pt_vaddr (p_pt_suppl pr1) va = Some e" using out(6) by simp
  have "\<exists>s' k pr'. pt_suppl_page_in fmw e s1 = Some (True, s') \<and> maps_to s' pd va k \<and> (\<forall>j < 4096. ram (pal s') (k + j) = ?page ! j) \<and>
      procs s' = (procs s1)(cur s1 \<mapsto> pr') \<and> p_pagedir pr' = pd \<and>
      hash_map pt_vaddr (p_pt_suppl pr') = (hash_map pt_vaddr (p_pt_suppl pr1))(va := None) \<and>
      swap_ok (to_swap s') \<and> swap_view (to_swap s') = (swap_view (to_swap s1))(slot := None) \<and>
      (\<forall>n. user_page_no n \<longrightarrow> n \<noteq> va div 2 ^ 12 \<longrightarrow> entry s' pd n = entry s1 pd n) \<and>
      (\<forall>x \<in> in_use (pal s1) - pt_bytes s1 pd. ram (pal s') x = ram (pal s1) x)"
    using page_in_ok [OF ok1 _ _ _ pr1 _ _ _ _ va _ _ out(2,5) h1 out(7,8), of i pt] free m pd out(4,9,11,12,16,18,19) top un t1
    by simp
  then obtain s2 k pr2 where s2: "pt_suppl_page_in fmw e s1 = Some (True, s2)" "maps_to s2 pd va k"
      "procs s2 = (procs s1)(cur s1 \<mapsto> pr2)" "hash_map pt_vaddr (p_pt_suppl pr2) = (hash_map pt_vaddr (p_pt_suppl pr1))(va := None)"
      "swap_view (to_swap s2) = (swap_view (to_swap s1))(slot := None)" "p_pagedir pr2 = pd"
    and ent2: "\<And>n. user_page_no n \<Longrightarrow> n \<noteq> va div 2 ^ 12 \<Longrightarrow> entry s2 pd n = entry s1 pd n"
    and ram2: "\<And>x. x \<in> in_use (pal s1) - pt_bytes s1 pd \<Longrightarrow> ram (pal s2) x = ram (pal s1) x"
    and bytes: "\<And>j. j < 4096 \<Longrightarrow> ram (pal s2) (k + j) = ?page ! j" by blast
  have get: "pagedir_get_page pd (va + j) s2 = Some (Some (k + j))" if "j < 4096" for j using maps_to_get [OF s2(2) that] .
  have pp: "is_user_vaddr (va + j)" "pg_ofs (va + j) = j" using page_parts [OF va(2) j] va(1) by simp_all
  have rd: "pg_round_down (va + j) = va" using pp(2) by (simp add: pg_round_down_def pg_ofs_def)
  have "pt_suppl_handle_page_fault fmw (va + j) esp s1 = Some (True, s2)"
    using pt_find_map [OF out(5) va(3)] h1 pr1 s2(1) rd va(3) pp(1)
    by (simp add: pt_suppl_handle_page_fault_def pt_suppl_get_entry_by_addr_def current_proc_def is_user_vaddr_def)
  then have "page_fault fmw (va + j) error_code cs esp s1 = Some (Resume, s2)"
    using np va(3) pp(1) pr1 out(4) get [OF j] by (simp add: page_fault_def current_proc_def)
  moreover have "pagedir_get_page pd va s1 = Some None" using un unfolding get_page_entry [OF out(9) va(1)] by (simp add: Let_def)
  moreover have "pagedir_is_writable pd va s2 = Some True"
  proof -
    have o2: "pd_ok pd s2" and "entry s2 pd (va div 2 ^ 12) AND PTE_W \<noteq> 0" using s2(2) by (auto simp: maps_to_def)
    then show ?thesis unfolding pagedir_is_writable_def test_entry [OF o2 va(1)] by simp
  qed
  moreover have "ram (pal s2) (k + j) = ram (pal s) (fr_page fe + j)" if "j < 4096" for j
    using bytes [OF that] that by (simp add: PGSIZE_def)
  moreover have "procs s2 = (procs s)(cur s \<mapsto> pr2)" using s2(3) out(3,15) fe(1) by simp
  moreover have "hash_map pt_vaddr (p_pt_suppl pr2) = hash_map pt_vaddr (p_pt_suppl pr)" using s2(4) out(6) tbl(2) by (auto simp: fun_eq_iff)
  moreover have "swap_view (to_swap s2) = swap_view (to_swap s)" using s2(5) out(21,22) by (auto simp: fun_eq_iff)
  moreover have "entry s2 pd n = entry s pd n" if "user_page_no n" "n \<noteq> va div 2 ^ 12" for n using ent2 [OF that] ent [OF that(1)] that(2) by simp
  moreover have "ram (pal s2) x = ram (pal s) x" if "x \<in> in_use (pal s) - pt_bytes s pd" for x
  proof -
    have "pt_bytes s1 pd = pt_bytes s pd" using out(20) by (intro pt_bytes_cong(2)) blast
    moreover have "in_use (pal s1) = in_use (pal s)" using same_pools [OF out(10,11)] by simp
    ultimately show ?thesis using ram1 [of x] ram2 [of x] that by simp
  qed
  ultimately show ?thesis using out(1,8,21) s2(5,6) get
    by (intro exI [of _ s1] exI [of _ s2] exI [of _ k] exI [of _ pr2]) auto
qed

text \<open>Changing the owner or the address of a frame.\<close>

lemma upd_frame_simps [simp]:
  "pal (upd_frame pg f s) = pal s" "cur (upd_frame pg f s) = cur s" "frame_hash_lock (upd_frame pg f s) = frame_hash_lock s"
  "procs (upd_frame pg f s) = procs s"
  by (simp_all add: upd_frame_def)

lemma upd_frame_table:
  assumes f: "\<And>x. fr_page (f x) = fr_page x" and wf: "hash_wf find_frame fr_page (frame_hash s)"
  shows "hash_wf find_frame fr_page (frame_hash (upd_frame pg f s))"
    and "frame_map (upd_frame pg f s) = (frame_map s)(pg := map_option f (frame_map s pg))"
proof -
  let ?g = "\<lambda>x. if fr_page x = pg then f x else x"
  have c: "contents (frame_hash (upd_frame pg f s)) = map ?g (contents (frame_hash s))"
    by (simp add: upd_frame_def contents_def map_concat)
  have b: "bucket_of find_frame n (f x) = bucket_of find_frame n x" for n x using f by (simp add: bucket_of_def find_frame_def)
  have k: "map fr_page (map ?g xs) = map fr_page xs" for xs using f by simp
  have "placed find_frame (frame_hash (upd_frame pg f s))"
    using wf b unfolding hash_wf_def placed_def upd_frame_def by auto
  then show w: "hash_wf find_frame fr_page (frame_hash (upd_frame pg f s))"
    using wf unfolding hash_wf_def c k by (simp add: upd_frame_def)
  show "frame_map (upd_frame pg f s) = (frame_map s)(pg := map_option f (frame_map s pg))"
  proof (rule map_eqI)
    fix q e
    have "frame_map (upd_frame pg f s) q = Some e \<longleftrightarrow> e \<in> ?g ` set (contents (frame_hash s)) \<and> fr_page e = q"
      unfolding hash_map_Some [OF w] c by simp
    also have "\<dots> \<longleftrightarrow> (\<exists>x. frame_map s q = Some x \<and> e = ?g x)" using hash_map_Some [OF wf, of q] f by (auto simp: image_iff)
    also have "\<dots> \<longleftrightarrow> ((frame_map s)(pg := map_option f (frame_map s pg))) q = Some e"
      using hash_map_Some [OF wf] by (auto simp: image_iff)
    finally show "frame_map (upd_frame pg f s) q = Some e \<longleftrightarrow> ((frame_map s)(pg := map_option f (frame_map s pg))) q = Some e" .
  qed
qed

text \<open>The frame the clock takes, and the condition under which its page can go to swap space.\<close>

definition victim :: "vms \<Rightarrow> frame_entry" where
  "victim s = (case List.find (\<lambda>x. \<not> accessed s x) (contents (frame_hash s)) of Some fe \<Rightarrow> fe | None \<Rightarrow> hd (contents (frame_hash s)))"

definition can_swap_out :: "vms \<Rightarrow> frame_entry \<Rightarrow> bool" where
  "can_swap_out s fe \<longleftrightarrow> pg_ofs (fr_vaddr fe) = 0 \<and> fr_vaddr fe \<noteq> 0 \<and>
     (\<exists>pr. procs s (fr_owner fe) = Some pr \<and> pt_wf (p_pt_suppl pr) \<and> hash_map pt_vaddr (p_pt_suppl pr) (fr_vaddr fe) = None \<and>
        h_elem_cnt (p_pt_suppl pr) + 1 < 2 ^ 32) \<and>
     swap_ok (to_swap s) \<and> (\<exists>i < bit_cnt (swap_bm (to_swap s)). swap_view (to_swap s) i = None)"

lemma victim_mem: "contents (frame_hash s) \<noteq> [] \<Longrightarrow> victim s \<in> set (contents (frame_hash s))"
  by (auto simp: victim_def find_Some_iff split: option.split)

text \<open>A request that finds no free page.\<close>

lemma alloc_evicts:
  assumes ex: "frames_exact s" and u: "f AND PAL_USER \<noteq> 0" and m: "\<forall>n. mallocs s n" and p: "palloc_get_page f (pal s) = Some (None, p)"
    and c: "clock_ok P s (contents (frame_hash s))" and ne: "contents (frame_hash s) \<noteq> []" and sw: "can_swap_out s (victim s)"
  shows "\<exists>s1. vm_frame_alloc fmw f va s = Some (fr_page (victim s), s1) \<and> frames_exact s1 \<and> in_use (pal s1) = in_use (pal s) \<and>
    frame_map s1 = (frame_map s)(fr_page (victim s) \<mapsto> \<lparr>fr_page = fr_page (victim s), fr_owner = cur s, fr_vaddr = va\<rparr>) \<and>
    pagedir_get_page (frame_pd s (victim s)) (fr_vaddr (victim s)) s1 = Some None"
proof -
  let ?fe = "victim s" and ?pg = "fr_page (victim s)" and ?s = "s\<lparr>frame_hash_lock := True\<rparr>"
  have ok: "frames_ok s" and d: "dom (frame_map s) = {x. user_frame x (pal s)}" using ex by (simp_all add: frames_exact_def)
  have wf: "hash_wf find_frame fr_page (frame_hash s)" and pk: "palloc_ok (pal s)" using ok by (simp_all add: frames_ok_def)
  have ps: "p = pal s" using palloc_get_ok [OF pk zero_less_one, of f] p by (fastforce simp: palloc_get_page_def split: if_splits)
  have eq: "accessed ?s = accessed s" "frame_pd ?s = frame_pd s" "frame_key ?s = frame_key s" "pds_ok ?s P = pds_ok s P"
    using entry_pal [of ?s s] pds_ok_pal [of ?s s] by (simp_all add: fun_eq_iff accessed_def frame_pd_def frame_key_def)
  then have "clock_ok P ?s (contents (frame_hash ?s))" using c by (simp add: clock_ok_def)
  moreover have fh: "frame_hash ?s = frame_hash s" by simp
  ultimately have "clock_ok P ?s (contents (frame_hash s))" by simp
  from select_ok [of P ?s, unfolded fh eq, OF this wf ne] obtain s2 where s2: "select_frame_to_evict ?s = Some (?fe, s2)" "only_memory ?s s2" "pds_ok s2 P" "cr3 s2 < PHYS_BASE"
    unfolding victim_def by blast
  note r2 = only_memoryD [OF s2(2)]
  obtain pr where pr: "procs s (fr_owner ?fe) = Some pr" "pt_wf (p_pt_suppl pr)" "hash_map pt_vaddr (p_pt_suppl pr) (fr_vaddr ?fe) = None"
      "h_elem_cnt (p_pt_suppl pr) + 1 < 2 ^ 32" using sw by (auto simp: can_swap_out_def)
  have fpd: "frame_pd s ?fe = p_pagedir pr" using pr(1) by (simp add: frame_pd_def)
  have v: "is_user_vaddr (fr_vaddr ?fe)" "p_pagedir pr \<in> P" using c victim_mem [OF ne] fpd by (auto simp: clock_ok_def)
  have pd2: "pd_ok (p_pagedir pr) s2" using s2(3) v(2) by (simp add: pds_ok_def)
  have to2: "to_swap s2 = to_swap s" using r2 by (simp add: to_swap_def)
  have "pools s2 = pools s" using select_pools [OF s2(1)] by (simp add: pools_def)
  then have pl2: "kernel_pool (pal s2) = kernel_pool (pal s)" "user_pool (pal s2) = user_pool (pal s)" by (simp_all add: pools_def)
  have procs2: "procs s2 (fr_owner ?fe) = Some pr" using pr(1) r2(2) by simp
  have va: "pg_ofs (fr_vaddr ?fe) = 0" "fr_vaddr ?fe \<noteq> 0" using sw by (simp_all add: can_swap_out_def)
  have sw2: "swap_ok (to_swap s2)" "\<exists>i < bit_cnt (swap_bm (to_swap s2)). swap_view (to_swap s2) i = None"
    using sw unfolding to2 by (simp_all add: can_swap_out_def)
  have m2: "\<forall>n. mallocs s2 n" using m r2(6) by simp
  from page_out_ok [OF procs2 pd2 s2(4) v(1) va pr(2-4) sw2 m2, of fmw] obtain s3 where
    out: "page_out_evicted_frame fmw ?fe s2 = Some (True, s3)" "pd_ok (p_pagedir pr) s3" "kernel_pool (pal s3) = kernel_pool (pal s2)"
      "user_pool (pal s3) = user_pool (pal s2)" "frame_hash s3 = frame_hash s2" "cur s3 = cur s2"
    and ent: "\<forall>n. user_page_no n \<longrightarrow> entry s3 (p_pagedir pr) n = (if n = fr_vaddr ?fe div 2 ^ 12 \<and> entry s2 (p_pagedir pr) n AND PTE_P \<noteq> 0
       then entry s2 (p_pagedir pr) n AND NOT PTE_P else entry s2 (p_pagedir pr) n)"
    by (elim exE conjE) assumption
  note s3 = out(1,2) out(3) [unfolded pl2] out(4) [unfolded pl2] out(5) [unfolded r2(1)] out(6) [unfolded r2(3)]
  let ?s4 = "upd_frame ?pg (\<lambda>f. f\<lparr>fr_owner := cur s3\<rparr>) s3"
  let ?s5 = "upd_frame ?pg (\<lambda>f. f\<lparr>fr_vaddr := va\<rparr>) (?s4\<lparr>frame_hash_lock := False\<rparr>)"
  have lk: "\<not> frame_hash_lock s" using ok by (simp add: frames_ok_def)
  have evict: "evict_and_get_frame fmw s = Some (?fe, ?s4\<lparr>frame_hash_lock := False\<rparr>)"
    using lk s2(1) s3(1) by (simp add: evict_and_get_frame_def Let_def)
  have sp: "s\<lparr>pal := p\<rparr> = s" using ps by simp
  have run: "vm_frame_alloc fmw f va s = Some (?pg, ?s5)"
    using u p evict sp by (simp add: vm_frame_alloc_def)
  have wf3: "hash_wf find_frame fr_page (frame_hash s3)" using wf s3(5) by simp
  note t4 = upd_frame_table [OF _ wf3, of "\<lambda>f. f\<lparr>fr_owner := cur s3\<rparr>" ?pg]
  have wf4: "hash_wf find_frame fr_page (frame_hash (?s4\<lparr>frame_hash_lock := False\<rparr>))" using t4(1) by simp
  note t5 = upd_frame_table [OF _ wf4, of "\<lambda>f. f\<lparr>fr_vaddr := va\<rparr>" ?pg]
  have vm: "frame_map s ?pg = Some ?fe" using hash_map_Some [OF wf] victim_mem [OF ne] by blast
  have fe_eq: "x\<lparr>fr_owner := t, fr_vaddr := va\<rparr> = \<lparr>fr_page = fr_page x, fr_owner = t, fr_vaddr = va\<rparr>" for x :: frame_entry and t
    by (cases x) simp
  have mp: "frame_map ?s5 = (frame_map s)(?pg \<mapsto> \<lparr>fr_page = ?pg, fr_owner = cur s, fr_vaddr = va\<rparr>)"
    using t5(2) t4(2) vm s3(5,6) by (simp add: fe_eq)
  have pal5: "pal ?s5 = pal s3" by simp
  have uf: "user_frame x (pal ?s5) = user_frame x (pal s)" "in_use (pal ?s5) = in_use (pal s)" "palloc_ok (pal ?s5) = palloc_ok (pal s)" for x
    using same_pools [OF s3(3,4)] s3(4) unfolding pal5 by (simp_all add: user_frame_def)
  have dom5: "dom (frame_map ?s5) = {x. user_frame x (pal s)}" unfolding mp using vm d by auto
  have "hash_wf find_frame fr_page (frame_hash ?s5)" using t5(1) by simp
  moreover have "\<not> frame_hash_lock ?s5" by simp
  moreover have "PHYS_BASE \<le> pool_base (user_pool (pal ?s5))" using ok s3(4) by (simp add: frames_ok_def)
  ultimately have "frames_exact ?s5" unfolding frames_exact_def frames_ok_def uf dom5 using pk by blast
  moreover have "pagedir_get_page (frame_pd s ?fe) (fr_vaddr ?fe) ?s5 = Some None"
  proof -
    have pd5: "pd_ok (p_pagedir pr) ?s5" using s3(2) pd_ok_pal [OF pal5] by simp
    have "entry ?s5 (p_pagedir pr) (fr_vaddr ?fe div 2 ^ 12) AND PTE_P = 0"
      using ent user_page_no_va [OF v(1)] entry_pal [OF pal5] by (auto simp: PTE_P_def and.assoc)
    then show ?thesis unfolding fpd get_page_entry [OF pd5 v(1)] by (simp add: Let_def)
  qed
  ultimately show ?thesis using run mp uf(2) by blast
qed

text \<open>
  C21: the frame table records exactly the user pages handed out, one entry each, and \<^verbatim>\<open>vm_frame_alloc\<close> keeps it so on
  both of its ways. When there is a free user page (and kernel memory for an entry) it takes a page that was neither in use nor in the table
  and adds it with the running thread and the rounded address; \<^verbatim>\<open>vm_frame_free\<close> of that page then gives the table and the set of
  pages in use back. When there is none, and the page of the frame that the clock chooses can go to swap space, it returns that
  page, which its owner no longer maps: its entry now names the running thread and the given address, every other entry and the set of
  pages in use are the same.
\<close>

theorem frame_table_exact:
  assumes ex: "frames_exact s" and u: "f AND PAL_USER \<noteq> 0" and m: "\<forall>n. mallocs s n"
  shows "(\<forall>pg p. palloc_get_page f (pal s) = Some (Some pg, p) \<longrightarrow>
      page_range pg 1 \<inter> in_use (pal s) = {} \<and> frame_map s pg = None \<and>
      (\<exists>s1 s2. vm_frame_alloc fmw f va s = Some (pg, s1) \<and> frames_exact s1 \<and> in_use (pal s1) = in_use (pal s) \<union> page_range pg 1 \<and>
        frame_map s1 = (frame_map s)(pg \<mapsto> \<lparr>fr_page = pg, fr_owner = cur s, fr_vaddr = pg_round_down va\<rparr>) \<and>
        vm_frame_free pg s1 = Some s2 \<and> frames_exact s2 \<and> frame_map s2 = frame_map s \<and> in_use (pal s2) = in_use (pal s))) \<and>
    (\<forall>p P. palloc_get_page f (pal s) = Some (None, p) \<and> clock_ok P s (contents (frame_hash s)) \<and> contents (frame_hash s) \<noteq> [] \<and>
        can_swap_out s (victim s) \<longrightarrow>
      (\<exists>s1. vm_frame_alloc fmw f va s = Some (fr_page (victim s), s1) \<and> frames_exact s1 \<and> in_use (pal s1) = in_use (pal s) \<and>
        frame_map s1 = (frame_map s)(fr_page (victim s) \<mapsto> \<lparr>fr_page = fr_page (victim s), fr_owner = cur s, fr_vaddr = va\<rparr>) \<and>
        pagedir_get_page (frame_pd s (victim s)) (fr_vaddr (victim s)) s1 = Some None))"
proof (intro conjI allI impI)
  fix pg p
  assume p: "palloc_get_page f (pal s) = Some (Some pg, p)"
  have "palloc_ok (pal s)" using ex by (simp add: frames_exact_def frames_ok_def)
  note a = palloc_get_Some [OF this zero_less_one p [unfolded palloc_get_page_def]]
  show "page_range pg 1 \<inter> in_use (pal s) = {}" by (rule a(4))
  obtain s1 where s1: "vm_frame_alloc fmw f va s = Some (pg, s1)" "frames_exact s1" "pal s1 = p" "frame_map s pg = None"
    "frame_map s1 = (frame_map s)(pg \<mapsto> \<lparr>fr_page = pg, fr_owner = cur s, fr_vaddr = pg_round_down va\<rparr>)"
    using vm_frame_alloc_exact [OF ex u _ p] m by blast
  then obtain s2 where s2: "vm_frame_free pg s1 = Some s2" "frames_exact s2" "frame_map s2 = (frame_map s1)(pg := None)"
    "in_use (pal s2) = in_use (pal s1) - page_range pg 1"
    using vm_frame_free_exact [of s1 pg] by auto
  have "frame_map s2 = frame_map s" using s1(4,5) s2(3) by auto
  moreover have "in_use (pal s2) = in_use (pal s)" using a(4,5) s2(4) s1(3) by blast
  ultimately show "\<exists>s1 s2. vm_frame_alloc fmw f va s = Some (pg, s1) \<and> frames_exact s1 \<and> in_use (pal s1) = in_use (pal s) \<union> page_range pg 1 \<and>
      frame_map s1 = (frame_map s)(pg \<mapsto> \<lparr>fr_page = pg, fr_owner = cur s, fr_vaddr = pg_round_down va\<rparr>) \<and>
      vm_frame_free pg s1 = Some s2 \<and> frames_exact s2 \<and> frame_map s2 = frame_map s \<and> in_use (pal s2) = in_use (pal s)"
    using a(5) s1 s2 by (intro exI [of _ s1] exI [of _ s2]) simp
  show "frame_map s pg = None" by (rule s1(4))
next
  fix p P
  assume "palloc_get_page f (pal s) = Some (None, p) \<and> clock_ok P s (contents (frame_hash s)) \<and> contents (frame_hash s) \<noteq> [] \<and>
      can_swap_out s (victim s)"
  then show "\<exists>s1. vm_frame_alloc fmw f va s = Some (fr_page (victim s), s1) \<and> frames_exact s1 \<and> in_use (pal s1) = in_use (pal s) \<and>
      frame_map s1 = (frame_map s)(fr_page (victim s) \<mapsto> \<lparr>fr_page = fr_page (victim s), fr_owner = cur s, fr_vaddr = va\<rparr>) \<and>
      pagedir_get_page (frame_pd s (victim s)) (fr_vaddr (victim s)) s1 = Some None"
    using alloc_evicts [OF ex u m] by blast
qed

section \<open>A machine on which they apply\<close>

text \<open>The page at \<open>0x8048000\<close> of the running process is mapped to the user page \<open>0xC0200000\<close>.\<close>

lemma demo_vms_pd: "pd_ok 0xC0100000 demo_vms"
  using demo_pgs_ok pd_ok_pal [of demo_vms demo_pgs] by (simp add: demo_vms_def)

lemma set_page_rest:
  assumes "pagedir_set_page pd upage kpage w s = Some (b, s')"
  shows "only_memory s s' \<and> user_pool (pal s') = user_pool (pal s)"
proof -
  have z: "PAL_ZERO AND PAL_USER = 0" by (simp add: PAL_ZERO_def PAL_USER_def)
  have up: "only_memory t (t\<lparr>pal := p\<rparr>)" for p and t :: "'a pgs_scheme"
    by (rule only_memoryI [where c = "cr3 t" and f = "flushes t"]) simp
  have st: "user_pool (pal (store_word a e t)) = user_pool (pal t)" for a e and t :: "'a pgs_scheme" by simp
  have look: "only_memory s t \<and> user_pool (pal t) = user_pool (pal s)" if "lookup_page pd upage True s = Some (pte, t)" for pte t
    using that user_pool_untouched [OF z, of 1 "pal s"] up [of s] only_memory_trans [OF up store_word_rest]
    by (auto simp: lookup_page_def Let_def bind_eq_Some_iff palloc_get_page_def simp del: store_word_simps simp add: st split: if_splits option.splits)
  then show ?thesis using assms only_memory_trans [OF _ store_word_rest]
    by (fastforce simp: pagedir_set_page_def bind_eq_Some_iff split: option.splits if_splits)
qed

lemma demo_mapped:
  obtains s where "pagedir_set_page 0xC0100000 0x8048000 0xC0200000 True demo_vms = Some (True, s)" "pd_ok 0xC0100000 s"
    "pagedir_get_page 0xC0100000 0x8048000 s = Some (Some 0xC0200000)" "only_memory demo_vms s" "user_pool (pal s) = user_pool (pal demo_vms)"
    "cr3 s = cr3 demo_vms"
proof -
  have u: "is_user_vaddr 0x8048000" "pg_ofs 0x8048000 = 0" by (simp_all add: is_user_vaddr_def PHYS_BASE_def pg_ofs_def PGBITS_def)
  have k: "kernel_page 0xC0200000" "(0xC0200000 - PHYS_BASE) div 2 ^ 12 < init_ram_pages demo_vms"
    by (simp_all add: kernel_page_def PHYS_BASE_def pg_ofs_def PGBITS_def demo_vms_def demo_pgs_def)
  have w0: "word_at demo_vms a = 0" for a using word_at_pal [of demo_vms demo_pgs] demo_word by (simp add: demo_vms_def)
  then have e0: "entry demo_vms 0xC0100000 n = 0" for n by (simp add: entry_def tab_def)
  obtain s where s: "pagedir_set_page 0xC0100000 0x8048000 0xC0200000 True demo_vms = Some (True, s)"
  proof (cases rule: palloc_get_ok [OF demo_vms_ok(2) zero_less_one, of PAL_ZERO])
    case (1 a p)
    from set_page_entry [OF demo_vms_pd u k, of True] e0 have "pagedir_set_page 0xC0100000 0x8048000 0xC0200000 True demo_vms = Some (False, demo_vms) \<or>
      (\<exists>s. pagedir_set_page 0xC0100000 0x8048000 0xC0200000 True demo_vms = Some (True, s))" by (auto simp: demo_vms_def demo_pgs_def)
    moreover have "pagedir_set_page 0xC0100000 0x8048000 0xC0200000 True demo_vms \<noteq> Some (False, demo_vms)"
      using 1 u(1) by (auto simp: pagedir_set_page_def lookup_page_def palloc_get_page_def w0 bind_eq_Some_iff)
    ultimately show ?thesis using that by blast
  next
    case 2
    then show ?thesis by (auto simp: PAL_ZERO_def PAL_USER_def get_pool_def demo_vms_def demo_pgs_def one_used)
  qed
  obtain e where e: "pd_ok 0xC0100000 s" "pte_create_user 0xC0200000 True = Some e" "entry s 0xC0100000 (0x8048000 div 2 ^ 12) = e"
    using set_page_entry [OF demo_vms_pd u k, of True] e0 s user_page_no_va [OF u(1)] by (auto simp: demo_vms_def demo_pgs_def)
  have "pagedir_get_page 0xC0100000 0x8048000 s = Some (Some 0xC0200000)"
    using pte_of_user [OF k(1), of True] e(2) u(2) unfolding get_page_entry [OF e(1) u(1)] e(3) by (auto simp: Let_def)
  then show thesis using that [OF s e(1)] set_page_rest [OF s] set_page_keeps(1) [OF s] by blast
qed

theorem evicted_page_witness:
  "\<exists>s s1 s2 k. pagedir_set_page 0xC0100000 0x8048000 0xC0200000 True demo_vms = Some (True, s) \<and>
     page_out_evicted_frame (\<lambda>s. None) \<lparr>fr_page = 0xC0200000, fr_owner = 1, fr_vaddr = 0x8048000\<rparr> s = Some (True, s1) \<and>
     pagedir_get_page 0xC0100000 0x8048000 s1 = Some None \<and> page_fault (\<lambda>s. None) 0x8048123 PF_U 0x1B 0xBFFFFF00 s1 = Some (Resume, s2) \<and>
     (\<forall>j < 4096. pagedir_get_page 0xC0100000 (0x8048000 + j) s2 = Some (Some (k + j)) \<and> ram (pal s2) (k + j) = ram (pal s) (0xC0200000 + j))"
proof -
  obtain s where s: "pagedir_set_page 0xC0100000 0x8048000 0xC0200000 True demo_vms = Some (True, s)" "pd_ok 0xC0100000 s"
    "pagedir_get_page 0xC0100000 0x8048000 s = Some (Some 0xC0200000)" "only_memory demo_vms s" "user_pool (pal s) = user_pool (pal demo_vms)"
    "cr3 s = cr3 demo_vms" by (rule demo_mapped)
  note r = only_memoryD [OF s(4)]
  let ?pr = "\<lparr>p_tid = 1, p_pagedir = 0xC0100000, p_run_file = 0, p_pt_suppl = no_entries, p_pt_suppl_lock = False\<rparr>"
  let ?fe = "\<lparr>fr_page = 0xC0200000, fr_owner = 1, fr_vaddr = 0x8048000\<rparr>"
  have "frames_ok s" using demo_vms_ok(1) pd_okD(1) [OF s(2)] r(1,9) s(5) by (simp add: frames_ok_def demo_vms_def no_entries_wf)
  moreover have "0 < bit_cnt (used_map (user_pool (pal s)))" "0 \<notin> bitmap_used (used_map (user_pool (pal s)))"
    unfolding s(5) by (simp_all add: demo_vms_def demo_pgs_def demo_pool_def demo_unused)
  moreover have "procs s (cur s) = Some ?pr" "\<forall>n. mallocs s n" "cr3 s = 0xC0100000 - PHYS_BASE" "0xC0100000 \<noteq> init_page_dir s" "cur s = 1"
    using r s(6) by (simp_all add: demo_vms_def demo_pgs_def PHYS_BASE_def)
  moreover have "pool_end (user_pool (pal s)) \<le> PHYS_BASE + init_ram_pages s * 2 ^ 12"
    unfolding s(5) r(11) by (simp add: demo_vms_def demo_pgs_def demo_pool_def pool_end_def PHYS_BASE_def PGSIZE_def)
  moreover have "is_user_vaddr 0x8048000" "pg_ofs 0x8048000 = 0" "(0x8048000 :: nat) \<noteq> 0"
    by (simp_all add: is_user_vaddr_def PHYS_BASE_def pg_ofs_def PGBITS_def)
  moreover have "pt_wf no_entries" "hash_map pt_vaddr no_entries 0x8048000 = None" "h_elem_cnt (no_entries :: pt_suppl_entry hash) + 1 < 2 ^ 32"
    by (simp_all add: pt_wf_def no_entries_wf) (simp add: no_entries_def)
  moreover have "to_swap s = demo_swap" using r
    by (simp add: to_swap_def demo_vms_def demo_fds_def demo_fs_def demo_swap_def demo_cache_def bc_init_def Let_def)
  moreover have "swap_view demo_swap 0 = None" "0 < bit_cnt (swap_bm demo_swap)"
    by (simp_all add: swap_view_def demo_swap_def bitmap_bit_def ELEM_BITS_def)
  moreover have "PF_U AND PF_P = 0" by (simp add: PF_U_def PF_P_def)
  ultimately have "\<exists>s1 s2 k pr'. page_out_evicted_frame (\<lambda>s. None) ?fe s = Some (True, s1) \<and> pagedir_get_page 0xC0100000 0x8048000 s1 = Some None \<and>
    page_fault (\<lambda>s. None) (0x8048000 + 0x123) PF_U 0x1B 0xBFFFFF00 s1 = Some (Resume, s2) \<and>
    (\<forall>j < 4096. pagedir_get_page 0xC0100000 (0x8048000 + j) s2 = Some (Some (k + j)) \<and> ram (pal s2) (k + j) = ram (pal s) (fr_page ?fe + j)) \<and>
    pagedir_is_writable 0xC0100000 0x8048000 s2 = Some True \<and> procs s2 = (procs s)(cur s \<mapsto> pr') \<and> p_pagedir pr' = 0xC0100000 \<and>
    hash_map pt_vaddr (p_pt_suppl pr') = hash_map pt_vaddr (p_pt_suppl ?pr) \<and>
    (\<exists>slot. swap_view (to_swap s) slot = None \<and> swap_view (to_swap s1) slot \<noteq> None) \<and> swap_view (to_swap s2) = swap_view (to_swap s) \<and>
    (\<forall>n. user_page_no n \<longrightarrow> n \<noteq> 0x8048000 div 2 ^ 12 \<longrightarrow> entry s2 0xC0100000 n = entry s 0xC0100000 n) \<and>
    (\<forall>x \<in> in_use (pal s) - pt_bytes s 0xC0100000. ram (pal s2) x = ram (pal s) x)"
    using demo_swap_ok s(2,3) by (intro evicted_page_returns [of s ?fe "0x8048000" 0 ?pr "0xC0100000" "0x123"]) auto
  then show ?thesis using s(1) by auto
qed

lemma distinct_singleton: "set xs = {x} \<Longrightarrow> distinct xs \<Longrightarrow> xs = [x]"
proof (cases xs)
  case (Cons y ys)
  moreover assume "set xs = {x}" "distinct xs"
  ultimately have "y = x" "set ys \<subseteq> {x}" "x \<notin> set ys" by auto
  then have "set ys = {}" using subset_singletonD [of "set ys" x] by auto
  then show ?thesis using Cons \<open>y = x\<close> by simp
qed simp

text \<open>A machine with a single user page: the second request takes the page of the first.\<close>

definition one_page_vms :: vms where
  "one_page_vms = demo_vms\<lparr>pal := (pal demo_vms)\<lparr>user_pool := \<lparr>pool_lock = False, used_map = \<lparr>bit_cnt = 1, bits = [0]\<rparr>, pool_base = 0xC0200000\<rparr>\<rparr>\<rparr>"

lemma one_page_unused: "bitmap_used \<lparr>bit_cnt = 1, bits = [0]\<rparr> = {}"
  by (auto simp: bitmap_used_def bitmap_abs_def bitmap_bit_def ELEM_BITS_def)

lemma one_page_ok: "palloc_ok (pal one_page_vms)" "pd_ok 0xC0100000 one_page_vms" "frames_exact one_page_vms"
proof -
  let ?s = one_page_vms
  have k: "kernel_pool (pal ?s) = kernel_pool (pal demo_vms)" "frame_hash ?s = no_entries" "\<not> frame_hash_lock ?s"
    by (simp_all add: one_page_vms_def demo_vms_def)
  have used: "pool_used (user_pool (pal ?s)) = {}" by (simp add: one_page_vms_def one_page_unused [unfolded One_nat_def] pool_used_def)
  show p: "palloc_ok (pal ?s)"
    using demo_vms_ok(2) unfolding palloc_ok_def k(1)
    by (simp add: one_page_vms_def pool_ok_def pool_end_def bitmap_wf_def elem_cnt_def ELEM_BITS_def DIV_ROUND_UP_def PGSIZE_def)
      (simp add: demo_vms_def demo_pgs_def)
  show "pd_ok 0xC0100000 ?s"
  proof (rule pd_ok_cong(1) [OF demo_vms_pd p])
    have "pool_used (user_pool (pal demo_vms)) = {}" by (simp add: demo_vms_def demo_pgs_def demo_pool_def demo_unused pool_used_def)
    then show "in_use (pal demo_vms) \<subseteq> in_use (pal ?s)" by (simp add: in_use_def k)
  qed (simp_all add: one_page_vms_def)
  have "\<not> user_frame pg (pal ?s)" for pg
  proof
    assume "user_frame pg (pal ?s)"
    moreover have "pg \<in> page_range pg 1" by (simp add: page_range_def)
    ultimately have "pg \<in> in_use (pal ?s)" "0xC0200000 \<le> pg" by (auto simp: user_frame_def one_page_vms_def)
    moreover have "pool_base (kernel_pool (pal demo_vms)) = 0xC0100000" "bitmap_used (used_map (kernel_pool (pal demo_vms))) = {0}"
      by (simp_all add: demo_vms_def demo_pgs_def one_used)
    ultimately show False using used by (auto simp: in_use_def k(1) pool_used_def PGSIZE_def)
  qed
  then show "frames_exact ?s" using p k
    by (simp add: frames_exact_def frames_ok_def no_entries_wf) (simp add: one_page_vms_def PHYS_BASE_def)
qed

theorem frame_table_exact_witness:
  "\<exists>pg s1 s2. vm_frame_alloc (\<lambda>s. None) PAL_USER 0x8048123 one_page_vms = Some (pg, s1) \<and> frames_exact s1 \<and>
     frame_map s1 = [pg \<mapsto> \<lparr>fr_page = pg, fr_owner = 1, fr_vaddr = 0x8048000\<rparr>] \<and>
     vm_frame_alloc (\<lambda>s. None) PAL_USER 0x9000000 s1 = Some (pg, s2) \<and> frames_exact s2 \<and>
     frame_map s2 = [pg \<mapsto> \<lparr>fr_page = pg, fr_owner = 1, fr_vaddr = 0x9000000\<rparr>]"
proof -
  let ?s = one_page_vms
  have u: "PAL_USER AND PAL_USER \<noteq> 0" "PAL_USER AND PAL_ZERO = 0" "PAL_USER AND PAL_ASSERT = 0" "\<forall>n. mallocs ?s n"
    by (simp_all add: PAL_USER_def PAL_ZERO_def PAL_ASSERT_def one_page_vms_def demo_vms_def)
  have up: "user_pool (pal ?s) = \<lparr>pool_lock = False, used_map = \<lparr>bit_cnt = 1, bits = [0]\<rparr>, pool_base = 0xC0200000\<rparr>" by (simp add: one_page_vms_def)
  obtain pg p where p: "palloc_get_page PAL_USER (pal ?s) = Some (Some pg, p)"
    unfolding palloc_get_page_def
    by (cases rule: palloc_get_ok [OF one_page_ok(1) zero_less_one, of PAL_USER]) (use u(1) in \<open>auto simp: get_pool_def up one_page_unused [unfolded One_nat_def]\<close>)
  note a = palloc_get_Some [OF one_page_ok(1) zero_less_one p [unfolded palloc_get_page_def]]
  let ?e = "\<lparr>fr_page = pg, fr_owner = 1, fr_vaddr = 0x8048000\<rparr>"
  have m0: "frame_map ?s = Map.empty" "cur ?s = 1" "pg_round_down 0x8048123 = 0x8048000"
    using no_entries_wf(2) by (simp_all add: one_page_vms_def demo_vms_def pg_round_down_def PGBITS_def)
  obtain s1 where s1: "vm_frame_alloc (\<lambda>s. None) PAL_USER 0x8048123 ?s = Some (pg, s1)" "pal s1 = p"
      "s1 = ?s\<lparr>pal := p, malloc_no := malloc_no s1, frame_hash := frame_hash s1\<rparr>"
    using vm_frame_alloc_ok [OF _ u(1) _ p, of "\<lambda>s. None" "0x8048123"] one_page_ok(3) u(4) by (auto simp: frames_exact_def)
  have ex: "frames_exact s1" "frame_map s1 = [pg \<mapsto> ?e]"
    using frame_table_exact [OF one_page_ok(3) u(1,4), of "\<lambda>s. None" "0x8048123"] p s1(1) m0 by auto
  have r: "cr3 s1 = 0x100000" "procs s1 = procs demo_vms" "mallocs s1 = mallocs demo_vms" "cur s1 = 1" "vm_swap s1 = vm_swap demo_vms" "vm_fs s1 = vm_fs demo_vms"
    by (subst s1(3), simp add: one_page_vms_def demo_vms_def demo_pgs_def)+
  have wf: "hash_wf find_frame fr_page (frame_hash s1)" using ex(1) by (simp add: frames_exact_def frames_ok_def)
  then have "set (contents (frame_hash s1)) = {?e}" "distinct (contents (frame_hash s1))"
    using hash_map_ran [OF wf] ex(2) by (auto simp: hash_wf_def distinct_map)
  then have c: "contents (frame_hash s1) = [?e]" by (rule distinct_singleton)
  have none: "palloc_get_page PAL_USER (pal s1) = Some (None, p)"
  proof (cases rule: palloc_get_ok [OF a(1) zero_less_one, of PAL_USER])
    case (1 b q)
    have g: "get_pool True (pal ?s) = user_pool (pal ?s)" "pool_end (user_pool (pal ?s)) = 0xC0200000 + PGSIZE" "pool_base (user_pool (pal ?s)) = 0xC0200000"
      by (simp_all add: get_pool_def up pool_end_def)
    have base: "x = 0xC0200000" if "page_range x 1 \<subseteq> {0xC0200000..<0xC0200000 + PGSIZE}" for x
      using that by (auto simp: page_range_def PGSIZE_def)
    have "page_range pg 1 \<subseteq> {0xC0200000..<0xC0200000 + PGSIZE}" using a(6) u(1) g by simp
    moreover have "page_range b 1 \<subseteq> {0xC0200000..<0xC0200000 + PGSIZE}" using 1(7) u(1) a(8,9) [of True] g by simp
    ultimately have "pg = 0xC0200000" "b = 0xC0200000" using base by blast+
    then show ?thesis using 1(5) a(5) by (auto simp: page_range_def)
  next
    case 2
    then show ?thesis using u(3) s1(2) by (simp add: palloc_get_page_def)
  qed
  have "pd_ok 0xC0100000 s1"
    by (rule pd_ok_cong(1) [OF one_page_ok(2)]) (use a(1,5,7) a(8) [of False] u(2) s1(2) in \<open>auto simp: get_pool_def\<close>)
  then have cl: "clock_ok {0xC0100000} s1 (contents (frame_hash s1))"
    unfolding c by (simp add: clock_ok_def pds_ok_def r frame_pd_def) (simp add: demo_vms_def is_user_vaddr_def PHYS_BASE_def)
  have v: "victim s1 = ?e" using victim_mem [of s1] c by simp
  have "to_swap s1 = demo_swap"
    by (simp add: to_swap_def r) (simp add: demo_vms_def demo_fds_def demo_fs_def demo_swap_def demo_cache_def bc_init_def Let_def)
  moreover have "swap_view demo_swap 0 = None" "0 < bit_cnt (swap_bm demo_swap)"
    by (simp_all add: swap_view_def demo_swap_def bitmap_bit_def ELEM_BITS_def)
  moreover have "pt_wf no_entries" "hash_map pt_vaddr no_entries 0x8048000 = None" "h_elem_cnt (no_entries :: pt_suppl_entry hash) + 1 < 2 ^ 32"
    by (simp_all add: pt_wf_def no_entries_wf) (simp add: no_entries_def)
  ultimately have "can_swap_out s1 (victim s1)"
    unfolding v using demo_swap_ok by (auto simp: can_swap_out_def r pg_ofs_def PGBITS_def) (simp_all add: demo_vms_def)
  then obtain s2 where "vm_frame_alloc (\<lambda>s. None) PAL_USER 0x9000000 s1 = Some (pg, s2)" "frames_exact s2"
      "frame_map s2 = (frame_map s1)(pg \<mapsto> \<lparr>fr_page = pg, fr_owner = 1, fr_vaddr = 0x9000000\<rparr>)"
    using frame_table_exact [OF ex(1) u(1), of "\<lambda>s. None" "0x9000000"] none cl c v u(4) r by (auto simp: one_page_vms_def)
  then show ?thesis using s1(1) ex by auto
qed

theorem second_chance_witness:
  "\<exists>pg s1 s2. vm_frame_alloc (\<lambda>s. None) PAL_USER 0x8048123 demo_vms = Some (pg, s1) \<and>
     select_frame_to_evict s1 = Some (\<lparr>fr_page = pg, fr_owner = 1, fr_vaddr = 0x8048000\<rparr>, s2)"
proof -
  have u: "PAL_USER AND PAL_USER \<noteq> 0" "PAL_USER AND PAL_ZERO = 0" "mallocs demo_vms (malloc_no demo_vms)"
    by (simp_all add: PAL_USER_def PAL_ZERO_def demo_vms_def)
  obtain pg p where p: "palloc_get_page PAL_USER (pal demo_vms) = Some (Some pg, p)" using demo_user_page by blast
  note a = palloc_get_Some [OF demo_vms_ok(2) zero_less_one p [unfolded palloc_get_page_def]]
  let ?e = "\<lparr>fr_page = pg, fr_owner = 1, fr_vaddr = 0x8048000\<rparr>"
  obtain s1 where s1: "vm_frame_alloc (\<lambda>s. None) PAL_USER 0x8048123 demo_vms = Some (pg, s1)" "frames_ok s1" "pal s1 = p"
      "s1 = demo_vms\<lparr>pal := p, malloc_no := malloc_no s1, frame_hash := frame_hash s1\<rparr>" "frame_map s1 = [pg \<mapsto> ?e]"
    using vm_frame_alloc_ok [OF demo_vms_ok(1) u(1,3) p, of "\<lambda>s. None" "0x8048123"]
    by (auto simp: no_entries_wf pg_round_down_def PGBITS_def demo_vms_def)
  have r: "cr3 s1 = 0x100000" "procs s1 = procs demo_vms" by (subst s1(4), simp add: demo_vms_def demo_pgs_def)+
  have wf: "hash_wf find_frame fr_page (frame_hash s1)" using s1(2) by (simp add: frames_ok_def)
  then have "set (contents (frame_hash s1)) = {?e}" "distinct (contents (frame_hash s1))"
    using hash_map_ran [OF wf] s1(5) by (auto simp: hash_wf_def distinct_map)
  then have c: "contents (frame_hash s1) = [?e]"
    by (rule distinct_singleton)
  have "pd_ok 0xC0100000 s1"
    by (rule pd_ok_cong(1) [OF demo_vms_pd]) (use a(1,5,7) a(8) [of False] u(2) s1(3) in \<open>auto simp: get_pool_def\<close>)
  then have "clock_ok {0xC0100000} s1 (contents (frame_hash s1))"
    unfolding c by (simp add: clock_ok_def pds_ok_def r frame_pd_def) (simp add: demo_vms_def is_user_vaddr_def PHYS_BASE_def)
  from second_chance [OF this wf] obtain s2 where "select_frame_to_evict s1 = Some (?e, s2)" unfolding c by auto
  then show ?thesis using s1(1) by blast
qed

text \<open>
  With no frame in the table the search never ends, so that a request that finds neither a free page nor a frame
  does not reach the check for a null victim that follows it.
\<close>

lemma clock_pass_empty: "contents (frame_hash s) = [] \<Longrightarrow> placed find_frame (frame_hash s) \<Longrightarrow> clock_pass hash_first s = Some (None, s)"
proof -
  assume c: "contents (frame_hash s) = []" and p: "placed find_frame (frame_hash s)"
  then have len: "0 < length (buckets (frame_hash s))" "length (buckets (frame_hash s)) = bucket_cnt (frame_hash s)" by (auto simp: placed_def)
  have "ahead (frame_hash s) hash_first = []" using ahead_first [OF p] c by simp
  then have "fst (hash_next (frame_hash s) hash_first) = None"
    using hash_next_ahead [OF len(2), of hash_first] len by (simp add: hash_first_def)
  then show "clock_pass hash_first s = Some (None, s)" by (subst clock_pass.simps) (simp add: case_prod_beta)
qed

theorem select_empty_never_returns:
  assumes "contents (frame_hash s) = []" and "placed find_frame (frame_hash s)"
  shows "select_frame_to_evict s = None"
proof -
  have "contents (frame_hash s) \<noteq> [] \<or> \<not> placed find_frame (frame_hash s)" if "select_frame_to_evict s = Some r" for r s
    using that
  proof (induction rule: select_frame_to_evict.raw_induct [rotated, consumes 1, case_names step])
    case (step rec s r)
    then show ?case using clock_pass_empty [of s] by (cases r) (auto split: option.splits)
  qed
  then show ?thesis using assms by (metis not_None_eq)
qed

end
