(* ===== verification/Loader.thy ===== *)
theory Loader
  imports Eviction
begin

text \<open>
  Loading a program, the second half of \<^verbatim>\<open>userprog/process.c\<close>: the ELF headers and their checks, the entry of the segments
  in the supplemental page table, and the first page of the stack with the arguments of the program. Words of
  the headers are 32-bit words, so that their sums wrap around as in the code.
\<close>

section \<open>ELF headers\<close>

record Elf32_Ehdr =
  eh_ident :: "u8 list"
  eh_type :: nat
  eh_machine :: nat
  eh_version :: u32
  eh_entry :: u32
  eh_phoff :: u32
  eh_shoff :: u32
  eh_flags :: u32
  eh_ehsize :: nat
  eh_phentsize :: nat
  eh_phnum :: nat
  eh_shentsize :: nat
  eh_shnum :: nat
  eh_shstrndx :: nat

record Elf32_Phdr =
  ph_type :: u32
  ph_offset :: u32
  ph_vaddr :: u32
  ph_paddr :: u32
  ph_filesz :: u32
  ph_memsz :: u32
  ph_flags :: u32
  ph_align :: u32

definition EHDR_SIZE :: nat where "EHDR_SIZE = 52"
definition PHDR_SIZE :: nat where "PHDR_SIZE = 32"

definition elf_word :: "u8 list \<Rightarrow> nat \<Rightarrow> u32" where "elf_word bs i = of_nat (get_u32 bs i)"

text \<open>The structures as they lie in the file, little-endian and without padding.\<close>

definition ehdr_of_bytes :: "u8 list \<Rightarrow> Elf32_Ehdr" where
  "ehdr_of_bytes bs = \<lparr>eh_ident = take 16 bs, eh_type = get_u16 bs 16, eh_machine = get_u16 bs 18, eh_version = elf_word bs 20,
     eh_entry = elf_word bs 24, eh_phoff = elf_word bs 28, eh_shoff = elf_word bs 32, eh_flags = elf_word bs 36,
     eh_ehsize = get_u16 bs 40, eh_phentsize = get_u16 bs 42, eh_phnum = get_u16 bs 44, eh_shentsize = get_u16 bs 46,
     eh_shnum = get_u16 bs 48, eh_shstrndx = get_u16 bs 50\<rparr>"

definition phdr_of_bytes :: "u8 list \<Rightarrow> Elf32_Phdr" where
  "phdr_of_bytes bs = \<lparr>ph_type = elf_word bs 0, ph_offset = elf_word bs 4, ph_vaddr = elf_word bs 8, ph_paddr = elf_word bs 12,
     ph_filesz = elf_word bs 16, ph_memsz = elf_word bs 20, ph_flags = elf_word bs 24, ph_align = elf_word bs 28\<rparr>"

definition PT_NULL :: u32 where "PT_NULL = 0"
definition PT_LOAD :: u32 where "PT_LOAD = 1"
definition PT_DYNAMIC :: u32 where "PT_DYNAMIC = 2"
definition PT_INTERP :: u32 where "PT_INTERP = 3"
definition PT_NOTE :: u32 where "PT_NOTE = 4"
definition PT_SHLIB :: u32 where "PT_SHLIB = 5"
definition PT_PHDR :: u32 where "PT_PHDR = 6"
definition PT_STACK :: u32 where "PT_STACK = 0x6474e551"

definition SEG_W :: u32 where "SEG_W = 2"

definition PGMASK :: u32 where "PGMASK = 0xFFF"
definition PAGE32 :: u32 where "PAGE32 = 4096"

text \<open>\<^verbatim>\<open>ROUND_UP (x, PGSIZE)\<close> on 32-bit words, where the sum may wrap around.\<close>

definition round_up_page :: "u32 \<Rightarrow> u32" where
  "round_up_page x = (x + PAGE32 - 1) div PAGE32 * PAGE32"

definition ehdr_ok :: "Elf32_Ehdr \<Rightarrow> bool" where
  "ehdr_ok h \<longleftrightarrow> take 7 (eh_ident h) = [0x7f, 0x45, 0x4c, 0x46, 1, 1, 1] \<and> eh_type h = 2 \<and> eh_machine h = 3 \<and> eh_version h = 1 \<and>
     eh_phentsize h = PHDR_SIZE \<and> eh_phnum h \<le> 1024"

definition validate_segment :: "Elf32_Phdr \<Rightarrow> nat \<Rightarrow> fsys \<Rightarrow> (bool \<times> fsys) option" where
  "validate_segment phdr file s =
     (if ph_offset phdr AND PGMASK \<noteq> ph_vaddr phdr AND PGMASK then Some (False, s)
      else do {
        (len, s) \<leftarrow> file_length file s;
        Some
         (if ph_offset phdr > of_int len then False
          else if ph_memsz phdr < ph_filesz phdr then False
          else if ph_memsz phdr = 0 then False
          else if \<not> is_user_vaddr (unat (ph_vaddr phdr)) then False
          else if \<not> is_user_vaddr (unat (ph_vaddr phdr + ph_memsz phdr)) then False
          else if ph_vaddr phdr + ph_memsz phdr < ph_vaddr phdr then False
          else if ph_vaddr phdr < PAGE32 then False
          else True, s) })"

section \<open>Segments\<close>

text \<open>The file offset is a signed 32-bit number.\<close>

partial_function (option) load_segment_loop :: "nat \<Rightarrow> int \<Rightarrow> nat \<Rightarrow> u32 \<Rightarrow> u32 \<Rightarrow> bool \<Rightarrow> vms \<Rightarrow> (bool \<times> vms) option" where
  "load_segment_loop file ofs upage rb zb writ s =
     (if rb > 0 \<or> zb > 0 then do {
        let page_read = (if rb < PAGE32 then rb else PAGE32);
        let page_zero = PAGE32 - page_read;
        (success, s) \<leftarrow> pt_suppl_add_lazy file ofs upage (unat page_read) (unat page_zero) writ s;
        if \<not> success then Some (False, s)
        else load_segment_loop file (bits_off (off_bits (ofs + int (unat page_read)))) (sz (upage + PGSIZE)) (rb - page_read) (zb - page_zero) writ s }
      else Some (True, s))"

definition load_segment :: "nat \<Rightarrow> int \<Rightarrow> nat \<Rightarrow> u32 \<Rightarrow> u32 \<Rightarrow> bool \<Rightarrow> vms \<Rightarrow> (bool \<times> vms) option" where
  "load_segment file ofs upage rb zb writ s = do {
     ASSERT (rb + zb > 0);
     ASSERT ((rb + zb) mod PAGE32 = 0);
     ASSERT (pg_ofs upage = 0);
     ASSERT (off_bits ofs mod PGSIZE = 0);
     load_segment_loop file ofs upage rb zb writ s }"

definition load_phdr :: "nat \<Rightarrow> Elf32_Phdr \<Rightarrow> vms \<Rightarrow> (bool \<times> vms) option" where
  "load_phdr file phdr s =
     (if ph_type phdr \<in> {PT_DYNAMIC, PT_INTERP, PT_SHLIB} then Some (False, s)
      else if ph_type phdr = PT_LOAD then do {
        (valid, s) \<leftarrow> with_fs (validate_segment phdr file) s;
        if valid then
          let writable = (ph_flags phdr AND SEG_W \<noteq> 0);
              file_page = ph_offset phdr AND NOT PGMASK;
              mem_page = ph_vaddr phdr AND NOT PGMASK;
              page_offset = ph_vaddr phdr AND PGMASK;
              (rb, zb) = (if ph_filesz phdr > 0
                then (page_offset + ph_filesz phdr, round_up_page (page_offset + ph_memsz phdr) - (page_offset + ph_filesz phdr))
                else (0, round_up_page (page_offset + ph_memsz phdr)))
          in load_segment file (bits_off (unat file_page)) (unat mem_page) rb zb writable s
        else Some (False, s) }
      else Some (True, s))"

text \<open>The program headers, \<open>tt\<close> of them, from offset \<open>ofs\<close> of the file.\<close>

fun load_phdrs :: "fm_writer \<Rightarrow> nat \<Rightarrow> nat \<Rightarrow> int \<Rightarrow> vms \<Rightarrow> (bool \<times> vms) option" where
  "load_phdrs fmw file 0 ofs s = Some (True, s)"
| "load_phdrs fmw file (Suc tt) ofs s = do {
     (inside, s) \<leftarrow> (if ofs < 0 then Some (False, s)
                    else do { (len, s) \<leftarrow> with_fs (file_length file) s; Some (ofs \<le> len, s) });
     if \<not> inside then Some (False, s)
     else do {
       (_, s) \<leftarrow> with_fs (\<lambda>f. map_option (Pair ()) (file_seek file ofs f)) s;
       (bytes, s) \<leftarrow> with_fs (file_read fmw file (int PHDR_SIZE)) s;
       if length bytes \<noteq> PHDR_SIZE then Some (False, s)
       else do {
         (loaded, s) \<leftarrow> load_phdr file (phdr_of_bytes bytes) s;
         if \<not> loaded then Some (False, s)
         else load_phdrs fmw file tt (bits_off (off_bits (ofs + int PHDR_SIZE))) s } } }"

section \<open>The stack\<close>

definition install_page :: "nat \<Rightarrow> nat \<Rightarrow> bool \<Rightarrow> vms \<Rightarrow> (bool \<times> vms) option" where
  "install_page upage kpage writable s = do {
     t \<leftarrow> current_proc s;
     k \<leftarrow> pagedir_get_page (p_pagedir t) upage s;
     if k = None then pagedir_set_page (p_pagedir t) upage kpage writable s else Some (False, s) }"

text \<open>
  Moving the stack pointer down by the length of \<open>bs\<close> and copying \<open>bs\<close> there, but only while the pointer is inside the
  page at the top of user memory.
\<close>

definition push :: "u8 list \<Rightarrow> nat \<Rightarrow> vms \<Rightarrow> (nat \<times> vms) option" where
  "push bs esp s = do {
     let esp = sz (esp + (2 ^ 32 - length bs));
     s \<leftarrow> (if PHYS_BASE - PGSIZE < esp then store_bytes esp bs s else Some s);
     Some (esp, s) }"

text \<open>The arguments from first to last; the result has the address of each.\<close>

fun push_args :: "u8 list list \<Rightarrow> nat \<Rightarrow> vms \<Rightarrow> (nat list \<times> nat \<times> vms) option" where
  "push_args [] esp s = Some ([], esp, s)"
| "push_args (tkn # ts) esp s = do {
     (esp, s) \<leftarrow> push (tkn @ [0]) esp s;
     (argv, e, s) \<leftarrow> push_args ts esp s;
     Some (esp # argv, e, s) }"

partial_function (option) push_align :: "nat \<Rightarrow> vms \<Rightarrow> (nat \<times> vms) option" where
  "push_align esp s = (if esp mod 4 \<noteq> 0 then do { (esp, s) \<leftarrow> push [0] esp s; push_align esp s } else Some (esp, s))"

fun push_words :: "nat list \<Rightarrow> nat \<Rightarrow> vms \<Rightarrow> (nat \<times> vms) option" where
  "push_words [] esp s = Some (esp, s)"
| "push_words (w # ws) esp s = do { (esp, s) \<leftarrow> push (u32_bytes w) esp s; push_words ws esp s }"

definition BLANK :: u8 where "BLANK = 32"

definition ARGS_MAX :: nat where "ARGS_MAX = 100"

text \<open>
  \<^verbatim>\<open>setup_stack\<close> with the string of arguments, cut at blanks by \<^verbatim>\<open>strtok_r\<close> (theory \<open>CString\<close>). The vector of their addresses has room
  for at most \<open>ARGS_MAX\<close> of them and a null pointer; an assignment behind it is outside its block of memory. The result
  has the stack pointer.
\<close>

definition setup_stack :: "fm_writer \<Rightarrow> u8 list \<Rightarrow> vms \<Rightarrow> (nat option \<times> vms) option" where
  "setup_stack fmw args s = do {
     let startt = PHYS_BASE - PGSIZE;
     (kernelPage, s) \<leftarrow> vm_frame_alloc fmw (PAL_USER OR PAL_ZERO) startt s;
     (result, s) \<leftarrow> install_page startt kernelPage True s;
     if \<not> result then do { s \<leftarrow> vm_frame_free kernelPage s; Some (None, s) }
     else do {
       let esp = PHYS_BASE;
       let (copy, s) = vm_malloc s;
       if \<not> copy then Some (None, s)
       else do {
         let ts = tokens [BLANK] args;
         let argc = min (length ts) ARGS_MAX;
         let (vec, s) = vm_malloc s;
         if \<not> vec then Some (None, s)
         else do {
           ASSERT (length ts < argc + 1);
           (argv, esp, s) \<leftarrow> push_args ts esp s;
           (esp, s) \<leftarrow> push_align esp s;
           (esp, s) \<leftarrow> push_words (rev (argv @ [0])) esp s;
           (esp, s) \<leftarrow> push_words [esp, argc, 0] esp s;
           Some (Some esp, s) } } } }"

section \<open>Loading a program\<close>

definition with_files :: "(fsaccess \<Rightarrow> fsaccess option) \<Rightarrow> vms \<Rightarrow> vms option" where
  "with_files op s = do { t \<leftarrow> op (vm_fs s); Some (s\<lparr>vm_fs := t\<rparr>) }"

text \<open>
  \<^verbatim>\<open>load\<close>; \<open>cwd\<close> is the directory of the running thread. The result has the entry point and the stack pointer. \<^verbatim>\<open>process_activate\<close> loads the page
  directory; the stack for interrupts it sets for the processor as well is not part of the state.
\<close>

definition process_activate :: "vms \<Rightarrow> vms option" where
  "process_activate s = do { t \<leftarrow> current_proc s; pagedir_activate (p_pagedir t) s }"

definition load :: "fm_writer \<Rightarrow> dirent \<Rightarrow> addr \<Rightarrow> u8 list \<Rightarrow> u8 list \<Rightarrow> vms \<Rightarrow> ((nat \<times> nat) option \<times> vms) option" where
  "load fmw junk cwd file_name file_args s = do {
     (pd, s) \<leftarrow> pagedir_create s;
     s \<leftarrow> upd_proc (cur s) (p_pagedir_update (\<lambda>_. case pd of None \<Rightarrow> 0 | Some a \<Rightarrow> a)) s;
     if pd = None then Some (None, s)
     else do {
       s \<leftarrow> process_activate s;
       s \<leftarrow> with_files lock_fs s;
       (file, s) \<leftarrow> with_fs (filesys_open fmw junk cwd file_name) s;
       if file = NULL then do {
         (_, s) \<leftarrow> with_fs (\<lambda>x. map_option (Pair ()) (file_close fmw file x)) s;
         s \<leftarrow> with_files unlock_fs s;
         Some (None, s) }
       else do {
         s \<leftarrow> upd_proc (cur s) (p_run_file_update (\<lambda>_. file)) s;
         (_, s) \<leftarrow> with_fs (\<lambda>x. map_option (Pair ()) (file_deny_write file x)) s;
         s \<leftarrow> with_files unlock_fs s;
         (bytes, s) \<leftarrow> with_fs (file_read fmw file (int EHDR_SIZE)) s;
         if length bytes \<noteq> EHDR_SIZE \<or> \<not> ehdr_ok (ehdr_of_bytes bytes) then Some (None, s)
         else do {
           let ehdr = ehdr_of_bytes bytes;
           (loaded, s) \<leftarrow> load_phdrs fmw file (eh_phnum ehdr) (bits_off (unat (eh_phoff ehdr))) s;
           if \<not> loaded then Some (None, s)
           else do {
             (esp, s) \<leftarrow> setup_stack fmw file_args s;
             case esp of None \<Rightarrow> Some (None, s) | Some esp \<Rightarrow> Some (Some (unat (eh_entry ehdr), esp), s) } } } } }"

section \<open>The pages of a segment\<close>

text \<open>The entry of the \<open>i\<close>-th page of a segment at \<open>up\<close>, of which \<open>rb\<close> bytes are read from offset \<open>ofs\<close> of the file.\<close>

definition seg_page :: "nat \<Rightarrow> tptr \<Rightarrow> int \<Rightarrow> int \<Rightarrow> nat \<Rightarrow> nat \<Rightarrow> bool \<Rightarrow> nat \<Rightarrow> pt_suppl_entry" where
  "seg_page file t mid ofs up rb writ i =
     file_entry file t mid (ofs + int (min rb (4096 * i))) (up + 4096 * i) (min 4096 (rb - 4096 * i)) (4096 - min 4096 (rb - 4096 * i)) writ LAZY_UNLOADED"

lemma seg_page_Suc: "seg_page file t mid (ofs + int (min rb 4096)) (up + 4096) (rb - min rb 4096) writ i = seg_page file t mid ofs up rb writ (Suc i)"
proof -
  have "min rb 4096 + min (rb - min rb 4096) (4096 * i) = min rb (4096 * Suc i)" "rb - min rb 4096 - 4096 * i = rb - 4096 * Suc i" by auto
  then show ?thesis unfolding seg_page_def by (simp add: add.assoc flip: of_nat_add)
qed

definition seg_pages :: "(nat \<Rightarrow> pt_suppl_entry) \<Rightarrow> nat \<Rightarrow> nat \<Rightarrow> (nat \<rightharpoonup> pt_suppl_entry) \<Rightarrow> nat \<rightharpoonup> pt_suppl_entry" where
  "seg_pages f up n h a = (if up \<le> a \<and> a < up + 4096 * n \<and> (a - up) mod 4096 = 0 then Some (f ((a - up) div 4096)) else h a)"

lemma seg_pages_Suc: "seg_pages (\<lambda>i. f (Suc i)) (up + 4096) n (h(up \<mapsto> f 0)) = seg_pages f up (Suc n) h"
proof
  fix a
  have "(a - up) mod 4096 = (a - (up + 4096)) mod 4096 \<and> (a - up) div 4096 = Suc ((a - (up + 4096)) div 4096)" if "up + 4096 \<le> a"
  proof -
    have "a - up = (a - (up + 4096)) + 4096" using that by simp
    then show ?thesis by (metis div_add_self2 mod_add_self2 Suc_eq_plus1 zero_neq_numeral)
  qed
  moreover have "a = up" if "up \<le> a" "a < up + 4096" "(a - up) mod 4096 = 0" using that by simp
  ultimately show "seg_pages (\<lambda>i. f (Suc i)) (up + 4096) n (h(up \<mapsto> f 0)) a = seg_pages f up (Suc n) h a"
    by (cases "up + 4096 \<le> a") (auto simp: seg_pages_def)
qed

lemma load_segment_loop_ok:
  assumes "procs s (cur s) = Some pr" and "pt_wf (p_pt_suppl pr)" "h_elem_cnt (p_pt_suppl pr) + n < 2 ^ 32" and "\<forall>n. mallocs s n"
    and "\<not> p_pt_suppl_lock pr" and "unat rb + unat zb = 4096 * n" and "0 < up" "up + 4096 * n \<le> PHYS_BASE" and "0 \<le> ofs" "ofs + int (unat rb) < 2 ^ 31"
    and "\<forall>i < n. hash_map pt_vaddr (p_pt_suppl pr) (up + 4096 * i) = None"
  shows "\<exists>s' pr'. load_segment_loop file ofs up rb zb writ s = Some (True, s') \<and> s' = s\<lparr>malloc_no := malloc_no s', procs := (procs s)(cur s \<mapsto> pr')\<rparr> \<and>
    p_pagedir pr' = p_pagedir pr \<and> pt_wf (p_pt_suppl pr') \<and> \<not> p_pt_suppl_lock pr' \<and> h_elem_cnt (p_pt_suppl pr') \<le> h_elem_cnt (p_pt_suppl pr) + n \<and>
    hash_map pt_vaddr (p_pt_suppl pr') = seg_pages (seg_page file (cur s) (last_map s) ofs up (unat rb) writ) up n (hash_map pt_vaddr (p_pt_suppl pr))"
  using assms
proof (induction n arbitrary: s pr rb zb up ofs)
  case 0
  then have "rb = 0" "zb = 0" by (simp_all add: unat_eq_0 [symmetric])
  then have "load_segment_loop file ofs up rb zb writ s = Some (True, s)" by (subst load_segment_loop.simps) simp
  moreover have "s = s\<lparr>malloc_no := malloc_no s, procs := (procs s)(cur s \<mapsto> pr)\<rparr>" unfolding fun_upd_idem [of "procs s" "cur s" "Some pr", OF 0(1)] by simp
  moreover have "seg_pages f up 0 h = h" for f h by (auto simp: seg_pages_def fun_eq_iff)
  ultimately show ?case using 0(2,5) by (intro exI [of _ s] exI [of _ pr]) (simp del: fun_upd_apply)
next
  case (Suc n)
  let ?r = "if rb < PAGE32 then rb else PAGE32"
  have P: "unat PAGE32 = 4096" by (simp add: PAGE32_def)
  have r: "unat ?r = min (unat rb) 4096" using P by (auto simp: word_less_nat_alt)
  have z: "unat (PAGE32 - ?r) = 4096 - min (unat rb) 4096" using r P by (subst unat_sub) (auto simp: word_le_nat_alt)
  have rb': "unat (rb - ?r) = unat rb - min (unat rb) 4096" using r by (subst unat_sub) (auto simp: word_le_nat_alt)
  have zle: "4096 - min (unat rb) 4096 \<le> unat zb" using Suc.prems(6) by auto
  have zb': "unat (zb - (PAGE32 - ?r)) = unat zb - (4096 - min (unat rb) 4096)" using z zle by (subst unat_sub) (auto simp: word_le_nat_alt)
  have ne: "0 < rb \<or> 0 < zb" using Suc.prems(6) by (auto simp: word_less_nat_alt)
  have h0: "hash_map pt_vaddr (p_pt_suppl pr) up = None" using Suc.prems(11) [rule_format, of 0] by simp
  let ?e = "seg_page file (cur s) (last_map s) ofs up (unat rb) writ"
  have e0: "?e 0 = file_entry file (cur s) (last_map s) ofs up (min (unat rb) 4096) (4096 - min (unat rb) 4096) writ LAZY_UNLOADED"
    by (simp add: seg_page_def min.commute)
  have "h_elem_cnt (p_pt_suppl pr) + 1 < 2 ^ 32" "up \<noteq> 0" using Suc.prems(3,7) by simp_all
  from add_file_page [OF Suc.prems(1,2) this(1) Suc.prems(4) this(2), where fe = "file" and ofs = ofs and rb = "unat ?r" and zb = "unat (PAGE32 - ?r)" and writ = writ and st = LAZY_UNLOADED]
  obtain s1 pr1 where s1: "pt_suppl_add_lazy file ofs up (unat ?r) (unat (PAGE32 - ?r)) writ s = Some (True, s1)"
      "s1 = s\<lparr>malloc_no := malloc_no s + 3, procs := (procs s)(cur s \<mapsto> pr1)\<rparr>" "p_pagedir pr1 = p_pagedir pr" "p_pt_suppl_lock pr1 = p_pt_suppl_lock pr"
      "pt_wf (p_pt_suppl pr1)" "h_elem_cnt (p_pt_suppl pr1) \<le> h_elem_cnt (p_pt_suppl pr) + 1"
      "hash_map pt_vaddr (p_pt_suppl pr1) = (hash_map pt_vaddr (p_pt_suppl pr))(up \<mapsto> ?e 0)"
    using h0 Suc.prems(1,4,5) unfolding r z e0 setup_ok [OF Suc.prems(4)]
    by (auto simp: pt_suppl_add_lazy_def setup_ok current_proc_def)
  let ?ofs = "ofs + int (min (unat rb) 4096)" and ?up = "up + 4096" and ?rb = "rb - ?r" and ?zb = "zb - (PAGE32 - ?r)"
  have o: "bits_off (off_bits (ofs + int (unat ?r))) = ?ofs"
  proof -
    have "int (min (unat rb) 4096) \<le> int (unat rb)" by (simp only: of_nat_le_iff min.cobounded1)
    then have "0 \<le> ?ofs" "?ofs < 2 ^ 31" using Suc.prems(9,10) by linarith+
    then show ?thesis unfolding r by (intro off_roundtrip) simp_all
  qed
  have u: "sz (up + PGSIZE) = ?up" using Suc.prems(8) by (simp add: sz_def PGSIZE_def PHYS_BASE_def)
  have "\<exists>s' pr'. load_segment_loop file ?ofs ?up ?rb ?zb writ s1 = Some (True, s') \<and> s' = s1\<lparr>malloc_no := malloc_no s', procs := (procs s1)(cur s1 \<mapsto> pr')\<rparr> \<and>
    p_pagedir pr' = p_pagedir pr1 \<and> pt_wf (p_pt_suppl pr') \<and> \<not> p_pt_suppl_lock pr' \<and> h_elem_cnt (p_pt_suppl pr') \<le> h_elem_cnt (p_pt_suppl pr1) + n \<and>
    hash_map pt_vaddr (p_pt_suppl pr') = seg_pages (seg_page file (cur s1) (last_map s1) ?ofs ?up (unat ?rb) writ) ?up n (hash_map pt_vaddr (p_pt_suppl pr1))"
  proof (rule Suc.IH)
    show "unat ?rb + unat ?zb = 4096 * n" using Suc.prems(6) zle unfolding rb' zb' by simp
    show "?ofs + int (unat ?rb) < 2 ^ 31" using Suc.prems(10) unfolding rb' by auto
    show "\<forall>i < n. hash_map pt_vaddr (p_pt_suppl pr1) (?up + 4096 * i) = None"
    proof (intro allI impI)
      fix i assume "i < n"
      then show "hash_map pt_vaddr (p_pt_suppl pr1) (?up + 4096 * i) = None" using Suc.prems(11) [rule_format, of "Suc i"] by (simp add: s1(7) add.assoc)
    qed
  qed (use Suc.prems s1(2-6) in auto)
  then obtain s' pr' where s': "load_segment_loop file ?ofs ?up ?rb ?zb writ s1 = Some (True, s')" "s' = s1\<lparr>malloc_no := malloc_no s', procs := (procs s1)(cur s1 \<mapsto> pr')\<rparr>"
    "p_pagedir pr' = p_pagedir pr1" "pt_wf (p_pt_suppl pr')" "\<not> p_pt_suppl_lock pr'" "h_elem_cnt (p_pt_suppl pr') \<le> h_elem_cnt (p_pt_suppl pr1) + n"
    and hm: "hash_map pt_vaddr (p_pt_suppl pr') = seg_pages (seg_page file (cur s1) (last_map s1) ?ofs ?up (unat ?rb) writ) ?up n (hash_map pt_vaddr (p_pt_suppl pr1))"
    by blast
  have "load_segment_loop file ofs up rb zb writ s = load_segment_loop file ?ofs ?up ?rb ?zb writ s1"
    by (subst load_segment_loop.simps) (simp only: Let_def if_P [OF ne] s1(1) bind.bind_lunit case_prod_conv o u not_True_eq_False if_False)
  moreover have "hash_map pt_vaddr (p_pt_suppl pr') = seg_pages ?e up (Suc n) (hash_map pt_vaddr (p_pt_suppl pr))"
  proof -
    have "seg_page file (cur s) (last_map s) ?ofs ?up (unat rb - min (unat rb) 4096) writ = (\<lambda>i. ?e (Suc i))" by (rule ext) (rule seg_page_Suc)
    then show ?thesis unfolding hm rb' s1(7) using seg_pages_Suc [of ?e up n] s1(2) by simp
  qed
  moreover have "s' = s\<lparr>malloc_no := malloc_no s', procs := (procs s)(cur s \<mapsto> pr')\<rparr>" by (subst s'(2)) (simp add: s1(2))
  ultimately show ?case using s'(1,3-6) s1(3,6) by (intro exI [of _ s'] exI [of _ pr']) (simp del: fun_upd_apply)
qed

lemma page_mask:
  "unat (w AND PGMASK) = unat w mod 4096" "unat (w AND NOT PGMASK) = unat w - unat w mod 4096"
proof -
  have M: "PGMASK = mask 12" by (simp add: PGMASK_def mask_eq_exp_minus_1)
  have "w AND PGMASK = take_bit 12 w" unfolding M by (simp add: take_bit_eq_mask)
  then show m: "unat (w AND PGMASK) = unat w mod 4096" by (simp add: unsigned_take_bit_eq take_bit_eq_mod unat_mod)
  have "w AND NOT PGMASK = w - (w AND PGMASK)" proof -
    have "(w AND PGMASK) AND (w AND NOT PGMASK) = 0" "(w AND PGMASK) OR (w AND NOT PGMASK) = w" by (auto intro!: bit_word_eqI simp: bit_simps)
    then have "(w AND PGMASK) + (w AND NOT PGMASK) = w" using disjunctive_add_eq_or by metis
    then show ?thesis by (metis add_diff_cancel_left')
  qed
  moreover have "w AND PGMASK \<le> w" unfolding word_le_nat_alt m by simp
  ultimately show "unat (w AND NOT PGMASK) = unat w - unat w mod 4096" by (simp add: unat_sub m)
qed

lemma round_up_page: "unat x + 4095 < 2 ^ 32 \<Longrightarrow> unat (round_up_page x) = (unat x + 4095) div 4096 * 4096"
proof -
  assume x: "unat x + 4095 < 2 ^ 32"
  have e: "x + PAGE32 - 1 = x + 4095" by (simp add: PAGE32_def)
  have a: "unat (x + 4095) = unat x + 4095" using x by (subst unat_add_lem [THEN iffD1]) simp_all
  have d: "unat ((x + 4095) div PAGE32) = (unat x + 4095) div 4096" "unat PAGE32 = 4096" by (simp_all add: unat_div a PAGE32_def)
  have "(unat x + 4095) div 4096 * 4096 < 2 ^ 32" using x by (meson div_times_less_eq_dividend le_less_trans)
  then have "unat ((x + 4095) div PAGE32 * PAGE32) = unat ((x + 4095) div PAGE32) * unat PAGE32"
    by (intro unat_mult_lem [THEN iffD1]) (simp add: d)
  then show ?thesis unfolding round_up_page_def e d .
qed

lemma page_ceiling: "4096 * ((t + 4095) div 4096) < t + 4096 \<and> t \<le> 4096 * ((t + 4095) div (4096 :: nat))"
  using div_mult_mod_eq [of "t + 4095" 4096] mod_less_divisor [of 4096 "t + 4095"] by linarith

text \<open>What the checks of a segment guarantee, as numbers.\<close>

lemma validate_segment_True:
  assumes "validate_segment phdr file x = Some (True, f)"
  shows "unat (ph_offset phdr) mod 4096 = unat (ph_vaddr phdr) mod 4096" "unat (ph_filesz phdr) \<le> unat (ph_memsz phdr)" "0 < unat (ph_memsz phdr)"
    "unat (ph_vaddr phdr) + unat (ph_memsz phdr) < PHYS_BASE" "4096 \<le> unat (ph_vaddr phdr)"
proof -
  have a: "ph_offset phdr AND PGMASK = ph_vaddr phdr AND PGMASK" and b: "ph_filesz phdr \<le> ph_memsz phdr" "ph_memsz phdr \<noteq> 0"
    and c: "is_user_vaddr (unat (ph_vaddr phdr + ph_memsz phdr))" "ph_vaddr phdr \<le> ph_vaddr phdr + ph_memsz phdr" "PAGE32 \<le> ph_vaddr phdr"
    using assms by (auto simp: validate_segment_def bind_eq_Some_iff not_less split: if_splits)
  show "unat (ph_offset phdr) mod 4096 = unat (ph_vaddr phdr) mod 4096" unfolding page_mask(1) [symmetric] a ..
  show "unat (ph_filesz phdr) \<le> unat (ph_memsz phdr)" "0 < unat (ph_memsz phdr)" using b by (simp_all add: word_le_nat_alt unat_gt_0)
  have "unat (ph_vaddr phdr + ph_memsz phdr) = unat (ph_vaddr phdr) + unat (ph_memsz phdr)"
    using c(2) by (simp add: unat_plus_simple)
  then show "unat (ph_vaddr phdr) + unat (ph_memsz phdr) < PHYS_BASE" using c(1) by (simp add: is_user_vaddr_def)
  show "4096 \<le> unat (ph_vaddr phdr)" using c(3) by (simp add: word_le_nat_alt PAGE32_def)
qed

lemma load_phdr_pages:
  fixes phdr
  defines "v \<equiv> unat (ph_vaddr phdr)" and "ms \<equiv> unat (ph_memsz phdr)" and "fz \<equiv> unat (ph_filesz phdr)" and "off \<equiv> unat (ph_offset phdr)"
  defines "up \<equiv> v - v mod 4096" and "n \<equiv> (v mod 4096 + ms + 4095) div 4096" and "R \<equiv> (if fz > 0 then v mod 4096 + fz else 0)"
  assumes pr: "procs s (cur s) = Some pr" and tbl: "pt_wf (p_pt_suppl pr)" "h_elem_cnt (p_pt_suppl pr) + 2 ^ 20 < 2 ^ 32" and m: "\<forall>n. mallocs s n"
    and lk: "\<not> p_pt_suppl_lock pr" and ld: "ph_type phdr = PT_LOAD" and val: "validate_segment phdr file (fs (vm_fs s)) = Some (True, f)"
    and big: "off + fz < 2 ^ 31" and free: "\<forall>i < n. hash_map pt_vaddr (p_pt_suppl pr) (up + 4096 * i) = None"
  shows "\<exists>s' pr'. load_phdr file phdr s = Some (True, s') \<and> procs s' = (procs s)(cur s \<mapsto> pr') \<and> pt_wf (p_pt_suppl pr') \<and>
    hash_map pt_vaddr (p_pt_suppl pr') =
      seg_pages (seg_page file (cur s) (last_map s) (int off - int (off mod 4096)) up R (ph_flags phdr AND SEG_W \<noteq> 0)) up n (hash_map pt_vaddr (p_pt_suppl pr))"
proof -
  note V = validate_segment_True [OF val, folded v_def ms_def fz_def off_def]
  have B: "PHYS_BASE = 3221225472" "PGSIZE = 4096" by (simp_all add: PHYS_BASE_def PGSIZE_def)
  let ?s = "s\<lparr>vm_fs := (vm_fs s)\<lparr>fs := f\<rparr>\<rparr>" and ?po = "ph_vaddr phdr AND PGMASK"
  have po: "unat ?po = v mod 4096" by (simp add: page_mask v_def)
  have vm: "v mod 4096 < 4096" "v mod 4096 \<le> v" by simp_all
  define t where "t = v mod 4096 + ms"
  have bnd: "up + t < 3221225472" "4096 dvd up" using V(4) vm unfolding up_def t_def B by (simp_all add: minus_mod_eq_mult_div)
  have n: "4096 * n < t + 4096" "t \<le> 4096 * n" unfolding n_def t_def using page_ceiling by simp_all
  obtain a where "up = 4096 * a" using bnd(2) by (elim dvdE)
  then have "a + n < 786433" using bnd(1) n(1) by linarith
  then have top: "up + 4096 * n \<le> 3221225472" using \<open>up = 4096 * a\<close> by simp
  have n20: "n < 2 ^ 20" using top V(5) unfolding up_def by (cases "n < 2 ^ 20") auto
  have rsum: "unat (?po + ph_filesz phdr) = v mod 4096 + fz"
    unfolding po [symmetric] fz_def by (rule unat_add_lem [THEN iffD1]) (use V(2) bnd po fz_def t_def in simp)
  have msum: "unat (?po + ph_memsz phdr) = t"
    unfolding t_def po [symmetric] ms_def by (rule unat_add_lem [THEN iffD1]) (use bnd po ms_def t_def in simp)
  have ru: "unat (round_up_page (?po + ph_memsz phdr)) = 4096 * n"
    using bnd by (subst round_up_page) (simp_all add: msum n_def t_def)
  let ?rb = "if ph_filesz phdr > 0 then ?po + ph_filesz phdr else 0"
  let ?zb = "if ph_filesz phdr > 0 then round_up_page (?po + ph_memsz phdr) - (?po + ph_filesz phdr) else round_up_page (?po + ph_memsz phdr)"
  have pos: "ph_filesz phdr > 0 \<longleftrightarrow> fz > 0" by (simp add: fz_def word_less_nat_alt)
  have rb: "unat ?rb = R" using pos rsum by (simp add: R_def)
  have Rn: "R \<le> 4096 * n" using n(2) V(2) by (simp add: R_def t_def)
  have zb: "unat ?zb = 4096 * n - R" using pos rsum ru Rn by (auto simp: R_def unat_sub word_le_nat_alt)
  have sum: "unat ?rb + unat ?zb = 4096 * n" unfolding rb zb using Rn by simp
  have n0: "0 < n" using n(2) V(3) by (cases n) (auto simp: t_def)
  have wsum: "?rb + ?zb = round_up_page (?po + ph_memsz phdr)" by simp
  have "round_up_page (?po + ph_memsz phdr) > 0" unfolding word_less_nat_alt ru using n0 by simp
  then have a1: "?rb + ?zb > 0" unfolding wsum .
  have a2: "(?rb + ?zb) mod PAGE32 = 0" unfolding wsum by (simp add: unat_eq_0 [symmetric] unat_mod ru PAGE32_def del: unat_eq_0)
  have ofs: "bits_off (unat (ph_offset phdr AND NOT PGMASK)) = int off - int (off mod 4096)"
    using big by (simp add: page_mask(2) off_def bits_off_def of_nat_diff)
  have o4: "off_bits (int off - int (off mod 4096)) mod PGSIZE = 0"
  proof -
    have "int off - int (off mod 4096) = int (off - off mod 4096)" by (simp add: of_nat_diff)
    moreover have "off - off mod 4096 < 2 ^ 32" using big by simp
    ultimately have "off_bits (int off - int (off mod 4096)) = off - off mod 4096" by (simp add: off_bits_def)
    then show ?thesis by (simp only: B minus_mod_eq_mult_div mod_mult_self1_is_0)
  qed
  have upv: "unat (ph_vaddr phdr AND NOT PGMASK) = up" by (simp add: page_mask up_def v_def)
  have ofs1: "0 \<le> int off - int (off mod 4096)" "int off - int (off mod 4096) + int R < 2 ^ 31"
    using big V(1) by (auto simp: R_def)
  have u0: "0 < up" "pg_ofs up = 0" using V(5) vm bnd(2) unfolding up_def by (auto simp: pg_ofs_def PGBITS_def)
  have "procs ?s (cur ?s) = Some pr" "h_elem_cnt (p_pt_suppl pr) + n < 2 ^ 32" "\<forall>n. mallocs ?s n" "up + 4096 * n \<le> PHYS_BASE"
    using pr tbl(2) n20 m top by (simp_all add: B)
  from load_segment_loop_ok [OF this(1) tbl(1) this(2,3) lk sum u0(1) this(4) ofs1(1) ofs1(2) [folded rb] free, of "file" "ph_flags phdr AND SEG_W \<noteq> 0"]
  obtain s' pr' where s': "load_segment_loop file (int off - int (off mod 4096)) up ?rb ?zb (ph_flags phdr AND SEG_W \<noteq> 0) ?s = Some (True, s')"
    "s' = ?s\<lparr>malloc_no := malloc_no s', procs := (procs ?s)(cur ?s \<mapsto> pr')\<rparr>" "pt_wf (p_pt_suppl pr')"
    "hash_map pt_vaddr (p_pt_suppl pr') =
      seg_pages (seg_page file (cur ?s) (last_map ?s) (int off - int (off mod 4096)) up (unat ?rb) (ph_flags phdr AND SEG_W \<noteq> 0)) up n (hash_map pt_vaddr (p_pt_suppl pr))"
    by blast
  have "load_segment file (int off - int (off mod 4096)) up ?rb ?zb (ph_flags phdr AND SEG_W \<noteq> 0) ?s = Some (True, s')"
    using a1 a2 u0(2) o4 s'(1) unfolding load_segment_def by simp
  moreover have "load_phdr file phdr s = load_segment file (int off - int (off mod 4096)) up ?rb ?zb (ph_flags phdr AND SEG_W \<noteq> 0) ?s"
    using ld val unfolding load_phdr_def with_fs_def Let_def ofs upv by (simp add: PT_LOAD_def PT_DYNAMIC_def PT_INTERP_def PT_SHLIB_def)
  moreover have "procs s' = (procs s)(cur s \<mapsto> pr')" by (subst s'(2)) simp
  ultimately show ?thesis using s'(3,4) unfolding rb by (intro exI [of _ s'] exI [of _ pr']) simp
qed

section \<open>What is pushed\<close>

text \<open>The bytes at the top of the frame \<open>k\<close> of the first page of the stack.\<close>

definition stack_image :: "'a pgs_scheme \<Rightarrow> nat \<Rightarrow> u8 list \<Rightarrow> bool" where
  "stack_image s k img \<longleftrightarrow> (\<forall>i < length img. ram (pal s) (k + (4096 - length img) + i) = img ! i)"

definition pushed :: "nat \<Rightarrow> nat \<Rightarrow> u8 list \<Rightarrow> vms \<Rightarrow> bool" where
  "pushed pd k img s \<longleftrightarrow> maps_to s pd (PHYS_BASE - PGSIZE) k \<and> stack_image s k img"

lemma push_ok:
  assumes p: "pushed pd k img s" and n: "length bs + length img < 4096"
  shows "\<exists>s'. push bs (PHYS_BASE - length img) s = Some (PHYS_BASE - length (bs @ img), s') \<and> pushed pd k (bs @ img) s' \<and> only_memory s s'"
proof -
  define off where "off = 4096 - length (bs @ img)"
  have o: "4096 - length (bs @ img) = off" "4096 - length img = off + length bs" "off + length bs + length img = 4096" using n by (simp_all add: off_def)
  have B: "PHYS_BASE = 3221225472" "PGSIZE = 4096" by (simp_all add: PHYS_BASE_def PGSIZE_def)
  have s: "PHYS_BASE - length img + (2 ^ 32 - length bs) = 2 ^ 32 + (PHYS_BASE - length (bs @ img))" using n by (simp add: B)
  have e: "sz (PHYS_BASE - length img + (2 ^ 32 - length bs)) = PHYS_BASE - length (bs @ img)"
    unfolding sz_def s mod_add_self1 by (simp add: B)
  have a: "PHYS_BASE - length (bs @ img) = PHYS_BASE - PGSIZE + off" using o(3) by (simp add: B)
  obtain s' where s': "store_bytes (PHYS_BASE - PGSIZE + off) bs s = Some s'" "maps_to s' pd (PHYS_BASE - PGSIZE) k" "only_memory s s'"
    and r: "\<And>j. j < 4096 \<Longrightarrow> ram (pal s') (k + j) = (if off \<le> j \<and> j < off + length bs then bs ! (j - off) else ram (pal s) (k + j))"
    using store_bytes_page [of s pd "PHYS_BASE - PGSIZE" k off bs] p o(3) by (auto simp: pushed_def)
  have old: "ram (pal s) (k + (off + length bs + i)) = img ! i" if "i < length img" for i
    using p that by (simp add: pushed_def stack_image_def o(2) add.assoc)
  have "ram (pal s') (k + off + i) = (bs @ img) ! i" if "i < length (bs @ img)" for i
    using r [of "off + i"] old [of "i - length bs"] that o(3) by (cases "i < length bs") (auto simp: nth_append add.assoc)
  then have "stack_image s' k (bs @ img)" unfolding stack_image_def o(1) by blast
  moreover have "PHYS_BASE - PGSIZE < PHYS_BASE - length (bs @ img)" using n by (simp add: B)
  ultimately show ?thesis using s' e unfolding push_def a [symmetric] pushed_def by (intro exI [of _ s']) (simp add: Let_def)
qed

lemma push_args_ok:
  assumes "pushed pd k img s" and "sum_list (map (\<lambda>t. length t + 1) ts) + length img < 4096"
  shows "\<exists>argv s' img'. push_args ts (PHYS_BASE - length img) s = Some (argv, PHYS_BASE - length img', s') \<and> pushed pd k img' s' \<and> only_memory s s' \<and>
    length img' = sum_list (map (\<lambda>t. length t + 1) ts) + length img \<and> length argv = length ts \<and> (\<exists>P. img' = P @ img) \<and>
    (\<forall>i < length ts. \<exists>P Q. img' = P @ (ts ! i @ [0]) @ Q \<and> argv ! i = PHYS_BASE - length ((ts ! i @ [0]) @ Q))"
  using assms
proof (induction ts arbitrary: s img)
  case Nil
  then show ?case by auto
next
  case (Cons t ts)
  obtain s1 where s1: "push (t @ [0]) (PHYS_BASE - length img) s = Some (PHYS_BASE - length ((t @ [0]) @ img), s1)"
      "pushed pd k ((t @ [0]) @ img) s1" "only_memory s s1"
    using push_ok [OF Cons.prems(1), of "t @ [0]"] Cons.prems(2) by auto
  from Cons.IH [OF s1(2)] Cons.prems(2) obtain argv s' img' P where r:
      "push_args ts (PHYS_BASE - length ((t @ [0]) @ img)) s1 = Some (argv, PHYS_BASE - length img', s')" "pushed pd k img' s'" "only_memory s1 s'"
      "length img' = sum_list (map (\<lambda>t. length t + 1) ts) + length ((t @ [0]) @ img)" "length argv = length ts" "img' = P @ (t @ [0]) @ img"
    and a: "\<forall>i < length ts. \<exists>P Q. img' = P @ (ts ! i @ [0]) @ Q \<and> argv ! i = PHYS_BASE - length ((ts ! i @ [0]) @ Q)"
    by (auto simp del: append_assoc)
  let ?argv = "(PHYS_BASE - length ((t @ [0]) @ img)) # argv"
  have "push_args (t # ts) (PHYS_BASE - length img) s = Some (?argv, PHYS_BASE - length img', s')" using s1(1) r(1) by simp
  moreover have "\<exists>P Q. img' = P @ ((t # ts) ! i @ [0]) @ Q \<and> ?argv ! i = PHYS_BASE - length (((t # ts) ! i @ [0]) @ Q)"
    if "i < length (t # ts)" for i
  proof (cases i)
    case 0
    then show ?thesis using r(6) by auto
  next
    case (Suc j)
    then show ?thesis using a that by auto
  qed
  moreover have "\<exists>Q. img' = Q @ img" using r(6) by auto
  ultimately show ?case using r(2,4,5) only_memory_trans [OF s1(3) r(3)]
    by (intro exI [of _ ?argv] exI [of _ s'] exI [of _ img']) simp
qed

lemma pad_exists: "\<exists>n \<le> 3. (l + n) mod 4 = 0 \<and> (\<forall>m < n. (l + m) mod 4 \<noteq> (0 :: nat))"
proof -
  have e: "(l + m) mod 4 = (l mod 4 + m) mod 4" for m by (simp add: mod_add_left_eq)
  have "l mod 4 = 0 \<or> l mod 4 = 1 \<or> l mod 4 = 2 \<or> l mod 4 = 3" by linarith
  then show ?thesis
  proof (elim disjE)
    assume "l mod 4 = 0"
    then show ?thesis unfolding e by (intro exI [of _ 0]) simp
  next
    assume "l mod 4 = 1"
    then show ?thesis unfolding e by (intro exI [of _ 3]) simp
  next
    assume "l mod 4 = 2"
    then show ?thesis unfolding e by (intro exI [of _ 2]) simp
  next
    assume "l mod 4 = 3"
    then show ?thesis unfolding e by (intro exI [of _ 1]) simp
  qed
qed

lemma push_align_ok:
  assumes "pushed pd k img s" and "length img + 3 < 4096"
  shows "\<exists>s' n. push_align (PHYS_BASE - length img) s = Some (PHYS_BASE - length (replicate n 0 @ img), s') \<and> pushed pd k (replicate n 0 @ img) s' \<and>
    only_memory s s' \<and> n \<le> 3 \<and> (length (replicate n 0 @ img)) mod 4 = 0"
proof -
  have B: "PHYS_BASE = 3221225472" by (simp add: PHYS_BASE_def)
  have "\<exists>s'. push_align (PHYS_BASE - length img) s = Some (PHYS_BASE - length (replicate n 0 @ img), s') \<and> pushed pd k (replicate n 0 @ img) s' \<and> only_memory s s'"
    if "n \<le> 3" "(length img + n) mod 4 = 0" "\<forall>m < n. (length img + m) mod 4 \<noteq> 0" "pushed pd k img s" "length img + n < 4096" for n and img :: "u8 list" and s
    using that
  proof (induction n arbitrary: img s)
    case 0
    then have "(PHYS_BASE - length img) mod 4 = 0" unfolding B by presburger
    then show ?case using 0 by (subst push_align.simps) simp
  next
    case (Suc n)
    have "length img mod 4 \<noteq> 0" using Suc.prems(3) by (metis add.right_neutral zero_less_Suc)
    moreover have "length img < 4096" using Suc.prems(5) by simp
    ultimately have ne: "(PHYS_BASE - length img) mod 4 \<noteq> 0" unfolding B by presburger
    obtain s1 where s1: "push [0] (PHYS_BASE - length img) s = Some (PHYS_BASE - length ([0] @ img), s1)" "pushed pd k ([0] @ img) s1" "only_memory s s1"
      using push_ok [OF Suc.prems(4), of "[0]"] Suc.prems(5) by auto
    have "(length ([0] @ img) + m) mod 4 \<noteq> 0" if "m < n" for m using Suc.prems(3) [rule_format, of "Suc m"] that by simp
    with Suc.IH [OF _ _ _ s1(2)] Suc.prems obtain s' where
      s': "push_align (PHYS_BASE - length ([0] @ img)) s1 = Some (PHYS_BASE - length (replicate n 0 @ [0] @ img), s')" "pushed pd k (replicate n 0 @ [0] @ img) s'" "only_memory s1 s'"
      by auto
    have z: "replicate (Suc n) 0 @ img = replicate n 0 @ [0] @ img" by (simp add: replicate_app_Cons_same)
    have "push_align (PHYS_BASE - length img) s = push_align (PHYS_BASE - length ([0] @ img)) s1"
      unfolding push_align.simps [of "PHYS_BASE - length img" s] if_P [OF ne] s1(1) by simp
    then show ?case unfolding z using s' only_memory_trans [OF s1(3) s'(3)] by (intro exI [of _ s']) simp
  qed
  note step = this
  obtain n where n: "n \<le> 3" "(length img + n) mod 4 = 0" "\<forall>m < n. (length img + m) mod 4 \<noteq> 0"
    using pad_exists [of "length img"] by (elim exE conjE) (rule that)
  have l: "length (replicate n 0 @ img) mod 4 = 0" using n(2) by (simp add: add.commute)
  have "length img + n < 4096" using n(1) assms(2) by simp
  from step [OF n assms(1) this] obtain s' where "push_align (PHYS_BASE - length img) s = Some (PHYS_BASE - length (replicate n 0 @ img), s')"
    "pushed pd k (replicate n 0 @ img) s'" "only_memory s s'" by (elim exE conjE)
  then show ?thesis using n(1) l by (intro exI [of _ s'] exI [of _ n]) simp
qed

lemma push_words_ok:
  assumes "pushed pd k img s" and "4 * length ws + length img < 4096"
  shows "\<exists>s'. push_words ws (PHYS_BASE - length img) s = Some (PHYS_BASE - length (concat (map u32_bytes (rev ws)) @ img), s') \<and>
    pushed pd k (concat (map u32_bytes (rev ws)) @ img) s' \<and> only_memory s s'"
  using assms
proof (induction ws arbitrary: s img)
  case Nil
  then show ?case by simp
next
  case (Cons w ws)
  have l: "length (u32_bytes w) = 4" by (simp add: u32_bytes_def)
  obtain s1 where s1: "push (u32_bytes w) (PHYS_BASE - length img) s = Some (PHYS_BASE - length (u32_bytes w @ img), s1)"
      "pushed pd k (u32_bytes w @ img) s1" "only_memory s s1"
    using push_ok [OF Cons.prems(1), of "u32_bytes w"] Cons.prems(2) l by auto
  have "4 * length ws + length (u32_bytes w @ img) < 4096" using Cons.prems(2) l by simp
  from Cons.IH [OF s1(2) this] obtain s' where "push_words ws (PHYS_BASE - length (u32_bytes w @ img)) s1 =
      Some (PHYS_BASE - length (concat (map u32_bytes (rev ws)) @ u32_bytes w @ img), s')"
      "pushed pd k (concat (map u32_bytes (rev ws)) @ u32_bytes w @ img) s'" "only_memory s1 s'" by blast
  then show ?case using s1 only_memory_trans [OF s1(3)] by simp
qed

lemma set_page_maps:
  assumes ok: "pd_ok pd s" and c: "cr3 s = pd - PHYS_BASE" and va: "is_user_vaddr va" "pg_ofs va = 0"
    and k: "kernel_page k" "(k - PHYS_BASE) div 2 ^ 12 < init_ram_pages s" "page_range k 1 \<subseteq> in_use (pal s)"
    and apart: "\<forall>q \<in> pd_pages s pd. page_range q 1 \<inter> page_range k 1 = {}"
    and pd: "pd \<noteq> init_page_dir s" and free: "entry s pd (va div 2 ^ 12) AND PTE_P = 0"
    and pt: "tab s pd (pd_no va) \<noteq> None \<or>
      (\<exists>i < bit_cnt (used_map (kernel_pool (pal s))). i \<notin> bitmap_used (used_map (kernel_pool (pal s))))"
  shows "\<exists>s'. pagedir_set_page pd va k True s = Some (True, s') \<and> maps_to s' pd va k \<and> only_memory s s'"
proof -
  have vi: "pd_no va < pd_no PHYS_BASE" using user_index [OF va(1)] by simp
  have z: "PAL_ZERO AND PAL_USER = 0" by (simp add: PAL_ZERO_def PAL_USER_def)
  have "lookup_page pd va True s \<noteq> Some (None, s)"
  proof (cases "tab s pd (pd_no va)")
    case None
    then have w0: "word_at s (pd + 4 * pd_no va) = 0" using pd_okD(7) [OF ok vi] by simp
    show ?thesis
    proof (cases rule: palloc_get_ok [OF pd_okD(1) [OF ok] zero_less_one, of PAL_ZERO])
      case (1 a p)
      then show ?thesis using w0 by (auto simp: lookup_page_def palloc_get_page_def bind_eq_Some_iff)
    next
      case 2
      then show ?thesis using pt None z by (auto simp: get_pool_def)
    qed
  next
    case (Some q)
    then show ?thesis using pd_okD(6) [OF ok vi Some] pde_of_get [of q] pd_okD(4) [OF ok] va(1) by (simp add: lookup_page_def)
  qed
  then obtain q s1 where s1: "lookup_page pd va True s = Some (Some (q + 4 * pt_no va), s1)" "pd_ok pd s1" "tab s1 pd (pd_no va) = Some q"
      "\<And>n. user_page_no n \<Longrightarrow> entry s1 pd n = entry s pd n" "cr3 s1 = cr3 s"
    and tabs: "\<And>j q. j < pd_no PHYS_BASE \<Longrightarrow> tab s1 pd j = Some q \<Longrightarrow> tab s pd j = Some q \<or> page_range q 1 \<inter> in_use (pal s) = {}"
    using lookup_page_create_tabs [OF ok va(1)] by auto
  obtain w where w: "pte_create_user k True = Some w" "pte_get_page w = Some k" "w AND PTE_P \<noteq> 0" "w AND PTE_W \<noteq> 0"
    using pte_of_user [OF k(1), of True] by blast
  let ?s = "store_word (q + 4 * pt_no va) w s1"
  have "word_at s1 (q + 4 * pt_no va) AND PTE_P = 0"
    using s1(3) s1(4) [OF user_page_no_va [OF va(1)]] free unfolding entry_va [of s1] by simp
  moreover have "vtop k = Some (k - PHYS_BASE)" using k(1) by (simp add: vtop_def kernel_page_def is_kernel_vaddr_def)
  ultimately have set: "pagedir_set_page pd va k True s = Some (True, ?s)"
    using s1(1) k(1,2) va pd w(1) by (simp add: pagedir_set_page_def kernel_page_def)
  have P: "pds_ok s1 {pd}" using s1(2) by (simp add: pds_ok_def)
  have s2: "pd_ok pd ?s" "entry ?s pd (va div 2 ^ 12) = w"
    using pds_store [OF P _ va(1) s1(3), where w = w] user_page_no_va [OF va(1)] by (simp_all add: pds_ok_def)
  have "tab ?s pd j = tab s1 pd j" if "j < pd_no PHYS_BASE" for j
    using pd_okD(6) [OF s1(2) vi s1(3)] pd_okD(2) [OF ok] that by (subst tab_store_other(2)) (auto simp: pt_no_def)
  then have "page_range x 1 \<inter> page_range k 1 = {}" if "x \<in> pd_pages ?s pd" for x
    using that apart tabs k(3) by (fastforce simp: pd_pages_def)
  then have "maps_to ?s pd va k" using s2 va k(1) c s1(5) w(2-4) by (simp add: maps_to_def)
  then show ?thesis using set set_page_rest [OF set] by blast
qed

lemma kernel_pool_untouched: "flags AND PAL_USER \<noteq> 0 \<Longrightarrow> palloc_get_multiple flags n s = Some (r, s') \<Longrightarrow> kernel_pool s' = kernel_pool s"
  by (auto simp: palloc_get_multiple_def set_pool_def fill_def Let_def bind_eq_Some_iff split: if_splits)

text \<open>A fresh frame of the user pool mapped at a page that is not present.\<close>

lemma alloc_and_map:
  assumes ok: "frames_ok s" and m: "\<forall>n. mallocs s n" and u: "flags AND PAL_USER \<noteq> 0"
    and free: "\<exists>i < bit_cnt (used_map (user_pool (pal s))). i \<notin> bitmap_used (used_map (user_pool (pal s)))"
    and pd: "pd_ok pd s" "cr3 s = pd - PHYS_BASE" "pd \<noteq> init_page_dir s"
    and top: "pool_end (user_pool (pal s)) \<le> PHYS_BASE + init_ram_pages s * 2 ^ 12"
    and va: "is_user_vaddr va" "pg_ofs va = 0" and un: "entry s pd (va div 2 ^ 12) AND PTE_P = 0"
    and pt: "tab s pd (pd_no va) \<noteq> None \<or>
      (\<exists>i < bit_cnt (used_map (kernel_pool (pal s))). i \<notin> bitmap_used (used_map (kernel_pool (pal s))))"
  shows "\<exists>k s1 s2. vm_frame_alloc fmw flags va s = Some (k, s1) \<and> pagedir_get_page pd va s1 = Some None \<and>
    pagedir_set_page pd va k True s1 = Some (True, s2) \<and> maps_to s2 pd va k \<and> procs s1 = procs s \<and> cur s1 = cur s \<and> mallocs s1 = mallocs s \<and>
    only_memory s1 s2 \<and> vm_fs s1 = vm_fs s"
proof -
  have pk: "palloc_ok (pal s)" using ok by (simp add: frames_ok_def)
  obtain k p where p: "palloc_get_page flags (pal s) = Some (Some k, p)"
    by (cases rule: palloc_get_ok [OF pk zero_less_one, of flags])
      (use free u in \<open>auto simp: palloc_get_page_def get_pool_def\<close>)
  note a = palloc_get_Some [OF pk zero_less_one p [unfolded palloc_get_page_def]]
  obtain s1 where s1: "vm_frame_alloc fmw flags va s = Some (k, s1)" "pal s1 = p" "user_frame k p"
      "s1 = s\<lparr>pal := p, malloc_no := malloc_no s1, frame_hash := frame_hash s1\<rparr>"
    using vm_frame_alloc_ok [OF ok u _ p, of fmw va] m by blast
  have r1: "cr3 s1 = cr3 s" "procs s1 = procs s" "cur s1 = cur s" "init_page_dir s1 = init_page_dir s" "init_ram_pages s1 = init_ram_pages s" "mallocs s1 = mallocs s"
    "vm_fs s1 = vm_fs s"
    by (subst s1(4), simp)+
  have kp: "kernel_pool p = kernel_pool (pal s)" using kernel_pool_untouched [OF u] p by (simp add: palloc_get_page_def)
  have "pool_end (user_pool p) = pool_end (user_pool (pal s))" using a(9) [of True] by (simp add: get_pool_def)
  then have top1: "pool_end (user_pool p) \<le> PHYS_BASE + init_ram_pages s * 2 ^ 12" using top by simp
  have out: "x \<notin> page_range k 1" if "q \<in> pd_pages s pd" "x \<in> page_range q 1" for q x
    using pd_pages_in_use [OF pd(1) that(1)] that(2) a(4) by blast
  have c: "pd_ok pd s1" "\<And>j. j < pd_no PHYS_BASE \<Longrightarrow> tab s1 pd j = tab s pd j" "\<And>n. user_page_no n \<Longrightarrow> entry s1 pd n = entry s pd n"
    by (rule pd_ok_cong [OF pd(1)]; use a(1,5) kp a(7) out in \<open>simp add: s1(2)\<close>)+
  have k: "kernel_page k" "page_range k 1 \<subseteq> in_use (pal s1)" "k \<in> page_range k 1" using s1(2,3) by (simp_all add: user_frame_def page_range_def)
  have "k < PHYS_BASE + init_ram_pages s * 2 ^ 12" using s1(3) k(3) top1 by (auto simp: user_frame_def)
  then have "k - PHYS_BASE < init_ram_pages s * 2 ^ 12" using k(1) unfolding kernel_page_def by linarith
  then have room: "(k - PHYS_BASE) div 2 ^ 12 < init_ram_pages s1" unfolding r1(5) by (rule less_mult_imp_div_less)
  have vi: "pd_no va < pd_no PHYS_BASE" using user_index [OF va(1)] by simp
  have un1: "entry s1 pd (va div 2 ^ 12) AND PTE_P = 0" using un c(3) [OF user_page_no_va [OF va(1)]] by simp
  have "pd_pages s1 pd = pd_pages s pd" using c(2) by (auto simp: pd_pages_def)
  then have "\<forall>q \<in> pd_pages s1 pd. page_range q 1 \<inter> page_range k 1 = {}" using out by blast
  moreover have "tab s1 pd (pd_no va) \<noteq> None \<or>
      (\<exists>i < bit_cnt (used_map (kernel_pool (pal s1))). i \<notin> bitmap_used (used_map (kernel_pool (pal s1))))"
    using pt c(2) [OF vi] kp s1(2) by simp
  ultimately obtain s2 where "pagedir_set_page pd va k True s1 = Some (True, s2)" "maps_to s2 pd va k" "only_memory s1 s2"
    using set_page_maps [OF c(1) _ va k(1) room k(2) _ _ un1] r1 pd(2,3) by auto
  moreover have "pagedir_get_page pd va s1 = Some None" using un1 unfolding get_page_entry [OF c(1) va(1)] by (simp add: Let_def)
  ultimately show ?thesis using s1(1) r1 by blast
qed

section \<open>Properties\<close>

text \<open>
  C13: the arguments a program finds on its stack. When the words of the command line fit in a page with the vector of their addresses
  and there is memory, \<^verbatim>\<open>setup_stack\<close> succeeds, and the memory of the process from the stack pointer up to the top of user
  memory holds: a return address of 0, the number of arguments, the address of the vector right behind, the vector, with the
  addresses of the words in order and a null pointer after them, and, where these addresses point to, each word with its terminating
  null byte. The stack pointer is a multiple of 4.
\<close>

theorem setup_stack_layout:
  assumes ok: "frames_ok s" and m: "\<forall>n. mallocs s n"
    and free: "\<exists>i < bit_cnt (used_map (user_pool (pal s))). i \<notin> bitmap_used (used_map (user_pool (pal s)))"
    and pr: "procs s (cur s) = Some pr" and pd: "p_pagedir pr = pd" "pd_ok pd s" "cr3 s = pd - PHYS_BASE" "pd \<noteq> init_page_dir s"
    and top: "pool_end (user_pool (pal s)) \<le> PHYS_BASE + init_ram_pages s * 2 ^ 12"
    and un: "pagedir_get_page pd (PHYS_BASE - PGSIZE) s = Some None"
    and pt: "tab s pd (pd_no (PHYS_BASE - PGSIZE)) \<noteq> None \<or>
      (\<exists>i < bit_cnt (used_map (kernel_pool (pal s))). i \<notin> bitmap_used (used_map (kernel_pool (pal s))))"
    and ts: "ts = tokens [BLANK] args" "length ts \<le> ARGS_MAX"
    and fit: "sum_list (map (\<lambda>t. length t + 1) ts) + 4 * length ts + 20 \<le> PGSIZE"
  shows "\<exists>s' esp argv img. setup_stack fmw args s = Some (Some esp, s') \<and> length img = PHYS_BASE - esp \<and> esp < PHYS_BASE \<and> esp mod 4 = 0 \<and>
    (\<forall>i < length img. \<exists>a. pagedir_get_page pd (esp + i) s' = Some (Some a) \<and> ram (pal s') a = img ! i) \<and>
    take (4 * (length ts + 4)) img = concat (map u32_bytes ([0, length ts, esp + 12] @ argv @ [0])) \<and> length argv = length ts \<and>
    (\<forall>i < length ts. esp \<le> argv ! i \<and> take (length (ts ! i) + 1) (drop (argv ! i - esp) img) = ts ! i @ [0])"
proof -
  let ?base = "PHYS_BASE - PGSIZE"
  have B: "PHYS_BASE = 3221225472" "PGSIZE = 4096" by (simp_all add: PHYS_BASE_def PGSIZE_def)
  have va: "is_user_vaddr ?base" "pg_ofs ?base = 0" by (simp_all add: B is_user_vaddr_def pg_ofs_def PGBITS_def)
  have un0: "entry s pd (?base div 2 ^ 12) AND PTE_P = 0"
    using un unfolding get_page_entry [OF pd(2) va(1)] by (auto simp: Let_def split: if_splits)
  have fl: "(PAL_USER OR PAL_ZERO) AND PAL_USER \<noteq> 0" by (simp add: PAL_USER_def PAL_ZERO_def)
  obtain k s1 s2 where 1: "vm_frame_alloc fmw (PAL_USER OR PAL_ZERO) ?base s = Some (k, s1)" "pagedir_get_page pd ?base s1 = Some None"
      "pagedir_set_page pd ?base k True s1 = Some (True, s2)" "maps_to s2 pd ?base k" "procs s1 = procs s" "cur s1 = cur s" "mallocs s1 = mallocs s" "only_memory s1 s2"
    using alloc_and_map [OF ok m fl free pd(2-4) top va un0 pt] by blast
  have 2: "install_page ?base k True s1 = Some (True, s2)" using 1(2,3,5,6) pr pd(1) by (simp add: install_page_def current_proc_def)
  let ?s3 = "s2\<lparr>malloc_no := malloc_no s2 + 2\<rparr>"
  have "maps_to ?s3 pd ?base k" by (rule maps_to_pal [OF 1(4)]) simp_all
  then have "pushed pd k [] ?s3" by (simp add: pushed_def stack_image_def)
  then have p3: "pushed pd k [] ?s3" .
  obtain argv s4 I where 4: "push_args ts PHYS_BASE ?s3 = Some (argv, PHYS_BASE - length I, s4)" "pushed pd k I s4"
      "length I = sum_list (map (\<lambda>t. length t + 1) ts)" "length argv = length ts"
    and at: "\<And>i. i < length ts \<Longrightarrow> \<exists>P Q. I = P @ (ts ! i @ [0]) @ Q \<and> argv ! i = PHYS_BASE - length ((ts ! i @ [0]) @ Q)"
    using push_args_ok [OF p3, of ts] fit B by auto
  have "length I + 3 < 4096" using 4(3) fit B by simp
  from push_align_ok [OF 4(2) this] obtain s5 z where 5: "push_align (PHYS_BASE - length I) s4 = Some (PHYS_BASE - length (replicate z 0 @ I), s5)"
      "pushed pd k (replicate z 0 @ I) s5" "z \<le> 3" "length (replicate z 0 @ I) mod 4 = 0" by (elim exE conjE) (rule that)
  let ?J = "replicate z 0 @ I" and ?V = "concat (map u32_bytes (argv @ [0]))"
  have u4: "length (concat (map u32_bytes ws)) = 4 * length ws" for ws by (induction ws) (simp_all add: u32_bytes_def)
  have "4 * length (rev (argv @ [0])) + length ?J < 4096" using 4(3,4) 5(3) fit B by simp
  from push_words_ok [OF 5(2) this] obtain s6 where 6: "push_words (rev (argv @ [0])) (PHYS_BASE - length ?J) s5 = Some (PHYS_BASE - length (?V @ ?J), s6)"
      "pushed pd k (?V @ ?J) s6" by auto
  let ?e = "PHYS_BASE - length (?V @ ?J)" and ?n = "length ts"
  let ?W = "concat (map u32_bytes [0, ?n, ?e])"
  have "4 * length [?e, ?n, 0] + length (?V @ ?J) < 4096" using 4(3,4) 5(3) fit B u4 [of "argv @ [0]"] by simp
  from push_words_ok [OF 6(2) this] obtain s7 where 7: "push_words [?e, ?n, 0] ?e s6 = Some (PHYS_BASE - length (?W @ ?V @ ?J), s7)"
      "pushed pd k (?W @ ?V @ ?J) s7" by auto
  let ?img = "?W @ ?V @ ?J"
  define esp where "esp = PHYS_BASE - length ?img"
  have len: "length ?img = 4 * (?n + 4) + length ?J" using u4 [of "[0, ?n, ?e]"] u4 [of "argv @ [0]"] 4(4) by simp
  have small: "length ?img < 4096" using len 4(3) 5(3) fit B by simp
  have e12: "?e = esp + 12" using small u4 [of "[0, ?n, ?e]"] unfolding esp_def by (simp add: B)
  have res: "setup_stack fmw args s = Some (Some esp, s7)"
    using 1(1,7,8) 2 m ts 4(1) 5(1) 6(1) 7(1) only_memoryD(6,7) [OF 1(8)] unfolding esp_def
    by (simp add: setup_stack_def vm_malloc_def Let_def del: push_words.simps)
  have mp: "maps_to s7 pd ?base k" and im: "stack_image s7 k ?img" using 7(2) by (simp_all add: pushed_def)
  have mem: "\<exists>a. pagedir_get_page pd (esp + i) s7 = Some (Some a) \<and> ram (pal s7) a = ?img ! i" if i: "i < length ?img" for i
  proof -
    have "esp + i = ?base + (4096 - length ?img + i)" "4096 - length ?img + i < 4096" using small i unfolding esp_def by (simp_all add: B)
    then show ?thesis using maps_to_get [OF mp, of "4096 - length ?img + i"] im i by (simp add: stack_image_def add.assoc)
  qed
  have vec: "take (4 * (?n + 4)) ?img = concat (map u32_bytes ([0, ?n, esp + 12] @ argv @ [0]))"
    using u4 [of "[0, ?n, ?e] @ argv @ [0]"] 4(4) e12 by simp
  have strs: "esp \<le> argv ! i \<and> take (length (ts ! i) + 1) (drop (argv ! i - esp) ?img) = ts ! i @ [0]" if i: "i < ?n" for i
  proof -
    obtain P Q where PQ: "I = P @ (ts ! i @ [0]) @ Q" "argv ! i = PHYS_BASE - length ((ts ! i @ [0]) @ Q)" using at [OF i] by blast
    let ?X = "?W @ ?V @ replicate z 0 @ P"
    have img: "?img = ?X @ (ts ! i @ [0]) @ Q" using PQ(1) by simp
    have l: "length ?X + length ((ts ! i @ [0]) @ Q) < 4096" "length ?img = length ?X + length ((ts ! i @ [0]) @ Q)"
      using small unfolding img by simp_all
    have "argv ! i = esp + length ?X" unfolding PQ(2) esp_def l(2) using l(1) B by linarith
    then show ?thesis unfolding img by simp
  qed
  have "esp mod 4 = 0"
  proof -
    have "length ?img mod 4 = 0" using len 5(4) by presburger
    moreover have "length ?img \<le> PHYS_BASE" using small by (simp add: B)
    ultimately show ?thesis unfolding esp_def B by presburger
  qed
  moreover have "length ?img = PHYS_BASE - esp" "esp < PHYS_BASE" using small len unfolding esp_def by (simp_all add: B)
  ultimately show ?thesis using res mem vec strs 4(4)
    by (intro exI [of _ s7] exI [of _ esp] exI [of _ argv] exI [of _ ?img]) blast
qed

text \<open>
  C14: a segment of a program is loaded as its header says. When a header passes \<^verbatim>\<open>validate_segment\<close>, no page of the segment has an entry
  yet and there is memory, no assertion of \<^verbatim>\<open>load_segment\<close> fails, its loop ends, and afterwards every address of the
  segment lies on a page with an entry that reads the byte from its place in the file if it is one of the first
  \<^verbatim>\<open>p_filesz\<close>, and leaves it zero otherwise; the entry is writable as the header says. No other page is entered or changed.
\<close>

theorem load_phdr_segment:
  fixes phdr
  defines "v \<equiv> unat (ph_vaddr phdr)" and "ms \<equiv> unat (ph_memsz phdr)" and "fz \<equiv> unat (ph_filesz phdr)" and "off \<equiv> unat (ph_offset phdr)"
  assumes pr: "procs s (cur s) = Some pr" and tbl: "pt_wf (p_pt_suppl pr)" "h_elem_cnt (p_pt_suppl pr) + 2 ^ 20 < 2 ^ 32" and m: "\<forall>n. mallocs s n"
    and lk: "\<not> p_pt_suppl_lock pr" and ld: "ph_type phdr = PT_LOAD" and val: "validate_segment phdr file (fs (vm_fs s)) = Some (True, f)"
    and big: "off + fz < 2 ^ 31" and free: "\<forall>x. v \<le> x \<and> x < v + ms \<longrightarrow> hash_map pt_vaddr (p_pt_suppl pr) (pg_round_down x) = None"
  shows "\<exists>s' pr'. load_phdr file phdr s = Some (True, s') \<and> procs s' = (procs s)(cur s \<mapsto> pr') \<and>
    (\<forall>x. v \<le> x \<and> x < v + ms \<longrightarrow> (\<exists>e info. hash_map pt_vaddr (p_pt_suppl pr') (pg_round_down x) = Some e \<and> pt_status e = LAZY_UNLOADED \<and>
       pt_file_info e = Some info \<and> fi_file info = file \<and> fi_writable info = (ph_flags phdr AND SEG_W \<noteq> 0) \<and> fi_read_bytes info + fi_zero_bytes info = PGSIZE \<and>
       (if x < v + fz then x - pg_round_down x < fi_read_bytes info \<and> fi_offset info + int (x - pg_round_down x) = int off + int (x - v)
        else fi_read_bytes info \<le> x - pg_round_down x))) \<and>
    (\<forall>a. a \<notin> pg_round_down ` {v..<v + ms} \<longrightarrow> hash_map pt_vaddr (p_pt_suppl pr') a = hash_map pt_vaddr (p_pt_suppl pr) a)"
proof -
  define up n R where "up = v - v mod 4096" and "n = (v mod 4096 + ms + 4095) div 4096" and "R = (if fz > 0 then v mod 4096 + fz else 0)"
  note V = validate_segment_True [OF val, folded v_def ms_def fz_def off_def]
  have n: "4096 * n < v mod 4096 + ms + 4096" "v mod 4096 + ms \<le> 4096 * n" unfolding n_def using page_ceiling by simp_all
  have v: "v = up + v mod 4096" "v mod 4096 < 4096" "4096 dvd up" unfolding up_def by (simp_all add: minus_mod_eq_mult_div)
  have rd: "pg_round_down x = up + 4096 * ((x - up) div 4096)" if "up \<le> x" for x
  proof -
    obtain b where b: "up = 4096 * b" using v(3) by (elim dvdE)
    have "x = 4096 * b + (x - up)" using that b by simp
    then have "x div 4096 = b + (x - up) div 4096" by (metis div_mult_self4 zero_neq_numeral)
    then show ?thesis by (simp add: pg_round_down_def PGBITS_def b minus_mod_eq_mult_div)
  qed
  have idx: "(x - up) div 4096 < n" if "v \<le> x" "x < v + ms" for x using that v(1) n(2) by (simp add: less_mult_imp_div_less)
  have pages: "\<exists>x. v \<le> x \<and> x < v + ms \<and> pg_round_down x = up + 4096 * i" if "i < n" for i
  proof -
    let ?x = "max v (up + 4096 * i)"
    have "4096 * i + 4096 \<le> 4096 * n" using that by simp
    then have "up + 4096 * i < v + ms" using n(1) v(1) by linarith
    then have "v \<le> ?x" "?x < v + ms" using V(3) by auto
    moreover have "pg_round_down ?x = up + 4096 * i"
    proof (cases "v \<le> up + 4096 * i")
      case True
      then show ?thesis using rd [of "up + 4096 * i"] by (simp add: max_def)
    next
      case False
      then have "i = 0" "?x = v" using v(1,2) by (cases i; simp)+
      moreover have "(v - up) div 4096 = 0" using v(1,2) by simp
      ultimately show ?thesis using rd [of v] v(1) by simp
    qed
    ultimately show ?thesis by blast
  qed
  have "hash_map pt_vaddr (p_pt_suppl pr) (up + 4096 * i) = None" if "i < n" for i using pages [OF that] free by metis
  then have fr: "\<forall>i < n. hash_map pt_vaddr (p_pt_suppl pr) (up + 4096 * i) = None" by blast
  let ?f = "seg_page file (cur s) (last_map s) (int off - int (off mod 4096)) up R (ph_flags phdr AND SEG_W \<noteq> 0)"
  obtain s' pr' where s': "load_phdr file phdr s = Some (True, s')" "procs s' = (procs s)(cur s \<mapsto> pr')"
      "hash_map pt_vaddr (p_pt_suppl pr') = seg_pages ?f up n (hash_map pt_vaddr (p_pt_suppl pr))"
    using load_phdr_pages [OF pr tbl m lk ld val big [unfolded off_def fz_def]] fr unfolding up_def n_def R_def v_def ms_def fz_def off_def by blast
  have "\<exists>e info. hash_map pt_vaddr (p_pt_suppl pr') (pg_round_down x) = Some e \<and> pt_status e = LAZY_UNLOADED \<and>
       pt_file_info e = Some info \<and> fi_file info = file \<and> fi_writable info = (ph_flags phdr AND SEG_W \<noteq> 0) \<and> fi_read_bytes info + fi_zero_bytes info = PGSIZE \<and>
       (if x < v + fz then x - pg_round_down x < fi_read_bytes info \<and> fi_offset info + int (x - pg_round_down x) = int off + int (x - v)
        else fi_read_bytes info \<le> x - pg_round_down x)" if x: "v \<le> x" "x < v + ms" for x
  proof -
    define i r where "i = (x - up) div 4096" and "r = (x - up) mod 4096"
    have ux: "up \<le> x" using x v(1) by simp
    have X: "x = up + 4096 * i + r" "r < 4096" using ux unfolding i_def r_def by simp_all
    have px: "pg_round_down x = up + 4096 * i" using rd [OF ux] by (simp add: i_def)
    have "hash_map pt_vaddr (p_pt_suppl pr') (up + 4096 * i) = Some (?f i)" using idx [OF x] by (simp add: s'(3) seg_pages_def i_def)
    moreover have "off = off - off mod 4096 + v mod 4096" using V(1) by (metis le_add_diff_inverse2 mod_less_eq_dividend)
    then have "int off - int (off mod 4096) + int (min R (4096 * i)) + int r = int off + int (x - v)" if "x < v + fz"
      using that x v(1) X(1) V(1) by (auto simp: R_def of_nat_diff)
    moreover have "r < min 4096 (R - 4096 * i)" if "x < v + fz" using that x v(1) X by (auto simp: R_def)
    moreover have "min 4096 (R - 4096 * i) \<le> r" if "\<not> x < v + fz" using that v(1) X(1) by (auto simp: R_def)
    ultimately show ?thesis unfolding px by (auto simp: seg_page_def file_entry_def X(1) PGSIZE_def)
  qed
  moreover have "hash_map pt_vaddr (p_pt_suppl pr') a = hash_map pt_vaddr (p_pt_suppl pr) a" if "a \<notin> pg_round_down ` {v..<v + ms}" for a
  proof -
    have "\<not> (up \<le> a \<and> a < up + 4096 * n \<and> (a - up) mod 4096 = 0)"
    proof
      assume a: "up \<le> a \<and> a < up + 4096 * n \<and> (a - up) mod 4096 = 0"
      then have "a = up + 4096 * ((a - up) div 4096)" "(a - up) div 4096 < n" by (auto simp: less_mult_imp_div_less)
      then obtain x where "v \<le> x" "x < v + ms" "a = pg_round_down x" using pages by metis
      then show False using that by auto
    qed
    then show ?thesis unfolding s'(3) seg_pages_def by (rule if_not_P)
  qed
  ultimately show ?thesis using s'(1,2) by blast
qed

section \<open>A machine on which they apply\<close>

lemma inode_length_ok:
  assumes "good_file p d s"
  shows "\<exists>s'. inode_length p s = Some (d_length d, s')"
proof -
  obtain i where g: "fs_ok s" "p \<in> set (open_inodes s)" "inodes s p = Some i" "d = disk_of_bytes (fs_view s (i_sector i))"
      "file_ok (fs_view s) (fs_cap s) (i_sector i) d" using assms by (auto simp: good_file_def)
  let ?i = "i\<lparr>i_data := Some d, logical_length := d_length d, access_count := 1\<rparr>"
  have idle: "inode_idle (fs_view s) (fs_cap s) i" using tab_ok_idle [OF g(1,2) _ g(3)] by simp
  obtain s1 where s1: "inode_load_disk p s = Some s1" "busy p ?i d s1" "same_disk (bc s) (bc s1)" using load_busy [OF g] by blast
  have "d = disk_of_bytes (fs_view s1 (i_sector ?i))" using s1(3) g(4,5) idle by (simp add: same_disk_def inode_idle_def)
  with release_busy [OF s1(2)] idle obtain s' where "inode_release_disk p s1 = Some s'" by (auto simp: inode_idle_def)
  moreover have "get_data p s1 = Some d" using s1(2) by (simp add: busy_def get_data_def)
  ultimately show ?thesis using s1(1) by (simp add: inode_length_def)
qed

definition demo_phdr :: Elf32_Phdr where
  "demo_phdr = \<lparr>ph_type = PT_LOAD, ph_offset = 0x74, ph_vaddr = 0x8048074, ph_paddr = 0x8048074, ph_filesz = 800, ph_memsz = 5000, ph_flags = 5, ph_align = 0x1000\<rparr>"

definition demo_prog :: "bcache \<Rightarrow> vms" where
  "demo_prog b = demo_vms\<lparr>vm_fs := demo_fds ((demo_fs b)\<lparr>files := [7 \<mapsto> \<lparr>f_inode = 1, f_pos = 0, f_deny_write = False, f_memory_mapped = False\<rparr>]\<rparr>)\<rparr>"

theorem load_phdr_witness:
  "\<exists>b s' pr e info. load_phdr 7 demo_phdr (demo_prog b) = Some (True, s') \<and> procs s' 1 = Some pr \<and>
     hash_map pt_vaddr (p_pt_suppl pr) 0x8048000 = Some e \<and> pt_file_info e = Some info \<and> fi_file info = 7 \<and>
     fi_offset info + 0x100 = 0x100 \<and> fi_writable info = False"
proof -
  obtain b where g: "good_file 1 demo_inode (demo_fs b)" using demo_good by blast
  let ?f = "(demo_fs b)\<lparr>files := [7 \<mapsto> \<lparr>f_inode = 1, f_pos = 0, f_deny_write = False, f_memory_mapped = False\<rparr>]\<rparr>"
  let ?pr = "\<lparr>p_tid = 1, p_pagedir = 0xC0100000, p_run_file = 0, p_pt_suppl = no_entries, p_pt_suppl_lock = False\<rparr>"
  have "good_file 1 demo_inode ?f" using g by (simp add: good_file_def tab_ok_def demo_fs_def open_sectors_def)
  then obtain f where "inode_length 1 ?f = Some (1000, f)" using inode_length_ok by (fastforce simp: demo_inode_def)
  then have len: "file_length 7 ?f = Some (1000, f)" by (simp add: file_length_def)
  have val: "validate_segment demo_phdr 7 (fs (vm_fs (demo_prog b))) = Some (True, f)"
    using len by (simp add: validate_segment_def demo_phdr_def demo_prog_def demo_vms_def demo_fds_def PGMASK_def PAGE32_def is_user_vaddr_def PHYS_BASE_def)
  have d: "procs (demo_prog b) (cur (demo_prog b)) = Some ?pr" "\<forall>n. mallocs (demo_prog b) n" "cur (demo_prog b) = 1" by (simp_all add: demo_prog_def demo_vms_def)
  have t: "pt_wf no_entries" "h_elem_cnt (no_entries :: pt_suppl_entry hash) + 2 ^ 20 < 2 ^ 32" "hash_map pt_vaddr no_entries = Map.empty"
    by (simp_all add: pt_wf_def no_entries_wf) (simp add: no_entries_def)
  have w: "unat (ph_vaddr demo_phdr) = 0x8048074" "unat (ph_memsz demo_phdr) = 5000" "unat (ph_filesz demo_phdr) = 800" "unat (ph_offset demo_phdr) = 0x74"
    "ph_type demo_phdr = PT_LOAD" "ph_flags demo_phdr AND SEG_W = 0" "pg_round_down 0x8048100 = 0x8048000"
    by (simp_all add: demo_phdr_def SEG_W_def pg_round_down_def PGBITS_def)
  have fr: "\<forall>x. unat (ph_vaddr demo_phdr) \<le> x \<and> x < unat (ph_vaddr demo_phdr) + unat (ph_memsz demo_phdr) \<longrightarrow> hash_map pt_vaddr (p_pt_suppl ?pr) (pg_round_down x) = None"
    by (simp add: t(3))
  have "pt_wf (p_pt_suppl ?pr)" "h_elem_cnt (p_pt_suppl ?pr) + 2 ^ 20 < 2 ^ 32" "\<not> p_pt_suppl_lock ?pr"
    "unat (ph_offset demo_phdr) + unat (ph_filesz demo_phdr) < 2 ^ 31" using t(1,2) unfolding w by simp_all
  from load_phdr_segment [OF d(1) this(1,2) d(2) this(3) w(5) val this(4) fr, unfolded w(1-4,6)] obtain s' pr' where
    r: "load_phdr 7 demo_phdr (demo_prog b) = Some (True, s')" "procs s' = (procs (demo_prog b))(cur (demo_prog b) \<mapsto> pr')"
    "\<forall>x. 0x8048074 \<le> x \<and> x < 0x8048074 + 5000 \<longrightarrow> (\<exists>e info. hash_map pt_vaddr (p_pt_suppl pr') (pg_round_down x) = Some e \<and> pt_status e = LAZY_UNLOADED \<and>
       pt_file_info e = Some info \<and> fi_file info = 7 \<and> fi_writable info = ((0 :: u32) \<noteq> 0) \<and> fi_read_bytes info + fi_zero_bytes info = PGSIZE \<and>
       (if x < 0x8048074 + 800 then x - pg_round_down x < fi_read_bytes info \<and> fi_offset info + int (x - pg_round_down x) = int 0x74 + int (x - 0x8048074)
        else fi_read_bytes info \<le> x - pg_round_down x))" by blast
  from r(3) [rule_format, of "0x8048100", unfolded w(7)] obtain e info where
    "hash_map pt_vaddr (p_pt_suppl pr') 0x8048000 = Some e" "pt_file_info e = Some info" "fi_file info = 7" "\<not> fi_writable info" "fi_offset info + 0x100 = 0x100"
    by auto
  then show ?thesis using r(1,2) d(3)
    by (intro exI [of _ b] exI [of _ s'] exI [of _ pr'] exI [of _ e] exI [of _ info]) simp
qed

theorem setup_stack_witness:
  "\<exists>s' esp argv img. setup_stack (\<lambda>s. None) [101, 99, 104, 111, 32, 120] demo_vms = Some (Some esp, s') \<and> esp mod 4 = 0 \<and> length argv = 2 \<and>
     (\<forall>i < length img. \<exists>a. pagedir_get_page 0xC0100000 (esp + i) s' = Some (Some a) \<and> ram (pal s') a = img ! i) \<and>
     take 5 (drop (argv ! 0 - esp) img) = [101, 99, 104, 111, 0] \<and> take 2 (drop (argv ! 1 - esp) img) = [120, 0]"
proof -
  let ?ts = "[[101, 99, 104, 111], [120]] :: u8 list list"
  let ?pr = "\<lparr>p_tid = 1, p_pagedir = 0xC0100000, p_run_file = 0, p_pt_suppl = no_entries, p_pt_suppl_lock = False\<rparr>"
  have w0: "word_at demo_vms a = 0" for a using word_at_pal [of demo_vms demo_pgs] demo_word by (simp add: demo_vms_def)
  then have e0: "entry demo_vms 0xC0100000 n = 0" for n by (simp add: entry_def tab_def)
  have tk: "tokens [BLANK] [101, 99, 104, 111, 32, 120] = [[101, 99, 104, 111], [120]]"
    by (simp add: tokens.simps next_token_def after_token_def BLANK_def)
  have B: "is_user_vaddr (PHYS_BASE - PGSIZE)" by (simp add: is_user_vaddr_def PHYS_BASE_def PGSIZE_def)
  have un: "pagedir_get_page 0xC0100000 (PHYS_BASE - PGSIZE) demo_vms = Some None"
    unfolding get_page_entry [OF demo_vms_pd B] e0 by (simp add: Let_def)
  have free: "\<exists>i < bit_cnt (used_map (user_pool (pal demo_vms))). i \<notin> bitmap_used (used_map (user_pool (pal demo_vms)))"
    by (rule exI [of _ 0]) (simp add: demo_vms_def demo_pgs_def demo_pool_def demo_unused)
  have kfree: "tab demo_vms 0xC0100000 (pd_no (PHYS_BASE - PGSIZE)) \<noteq> None \<or>
      (\<exists>i < bit_cnt (used_map (kernel_pool (pal demo_vms))). i \<notin> bitmap_used (used_map (kernel_pool (pal demo_vms))))"
    by (intro disjI2 exI [of _ 1]) (simp add: demo_vms_def demo_pgs_def one_used)
  have d: "procs demo_vms (cur demo_vms) = Some ?pr" "\<forall>n. mallocs demo_vms n" "cr3 demo_vms = 0xC0100000 - PHYS_BASE" "0xC0100000 \<noteq> init_page_dir demo_vms"
    "pool_end (user_pool (pal demo_vms)) \<le> PHYS_BASE + init_ram_pages demo_vms * 2 ^ 12" "p_pagedir ?pr = 0xC0100000"
    by (simp_all add: demo_vms_def demo_pgs_def demo_pool_def pool_end_def PHYS_BASE_def PGSIZE_def)
  have fit: "length ?ts \<le> ARGS_MAX" "sum_list (map (\<lambda>t. length t + 1) ?ts) + 4 * length ?ts + 20 \<le> PGSIZE" by (simp_all add: ARGS_MAX_def PGSIZE_def)
  from setup_stack_layout [OF demo_vms_ok(1) d(2) free d(1,6) demo_vms_pd d(3-5) un kfree tk [symmetric] fit, of "\<lambda>s. None"]
  obtain s' esp argv img where r: "setup_stack (\<lambda>s. None) [101, 99, 104, 111, 32, 120] demo_vms = Some (Some esp, s')" "esp mod 4 = 0"
     "\<forall>i < length img. \<exists>a. pagedir_get_page 0xC0100000 (esp + i) s' = Some (Some a) \<and> ram (pal s') a = img ! i" "length argv = length ?ts"
     "\<forall>i < length ?ts. esp \<le> argv ! i \<and> take (length (?ts ! i) + 1) (drop (argv ! i - esp) img) = ?ts ! i @ [0]" by (elim exE conjE) (rule that)
  have l: "length (?ts ! 0) + 1 = 5" "length (?ts ! 1) + 1 = 2" by simp_all
  have "take 5 (drop (argv ! 0 - esp) img) = [101, 99, 104, 111, 0]" using r(5) [rule_format, of 0] unfolding l by simp
  moreover have "take 2 (drop (argv ! 1 - esp) img) = [120, 0]" using r(5) [rule_format, of 1] unfolding l by simp
  ultimately show ?thesis using r(1-4) by (intro exI [of _ s'] exI [of _ esp] exI [of _ argv] exI [of _ img]) simp
qed

end
