(* ===== verification/Process.thy ===== *)
theory Process
  imports Loader Synch
begin

text \<open>
  Processes, the first half of \<^verbatim>\<open>userprog/process.c\<close> and the end of a thread in \<^verbatim>\<open>threads/thread.c\<close>: starting a program, waiting for
  it and leaving it. The state joins the thread system of theory \<open>Threads\<close> with the memory, the files and the
  page tables of theory \<open>Frame\<close>. A call that sleeps inside ends with the switch to another thread; what it does after it
  is woken is an operation of its own.
\<close>

section \<open>The whole kernel\<close>

text \<open>
  The structure of a thread is in two parts under the same address, its page: the members of the scheduler in \<open>kern\<close>, the
  page directory, the supplemental page table and the running file in \<open>vm\<close>. The page directory is in both, since
  \<^verbatim>\<open>thread_tick\<close> looks at it. \<open>console\<close> is what \<^verbatim>\<open>putbuf\<close> has shown.
\<close>

record kernel =
  kern :: ksys
  vm :: vms
  console :: "u8 list"

definition on_vm :: "(vms \<Rightarrow> ('r \<times> vms) option) \<Rightarrow> kernel \<Rightarrow> ('r \<times> kernel) option" where
  "on_vm f k = do { (r, v) \<leftarrow> f ((vm k)\<lparr>cur := running (kern k)\<rparr>); Some (r, k\<lparr>vm := v\<rparr>) }"

definition do_vm :: "(vms \<Rightarrow> vms option) \<Rightarrow> kernel \<Rightarrow> kernel option" where
  "do_vm f k = do { v \<leftarrow> f ((vm k)\<lparr>cur := running (kern k)\<rparr>); Some (k\<lparr>vm := v\<rparr>) }"

definition do_kern :: "(ksys \<Rightarrow> ksys option) \<Rightarrow> kernel \<Rightarrow> kernel option" where
  "do_kern f k = do { s \<leftarrow> f (kern k); Some (k\<lparr>kern := s\<rparr>) }"

definition vm_get_page :: "palloc_flags \<Rightarrow> kernel \<Rightarrow> (nat option \<times> kernel) option" where
  "vm_get_page flags = on_vm (\<lambda>v. do { (pg, p) \<leftarrow> palloc_get_page flags (pal v); Some (pg, v\<lparr>pal := p\<rparr>) })"

definition vm_free_page :: "nat \<Rightarrow> kernel \<Rightarrow> kernel option" where
  "vm_free_page pg = do_vm (\<lambda>v. do { p \<leftarrow> palloc_free_page pg (pal v); Some (v\<lparr>pal := p\<rparr>) })"

text \<open>A string in memory of the kernel; reading it ends at the null byte.\<close>

partial_function (option) load_string :: "nat \<Rightarrow> vms \<Rightarrow> (u8 list \<times> vms) option" where
  "load_string va s = do {
     (a, s) \<leftarrow> mmu_access False va s;
     if ram (pal s) a = 0 then Some ([], s)
     else do { (str, s') \<leftarrow> load_string (sz (va + 1)) s; Some (ram (pal s) a # str, s') } }"

text \<open>
  An access of the kernel to memory of the process. When it faults, the page fault handler brings the page in and the access is
  done again, or the thread has to exit with a status (\<open>Inl\<close>). The handler takes the stack pointer of the process from the
  place where the processor leaves it only for a fault in user code; \<open>kesp\<close> is what lies there.
\<close>

definition user_access :: "fm_writer \<Rightarrow> nat \<Rightarrow> bool \<Rightarrow> nat \<Rightarrow> vms \<Rightarrow> ((int + nat) \<times> vms) option" where
  "user_access fmw kesp wr va s =
     (case mmu_access wr va s of
        Some (a, s) \<Rightarrow> Some (Inr a, s)
      | None \<Rightarrow> do {
          current \<leftarrow> current_proc s;
          pg \<leftarrow> pagedir_get_page (p_pagedir current) va s;
          (r, s) \<leftarrow> page_fault fmw va ((if pg = None then 0 else PF_P) OR (if wr then PF_W else 0)) SEL_KCSEG kesp s;
          case r of
            Exit stat \<Rightarrow> Some (Inl stat, s)
          | Resume \<Rightarrow> do { (a, s) \<leftarrow> mmu_access wr va s; Some (Inr a, s) } })"

text \<open>Bytes read from user memory, a string there up to its null byte, and bytes stored there.\<close>

fun user_bytes :: "fm_writer \<Rightarrow> nat \<Rightarrow> nat \<Rightarrow> nat \<Rightarrow> vms \<Rightarrow> ((int + u8 list) \<times> vms) option" where
  "user_bytes fmw kesp va 0 s = Some (Inr [], s)"
| "user_bytes fmw kesp va (Suc n) s = do {
     (a, s) \<leftarrow> user_access fmw kesp False va s;
     case a of
       Inl stat \<Rightarrow> Some (Inl stat, s)
     | Inr a \<Rightarrow> do { (bs, s') \<leftarrow> user_bytes fmw kesp (sz (va + 1)) n s; Some (map_sum id ((#) (ram (pal s) a)) bs, s') } }"

partial_function (option) user_string :: "fm_writer \<Rightarrow> nat \<Rightarrow> nat \<Rightarrow> vms \<Rightarrow> ((int + u8 list) \<times> vms) option" where
  "user_string fmw kesp va s = do {
     (a, s) \<leftarrow> user_access fmw kesp False va s;
     case a of
       Inl stat \<Rightarrow> Some (Inl stat, s)
     | Inr a \<Rightarrow>
         if ram (pal s) a = 0 then Some (Inr [], s)
         else do { (str, s') \<leftarrow> user_string fmw kesp (sz (va + 1)) s; Some (map_sum id ((#) (ram (pal s) a)) str, s') } }"

fun user_store :: "fm_writer \<Rightarrow> nat \<Rightarrow> nat \<Rightarrow> u8 list \<Rightarrow> vms \<Rightarrow> ((int + unit) \<times> vms) option" where
  "user_store fmw kesp va [] s = Some (Inr (), s)"
| "user_store fmw kesp va (b # bs) s = do {
     (a, s) \<leftarrow> user_access fmw kesp True va s;
     case a of
       Inl stat \<Rightarrow> Some (Inl stat, s)
     | Inr a \<Rightarrow> user_store fmw kesp (sz (va + 1)) bs (s\<lparr>pal := (pal s)\<lparr>ram := (ram (pal s))(a := b)\<rparr>\<rparr>) }"

definition ascii :: "u8 list \<Rightarrow> string" where "ascii bs = map (\<lambda>b. char_of (unat b)) bs"

section \<open>The end of a process\<close>

text \<open>Freeing an entry changes nothing but the kernel's heap, which is not part of the state; a slot of the swap space is not freed.\<close>

definition pt_suppl_free_entry :: "pt_suppl_entry \<Rightarrow> vms \<Rightarrow> vms option" where
  "pt_suppl_free_entry ent s = Some s"

definition pt_suppl_free :: "vms \<Rightarrow> vms option" where
  "pt_suppl_free s = do {
     current \<leftarrow> current_proc s;
     s \<leftarrow> hash_destroy (Some pt_suppl_free_entry) (p_pt_suppl current) s;
     set_pt_suppl ((p_pt_suppl current)\<lparr>buckets := []\<rparr>) s }"

fun wake_children :: "tptr list \<Rightarrow> ksys \<Rightarrow> ksys option" where
  "wake_children [] s = Some s"
| "wake_children (chld # cs) s = do { s \<leftarrow> sema_up (ExitStatusReadSema chld) s; wake_children cs s }"

definition set_pagedir :: "nat \<Rightarrow> kernel \<Rightarrow> kernel option" where
  "set_pagedir pd k = do {
     k \<leftarrow> do_vm (\<lambda>v. upd_proc (cur v) (p_pagedir_update (\<lambda>_. pd)) v) k;
     do_kern (\<lambda>s. set_thread (running s) (t_pagedir_update (\<lambda>_. pd)) s) k }"

text \<open>Releasing the memory and the running file, and then the exchange with the parent; it ends asleep when the status is not read yet.\<close>

definition release_process :: "fm_writer \<Rightarrow> kernel \<Rightarrow> kernel option" where
  "release_process fmw k = do {
     p \<leftarrow> procs (vm k) (running (kern k));
     k \<leftarrow> (if p_pagedir p \<noteq> 0 then do {
             k \<leftarrow> set_pagedir 0 k;
             k \<leftarrow> do_vm (pagedir_activate 0) k;
             do_vm (pagedir_destroy (\<lambda>pg. vm_frame_free pg) (p_pagedir p)) k }
           else Some k);
     k \<leftarrow> (if p_run_file p \<noteq> NULL then do_vm (\<lambda>v. do { (_, v) \<leftarrow> with_fs (\<lambda>f. map_option (Pair ()) (file_close fmw (p_run_file p) f)) v; Some v }) k
           else Some k);
     do_vm pt_suppl_free k }"

definition signal_exit :: "ksys \<Rightarrow> (outcome \<times> ksys) option" where
  "signal_exit s = do {
     (t, th) \<leftarrow> thread_current s;
     s \<leftarrow> wake_children (t_children th) s;
     s \<leftarrow> sema_up (ExitSema t) s;
     sema_down (ExitStatusReadSema t) s }"

definition process_exit :: "fm_writer \<Rightarrow> kernel \<Rightarrow> (outcome \<times> kernel) option" where
  "process_exit fmw k = do {
     k \<leftarrow> release_process fmw k;
     (r, s) \<leftarrow> signal_exit (kern k);
     Some (r, k\<lparr>kern := s\<rparr>) }"

text \<open>
  The end of \<^verbatim>\<open>thread_exit\<close>, after \<^verbatim>\<open>process_exit\<close>: the next thread frees the page of the one that died. It runs at once, or when the
  thread is woken.
\<close>

definition thread_exit_end :: "kernel \<Rightarrow> kernel option" where
  "thread_exit_end k = do {
     let t = running (kern k);
     k \<leftarrow> do_kern (thread_exit Some) k;
     if threads (kern k) t = None then do_vm (\<lambda>v. do { p \<leftarrow> palloc_free_page t (pal v); Some (v\<lparr>pal := p, procs := (procs v)(t := None)\<rparr>) }) k
     else Some k }"

definition close_all_files :: "fm_writer \<Rightarrow> kernel \<Rightarrow> kernel option" where
  "close_all_files fmw k = do_vm (\<lambda>v. do {
     p \<leftarrow> current_proc v;
     t \<leftarrow> close_all_files_and_dir fmw (p_tid p) (vm_fs v);
     unmap_all fmw (v\<lparr>vm_fs := t\<rparr>) }) k"

definition exit_thread :: "fm_writer \<Rightarrow> kernel \<Rightarrow> (outcome \<times> kernel) option" where
  "exit_thread fmw k = do {
     ASSERT (\<not> intr_context (kern k));
     k \<leftarrow> close_all_files fmw k;
     (r, k) \<leftarrow> process_exit fmw k;
     case r of
       Returned \<Rightarrow> do { k \<leftarrow> thread_exit_end k; Some (Returned, k) }
     | Switched lvl \<Rightarrow> Some (Switched lvl, k) }"

definition exit_thread_with_status :: "fm_writer \<Rightarrow> int \<Rightarrow> kernel \<Rightarrow> (outcome \<times> kernel) option" where
  "exit_thread_with_status fmw stat k = do {
     (t, _) \<leftarrow> thread_current (kern k);
     k \<leftarrow> do_kern (set_thread t (t_exit_status_update (\<lambda>_. stat))) k;
     exit_thread fmw k }"

text \<open>The sleeping thread continues in the loop of \<^verbatim>\<open>sema_down\<close>.\<close>

definition exit_thread_resume :: "bool \<Rightarrow> kernel \<Rightarrow> (outcome \<times> kernel) option" where
  "exit_thread_resume lvl k = do {
     (r, s) \<leftarrow> sema_down_resume (ExitStatusReadSema (running (kern k))) lvl (kern k);
     let k = k\<lparr>kern := s\<rparr>;
     case r of
       Returned \<Rightarrow> do { k \<leftarrow> thread_exit_end k; Some (Returned, k) }
     | Switched lvl \<Rightarrow> Some (Switched lvl, k) }"

section \<open>Starting a program\<close>

text \<open>What \<^verbatim>\<open>palloc_get_page\<close> leaves in the members of a new thread structure; a lock of zeros cannot be acquired.\<close>

definition new_proc :: "int \<Rightarrow> proc" where
  "new_proc tid = \<lparr>p_tid = nat tid, p_pagedir = 0, p_run_file = NULL, p_pt_suppl = \<lparr>h_elem_cnt = 0, bucket_cnt = 0, buckets = []\<rparr>, p_pt_suppl_lock = True\<rparr>"

text \<open>
  \<open>start\<close> is the address of \<^verbatim>\<open>start_process\<close>. The page of arguments holds the name of the file, and \<open>ARGS_MAX\<close> bytes
  behind it the whole line. \<open>Inr\<close> has the thread's identifier, or \<open>None\<close> when the call slept in \<^verbatim>\<open>allocate_tid\<close>; \<open>Inl\<close> stands for a
  command line that runs into memory the process does not have, which ends the caller.
\<close>

definition process_execute :: "fm_writer \<Rightarrow> nat \<Rightarrow> nat \<Rightarrow> nat \<Rightarrow> kernel \<Rightarrow> ((outcome + int option) \<times> kernel) option" where
  "process_execute fmw kesp start file_name k = do {
     (cur, _) \<leftarrow> thread_current (kern k);
     (argument_names, k) \<leftarrow> vm_get_page 0 k;
     case argument_names of
       None \<Rightarrow> Some (Inr (Some TID_ERROR), k)
     | Some page \<Rightarrow> do {
         (line, k) \<leftarrow> on_vm (user_string fmw kesp file_name) k;
         case line of
           Inl stat \<Rightarrow> do { (r, k) \<leftarrow> exit_thread_with_status fmw stat k; Some (Inl r, k) }
         | Inr fn \<Rightarrow> do {
         (copy, k) \<leftarrow> on_vm (\<lambda>v. Some (vm_malloc v)) k;
         if \<not> copy then do { k \<leftarrow> vm_free_page page k; Some (Inr (Some TID_ERROR), k) }
         else do {
           k \<leftarrow> do_vm (store_bytes (page + ARGS_MAX) (fn @ [0])) k;
           only_fn \<leftarrow> (case tokens [BLANK] fn of [] \<Rightarrow> None | tkn # _ \<Rightarrow> Some tkn);
           k \<leftarrow> do_vm (store_bytes page (only_fn @ [0])) k;
           (t, k) \<leftarrow> vm_get_page PAL_ZERO k;
           let t = (case t of None \<Rightarrow> NO_THREAD | Some t \<Rightarrow> t);
           (tid, s) \<leftarrow> thread_create t (ascii only_fn) PRI_DEFAULT start page (kern k);
           let k = k\<lparr>kern := s\<rparr>;
           case tid of
             None \<Rightarrow> Some (Inr None, k)
           | Some tid \<Rightarrow>
               if tid = TID_ERROR then do { k \<leftarrow> vm_free_page page k; Some (Inr (Some TID_ERROR), k) }
               else do {
                 k \<leftarrow> do_vm (\<lambda>v. Some (v\<lparr>procs := (procs v)(t \<mapsto> new_proc tid)\<rparr>)) k;
                 chld \<leftarrow> lookup_tid tid (kern k);
                 ASSERT (chld \<noteq> NO_THREAD);
                 k \<leftarrow> do_kern (set_thread cur (\<lambda>th. th\<lparr>t_children := t_children th @ [chld]\<rparr>)) k;
                 Some (Inr (Some tid), k) } } } } }"

section \<open>The first steps of a new process\<close>

text \<open>\<open>Inl\<close> when the thread exits since loading failed, \<open>Inr\<close> the entry point and the stack pointer with which user code starts.\<close>

definition start_process :: "fm_writer \<Rightarrow> dirent \<Rightarrow> nat \<Rightarrow> kernel \<Rightarrow> ((outcome + nat \<times> nat) \<times> kernel) option" where
  "start_process fmw junk page k = do {
     (t, th) \<leftarrow> thread_current (kern k);
     (mem, k) \<leftarrow> on_vm (\<lambda>v. Some (vm_malloc v)) k;
     (_, tbl) \<leftarrow> pt_suppl_init mem;
     k \<leftarrow> do_vm (upd_proc t (\<lambda>p. p\<lparr>p_pt_suppl := tbl, p_pt_suppl_lock := False\<rparr>)) k;
     (file_name, k) \<leftarrow> on_vm (load_string page) k;
     (file_args, k) \<leftarrow> on_vm (load_string (page + ARGS_MAX)) k;
     (result, k) \<leftarrow> on_vm (load fmw junk (t_curr_dir th) file_name file_args) k;
     p \<leftarrow> procs (vm k) t;
     k \<leftarrow> set_pagedir (p_pagedir p) k;
     parent \<leftarrow> lookup_tid (t_parent_tid th) (kern k);
     k \<leftarrow> (if parent \<noteq> NO_THREAD then do {
             k \<leftarrow> do_kern (set_thread parent (t_child_born_status_update (\<lambda>_. if result = None then -1 else 1))) k;
             do_kern (sema_up (ChildSema parent)) k }
           else Some k);
     case result of
       None \<Rightarrow> do { (r, k) \<leftarrow> exit_thread fmw k; Some (Inl r, k) }
     | Some start \<Rightarrow> do { k \<leftarrow> vm_free_page page k; Some (Inr start, k) } }"

section \<open>Waiting\<close>

text \<open>The loop ends at the child looked for, or with the last one of the list.\<close>

fun find_child :: "int \<Rightarrow> tptr \<Rightarrow> tptr list \<Rightarrow> ksys \<Rightarrow> tptr option" where
  "find_child tid chld [] s = Some chld"
| "find_child tid chld (c # cs) s = do { th \<leftarrow> threads s c; if t_tid th = tid then Some c else find_child tid c cs s }"

definition process_wait_end :: "tptr \<Rightarrow> ksys \<Rightarrow> (int \<times> ksys) option" where
  "process_wait_end chld s = do {
     th \<leftarrow> threads s chld;
     let exitstat = t_exit_status th;
     (t, _) \<leftarrow> thread_current s;
     s \<leftarrow> set_thread t (\<lambda>th. th\<lparr>t_children := remove1 chld (t_children th)\<rparr>) s;
     s \<leftarrow> sema_up (ExitStatusReadSema chld) s;
     Some (exitstat, s) }"

text \<open>The status, \<open>None\<close> inside when the caller waits for the child to exit; it then ends with \<open>process_wait_resume\<close>.\<close>

definition process_wait :: "int \<Rightarrow> ksys \<Rightarrow> (int option \<times> ksys) option" where
  "process_wait childThreadID s = do {
     (t, th) \<leftarrow> thread_current s;
     chld \<leftarrow> find_child childThreadID NO_THREAD (t_children th) s;
     waited \<leftarrow> (if chld = NO_THREAD then Some True else map_option t_waited (threads s chld));
     if waited then Some (Some (-1), s)
     else do {
       s \<leftarrow> set_thread chld (t_waited_update (\<lambda>_. True)) s;
       (r, s) \<leftarrow> sema_down (ExitSema chld) s;
       case r of
         Returned \<Rightarrow> do { (stat, s) \<leftarrow> process_wait_end chld s; Some (Some stat, s) }
       | Switched _ \<Rightarrow> Some (None, s) } }"

definition process_wait_resume :: "tptr \<Rightarrow> bool \<Rightarrow> ksys \<Rightarrow> (int option \<times> ksys) option" where
  "process_wait_resume chld lvl s = do {
     (r, s) \<leftarrow> sema_down_resume (ExitSema chld) lvl s;
     case r of
       Returned \<Rightarrow> do { (stat, s) \<leftarrow> process_wait_end chld s; Some (Some stat, s) }
     | Switched _ \<Rightarrow> Some (None, s) }"

section \<open>What stays of a thread\<close>

text \<open>Steps that change nothing of a thread but its status.\<close>

definition same_threads :: "ksys \<Rightarrow> ksys \<Rightarrow> bool" where
  "same_threads s s' \<longleftrightarrow> (\<forall>t. case threads s t of None \<Rightarrow> threads s' t = None | Some th \<Rightarrow> \<exists>st. threads s' t = Some (th\<lparr>t_status := st\<rparr>))"

lemma same_threadsD: "same_threads s s' \<Longrightarrow> threads s t = Some th \<Longrightarrow> \<exists>st. threads s' t = Some (th\<lparr>t_status := st\<rparr>)"
  by (drule spec [OF iffD1 [OF same_threads_def], of _ _ t]) simp

lemma same_threads_eq: "threads s' = threads s \<Longrightarrow> same_threads s s'"
  by (auto simp: same_threads_def split: option.split) (metis thread.surjective thread.update_convs(3))

lemma same_threads_upd: "threads s t = Some th \<Longrightarrow> threads s' = (threads s)(t \<mapsto> th\<lparr>t_status := st\<rparr>) \<Longrightarrow> same_threads s s'"
  by (auto simp: same_threads_def split: option.split) (metis thread.surjective thread.update_convs(3))+

lemma same_threads_trans: "same_threads s s' \<Longrightarrow> same_threads s' s'' \<Longrightarrow> same_threads s s''"
  unfolding same_threads_def
proof
  fix t
  assume 1: "\<forall>t. case threads s t of None \<Rightarrow> threads s' t = None | Some th \<Rightarrow> \<exists>st. threads s' t = Some (th\<lparr>t_status := st\<rparr>)"
    and 2: "\<forall>t. case threads s' t of None \<Rightarrow> threads s'' t = None | Some th \<Rightarrow> \<exists>st. threads s'' t = Some (th\<lparr>t_status := st\<rparr>)"
  show "case threads s t of None \<Rightarrow> threads s'' t = None | Some th \<Rightarrow> \<exists>st. threads s'' t = Some (th\<lparr>t_status := st\<rparr>)"
    using spec [OF 1, of t] spec [OF 2, of t] by (auto split: option.splits)
qed

lemma set_status_same: "set_status t st s = Some s' \<Longrightarrow> same_threads s s' \<and> s' = s\<lparr>threads := threads s'\<rparr>"
  using same_threads_upd by (auto simp: set_thread_def split: option.splits)

lemma sema_up_same:
  assumes "sema_up m s = Some s'"
  shows "same_threads s s' \<and> idle_thread s' = idle_thread s \<and> in_external_intr s' = in_external_intr s"
proof -
  have un: "same_threads a b \<and> idle_thread b = idle_thread a \<and> in_external_intr b = in_external_intr a" if "thread_unblock t a = Some b" for t a b
  proof -
    from that obtain c lvl where c: "set_status t THREAD_READY (a\<lparr>intr_on := False, ready_list := ready_list a @ [t]\<rparr>) = Some c"
      "b = c \<or> b = c\<lparr>intr_on := True\<rparr> \<or> b = c\<lparr>intr_on := False\<rparr>"
      by (auto simp: thread_unblock_def intr_set_level_def intr_enable_def intr_disable_def bind_eq_Some_iff split: if_splits)
    have 1: "same_threads a (a\<lparr>intr_on := False, ready_list := ready_list a @ [t]\<rparr>)" "same_threads c b" using c(2) by (auto intro: same_threads_eq)
    have e: "c = (a\<lparr>intr_on := False, ready_list := ready_list a @ [t]\<rparr>)\<lparr>threads := threads c\<rparr>" using set_status_same [OF c(1)] by (rule conjunct2)
    have 2: "idle_thread c = idle_thread a" "in_external_intr c = in_external_intr a" by (subst e, simp)+
    have "same_threads a b"
      by (rule same_threads_trans [OF 1(1) same_threads_trans [OF conjunct1 [OF set_status_same [OF c(1)]] 1(2)]])
    then show ?thesis using c(2) 2 by auto
  qed
  have lvl: "threads y = threads x \<and> idle_thread y = idle_thread x \<and> in_external_intr y = in_external_intr x"
    if "intr_set_level l x = Some (r, y)" for l r x y
    using that by (auto simp: intr_set_level_def intr_enable_def intr_disable_def split: if_splits)
  from assms obtain sem a sem' r where a: "semas s m = Some sem"
      "(case s_waiters sem of [] \<Rightarrow> Some (s\<lparr>intr_on := False\<rparr>)
        | t # ts \<Rightarrow> thread_unblock t (s\<lparr>intr_on := False, semas := (semas s)(m \<mapsto> sem\<lparr>s_waiters := ts\<rparr>)\<rparr>)) = Some a"
      and r: "intr_set_level (intr_on s) (a\<lparr>semas := (semas a)(m \<mapsto> sem'\<lparr>s_value := sz (s_value sem' + 1)\<rparr>)\<rparr>) = Some (r, s')"
    unfolding sema_up_def intr_disable_def Let_def by (auto simp: bind_eq_Some_iff simp del: fun_upd_apply cong: list.case_cong)
  from lvl [OF r] have a3: "threads s' = threads a" "idle_thread s' = idle_thread a" "in_external_intr s' = in_external_intr a" by simp_all
  have "same_threads s a \<and> idle_thread a = idle_thread s \<and> in_external_intr a = in_external_intr s"
  proof (cases "s_waiters sem")
    case Nil
    then show ?thesis using a(2) by (auto intro: same_threads_eq)
  next
    case (Cons t ts)
    let ?b = "s\<lparr>intr_on := False, semas := (semas s)(m \<mapsto> sem\<lparr>s_waiters := ts\<rparr>)\<rparr>"
    have "same_threads s ?b" by (rule same_threads_eq) simp
    then show ?thesis using a(2) Cons un [of t ?b a] same_threads_trans by auto
  qed
  then show ?thesis using same_threads_trans [OF _ same_threads_eq [OF a3(1)]] a3(2,3) by auto
qed

lemma thread_block_same:
  assumes "thread_block s = Some s'"
  shows "same_threads s s' \<and> idle_thread s' = idle_thread s \<and> in_external_intr s' = in_external_intr s \<and> semas s' = semas s"
proof -
  from assms obtain a th where a: "set_status (running s) THREAD_BLOCKED s = Some a" "schedule a = Some s'"
    by (auto simp: thread_block_def thread_current_def bind_eq_Some_iff Let_def split: if_splits)
  have e: "a = s\<lparr>threads := threads a\<rparr>" using set_status_same [OF a(1)] by (rule conjunct2)
  have eq: "running a = running s" "idle_thread a = idle_thread s" "in_external_intr a = in_external_intr s" "semas a = semas s" by (subst e, simp)+
  have bl: "\<exists>th. threads a (running s) = Some (th\<lparr>t_status := THREAD_BLOCKED\<rparr>)" using a(1) by (auto simp: set_thread_def split: option.splits)
  obtain nx r where n: "next_thread_to_run a = (nx, a\<lparr>ready_list := r\<rparr>)"
  proof (cases "ready_list a")
    case Nil
    then have "next_thread_to_run a = (idle_thread a, a\<lparr>ready_list := []\<rparr>)" by (simp add: next_thread_to_run_def)
    then show ?thesis by (rule that)
  qed (simp add: next_thread_to_run_def that)
  let ?prev = "if running a \<noteq> nx then running a else NO_THREAD"
  have "thread_schedule_tail ?prev (a\<lparr>ready_list := r, running := nx\<rparr>) = Some s'"
    using a(2) n by (cases "running a = nx") (auto simp: schedule_def bind_eq_Some_iff Let_def split: if_splits)
  then obtain b where b: "set_status nx THREAD_RUNNING (a\<lparr>ready_list := r, running := nx\<rparr>) = Some b"
    and t: "if ?prev = NO_THREAD then s' = b\<lparr>thread_ticks := 0\<rparr>
      else \<exists>p. threads b ?prev = Some p \<and> (if t_status p = THREAD_DYING \<and> ?prev \<noteq> initial_thread b then s' = b\<lparr>thread_ticks := 0, threads := (threads b)(?prev := None)\<rparr>
        else s' = b\<lparr>thread_ticks := 0\<rparr>)"
    by (fastforce simp: thread_schedule_tail_def bind_eq_Some_iff Let_def split: if_splits)
  have e2: "b = (a\<lparr>ready_list := r, running := nx\<rparr>)\<lparr>threads := threads b\<rparr>" using set_status_same [OF b] by (rule conjunct2)
  have eq2: "idle_thread b = idle_thread a" "in_external_intr b = in_external_intr a" "semas b = semas a" by (subst e2, simp)+
  have f: "s' = b\<lparr>thread_ticks := 0\<rparr>"
  proof (cases "running a = nx")
    case False
    then have "threads b (running a) = threads a (running a)" using b by (auto simp: set_thread_def split: option.splits)
    then show ?thesis using t bl eq(1) False by (auto split: if_splits)
  qed (use t in simp)
  have 1: "same_threads a (a\<lparr>ready_list := r, running := nx\<rparr>)" "same_threads b s'" using f by (auto intro: same_threads_eq)
  have "same_threads s s'"
    by (rule same_threads_trans [OF conjunct1 [OF set_status_same [OF a(1)]] same_threads_trans [OF 1(1) same_threads_trans [OF conjunct1 [OF set_status_same [OF b]] 1(2)]]])
  moreover have "idle_thread s' = idle_thread s" "in_external_intr s' = in_external_intr s" "semas s' = semas s" using f eq eq2 by simp_all
  ultimately show ?thesis by blast
qed

lemma wake_children_ok:
  assumes "sched_inv s" and "\<not> in_external_intr s" and "distinct cs" and "\<forall>d \<in> set cs. semas s (ExitStatusReadSema d) \<noteq> None"
  shows "\<exists>s'. wake_children cs s = Some s' \<and> sched_inv s' \<and> running s' = running s \<and> intr_on s' = intr_on s \<and> same_threads s s' \<and>
    idle_thread s' = idle_thread s \<and> in_external_intr s' = in_external_intr s \<and>
    (\<forall>m. m \<notin> ExitStatusReadSema ` set cs \<longrightarrow> semas s' m = semas s m) \<and>
    (\<forall>d \<in> set cs. \<forall>q. semas s (ExitStatusReadSema d) = Some q \<longrightarrow>
       semas s' (ExitStatusReadSema d) = Some \<lparr>s_value = sz (s_value q + 1), s_waiters = tl (s_waiters q)\<rparr>)"
  using assms
proof (induction cs arbitrary: s)
  case Nil
  then show ?case by (intro exI [of _ s]) (simp add: same_threads_eq)
next
  case (Cons d cs)
  let ?m = "ExitStatusReadSema d"
  obtain q where q: "semas s ?m = Some q" using Cons.prems(4) by auto
  obtain s1 where s1: "sema_up ?m s = Some s1" "sched_inv s1" "running s1 = running s" "intr_on s1 = intr_on s"
      "semas s1 = (semas s)(?m \<mapsto> \<lparr>s_value = sz (s_value q + 1), s_waiters = tl (s_waiters q)\<rparr>)"
    using sema_up_ok [OF Cons.prems(1) q] Cons.prems(2) by blast
  note t1 = sema_up_same [OF s1(1)]
  have "\<not> in_external_intr s1" "distinct cs" "\<forall>x \<in> set cs. semas s1 (ExitStatusReadSema x) \<noteq> None" using t1 Cons.prems(2-4) s1(5) by auto
  from Cons.IH [OF s1(2) this] obtain s' where s': "wake_children cs s1 = Some s'" "sched_inv s'" "running s' = running s1" "intr_on s' = intr_on s1"
      "same_threads s1 s'" "idle_thread s' = idle_thread s1" "in_external_intr s' = in_external_intr s1"
    and o: "\<And>m. m \<notin> ExitStatusReadSema ` set cs \<Longrightarrow> semas s' m = semas s1 m"
    and n: "\<And>x q. x \<in> set cs \<Longrightarrow> semas s1 (ExitStatusReadSema x) = Some q \<Longrightarrow>
       semas s' (ExitStatusReadSema x) = Some \<lparr>s_value = sz (s_value q + 1), s_waiters = tl (s_waiters q)\<rparr>" by blast
  have "semas s' (ExitStatusReadSema x) = Some \<lparr>s_value = sz (s_value r + 1), s_waiters = tl (s_waiters r)\<rparr>"
    if "x \<in> set (d # cs)" "semas s (ExitStatusReadSema x) = Some r" for x r
  proof (cases "x = d")
    case True
    then have "semas s' (ExitStatusReadSema x) = semas s1 ?m" using Cons.prems(3) by (subst o) auto
    then show ?thesis using True that(2) q s1(5) by simp
  next
    case False
    then show ?thesis using that n [of x r] s1(5) by simp
  qed
  moreover have "semas s' m = semas s m" if "m \<notin> ExitStatusReadSema ` set (d # cs)" for m using that o [of m] s1(5) by auto
  moreover have "same_threads s s'" using same_threads_trans [OF conjunct1 [OF t1] s'(5)] .
  ultimately show ?case using s1(1,3,4) s'(1-4,6,7) t1 by (intro exI [of _ s']) simp
qed

lemma sched_inv_fields:
  assumes inv: "sched_inv s" and t: "threads s t = Some th" and same: "t_status th' = t_status th" "t_magic th' = t_magic th"
  shows "sched_inv (s\<lparr>threads := (threads s)(t \<mapsto> th')\<rparr>)"
proof -
  let ?s = "s\<lparr>threads := (threads s)(t \<mapsto> th')\<rparr>"
  have st: "status_of ?s = status_of s" using t same(1) by (auto simp: status_of_def)
  have core: "threads_ok s" "queue_ok s" "waiters_ok s" "status_of s (running s) = Some THREAD_RUNNING"
    using inv by (auto simp: sched_inv_def sched_core_def)
  have "t_magic th = THREAD_MAGIC" using core(1) t by (simp add: threads_ok_def)
  moreover have "t \<noteq> NO_THREAD" using thread_not_null [OF core(1) t] .
  ultimately have "threads_ok ?s" using core(1) same(2) by (auto simp: threads_ok_def)
  moreover have "queue_ok ?s" using core(2) by (simp add: queue_ok_def st)
  moreover have "waiters_ok ?s" using core(3) by (simp add: waiters_ok_def st all_waiters_def)
  ultimately show ?thesis using core(4) st by (simp add: sched_inv_def sched_core_def)
qed

lemma find_child_ok:
  assumes "c \<in> set cs" and "threads s c = Some ch" "t_tid ch = pid" and "\<forall>d \<in> set cs. d \<noteq> c \<longrightarrow> (\<exists>x. threads s d = Some x \<and> t_tid x \<noteq> pid)"
  shows "find_child pid x cs s = Some c"
  using assms(1,4)
proof (induction cs arbitrary: x)
  case (Cons d cs)
  show ?case
  proof (cases "d = c")
    case False
    then obtain y where "threads s d = Some y" "t_tid y \<noteq> pid" using Cons.prems(2) by auto
    then show ?thesis using Cons.IH [of d] Cons.prems False by simp
  qed (use assms(2,3) in simp)
qed simp

lemma find_child_last:
  assumes "cs \<noteq> []" and "\<forall>d \<in> set cs. \<exists>x. threads s d = Some x \<and> t_tid x \<noteq> pid"
  shows "find_child pid x cs s = Some (last cs)"
  using assms
proof (induction cs arbitrary: x)
  case (Cons d cs)
  then obtain y where "threads s d = Some y" "t_tid y \<noteq> pid" by auto
  then show ?case using Cons by (cases "cs = []") auto
qed simp

lemma current_upd: "sched_inv s \<Longrightarrow> threads s (running s) = Some th \<Longrightarrow> thread_current s = Some (running s, th)"
  by (erule sched_inv_current) simp

section \<open>Properties\<close>

text \<open>
  C16: a process that ends lets its parent and its children go on. Before it dies, \<^verbatim>\<open>process_exit\<close> wakes every child that waits for its status
  to be read, raises the semaphore on which the parent waits and makes the parent ready, if it waits; then the
  process goes to sleep until its own status is read, unless that was announced already, keeping its exit status and all else
  of its structure.
\<close>

theorem exit_wakes_parent_and_children:
  assumes inv: "sched_inv s" and ctx: "\<not> in_external_intr s" and ni: "running s \<noteq> idle_thread s" and th: "threads s (running s) = Some th"
    and ch: "distinct (t_children th)" "running s \<notin> set (t_children th)" "\<forall>d \<in> set (t_children th). semas s (ExitStatusReadSema d) \<noteq> None"
    and q: "semas s (ExitSema (running s)) = Some q" and r: "semas s (ExitStatusReadSema (running s)) = Some r"
  shows "\<exists>outcome s'. signal_exit s = Some (outcome, s') \<and> sched_inv s' \<and> same_threads s s' \<and>
    semas s' (ExitSema (running s)) = Some \<lparr>s_value = sz (s_value q + 1), s_waiters = tl (s_waiters q)\<rparr> \<and>
    (\<forall>d \<in> set (t_children th). \<forall>x. semas s (ExitStatusReadSema d) = Some x \<longrightarrow>
       semas s' (ExitStatusReadSema d) = Some \<lparr>s_value = sz (s_value x + 1), s_waiters = tl (s_waiters x)\<rparr>) \<and>
    (\<forall>p ps. s_waiters q = p # ps \<longrightarrow> p \<in> set (ready_list s') \<union> {running s'}) \<and>
    (if s_value r = 0
     then outcome = Switched (intr_on s) \<and> running s' \<noteq> running s \<and> status_of s' (running s) = Some THREAD_BLOCKED \<and>
       semas s' (ExitStatusReadSema (running s)) = Some (r\<lparr>s_waiters := s_waiters r @ [running s]\<rparr>)
     else outcome = Returned \<and> running s' = running s \<and> semas s' (ExitStatusReadSema (running s)) = Some (r\<lparr>s_value := s_value r - 1\<rparr>))"
proof -
  let ?t = "running s" and ?R = "ExitStatusReadSema (running s)" and ?E = "ExitSema (running s)"
  obtain th' where cur: "thread_current s = Some (?t, th')" "threads s ?t = Some th'" using sched_inv_current [OF inv] by metis
  obtain s1 where s1: "wake_children (t_children th) s = Some s1" "sched_inv s1" "running s1 = ?t" "intr_on s1 = intr_on s" "same_threads s s1"
      "idle_thread s1 = idle_thread s" "in_external_intr s1 = in_external_intr s"
    and o1: "\<And>m. m \<notin> ExitStatusReadSema ` set (t_children th) \<Longrightarrow> semas s1 m = semas s m"
    and n1: "\<And>d x. d \<in> set (t_children th) \<Longrightarrow> semas s (ExitStatusReadSema d) = Some x \<Longrightarrow>
       semas s1 (ExitStatusReadSema d) = Some \<lparr>s_value = sz (s_value x + 1), s_waiters = tl (s_waiters x)\<rparr>"
    using wake_children_ok [OF inv ctx ch(1,3)] by blast
  have q1: "semas s1 ?E = Some q" "semas s1 ?R = Some r" using q r ch(2) by (subst o1; auto)+
  obtain s2 where s2: "sema_up ?E s1 = Some s2" "sched_inv s2" "running s2 = ?t" "intr_on s2 = intr_on s"
      "semas s2 = (semas s1)(?E \<mapsto> \<lparr>s_value = sz (s_value q + 1), s_waiters = tl (s_waiters q)\<rparr>)"
      "ready_list s2 = ready_list s1 @ take 1 (s_waiters q)"
    using sema_up_ok [OF s1(2) q1(1)] s1(3,4,7) ctx by auto
  note t2 = sema_up_same [OF s2(1)]
  let ?s2 = "s2\<lparr>intr_on := False\<rparr>"
  have inv2: "sched_inv ?s2" using s2(2) by (simp add: sched_inv_intr)
  have r2: "semas ?s2 ?R = Some r" using q1(2) s2(5) by simp
  have down: "signal_exit s = sema_down_resume ?R (intr_on s) ?s2"
    using cur th s1(1) s2(1,3,4) t2 s1(7) ctx by (simp add: signal_exit_def sema_down_def intr_disable_def intr_context_def Let_def)
  have st2: "same_threads s ?s2" using same_threads_trans [OF s1(5) same_threads_trans [OF conjunct1 [OF t2]]] by (simp add: same_threads_eq)
  have p2: "p \<in> set (ready_list s2)" if "s_waiters q = p # ps" for p ps using s2(6) that by simp
  show ?thesis
  proof (cases "s_value r = 0")
    case True
    obtain s3 where s3: "sema_down_iter ?R ?s2 = Some (False, s3)" "sched_inv s3" "running s3 = next_thread ?s2" "running s3 \<noteq> ?t"
        "ready_list s3 = tl (ready_list s2)" "semas s3 = (semas s2)(?R \<mapsto> r\<lparr>s_waiters := s_waiters r @ [?t]\<rparr>)" "status_of s3 ?t = Some THREAD_BLOCKED"
      using sema_down_iter_wait [OF inv2 r2 True] s1(6,7) t2 ctx ni s2(3) by (auto simp: intr_context_def)
    obtain tc a where "thread_block a = Some s3" "threads a = threads ?s2" using s3(1) r2 True
      by (auto simp: sema_down_iter_def bind_eq_Some_iff Let_def split: if_splits)
    then have "same_threads ?s2 s3" using thread_block_same [of a s3] same_threads_trans [OF same_threads_eq [of a ?s2]] by auto
    then have "same_threads s s3" by (rule same_threads_trans [OF st2])
    moreover have "p \<in> set (ready_list s3) \<union> {running s3}" if "s_waiters q = p # ps" for p ps
      using p2 [OF that] s3(3,5) by (cases "ready_list s2") (auto simp: next_thread_def)
    moreover have "semas s3 (ExitStatusReadSema d) = Some \<lparr>s_value = sz (s_value x + 1), s_waiters = tl (s_waiters x)\<rparr>"
      if "d \<in> set (t_children th)" "semas s (ExitStatusReadSema d) = Some x" for d x
      using n1 [OF that] that(1) ch(2) s3(6) s2(5) by auto
    moreover have "semas s3 ?E = Some \<lparr>s_value = sz (s_value q + 1), s_waiters = tl (s_waiters q)\<rparr>" using s3(6) s2(5) by simp
    moreover have "signal_exit s = Some (Switched (intr_on s), s3)" using down s3(1) by (simp add: sema_down_resume_def)
    ultimately show ?thesis using True s3(2,4,6,7) by (intro exI [of _ "Switched (intr_on s)"] exI [of _ s3]) simp
  next
    case False
    let ?s3 = "?s2\<lparr>semas := (semas s2)(?R \<mapsto> r\<lparr>s_value := s_value r - 1\<rparr>)\<rparr>" and ?s4 = "s2\<lparr>intr_on := intr_on s, semas := (semas s2)(?R \<mapsto> r\<lparr>s_value := s_value r - 1\<rparr>)\<rparr>"
    have i4: "sched_inv ?s4"
    proof -
      have "distinct (s_waiters r)" using inv r waiters_of_sema(1) by (auto simp: sched_inv_def sched_core_def)
      then show ?thesis using r2 by (intro sched_inv_sema [OF s2(2), of ?R r "r\<lparr>s_value := s_value r - 1\<rparr>"]) simp_all
    qed
    have "sema_down_iter ?R ?s2 = Some (True, ?s3)" using r2 False by (simp add: sema_down_iter_def)
    moreover have "\<exists>x. intr_set_level (intr_on s) ?s3 = Some (x, ?s4)"
      using t2 s1(7) ctx by (cases "intr_on s") (auto simp: intr_set_level_def intr_enable_def intr_disable_def)
    ultimately have "signal_exit s = Some (Returned, ?s4)" using down by (auto simp: sema_down_resume_def)
    moreover have "same_threads s ?s4" using same_threads_trans [OF st2 same_threads_eq [of ?s4 ?s2]] by simp
    moreover have "semas ?s4 (ExitStatusReadSema d) = Some \<lparr>s_value = sz (s_value x + 1), s_waiters = tl (s_waiters x)\<rparr>"
      if "d \<in> set (t_children th)" "semas s (ExitStatusReadSema d) = Some x" for d x
      using n1 [OF that] that(1) ch(2) s2(5) by auto
    ultimately show ?thesis using False i4 s2(3,5) p2
      by (intro exI [of _ Returned] exI [of _ ?s4]) simp
  qed
qed

text \<open>
  C15: waiting gives the exit status. When the process waits for one of its children for the first time and the child has ended, \<^verbatim>\<open>process_wait\<close>
  returns the exit status at once, takes the child off the list, and lets it die; when it has not, the caller goes to
  sleep on the semaphore the child raises at its end, and the child is marked so that it cannot be waited for again.
\<close>

theorem wait_returns_exit_status:
  assumes inv: "sched_inv s" and ctx: "\<not> in_external_intr s" and ni: "running s \<noteq> idle_thread s" and th: "threads s (running s) = Some th"
    and c: "c \<in> set (t_children th)" "threads s c = Some ch" "t_tid ch = pid" "\<not> t_waited ch" "c \<noteq> running s"
    and uniq: "\<forall>d \<in> set (t_children th). d \<noteq> c \<longrightarrow> (\<exists>x. threads s d = Some x \<and> t_tid x \<noteq> pid)"
    and q: "semas s (ExitSema c) = Some q" and r: "semas s (ExitStatusReadSema c) = Some r"
  shows "if 0 < s_value q
    then \<exists>s' th'. process_wait pid s = Some (Some (t_exit_status ch), s') \<and> sched_inv s' \<and> running s' = running s \<and>
      threads s' (running s) = Some th' \<and> t_children th' = remove1 c (t_children th) \<and> intr_on s' = intr_on s \<and>
      semas s' (ExitStatusReadSema c) = Some \<lparr>s_value = sz (s_value r + 1), s_waiters = tl (s_waiters r)\<rparr> \<and>
      ready_list s' = ready_list s @ take 1 (s_waiters r)
    else \<exists>s' ch'. process_wait pid s = Some (None, s') \<and> sched_inv s' \<and> running s' \<noteq> running s \<and> status_of s' (running s) = Some THREAD_BLOCKED \<and>
      semas s' (ExitSema c) = Some (q\<lparr>s_waiters := s_waiters q @ [running s]\<rparr>) \<and> threads s' c = Some ch' \<and> t_waited ch' \<and> t_tid ch' = pid"
proof -
  let ?E = "ExitSema c" and ?R = "ExitStatusReadSema c" and ?t = "running s" and ?ch = "ch\<lparr>t_waited := True\<rparr>"
  have cur: "thread_current s = Some (?t, th)" using current_upd [OF inv th] .
  have ok: "threads_ok s" using inv by (simp add: sched_inv_def sched_core_def)
  have c0: "c \<noteq> NO_THREAD" using thread_not_null [OF ok c(2)] .
  let ?s1 = "s\<lparr>threads := (threads s)(c \<mapsto> ?ch)\<rparr>"
  have inv1: "sched_inv ?s1" using sched_inv_fields [OF inv c(2)] by simp
  have find: "find_child pid NO_THREAD (t_children th) s = Some c" using find_child_ok [OF c(1-3) uniq] .
  let ?s2 = "?s1\<lparr>intr_on := False\<rparr>"
  have inv2: "sched_inv ?s2" using inv1 by (simp only: sched_inv_intr)
  have q2: "semas ?s2 ?E = Some q" using q by simp
  have pw: "process_wait pid s = do { (r, s) \<leftarrow> sema_down_resume ?E (intr_on s) ?s2;
      case r of Returned \<Rightarrow> do { (stat, s) \<leftarrow> process_wait_end c s; Some (Some stat, s) } | Switched _ \<Rightarrow> Some (None, s) }"
    using cur find c0 c(2,4) ctx by (simp add: process_wait_def set_thread_def sema_down_def intr_context_def intr_disable_def)
  show ?thesis
  proof (cases "0 < s_value q")
    case True
    let ?q = "q\<lparr>s_value := s_value q - 1\<rparr>"
    let ?s3 = "?s1\<lparr>semas := (semas s)(?E \<mapsto> ?q)\<rparr>"
    have "distinct (s_waiters q)" using inv q waiters_of_sema(1) by (auto simp: sched_inv_def sched_core_def)
    then have inv3: "sched_inv ?s3" using q by (intro sched_inv_sema [OF inv1, of ?E q ?q]) simp_all
    have "sema_down_iter ?E ?s2 = Some (True, ?s2\<lparr>semas := (semas s)(?E \<mapsto> ?q)\<rparr>)" using q True by (simp add: sema_down_iter_def)
    moreover have "\<exists>x. intr_set_level (intr_on s) (?s2\<lparr>semas := (semas s)(?E \<mapsto> ?q)\<rparr>) = Some (x, ?s3)"
      using ctx by (cases "intr_on s") (auto simp: intr_set_level_def intr_enable_def intr_disable_def)
    ultimately have down: "sema_down_resume ?E (intr_on s) ?s2 = Some (Returned, ?s3)" by (auto simp: sema_down_resume_def)
    let ?th = "th\<lparr>t_children := remove1 c (t_children th)\<rparr>"
    let ?s4 = "?s3\<lparr>threads := (threads ?s3)(?t \<mapsto> ?th)\<rparr>"
    have t3: "threads ?s3 ?t = Some th" using th c(5) by simp
    have inv4: "sched_inv ?s4" by (rule sched_inv_fields [OF inv3 t3]) simp_all
    have r4: "semas ?s4 ?R = Some r" using r by simp
    obtain s5 where s5: "sema_up ?R ?s4 = Some s5" "sched_inv s5" "running s5 = ?t" "intr_on s5 = intr_on s"
        "semas s5 = (semas ?s4)(?R \<mapsto> \<lparr>s_value = sz (s_value r + 1), s_waiters = tl (s_waiters r)\<rparr>)"
        "ready_list s5 = ready_list s @ take 1 (s_waiters r)"
      using sema_up_ok [OF inv4 r4] ctx by auto
    have cur3: "thread_current ?s3 = Some (?t, th)" using current_upd [OF inv3] t3 by simp
    have "process_wait_end c ?s3 = Some (t_exit_status ch, s5)"
      using cur3 s5(1) t3 c(5) by (simp add: process_wait_end_def set_thread_def Let_def)
    then have "process_wait pid s = Some (Some (t_exit_status ch), s5)" unfolding pw down by simp
    moreover obtain st where "threads s5 ?t = Some (?th\<lparr>t_status := st\<rparr>)"
      using same_threadsD [OF conjunct1 [OF sema_up_same [OF s5(1)]], of ?t ?th] by auto
    ultimately show ?thesis using True s5 by auto
  next
    case False
    obtain s3 where s3: "sema_down_iter ?E ?s2 = Some (False, s3)" "sched_inv s3" "running s3 \<noteq> ?t"
        "semas s3 = (semas s)(?E \<mapsto> q\<lparr>s_waiters := s_waiters q @ [?t]\<rparr>)" "status_of s3 ?t = Some THREAD_BLOCKED"
      using sema_down_iter_wait [OF inv2 q2] False ctx ni by (auto simp: intr_context_def)
    obtain a where a: "thread_block a = Some s3" "threads a = threads ?s2" using s3(1) q False
      by (auto simp: sema_down_iter_def bind_eq_Some_iff Let_def split: if_splits)
    have "threads a c = Some ?ch" using a(2) by simp
    then obtain st where "threads s3 c = Some (?ch\<lparr>t_status := st\<rparr>)" using same_threadsD [of a s3 c] thread_block_same [OF a(1)] by blast
    moreover have "process_wait pid s = Some (None, s3)" unfolding pw using s3(1) by (simp add: sema_down_resume_def)
    ultimately show ?thesis using False s3 c(3) by auto
  qed
qed

text \<open>
  \<^verbatim>\<open>process_wait\<close> with an identifier that belongs to no child waits for the last child. The loop leaves its variable
  at the last element it looked at, and only an empty list makes the call return -1 as its comment says.
\<close>

theorem wait_unknown_waits_for_last:
  assumes cur: "thread_current s = Some (t, th)" and cs: "t_children th \<noteq> []" and un: "\<forall>d \<in> set (t_children th). \<exists>x. threads s d = Some x \<and> t_tid x \<noteq> pid"
    and l: "threads s (last (t_children th)) = Some x" and uniq: "\<forall>d \<in> set (t_children th). d \<noteq> last (t_children th) \<longrightarrow> map_option t_tid (threads s d) \<noteq> Some (t_tid x)"
  shows "process_wait pid s = process_wait (t_tid x) s"
proof -
  have "find_child pid NO_THREAD (t_children th) s = Some (last (t_children th))" using find_child_last [OF cs un] .
  moreover have "find_child (t_tid x) NO_THREAD (t_children th) s = Some (last (t_children th))"
    using un uniq cs by (intro find_child_ok [OF _ l]) fastforce+
  ultimately show ?thesis using cur by (simp add: process_wait_def)
qed

section \<open>A system on which they apply\<close>

text \<open>The main thread has two children: one has ended with status 42 and sleeps until that is read, the other is ready.\<close>

definition demo_family :: ksys where
  "demo_family = demo_sys\<lparr>threads := (threads demo_sys)(4096 \<mapsto> (init_thread_struct 4096 ''main'' 31)\<lparr>t_status := THREAD_RUNNING, t_tid := 1, t_children := [8192, 12288]\<rparr>,
       8192 \<mapsto> (init_thread_struct 8192 ''a'' 31)\<lparr>t_tid := 3, t_exit_status := 42\<rparr>,
       12288 \<mapsto> (init_thread_struct 12288 ''b'' 31)\<lparr>t_status := THREAD_READY, t_tid := 4\<rparr>),
     ready_list := [12288],
     semas := [ExitSema 4096 \<mapsto> \<lparr>s_value = 0, s_waiters = []\<rparr>, ExitStatusReadSema 4096 \<mapsto> \<lparr>s_value = 0, s_waiters = []\<rparr>,
       ExitSema 8192 \<mapsto> \<lparr>s_value = 1, s_waiters = []\<rparr>, ExitStatusReadSema 8192 \<mapsto> \<lparr>s_value = 0, s_waiters = [8192]\<rparr>,
       ExitSema 12288 \<mapsto> \<lparr>s_value = 0, s_waiters = []\<rparr>, ExitStatusReadSema 12288 \<mapsto> \<lparr>s_value = 0, s_waiters = []\<rparr>]\<rparr>"

lemma demo_family_inv: "sched_inv demo_family"
  by (auto simp: sched_inv_def sched_core_def threads_ok_def queue_ok_def waiters_ok_def status_of_def all_waiters_iff demo_family_def demo_sys_def
      init_thread_struct_def split: if_splits)

lemma demo_family_simps:
  "running demo_family = 4096" "\<not> in_external_intr demo_family" "idle_thread demo_family = 16384" "\<not> intr_on demo_family" "ready_list demo_family = [12288]"
  "\<exists>th. threads demo_family 4096 = Some th \<and> t_children th = [8192, 12288]"
  "\<exists>a. threads demo_family 8192 = Some a \<and> t_tid a = 3 \<and> t_exit_status a = 42 \<and> \<not> t_waited a"
  "\<exists>b. threads demo_family 12288 = Some b \<and> t_tid b = 4 \<and> \<not> t_waited b"
  "semas demo_family (ExitSema 4096) = Some \<lparr>s_value = 0, s_waiters = []\<rparr>" "semas demo_family (ExitStatusReadSema 4096) = Some \<lparr>s_value = 0, s_waiters = []\<rparr>"
  "semas demo_family (ExitSema 8192) = Some \<lparr>s_value = 1, s_waiters = []\<rparr>" "semas demo_family (ExitStatusReadSema 8192) = Some \<lparr>s_value = 0, s_waiters = [8192]\<rparr>"
  "semas demo_family (ExitSema 12288) = Some \<lparr>s_value = 0, s_waiters = []\<rparr>" "semas demo_family (ExitStatusReadSema 12288) = Some \<lparr>s_value = 0, s_waiters = []\<rparr>"
  by (simp_all add: demo_family_def demo_sys_def init_thread_struct_def)

lemma demo_family_threads:
  obtains th a b where "threads demo_family (running demo_family) = Some th" "t_children th = [8192, 12288]"
    "threads demo_family 8192 = Some a" "t_tid a = 3" "t_exit_status a = 42" "\<not> t_waited a"
    "threads demo_family 12288 = Some b" "t_tid b = 4" "\<not> t_waited b" "running demo_family \<noteq> idle_thread demo_family"
  using demo_family_simps(6-8) demo_family_simps(1,3) by auto

theorem exit_wakes_witness:
  "\<exists>s'. signal_exit demo_family = Some (Switched False, s') \<and> status_of s' 4096 = Some THREAD_BLOCKED \<and>
     semas s' (ExitSema 4096) = Some \<lparr>s_value = 1, s_waiters = []\<rparr> \<and> semas s' (ExitStatusReadSema 8192) = Some \<lparr>s_value = 1, s_waiters = []\<rparr>"
proof -
  obtain th a b where f: "threads demo_family (running demo_family) = Some th" "t_children th = [8192, 12288]" "running demo_family \<noteq> idle_thread demo_family"
    by (rule demo_family_threads)
  have "distinct (t_children th)" "running demo_family \<notin> set (t_children th)" "\<forall>d \<in> set (t_children th). semas demo_family (ExitStatusReadSema d) \<noteq> None"
    by (simp_all add: f(2) demo_family_simps)
  from exit_wakes_parent_and_children [OF demo_family_inv demo_family_simps(2) f(3,1) this] show ?thesis
    by (auto simp: f(2) demo_family_simps sz_def)
qed

theorem wait_witness:
  "(\<exists>s'. process_wait 3 demo_family = Some (Some 42, s') \<and> ready_list s' = [12288, 8192]) \<and>
   (\<exists>s'. process_wait 4 demo_family = Some (None, s') \<and> status_of s' 4096 = Some THREAD_BLOCKED)"
proof -
  obtain th a b where f: "threads demo_family (running demo_family) = Some th" "t_children th = [8192, 12288]"
    "threads demo_family 8192 = Some a" "t_tid a = 3" "t_exit_status a = 42" "\<not> t_waited a"
    "threads demo_family 12288 = Some b" "t_tid b = 4" "\<not> t_waited b" "running demo_family \<noteq> idle_thread demo_family"
    by (rule demo_family_threads)
  have c: "8192 \<in> set (t_children th)" "12288 \<in> set (t_children th)" "8192 \<noteq> running demo_family" "12288 \<noteq> running demo_family"
    "\<forall>d \<in> set (t_children th). d \<noteq> 8192 \<longrightarrow> (\<exists>x. threads demo_family d = Some x \<and> t_tid x \<noteq> 3)"
    "\<forall>d \<in> set (t_children th). d \<noteq> 12288 \<longrightarrow> (\<exists>x. threads demo_family d = Some x \<and> t_tid x \<noteq> 4)"
    by (simp_all add: f demo_family_simps(1))
  from wait_returns_exit_status [OF demo_family_inv demo_family_simps(2) f(10,1) c(1) f(3,4,6) c(3,5) demo_family_simps(11,12)]
  have "\<exists>s'. process_wait 3 demo_family = Some (Some 42, s') \<and> ready_list s' = [12288, 8192]" by (auto simp: f(5) demo_family_simps(5))
  moreover from wait_returns_exit_status [OF demo_family_inv demo_family_simps(2) f(10,1) c(2) f(7-9) c(4,6) demo_family_simps(13,14)]
  have "\<exists>s'. process_wait 4 demo_family = Some (None, s') \<and> status_of s' 4096 = Some THREAD_BLOCKED" by (auto simp: demo_family_simps(1))
  ultimately show ?thesis ..
qed

theorem wait_unknown_witness: "process_wait 77 demo_family = process_wait 4 demo_family"
proof -
  obtain th a b where f: "threads demo_family (running demo_family) = Some th" "t_children th = [8192, 12288]"
    "threads demo_family 8192 = Some a" "t_tid a = 3" "t_exit_status a = 42" "\<not> t_waited a"
    "threads demo_family 12288 = Some b" "t_tid b = 4" "\<not> t_waited b" "running demo_family \<noteq> idle_thread demo_family"
    by (rule demo_family_threads)
  show ?thesis
    using wait_unknown_waits_for_last [OF current_upd [OF demo_family_inv f(1)], of 77 b] by (simp add: f)
qed

text \<open>A blank command line stops the kernel: there is no first word to name the thread after.\<close>

theorem execute_blank_stops_kernel:
  assumes "vm_get_page 0 k = Some (Some page, k1)" and "on_vm (user_string fmw kesp file_name) k1 = Some (Inr fn, k2)" and "tokens [BLANK] fn = []"
    and "mallocs (vm k2) (malloc_no (vm k2))" and "thread_current (kern k) \<noteq> None"
  shows "process_execute fmw kesp start file_name k = None"
proof -
  have "\<exists>k3. on_vm (\<lambda>v. Some (vm_malloc v)) k2 = Some (True, k3)" using assms(4) by (simp add: on_vm_def vm_malloc_def)
  then show ?thesis using assms(1-3,5) by (cases "thread_current (kern k)") (auto simp: process_execute_def)
qed

end
