(* ===== verification/User_Memory.thy ===== *)
theory User_Memory
  imports Process
begin

text \<open>
  What a process sees in its memory, and that the kernel reads just that: an access to a mapped page gives the byte there and
  changes nothing but the accessed flag of the page.
\<close>

section \<open>Bytes of user memory\<close>

text \<open>The byte \<open>b\<close> lies at the user address \<open>va\<close>, in a frame that holds no part of the page tables.\<close>

definition user_byte :: "'a pgs_scheme \<Rightarrow> nat \<Rightarrow> nat \<Rightarrow> u8 \<Rightarrow> bool" where
  "user_byte s pd va b \<longleftrightarrow> is_user_vaddr va \<and>
     (\<exists>a. pagedir_get_page pd va s = Some (Some a) \<and> ram (pal s) a = b \<and> (\<forall>q \<in> pd_pages s pd. a \<notin> page_range q 1))"

definition user_mem :: "'a pgs_scheme \<Rightarrow> nat \<Rightarrow> nat \<Rightarrow> u8 list \<Rightarrow> bool" where
  "user_mem s pd va bs \<longleftrightarrow> (\<forall>i < length bs. user_byte s pd (va + i) (bs ! i))"

definition space_ok :: "'a pgs_scheme \<Rightarrow> nat \<Rightarrow> bool" where
  "space_ok s pd \<longleftrightarrow> pd_ok pd s \<and> cr3 s = pd - PHYS_BASE"

definition reads_only :: "nat \<Rightarrow> 'a pgs_scheme \<Rightarrow> 'a pgs_scheme \<Rightarrow> bool" where
  "reads_only pd s s' \<longleftrightarrow> only_memory s s' \<and> space_ok s' pd \<and> cr3 s' = cr3 s \<and> pd_pages s' pd = pd_pages s pd \<and>
     kernel_pool (pal s') = kernel_pool (pal s) \<and> user_pool (pal s') = user_pool (pal s) \<and>
     (\<forall>va. is_user_vaddr va \<longrightarrow> pagedir_get_page pd va s' = pagedir_get_page pd va s) \<and>
     (\<forall>x. (\<forall>q \<in> pd_pages s pd. x \<notin> page_range q 1) \<longrightarrow> ram (pal s') x = ram (pal s) x)"

lemma reads_only_refl: "space_ok s pd \<Longrightarrow> reads_only pd s s"
  by (simp add: reads_only_def)

lemma reads_only_trans: "reads_only pd s t \<Longrightarrow> reads_only pd t u \<Longrightarrow> reads_only pd s u"
  using only_memory_trans [of s t u] unfolding reads_only_def by simp

lemma reads_only_space: "reads_only pd s t \<Longrightarrow> space_ok t pd"
  by (simp add: reads_only_def)

lemma reads_only_byte: "reads_only pd s t \<Longrightarrow> user_byte t pd va b = user_byte s pd va b"
  unfolding reads_only_def user_byte_def by auto

lemma reads_only_mem: "reads_only pd s t \<Longrightarrow> user_mem t pd va bs = user_mem s pd va bs"
  unfolding user_mem_def by (simp add: reads_only_byte)

lemma user_mem_Cons: "user_mem s pd va (b # bs) \<longleftrightarrow> user_byte s pd va b \<and> user_mem s pd (va + 1) bs"
  unfolding user_mem_def by (simp add: All_less_Suc2)

lemma user_mem_append: "user_mem s pd va (bs @ cs) \<longleftrightarrow> user_mem s pd va bs \<and> user_mem s pd (va + length bs) cs"
  by (induction bs arbitrary: va) (simp_all add: user_mem_Cons, simp add: user_mem_def)

lemma user_byte_range: "user_byte s pd va b \<Longrightarrow> va < PHYS_BASE"
  by (simp add: user_byte_def is_user_vaddr_def)

lemma sz_user: "va < PHYS_BASE \<Longrightarrow> sz (va + n) = va + n" if "n \<le> PHYS_BASE div 4"
  using that by (simp add: sz_def PHYS_BASE_def)

section \<open>Reading\<close>

lemma mark_accessed:
  assumes ok: "space_ok s pd" and va: "is_user_vaddr va" and pt: "tab s pd (pd_no va) = Some pt"
  defines "t \<equiv> store_word (pt + 4 * pt_no va) (entry s pd (va div 2 ^ 12) OR PTE_A) s"
  shows "reads_only pd s t"
proof -
  let ?e = "entry s pd (va div 2 ^ 12)"
  have pk: "pd_ok pd s" and P: "pds_ok s {pd}" using ok by (simp_all add: space_ok_def pds_ok_def)
  have kp: "kernel_page pd" using pd_okD(2) [OF pk] .
  have vi: "pd_no va < pd_no PHYS_BASE" using user_index [OF va] by simp
  note p = pd_okD(6) [OF pk vi pt]
  have s1: "pd_ok pd t" "\<And>n. user_page_no n \<Longrightarrow> entry t pd n = (if n = va div 2 ^ 12 then ?e OR PTE_A else entry s pd n)"
    unfolding t_def using pds_store [OF P _ va pt, where w = "?e OR PTE_A"] by (simp_all add: pds_ok_def)
  have t1: "tab t pd j = tab s pd j" if "j < pd_no PHYS_BASE" for j
    unfolding t_def using p that kp by (intro tab_store_other) (auto simp: pt_no_def)
  then have pages: "pd_pages t pd = pd_pages s pd" by (auto simp: pd_pages_def)
  have "PTE_A AND PTE_ADDR = 0" "PTE_A AND PTE_P = 0" by (simp_all add: PTE_A_def PTE_P_def PTE_ADDR_def)
  then have w': "(?e OR PTE_A) AND PTE_P = ?e AND PTE_P" and wa: "(?e OR PTE_A) AND PTE_ADDR = ?e AND PTE_ADDR"
    by (simp_all add: word_ao_dist)
  then have w: "pte_get_page (?e OR PTE_A) = pte_get_page ?e" by (simp add: pte_get_page_def)
  have "pagedir_get_page pd x t = pagedir_get_page pd x s" if x: "is_user_vaddr x" for x
    unfolding get_page_entry [OF pk x] get_page_entry [OF s1(1) x] s1(2) [OF user_page_no_va [OF x]] Let_def using w w' by auto
  moreover have "ram (pal t) x = ram (pal s) x" if x: "\<forall>q \<in> pd_pages s pd. x \<notin> page_range q 1" for x
  proof -
    have "pt \<in> pd_pages s pd" using vi pt by (auto simp: pd_pages_def)
    then have "x \<notin> page_range pt 1" using x by blast
    moreover have "pt + 4 * pt_no va + d \<in> page_range pt 1" if "d < 4" for d
      using that by (simp add: page_range_def PGSIZE_def pt_no_def)
    ultimately have "x \<noteq> pt + 4 * pt_no va + d" if "d < 4" for d using that by metis
    from this [of 0] this [of 1] this [of 2] this [of 3] show ?thesis by (simp add: t_def store_word_def)
  qed
  moreover have "only_memory s t" "cr3 t = cr3 s" "kernel_pool (pal t) = kernel_pool (pal s)" "user_pool (pal t) = user_pool (pal s)"
    unfolding t_def store_word_def by (rule only_memoryI [where c = "cr3 s" and f = "flushes s"], simp_all)
  ultimately show ?thesis using s1(1) pages ok by (simp add: reads_only_def space_ok_def)
qed

lemma user_access_read:
  assumes ok: "space_ok s pd" and b: "user_byte s pd va b"
  shows "\<exists>a t. user_access fmw kesp False va s = Some (Inr a, t) \<and> ram (pal t) a = b \<and> reads_only pd s t"
proof -
  have va: "is_user_vaddr va" and pk: "pd_ok pd s" using ok b by (simp_all add: space_ok_def user_byte_def)
  obtain a where a: "pagedir_get_page pd va s = Some (Some a)" "ram (pal s) a = b" "\<forall>q \<in> pd_pages s pd. a \<notin> page_range q 1"
    using b by (auto simp: user_byte_def)
  let ?e = "entry s pd (va div 2 ^ 12)"
  obtain k where e: "?e AND PTE_P \<noteq> 0" "pte_get_page ?e = Some k" "a = k + pg_ofs va"
    using a(1) unfolding get_page_entry [OF pk va] by (auto simp: Let_def split: if_splits)
  obtain pt where pt: "tab s pd (pd_no va) = Some pt" "?e = word_at s (pt + 4 * pt_no va)"
    using e(1) unfolding entry_va by (auto split: option.splits)
  note r = mark_accessed [OF ok va pt(1)]
  have "active_pd s = Some pd" using ok pd_okD(2) [OF pk] by (intro active_kernel) (simp_all add: space_ok_def)
  then have "mmu_access False va s = Some (a, store_word (pt + 4 * pt_no va) (?e OR PTE_A) s)"
    using va e pt(1) unfolding pt(2) by (simp add: mmu_access_def lookup_page_found [OF pk va] Let_def)
  moreover have "ram (pal (store_word (pt + 4 * pt_no va) (?e OR PTE_A) s)) a = b" using r a(2,3) unfolding reads_only_def by simp
  ultimately show ?thesis using r by (simp add: user_access_def)
qed

lemma user_bytes_read:
  assumes "space_ok s pd" and "user_mem s pd va bs"
  shows "\<exists>t. user_bytes fmw kesp va (length bs) s = Some (Inr bs, t) \<and> reads_only pd s t"
  using assms
proof (induction bs arbitrary: va s)
  case Nil
  then show ?case by (simp add: reads_only_refl)
next
  case (Cons b bs)
  from Cons.prems(2) have b: "user_byte s pd va b" and bs: "user_mem s pd (va + 1) bs" by (simp_all add: user_mem_Cons)
  obtain a t where t: "user_access fmw kesp False va s = Some (Inr a, t)" "ram (pal t) a = b" "reads_only pd s t"
    using user_access_read [OF Cons.prems(1) b] by blast
  have "user_mem t pd (va + 1) bs" using bs reads_only_mem [OF t(3)] by simp
  from Cons.IH [OF reads_only_space [OF t(3)] this] obtain u where
    u: "user_bytes fmw kesp (va + 1) (length bs) t = Some (Inr bs, u)" "reads_only pd t u" by blast
  have "sz (va + 1) = va + 1" using user_byte_range [OF b] by (simp add: sz_user PHYS_BASE_def)
  then show ?case using t(1,2) u(1) reads_only_trans [OF t(3) u(2)] by simp
qed

lemma user_string_read:
  assumes "space_ok s pd" and "user_mem s pd va (bs @ [0])" and "0 \<notin> set bs"
  shows "\<exists>t. user_string fmw kesp va s = Some (Inr bs, t) \<and> reads_only pd s t"
  using assms
proof (induction bs arbitrary: va s)
  case Nil
  then have "user_byte s pd va 0" by (simp add: user_mem_Cons)
  from user_access_read [OF Nil(1) this] obtain a t where
    "user_access fmw kesp False va s = Some (Inr a, t)" "ram (pal t) a = 0" "reads_only pd s t" by blast
  then show ?case by (subst user_string.simps) simp
next
  case (Cons b bs)
  from Cons.prems(2) have b: "user_byte s pd va b" and bs: "user_mem s pd (va + 1) (bs @ [0])" by (simp_all add: user_mem_Cons)
  obtain a t where t: "user_access fmw kesp False va s = Some (Inr a, t)" "ram (pal t) a = b" "reads_only pd s t"
    using user_access_read [OF Cons.prems(1) b] by blast
  have "user_mem t pd (va + 1) (bs @ [0])" using bs reads_only_mem [OF t(3)] by simp
  from Cons.IH [OF reads_only_space [OF t(3)] this] Cons.prems(3) obtain u where
    u: "user_string fmw kesp (va + 1) t = Some (Inr bs, u)" "reads_only pd t u" by auto
  have "sz (va + 1) = va + 1" using user_byte_range [OF b] by (simp add: sz_user PHYS_BASE_def)
  then show ?case using t(1,2) u(1) reads_only_trans [OF t(3) u(2)] Cons.prems(3) by (subst user_string.simps) simp
qed

section \<open>Checking pointers\<close>

lemma valid_read:
  assumes "user_byte s (p_pagedir pr) va b" and "va \<noteq> 0"
  shows "is_valid_address_of_thread fmw pr va False esp s = Some (True, s)"
  using assms by (auto simp: is_valid_address_of_thread_def user_byte_def)

lemma valid_range_read:
  assumes "\<forall>i \<le> n. \<exists>b. user_byte s (p_pagedir pr) (va + i) b" and "va \<noteq> 0"
  shows "is_valid_address_range_of_thread fmw pr va (va + n) False esp s = Some (True, s)"
proof -
  have "valid_range_loop fmw pr x (va + n) False esp s = Some (True, s)" if "va \<le> x" for x
    using that
  proof (induction "va + n - x" arbitrary: x rule: less_induct)
    case less
    have en: "is_valid_address_of_thread fmw pr (va + n) False esp s = Some (True, s)"
      using assms valid_read [of s pr "va + n"] by fastforce
    show ?case
    proof (cases "x < va + n")
      case True
      then have "x - va \<le> n" "x = va + (x - va)" using less.prems by simp_all
      then obtain b where "user_byte s (p_pagedir pr) x b" using assms(1) by metis
      then have "is_valid_address_of_thread fmw pr x False esp s = Some (True, s)" using valid_read less.prems assms(2) by simp
      moreover have "valid_range_loop fmw pr (x + PGSIZE) (va + n) False esp s = Some (True, s)"
        using less True by (simp add: PGSIZE_def)
      ultimately show ?thesis using True by (subst valid_range_loop.simps) simp
    next
      case False
      then show ?thesis using en by (subst valid_range_loop.simps) simp
    qed
  qed
  then show ?thesis using assms(2) by (simp add: is_valid_address_range_of_thread_def)
qed

text \<open>Without a stack pointer to grow the stack from, the checks change nothing.\<close>

lemma valid_keeps:
  "is_valid_address_of_thread fmw pr va w 0 s = Some (r, s') \<Longrightarrow> s' = s"
  by (auto simp: is_valid_address_of_thread_def bind_eq_Some_iff split: if_splits option.splits)

end
