(* ===== verification/Syscall.thy ===== *)
theory Syscall
  imports User_Memory
begin

text \<open>
  The system calls, \<^verbatim>\<open>userprog/syscall.c\<close>: the handler checks the pointers that user code passes, takes the arguments from the
  user's stack and calls the operations of the theories \<open>Process\<close>, \<open>Page\<close> and \<open>Filesys\<close>. The calls are modelled as they run
  up to their end, or up to the point where the caller sleeps; \<open>sys_exec_resume\<close> and \<open>process_wait_resume\<close> continue them.
\<close>

section \<open>Outcomes\<close>

text \<open>
  A call returns, with a value for the register \<open>eax\<close> or leaving it as it is; or it does not return: the thread has exited
  (and possibly sleeps until its parent has read the status), it sleeps inside the call, or the machine is off.
\<close>

datatype stopped = Exited outcome | Asleep | PowerOff

type_synonym 'a call = "((stopped + 'a) \<times> kernel) option"

definition returning :: "'a \<Rightarrow> kernel \<Rightarrow> 'a call" where "returning a k = Some (Inr a, k)"

text \<open>What follows is skipped when a call does not return.\<close>

definition followed_by :: "'a call \<Rightarrow> ('a \<Rightarrow> kernel \<Rightarrow> 'b call) \<Rightarrow> 'b call" where
  "followed_by m f = do { (r, k) \<leftarrow> m; case r of Inl x \<Rightarrow> Some (Inl x, k) | Inr a \<Rightarrow> f a k }"

definition eax_bool :: "bool \<Rightarrow> u32 option" where "eax_bool b = Some (if b then 1 else 0)"

definition eax_int :: "int \<Rightarrow> u32 option" where "eax_int n = Some (word_of_int n)"

definition sys_exit :: "fm_writer \<Rightarrow> int \<Rightarrow> kernel \<Rightarrow> 'a call" where
  "sys_exit fmw status k = do { (r, k) \<leftarrow> exit_thread_with_status fmw status k; Some (Inl (Exited r), k) }"

definition sys_halt :: "kernel \<Rightarrow> 'a call" where "sys_halt k = Some (Inl PowerOff, k)"

section \<open>Pointers and arguments\<close>

text \<open>An access to user memory that may fault, and then may end the thread.\<close>

definition user_call :: "fm_writer \<Rightarrow> (vms \<Rightarrow> ((int + 'a) \<times> vms) option) \<Rightarrow> kernel \<Rightarrow> 'a call" where
  "user_call fmw f k = do {
     (r, k) \<leftarrow> on_vm f k;
     case r of Inl stat \<Rightarrow> sys_exit fmw stat k | Inr a \<Rightarrow> returning a k }"

definition CHECK_PTR :: "fm_writer \<Rightarrow> nat \<Rightarrow> bool \<Rightarrow> kernel \<Rightarrow> unit call" where
  "CHECK_PTR fmw p wants_to_write k = do {
     (ok, k) \<leftarrow> on_vm (\<lambda>v. do { t \<leftarrow> current_proc v; is_valid_address_of_thread fmw t p wants_to_write 0 v }) k;
     if \<not> ok then sys_exit fmw (-1) k else returning () k }"

definition CHECK_PTR_RANGE :: "fm_writer \<Rightarrow> nat \<Rightarrow> nat \<Rightarrow> bool \<Rightarrow> nat \<Rightarrow> kernel \<Rightarrow> unit call" where
  "CHECK_PTR_RANGE fmw start ending wants_to_write esp k = do {
     (ok, k) \<leftarrow> on_vm (\<lambda>v. do { t \<leftarrow> current_proc v; is_valid_address_range_of_thread fmw t start ending wants_to_write esp v }) k;
     if \<not> ok then sys_exit fmw (-1) k else returning () k }"

text \<open>A word of the user's memory, little-endian.\<close>

definition user_word :: "fm_writer \<Rightarrow> nat \<Rightarrow> nat \<Rightarrow> kernel \<Rightarrow> nat call" where
  "user_word fmw kesp p k =
     followed_by (user_call fmw (user_bytes fmw kesp p 4) k) (\<lambda>bs. returning (hd (words_of_bytes bs)))"

text \<open>The argument at the pointer and the pointer behind it.\<close>

definition GET_PARAM :: "fm_writer \<Rightarrow> nat \<Rightarrow> nat \<Rightarrow> kernel \<Rightarrow> (nat \<times> nat) call" where
  "GET_PARAM fmw kesp esp k =
     followed_by (CHECK_PTR fmw esp False k) (\<lambda>_ k.
       followed_by (user_word fmw kesp esp k) (\<lambda>w. returning (w, sz (esp + 4))))"

section \<open>The calls\<close>

text \<open>
  A string argument is read before the operation that takes it. Where the operation reads it under the lock of the file system,
  a fault that ends the thread stops the kernel, because the exit acquires that lock again.
\<close>

definition under_fs_lock :: "fm_writer \<Rightarrow> (vms \<Rightarrow> ((int + 'a) \<times> vms) option) \<Rightarrow> kernel \<Rightarrow> 'a call" where
  "under_fs_lock fmw f k = do {
     k \<leftarrow> do_vm (with_files lock_fs) k;
     followed_by (user_call fmw f k) (\<lambda>a k. do { k \<leftarrow> do_vm (with_files unlock_fs) k; returning a k }) }"

definition file_call :: "(nat \<Rightarrow> fsaccess \<Rightarrow> ('a \<times> fsaccess) option) \<Rightarrow> kernel \<Rightarrow> 'a call" where
  "file_call op k = do {
     (r, k) \<leftarrow> on_vm (\<lambda>v. do { p \<leftarrow> current_proc v; (r, t) \<leftarrow> op (p_tid p) (vm_fs v); Some (r, v\<lparr>vm_fs := t\<rparr>) }) k;
     returning r k }"

definition cwd_of :: "kernel \<Rightarrow> addr option" where
  "cwd_of k = do { (_, th) \<leftarrow> thread_current (kern k); Some (t_curr_dir th) }"

text \<open>What the check of an address inside an operation on files says.\<close>

definition valid_pointer :: "fm_writer \<Rightarrow> nat \<Rightarrow> kernel \<Rightarrow> bool call" where
  "valid_pointer fmw p k = do {
     (ok, k) \<leftarrow> on_vm (\<lambda>v. do { t \<leftarrow> current_proc v; is_valid_address_of_thread fmw t p False 0 v }) k;
     returning ok k }"

definition valid_range :: "fm_writer \<Rightarrow> nat \<Rightarrow> nat \<Rightarrow> bool \<Rightarrow> kernel \<Rightarrow> bool call" where
  "valid_range fmw start ending wants_to_write k = do {
     (ok, k) \<leftarrow> on_vm (\<lambda>v. do { t \<leftarrow> current_proc v; is_valid_address_range_of_thread fmw t start ending wants_to_write 0 v }) k;
     returning ok k }"

definition sys_create :: "fm_writer \<Rightarrow> dirent \<Rightarrow> nat \<Rightarrow> nat \<Rightarrow> nat \<Rightarrow> kernel \<Rightarrow> u32 option call" where
  "sys_create fmw junk kesp fe init_size k =
     followed_by (CHECK_PTR fmw fe False k) (\<lambda>_ k.
     followed_by (valid_pointer fmw fe k) (\<lambda>valid k.
     followed_by (if valid then user_call fmw (user_string fmw kesp fe) k else returning [] k) (\<lambda>path k. do {
       cwd \<leftarrow> cwd_of k;
       followed_by (file_call (\<lambda>_. create_file fmw junk cwd valid path init_size) k) (\<lambda>b. returning (eax_bool b)) })))"

definition sys_mkdir :: "fm_writer \<Rightarrow> dirent \<Rightarrow> nat \<Rightarrow> nat \<Rightarrow> kernel \<Rightarrow> u32 option call" where
  "sys_mkdir fmw junk kesp direc k =
     followed_by (CHECK_PTR fmw direc False k) (\<lambda>_ k.
     followed_by (valid_pointer fmw direc k) (\<lambda>valid k.
     followed_by (if valid then user_call fmw (user_string fmw kesp direc) k else returning [] k) (\<lambda>path k. do {
       cwd \<leftarrow> cwd_of k;
       followed_by (file_call (\<lambda>_. create_directory fmw junk cwd valid path) k) (\<lambda>b. returning (eax_bool b)) })))"

definition sys_remove :: "fm_writer \<Rightarrow> dirent \<Rightarrow> nat \<Rightarrow> nat \<Rightarrow> kernel \<Rightarrow> u32 option call" where
  "sys_remove fmw junk kesp fe k =
     followed_by (CHECK_PTR fmw fe False k) (\<lambda>_ k.
     followed_by (valid_pointer fmw fe k) (\<lambda>valid k.
     followed_by (if valid then user_call fmw (user_string fmw kesp fe) k else returning [] k) (\<lambda>path k. do {
       cwd \<leftarrow> cwd_of k;
       followed_by (file_call (\<lambda>_. remove_file_or_dir fmw junk cwd valid path) k) (\<lambda>b. returning (eax_bool b)) })))"

definition sys_open :: "fm_writer \<Rightarrow> dirent \<Rightarrow> nat \<Rightarrow> nat \<Rightarrow> kernel \<Rightarrow> u32 option call" where
  "sys_open fmw junk kesp fe k =
     followed_by (CHECK_PTR fmw fe False k) (\<lambda>_ k.
     followed_by (under_fs_lock fmw (user_string fmw kesp fe) k) (\<lambda>path k. do {
       cwd \<leftarrow> cwd_of k;
       followed_by (file_call (\<lambda>tid. open_file_or_dir fmw junk cwd tid path) k)
         (\<lambda>fd. returning (eax_int (case fd of None \<Rightarrow> -1 | Some n \<Rightarrow> int n))) }))"

text \<open>\<^verbatim>\<open>change_directory\<close> returns the new current directory, which the thread keeps.\<close>

definition sys_chdir :: "fm_writer \<Rightarrow> dirent \<Rightarrow> nat \<Rightarrow> nat \<Rightarrow> kernel \<Rightarrow> u32 option call" where
  "sys_chdir fmw junk kesp direc k =
     followed_by (CHECK_PTR fmw direc False k) (\<lambda>_ k.
     followed_by (under_fs_lock fmw (user_string fmw kesp direc) k) (\<lambda>path k. do {
       cwd \<leftarrow> cwd_of k;
       followed_by (file_call (\<lambda>_ t. do { (b, d, t) \<leftarrow> change_directory fmw junk cwd path t; Some ((b, d), t) }) k) (\<lambda>(b, d) k. do {
         k \<leftarrow> do_kern (\<lambda>s. set_thread (running s) (t_curr_dir_update (\<lambda>_. d)) s) k;
         returning (eax_bool b) k }) }))"

definition sys_filesize :: "nat \<Rightarrow> kernel \<Rightarrow> u32 option call" where
  "sys_filesize fno k = followed_by (file_call (\<lambda>tid. filelength_open_file tid fno) k) (\<lambda>n. returning (eax_int n))"

definition sys_seek :: "nat \<Rightarrow> nat \<Rightarrow> kernel \<Rightarrow> u32 option call" where
  "sys_seek fno pos k = followed_by (file_call (\<lambda>tid t. map_option (Pair ()) (seek_open_file tid fno pos t)) k) (\<lambda>_. returning None)"

definition sys_tell :: "nat \<Rightarrow> kernel \<Rightarrow> u32 option call" where
  "sys_tell fno k = followed_by (file_call (\<lambda>tid. tell_open_file tid fno) k) (\<lambda>n. returning (eax_int n))"

definition sys_close :: "fm_writer \<Rightarrow> nat \<Rightarrow> kernel \<Rightarrow> u32 option call" where
  "sys_close fmw fno k = followed_by (file_call (\<lambda>tid t. map_option (Pair ()) (close_open_file_or_dir fmw tid fno t)) k) (\<lambda>_. returning None)"

definition sys_isdir :: "nat \<Rightarrow> kernel \<Rightarrow> u32 option call" where
  "sys_isdir fno k = followed_by (file_call (\<lambda>tid t. Some (is_directory tid fno t, t)) k) (\<lambda>b. returning (eax_bool b))"

definition sys_inumber :: "nat \<Rightarrow> kernel \<Rightarrow> u32 option call" where
  "sys_inumber fno k = followed_by (file_call (\<lambda>tid t. do { n \<leftarrow> fd_inode_number tid fno t; Some (n, t) }) k) (\<lambda>n. returning (eax_int n))"

text \<open>
  The buffer is filled and read under the lock of the file system, all but the null byte behind what the keyboard gave. It is
  read as a whole before the file is written; \<open>keys\<close> is what will be typed.
\<close>

definition sys_read :: "fm_writer \<Rightarrow> u8 list \<Rightarrow> nat \<Rightarrow> nat \<Rightarrow> nat \<Rightarrow> nat \<Rightarrow> nat \<Rightarrow> kernel \<Rightarrow> u32 option call" where
  "sys_read fmw keys kesp fno buff len fesp k =
     followed_by (CHECK_PTR_RANGE fmw buff (sz (buff + len)) True fesp k) (\<lambda>_ k.
     followed_by (file_call (\<lambda>tid t. do { (n, bytes, t) \<leftarrow> read_open_file fmw keys tid fno len t; Some ((n, bytes), t) }) k) (\<lambda>(n, bytes) k.
     followed_by (under_fs_lock fmw (user_store fmw kesp buff (take (nat n) bytes)) k) (\<lambda>_ k.
     followed_by (user_call fmw (user_store fmw kesp (sz (buff + nat n)) (drop (nat n) bytes)) k) (\<lambda>_.
       returning (eax_int n)))))"

definition sys_write :: "fm_writer \<Rightarrow> nat \<Rightarrow> nat \<Rightarrow> nat \<Rightarrow> nat \<Rightarrow> kernel \<Rightarrow> u32 option call" where
  "sys_write fmw kesp fno buff len k =
     followed_by (CHECK_PTR_RANGE fmw buff (sz (buff + len)) False 0 k) (\<lambda>_ k.
     followed_by (valid_range fmw buff (sz (buff + len)) False k) (\<lambda>valid k.
     followed_by (file_call (\<lambda>tid t. Some (fno = 1 \<or> (case get_file_descriptor tid fno t of None \<Rightarrow> False | Some fd \<Rightarrow> fno \<noteq> 0 \<and> \<not> fd_is_dir fd), t)) k)
       (\<lambda>reads k.
     followed_by (if reads then under_fs_lock fmw (user_bytes fmw kesp buff len) k else returning [] k) (\<lambda>bytes k.
     followed_by (file_call (\<lambda>tid t. do { (n, out, t) \<leftarrow> write_open_file fmw valid tid fno bytes t; Some ((n, out), t) }) k) (\<lambda>(n, out) k.
       returning (eax_int n) (k\<lparr>console := console k @ out\<rparr>))))))"

definition sys_readdir :: "fm_writer \<Rightarrow> dirent \<Rightarrow> nat \<Rightarrow> nat \<Rightarrow> nat \<Rightarrow> kernel \<Rightarrow> u32 option call" where
  "sys_readdir fmw junk kesp fno name k =
     followed_by (CHECK_PTR fmw name True k) (\<lambda>_ k.
     followed_by (valid_range fmw name (sz (name + NAME_MAX + 1)) True k) (\<lambda>valid k.
     followed_by (file_call (\<lambda>tid. read_directory fmw junk valid tid fno) k) (\<lambda>r k.
       case r of
         None \<Rightarrow> returning (eax_bool False) k
       | Some n \<Rightarrow> followed_by (user_call fmw (user_store fmw kesp name (n @ [0])) k) (\<lambda>_. returning (eax_bool True)))))"

definition sys_mmap :: "nat \<Rightarrow> nat \<Rightarrow> kernel \<Rightarrow> u32 option call" where
  "sys_mmap fno pg k = do { (n, k) \<leftarrow> on_vm (memory_map_file fno pg) k; returning (eax_int n) k }"

definition sys_munmap :: "fm_writer \<Rightarrow> int \<Rightarrow> kernel \<Rightarrow> u32 option call" where
  "sys_munmap fmw m_id k = do { k \<leftarrow> do_vm (memory_unmap_file fmw m_id) k; returning None k }"

definition sys_wait :: "int \<Rightarrow> kernel \<Rightarrow> u32 option call" where
  "sys_wait pid k = do {
     (r, s) \<leftarrow> process_wait pid (kern k);
     let k = k\<lparr>kern := s\<rparr>;
     case r of None \<Rightarrow> Some (Inl Asleep, k) | Some stat \<Rightarrow> returning (eax_int stat) k }"

text \<open>The end of \<^verbatim>\<open>exec\<close>, when the child has said whether it was loaded.\<close>

definition sys_exec_end :: "int \<Rightarrow> kernel \<Rightarrow> u32 option call" where
  "sys_exec_end tid k = do {
     (_, th) \<leftarrow> thread_current (kern k);
     returning (eax_int (if t_child_born_status th = -1 then -1 else tid)) k }"

definition sys_exec :: "fm_writer \<Rightarrow> nat \<Rightarrow> nat \<Rightarrow> nat \<Rightarrow> kernel \<Rightarrow> u32 option call" where
  "sys_exec fmw kesp start fe k =
     followed_by (CHECK_PTR fmw fe False k) (\<lambda>_ k. do {
       (t, _) \<leftarrow> thread_current (kern k);
       k \<leftarrow> do_kern (set_thread t (t_child_born_status_update (\<lambda>_. 0))) k;
       (r, k) \<leftarrow> process_execute fmw kesp start fe k;
       case r of
         Inl x \<Rightarrow> Some (Inl (Exited x), k)
       | Inr None \<Rightarrow> Some (Inl Asleep, k)
       | Inr (Some tid) \<Rightarrow>
           if tid \<noteq> TID_ERROR then do {
             (r, s) \<leftarrow> sema_down (ChildSema t) (kern k);
             let k = k\<lparr>kern := s\<rparr>;
             case r of
               Returned \<Rightarrow> sys_exec_end tid k
             | Switched _ \<Rightarrow> Some (Inl Asleep, k) }
           else sys_exec_end tid k })"

definition sys_exec_resume :: "int \<Rightarrow> bool \<Rightarrow> kernel \<Rightarrow> u32 option call" where
  "sys_exec_resume tid lvl k = do {
     (r, s) \<leftarrow> sema_down_resume (ChildSema (running (kern k))) lvl (kern k);
     let k = k\<lparr>kern := s\<rparr>;
     case r of
       Returned \<Rightarrow> sys_exec_end tid k
     | Switched _ \<Rightarrow> Some (Inl Asleep, k) }"

section \<open>The handler\<close>

text \<open>One, two or three arguments from the stack.\<close>

definition with_1 :: "fm_writer \<Rightarrow> nat \<Rightarrow> nat \<Rightarrow> kernel \<Rightarrow> (nat \<Rightarrow> kernel \<Rightarrow> 'a call) \<Rightarrow> 'a call" where
  "with_1 fmw kesp esp k f = followed_by (GET_PARAM fmw kesp esp k) (\<lambda>(a, _). f a)"

definition with_2 :: "fm_writer \<Rightarrow> nat \<Rightarrow> nat \<Rightarrow> kernel \<Rightarrow> (nat \<Rightarrow> nat \<Rightarrow> kernel \<Rightarrow> 'a call) \<Rightarrow> 'a call" where
  "with_2 fmw kesp esp k f = followed_by (GET_PARAM fmw kesp esp k) (\<lambda>(a, esp) k. with_1 fmw kesp esp k (f a))"

definition with_3 :: "fm_writer \<Rightarrow> nat \<Rightarrow> nat \<Rightarrow> kernel \<Rightarrow> (nat \<Rightarrow> nat \<Rightarrow> nat \<Rightarrow> kernel \<Rightarrow> 'a call) \<Rightarrow> 'a call" where
  "with_3 fmw kesp esp k f = followed_by (GET_PARAM fmw kesp esp k) (\<lambda>(a, esp) k. with_2 fmw kesp esp k (f a))"

datatype syscall_nr = SYS_HALT | SYS_EXIT | SYS_EXEC | SYS_WAIT | SYS_CREATE | SYS_REMOVE | SYS_OPEN | SYS_FILESIZE | SYS_READ | SYS_WRITE
  | SYS_SEEK | SYS_TELL | SYS_CLOSE | SYS_MMAP | SYS_MUNMAP | SYS_CHDIR | SYS_MKDIR | SYS_READDIR | SYS_ISDIR | SYS_INUMBER

definition syscall_nrs :: "syscall_nr list" where
  "syscall_nrs = [SYS_HALT, SYS_EXIT, SYS_EXEC, SYS_WAIT, SYS_CREATE, SYS_REMOVE, SYS_OPEN, SYS_FILESIZE, SYS_READ, SYS_WRITE,
     SYS_SEEK, SYS_TELL, SYS_CLOSE, SYS_MMAP, SYS_MUNMAP, SYS_CHDIR, SYS_MKDIR, SYS_READDIR, SYS_ISDIR, SYS_INUMBER]"

text \<open>
  \<open>esp\<close> is the stack pointer of the user, \<open>start\<close> the address of \<^verbatim>\<open>start_process\<close>. The result is what the handler puts into \<open>eax\<close>.
  A number that is no system call has no effect.
\<close>

definition syscall_handler :: "fm_writer \<Rightarrow> dirent \<Rightarrow> u8 list \<Rightarrow> nat \<Rightarrow> nat \<Rightarrow> nat \<Rightarrow> kernel \<Rightarrow> u32 option call" where
  "syscall_handler fmw junk keys kesp start esp k =
     followed_by (CHECK_PTR fmw esp False k) (\<lambda>_ k.
     followed_by (user_word fmw kesp esp k) (\<lambda>syscall_id k.
       let fesp = sz (esp + 4) in
       if syscall_id < length syscall_nrs then
         case syscall_nrs ! syscall_id of
           SYS_HALT \<Rightarrow> sys_halt k
         | SYS_EXIT \<Rightarrow> with_1 fmw kesp fesp k (\<lambda>status. sys_exit fmw (bits_off status))
         | SYS_EXEC \<Rightarrow> with_1 fmw kesp fesp k (sys_exec fmw kesp start)
         | SYS_WAIT \<Rightarrow> with_1 fmw kesp fesp k (\<lambda>pid. sys_wait (bits_off pid))
         | SYS_CREATE \<Rightarrow> with_2 fmw kesp fesp k (sys_create fmw junk kesp)
         | SYS_REMOVE \<Rightarrow> with_1 fmw kesp fesp k (sys_remove fmw junk kesp)
         | SYS_OPEN \<Rightarrow> with_1 fmw kesp fesp k (sys_open fmw junk kesp)
         | SYS_FILESIZE \<Rightarrow> with_1 fmw kesp fesp k sys_filesize
         | SYS_READ \<Rightarrow> with_3 fmw kesp fesp k (\<lambda>fno buff size. sys_read fmw keys kesp fno buff size esp)
         | SYS_WRITE \<Rightarrow> with_3 fmw kesp fesp k (sys_write fmw kesp)
         | SYS_SEEK \<Rightarrow> with_2 fmw kesp fesp k sys_seek
         | SYS_TELL \<Rightarrow> with_1 fmw kesp fesp k sys_tell
         | SYS_CLOSE \<Rightarrow> with_1 fmw kesp fesp k (sys_close fmw)
         | SYS_MMAP \<Rightarrow> with_2 fmw kesp fesp k sys_mmap
         | SYS_MUNMAP \<Rightarrow> with_1 fmw kesp fesp k (\<lambda>m_id. sys_munmap fmw (bits_off m_id))
         | SYS_CHDIR \<Rightarrow> with_1 fmw kesp fesp k (sys_chdir fmw junk kesp)
         | SYS_MKDIR \<Rightarrow> with_1 fmw kesp fesp k (sys_mkdir fmw junk kesp)
         | SYS_READDIR \<Rightarrow> with_2 fmw kesp fesp k (sys_readdir fmw junk kesp)
         | SYS_ISDIR \<Rightarrow> with_1 fmw kesp fesp k sys_isdir
         | SYS_INUMBER \<Rightarrow> with_1 fmw kesp fesp k sys_inumber
       else returning None k))"

section \<open>The state that a call sees\<close>

definition vm_now :: "kernel \<Rightarrow> vms" where "vm_now k = (vm k)\<lparr>cur := running (kern k)\<rparr>"

text \<open>The running thread is a process with a sound page directory, which is loaded.\<close>

definition in_process :: "kernel \<Rightarrow> proc \<Rightarrow> bool" where
  "in_process k pr \<longleftrightarrow> procs (vm k) (running (kern k)) = Some pr \<and> space_ok (vm_now k) (p_pagedir pr)"

text \<open>From \<open>k\<close> to \<open>k'\<close> pages of the process were read and nothing else happened.\<close>

definition call_reads :: "proc \<Rightarrow> kernel \<Rightarrow> kernel \<Rightarrow> bool" where
  "call_reads pr k k' \<longleftrightarrow> kern k' = kern k \<and> console k' = console k \<and> reads_only (p_pagedir pr) (vm_now k) (vm_now k')"

definition sees :: "kernel \<Rightarrow> proc \<Rightarrow> nat \<Rightarrow> u8 list \<Rightarrow> bool" where
  "sees k pr va bs \<longleftrightarrow> user_mem (vm_now k) (p_pagedir pr) va bs"

lemma on_vm_now: "on_vm f k = map_option (\<lambda>(r, v). (r, k\<lparr>vm := v\<rparr>)) (f (vm_now k))"
  by (simp add: on_vm_def vm_now_def bind_Some_map split_def)

lemma do_vm_now: "do_vm f k = map_option (\<lambda>v. k\<lparr>vm := v\<rparr>) (f (vm_now k))"
  by (simp add: do_vm_def vm_now_def bind_Some_map)

lemma vm_now_simps [simp]:
  "vm_now (k\<lparr>vm := v\<rparr>) = v\<lparr>cur := running (kern k)\<rparr>" "vm_now (k\<lparr>console := c\<rparr>) = vm_now k" "cur (vm_now k) = running (kern k)"
  "procs (vm_now k) = procs (vm k)" "vm_fs (vm_now k) = vm_fs (vm k)" "(vm_now k)\<lparr>cur := running (kern k)\<rparr> = vm_now k"
  by (simp_all add: vm_now_def)

lemma same_cur: "cur v = t \<Longrightarrow> v\<lparr>cur := t\<rparr> = v" by auto

lemma in_processD: "in_process k pr \<Longrightarrow> current_proc (vm_now k) = Some pr \<and> space_ok (vm_now k) (p_pagedir pr)"
  by (simp add: in_process_def current_proc_def)

lemma call_reads_trans: "call_reads pr k k1 \<Longrightarrow> call_reads pr k1 k2 \<Longrightarrow> call_reads pr k k2"
  using reads_only_trans by (simp add: call_reads_def) blast

lemma call_reads_keeps:
  assumes r: "call_reads pr k k'"
  shows "in_process k pr \<Longrightarrow> in_process k' pr" and "sees k' pr va bs = sees k pr va bs" and "vm_fs (vm k') = vm_fs (vm k)"
proof -
  have r': "reads_only (p_pagedir pr) (vm_now k) (vm_now k')" "kern k' = kern k" using r by (simp_all add: call_reads_def)
  then have m: "only_memory (vm_now k) (vm_now k')" by (simp add: reads_only_def)
  show "in_process k pr \<Longrightarrow> in_process k' pr" using only_memoryD(2) [OF m] r' by (simp add: in_process_def reads_only_space)
  show "sees k' pr va bs = sees k pr va bs" using reads_only_mem [OF r'(1)] by (simp add: sees_def)
  show "vm_fs (vm k') = vm_fs (vm k)" using only_memoryD(5) [OF m] by simp
qed

text \<open>An operation on the memory that only reads pages.\<close>

lemma on_vm_reads:
  assumes "in_process k pr" and "f (vm_now k) = Some (r, v)" and "reads_only (p_pagedir pr) (vm_now k) v"
  shows "\<exists>k'. on_vm f k = Some (r, k') \<and> call_reads pr k k' \<and> vm k' = v"
proof -
  have "cur v = running (kern k)" using only_memoryD(3) [of "vm_now k" v] assms(3) by (simp add: reads_only_def)
  then show ?thesis using assms(2,3) by (simp add: on_vm_now call_reads_def same_cur)
qed

lemma followed_by_returning [simp]: "followed_by (returning a k) f = f a k"
  by (simp add: followed_by_def returning_def)

lemma followed_by_None [simp]: "followed_by None f = None"
  by (simp add: followed_by_def)

lemma CHECK_PTR_ok:
  assumes "in_process k pr" and "sees k pr p (b # bs)" and "p \<noteq> 0"
  shows "\<exists>k'. CHECK_PTR fmw p False k = returning () k' \<and> call_reads pr k k'"
proof -
  have "user_byte (vm_now k) (p_pagedir pr) p b" using assms(2) by (simp add: sees_def user_mem_Cons)
  note v = valid_read [OF this assms(3), of fmw 0]
  let ?f = "\<lambda>v. do { t \<leftarrow> current_proc v; is_valid_address_of_thread fmw t p False 0 v }"
  have "?f (vm_now k) = Some (True, vm_now k)" using v in_processD [OF assms(1)] by simp
  moreover have "reads_only (p_pagedir pr) (vm_now k) (vm_now k)" using in_processD [OF assms(1)] by (intro reads_only_refl) simp
  ultimately obtain k' where "on_vm ?f k = Some (True, k')" "call_reads pr k k'" using on_vm_reads [OF assms(1), where f = ?f] by blast
  then show ?thesis unfolding CHECK_PTR_def by auto
qed

lemma user_call_read:
  assumes "in_process k pr" and "sees k pr p bs"
  shows "\<exists>k'. user_call fmw (user_bytes fmw kesp p (length bs)) k = returning bs k' \<and> call_reads pr k k'"
proof -
  obtain t where "user_bytes fmw kesp p (length bs) (vm_now k) = Some (Inr bs, t)" "reads_only (p_pagedir pr) (vm_now k) t"
    using user_bytes_read in_processD [OF assms(1)] assms(2) unfolding sees_def by blast
  with on_vm_reads [OF assms(1), of "user_bytes fmw kesp p (length bs)"] obtain k' where
    "on_vm (user_bytes fmw kesp p (length bs)) k = Some (Inr bs, k')" "call_reads pr k k'" by blast
  then show ?thesis by (auto simp: user_call_def)
qed

lemma user_word_ok:
  assumes "in_process k pr" and "sees k pr p (u32_bytes w)" and "w < 2 ^ 32"
  shows "\<exists>k'. user_word fmw kesp p k = returning w k' \<and> call_reads pr k k'"
proof -
  have "length (u32_bytes w) = 4" by (simp add: u32_bytes_def)
  moreover have "hd (words_of_bytes (u32_bytes w)) = w" using u32_bytes_words [OF assms(3), of "[]"] by simp
  ultimately show ?thesis using user_call_read [OF assms(1,2), of fmw kesp] unfolding user_word_def by auto
qed

text \<open>The words of the user's stack.\<close>

definition stack_words :: "kernel \<Rightarrow> proc \<Rightarrow> nat \<Rightarrow> nat list \<Rightarrow> bool" where
  "stack_words k pr p ws \<longleftrightarrow> sees k pr p (concat (map u32_bytes ws)) \<and> p \<noteq> 0 \<and> (\<forall>w \<in> set ws. w < 2 ^ 32)"

lemma stack_words_Cons:
  assumes "stack_words k pr p (w # ws)"
  shows "\<exists>b bs. sees k pr p (b # bs)" and "sees k pr p (u32_bytes w)" and "w < 2 ^ 32" and "p \<noteq> 0" and "sz (p + 4) = p + 4"
    and "stack_words k pr (p + 4) ws"
proof -
  have "\<exists>b bs. u32_bytes w = b # bs" and l: "length (u32_bytes w) = 4" by (simp_all add: u32_bytes_def)
  moreover show s: "sees k pr p (u32_bytes w)" "w < 2 ^ 32" "p \<noteq> 0" using assms by (simp_all add: stack_words_def sees_def user_mem_append)
  ultimately show ex: "\<exists>b bs. sees k pr p (b # bs)" by metis
  then have "p < PHYS_BASE" using user_byte_range by (auto simp: sees_def user_mem_Cons)
  then show "sz (p + 4) = p + 4" by (simp add: sz_user PHYS_BASE_def)
  show "stack_words k pr (p + 4) ws" using assms l by (simp add: stack_words_def sees_def user_mem_append)
qed

lemma stack_words_reads: "call_reads pr k k' \<Longrightarrow> stack_words k' pr p ws = stack_words k pr p ws"
  by (simp add: stack_words_def call_reads_keeps(2))

lemma GET_PARAM_ok:
  assumes "in_process k pr" and "stack_words k pr p (w # ws)"
  shows "\<exists>k'. GET_PARAM fmw kesp p k = returning (w, p + 4) k' \<and> call_reads pr k k'"
proof -
  note w = stack_words_Cons [OF assms(2)]
  obtain k1 where k1: "CHECK_PTR fmw p False k = returning () k1" "call_reads pr k k1"
    using CHECK_PTR_ok [OF assms(1) _ w(4)] w(1) by blast
  obtain k2 where "user_word fmw kesp p k1 = returning w k2" "call_reads pr k1 k2"
    using user_word_ok [OF call_reads_keeps(1) [OF k1(2) assms(1)] _ w(3)] w(2) call_reads_keeps(2) [OF k1(2)] by blast
  then show ?thesis using k1 w(5) call_reads_trans by (auto simp: GET_PARAM_def)
qed

lemma with_1_ok:
  assumes "in_process k pr" and "stack_words k pr p (a # ws)"
  shows "\<exists>k'. with_1 fmw kesp p k f = f a k' \<and> call_reads pr k k'"
  using GET_PARAM_ok [OF assms, of fmw kesp] by (auto simp: with_1_def)

lemma with_2_ok:
  assumes "in_process k pr" and "stack_words k pr p (a # b # ws)"
  shows "\<exists>k'. with_2 fmw kesp p k f = f a b k' \<and> call_reads pr k k'"
proof -
  obtain k1 where k1: "GET_PARAM fmw kesp p k = returning (a, p + 4) k1" "call_reads pr k k1" using GET_PARAM_ok [OF assms] by blast
  have "stack_words k1 pr (p + 4) (b # ws)" using stack_words_Cons(6) [OF assms(2)] stack_words_reads [OF k1(2)] by simp
  from with_1_ok [OF call_reads_keeps(1) [OF k1(2) assms(1)] this, of fmw kesp "f a"] show ?thesis
    using k1 call_reads_trans by (auto simp: with_2_def)
qed

lemma with_3_ok:
  assumes "in_process k pr" and "stack_words k pr p (a # b # c # ws)"
  shows "\<exists>k'. with_3 fmw kesp p k f = f a b c k' \<and> call_reads pr k k'"
proof -
  obtain k1 where k1: "GET_PARAM fmw kesp p k = returning (a, p + 4) k1" "call_reads pr k k1" using GET_PARAM_ok [OF assms] by blast
  have "stack_words k1 pr (p + 4) (b # c # ws)" using stack_words_Cons(6) [OF assms(2)] stack_words_reads [OF k1(2)] by simp
  from with_2_ok [OF call_reads_keeps(1) [OF k1(2) assms(1)] this, of fmw kesp "f a"] show ?thesis
    using k1 call_reads_trans by (auto simp: with_3_def)
qed

text \<open>The handler up to the call.\<close>

definition handler_ready :: "fm_writer \<Rightarrow> nat \<Rightarrow> nat \<Rightarrow> proc \<Rightarrow> nat \<Rightarrow> kernel \<Rightarrow> kernel \<Rightarrow> bool" where
  "handler_ready fmw kesp esp pr nr k k2 \<longleftrightarrow> (\<exists>k1. CHECK_PTR fmw esp False k = returning () k1 \<and> user_word fmw kesp esp k1 = returning nr k2) \<and>
     call_reads pr k k2 \<and> in_process k2 pr \<and> sz (esp + 4) = esp + 4"

lemma handler_start:
  assumes "in_process k pr" and "stack_words k pr esp (nr # ws)"
  shows "\<exists>k2. handler_ready fmw kesp esp pr nr k k2 \<and> stack_words k2 pr (esp + 4) ws"
proof -
  note w = stack_words_Cons [OF assms(2)]
  obtain k1 where k1: "CHECK_PTR fmw esp False k = returning () k1" "call_reads pr k k1"
    using CHECK_PTR_ok [OF assms(1) _ w(4)] w(1) by blast
  obtain k2 where k2: "user_word fmw kesp esp k1 = returning nr k2" "call_reads pr k1 k2"
    using user_word_ok [OF call_reads_keeps(1) [OF k1(2) assms(1)] _ w(3)] w(2) call_reads_keeps(2) [OF k1(2)] by blast
  note r = call_reads_trans [OF k1(2) k2(2)]
  show ?thesis using k1(1) k2(1) r call_reads_keeps(1) [OF r assms(1)] w(5,6) stack_words_reads [OF r] unfolding handler_ready_def by blast
qed

section \<open>Ranges and files\<close>

lemma space_ok_pal: "pal t = pal s \<Longrightarrow> cr3 t = cr3 s \<Longrightarrow> space_ok t pd = space_ok s pd"
  using pd_ok_pal [of t s pd] by (simp add: space_ok_def)

lemma get_page_same_pal: "pd_ok pd s \<Longrightarrow> pal t = pal s \<Longrightarrow> is_user_vaddr va \<Longrightarrow> pagedir_get_page pd va t = pagedir_get_page pd va s"
  using get_page_entry [of pd s va] get_page_entry [of pd t va] entry_pal [of t s] pd_ok_pal [of t s pd] by simp

lemma reads_only_transfer:
  assumes r: "reads_only pd s t" and s: "space_ok s pd" and eq: "pal s' = pal s" "cr3 s' = cr3 s" "pal t' = pal t" "cr3 t' = cr3 t" and m: "only_memory s' t'"
  shows "reads_only pd s' t'"
proof -
  have t: "space_ok t pd" using r by (rule reads_only_space)
  have ok: "pd_ok pd s'" "pd_ok pd t'" using s t pd_ok_pal [OF eq(1)] pd_ok_pal [OF eq(3)] by (simp_all add: space_ok_def)
  have "tab s' pd i = tab s pd i" "tab t' pd i = tab t pd i" for i
    using word_at_pal [OF eq(1)] word_at_pal [OF eq(3)] by (simp_all add: tab_def)
  moreover have "pagedir_get_page pd va s' = pagedir_get_page pd va s" "pagedir_get_page pd va t' = pagedir_get_page pd va t" if "is_user_vaddr va" for va
    using get_page_same_pal [OF _ eq(1) that] get_page_same_pal [OF _ eq(3) that] s t by (simp_all add: space_ok_def)
  ultimately show ?thesis using r m eq ok t by (simp add: reads_only_def space_ok_def pd_pages_def)
qed

lemma user_mem_pal:
  assumes "space_ok s pd" and "pal t = pal s" and "cr3 t = cr3 s"
  shows "user_mem t pd va bs = user_mem s pd va bs"
proof -
  have ok: "pd_ok pd s" "pd_ok pd t" using assms pd_ok_pal [OF assms(2)] by (simp_all add: space_ok_def)
  have "tab t pd i = tab s pd i" for i using word_at_pal [OF assms(2)] by (simp add: tab_def)
  then have "pd_pages t pd = pd_pages s pd" by (simp add: pd_pages_def)
  then have "user_byte t pd x b = user_byte s pd x b" for x b
    using get_page_same_pal [OF ok(1) assms(2), of x] assms(2) unfolding user_byte_def by (cases "is_user_vaddr x") simp_all
  then show ?thesis by (simp add: user_mem_def)
qed

text \<open>The same kernel with other files.\<close>

definition files_of :: "fsaccess \<Rightarrow> kernel \<Rightarrow> kernel" where
  "files_of t k = k\<lparr>vm := (vm_now k)\<lparr>vm_fs := t\<rparr>\<rparr>"

lemma vm_now_files: "vm_now (files_of t k) = (vm_now k)\<lparr>vm_fs := t\<rparr>" by (simp add: files_of_def vm_now_def)

lemma files_of_keeps:
  assumes "in_process k pr"
  shows "in_process (files_of t k) pr" and "sees (files_of t k) pr va bs = sees k pr va bs" and "vm_fs (vm (files_of t k)) = t"
    "kern (files_of t k) = kern k" "console (files_of t k) = console k" "stack_words (files_of t k) pr p ws = stack_words k pr p ws"
proof -
  note n = vm_now_files [of t k]
  have sp: "space_ok (vm_now k) (p_pagedir pr)" using in_processD [OF assms] by simp
  show "in_process (files_of t k) pr" using assms space_ok_pal [of "(vm_now k)\<lparr>vm_fs := t\<rparr>" "vm_now k"] unfolding in_process_def n
    by (simp add: files_of_def)
  show s: "sees (files_of t k) pr va bs = sees k pr va bs" for va bs
    unfolding sees_def n by (rule user_mem_pal [OF sp]) simp_all
  show "stack_words (files_of t k) pr p ws = stack_words k pr p ws" unfolding stack_words_def s ..
  show "vm_fs (vm (files_of t k)) = t" "kern (files_of t k) = kern k" "console (files_of t k) = console k" by (simp_all add: files_of_def)
qed

lemma file_call_ok:
  assumes "in_process k pr" and "op (p_tid pr) (vm_fs (vm k)) = Some (r, t)"
  shows "file_call op k = returning r (files_of t k)"
  using in_processD [OF assms(1)] assms(2) by (simp add: file_call_def on_vm_now files_of_def)

lemma call_reads_same: "in_process k pr \<Longrightarrow> call_reads pr k (files_of (vm_fs (vm k)) k)"
proof -
  assume "in_process k pr"
  then have "reads_only (p_pagedir pr) (vm_now k) (vm_now k)" using in_processD reads_only_refl by blast
  moreover have "vm_now (files_of (vm_fs (vm k)) k) = vm_now k" by (simp add: files_of_def vm_now_def)
  moreover have "kern (files_of (vm_fs (vm k)) k) = kern k" "console (files_of (vm_fs (vm k)) k) = console k" by (simp_all add: files_of_def)
  ultimately show ?thesis unfolding call_reads_def by simp
qed

text \<open>Reading under the lock of the file system.\<close>

lemma under_fs_lock_ok:
  assumes p: "in_process k pr" and b: "sees k pr va bs" and lk: "\<not> files_lock (vm_fs (vm k))"
  shows "\<exists>k'. under_fs_lock fmw (user_bytes fmw kesp va (length bs)) k = returning bs k' \<and> call_reads pr k k'"
proof -
  let ?t = "vm_fs (vm k)" and ?pd = "p_pagedir pr"
  let ?k1 = "files_of (?t\<lparr>files_lock := True\<rparr>) k"
  have k1: "do_vm (with_files lock_fs) k = Some ?k1" using lk by (simp add: do_vm_now with_files_def lock_fs_def files_of_def)
  note f = files_of_keeps [OF p, of "?t\<lparr>files_lock := True\<rparr>"]
  obtain k2 where k2: "user_call fmw (user_bytes fmw kesp va (length bs)) ?k1 = returning bs k2" "call_reads pr ?k1 k2"
    using user_call_read [OF f(1)] b f(2) by blast
  have fs2: "vm_fs (vm k2) = ?t\<lparr>files_lock := True\<rparr>" using call_reads_keeps(3) [OF k2(2)] f(3) by simp
  let ?k3 = "files_of ?t k2"
  have "?t\<lparr>files_lock := False\<rparr> = ?t" using lk by (cases ?t) simp
  then have k3: "do_vm (with_files unlock_fs) k2 = Some ?k3" by (simp add: do_vm_now with_files_def unlock_fs_def files_of_def fs2)
  have r: "reads_only ?pd (vm_now ?k1) (vm_now k2)" "kern k2 = kern k" "console k2 = console k"
    using k2(2) f(4,5) by (simp_all add: call_reads_def)
  have n: "vm_now ?k1 = (vm_now k)\<lparr>vm_fs := ?t\<lparr>files_lock := True\<rparr>\<rparr>" "vm_now ?k3 = (vm_now k2)\<lparr>vm_fs := ?t\<rparr>" by (simp_all add: files_of_def vm_now_def)
  have "only_memory (vm_now k) (vm_now ?k3)"
  proof -
    obtain p c fl where "vm_now k2 = (vm_now ?k1)\<lparr>pal := p, cr3 := c, flushes := fl\<rparr>" using r(1) unfolding reads_only_def only_memory_def by auto
    then have "vm_now ?k3 = (vm_now k)\<lparr>pal := p, cr3 := c, flushes := fl\<rparr>" unfolding n by (simp add: vm_now_def)
    then show ?thesis by (rule only_memoryI)
  qed
  moreover have "space_ok (vm_now ?k1) ?pd" using f(1) in_processD by blast
  ultimately have "reads_only ?pd (vm_now k) (vm_now ?k3)" by (intro reads_only_transfer [OF r(1)]) (simp_all add: n)
  then have "call_reads pr k ?k3" using r(2,3) by (simp add: call_reads_def files_of_def)
  then show ?thesis using k1 k2(1) k3 by (auto simp: under_fs_lock_def)
qed

lemma range_seen:
  assumes "in_process k pr" and "sees k pr va (bs @ [b])" and "va \<noteq> 0"
  shows "\<exists>k'. CHECK_PTR_RANGE fmw va (sz (va + length bs)) False 0 k = returning () k' \<and> call_reads pr k k'"
    and "\<exists>k'. valid_range fmw va (sz (va + length bs)) False k = returning True k' \<and> call_reads pr k k'"
proof -
  let ?f = "\<lambda>v. do { t \<leftarrow> current_proc v; is_valid_address_range_of_thread fmw t va (va + length bs) False 0 v }"
  have b: "\<forall>i \<le> length bs. \<exists>c. user_byte (vm_now k) (p_pagedir pr) (va + i) c"
    using assms(2) unfolding sees_def user_mem_def by (auto simp: less_Suc_eq_le)
  then have "va + length bs < PHYS_BASE" using user_byte_range by blast
  then have z: "sz (va + length bs) = va + length bs" by (simp add: sz_def PHYS_BASE_def)
  have "?f (vm_now k) = Some (True, vm_now k)" using valid_range_read [OF b assms(3)] in_processD [OF assms(1)] by simp
  moreover have "reads_only (p_pagedir pr) (vm_now k) (vm_now k)" using in_processD [OF assms(1)] by (intro reads_only_refl) simp
  ultimately obtain k' where k': "on_vm ?f k = Some (True, k')" "call_reads pr k k'" using on_vm_reads [OF assms(1), where f = ?f] by blast
  show "\<exists>k'. CHECK_PTR_RANGE fmw va (sz (va + length bs)) False 0 k = returning () k' \<and> call_reads pr k k'"
    using k' unfolding CHECK_PTR_RANGE_def z by auto
  show "\<exists>k'. valid_range fmw va (sz (va + length bs)) False k = returning True k' \<and> call_reads pr k k'"
    using k' unfolding valid_range_def z by auto
qed

text \<open>A range that passes the check lies in user memory.\<close>

lemma valid_True: "is_valid_address_of_thread fmw t va w e s = Some (True, s') \<Longrightarrow> va \<noteq> 0 \<and> va < PHYS_BASE"
  by (auto simp: is_valid_address_of_thread_def is_user_vaddr_def split: if_splits)

lemma valid_range_loop_True: "valid_range_loop fmw t a b w e s = Some (True, s') \<Longrightarrow> b < PHYS_BASE"
proof (induction fmw t a b w e s rule: valid_range_loop.induct)
  case (1 fmw t a b w e s)
  then show ?case using valid_True
    by (subst (asm) (2) valid_range_loop.simps) (fastforce simp: bind_eq_Some_iff split: if_splits)
qed

lemma valid_range_True:
  "is_valid_address_range_of_thread fmw t a b w e s = Some (True, s') \<Longrightarrow> a \<noteq> 0 \<and> b \<noteq> 0 \<and> a \<le> b \<and> b < PHYS_BASE"
  using valid_range_loop_True by (auto simp: is_valid_address_range_of_thread_def split: if_splits)

text \<open>Without write access and stack growth the checks change nothing.\<close>

lemma valid_read_same: "is_valid_address_of_thread fmw t va False 0 s = Some (ok, s') \<Longrightarrow> s' = s"
  by (auto simp: is_valid_address_of_thread_def bind_eq_Some_iff split: if_splits option.splits)

lemma valid_range_loop_same: "\<not> w \<Longrightarrow> e = 0 \<Longrightarrow> valid_range_loop fmw t a b w e s = Some (ok, s') \<Longrightarrow> s' = s"
proof (induction fmw t a b w e s rule: valid_range_loop.induct)
  case (1 fmw t a b w e s)
  then show ?case using valid_read_same
    by (subst (asm) (2) valid_range_loop.simps) (fastforce simp: bind_eq_Some_iff split: if_splits)
qed

lemma valid_range_same: "is_valid_address_range_of_thread fmw t a b False 0 s = Some (ok, s') \<Longrightarrow> s' = s"
  using valid_range_loop_same by (auto simp: is_valid_address_range_of_thread_def split: if_splits)

text \<open>A range that starts at a bad address, ends at the null pointer or wraps around is refused at once.\<close>

lemma valid_range_refused:
  assumes "a = 0 \<or> PHYS_BASE \<le> a \<or> b = 0 \<or> b < a"
  shows "is_valid_address_range_of_thread fmw t a b w e s = Some (False, s)"
proof (cases "a = 0 \<or> b = 0 \<or> b < a")
  case False
  then have "PHYS_BASE \<le> a" "a \<le> b" using assms by auto
  then have "is_valid_address_of_thread fmw t a w e s = Some (False, s)" "is_valid_address_of_thread fmw t b w e s = Some (False, s)"
    by (auto simp: is_valid_address_of_thread_def is_user_vaddr_def)
  then show ?thesis by (simp add: is_valid_address_range_of_thread_def valid_range_loop.simps [of _ _ a])
qed (auto simp: is_valid_address_range_of_thread_def)

text \<open>What the check of a buffer does to the system.\<close>

definition range_check :: "fm_writer \<Rightarrow> nat \<Rightarrow> nat \<Rightarrow> bool \<Rightarrow> nat \<Rightarrow> kernel \<Rightarrow> (bool \<times> kernel) option" where
  "range_check fmw buff len w e k =
     on_vm (\<lambda>v. do { t \<leftarrow> current_proc v; is_valid_address_range_of_thread fmw t buff (sz (buff + len)) w e v }) k"

text \<open>The process ends with status -1 from the state in which the call started.\<close>

definition dies :: "fm_writer \<Rightarrow> kernel \<Rightarrow> u32 option call" where
  "dies fmw k = sys_exit fmw (-1) (k\<lparr>vm := vm_now k\<rparr>)"

lemma followed_by_exit: "followed_by (sys_exit fmw c k) f = sys_exit fmw c k"
  by (auto simp: followed_by_def sys_exit_def split: option.split prod.split bind_split)

lemma range_check_exit:
  assumes "range_check fmw buff len w e k = None \<or> (\<exists>k1. range_check fmw buff len w e k = Some (False, k1))"
  shows "followed_by (CHECK_PTR_RANGE fmw buff (sz (buff + len)) w e k) f =
    (case range_check fmw buff len w e k of None \<Rightarrow> None | Some (_, k1) \<Rightarrow> sys_exit fmw (-1) k1)"
  using assms by (auto simp: CHECK_PTR_RANGE_def range_check_def followed_by_exit)

section \<open>Properties\<close>

text \<open>
  C6: A pointer that a process may not use ends it with status -1. For the null pointer or one into the kernel as the stack
  pointer, or as the name that exec, create, remove, open, chdir, mkdir and readdir take, the whole call is that exit, from the state in
  which it started. So it is for a buffer of read or write that starts there, wraps around or ends at the null pointer. For a buffer that
  ends in the kernel, the whole call is the check of its addresses and then the exit; the check for write leaves the state as it
  is, the one for read, which may make the stack grow, leaves the threads and the console as they are. The reading or
  writing itself does not take place. (mmap checks no address: \<open>mmap_kernel_page_stops\<close>.)
\<close>

theorem bad_pointer_kills:
  assumes p: "in_process k pr" and bad: "p = 0 \<or> PHYS_BASE \<le> p"
  shows "syscall_handler fmw junk keys kesp start p k = dies fmw k \<and>
    (\<forall>call \<in> {sys_exec fmw kesp start, \<lambda>p. sys_create fmw junk kesp p n, sys_remove fmw junk kesp, sys_open fmw junk kesp, sys_chdir fmw junk kesp,
       sys_mkdir fmw junk kesp, sys_readdir fmw junk kesp n}. call p k = dies fmw k) \<and>
    (\<forall>buff len. p = buff \<or> sz (buff + len) < buff \<or> sz (buff + len) = 0 \<longrightarrow>
       sys_read fmw keys kesp n buff len esp k = dies fmw k \<and> sys_write fmw kesp n buff len k = dies fmw k) \<and>
    (\<forall>buff len. p = sz (buff + len) \<longrightarrow>
       sys_write fmw kesp n buff len k = (case range_check fmw buff len False 0 k of None \<Rightarrow> None | Some _ \<Rightarrow> dies fmw k) \<and>
       sys_read fmw keys kesp n buff len esp k = (case range_check fmw buff len True esp k of None \<Rightarrow> None | Some (_, k1) \<Rightarrow> sys_exit fmw (-1) k1) \<and>
       (\<forall>ok k1. range_check fmw buff len True esp k = Some (ok, k1) \<longrightarrow> \<not> ok \<and> kern k1 = kern k \<and> console k1 = console k))"
proof (intro conjI)
  have v: "is_valid_address_of_thread fmw t p w e s = Some (False, s)" for t w e s
    using bad by (auto simp: is_valid_address_of_thread_def is_user_vaddr_def)
  have c: "followed_by (CHECK_PTR fmw p w k) f = dies fmw k" for w and f :: "unit \<Rightarrow> kernel \<Rightarrow> u32 option call"
    using in_processD [OF p] v by (simp add: CHECK_PTR_def on_vm_now followed_by_exit dies_def)
  show "syscall_handler fmw junk keys kesp start p k = dies fmw k" unfolding syscall_handler_def by (rule c)
  show "\<forall>call \<in> {sys_exec fmw kesp start, \<lambda>p. sys_create fmw junk kesp p n, sys_remove fmw junk kesp, sys_open fmw junk kesp, sys_chdir fmw junk kesp,
       sys_mkdir fmw junk kesp, sys_readdir fmw junk kesp n}. call p k = dies fmw k"
    by (simp add: sys_exec_def sys_create_def sys_remove_def sys_open_def sys_chdir_def sys_mkdir_def sys_readdir_def c)
  show "\<forall>buff len. p = buff \<or> sz (buff + len) < buff \<or> sz (buff + len) = 0 \<longrightarrow>
       sys_read fmw keys kesp n buff len esp k = dies fmw k \<and> sys_write fmw kesp n buff len k = dies fmw k"
  proof (intro allI impI)
    fix buff len
    assume "p = buff \<or> sz (buff + len) < buff \<or> sz (buff + len) = 0"
    then have "range_check fmw buff len w e k = Some (False, k\<lparr>vm := vm_now k\<rparr>)" for w e
      using valid_range_refused [of buff "sz (buff + len)"] bad in_processD [OF p] by (auto simp: range_check_def on_vm_now)
    then have "followed_by (CHECK_PTR_RANGE fmw buff (sz (buff + len)) w e k) f = dies fmw k" for w e and f :: "unit \<Rightarrow> kernel \<Rightarrow> u32 option call"
      by (simp add: range_check_exit dies_def)
    then show "sys_read fmw keys kesp n buff len esp k = dies fmw k \<and> sys_write fmw kesp n buff len k = dies fmw k"
      unfolding sys_read_def sys_write_def by blast
  qed
  show "\<forall>buff len. p = sz (buff + len) \<longrightarrow>
       sys_write fmw kesp n buff len k = (case range_check fmw buff len False 0 k of None \<Rightarrow> None | Some _ \<Rightarrow> dies fmw k) \<and>
       sys_read fmw keys kesp n buff len esp k = (case range_check fmw buff len True esp k of None \<Rightarrow> None | Some (_, k1) \<Rightarrow> sys_exit fmw (-1) k1) \<and>
       (\<forall>ok k1. range_check fmw buff len True esp k = Some (ok, k1) \<longrightarrow> \<not> ok \<and> kern k1 = kern k \<and> console k1 = console k)"
  proof (intro allI impI)
    fix buff len
    assume b: "p = sz (buff + len)"
    have r: "\<not> ok \<and> (\<exists>u. k1 = k\<lparr>vm := u\<rparr> \<and> (\<not> w \<and> e = 0 \<longrightarrow> u = vm_now k))" if c: "range_check fmw buff len w e k = Some (ok, k1)" for w e ok k1
    proof -
      obtain u where u: "is_valid_address_range_of_thread fmw pr buff (sz (buff + len)) w e (vm_now k) = Some (ok, u)" "k1 = k\<lparr>vm := u\<rparr>"
        using c in_processD [OF p] by (auto simp: range_check_def on_vm_now)
      have "\<not> ok" using valid_range_True u(1) b bad by (cases ok) fastforce+
      then show ?thesis using u valid_range_same by auto
    qed
    have x: "followed_by (CHECK_PTR_RANGE fmw buff (sz (buff + len)) w e k) f =
        (case range_check fmw buff len w e k of None \<Rightarrow> None | Some (_, k1) \<Rightarrow> sys_exit fmw (-1) k1)" for w e and f :: "unit \<Rightarrow> kernel \<Rightarrow> u32 option call"
    proof (rule range_check_exit, cases "range_check fmw buff len w e k")
      case (Some x)
      then obtain ok k1 where "range_check fmw buff len w e k = Some (ok, k1)" by (cases x) simp
      with r [OF this] show "range_check fmw buff len w e k = None \<or> (\<exists>k1. range_check fmw buff len w e k = Some (False, k1))" by auto
    qed simp
    have "sys_write fmw kesp n buff len k = (case range_check fmw buff len False 0 k of None \<Rightarrow> None | Some _ \<Rightarrow> dies fmw k)"
      unfolding sys_write_def x dies_def using r by (cases "range_check fmw buff len False 0 k") auto
    moreover have "sys_read fmw keys kesp n buff len esp k = (case range_check fmw buff len True esp k of None \<Rightarrow> None | Some (_, k1) \<Rightarrow> sys_exit fmw (-1) k1)"
      unfolding sys_read_def by (rule x)
    ultimately show "sys_write fmw kesp n buff len k = (case range_check fmw buff len False 0 k of None \<Rightarrow> None | Some _ \<Rightarrow> dies fmw k) \<and>
       sys_read fmw keys kesp n buff len esp k = (case range_check fmw buff len True esp k of None \<Rightarrow> None | Some (_, k1) \<Rightarrow> sys_exit fmw (-1) k1) \<and>
       (\<forall>ok k1. range_check fmw buff len True esp k = Some (ok, k1) \<longrightarrow> \<not> ok \<and> kern k1 = kern k \<and> console k1 = console k)"
      using r by fastforce
  qed
qed

text \<open>
  The system call mmap takes any address: when the descriptor is that of a file with contents and the address is in the kernel, the
  walk of the page directory asserts that it is not, and the kernel stops.
\<close>

theorem mmap_kernel_page_stops:
  assumes "PHYS_BASE \<le> pg" and "pg < 2 ^ 32" and "0 < len" and "current_proc v = Some pr" and "pt_suppl_get (stack_junk v) pg (p_pt_suppl pr) = Some None"
  shows "mmap_loop fe len 0 pg v = None"
proof -
  have "sz (nat (int pg + 0)) = pg" using assms(2) by (simp add: sz_def)
  moreover have "pagedir_get_page (p_pagedir pr) pg v = None" using assms(1) by (simp add: pagedir_get_page_def is_user_vaddr_def)
  ultimately show ?thesis using assms(3-5) by (subst mmap_loop.simps) simp
qed

text \<open>
  Writing to descriptor 1 shows exactly the bytes of the buffer on the console. The arguments are the words on the user's stack; the
  files, the threads and what the process sees of its memory stay the same. The call returns 0, not the number of bytes written.
\<close>

theorem syscall_write_console:
  assumes p: "in_process k pr" and st: "stack_words k pr esp [9, 1, buff, length bs]" and buf: "sees k pr buff (bs @ [b])" "buff \<noteq> 0"
    and lk: "\<not> files_lock (vm_fs (vm k))"
  shows "\<exists>k'. syscall_handler fmw junk keys kesp start esp k = Some (Inr (Some 0), k') \<and> console k' = console k @ bs \<and> kern k' = kern k \<and>
    vm_fs (vm k') = vm_fs (vm k) \<and> in_process k' pr \<and> (\<forall>va cs. sees k' pr va cs = sees k pr va cs)"
proof -
  obtain k2 where k2: "handler_ready fmw kesp esp pr 9 k k2" "stack_words k2 pr (esp + 4) [1, buff, length bs]" using handler_start [OF p st] by blast
  then have i2: "in_process k2 pr" "call_reads pr k k2" by (simp_all add: handler_ready_def)
  obtain k3 where k3: "with_3 fmw kesp (esp + 4) k2 (sys_write fmw kesp) = sys_write fmw kesp 1 buff (length bs) k3" "call_reads pr k2 k3"
    using with_3_ok [OF i2(1) k2(2)] by blast
  have "syscall_nrs ! 9 = SYS_WRITE" "9 < length syscall_nrs" by (simp_all add: syscall_nrs_def)
  then have h: "syscall_handler fmw junk keys kesp start esp k = sys_write fmw kesp 1 buff (length bs) k3"
    using k2(1) k3(1) by (auto simp: handler_ready_def syscall_handler_def)
  note r3 = call_reads_trans [OF i2(2) k3(2)]
  have i3: "in_process k3 pr" using call_reads_keeps(1) [OF r3 p] .
  have s3: "sees k3 pr buff (bs @ [b])" using buf(1) call_reads_keeps(2) [OF r3] by simp
  obtain k4 where k4: "CHECK_PTR_RANGE fmw buff (sz (buff + length bs)) False 0 k3 = returning () k4" "call_reads pr k3 k4"
    using range_seen(1) [OF i3 s3 buf(2)] by blast
  note i4 = call_reads_keeps(1) [OF k4(2) i3]
  have s4: "sees k4 pr buff (bs @ [b])" using s3 call_reads_keeps(2) [OF k4(2)] by simp
  obtain k5 where k5: "valid_range fmw buff (sz (buff + length bs)) False k4 = returning True k5" "call_reads pr k4 k5"
    using range_seen(2) [OF i4 s4 buf(2)] by blast
  note i5 = call_reads_keeps(1) [OF k5(2) i4]
  let ?k6 = "files_of (vm_fs (vm k5)) k5"
  note r6 = call_reads_same [OF i5]
  have k6: "file_call (\<lambda>tid t. Some (1 = 1 \<or> (case get_file_descriptor tid 1 t of None \<Rightarrow> False | Some fd \<Rightarrow> 1 \<noteq> 0 \<and> \<not> fd_is_dir fd), t)) k5 = returning True ?k6"
    by (rule file_call_ok [OF i5]) simp
  note i6 = call_reads_keeps(1) [OF r6 i5]
  note r36 = call_reads_trans [OF k4(2) call_reads_trans [OF k5(2) r6]]
  note r06 = call_reads_trans [OF r3 r36]
  have s6: "sees ?k6 pr buff bs" using buf(1) call_reads_keeps(2) [OF r06] by (simp add: sees_def user_mem_append)
  have lk6: "\<not> files_lock (vm_fs (vm ?k6))" using lk call_reads_keeps(3) [OF r06] by simp
  obtain k7 where k7: "under_fs_lock fmw (user_bytes fmw kesp buff (length bs)) ?k6 = returning bs k7" "call_reads pr ?k6 k7"
    using under_fs_lock_ok [OF i6 s6 lk6] by blast
  note r7 = call_reads_trans [OF r06 k7(2)]
  note i7 = call_reads_keeps(1) [OF r7 p]
  have fs7: "vm_fs (vm k7) = vm_fs (vm k)" using call_reads_keeps(3) [OF r7] .
  have "(vm_fs (vm k))\<lparr>files_lock := False\<rparr> = vm_fs (vm k)" using lk by (cases "vm_fs (vm k)") simp
  then have w: "write_open_file fmw True (p_tid pr) 1 bs (vm_fs (vm k7)) = Some (0, bs, vm_fs (vm k7))"
    using lk by (simp add: write_open_file_def lock_fs_def unlock_fs_def fs7)
  let ?k8 = "files_of (vm_fs (vm k7)) k7"
  note r8 = call_reads_trans [OF r7 call_reads_same [OF i7]]
  have k8: "file_call (\<lambda>tid t. do { (n, out, t) \<leftarrow> write_open_file fmw True tid 1 bs t; Some ((n, out), t) }) k7 = returning (0, bs) ?k8"
    by (rule file_call_ok [OF i7]) (use w in simp)
  have e: "eax_int 0 = Some 0" by (simp add: eax_int_def)
  have "sys_write fmw kesp 1 buff (length bs) k3 = returning (Some 0) (?k8\<lparr>console := console ?k8 @ bs\<rparr>)"
    using k4(1) k5(1) k6 k7(1) k8 e by (simp add: sys_write_def)
  moreover have "console ?k8 = console k" "kern ?k8 = kern k" using r8 by (simp_all add: call_reads_def)
  moreover have "in_process ?k8 pr" "vm_fs (vm ?k8) = vm_fs (vm k)" "sees ?k8 pr va cs = sees k pr va cs" for va cs
    using call_reads_keeps [OF r8] p by simp_all
  ultimately show ?thesis unfolding h
    by (intro exI [of _ "?k8\<lparr>console := console ?k8 @ bs\<rparr>"]) (simp add: returning_def in_process_def sees_def)
qed

text \<open>C9: After \<^verbatim>\<open>seek\<close> to a position below 2 GB, \<^verbatim>\<open>tell\<close> returns it; nothing but the position of that file is changed.\<close>

theorem syscall_seek_tell:
  assumes p: "in_process k pr" and st: "stack_words k pr esp [10, n, pos]" "stack_words k pr esp' [11, n]" and lk: "\<not> files_lock (vm_fs (vm k))"
    and fd: "get_file_descriptor (p_tid pr) n (vm_fs (vm k)) = Some fd" "open_file fd \<noteq> NULL" "files (fs (vm_fs (vm k))) (open_file fd) = Some f"
    and pos: "pos < 2 ^ 31"
  shows "\<exists>k1 k2. syscall_handler fmw junk keys kesp start esp k = Some (Inr None, k1) \<and>
    syscall_handler fmw junk keys kesp start esp' k1 = Some (Inr (Some (of_nat pos)), k2) \<and> kern k2 = kern k \<and> console k2 = console k \<and>
    (\<forall>va cs. sees k2 pr va cs = sees k pr va cs) \<and>
    vm_fs (vm k2) = (vm_fs (vm k))\<lparr>fs := (fs (vm_fs (vm k)))\<lparr>files := (files (fs (vm_fs (vm k))))(open_file fd \<mapsto> f\<lparr>f_pos := int pos\<rparr>)\<rparr>\<rparr>"
proof -
  let ?t = "vm_fs (vm k)"
  let ?u = "?t\<lparr>fs := (fs ?t)\<lparr>files := (files (fs ?t))(open_file fd \<mapsto> f\<lparr>f_pos := int pos\<rparr>)\<rparr>\<rparr>"
  have unlock: "t\<lparr>files_lock := False\<rparr> = t" if "\<not> files_lock t" for t :: fsaccess using that by (cases t) simp
  have g: "get_file_descriptor (p_tid pr) n (t\<lparr>files_lock := l\<rparr>) = get_file_descriptor (p_tid pr) n t" for t l by (simp add: get_file_descriptor_def)
  have "bits_off pos = int pos" using pos by (simp add: bits_off_def)
  then have seek: "seek_open_file (p_tid pr) n pos ?t = Some ?u"
    using fd lk unlock [of ?u] by (simp add: seek_open_file_def lock_fs_def unlock_fs_def g file_seek_def upd_file_def)
  have tell: "tell_open_file (p_tid pr) n ?u = Some (int pos, ?u)"
    using fd lk unlock [of ?u] g by (simp add: tell_open_file_def lock_fs_def unlock_fs_def file_tell_def get_file_descriptor_def)
  have nr: "syscall_nrs ! 10 = SYS_SEEK" "10 < length syscall_nrs" "syscall_nrs ! 11 = SYS_TELL" "11 < length syscall_nrs" by (simp_all add: syscall_nrs_def)
  obtain k2 where k2: "handler_ready fmw kesp esp pr 10 k k2" "stack_words k2 pr (esp + 4) [n, pos]" using handler_start [OF p st(1)] by blast
  then have i2: "in_process k2 pr" "call_reads pr k k2" by (simp_all add: handler_ready_def)
  obtain k3 where k3: "with_2 fmw kesp (esp + 4) k2 sys_seek = sys_seek n pos k3" "call_reads pr k2 k3" using with_2_ok [OF i2(1) k2(2)] by blast
  note r3 = call_reads_trans [OF i2(2) k3(2)]
  note i3 = call_reads_keeps(1) [OF r3 p]
  have fs3: "vm_fs (vm k3) = ?t" using call_reads_keeps(3) [OF r3] .
  let ?k4 = "files_of ?u k3"
  note f4 = files_of_keeps [OF i3, of ?u]
  have "sys_seek n pos k3 = returning None ?k4"
    using file_call_ok [OF i3, of "\<lambda>tid t. map_option (Pair ()) (seek_open_file tid n pos t)"] seek fs3 by (simp add: sys_seek_def)
  then have h1: "syscall_handler fmw junk keys kesp start esp k = returning None ?k4"
    using k2(1) k3(1) nr by (auto simp: handler_ready_def syscall_handler_def)
  have "stack_words ?k4 pr esp' [11, n]" using st(2) f4(6) stack_words_reads [OF r3] by simp
  then obtain k5 where k5: "handler_ready fmw kesp esp' pr 11 ?k4 k5" "stack_words k5 pr (esp' + 4) [n]" using handler_start [OF f4(1)] by blast
  then have i5: "in_process k5 pr" "call_reads pr ?k4 k5" by (simp_all add: handler_ready_def)
  obtain k6 where k6: "with_1 fmw kesp (esp' + 4) k5 sys_tell = sys_tell n k6" "call_reads pr k5 k6" using with_1_ok [OF i5(1) k5(2)] by blast
  note r6 = call_reads_trans [OF i5(2) k6(2)]
  note i6 = call_reads_keeps(1) [OF r6 f4(1)]
  have fs6: "vm_fs (vm k6) = ?u" using call_reads_keeps(3) [OF r6] f4(3) by simp
  let ?k7 = "files_of ?u k6"
  note f7 = files_of_keeps [OF i6, of ?u]
  have e: "eax_int (int pos) = Some (of_nat pos)" unfolding eax_int_def by (simp add: of_int_of_nat_eq)
  have "sys_tell n k6 = returning (Some (of_nat pos)) ?k7"
    using file_call_ok [OF i6, of "\<lambda>tid. tell_open_file tid n"] tell fs6 e by (simp add: sys_tell_def)
  then have h2: "syscall_handler fmw junk keys kesp start esp' ?k4 = returning (Some (of_nat pos)) ?k7"
    using k5(1) k6(1) nr by (auto simp: handler_ready_def syscall_handler_def)
  have "kern ?k7 = kern k" "console ?k7 = console k" using r3 r6 f4(4,5) f7(4,5) by (simp_all add: call_reads_def)
  moreover have "sees ?k7 pr va cs = sees k pr va cs" for va cs
    using f7(2) call_reads_keeps(2) [OF r6] f4(2) call_reads_keeps(2) [OF r3] by simp
  ultimately show ?thesis using h1 h2 f7(3) by (intro exI [of _ ?k4] exI [of _ ?k7]) (simp add: returning_def)
qed

section \<open>Page faults under the lock of the file system\<close>

lemma exit_locked: "files_lock (vm_fs (vm k)) \<Longrightarrow> exit_thread_with_status fmw stat k = None"
proof -
  assume l: "files_lock (vm_fs (vm k))"
  have c: "close_all_files fmw j = None" if "vm j = vm k" for j
    using l that by (cases "procs (vm k) (running (kern j))") (simp_all add: close_all_files_def do_vm_def current_proc_def close_all_files_and_dir_def lock_fs_def)
  have x: "exit_thread fmw j = None" if "vm j = vm k" for j using c [OF that] by (simp add: exit_thread_def)
  have "vm j = vm k" if "do_kern f k = Some j" for f j using that by (auto simp: do_kern_def bind_eq_Some_iff)
  then have "do_kern f k \<bind> exit_thread fmw = None" for f using x by (cases "do_kern f k") simp_all
  then show ?thesis unfolding exit_thread_with_status_def by (cases "thread_current (kern k)") (simp_all add: split_def)
qed

lemma swap_in_locked: "files_lock (vm_fs s) \<Longrightarrow> vm_swap_in slot pg s = None"
proof -
  assume "files_lock (vm_fs s)"
  then have x: "swap_in_loop (Suc n) a (to_swap s) = None" for n a by (simp add: to_swap_def)
  have "SECTORS_PER_PAGE = Suc 7" by (simp add: SECTORS_PER_PAGE_def PGSIZE_def BLOCK_SECTOR_SIZE_def)
  then have "swap_in_loop SECTORS_PER_PAGE a (to_swap s) = None" for a using x by metis
  then show ?thesis by (simp add: vm_swap_in_def swap_in_def Let_def)
qed

text \<open>An access to a page that is not there never succeeds, and if it comes back at all, the thread has to exit.\<close>

lemma locked_access:
  assumes lk: "files_lock (vm_fs v)" and ok: "frames_ok v" and m: "\<forall>n. mallocs v n"
    and free: "\<exists>i < bit_cnt (used_map (user_pool (pal v))). i \<notin> bitmap_used (used_map (user_pool (pal v)))"
      "\<exists>i < bit_cnt (used_map (kernel_pool (pal v))). i \<notin> bitmap_used (used_map (kernel_pool (pal v)))"
    and pr: "procs v (cur v) = Some pr" "p_pagedir pr = pd" "space_ok v pd" "pd \<noteq> init_page_dir v"
    and top: "pool_end (user_pool (pal v)) \<le> PHYS_BASE + init_ram_pages v * 2 ^ 12"
    and va: "is_user_vaddr va" "PGSIZE \<le> va" and un: "pagedir_get_page pd va v = Some None" and tbl: "pt_wf (p_pt_suppl pr)"
    and gone: "case hash_map pt_vaddr (p_pt_suppl pr) (pg_round_down va) of Some e \<Rightarrow> IS_SWAPPED (pt_status e) \<and> pt_file_info e = None | None \<Rightarrow> va < sz (kesp + (2 ^ 32 - 32))"
  shows "user_access fmw kesp wr va v = None \<or> (\<exists>s. user_access fmw kesp wr va v = Some (Inl (-1), s) \<and> files_lock (vm_fs s))"
proof -
  let ?base = "pg_round_down va"
  have pk: "pd_ok pd v" and c: "cr3 v = pd - PHYS_BASE" using pr(3) by (simp_all add: space_ok_def)
  have "pg_round_down va = 4096 * (va div 4096)" by (simp add: pg_round_down_def PGBITS_def minus_mod_eq_mult_div)
  moreover have "1 \<le> va div 4096" using va(2) by (simp add: PGSIZE_def Suc_le_eq div_greater_zero_iff)
  ultimately have b: "?base \<noteq> 0" "is_user_vaddr ?base" "pg_ofs ?base = 0" "?base div 2 ^ 12 = va div 2 ^ 12"
    using va(1) by (auto simp: pg_ofs_def PGBITS_def is_user_vaddr_def PHYS_BASE_def)
  have v0: "va \<noteq> 0" "va < PHYS_BASE" using va by (auto simp: PGSIZE_def is_user_vaddr_def)
  have e0: "entry v pd (va div 2 ^ 12) AND PTE_P = 0"
    using un unfolding get_page_entry [OF pk va(1)] by (auto simp: Let_def split: if_splits)
  have "mmu_access wr va v = None"
    using va(1) e0 unfolding entry_va by (auto simp: mmu_access_def lookup_page_found [OF pk va(1)] Let_def active_kernel [OF pd_okD(2) [OF pk] c] split: option.splits)
  moreover have P: "((0 :: u32) OR x) AND PF_P = 0" if "x = 0 \<or> x = PF_W" for x using that by (auto simp: PF_P_def PF_W_def)
  ultimately have a: "user_access fmw kesp wr va v = do {
      (r, s) \<leftarrow> do { (handled, s) \<leftarrow> pt_suppl_handle_page_fault fmw va kesp v;
         if handled then do { success \<leftarrow> pagedir_get_page (p_pagedir pr) va s; Some (if success = None then Exit (-1) else Resume, s) } else Some (Exit (-1), s) };
      case r of Exit stat \<Rightarrow> Some (Inl stat, s) | Resume \<Rightarrow> do { (a, s) \<leftarrow> mmu_access wr va s; Some (Inr a, s) } }"
    using va(1) v0 pr(1,2) un by (simp add: user_access_def page_fault_def current_proc_def)
  show ?thesis
  proof (cases "hash_map pt_vaddr (p_pt_suppl pr) ?base")
    case None
    have "pt_suppl_handle_page_fault fmw va kesp v = Some (False, v)"
      using None gone v0 pr(1) pt_find_map [OF tbl b(1)]
      by (simp add: pt_suppl_handle_page_fault_def pt_suppl_get_entry_by_addr_def current_proc_def pt_suppl_check_and_grow_stack_def)
    then show ?thesis using a lk by simp
  next
    case (Some e)
    then have e: "pt_vaddr e = ?base" "IS_SWAPPED (pt_status e)" "pt_file_info e = None" using gone tbl by (auto simp: pt_wf_def hash_map_Some)
    have "PAL_USER AND PAL_USER \<noteq> 0" by (simp add: PAL_USER_def)
    from alloc_and_map [OF ok m this free(1) pk c pr(4) top b(2,3) e0 [folded b(4)] disjI2 [OF free(2)], of fmw]
    obtain k s1 s2 where s: "vm_frame_alloc fmw PAL_USER ?base v = Some (k, s1)" "pagedir_set_page pd ?base k True s1 = Some (True, s2)"
      "procs s1 = procs v" "cur s1 = cur v" "only_memory s1 s2" "vm_fs s1 = vm_fs v" by blast
    have "files_lock (vm_fs s2)" using lk s(6) only_memoryD(5) [OF s(5)] by simp
    then have "pt_suppl_page_in fmw e v = None"
      using s(1-4) e pr(1,2) by (simp add: pt_suppl_page_in_def current_proc_def swap_in_locked)
    then have "pt_suppl_handle_page_fault fmw va kesp v = None"
      using Some v0 pr(1) pt_find_map [OF tbl b(1)] by (simp add: pt_suppl_handle_page_fault_def pt_suppl_get_entry_by_addr_def current_proc_def)
    then show ?thesis using a by simp
  qed
qed

text \<open>
  C10: The calls that use a buffer or a name under the lock of the file system stop the kernel when the page they come to is not in memory:
  when it is in swap space, since bringing it back takes the lock again, and when the process has no such page, since ending the
  process does. \<^verbatim>\<open>open\<close> and \<^verbatim>\<open>chdir\<close> do so for any name on a page that was swapped out.
\<close>

theorem fault_under_lock_stops_kernel:
  assumes p: "in_process k pr" and lk: "\<not> files_lock (vm_fs (vm k))" and ok: "frames_ok (vm k)" and m: "\<forall>n. mallocs (vm k) n"
    and free: "\<exists>i < bit_cnt (used_map (user_pool (pal (vm k)))). i \<notin> bitmap_used (used_map (user_pool (pal (vm k))))"
      "\<exists>i < bit_cnt (used_map (kernel_pool (pal (vm k)))). i \<notin> bitmap_used (used_map (kernel_pool (pal (vm k))))"
    and pd: "p_pagedir pr \<noteq> init_page_dir (vm k)" "pool_end (user_pool (pal (vm k))) \<le> PHYS_BASE + init_ram_pages (vm k) * 2 ^ 12"
    and va: "is_user_vaddr va" "PGSIZE \<le> va" and un: "pagedir_get_page (p_pagedir pr) va (vm_now k) = Some None" and tbl: "pt_wf (p_pt_suppl pr)"
    and gone: "case hash_map pt_vaddr (p_pt_suppl pr) (pg_round_down va) of
      Some e \<Rightarrow> IS_SWAPPED (pt_status e) \<and> pt_file_info e = None | None \<Rightarrow> va < sz (kesp + (2 ^ 32 - 32))"
  shows "under_fs_lock fmw (user_bytes fmw kesp va (Suc n)) k = None \<and> under_fs_lock fmw (user_string fmw kesp va) k = None \<and>
    under_fs_lock fmw (user_store fmw kesp va (b # bs)) k = None \<and>
    (hash_map pt_vaddr (p_pt_suppl pr) (pg_round_down va) \<noteq> None \<longrightarrow> sys_open fmw junk kesp va k = None \<and> sys_chdir fmw junk kesp va k = None)"
proof -
  let ?t = "(vm_fs (vm k))\<lparr>files_lock := True\<rparr>"
  have stop: "under_fs_lock fmw f j = None"
    if j: "procs (vm j) = procs (vm k)" "vm_now j = vm_now k" and f: "f ((vm_now k)\<lparr>vm_fs := ?t\<rparr>) = None \<or> (\<exists>s. f ((vm_now k)\<lparr>vm_fs := ?t\<rparr>) = Some (Inl (-1), s) \<and> files_lock (vm_fs s))"
    for f :: "vms \<Rightarrow> ((int + 'x) \<times> vms) option" and j
  proof -
    let ?j = "files_of ?t j"
    have "vm_fs (vm j) = vm_fs (vm k)" using arg_cong [OF j(2), of vm_fs] by simp
    then have "do_vm (with_files lock_fs) j = Some ?j" using lk by (simp add: do_vm_now with_files_def lock_fs_def files_of_def)
    moreover have n: "vm_now ?j = (vm_now k)\<lparr>vm_fs := ?t\<rparr>" unfolding vm_now_files j(2) ..
    have "user_call fmw f ?j = None"
    proof (cases "f (vm_now ?j)")
      case None
      then show ?thesis by (simp add: user_call_def on_vm_now)
    next
      case (Some y)
      then obtain s where s: "f (vm_now ?j) = Some (Inl (-1), s)" "files_lock (vm_fs s)" using f unfolding n by auto
      then have "exit_thread_with_status fmw (-1) (?j\<lparr>vm := s\<rparr>) = None" by (intro exit_locked) simp
      then show ?thesis using s(1) by (simp add: user_call_def on_vm_now sys_exit_def)
    qed
    ultimately show ?thesis by (simp add: under_fs_lock_def followed_by_def)
  qed
  let ?v = "(vm_now k)\<lparr>vm_fs := ?t\<rparr>"
  have sp: "space_ok (vm_now k) (p_pagedir pr)" using in_processD [OF p] by simp
  have sp': "space_ok ?v (p_pagedir pr)" using sp space_ok_pal [of ?v "vm_now k"] by simp
  have un': "pagedir_get_page (p_pagedir pr) va ?v = Some None" using un get_page_same_pal [OF _ _ va(1), of _ "vm_now k" ?v] sp by (simp add: space_ok_def)
  have v: "files_lock (vm_fs ?v)" "frames_ok ?v" "\<forall>n. mallocs ?v n" "procs ?v (cur ?v) = Some pr" "p_pagedir pr \<noteq> init_page_dir ?v"
    "pool_end (user_pool (pal ?v)) \<le> PHYS_BASE + init_ram_pages ?v * 2 ^ 12"
    using ok m p pd by (simp_all add: frames_ok_def vm_now_def in_process_def)
  have fr: "\<exists>i < bit_cnt (used_map (user_pool (pal ?v))). i \<notin> bitmap_used (used_map (user_pool (pal ?v)))"
      "\<exists>i < bit_cnt (used_map (kernel_pool (pal ?v))). i \<notin> bitmap_used (used_map (kernel_pool (pal ?v)))" using free by (simp_all add: vm_now_def)
  note A = locked_access [OF v(1-3) fr v(4) refl sp' v(5,6) va un' tbl gone, of fmw]
  have bytes: "user_bytes fmw kesp va (Suc n) ?v = None \<or> (\<exists>s. user_bytes fmw kesp va (Suc n) ?v = Some (Inl (-1), s) \<and> files_lock (vm_fs s))"
    using A [of False] by auto
  have str: "user_string fmw kesp va ?v = None \<or> (\<exists>s. user_string fmw kesp va ?v = Some (Inl (-1), s) \<and> files_lock (vm_fs s))"
    using A [of False] by (subst (1 2) user_string.simps) auto
  have st: "user_store fmw kesp va (b # bs) ?v = None \<or> (\<exists>s. user_store fmw kesp va (b # bs) ?v = Some (Inl (-1), s) \<and> files_lock (vm_fs s))"
    using A [of True] by auto
  have "sys_open fmw junk kesp va k = None \<and> sys_chdir fmw junk kesp va k = None" if h: "hash_map pt_vaddr (p_pt_suppl pr) (pg_round_down va) \<noteq> None"
  proof -
    obtain e where e: "hash_map pt_vaddr (p_pt_suppl pr) (pg_round_down va) = Some e" "pt_file_info e = None" using h gone by auto
    have "1 \<le> va div 4096" using va(2) by (simp add: PGSIZE_def Suc_le_eq div_greater_zero_iff)
    then have "pg_round_down va \<noteq> 0" "va \<noteq> 0" by (auto simp: pg_round_down_def PGBITS_def minus_mod_eq_mult_div)
    then have "is_valid_address_of_thread fmw pr va False 0 (vm_now k) = Some (True, vm_now k)"
      using va(1) un e pt_find_map [OF tbl] in_processD [OF p] by (simp add: is_valid_address_of_thread_def pt_suppl_get_entry_by_addr_def)
    then have c: "CHECK_PTR fmw va False k = returning () (k\<lparr>vm := vm_now k\<rparr>)" using in_processD [OF p] by (simp add: CHECK_PTR_def on_vm_now)
    have "under_fs_lock fmw (user_string fmw kesp va) (k\<lparr>vm := vm_now k\<rparr>) = None" using stop [of "k\<lparr>vm := vm_now k\<rparr>" "user_string fmw kesp va", OF _ _ str] by simp
    then show ?thesis using c by (simp add: sys_open_def sys_chdir_def)
  qed
  then show ?thesis using stop [of k "user_bytes fmw kesp va (Suc n)", OF refl refl bytes] stop [of k "user_string fmw kesp va", OF refl refl str]
    stop [of k "user_store fmw kesp va (b # bs)", OF refl refl st] by blast
qed

section \<open>A process on which they apply\<close>

text \<open>The first page of the stack of the running process holds given bytes.\<close>

lemma maps_to_user_mem:
  assumes m: "maps_to s pd va k" and l: "length bs \<le> 4096" and b: "\<And>j. j < length bs \<Longrightarrow> ram (pal s) (k + j) = bs ! j"
  shows "space_ok s pd \<and> user_mem s pd va bs"
proof -
  have "user_byte s pd (va + j) (bs ! j)" if "j < length bs" for j
  proof -
    have j: "j < 4096" using that l by simp
    have "k + j \<in> page_range k 1" using j by (simp add: page_range_def PGSIZE_def)
    then have "\<forall>q \<in> pd_pages s pd. k + j \<notin> page_range q 1" using m by (auto simp: maps_to_def)
    then show ?thesis using maps_to_get [OF m j] b [OF that] page_parts [OF _ j] m unfolding user_byte_def maps_to_def by blast
  qed
  then show ?thesis using m by (simp add: user_mem_def space_ok_def maps_to_def)
qed

definition demo_proc :: proc where
  "demo_proc = \<lparr>p_tid = 1, p_pagedir = 0xC0100000, p_run_file = 0, p_pt_suppl = no_entries, p_pt_suppl_lock = False\<rparr>"

definition demo_stack :: nat where "demo_stack = PHYS_BASE - PGSIZE"

lemma demo_vms_free:
  "\<exists>i < bit_cnt (used_map (user_pool (pal demo_vms))). i \<notin> bitmap_used (used_map (user_pool (pal demo_vms)))"
  "\<exists>i < bit_cnt (used_map (kernel_pool (pal demo_vms))). i \<notin> bitmap_used (used_map (kernel_pool (pal demo_vms)))"
proof -
  show "\<exists>i < bit_cnt (used_map (user_pool (pal demo_vms))). i \<notin> bitmap_used (used_map (user_pool (pal demo_vms)))"
    by (rule exI [of _ 0]) (simp add: demo_vms_def demo_pgs_def demo_pool_def demo_unused)
  show "\<exists>i < bit_cnt (used_map (kernel_pool (pal demo_vms))). i \<notin> bitmap_used (used_map (kernel_pool (pal demo_vms)))"
    by (intro exI [of _ 1]) (simp add: demo_vms_def demo_pgs_def one_used)
qed

lemma demo_vms_facts:
  "procs demo_vms (cur demo_vms) = Some demo_proc" "\<forall>n. mallocs demo_vms n" "cr3 demo_vms = 0xC0100000 - PHYS_BASE" "0xC0100000 \<noteq> init_page_dir demo_vms"
  "pool_end (user_pool (pal demo_vms)) \<le> PHYS_BASE + init_ram_pages demo_vms * 2 ^ 12" "cur demo_vms = 1" "entry demo_vms 0xC0100000 n = 0"
proof -
  have "word_at demo_vms a = 0" for a using word_at_pal [of demo_vms demo_pgs] demo_word by (simp add: demo_vms_def)
  then show "entry demo_vms 0xC0100000 n = 0" by (simp add: entry_def tab_def)
qed (simp_all add: demo_vms_def demo_pgs_def demo_pool_def demo_proc_def pool_end_def PHYS_BASE_def PGSIZE_def)

lemma demo_caller:
  assumes "length bs \<le> 4096" and "files_lock t = l"
  shows "\<exists>k. in_process k demo_proc \<and> sees k demo_proc demo_stack bs \<and> vm_fs (vm k) = t \<and> console k = [] \<and> kern k = demo_sys\<lparr>running := 1\<rparr>"
proof -
  have B: "is_user_vaddr demo_stack" "pg_ofs demo_stack = 0" by (simp_all add: demo_stack_def is_user_vaddr_def pg_ofs_def PGBITS_def PHYS_BASE_def PGSIZE_def)
  have u: "PAL_USER AND PAL_USER \<noteq> 0" by (simp add: PAL_USER_def)
  have un: "entry demo_vms 0xC0100000 (demo_stack div 2 ^ 12) AND PTE_P = 0" by (simp add: demo_vms_facts(7))
  from alloc_and_map [OF demo_vms_ok(1) demo_vms_facts(2) u demo_vms_free(1) demo_vms_pd demo_vms_facts(3-5) B un disjI2 [OF demo_vms_free(2)], of "\<lambda>s. None"]
  obtain f and s1 s2 :: vms where s: "maps_to s2 0xC0100000 demo_stack f" "procs s1 = procs demo_vms" "cur s1 = cur demo_vms" "only_memory s1 (s2 :: vms)"
    by auto
  from store_bytes_page [OF s(1), of 0 bs] assms(1) obtain s3 where
    s3: "maps_to s3 0xC0100000 demo_stack f" "only_memory s2 s3" "\<And>j. j < 4096 \<Longrightarrow> j < length bs \<Longrightarrow> ram (pal s3) (f + j) = bs ! j" by auto
  let ?v = "s3\<lparr>vm_fs := t, cur := 1\<rparr>"
  have "maps_to ?v 0xC0100000 demo_stack f" by (rule maps_to_pal [OF s3(1)]) simp_all
  then have m: "space_ok ?v 0xC0100000 \<and> user_mem ?v 0xC0100000 demo_stack bs" using s3(3) assms(1) by (intro maps_to_user_mem) simp_all
  have "procs ?v 1 = Some demo_proc" using only_memoryD(2) [OF s3(2)] only_memoryD(2) [OF s(4)] s(2) demo_vms_facts(1,6) by simp
  then show ?thesis using m
    by (intro exI [of _ "\<lparr>kern = demo_sys\<lparr>running := 1\<rparr>, vm = ?v, console = []\<rparr>"]) (simp add: in_process_def sees_def vm_now_def demo_proc_def)
qed

text \<open>A program prints a line: the words for the call and then the text lie in the first page of its stack.\<close>

theorem syscall_write_witness:
  "\<exists>k k'. syscall_handler (\<lambda>s. None) [] [] 0 0 demo_stack k = Some (Inr (Some 0), k') \<and> console k' = [72, 105, 10]"
proof -
  let ?ws = "[9, 1, demo_stack + 16, length ([72, 105, 10] :: u8 list)]"
  have l: "length (concat (map u32_bytes ?ws)) = 16" by (simp add: u32_bytes_def)
  obtain k where k: "in_process k demo_proc" "sees k demo_proc demo_stack (concat (map u32_bytes ?ws) @ ([72, 105, 10] @ [0]))"
      "vm_fs (vm k) = demo_fds (demo_fs demo_cache)" "console k = []"
    using demo_caller [of "concat (map u32_bytes ?ws) @ ([72, 105, 10] @ [0])" "demo_fds (demo_fs demo_cache)" False] l by (auto simp: demo_fds_def)
  have b: "demo_stack \<noteq> 0" "demo_stack + 16 \<noteq> 0" "demo_stack + 16 < 2 ^ 32" by (simp_all add: demo_stack_def PHYS_BASE_def PGSIZE_def)
  have s: "sees k demo_proc demo_stack (concat (map u32_bytes ?ws))" "sees k demo_proc (demo_stack + 16) ([72, 105, 10] @ [0])"
    using k(2) l unfolding sees_def user_mem_append by simp_all
  then have st: "stack_words k demo_proc demo_stack ?ws" using b unfolding stack_words_def by simp
  have "\<not> files_lock (vm_fs (vm k))" by (simp add: k(3) demo_fds_def)
  from syscall_write_console [OF k(1) st s(2) b(2) this, of "\<lambda>s. None" "[]" "[]" 0 0] show ?thesis using k(4) by auto
qed

theorem syscall_seek_witness:
  "\<exists>k k1 k2 f. syscall_handler (\<lambda>s. None) [] [] 0 0 demo_stack k = Some (Inr None, k1) \<and>
     syscall_handler (\<lambda>s. None) [] [] 0 0 (demo_stack + 12) k1 = Some (Inr (Some 1000), k2) \<and>
     files (fs (vm_fs (vm k2))) 9 = Some f \<and> f_pos f = 1000"
proof -
  let ?ws = "[10, 2, 1000]" and ?us = "[11, 2]"
  let ?f = "\<lparr>f_inode = 1, f_pos = 0, f_deny_write = False, f_memory_mapped = False\<rparr>"
  let ?t = "(demo_fds ((demo_fs demo_cache)\<lparr>files := [9 \<mapsto> ?f]\<rparr>))\<lparr>open_files := [\<lparr>fd_num = 2, open_file = 9, open_dir = NULL, owner = 1, fd_is_dir = False\<rparr>]\<rparr>"
  have l: "length (concat (map u32_bytes ?ws)) = 12" "length (concat (map u32_bytes ?us)) = 8" by (simp_all add: u32_bytes_def)
  obtain k where k: "in_process k demo_proc" "sees k demo_proc demo_stack (concat (map u32_bytes ?ws) @ concat (map u32_bytes ?us))" "vm_fs (vm k) = ?t"
    using demo_caller [of "concat (map u32_bytes ?ws) @ concat (map u32_bytes ?us)" ?t False] l by (auto simp: demo_fds_def)
  have b: "demo_stack \<noteq> 0" by (simp add: demo_stack_def PHYS_BASE_def PGSIZE_def)
  have s: "sees k demo_proc demo_stack (concat (map u32_bytes ?ws))" "sees k demo_proc (demo_stack + 12) (concat (map u32_bytes ?us))"
    using k(2) l unfolding sees_def user_mem_append by simp_all
  have st: "stack_words k demo_proc demo_stack ?ws" using s(1) b unfolding stack_words_def by simp
  have su: "stack_words k demo_proc (demo_stack + 12) ?us" using s(2) b unfolding stack_words_def by simp
  have lk: "\<not> files_lock (vm_fs (vm k))" by (simp add: k(3) demo_fds_def)
  have fd: "get_file_descriptor (p_tid demo_proc) 2 (vm_fs (vm k)) = Some \<lparr>fd_num = 2, open_file = 9, open_dir = NULL, owner = 1, fd_is_dir = False\<rparr>"
    by (simp add: k(3) get_file_descriptor_def demo_proc_def)
  have fo: "files (fs (vm_fs (vm k))) (open_file \<lparr>fd_num = 2, open_file = 9, open_dir = NULL, owner = 1, fd_is_dir = False\<rparr>) = Some ?f"
    by (simp add: k(3) demo_fds_def)
  have n: "open_file \<lparr>fd_num = 2, open_file = 9, open_dir = NULL, owner = 1, fd_is_dir = False\<rparr> \<noteq> NULL" by simp
  have pos: "1000 < (2 :: nat) ^ 31" by simp
  from syscall_seek_tell [OF k(1) st su lk fd n fo pos, of "\<lambda>s. None" "[]" "[]" 0 0] obtain k1 k2 where
    "syscall_handler (\<lambda>s. None) [] [] 0 0 demo_stack k = Some (Inr None, k1)"
    "syscall_handler (\<lambda>s. None) [] [] 0 0 (demo_stack + 12) k1 = Some (Inr (Some (of_nat 1000)), k2)"
    "files (fs (vm_fs (vm k2))) 9 = Some (?f\<lparr>f_pos := int 1000\<rparr>)" by auto
  then show ?thesis by (intro exI [of _ k] exI [of _ k1] exI [of _ k2] exI [of _ "?f\<lparr>f_pos := 1000\<rparr>"]) simp
qed

definition demo_kernel :: kernel where
  "demo_kernel = \<lparr>kern = demo_sys\<lparr>running := 1\<rparr>, vm = demo_vms, console = []\<rparr>"

lemma demo_kernel_facts: "in_process demo_kernel demo_proc" "vm_now demo_kernel = demo_vms"
proof -
  show v: "vm_now demo_kernel = demo_vms" using demo_vms_facts(6) by (simp add: vm_now_def demo_kernel_def)
  show "in_process demo_kernel demo_proc"
    using demo_vms_facts(1,3,6) demo_vms_pd unfolding in_process_def v by (simp add: space_ok_def demo_kernel_def demo_proc_def)
qed

theorem bad_pointer_witness:
  "sys_open (\<lambda>s. None) [] 0 PHYS_BASE demo_kernel = sys_exit (\<lambda>s. None) (-1) demo_kernel \<and>
   sys_write (\<lambda>s. None) 0 1 PHYS_BASE 5 demo_kernel = sys_exit (\<lambda>s. None) (-1) demo_kernel \<and>
   syscall_handler (\<lambda>s. None) [] [] 0 0 0 demo_kernel = sys_exit (\<lambda>s. None) (-1) demo_kernel"
proof -
  have "demo_kernel\<lparr>vm := vm_now demo_kernel\<rparr> = demo_kernel" using demo_kernel_facts(2) by (simp add: demo_kernel_def)
  then have "sys_exit (\<lambda>s. None) (-1) demo_kernel = dies (\<lambda>s. None) demo_kernel" by (simp add: dies_def)
  then show ?thesis using bad_pointer_kills [OF demo_kernel_facts(1), of PHYS_BASE "\<lambda>s. None" "[]" "[]" 0 0]
      bad_pointer_kills [OF demo_kernel_facts(1), of 0 "\<lambda>s. None" "[]" "[]" 0 0] by simp
qed

theorem fault_under_lock_witness:
  "under_fs_lock (\<lambda>s. None) (user_string (\<lambda>s. None) 0xC0000000 0x8048000) demo_kernel = None"
proof -
  have a: "\<not> files_lock (vm_fs (vm demo_kernel))" "frames_ok (vm demo_kernel)" "\<forall>n. mallocs (vm demo_kernel) n" "p_pagedir demo_proc \<noteq> init_page_dir (vm demo_kernel)"
    "pool_end (user_pool (pal (vm demo_kernel))) \<le> PHYS_BASE + init_ram_pages (vm demo_kernel) * 2 ^ 12"
    using demo_vms_facts(2,4,5) demo_vms_ok(1) by (simp_all add: demo_kernel_def demo_proc_def) (simp add: demo_vms_def demo_fds_def)
  have f: "\<exists>i < bit_cnt (used_map (user_pool (pal (vm demo_kernel)))). i \<notin> bitmap_used (used_map (user_pool (pal (vm demo_kernel))))"
     "\<exists>i < bit_cnt (used_map (kernel_pool (pal (vm demo_kernel)))). i \<notin> bitmap_used (used_map (kernel_pool (pal (vm demo_kernel))))"
    using demo_vms_free by (simp_all add: demo_kernel_def)
  have u: "is_user_vaddr 0x8048000" "PGSIZE \<le> 0x8048000" by (simp_all add: is_user_vaddr_def PHYS_BASE_def PGSIZE_def)
  have g: "pagedir_get_page (p_pagedir demo_proc) 0x8048000 (vm_now demo_kernel) = Some None"
    unfolding demo_kernel_facts(2) using get_page_entry [OF demo_vms_pd u(1)] demo_vms_facts(7) by (simp add: demo_proc_def Let_def)
  have t: "pt_wf (p_pt_suppl demo_proc)" "hash_map pt_vaddr (p_pt_suppl demo_proc) = Map.empty" by (simp_all add: demo_proc_def pt_wf_def no_entries_wf)
  have h: "case hash_map pt_vaddr (p_pt_suppl demo_proc) (pg_round_down 0x8048000) of
      Some e \<Rightarrow> IS_SWAPPED (pt_status e) \<and> pt_file_info e = None | None \<Rightarrow> 0x8048000 < sz (0xC0000000 + (2 ^ 32 - 32))"
    by (simp add: t(2) sz_def)
  from fault_under_lock_stops_kernel [OF demo_kernel_facts(1) a(1-3) f a(4,5) u g t(1) h] show ?thesis by blast
qed

end
