(* ===== verification/Malloc.thy ===== *)
theory Malloc
  imports Palloc
begin

text \<open>
  The kernel's memory allocator, \<^verbatim>\<open>threads/malloc.c\<close>: blocks of seven sizes cut from pages, the arenas, and big blocks of
  whole pages. A header of an arena is an entry of \<open>arenas\<close> under the address of its page (without an entry the magic number
  is missing); a free list has the addresses of its blocks. Neither is shown in \<open>ram\<close>, where they lie in the page and in the
  free blocks themselves. The lock of a descriptor has to be free when it is acquired.
\<close>

section \<open>Descriptors and arenas\<close>

record desc =
  d_block_size :: nat
  blocks_per_arena :: nat
  free_list :: "nat list"
  d_lock :: bool

text \<open>The descriptor is given by its index, \<open>None\<close> for a big block.\<close>

record arena =
  a_desc :: "nat option"
  a_free_cnt :: nat

definition ARENA_SIZE :: nat where "ARENA_SIZE = 12"

record mheap =
  pages :: palloc
  descs :: "desc list"
  arenas :: "nat \<rightharpoonup> arena"

definition DESCS_MAX :: nat where "DESCS_MAX = 10"

function malloc_init_loop :: "nat \<Rightarrow> desc list \<Rightarrow> desc list option" where
  "malloc_init_loop bs ds =
     (if bs < PGSIZE div 2 \<and> 0 < bs then do {
        ASSERT (length ds + 1 \<le> DESCS_MAX);
        malloc_init_loop (bs * 2) (ds @ [\<lparr>d_block_size = bs, blocks_per_arena = (PGSIZE - ARENA_SIZE) div bs, free_list = [], d_lock = False\<rparr>]) }
      else Some ds)"
  by pat_completeness auto
termination by (relation "measure (\<lambda>(bs, ds). PGSIZE - bs)") (auto simp: PGSIZE_def)

declare malloc_init_loop.simps [simp del]

definition malloc_init :: "palloc \<Rightarrow> mheap option" where
  "malloc_init p = do { ds \<leftarrow> malloc_init_loop 16 []; Some \<lparr>pages = p, descs = ds, arenas = Map.empty\<rparr> }"

definition upd_desc :: "nat \<Rightarrow> (desc \<Rightarrow> desc) \<Rightarrow> mheap \<Rightarrow> mheap option" where
  "upd_desc d f s = do { ds \<leftarrow> arr_get (descs s) d; Some (s\<lparr>descs := (descs s)[d := f ds]\<rparr>) }"

definition block_to_arena :: "nat \<Rightarrow> mheap \<Rightarrow> (nat \<times> arena) option" where
  "block_to_arena b s = do {
     let a = pg_round_down b;
     ASSERT (a \<noteq> 0);
     ar \<leftarrow> arenas s a;
     (case a_desc ar of
        Some d \<Rightarrow> do { ds \<leftarrow> arr_get (descs s) d; ASSERT (sz (pg_ofs b + (2 ^ 32 - ARENA_SIZE)) mod d_block_size ds = 0) }
      | None \<Rightarrow> ASSERT (pg_ofs b = ARENA_SIZE));
     Some (a, ar) }"

definition arena_to_block :: "nat \<Rightarrow> nat \<Rightarrow> mheap \<Rightarrow> nat option" where
  "arena_to_block a idx s = do {
     ASSERT (a \<noteq> 0);
     ar \<leftarrow> arenas s a;
     d \<leftarrow> a_desc ar;
     ds \<leftarrow> arr_get (descs s) d;
     ASSERT (idx < blocks_per_arena ds);
     Some (sz (a + ARENA_SIZE + idx * d_block_size ds)) }"

section \<open>Allocation\<close>

text \<open>The index of the first descriptor whose blocks are large enough, or the number of descriptors.\<close>

fun find_desc :: "nat \<Rightarrow> desc list \<Rightarrow> nat" where
  "find_desc len [] = 0"
| "find_desc len (d # ds) = (if len \<le> d_block_size d then 0 else Suc (find_desc len ds))"

definition malloc_big :: "nat \<Rightarrow> mheap \<Rightarrow> (nat option \<times> mheap) option" where
  "malloc_big len s = do {
     let page_cnt = sz (len + ARENA_SIZE + (PGSIZE - 1)) div PGSIZE;
     (a, p) \<leftarrow> palloc_get_multiple 0 page_cnt (pages s);
     case a of
       None \<Rightarrow> Some (None, s\<lparr>pages := p\<rparr>)
     | Some a \<Rightarrow> Some (Some (a + ARENA_SIZE), s\<lparr>pages := p, arenas := (arenas s)(a \<mapsto> \<lparr>a_desc = None, a_free_cnt = page_cnt\<rparr>)\<rparr>) }"

text \<open>The blocks from number \<open>i\<close> on go to the end of the free list.\<close>

function add_blocks :: "nat \<Rightarrow> nat \<Rightarrow> nat \<Rightarrow> nat \<Rightarrow> mheap \<Rightarrow> mheap option" where
  "add_blocks a d i n s =
     (if i < n then do {
        b \<leftarrow> arena_to_block a i s;
        s \<leftarrow> upd_desc d (\<lambda>ds. ds\<lparr>free_list := free_list ds @ [b]\<rparr>) s;
        add_blocks a d (i + 1) n s }
      else Some s)"
  by pat_completeness auto
termination by (relation "measure (\<lambda>(a, d, i, n, s). n - i)") auto

declare add_blocks.simps [simp del]

definition new_arena :: "nat \<Rightarrow> desc \<Rightarrow> mheap \<Rightarrow> (bool \<times> mheap) option" where
  "new_arena d ds s = do {
     (a, p) \<leftarrow> palloc_get_page 0 (pages s);
     case a of
       None \<Rightarrow> Some (False, s\<lparr>pages := p\<rparr>)
     | Some a \<Rightarrow> do {
         s \<leftarrow> add_blocks a d 0 (blocks_per_arena ds) (s\<lparr>pages := p, arenas := (arenas s)(a \<mapsto> \<lparr>a_desc = Some d, a_free_cnt = blocks_per_arena ds\<rparr>)\<rparr>);
         Some (True, s) } }"

text \<open>A null pointer is \<open>None\<close>.\<close>

definition malloc :: "nat \<Rightarrow> mheap \<Rightarrow> (nat option \<times> mheap) option" where
  "malloc len s =
     (if len = 0 then Some (None, s)
      else do {
        let d = find_desc len (descs s);
        if d = length (descs s) then malloc_big len s
        else do {
          ds \<leftarrow> arr_get (descs s) d;
          ASSERT (\<not> d_lock ds);
          (ok, s) \<leftarrow> (if free_list ds = [] then new_arena d ds s else Some (True, s));
          if \<not> ok then Some (None, s)
          else do {
            ds \<leftarrow> arr_get (descs s) d;
            case free_list ds of
              [] \<Rightarrow> None
            | b # bs \<Rightarrow> do {
                s \<leftarrow> upd_desc d (free_list_update (\<lambda>_. bs)) s;
                (a, ar) \<leftarrow> block_to_arena b s;
                Some (Some b, s\<lparr>arenas := (arenas s)(a \<mapsto> ar\<lparr>a_free_cnt := sz (a_free_cnt ar + (2 ^ 32 - 1))\<rparr>)\<rparr>) } } } })"

definition mem_fill :: "nat \<Rightarrow> u8 \<Rightarrow> nat \<Rightarrow> mheap \<Rightarrow> mheap" where
  "mem_fill a v n s = s\<lparr>pages := fill a v n (pages s)\<rparr>"

definition mem_copy :: "nat \<Rightarrow> nat \<Rightarrow> nat \<Rightarrow> mheap \<Rightarrow> mheap" where
  "mem_copy to from n s = s\<lparr>pages := (pages s)\<lparr>ram := (\<lambda>x. if to \<le> x \<and> x < to + n then ram (pages s) (from + (x - to)) else ram (pages s) x)\<rparr>\<rparr>"

definition calloc :: "nat \<Rightarrow> nat \<Rightarrow> mheap \<Rightarrow> (nat option \<times> mheap) option" where
  "calloc a b s = do {
     let len = sz (a * b);
     if len < a \<or> len < b then Some (None, s)
     else do {
       (p, s) \<leftarrow> malloc len s;
       case p of None \<Rightarrow> Some (None, s) | Some q \<Rightarrow> Some (p, mem_fill q 0 len s) } }"

section \<open>Freeing and resizing\<close>

definition block_size :: "nat \<Rightarrow> mheap \<Rightarrow> nat option" where
  "block_size b s = do {
     (a, ar) \<leftarrow> block_to_arena b s;
     case a_desc ar of
       Some d \<Rightarrow> map_option d_block_size (arr_get (descs s) d)
     | None \<Rightarrow> Some (sz (PGSIZE * a_free_cnt ar + (2 ^ 32 - pg_ofs b))) }"

function remove_blocks :: "nat \<Rightarrow> nat \<Rightarrow> nat \<Rightarrow> nat \<Rightarrow> mheap \<Rightarrow> mheap option" where
  "remove_blocks a d i n s =
     (if i < n then do {
        b \<leftarrow> arena_to_block a i s;
        s \<leftarrow> upd_desc d (\<lambda>ds. ds\<lparr>free_list := remove1 b (free_list ds)\<rparr>) s;
        remove_blocks a d (i + 1) n s }
      else Some s)"
  by pat_completeness auto
termination by (relation "measure (\<lambda>(a, d, i, n, s). n - i)") auto

declare remove_blocks.simps [simp del]

text \<open>Freeing pages overwrites them, and with them the header of the arena.\<close>

definition drop_arena :: "nat \<Rightarrow> nat \<Rightarrow> mheap \<Rightarrow> mheap option" where
  "drop_arena a page_cnt s = do {
     p \<leftarrow> palloc_free_multiple a page_cnt (pages s);
     Some (s\<lparr>pages := p, arenas := (arenas s)(a := None)\<rparr>) }"

definition free :: "nat option \<Rightarrow> mheap \<Rightarrow> mheap option" where
  "free p s =
     (case p of
        None \<Rightarrow> Some s
      | Some b \<Rightarrow> do {
          (a, ar) \<leftarrow> block_to_arena b s;
          case a_desc ar of
            Some d \<Rightarrow> do {
              ds \<leftarrow> arr_get (descs s) d;
              let s = mem_fill b 0xcc (d_block_size ds) s;
              ASSERT (\<not> d_lock ds);
              s \<leftarrow> upd_desc d (\<lambda>ds. ds\<lparr>free_list := b # free_list ds\<rparr>) s;
              let cnt = sz (a_free_cnt ar + 1);
              let s = s\<lparr>arenas := (arenas s)(a \<mapsto> ar\<lparr>a_free_cnt := cnt\<rparr>)\<rparr>;
              if blocks_per_arena ds \<le> cnt then do {
                ASSERT (cnt = blocks_per_arena ds);
                s \<leftarrow> remove_blocks a d 0 (blocks_per_arena ds) s;
                drop_arena a 1 s }
              else Some s }
          | None \<Rightarrow> drop_arena a (a_free_cnt ar) s })"

definition realloc :: "nat option \<Rightarrow> nat \<Rightarrow> mheap \<Rightarrow> (nat option \<times> mheap) option" where
  "realloc old_block new_size s =
     (if new_size = 0 then do { s \<leftarrow> free old_block s; Some (None, s) }
      else do {
        (new_block, s) \<leftarrow> malloc new_size s;
        case (old_block, new_block) of
          (Some old, Some new) \<Rightarrow> do {
            old_size \<leftarrow> block_size old s;
            let min_size = (if new_size < old_size then new_size else old_size);
            s \<leftarrow> free old_block (mem_copy new old min_size s);
            Some (new_block, s) }
        | _ \<Rightarrow> Some (new_block, s) })"

section \<open>The blocks of an arena\<close>

definition bsz :: "nat \<Rightarrow> nat" where "bsz d = 16 * 2 ^ d"
definition nblk :: "nat \<Rightarrow> nat" where "nblk d = (PGSIZE - ARENA_SIZE) div bsz d"
definition blk :: "nat \<Rightarrow> nat \<Rightarrow> nat \<Rightarrow> nat" where "blk a d i = a + ARENA_SIZE + i * bsz d"
definition blks :: "nat \<Rightarrow> nat \<Rightarrow> nat set" where "blks a d = blk a d ` {..<nblk d}"

lemma blk_room: "i < nblk d \<Longrightarrow> ARENA_SIZE + i * bsz d + bsz d \<le> PGSIZE"
proof -
  assume "i < nblk d"
  then have "Suc i * bsz d \<le> (PGSIZE - ARENA_SIZE) div bsz d * bsz d" unfolding nblk_def by (intro mult_le_mono1) simp
  also have "\<dots> \<le> PGSIZE - ARENA_SIZE" by (rule div_times_less_eq_dividend)
  finally show ?thesis by (simp add: PGSIZE_def ARENA_SIZE_def)
qed

lemma bsz_pos: "0 < bsz d" by (simp add: bsz_def)

lemma in_page: "pg_ofs a = 0 \<Longrightarrow> x < PGSIZE \<Longrightarrow> pg_round_down (a + x) = a \<and> pg_ofs (a + x) = x"
proof -
  assume "pg_ofs a = 0" and x: "x < PGSIZE"
  then have "(a + x) mod 2 ^ PGBITS = x" by (auto simp: pg_ofs_def PGBITS_def PGSIZE_def mod_add_eq [symmetric, of a])
  then show ?thesis by (simp add: pg_round_down_def pg_ofs_def)
qed

lemma blk_page: "pg_ofs a = 0 \<Longrightarrow> i < nblk d \<Longrightarrow> pg_round_down (blk a d i) = a \<and> pg_ofs (blk a d i) = ARENA_SIZE + i * bsz d"
  using in_page [of a "ARENA_SIZE + i * bsz d"] blk_room [of i d] bsz_pos [of d] by (simp add: blk_def add.assoc)

lemma blk_inj: "blk a d i = blk a d j \<longleftrightarrow> i = j"
  using bsz_pos [of d] by (simp add: blk_def)

lemma blks_page: "pg_ofs a = 0 \<Longrightarrow> b \<in> blks a d \<Longrightarrow> pg_round_down b = a"
  using blk_page by (auto simp: blks_def)

section \<open>The state of the allocator\<close>

definition descs_ok :: "desc list \<Rightarrow> bool" where
  "descs_ok ds \<longleftrightarrow> length ds = 7 \<and> (\<forall>d < 7. d_block_size (ds ! d) = bsz d \<and> blocks_per_arena (ds ! d) = nblk d \<and> \<not> d_lock (ds ! d))"

text \<open>The free lists have blocks of the arenas, and an arena counts its free blocks.\<close>

definition lists_ok :: "mheap \<Rightarrow> bool" where
  "lists_ok s \<longleftrightarrow> descs_ok (descs s) \<and> (\<forall>a ar. arenas s a = Some ar \<longrightarrow> pg_ofs a = 0) \<and>
     (\<forall>d < 7. distinct (free_list (descs s ! d)) \<and>
       (\<forall>b \<in> set (free_list (descs s ! d)). \<exists>a ar. arenas s a = Some ar \<and> a_desc ar = Some d \<and> b \<in> blks a d)) \<and>
     (\<forall>a ar d. arenas s a = Some ar \<longrightarrow> a_desc ar = Some d \<longrightarrow> d < 7 \<and> a_free_cnt ar = card (blks a d \<inter> set (free_list (descs s ! d))))"

definition arena_pages :: "arena \<Rightarrow> nat" where
  "arena_pages ar = (case a_desc ar of None \<Rightarrow> a_free_cnt ar | Some _ \<Rightarrow> 1)"

text \<open>The pages of an arena are in use, and no two arenas share one.\<close>

definition pages_ok :: "mheap \<Rightarrow> bool" where
  "pages_ok s \<longleftrightarrow> palloc_ok (pages s) \<and>
     (\<forall>a ar. arenas s a = Some ar \<longrightarrow> a \<noteq> 0 \<and> 0 < arena_pages ar \<and> page_range a (arena_pages ar) \<subseteq> pool_used (kernel_pool (pages s))) \<and>
     (\<forall>a ar a' ar'. arenas s a = Some ar \<longrightarrow> arenas s a' = Some ar' \<longrightarrow> a \<noteq> a' \<longrightarrow> page_range a (arena_pages ar) \<inter> page_range a' (arena_pages ar') = {})"

definition heap_ok :: "mheap \<Rightarrow> bool" where "heap_ok s \<longleftrightarrow> lists_ok s \<and> pages_ok s"

text \<open>The blocks handed out and not freed, with their sizes.\<close>

definition live :: "mheap \<Rightarrow> nat \<rightharpoonup> nat" where
  "live s b = (case arenas s (pg_round_down b) of
     None \<Rightarrow> None
   | Some ar \<Rightarrow>
       (case a_desc ar of
          None \<Rightarrow> if pg_ofs b = ARENA_SIZE then Some (PGSIZE * a_free_cnt ar - ARENA_SIZE) else None
        | Some d \<Rightarrow> if b \<in> blks (pg_round_down b) d \<and> b \<notin> set (free_list (descs s ! d)) then Some (bsz d) else None))"

section \<open>Changing a free list\<close>

definition set_list :: "nat \<Rightarrow> nat \<Rightarrow> nat list \<Rightarrow> mheap \<Rightarrow> mheap" where
  "set_list a d fl s = s\<lparr>descs := (descs s)[d := (descs s ! d)\<lparr>free_list := fl\<rparr>],
     arenas := (arenas s)(a \<mapsto> \<lparr>a_desc = Some d, a_free_cnt = card (blks a d \<inter> set fl)\<rparr>)\<rparr>"

lemma set_list_simps [simp]:
  "pages (set_list a d fl s) = pages s" "arenas (set_list a d fl s) = (arenas s)(a \<mapsto> \<lparr>a_desc = Some d, a_free_cnt = card (blks a d \<inter> set fl)\<rparr>)"
  "descs (set_list a d fl s) = (descs s)[d := (descs s ! d)\<lparr>free_list := fl\<rparr>]"
  by (simp_all add: set_list_def)

lemma descs_ok_upd: "descs_ok ds \<Longrightarrow> descs_ok (ds[d := (ds ! d)\<lparr>free_list := fl\<rparr>])"
  by (cases "d < length ds") (auto simp: descs_ok_def nth_list_update)

lemma other_page:
  assumes "lists_ok s" and "e < 7" and "b \<in> set (free_list (descs s ! e))"
  obtains a ar where "arenas s a = Some ar" "a_desc ar = Some e" "b \<in> blks a e" "pg_round_down b = a"
  using assms blks_page unfolding lists_ok_def by blast

lemma lists_ok_set:
  assumes ok: "lists_ok s" and d: "d < 7" and a: "pg_ofs a = 0" and old: "\<And>ar. arenas s a = Some ar \<Longrightarrow> a_desc ar = Some d"
    and fl: "distinct fl" "\<And>b. b \<notin> blks a d \<Longrightarrow> b \<in> set fl \<longleftrightarrow> b \<in> set (free_list (descs s ! d))"
  shows "lists_ok (set_list a d fl s)"
proof -
  let ?s = "set_list a d fl s"
  have ds: "descs_ok (descs s)" using ok by (simp add: lists_ok_def)
  then have l: "length (descs s) = 7" by (simp add: descs_ok_def)
  have fle: "free_list (descs ?s ! e) = (if e = d then fl else free_list (descs s ! e))" if "e < 7" for e using that l by simp
  have al: "pg_ofs x = 0" if "arenas s x = Some ar" for x ar using ok that by (auto simp: lists_ok_def)
  have mem: "\<exists>x ar. arenas ?s x = Some ar \<and> a_desc ar = Some e \<and> b \<in> blks x e" if e: "e < 7" and b: "b \<in> set (free_list (descs ?s ! e))" for e b
  proof (cases "e = d \<and> b \<in> blks a d")
    case True
    then show ?thesis by (intro exI [of _ a]) simp
  next
    case False
    then have "b \<in> set (free_list (descs s ! e))" using b fl(2) unfolding fle [OF e] by (auto split: if_splits)
    then obtain x ar where x: "arenas s x = Some ar" "a_desc ar = Some e" "b \<in> blks x e" using other_page [OF ok e] by blast
    then have "x \<noteq> a" using old False by (metis option.inject)
    then show ?thesis using x by (intro exI [of _ x]) simp
  qed
  have cnt: "a_free_cnt ar = card (blks x e \<inter> set (free_list (descs ?s ! e))) \<and> e < 7" if x: "arenas ?s x = Some ar" "a_desc ar = Some e" for x ar e
  proof (cases "x = a")
    case True
    then have "e = d" "ar = \<lparr>a_desc = Some d, a_free_cnt = card (blks a d \<inter> set fl)\<rparr>" using x by auto
    then show ?thesis using True fle [OF d] d by simp
  next
    case False
    then have x': "arenas s x = Some ar" using x by simp
    then have c: "e < 7" "a_free_cnt ar = card (blks x e \<inter> set (free_list (descs s ! e)))" using ok x(2) by (auto simp: lists_ok_def)
    have "b \<notin> blks a d" if "b \<in> blks x e" for b using blks_page [OF al [OF x'] that] blks_page [OF a, of b d] False by blast
    then have "blks x e \<inter> set (free_list (descs ?s ! e)) = blks x e \<inter> set (free_list (descs s ! e))" using fl(2) unfolding fle [OF c(1)] by auto
    then show ?thesis using c by simp
  qed
  have "distinct (free_list (descs ?s ! e))" if "e < 7" for e using ok fl(1) that unfolding fle [OF that] by (simp add: lists_ok_def)
  moreover have "pg_ofs x = 0" if "arenas ?s x = Some ar" for x ar using that a al by (auto split: if_splits)
  moreover have "descs_ok (descs ?s)" using descs_ok_upd [OF ds] by simp
  ultimately show ?thesis using mem cnt unfolding lists_ok_def by blast
qed

lemma live_set:
  assumes ok: "lists_ok s" and d: "d < 7" and a: "pg_ofs a = 0" and old: "\<And>ar. arenas s a = Some ar \<Longrightarrow> a_desc ar = Some d"
    and fl: "\<And>b. b \<notin> blks a d \<Longrightarrow> b \<in> set fl \<longleftrightarrow> b \<in> set (free_list (descs s ! d))"
  shows "live (set_list a d fl s) b = (if pg_round_down b \<noteq> a then live s b else if b \<in> blks a d \<and> b \<notin> set fl then Some (bsz d) else None)"
proof -
  have l: "length (descs s) = 7" using ok by (simp add: lists_ok_def descs_ok_def)
  have "b \<notin> blks a d" if "pg_round_down b \<noteq> a" using that blks_page [OF a] by blast
  moreover have "e < 7" if "arenas s x = Some ar" "a_desc ar = Some e" for x ar e using ok that by (auto simp: lists_ok_def)
  ultimately show ?thesis using d l fl by (auto simp: live_def nth_list_update split: option.splits)
qed

lemma live_page: "live s b = Some n \<Longrightarrow> arenas s (pg_round_down b) \<noteq> None"
  by (cases "arenas s (pg_round_down b)") (auto simp: live_def)

section \<open>Loops over the blocks of an arena\<close>

lemma arena_to_block_ok:
  assumes "descs_ok (descs s)" and "arenas s a = Some ar" and "a_desc ar = Some d" and "d < 7" and "i < nblk d" and "a \<noteq> 0" and "a + PGSIZE \<le> 2 ^ 32"
  shows "arena_to_block a i s = Some (blk a d i)"
proof -
  have "a + ARENA_SIZE + i * bsz d < 2 ^ 32" using blk_room [OF assms(5)] bsz_pos [of d] assms(7) by linarith
  then show ?thesis using assms by (simp add: arena_to_block_def descs_ok_def arr_get_def blk_def)
qed

definition with_list :: "nat \<Rightarrow> nat list \<Rightarrow> mheap \<Rightarrow> mheap" where
  "with_list d fl s = s\<lparr>descs := (descs s)[d := (descs s ! d)\<lparr>free_list := fl\<rparr>]\<rparr>"

lemma upd_desc_list: "d < length (descs s) \<Longrightarrow> upd_desc d (\<lambda>ds. ds\<lparr>free_list := f (free_list ds)\<rparr>) s = Some (with_list d (f (free_list (descs s ! d))) s)"
  by (simp add: upd_desc_def arr_get_def with_list_def)

lemma with_list_simps [simp]:
  "arenas (with_list d fl s) = arenas s" "pages (with_list d fl s) = pages s" "descs (with_list d fl s) = (descs s)[d := (descs s ! d)\<lparr>free_list := fl\<rparr>]"
  by (simp_all add: with_list_def)

lemma with_list_twice [simp]: "with_list d fl (with_list d fl' s) = with_list d fl s"
  by (cases "d < length (descs s)") (simp_all add: with_list_def list_update_beyond)

lemma add_blocks_ok:
  assumes "descs_ok (descs s)" and "arenas s a = Some ar" and "a_desc ar = Some d" and "d < 7" and "a \<noteq> 0" and "a + PGSIZE \<le> 2 ^ 32" and "i \<le> nblk d"
  shows "add_blocks a d i (nblk d) s = Some (with_list d (free_list (descs s ! d) @ map (blk a d) [i..<nblk d]) s)"
  using assms
proof (induction "nblk d - i" arbitrary: i s)
  case 0
  have "(descs s)[d := descs s ! d] = descs s" by simp
  then show ?case using 0 by (subst add_blocks.simps) (simp add: with_list_def)
next
  case (Suc k)
  then have i: "i < nblk d" and l: "d < length (descs s)" by (simp_all add: descs_ok_def)
  let ?s = "with_list d (free_list (descs s ! d) @ [blk a d i]) s"
  have "descs_ok (descs ?s)" using descs_ok_upd [OF Suc.prems(1)] by simp
  then have "add_blocks a d (i + 1) (nblk d) ?s = Some (with_list d (free_list (descs ?s ! d) @ map (blk a d) [i + 1..<nblk d]) ?s)"
    using Suc i by (intro Suc.hyps) simp_all
  moreover have "upd_desc d (\<lambda>ds. ds\<lparr>free_list := free_list ds @ [blk a d i]\<rparr>) s = Some ?s" using upd_desc_list [OF l, of "\<lambda>fl. fl @ [blk a d i]"] .
  ultimately show ?case using i l arena_to_block_ok [OF Suc.prems(1-4) i Suc.prems(5,6)]
    by (subst add_blocks.simps) (simp add: upt_conv_Cons)
qed

lemma remove_blocks_ok:
  assumes "descs_ok (descs s)" and "arenas s a = Some ar" and "a_desc ar = Some d" and "d < 7" and "a \<noteq> 0" and "a + PGSIZE \<le> 2 ^ 32" and "i \<le> nblk d"
    and "distinct (free_list (descs s ! d))"
  shows "remove_blocks a d i (nblk d) s = Some (with_list d (filter (\<lambda>b. b \<notin> blk a d ` {i..<nblk d}) (free_list (descs s ! d))) s)"
  using assms
proof (induction "nblk d - i" arbitrary: i s)
  case 0
  have "(descs s)[d := descs s ! d] = descs s" by simp
  then show ?case using 0 by (subst remove_blocks.simps) (simp add: with_list_def)
next
  case (Suc k)
  then have i: "i < nblk d" and l: "d < length (descs s)" by (simp_all add: descs_ok_def)
  let ?fl = "free_list (descs s ! d)"
  let ?s = "with_list d (remove1 (blk a d i) ?fl) s"
  have "descs_ok (descs ?s)" using descs_ok_upd [OF Suc.prems(1)] by simp
  then have "remove_blocks a d (i + 1) (nblk d) ?s = Some (with_list d (filter (\<lambda>b. b \<notin> blk a d ` {i + 1..<nblk d}) (free_list (descs ?s ! d))) ?s)"
    using Suc i l by (intro Suc.hyps) simp_all
  moreover have "upd_desc d (\<lambda>ds. ds\<lparr>free_list := remove1 (blk a d i) (free_list ds)\<rparr>) s = Some ?s" using upd_desc_list [OF l, of "remove1 (blk a d i)"] .
  moreover have "{i..<nblk d} = insert i {i + 1..<nblk d}" using i by auto
  moreover have "remove1 (blk a d i) ?fl = filter (\<lambda>b. b \<noteq> blk a d i) ?fl"
    using Suc.prems(8) by (simp add: distinct_remove1_removeAll removeAll_filter_not_eq eq_commute [of "blk a d i"])
  ultimately show ?case using i l arena_to_block_ok [OF Suc.prems(1-4) i Suc.prems(5,6)]
    by (subst remove_blocks.simps) (simp add: conj_commute)
qed

section \<open>Blocks do not overlap\<close>

lemma heap_arena:
  assumes "heap_ok s" and "arenas s a = Some ar"
  shows "pg_ofs a = 0" "a \<noteq> 0" "0 < arena_pages ar" "page_range a (arena_pages ar) \<subseteq> pool_used (kernel_pool (pages s))" "palloc_ok (pages s)"
    "a + PGSIZE * arena_pages ar \<le> 2 ^ 32" "descs_ok (descs s)"
proof -
  show *: "pg_ofs a = 0" "a \<noteq> 0" "0 < arena_pages ar" "page_range a (arena_pages ar) \<subseteq> pool_used (kernel_pool (pages s))" "palloc_ok (pages s)" "descs_ok (descs s)"
    using assms by (auto simp: heap_ok_def lists_ok_def pages_ok_def)
  have "a + PGSIZE * arena_pages ar - 1 \<in> page_range a (arena_pages ar)" using *(3) by (auto simp: page_range_def PGSIZE_def)
  then have "a + PGSIZE * arena_pages ar - 1 < pool_end (kernel_pool (pages s))" using *(4) pool_used_bounds by blast
  moreover have "pool_end (kernel_pool (pages s)) \<le> 2 ^ 32" using *(5) by (simp add: palloc_ok_def pool_ok_def)
  ultimately show "a + PGSIZE * arena_pages ar \<le> 2 ^ 32" by linarith
qed

lemma live_cases:
  assumes "heap_ok s" and "live s b = Some m"
  obtains (small) a ar d i where "arenas s a = Some ar" "a_desc ar = Some d" "d < 7" "i < nblk d" "b = blk a d i" "m = bsz d" "b \<notin> set (free_list (descs s ! d))" "a = pg_round_down b"
    | (big) a ar where "arenas s a = Some ar" "a_desc ar = None" "b = a + ARENA_SIZE" "m = PGSIZE * a_free_cnt ar - ARENA_SIZE" "a = pg_round_down b"
proof -
  let ?a = "pg_round_down b"
  obtain ar where ar: "arenas s ?a = Some ar" using live_page [OF assms(2)] by auto
  show ?thesis
  proof (cases "a_desc ar")
    case None
    then have "pg_ofs b = ARENA_SIZE" "m = PGSIZE * a_free_cnt ar - ARENA_SIZE" using assms(2) ar by (auto simp: live_def split: if_splits)
    moreover have "b = ?a + pg_ofs b" by (simp add: pg_round_down_def pg_ofs_def)
    ultimately show ?thesis using big [OF ar None] by simp
  next
    case (Some d)
    then have "b \<in> blks ?a d" "b \<notin> set (free_list (descs s ! d))" "m = bsz d" using assms(2) ar by (auto simp: live_def split: if_splits)
    moreover have "d < 7" using assms(1) ar Some by (auto simp: heap_ok_def lists_ok_def)
    ultimately show ?thesis using small [OF ar Some] by (auto simp: blks_def)
  qed
qed

lemma live_extent:
  assumes "heap_ok s" and "live s b = Some m" and "arenas s (pg_round_down b) = Some ar"
  shows "{b..<b + m} \<subseteq> page_range (pg_round_down b) (arena_pages ar)" and "b < 2 ^ 32"
proof -
  have "b + m \<le> pg_round_down b + PGSIZE * arena_pages ar \<and> pg_round_down b \<le> b \<and> 0 < m"
    using assms(1,2)
  proof (cases rule: live_cases)
    case (small a ar' d i)
    have "ar' = ar" using small(1) assms(3) unfolding small(8) by simp
    then have "arena_pages ar = 1" using small(2) by (simp add: arena_pages_def)
    then show ?thesis using blk_room [OF small(4)] bsz_pos [of d] small(5,6) unfolding blk_def small(8) [symmetric] by simp
  next
    case (big a ar')
    have e: "ar' = ar" using big(1) assms(3) unfolding big(5) by simp
    then have "arena_pages ar = a_free_cnt ar" using big(2) by (simp add: arena_pages_def)
    moreover from this have "0 < a_free_cnt ar" using heap_arena(3) [OF assms(1,3)] by simp
    ultimately show ?thesis using big(3,4) unfolding e big(5) [symmetric] by (simp add: ARENA_SIZE_def PGSIZE_def)
  qed
  then show "{b..<b + m} \<subseteq> page_range (pg_round_down b) (arena_pages ar)" "b < 2 ^ 32"
    using heap_arena(6) [OF assms(1,3)] by (auto simp: page_range_def)
qed

lemma blk_apart:
  assumes "i \<noteq> j"
  shows "{blk a d i..<blk a d i + bsz d} \<inter> {blk a d j..<blk a d j + bsz d} = {}"
proof -
  have "Suc i * bsz d \<le> j * bsz d \<or> Suc j * bsz d \<le> i * bsz d" using assms by (metis Suc_leI linorder_neqE_nat mult_le_mono1)
  then have "blk a d i + bsz d \<le> blk a d j \<or> blk a d j + bsz d \<le> blk a d i" by (auto simp: blk_def)
  then show ?thesis by auto
qed

lemma live_disjoint:
  assumes ok: "heap_ok s" and b: "live s b = Some m" and c: "live s c = Some n" and ne: "b \<noteq> c"
  shows "{b..<b + m} \<inter> {c..<c + n} = {}"
proof -
  obtain ar cr where ar: "arenas s (pg_round_down b) = Some ar" "arenas s (pg_round_down c) = Some cr" using live_page [OF b] live_page [OF c] by auto
  note e = live_extent(1) [OF ok b ar(1)] live_extent(1) [OF ok c ar(2)]
  show ?thesis
  proof (cases "pg_round_down b = pg_round_down c")
    case False
    then have "page_range (pg_round_down b) (arena_pages ar) \<inter> page_range (pg_round_down c) (arena_pages cr) = {}"
      using ok ar by (simp add: heap_ok_def pages_ok_def)
    then show ?thesis using e by blast
  next
    case True
    then have cr: "cr = ar" using ar by simp
    show ?thesis
    proof (cases "a_desc ar")
      case None
      then have "pg_ofs b = ARENA_SIZE" "pg_ofs c = ARENA_SIZE" using b c ar cr by (auto simp: live_def split: if_splits)
      then have "b = c" using True by (metis pg_round_down_def pg_ofs_def le_add_diff_inverse mod_less_eq_dividend)
      then show ?thesis using ne by simp
    next
      case (Some d)
      then have "b \<in> blks (pg_round_down b) d" "c \<in> blks (pg_round_down b) d" "m = bsz d" "n = bsz d"
        using b c ar cr True by (auto simp: live_def split: if_splits)
      then obtain i j where "b = blk (pg_round_down b) d i" "c = blk (pg_round_down b) d j" by (auto simp: blks_def)
      moreover from this have "i \<noteq> j" using ne by auto
      ultimately show ?thesis using blk_apart \<open>m = bsz d\<close> \<open>n = bsz d\<close> by metis
    qed
  qed
qed

section \<open>Changing memory and taking pages\<close>

lemma live_cong: "arenas t = arenas s \<Longrightarrow> descs t = descs s \<Longrightarrow> live t = live s"
  by (simp add: live_def fun_eq_iff cong: option.case_cong)

lemma heap_ok_cong:
  "arenas t = arenas s \<Longrightarrow> descs t = descs s \<Longrightarrow> kernel_pool (pages t) = kernel_pool (pages s) \<Longrightarrow> user_pool (pages t) = user_pool (pages s) \<Longrightarrow>
   heap_ok t = heap_ok s"
  by (simp add: heap_ok_def lists_ok_def pages_ok_def palloc_ok_def)

lemma mem_fill_simps [simp]:
  "arenas (mem_fill a v n s) = arenas s" "descs (mem_fill a v n s) = descs s" "kernel_pool (pages (mem_fill a v n s)) = kernel_pool (pages s)"
  "user_pool (pages (mem_fill a v n s)) = user_pool (pages s)" "ram (pages (mem_fill a v n s)) x = (if a \<le> x \<and> x < a + n then v else ram (pages s) x)"
  by (simp_all add: mem_fill_def fill_def)

lemma take_pages:
  assumes ok: "pages_ok s" and n: "0 < n" and g: "palloc_get_multiple 0 n (pages s) = Some (Some a, p)" and ar: "arena_pages ar = n"
  shows "pages_ok (s\<lparr>pages := p, arenas := (arenas s)(a \<mapsto> ar)\<rparr>)" "arenas s a = None" "pg_ofs a = 0" "a \<noteq> 0" "a + PGSIZE * n \<le> 2 ^ 32" "ram p = ram (pages s)"
proof -
  have s: "palloc_ok (pages s)" using ok by (simp add: pages_ok_def)
  have z: "(0 AND PAL_USER \<noteq> 0) = False" by simp
  note g' = palloc_get_Some [OF s n g, unfolded z]
  have k: "get_pool False q = kernel_pool q" for q by (simp add: get_pool_def)
  have pool: "R \<subseteq> pool_used (kernel_pool p)" if "R \<subseteq> in_use p" "R \<subseteq> {pool_base (kernel_pool (pages s))..<pool_end (kernel_pool (pages s))}" for R
    using pool_used_of_in_use [OF g'(1) that(1), of False] that(2) g'(8,9) [of False] unfolding k by simp
  have new: "page_range a n \<subseteq> pool_used (kernel_pool p)" using g'(5,6) unfolding k by (intro pool) auto
  have old: "page_range x (arena_pages xr) \<subseteq> pool_used (kernel_pool p) \<and> page_range x (arena_pages xr) \<inter> page_range a n = {}" if x: "arenas s x = Some xr" for x xr
  proof -
    have u: "page_range x (arena_pages xr) \<subseteq> pool_used (kernel_pool (pages s))" using ok x by (simp add: pages_ok_def)
    then have "page_range x (arena_pages xr) \<subseteq> in_use (pages s)" by (auto simp: in_use_def)
    moreover have "page_range x (arena_pages xr) \<subseteq> {pool_base (kernel_pool (pages s))..<pool_end (kernel_pool (pages s))}" using u pool_used_bounds by fastforce
    ultimately show ?thesis using pool g'(4,5) by blast
  qed
  show a: "pg_ofs a = 0" "a \<noteq> 0" using g' by simp_all
  have in0: "x \<in> page_range x m" if "0 < m" for x m using that by (simp add: page_range_def)
  show "arenas s a = None"
  proof (cases "arenas s a")
    case (Some ar')
    then have "0 < arena_pages ar'" using ok by (simp add: pages_ok_def)
    then show ?thesis using old [OF Some] in0 [of _ a] n by blast
  qed simp
  have "a + PGSIZE * n - 1 \<in> page_range a n" using n by (auto simp: page_range_def PGSIZE_def)
  then have "a + PGSIZE * n - 1 < pool_end (kernel_pool (pages s))" using g'(6) unfolding k by (meson atLeastLessThan_iff subsetD)
  moreover have "pool_end (kernel_pool (pages s)) \<le> 2 ^ 32" using s by (simp add: palloc_ok_def pool_ok_def)
  ultimately show "a + PGSIZE * n \<le> 2 ^ 32" by linarith
  show "ram p = ram (pages s)" using g'(7) by (simp add: fun_eq_iff)
  have disj: "page_range x (arena_pages xr) \<inter> page_range y (arena_pages yr) = {}" if "arenas s x = Some xr" "arenas s y = Some yr" "x \<noteq> y" for x xr y yr
    using ok that unfolding pages_ok_def by blast
  show "pages_ok (s\<lparr>pages := p, arenas := (arenas s)(a \<mapsto> ar)\<rparr>)"
    unfolding pages_ok_def
  proof (intro conjI allI impI)
    show "palloc_ok (pages (s\<lparr>pages := p, arenas := (arenas s)(a \<mapsto> ar)\<rparr>))" using g'(1) by simp
    fix x xr assume x: "arenas (s\<lparr>pages := p, arenas := (arenas s)(a \<mapsto> ar)\<rparr>) x = Some xr"
    show "x \<noteq> 0" "0 < arena_pages xr" "page_range x (arena_pages xr) \<subseteq> pool_used (kernel_pool (pages (s\<lparr>pages := p, arenas := (arenas s)(a \<mapsto> ar)\<rparr>)))"
      using x old new a n ar ok by (auto simp: pages_ok_def split: if_splits)
    fix y yr assume y: "arenas (s\<lparr>pages := p, arenas := (arenas s)(a \<mapsto> ar)\<rparr>) y = Some yr" and ne: "x \<noteq> y"
    show "page_range x (arena_pages xr) \<inter> page_range y (arena_pages yr) = {}"
      using x y ne old disj ar by (cases "x = a"; cases "y = a") (simp_all add: Int_commute)
  qed
qed

lemma give_pages:
  assumes ok: "pages_ok s" and ar: "arenas s a = Some ar" and al: "pg_ofs a = 0"
  shows "\<exists>p. palloc_free_multiple a (arena_pages ar) (pages s) = Some p \<and> pages_ok (s\<lparr>pages := p, arenas := (arenas s)(a := None)\<rparr>) \<and>
    (\<forall>x. ram p x = (if x \<in> page_range a (arena_pages ar) then 0xcc else ram (pages s) x))"
proof -
  let ?R = "page_range a (arena_pages ar)"
  have s: "palloc_ok (pages s)" and n: "0 < arena_pages ar" and u: "?R \<subseteq> pool_used (kernel_pool (pages s))" using ok ar by (simp_all add: pages_ok_def)
  have k: "get_pool False q = kernel_pool q" for q by (simp add: get_pool_def)
  from palloc_free_ok [OF s al n, of False] u obtain p where
    p: "palloc_free_multiple a (arena_pages ar) (pages s) = Some p" "palloc_ok p" "in_use p = in_use (pages s) - ?R"
      "\<And>x. ram p x = (if x \<in> ?R then 0xcc else ram (pages s) x)"
      "pool_base (kernel_pool p) = pool_base (kernel_pool (pages s))" "pool_end (kernel_pool p) = pool_end (kernel_pool (pages s))"
    unfolding k by (metis k)
  have "page_range x (arena_pages xr) \<subseteq> pool_used (kernel_pool p)" if x: "arenas s x = Some xr" "x \<noteq> a" for x xr
  proof -
    have u: "page_range x (arena_pages xr) \<subseteq> pool_used (kernel_pool (pages s))" and d: "page_range x (arena_pages xr) \<inter> ?R = {}"
      using ok x ar unfolding pages_ok_def by blast+
    have "page_range x (arena_pages xr) \<subseteq> {pool_base (get_pool False p)..<pool_end (get_pool False p)}" unfolding k p(5,6) using u pool_used_bounds by fastforce
    moreover have "page_range x (arena_pages xr) \<subseteq> in_use p" using u d unfolding p(3) by (auto simp: in_use_def)
    ultimately show ?thesis using pool_used_of_in_use [OF p(2)] k by metis
  qed
  then have "pages_ok (s\<lparr>pages := p, arenas := (arenas s)(a := None)\<rparr>)" using ok p(2) unfolding pages_ok_def by (simp split: if_splits)
  then show ?thesis using p(1,4) by blast
qed

end
