(* ===== verification/Allocator.thy ===== *)
theory Allocator
  imports Malloc
begin

text \<open>
  What the memory allocator of \<^verbatim>\<open>threads/malloc.c\<close> promises: \<open>malloc\<close> hands out blocks that are large enough and apart from
  all others, \<open>free\<close> takes them back, and neither touches what the other blocks hold. The contract is the locale \<open>allocator\<close>.
\<close>

section \<open>Steps of malloc\<close>

lemma find_desc_le: "find_desc n ds \<le> length ds"
  by (induction ds) auto

lemma find_desc_fits: "find_desc n ds < length ds \<Longrightarrow> n \<le> d_block_size (ds ! find_desc n ds)"
  by (induction ds) auto

lemma find_desc_all: "find_desc n ds = length ds \<Longrightarrow> d < length ds \<Longrightarrow> d_block_size (ds ! d) < n"
  by (induction ds arbitrary: d) (auto simp: nth_Cons split: if_splits nat.splits)

lemma nblk_bounds:
  assumes "d < 7"
  shows "2 < nblk d" "nblk d \<le> 255"
proof -
  have "d = 0 \<or> d = 1 \<or> d = 2 \<or> d = 3 \<or> d = 4 \<or> d = 5 \<or> d = 6" using assms by linarith
  then show "2 < nblk d" "nblk d \<le> 255" by (auto simp: nblk_def bsz_def PGSIZE_def ARENA_SIZE_def)
qed

lemma finite_blks [simp]: "finite (blks a d)" by (simp add: blks_def)

lemma card_blks: "card (blks a d) = nblk d"
  by (simp add: blks_def card_image inj_on_def blk_inj)

lemma pages_ok_cong:
  assumes "pages_ok s" and "kernel_pool (pages t) = kernel_pool (pages s)" and "user_pool (pages t) = user_pool (pages s)"
    and "map_option arena_pages \<circ> arenas t = map_option arena_pages \<circ> arenas s"
  shows "pages_ok t"
proof -
  have *: "\<exists>ar'. arenas s a = Some ar' \<and> arena_pages ar' = arena_pages ar" if "arenas t a = Some ar" for a ar
    using fun_cong [OF assms(4), of a] that by (cases "arenas s a") auto
  have "palloc_ok (pages t)" using assms(1-3) by (simp add: pages_ok_def palloc_ok_def)
  moreover have "a \<noteq> 0 \<and> 0 < arena_pages ar \<and> page_range a (arena_pages ar) \<subseteq> pool_used (kernel_pool (pages t))" if "arenas t a = Some ar" for a ar
    using * [OF that] assms(1,2) unfolding pages_ok_def by metis
  moreover have "page_range a (arena_pages ar) \<inter> page_range b (arena_pages br) = {}" if "arenas t a = Some ar" "arenas t b = Some br" "a \<noteq> b" for a ar b br
    using * [OF that(1)] * [OF that(2)] that(3) assms(1) unfolding pages_ok_def by metis
  ultimately show ?thesis unfolding pages_ok_def by blast
qed

lemma set_list_pages:
  assumes "pages_ok s" and "arenas s a = Some ar" and "a_desc ar = Some d"
  shows "pages_ok (set_list a d fl s)"
  by (rule pages_ok_cong [OF assms(1)]) (use assms in \<open>auto simp: fun_eq_iff arena_pages_def\<close>)

lemma new_arena_ok:
  assumes ok: "heap_ok s" and d: "d < 7" and e: "free_list (descs s ! d) = []"
  shows "new_arena d (descs s ! d) s = Some (False, s) \<or>
    (\<exists>s'. new_arena d (descs s ! d) s = Some (True, s') \<and> heap_ok s' \<and> live s' = live s \<and> free_list (descs s' ! d) \<noteq> [] \<and> ram (pages s') = ram (pages s))"
proof -
  have po: "palloc_ok (pages s)" and pg: "pages_ok s" and lo: "lists_ok s" and ds: "descs_ok (descs s)" using ok by (auto simp: heap_ok_def pages_ok_def lists_ok_def)
  have one: "0 < (1::nat)" by simp
  show ?thesis
  proof (cases rule: palloc_get_ok [OF po one, of 0])
    case (1 a p)
    note found = 1
    let ?fl = "map (blk a d) [0..<nblk d]"
    let ?s = "s\<lparr>pages := p, arenas := (arenas s)(a \<mapsto> \<lparr>a_desc = Some d, a_free_cnt = nblk d\<rparr>)\<rparr>"
    let ?t = "set_list a d ?fl (s\<lparr>pages := p\<rparr>)"
    have ap: "arena_pages \<lparr>a_desc = Some d, a_free_cnt = nblk d\<rparr> = 1" by (simp add: arena_pages_def)
    note t = take_pages [OF pg one found(1) ap]
    have len: "length (descs s) = 7" and bpa: "blocks_per_arena (descs s ! d) = nblk d" using ds d by (simp_all add: descs_ok_def)
    have img: "blk a d ` {0..<nblk d} = blks a d" by (simp add: blks_def atLeast0LessThan)
    then have fl: "set ?fl = blks a d" by simp
    have "add_blocks a d 0 (nblk d) ?s = Some (with_list d (free_list (descs ?s ! d) @ ?fl) ?s)"
      using t ds d by (intro add_blocks_ok [where ar = "\<lparr>a_desc = Some d, a_free_cnt = nblk d\<rparr>"]) simp_all
    moreover have "with_list d ?fl ?s = ?t" by (rule mheap.equality) (simp_all add: with_list_def img card_blks)
    ultimately have n: "new_arena d (descs s ! d) s = Some (True, ?t)"
      using found(1) e bpa by (simp add: new_arena_def palloc_get_page_def)
    have none: "arenas (s\<lparr>pages := p\<rparr>) a = Some ar \<Longrightarrow> a_desc ar = Some d" for ar using t(2) by simp
    have lo': "lists_ok (s\<lparr>pages := p\<rparr>)" using lo by (simp add: lists_ok_def)
    have mem: "b \<notin> blks a d \<Longrightarrow> b \<in> set ?fl \<longleftrightarrow> b \<in> set (free_list (descs (s\<lparr>pages := p\<rparr>) ! d))" for b using fl e by simp
    have dist: "distinct ?fl" by (simp add: distinct_map inj_on_def blk_inj)
    have "lists_ok ?t" by (rule lists_ok_set [OF lo' d t(3) none dist mem])
    moreover have "pages_ok ?t" by (rule pages_ok_cong [OF t(1)]) (simp_all add: img card_blks)
    moreover have "live ?t b = live s b" for b
    proof -
      have "live (s\<lparr>pages := p\<rparr>) b = live s b" by (rule fun_cong [OF live_cong]) simp_all
      moreover have "live s b = None" if "pg_round_down b = a" using t(2) that by (simp add: live_def)
      ultimately show ?thesis using live_set [OF lo' d t(3) none mem, of b] unfolding fl by auto
    qed
    moreover have "free_list (descs ?t ! d) \<noteq> []" using len d nblk_bounds(1) [OF d] by simp
    ultimately show ?thesis using n t(6) by (intro disjI2 exI [of _ ?t]) (simp add: heap_ok_def fun_eq_iff)
  next
    case 2
    then show ?thesis by (simp add: new_arena_def palloc_get_page_def)
  qed
qed

lemma block_to_arena_small:
  assumes ok: "heap_ok s" and ar: "arenas s a = Some ar" "a_desc ar = Some d" and b: "b \<in> blks a d" and l: "d_block_size (descs s ! d) = bsz d" "d < length (descs s)"
  shows "block_to_arena b s = Some (a, ar)"
proof -
  obtain i where i: "i < nblk d" "b = blk a d i" using b by (auto simp: blks_def)
  note p = blk_page [OF heap_arena(1) [OF ok ar(1)] i(1), folded i(2)]
  have "ARENA_SIZE + i * bsz d < 2 ^ 32" using blk_room [OF i(1)] bsz_pos [of d] by (simp add: PGSIZE_def)
  then have "sz (pg_ofs b + (2 ^ 32 - ARENA_SIZE)) = i * bsz d" using p by (simp add: sz_def ARENA_SIZE_def)
  then show ?thesis using p ar l heap_arena(2) [OF ok ar(1)] by (simp add: block_to_arena_def arr_get_def)
qed

text \<open>The first block of a free list is taken.\<close>

lemma take_block_ok:
  assumes ok: "heap_ok s" and d: "d < 7" and fl: "free_list (descs s ! d) = b # bs"
  obtains a ar where "arenas s a = Some ar" "a_desc ar = Some d" "b \<in> blks a d" "live s b = None"
    "upd_desc d (free_list_update (\<lambda>_. bs)) s = Some (with_list d bs s)" "block_to_arena b (with_list d bs s) = Some (a, ar)"
    "set_list a d bs s = (with_list d bs s)\<lparr>arenas := (arenas s)(a \<mapsto> ar\<lparr>a_free_cnt := sz (a_free_cnt ar + (2 ^ 32 - 1))\<rparr>)\<rparr>"
    "heap_ok (set_list a d bs s)" "live (set_list a d bs s) = (live s)(b \<mapsto> bsz d)"
proof -
  have lo: "lists_ok s" and pg: "pages_ok s" and ds: "descs_ok (descs s)" using ok by (auto simp: heap_ok_def lists_ok_def)
  have len: "length (descs s) = 7" and dbs: "d_block_size (descs s ! d) = bsz d" using ds d by (simp_all add: descs_ok_def)
  obtain a ar where ar: "arenas s a = Some ar" "a_desc ar = Some d" "b \<in> blks a d" "pg_round_down b = a"
    using other_page [OF lo d, of b] fl by auto
  have dist: "b \<notin> set bs" "distinct bs" using lo d fl unfolding lists_ok_def by (metis distinct.simps(2))+
  have cnt: "a_free_cnt ar = card (blks a d \<inter> set (b # bs))" using lo ar d fl unfolding lists_ok_def by metis
  also have "blks a d \<inter> set (b # bs) = insert b (blks a d \<inter> set bs)" using ar(3) by auto
  finally have cnt: "a_free_cnt ar = Suc (card (blks a d \<inter> set bs))" using dist by simp
  have "card (blks a d \<inter> set bs) \<le> 255" using card_mono [OF finite_blks, of "blks a d \<inter> set bs" a d] nblk_bounds(2) [OF d] by (simp add: card_blks)
  then have sz: "sz (a_free_cnt ar + (2 ^ 32 - 1)) = card (blks a d \<inter> set bs)" unfolding cnt sz_def by simp
  have al: "pg_ofs a = 0" using heap_arena(1) [OF ok ar(1)] .
  have old: "arenas s a = Some xr \<Longrightarrow> a_desc xr = Some d" for xr using ar by simp
  have mem: "x \<notin> blks a d \<Longrightarrow> x \<in> set bs \<longleftrightarrow> x \<in> set (free_list (descs s ! d))" for x using fl ar(3) by auto
  have "lists_ok (set_list a d bs s)" by (rule lists_ok_set [OF lo d al old dist(2) mem])
  then have h: "heap_ok (set_list a d bs s)" using set_list_pages [OF pg ar(1,2)] by (simp add: heap_ok_def)
  have "live (set_list a d bs s) x = ((live s)(b \<mapsto> bsz d)) x" for x
    using live_set [OF lo d al old mem, of x] ar dist(1) fl by (auto simp: live_def)
  then have lv: "live (set_list a d bs s) = (live s)(b \<mapsto> bsz d)" by (rule ext)
  have upd: "upd_desc d (free_list_update (\<lambda>_. bs)) s = Some (with_list d bs s)" using len d by (simp add: upd_desc_def arr_get_def with_list_def)
  have "block_to_arena b s = Some (a, ar)" using block_to_arena_small [OF ok ar(1-3) dbs] len d by simp
  moreover have "block_to_arena b (with_list d bs s) = block_to_arena b s"
    using ar(1,2,4) len d by (simp add: block_to_arena_def arr_get_def)
  ultimately have bta: "block_to_arena b (with_list d bs s) = Some (a, ar)" by simp
  have eq: "set_list a d bs s = (with_list d bs s)\<lparr>arenas := (arenas s)(a \<mapsto> ar\<lparr>a_free_cnt := sz (a_free_cnt ar + (2 ^ 32 - 1))\<rparr>)\<rparr>"
    unfolding sz by (rule mheap.equality) (simp_all add: ar(2) fun_eq_iff)
  have "live s b = None" using ar fl by (simp add: live_def)
  then show ?thesis using that [OF ar(1-3) _ upd bta eq h lv] by simp
qed

lemma malloc_small_ok:
  assumes ok: "heap_ok s" and n: "0 < n" and d: "find_desc n (descs s) < 7"
  shows "malloc n s = Some (None, s) \<or>
    (\<exists>b m s'. malloc n s = Some (Some b, s') \<and> heap_ok s' \<and> n \<le> m \<and> live s b = None \<and> live s' = (live s)(b \<mapsto> m) \<and> ram (pages s') = ram (pages s))"
proof -
  let ?d = "find_desc n (descs s)"
  have ds: "descs_ok (descs s)" using ok by (simp add: heap_ok_def lists_ok_def)
  then have len: "length (descs s) = 7" and dd: "d_block_size (descs s ! ?d) = bsz ?d" "\<not> d_lock (descs s ! ?d)" using d by (simp_all add: descs_ok_def)
  then have fit: "n \<le> bsz ?d" using find_desc_fits [of n "descs s"] d by simp
  define first where "first = (if free_list (descs s ! ?d) = [] then new_arena ?d (descs s ! ?d) s else Some (True, s))"
  have "first = Some (False, s) \<or> (\<exists>t. first = Some (True, t) \<and> heap_ok t \<and> live t = live s \<and> free_list (descs t ! ?d) \<noteq> [] \<and> ram (pages t) = ram (pages s))"
    using new_arena_ok [OF ok d] ok unfolding first_def by (simp split: if_splits)
  then show ?thesis
  proof
    assume "first = Some (False, s)"
    then show ?thesis using n d len dd by (simp add: malloc_def Let_def arr_get_def first_def cong: if_cong)
  next
    assume "\<exists>t. first = Some (True, t) \<and> heap_ok t \<and> live t = live s \<and> free_list (descs t ! ?d) \<noteq> [] \<and> ram (pages t) = ram (pages s)"
    then obtain t where t: "first = Some (True, t)" "heap_ok t" "live t = live s" "free_list (descs t ! ?d) \<noteq> []" "ram (pages t) = ram (pages s)" by blast
    then obtain b bs where fl: "free_list (descs t ! ?d) = b # bs" by (cases "free_list (descs t ! ?d)") auto
    have tl: "length (descs t) = 7" using t(2) by (simp add: heap_ok_def lists_ok_def descs_ok_def)
    obtain a ar where ar: "arenas t a = Some ar" "a_desc ar = Some ?d" "b \<in> blks a ?d" "live t b = None"
      "upd_desc ?d (free_list_update (\<lambda>_. bs)) t = Some (with_list ?d bs t)" "block_to_arena b (with_list ?d bs t) = Some (a, ar)"
      "set_list a ?d bs t = (with_list ?d bs t)\<lparr>arenas := (arenas t)(a \<mapsto> ar\<lparr>a_free_cnt := sz (a_free_cnt ar + (2 ^ 32 - 1))\<rparr>)\<rparr>"
      "heap_ok (set_list a ?d bs t)" "live (set_list a ?d bs t) = (live t)(b \<mapsto> bsz ?d)"
      by (rule take_block_ok [OF t(2) d fl])
    have "malloc n s = Some (Some b, set_list a ?d bs t)"
    proof (cases "free_list (descs s ! ?d) = []")
      case True
      then have "new_arena ?d (descs s ! ?d) s = Some (True, t)" using t(1) by (simp add: first_def)
      then show ?thesis using True n d len dd tl fl ar(5,6) unfolding ar(7) malloc_def Let_def by (simp add: arr_get_def)
    next
      case False
      then have "t = s" using t(1) by (simp add: first_def)
      then show ?thesis using False n d len dd fl ar(5,6) unfolding ar(7) malloc_def Let_def by (simp add: arr_get_def)
    qed
    then show ?thesis using ar(4,8,9) fit t(3,5) by auto
  qed
qed

lemma lists_ok_big:
  assumes "lists_ok s" and "arenas s a = None" and "pg_ofs a = 0" and "a_desc ar = None"
  shows "lists_ok (s\<lparr>arenas := (arenas s)(a \<mapsto> ar)\<rparr>)"
proof -
  have "\<exists>x xr. ((arenas s)(a \<mapsto> ar)) x = Some xr \<and> a_desc xr = Some e \<and> b \<in> blks x e" if e: "e < 7" "b \<in> set (free_list (descs s ! e))" for e b
  proof -
    obtain x xr where "arenas s x = Some xr" "a_desc xr = Some e" "b \<in> blks x e" using other_page [OF assms(1) e] by metis
    then show ?thesis using assms(2) by (intro exI [of _ x] exI [of _ xr]) auto
  qed
  then show ?thesis using assms unfolding lists_ok_def by auto
qed

lemma malloc_big_ok:
  assumes ok: "heap_ok s" and n: "0 < n" "n + ARENA_SIZE + (PGSIZE - 1) < 2 ^ 32"
  shows "malloc_big n s = Some (None, s) \<or>
    (\<exists>b m s'. malloc_big n s = Some (Some b, s') \<and> heap_ok s' \<and> n \<le> m \<and> live s b = None \<and> live s' = (live s)(b \<mapsto> m) \<and> ram (pages s') = ram (pages s))"
proof -
  let ?k = "(n + ARENA_SIZE + (PGSIZE - 1)) div PGSIZE"
  have k: "0 < ?k" "n \<le> PGSIZE * ?k - ARENA_SIZE" "sz (n + ARENA_SIZE + (PGSIZE - 1)) div PGSIZE = ?k"
    using n unfolding PGSIZE_def ARENA_SIZE_def sz_def by simp_all
  have po: "palloc_ok (pages s)" and pg: "pages_ok s" and lo: "lists_ok s" using ok by (auto simp: heap_ok_def pages_ok_def)
  show ?thesis
  proof (cases rule: palloc_get_ok [OF po k(1), of 0])
    case (1 a p)
    let ?ar = "\<lparr>a_desc = None, a_free_cnt = ?k\<rparr>"
    let ?t = "s\<lparr>pages := p, arenas := (arenas s)(a \<mapsto> ?ar)\<rparr>"
    have ap: "arena_pages ?ar = ?k" by (simp add: arena_pages_def)
    note t = take_pages [OF pg k(1) 1(1) ap]
    have "lists_ok (s\<lparr>pages := p\<rparr>)" using lo by (simp add: lists_ok_def)
    then have "lists_ok ?t" using lists_ok_big [of "s\<lparr>pages := p\<rparr>" a ?ar] t(2,3) by simp
    then have h: "heap_ok ?t" using t(1) by (simp add: heap_ok_def)
    have b: "pg_round_down (a + ARENA_SIZE) = a" "pg_ofs (a + ARENA_SIZE) = ARENA_SIZE" using in_page [OF t(3), of ARENA_SIZE] by (simp_all add: ARENA_SIZE_def PGSIZE_def)
    have iff: "x = a + ARENA_SIZE \<longleftrightarrow> pg_round_down x = a \<and> pg_ofs x = ARENA_SIZE" for x
      using b by (metis pg_round_down_def pg_ofs_def le_add_diff_inverse2 mod_less_eq_dividend)
    have none: "live s x = None" if "pg_round_down x = a" for x using that t(2) by (simp add: live_def)
    have "live ?t x = ((live s)(a + ARENA_SIZE \<mapsto> PGSIZE * ?k - ARENA_SIZE)) x" for x
    proof (cases "pg_round_down x = a")
      case True
      then have "live ?t x = (if pg_ofs x = ARENA_SIZE then Some (PGSIZE * ?k - ARENA_SIZE) else None)" by (simp add: live_def)
      then show ?thesis using none [OF True] True iff [of x] by simp
    next
      case False
      then show ?thesis using iff [of x] by (simp add: live_def cong: option.case_cong)
    qed
    then have "live ?t = (live s)(a + ARENA_SIZE \<mapsto> PGSIZE * ?k - ARENA_SIZE)" by (rule ext)
    moreover have "live s (a + ARENA_SIZE) = None" using b(1) t(2) by (simp add: live_def)
    moreover have "malloc_big n s = Some (Some (a + ARENA_SIZE), ?t)" using 1(1) k(3) by (simp add: malloc_big_def)
    ultimately show ?thesis using h k(2) t(6) by (intro disjI2 exI [of _ "a + ARENA_SIZE"] exI [of _ "PGSIZE * ?k - ARENA_SIZE"] exI [of _ ?t] conjI) simp_all
  next
    case 2
    then show ?thesis using k(3) by (simp add: malloc_big_def)
  qed
qed

lemma malloc_ok:
  assumes "heap_ok s" and "0 < n" and "n + ARENA_SIZE + (PGSIZE - 1) < 2 ^ 32"
  shows "malloc n s = Some (None, s) \<or>
    (\<exists>b m s'. malloc n s = Some (Some b, s') \<and> heap_ok s' \<and> n \<le> m \<and> live s b = None \<and> live s' = (live s)(b \<mapsto> m) \<and> ram (pages s') = ram (pages s))"
proof (cases "find_desc n (descs s) < 7")
  case True
  then show ?thesis using malloc_small_ok assms by blast
next
  case False
  then have "find_desc n (descs s) = length (descs s)" using find_desc_le [of n "descs s"] assms(1) by (simp add: heap_ok_def lists_ok_def descs_ok_def)
  then have "malloc n s = malloc_big n s" using assms(2) by (simp add: malloc_def)
  then show ?thesis using malloc_big_ok [OF assms] by simp
qed

section \<open>Steps of free\<close>

lemma lists_ok_drop:
  assumes lo: "lists_ok s" and a: "pg_ofs a = 0" and e: "\<And>d. d < 7 \<Longrightarrow> blks a d \<inter> set (free_list (descs s ! d)) = {}"
  shows "lists_ok (s\<lparr>arenas := (arenas s)(a := None)\<rparr>)"
proof -
  have "\<exists>x xr. ((arenas s)(a := None)) x = Some xr \<and> a_desc xr = Some d \<and> b \<in> blks x d" if d: "d < 7" "b \<in> set (free_list (descs s ! d))" for d b
  proof -
    obtain x xr where x: "arenas s x = Some xr" "a_desc xr = Some d" "b \<in> blks x d" using other_page [OF lo d] by metis
    then have "x \<noteq> a" using e [OF d(1)] d(2) by blast
    then show ?thesis using x by (intro exI [of _ x] exI [of _ xr]) auto
  qed
  then show ?thesis using lo unfolding lists_ok_def by auto
qed

lemma drop_arena_ok:
  assumes lo: "lists_ok s" and pg: "pages_ok s" and ar: "arenas s a = Some ar"
    and e: "\<And>d. d < 7 \<Longrightarrow> blks a d \<inter> set (free_list (descs s ! d)) = {}"
  shows "\<exists>s'. drop_arena a (arena_pages ar) s = Some s' \<and> heap_ok s' \<and> live s' = (\<lambda>x. if pg_round_down x = a then None else live s x) \<and>
    (\<forall>x. ram (pages s') x = (if x \<in> page_range a (arena_pages ar) then 0xcc else ram (pages s) x))"
proof -
  have al: "pg_ofs a = 0" using lo ar by (simp add: lists_ok_def)
  obtain p where p: "palloc_free_multiple a (arena_pages ar) (pages s) = Some p" "pages_ok (s\<lparr>pages := p, arenas := (arenas s)(a := None)\<rparr>)"
      "\<forall>x. ram p x = (if x \<in> page_range a (arena_pages ar) then 0xcc else ram (pages s) x)"
    using give_pages [OF pg ar al] by blast
  let ?t = "s\<lparr>pages := p, arenas := (arenas s)(a := None)\<rparr>"
  have "lists_ok (s\<lparr>pages := p\<rparr>)" using lo by (simp add: lists_ok_def)
  then have "lists_ok ?t" using lists_ok_drop [of "s\<lparr>pages := p\<rparr>" a] al e by simp
  then have "heap_ok ?t" using p(2) by (simp add: heap_ok_def)
  moreover have "live ?t x = (if pg_round_down x = a then None else live s x)" for x by (auto simp: live_def split: option.splits)
  then have "live ?t = (\<lambda>x. if pg_round_down x = a then None else live s x)" by (rule ext)
  moreover have "drop_arena a (arena_pages ar) s = Some ?t" using p(1) by (simp add: drop_arena_def)
  ultimately show ?thesis using p(3) by (intro exI [of _ ?t]) simp
qed

lemma lists_elsewhere:
  assumes "lists_ok s" and "arenas s a = Some ar" and "d < 7" and "a_desc ar \<noteq> Some d"
  shows "blks a d \<inter> set (free_list (descs s ! d)) = {}"
proof -
  have al: "pg_ofs a = 0" using assms(1,2) by (simp add: lists_ok_def)
  have False if b: "b \<in> blks a d" "b \<in> set (free_list (descs s ! d))" for b
  proof -
    obtain x xr where "arenas s x = Some xr" "a_desc xr = Some d" "pg_round_down b = x" using other_page [OF assms(1,3) b(2)] by metis
    then show False using blks_page [OF al b(1)] assms(2,4) by simp
  qed
  then show ?thesis by blast
qed

lemma live_off_page:
  assumes ok: "heap_ok s" and c: "live s c = Some n" and ar: "arenas s a = Some ar" and ne: "pg_round_down c \<noteq> a"
  shows "{c..<c + n} \<inter> page_range a (arena_pages ar) = {}"
proof -
  obtain cr where cr: "arenas s (pg_round_down c) = Some cr" using live_page [OF c] by auto
  have "page_range (pg_round_down c) (arena_pages cr) \<inter> page_range a (arena_pages ar) = {}"
    using ok cr ar ne by (simp add: heap_ok_def pages_ok_def)
  then show ?thesis using live_extent(1) [OF ok c cr] by blast
qed

definition same_bytes :: "nat \<Rightarrow> nat \<Rightarrow> mheap \<Rightarrow> mheap \<Rightarrow> bool" where
  "same_bytes b n s s' \<longleftrightarrow> (\<forall>x \<in> {b..<b + n}. ram (pages s') x = ram (pages s) x)"

lemma free_big_ok:
  assumes ok: "heap_ok s" and ar: "arenas s a = Some ar" "a_desc ar = None" and b: "b = a + ARENA_SIZE"
  shows "\<exists>s'. free (Some b) s = Some s' \<and> heap_ok s' \<and> live s' = (live s)(b := None) \<and> (\<forall>c n. live s' c = Some n \<longrightarrow> same_bytes c n s s')"
proof -
  have lo: "lists_ok s" and pg: "pages_ok s" using ok by (simp_all add: heap_ok_def)
  note al = heap_arena(1,2) [OF ok ar(1)]
  have pb: "pg_round_down b = a" "pg_ofs b = ARENA_SIZE" unfolding b using in_page [OF al(1), of ARENA_SIZE] by (simp_all add: ARENA_SIZE_def PGSIZE_def)
  have "block_to_arena b s = Some (a, ar)" using al(2) ar pb by (simp add: block_to_arena_def)
  then have f: "free (Some b) s = drop_arena a (arena_pages ar) s" using ar(2) by (simp add: free_def arena_pages_def)
  have "blks a d \<inter> set (free_list (descs s ! d)) = {}" if "d < 7" for d using lists_elsewhere [OF lo ar(1) that] ar(2) by simp
  then obtain s' where s': "drop_arena a (arena_pages ar) s = Some s'" "heap_ok s'" "live s' = (\<lambda>x. if pg_round_down x = a then None else live s x)"
      "\<forall>x. ram (pages s') x = (if x \<in> page_range a (arena_pages ar) then 0xcc else ram (pages s) x)"
    using drop_arena_ok [OF lo pg ar(1)] by metis
  have "live s x = None" if x: "pg_round_down x = a" "x \<noteq> b" for x
  proof -
    have "x = pg_round_down x + pg_ofs x" by (simp add: pg_round_down_def pg_ofs_def)
    then have "pg_ofs x \<noteq> ARENA_SIZE" using x b by auto
    then show ?thesis using ar x(1) by (simp add: live_def)
  qed
  then have "live s' x = ((live s)(b := None)) x" for x unfolding s'(3) using pb by auto
  then have "live s' = (live s)(b := None)" by (rule ext)
  moreover have "same_bytes c n s s'" if c: "live s' c = Some n" for c n
  proof -
    have "pg_round_down c \<noteq> a" "live s c = Some n" using c unfolding s'(3) by (auto split: if_splits)
    then have "{c..<c + n} \<inter> page_range a (arena_pages ar) = {}" using live_off_page [OF ok _ ar(1)] by blast
    then show ?thesis unfolding same_bytes_def using s'(4) by (metis IntI empty_iff)
  qed
  ultimately show ?thesis using f s'(1,2) by auto
qed

lemma drop_arena_set: "drop_arena a n (with_list d fl (set_list a d fl' s)) = drop_arena a n (set_list a d fl s)"
proof -
  have "(descs s)[d := ((descs s)[d := (descs s ! d)\<lparr>free_list := fl'\<rparr>] ! d)\<lparr>free_list := fl\<rparr>] = (descs s)[d := (descs s ! d)\<lparr>free_list := fl\<rparr>]"
    by (cases "d < length (descs s)") (simp_all add: list_update_beyond)
  then show ?thesis by (auto simp: drop_arena_def set_list_def with_list_def bind_def split: option.split)
qed

lemma free_small_ok:
  assumes ok: "heap_ok s" and d: "d < 7" and ar: "arenas s a = Some ar" "a_desc ar = Some d" and b: "b \<in> blks a d" "b \<notin> set (free_list (descs s ! d))"
  shows "\<exists>s'. free (Some b) s = Some s' \<and> heap_ok s' \<and> live s' = (live s)(b := None) \<and> (\<forall>c n. live s' c = Some n \<longrightarrow> same_bytes c n s s')"
proof -
  let ?fl = "free_list (descs s ! d)"
  let ?t = "mem_fill b 0xcc (bsz d) s"
  let ?u = "set_list a d (b # ?fl) ?t"
  have lo: "lists_ok s" and pg: "pages_ok s" and ds: "descs_ok (descs s)" using ok by (auto simp: heap_ok_def lists_ok_def)
  have len: "length (descs s) = 7" and dd: "d_block_size (descs s ! d) = bsz d" "blocks_per_arena (descs s ! d) = nblk d" "\<not> d_lock (descs s ! d)"
    using ds d by (simp_all add: descs_ok_def)
  note al = heap_arena(1,2,6) [OF ok ar(1)]
  have pb: "pg_round_down b = a" using blks_page [OF al(1) b(1)] .
  have dist: "distinct ?fl" using lo d by (simp add: lists_ok_def)
  have "a_free_cnt ar = card (blks a d \<inter> set ?fl)" using lo ar by (simp add: lists_ok_def)
  moreover have "blks a d \<inter> set (b # ?fl) = insert b (blks a d \<inter> set ?fl)" using b(1) by auto
  ultimately have cnt: "card (blks a d \<inter> set (b # ?fl)) = a_free_cnt ar + 1" using b(2) by simp
  have le: "card (blks a d \<inter> set (b # ?fl)) \<le> nblk d" using card_mono [OF finite_blks, of "blks a d \<inter> set (b # ?fl)" a d] by (simp add: card_blks)
  then have sz: "sz (a_free_cnt ar + 1) = a_free_cnt ar + 1" using nblk_bounds(2) [OF d] unfolding cnt by (simp add: sz_def)
  have okt: "heap_ok ?t" and lt: "live ?t = live s" using ok heap_ok_cong [of ?t s] live_cong [of ?t s] by simp_all
  then have lot: "lists_ok ?t" and pgt: "pages_ok ?t" by (simp_all add: heap_ok_def)
  have art: "arenas ?t a = Some ar" using ar by simp
  have old: "arenas ?t a = Some xr \<Longrightarrow> a_desc xr = Some d" for xr using ar by simp
  have bta: "block_to_arena b s = Some (a, ar)" using block_to_arena_small [OF ok ar b(1) dd(1)] len d by simp
  have upd: "upd_desc d (\<lambda>ds. ds\<lparr>free_list := b # free_list ds\<rparr>) ?t = Some (with_list d (b # ?fl) ?t)"
    using upd_desc_list [of d ?t "\<lambda>fl. b # fl"] len d by simp
  have u: "(with_list d (b # ?fl) ?t)\<lparr>arenas := (arenas s)(a \<mapsto> ar\<lparr>a_free_cnt := a_free_cnt ar + 1\<rparr>)\<rparr> = ?u"
  proof -
    have "ar\<lparr>a_free_cnt := a_free_cnt ar + 1\<rparr> = \<lparr>a_desc = Some d, a_free_cnt = card (blks a d \<inter> set (b # ?fl))\<rparr>"
      using ar(2) cnt by (intro arena.equality) simp_all
    then show ?thesis by (intro mheap.equality) simp_all
  qed
  have mem: "x \<notin> blks a d \<Longrightarrow> x \<in> set (b # ?fl) \<longleftrightarrow> x \<in> set (free_list (descs ?t ! d))" for x using b(1) by auto
  have dist': "distinct (b # ?fl)" using dist b(2) by simp
  have lou: "lists_ok ?u" by (rule lists_ok_set [OF lot d al(1) old dist' mem])
  have pgu: "pages_ok ?u" by (rule set_list_pages [OF pgt art ar(2)])
  have "live ?u x = ((live s)(b := None)) x" for x
    using live_set [OF lot d al(1) old mem, of x] pb b ar by (auto simp: lt live_def)
  then have lu: "live ?u = (live s)(b := None)" by (rule ext)
  have bytes: "same_bytes c n s ?u" if c: "live s c = Some n" "c \<noteq> b" for c n
  proof -
    have "live s b = Some (bsz d)" using ar pb b by (simp add: live_def)
    then have "{c..<c + n} \<inter> {b..<b + bsz d} = {}" using live_disjoint [OF ok c(1)] c(2) by blast
    then show ?thesis by (force simp: same_bytes_def)
  qed
  show ?thesis
  proof (cases "nblk d \<le> a_free_cnt ar + 1")
    case False
    then have "free (Some b) s = Some ?u" using bta ar(2) len d dd sz upd u by (simp add: free_def arr_get_def Let_def)
    then show ?thesis using lou pgu lu bytes by (intro exI [of _ ?u]) (simp add: heap_ok_def)
  next
    case True
    then have full: "a_free_cnt ar + 1 = nblk d" using le unfolding cnt by simp
    let ?keep = "filter (\<lambda>x. x \<notin> blks a d) (b # ?fl)"
    let ?v = "set_list a d ?keep ?t"
    have "blks a d \<inter> set (b # ?fl) = blks a d" using cnt full by (intro card_subset_eq) (simp_all add: card_blks)
    then have sub: "blks a d \<subseteq> set (b # ?fl)" by blast
    have img: "blk a d ` {0..<nblk d} = blks a d" by (simp add: blks_def atLeast0LessThan)
    have aru: "arenas ?u a = Some \<lparr>a_desc = Some d, a_free_cnt = card (blks a d \<inter> set (b # ?fl))\<rparr>" by simp
    have "a + PGSIZE \<le> 2 ^ 32" using al(3) ar(2) by (simp add: arena_pages_def)
    then have rm: "remove_blocks a d 0 (nblk d) ?u = Some (with_list d ?keep ?u)"
      using remove_blocks_ok [OF _ aru _ d al(2), of 0] lou len d dist' unfolding img lists_ok_def by simp
    have memv: "x \<notin> blks a d \<Longrightarrow> x \<in> set ?keep \<longleftrightarrow> x \<in> set (free_list (descs ?t ! d))" for x using b(1) by auto
    have lov: "lists_ok ?v" by (rule lists_ok_set [OF lot d al(1) old _ memv]) (use dist b in auto)
    have pgv: "pages_ok ?v" by (rule set_list_pages [OF pgt art ar(2)])
    have arv: "arenas ?v a = Some \<lparr>a_desc = Some d, a_free_cnt = card (blks a d \<inter> set ?keep)\<rparr>" by simp
    have "blks a e \<inter> set (free_list (descs ?v ! e)) = {}" if e: "e < 7" for e
    proof (cases "e = d")
      case True
      then show ?thesis using len d by auto
    next
      case False
      then show ?thesis using lists_elsewhere [OF lov arv e] by simp
    qed
    then obtain s' where s': "drop_arena a 1 ?v = Some s'" "heap_ok s'" "live s' = (\<lambda>x. if pg_round_down x = a then None else live ?v x)"
      "\<forall>x. ram (pages s') x = (if x \<in> page_range a 1 then 0xcc else ram (pages ?v) x)"
      using drop_arena_ok [OF lov pgv arv] by (auto simp: arena_pages_def)
    have "free (Some b) s = drop_arena a 1 (with_list d ?keep ?u)"
      using bta ar(2) len d dd sz upd u rm full by (simp add: free_def arr_get_def Let_def)
    then have f: "free (Some b) s = Some s'" using s'(1) drop_arena_set by simp
    have "live s' x = ((live s)(b := None)) x" for x
    proof (cases "pg_round_down x = a")
      case True
      then have "x = b \<or> live s x = None" using sub ar by (auto simp: live_def)
      then show ?thesis using True s'(3) by auto
    next
      case False
      then show ?thesis using live_set [OF lot d al(1) old memv, of x] pb s'(3) lt by auto
    qed
    then have l: "live s' = (live s)(b := None)" by (rule ext)
    have "same_bytes c n s s'" if c: "live s' c = Some n" for c n
    proof -
      have "live s' c \<noteq> None" using c by simp
      then have "pg_round_down c \<noteq> a" unfolding s'(3) by (simp split: if_splits)
      moreover have "live s c = Some n" "c \<noteq> b" using c unfolding l by (auto split: if_splits)
      ultimately have c': "pg_round_down c \<noteq> a" "live s c = Some n" "c \<noteq> b" by simp_all
      have "{c..<c + n} \<inter> page_range a 1 = {}" using live_off_page [OF ok c'(2) ar(1) c'(1)] ar(2) by (simp add: arena_pages_def)
      then show ?thesis using bytes [OF c'(2,3)] s'(4) unfolding same_bytes_def by auto
    qed
    then show ?thesis using f s'(2) l by blast
  qed
qed

lemma free_ok:
  assumes ok: "heap_ok s" and b: "live s b = Some m"
  shows "\<exists>s'. free (Some b) s = Some s' \<and> heap_ok s' \<and> live s' = (live s)(b := None) \<and> (\<forall>c n. live s' c = Some n \<longrightarrow> same_bytes c n s s')"
  using ok b
proof (cases rule: live_cases)
  case (small a ar d i)
  have "b \<in> blks a d" unfolding blks_def small(5) using small(4) by blast
  then show ?thesis using free_small_ok [OF ok small(3,1,2)] small(7) by blast
next
  case (big a ar)
  then show ?thesis using free_big_ok [OF ok big(1,2,3)] by blast
qed

section \<open>Histories of requests\<close>

text \<open>What the clients of an allocator do: ask for blocks (with the answer), give blocks back, write into their blocks.\<close>

datatype event = Get nat "nat option" | Put nat | Poke nat nat u8

inductive history :: "(nat \<Rightarrow> 's \<Rightarrow> (nat option \<times> 's) option) \<Rightarrow> (nat option \<Rightarrow> 's \<Rightarrow> 's option) \<Rightarrow> (nat \<Rightarrow> u8 \<Rightarrow> 's \<Rightarrow> 's) \<Rightarrow> ('s \<Rightarrow> nat \<rightharpoonup> nat) \<Rightarrow> nat \<Rightarrow>
    event list \<Rightarrow> 's \<Rightarrow> 's \<Rightarrow> bool" for alloc dealloc poke blocks bound where
  history_nil: "history alloc dealloc poke blocks bound [] s s"
| history_get: "\<lbrakk>alloc n s = Some (r, t); 0 < n; n < bound; history alloc dealloc poke blocks bound es t u\<rbrakk> \<Longrightarrow>
    history alloc dealloc poke blocks bound (Get n r # es) s u"
| history_put: "\<lbrakk>blocks s b = Some m; dealloc (Some b) s = Some t; history alloc dealloc poke blocks bound es t u\<rbrakk> \<Longrightarrow>
    history alloc dealloc poke blocks bound (Put b # es) s u"
| history_poke: "\<lbrakk>blocks s b = Some m; i < m; history alloc dealloc poke blocks bound es (poke (b + i) v s) u\<rbrakk> \<Longrightarrow>
    history alloc dealloc poke blocks bound (Poke b i v # es) s u"

locale allocator =
  fixes alloc :: "nat \<Rightarrow> 's \<Rightarrow> (nat option \<times> 's) option"
    and dealloc :: "nat option \<Rightarrow> 's \<Rightarrow> 's option"
    and poke :: "nat \<Rightarrow> u8 \<Rightarrow> 's \<Rightarrow> 's"
    and blocks :: "'s \<Rightarrow> nat \<rightharpoonup> nat"
    and bound :: nat
    and ok :: "'s \<Rightarrow> bool"
    and byte :: "'s \<Rightarrow> nat \<Rightarrow> u8"
  assumes alloc_returns: "ok s \<Longrightarrow> 0 < n \<Longrightarrow> n < bound \<Longrightarrow> \<exists>r t. alloc n s = Some (r, t)"
    and alloc_ok: "ok s \<Longrightarrow> 0 < n \<Longrightarrow> n < bound \<Longrightarrow> alloc n s = Some (r, t) \<Longrightarrow> ok t \<and> byte t = byte s"
    and alloc_none: "ok s \<Longrightarrow> 0 < n \<Longrightarrow> n < bound \<Longrightarrow> alloc n s = Some (None, t) \<Longrightarrow> blocks t = blocks s"
    and alloc_some: "ok s \<Longrightarrow> 0 < n \<Longrightarrow> n < bound \<Longrightarrow> alloc n s = Some (Some b, t) \<Longrightarrow> blocks s b = None \<and> (\<exists>m \<ge> n. blocks t = (blocks s)(b \<mapsto> m))"
    and dealloc_returns: "ok s \<Longrightarrow> blocks s b = Some m \<Longrightarrow> \<exists>t. dealloc (Some b) s = Some t"
    and dealloc_ok: "ok s \<Longrightarrow> blocks s b = Some m \<Longrightarrow> dealloc (Some b) s = Some t \<Longrightarrow> ok t \<and> blocks t = (blocks s)(b := None)"
    and dealloc_byte: "ok s \<Longrightarrow> blocks s b = Some m \<Longrightarrow> dealloc (Some b) s = Some t \<Longrightarrow> blocks t c = Some n \<Longrightarrow> i < n \<Longrightarrow> byte t (c + i) = byte s (c + i)"
    and poke_ok: "ok s \<Longrightarrow> ok (poke x v s) \<and> blocks (poke x v s) = blocks s"
    and poke_byte: "byte (poke x v s) y = (if y = x then v else byte s y)"
    and apart: "ok s \<Longrightarrow> blocks s b = Some m \<Longrightarrow> blocks s c = Some n \<Longrightarrow> b \<noteq> c \<Longrightarrow> {b..<b + m} \<inter> {c..<c + n} = {}"
begin

lemma poke_other:
  assumes "ok s" and "blocks s b = Some m" and "i < m" and "blocks s c = Some n" and "j < n" and "b \<noteq> c \<or> i \<noteq> j"
  shows "byte (poke (b + i) v s) (c + j) = byte s (c + j)"
proof (cases "b = c")
  case False
  then have "b + i \<noteq> c + j" using apart [OF assms(1,2,4) False] assms(3,5) by (metis atLeastLessThan_iff disjoint_iff le_add1 nat_add_left_cancel_less)
  then show ?thesis by (simp add: poke_byte)
qed (use assms in \<open>simp add: poke_byte\<close>)

lemma history_ok: "history alloc dealloc poke blocks bound es s u \<Longrightarrow> ok s \<Longrightarrow> ok u"
  by (induction rule: history.induct) (use alloc_ok dealloc_ok poke_ok in blast)+

lemma history_keeps:
  assumes "history alloc dealloc poke blocks bound es s u" and "ok s" and "blocks s c = Some n" and "Put c \<notin> set es"
  shows "blocks u c = Some n \<and> (\<forall>j < n. (\<forall>v. Poke c j v \<notin> set es) \<longrightarrow> byte u (c + j) = byte s (c + j))"
  using assms
proof (induction rule: history.induct)
  case (history_get n' s r t es u)
  have "ok t" "byte t = byte s" using alloc_ok [OF history_get.prems(1) history_get.hyps(2,3,1)] by simp_all
  moreover have "blocks t c = Some n"
  proof (cases r)
    case None
    then show ?thesis using alloc_none [OF history_get.prems(1) history_get.hyps(2,3)] history_get.hyps(1) history_get.prems(2) by simp
  next
    case (Some b)
    then show ?thesis using alloc_some [OF history_get.prems(1) history_get.hyps(2,3)] history_get.hyps(1) history_get.prems(2) by fastforce
  qed
  ultimately show ?case using history_get.IH history_get.prems(3) by simp
next
  case (history_put s b m t es u)
  then have t: "ok t" "blocks t = (blocks s)(b := None)" using dealloc_ok by blast+
  then have "blocks t c = Some n" using history_put.prems by simp
  then show ?case using history_put.IH [OF t(1)] history_put.prems dealloc_byte [OF history_put.prems(1) history_put.hyps(1,2)] by simp
next
  case (history_poke s b m i es v u)
  then have t: "ok (poke (b + i) v s)" "blocks (poke (b + i) v s) = blocks s" using poke_ok by blast+
  then show ?case using history_poke.IH [OF t(1)] history_poke.prems poke_other [OF history_poke.prems(1) history_poke.hyps(1,2) history_poke.prems(2)]
    by simp metis
qed simp

lemma history_apart:
  assumes "history alloc dealloc poke blocks bound es s u" and "ok s" and "blocks u b = Some m" and "blocks u c = Some n" and "b \<noteq> c"
  shows "{b..<b + m} \<inter> {c..<c + n} = {}"
  using apart history_ok assms by blast

lemma history_returns:
  assumes "history alloc dealloc poke blocks bound es s u" and "ok s"
  shows "(0 < n \<longrightarrow> n < bound \<longrightarrow> alloc n u \<noteq> None) \<and> (blocks u b \<noteq> None \<longrightarrow> dealloc (Some b) u \<noteq> None)"
  using history_ok [OF assms] alloc_returns dealloc_returns by fastforce

end

section \<open>The kernel's allocator\<close>

definition MALLOC_BOUND :: nat where "MALLOC_BOUND = 2 ^ 32 - (ARENA_SIZE + PGSIZE - 1)"

definition mem_poke :: "nat \<Rightarrow> u8 \<Rightarrow> mheap \<Rightarrow> mheap" where "mem_poke x v s = mem_fill x v 1 s"

definition mem_byte :: "mheap \<Rightarrow> nat \<Rightarrow> u8" where "mem_byte s x = ram (pages s) x"

lemma malloc_bound: "n < MALLOC_BOUND \<Longrightarrow> n + ARENA_SIZE + (PGSIZE - 1) < 2 ^ 32"
  by (simp add: MALLOC_BOUND_def ARENA_SIZE_def PGSIZE_def)

interpretation kernel_heap: allocator malloc free mem_poke live MALLOC_BOUND heap_ok mem_byte
proof unfold_locales
  fix s t :: mheap and n m k b c i x y :: nat and r :: "nat option" and v :: u8
  note m = malloc_ok [OF _ _ malloc_bound]
  assume ok: "heap_ok s"
  { assume n: "0 < n" "n < MALLOC_BOUND"
    show "\<exists>r t. malloc n s = Some (r, t)" using m [OF ok n] by blast
    { assume "malloc n s = Some (r, t)"
      then show "heap_ok t \<and> mem_byte t = mem_byte s" using m [OF ok n] ok by (auto simp: mem_byte_def fun_eq_iff) }
    { assume "malloc n s = Some (None, t)"
      then show "live t = live s" using m [OF ok n] by auto }
    { assume "malloc n s = Some (Some b, t)"
      then show "live s b = None \<and> (\<exists>m\<ge>n. live t = (live s)(b \<mapsto> m))" using m [OF ok n] by auto } }
  show "heap_ok (mem_poke x v s) \<and> live (mem_poke x v s) = live s"
    using ok heap_ok_cong [of "mem_poke x v s" s] live_cong [of "mem_poke x v s" s] by (simp add: mem_poke_def)
  assume b: "live s b = Some m"
  show "\<exists>t. free (Some b) s = Some t" using free_ok [OF ok b] by blast
  { assume "live s c = Some n" and "b \<noteq> c"
    then show "{b..<b + m} \<inter> {c..<c + n} = {}" by (rule live_disjoint [OF ok b]) }
  assume t: "free (Some b) s = Some t"
  show "heap_ok t \<and> live t = (live s)(b := None)" using free_ok [OF ok b] t by auto
  assume "live t c = Some n" and "i < n"
  then show "mem_byte t (c + i) = mem_byte s (c + i)" using free_ok [OF ok b] t by (auto simp: same_bytes_def mem_byte_def)
qed (simp add: mem_byte_def mem_poke_def)

lemma malloc_init_ok:
  assumes "palloc_ok p"
  shows "\<exists>s. malloc_init p = Some s \<and> heap_ok s \<and> live s = Map.empty \<and> pages s = p"
proof -
  let ?d = "\<lambda>d. \<lparr>d_block_size = bsz d, blocks_per_arena = nblk d, free_list = [], d_lock = False\<rparr>"
  have "malloc_init_loop 16 [] = Some (map ?d [0, 1, 2, 3, 4, 5, 6])"
    by (simp add: malloc_init_loop.simps PGSIZE_def DESCS_MAX_def ARENA_SIZE_def bsz_def nblk_def)
  then have s: "malloc_init p = Some \<lparr>pages = p, descs = map ?d [0, 1, 2, 3, 4, 5, 6], arenas = Map.empty\<rparr>" (is "_ = Some ?s") by (simp add: malloc_init_def)
  have "descs ?s ! d = ?d d" if "d < 7" for d
  proof -
    have "d = 0 \<or> d = 1 \<or> d = 2 \<or> d = 3 \<or> d = 4 \<or> d = 5 \<or> d = 6" using that by linarith
    then show ?thesis by (elim disjE) simp_all
  qed
  then have "heap_ok ?s" using assms by (simp add: heap_ok_def lists_ok_def pages_ok_def descs_ok_def)
  moreover have "live ?s = Map.empty" by (simp add: live_def fun_eq_iff)
  ultimately show ?thesis using s by simp
qed

definition demo_heap :: mheap where
  "demo_heap = \<lparr>pages = demo_palloc, descs = map (\<lambda>d. \<lparr>d_block_size = bsz d, blocks_per_arena = nblk d, free_list = [], d_lock = False\<rparr>) [0, 1, 2, 3, 4, 5, 6],
     arenas = Map.empty\<rparr>"

lemma demo_heap_init: "malloc_init demo_palloc = Some demo_heap"
  by (simp add: malloc_init_def malloc_init_loop.simps PGSIZE_def DESCS_MAX_def ARENA_SIZE_def bsz_def nblk_def demo_heap_def)

lemma demo_heap_ok: "heap_ok demo_heap" "live demo_heap = Map.empty"
  using malloc_init_ok [OF demo_palloc_ok] demo_heap_init by simp_all

lemma demo_page: "\<exists>a p. palloc_get_multiple 0 1 demo_palloc = Some (Some a, p)"
  by (cases rule: palloc_get_ok [OF demo_palloc_ok, of 1 0]) (auto simp: get_pool_def demo_palloc_def demo_pool_def demo_unused)

lemma demo_malloc: "\<exists>b s. malloc 20 demo_heap = Some (Some b, s)"
proof -
  have l: "length (descs demo_heap) = 7" by (simp add: demo_heap_def)
  have f: "find_desc 20 (descs demo_heap) = 1" by (simp add: demo_heap_def bsz_def)
  have d: "descs demo_heap ! 1 = \<lparr>d_block_size = bsz 1, blocks_per_arena = nblk 1, free_list = [], d_lock = False\<rparr>" by (simp add: demo_heap_def)
  have "new_arena 1 (descs demo_heap ! 1) demo_heap \<noteq> Some (False, demo_heap)"
    using demo_page by (auto simp: new_arena_def palloc_get_page_def demo_heap_def bind_eq_Some_iff)
  then obtain t where t: "new_arena 1 (descs demo_heap ! 1) demo_heap = Some (True, t)"
    using new_arena_ok [OF demo_heap_ok(1), of 1] d by auto
  have "malloc 20 demo_heap \<noteq> Some (None, demo_heap)"
  proof
    assume *: "malloc 20 demo_heap = Some (None, demo_heap)"
    have "malloc 20 demo_heap = do {
        ds \<leftarrow> arr_get (descs t) 1;
        case free_list ds of [] \<Rightarrow> None
        | b # bs \<Rightarrow> do { s \<leftarrow> upd_desc 1 (free_list_update (\<lambda>_. bs)) t; (a, ar) \<leftarrow> block_to_arena b s;
            Some (Some b, s\<lparr>arenas := (arenas s)(a \<mapsto> ar\<lparr>a_free_cnt := sz (a_free_cnt ar + (2 ^ 32 - 1))\<rparr>)\<rparr>) } }"
      using t d l unfolding malloc_def f Let_def by (simp add: arr_get_def)
    from this [symmetric, unfolded *] show False by (auto simp: bind_eq_Some_iff neq_Nil_conv split: list.splits)
  qed
  then show ?thesis using malloc_small_ok [OF demo_heap_ok(1), of 20] f by auto
qed

lemmas mheap_history = history_get [where alloc = malloc and dealloc = free and poke = mem_poke and blocks = live and bound = MALLOC_BOUND]

text \<open>
  C7: However blocks are asked for, given back and written to, the kernel's heap stays sound: \<open>malloc\<close> and \<open>free\<close> never stop the kernel,
  a block that was not given back stays in use with its size, every byte of it that was not written keeps its value, and
  blocks in use never overlap.
\<close>

theorem malloc_history:
  assumes "history malloc free mem_poke live MALLOC_BOUND es s t" and "heap_ok s"
  shows "heap_ok t \<and>
    (\<forall>b m. live s b = Some m \<longrightarrow> Put b \<notin> set es \<longrightarrow>
       live t b = Some m \<and> (\<forall>i < m. (\<forall>v. Poke b i v \<notin> set es) \<longrightarrow> mem_byte t (b + i) = mem_byte s (b + i))) \<and>
    (\<forall>b m c n. live t b = Some m \<longrightarrow> live t c = Some n \<longrightarrow> b \<noteq> c \<longrightarrow> {b..<b + m} \<inter> {c..<c + n} = {}) \<and>
    (\<forall>n. 0 < n \<longrightarrow> n < MALLOC_BOUND \<longrightarrow> malloc n t \<noteq> None) \<and> (\<forall>b. live t b \<noteq> None \<longrightarrow> free (Some b) t \<noteq> None)"
  by (intro conjI allI impI kernel_heap.history_ok [OF assms] kernel_heap.history_apart [OF assms])
    (simp_all add: kernel_heap.history_keeps [OF assms] kernel_heap.history_returns [OF assms, rule_format])

theorem malloc_history_witness:
  "\<exists>b s t u. malloc 20 demo_heap = Some (Some b, s) \<and> free (Some b) s = Some t \<and> history malloc free mem_poke live MALLOC_BOUND [Get 20 (Some b), Poke b 3 9] demo_heap u \<and>
     heap_ok u \<and> mem_byte u (b + 3) = 9"
proof -
  obtain b s where s: "malloc 20 demo_heap = Some (Some b, s)" using demo_malloc by blast
  have n: "0 < (20::nat)" "20 < MALLOC_BOUND" by (simp_all add: MALLOC_BOUND_def ARENA_SIZE_def PGSIZE_def)
  obtain m where m: "20 \<le> m" "live s b = Some m" using kernel_heap.alloc_some [OF demo_heap_ok(1) n s] by auto
  let ?u = "mem_poke (b + 3) 9 s"
  have "history malloc free mem_poke live MALLOC_BOUND [Poke b 3 9] s ?u" using m by (intro history_poke [of live s b m]) (auto intro: history_nil)
  then have h: "history malloc free mem_poke live MALLOC_BOUND [Get 20 (Some b), Poke b 3 9] demo_heap ?u" using mheap_history [OF s n] by simp
  have "history malloc free mem_poke live MALLOC_BOUND [Get 20 (Some b)] demo_heap s" using mheap_history [OF s n history_nil] .
  then have "free (Some b) s \<noteq> None" using malloc_history [OF _ demo_heap_ok(1)] m(2) by fastforce
  moreover have "heap_ok ?u" using malloc_history [OF h demo_heap_ok(1)] by blast
  ultimately show ?thesis using s h kernel_heap.poke_byte [of "b + 3" 9 s "b + 3"] by auto
qed

section \<open>Resizing\<close>

lemma block_size_ok:
  assumes ok: "heap_ok s" and b: "live s b = Some m"
  shows "block_size b s = Some m"
  using ok b
proof (cases rule: live_cases)
  case (small a ar d i)
  have ds: "length (descs s) = 7" "d_block_size (descs s ! d) = bsz d" using ok small(3) by (simp_all add: heap_ok_def lists_ok_def descs_ok_def)
  have "b \<in> blks a d" unfolding blks_def small(5) using small(4) by blast
  then have "block_to_arena b s = Some (a, ar)" using block_to_arena_small [OF ok small(1,2)] ds small(3) by simp
  then show ?thesis using small(2,3,6) ds by (simp add: block_size_def arr_get_def)
next
  case (big a ar)
  note al = heap_arena(1-3,6) [OF ok big(1)]
  have pb: "pg_round_down b = a" "pg_ofs b = ARENA_SIZE" unfolding big(3) using in_page [OF al(1), of ARENA_SIZE] by (simp_all add: ARENA_SIZE_def PGSIZE_def)
  have "block_to_arena b s = Some (a, ar)" using al(2) big(1,2) pb by (simp add: block_to_arena_def)
  moreover have "PGSIZE * a_free_cnt ar < 2 ^ 32" "PGSIZE \<le> PGSIZE * a_free_cnt ar" using al big(2) by (simp_all add: arena_pages_def)
  then have "sz (PGSIZE * a_free_cnt ar + (2 ^ 32 - ARENA_SIZE)) = PGSIZE * a_free_cnt ar - ARENA_SIZE"
    by (simp add: sz_def ARENA_SIZE_def PGSIZE_def mod_if)
  ultimately show ?thesis using big(2,4) pb by (simp add: block_size_def)
qed


lemma mem_copy_simps [simp]:
  "arenas (mem_copy c b n s) = arenas s" "descs (mem_copy c b n s) = descs s" "kernel_pool (pages (mem_copy c b n s)) = kernel_pool (pages s)"
  "user_pool (pages (mem_copy c b n s)) = user_pool (pages s)"
  "mem_byte (mem_copy c b n s) x = (if c \<le> x \<and> x < c + n then mem_byte s (b + (x - c)) else mem_byte s x)"
  by (simp_all add: mem_copy_def mem_byte_def)

text \<open>
  C8: \<open>realloc\<close> either fails and leaves the old block as it is, or returns a block that is large enough, is not otherwise in use and
  starts with the contents of the old block up to the smaller of the two sizes; the old block is given back and no other block changes.
\<close>

theorem realloc_keeps_contents:
  assumes ok: "heap_ok s" and b: "live s b = Some m" and n: "0 < n" "n < MALLOC_BOUND"
  shows "realloc (Some b) n s = Some (None, s) \<or>
    (\<exists>c k t. realloc (Some b) n s = Some (Some c, t) \<and> heap_ok t \<and> n \<le> k \<and> live s c = None \<and> live t = (live s)(c \<mapsto> k, b := None) \<and>
       (\<forall>i < min n m. mem_byte t (c + i) = mem_byte s (b + i)) \<and>
       (\<forall>x l i. x \<noteq> b \<longrightarrow> live s x = Some l \<longrightarrow> i < l \<longrightarrow> mem_byte t (x + i) = mem_byte s (x + i)))"
  using malloc_ok [OF ok n(1) malloc_bound [OF n(2)]]
proof
  assume "malloc n s = Some (None, s)"
  then show ?thesis using n by (simp add: realloc_def)
next
  assume "\<exists>c k u. malloc n s = Some (Some c, u) \<and> heap_ok u \<and> n \<le> k \<and> live s c = None \<and> live u = (live s)(c \<mapsto> k) \<and> ram (pages u) = ram (pages s)"
  then obtain c k u where u: "malloc n s = Some (Some c, u)" "heap_ok u" "n \<le> k" "live s c = None" "live u = (live s)(c \<mapsto> k)" "ram (pages u) = ram (pages s)" by blast
  have ne: "c \<noteq> b" and ub: "live u b = Some m" and uc: "live u c = Some k" using u(4,5) b by auto
  let ?v = "mem_copy c b (min n m) u"
  have v: "heap_ok ?v" "live ?v = live u" using u(2) heap_ok_cong [of ?v u] live_cong [of ?v u] by simp_all
  then obtain t where t: "free (Some b) ?v = Some t" "heap_ok t" "live t = (live u)(b := None)" "\<And>x l. live t x = Some l \<Longrightarrow> same_bytes x l ?v t"
    using free_ok [of ?v b m] ub by metis
  have "(if n < m then n else m) = min n m" by simp
  then have r: "realloc (Some b) n s = Some (Some c, t)"
    using n u(1) block_size_ok [OF u(2) ub] t(1) by (simp only: realloc_def Let_def) simp
  have byte: "mem_byte t (x + i) = mem_byte ?v (x + i)" if "live t x = Some l" "i < l" for x l i
    using t(4) [OF that(1)] that(2) by (simp add: same_bytes_def mem_byte_def)
  have ram: "mem_byte u x = mem_byte s x" for x using u(6) by (simp add: mem_byte_def)
  have "live t c = Some k" using t(3) uc ne by simp
  then have "mem_byte t (c + i) = mem_byte s (b + i)" if "i < min n m" for i
    using byte [of c k i] that u(3) ram by simp
  moreover have "mem_byte t (x + i) = mem_byte s (x + i)" if x: "x \<noteq> b" "live s x = Some l" "i < l" for x l i
  proof -
    have xc: "x \<noteq> c" and xu: "live u x = Some l" and xt: "live t x = Some l" using x u(4,5) t(3) by auto
    have "{x..<x + l} \<inter> {c..<c + k} = {}" by (rule live_disjoint [OF u(2) xu uc xc])
    then have "\<not> (c \<le> x + i \<and> x + i < c + min n m)" using x(3) u(3) by (metis atLeastLessThan_iff disjoint_iff le_add1 less_le_trans min.cobounded1 nat_add_left_cancel_le nat_add_left_cancel_less)
    then show ?thesis using byte [OF xt x(3)] ram by auto
  qed
  ultimately show ?thesis using r t(2,3) u(3,4,5) by (intro disjI2 exI [of _ c] exI [of _ k] exI [of _ t]) simp
qed

text \<open>The check of \<open>calloc\<close> and the sum in \<open>malloc\<close> wrap around: a request for almost 4 GB is served with one page.\<close>

theorem malloc_size_wraps:
  "\<exists>b s. malloc (2 ^ 32 - 11) demo_heap = Some (Some b, s) \<and> live s b = Some 4084"
proof -
  obtain a p where p: "palloc_get_multiple 0 1 demo_palloc = Some (Some a, p)" using demo_page by blast
  have pg: "pages demo_heap = demo_palloc" by (simp add: demo_heap_def)
  have po: "pages_ok demo_heap" using demo_heap_ok(1) by (simp add: heap_ok_def)
  have al: "pg_ofs a = 0" using palloc_get_Some(2) [OF demo_palloc_ok _ p] by simp
  have f: "find_desc (2 ^ 32 - 11) (descs demo_heap) = length (descs demo_heap)" by (simp add: demo_heap_def bsz_def)
  let ?s = "demo_heap\<lparr>pages := p, arenas := (arenas demo_heap)(a \<mapsto> \<lparr>a_desc = None, a_free_cnt = 1\<rparr>)\<rparr>"
  have "malloc_big (2 ^ 32 - 11) demo_heap = Some (Some (a + ARENA_SIZE), ?s)"
    using p by (simp add: malloc_big_def sz_def ARENA_SIZE_def PGSIZE_def pg)
  then have "malloc (2 ^ 32 - 11) demo_heap = Some (Some (a + ARENA_SIZE), ?s)" unfolding malloc_def Let_def f by simp
  moreover have "live ?s (a + ARENA_SIZE) = Some 4084"
    using in_page [OF al, of ARENA_SIZE] by (simp add: live_def ARENA_SIZE_def PGSIZE_def)
  ultimately show ?thesis by blast
qed


theorem realloc_keeps_witness:
  "\<exists>b s m. malloc 20 demo_heap = Some (Some b, s) \<and> live s b = Some m \<and> 20 \<le> m \<and>
     (realloc (Some b) 500 s = Some (None, s) \<or>
      (\<exists>c k t. realloc (Some b) 500 s = Some (Some c, t) \<and> 500 \<le> k \<and> live t c = Some k \<and> live t b = None \<and>
         (\<forall>i < min 500 m. mem_byte t (c + i) = mem_byte s (b + i))))"
proof -
  obtain b s where s: "malloc 20 demo_heap = Some (Some b, s)" using demo_malloc by blast
  have n: "0 < (20::nat)" "20 < MALLOC_BOUND" "0 < (500::nat)" "500 < MALLOC_BOUND" by (simp_all add: MALLOC_BOUND_def ARENA_SIZE_def PGSIZE_def)
  obtain m where m: "20 \<le> m" "live s b = Some m" using kernel_heap.alloc_some [OF demo_heap_ok(1) n(1,2) s] by auto
  have "heap_ok s" using kernel_heap.alloc_ok [OF demo_heap_ok(1) n(1,2) s] by simp
  from realloc_keeps_contents [OF this m(2) n(3,4)] show ?thesis using s m by (metis fun_upd_apply option.distinct(1))
qed

end
