(* ===== verification/Stdio.thy ===== *)
theory Stdio
  imports Stdlib
begin

text \<open>
  Formatted output, \<^verbatim>\<open>lib/stdio.c\<close>. A format is the list of its bytes before the null byte, the variable arguments are a list, and the
  output function with its auxiliary data is an argument, as in the code. An argument of the wrong kind, a missing one, signed overflow
  and a read behind the end of the format are undefined; they count as stopping the kernel.
\<close>

section \<open>Arguments\<close>

text \<open>Arguments of up to 32 bits (pointers included), of 64 bits, and strings, where \<open>None\<close> is a null pointer.\<close>

datatype va_arg = Int_arg u32 | Int64_arg u64 | Str_arg "u8 list option"

fun va_int :: "va_arg list \<Rightarrow> (u32 \<times> va_arg list) option" where
  "va_int (Int_arg w # args) = Some (w, args)"
| "va_int args = None"

fun va_int64 :: "va_arg list \<Rightarrow> (u64 \<times> va_arg list) option" where
  "va_int64 (Int64_arg w # args) = Some (w, args)"
| "va_int64 args = None"

fun va_str :: "va_arg list \<Rightarrow> (u8 list option \<times> va_arg list) option" where
  "va_str (Str_arg s # args) = Some (s, args)"
| "va_str args = None"

text \<open>The bytes of a string literal.\<close>

definition bytes :: "string \<Rightarrow> u8 list" where
  "bytes s = map (\<lambda>c. of_nat (of_char c)) s"

section \<open>Conversions\<close>

definition MINUS :: u32 where "MINUS = 1"
definition PLUS :: u32 where "PLUS = 2"
definition SPACE :: u32 where "SPACE = 4"
definition POUND :: u32 where "POUND = 8"
definition ZERO :: u32 where "ZERO = 16"
definition GROUP :: u32 where "GROUP = 32"

datatype int_type = CHAR_t | SHORT | INT_t | INTMAX | LONG | LONGLONG | PTRDIFFT | SIZET

record printf_conversion =
  pc_flags :: u32
  pc_width :: int
  pc_precision :: int
  pc_type :: int_type

record integer_base =
  ib_base :: nat
  ib_digits :: "u8 list"
  ib_x :: u8
  ib_group :: nat

definition base_d :: integer_base where "base_d = \<lparr>ib_base = 10, ib_digits = bytes ''0123456789'', ib_x = 0, ib_group = 3\<rparr>"
definition base_o :: integer_base where "base_o = \<lparr>ib_base = 8, ib_digits = bytes ''01234567'', ib_x = 0, ib_group = 3\<rparr>"
definition base_x :: integer_base where "base_x = \<lparr>ib_base = 16, ib_digits = bytes ''0123456789abcdef'', ib_x = 120, ib_group = 4\<rparr>"
definition base_X :: integer_base where "base_X = \<lparr>ib_base = 16, ib_digits = bytes ''0123456789ABCDEF'', ib_x = 88, ib_group = 4\<rparr>"

fun parse_flags :: "u8 list \<Rightarrow> u32 \<Rightarrow> u8 list \<times> u32" where
  "parse_flags [] fl = ([], fl)"
| "parse_flags (ch # f) fl =
     (if ch = 45 then parse_flags f (fl OR MINUS)
      else if ch = 43 then parse_flags f (fl OR PLUS)
      else if ch = 32 then parse_flags f (fl OR SPACE)
      else if ch = 35 then parse_flags f (fl OR POUND)
      else if ch = 48 then parse_flags f (fl OR ZERO)
      else if ch = 39 then parse_flags f (fl OR GROUP)
      else (ch # f, fl))"

fun parse_number :: "u8 list \<Rightarrow> int \<Rightarrow> (u8 list \<times> int) option" where
  "parse_number [] n = Some ([], n)"
| "parse_number (ch # f) n =
     (if isdigit ch then do { ASSERT (int_ok (n * 10 + uint ch)); parse_number f (n * 10 + uint ch - 48) }
      else Some (ch # f, n))"

text \<open>A number that may be given by an argument.\<close>

definition parse_star :: "u8 list \<Rightarrow> va_arg list \<Rightarrow> (int \<times> u8 list \<times> va_arg list) option" where
  "parse_star f args =
     (case f of
        ch # f' \<Rightarrow> if ch = 42 then do { (w, args) \<leftarrow> va_int args; Some (sint w, f', args) }
                  else do { (f, n) \<leftarrow> parse_number f 0; Some (n, f, args) }
      | [] \<Rightarrow> Some (0, [], args))"

fun parse_type :: "u8 list \<Rightarrow> int_type \<times> u8 list" where
  "parse_type [] = (INT_t, [])"
| "parse_type (ch # f) =
     (if ch = 104 then (case f of d # f' \<Rightarrow> if d = 104 then (CHAR_t, f') else (SHORT, f) | [] \<Rightarrow> (SHORT, f))
      else if ch = 106 then (INTMAX, f)
      else if ch = 108 then (case f of d # f' \<Rightarrow> if d = 108 then (LONGLONG, f') else (LONG, f) | [] \<Rightarrow> (LONG, f))
      else if ch = 116 then (PTRDIFFT, f)
      else if ch = 122 then (SIZET, f)
      else (INT_t, ch # f))"

definition parse_precision :: "u8 list \<Rightarrow> va_arg list \<Rightarrow> (int \<times> u8 list \<times> va_arg list) option" where
  "parse_precision f args =
     (if f \<noteq> [] \<and> hd f = 46 then do {
        (prec, f, args) \<leftarrow> parse_star (tl f) args;
        Some (if prec < 0 then -1 else prec, f, args) }
      else Some (-1, f, args))"

definition parse_conversion :: "u8 list \<Rightarrow> va_arg list \<Rightarrow> (printf_conversion \<times> u8 list \<times> va_arg list) option" where
  "parse_conversion f args = do {
     let (f, fl) = parse_flags f 0;
     let fl = (if fl AND MINUS \<noteq> 0 then fl AND NOT ZERO else fl);
     let fl = (if fl AND PLUS \<noteq> 0 then fl AND NOT SPACE else fl);
     (w, f, args) \<leftarrow> parse_star f args;
     (w, fl) \<leftarrow> (if w < 0 then do { ASSERT (int_ok (- w)); Some (- w, fl OR MINUS) } else Some (w, fl));
     (prec, f, args) \<leftarrow> parse_precision f args;
     let fl = (if 0 \<le> prec then fl AND NOT ZERO else fl);
     let (ty, f) = parse_type f;
     Some (\<lparr>pc_flags = fl, pc_width = w, pc_precision = prec, pc_type = ty\<rparr>, f, args) }"

section \<open>Output of a conversion\<close>

type_synonym 'a out_fn = "u8 \<Rightarrow> 'a \<Rightarrow> 'a option"

primrec output_dup :: "u8 \<Rightarrow> nat \<Rightarrow> 'a out_fn \<Rightarrow> 'a \<Rightarrow> 'a option" where
  "output_dup ch 0 out aux = Some aux"
| "output_dup ch (Suc n) out aux = do { aux \<leftarrow> out ch aux; output_dup ch n out aux }"

primrec output_bytes :: "u8 list \<Rightarrow> 'a out_fn \<Rightarrow> 'a \<Rightarrow> 'a option" where
  "output_bytes [] out aux = Some aux"
| "output_bytes (ch # s) out aux = do { aux \<leftarrow> out ch aux; output_bytes s out aux }"

text \<open>The buffer of 64 bytes, as the list of the bytes written to it so far.\<close>

definition push_digit :: "u8 \<Rightarrow> u8 list \<Rightarrow> u8 list option" where
  "push_digit ch buf = (if length buf < 64 then Some (buf @ [ch]) else None)"

function digit_loop :: "nat \<Rightarrow> u32 \<Rightarrow> integer_base \<Rightarrow> nat \<Rightarrow> u8 list \<Rightarrow> u8 list option" where
  "digit_loop value fl b digit_cnt buf =
     (if value > 0 \<and> 1 < ib_base b then do {
        buf \<leftarrow> (if fl AND GROUP \<noteq> 0 \<and> 0 < digit_cnt \<and> digit_cnt mod ib_group b = 0 then push_digit 44 buf else Some buf);
        d \<leftarrow> arr_get (ib_digits b) (value mod ib_base b);
        buf \<leftarrow> push_digit d buf;
        digit_loop (value div ib_base b) fl b (digit_cnt + 1) buf }
      else Some buf)"
  by pat_completeness auto
termination by (relation "measure (\<lambda>(value, fl, b, digit_cnt, buf). value)") auto

declare digit_loop.simps [simp del]

function zero_loop :: "int \<Rightarrow> u8 list \<Rightarrow> u8 list option" where
  "zero_loop prec buf =
     (if int (length buf) < prec \<and> length buf < 63 then do { buf \<leftarrow> push_digit 48 buf; zero_loop prec buf }
      else Some buf)"
  by pat_completeness auto
termination by (relation "measure (\<lambda>(prec, buf). 64 - length buf)") (auto simp: push_digit_def split: if_splits)

declare zero_loop.simps [simp del]

definition sign_char :: "bool \<Rightarrow> bool \<Rightarrow> u32 \<Rightarrow> u8" where
  "sign_char is_signed negative fl =
     (if \<not> is_signed then 0
      else if fl AND PLUS \<noteq> 0 then (if negative then 45 else 43)
      else if fl AND SPACE \<noteq> 0 then (if negative then 45 else 32)
      else if negative then 45 else 0)"

definition format_integer :: "nat \<Rightarrow> bool \<Rightarrow> bool \<Rightarrow> integer_base \<Rightarrow> printf_conversion \<Rightarrow> 'a out_fn \<Rightarrow> 'a \<Rightarrow> 'a option" where
  "format_integer value is_signed negative b c out aux = do {
     let fl = pc_flags c;
     let sign = sign_char is_signed negative fl;
     let x = (if fl AND POUND \<noteq> 0 \<and> value \<noteq> 0 then ib_x b else 0);
     buf \<leftarrow> digit_loop value fl b 0 [];
     buf \<leftarrow> zero_loop (if pc_precision c < 0 then 1 else pc_precision c) buf;
     buf \<leftarrow> (if fl AND POUND \<noteq> 0 \<and> ib_base b = 8 \<and> (buf = [] \<or> last buf \<noteq> 48) then push_digit 48 buf else Some buf);
     let pad_cnt = nat (pc_width c - int (length buf) - (if x \<noteq> 0 then 2 else 0) - (if sign \<noteq> 0 then 1 else 0));
     aux \<leftarrow> (if fl AND (MINUS OR ZERO) = 0 then output_dup 32 pad_cnt out aux else Some aux);
     aux \<leftarrow> (if sign \<noteq> 0 then out sign aux else Some aux);
     aux \<leftarrow> (if x \<noteq> 0 then do { aux \<leftarrow> out 48 aux; out x aux } else Some aux);
     aux \<leftarrow> (if fl AND ZERO \<noteq> 0 then output_dup 48 pad_cnt out aux else Some aux);
     aux \<leftarrow> output_bytes (rev buf) out aux;
     if fl AND MINUS \<noteq> 0 then output_dup 32 pad_cnt out aux else Some aux }"

definition format_string :: "u8 list \<Rightarrow> printf_conversion \<Rightarrow> 'a out_fn \<Rightarrow> 'a \<Rightarrow> 'a option" where
  "format_string s c out aux = do {
     aux \<leftarrow> (if int (length s) < pc_width c \<and> pc_flags c AND MINUS = 0 then output_dup 32 (nat (pc_width c - int (length s))) out aux else Some aux);
     aux \<leftarrow> output_bytes s out aux;
     if int (length s) < pc_width c \<and> pc_flags c AND MINUS \<noteq> 0 then output_dup 32 (nat (pc_width c - int (length s))) out aux else Some aux }"

section \<open>Formatted output\<close>

text \<open>The argument of a signed conversion, and of an unsigned one, as a 64-bit value.\<close>

definition signed_arg :: "int_type \<Rightarrow> va_arg list \<Rightarrow> (u64 \<times> va_arg list) option" where
  "signed_arg ty args =
     (case ty of
        CHAR_t \<Rightarrow> do { (w, args) \<leftarrow> va_int args; Some (scast (ucast w :: u8), args) }
      | SHORT \<Rightarrow> do { (w, args) \<leftarrow> va_int args; Some (scast (ucast w :: u16), args) }
      | INT_t \<Rightarrow> do { (w, args) \<leftarrow> va_int args; Some (scast w, args) }
      | INTMAX \<Rightarrow> va_int64 args
      | LONG \<Rightarrow> do { (w, args) \<leftarrow> va_int args; Some (scast w, args) }
      | LONGLONG \<Rightarrow> va_int64 args
      | PTRDIFFT \<Rightarrow> do { (w, args) \<leftarrow> va_int args; Some (scast w, args) }
      | SIZET \<Rightarrow> do {
          (w, args) \<leftarrow> va_int args;
          let value = (ucast w :: u64);
          Some (if value > of_nat (SIZE_MAX div 2) then value - of_nat SIZE_MAX - 1 else value, args) })"

definition PTRDIFF_MAX :: u64 where "PTRDIFF_MAX = 0x7fffffff"

definition unsigned_arg :: "int_type \<Rightarrow> va_arg list \<Rightarrow> (u64 \<times> va_arg list) option" where
  "unsigned_arg ty args =
     (case ty of
        CHAR_t \<Rightarrow> do { (w, args) \<leftarrow> va_int args; Some (ucast (ucast w :: u8), args) }
      | SHORT \<Rightarrow> do { (w, args) \<leftarrow> va_int args; Some (ucast (ucast w :: u16), args) }
      | INT_t \<Rightarrow> do { (w, args) \<leftarrow> va_int args; Some (ucast w, args) }
      | INTMAX \<Rightarrow> va_int64 args
      | LONG \<Rightarrow> do { (w, args) \<leftarrow> va_int args; Some (ucast w, args) }
      | LONGLONG \<Rightarrow> va_int64 args
      | PTRDIFFT \<Rightarrow> do { (w, args) \<leftarrow> va_int args; Some (scast w AND (push_bit 1 PTRDIFF_MAX OR 1), args) }
      | SIZET \<Rightarrow> do { (w, args) \<leftarrow> va_int args; Some (ucast w, args) })"

type_synonym 'a vprintf_fn = "u8 list \<Rightarrow> va_arg list \<Rightarrow> 'a out_fn \<Rightarrow> 'a \<Rightarrow> 'a option"

text \<open>The conversion \<open>ch\<close>; \<open>again\<close> prints the messages for conversions that are not supported.\<close>

definition convert :: "'a vprintf_fn \<Rightarrow> printf_conversion \<Rightarrow> u8 \<Rightarrow> va_arg list \<Rightarrow> 'a out_fn \<Rightarrow> 'a \<Rightarrow> (va_arg list \<times> 'a) option" where
  "convert again c ch args out aux =
     (if ch \<in> {100, 105} then do {
        (value, args) \<leftarrow> signed_arg (pc_type c) args;
        ASSERT (sint value \<noteq> - (2 ^ 63));
        aux \<leftarrow> format_integer (unat (if value <s 0 then - value else value)) True (value <s 0) base_d c out aux;
        Some (args, aux) }
      else if ch \<in> {111, 117, 120, 88} then do {
        (value, args) \<leftarrow> unsigned_arg (pc_type c) args;
        aux \<leftarrow> format_integer (unat value) False False (if ch = 111 then base_o else if ch = 117 then base_d else if ch = 120 then base_x else base_X) c out aux;
        Some (args, aux) }
      else if ch = 99 then do {
        (w, args) \<leftarrow> va_int args;
        aux \<leftarrow> format_string [ucast w] c out aux;
        Some (args, aux) }
      else if ch = 115 then do {
        (s, args) \<leftarrow> va_str args;
        let s = (case s of None \<Rightarrow> bytes ''(null)'' | Some s \<Rightarrow> s);
        aux \<leftarrow> format_string (if pc_precision c < 0 then s else take (nat (pc_precision c)) s) c out aux;
        Some (args, aux) }
      else if ch = 112 then do {
        (w, args) \<leftarrow> va_int args;
        aux \<leftarrow> format_integer (unat w) False False base_x (c\<lparr>pc_flags := POUND\<rparr>) out aux;
        Some (args, aux) }
      else if ch \<in> {102, 101, 69, 103, 71, 110} then do {
        aux \<leftarrow> again (bytes ''<<no %%%c in kernel>>'') [Int_arg (ucast ch)] out aux;
        Some (args, aux) }
      else do {
        aux \<leftarrow> again (bytes ''<<no %%%c conversion>>'') [Int_arg (ucast ch)] out aux;
        Some (args, aux) })"

lemma parse_flags_length: "length (fst (parse_flags f fl)) \<le> length f"
  by (induction f fl rule: parse_flags.induct) auto

lemma parse_number_length: "parse_number f n = Some (f', n') \<Longrightarrow> length f' \<le> length f"
  by (induction f n rule: parse_number.induct) (auto split: if_splits)

lemma parse_star_length: "parse_star f args = Some (n, f', args') \<Longrightarrow> length f' \<le> length f"
  by (cases f) (auto simp: parse_star_def bind_eq_Some_iff split: if_splits dest!: parse_number_length)

lemma parse_type_length: "length (snd (parse_type f)) \<le> length f"
  by (cases f) (auto split: list.split)

lemma parse_precision_length: "parse_precision f args = Some (n, f', args') \<Longrightarrow> length f' \<le> length f"
  by (cases f) (auto simp: parse_precision_def bind_eq_Some_iff split: if_splits dest!: parse_star_length)

lemma parse_conversion_length:
  assumes "parse_conversion f args = Some (c, f', args')"
  shows "length f' \<le> length f"
proof -
  obtain f1 fl where 1: "parse_flags f 0 = (f1, fl)" by fastforce
  obtain w f2 a2 p f3 a3 ty where 2: "parse_star f1 args = Some (w, f2, a2)" "parse_precision f2 a2 = Some (p, f3, a3)" "parse_type f3 = (ty, f')"
    using assms 1 by (auto simp: parse_conversion_def Let_def bind_eq_Some_iff split: if_splits prod.splits)
  show ?thesis using parse_flags_length [of f 0] parse_star_length [OF 2(1)] parse_precision_length [OF 2(2)] parse_type_length [of f3] 1 2(3) by simp
qed

function vprintf_loop :: "'a vprintf_fn \<Rightarrow> 'a vprintf_fn" where
  "vprintf_loop again [] args out aux = Some aux"
| "vprintf_loop again (ch # f) args out aux =
     (if ch \<noteq> 37 then do { aux \<leftarrow> out ch aux; vprintf_loop again f args out aux }
      else if f \<noteq> [] \<and> hd f = 37 then do { aux \<leftarrow> out 37 aux; vprintf_loop again (tl f) args out aux }
      else do {
        (c, f, args) \<leftarrow> parse_conversion f args;
        (args, aux) \<leftarrow> convert again c (if f = [] then 0 else hd f) args out aux;
        (case f of [] \<Rightarrow> None | _ # f' \<Rightarrow> vprintf_loop again f' args out aux) })"
  by pat_completeness auto
termination by (relation "measure (\<lambda>(again, f, args, out, aux). length f)") (auto dest: parse_conversion_length)

declare vprintf_loop.simps [simp del]

text \<open>The messages have no unsupported conversions, so that one level of nesting is enough.\<close>

definition vprintf :: "'a vprintf_fn" where
  "vprintf = vprintf_loop (vprintf_loop (\<lambda>f args out aux. None))"

text \<open>Output into a buffer of \<open>buf_size\<close> bytes: the array, the current position in it, and the length of the whole output.\<close>

record vsnprintf_aux =
  vs_buffer :: "u8 list"
  vs_p :: nat
  vs_length :: int
  vs_max_length :: int

definition vsnprintf_helper :: "vsnprintf_aux out_fn" where
  "vsnprintf_helper ch aux = do {
     ASSERT (int_ok (vs_length aux + 1));
     let aux' = aux\<lparr>vs_length := vs_length aux + 1\<rparr>;
     if vs_length aux < vs_max_length aux then do {
       buffer \<leftarrow> arr_set (vs_buffer aux) (vs_p aux) ch;
       Some (aux'\<lparr>vs_buffer := buffer, vs_p := vs_p aux + 1\<rparr>) }
     else Some aux' }"

text \<open>The greatest length is a \<^verbatim>\<open>size_t\<close> that is stored in an \<^verbatim>\<open>int\<close>.\<close>

definition size_as_int :: "nat \<Rightarrow> int" where "size_as_int n = sint (of_nat n :: u32)"

definition vsnprintf :: "u8 list \<Rightarrow> nat \<Rightarrow> u8 list \<Rightarrow> va_arg list \<Rightarrow> (int \<times> u8 list) option" where
  "vsnprintf buffer buf_size format args = do {
     aux \<leftarrow> vprintf format args vsnprintf_helper
       \<lparr>vs_buffer = buffer, vs_p = 0, vs_length = 0, vs_max_length = size_as_int (if 0 < buf_size then buf_size - 1 else 0)\<rparr>;
     buffer \<leftarrow> (if 0 < buf_size then arr_set (vs_buffer aux) (vs_p aux) 0 else Some (vs_buffer aux));
     Some (vs_length aux, buffer) }"

definition snprintf :: "u8 list \<Rightarrow> nat \<Rightarrow> string \<Rightarrow> va_arg list \<Rightarrow> (int \<times> u8 list) option" where
  "snprintf buffer buf_size format args = vsnprintf buffer buf_size (bytes format) args"

text \<open>The console is the list of the bytes shown so far.\<close>

definition put_console :: "u8 list out_fn" where "put_console ch con = Some (con @ [ch])"

definition printf :: "string \<Rightarrow> va_arg list \<Rightarrow> u8 list \<Rightarrow> u8 list option" where
  "printf format args con = vprintf (bytes format) args put_console con"

section \<open>Dumps and sizes\<close>

definition isprint :: "u8 \<Rightarrow> bool" where "isprint c \<longleftrightarrow> 32 \<le> c \<and> c < 127"

text \<open>A part of a line, for the columns from \<open>i\<close> on.\<close>

primrec for_columns :: "nat \<Rightarrow> nat \<Rightarrow> (nat \<Rightarrow> u8 list \<Rightarrow> u8 list option) \<Rightarrow> u8 list \<Rightarrow> u8 list option" where
  "for_columns 0 i f con = Some con"
| "for_columns (Suc n) i f con = do { con \<leftarrow> f i con; for_columns n (i + 1) f con }"

definition dump_line :: "nat \<Rightarrow> u8 list \<Rightarrow> nat \<Rightarrow> nat \<Rightarrow> bool \<Rightarrow> u8 list \<Rightarrow> u8 list option" where
  "dump_line ofs buf start fin ascii con = do {
     con \<leftarrow> printf ''%08jx  '' [Int64_arg (of_nat (ROUND_DOWN ofs 16))] con;
     con \<leftarrow> for_columns start 0 (\<lambda>i. printf ''   '' []) con;
     con \<leftarrow> for_columns (fin - start) start (\<lambda>i con. do {
         v \<leftarrow> arr_get buf (i - start);
         printf ''%02hhx%c'' [Int_arg (ucast v), Int_arg (if i = 16 div 2 - 1 then 45 else 32)] con }) con;
     con \<leftarrow> (if ascii then do {
         con \<leftarrow> for_columns (16 - fin) fin (\<lambda>i. printf ''   '' []) con;
         con \<leftarrow> printf ''|'' [] con;
         con \<leftarrow> for_columns start 0 (\<lambda>i. printf '' '' []) con;
         con \<leftarrow> for_columns (fin - start) start (\<lambda>i con. do {
             v \<leftarrow> arr_get buf (i - start);
             printf ''%c'' [Int_arg (if isprint v then ucast v else 46)] con }) con;
         con \<leftarrow> for_columns (16 - fin) fin (\<lambda>i. printf '' '' []) con;
         printf ''|'' [] con }
       else Some con);
     printf [CHR 0x0A] [] con }"

function hex_dump :: "nat \<Rightarrow> u8 list \<Rightarrow> nat \<Rightarrow> bool \<Rightarrow> u8 list \<Rightarrow> u8 list option" where
  "hex_dump ofs buf len ascii con =
     (if 0 < len then do {
        let start = ofs mod 16;
        let fin = (if 16 - start > len then start + len else 16);
        let n = fin - start;
        con \<leftarrow> dump_line ofs buf start fin ascii con;
        hex_dump (sz (ofs + n)) (drop n buf) (len - n) ascii con }
      else Some con)"
  by pat_completeness auto
termination
proof (relation "measure (\<lambda>(ofs, buf, len, ascii, con). len)", goal_cases)
  case (2 ofs buf len ascii con start fin n con')
  have "start < 16" using 2(2) by simp
  then have "0 < n" using 2(1,3,4) by (auto split: if_splits)
  then show ?case using 2(1) by simp
qed simp

declare hex_dump.simps [simp del]

definition factors :: "string list" where "factors = [''bytes'', ''kB'', ''MB'', ''GB'', ''TB'']"

fun size_loop :: "nat \<Rightarrow> string list \<Rightarrow> nat \<times> string list" where
  "size_loop n (f # g # fp) = (if 1024 \<le> n then size_loop (n div 1024) (g # fp) else (n, f # g # fp))"
| "size_loop n fp = (n, fp)"

definition print_human_readable_size :: "u64 \<Rightarrow> u8 list \<Rightarrow> u8 list option" where
  "print_human_readable_size n con =
     (if n = 1 then printf ''1 byte'' [] con
      else case size_loop (unat n) factors of
        (k, f # _) \<Rightarrow> printf ''%llu %s'' [Int64_arg (of_nat k), Str_arg (Some (bytes f))] con
      | _ \<Rightarrow> None)"

section \<open>The text that is written\<close>

text \<open>A function that writes the text \<open>t\<close>, whatever the output function does with it.\<close>

definition emits :: "('a out_fn \<Rightarrow> 'a \<Rightarrow> 'a option) \<Rightarrow> u8 list option \<Rightarrow> bool" where
  "emits g t \<longleftrightarrow> (\<forall>out aux. g out aux = t \<bind> (\<lambda>s. output_bytes s out aux))"

lemma emitsD: "emits g t \<Longrightarrow> g out aux = t \<bind> (\<lambda>s. output_bytes s out aux)"
  by (simp add: emits_def)

lemma output_bytes_append: "output_bytes (s @ t) out aux = output_bytes s out aux \<bind> output_bytes t out"
  by (induction s arbitrary: aux) simp_all

lemma output_dup_bytes: "output_dup ch n out aux = output_bytes (replicate n ch) out aux"
  by (induction n arbitrary: aux) simp_all

lemma output_console: "output_bytes s put_console con = Some (con @ s)"
  by (induction s arbitrary: con) (simp_all add: put_console_def)

definition pad :: "u8 \<Rightarrow> bool \<Rightarrow> nat \<Rightarrow> u8 list" where "pad ch b n = (if b then replicate n ch else [])"

definition integer_text :: "nat \<Rightarrow> bool \<Rightarrow> bool \<Rightarrow> integer_base \<Rightarrow> printf_conversion \<Rightarrow> u8 list option" where
  "integer_text value is_signed negative b c = do {
     let fl = pc_flags c;
     let sign = sign_char is_signed negative fl;
     let x = (if fl AND POUND \<noteq> 0 \<and> value \<noteq> 0 then ib_x b else 0);
     buf \<leftarrow> digit_loop value fl b 0 [];
     buf \<leftarrow> zero_loop (if pc_precision c < 0 then 1 else pc_precision c) buf;
     buf \<leftarrow> (if fl AND POUND \<noteq> 0 \<and> ib_base b = 8 \<and> (buf = [] \<or> last buf \<noteq> 48) then push_digit 48 buf else Some buf);
     let pad_cnt = nat (pc_width c - int (length buf) - (if x \<noteq> 0 then 2 else 0) - (if sign \<noteq> 0 then 1 else 0));
     Some (pad 32 (fl AND (MINUS OR ZERO) = 0) pad_cnt @ (if sign \<noteq> 0 then [sign] else []) @ (if x \<noteq> 0 then [48, x] else []) @
       pad 48 (fl AND ZERO \<noteq> 0) pad_cnt @ rev buf @ pad 32 (fl AND MINUS \<noteq> 0) pad_cnt) }"

definition string_text :: "u8 list \<Rightarrow> printf_conversion \<Rightarrow> u8 list" where
  "string_text s c = pad 32 (pc_flags c AND MINUS = 0) (nat (pc_width c) - length s) @ s @ pad 32 (pc_flags c AND MINUS \<noteq> 0) (nat (pc_width c) - length s)"

lemma output_bytes_Nil: "output_bytes [] out = Some"
  by (rule ext) simp

lemma output_pieces:
  "(if b then output_dup ch n out aux else Some aux) = output_bytes (pad ch b n) out aux"
  "(if x \<noteq> 0 then out x aux else Some aux) = output_bytes (if x \<noteq> 0 then [x] else []) out aux"
  "(if x \<noteq> 0 then out 48 aux \<bind> out x else Some aux) = output_bytes (if x \<noteq> 0 then [48, x] else []) out aux"
  by (simp_all add: pad_def output_dup_bytes output_bytes_Nil del: output_bytes.simps(1))

lemma output_bytes_append_fun: "output_bytes (s @ t) out = (\<lambda>aux. output_bytes s out aux \<bind> output_bytes t out)"
  by (rule ext) (rule output_bytes_append)

lemma emits_integer: "emits (format_integer value sg neg b c) (integer_text value sg neg b c)"
  unfolding emits_def format_integer_def integer_text_def Let_def output_pieces
  by (simp only: bind_assoc output_bytes_append_fun bind.bind_lunit simp_thms)

lemma emits_string: "emits (format_string s c) (Some (string_text s c))"
proof (cases "int (length s) < pc_width c")
  case True
  then have "nat (pc_width c) - length s = nat (pc_width c - int (length s))" by linarith
  then show ?thesis using True unfolding emits_def format_string_def string_text_def pad_def
    by (simp add: output_dup_bytes output_bytes_append output_bytes_Nil bind_assoc cong: if_cong)
next
  case False
  then have "nat (pc_width c) - length s = 0" by linarith
  then show ?thesis using False unfolding emits_def format_string_def string_text_def pad_def
    by (simp add: output_bytes_append output_bytes_Nil)
qed

text \<open>The text of one conversion and of a whole format, as functions of the format and the arguments alone.\<close>

type_synonym text_fn = "u8 list \<Rightarrow> va_arg list \<Rightarrow> u8 list option"

definition convert_text :: "text_fn \<Rightarrow> printf_conversion \<Rightarrow> u8 \<Rightarrow> va_arg list \<Rightarrow> (va_arg list \<times> u8 list) option" where
  "convert_text again c ch args =
     (if ch \<in> {100, 105} then do {
        (value, args) \<leftarrow> signed_arg (pc_type c) args;
        ASSERT (sint value \<noteq> - (2 ^ 63));
        t \<leftarrow> integer_text (unat (if value <s 0 then - value else value)) True (value <s 0) base_d c;
        Some (args, t) }
      else if ch \<in> {111, 117, 120, 88} then do {
        (value, args) \<leftarrow> unsigned_arg (pc_type c) args;
        t \<leftarrow> integer_text (unat value) False False (if ch = 111 then base_o else if ch = 117 then base_d else if ch = 120 then base_x else base_X) c;
        Some (args, t) }
      else if ch = 99 then do { (w, args) \<leftarrow> va_int args; Some (args, string_text [ucast w] c) }
      else if ch = 115 then do {
        (s, args) \<leftarrow> va_str args;
        let s = (case s of None \<Rightarrow> bytes ''(null)'' | Some s \<Rightarrow> s);
        Some (args, string_text (if pc_precision c < 0 then s else take (nat (pc_precision c)) s) c) }
      else if ch = 112 then do {
        (w, args) \<leftarrow> va_int args;
        t \<leftarrow> integer_text (unat w) False False base_x (c\<lparr>pc_flags := POUND\<rparr>);
        Some (args, t) }
      else if ch \<in> {102, 101, 69, 103, 71, 110} then do { t \<leftarrow> again (bytes ''<<no %%%c in kernel>>'') [Int_arg (ucast ch)]; Some (args, t) }
      else do { t \<leftarrow> again (bytes ''<<no %%%c conversion>>'') [Int_arg (ucast ch)]; Some (args, t) })"

function text_loop :: "text_fn \<Rightarrow> text_fn" where
  "text_loop again [] args = Some []"
| "text_loop again (ch # f) args =
     (if ch \<noteq> 37 then map_option (Cons ch) (text_loop again f args)
      else if f \<noteq> [] \<and> hd f = 37 then map_option (Cons 37) (text_loop again (tl f) args)
      else do {
        (c, f, args) \<leftarrow> parse_conversion f args;
        (args, t) \<leftarrow> convert_text again c (if f = [] then 0 else hd f) args;
        (case f of [] \<Rightarrow> None | _ # f' \<Rightarrow> map_option ((@) t) (text_loop again f' args)) })"
  by pat_completeness auto
termination by (relation "measure (\<lambda>(again, f, args). length f)") (auto dest: parse_conversion_length)

declare text_loop.simps [simp del]

definition vprintf_text :: text_fn where
  "vprintf_text = text_loop (text_loop (\<lambda>f args. None))"

lemma if_None_bind: "(if b then m else None) \<bind> f = (if b then m \<bind> f else None)"
  by simp

lemma convert_emits:
  assumes "\<And>f args. emits (again f args) (again' f args)"
  shows "convert again c ch args out aux = convert_text again' c ch args \<bind> (\<lambda>(args, t). output_bytes t out aux \<bind> (\<lambda>aux. Some (args, aux)))"
proof -
  note e = emitsD [OF emits_integer] emitsD [OF emits_string] emitsD [OF assms]
  show ?thesis unfolding convert_def convert_text_def Let_def
    by (simp add: e bind_assoc case_prod_unfold if_None_bind cong: if_cong option.case_cong)
qed

lemma loop_percent:
  assumes "\<not> (f \<noteq> [] \<and> hd f = 37)"
  shows "vprintf_loop again (37 # f) args out aux = do {
        (c, f, args) \<leftarrow> parse_conversion f args;
        (args, aux) \<leftarrow> convert again c (if f = [] then 0 else hd f) args out aux;
        (case f of [] \<Rightarrow> None | _ # f' \<Rightarrow> vprintf_loop again f' args out aux) }"
    and "text_loop again' (37 # f) args = do {
        (c, f, args) \<leftarrow> parse_conversion f args;
        (args, t) \<leftarrow> convert_text again' c (if f = [] then 0 else hd f) args;
        (case f of [] \<Rightarrow> None | _ # f' \<Rightarrow> map_option ((@) t) (text_loop again' f' args)) }"
  unfolding vprintf_loop.simps(2) text_loop.simps(2) if_not_P [OF assms] by simp_all

lemma loop_emits:
  assumes again: "\<And>f args. emits (again f args) (again' f args)"
  shows "vprintf_loop again f args out aux = text_loop again' f args \<bind> (\<lambda>t. output_bytes t out aux)"
proof (induction "length f" arbitrary: f args aux rule: less_induct)
  case less
  have IH: "vprintf_loop again g args out = (\<lambda>aux. text_loop again' g args \<bind> (\<lambda>t. output_bytes t out aux))" if "length g < length f" for g args
    using less that by blast
  show ?case
  proof (cases f)
    case Nil
    then show ?thesis by (simp add: vprintf_loop.simps text_loop.simps)
  next
    case f: (Cons ch h)
    consider "ch \<noteq> 37" | "ch = 37" "h \<noteq> []" "hd h = 37" | "ch = 37" "\<not> (h \<noteq> [] \<and> hd h = 37)" by blast
    then show ?thesis
    proof cases
      case 1
      then show ?thesis using f IH [of h args] by (cases "text_loop again' h args") (simp_all add: vprintf_loop.simps text_loop.simps output_bytes_Nil)
    next
      case 2
      then show ?thesis using f IH [of "tl h" args] by (cases "text_loop again' (tl h) args") (simp_all add: vprintf_loop.simps text_loop.simps output_bytes_Nil)
    next
      case 3
      note unfold = f loop_percent [OF 3(2)] 3(1)
      show ?thesis
      proof (cases "parse_conversion h args")
        case None
        then show ?thesis by (simp add: unfold)
      next
        case (Some r)
        obtain c g args1 where r: "r = (c, g, args1)" by (cases r)
        note conv = convert_emits [OF again, where c = c and ch = "if g = [] then 0 else hd g" and args = args1 and out = out and aux = aux]
        show ?thesis
        proof (cases "convert_text again' c (if g = [] then 0 else hd g) args1")
          case None
          then show ?thesis using Some r conv by (simp add: unfold)
        next
          case S2: (Some q)
          obtain args2 t where q: "q = (args2, t)" by (cases q)
          show ?thesis
          proof (cases g)
            case Nil
            then show ?thesis using Some r S2 q conv by (simp add: unfold)
          next
            case (Cons d g')
            then have "length g' < length f" using parse_conversion_length Some r f by fastforce
            then show ?thesis using Some r S2 q conv Cons IH [of g' args2]
              by (cases "text_loop again' g' args2") (simp_all add: unfold output_bytes_append)
          qed
        qed
      qed
    qed
  qed
qed

lemma emits_vprintf: "emits (vprintf f args) (vprintf_text f args)"
proof -
  have "emits (vprintf_loop (\<lambda>f args out aux. None) g as) (text_loop (\<lambda>f args. None) g as)" for g as
    unfolding emits_def by (intro allI loop_emits) (simp add: emits_def)
  then show ?thesis unfolding emits_def vprintf_def vprintf_text_def by (intro allI loop_emits) (simp add: emits_def)
qed

lemma printf_text: "printf format args con = map_option ((@) con) (vprintf_text (bytes format) args)"
  using emitsD [OF emits_vprintf, of "bytes format" args put_console con] by (cases "vprintf_text (bytes format) args") (simp_all add: printf_def output_console)

lemma helper_bytes:
  assumes "vs_length aux = int k" "vs_max_length aux = int n" "vs_p aux = min k n" "n \<le> length (vs_buffer aux)" "k + length s < 2 ^ 31"
  shows "output_bytes s vsnprintf_helper aux = Some (aux\<lparr>vs_buffer := overwrite (vs_buffer aux) (min k n) (take (n - k) s), vs_p := min (k + length s) n, vs_length := int (k + length s)\<rparr>)"
  using assms
proof (induction s arbitrary: aux k)
  case Nil
  then show ?case by (cases aux) simp
next
  case (Cons ch s)
  have ok: "int_ok (vs_length aux + 1)" using Cons.prems by (simp add: int_ok_def)
  show ?case
  proof (cases "k < n")
    case True
    let ?a = "aux\<lparr>vs_length := int (Suc k), vs_buffer := (vs_buffer aux)[k := ch], vs_p := Suc k\<rparr>"
    have h: "vsnprintf_helper ch aux = Some ?a" using Cons.prems ok True by (simp add: vsnprintf_helper_def add.commute)
    have "overwrite ((vs_buffer aux)[k := ch]) (Suc k) (take (n - Suc k) s) = overwrite (vs_buffer aux) k (take (n - k) (ch # s))"
    proof -
      have "n - k = Suc (n - Suc k)" using True by simp
      then show ?thesis using True Cons.prems(4) by (simp add: overwrite_def take_Suc_conv_app_nth)
    qed
    then show ?thesis using h Cons.IH [of ?a "Suc k"] Cons.prems True by simp
  next
    case False
    let ?a = "aux\<lparr>vs_length := int (Suc k)\<rparr>"
    have h: "vsnprintf_helper ch aux = Some ?a" using Cons.prems ok False by (simp add: vsnprintf_helper_def add.commute)
    then show ?thesis using h Cons.IH [of ?a "Suc k"] Cons.prems False by simp
  qed
qed

lemma size_as_int_small: "n < 2 ^ 31 \<Longrightarrow> size_as_int n = int n"
  by (simp add: size_as_int_def signed_of_nat signed_take_bit_int_eq_self)

lemma vsnprintf_ok:
  assumes t: "vprintf_text format args = Some s" and s: "length s < 2 ^ 31" and n: "n \<le> length buffer" "n \<le> 2 ^ 31"
  shows "vsnprintf buffer n format args =
    Some (int (length s), if n = 0 then buffer else overwrite buffer 0 (take (n - 1) s @ [0]))"
proof -
  let ?aux = "\<lparr>vs_buffer = buffer, vs_p = 0, vs_length = 0, vs_max_length = int (n - 1)\<rparr>"
  have max: "size_as_int (if 0 < n then n - 1 else 0) = int (n - 1)" using n(2) size_as_int_small [of "n - 1"] size_as_int_small [of 0] by auto
  have "vprintf format args vsnprintf_helper ?aux = output_bytes s vsnprintf_helper ?aux"
    using emitsD [OF emits_vprintf, of format args] t by simp
  also have "\<dots> = Some (?aux\<lparr>vs_buffer := overwrite buffer 0 (take (n - 1) s), vs_p := min (length s) (n - 1), vs_length := int (length s)\<rparr>)"
    using helper_bytes [of ?aux 0 "n - 1" s] s n by simp
  finally have v: "vprintf format args vsnprintf_helper ?aux = Some (?aux\<lparr>vs_buffer := overwrite buffer 0 (take (n - 1) s), vs_p := min (length s) (n - 1), vs_length := int (length s)\<rparr>)" .
  show ?thesis
  proof (cases n)
    case 0
    then show ?thesis using v unfolding vsnprintf_def max by (simp add: overwrite_def)
  next
    case (Suc k)
    let ?l = "min (length s) k"
    have l: "?l < length buffer" "length (take k s) = ?l" using n Suc by simp_all
    have "(overwrite buffer 0 (take k s))[?l := 0] = overwrite buffer 0 (take k s @ [0])"
    proof -
      have "drop ?l buffer = buffer ! ?l # drop (Suc ?l) buffer" using l(1) by (simp add: Cons_nth_drop_Suc)
      then show ?thesis using l by (simp add: overwrite_def list_update_append)
    qed
    then show ?thesis using v l n Suc unfolding vsnprintf_def max by (simp add: arr_set_def)
  qed
qed

section \<open>Digits\<close>

text \<open>The digits of a number, the last one first.\<close>

function radix :: "nat \<Rightarrow> nat \<Rightarrow> nat list" where
  "radix b v = (if 1 < b \<and> 0 < v then v mod b # radix b (v div b) else [])"
  by pat_completeness auto
termination by (relation "measure snd") auto

declare radix.simps [simp del]

lemma radix_0 [simp]: "radix b 0 = []"
  by (simp add: radix.simps)

lemma radix_length: "1 < b \<Longrightarrow> v < b ^ k \<Longrightarrow> length (radix b v) \<le> k"
proof (induction k arbitrary: v)
  case (Suc k)
  then have "v div b < b ^ k" by (simp add: less_mult_imp_div_less mult.commute)
  then show ?case using Suc by (subst radix.simps) simp
qed simp

lemma radix_value: "1 < b \<Longrightarrow> foldr (\<lambda>d v. v * b + d) (radix b v) 0 = v"
proof (induction b v rule: radix.induct)
  case (1 b v)
  then show ?case by (subst radix.simps) simp
qed

lemma radix_digits: "1 < b \<Longrightarrow> d \<in> set (radix b v) \<Longrightarrow> d < b"
proof (induction b v rule: radix.induct)
  case (1 b v)
  show ?case
  proof (cases "0 < v")
    case True
    then have "radix b v = v mod b # radix b (v div b)" using 1(2) by (subst radix.simps) simp
    then show ?thesis using 1 True by auto
  qed (use 1(3) in simp)
qed

definition base_ok :: "integer_base \<Rightarrow> bool" where
  "base_ok b \<longleftrightarrow> length (ib_digits b) = ib_base b \<and> 8 \<le> ib_base b"

lemma base_ok [simp]: "base_ok base_d" "base_ok base_o" "base_ok base_x" "base_ok base_X"
  by (simp_all add: base_ok_def base_d_def base_o_def base_x_def base_X_def bytes_def)

lemma digit_loop_bound:
  "base_ok b \<Longrightarrow> length buf + 2 * length (radix (ib_base b) v) \<le> 64 \<Longrightarrow>
   \<exists>buf'. digit_loop v fl b cnt buf = Some buf' \<and> length buf' \<le> length buf + 2 * length (radix (ib_base b) v)"
proof (induction v fl b cnt buf rule: digit_loop.induct)
  case (1 v fl b cnt buf)
  show ?case
  proof (cases "0 < v")
    case True
    have b: "1 < ib_base b" "length (ib_digits b) = ib_base b" using 1(2) by (simp_all add: base_ok_def)
    have r: "radix (ib_base b) v = v mod ib_base b # radix (ib_base b) (v div ib_base b)" using True b(1) by (subst radix.simps) simp
    define com where "com = (fl AND GROUP \<noteq> 0 \<and> 0 < cnt \<and> cnt mod ib_group b = 0)"
    define buf1 where "buf1 = (if com then buf @ [44] else buf)"
    have l: "length buf + 2 + 2 * length (radix (ib_base b) (v div ib_base b)) \<le> 64" using 1(3) r by simp
    then have p1: "(if com then push_digit 44 buf else Some buf) = Some buf1" by (simp add: push_digit_def buf1_def)
    have d: "arr_get (ib_digits b) (v mod ib_base b) = Some (ib_digits b ! (v mod ib_base b))" using b by simp
    have l1: "length buf1 \<le> length buf + 1" by (simp add: buf1_def)
    then have p2: "push_digit (ib_digits b ! (v mod ib_base b)) buf1 = Some (buf1 @ [ib_digits b ! (v mod ib_base b)])" using l by (simp add: push_digit_def)
    obtain buf' where "digit_loop (v div ib_base b) fl b (cnt + 1) (buf1 @ [ib_digits b ! (v mod ib_base b)]) = Some buf'"
        "length buf' \<le> length (buf1 @ [ib_digits b ! (v mod ib_base b)]) + 2 * length (radix (ib_base b) (v div ib_base b))"
      using 1(1) [OF conjI [OF True b(1)] _ d p2] p1 1(2) l l1 unfolding com_def by fastforce
    then show ?thesis using True b d p1 p2 l1 r by (subst digit_loop.simps) (simp add: com_def)
  qed (subst digit_loop.simps, simp)
qed

lemma digit_loop_plain:
  "base_ok b \<Longrightarrow> fl AND GROUP = 0 \<Longrightarrow> length buf + length (radix (ib_base b) v) \<le> 64 \<Longrightarrow>
   digit_loop v fl b cnt buf = Some (buf @ map ((!) (ib_digits b)) (radix (ib_base b) v))"
proof (induction v fl b cnt buf rule: digit_loop.induct)
  case (1 v fl b cnt buf)
  show ?case
  proof (cases "0 < v")
    case True
    have b: "1 < ib_base b" "length (ib_digits b) = ib_base b" using 1(2) by (simp_all add: base_ok_def)
    have r: "radix (ib_base b) v = v mod ib_base b # radix (ib_base b) (v div ib_base b)" using True b(1) by (subst radix.simps) simp
    have d: "arr_get (ib_digits b) (v mod ib_base b) = Some (ib_digits b ! (v mod ib_base b))" using b by simp
    have p2: "push_digit (ib_digits b ! (v mod ib_base b)) buf = Some (buf @ [ib_digits b ! (v mod ib_base b)])" using 1(4) r by (simp add: push_digit_def)
    have "digit_loop (v div ib_base b) fl b (cnt + 1) (buf @ [ib_digits b ! (v mod ib_base b)]) =
        Some ((buf @ [ib_digits b ! (v mod ib_base b)]) @ map ((!) (ib_digits b)) (radix (ib_base b) (v div ib_base b)))"
      using 1(1) [OF conjI [OF True b(1)] _ d p2] 1(2,3,4) r by simp
    then show ?thesis using True b d p2 r 1(3) by (subst digit_loop.simps) simp
  qed (subst digit_loop.simps, simp)
qed

lemma zero_loop_ok: "length buf \<le> 63 \<Longrightarrow> zero_loop p buf = Some (buf @ replicate (nat (min p 63) - length buf) 48)"
proof (induction p buf rule: zero_loop.induct)
  case (1 p buf)
  show ?case
  proof (cases "int (length buf) < p \<and> length buf < 63")
    case True
    then have "push_digit 48 buf = Some (buf @ [48])" by (simp add: push_digit_def)
    moreover from 1(1) [OF True this] have "zero_loop p (buf @ [48]) = Some ((buf @ [48]) @ replicate (nat (min p 63) - Suc (length buf)) 48)" using True by simp
    moreover have "nat (min p 63) - length buf = Suc (nat (min p 63) - Suc (length buf))" using True by linarith
    ultimately show ?thesis using True by (subst zero_loop.simps) simp
  next
    case False
    then have "nat (min p 63) - length buf = 0" using 1(2) by linarith
    then show ?thesis using False by (subst zero_loop.simps) auto
  qed
qed

lemma int_less_power: "v < 2 ^ 64 \<Longrightarrow> 8 \<le> b \<Longrightarrow> v < (b::nat) ^ 22"
proof -
  assume v: "v < 2 ^ 64" and b: "8 \<le> b"
  have "(2::nat) ^ 64 < 8 ^ 22" by simp
  also have "\<dots> \<le> b ^ 22" using b by (rule power_mono) simp
  finally show ?thesis using v by simp
qed

lemma radix_short: "base_ok b \<Longrightarrow> v < 2 ^ 64 \<Longrightarrow> length (radix (ib_base b) v) \<le> 22"
  by (rule radix_length) (auto simp: base_ok_def intro: int_less_power)

lemma integer_text_ok:
  assumes b: "base_ok b" and v: "v < 2 ^ 64"
  shows "\<exists>t. integer_text v sg neg b c = Some t \<and> pc_width c \<le> int (length t)"
proof -
  obtain buf where buf: "digit_loop v (pc_flags c) b 0 [] = Some buf" "length buf \<le> 44"
    using digit_loop_bound [OF b, of "[]" v "pc_flags c" 0] radix_short [OF b v] by fastforce
  let ?p = "if pc_precision c < 0 then 1 else pc_precision c"
  let ?buf = "buf @ replicate (nat (min ?p 63) - length buf) 48"
  have z: "zero_loop ?p buf = Some ?buf" using buf(2) by (intro zero_loop_ok) simp
  have l: "length ?buf \<le> 63" using buf(2) by simp
  define P where "P = (pc_flags c AND POUND \<noteq> 0 \<and> ib_base b = 8 \<and> (?buf = [] \<or> last ?buf \<noteq> 48))"
  define fin where "fin = (if P then ?buf @ [48] else ?buf)"
  have f: "(if P then push_digit 48 ?buf else Some ?buf) = Some fin" using l by (simp add: fin_def push_digit_def)
  let ?sign = "sign_char sg neg (pc_flags c)"
  let ?x = "if pc_flags c AND POUND \<noteq> 0 \<and> v \<noteq> 0 then ib_x b else 0"
  let ?pad = "nat (pc_width c - int (length fin) - (if ?x \<noteq> 0 then 2 else 0) - (if ?sign \<noteq> 0 then 1 else 0))"
  let ?t = "pad 32 (pc_flags c AND (MINUS OR ZERO) = 0) ?pad @ (if ?sign \<noteq> 0 then [?sign] else []) @ (if ?x \<noteq> 0 then [48, ?x] else []) @
       pad 48 (pc_flags c AND ZERO \<noteq> 0) ?pad @ rev fin @ pad 32 (pc_flags c AND MINUS \<noteq> 0) ?pad"
  have t: "integer_text v sg neg b c = Some ?t" unfolding integer_text_def Let_def buf(1) bind.bind_lunit z f [unfolded P_def] ..
  have "pc_flags c AND (MINUS OR ZERO) = 0 \<or> pc_flags c AND ZERO \<noteq> 0 \<or> pc_flags c AND MINUS \<noteq> 0"
    by (auto simp: bit.conj_disj_distrib)
  moreover define n where "n = ?pad"
  ultimately have "n \<le> length (pad 32 (pc_flags c AND (MINUS OR ZERO) = 0) n) + length (pad 48 (pc_flags c AND ZERO \<noteq> 0) n) + length (pad 32 (pc_flags c AND MINUS \<noteq> 0) n)"
    by (elim disjE) (simp_all add: pad_def)
  moreover define x where "x = ?x"
  moreover have "pc_width c \<le> int n + int (length fin) + (if x \<noteq> 0 then 2 else 0) + (if ?sign \<noteq> 0 then 1 else 0)" unfolding n_def x_def by simp
  ultimately have "pc_width c \<le> int (length ?t)" unfolding n_def [symmetric] unfolding x_def [symmetric] by (simp split: if_splits)
  then show ?thesis using t by blast
qed

section \<open>Properties\<close>

text \<open>
  What \<^verbatim>\<open>__vprintf\<close> writes is a function of the format and the arguments alone: with every output function and every auxiliary data it
  passes on exactly the bytes of that text, in order, once each.
\<close>

theorem vprintf_writes_text:
  "vprintf format args out aux = vprintf_text format args \<bind> (\<lambda>t. output_bytes t out aux)"
  by (rule emitsD [OF emits_vprintf])

text \<open>
  \<^verbatim>\<open>vsnprintf\<close> with a size of at most 2 GB stays in its buffer: it stores at most \<open>n - 1\<close> bytes of the text and a null byte, leaves the rest of the buffer alone,
  and returns the length the whole text would have had; a buffer of no bytes is not touched.
\<close>

theorem vsnprintf_truncates:
  assumes "vprintf_text format args = Some t" and "length t < 2 ^ 31" and "n \<le> length buffer" and "n \<le> 2 ^ 31"
  shows "\<exists>buffer'. vsnprintf buffer n format args = Some (int (length t), buffer') \<and> length buffer' = length buffer \<and>
    (\<forall>i < length buffer. buffer' ! i = (if i < min (length t) (n - 1) then t ! i else if n \<noteq> 0 \<and> i = min (length t) (n - 1) then 0 else buffer ! i))"
proof -
  let ?b = "if n = 0 then buffer else overwrite buffer 0 (take (n - 1) t @ [0])"
  have l: "0 + length (take (n - 1) t @ [0::u8]) \<le> length buffer" if "n \<noteq> 0" using that assms(3) by simp
  have "length ?b = length buffer" using l by simp
  moreover have "?b ! i = (if i < min (length t) (n - 1) then t ! i else if n \<noteq> 0 \<and> i = min (length t) (n - 1) then 0 else buffer ! i)" if "i < length buffer" for i
    using overwrite_nth [OF l that] that by (auto simp: nth_append)
  ultimately show ?thesis using vsnprintf_ok [OF assms] by (intro exI [of _ ?b]) simp
qed

text \<open>
  C22: The buffer of 64 bytes in which the digits of an integer are collected never overflows, for every value of 64 bits, all flags, and any
  width and precision; the text fills at least the width of the field.
\<close>

theorem format_integer_fits:
  assumes "v < 2 ^ 64" and "b \<in> {base_d, base_o, base_x, base_X}"
  shows "\<exists>t. (\<forall>out aux. format_integer v sg neg b c out aux = output_bytes t out aux) \<and> pc_width c \<le> int (length t)"
proof -
  have "base_ok b" using assms(2) by auto
  then obtain t where "integer_text v sg neg b c = Some t" "pc_width c \<le> int (length t)" using integer_text_ok [OF _ assms(1)] by blast
  then show ?thesis using emitsD [OF emits_integer, of v sg neg b c] by auto
qed

section \<open>Decimal numbers\<close>

lemma digits_radix: "0 < v \<Longrightarrow> digits v = rev (radix 10 v)"
proof (induction v rule: digits.induct)
  case (1 v)
  then show ?case by (subst digits.simps, subst radix.simps) (auto simp: radix.simps [of 10 v])
qed

lemma base_d_digit: "d < 10 \<Longrightarrow> ib_digits base_d ! d = digit_char d"
proof -
  assume "d < 10"
  then have "d = 0 \<or> d = 1 \<or> d = 2 \<or> d = 3 \<or> d = 4 \<or> d = 5 \<or> d = 6 \<or> d = 7 \<or> d = 8 \<or> d = 9" by presburger
  then show ?thesis by (elim disjE) (simp_all add: base_d_def bytes_def digit_char_def)
qed

lemma decimal_text:
  assumes v: "v < 2 ^ 64"
  shows "integer_text v True neg base_d \<lparr>pc_flags = 0, pc_width = 0, pc_precision = -1, pc_type = ty\<rparr> = Some ((if neg then [45] else []) @ decimal v)"
proof -
  let ?r = "map ((!) (ib_digits base_d)) (radix 10 v)"
  have b: "ib_base base_d = 10" by (simp add: base_d_def)
  have l: "length (radix 10 v) \<le> 22" using radix_short [OF base_ok(1) v] b by simp
  then have d: "digit_loop v 0 base_d 0 [] = Some ?r" using digit_loop_plain [of base_d 0 "[]" v 0] b by simp
  have z: "zero_loop 1 ?r = Some (?r @ replicate (1 - length ?r) 48)" using l by (subst zero_loop_ok) simp_all
  have "rev (?r @ replicate (1 - length ?r) 48) = decimal v"
  proof (cases "v = 0")
    case True
    then show ?thesis by (simp add: decimal_def digits.simps digit_char_def)
  next
    case False
    then have "radix 10 v \<noteq> []" by (subst radix.simps) simp
    then have "1 - length ?r = 0" by (cases "radix 10 v") simp_all
    moreover have "?r = map digit_char (radix 10 v)" using radix_digits [of 10 _ v] base_d_digit by simp
    ultimately show ?thesis using False by (simp add: decimal_def digits_radix rev_map)
  qed
  then show ?thesis using d z by (simp add: integer_text_def Let_def sign_char_def pad_def)
qed

lemma sint_scast_up: "sint (scast (w::u32) :: u64) = sint w"
  using sint_ge [of w] sint_lt [of w] by (simp add: signed_scast_eq signed_take_bit_int_eq_self)

lemma unat_abs_int: "sint (v::u64) \<noteq> - (2 ^ 63) \<Longrightarrow> unat (if v <s 0 then - v else v) = nat \<bar>sint v\<bar>"
proof -
  assume "sint v \<noteq> - (2 ^ 63)"
  then have r: "\<bar>sint v\<bar> < 2 ^ 63" using sint_ge [of v] sint_lt [of v] by simp
  have "uint (if v <s 0 then - v else v) = \<bar>sint v\<bar>"
  proof (cases "sint v < 0")
    case True
    have e: "- v = word_of_int (- sint v)" by simp
    have "uint (- v) = - sint v" unfolding e uint_word_of_int using True r by (intro mod_pos_pos_trivial) simp_all
    then show ?thesis using True by (simp add: word_sless_alt)
  next
    case False
    have "uint v = uint (word_of_int (sint v) :: u64)" by simp
    also have "\<dots> = sint v" unfolding uint_word_of_int using False r by (intro mod_pos_pos_trivial) simp_all
    finally have "uint v = sint v" .
    then show ?thesis using False by (simp add: word_sless_alt)
  qed
  then show ?thesis by (metis nat_uint_eq)
qed

lemma printf_decimal: "vprintf_text (bytes ''%d'') [Int_arg w] = Some ((if sint w < 0 then [45] else []) @ decimal (nat \<bar>sint w\<bar>))"
proof -
  let ?v = "scast w :: u64"
  have b: "bytes ''%d'' = [37, 100]" by (simp add: bytes_def)
  have p: "parse_conversion [100] args = Some (\<lparr>pc_flags = 0, pc_width = 0, pc_precision = -1, pc_type = INT_t\<rparr>, [100], args)" for args
    by (simp add: parse_conversion_def parse_star_def parse_precision_def isdigit_def)
  have r: "- (2 ^ 31) \<le> sint w" "sint w < 2 ^ 31" using sint_ge [of w] sint_lt [of w] by simp_all
  have v: "sint ?v \<noteq> - (2 ^ 63)" "unat (if ?v <s 0 then - ?v else ?v) = nat \<bar>sint w\<bar>" "?v <s 0 \<longleftrightarrow> sint w < 0"
    using unat_abs_int [of ?v] r by (simp_all add: sint_scast_up word_sless_alt)
  have "nat \<bar>sint w\<bar> < 2 ^ 64" using r by simp
  then show ?thesis using v unfolding vprintf_text_def b
    by (simp add: text_loop.simps p convert_text_def signed_arg_def decimal_text)
qed

definition array_at :: "nat \<Rightarrow> u8 list \<Rightarrow> mem" where
  "array_at a buf x = (if a \<le> x \<and> x < a + length buf then Some (buf ! (x - a)) else None)"

lemma decimal_length: "v \<le> 2 ^ 31 \<Longrightarrow> length (decimal v) \<le> 10"
proof (cases "v = 0")
  case False
  assume "v \<le> 2 ^ 31"
  then have "length (radix 10 v) \<le> 10" by (intro radix_length) simp_all
  then show ?thesis using False by (simp add: decimal_def digits_radix)
qed (simp add: decimal_def digits.simps)

lemma decimal_no_null: "0 \<notin> set (decimal v)"
  using digits_small [of v] digit_char_unat by (fastforce simp: decimal_def)

text \<open>
  C23: \<^verbatim>\<open>snprintf\<close> with \<^verbatim>\<open>%d\<close> and \<^verbatim>\<open>atoi\<close> are inverse: every \<^verbatim>\<open>int\<close> (\<^verbatim>\<open>INT_MIN\<close> included) that is written into a buffer of
  12 bytes or more, up to 2 GB (\<open>vsnprintf_huge_size\<close> shows what happens beyond), is read back by \<^verbatim>\<open>atoi\<close>.
\<close>

theorem printf_atoi_roundtrip:
  assumes "12 \<le> n" and "n \<le> 2 ^ 31" and "n \<le> length buffer" and "a \<noteq> 0"
  shows "\<exists>k buffer'. snprintf buffer n ''%d'' [Int_arg w] = Some (k, buffer') \<and> atoi a (array_at a buffer') = Some (sint w)"
proof -
  let ?s = "if sint w < 0 then [45 :: u8] else []" and ?d = "decimal (nat \<bar>sint w\<bar>)"
  have r: "- (2 ^ 31) \<le> sint w" "sint w < 2 ^ 31" using sint_ge [of w] sint_lt [of w] by simp_all
  have "length ?d \<le> 10" using r by (intro decimal_length) simp
  moreover have "length ?s \<le> 1" by simp
  ultimately have l: "length (?s @ ?d) \<le> 11" unfolding length_append by linarith
  then have p: "snprintf buffer n ''%d'' [Int_arg w] = Some (int (length (?s @ ?d)), overwrite buffer 0 ((?s @ ?d) @ [0]))"
    using vsnprintf_ok [OF printf_decimal _ assms(3,2)] assms(1) unfolding snprintf_def by simp
  let ?m = "array_at a (overwrite buffer 0 ((?s @ ?d) @ [0]))"
  have len: "0 + length ((?s @ ?d) @ [0]) \<le> length buffer" using l assms(1,3) by simp
  have "?m (a + i) = Some (((?s @ ?d) @ [0]) ! i)" if "i < length ((?s @ ?d) @ [0])" for i
    using that overwrite_nth [OF len, of i] length_overwrite [OF len] len by (simp add: array_at_def)
  then have "cstr ?m a (replicate 0 32 @ ?s @ ?d @ [])"
    unfolding cstr_def block_at_def using assms(4) decimal_no_null by auto
  then have "atoi a ?m = Some (sint w)"
    by (rule atoi_ok) (use r in \<open>auto simp: int_ok_def\<close>)
  then show ?thesis using p by blast
qed

theorem printf_atoi_witness: "\<exists>k buffer'. snprintf (replicate 12 7) 12 ''%d'' [Int_arg 0x80000000] = Some (k, buffer') \<and> atoi 1 (array_at 1 buffer') = Some (- (2 ^ 31))"
  using printf_atoi_roundtrip [of 12 "replicate 12 7" 1 "0x80000000"] by simp

theorem vsnprintf_witness: "\<exists>buffer'. vsnprintf [1, 1, 1, 1] 3 (bytes ''%%abc'') [] = Some (4, buffer') \<and> length buffer' = 4 \<and> buffer' ! 1 = 97 \<and> buffer' ! 2 = 0 \<and> buffer' ! 3 = 1"
proof -
  have "vprintf_text (bytes ''%%abc'') [] = Some [37, 97, 98, 99]" by (simp add: vprintf_text_def bytes_def text_loop.simps)
  from vsnprintf_truncates [OF this, of 3 "[1, 1, 1, 1]"] obtain buffer' where
    b: "vsnprintf [1, 1, 1, 1] 3 (bytes ''%%abc'') [] = Some (4, buffer')" "length buffer' = 4"
    "\<forall>i < 4. buffer' ! i = (if i < 2 then [37, 97, 98, 99] ! i else if i = 2 then 0 else [1, 1, 1, 1] ! i)" by auto
  show ?thesis using b(1,2) b(3) [rule_format, of 1] b(3) [rule_format, of 2] b(3) [rule_format, of 3] by simp
qed

theorem format_integer_witness: "\<exists>t. format_integer (2 ^ 64 - 1) False False base_o \<lparr>pc_flags = POUND, pc_width = 70, pc_precision = 100, pc_type = LONGLONG\<rparr> put_console [] = Some t \<and> 70 \<le> length t"
proof -
  obtain t where "\<forall>out aux. format_integer (2 ^ 64 - 1) False False base_o \<lparr>pc_flags = POUND, pc_width = 70, pc_precision = 100, pc_type = LONGLONG\<rparr> out aux = output_bytes t out (aux :: u8 list)" "70 \<le> int (length t)"
    using format_integer_fits [of "2 ^ 64 - 1" base_o False False "\<lparr>pc_flags = POUND, pc_width = 70, pc_precision = 100, pc_type = LONGLONG\<rparr>"] by auto
  then show ?thesis by (simp add: output_console)
qed

text \<open>
  A size above 2 GB becomes a negative greatest length: nothing of the text is stored, only the null byte.
\<close>

lemma helper_stores_nothing:
  "vs_length aux = int k \<Longrightarrow> vs_max_length aux < 0 \<Longrightarrow> k + length s < 2 ^ 31 \<Longrightarrow>
   output_bytes s vsnprintf_helper aux = Some (aux\<lparr>vs_length := int (k + length s)\<rparr>)"
proof (induction s arbitrary: aux k)
  case Nil
  then show ?case by (cases aux) simp
next
  case (Cons ch s)
  have "vsnprintf_helper ch aux = Some (aux\<lparr>vs_length := int (Suc k)\<rparr>)"
    using Cons.prems by (simp add: vsnprintf_helper_def int_ok_def add.commute)
  then show ?case using Cons.IH [of "aux\<lparr>vs_length := int (Suc k)\<rparr>" "Suc k"] Cons.prems by simp
qed

theorem vsnprintf_huge_size:
  assumes "vprintf_text format args = Some t" and "length t < 2 ^ 31" and "2 ^ 31 < n" and "n \<le> 2 ^ 32" and "buffer \<noteq> []"
  shows "vsnprintf buffer n format args = Some (int (length t), buffer[0 := 0])"
proof -
  have "size_as_int (n - 1) = int (n - 1) - 2 ^ 32"
  proof -
    have "signed_take_bit 31 (int (n - 1)) = signed_take_bit 31 (int (n - 1) - 2 ^ 32)"
      by (rule signed_take_bit_eq_iff_take_bit_eq [THEN iffD2]) (simp add: take_bit_eq_mod)
    also have "\<dots> = int (n - 1) - 2 ^ 32" by (rule signed_take_bit_int_eq_self) (use assms(3,4) in simp_all)
    finally show ?thesis by (simp add: size_as_int_def signed_of_nat)
  qed
  then have neg: "size_as_int (if 0 < n then n - 1 else 0) < 0" using assms(3,4) by simp
  have "vprintf format args vsnprintf_helper aux = output_bytes t vsnprintf_helper aux" for aux
    using emitsD [OF emits_vprintf, of format args] assms(1) by simp
  then show ?thesis using helper_stores_nothing [where k = 0 and s = t] neg assms(2,3,5)
    by (simp add: vsnprintf_def arr_set_def)
qed

text \<open>A negative width that is given by an argument sets \<^verbatim>\<open>MINUS\<close> after \<^verbatim>\<open>ZERO\<close> was checked against it, so the field is padded on both sides.\<close>

theorem negative_width_pads_twice:
  "printf ''%0*d'' [Int_arg (- 4), Int_arg 7] [] = Some (bytes ''0007   '')"
proof -
  have b: "bytes ''%0*d'' = [37, 48, 42, 100]" by (simp add: bytes_def)
  have z: "zero_loop 1 [55] = Some [55]" by (subst zero_loop.simps) simp
  have d: "digit_loop 7 17 base_d 0 [] = Some [55]"
    by (simp add: digit_loop.simps base_d_def bytes_def push_digit_def GROUP_def)
  let ?c = "\<lparr>pc_flags = 17, pc_width = 4, pc_precision = -1, pc_type = INT_t\<rparr>"
  have p: "parse_conversion [48, 42, 100] [Int_arg (- 4), Int_arg 7] = Some (?c, [100], [Int_arg 7])"
    by (simp add: parse_conversion_def parse_star_def parse_precision_def isdigit_def int_ok_def MINUS_def PLUS_def ZERO_def)
  have t: "integer_text 7 True False base_d ?c = Some (bytes ''0007   '')"
    by (simp add: integer_text_def Let_def d z sign_char_def PLUS_def SPACE_def POUND_def ZERO_def MINUS_def pad_def bytes_def numeral_3_eq_3)
  have "vprintf_text (bytes ''%0*d'') [Int_arg (- 4), Int_arg 7] = Some (bytes ''0007   '')"
    unfolding vprintf_text_def b by (simp add: text_loop.simps p convert_text_def signed_arg_def t word_sless_alt)
  then show ?thesis by (simp add: printf_text)
qed

text \<open>A format that ends in a percent sign is read behind its null byte.\<close>

theorem percent_at_end_undefined: "printf ''%'' [] con = None"
proof -
  have "parse_conversion [] [] = Some (\<lparr>pc_flags = 0, pc_width = 0, pc_precision = -1, pc_type = INT_t\<rparr>, [], [])"
    by (simp add: parse_conversion_def parse_star_def parse_precision_def)
  then have "vprintf_text (bytes ''%'') [] = None"
    by (simp add: vprintf_text_def bytes_def text_loop.simps case_prod_unfold)
  then show ?thesis by (simp add: printf_text)
qed

end
