(* ===== verification/Ustar.thy ===== *)
theory Ustar
  imports Stdio
begin

text \<open>
  Headers of tar archives, \<^verbatim>\<open>lib/ustar.c\<close>. A header is the record of its fields (lists of bytes of fixed lengths) and, as it lies in the
  archive, the list of its 512 bytes. File names are the lists of their bytes before the null byte.
\<close>

section \<open>Headers\<close>

datatype ustar_type = USTAR_REGULAR | USTAR_DIRECTORY | USTAR_EOF

fun type_byte :: "ustar_type \<Rightarrow> u8" where
  "type_byte USTAR_REGULAR = 48"
| "type_byte USTAR_DIRECTORY = 53"
| "type_byte USTAR_EOF = 255"

definition USTAR_HEADER_SIZE :: nat where "USTAR_HEADER_SIZE = 512"

record ustar_header =
  uh_name :: "u8 list"
  uh_mode :: "u8 list"
  uh_uid :: "u8 list"
  uh_gid :: "u8 list"
  uh_size :: "u8 list"
  uh_mtime :: "u8 list"
  uh_chksum :: "u8 list"
  uh_typeflag :: u8
  uh_linkname :: "u8 list"
  uh_magic :: "u8 list"
  uh_version :: "u8 list"
  uh_uname :: "u8 list"
  uh_gname :: "u8 list"
  uh_devmajor :: "u8 list"
  uh_devminor :: "u8 list"
  uh_prefix :: "u8 list"
  uh_padding :: "u8 list"

text \<open>The layout of the packed structure.\<close>

definition header_bytes :: "ustar_header \<Rightarrow> u8 list" where
  "header_bytes h = uh_name h @ uh_mode h @ uh_uid h @ uh_gid h @ uh_size h @ uh_mtime h @ uh_chksum h @ [uh_typeflag h] @ uh_linkname h @ uh_magic h @
     uh_version h @ uh_uname h @ uh_gname h @ uh_devmajor h @ uh_devminor h @ uh_prefix h @ uh_padding h"

definition bytes_header :: "u8 list \<Rightarrow> ustar_header" where
  "bytes_header b = \<lparr>uh_name = segment b 0 100, uh_mode = segment b 100 8, uh_uid = segment b 108 8, uh_gid = segment b 116 8, uh_size = segment b 124 12,
     uh_mtime = segment b 136 12, uh_chksum = segment b 148 8, uh_typeflag = b ! 156, uh_linkname = segment b 157 100, uh_magic = segment b 257 6,
     uh_version = segment b 263 2, uh_uname = segment b 265 32, uh_gname = segment b 297 32, uh_devmajor = segment b 329 8, uh_devminor = segment b 337 8,
     uh_prefix = segment b 345 155, uh_padding = segment b 500 12\<rparr>"

definition zero_header :: ustar_header where
  "zero_header = bytes_header (replicate USTAR_HEADER_SIZE 0)"

text \<open>The checksum field itself counts as spaces.\<close>

definition calculate_chksum :: "u8 list \<Rightarrow> nat" where
  "calculate_chksum b = sz (\<Sum>i \<leftarrow> [0..<USTAR_HEADER_SIZE]. if 148 \<le> i \<and> i < 148 + 8 then 32 else unat (b ! i))"

function strip_antisocial_loop :: "u8 list \<Rightarrow> u8 list" where
  "strip_antisocial_loop f =
     (if take 1 f = bytes ''/'' \<or> take 2 f = bytes ''./'' \<or> take 3 f = bytes ''../''
      then strip_antisocial_loop (tl (dropWhile (\<lambda>ch. ch \<noteq> 47) f)) else f)"
  by pat_completeness auto
termination
proof (relation "measure length", goal_cases)
  case (2 f)
  then have "f \<noteq> []" by (auto simp: bytes_def)
  then have "0 < length f" by simp
  moreover have "length (dropWhile (\<lambda>ch. ch \<noteq> 47) f) \<le> length f" by (rule length_dropWhile_le)
  ultimately have "length (tl (dropWhile (\<lambda>ch. ch \<noteq> 47) f)) < length f" unfolding length_tl by linarith
  then show ?case by simp
qed simp

declare strip_antisocial_loop.simps [simp del]

definition strip_antisocial_prefixes :: "u8 list \<Rightarrow> u8 list" where
  "strip_antisocial_prefixes f = (let f = strip_antisocial_loop f in if f = [] \<or> f = bytes ''..'' then bytes ''.'' else f)"

text \<open>\<^verbatim>\<open>strlcpy\<close> and \<^verbatim>\<open>snprintf\<close> into a field.\<close>

definition copy_field :: "u8 list \<Rightarrow> u8 list \<Rightarrow> u8 list" where
  "copy_field field s = overwrite field 0 (take (length field - 1) s @ [0])"

definition print_field :: "u8 list \<Rightarrow> string \<Rightarrow> u32 \<Rightarrow> u8 list option" where
  "print_field field format v = do { (n, field) \<leftarrow> snprintf field (length field) format [Int_arg v]; Some field }"

definition ustar_make_header :: "u8 list \<Rightarrow> ustar_type \<Rightarrow> u32 \<Rightarrow> u8 list \<Rightarrow> u8 list \<Rightarrow> (bool \<times> u8 list \<times> u8 list) option" where
  "ustar_make_header file_name ty len header con = do {
     ASSERT (ty = USTAR_REGULAR \<or> ty = USTAR_DIRECTORY);
     let file_name = strip_antisocial_prefixes file_name;
     if 99 < length file_name then do {
       con \<leftarrow> printf (''%s: file name too long'' @ [CHR 0x0A]) [Str_arg (Some file_name)] con;
       Some (False, header, con) }
     else do {
       let h = zero_header;
       let h = h\<lparr>uh_name := copy_field (uh_name h) file_name\<rparr>;
       f \<leftarrow> print_field (uh_mode h) ''%07o'' (if ty = USTAR_REGULAR then 420 else 493);
       let h = h\<lparr>uh_mode := f, uh_uid := copy_field (uh_uid h) (bytes ''0000000''), uh_gid := copy_field (uh_gid h) (bytes ''0000000'')\<rparr>;
       f \<leftarrow> print_field (uh_size h) ''%011o'' len;
       let h = h\<lparr>uh_size := f\<rparr>;
       f \<leftarrow> print_field (uh_mtime h) ''%011o'' 1136102400;
       let h = h\<lparr>uh_mtime := f, uh_typeflag := type_byte ty, uh_magic := copy_field (uh_magic h) (bytes ''ustar''), uh_version := [48, 48],
         uh_gname := copy_field (uh_gname h) (bytes ''root''), uh_uname := copy_field (uh_uname h) (bytes ''root'')\<rparr>;
       f \<leftarrow> print_field (uh_chksum h) ''%07o'' (of_nat (calculate_chksum (header_bytes h)));
       Some (True, header_bytes (h\<lparr>uh_chksum := f\<rparr>), con) } }"

section \<open>Parsing\<close>

text \<open>The octal number in a field; \<open>None\<close> is failure. \<^verbatim>\<open>unsigned long\<close> has 32 bits.\<close>

fun parse_octal_loop :: "u8 list \<Rightarrow> nat \<Rightarrow> nat \<Rightarrow> nat option" where
  "parse_octal_loop [] ofs value = None"
| "parse_octal_loop (c # s) ofs value =
     (if 48 \<le> c \<and> c \<le> 55 then
        if value > (2 ^ 32 - 1) div 8 then None
        else parse_octal_loop s (ofs + 1) (unat c - 48 + value * 8)
      else if c = 32 \<or> c = 0 then (if 0 < ofs then Some value else None)
      else None)"

definition parse_octal_field :: "u8 list \<Rightarrow> nat option" where
  "parse_octal_field s = parse_octal_loop s 0 0"

definition is_all_zeros :: "u8 list \<Rightarrow> bool" where
  "is_all_zeros b = list_all (\<lambda>v. v = 0) b"

text \<open>An error message, or the name (\<open>None\<close> is a null pointer), the type and the size.\<close>

definition ustar_parse_header :: "u8 list \<Rightarrow> string + (u8 list option \<times> ustar_type \<times> int)" where
  "ustar_parse_header header =
     (let h = bytes_header header in
      if is_all_zeros header then Inr (None, USTAR_EOF, 0)
      else if uh_magic h \<noteq> bytes ''ustar'' @ [0] then Inl ''not a ustar archive''
      else if uh_version h ! 0 \<noteq> 48 \<or> uh_version h ! 1 \<noteq> 48 then Inl ''invalid ustar version''
      else case parse_octal_field (uh_chksum h) of
        None \<Rightarrow> Inl ''corrupt chksum field''
      | Some chksum \<Rightarrow>
          if chksum \<noteq> calculate_chksum header then Inl ''checksum mismatch''
          else if uh_name h ! 99 \<noteq> 0 \<or> uh_prefix h ! 0 \<noteq> 0 then Inl ''file name too long''
          else if uh_typeflag h \<noteq> type_byte USTAR_REGULAR \<and> uh_typeflag h \<noteq> type_byte USTAR_DIRECTORY then Inl ''unimplemented file type''
          else let name = strip_antisocial_prefixes (takeWhile (\<lambda>ch. ch \<noteq> 0) (uh_name h)) in
            if uh_typeflag h = type_byte USTAR_REGULAR then
              (case parse_octal_field (uh_size h) of
                 None \<Rightarrow> Inl ''corrupt file size field''
               | Some n \<Rightarrow> if 2 ^ 31 - 1 < n then Inl ''file too large'' else Inr (Some name, USTAR_REGULAR, int n))
            else Inr (Some name, USTAR_DIRECTORY, 0))"

section \<open>Octal numbers\<close>

definition octal :: "nat \<Rightarrow> nat \<Rightarrow> nat list" where
  "octal k v = replicate (k - length (radix 8 v)) 0 @ rev (radix 8 v)"

lemma octal_digits: "d \<in> set (octal k v) \<Longrightarrow> d < 8"
  using radix_digits [of 8 d v] by (auto simp: octal_def)

lemma octal_length: "v < 8 ^ k \<Longrightarrow> length (octal k v) = k"
  using radix_length [of 8 v k] by (simp add: octal_def)

lemma octal_value: "foldl (\<lambda>v d. d + v * 8) 0 (octal k v) = v"
proof -
  have "foldl (\<lambda>v d. d + v * 8) 0 (replicate n 0) = (0::nat)" for n by (induction n) simp_all
  moreover have "foldl (\<lambda>v d. d + v * 8) 0 (rev (radix 8 v)) = foldr (\<lambda>d v. v * 8 + d) (radix 8 v) 0"
    by (simp add: foldl_conv_foldr add.commute)
  ultimately show ?thesis using radix_value [of 8 v] by (simp add: octal_def)
qed

lemma base_o_digit: "d < 8 \<Longrightarrow> ib_digits base_o ! d = digit_char d"
proof -
  assume "d < 8"
  then have "d = 0 \<or> d = 1 \<or> d = 2 \<or> d = 3 \<or> d = 4 \<or> d = 5 \<or> d = 6 \<or> d = 7" by presburger
  then show ?thesis by (elim disjE) (simp_all add: base_o_def bytes_def digit_char_def)
qed

lemma octal_text:
  assumes v: "v < 2 ^ 32" and k: "v < 8 ^ k" "0 < k"
  shows "integer_text v False False base_o \<lparr>pc_flags = ZERO, pc_width = int k, pc_precision = -1, pc_type = ty\<rparr> = Some (map digit_char (octal k v))"
proof -
  let ?r = "map ((!) (ib_digits base_o)) (radix 8 v)"
  have b: "ib_base base_o = 8" by (simp add: base_o_def)
  have fl: "ZERO AND GROUP = 0" "ZERO AND POUND = 0" "ZERO AND (MINUS OR ZERO) \<noteq> 0" "ZERO AND MINUS = 0" "ZERO AND ZERO \<noteq> 0"
    by (simp_all add: ZERO_def GROUP_def POUND_def MINUS_def)
  have "length (radix 8 v) \<le> 22" using radix_short [OF base_ok(2), of v] b v by simp
  then have l: "length ?r \<le> 22" by simp
  then have d: "digit_loop v ZERO base_o 0 [] = Some ?r" using digit_loop_plain [of base_o ZERO "[]" v 0] b fl(1) by simp
  have z: "zero_loop 1 ?r = Some (?r @ replicate (1 - length ?r) 48)" using l by (subst zero_loop_ok) simp_all
  have lk: "length (radix 8 v) \<le> k" using radix_length [of 8 v k] k(1) by simp
  have map: "?r = map digit_char (radix 8 v)" using radix_digits [of 8 _ v] base_o_digit by simp
  have c0: "digit_char 0 = 48" by (simp add: digit_char_def)
  have "replicate (nat (int k - int (length (?r @ replicate (1 - length ?r) (48::u8))))) 48 @ rev (?r @ replicate (1 - length ?r) 48) = map digit_char (octal k v)"
  proof (cases "radix 8 v")
    case Nil
    then have "replicate (k - 1) (48::u8) @ [48] = replicate k 48" using k(2) by (cases k) (simp_all add: replicate_append_same)
    then show ?thesis using Nil k(2) c0 by (simp add: octal_def nat_diff_distrib)
  next
    case (Cons x xs)
    then have "1 - length ?r = 0" by simp
    then show ?thesis using lk c0 unfolding map by (simp add: octal_def rev_map nat_diff_distrib)
  qed
  then show ?thesis using d z fl by (simp add: integer_text_def Let_def sign_char_def pad_def)
qed

lemma unat_ucast64: "unat (ucast (w::u32) :: u64) = unat w"
  using unsigned_less [of w, where ?'a = nat] by (simp add: unsigned_ucast_eq take_bit_nat_eq_self)

lemma octal7: "unat w < 8 ^ 7 \<Longrightarrow> vprintf_text (bytes ''%07o'') [Int_arg w] = Some (map digit_char (octal 7 (unat w)))"
proof -
  assume w: "unat w < 8 ^ 7"
  have b: "bytes ''%07o'' = [37, 48, 55, 111]" by (simp add: bytes_def)
  have p: "parse_conversion [48, 55, 111] args = Some (\<lparr>pc_flags = ZERO, pc_width = 7, pc_precision = -1, pc_type = INT_t\<rparr>, [111], args)" for args
    by (simp add: parse_conversion_def parse_star_def parse_precision_def isdigit_def int_ok_def MINUS_def PLUS_def ZERO_def)
  have "unat w < 2 ^ 32" using unsigned_less [of w, where ?'a = nat] by simp
  then show ?thesis using octal_text [of "unat w" 7 INT_t] w unfolding vprintf_text_def b
    by (simp add: text_loop.simps p convert_text_def unsigned_arg_def unat_ucast64)
qed

lemma octal11: "vprintf_text (bytes ''%011o'') [Int_arg w] = Some (map digit_char (octal 11 (unat w)))"
proof -
  have b: "bytes ''%011o'' = [37, 48, 49, 49, 111]" by (simp add: bytes_def)
  have p: "parse_conversion [48, 49, 49, 111] args = Some (\<lparr>pc_flags = ZERO, pc_width = 11, pc_precision = -1, pc_type = INT_t\<rparr>, [111], args)" for args
    by (simp add: parse_conversion_def parse_star_def parse_precision_def isdigit_def int_ok_def MINUS_def PLUS_def ZERO_def)
  have w: "unat w < 2 ^ 32" using unsigned_less [of w, where ?'a = nat] by simp
  then have "unat w < 8 ^ 11" by simp
  then show ?thesis using octal_text [of "unat w" 11 INT_t] w unfolding vprintf_text_def b
    by (simp add: text_loop.simps p convert_text_def unsigned_arg_def unat_ucast64)
qed

lemma print_field_ok:
  assumes "vprintf_text (bytes format) [Int_arg v] = Some t" and "length field = Suc (length t)" and "length t < 100"
  shows "print_field field format v = Some (t @ [0])"
  using vsnprintf_ok [OF assms(1), of "length field" field] assms(2,3) by (simp add: print_field_def snprintf_def overwrite_all)

lemma parse_octal_loop_ok:
  assumes "\<forall>d \<in> set ds. d < 8" and "foldl (\<lambda>v d. d + v * 8) n ds < 2 ^ 32" and "0 < ofs + length ds"
  shows "parse_octal_loop (map digit_char ds @ [0]) ofs n = Some (foldl (\<lambda>v d. d + v * 8) n ds)"
  using assms
proof (induction ds arbitrary: ofs n)
  case (Cons d ds)
  have mono: "n \<le> foldl (\<lambda>v d. d + v * 8) n ds" for n :: nat
  proof (induction ds arbitrary: n)
    case (Cons e ds)
    from Cons [of "e + n * 8"] show ?case by simp
  qed simp
  have d: "d < 8" "unat (digit_char d) = 48 + d" using Cons.prems(1) digit_char_unat [of d] by simp_all
  have "d + n * 8 < 2 ^ 32" using mono [of "d + n * 8"] Cons.prems(2) by simp
  then have "\<not> n > (2 ^ 32 - 1) div 8" by simp
  moreover have "48 \<le> digit_char d \<and> digit_char d \<le> 55" using d by (simp add: word_le_nat_alt)
  ultimately show ?case using Cons d by simp
qed simp

lemma parse_octal_field_ok: "v < 2 ^ 32 \<Longrightarrow> v < 8 ^ k \<Longrightarrow> 0 < k \<Longrightarrow> parse_octal_field (map digit_char (octal k v) @ [0]) = Some v"
  unfolding parse_octal_field_def using octal_digits octal_length [of v k] octal_value [of k v] by (subst parse_octal_loop_ok) simp_all

section \<open>File names\<close>

definition antisocial :: "u8 list \<Rightarrow> bool" where
  "antisocial f \<longleftrightarrow> take 1 f = bytes ''/'' \<or> take 2 f = bytes ''./'' \<or> take 3 f = bytes ''../''"

lemma strip_loop_social: "\<not> antisocial (strip_antisocial_loop f)"
proof (induction f rule: strip_antisocial_loop.induct)
  case (1 f)
  then show ?case by (subst strip_antisocial_loop.simps) (auto simp: antisocial_def)
qed

lemma strip_loop_id: "\<not> antisocial f \<Longrightarrow> strip_antisocial_loop f = f"
  by (subst strip_antisocial_loop.simps) (auto simp: antisocial_def)

lemma strip_loop_set: "set (strip_antisocial_loop f) \<subseteq> set f"
proof (induction f rule: strip_antisocial_loop.induct)
  case (1 f)
  have "set (tl (dropWhile P f)) \<subseteq> set f" for P by (meson in_set_tlD set_dropWhileD subsetI)
  then show ?case using 1 by (subst strip_antisocial_loop.simps) auto
qed

lemma strip_safe: "strip_antisocial_prefixes f \<noteq> [] \<and> strip_antisocial_prefixes f \<noteq> bytes ''..'' \<and> \<not> antisocial (strip_antisocial_prefixes f)"
  using strip_loop_social [of f] by (auto simp: strip_antisocial_prefixes_def Let_def antisocial_def bytes_def)

lemma strip_twice: "strip_antisocial_prefixes (strip_antisocial_prefixes f) = strip_antisocial_prefixes f"
  using strip_safe [of f] strip_loop_id [of "strip_antisocial_prefixes f"] by (simp add: strip_antisocial_prefixes_def [of "strip_antisocial_prefixes f"] Let_def)

lemma strip_no_null: "0 \<notin> set f \<Longrightarrow> 0 \<notin> set (strip_antisocial_prefixes f)"
  using strip_loop_set [of f] by (auto simp: strip_antisocial_prefixes_def Let_def bytes_def)

section \<open>The layout of a header\<close>

definition header_ok :: "ustar_header \<Rightarrow> bool" where
  "header_ok h \<longleftrightarrow> length (uh_name h) = 100 \<and> length (uh_mode h) = 8 \<and> length (uh_uid h) = 8 \<and> length (uh_gid h) = 8 \<and> length (uh_size h) = 12 \<and>
     length (uh_mtime h) = 12 \<and> length (uh_chksum h) = 8 \<and> length (uh_linkname h) = 100 \<and> length (uh_magic h) = 6 \<and> length (uh_version h) = 2 \<and>
     length (uh_uname h) = 32 \<and> length (uh_gname h) = 32 \<and> length (uh_devmajor h) = 8 \<and> length (uh_devminor h) = 8 \<and> length (uh_prefix h) = 155 \<and>
     length (uh_padding h) = 12"

lemma header_bytes_length: "header_ok h \<Longrightarrow> length (header_bytes h) = 512"
  by (simp add: header_ok_def header_bytes_def)

lemma bytes_header_inverse:
  assumes "header_ok h"
  shows "bytes_header (header_bytes h) = h"
  using assms by (intro ustar_header.equality) (simp_all add: bytes_header_def header_bytes_def segment_def header_ok_def nth_append)

lemma zero_header_ok: "header_ok zero_header"
  by (simp add: header_ok_def zero_header_def bytes_header_def segment_def USTAR_HEADER_SIZE_def)

lemma zero_header_simps:
  "uh_name zero_header = replicate 100 0" "uh_mode zero_header = replicate 8 0" "uh_uid zero_header = replicate 8 0" "uh_gid zero_header = replicate 8 0"
  "uh_size zero_header = replicate 12 0" "uh_mtime zero_header = replicate 12 0" "uh_chksum zero_header = replicate 8 0" "uh_magic zero_header = replicate 6 0"
  "uh_version zero_header = replicate 2 0" "uh_uname zero_header = replicate 32 0" "uh_gname zero_header = replicate 32 0" "uh_prefix zero_header = replicate 155 0"
  by (simp_all add: zero_header_def bytes_header_def segment_def USTAR_HEADER_SIZE_def)

lemma chksum_own_field:
  assumes "header_ok h" and "length f = 8"
  shows "calculate_chksum (header_bytes (h\<lparr>uh_chksum := f\<rparr>)) = calculate_chksum (header_bytes h)"
proof -
  define A where "A = uh_name h @ uh_mode h @ uh_uid h @ uh_gid h @ uh_size h @ uh_mtime h"
  define B where "B = [uh_typeflag h] @ uh_linkname h @ uh_magic h @ uh_version h @ uh_uname h @ uh_gname h @ uh_devmajor h @ uh_devminor h @ uh_prefix h @ uh_padding h"
  have e: "header_bytes h = A @ uh_chksum h @ B" "header_bytes (h\<lparr>uh_chksum := f\<rparr>) = A @ f @ B" by (simp_all add: header_bytes_def A_def B_def)
  have l: "length A = 148" "length (uh_chksum h) = 8" using assms(1) by (simp_all add: A_def header_ok_def)
  have "(if 148 \<le> i \<and> i < 148 + 8 then 32 else unat ((A @ f @ B) ! i)) = (if 148 \<le> i \<and> i < 148 + 8 then 32 else unat ((A @ uh_chksum h @ B) ! i))" for i
    using l assms(2) by (cases "i < 148"; cases "i < 156") (auto simp: nth_append)
  then show ?thesis unfolding calculate_chksum_def e by simp
qed

lemma chksum_small: "calculate_chksum b < 8 ^ 7"
proof -
  let ?v = "\<lambda>i. if 148 \<le> i \<and> i < 148 + 8 then 32 else unat (b ! i)"
  have "?v i \<le> 255" for i using unsigned_less [of "b ! i", where ?'a = nat] by simp
  then have "sum_list (map ?v [0..<USTAR_HEADER_SIZE]) \<le> sum_list (map (\<lambda>i. 255) [0..<USTAR_HEADER_SIZE])" by (intro sum_list_mono) blast
  also have "\<dots> = 512 * 255" by (simp add: USTAR_HEADER_SIZE_def sum_list_triv)
  finally show ?thesis unfolding calculate_chksum_def sz_def by (simp add: le_less_trans [OF mod_less_eq_dividend])
qed

section \<open>Properties\<close>

text \<open>The header that is made, before and after the checksum is filled in.\<close>

lemma copy_field_length: "0 < length field \<Longrightarrow> length (copy_field field s) = length field"
  by (cases field) (simp_all add: copy_field_def overwrite_def)

lemma ustar_make_ok:
  assumes ty: "ty \<noteq> USTAR_EOF" and n: "length (strip_antisocial_prefixes name) \<le> 99"
  shows "\<exists>h. ustar_make_header name ty len header con = Some (True, header_bytes h, con) \<and> header_ok h \<and>
    uh_name h = strip_antisocial_prefixes name @ replicate (100 - length (strip_antisocial_prefixes name)) 0 \<and>
    uh_size h = map digit_char (octal 11 (unat len)) @ [0] \<and> uh_magic h = bytes ''ustar'' @ [0] \<and> uh_version h = [48, 48] \<and> uh_typeflag h = type_byte ty \<and>
    uh_prefix h = replicate 155 0 \<and> uh_chksum h = map digit_char (octal 7 (calculate_chksum (header_bytes h))) @ [0]"
proof -
  let ?name = "strip_antisocial_prefixes name"
  let ?mode = "map digit_char (octal 7 (if ty = USTAR_REGULAR then 420 else 493)) @ [0]"
  let ?h1 = "zero_header\<lparr>uh_name := copy_field (uh_name zero_header) ?name, uh_mode := ?mode, uh_uid := copy_field (uh_uid zero_header) (bytes ''0000000''),
      uh_gid := copy_field (uh_gid zero_header) (bytes ''0000000''), uh_size := map digit_char (octal 11 (unat len)) @ [0],
      uh_mtime := map digit_char (octal 11 1136102400) @ [0], uh_typeflag := type_byte ty, uh_magic := copy_field (uh_magic zero_header) (bytes ''ustar''),
      uh_version := [48, 48], uh_gname := copy_field (uh_gname zero_header) (bytes ''root''), uh_uname := copy_field (uh_uname zero_header) (bytes ''root'')\<rparr>"
  let ?c = "calculate_chksum (header_bytes ?h1)"
  let ?h = "?h1\<lparr>uh_chksum := map digit_char (octal 7 ?c) @ [0]\<rparr>"
  have c: "unat (of_nat ?c :: u32) = ?c" using chksum_small [of "header_bytes ?h1"] by (simp add: unat_of_nat)
  have "unat len < 2 ^ 32" using unsigned_less [of len, where ?'a = nat] by simp
  then have lo: "length (octal 11 (unat len)) = 11" "length (octal 11 1136102400) = 11" "length (octal 7 ?c) = 7" "length (octal 7 420) = 7" "length (octal 7 493) = 7"
    using chksum_small [of "header_bytes ?h1"] by (simp_all add: octal_length)
  have f1: "print_field (uh_mode zero_header) ''%07o'' (if ty = USTAR_REGULAR then 420 else 493) = Some ?mode"
    using print_field_ok [OF octal7, of 420 "uh_mode zero_header"] print_field_ok [OF octal7, of 493 "uh_mode zero_header"] lo by (simp add: zero_header_simps)
  have f2: "print_field (uh_size zero_header) ''%011o'' len = Some (map digit_char (octal 11 (unat len)) @ [0])"
    using print_field_ok [OF octal11, of "uh_size zero_header" len] lo by (simp add: zero_header_simps)
  have f3: "print_field (uh_mtime zero_header) ''%011o'' 1136102400 = Some (map digit_char (octal 11 1136102400) @ [0])"
    using print_field_ok [OF octal11, of "uh_mtime zero_header" 1136102400] lo by (simp add: zero_header_simps)
  have f4: "print_field (uh_chksum zero_header) ''%07o'' (of_nat ?c) = Some (map digit_char (octal 7 ?c) @ [0])"
    using print_field_ok [OF octal7, of "of_nat ?c" "uh_chksum zero_header"] lo c chksum_small [of "header_bytes ?h1"] by (simp add: zero_header_simps)
  have ok: "header_ok ?h1" using zero_header_ok lo by (simp add: header_ok_def copy_field_length)
  have m: "ustar_make_header name ty len header con = Some (True, header_bytes ?h, con)"
    using ty n f1 f2 f3 f4 unfolding ustar_make_header_def Let_def by (cases ty) simp_all
  have "length (map digit_char (octal 7 ?c) @ [0]) = 8" using lo(3) by simp
  then have ck: "calculate_chksum (header_bytes ?h) = ?c" by (rule chksum_own_field [OF ok])
  have "copy_field (uh_name zero_header) ?name = ?name @ replicate (100 - length ?name) 0"
    using n by (simp add: copy_field_def overwrite_def zero_header_simps Cons_replicate_eq)
  moreover have "copy_field (uh_magic zero_header) (bytes ''ustar'') = bytes ''ustar'' @ [0]" by (simp add: copy_field_def overwrite_def zero_header_simps bytes_def)
  ultimately show ?thesis using m ok lo(3) ck by (intro exI [of _ ?h]) (simp add: header_ok_def zero_header_simps)
qed

text \<open>
  C25: A header that \<^verbatim>\<open>ustar_make_header\<close> composes for a regular file or a directory is accepted by \<^verbatim>\<open>ustar_parse_header\<close>, so that in
  particular its checksum matches. What comes back is the type, the name as \<^verbatim>\<open>strip_antisocial_prefixes\<close> leaves it (\<open>../../etc/x\<close> comes
  back as \<open>etc/x\<close>), and for a regular file the size; for a directory the size comes back as 0. The name so stripped must have at most
  99 characters and the size must be less than 2 GB.
\<close>

theorem ustar_roundtrip:
  assumes ty: "ty \<noteq> USTAR_EOF" and name: "0 \<notin> set name" "length (strip_antisocial_prefixes name) \<le> 99" and len: "unat len < 2 ^ 31"
  shows "\<exists>header'. ustar_make_header name ty len header con = Some (True, header', con) \<and> length header' = USTAR_HEADER_SIZE \<and>
    ustar_parse_header header' = Inr (Some (strip_antisocial_prefixes name), ty, if ty = USTAR_REGULAR then int (unat len) else 0)"
proof -
  let ?name = "strip_antisocial_prefixes name"
  obtain h where h: "ustar_make_header name ty len header con = Some (True, header_bytes h, con)" "header_ok h"
      "uh_name h = ?name @ replicate (100 - length ?name) 0" "uh_size h = map digit_char (octal 11 (unat len)) @ [0]" "uh_magic h = bytes ''ustar'' @ [0]"
      "uh_version h = [48, 48]" "uh_typeflag h = type_byte ty" "uh_prefix h = replicate 155 0" "uh_chksum h = map digit_char (octal 7 (calculate_chksum (header_bytes h))) @ [0]"
    using ustar_make_ok [OF ty name(2)] by metis
  have "48 \<in> set (header_bytes h)" using h(6) by (simp add: header_bytes_def)
  then have z: "\<not> is_all_zeros (header_bytes h)" by (auto simp: is_all_zeros_def list_all_iff intro!: bexI [of _ 48])
  have c: "parse_octal_field (uh_chksum h) = Some (calculate_chksum (header_bytes h))"
    unfolding h(9) using chksum_small [of "header_bytes h"] by (intro parse_octal_field_ok) simp_all
  have sz: "parse_octal_field (uh_size h) = Some (unat len)" unfolding h(4) using len by (intro parse_octal_field_ok) simp_all
  have n: "\<forall>x \<in> set ?name. x \<noteq> 0" using strip_no_null [OF name(1)] by metis
  have "100 - length ?name = Suc (99 - length ?name)" using name(2) by linarith
  then have tw: "takeWhile (\<lambda>ch. ch \<noteq> 0) (uh_name h) = ?name" unfolding h(3) using n by (simp add: takeWhile_append2)
  have l: "uh_name h ! 99 = 0" "uh_prefix h ! 0 = 0" unfolding h(3,8) using name(2) by (simp_all add: nth_append)
  have "ustar_parse_header (header_bytes h) = Inr (Some ?name, ty, if ty = USTAR_REGULAR then int (unat len) else 0)"
    using ty z c sz tw l h(5,6,7) len bytes_header_inverse [OF h(2)] strip_twice [of name]
    by (cases ty) (simp_all add: ustar_parse_header_def Let_def)
  then show ?thesis using h(1) header_bytes_length [OF h(2)] by (intro exI [of _ "header_bytes h"]) (simp add: USTAR_HEADER_SIZE_def)
qed

theorem ustar_roundtrip_witness:
  "\<exists>header'. ustar_make_header (bytes ''../../etc/x'') USTAR_REGULAR 1000 [] [] = Some (True, header', []) \<and>
     ustar_parse_header header' = Inr (Some (bytes ''etc/x''), USTAR_REGULAR, 1000)"
proof -
  have s: "strip_antisocial_prefixes (bytes ''../../etc/x'') = bytes ''etc/x''"
    by (simp add: strip_antisocial_prefixes_def strip_antisocial_loop.simps bytes_def)
  have "0 \<notin> set (bytes ''../../etc/x'')" "length (strip_antisocial_prefixes (bytes ''../../etc/x'')) \<le> 99" unfolding s by (simp_all add: bytes_def)
  from ustar_roundtrip [OF _ this, of USTAR_REGULAR 1000 "[]" "[]"] show ?thesis unfolding s by auto
qed

text \<open>Whatever the bytes of an archive are, a name that is accepted neither starts at the root nor leaves the directory with its first component.\<close>

theorem ustar_names_safe:
  assumes "ustar_parse_header header = Inr (Some name, ty, n)"
  shows "name \<noteq> [] \<and> name \<noteq> bytes ''..'' \<and> \<not> antisocial name \<and> 0 \<le> n \<and> n < 2 ^ 31"
proof -
  have "name = strip_antisocial_prefixes (takeWhile (\<lambda>ch. ch \<noteq> 0) (uh_name (bytes_header header))) \<and> 0 \<le> n \<and> n < 2 ^ 31"
    using assms by (auto simp: ustar_parse_header_def Let_def split: if_splits option.splits)
  then show ?thesis using strip_safe by simp
qed

end
