(* ===== verification/Prng.thy ===== *)
theory Prng
  imports Prelude "HOL-Library.Multiset"
begin

text \<open>
  The pseudo-random generator of \<^verbatim>\<open>lib/random.c\<close> (RC4). Its static variables are the record \<open>rng\<close>; an index outside the array stops the kernel.
\<close>

record rng =
  rs :: "u8 list"
  s_i :: u8
  s_j :: u8
  inited :: bool

definition swap_byte :: "u8 list \<Rightarrow> nat \<Rightarrow> nat \<Rightarrow> u8 list option" where
  "swap_byte s a b = do {
     t \<leftarrow> arr_get s a;
     u \<leftarrow> arr_get s b;
     s \<leftarrow> arr_set s a u;
     arr_set s b t }"

text \<open>Byte \<open>k\<close> of the seed in memory.\<close>

definition seed_byte :: "u32 \<Rightarrow> nat \<Rightarrow> u8" where "seed_byte seed k = ucast (drop_bit (8 * k) seed)"

function init_loop :: "nat \<Rightarrow> u8 \<Rightarrow> u32 \<Rightarrow> u8 list \<Rightarrow> u8 list option" where
  "init_loop i j seed s =
     (if i < 256 then do {
        v \<leftarrow> arr_get s i;
        let j = j + v + seed_byte seed (i mod 4);
        s \<leftarrow> swap_byte s i (unat j);
        init_loop (i + 1) j seed s }
      else Some s)"
  by pat_completeness auto
termination by (relation "measure (\<lambda>(i, j, seed, s). 256 - i)") auto

declare init_loop.simps [simp del]

definition random_init :: "u32 \<Rightarrow> rng \<Rightarrow> rng option" where
  "random_init seed r = do {
     s \<leftarrow> init_loop 0 0 seed (map of_nat [0..<256]);
     Some (r\<lparr>rs := s, s_i := 0, s_j := 0, inited := True\<rparr>) }"

primrec random_loop :: "nat \<Rightarrow> rng \<Rightarrow> (u8 list \<times> rng) option" where
  "random_loop 0 r = Some ([], r)"
| "random_loop (Suc n) r = do {
     let i = s_i r + 1;
     v \<leftarrow> arr_get (rs r) (unat i);
     let j = s_j r + v;
     s \<leftarrow> swap_byte (rs r) (unat i) (unat j);
     a \<leftarrow> arr_get s (unat i);
     b \<leftarrow> arr_get s (unat j);
     byte \<leftarrow> arr_get s (unat (a + b));
     (buf, r) \<leftarrow> random_loop n (r\<lparr>rs := s, s_i := i, s_j := j\<rparr>);
     Some (byte # buf, r) }"

definition random_bytes :: "nat \<Rightarrow> rng \<Rightarrow> (u8 list \<times> rng) option" where
  "random_bytes n r = do {
     r \<leftarrow> (if \<not> inited r then random_init 0 r else Some r);
     random_loop n r }"

definition random_ulong :: "rng \<Rightarrow> (u32 \<times> rng) option" where
  "random_ulong r = do {
     (buf, r) \<leftarrow> random_bytes 4 r;
     Some (word_rcat (rev buf), r) }"

section \<open>The state is a permutation\<close>

definition permutation :: "u8 list \<Rightarrow> bool" where
  "permutation s \<longleftrightarrow> mset s = mset (map of_nat [0..<256])"

definition rng_ok :: "rng \<Rightarrow> bool" where
  "rng_ok r \<longleftrightarrow> (inited r \<longrightarrow> permutation (rs r))"

lemma permutation_length: "permutation s \<Longrightarrow> length s = 256"
  using mset_eq_length [of s "map of_nat [0..<256]"] by (simp add: permutation_def)

lemma byte_index: "unat (b :: u8) < 256"
  using unsigned_less [of b, where ?'a = nat] by simp

lemma swap_byte_ok:
  assumes "permutation s" and "a < 256" and "b < 256"
  shows "swap_byte s a b = Some (s[a := s ! b, b := s ! a]) \<and> permutation (s[a := s ! b, b := s ! a])"
proof -
  have l: "length s = 256" using permutation_length [OF assms(1)] .
  then have "mset (s[a := s ! b, b := s ! a]) = mset s" using assms(2,3) by (simp add: mset_swap)
  then show ?thesis using assms l by (simp add: swap_byte_def permutation_def)
qed

lemma init_loop_ok: "permutation s \<Longrightarrow> \<exists>s'. init_loop i j seed s = Some s' \<and> permutation s'"
proof (induction i j seed s rule: init_loop.induct)
  case (1 i j seed s)
  show ?case
  proof (cases "i < 256")
    case True
    let ?j = "j + s ! i + seed_byte seed (i mod 4)"
    have g: "arr_get s i = Some (s ! i)" using permutation_length [OF 1(2)] True by simp
    note w = swap_byte_ok [OF 1(2) True byte_index [of ?j]]
    show ?thesis using 1(1) [OF True g refl] w True g by (subst init_loop.simps) (auto simp: Let_def)
  next
    case False
    then show ?thesis using 1(2) by (subst init_loop.simps) simp
  qed
qed

lemma random_init_ok: "\<exists>s. random_init seed r = Some (r\<lparr>rs := s, s_i := 0, s_j := 0, inited := True\<rparr>) \<and> permutation s"
  using init_loop_ok [of "map of_nat [0..<256]" 0 0 seed] by (auto simp: random_init_def permutation_def)

lemma random_loop_ok: "permutation (rs r) \<Longrightarrow> \<exists>buf r'. random_loop n r = Some (buf, r') \<and> length buf = n \<and> permutation (rs r') \<and> inited r' = inited r"
proof (induction n arbitrary: r)
  case (Suc n)
  let ?i = "s_i r + 1" let ?j = "s_j r + rs r ! unat ?i"
  let ?s = "(rs r)[unat ?i := rs r ! unat ?j, unat ?j := rs r ! unat ?i]"
  have l: "length (rs r) = 256" using permutation_length [OF Suc.prems] .
  have w: "swap_byte (rs r) (unat ?i) (unat ?j) = Some ?s" "permutation ?s" using swap_byte_ok [OF Suc.prems byte_index byte_index] by blast+
  obtain buf r' where "random_loop n (r\<lparr>rs := ?s, s_i := ?i, s_j := ?j\<rparr>) = Some (buf, r')" "length buf = n" "permutation (rs r')" "inited r' = inited r"
    using Suc.IH [of "r\<lparr>rs := ?s, s_i := ?i, s_j := ?j\<rparr>"] w(2) by auto
  then show ?case using w(1) l byte_index by (simp add: Let_def arr_get_def)
qed simp

lemma random_loop_add: "random_loop (n + m) r = do { (a, r) \<leftarrow> random_loop n r; (b, r) \<leftarrow> random_loop m r; Some (a @ b, r) }"
  by (induction n arbitrary: r) (auto simp: Let_def bind_assoc split_def intro!: arg_cong2 [of _ _ _ _ Option.bind] ext)

section \<open>Properties\<close>

text \<open>
  C39: Whatever the seed, and however many bytes were drawn, the array of the generator is a permutation of the 256 byte values, no index leaves
  it, and a request for \<open>n\<close> bytes returns \<open>n\<close> bytes.
\<close>

theorem random_state_permutation:
  assumes "rng_ok r"
  shows "(\<exists>buf r'. random_bytes n r = Some (buf, r') \<and> length buf = n \<and> inited r' \<and> rng_ok r') \<and>
    (\<exists>r'. random_init seed r = Some r' \<and> rng_ok r') \<and> (\<exists>v r'. random_ulong r = Some (v, r') \<and> rng_ok r')"
proof -
  have b: "\<exists>buf r'. random_bytes n r = Some (buf, r') \<and> length buf = n \<and> inited r' \<and> rng_ok r'" for n
  proof (cases "inited r")
    case True
    then show ?thesis using random_loop_ok [of r n] assms by (auto simp: random_bytes_def rng_ok_def)
  next
    case False
    obtain s where s: "random_init 0 r = Some (r\<lparr>rs := s, s_i := 0, s_j := 0, inited := True\<rparr>)" "permutation s" using random_init_ok [of 0 r] by blast
    then show ?thesis using False random_loop_ok [of "r\<lparr>rs := s, s_i := 0, s_j := 0, inited := True\<rparr>" n] by (auto simp: random_bytes_def rng_ok_def)
  qed
  moreover have "\<exists>r'. random_init seed r = Some r' \<and> rng_ok r'" using random_init_ok [of seed r] by (auto simp: rng_ok_def)
  moreover have "\<exists>v r'. random_ulong r = Some (v, r') \<and> rng_ok r'" using b [of 4] by (auto simp: random_ulong_def)
  ultimately show ?thesis by blast
qed

text \<open>Drawing bytes in two requests gives the same bytes as one request.\<close>

theorem random_bytes_split:
  "inited r \<Longrightarrow> random_bytes (n + m) r = do { (a, r) \<leftarrow> random_bytes n r; (b, r) \<leftarrow> random_loop m r; Some (a @ b, r) }"
  by (simp add: random_bytes_def random_loop_add)

definition demo_rng :: rng where "demo_rng = \<lparr>rs = [], s_i = 0, s_j = 0, inited = False\<rparr>"

theorem random_state_witness: "\<exists>buf r'. random_bytes 1000 demo_rng = Some (buf, r') \<and> length buf = 1000 \<and> rng_ok r'"
  using random_state_permutation [of demo_rng 1000 7] by (auto simp: rng_ok_def demo_rng_def)

end
