(* ===== verification/Intq.thy ===== *)
theory Intq
  imports Synch
begin

text \<open>
  Interrupt queues, \<^verbatim>\<open>devices/intq.c\<close>: a ring of bytes between kernel threads and interrupt handlers, with at most one thread that waits
  for it to be not empty and one that waits for it to be not full. An operation that has to sleep stops at the switch; it continues with
  \<open>intq_getc_resume\<close> or \<open>intq_putc_resume\<close>, or, when it slept on the lock of the queue, with \<open>intq_wait_locked\<close>.
\<close>

definition INTQ_BUFSIZE :: nat where "INTQ_BUFSIZE = 64"

record intq =
  iq_lock :: nat
  not_full :: tptr
  not_empty :: tptr
  iq_buf :: "u8 list"
  iq_head :: nat
  iq_tail :: nat

datatype waiter = Not_empty | Not_full

datatype 'a io_result = Done 'a | Sleeps_lock bool | Sleeps

definition next_pos :: "nat \<Rightarrow> nat" where "next_pos pos = (pos + 1) mod INTQ_BUFSIZE"

definition intq_init :: "nat \<Rightarrow> intq \<Rightarrow> ksys \<Rightarrow> intq \<times> ksys" where
  "intq_init l q s = (q\<lparr>iq_lock := l, not_full := NO_THREAD, not_empty := NO_THREAD, iq_head := 0, iq_tail := 0\<rparr>, lock_init l s)"

definition intq_empty :: "intq \<Rightarrow> ksys \<Rightarrow> bool option" where
  "intq_empty q s = do { ASSERT (\<not> intr_on s); Some (iq_head q = iq_tail q) }"

definition intq_full :: "intq \<Rightarrow> ksys \<Rightarrow> bool option" where
  "intq_full q s = do { ASSERT (\<not> intr_on s); Some (next_pos (iq_head q) = iq_tail q) }"

definition waiting :: "waiter \<Rightarrow> intq \<Rightarrow> tptr" where
  "waiting w q = (case w of Not_empty \<Rightarrow> not_empty q | Not_full \<Rightarrow> not_full q)"

definition set_waiting :: "waiter \<Rightarrow> tptr \<Rightarrow> intq \<Rightarrow> intq" where
  "set_waiting w t q = (case w of Not_empty \<Rightarrow> q\<lparr>not_empty := t\<rparr> | Not_full \<Rightarrow> q\<lparr>not_full := t\<rparr>)"

text \<open>Whether the condition \<open>w\<close> is still false.\<close>

definition must_wait :: "waiter \<Rightarrow> intq \<Rightarrow> ksys \<Rightarrow> bool option" where
  "must_wait w q s = (case w of Not_empty \<Rightarrow> intq_empty q s | Not_full \<Rightarrow> intq_full q s)"

definition wait :: "waiter \<Rightarrow> intq \<Rightarrow> ksys \<Rightarrow> (intq \<times> ksys) option" where
  "wait w q s = do {
     ASSERT (\<not> intr_context s);
     ASSERT (\<not> intr_on s);
     b \<leftarrow> must_wait w q s;
     ASSERT b;
     (t, _) \<leftarrow> thread_current s;
     s \<leftarrow> thread_block s;
     Some (set_waiting w t q, s) }"

definition signal :: "waiter \<Rightarrow> intq \<Rightarrow> ksys \<Rightarrow> (intq \<times> ksys) option" where
  "signal w q s = do {
     ASSERT (\<not> intr_on s);
     b \<leftarrow> must_wait w q s;
     ASSERT (\<not> b);
     if waiting w q \<noteq> NO_THREAD then do {
       s \<leftarrow> thread_unblock (waiting w q) s;
       Some (set_waiting w NO_THREAD q, s) }
     else Some (q, s) }"

text \<open>The body of the loops: take the lock and sleep; the lock may have to be waited for.\<close>

definition intq_wait :: "waiter \<Rightarrow> intq \<Rightarrow> ksys \<Rightarrow> ('a io_result \<times> intq \<times> ksys) option" where
  "intq_wait w q s = do {
     ASSERT (\<not> intr_context s);
     (r, s) \<leftarrow> lock_acquire (iq_lock q) s;
     case r of
       Switched lvl \<Rightarrow> Some (Sleeps_lock lvl, q, s)
     | Returned \<Rightarrow> do { (q, s) \<leftarrow> wait w q s; Some (Sleeps, q, s) } }"

definition intq_wait_locked :: "waiter \<Rightarrow> bool \<Rightarrow> intq \<Rightarrow> ksys \<Rightarrow> ('a io_result \<times> intq \<times> ksys) option" where
  "intq_wait_locked w lvl q s = do {
     (r, s) \<leftarrow> sema_down_resume (LockSema (iq_lock q)) lvl s;
     case r of
       Switched lvl \<Rightarrow> Some (Sleeps_lock lvl, q, s)
     | Returned \<Rightarrow> do { s \<leftarrow> lock_acquire_finish (iq_lock q) s; (q, s) \<leftarrow> wait w q s; Some (Sleeps, q, s) } }"

definition intq_getc :: "intq \<Rightarrow> ksys \<Rightarrow> (u8 io_result \<times> intq \<times> ksys) option" where
  "intq_getc q s = do {
     ASSERT (\<not> intr_on s);
     e \<leftarrow> intq_empty q s;
     if e then intq_wait Not_empty q s
     else do {
       byte \<leftarrow> arr_get (iq_buf q) (iq_tail q);
       (q, s) \<leftarrow> signal Not_full (q\<lparr>iq_tail := next_pos (iq_tail q)\<rparr>) s;
       Some (Done byte, q, s) } }"

definition intq_putc :: "u8 \<Rightarrow> intq \<Rightarrow> ksys \<Rightarrow> (unit io_result \<times> intq \<times> ksys) option" where
  "intq_putc byte q s = do {
     ASSERT (\<not> intr_on s);
     f \<leftarrow> intq_full q s;
     if f then intq_wait Not_full q s
     else do {
       buf \<leftarrow> arr_set (iq_buf q) (iq_head q) byte;
       (q, s) \<leftarrow> signal Not_empty (q\<lparr>iq_buf := buf, iq_head := next_pos (iq_head q)\<rparr>) s;
       Some (Done (), q, s) } }"

definition intq_getc_resume :: "intq \<Rightarrow> ksys \<Rightarrow> (u8 io_result \<times> intq \<times> ksys) option" where
  "intq_getc_resume q s = do { s \<leftarrow> lock_release (iq_lock q) s; intq_getc q s }"

definition intq_putc_resume :: "u8 \<Rightarrow> intq \<Rightarrow> ksys \<Rightarrow> (unit io_result \<times> intq \<times> ksys) option" where
  "intq_putc_resume byte q s = do { s \<leftarrow> lock_release (iq_lock q) s; intq_putc byte q s }"

section \<open>The bytes in a queue\<close>

definition iq_count :: "intq \<Rightarrow> nat" where
  "iq_count q = (iq_head q + INTQ_BUFSIZE - iq_tail q) mod INTQ_BUFSIZE"

definition iq_bytes :: "intq \<Rightarrow> u8 list" where
  "iq_bytes q = map (\<lambda>k. iq_buf q ! ((iq_tail q + k) mod INTQ_BUFSIZE)) [0..<iq_count q]"

definition intq_ok :: "intq \<Rightarrow> bool" where
  "intq_ok q \<longleftrightarrow> length (iq_buf q) = INTQ_BUFSIZE \<and> iq_head q < INTQ_BUFSIZE \<and> iq_tail q < INTQ_BUFSIZE"

lemma iq_length: "intq_ok q \<Longrightarrow> length (iq_bytes q) < INTQ_BUFSIZE"
  by (simp add: iq_bytes_def iq_count_def INTQ_BUFSIZE_def)

lemma wrap: "a < 128 \<Longrightarrow> a mod 64 = (if a < 64 then a else a - (64::nat))"
  by (simp add: mod_if)

lemma iq_count_eq: "intq_ok q \<Longrightarrow> iq_count q = (if iq_tail q \<le> iq_head q then iq_head q - iq_tail q else iq_head q + 64 - iq_tail q)"
  using wrap [of "iq_head q + 64 - iq_tail q"] by (auto simp: iq_count_def intq_ok_def INTQ_BUFSIZE_def)

lemma next_pos_eq: "a < 64 \<Longrightarrow> next_pos a = (if a = 63 then 0 else a + 1)"
  by (auto simp: next_pos_def INTQ_BUFSIZE_def)

lemma iq_empty_iff: "intq_ok q \<Longrightarrow> iq_head q = iq_tail q \<longleftrightarrow> iq_bytes q = []"
  using iq_count_eq [of q] by (auto simp: iq_bytes_def intq_ok_def INTQ_BUFSIZE_def)

lemma iq_full_iff: "intq_ok q \<Longrightarrow> next_pos (iq_head q) = iq_tail q \<longleftrightarrow> length (iq_bytes q) = INTQ_BUFSIZE - 1"
  using iq_count_eq [of q] next_pos_eq [of "iq_head q"] by (auto simp: iq_bytes_def intq_ok_def INTQ_BUFSIZE_def split: if_splits)

lemma iq_push:
  assumes q: "intq_ok q" and nf: "next_pos (iq_head q) \<noteq> iq_tail q"
  shows "iq_bytes (q\<lparr>iq_buf := (iq_buf q)[iq_head q := b], iq_head := next_pos (iq_head q)\<rparr>) = iq_bytes q @ [b]"
    and "intq_ok (q\<lparr>iq_buf := (iq_buf q)[iq_head q := b], iq_head := next_pos (iq_head q)\<rparr>)"
proof -
  let ?q = "q\<lparr>iq_buf := (iq_buf q)[iq_head q := b], iq_head := next_pos (iq_head q)\<rparr>"
  have h: "iq_head q < 64" "iq_tail q < 64" "length (iq_buf q) = 64" using q by (simp_all add: intq_ok_def INTQ_BUFSIZE_def)
  have n: "next_pos (iq_head q) < 64" using h by (simp add: next_pos_eq)
  then show q': "intq_ok ?q" using h by (simp add: intq_ok_def INTQ_BUFSIZE_def)
  have c: "iq_count ?q = Suc (iq_count q)" using h nf iq_count_eq [OF q] iq_count_eq [OF q'] by (auto simp: next_pos_eq split: if_splits)
  have l: "iq_count q < 64" using iq_count_eq [OF q] h by (simp split: if_splits)
  have at: "(iq_tail q + iq_count q) mod 64 = iq_head q" using h wrap [of "iq_tail q + iq_count q"] iq_count_eq [OF q] l by (simp split: if_splits)
  have other: "iq_head q \<noteq> (iq_tail q + k) mod 64" if "k < iq_count q" for k
    using h that wrap [of "iq_tail q + k"] iq_count_eq [OF q] l by (simp split: if_splits)
  show "iq_bytes ?q = iq_bytes q @ [b]" using h at other unfolding iq_bytes_def c by (simp add: INTQ_BUFSIZE_def)
qed

lemma iq_pop:
  assumes q: "intq_ok q" and ne: "iq_head q \<noteq> iq_tail q"
  shows "iq_bytes q = iq_buf q ! iq_tail q # iq_bytes (q\<lparr>iq_tail := next_pos (iq_tail q)\<rparr>)" and "intq_ok (q\<lparr>iq_tail := next_pos (iq_tail q)\<rparr>)"
proof -
  let ?q = "q\<lparr>iq_tail := next_pos (iq_tail q)\<rparr>"
  have h: "iq_head q < 64" "iq_tail q < 64" using q by (simp_all add: intq_ok_def INTQ_BUFSIZE_def)
  have n: "next_pos (iq_tail q) < 64" using h by (simp add: next_pos_eq)
  then show q': "intq_ok ?q" using q by (simp add: intq_ok_def INTQ_BUFSIZE_def)
  have c: "iq_count q = Suc (iq_count ?q)" using h ne iq_count_eq [OF q] iq_count_eq [OF q'] by (auto simp: next_pos_eq split: if_splits)
  have s: "(next_pos (iq_tail q) + k) mod 64 = (iq_tail q + Suc k) mod 64" for k by (simp add: next_pos_def INTQ_BUFSIZE_def mod_simps)
  have "[0..<Suc n] = 0 # map Suc [0..<n]" for n by (simp add: upt_conv_Cons map_Suc_upt)
  then show "iq_bytes q = iq_buf q ! iq_tail q # iq_bytes ?q" using h s unfolding iq_bytes_def c by (simp add: INTQ_BUFSIZE_def)
qed

section \<open>Channels of bytes\<close>

text \<open>What the users of a queue rely on: bytes come out in the order in which they were put in, up to a capacity.\<close>

locale byte_channel =
  fixes put :: "u8 \<Rightarrow> 's \<Rightarrow> 's option"
    and get :: "'s \<Rightarrow> (u8 \<times> 's) option"
    and content :: "'s \<Rightarrow> u8 list"
    and capacity :: nat
    and ok :: "'s \<Rightarrow> bool"
  assumes put_ok: "ok s \<Longrightarrow> length (content s) < capacity \<Longrightarrow> \<exists>t. put b s = Some t \<and> ok t \<and> content t = content s @ [b]"
    and get_ok: "ok s \<Longrightarrow> content s = b # bs \<Longrightarrow> \<exists>t. get s = Some (b, t) \<and> ok t \<and> content t = bs"

primrec put_bytes :: "(u8 \<Rightarrow> 's \<Rightarrow> 's option) \<Rightarrow> u8 list \<Rightarrow> 's \<Rightarrow> 's option" where
  "put_bytes put [] s = Some s"
| "put_bytes put (b # bs) s = do { s \<leftarrow> put b s; put_bytes put bs s }"

primrec get_bytes :: "('s \<Rightarrow> (u8 \<times> 's) option) \<Rightarrow> nat \<Rightarrow> 's \<Rightarrow> (u8 list \<times> 's) option" where
  "get_bytes get 0 s = Some ([], s)"
| "get_bytes get (Suc n) s = do { (b, s) \<leftarrow> get s; (bs, s) \<leftarrow> get_bytes get n s; Some (b # bs, s) }"

context byte_channel
begin

lemma put_bytes_ok:
  "ok s \<Longrightarrow> length (content s) + length bs \<le> capacity \<Longrightarrow> \<exists>t. put_bytes put bs s = Some t \<and> ok t \<and> content t = content s @ bs"
proof (induction bs arbitrary: s)
  case (Cons b bs)
  then obtain t where t: "put b s = Some t" "ok t" "content t = content s @ [b]" using put_ok [of s b] by auto
  then show ?case using Cons.IH [of t] Cons.prems by auto
qed simp

lemma get_bytes_ok: "ok s \<Longrightarrow> content s = bs @ rest \<Longrightarrow> \<exists>t. get_bytes get (length bs) s = Some (bs, t) \<and> ok t \<and> content t = rest"
proof (induction bs arbitrary: s)
  case (Cons b bs)
  then obtain t where t: "get s = Some (b, t)" "ok t" "content t = bs @ rest" using get_ok [of s b "bs @ rest"] by auto
  then show ?case using Cons.IH [of t] by auto
qed simp

lemma transfer_ok:
  assumes "ok s" and "content s = []" and "length bs \<le> capacity"
  shows "\<exists>t u. put_bytes put bs s = Some t \<and> get_bytes get (length bs) t = Some (bs, u) \<and> content u = [] \<and> ok u"
proof -
  obtain t where "put_bytes put bs s = Some t" "ok t" "content t = bs" using put_bytes_ok [of s bs] assms by auto
  then show ?thesis using get_bytes_ok [of t bs "[]"] by auto
qed

end

text \<open>The waiting threads are blocked and known to no one else.\<close>

definition sleeper :: "ksys \<Rightarrow> tptr \<Rightarrow> bool" where
  "sleeper s t \<longleftrightarrow> t = NO_THREAD \<or> status_of s t = Some THREAD_BLOCKED \<and> t \<notin> all_waiters s \<and> t \<noteq> idle_thread s"

definition channel_ok :: "intq \<times> ksys \<Rightarrow> bool" where
  "channel_ok = (\<lambda>(q, s). intq_ok q \<and> sched_inv s \<and> \<not> intr_on s \<and> sleeper s (not_empty q) \<and> sleeper s (not_full q) \<and>
     (not_empty q = not_full q \<longrightarrow> not_empty q = NO_THREAD))"

definition channel_put :: "u8 \<Rightarrow> intq \<times> ksys \<Rightarrow> (intq \<times> ksys) option" where
  "channel_put b = (\<lambda>(q, s). case intq_putc b q s of Some (Done u, q', s') \<Rightarrow> Some (q', s') | _ \<Rightarrow> None)"

definition channel_get :: "intq \<times> ksys \<Rightarrow> (u8 \<times> intq \<times> ksys) option" where
  "channel_get = (\<lambda>(q, s). case intq_getc q s of Some (Done b, q', s') \<Rightarrow> Some (b, q', s') | _ \<Rightarrow> None)"

lemma signal_ok:
  assumes ok: "channel_ok (q, s)" and w: "must_wait w q s = Some False"
  shows "\<exists>q' s'. signal w q s = Some (q', s') \<and> channel_ok (q', s') \<and> iq_bytes q' = iq_bytes q \<and>
    ready_list s' = ready_list s @ (if waiting w q = NO_THREAD then [] else [waiting w q])"
proof -
  have s: "sched_inv s" "\<not> intr_on s" "sleeper s (not_empty q)" "sleeper s (not_full q)" "intq_ok q" "not_empty q = not_full q \<longrightarrow> not_empty q = NO_THREAD"
    using ok by (simp_all add: channel_ok_def)
  show ?thesis
  proof (cases "waiting w q = NO_THREAD")
    case True
    then show ?thesis using s(2) w ok by (simp add: signal_def)
  next
    case False
    then have b: "status_of s (waiting w q) = Some THREAD_BLOCKED" "waiting w q \<notin> all_waiters s" "waiting w q \<noteq> idle_thread s"
      using s(3,4) by (cases w; simp add: waiting_def sleeper_def)+
    obtain s' where u: "thread_unblock (waiting w q) s = Some s'" "sched_inv s'" "ready_list s' = ready_list s @ [waiting w q]" "intr_on s' = intr_on s" "semas s' = semas s"
        "idle_thread s' = idle_thread s" "status_of s' = (status_of s)(waiting w q \<mapsto> THREAD_READY)"
      using thread_unblock_ok [OF s(1) b] s(2) by blast
    have "signal w q s = Some (set_waiting w NO_THREAD q, s')" using s(2) w False u(1) by (simp add: signal_def)
    moreover have "all_waiters s' = all_waiters s" using u(5) by (simp add: all_waiters_def)
    then have sl: "sleeper s' t" if "sleeper s t" "t \<noteq> waiting w q" for t using that u(6,7) by (simp add: sleeper_def)
    have n0: "sleeper s' NO_THREAD" by (simp add: sleeper_def)
    have "channel_ok (set_waiting w NO_THREAD q, s')"
    proof (cases w)
      case Not_empty
      then have "not_full q \<noteq> waiting w q" using s(6) False by (auto simp: waiting_def)
      then show ?thesis using s u(2,4) sl n0 Not_empty by (simp add: channel_ok_def set_waiting_def intq_ok_def)
    next
      case Not_full
      then have "not_empty q \<noteq> waiting w q" using s(6) False by (auto simp: waiting_def)
      then show ?thesis using s u(2,4) sl n0 Not_full by (simp add: channel_ok_def set_waiting_def intq_ok_def)
    qed
    moreover have "iq_bytes (set_waiting w NO_THREAD q) = iq_bytes q" by (cases w) (simp_all add: set_waiting_def iq_bytes_def iq_count_def)
    ultimately show ?thesis using False u(3) by auto
  qed
qed

lemma putc_ok:
  assumes ok: "channel_ok (q, s)" and room: "length (iq_bytes q) < INTQ_BUFSIZE - 1"
  shows "\<exists>q' s'. intq_putc b q s = Some (Done (), q', s') \<and> channel_ok (q', s') \<and> iq_bytes q' = iq_bytes q @ [b] \<and>
    ready_list s' = ready_list s @ (if not_empty q = NO_THREAD then [] else [not_empty q])"
proof -
  let ?q = "q\<lparr>iq_buf := (iq_buf q)[iq_head q := b], iq_head := next_pos (iq_head q)\<rparr>"
  have q: "intq_ok q" and s: "\<not> intr_on s" using ok by (simp_all add: channel_ok_def)
  have nf: "next_pos (iq_head q) \<noteq> iq_tail q" using iq_full_iff [OF q] room by simp
  note push = iq_push [OF q nf, of b]
  have ok': "channel_ok (?q, s)" using ok push(2) by (simp add: channel_ok_def)
  have ne: "must_wait Not_empty ?q s = Some False" using s push iq_empty_iff [OF push(2)] by (simp add: must_wait_def intq_empty_def)
  have "arr_set (iq_buf q) (iq_head q) b = Some ((iq_buf q)[iq_head q := b])" using q by (simp add: intq_ok_def)
  moreover obtain q' s' where "signal Not_empty ?q s = Some (q', s')" "channel_ok (q', s')" "iq_bytes q' = iq_bytes ?q"
      "ready_list s' = ready_list s @ (if not_empty q = NO_THREAD then [] else [not_empty q])"
    using signal_ok [OF ok' ne] by (auto simp: waiting_def)
  ultimately show ?thesis using s nf push(1) by (simp add: intq_putc_def intq_full_def)
qed

lemma getc_ok:
  assumes ok: "channel_ok (q, s)" and b: "iq_bytes q = b # bs"
  shows "\<exists>q' s'. intq_getc q s = Some (Done b, q', s') \<and> channel_ok (q', s') \<and> iq_bytes q' = bs \<and>
    ready_list s' = ready_list s @ (if not_full q = NO_THREAD then [] else [not_full q])"
proof -
  let ?q = "q\<lparr>iq_tail := next_pos (iq_tail q)\<rparr>"
  have q: "intq_ok q" and s: "\<not> intr_on s" using ok by (simp_all add: channel_ok_def)
  have ne: "iq_head q \<noteq> iq_tail q" using iq_empty_iff [OF q] b by simp
  note pop = iq_pop [OF q ne]
  have ok': "channel_ok (?q, s)" using ok pop(2) by (simp add: channel_ok_def)
  have "length (iq_bytes ?q) < INTQ_BUFSIZE - 1" using iq_length [OF q] pop(1) by simp
  then have nf: "must_wait Not_full ?q s = Some False" using s iq_full_iff [OF pop(2)] by (simp add: must_wait_def intq_full_def)
  have "arr_get (iq_buf q) (iq_tail q) = Some b" using q b pop(1) by (simp add: intq_ok_def)
  moreover obtain q' s' where "signal Not_full ?q s = Some (q', s')" "channel_ok (q', s')" "iq_bytes q' = iq_bytes ?q"
      "ready_list s' = ready_list s @ (if not_full q = NO_THREAD then [] else [not_full q])"
    using signal_ok [OF ok' nf] by (auto simp: waiting_def)
  ultimately show ?thesis using s ne b pop(1) by (simp add: intq_getc_def intq_empty_def)
qed

interpretation iq: byte_channel channel_put channel_get "\<lambda>(q, s). iq_bytes q" "INTQ_BUFSIZE - 1" channel_ok
proof unfold_locales
  fix p :: "intq \<times> ksys" and b bs
  obtain q s where p: "p = (q, s)" by (cases p)
  assume ok: "channel_ok p"
  { assume "length (case p of (q, s) \<Rightarrow> iq_bytes q) < INTQ_BUFSIZE - 1"
    then obtain q' s' where "intq_putc b q s = Some (Done (), q', s')" "channel_ok (q', s')" "iq_bytes q' = iq_bytes q @ [b]"
      using putc_ok [of q s b] ok unfolding p by auto
    then show "\<exists>t. channel_put b p = Some t \<and> channel_ok t \<and> (case t of (q, s) \<Rightarrow> iq_bytes q) = (case p of (q, s) \<Rightarrow> iq_bytes q) @ [b]"
      unfolding p by (intro exI [of _ "(q', s')"]) (simp add: channel_put_def) }
  assume "(case p of (q, s) \<Rightarrow> iq_bytes q) = b # bs"
  then obtain q' s' where "intq_getc q s = Some (Done b, q', s')" "channel_ok (q', s')" "iq_bytes q' = bs"
    using getc_ok [of q s b bs] ok unfolding p by auto
  then show "\<exists>t. channel_get p = Some (b, t) \<and> channel_ok t \<and> (case t of (q, s) \<Rightarrow> iq_bytes q) = bs"
    unfolding p by (intro exI [of _ "(q', s')"]) (simp add: channel_get_def)
qed

text \<open>On an empty queue the caller sleeps, with its address in the queue.\<close>

lemma getc_sleeps:
  assumes ok: "channel_ok (q, s)" and e: "iq_bytes q = []" and ctx: "\<not> intr_context s"
    and l: "semas s (LockSema (iq_lock q)) = Some sem" "0 < s_value sem" "holders s (iq_lock q) = Some h" "h \<noteq> running s"
    and ni: "running s \<noteq> next_thread s"
  shows "\<exists>s'. intq_getc q s = Some (Sleeps, q\<lparr>not_empty := running s\<rparr>, s') \<and> sched_inv s' \<and> running s' = next_thread s \<and>
    status_of s' (running s) = Some THREAD_BLOCKED"
proof -
  have q: "intq_ok q" and s: "\<not> intr_on s" "sched_inv s" using ok by (simp_all add: channel_ok_def)
  have he: "iq_head q = iq_tail q" using iq_empty_iff [OF q] e by simp
  obtain c where c: "thread_current s = Some (running s, c)" "threads s (running s) = Some c" using sched_inv_current [OF s(2)] by metis
  let ?s = "s\<lparr>semas := (semas s)(LockSema (iq_lock q) \<mapsto> sem\<lparr>s_value := s_value sem - 1\<rparr>), intr_on := False, holders := (holders s)(iq_lock q \<mapsto> running s)\<rparr>"
  have "distinct (s_waiters sem)" using waiters_of_sema(1) [of s] s(2) l(1) by (auto simp: sched_inv_def sched_core_def)
  then have i: "sched_inv ?s" by (intro sched_inv_sema [OF s(2) l(1), of "sem\<lparr>s_value := s_value sem - 1\<rparr>"]) simp_all
  obtain c' where c': "thread_current ?s = Some (running s, c')" using sched_inv_current [OF i] by auto
  have cur: "thread_current (s\<lparr>semas := ms, intr_on := False\<rparr>) = thread_current s" for ms by (simp add: thread_current_def is_thread_def Let_def)
  have "s\<lparr>intr_on := False\<rparr> = s" using s(1) by (cases s) simp
  then have "lock_acquire (iq_lock q) s = Some (Returned, ?s)"
    using ctx l c s(1) cur
    by (simp add: lock_acquire_def lock_held_by_current_thread_def sema_down_def sema_down_resume_def sema_down_iter_def intr_disable_def intr_set_level_def
        lock_acquire_finish_def set_holder_def Let_def)
  moreover obtain s' where s': "thread_block ?s = Some s'" "sched_inv s'" "running s' = next_thread ?s" "running ?s \<noteq> next_thread ?s \<longrightarrow> status_of s' (running ?s) = Some THREAD_BLOCKED"
    using thread_block_ok [OF i] ctx by (auto simp: intr_context_def)
  have "next_thread ?s = next_thread s" by (simp add: next_thread_def)
  moreover have "wait Not_empty q ?s = Some (q\<lparr>not_empty := running s\<rparr>, s')"
    using ctx he c' s'(1) by (simp add: wait_def must_wait_def intq_empty_def set_waiting_def intr_context_def)
  ultimately show ?thesis using ctx s(1) he s'(2,3,4) ni by (simp add: intq_getc_def intq_empty_def intq_wait_def)
qed

section \<open>Properties\<close>

definition demo_intq :: intq where
  "demo_intq = \<lparr>iq_lock = 0, not_full = NO_THREAD, not_empty = 20480, iq_buf = replicate 64 0, iq_head = 63, iq_tail = 63\<rparr>"

definition demo_intq_sys :: ksys where
  "demo_intq_sys = demo_sys\<lparr>threads := (threads demo_sys)(20480 \<mapsto> init_thread_struct 20480 ''reader'' 31)\<rparr>"

lemma demo_channel: "channel_ok (demo_intq, demo_intq_sys)" "iq_bytes demo_intq = []"
proof -
  have "sched_inv demo_intq_sys"
    by (auto simp: sched_inv_def sched_core_def threads_ok_def queue_ok_def waiters_ok_def status_of_def all_waiters_def demo_intq_sys_def demo_sys_def
        init_thread_struct_def split: if_splits)
  then show "channel_ok (demo_intq, demo_intq_sys)"
    by (simp add: channel_ok_def sleeper_def intq_ok_def demo_intq_def INTQ_BUFSIZE_def status_of_def all_waiters_def demo_intq_sys_def demo_sys_def init_thread_struct_def)
  show "iq_bytes demo_intq = []" by (simp add: iq_bytes_def iq_count_def demo_intq_def INTQ_BUFSIZE_def)
qed

text \<open>
  C11: An interrupt queue is a channel of up to 63 bytes: a byte that is put in goes to its end and readies a thread that waits for bytes, a byte
  that is taken out is the oldest one and readies a thread that waits for room, and what was put in comes out unchanged and in order.
\<close>

theorem intq_channel:
  assumes "channel_ok (q, s)"
  shows "(length (iq_bytes q) < 63 \<longrightarrow> (\<exists>q' s'. intq_putc b q s = Some (Done (), q', s') \<and> channel_ok (q', s') \<and> iq_bytes q' = iq_bytes q @ [b] \<and>
      ready_list s' = ready_list s @ (if not_empty q = NO_THREAD then [] else [not_empty q]))) \<and>
    (iq_bytes q \<noteq> [] \<longrightarrow> (\<exists>q' s'. intq_getc q s = Some (Done (hd (iq_bytes q)), q', s') \<and> channel_ok (q', s') \<and> iq_bytes q' = tl (iq_bytes q) \<and>
      ready_list s' = ready_list s @ (if not_full q = NO_THREAD then [] else [not_full q]))) \<and>
    (iq_bytes q = [] \<longrightarrow> length bs \<le> 63 \<longrightarrow>
      (\<exists>t u. put_bytes channel_put bs (q, s) = Some t \<and> get_bytes channel_get (length bs) t = Some (bs, u) \<and> channel_ok u))"
proof (intro conjI impI)
  assume "length (iq_bytes q) < 63"
  then show "\<exists>q' s'. intq_putc b q s = Some (Done (), q', s') \<and> channel_ok (q', s') \<and> iq_bytes q' = iq_bytes q @ [b] \<and>
      ready_list s' = ready_list s @ (if not_empty q = NO_THREAD then [] else [not_empty q])"
    by (intro putc_ok [OF assms]) (simp add: INTQ_BUFSIZE_def)
next
  assume "iq_bytes q \<noteq> []"
  then show "\<exists>q' s'. intq_getc q s = Some (Done (hd (iq_bytes q)), q', s') \<and> channel_ok (q', s') \<and> iq_bytes q' = tl (iq_bytes q) \<and>
      ready_list s' = ready_list s @ (if not_full q = NO_THREAD then [] else [not_full q])"
    by (intro getc_ok [OF assms]) simp
next
  assume "iq_bytes q = []" "length bs \<le> 63"
  then show "\<exists>t u. put_bytes channel_put bs (q, s) = Some t \<and> get_bytes channel_get (length bs) t = Some (bs, u) \<and> channel_ok u"
    using iq.transfer_ok [OF assms, of bs] by (auto simp: INTQ_BUFSIZE_def)
qed

theorem intq_channel_witness:
  "\<exists>q' s' t u. intq_putc 7 demo_intq demo_intq_sys = Some (Done (), q', s') \<and> ready_list s' = [8192, 12288, 20480] \<and> iq_bytes q' = [7] \<and>
     put_bytes channel_put [1, 2, 3] (demo_intq, demo_intq_sys) = Some t \<and> get_bytes channel_get 3 t = Some ([1, 2, 3], u)"
proof -
  have d: "not_empty demo_intq = 20480" "ready_list demo_intq_sys = [8192, 12288]" by (simp_all add: demo_intq_def demo_intq_sys_def demo_sys_def)
  obtain q' s' where p: "intq_putc 7 demo_intq demo_intq_sys = Some (Done (), q', s')" "iq_bytes q' = iq_bytes demo_intq @ [7]"
      "ready_list s' = ready_list demo_intq_sys @ (if not_empty demo_intq = NO_THREAD then [] else [not_empty demo_intq])"
    using intq_channel [OF demo_channel(1), of 7 "[]"] demo_channel(2) by auto
  obtain t u where t: "put_bytes channel_put [1, 2, 3] (demo_intq, demo_intq_sys) = Some t" "get_bytes channel_get (length [1, 2, 3 :: u8]) t = Some ([1, 2, 3], u)"
    using intq_channel [OF demo_channel(1), of 7 "[1, 2, 3]"] demo_channel(2) by (auto simp del: put_bytes.simps get_bytes.simps)
  have l: "length [1, 2, 3 :: u8] = 3" by simp
  have "ready_list s' = [8192, 12288, 20480]" "iq_bytes q' = [7]" using p(2,3) d demo_channel(2) by simp_all
  then show ?thesis using p(1) t(1) t(2) [unfolded l] by blast
qed

end
