(* ===== verification/Interrupts.thy ===== *)
theory Interrupts
  imports Synch Stdio
begin

text \<open>
  The interrupt system, \<^verbatim>\<open>threads/interrupt.c\<close>, on the thread state of \<open>Threads\<close>: the descriptor table, the registration of handlers, the interrupt
  controllers and the dispatch of an interrupt. The machine's ports are the list of the values written so far (port and value), and an
  arbitrary function that gives the value of the \<open>n\<close>-th read of a port. Handlers are named; the dispatcher is given the function that runs them.
  The addresses of the assembly stubs and of the table are arguments. \<open>dv_spins\<close> counts the passes of busy-waiting loops, for \<open>Timers\<close>.
\<close>

section \<open>The machine\<close>

datatype intr_handler_func = Timer_interrupt | Keyboard_interrupt | Serial_interrupt | Interrupt_handler | Syscall_handler | Page_fault | Kill

record intr_frame =
  f_edi :: u32
  f_esi :: u32
  f_ebp :: u32
  f_esp_dummy :: u32
  f_ebx :: u32
  f_edx :: u32
  f_ecx :: u32
  f_eax :: u32
  f_gs :: u16
  f_fs :: u16
  f_es :: u16
  f_ds :: u16
  f_vec_no :: u32
  f_error_code :: u32
  f_frame_pointer :: u32
  f_eip :: u32
  f_cs :: u16
  f_eflags :: u32
  f_esp :: u32
  f_ss :: u16

record machine =
  dv_sys :: ksys
  dv_out :: "(nat \<times> nat) list"
  dv_in :: "nat \<Rightarrow> nat \<Rightarrow> u8"
  dv_reads :: nat
  dv_con :: "u8 list"
  dv_ticks :: int
  dv_spins :: nat
  loops_per_tick :: u32
  idt :: "u64 list"
  idtr :: u64
  intr_handlers :: "intr_handler_func option list"
  intr_names :: "string list"
  unexpected_cnt :: "u32 list"

definition outb :: "nat \<Rightarrow> nat \<Rightarrow> 'a machine_scheme \<Rightarrow> 'a machine_scheme" where
  "outb port v d = d\<lparr>dv_out := dv_out d @ [(port, v mod 2 ^ 8)]\<rparr>"

definition outw :: "nat \<Rightarrow> nat \<Rightarrow> 'a machine_scheme \<Rightarrow> 'a machine_scheme" where
  "outw port v d = d\<lparr>dv_out := dv_out d @ [(port, v mod 2 ^ 16)]\<rparr>"

definition inb :: "nat \<Rightarrow> 'a machine_scheme \<Rightarrow> u8 \<times> 'a machine_scheme" where
  "inb port d = (dv_in d port (dv_reads d), d\<lparr>dv_reads := dv_reads d + 1\<rparr>)"

definition dv_disable :: "'a machine_scheme \<Rightarrow> bool \<times> 'a machine_scheme" where
  "dv_disable d = (intr_on (dv_sys d), d\<lparr>dv_sys := (dv_sys d)\<lparr>intr_on := False\<rparr>\<rparr>)"

definition dv_set_level :: "bool \<Rightarrow> 'a machine_scheme \<Rightarrow> 'a machine_scheme option" where
  "dv_set_level lvl d = do { (_, s) \<leftarrow> intr_set_level lvl (dv_sys d); Some (d\<lparr>dv_sys := s\<rparr>) }"

definition dv_printf :: "string \<Rightarrow> va_arg list \<Rightarrow> 'a machine_scheme \<Rightarrow> 'a machine_scheme option" where
  "dv_printf format args d = do { con \<leftarrow> printf format args (dv_con d); Some (d\<lparr>dv_con := con\<rparr>) }"

definition newline_char :: string where "newline_char = [CHR 0x0A]"

section \<open>Gates\<close>

definition SEL_KCSEG :: u32 where "SEL_KCSEG = 0x08"
definition INTR_CNT :: nat where "INTR_CNT = 256"

definition make_gate :: "u32 \<Rightarrow> int \<Rightarrow> int \<Rightarrow> u64 option" where
  "make_gate func dpl ty = do {
     ASSERT (func \<noteq> 0);
     ASSERT (0 \<le> dpl \<and> dpl \<le> 3);
     ASSERT (0 \<le> ty \<and> ty \<le> 15);
     let e0 = (func AND 0xffff) OR push_bit 16 SEL_KCSEG;
     let e1 = (func AND 0xffff0000) OR push_bit 15 1 OR push_bit 13 (word_of_int dpl) OR push_bit 12 0 OR push_bit 8 (word_of_int ty);
     Some (ucast e0 OR push_bit 32 (ucast e1)) }"

definition make_intr_gate :: "u32 \<Rightarrow> int \<Rightarrow> u64 option" where
  "make_intr_gate func dpl = make_gate func dpl 14"

definition make_trap_gate :: "u32 \<Rightarrow> int \<Rightarrow> u64 option" where
  "make_trap_gate func dpl = make_gate func dpl 15"

definition make_idtr_operand :: "u16 \<Rightarrow> u32 \<Rightarrow> u64" where
  "make_idtr_operand limit base = ucast limit OR push_bit 16 (ucast base)"

section \<open>Interrupt controllers\<close>

definition PIC0_CTRL :: nat where "PIC0_CTRL = 0x20"
definition PIC0_DATA :: nat where "PIC0_DATA = 0x21"
definition PIC1_CTRL :: nat where "PIC1_CTRL = 0xa0"
definition PIC1_DATA :: nat where "PIC1_DATA = 0xa1"

definition pic_init :: "'a machine_scheme \<Rightarrow> 'a machine_scheme" where
  "pic_init = fold (\<lambda>(port, v). outb port v)
     [(PIC0_DATA, 0xff), (PIC1_DATA, 0xff),
      (PIC0_CTRL, 0x11), (PIC0_DATA, 0x20), (PIC0_DATA, 0x04), (PIC0_DATA, 0x01),
      (PIC1_CTRL, 0x11), (PIC1_DATA, 0x28), (PIC1_DATA, 0x02), (PIC1_DATA, 0x01),
      (PIC0_DATA, 0x00), (PIC1_DATA, 0x00)]"

definition pic_end_of_interrupt :: "nat \<Rightarrow> 'a machine_scheme \<Rightarrow> 'a machine_scheme option" where
  "pic_end_of_interrupt irq d = do {
     ASSERT (0x20 \<le> irq \<and> irq < 0x30);
     let d = outb 0x20 0x20 d;
     Some (if 0x28 \<le> irq then outb 0xa0 0x20 d else d) }"

section \<open>Registration\<close>

text \<open>\<open>stubs\<close> has the addresses of the entry points in \<^verbatim>\<open>intr-stubs.S\<close>, \<open>table\<close> is the address of \<^verbatim>\<open>idt\<close>.\<close>

primrec gate_loop :: "(nat \<Rightarrow> u32) \<Rightarrow> nat \<Rightarrow> u64 list option" where
  "gate_loop stubs 0 = Some []"
| "gate_loop stubs (Suc n) = do { gs \<leftarrow> gate_loop stubs n; g \<leftarrow> make_intr_gate (stubs n) 0; Some (gs @ [g]) }"

definition exception_names :: "string list" where
  "exception_names =
     [''#DE Divide Error'', ''#DB Debug Exception'', ''NMI Interrupt'', ''#BP Breakpoint Exception'', ''#OF Overflow Exception'',
      ''#BR BOUND Range Exceeded Exception'', ''#UD Invalid Opcode Exception'', ''#NM Device Not Available Exception'',
      ''#DF Double Fault Exception'', ''Coprocessor Segment Overrun'', ''#TS Invalid TSS Exception'', ''#NP Segment Not Present'',
      ''#SS Stack Fault Exception'', ''#GP General Protection Exception'', ''#PF Page-Fault Exception'', ''unknown'',
      ''#MF x87 FPU Floating-Point Error'', ''#AC Alignment Check Exception'', ''#MC Machine-Check Exception'',
      ''#XF SIMD Floating-Point Exception'']"

definition intr_init :: "(nat \<Rightarrow> u32) \<Rightarrow> u32 \<Rightarrow> 'a machine_scheme \<Rightarrow> 'a machine_scheme option" where
  "intr_init stubs table d = do {
     let d = pic_init d;
     gs \<leftarrow> gate_loop stubs INTR_CNT;
     let d = d\<lparr>idt := gs, idtr := make_idtr_operand (of_nat (8 * INTR_CNT - 1)) table\<rparr>;
     Some (d\<lparr>intr_names := exception_names @ replicate (INTR_CNT - length exception_names) ''unknown''\<rparr>) }"

definition register_handler :: "(nat \<Rightarrow> u32) \<Rightarrow> u8 \<Rightarrow> int \<Rightarrow> bool \<Rightarrow> intr_handler_func \<Rightarrow> string \<Rightarrow> 'a machine_scheme \<Rightarrow> 'a machine_scheme option" where
  "register_handler stubs vec_no dpl level handler name d = do {
     h \<leftarrow> arr_get (intr_handlers d) (unat vec_no);
     ASSERT (h = None);
     g \<leftarrow> (if level then make_trap_gate (stubs (unat vec_no)) dpl else make_intr_gate (stubs (unat vec_no)) dpl);
     gs \<leftarrow> arr_set (idt d) (unat vec_no) g;
     hs \<leftarrow> arr_set (intr_handlers d) (unat vec_no) (Some handler);
     ns \<leftarrow> arr_set (intr_names d) (unat vec_no) name;
     Some (d\<lparr>idt := gs, intr_handlers := hs, intr_names := ns\<rparr>) }"

definition intr_register_ext :: "(nat \<Rightarrow> u32) \<Rightarrow> u8 \<Rightarrow> intr_handler_func \<Rightarrow> string \<Rightarrow> 'a machine_scheme \<Rightarrow> 'a machine_scheme option" where
  "intr_register_ext stubs vec_no handler name d = do {
     ASSERT (0x20 \<le> vec_no \<and> vec_no \<le> 0x2f);
     register_handler stubs vec_no 0 False handler name d }"

definition intr_register_int :: "(nat \<Rightarrow> u32) \<Rightarrow> u8 \<Rightarrow> int \<Rightarrow> bool \<Rightarrow> intr_handler_func \<Rightarrow> string \<Rightarrow> 'a machine_scheme \<Rightarrow> 'a machine_scheme option" where
  "intr_register_int stubs vec_no dpl level handler name d = do {
     ASSERT (vec_no < 0x20 \<or> 0x2f < vec_no);
     register_handler stubs vec_no dpl level handler name d }"

text \<open>The registrations of \<^verbatim>\<open>userprog/exception.c\<close> and \<^verbatim>\<open>userprog/syscall.c\<close>.\<close>

fun register_all :: "(nat \<Rightarrow> u32) \<Rightarrow> (u8 \<times> int \<times> bool \<times> intr_handler_func \<times> string) list \<Rightarrow> 'a machine_scheme \<Rightarrow> 'a machine_scheme option" where
  "register_all stubs [] d = Some d"
| "register_all stubs ((vec_no, dpl, level, handler, name) # rs) d = do {
     d \<leftarrow> intr_register_int stubs vec_no dpl level handler name d;
     register_all stubs rs d }"

definition exceptions :: "(u8 \<times> int \<times> bool \<times> intr_handler_func \<times> string) list" where
  "exceptions =
     [(3, 3, True, Kill, ''#BP Breakpoint Exception''), (4, 3, True, Kill, ''#OF Overflow Exception''),
      (5, 3, True, Kill, ''#BR BOUND Range Exceeded Exception''),
      (0, 0, True, Kill, ''#DE Divide Error''), (1, 0, True, Kill, ''#DB Debug Exception''), (6, 0, True, Kill, ''#UD Invalid Opcode Exception''),
      (7, 0, True, Kill, ''#NM Device Not Available Exception''), (11, 0, True, Kill, ''#NP Segment Not Present''),
      (12, 0, True, Kill, ''#SS Stack Fault Exception''), (13, 0, True, Kill, ''#GP General Protection Exception''),
      (16, 0, True, Kill, ''#MF x87 FPU Floating-Point Error''), (19, 0, True, Kill, ''#XF SIMD Floating-Point Exception''),
      (14, 0, False, Page_fault, ''#PF Page-Fault Exception'')]"

definition exception_init :: "(nat \<Rightarrow> u32) \<Rightarrow> 'a machine_scheme \<Rightarrow> 'a machine_scheme option" where
  "exception_init stubs = register_all stubs exceptions"

definition syscall_init :: "(nat \<Rightarrow> u32) \<Rightarrow> 'a machine_scheme \<Rightarrow> 'a machine_scheme option" where
  "syscall_init stubs = intr_register_int stubs 0x30 3 True Syscall_handler ''syscall''"

section \<open>Dispatch\<close>

definition intr_name :: "u8 \<Rightarrow> 'a machine_scheme \<Rightarrow> string option" where
  "intr_name vec d = arr_get (intr_names d) (unat vec)"

definition unexpected_interrupt :: "intr_frame \<Rightarrow> 'a machine_scheme \<Rightarrow> 'a machine_scheme option" where
  "unexpected_interrupt f d = do {
     c \<leftarrow> arr_get (unexpected_cnt d) (unat (f_vec_no f));
     let n = c + 1;
     cs \<leftarrow> arr_set (unexpected_cnt d) (unat (f_vec_no f)) n;
     let d = d\<lparr>unexpected_cnt := cs\<rparr>;
     if n AND (n - 1) = 0 then do {
       name \<leftarrow> arr_get (intr_names d) (unat (f_vec_no f));
       dv_printf (''Unexpected interrupt %#04x (%s)'' @ newline_char) [Int_arg (f_vec_no f), Str_arg (Some (bytes name))] d }
     else Some d }"

definition intr_handler :: "(intr_handler_func \<Rightarrow> intr_frame \<Rightarrow> 'a machine_scheme \<Rightarrow> 'a machine_scheme option) \<Rightarrow> intr_frame \<Rightarrow>
    'a machine_scheme \<Rightarrow> 'a machine_scheme option" where
  "intr_handler run frame d = do {
     let external = (0x20 \<le> f_vec_no frame \<and> f_vec_no frame < 0x30);
     d \<leftarrow> (if external then do {
          ASSERT (\<not> intr_on (dv_sys d));
          ASSERT (\<not> intr_context (dv_sys d));
          Some (d\<lparr>dv_sys := (dv_sys d)\<lparr>in_external_intr := True, yield_on_return := False\<rparr>\<rparr>) }
        else Some d);
     handler \<leftarrow> arr_get (intr_handlers d) (unat (f_vec_no frame));
     d \<leftarrow> (case handler of
          Some h \<Rightarrow> run h frame d
        | None \<Rightarrow>
            if f_vec_no frame = 0x27 \<or> f_vec_no frame = 0x2f then Some d else unexpected_interrupt frame d);
     if external then do {
       ASSERT (\<not> intr_on (dv_sys d));
       ASSERT (intr_context (dv_sys d));
       d \<leftarrow> pic_end_of_interrupt (unat (f_vec_no frame)) (d\<lparr>dv_sys := (dv_sys d)\<lparr>in_external_intr := False\<rparr>\<rparr>);
       if yield_on_return (dv_sys d) then do { (_, s) \<leftarrow> thread_yield (dv_sys d); Some (d\<lparr>dv_sys := s\<rparr>) } else Some d }
     else Some d }"

definition intr_dump_frame :: "u32 \<Rightarrow> intr_frame \<Rightarrow> 'a machine_scheme \<Rightarrow> 'a machine_scheme option" where
  "intr_dump_frame cr2 f d = do {
     name \<leftarrow> arr_get (intr_names d) (unat (f_vec_no f));
     d \<leftarrow> dv_printf (''Interrupt %#04x (%s) at eip=%p'' @ newline_char) [Int_arg (f_vec_no f), Str_arg (Some (bytes name)), Int_arg (f_eip f)] d;
     d \<leftarrow> dv_printf ('' cr2=%08x error=%08x'' @ newline_char) [Int_arg cr2, Int_arg (f_error_code f)] d;
     d \<leftarrow> dv_printf ('' eax=%08x ebx=%08x ecx=%08x edx=%08x'' @ newline_char) [Int_arg (f_eax f), Int_arg (f_ebx f), Int_arg (f_ecx f), Int_arg (f_edx f)] d;
     d \<leftarrow> dv_printf ('' esi=%08x edi=%08x esp=%08x ebp=%08x'' @ newline_char) [Int_arg (f_esi f), Int_arg (f_edi f), Int_arg (f_esp f), Int_arg (f_ebp f)] d;
     dv_printf ('' cs=%04hx ds=%04hx es=%04hx ss=%04hx'' @ newline_char)
       [Int_arg (ucast (f_cs f)), Int_arg (ucast (f_ds f)), Int_arg (ucast (f_es f)), Int_arg (ucast (f_ss f))] d }"

section \<open>What a gate says\<close>

definition gate_offset :: "u64 \<Rightarrow> u32" where
  "gate_offset g = (ucast g AND 0xffff) OR (ucast (drop_bit 32 g) AND 0xffff0000)"

definition gate_selector :: "u64 \<Rightarrow> u16" where "gate_selector g = ucast (drop_bit 16 g)"

definition gate_dpl :: "u64 \<Rightarrow> int" where "gate_dpl g = uint (drop_bit 45 g AND 3)"

definition gate_type :: "u64 \<Rightarrow> int" where "gate_type g = uint (drop_bit 40 g AND 15)"

definition gate_present :: "u64 \<Rightarrow> bool" where "gate_present g = bit g 47"

definition gate_ok :: "u64 \<Rightarrow> u32 \<Rightarrow> int \<Rightarrow> int \<Rightarrow> bool" where
  "gate_ok g func dpl ty \<longleftrightarrow> gate_offset g = func \<and> gate_selector g = ucast SEL_KCSEG \<and> gate_dpl g = dpl \<and> gate_type g = ty \<and> gate_present g"

lemma small_bits: "(w :: u32) < 2 ^ k \<Longrightarrow> bit w n \<Longrightarrow> n < k"
  by (metis bit_take_bit_iff less_mask_eq take_bit_eq_mask)

lemma two_words: "bit (ucast (e0 :: u32) OR push_bit 32 (ucast (e1 :: u32)) :: u64) n \<longleftrightarrow> (if n < 32 then bit e0 n else bit e1 (n - 32))"
  by (auto simp: bit_simps dest: bit_imp_le_length)

lemma low_half: "bit ((w :: u32) AND 0xffff) n \<longleftrightarrow> n < 16 \<and> bit w n"
proof -
  have m: "(0xffff :: u32) = mask 16" by (simp add: mask_eq_exp_minus_1)
  show ?thesis unfolding m bit_and_iff bit_mask_iff by (auto dest: bit_imp_le_length)
qed

lemma high_half: "bit ((w :: u32) AND 0xffff0000) n \<longleftrightarrow> 16 \<le> n \<and> bit w n"
proof -
  have m: "(0xffff0000 :: u32) = push_bit 16 (mask 16)" by (simp add: mask_eq_exp_minus_1)
  show ?thesis unfolding m bit_and_iff bit_push_bit_iff bit_mask_iff by (auto dest: bit_imp_le_length)
qed

lemma uint_wide: "uint (ucast (w :: u32) :: u64) = uint w"
  by (rule uint_up_ucast) (simp add: is_up)

lemma make_gate_fields:
  assumes "func \<noteq> 0" "0 \<le> dpl" "dpl \<le> 3" "0 \<le> ty" "ty \<le> 15"
  shows "\<exists>g. make_gate func dpl ty = Some g \<and> gate_ok g func dpl ty"
proof -
  let ?d = "word_of_int dpl :: u32" and ?t = "word_of_int ty :: u32"
  have d: "?d < 4" "uint ?d = dpl" and t: "?t < 16" "uint ?t = ty" using assms by (auto simp: word_less_alt take_bit_int_eq_self uint_word_of_int)
  have bd: "bit ?d n \<Longrightarrow> n < 2" for n using small_bits [of ?d 2 n] d(1) by simp
  have bt: "bit ?t n \<Longrightarrow> n < 4" for n using small_bits [of ?t 4 n] t(1) by simp
  obtain e0 e1 where e: "e0 = (func AND 0xffff) OR push_bit 16 SEL_KCSEG"
      "e1 = (func AND 0xffff0000) OR push_bit 15 1 OR push_bit 13 ?d OR push_bit 12 0 OR push_bit 8 ?t" by blast
  have e8: "(8 :: u32) = push_bit 3 1" by simp
  have s: "bit SEL_KCSEG n \<longleftrightarrow> n = 3" for n unfolding SEL_KCSEG_def e8 bit_push_bit_iff bit_1_iff by auto
  have b0: "bit e0 n \<longleftrightarrow> n < 16 \<and> bit func n \<or> n = 19" for n
    unfolding e bit_or_iff low_half bit_push_bit_iff s by auto
  have b1: "bit e1 n \<longleftrightarrow> 16 \<le> n \<and> bit func n \<or> n = 15 \<or> 13 \<le> n \<and> bit ?d (n - 13) \<or> 8 \<le> n \<and> bit ?t (n - 8)" for n
    unfolding e bit_or_iff high_half bit_push_bit_iff bit_1_iff by (auto dest: bit_imp_le_length bd bt)
  obtain gate where gate: "gate = (ucast e0 OR push_bit 32 (ucast e1) :: u64)" by blast
  have g: "bit gate n \<longleftrightarrow> (if n < 32 then n < 16 \<and> bit func n \<or> n = 19
      else 48 \<le> n \<and> bit func (n - 32) \<or> n = 47 \<or> 45 \<le> n \<and> bit ?d (n - 45) \<or> 40 \<le> n \<and> bit ?t (n - 40))" for n
    unfolding gate two_words b0 b1 by auto
  have m: "(15 :: u64) = mask 4" "(3 :: u64) = mask 2" by (simp_all add: mask_eq_exp_minus_1)
  have "gate_offset gate = func"
    by (rule bit_word_eqI) (auto simp: gate_offset_def bit_or_iff low_half high_half bit_ucast_iff bit_drop_bit_eq g dest: bd bt)
  moreover have "gate_selector gate = ucast SEL_KCSEG"
    by (rule bit_word_eqI) (auto simp: gate_selector_def bit_ucast_iff bit_drop_bit_eq g s)
  moreover have "drop_bit 45 gate AND 3 = ucast ?d"
    by (rule bit_word_eqI) (auto simp: m(2) bit_and_iff bit_mask_iff bit_ucast_iff bit_drop_bit_eq g dest: bd bt)
  then have "gate_dpl gate = dpl" using d(2) uint_wide [of ?d] by (simp add: gate_dpl_def)
  moreover have "drop_bit 40 gate AND 15 = ucast ?t"
    by (rule bit_word_eqI) (auto simp: m(1) bit_and_iff bit_mask_iff bit_ucast_iff bit_drop_bit_eq g dest: bd bt)
  then have "gate_type gate = ty" using t(2) uint_wide [of ?t] by (simp add: gate_type_def)
  moreover have "gate_present gate" by (simp add: gate_present_def g)
  ultimately have "gate_ok gate func dpl ty" by (simp add: gate_ok_def)
  then show ?thesis using assms e gate by (simp add: make_gate_def Let_def)
qed

section \<open>The table of vectors\<close>

text \<open>The privilege level, the type and the handler of each vector.\<close>

type_synonym vectors = "nat \<Rightarrow> int \<times> int \<times> intr_handler_func option"

definition vectors_are :: "(nat \<Rightarrow> u32) \<Rightarrow> vectors \<Rightarrow> 'a machine_scheme \<Rightarrow> bool" where
  "vectors_are stubs P d \<longleftrightarrow> length (idt d) = 256 \<and> length (intr_handlers d) = 256 \<and> length (intr_names d) = 256 \<and>
     (\<forall>v < 256. stubs v \<noteq> 0 \<and> gate_ok (idt d ! v) (stubs v) (fst (P v)) (fst (snd (P v))) \<and> intr_handlers d ! v = snd (snd (P v)))"

definition no_vectors :: vectors where "no_vectors v = (0, 14, None)"

lemma gate_loop_ok:
  assumes "\<forall>v < n. stubs v \<noteq> 0"
  shows "\<exists>gs. gate_loop stubs n = Some gs \<and> length gs = n \<and> (\<forall>v < n. gate_ok (gs ! v) (stubs v) 0 14)"
  using assms
proof (induction n)
  case (Suc n)
  then obtain gs where gs: "gate_loop stubs n = Some gs" "length gs = n" "\<forall>v < n. gate_ok (gs ! v) (stubs v) 0 14" by auto
  obtain g where "make_gate (stubs n) 0 14 = Some g" "gate_ok g (stubs n) 0 14" using make_gate_fields [of "stubs n" 0 14] Suc.prems by auto
  then show ?case using gs by (auto simp: make_intr_gate_def nth_append less_Suc_eq)
qed simp

lemma pic_init_tables: "intr_handlers (pic_init d) = intr_handlers d" "idt (pic_init d) = idt d" "dv_sys (pic_init d) = dv_sys d" "intr_names (pic_init d) = intr_names d"
  by (simp_all add: pic_init_def outb_def)

lemma intr_init_vectors:
  assumes "\<forall>v < 256. stubs v \<noteq> 0" and "intr_handlers d = replicate 256 None"
  shows "\<exists>d'. intr_init stubs table d = Some d' \<and> vectors_are stubs no_vectors d' \<and> dv_sys d' = dv_sys d"
proof -
  obtain gs where "gate_loop stubs 256 = Some gs" "length gs = 256" "\<forall>v < 256. gate_ok (gs ! v) (stubs v) 0 14" using gate_loop_ok [OF assms(1)] by blast
  then show ?thesis using assms
    by (simp add: intr_init_def INTR_CNT_def vectors_are_def no_vectors_def pic_init_tables exception_names_def)
qed

lemma register_handler_vectors:
  assumes v: "vectors_are stubs P d" and free: "snd (snd (P (unat vec))) = None" and dpl: "0 \<le> dpl" "dpl \<le> 3"
  shows "\<exists>d'. register_handler stubs vec dpl level h name d = Some d' \<and>
    vectors_are stubs (P(unat vec := (dpl, if level then 15 else 14, Some h))) d' \<and> dv_sys d' = dv_sys d"
proof -
  have i: "unat vec < 256" using unsigned_less [of vec, where ?'a = nat] by simp
  have st: "stubs (unat vec) \<noteq> 0" using v i by (simp add: vectors_are_def)
  obtain g where g: "make_gate (stubs (unat vec)) dpl (if level then 15 else 14) = Some g" "gate_ok g (stubs (unat vec)) dpl (if level then 15 else 14)"
    using make_gate_fields [OF st dpl, of "if level then 15 else 14"] by (cases level) auto
  then have "(if level then make_trap_gate (stubs (unat vec)) dpl else make_intr_gate (stubs (unat vec)) dpl) = Some g"
    by (simp add: make_trap_gate_def make_intr_gate_def split: if_splits)
  then show ?thesis using v free i g(2) by (auto simp: register_handler_def vectors_are_def nth_list_update)
qed

fun set_vector :: "u8 \<times> int \<times> bool \<times> intr_handler_func \<times> string \<Rightarrow> vectors \<Rightarrow> vectors" where
  "set_vector (vec_no, dpl, level, h, name) P = P(unat vec_no := (dpl, if level then 15 else 14, Some h))"

lemma register_all_vectors:
  assumes "vectors_are stubs P d" and "distinct (map (\<lambda>r. unat (fst r)) rs)"
    and "\<forall>(vec, dpl, level, h, name) \<in> set rs. snd (snd (P (unat vec))) = None \<and> 0 \<le> dpl \<and> dpl \<le> 3 \<and> (vec < 0x20 \<or> 0x2f < vec)"
  shows "\<exists>d'. register_all stubs rs d = Some d' \<and> dv_sys d' = dv_sys d \<and>
    vectors_are stubs (fold set_vector rs P) d'"
  using assms
proof (induction rs arbitrary: P d)
  case (Cons r rs)
  obtain vec dpl level h name where r: "r = (vec, dpl, level, h, name)" by (cases r)
  have free: "snd (snd (P (unat vec))) = None" "0 \<le> dpl" "dpl \<le> 3" "vec < 0x20 \<or> 0x2f < vec" using Cons.prems(3) r by auto
  obtain d1 where d1: "register_handler stubs vec dpl level h name d = Some d1" "vectors_are stubs (set_vector r P) d1" "dv_sys d1 = dv_sys d"
    using register_handler_vectors [OF Cons.prems(1) free(1-3), of level h name] r by auto
  have "\<forall>(vec, dpl, level, h, name) \<in> set rs. snd (snd (set_vector r P (unat vec))) = None \<and> 0 \<le> dpl \<and> dpl \<le> 3 \<and> (vec < 0x20 \<or> 0x2f < vec)"
    using Cons.prems(2,3) r by (fastforce simp: image_iff)
  then obtain d' where "register_all stubs rs d1 = Some d'" "dv_sys d' = dv_sys d1" "vectors_are stubs (fold set_vector rs (set_vector r P)) d'"
    using Cons.IH [OF d1(2)] Cons.prems(2) by auto
  then show ?case using d1 free(4) r by (simp add: intr_register_int_def)
qed simp

text \<open>What \<open>intr_init\<close>, \<open>exception_init\<close> and \<open>syscall_init\<close> leave in the descriptor table: every vector enters the kernel at its own stub; user code can
  raise the breakpoint, overflow, bounds and system-call vectors and no other; the page fault handler runs with interrupts off.\<close>

theorem user_vectors:
  assumes "\<forall>v < 256. stubs v \<noteq> 0" and "intr_handlers d = replicate 256 None"
  shows "\<exists>a b d'. intr_init stubs table d = Some a \<and> exception_init stubs a = Some b \<and> syscall_init stubs b = Some d' \<and>
    (\<forall>v. v < 256 \<longrightarrow> gate_present (idt d' ! v) \<and> gate_offset (idt d' ! v) = stubs v \<and> gate_dpl (idt d' ! v) = (if v \<in> {3, 4, 5, 0x30} then 3 else 0)) \<and>
    gate_type (idt d' ! 14) = 14 \<and> intr_handlers d' ! 14 = Some Page_fault \<and> intr_handlers d' ! 0x30 = Some Syscall_handler"
proof -
  obtain a where a: "intr_init stubs table d = Some a" "vectors_are stubs no_vectors a" using intr_init_vectors [OF assms] by blast
  let ?P = "fold set_vector exceptions no_vectors"
  obtain b where b: "exception_init stubs a = Some b" "vectors_are stubs ?P b"
    using register_all_vectors [OF a(2), of exceptions] by (auto simp: exception_init_def no_vectors_def exceptions_def)
  have P: "fst (?P v) = (if v \<in> {3, 4, 5} then 3 else 0)" "?P 14 = (0, 14, Some Page_fault)" "?P 0x30 = (0, 14, None)" for v
    by (simp_all add: exceptions_def no_vectors_def)
  obtain d' where d': "syscall_init stubs b = Some d'" "vectors_are stubs (?P(0x30 := (3, 15, Some Syscall_handler))) d'"
    using register_handler_vectors [OF b(2), of "0x30" 3 True Syscall_handler] P(3) by (auto simp: syscall_init_def intr_register_int_def)
  show ?thesis using a(1) b(1) P(1,2) d' by (auto simp: vectors_are_def gate_ok_def)
qed

definition demo_machine :: machine where
  "demo_machine = \<lparr>dv_sys = demo_sys, dv_out = [], dv_in = (\<lambda>p n. 0), dv_reads = 0, dv_con = [], dv_ticks = 0, dv_spins = 0, loops_per_tick = 0, idt = [], idtr = 0, intr_handlers = replicate 256 None,
     intr_names = [], unexpected_cnt = replicate 256 0\<rparr>"

definition demo_stubs :: "nat \<Rightarrow> u32" where "demo_stubs v = word_of_nat (0xc0020000 + 16 * v)"

lemma demo_stubs_nonzero: "v < 256 \<Longrightarrow> demo_stubs v \<noteq> 0"
  using dvd_imp_le [of "2 ^ 32" "0xc0020000 + 16 * v"] unfolding demo_stubs_def word_of_nat_eq_0_iff by auto

theorem user_vectors_witness:
  "\<exists>a b d'. intr_init demo_stubs 0xc0030000 demo_machine = Some a \<and> exception_init demo_stubs a = Some b \<and>
    syscall_init demo_stubs b = Some d' \<and> gate_dpl (idt d' ! 0x30) = 3 \<and> gate_dpl (idt d' ! 0x24) = 0"
proof -
  have "intr_handlers demo_machine = replicate 256 None" by (simp add: demo_machine_def)
  then obtain a b d' where r: "intr_init demo_stubs 0xc0030000 demo_machine = Some a" "exception_init demo_stubs a = Some b" "syscall_init demo_stubs b = Some d'"
      and g: "\<forall>v. v < 256 \<longrightarrow> gate_dpl (idt d' ! v) = (if v \<in> {3, 4, 5, 0x30} then 3 else 0)"
    using user_vectors [of demo_stubs demo_machine "0xc0030000"] demo_stubs_nonzero by blast
  show ?thesis using r g [rule_format, of "0x30"] g [rule_format, of "0x24"] by auto
qed

text \<open>An external interrupt with a registered handler runs that handler once, in interrupt context, and then acknowledges the interrupt on the controllers that
  delivered it; an external interrupt never nests.\<close>

theorem interrupt_dispatch:
  assumes v: "vectors_are stubs P d" "P (unat (f_vec_no f)) = (dpl, ty, Some h)" and ext: "0x20 \<le> f_vec_no f" "f_vec_no f < 0x30"
    and off: "\<not> intr_on (dv_sys d)" "\<not> in_external_intr (dv_sys d)"
    and run: "run h f (d\<lparr>dv_sys := (dv_sys d)\<lparr>in_external_intr := True, yield_on_return := False\<rparr>\<rparr>) = Some e"
    and kept: "\<not> intr_on (dv_sys e)" "in_external_intr (dv_sys e)" "\<not> yield_on_return (dv_sys e)"
  shows "(\<exists>d'. intr_handler run f d = Some d' \<and> dv_sys d' = (dv_sys e)\<lparr>in_external_intr := False\<rparr> \<and>
      dv_out d' = dv_out e @ (0x20, 0x20) # (if 0x28 \<le> f_vec_no f then [(0xa0, 0x20)] else [])) \<and>
    intr_handler run f (d\<lparr>dv_sys := (dv_sys d)\<lparr>in_external_intr := True\<rparr>\<rparr>) = None"
proof -
  have u: "0x20 \<le> unat (f_vec_no f)" "unat (f_vec_no f) < 0x30" "0x28 \<le> unat (f_vec_no f) \<longleftrightarrow> 0x28 \<le> f_vec_no f"
    using ext by (simp_all add: word_le_nat_alt word_less_nat_alt)
  have "arr_get (intr_handlers d) (unat (f_vec_no f)) = Some (Some h)" using v u(2) by (auto simp: vectors_are_def arr_get_def)
  then show ?thesis using u ext off run kept
    by (auto simp: intr_handler_def intr_context_def pic_end_of_interrupt_def outb_def Let_def)
qed

definition demo_frame :: "u32 \<Rightarrow> intr_frame" where
  "demo_frame vec = \<lparr>f_edi = 0, f_esi = 0, f_ebp = 0, f_esp_dummy = 0, f_ebx = 0, f_edx = 0, f_ecx = 0, f_eax = 0, f_gs = 0, f_fs = 0, f_es = 0, f_ds = 0,
     f_vec_no = vec, f_error_code = 0, f_frame_pointer = 0, f_eip = 0, f_cs = 8, f_eflags = 0, f_esp = 0, f_ss = 0\<rparr>"

theorem interrupt_dispatch_witness:
  "\<exists>a d d'. intr_init demo_stubs 0xc0030000 demo_machine = Some a \<and> intr_register_ext demo_stubs 0x2e Interrupt_handler ''ide1'' a = Some d \<and>
    intr_handler (\<lambda>h f d. Some (outb 0x3fd 7 d)) (demo_frame 0x2e) d = Some d' \<and> dv_out d' = dv_out d @ [(0x3fd, 7), (0x20, 0x20), (0xa0, 0x20)]"
proof -
  obtain a where a: "intr_init demo_stubs 0xc0030000 demo_machine = Some a" "vectors_are demo_stubs no_vectors a" "dv_sys a = demo_sys"
    using intr_init_vectors [of demo_stubs demo_machine "0xc0030000"] demo_stubs_nonzero by (auto simp: demo_machine_def)
  obtain d where d: "intr_register_ext demo_stubs 0x2e Interrupt_handler ''ide1'' a = Some d" "dv_sys d = demo_sys"
      "vectors_are demo_stubs (no_vectors(0x2e := (0, 14, Some Interrupt_handler))) d"
    using register_handler_vectors [OF a(2), of "0x2e" 0 False Interrupt_handler "''ide1''"] a(3) by (auto simp: intr_register_ext_def no_vectors_def)
  let ?r = "\<lambda>h f d. Some (outb 0x3fd 7 d)"
  have P: "(no_vectors(0x2e := (0, 14, Some Interrupt_handler))) (unat (f_vec_no (demo_frame 0x2e))) = (0, 14, Some Interrupt_handler)"
    by (simp add: demo_frame_def)
  have "\<exists>d'. intr_handler ?r (demo_frame 0x2e) d = Some d' \<and> dv_out d' = dv_out d @ [(0x3fd, 7), (0x20, 0x20), (0xa0, 0x20)]"
    using interrupt_dispatch [OF d(3) P, of ?r] d(2) by (fastforce simp: demo_frame_def demo_sys_def outb_def)
  then show ?thesis using a(1) d(1) by blast
qed

end
