(* ===== verification/Serial.thy ===== *)
theory Serial
  imports Intq Interrupts
begin

text \<open>
  The serial port, \<^verbatim>\<open>devices/serial.c\<close>, and the input buffer behind it and the keyboard, \<^verbatim>\<open>devices/input.c\<close>, on the
  machine of \<open>Interrupts\<close>.
\<close>

section \<open>Devices\<close>

datatype serial_mode = UNINIT | POLL | QUEUE

record devices = machine +
  dv_input :: intq
  dv_txq :: intq
  dv_mode :: serial_mode

definition IO_BASE :: nat where "IO_BASE = 0x3f8"
definition RBR_REG :: nat where "RBR_REG = IO_BASE + 0"
definition THR_REG :: nat where "THR_REG = IO_BASE + 0"
definition IER_REG :: nat where "IER_REG = IO_BASE + 1"
definition LS_REG :: nat where "LS_REG = IO_BASE + 0"
definition MS_REG :: nat where "MS_REG = IO_BASE + 1"
definition IIR_REG :: nat where "IIR_REG = IO_BASE + 2"
definition FCR_REG :: nat where "FCR_REG = IO_BASE + 2"
definition LCR_REG :: nat where "LCR_REG = IO_BASE + 3"
definition MCR_REG :: nat where "MCR_REG = IO_BASE + 4"
definition LSR_REG :: nat where "LSR_REG = IO_BASE + 5"
definition IER_RECV :: nat where "IER_RECV = 1"
definition IER_XMIT :: nat where "IER_XMIT = 2"
definition LCR_N81 :: nat where "LCR_N81 = 3"
definition LCR_DLAB :: nat where "LCR_DLAB = 0x80"
definition MCR_OUT2 :: nat where "MCR_OUT2 = 8"
definition LSR_DR :: u8 where "LSR_DR = 1"
definition LSR_THRE :: u8 where "LSR_THRE = 0x20"

text \<open>An operation of one of the two queues.\<close>

definition on_txq :: "(intq \<Rightarrow> ksys \<Rightarrow> ('a \<times> intq \<times> ksys) option) \<Rightarrow> 'x devices_scheme \<Rightarrow> ('a \<times> 'x devices_scheme) option" where
  "on_txq f d = do { (r, q, s) \<leftarrow> f (dv_txq d) (dv_sys d); Some (r, d\<lparr>dv_txq := q, dv_sys := s\<rparr>) }"

definition on_input :: "(intq \<Rightarrow> ksys \<Rightarrow> ('a \<times> intq \<times> ksys) option) \<Rightarrow> 'x devices_scheme \<Rightarrow> ('a \<times> 'x devices_scheme) option" where
  "on_input f d = do { (r, q, s) \<leftarrow> f (dv_input d) (dv_sys d); Some (r, d\<lparr>dv_input := q, dv_sys := s\<rparr>) }"

section \<open>The serial port\<close>

definition set_serial :: "nat \<Rightarrow> 'a devices_scheme \<Rightarrow> 'a devices_scheme option" where
  "set_serial bps d = do {
     let base_rate = 1843200 div 16;
     let divisor = (base_rate div bps) mod 2 ^ 16;
     ASSERT (300 \<le> bps \<and> bps \<le> 115200);
     Some (outb LCR_REG LCR_N81 (outb MS_REG (divisor div 2 ^ 8) (outb LS_REG (divisor mod 2 ^ 8) (outb LCR_REG (LCR_N81 OR LCR_DLAB) d)))) }"

text \<open>\<open>l\<close> is the name of the lock of the queue of bytes to be sent.\<close>

definition init_poll :: "nat \<Rightarrow> 'a devices_scheme \<Rightarrow> 'a devices_scheme option" where
  "init_poll l d = do {
     ASSERT (dv_mode d = UNINIT);
     d \<leftarrow> set_serial 9600 (outb FCR_REG 0 (outb IER_REG 0 d));
     let d = outb MCR_REG MCR_OUT2 d;
     let (q, s) = intq_init l (dv_txq d) (dv_sys d);
     Some (d\<lparr>dv_txq := q, dv_sys := s, dv_mode := POLL\<rparr>) }"

definition input_full :: "'a devices_scheme \<Rightarrow> bool option" where
  "input_full d = do { ASSERT (\<not> intr_on (dv_sys d)); intq_full (dv_input d) (dv_sys d) }"

definition write_ier :: "'a devices_scheme \<Rightarrow> 'a devices_scheme option" where
  "write_ier d = do {
     ASSERT (\<not> intr_on (dv_sys d));
     e \<leftarrow> intq_empty (dv_txq d) (dv_sys d);
     let ier = (if \<not> e then 0 OR IER_XMIT else 0);
     f \<leftarrow> input_full d;
     let ier = (if \<not> f then ier OR IER_RECV else ier);
     Some (outb IER_REG ier d) }"

definition serial_init_queue :: "(nat \<Rightarrow> u32) \<Rightarrow> nat \<Rightarrow> 'a devices_scheme \<Rightarrow> 'a devices_scheme option" where
  "serial_init_queue stubs l d = do {
     d \<leftarrow> (if dv_mode d = UNINIT then init_poll l d else Some d);
     ASSERT (dv_mode d = POLL);
     d \<leftarrow> intr_register_ext stubs (0x20 + 4) Serial_interrupt ''serial'' d;
     let (old_level, d) = dv_disable (d\<lparr>dv_mode := QUEUE\<rparr>);
     d \<leftarrow> write_ier d;
     dv_set_level old_level d }"

partial_function (option) poll_loop :: "'a devices_scheme \<Rightarrow> 'a devices_scheme option" where
  "poll_loop d = (let (v, d) = inb LSR_REG d in if v AND LSR_THRE = 0 then poll_loop d else Some d)"

definition putc_poll :: "u8 \<Rightarrow> 'a devices_scheme \<Rightarrow> 'a devices_scheme option" where
  "putc_poll byte d = do {
     ASSERT (\<not> intr_on (dv_sys d));
     d \<leftarrow> poll_loop d;
     Some (outb THR_REG (unat byte) d) }"

text \<open>Take a byte from the queue and send it; the queue is not empty where this is called.\<close>

definition send_queued :: "'a devices_scheme \<Rightarrow> 'a devices_scheme option" where
  "send_queued d = do {
     (r, d) \<leftarrow> on_txq intq_getc d;
     case r of Done b \<Rightarrow> putc_poll b d | _ \<Rightarrow> None }"

definition serial_putc_end :: "unit io_result \<Rightarrow> bool \<Rightarrow> 'a devices_scheme \<Rightarrow> (unit io_result \<times> bool \<times> 'a devices_scheme) option" where
  "serial_putc_end r old_level d =
     (case r of
        Done u \<Rightarrow> do { d \<leftarrow> write_ier d; d \<leftarrow> dv_set_level old_level d; Some (Done (), old_level, d) }
      | _ \<Rightarrow> Some (r, old_level, d))"

text \<open>The result has the saved interrupt level, with which a call that sleeps goes on in \<open>serial_putc_resume\<close>.\<close>

definition serial_putc :: "nat \<Rightarrow> u8 \<Rightarrow> 'a devices_scheme \<Rightarrow> (unit io_result \<times> bool \<times> 'a devices_scheme) option" where
  "serial_putc l byte d = do {
     let (old_level, d) = dv_disable d;
     if dv_mode d \<noteq> QUEUE then do {
       d \<leftarrow> (if dv_mode d = UNINIT then init_poll l d else Some d);
       d \<leftarrow> putc_poll byte d;
       d \<leftarrow> dv_set_level old_level d;
       Some (Done (), old_level, d) }
     else do {
       f \<leftarrow> (if \<not> old_level then intq_full (dv_txq d) (dv_sys d) else Some False);
       d \<leftarrow> (if f then send_queued d else Some d);
       (r, d) \<leftarrow> on_txq (intq_putc byte) d;
       serial_putc_end r old_level d } }"

definition serial_putc_resume :: "u8 \<Rightarrow> bool \<Rightarrow> 'a devices_scheme \<Rightarrow> (unit io_result \<times> bool \<times> 'a devices_scheme) option" where
  "serial_putc_resume byte old_level d = do {
     (r, d) \<leftarrow> on_txq (intq_putc_resume byte) d;
     serial_putc_end r old_level d }"

partial_function (option) flush_loop :: "'a devices_scheme \<Rightarrow> 'a devices_scheme option" where
  "flush_loop d = do {
     e \<leftarrow> intq_empty (dv_txq d) (dv_sys d);
     if e then Some d else do { d \<leftarrow> send_queued d; flush_loop d } }"

definition serial_flush :: "'a devices_scheme \<Rightarrow> 'a devices_scheme option" where
  "serial_flush d = do {
     let (old_level, d) = dv_disable d;
     d \<leftarrow> flush_loop d;
     dv_set_level old_level d }"

definition serial_notify :: "'a devices_scheme \<Rightarrow> 'a devices_scheme option" where
  "serial_notify d = do { ASSERT (\<not> intr_on (dv_sys d)); if dv_mode d = QUEUE then write_ier d else Some d }"

section \<open>The input buffer\<close>

definition input_init :: "nat \<Rightarrow> 'a devices_scheme \<Rightarrow> 'a devices_scheme" where
  "input_init l d = (let (q, s) = intq_init l (dv_input d) (dv_sys d) in d\<lparr>dv_input := q, dv_sys := s\<rparr>)"

definition input_putc :: "u8 \<Rightarrow> 'a devices_scheme \<Rightarrow> 'a devices_scheme option" where
  "input_putc key d = do {
     ASSERT (\<not> intr_on (dv_sys d));
     f \<leftarrow> intq_full (dv_input d) (dv_sys d);
     ASSERT (\<not> f);
     (r, d) \<leftarrow> on_input (intq_putc key) d;
     case r of Done u \<Rightarrow> serial_notify d | _ \<Rightarrow> None }"

definition input_getc_end :: "u8 io_result \<Rightarrow> bool \<Rightarrow> 'a devices_scheme \<Rightarrow> (u8 io_result \<times> bool \<times> 'a devices_scheme) option" where
  "input_getc_end r old_level d =
     (case r of
        Done key \<Rightarrow> do { d \<leftarrow> serial_notify d; d \<leftarrow> dv_set_level old_level d; Some (r, old_level, d) }
      | _ \<Rightarrow> Some (r, old_level, d))"

definition input_getc :: "'a devices_scheme \<Rightarrow> (u8 io_result \<times> bool \<times> 'a devices_scheme) option" where
  "input_getc d = do {
     let (old_level, d) = dv_disable d;
     (r, d) \<leftarrow> on_input intq_getc d;
     input_getc_end r old_level d }"

definition input_getc_resume :: "bool \<Rightarrow> 'a devices_scheme \<Rightarrow> (u8 io_result \<times> bool \<times> 'a devices_scheme) option" where
  "input_getc_resume old_level d = do {
     (r, d) \<leftarrow> on_input intq_getc_resume d;
     input_getc_end r old_level d }"

section \<open>The interrupt handler\<close>

partial_function (option) receive_loop :: "'a devices_scheme \<Rightarrow> 'a devices_scheme option" where
  "receive_loop d = do {
     f \<leftarrow> input_full d;
     if f then Some d
     else do {
       let (v, d) = inb LSR_REG d;
       if v AND LSR_DR = 0 then Some d
       else do {
         let (key, d) = inb RBR_REG d;
         d \<leftarrow> input_putc key d;
         receive_loop d } } }"

partial_function (option) transmit_loop :: "'a devices_scheme \<Rightarrow> 'a devices_scheme option" where
  "transmit_loop d = do {
     e \<leftarrow> intq_empty (dv_txq d) (dv_sys d);
     if e then Some d
     else do {
       let (v, d) = inb LSR_REG d;
       if v AND LSR_THRE = 0 then Some d
       else do {
         (r, d) \<leftarrow> on_txq intq_getc d;
         case r of Done b \<Rightarrow> transmit_loop (outb THR_REG (unat b) d) | _ \<Rightarrow> None } } }"

definition serial_interrupt :: "'a devices_scheme \<Rightarrow> 'a devices_scheme option" where
  "serial_interrupt d = do {
     let (_, d) = inb IIR_REG d;
     d \<leftarrow> receive_loop d;
     d \<leftarrow> transmit_loop d;
     write_ier d }"

section \<open>The stream of bytes that are sent\<close>

lemma set_waiting_bytes [simp]: "iq_bytes (set_waiting w t q) = iq_bytes q" "intq_ok (set_waiting w t q) = intq_ok q"
  by (cases w; simp add: set_waiting_def iq_bytes_def iq_count_def intq_ok_def)+

lemma outcome_case_Some: "(case r of Switched lvl \<Rightarrow> f lvl | Returned \<Rightarrow> y) = Some z \<longleftrightarrow> (\<exists>lvl. r = Switched lvl \<and> f lvl = Some z) \<or> r = Returned \<and> y = Some z"
  by (cases r) simp_all

lemma io_done_Some: "(case r of Done x \<Rightarrow> f x | Sleeps_lock lvl \<Rightarrow> None | Sleeps \<Rightarrow> None) = Some z \<longleftrightarrow> (\<exists>x. r = Done x \<and> f x = Some z)"
  by (cases r) simp_all

lemma signal_result: "signal w q s = Some (q', s') \<Longrightarrow> iq_bytes q' = iq_bytes q \<and> intq_ok q' = intq_ok q"
  by (auto simp: signal_def bind_eq_Some_iff split: if_splits)

lemma wait_result: "wait w q s = Some (q', s') \<Longrightarrow> iq_bytes q' = iq_bytes q \<and> intq_ok q' = intq_ok q"
  by (auto simp: wait_def bind_eq_Some_iff split: if_splits)

lemma intq_wait_result: "intq_wait w q s = Some (r, q', s') \<Longrightarrow> iq_bytes q' = iq_bytes q \<and> intq_ok q' = intq_ok q \<and> (\<forall>x. r \<noteq> Done x)"
  by (auto simp: intq_wait_def bind_eq_Some_iff outcome_case_Some split: if_splits dest!: wait_result)

lemma getc_result:
  assumes "intq_getc q s = Some (r, q', s')" and q: "intq_ok q"
  shows "intq_ok q' \<and> (case r of Done b \<Rightarrow> iq_bytes q = b # iq_bytes q' | _ \<Rightarrow> iq_bytes q' = iq_bytes q)"
proof (cases "iq_head q = iq_tail q")
  case True
  then have "intq_wait Not_empty q s = Some (r, q', s')" using assms(1) by (simp add: intq_getc_def intq_empty_def split: if_splits)
  then show ?thesis using intq_wait_result q by (cases r) fastforce+
next
  case False
  then obtain b where b: "arr_get (iq_buf q) (iq_tail q) = Some b" "signal Not_full (q\<lparr>iq_tail := next_pos (iq_tail q)\<rparr>) s = Some (q', s')" "r = Done b"
    using assms(1) by (auto simp: intq_getc_def intq_empty_def bind_eq_Some_iff split: if_splits)
  then show ?thesis using signal_result [OF b(2)] iq_pop [OF q False] by (simp add: arr_get_Some_iff)
qed

lemma putc_result:
  assumes "intq_putc v q s = Some (r, q', s')" and q: "intq_ok q"
  shows "intq_ok q' \<and> iq_bytes q' = iq_bytes q @ (case r of Done u \<Rightarrow> [v] | _ \<Rightarrow> [])"
proof (cases "next_pos (iq_head q) = iq_tail q")
  case True
  then have "intq_wait Not_full q s = Some (r, q', s')" using assms(1) by (simp add: intq_putc_def intq_full_def split: if_splits)
  then show ?thesis using intq_wait_result q by (cases r) fastforce+
next
  case False
  then obtain buf where b: "arr_set (iq_buf q) (iq_head q) v = Some buf" "signal Not_empty (q\<lparr>iq_buf := buf, iq_head := next_pos (iq_head q)\<rparr>) s = Some (q', s')" "r = Done ()"
    using assms(1) by (auto simp: intq_putc_def intq_full_def bind_eq_Some_iff split: if_splits)
  then have "buf = (iq_buf q)[iq_head q := v]" by (simp add: arr_set_Some_iff)
  then show ?thesis using signal_result [OF b(2)] iq_push [OF q False, of v] b(3) by simp
qed

lemma resume_result:
  "intq_putc_resume v q s = Some (r, q', s') \<Longrightarrow> intq_ok q \<Longrightarrow> intq_ok q' \<and> iq_bytes q' = iq_bytes q @ (case r of Done u \<Rightarrow> [v] | _ \<Rightarrow> [])"
  by (auto simp: intq_putc_resume_def bind_eq_Some_iff dest: putc_result)

lemma byte_mod [simp]: "unat (b :: u8) mod 256 = unat b"
  using unsigned_less [of b, where ?'a = nat] by simp

definition sent :: "'a devices_scheme \<Rightarrow> nat list" where
  "sent d = map snd (filter (\<lambda>(p, v). p = THR_REG) (dv_out d))"

definition serial_stream :: "'a devices_scheme \<Rightarrow> nat list" where
  "serial_stream d = sent d @ map unat (iq_bytes (dv_txq d))"

text \<open>Steps that do not touch what is sent.\<close>

definition quiet_step :: "'a devices_scheme \<Rightarrow> 'a devices_scheme \<Rightarrow> bool" where
  "quiet_step d d' \<longleftrightarrow> sent d' = sent d \<and> dv_txq d' = dv_txq d \<and> dv_mode d' = dv_mode d"

lemma quiet_refl [simp]: "quiet_step d d" by (simp add: quiet_step_def)

lemma quiet_trans: "quiet_step d d' \<Longrightarrow> quiet_step d' d'' \<Longrightarrow> quiet_step d d''" by (simp add: quiet_step_def)

lemma quiet_in [simp]: "quiet_step d (snd (inb p d))" by (simp add: quiet_step_def inb_def sent_def)

lemma quiet_disable [simp]: "quiet_step d (snd (dv_disable d))" by (simp add: quiet_step_def dv_disable_def sent_def)

lemma quiet_level: "dv_set_level l d = Some d' \<Longrightarrow> quiet_step d d'"
  by (auto simp: quiet_step_def dv_set_level_def sent_def bind_eq_Some_iff)

lemma quiet_ier: "write_ier d = Some d' \<Longrightarrow> quiet_step d d'"
  by (auto simp: quiet_step_def write_ier_def outb_def sent_def bind_eq_Some_iff IER_REG_def THR_REG_def Let_def split: if_splits)

lemma quiet_notify: "serial_notify d = Some d' \<Longrightarrow> quiet_step d d'"
  by (auto simp: serial_notify_def split: if_splits dest: quiet_ier)

lemma quiet_input_putc: "input_putc key d = Some d' \<Longrightarrow> quiet_step d d'"
  by (auto simp: input_putc_def on_input_def bind_eq_Some_iff io_done_Some split: if_splits dest!: quiet_notify) (auto simp: quiet_step_def sent_def)

lemma quiet_stream: "quiet_step d d' \<Longrightarrow> serial_stream d' = serial_stream d"
  by (simp add: quiet_step_def serial_stream_def)

lemma quiet_poll:
  assumes "poll_loop d = Some d'"
  shows "quiet_step d d'"
  using assms
proof (induction rule: poll_loop.raw_induct [rotated, consumes 1, case_names step])
  case (step poll_loop d d')
  then show ?case by (auto simp: Let_def split_beta intro: quiet_trans [OF quiet_in] split: if_splits)
qed

lemma putc_poll_sends: "putc_poll b d = Some d' \<Longrightarrow> sent d' = sent d @ [unat b] \<and> dv_txq d' = dv_txq d \<and> dv_mode d' = dv_mode d"
  by (auto simp: putc_poll_def bind_eq_Some_iff outb_def sent_def quiet_step_def dest!: quiet_poll split: if_splits)

lemma send_queued_sends:
  assumes "send_queued d = Some d'" and "intq_ok (dv_txq d)"
  shows "serial_stream d' = serial_stream d \<and> intq_ok (dv_txq d') \<and> dv_mode d' = dv_mode d"
proof -
  obtain b q s where b: "intq_getc (dv_txq d) (dv_sys d) = Some (Done b, q, s)" "putc_poll b (d\<lparr>dv_txq := q, dv_sys := s\<rparr>) = Some d'"
    using assms(1) by (auto simp: send_queued_def on_txq_def bind_eq_Some_iff io_done_Some)
  show ?thesis using getc_result [OF b(1) assms(2)] putc_poll_sends [OF b(2)] by (simp add: serial_stream_def sent_def)
qed

lemma flush_sends:
  assumes "flush_loop d = Some d'" and "intq_ok (dv_txq d)"
  shows "serial_stream d' = serial_stream d \<and> iq_bytes (dv_txq d') = [] \<and> dv_mode d' = dv_mode d"
  using assms
proof (induction rule: flush_loop.raw_induct [rotated, consumes 1, case_names step])
  case (step flush_loop d d')
  then obtain e where e: "intq_empty (dv_txq d) (dv_sys d) = Some e" by (auto simp: bind_eq_Some_iff)
  show ?case
  proof (cases e)
    case True
    then show ?thesis using step e iq_empty_iff [of "dv_txq d"] by (auto simp: intq_empty_def split: if_splits)
  next
    case False
    then obtain d1 where "send_queued d = Some d1" "flush_loop d1 = Some d'" using step e by (auto simp: bind_eq_Some_iff)
    then show ?thesis using step send_queued_sends by metis
  qed
qed

lemma receive_quiet:
  assumes "receive_loop d = Some d'"
  shows "quiet_step d d'"
  using assms
proof (induction rule: receive_loop.raw_induct [rotated, consumes 1, case_names step])
  case (step receive_loop d d')
  then show ?case
    by (auto simp: Let_def split_beta bind_eq_Some_iff intro: quiet_trans [OF quiet_in] quiet_trans [OF quiet_trans [OF quiet_in quiet_trans [OF quiet_in quiet_input_putc]]]
        split: if_splits)
qed

lemma transmit_sends:
  assumes "transmit_loop d = Some d'" and "intq_ok (dv_txq d)"
  shows "serial_stream d' = serial_stream d \<and> intq_ok (dv_txq d') \<and> dv_mode d' = dv_mode d"
  using assms
proof (induction rule: transmit_loop.raw_induct [rotated, consumes 1, case_names step])
  case (step transmit_loop d d')
  let ?d = "snd (inb LSR_REG d)"
  have q: "serial_stream ?d = serial_stream d" "dv_txq ?d = dv_txq d" "dv_mode ?d = dv_mode d" "dv_sys ?d = dv_sys d"
    using quiet_in [of d LSR_REG] quiet_stream [of d ?d] by (simp_all add: quiet_step_def inb_def)
  obtain e where e: "intq_empty (dv_txq d) (dv_sys d) = Some e" using step by (auto simp: bind_eq_Some_iff)
  show ?case
  proof (cases "e \<or> fst (inb LSR_REG d) AND LSR_THRE = 0")
    case True
    then have "d' = d \<or> d' = ?d" using step e by (auto simp: Let_def split_beta split: if_splits)
    then show ?thesis using step(3) q by auto
  next
    case False
    then obtain b qq ss where b: "intq_getc (dv_txq d) (dv_sys d) = Some (Done b, qq, ss)" "transmit_loop (outb THR_REG (unat b) (?d\<lparr>dv_txq := qq, dv_sys := ss\<rparr>)) = Some d'"
      using step e q by (auto simp: Let_def split_beta on_txq_def bind_eq_Some_iff io_done_Some split: if_splits)
    let ?e = "outb THR_REG (unat b) (?d\<lparr>dv_txq := qq, dv_sys := ss\<rparr>)"
    note g = getc_result [OF b(1) step(3)]
    have "serial_stream ?e = serial_stream d" "intq_ok (dv_txq ?e)" "dv_mode ?e = dv_mode d"
      using g q by (simp_all add: serial_stream_def outb_def sent_def inb_def)
    then show ?thesis using step(1) [OF b(2)] by simp
  qed
qed

text \<open>In queue mode a byte given to \<open>serial_putc\<close> goes to the end of the stream (the bytes that have been sent, then those that are waiting in the queue), exactly
  once, whether interrupts are on or off and whether or not it had to make room by polling; a call that sleeps has not changed the stream.\<close>

theorem serial_putc_appends:
  assumes "serial_putc l byte d = Some (r, lvl, d')" and m: "dv_mode d = QUEUE" and q: "intq_ok (dv_txq d)"
  shows "serial_stream d' = serial_stream d @ (case r of Done u \<Rightarrow> [unat byte] | _ \<Rightarrow> []) \<and> intq_ok (dv_txq d') \<and> dv_mode d' = QUEUE"
proof -
  let ?d = "snd (dv_disable d)"
  have d: "serial_stream ?d = serial_stream d" "intq_ok (dv_txq ?d)" "dv_mode ?d = QUEUE"
    using quiet_stream [OF quiet_disable] quiet_disable [of d] m q by (simp_all add: quiet_step_def)
  obtain d1 qq ss r1 where d1: "d1 = ?d \<or> send_queued ?d = Some d1" "intq_putc byte (dv_txq d1) (dv_sys d1) = Some (r1, qq, ss)"
    and e: "serial_putc_end r1 (fst (dv_disable d)) (d1\<lparr>dv_txq := qq, dv_sys := ss\<rparr>) = Some (r, lvl, d')"
    using assms(1) d(3) by (fastforce simp: serial_putc_def Let_def split_beta on_txq_def bind_eq_Some_iff split: if_splits)
  have s: "serial_stream d1 = serial_stream d" "intq_ok (dv_txq d1)" "dv_mode d1 = QUEUE"
    using d1(1) d send_queued_sends [OF _ d(2), of d1] by auto
  note p = putc_result [OF d1(2) s(2)]
  show ?thesis
  proof (cases r1)
    case (Done u)
    then obtain d2 where w: "write_ier (d1\<lparr>dv_txq := qq, dv_sys := ss\<rparr>) = Some d2" "dv_set_level (fst (dv_disable d)) d2 = Some d'" "r = Done ()"
      using e by (auto simp: serial_putc_end_def bind_eq_Some_iff)
    have "quiet_step (d1\<lparr>dv_txq := qq, dv_sys := ss\<rparr>) d'" by (rule quiet_trans [OF quiet_ier [OF w(1)] quiet_level [OF w(2)]])
    then show ?thesis using Done p s w(3) by (simp add: quiet_step_def serial_stream_def sent_def)
  next
    case (Sleeps_lock x)
    then show ?thesis using e p s by (auto simp: serial_putc_end_def serial_stream_def sent_def)
  next
    case Sleeps
    then show ?thesis using e p s by (auto simp: serial_putc_end_def serial_stream_def sent_def)
  qed
qed

text \<open>The handler and \<open>serial_flush\<close> move bytes from the queue to the port and change nothing of the stream; after a flush nothing waits.\<close>

theorem serial_interrupt_keeps_stream:
  assumes "serial_interrupt d = Some d'" and q: "intq_ok (dv_txq d)"
  shows "serial_stream d' = serial_stream d \<and> intq_ok (dv_txq d') \<and> dv_mode d' = dv_mode d"
proof -
  let ?d = "snd (inb IIR_REG d)"
  obtain d1 d2 where r: "receive_loop ?d = Some d1" "transmit_loop d1 = Some d2" "write_ier d2 = Some d'"
    using assms(1) by (auto simp: serial_interrupt_def Let_def split_beta bind_eq_Some_iff)
  have a: "quiet_step d d1" by (rule quiet_trans [OF quiet_in receive_quiet [OF r(1)]])
  then have "intq_ok (dv_txq d1)" using q by (simp add: quiet_step_def)
  note t = transmit_sends [OF r(2) this] and b = quiet_ier [OF r(3)]
  show ?thesis using t b quiet_stream [OF a] quiet_stream [OF b] a by (simp add: quiet_step_def)
qed

theorem serial_flush_sends_all:
  assumes "serial_flush d = Some d'" and q: "intq_ok (dv_txq d)"
  shows "sent d' = serial_stream d \<and> iq_bytes (dv_txq d') = []"
proof -
  let ?d = "snd (dv_disable d)"
  obtain d1 where r: "flush_loop ?d = Some d1" "dv_set_level (fst (dv_disable d)) d1 = Some d'"
    using assms(1) by (auto simp: serial_flush_def Let_def split_beta bind_eq_Some_iff)
  have "intq_ok (dv_txq ?d)" using quiet_disable [of d] q by (simp add: quiet_step_def)
  note f = flush_sends [OF r(1) this]
  show ?thesis using f quiet_level [OF r(2)] quiet_stream [OF quiet_disable [of d]] by (auto simp: quiet_step_def serial_stream_def)
qed

text \<open>Polling ends when the port becomes ready.\<close>

lemma poll_loop_ready:
  assumes "dv_in d LSR_REG (dv_reads d + n) AND LSR_THRE \<noteq> 0"
  shows "\<exists>k. poll_loop d = Some (d\<lparr>dv_reads := k\<rparr>)"
  using assms
proof (induction n arbitrary: d)
  case 0
  then show ?case by (subst poll_loop.simps) (auto simp: inb_def Let_def)
next
  case (Suc n)
  then obtain k where "poll_loop (d\<lparr>dv_reads := dv_reads d + 1\<rparr>) = Some (d\<lparr>dv_reads := k\<rparr>)" using Suc.IH [of "d\<lparr>dv_reads := dv_reads d + 1\<rparr>"] by auto
  then show ?case by (subst poll_loop.simps) (auto simp: inb_def Let_def)
qed

lemma write_ier_ok: "\<not> intr_on (dv_sys d) \<Longrightarrow> \<exists>v. write_ier d = Some (outb IER_REG v d)"
  by (auto simp: write_ier_def intq_empty_def input_full_def intq_full_def Let_def)

lemma send_queued_ready:
  assumes ch: "channel_ok (dv_txq d, dv_sys d)" and b: "iq_bytes (dv_txq d) = b # bs"
    and ready: "dv_in d LSR_REG (dv_reads d + n) AND LSR_THRE \<noteq> 0"
  shows "\<exists>d'. send_queued d = Some d' \<and> channel_ok (dv_txq d', dv_sys d') \<and> iq_bytes (dv_txq d') = bs"
proof -
  obtain q s where g: "intq_getc (dv_txq d) (dv_sys d) = Some (Done b, q, s)" "channel_ok (q, s)" "iq_bytes q = bs" using getc_ok [OF ch b] by auto
  have off: "\<not> intr_on s" using g(2) by (simp add: channel_ok_def)
  obtain k where "poll_loop (d\<lparr>dv_txq := q, dv_sys := s\<rparr>) = Some (d\<lparr>dv_txq := q, dv_sys := s, dv_reads := k\<rparr>)"
    using poll_loop_ready [of "d\<lparr>dv_txq := q, dv_sys := s\<rparr>" n] ready by auto
  then show ?thesis using g off by (simp add: send_queued_def on_txq_def putc_poll_def outb_def)
qed

text \<open>C12: with interrupts off and the port in queue mode, \<open>serial_putc\<close> never sleeps: if the queue is full it sends the oldest byte by polling, which ends
  as soon as the port is ready, and it returns with the byte at the end of the stream, sent or queued, exactly once and in order, and with
  interrupts still off.\<close>

theorem serial_putc_interrupts_off:
  assumes ch: "channel_ok (dv_txq d, dv_sys d)" and m: "dv_mode d = QUEUE"
    and ready: "dv_in d LSR_REG (dv_reads d + n) AND LSR_THRE \<noteq> 0"
  shows "\<exists>d'. serial_putc l byte d = Some (Done (), False, d') \<and> serial_stream d' = serial_stream d @ [unat byte] \<and>
    channel_ok (dv_txq d', dv_sys d') \<and> dv_mode d' = QUEUE"
proof -
  have off: "\<not> intr_on (dv_sys d)" and q: "intq_ok (dv_txq d)" using ch by (simp_all add: channel_ok_def)
  have dis: "dv_disable d = (False, d)" using off by (simp add: dv_disable_def)
  have full: "intq_full (dv_txq d) (dv_sys d) = Some (length (iq_bytes (dv_txq d)) = INTQ_BUFSIZE - 1)" using off iq_full_iff [OF q] by (simp add: intq_full_def)
  obtain d1 where d1: "(if length (iq_bytes (dv_txq d)) = INTQ_BUFSIZE - 1 then send_queued d else Some d) = Some d1" "channel_ok (dv_txq d1, dv_sys d1)"
      "length (iq_bytes (dv_txq d1)) < INTQ_BUFSIZE - 1"
  proof (cases "length (iq_bytes (dv_txq d)) = INTQ_BUFSIZE - 1")
    case True
    then obtain b bs where "iq_bytes (dv_txq d) = b # bs" by (cases "iq_bytes (dv_txq d)") (simp_all add: INTQ_BUFSIZE_def)
    then show ?thesis using send_queued_ready [OF ch _ ready] True that by fastforce
  next
    case False
    then show ?thesis using iq_length [OF q] ch that by simp
  qed
  obtain qq ss where p: "intq_putc byte (dv_txq d1) (dv_sys d1) = Some (Done (), qq, ss)" "channel_ok (qq, ss)" using putc_ok [OF d1(2,3)] by blast
  have so: "\<not> intr_on ss" using p(2) by (simp add: channel_ok_def)
  let ?e = "d1\<lparr>dv_txq := qq, dv_sys := ss\<rparr>"
  obtain v where w: "write_ier ?e = Some (outb IER_REG v ?e)" using write_ier_ok [of ?e] so by auto
  have "dv_set_level False (outb IER_REG v ?e) = Some (outb IER_REG v ?e)"
    using so by (simp add: dv_set_level_def intr_set_level_def intr_disable_def outb_def)
  then have r: "serial_putc l byte d = Some (Done (), False, outb IER_REG v ?e)"
    using m dis full d1(1) p(1) w by (simp add: serial_putc_def on_txq_def serial_putc_end_def)
  then show ?thesis using serial_putc_appends [OF r m q] p(2) by (intro exI [of _ "outb IER_REG v ?e"]) (simp add: outb_def)
qed

definition demo_devices :: devices where
  "demo_devices = \<lparr>dv_sys = demo_intq_sys, dv_out = [], dv_in = \<lambda>p n. if n < 5 then 0 else 0x60, dv_reads = 0, dv_con = [], dv_ticks = 0, dv_spins = 0, loops_per_tick = 0, idt = [], idtr = 0,
     intr_handlers = [], intr_names = [], unexpected_cnt = [], dv_input = demo_intq, dv_txq = demo_intq\<lparr>iq_head := 62\<rparr>, dv_mode = QUEUE\<rparr>"

theorem serial_putc_interrupts_off_witness:
  "\<exists>d'. serial_putc 1 7 demo_devices = Some (Done (), False, d') \<and> serial_stream d' = replicate 63 0 @ [7]"
proof -
  have ch: "channel_ok (dv_txq demo_devices, dv_sys demo_devices)"
    using demo_channel(1) by (simp add: demo_devices_def channel_ok_def intq_ok_def demo_intq_def INTQ_BUFSIZE_def)
  have "serial_stream demo_devices = replicate 63 0"
    by (simp add: serial_stream_def sent_def demo_devices_def iq_bytes_def iq_count_def demo_intq_def INTQ_BUFSIZE_def map_replicate_const)
  moreover have "dv_mode demo_devices = QUEUE" "dv_in demo_devices LSR_REG (dv_reads demo_devices + 5) AND LSR_THRE \<noteq> 0"
    by (simp_all add: demo_devices_def LSR_THRE_def)
  ultimately show ?thesis using serial_putc_interrupts_off [OF ch, of 5 1 7] by auto
qed

end
