(* ===== verification/Kbd.thy ===== *)
theory Kbd
  imports Serial
begin

text \<open>
  The keyboard, \<^verbatim>\<open>devices/kbd.c\<close>: from scan codes to characters in the input buffer, with the state of the shift keys. An interrupt that finds
  Ctrl+Alt+Del ends in \<^verbatim>\<open>shutdown_reboot\<close>, which does not return.
\<close>

section \<open>Scan codes\<close>

record keyboard = devices +
  left_shift :: bool
  right_shift :: bool
  left_alt :: bool
  right_alt :: bool
  left_ctrl :: bool
  right_ctrl :: bool
  caps_lock :: bool
  key_cnt :: int

definition DATA_REG :: nat where "DATA_REG = 0x60"

definition kbd_init :: "(nat \<Rightarrow> u32) \<Rightarrow> 'a machine_scheme \<Rightarrow> 'a machine_scheme option" where
  "kbd_init stubs = intr_register_ext stubs 0x21 Keyboard_interrupt ''8042 Keyboard''"

definition kbd_print_stats :: "'a keyboard_scheme \<Rightarrow> 'a keyboard_scheme option" where
  "kbd_print_stats d = dv_printf (''Keyboard: %lld keys pressed'' @ newline_char) [Int64_arg (word_of_int (key_cnt d))] d"

type_synonym keymap = "(nat \<times> u8 list) list"

definition invariant_keymap :: keymap where
  "invariant_keymap =
     [(0x01, [27]), (0x0e, [8]), (0x0f, 9 # bytes ''QWERTYUIOP''), (0x1c, [13]), (0x1e, bytes ''ASDFGHJKL''), (0x2c, bytes ''ZXCVBNM''),
      (0x37, bytes ''*''), (0x39, bytes '' ''), (0x53, [127])]"

definition unshifted_keymap :: keymap where
  "unshifted_keymap = [(0x02, bytes ''1234567890-=''), (0x1a, bytes ''[]''), (0x27, bytes [CHR '';'', CHR 0x27, CHR 0x60]), (0x2b, [92]), (0x33, bytes '',./'')]"

definition shifted_keymap :: keymap where
  "shifted_keymap = [(0x02, bytes ''!@#$%^&*()_+''), (0x1a, bytes ''{}''), (0x27, bytes [CHR '':'', CHR 0x22, CHR ''~'']), (0x2b, bytes ''|''), (0x33, bytes ''<>?'')]"

fun map_key :: "keymap \<Rightarrow> nat \<Rightarrow> u8 option" where
  "map_key [] scancode = None"
| "map_key ((first_scancode, chars) # k) scancode =
     (if first_scancode \<le> scancode \<and> scancode < first_scancode + length chars then Some (chars ! (scancode - first_scancode))
      else map_key k scancode)"

definition tolower :: "u8 \<Rightarrow> u8" where
  "tolower c = (if 65 \<le> c \<and> c \<le> 90 then c - 65 + 97 else c)"

section \<open>The interrupt handler\<close>

datatype 'a kbd_result = Kbd_done 'a | Kbd_reboot 'a

definition read_scancode :: "'a machine_scheme \<Rightarrow> nat \<times> 'a machine_scheme" where
  "read_scancode d =
     (let (v, d) = inb DATA_REG d; code = unat v in
      if code = 0xe0 then let (v, d) = inb DATA_REG d in (code * 2 ^ 8 + unat v, d) else (code, d))"

text \<open>The table of the shift keys.\<close>

definition set_shift_key :: "nat \<Rightarrow> bool \<Rightarrow> 'a keyboard_scheme \<Rightarrow> 'a keyboard_scheme" where
  "set_shift_key code down d =
     (if code = 0x2a then d\<lparr>left_shift := down\<rparr>
      else if code = 0x36 then d\<lparr>right_shift := down\<rparr>
      else if code = 0x38 then d\<lparr>left_alt := down\<rparr>
      else if code = 0xe038 then d\<lparr>right_alt := down\<rparr>
      else if code = 0x1d then d\<lparr>left_ctrl := down\<rparr>
      else if code = 0xe01d then d\<lparr>right_ctrl := down\<rparr>
      else d)"

definition ordinary_key :: "bool \<Rightarrow> nat \<Rightarrow> u8 option" where
  "ordinary_key shift code =
     (case map_key invariant_keymap code of
        Some c \<Rightarrow> Some c
      | None \<Rightarrow> if shift then map_key shifted_keymap code else map_key unshifted_keymap code)"

definition type_key :: "bool \<Rightarrow> bool \<Rightarrow> bool \<Rightarrow> u8 \<Rightarrow> 'a keyboard_scheme \<Rightarrow> 'a keyboard_scheme option" where
  "type_key shift alt ctrl c d = do {
     let c = (if ctrl \<and> 0x40 \<le> c \<and> c < 0x60 then c - 0x40 else if shift = caps_lock d then tolower c else c);
     let c = (if alt then c + 0x80 else c);
     f \<leftarrow> input_full d;
     if \<not> f then input_putc c (d\<lparr>key_cnt := key_cnt d + 1\<rparr>) else Some d }"

definition keyboard_interrupt :: "'a keyboard_scheme \<Rightarrow> 'a keyboard_scheme kbd_result option" where
  "keyboard_interrupt d =
     (let shift = left_shift d \<or> right_shift d;
          alt = left_alt d \<or> right_alt d;
          ctrl = left_ctrl d \<or> right_ctrl d;
          (code, d) = read_scancode d;
          release = (code div 2 ^ 7) mod 2 = 1;
          code = (if release then code - 0x80 else code) in
      if code = 0x3a then Some (Kbd_done (if \<not> release then d\<lparr>caps_lock := \<not> caps_lock d\<rparr> else d))
      else case ordinary_key shift code of
        Some c \<Rightarrow>
          if release then Some (Kbd_done d)
          else if c = 0x7f \<and> ctrl \<and> alt then Some (Kbd_reboot d)
          else map_option Kbd_done (type_key shift alt ctrl c d)
      | None \<Rightarrow> Some (Kbd_done (set_shift_key code (\<not> release) d)))"

section \<open>What is typed\<close>

text \<open>A keyboard as the set of the keys of the shift table that are down, and the state of Caps Lock.\<close>

definition shift_keys :: "nat set" where "shift_keys = {0x2a, 0x36, 0x38, 0xe038, 0x1d, 0xe01d}"

definition keys_down :: "'a keyboard_scheme \<Rightarrow> nat set" where
  "keys_down d = {k. k = 0x2a \<and> left_shift d \<or> k = 0x36 \<and> right_shift d \<or> k = 0x38 \<and> left_alt d \<or> k = 0xe038 \<and> right_alt d \<or>
     k = 0x1d \<and> left_ctrl d \<or> k = 0xe01d \<and> right_ctrl d}"

lemma keys_down_set: "keys_down (set_shift_key code down d) = (if code \<in> shift_keys then if down then insert code (keys_down d) else keys_down d - {code} else keys_down d)"
  by (auto simp: keys_down_def set_shift_key_def shift_keys_def)

lemma input_putc_room:
  assumes ch: "channel_ok (dv_input d, dv_sys d)" and room: "length (iq_bytes (dv_input d)) < 63"
  shows "\<exists>q s out. input_putc c d = Some (d\<lparr>dv_input := q, dv_sys := s, dv_out := out\<rparr>) \<and> channel_ok (q, s) \<and> iq_bytes q = iq_bytes (dv_input d) @ [c]"
proof -
  have q: "intq_ok (dv_input d)" and off: "\<not> intr_on (dv_sys d)" using ch by (simp_all add: channel_ok_def)
  obtain q s where p: "intq_putc c (dv_input d) (dv_sys d) = Some (Done (), q, s)" "channel_ok (q, s)" "iq_bytes q = iq_bytes (dv_input d) @ [c]"
    using putc_ok [OF ch, of c] room by (auto simp: INTQ_BUFSIZE_def)
  have f: "intq_full (dv_input d) (dv_sys d) = Some False" using off iq_full_iff [OF q] room by (simp add: intq_full_def INTQ_BUFSIZE_def)
  have so: "\<not> intr_on s" using p(2) by (simp add: channel_ok_def)
  let ?e = "d\<lparr>dv_input := q, dv_sys := s\<rparr>"
  obtain out where "serial_notify ?e = Some (?e\<lparr>dv_out := out\<rparr>)"
  proof (cases "dv_mode d = QUEUE")
    case True
    then show ?thesis using write_ier_ok [of ?e] so that by (fastforce simp: serial_notify_def outb_def)
  next
    case False
    then show ?thesis using so that [of "dv_out d"] by (simp add: serial_notify_def)
  qed
  then show ?thesis using p off f by (auto simp: input_putc_def on_input_def)
qed

text \<open>The key and the direction of a scan code, and the character a key types.\<close>

definition released :: "nat \<Rightarrow> bool" where "released raw \<longleftrightarrow> (raw div 2 ^ 7) mod 2 = 1"

definition key_of :: "nat \<Rightarrow> nat" where "key_of raw = (if released raw then raw - 0x80 else raw)"

definition typed :: "nat set \<Rightarrow> bool \<Rightarrow> nat \<Rightarrow> u8 option" where
  "typed down caps code =
     (let shift = down \<inter> {0x2a, 0x36} \<noteq> {}; alt = down \<inter> {0x38, 0xe038} \<noteq> {}; ctrl = down \<inter> {0x1d, 0xe01d} \<noteq> {} in
      map_option (\<lambda>c. (if ctrl \<and> 0x40 \<le> c \<and> c < 0x60 then c - 0x40 else if shift = caps then tolower c else c) + (if alt then 0x80 else 0))
        (ordinary_key shift code))"

lemma modifiers:
  "keys_down d \<inter> {0x2a, 0x36} \<noteq> {} \<longleftrightarrow> left_shift d \<or> right_shift d"
  "keys_down d \<inter> {0x38, 0xe038} \<noteq> {} \<longleftrightarrow> left_alt d \<or> right_alt d"
  "keys_down d \<inter> {0x1d, 0xe01d} \<noteq> {} \<longleftrightarrow> left_ctrl d \<or> right_ctrl d"
  by (auto simp: keys_down_def)

lemma length_bytes [simp]: "length (bytes s) = length s" by (simp add: bytes_def)

lemma map_key_None: "map_key k code = None \<longleftrightarrow> (\<forall>(first, chars) \<in> set k. \<not> (first \<le> code \<and> code < first + length chars))"
  by (induction k code rule: map_key.induct) auto

lemma map_key_Some: "map_key k code = Some c \<Longrightarrow> \<exists>(first, chars) \<in> set k. c \<in> set chars \<and> first \<le> code \<and> code < first + length chars"
  by (induction k code rule: map_key.induct) (auto split: if_splits)

lemma not_ordinary:
  assumes "code \<in> shift_keys \<or> code = 0x3a"
  shows "ordinary_key shift code = None"
proof -
  have "map_key k code = None" if "k \<in> {invariant_keymap, unshifted_keymap, shifted_keymap}" for k
    using that assms by (auto simp: map_key_None shift_keys_def invariant_keymap_def unshifted_keymap_def shifted_keymap_def)
  then show ?thesis by (simp add: ordinary_key_def)
qed

lemma delete_key: "ordinary_key shift code = Some 0x7f \<longleftrightarrow> code = 0x53"
proof
  assume o: "ordinary_key shift code = Some 0x7f"
  have "\<forall>s \<in> set [''QWERTYUIOP'', ''ASDFGHJKL'', ''ZXCVBNM'', ''*'', '' '', ''1234567890-='', ''[]'', [CHR '';'', CHR 0x27, CHR 0x60],
      '',./'', ''!@#$%^&*()_+'', ''{}'', [CHR '':'', CHR 0x22, CHR ''~''], ''|'', ''<>?'']. (0x7f :: u8) \<notin> set (bytes s)" by code_simp
  note c = this [simplified]
  have "map_key unshifted_keymap code \<noteq> Some 0x7f" "map_key shifted_keymap code \<noteq> Some 0x7f"
    using map_key_Some [of unshifted_keymap code "0x7f"] map_key_Some [of shifted_keymap code "0x7f"] c by (auto simp: unshifted_keymap_def shifted_keymap_def)
  then have "map_key invariant_keymap code = Some 0x7f" using o by (auto simp: ordinary_key_def split: option.splits if_splits)
  then show "code = 0x53" using map_key_Some [of invariant_keymap code "0x7f"] c by (auto simp: invariant_keymap_def)
next
  assume "code = 0x53"
  then show "ordinary_key shift code = Some 0x7f" by (simp add: ordinary_key_def invariant_keymap_def)
qed

lemma read_scancode_reads: "\<exists>n. snd (read_scancode d) = d\<lparr>dv_reads := n\<rparr>"
  by (auto simp: read_scancode_def inb_def Let_def)

lemma keyboard_interrupt_cases:
  assumes "read_scancode d = (raw, e)"
  shows "keyboard_interrupt d =
    (if key_of raw = 0x3a then Some (Kbd_done (if \<not> released raw then e\<lparr>caps_lock := \<not> caps_lock e\<rparr> else e))
     else case ordinary_key (left_shift d \<or> right_shift d) (key_of raw) of
       Some c \<Rightarrow> if released raw then Some (Kbd_done e)
         else if key_of raw = 0x53 \<and> (left_ctrl d \<or> right_ctrl d) \<and> (left_alt d \<or> right_alt d) then Some (Kbd_reboot e)
         else map_option Kbd_done (type_key (left_shift d \<or> right_shift d) (left_alt d \<or> right_alt d) (left_ctrl d \<or> right_ctrl d) c e)
     | None \<Rightarrow> Some (Kbd_done (set_shift_key (key_of raw) (\<not> released raw) e)))"
proof -
  have "c = 0x7f \<longleftrightarrow> key_of raw = 0x53" if "ordinary_key sh (key_of raw) = Some c" for c sh using delete_key [of sh "key_of raw"] that by auto
  then show ?thesis using assms by (auto simp: keyboard_interrupt_def Let_def key_of_def released_def split: option.splits)
qed

lemma type_key_types:
  assumes ch: "channel_ok (dv_input d, dv_sys d)" and t: "ordinary_key (left_shift d \<or> right_shift d) code = Some c"
  shows "\<exists>d'. type_key (left_shift d \<or> right_shift d) (left_alt d \<or> right_alt d) (left_ctrl d \<or> right_ctrl d) c d = Some d' \<and> channel_ok (dv_input d', dv_sys d') \<and>
    keys_down d' = keys_down d \<and> caps_lock d' = caps_lock d \<and>
    iq_bytes (dv_input d') = iq_bytes (dv_input d) @ (if length (iq_bytes (dv_input d)) < 63 then [the (typed (keys_down d) (caps_lock d) code)] else [])"
proof -
  let ?c = "the (typed (keys_down d) (caps_lock d) code)"
  have q: "intq_ok (dv_input d)" and off: "\<not> intr_on (dv_sys d)" using ch by (simp_all add: channel_ok_def)
  have f: "input_full d = Some (\<not> length (iq_bytes (dv_input d)) < 63)"
    using off iq_full_iff [OF q] iq_length [OF q] by (auto simp: input_full_def intq_full_def INTQ_BUFSIZE_def)
  have c: "type_key (left_shift d \<or> right_shift d) (left_alt d \<or> right_alt d) (left_ctrl d \<or> right_ctrl d) c d =
      (if length (iq_bytes (dv_input d)) < 63 then input_putc ?c (d\<lparr>key_cnt := key_cnt d + 1\<rparr>) else Some d)"
    unfolding type_key_def typed_def modifiers Let_def using f t by simp
  show ?thesis
  proof (cases "length (iq_bytes (dv_input d)) < 63")
    case True
    then obtain q s out where "input_putc ?c (d\<lparr>key_cnt := key_cnt d + 1\<rparr>) = Some (d\<lparr>key_cnt := key_cnt d + 1, dv_input := q, dv_sys := s, dv_out := out\<rparr>)"
        "channel_ok (q, s)" "iq_bytes q = iq_bytes (dv_input d) @ [?c]"
      using input_putc_room [of "d\<lparr>key_cnt := key_cnt d + 1\<rparr>" ?c] ch by auto
    then show ?thesis using c True by (simp add: keys_down_def)
  next
    case False
    then show ?thesis using c ch by simp
  qed
qed

text \<open>The keyboard is a machine over the set of shift keys that are down and the state of Caps Lock: a scan code reboots when Del is pressed with Ctrl and Alt down; otherwise
  the handler returns, has tracked exactly that key, and has put at the end of the input buffer the one character that is typed, if there is one and there is room for it.\<close>

theorem keyboard_types:
  assumes ch: "channel_ok (dv_input d, dv_sys d)" and read: "fst (read_scancode d) = raw"
  shows "if \<not> released raw \<and> key_of raw = 0x53 \<and> keys_down d \<inter> {0x1d, 0xe01d} \<noteq> {} \<and> keys_down d \<inter> {0x38, 0xe038} \<noteq> {}
    then \<exists>d'. keyboard_interrupt d = Some (Kbd_reboot d')
    else \<exists>d'. keyboard_interrupt d = Some (Kbd_done d') \<and> channel_ok (dv_input d', dv_sys d') \<and>
      keys_down d' = (if key_of raw \<in> shift_keys then if released raw then keys_down d - {key_of raw} else insert (key_of raw) (keys_down d) else keys_down d) \<and>
      caps_lock d' = (if key_of raw = 0x3a \<and> \<not> released raw then \<not> caps_lock d else caps_lock d) \<and>
      iq_bytes (dv_input d') = iq_bytes (dv_input d) @
        (case typed (keys_down d) (caps_lock d) (key_of raw) of
           Some c \<Rightarrow> if \<not> released raw \<and> length (iq_bytes (dv_input d)) < 63 then [c] else [] | None \<Rightarrow> [])"
proof -
  obtain n where n: "read_scancode d = (raw, d\<lparr>dv_reads := n\<rparr>)" using read read_scancode_reads [of d] by (metis prod.collapse)
  let ?e = "d\<lparr>dv_reads := n\<rparr>" and ?o = "ordinary_key (left_shift d \<or> right_shift d) (key_of raw)"
  note k = keyboard_interrupt_cases [OF n]
  have e: "keys_down ?e = keys_down d" "caps_lock ?e = caps_lock d" "dv_input ?e = dv_input d" "dv_sys ?e = dv_sys d" by (simp_all add: keys_down_def)
  have t: "typed (keys_down d) (caps_lock d) (key_of raw) = None \<longleftrightarrow> ?o = None" unfolding typed_def modifiers Let_def by simp
  show ?thesis
  proof (cases ?o)
    case None
    then have "key_of raw \<noteq> 0x53" using delete_key [of "left_shift d \<or> right_shift d" "key_of raw"] by auto
    moreover have "dv_input (set_shift_key c b ?e) = dv_input d" "dv_sys (set_shift_key c b ?e) = dv_sys d" "caps_lock (set_shift_key c b ?e) = caps_lock d" for c b
      by (simp_all add: set_shift_key_def)
    ultimately show ?thesis using k None t ch e keys_down_set [of _ _ ?e] by (auto simp: shift_keys_def keys_down_def)
  next
    case (Some c)
    then have ns: "key_of raw \<notin> shift_keys" "key_of raw \<noteq> 0x3a" using not_ordinary [of "key_of raw"] by fastforce+
    obtain d' where d': "type_key (left_shift d \<or> right_shift d) (left_alt d \<or> right_alt d) (left_ctrl d \<or> right_ctrl d) c ?e = Some d'"
        "channel_ok (dv_input d', dv_sys d')" "keys_down d' = keys_down d" "caps_lock d' = caps_lock d"
        "iq_bytes (dv_input d') = iq_bytes (dv_input d) @ (if length (iq_bytes (dv_input d)) < 63 then [the (typed (keys_down d) (caps_lock d) (key_of raw))] else [])"
      using type_key_types [of ?e "key_of raw" c] Some ch e by auto
    obtain b where b: "typed (keys_down d) (caps_lock d) (key_of raw) = Some b" using t Some by auto
    note k' = k [unfolded Some option.case if_not_P [OF ns(2)]]
    show ?thesis
    proof (cases "released raw")
      case True
      then show ?thesis using k' b ch ns e by simp
    next
      case False
      then show ?thesis unfolding modifiers using k' d' b ns by simp
    qed
  qed
qed

definition demo_keyboard :: keyboard where
  "demo_keyboard = \<lparr>dv_sys = demo_intq_sys, dv_out = [], dv_in = \<lambda>p n. 0x1e, dv_reads = 0, dv_con = [], dv_ticks = 0, dv_spins = 0, loops_per_tick = 0, idt = [], idtr = 0, intr_handlers = [],
     intr_names = [], unexpected_cnt = [], dv_input = demo_intq, dv_txq = demo_intq, dv_mode = POLL,
     left_shift = True, right_shift = False, left_alt = False, right_alt = False, left_ctrl = False, right_ctrl = False, caps_lock = False, key_cnt = 0\<rparr>"

theorem keyboard_types_witness:
  "\<exists>d'. keyboard_interrupt demo_keyboard = Some (Kbd_done d') \<and> iq_bytes (dv_input d') = bytes ''A'' \<and> keys_down d' = {0x2a}"
proof -
  have c: "channel_ok (dv_input demo_keyboard, dv_sys demo_keyboard)" "iq_bytes (dv_input demo_keyboard) = []"
    using demo_channel by (simp_all add: demo_keyboard_def)
  have r: "fst (read_scancode demo_keyboard) = 0x1e" by (simp add: read_scancode_def inb_def demo_keyboard_def Let_def)
  have k: "\<not> released 0x1e" "key_of 0x1e = 0x1e" by (simp_all add: released_def key_of_def)
  have d: "keys_down demo_keyboard = {0x2a}" "caps_lock demo_keyboard = False" by (auto simp: keys_down_def demo_keyboard_def)
  have t: "typed {0x2a} False 0x1e = Some 65" by (simp add: typed_def ordinary_key_def invariant_keymap_def bytes_def)
  show ?thesis
    using keyboard_types [OF c(1) r] c(2) k d t by (auto simp: shift_keys_def bytes_def)
qed

end
