(* ===== verification/Timers.thy ===== *)
theory Timers
  imports Interrupts Arith64
begin

text \<open>
  The interval timer \<^verbatim>\<open>devices/pit.c\<close>, the delays and the calibration of \<^verbatim>\<open>devices/timer.c\<close> (its tick, its clock and \<^verbatim>\<open>timer_sleep\<close> are in \<open>Synch\<close>), and
  the speaker, \<^verbatim>\<open>devices/speaker.c\<close>. Time in a busy-waiting loop is the number of passes; while the calibration runs, the tick counter is an
  arbitrary function of it, since the timer interrupt changes it behind the loop's back. Division of 64-bit numbers is the kernel's own routine.
\<close>

section \<open>The interval timer\<close>

definition PIT_PORT_CONTROL :: nat where "PIT_PORT_CONTROL = 0x43"
definition PIT_PORT_COUNTER :: "nat \<Rightarrow> nat" where "PIT_PORT_COUNTER channel = 0x40 + channel"
definition PIT_HZ :: int where "PIT_HZ = 1193180"

definition pit_count :: "int \<Rightarrow> u16" where
  "pit_count frequency =
     (if frequency < 19 then 0 else if PIT_HZ < frequency then 2 else word_of_int ((PIT_HZ + frequency div 2) div frequency))"

definition pit_configure_channel :: "nat \<Rightarrow> nat \<Rightarrow> int \<Rightarrow> 'a machine_scheme \<Rightarrow> 'a machine_scheme option" where
  "pit_configure_channel channel mode frequency d = do {
     ASSERT (channel = 0 \<or> channel = 2);
     ASSERT (mode = 2 \<or> mode = 3);
     let count = unat (pit_count frequency);
     let (old_level, d) = dv_disable d;
     let d = outb PIT_PORT_CONTROL (push_bit 6 channel OR 0x30 OR push_bit 1 mode) d;
     let d = outb (PIT_PORT_COUNTER channel) count d;
     let d = outb (PIT_PORT_COUNTER channel) (count div 2 ^ 8) d;
     dv_set_level old_level d }"

section \<open>Delays\<close>

definition TIMER_FREQ :: int where "TIMER_FREQ = 100"

definition timer_init :: "(nat \<Rightarrow> u32) \<Rightarrow> 'a machine_scheme \<Rightarrow> 'a machine_scheme option" where
  "timer_init stubs d = do {
     d \<leftarrow> pit_configure_channel 0 2 TIMER_FREQ d;
     intr_register_ext stubs 0x20 Timer_interrupt ''8254 Timer'' d }"

definition busy_wait :: "u64 \<Rightarrow> 'a machine_scheme \<Rightarrow> 'a machine_scheme" where
  "busy_wait loops d = d\<lparr>dv_spins := dv_spins d + nat (sint loops)\<rparr>"

definition real_time_delay :: "u64 \<Rightarrow> int \<Rightarrow> 'a machine_scheme \<Rightarrow> 'a machine_scheme option" where
  "real_time_delay num denom d = do {
     ASSERT (denom mod 1000 = 0);
     q \<leftarrow> divdi3 (ucast (loops_per_tick d) * num) 1000;
     q \<leftarrow> divdi3 (q * word_of_int TIMER_FREQ) (word_of_int (denom div 1000));
     Some (busy_wait q d) }"

definition dv_timer_sleep :: "int \<Rightarrow> 'a machine_scheme \<Rightarrow> (outcome \<times> 'a machine_scheme) option" where
  "dv_timer_sleep n d = do { (r, s) \<leftarrow> timer_sleep n (dv_ticks d, dv_sys d); Some (r, d\<lparr>dv_sys := s\<rparr>) }"

definition real_time_sleep :: "u64 \<Rightarrow> int \<Rightarrow> 'a machine_scheme \<Rightarrow> (outcome \<times> 'a machine_scheme) option" where
  "real_time_sleep num denom d = do {
     ticks \<leftarrow> divdi3 (num * word_of_int TIMER_FREQ) (word_of_int denom);
     ASSERT (intr_on (dv_sys d));
     if 0 < sint ticks then dv_timer_sleep (sint ticks) d
     else do { d \<leftarrow> real_time_delay num denom d; Some (Returned, d) } }"

definition timer_msleep :: "u64 \<Rightarrow> 'a machine_scheme \<Rightarrow> (outcome \<times> 'a machine_scheme) option" where
  "timer_msleep ms = real_time_sleep ms 1000"

definition timer_usleep :: "u64 \<Rightarrow> 'a machine_scheme \<Rightarrow> (outcome \<times> 'a machine_scheme) option" where
  "timer_usleep us = real_time_sleep us (1000 * 1000)"

definition timer_nsleep :: "u64 \<Rightarrow> 'a machine_scheme \<Rightarrow> (outcome \<times> 'a machine_scheme) option" where
  "timer_nsleep ns = real_time_sleep ns (1000 * 1000 * 1000)"

definition timer_mdelay :: "u64 \<Rightarrow> 'a machine_scheme \<Rightarrow> 'a machine_scheme option" where
  "timer_mdelay ms = real_time_delay ms 1000"

definition timer_udelay :: "u64 \<Rightarrow> 'a machine_scheme \<Rightarrow> 'a machine_scheme option" where
  "timer_udelay us = real_time_delay us (1000 * 1000)"

definition timer_ndelay :: "u64 \<Rightarrow> 'a machine_scheme \<Rightarrow> 'a machine_scheme option" where
  "timer_ndelay ns = real_time_delay ns (1000 * 1000 * 1000)"

definition timer_print_stats :: "'a machine_scheme \<Rightarrow> 'a machine_scheme option" where
  "timer_print_stats d = do {
     (t, s) \<leftarrow> timer_ticks (dv_ticks d, dv_sys d);
     dv_printf (''Timer: %lld ticks'' @ newline_char) [Int64_arg (word_of_int t)] (d\<lparr>dv_sys := s\<rparr>) }"

section \<open>Calibration\<close>

text \<open>\<open>tick_at n\<close> is the tick counter after \<open>n\<close> passes.\<close>

partial_function (option) await_tick :: "(nat \<Rightarrow> int) \<Rightarrow> int \<Rightarrow> nat \<Rightarrow> nat option" where
  "await_tick tick_at start n = (if tick_at n = start then await_tick tick_at start (n + 1) else Some n)"

definition too_many_loops :: "(nat \<Rightarrow> int) \<Rightarrow> u32 \<Rightarrow> nat \<Rightarrow> (bool \<times> nat) option" where
  "too_many_loops tick_at loops n = do {
     n \<leftarrow> await_tick tick_at (tick_at n) n;
     let start = tick_at n;
     let n = n + unat loops;
     Some (start \<noteq> tick_at n, n) }"

partial_function (option) calibrate_loop :: "(nat \<Rightarrow> int) \<Rightarrow> u32 \<Rightarrow> nat \<Rightarrow> (u32 \<times> nat) option" where
  "calibrate_loop tick_at loops n = do {
     (many, n) \<leftarrow> too_many_loops tick_at (push_bit 1 loops) n;
     if \<not> many then do {
       let loops = push_bit 1 loops;
       ASSERT (loops \<noteq> 0);
       calibrate_loop tick_at loops n }
     else Some (loops, n) }"

partial_function (option) refine_loop :: "(nat \<Rightarrow> int) \<Rightarrow> u32 \<Rightarrow> u32 \<Rightarrow> u32 \<Rightarrow> nat \<Rightarrow> (u32 \<times> nat) option" where
  "refine_loop tick_at higherBit testerBit loops n =
     (if testerBit \<noteq> drop_bit 10 higherBit then do {
        (many, n) \<leftarrow> too_many_loops tick_at (higherBit OR testerBit) n;
        refine_loop tick_at higherBit (drop_bit 1 testerBit) (if \<not> many then loops OR testerBit else loops) n }
      else Some (loops, n))"

definition calibrate :: "(nat \<Rightarrow> int) \<Rightarrow> nat \<Rightarrow> (u32 \<times> nat) option" where
  "calibrate tick_at n = do {
     (loops, n) \<leftarrow> calibrate_loop tick_at (push_bit 10 1) n;
     let higherBit = loops;
     refine_loop tick_at higherBit (drop_bit 1 higherBit) loops n }"

definition timer_calibrate :: "(nat \<Rightarrow> int) \<Rightarrow> 'a machine_scheme \<Rightarrow> 'a machine_scheme option" where
  "timer_calibrate tick_at d = do {
     ASSERT (intr_on (dv_sys d));
     d \<leftarrow> dv_printf ''Calibrating timer...  '' [] d;
     (loops, n) \<leftarrow> calibrate tick_at (dv_spins d);
     let d = d\<lparr>loops_per_tick := loops, dv_spins := n, dv_ticks := tick_at n\<rparr>;
     dv_printf (CHR ''%'' # CHR 0x27 # ''llu loops/s.'' @ newline_char) [Int64_arg (ucast loops * word_of_int TIMER_FREQ)] d }"

section \<open>The speaker\<close>

definition SPEAKER_PORT_GATE :: nat where "SPEAKER_PORT_GATE = 0x61"
definition SPEAKER_GATE_ENABLE :: u8 where "SPEAKER_GATE_ENABLE = 3"

definition speaker_off :: "'a machine_scheme \<Rightarrow> 'a machine_scheme option" where
  "speaker_off d = do {
     let (old_level, d) = dv_disable d;
     let (v, d) = inb SPEAKER_PORT_GATE d;
     dv_set_level old_level (outb SPEAKER_PORT_GATE (unat (v AND NOT SPEAKER_GATE_ENABLE)) d) }"

definition speaker_on :: "int \<Rightarrow> 'a machine_scheme \<Rightarrow> 'a machine_scheme option" where
  "speaker_on frequency d =
     (if 20 \<le> frequency \<and> frequency \<le> 20000 then do {
        let (old_level, d) = dv_disable d;
        d \<leftarrow> pit_configure_channel 2 3 frequency d;
        let (v, d) = inb SPEAKER_PORT_GATE d;
        dv_set_level old_level (outb SPEAKER_PORT_GATE (unat (v OR SPEAKER_GATE_ENABLE)) d) }
      else speaker_off d)"

text \<open>The beep sleeps; when \<^verbatim>\<open>timer_msleep\<close> returns, the caller goes on in \<open>speaker_beep_end\<close>.\<close>

definition speaker_beep_end :: "'a machine_scheme \<Rightarrow> 'a machine_scheme option" where
  "speaker_beep_end d = speaker_off d"

definition speaker_beep :: "'a machine_scheme \<Rightarrow> (outcome \<times> 'a machine_scheme) option" where
  "speaker_beep d =
     (if intr_on (dv_sys d) then do {
        d \<leftarrow> speaker_on 440 d;
        (r, d) \<leftarrow> timer_msleep 250 d;
        case r of
          Returned \<Rightarrow> do { d \<leftarrow> speaker_beep_end d; Some (Returned, d) }
        | Switched lvl \<Rightarrow> Some (Switched lvl, d) }
      else Some (Returned, d))"

section \<open>The interval timer counts what was asked for\<close>

lemma pit_count_nearest:
  assumes "19 \<le> f" "f \<le> PIT_HZ"
  shows "1 \<le> uint (pit_count f) \<and> 2 * \<bar>uint (pit_count f) * f - PIT_HZ\<bar> \<le> f"
proof -
  have f: "0 < f" using assms by simp
  obtain q r where q: "q = (PIT_HZ + f div 2) div f" "r = (PIT_HZ + f div 2) mod f" by blast
  have e: "q * f + r = PIT_HZ + f div 2" unfolding q by (rule div_mult_mod_eq)
  have r: "0 \<le> r" "r < f" using f by (simp_all add: q)
  have h: "2 * (f div 2) \<le> f" "f < 2 * (f div 2) + 2" by simp_all
  have near: "2 * (x - PIT_HZ) \<le> f" "2 * (PIT_HZ - x) \<le> f" if "x + r = PIT_HZ + y" "2 * y \<le> f" "f < 2 * y + 2" for x y
    using that r by presburger+
  note near = near [OF e h]
  have "0 < q" using assms f by (simp add: pos_imp_zdiv_pos_iff q)
  have "q < 2 ^ 16"
  proof (rule ccontr)
    assume "\<not> q < 2 ^ 16"
    then have "2 ^ 16 * f \<le> q * f" using f by (intro mult_right_mono) simp_all
    moreover have "2 * (2 ^ 16 * f) \<le> f + 2 * PIT_HZ" if "2 ^ 16 * f \<le> x" "2 * (x - PIT_HZ) \<le> f" for x using that by simp
    ultimately have "2 * (2 ^ 16 * f) \<le> f + 2 * PIT_HZ" using near(1) by blast
    then show False using assms by (simp add: PIT_HZ_def)
  qed
  then have "uint (pit_count f) = q" using \<open>0 < q\<close> assms by (simp add: pit_count_def uint_word_of_int q)
  moreover have "2 * \<bar>q * f - PIT_HZ\<bar> \<le> f" using near by (simp add: abs_if)
  ultimately show ?thesis using \<open>0 < q\<close> by simp
qed

theorem pit_count_one: "pit_count 800000 = 1 \<and> pit_count 1193180 = 1"
  by (simp add: pit_count_def PIT_HZ_def)

section \<open>Calibration\<close>

definition period :: "nat \<Rightarrow> nat \<Rightarrow> nat \<Rightarrow> int" where "period P phase n = int ((n + phase) div P)"

lemma await_tick_period:
  assumes P: "0 < P"
  shows "\<exists>m. await_tick (period P phase) (period P phase n) n = Some m \<and> (m + phase) mod P = 0"
proof -
  have "\<exists>m. await_tick (period P phase) (period P phase n) k = Some m \<and> (m + phase) mod P = 0"
    if "(k + phase) div P = (n + phase) div P" for k
    using that
  proof (induction "P - (k + phase) mod P" arbitrary: k rule: less_induct)
    case less
    have r: "(k + phase) mod P < P" using P by simp
    have step: "await_tick (period P phase) (period P phase n) k = await_tick (period P phase) (period P phase n) (k + 1)"
      using less.prems by (subst await_tick.simps) (simp add: period_def)
    show ?case
    proof (cases "Suc ((k + phase) mod P) = P")
      case True
      then have d: "(k + 1 + phase) div P = Suc ((k + phase) div P)" "(k + 1 + phase) mod P = 0" by (simp_all add: div_Suc mod_Suc)
      then have "await_tick (period P phase) (period P phase n) (k + 1) = Some (k + 1)"
        using less.prems by (subst await_tick.simps) (simp add: period_def)
      then show ?thesis using step d(2) by auto
    next
      case False
      then have d: "(k + 1 + phase) div P = (k + phase) div P" "(k + 1 + phase) mod P = Suc ((k + phase) mod P)" by (simp_all add: div_Suc mod_Suc)
      show ?thesis using less.hyps [of "k + 1"] less.prems d r step by simp
    qed
  qed
  then show ?thesis by blast
qed

lemma too_many_loops_period:
  assumes P: "0 < P"
  shows "\<exists>m. too_many_loops (period P phase) loops n = Some (P \<le> unat loops, m)"
proof -
  obtain m where m: "await_tick (period P phase) (period P phase n) n = Some m" "(m + phase) mod P = 0" using await_tick_period [OF P, of phase n] by auto
  obtain c where c: "m + phase = P * c" using m(2) by (auto simp: mod_eq_0_iff_dvd)
  have "m + unat loops + phase = unat loops + P * c" using c by simp
  then have "(m + unat loops + phase) div P = c + unat loops div P" using P by (simp only: div_mult_self2)
  then have "period P phase m \<noteq> period P phase (m + unat loops) \<longleftrightarrow> unat loops div P \<noteq> 0" using c P by (simp add: period_def)
  also have "\<dots> \<longleftrightarrow> P \<le> unat loops" using P by (auto simp: div_eq_0_iff)
  finally show ?thesis using m(1) by (simp add: too_many_loops_def)
qed

lemma unat_power: "k < 32 \<Longrightarrow> unat (2 ^ k :: u32) = 2 ^ k"
proof -
  assume "k < 32"
  then have "(2 :: nat) ^ k < 2 ^ 32" by (intro power_strict_increasing) simp_all
  moreover have "(2 ^ k :: u32) = word_of_nat (2 ^ k)" by simp
  ultimately show ?thesis by (simp only: unat_of_nat) simp
qed

lemma calibrate_loop_period:
  assumes "k \<le> 31" "10 \<le> k" "P \<le> 2 ^ 31" "2 ^ k < P"
  shows "\<exists>j m. calibrate_loop (period P phase) (2 ^ k) n = Some (2 ^ j, m) \<and> k \<le> j \<and> j \<le> 30 \<and> 2 ^ j < P \<and> P \<le> 2 ^ Suc j"
  using assms
proof (induction "31 - k" arbitrary: k n rule: less_induct)
  case less
  have k: "k < 31"
  proof (rule ccontr)
    assume "\<not> k < 31"
    then have "k = 31" using less.prems by simp
    then show False using less.prems by simp
  qed
  have p: "push_bit 1 (2 ^ k) = (2 ^ Suc k :: u32)" by (simp add: push_bit_eq_mult)
  have u: "unat (2 ^ Suc k :: u32) = 2 ^ Suc k" by (rule unat_power) (use k in simp)
  obtain m where m: "too_many_loops (period P phase) (push_bit 1 (2 ^ k)) n = Some (P \<le> 2 ^ Suc k, m)"
    using too_many_loops_period [of P phase "2 ^ Suc k" n] less.prems(4) unfolding p u by auto
  show ?case
  proof (cases "P \<le> 2 ^ Suc k")
    case True
    then show ?thesis using m less.prems k by (subst calibrate_loop.simps) auto
  next
    case False
    have "(2 ^ Suc k :: u32) \<noteq> 0" using u by (metis power_not_zero unat_0 zero_neq_numeral)
    then have "calibrate_loop (period P phase) (2 ^ k) n = calibrate_loop (period P phase) (2 ^ Suc k) m"
      using m [unfolded p] False by (subst calibrate_loop.simps, unfold p) (simp del: power_Suc)
    then show ?thesis using less.hyps [of "Suc k" m] less.prems k False Suc_leD by fastforce
  qed
qed

text \<open>The refinement tests each of the next nine bits against the highest bit alone.\<close>

lemma unat_two_bits:
  assumes "i < j" "j < 32"
  shows "unat ((2 ^ j :: u32) OR 2 ^ i) = 2 ^ j + 2 ^ i"
proof -
  have "(2 :: nat) ^ i < 2 ^ j" using assms(1) by simp
  moreover have "(2 :: nat) ^ j \<le> 2 ^ 31" using assms(2) by (intro power_increasing) simp_all
  moreover have "(2 :: nat) ^ 31 + 2 ^ 31 = 2 ^ 32" by simp
  ultimately have "(2 :: nat) ^ j + 2 ^ i < 2 ^ 32" by linarith
  moreover have "(2 ^ j :: u32) OR 2 ^ i = 2 ^ j + 2 ^ i"
    using assms by (intro disjunctive_add [symmetric]) (auto simp: bit_simps)
  ultimately show ?thesis using assms unat_power [of i] unat_power [of j] by (simp add: unat_word_ariths)
qed

lemma refine_loop_period:
  assumes j: "10 \<le> j" "j < 32" and P: "0 < P" and i: "j - 10 \<le> i" "i < j"
  shows "\<exists>l m. refine_loop (period P phase) (2 ^ j) (2 ^ i) loops n = Some (l, m) \<and>
    (\<forall>b. bit l b \<longleftrightarrow> bit loops b \<or> j - 10 < b \<and> b \<le> i \<and> 2 ^ j + 2 ^ b < P)"
  using i
proof (induction i arbitrary: loops n)
  case 0
  then show ?case using j by (subst refine_loop.simps) (auto simp: drop_bit_exp_eq)
next
  case (Suc i)
  have t: "drop_bit 10 (2 ^ j :: u32) = 2 ^ (j - 10)" "drop_bit 1 (2 ^ Suc i :: u32) = 2 ^ i"
    using j Suc.prems by (simp_all add: drop_bit_exp_eq del: power_Suc)
  show ?case
  proof (cases "j - 10 = Suc i")
    case True
    then show ?thesis using t by (subst refine_loop.simps) auto
  next
    case False
    have "(2 :: nat) ^ Suc i \<noteq> 2 ^ (j - 10)" using False power_inject_exp [of "2 :: nat" "Suc i" "j - 10"] by simp
    then have ne: "(2 ^ Suc i :: u32) \<noteq> 2 ^ (j - 10)" using unat_power [of "Suc i"] unat_power [of "j - 10"] Suc.prems j by fastforce
    let ?l = "if P \<le> 2 ^ j + 2 ^ Suc i then loops else loops OR 2 ^ Suc i"
    obtain m where m: "too_many_loops (period P phase) (2 ^ j OR 2 ^ Suc i) n = Some (P \<le> 2 ^ j + 2 ^ Suc i, m)"
      using too_many_loops_period [OF P, of phase "2 ^ j OR 2 ^ Suc i" n] unat_two_bits [OF Suc.prems(2) j(2)] by auto
    have s: "refine_loop (period P phase) (2 ^ j) (2 ^ Suc i) loops n = refine_loop (period P phase) (2 ^ j) (2 ^ i) ?l m"
      using m ne t by (subst refine_loop.simps) (auto simp del: power_Suc)
    obtain l q where "refine_loop (period P phase) (2 ^ j) (2 ^ i) ?l m = Some (l, q)" "\<forall>b. bit l b \<longleftrightarrow> bit ?l b \<or> j - 10 < b \<and> b \<le> i \<and> 2 ^ j + 2 ^ b < P"
      using Suc.IH [of ?l m] Suc.prems False by auto
    moreover have "bit ?l b \<longleftrightarrow> bit loops b \<or> b = Suc i \<and> 2 ^ j + 2 ^ Suc i < P" for b
      using Suc.prems(2) j(2) by (auto simp: bit_or_iff bit_exp_iff possible_bit_def simp del: power_Suc)
    moreover have "j - 10 < Suc i" using Suc.prems(1) False by simp
    ultimately have "\<forall>b. bit l b \<longleftrightarrow> bit loops b \<or> j - 10 < b \<and> b \<le> Suc i \<and> 2 ^ j + 2 ^ b < P" by (auto simp: le_Suc_eq simp del: power_Suc)
    then show ?thesis using s \<open>refine_loop (period P phase) (2 ^ j) (2 ^ i) ?l m = Some (l, q)\<close> by auto
  qed
qed

text \<open>On a clock that ticks every \<open>P\<close> passes the calibration ends, and the number of passes in a tick that it finds is right up to a factor of two. It has the
  highest bit of the number of passes that fit into a tick, and each of the next nine bits that fits when it is added to the highest bit alone.\<close>

theorem calibrate_within_factor_two:
  assumes "2 ^ 10 < P" "P \<le> 2 ^ 31"
  shows "\<exists>l m j. calibrate (period P phase) n = Some (l, m) \<and> P \<le> 2 * unat l \<and> unat l < 2 * P \<and> 2 ^ j < P \<and> P \<le> 2 ^ Suc j \<and>
    (\<forall>b. bit l b \<longleftrightarrow> b = j \<or> j - 10 < b \<and> b < j \<and> 2 ^ j + 2 ^ b < P)"
proof -
  obtain j m where j: "calibrate_loop (period P phase) (2 ^ 10) n = Some (2 ^ j, m)" "10 \<le> j" "j \<le> 30" "2 ^ j < P" "P \<le> 2 ^ Suc j"
    using calibrate_loop_period [of 10 P phase n] assms by auto
  have d: "drop_bit 1 (2 ^ j :: u32) = 2 ^ (j - 1)" using j(2,3) by (simp add: drop_bit_exp_eq)
  obtain l q where l: "refine_loop (period P phase) (2 ^ j) (2 ^ (j - 1)) (2 ^ j) m = Some (l, q)"
      "\<forall>b. bit l b \<longleftrightarrow> bit (2 ^ j :: u32) b \<or> j - 10 < b \<and> b \<le> j - 1 \<and> 2 ^ j + 2 ^ b < P"
    using refine_loop_period [of j P "j - 1" phase "2 ^ j" m] j diff_le_mono2 [of 1 10 j] by fastforce
  have b: "bit l b \<longleftrightarrow> b = j \<or> j - 10 < b \<and> b < j \<and> 2 ^ j + 2 ^ b < P" for b
  proof -
    have "b \<le> j - 1 \<longleftrightarrow> b < j" using j(2) by linarith
    moreover have "bit (2 ^ j :: u32) b \<longleftrightarrow> b = j" using j(3) by (auto simp: bit_exp_iff possible_bit_def)
    ultimately show ?thesis using l(2) [rule_format, of b] by blast
  qed
  have "take_bit (Suc j) l = l" by (rule bit_word_eqI) (auto simp: bit_take_bit_iff b)
  then have "unat l < 2 ^ Suc j" by (metis take_bit_nat_less_exp unsigned_take_bit_eq)
  moreover have "2 ^ j \<le> unat l"
  proof (rule ccontr)
    assume "\<not> 2 ^ j \<le> unat l"
    then have "l < 2 ^ j" using unat_power [of j] j(3) by (simp add: word_less_nat_alt)
    then show False using small_bits [of l j j] b by simp
  qed
  moreover have "calibrate (period P phase) n = Some (l, q)" using j(1) l(1) d by (simp add: calibrate_def)
  ultimately have "calibrate (period P phase) n = Some (l, q) \<and> P \<le> 2 * unat l \<and> unat l < 2 * P \<and> 2 ^ j < P \<and> P \<le> 2 ^ Suc j"
    using j(4,5) by simp
  then show ?thesis using b by blast
qed

text \<open>It does not compare the sum of the bits with the length of a tick, so that it can find too many: 2046 passes for a tick of 1600.\<close>

theorem calibrate_overestimates: "\<exists>m. calibrate (period 1600 0) n = Some (2046, m)"
proof -
  obtain l m j where l: "calibrate (period 1600 0) n = Some (l, m)" "2 ^ j < (1600 :: nat)" "1600 \<le> (2 :: nat) ^ Suc j"
      "\<forall>b. bit l b \<longleftrightarrow> b = j \<or> j - 10 < b \<and> b < j \<and> 2 ^ j + 2 ^ b < (1600 :: nat)"
    using calibrate_within_factor_two [of 1600 0 n] by auto
  have "j < 11" using l(2) power_increasing [of 11 j "2 :: nat"] by (cases "11 \<le> j") simp_all
  moreover have "10 \<le> j" using l(3) power_increasing [of "Suc j" 10 "2 :: nat"] by (cases "10 \<le> j") simp_all
  ultimately have j: "j = 10" by simp
  have small: "b < 10 \<Longrightarrow> (2 :: nat) ^ b \<le> 2 ^ 9" for b by (intro power_increasing) simp_all
  have b: "bit l b \<longleftrightarrow> 1 \<le> b \<and> b \<le> 10" for b
  proof -
    have "b < 10 \<Longrightarrow> 2 ^ 10 + 2 ^ b < (1600 :: nat)" using small [of b] by simp
    then show ?thesis using l(4) [rule_format, of b] unfolding j by linarith
  qed
  have m: "(2046 :: u32) = push_bit 1 (mask 10)" by (simp add: push_bit_eq_mult mask_eq_exp_minus_1)
  have "l = 2046" unfolding m by (rule bit_word_eqI, unfold b bit_push_bit_iff bit_mask_iff) (auto simp: possible_bit_def)
  then show ?thesis using l(1) by auto
qed

theorem calibrate_within_factor_two_witness:
  "\<exists>l m. calibrate (period 100000 7) 3 = Some (l, m) \<and> 100000 \<le> 2 * unat l \<and> unat l < 200000"
  using calibrate_within_factor_two [of 100000 7 3] by auto

end
