(* ===== verification/Vga.thy ===== *)
theory Vga
  imports Kbd Timers
begin

text \<open>
  The text screen, \<^verbatim>\<open>devices/vga.c\<close>. The frame buffer is a list of rows of cells, a character and its attribute each. A bell that sleeps stops at the switch
  and goes on in \<open>vga_putc_end\<close>.
\<close>

section \<open>The screen\<close>

definition COL_CNT :: nat where "COL_CNT = 80"
definition ROW_CNT :: nat where "ROW_CNT = 25"
definition GRAY_ON_BLACK :: u8 where "GRAY_ON_BLACK = 7"

type_synonym row = "(u8 \<times> u8) list"

record screen = keyboard +
  cx :: nat
  cy :: nat
  fb :: "row list"
  vga_inited :: bool

definition clear_row :: "nat \<Rightarrow> 'a screen_scheme \<Rightarrow> 'a screen_scheme option" where
  "clear_row y d = do { rows \<leftarrow> arr_set (fb d) y (replicate COL_CNT (32, GRAY_ON_BLACK)); Some (d\<lparr>fb := rows\<rparr>) }"

definition move_cursor :: "'a screen_scheme \<Rightarrow> 'a screen_scheme" where
  "move_cursor d =
     (let cp = (cx d + COL_CNT * cy d) mod 2 ^ 16;
          d = outw 0x3d4 (0x0e OR (cp AND 0xff00)) d in
      outw 0x3d4 (0x0f OR push_bit 8 cp) d)"

definition find_cursor :: "'a machine_scheme \<Rightarrow> nat \<times> nat \<times> 'a machine_scheme" where
  "find_cursor d =
     (let d = outb 0x3d4 0x0e d;
          (v, d) = inb 0x3d5 d;
          cp = push_bit 8 (unat v);
          d = outb 0x3d4 0x0f d;
          (v, d) = inb 0x3d5 d;
          cp = cp OR unat v in
      (cp mod COL_CNT, cp div COL_CNT, d))"

definition vga_init :: "'a screen_scheme \<Rightarrow> 'a screen_scheme" where
  "vga_init d =
     (if \<not> vga_inited d then let (x, y, d) = find_cursor d in d\<lparr>cx := x, cy := y, vga_inited := True\<rparr> else d)"

definition newline :: "'a screen_scheme \<Rightarrow> 'a screen_scheme option" where
  "newline d =
     (let d = d\<lparr>cx := 0, cy := cy d + 1\<rparr> in
      if ROW_CNT \<le> cy d then clear_row (ROW_CNT - 1) (d\<lparr>cy := ROW_CNT - 1, fb := take (ROW_CNT - 1) (tl (fb d)) @ drop (ROW_CNT - 1) (fb d)\<rparr>)
      else Some d)"

primrec clear_rows :: "nat \<Rightarrow> 'a screen_scheme \<Rightarrow> 'a screen_scheme option" where
  "clear_rows 0 d = Some d"
| "clear_rows (Suc n) d = do { d \<leftarrow> clear_rows n d; clear_row n d }"

definition cls :: "'a screen_scheme \<Rightarrow> 'a screen_scheme option" where
  "cls d = do { d \<leftarrow> clear_rows ROW_CNT d; Some (move_cursor (d\<lparr>cx := 0, cy := 0\<rparr>)) }"

definition set_cell :: "u8 \<Rightarrow> 'a screen_scheme \<Rightarrow> 'a screen_scheme option" where
  "set_cell c d = do {
     row \<leftarrow> arr_get (fb d) (cy d);
     row \<leftarrow> arr_set row (cx d) (c, GRAY_ON_BLACK);
     rows \<leftarrow> arr_set (fb d) (cy d) row;
     Some (d\<lparr>fb := rows\<rparr>) }"

definition vga_putc_end :: "bool \<Rightarrow> 'a screen_scheme \<Rightarrow> (outcome \<times> 'a screen_scheme) option" where
  "vga_putc_end old_level d = do { d \<leftarrow> dv_set_level old_level (move_cursor d); Some (Returned, d) }"

definition vga_bell_end :: "bool \<Rightarrow> 'a screen_scheme \<Rightarrow> (outcome \<times> 'a screen_scheme) option" where
  "vga_bell_end old_level d = vga_putc_end old_level (snd (dv_disable d))"

definition vga_putc :: "u8 \<Rightarrow> 'a screen_scheme \<Rightarrow> (outcome \<times> 'a screen_scheme) option" where
  "vga_putc c d = do {
     let (old_level, d) = dv_disable d;
     let d = vga_init d;
     if c = 10 then do { d \<leftarrow> newline d; vga_putc_end old_level d }
     else if c = 12 then do { d \<leftarrow> cls d; vga_putc_end old_level d }
     else if c = 8 then vga_putc_end old_level (if 0 < cx d then d\<lparr>cx := cx d - 1\<rparr> else d)
     else if c = 13 then vga_putc_end old_level (d\<lparr>cx := 0\<rparr>)
     else if c = 9 then do {
       let d = d\<lparr>cx := (cx d + 1 + 7) div 8 * 8\<rparr>;
       d \<leftarrow> (if COL_CNT \<le> cx d then newline d else Some d);
       vga_putc_end old_level d }
     else if c = 7 then do {
       d \<leftarrow> dv_set_level old_level d;
       (r, d) \<leftarrow> speaker_beep d;
       case r of
         Returned \<Rightarrow> vga_bell_end old_level d
       | Switched lvl \<Rightarrow> Some (Switched lvl, d) }
     else do {
       d \<leftarrow> set_cell c d;
       let d = d\<lparr>cx := cx d + 1\<rparr>;
       d \<leftarrow> (if COL_CNT \<le> cx d then newline d else Some d);
       vga_putc_end old_level d } }"

definition vga_putc_resume :: "bool \<Rightarrow> 'a screen_scheme \<Rightarrow> (outcome \<times> 'a screen_scheme) option" where
  "vga_putc_resume old_level d = do { d \<leftarrow> speaker_beep_end d; vga_bell_end old_level d }"

section \<open>The screen is the end of the history\<close>

text \<open>All rows that have ever been written, the index of the current one, and the column.\<close>

type_synonym history = "row list \<times> nat \<times> nat"

definition blank_row :: row where "blank_row = replicate COL_CNT (32, GRAY_ON_BLACK)"

fun hist_newline :: "history \<Rightarrow> history" where
  "hist_newline (rows, r, x) = (if r + 1 < length rows then rows else rows @ [blank_row], r + 1, 0)"

fun hist_at :: "history \<Rightarrow> history" where
  "hist_at (rows, r, x) = (if x < COL_CNT then (rows, r, x) else hist_newline (rows, r, x))"

fun hist_putc :: "u8 \<Rightarrow> history \<Rightarrow> history" where
  "hist_putc c (rows, r, x) =
     (if c = 10 then hist_newline (rows, r, x)
      else if c = 12 then (rows @ replicate ROW_CNT blank_row, length rows, 0)
      else if c = 8 then (rows, r, x - 1)
      else if c = 13 then (rows, r, 0)
      else if c = 9 then hist_at (rows, r, (x div 8 + 1) * 8)
      else hist_at (rows[r := (rows ! r)[x := (c, GRAY_ON_BLACK)]], r, x + 1))"

definition window :: "row list \<Rightarrow> nat \<Rightarrow> 'a screen_scheme \<Rightarrow> bool" where
  "window rows r d \<longleftrightarrow> ROW_CNT \<le> length rows \<and> fb d = drop (length rows - ROW_CNT) rows \<and>
     length rows - ROW_CNT \<le> r \<and> r < length rows \<and> cy d = r - (length rows - ROW_CNT) \<and> (\<forall>row \<in> set (fb d). length row = COL_CNT)"

fun shows_history :: "history \<Rightarrow> 'a screen_scheme \<Rightarrow> bool" where
  "shows_history (rows, r, x) d \<longleftrightarrow> window rows r d \<and> cx d = x \<and> x < COL_CNT"

text \<open>What the output to the screen does not touch.\<close>

definition same_system :: "'a screen_scheme \<Rightarrow> 'a screen_scheme \<Rightarrow> bool" where
  "same_system d d' \<longleftrightarrow> dv_sys d' = dv_sys d \<and> vga_inited d' = vga_inited d \<and> dv_input d' = dv_input d \<and> dv_txq d' = dv_txq d \<and> dv_mode d' = dv_mode d"

text \<open>The last two words written say where the cursor is: the high and the low byte of the index of its cell.\<close>

definition cursor_told :: "'a screen_scheme \<Rightarrow> bool" where
  "cursor_told d \<longleftrightarrow> (let cp = cx d + COL_CNT * cy d in
     drop (length (dv_out d) - 2) (dv_out d) = [(0x3d4, (0x0e OR (cp AND 0xff00)) mod 2 ^ 16), (0x3d4, (0x0f OR push_bit 8 cp) mod 2 ^ 16)])"

lemma length_one: "length xs = 1 \<Longrightarrow> \<exists>a. xs = [a]" by (cases xs) simp_all

lemma newline_window:
  assumes w: "window rows r d"
  shows "\<exists>d'. newline d = Some d' \<and> shows_history (hist_newline (rows, r, x)) d' \<and> same_system d d'"
proof (cases "r + 1 < length rows")
  case True
  then have "cy d + 1 < ROW_CNT" "Suc r - (length rows - ROW_CNT) = Suc (cy d)" using w by (auto simp: window_def)
  then show ?thesis using w True by (simp add: newline_def window_def same_system_def COL_CNT_def Let_def)
next
  case False
  let ?fb = "drop (length rows - ROW_CNT) rows"
  have l: "length ?fb = ROW_CNT" and r: "r = length rows - 1" and f: "fb d = ?fb" and c: "cy d = ROW_CNT - 1" "ROW_CNT \<le> length rows"
    using w False by (auto simp: window_def)
  have "length (tl ?fb) = ROW_CNT - 1" using l by simp
  then have t: "take (ROW_CNT - 1) (tl ?fb) = tl ?fb" by simp
  have "length (drop (ROW_CNT - 1) ?fb) = 1" using l by (simp add: ROW_CNT_def)
  from length_one [OF this] obtain a where a: "drop (ROW_CNT - 1) ?fb = [a]" ..
  have u: "(tl ?fb @ [a])[ROW_CNT - 1 := blank_row] = tl ?fb @ [blank_row]"
    using l by (simp add: list_update_append)
  have h: "drop (length (rows @ [blank_row]) - ROW_CNT) (rows @ [blank_row]) = tl ?fb @ [blank_row]"
    using c(2) by (simp add: drop_Suc tl_drop Suc_diff_le) (simp add: ROW_CNT_def)
  have e: "newline d = Some (d\<lparr>cx := 0, cy := ROW_CNT - 1, fb := tl ?fb @ [blank_row]\<rparr>)"
    using c(1) f a t u l by (simp add: newline_def clear_row_def blank_row_def [symmetric] Let_def ROW_CNT_def)
  have "\<forall>row \<in> set (tl ?fb @ [blank_row]). length row = COL_CNT" using w f by (auto simp: window_def blank_row_def dest: list.set_sel(2) in_set_tlD)
  then show ?thesis using e h r c False
    by (intro exI [of _ "d\<lparr>cx := 0, cy := ROW_CNT - 1, fb := tl ?fb @ [blank_row]\<rparr>"]) (auto simp: window_def same_system_def COL_CNT_def ROW_CNT_def)
qed

lemma set_cell_window:
  assumes w: "window rows r d" and x: "cx d < COL_CNT"
  shows "\<exists>fb'. set_cell c d = Some (d\<lparr>fb := fb'\<rparr>) \<and> window (rows[r := (rows ! r)[cx d := (c, GRAY_ON_BLACK)]]) r (d\<lparr>fb := fb'\<rparr>)"
proof -
  let ?k = "length rows - ROW_CNT"
  have f: "fb d = drop ?k rows" "cy d = r - ?k" "?k \<le> r" "r < length rows" "ROW_CNT \<le> length rows" "\<forall>row \<in> set (fb d). length row = COL_CNT"
    using w by (auto simp: window_def)
  have n: "fb d ! cy d = rows ! r" "cy d < length (fb d)" using f by simp_all
  have l: "length (rows ! r) = COL_CNT" using f(6) n nth_mem by metis
  let ?row = "(rows ! r)[cx d := (c, GRAY_ON_BLACK)]"
  have "(fb d)[cy d := ?row] = drop ?k (rows[r := ?row])" using f by (simp add: drop_update_swap)
  moreover have "\<forall>row \<in> set ((fb d)[cy d := ?row]). length row = COL_CNT" using f(6) l set_update_subset_insert by fastforce
  ultimately show ?thesis using f n l x by (intro exI [of _ "(fb d)[cy d := ?row]"]) (simp add: set_cell_def window_def)
qed

lemma clear_rows_ok: "n \<le> length (fb d) \<Longrightarrow> clear_rows n d = Some (d\<lparr>fb := replicate n blank_row @ drop n (fb d)\<rparr>)"
proof (induction n)
  case (Suc n)
  then have "(replicate n blank_row @ drop n (fb d))[n := blank_row] = replicate (Suc n) blank_row @ drop (Suc n) (fb d)"
    by (simp add: list_update_append replicate_app_Cons_same Cons_nth_drop_Suc [symmetric])
  then show ?case using Suc by (simp add: clear_row_def blank_row_def)
qed simp

text \<open>C40: once the screen is set up with its cursor inside it, whatever character is printed but a bell, the screen goes on showing the last 25 rows of everything
  ever written, with the cursor where it belongs: control characters move it, a full line wraps, the last line scrolls, a form feed starts 25 new rows, no access
  leaves the frame buffer, and the hardware cursor is told the position. Interrupts, the interrupt queues and the mode of the serial port are left as they were.\<close>

theorem vga_shows_history:
  assumes h: "shows_history h d" and i: "vga_inited d" "intr_on (dv_sys d) \<longrightarrow> \<not> in_external_intr (dv_sys d)" and c: "c \<noteq> 7"
  shows "\<exists>d'. vga_putc c d = Some (Returned, d') \<and> shows_history (hist_putc c h) d' \<and> same_system d d' \<and>
    cursor_told d'"
proof -
  obtain rows r x where hx: "h = (rows, r, x)" by (cases h)
  let ?d = "snd (dv_disable d)" and ?l = "intr_on (dv_sys d)"
  have d: "window rows r ?d" "cx ?d = x" "x < COL_CNT" "vga_init ?d = ?d"
    using h hx i(1) by (simp_all add: window_def dv_disable_def vga_init_def)
  have fin: "\<exists>d'. vga_putc_end ?l e = Some (Returned, d') \<and> shows_history g d' \<and> same_system d d' \<and>
      cursor_told d'"
    if g: "shows_history g e" "same_system ?d e" for g e
  proof -
    let ?m = "(move_cursor e)\<lparr>dv_sys := dv_sys d\<rparr>"
    have m: "fb ?m = fb e" "cx ?m = cx e" "cy ?m = cy e" by (simp_all add: move_cursor_def outw_def Let_def)
    have s: "dv_sys (move_cursor e) = (dv_sys d)\<lparr>intr_on := False\<rparr>" using g(2) by (simp add: move_cursor_def outw_def same_system_def dv_disable_def Let_def)
    have "dv_set_level ?l (move_cursor e) = Some ?m"
      using i(2) by (cases ?l) (simp_all add: dv_set_level_def s intr_set_level_def intr_enable_def intr_disable_def)
    moreover have "shows_history g ?m" using g(1) m by (cases g) (simp add: window_def)
    moreover have "same_system d ?m" using g(2) by (simp add: same_system_def move_cursor_def outw_def dv_disable_def Let_def)
    moreover have "cx e + COL_CNT * cy e < 2 ^ 16" using g(1) by (cases g) (auto simp: window_def COL_CNT_def ROW_CNT_def)
    then have "cursor_told ?m" by (simp add: cursor_told_def move_cursor_def outw_def Let_def)
    ultimately show ?thesis unfolding vga_putc_end_def using m(2,3) by (intro exI [of _ ?m]) simp
  qed
  have at: "\<exists>d'. (if COL_CNT \<le> cx e then newline e else Some e) = Some d' \<and> shows_history (hist_at (rows', r, cx e)) d' \<and> same_system e d'" if "window rows' r e" for rows' e
    using newline_window [OF that, of "cx e"] that by (auto simp: same_system_def)
  consider "c = 10" | "c = 12" | "c = 8" | "c = 13" | "c = 9" | "c \<notin> {7, 8, 9, 10, 12, 13}" using c by blast
  then show ?thesis
  proof cases
    case 1
    obtain e where e: "newline ?d = Some e" "shows_history (hist_newline (rows, r, x)) e" "same_system ?d e" using newline_window [OF d(1)] by blast
    then show ?thesis using fin [OF e(2,3)] 1 d(4) hx by (simp add: vga_putc_def split_beta dv_disable_def)
  next
    case 2
    let ?b = "?d\<lparr>fb := replicate ROW_CNT blank_row, cx := 0, cy := 0\<rparr>"
    have "length (fb ?d) = ROW_CNT" using d(1) by (auto simp: window_def)
    then have e: "cls ?d = Some (move_cursor ?b)" using clear_rows_ok [of ROW_CNT ?d] by (simp add: cls_def)
    have m: "fb (move_cursor ?b) = fb ?b" "cx (move_cursor ?b) = 0" "cy (move_cursor ?b) = 0" by (simp_all add: move_cursor_def outw_def Let_def)
    have a: "shows_history (rows @ replicate ROW_CNT blank_row, length rows, 0) (move_cursor ?b)"
      using m by (simp add: window_def COL_CNT_def ROW_CNT_def blank_row_def)
    have b: "same_system ?d (move_cursor ?b)" by (simp add: same_system_def move_cursor_def outw_def Let_def)
    from fin [OF a b] show ?thesis using 2 d(4) hx e by (simp add: vga_putc_def split_beta dv_disable_def)
  next
    case 3
    let ?e = "if 0 < cx ?d then ?d\<lparr>cx := cx ?d - 1\<rparr> else ?d"
    have "shows_history (rows, r, x - 1) ?e" "same_system ?d ?e" using d by (auto simp: window_def same_system_def)
    from fin [OF this] show ?thesis using 3 d hx by (auto simp: vga_putc_def split_beta dv_disable_def Let_def)
  next
    case 4
    have "shows_history (rows, r, 0) (?d\<lparr>cx := 0\<rparr>)" "same_system ?d (?d\<lparr>cx := 0\<rparr>)" using d by (auto simp: window_def same_system_def COL_CNT_def)
    from fin [OF this] show ?thesis using 4 d hx by (simp add: vga_putc_def split_beta dv_disable_def)
  next
    case 5
    let ?e = "?d\<lparr>cx := (cx ?d + 1 + 7) div 8 * 8\<rparr>"
    have w: "window rows r ?e" using d by (simp add: window_def)
    obtain e where e: "(if COL_CNT \<le> cx ?e then newline ?e else Some ?e) = Some e" "shows_history (hist_at (rows, r, cx ?e)) e" "same_system ?e e" using at [OF w] by blast
    have "same_system ?d e" using e(3) by (simp add: same_system_def)
    note f = fin [OF e(2) this]
    have p: "vga_putc c d = vga_putc_end ?l e" using 5 d(4) e(1) [unfolded dv_disable_def snd_conv] by (auto simp: vga_putc_def split_beta dv_disable_def Let_def split: if_splits)
    have t: "cx ?e = (x div 8 + 1) * 8" using d(2) div_add_self1 [of 8 x] by simp
    have q: "hist_putc c h = hist_at (rows, r, cx ?e)" unfolding t hx using 5 by (simp del: hist_at.simps)
    show ?thesis using f unfolding p q .
  next
    case 6
    have "cx ?d < COL_CNT" using d by simp
    from set_cell_window [OF d(1) this, of c] obtain fb' where f: "set_cell c ?d = Some (?d\<lparr>fb := fb'\<rparr>)"
        "window (rows[r := (rows ! r)[x := (c, GRAY_ON_BLACK)]]) r (?d\<lparr>fb := fb'\<rparr>)" using d(2) by auto
    let ?e = "?d\<lparr>fb := fb', cx := cx ?d + 1\<rparr>"
    have w: "window (rows[r := (rows ! r)[x := (c, GRAY_ON_BLACK)]]) r ?e" using f(2) by (simp add: window_def)
    obtain e where e: "(if COL_CNT \<le> cx ?e then newline ?e else Some ?e) = Some e"
        "shows_history (hist_at (rows[r := (rows ! r)[x := (c, GRAY_ON_BLACK)]], r, cx ?e)) e" "same_system ?e e" using at [OF w] by blast
    have "same_system ?d e" using e(3) by (simp add: same_system_def)
    note g = fin [OF e(2) this]
    have p: "vga_putc c d = vga_putc_end ?l e" using 6 d(4) f(1) e(1) [unfolded dv_disable_def snd_conv] by (auto simp: vga_putc_def split_beta dv_disable_def Let_def split: if_splits)
    have q: "hist_putc c h = hist_at (rows[r := (rows ! r)[x := (c, GRAY_ON_BLACK)]], r, cx ?e)" using 6 d(2) hx by (simp del: hist_at.simps)
    show ?thesis using g unfolding p q .
  qed
qed

definition demo_screen :: screen where
  "demo_screen = \<lparr>dv_sys = demo_intq_sys, dv_out = [], dv_in = \<lambda>p n. 0xff, dv_reads = 0, dv_con = [], dv_ticks = 0, dv_spins = 0, loops_per_tick = 0,
     idt = [], idtr = 0, intr_handlers = [], intr_names = [], unexpected_cnt = [], dv_input = demo_intq, dv_txq = demo_intq, dv_mode = POLL,
     left_shift = False, right_shift = False, left_alt = False, right_alt = False, left_ctrl = False, right_ctrl = False, caps_lock = False, key_cnt = 0,
     cx = 79, cy = 24, fb = replicate 25 blank_row, vga_inited = True\<rparr>"

theorem vga_shows_history_witness:
  "\<exists>d'. vga_putc 65 demo_screen = Some (Returned, d') \<and> fb d' = replicate 23 blank_row @ [blank_row[79 := (65, GRAY_ON_BLACK)], blank_row] \<and>
    cy d' = 24 \<and> cx d' = 0"
proof -
  have h: "shows_history (replicate 25 blank_row, 24, 79) demo_screen"
    by (simp add: window_def demo_screen_def COL_CNT_def ROW_CNT_def blank_row_def)
  have i: "vga_inited demo_screen" "intr_on (dv_sys demo_screen) \<longrightarrow> \<not> in_external_intr (dv_sys demo_screen)"
    by (simp_all add: demo_screen_def demo_intq_sys_def demo_sys_def)
  have r: "(replicate 25 blank_row)[24 := blank_row[79 := (65, GRAY_ON_BLACK)]] = replicate 24 blank_row @ [blank_row[79 := (65, GRAY_ON_BLACK)]]"
    by (simp add: eval_nat_numeral)
  have t: "tl (replicate 24 blank_row) = replicate 23 blank_row" by simp
  have "hist_putc 65 (replicate 25 blank_row, 24, 79) = (replicate 24 blank_row @ [blank_row[79 := (65, GRAY_ON_BLACK)], blank_row], 25, 0)"
    using r by (simp add: COL_CNT_def)
  then obtain d' where "vga_putc 65 demo_screen = Some (Returned, d')"
      "shows_history (replicate 24 blank_row @ [blank_row[79 := (65, GRAY_ON_BLACK)], blank_row], 25, 0) d'"
    using vga_shows_history [OF h i, of 65] by auto
  then show ?thesis by (intro exI [of _ d']) (simp add: window_def ROW_CNT_def)
qed

text \<open>The position that is found in the hardware is not checked: the first character can be written outside of the frame buffer.\<close>

theorem hardware_cursor_unchecked:
  "vga_putc 65 (demo_screen\<lparr>vga_inited := False\<rparr>) = None"
  by (simp add: vga_putc_def vga_init_def find_cursor_def inb_def outb_def dv_disable_def set_cell_def arr_get_def demo_screen_def COL_CNT_def Let_def)

end
