(* ===== verification/Descriptors.thy ===== *)
theory Descriptors
  imports Interrupts Palloc
begin

text \<open>
  The segments, \<^verbatim>\<open>userprog/gdt.c\<close>, and the task state segment, \<^verbatim>\<open>userprog/tss.c\<close>. The task state segment lies in a page of the memory of \<open>Palloc\<close>;
  the addresses of the tables are arguments.
\<close>

section \<open>Segment descriptors\<close>

definition SEL_NULL :: nat where "SEL_NULL = 0x00"
definition SEL_KDSEG :: nat where "SEL_KDSEG = 0x10"
definition SEL_UCSEG :: nat where "SEL_UCSEG = 0x1B"
definition SEL_UDSEG :: nat where "SEL_UDSEG = 0x23"
definition SEL_TSS :: nat where "SEL_TSS = 0x28"
definition SEL_CNT :: nat where "SEL_CNT = 6"

datatype seg_class = CLS_SYSTEM | CLS_CODE_DATA
datatype seg_granularity = GRAN_BYTE | GRAN_PAGE

definition make_seg_desc :: "u32 \<Rightarrow> u32 \<Rightarrow> seg_class \<Rightarrow> int \<Rightarrow> int \<Rightarrow> seg_granularity \<Rightarrow> u64 option" where
  "make_seg_desc base limit cls ty dpl granularity = do {
     ASSERT (limit \<le> 0xfffff);
     ASSERT (0 \<le> ty \<and> ty \<le> 15);
     ASSERT (0 \<le> dpl \<and> dpl \<le> 3);
     let e0 = (limit AND 0xffff) OR push_bit 16 base;
     let e1 = (drop_bit 16 base AND 0xff) OR push_bit 8 (word_of_int ty) OR push_bit 12 (if cls = CLS_CODE_DATA then 1 else 0) OR
       push_bit 13 (word_of_int dpl) OR push_bit 15 1 OR (limit AND 0xf0000) OR push_bit 22 1 OR
       push_bit 23 (if granularity = GRAN_PAGE then 1 else 0) OR (base AND 0xff000000);
     Some (ucast e0 OR push_bit 32 (ucast e1)) }"

definition make_code_desc :: "int \<Rightarrow> u64 option" where
  "make_code_desc dpl = make_seg_desc 0 0xfffff CLS_CODE_DATA 10 dpl GRAN_PAGE"

definition make_data_desc :: "int \<Rightarrow> u64 option" where
  "make_data_desc dpl = make_seg_desc 0 0xfffff CLS_CODE_DATA 2 dpl GRAN_PAGE"

definition make_tss_desc :: "u32 \<Rightarrow> u64 option" where
  "make_tss_desc laddr = make_seg_desc laddr 0x67 CLS_SYSTEM 9 0 GRAN_BYTE"

definition make_gdtr_operand :: "u16 \<Rightarrow> u32 \<Rightarrow> u64" where
  "make_gdtr_operand limit base = ucast limit OR push_bit 16 (ucast base)"

section \<open>The tables\<close>

record segments =
  gdt :: "u64 list"
  gdtr :: u64
  task_register :: nat
  tss_ptr :: nat
  sg_mem :: palloc

definition tss_get :: "segments \<Rightarrow> nat option" where
  "tss_get s = do { ASSERT (tss_ptr s \<noteq> 0); Some (tss_ptr s) }"

text \<open>Stores into the members of the structure: \<^verbatim>\<open>esp0\<close> at offset 4, \<^verbatim>\<open>ss0\<close> at 8, \<^verbatim>\<open>bitmap\<close> at 102.\<close>

definition put_bytes_at :: "nat \<Rightarrow> u8 list \<Rightarrow> palloc \<Rightarrow> palloc" where
  "put_bytes_at a bs m = m\<lparr>ram := \<lambda>x. if a \<le> x \<and> x < a + length bs then bs ! (x - a) else ram m x\<rparr>"

definition put_u16 :: "nat \<Rightarrow> u16 \<Rightarrow> palloc \<Rightarrow> palloc" where
  "put_u16 a v = put_bytes_at a [ucast v, ucast (drop_bit 8 v)]"

definition put_u32 :: "nat \<Rightarrow> u32 \<Rightarrow> palloc \<Rightarrow> palloc" where
  "put_u32 a v = put_bytes_at a [ucast v, ucast (drop_bit 8 v), ucast (drop_bit 16 v), ucast (drop_bit 24 v)]"

definition tss_update :: "ksys \<Rightarrow> segments \<Rightarrow> segments option" where
  "tss_update k s = do {
     ASSERT (tss_ptr s \<noteq> 0);
     (t, _) \<leftarrow> thread_current k;
     Some (s\<lparr>sg_mem := put_u32 (tss_ptr s + 4) (of_nat (t + PGSIZE)) (sg_mem s)\<rparr>) }"

definition tss_init :: "ksys \<Rightarrow> segments \<Rightarrow> segments option" where
  "tss_init k s = do {
     (a, m) \<leftarrow> palloc_get_page (PAL_ASSERT OR PAL_ZERO) (sg_mem s);
     a \<leftarrow> a;
     let m = put_u16 (a + 8) (of_nat SEL_KDSEG) m;
     let m = put_u16 (a + 102) 0xdfff m;
     tss_update k (s\<lparr>tss_ptr := a, sg_mem := m\<rparr>) }"

definition set_segment :: "nat \<Rightarrow> u64 option \<Rightarrow> segments \<Rightarrow> segments option" where
  "set_segment sel desc s = do { d \<leftarrow> desc; g \<leftarrow> arr_set (gdt s) (sel div 8) d; Some (s\<lparr>gdt := g\<rparr>) }"

definition gdt_init :: "u32 \<Rightarrow> segments \<Rightarrow> segments option" where
  "gdt_init table s = do {
     s \<leftarrow> set_segment SEL_NULL (Some 0) s;
     s \<leftarrow> set_segment (unat SEL_KCSEG) (make_code_desc 0) s;
     s \<leftarrow> set_segment SEL_KDSEG (make_data_desc 0) s;
     s \<leftarrow> set_segment SEL_UCSEG (make_code_desc 3) s;
     s \<leftarrow> set_segment SEL_UDSEG (make_data_desc 3) s;
     t \<leftarrow> tss_get s;
     s \<leftarrow> set_segment SEL_TSS (make_tss_desc (of_nat t)) s;
     Some (s\<lparr>gdtr := make_gdtr_operand (of_nat (8 * SEL_CNT - 1)) table, task_register := SEL_TSS\<rparr>) }"

section \<open>What a descriptor says\<close>

definition desc_base :: "u64 \<Rightarrow> u32" where
  "desc_base d = (ucast (drop_bit 16 d) AND 0xffffff) OR (ucast (drop_bit 32 d) AND 0xff000000)"

definition desc_limit :: "u64 \<Rightarrow> u32" where
  "desc_limit d = (ucast d AND 0xffff) OR (ucast (drop_bit 32 d) AND 0xf0000)"

definition desc_ok :: "u64 \<Rightarrow> u32 \<Rightarrow> u32 \<Rightarrow> seg_class \<Rightarrow> int \<Rightarrow> int \<Rightarrow> seg_granularity \<Rightarrow> bool" where
  "desc_ok d base limit cls ty dpl g \<longleftrightarrow> desc_base d = base \<and> desc_limit d = limit \<and> (bit d 44 \<longleftrightarrow> cls = CLS_CODE_DATA) \<and>
     gate_type d = ty \<and> gate_dpl d = dpl \<and> gate_present d \<and> bit d 54 \<and> (bit d 55 \<longleftrightarrow> g = GRAN_PAGE)"

lemma low_byte: "bit ((w :: u32) AND 0xff) n \<longleftrightarrow> n < 8 \<and> bit w n"
proof -
  have m: "(0xff :: u32) = mask 8" by (simp add: mask_eq_exp_minus_1)
  show ?thesis unfolding m bit_and_iff bit_mask_iff by (auto dest: bit_imp_le_length)
qed

lemma low_three: "bit ((w :: u32) AND 0xffffff) n \<longleftrightarrow> n < 24 \<and> bit w n"
proof -
  have m: "(0xffffff :: u32) = mask 24" by (simp add: mask_eq_exp_minus_1)
  show ?thesis unfolding m bit_and_iff bit_mask_iff by (auto dest: bit_imp_le_length)
qed

lemma high_byte: "bit ((w :: u32) AND 0xff000000) n \<longleftrightarrow> 24 \<le> n \<and> bit w n"
proof -
  have m: "(0xff000000 :: u32) = push_bit 24 (mask 8)" by (simp add: mask_eq_exp_minus_1)
  show ?thesis unfolding m bit_and_iff bit_push_bit_iff bit_mask_iff by (auto dest: bit_imp_le_length)
qed

lemma limit_nibble: "bit ((w :: u32) AND 0xf0000) n \<longleftrightarrow> 16 \<le> n \<and> n < 20 \<and> bit w n"
proof -
  have m: "(0xf0000 :: u32) = push_bit 16 (mask 4)" by (simp add: mask_eq_exp_minus_1)
  show ?thesis unfolding m bit_and_iff bit_push_bit_iff bit_mask_iff by (auto dest: bit_imp_le_length)
qed

lemma make_seg_desc_fields:
  assumes "limit \<le> 0xfffff" "0 \<le> ty" "ty \<le> 15" "0 \<le> dpl" "dpl \<le> 3"
  shows "\<exists>g. make_seg_desc base limit cls ty dpl gran = Some g \<and> desc_ok g base limit cls ty dpl gran"
proof -
  let ?d = "word_of_int dpl :: u32" and ?t = "word_of_int ty :: u32" and ?c = "if cls = CLS_CODE_DATA then 1 else 0 :: u32" and ?g = "if gran = GRAN_PAGE then 1 else 0 :: u32"
  have d: "?d < 4" "uint ?d = dpl" and t: "?t < 16" "uint ?t = ty" using assms by (auto simp: word_less_alt take_bit_int_eq_self uint_word_of_int)
  have bd: "bit ?d n \<Longrightarrow> n < 2" for n using small_bits [of ?d 2 n] d(1) by simp
  have bt: "bit ?t n \<Longrightarrow> n < 4" for n using small_bits [of ?t 4 n] t(1) by simp
  have "limit < 2 ^ 20" using assms(1) by (simp add: word_le_nat_alt word_less_nat_alt)
  then have bl: "bit limit n \<Longrightarrow> n < 20" for n using small_bits [of limit 20 n] by simp
  have bc: "bit ?c n \<longleftrightarrow> n = 0 \<and> cls = CLS_CODE_DATA" and bg: "bit ?g n \<longleftrightarrow> n = 0 \<and> gran = GRAN_PAGE" for n by (auto simp: bit_1_iff)
  obtain e0 e1 where e: "e0 = (limit AND 0xffff) OR push_bit 16 base"
      "e1 = (drop_bit 16 base AND 0xff) OR push_bit 8 ?t OR push_bit 12 ?c OR push_bit 13 ?d OR push_bit 15 1 OR (limit AND 0xf0000) OR push_bit 22 1 OR
        push_bit 23 ?g OR (base AND 0xff000000)" by blast
  have b0: "bit e0 n \<longleftrightarrow> n < 32 \<and> (n < 16 \<and> bit limit n \<or> 16 \<le> n \<and> bit base (n - 16))" for n
    unfolding e bit_or_iff low_half bit_push_bit_iff by (auto dest: bit_imp_le_length)
  have p: "bit (push_bit 8 ?t) n \<longleftrightarrow> 8 \<le> n \<and> bit ?t (n - 8)" "bit (push_bit 13 ?d) n \<longleftrightarrow> 13 \<le> n \<and> bit ?d (n - 13)"
      "bit (push_bit 12 ?c) n \<longleftrightarrow> n = 12 \<and> cls = CLS_CODE_DATA" "bit (push_bit 23 ?g) n \<longleftrightarrow> n = 23 \<and> gran = GRAN_PAGE"
      "bit (push_bit 15 (1 :: u32)) n \<longleftrightarrow> n = 15" "bit (push_bit 22 (1 :: u32)) n \<longleftrightarrow> n = 22" for n
    using bt [of "n - 8"] bd [of "n - 13"] bc [of "n - 12"] bg [of "n - 23"] unfolding bit_push_bit_iff bit_1_iff by fastforce+
  have l: "bit (limit AND 0xf0000) n \<longleftrightarrow> 16 \<le> n \<and> bit limit n" "bit (drop_bit 16 base AND 0xff) n \<longleftrightarrow> n < 8 \<and> bit base (16 + n)" for n
    unfolding limit_nibble low_byte bit_drop_bit_eq using bl [of n] by auto
  have b1: "bit e1 n \<longleftrightarrow> n < 8 \<and> bit base (16 + n) \<or> 8 \<le> n \<and> bit ?t (n - 8) \<or> n = 12 \<and> cls = CLS_CODE_DATA \<or> 13 \<le> n \<and> bit ?d (n - 13) \<or> n = 15 \<or>
      16 \<le> n \<and> bit limit n \<or> n = 22 \<or> n = 23 \<and> gran = GRAN_PAGE \<or> 24 \<le> n \<and> bit base n" for n
    unfolding e bit_or_iff high_byte p l by blast
  obtain w where w: "w = (ucast e0 OR push_bit 32 (ucast e1) :: u64)" by blast
  have g: "bit w n \<longleftrightarrow> (if n < 32 then bit e0 n else bit e1 (n - 32))" for n unfolding w two_words by simp
  have m: "(15 :: u64) = mask 4" "(3 :: u64) = mask 2" by (simp_all add: mask_eq_exp_minus_1)
  have w0: "bit w n \<longleftrightarrow> n < 16 \<and> bit limit n \<or> 16 \<le> n \<and> bit base (n - 16)" if "n < 32" for n using that unfolding g b0 by simp
  have w1: "bit w (n + 32) \<longleftrightarrow> bit e1 n" for n unfolding g by simp
  have base: "desc_base w = base"
  proof (rule bit_word_eqI)
    fix n assume n: "n < LENGTH(32)"
    have "bit (desc_base w) n \<longleftrightarrow> n < 24 \<and> bit w (16 + n) \<or> 24 \<le> n \<and> bit w (32 + n)"
      using n unfolding desc_base_def bit_or_iff low_three high_byte bit_ucast_iff bit_drop_bit_eq by auto
    moreover have "bit w (16 + n) \<longleftrightarrow> bit base n" if "n < 16" using that w0 [of "16 + n"] by simp
    moreover have "bit w (16 + n) \<longleftrightarrow> bit base n" if "16 \<le> n" "n < 24"
    proof -
      have "bit w (16 + n) \<longleftrightarrow> bit e1 (n - 16)" using that w1 [of "n - 16"] by (simp add: add.commute)
      moreover have "n - 16 < 8" "16 + (n - 16) = n" using that by simp_all
      ultimately show ?thesis unfolding b1 by auto
    qed
    moreover have "bit w (32 + n) \<longleftrightarrow> bit base n" if "24 \<le> n"
      using that w1 [of n] bt [of "n - 8"] bd [of "n - 13"] bl [of n] unfolding b1 add.commute [of 32] by linarith
    ultimately show "bit (desc_base w) n \<longleftrightarrow> bit base n" by (meson not_le)
  qed
  have limit: "desc_limit w = limit"
  proof (rule bit_word_eqI)
    fix n assume n: "n < LENGTH(32)"
    have "bit (desc_limit w) n \<longleftrightarrow> n < 16 \<and> bit w n \<or> 16 \<le> n \<and> n < 20 \<and> bit w (32 + n)"
      using n unfolding desc_limit_def bit_or_iff low_half limit_nibble bit_ucast_iff bit_drop_bit_eq by auto
    moreover have "bit w n \<longleftrightarrow> bit limit n" if "n < 16" using that w0 [of n] by simp
    moreover have "bit w (32 + n) \<longleftrightarrow> bit limit n" if "16 \<le> n" "n < 20"
      using that w1 [of n] bt [of "n - 8"] bd [of "n - 13"] unfolding b1 add.commute [of 32] by linarith
    ultimately show "bit (desc_limit w) n \<longleftrightarrow> bit limit n" using bl [of n] by (meson not_le)
  qed
  have "drop_bit 45 w AND 3 = ucast ?d"
  proof (rule bit_word_eqI)
    fix n assume "n < LENGTH(64)"
    have "bit (drop_bit 45 w AND 3) n \<longleftrightarrow> n < 2 \<and> bit e1 (13 + n)"
      using w1 [of "13 + n"] unfolding m(2) bit_and_iff bit_mask_iff bit_drop_bit_eq by (auto simp: add.commute)
    then show "bit (drop_bit 45 w AND 3) n \<longleftrightarrow> bit (ucast ?d :: u64) n" unfolding b1 bit_ucast_iff using bt [of "5 + n"] bd [of n] by auto
  qed
  then have dpl: "gate_dpl w = dpl" using d(2) uint_wide [of ?d] by (simp add: gate_dpl_def)
  have "drop_bit 40 w AND 15 = ucast ?t"
  proof (rule bit_word_eqI)
    fix n assume "n < LENGTH(64)"
    have "bit (drop_bit 40 w AND 15) n \<longleftrightarrow> n < 4 \<and> bit e1 (8 + n)"
      using w1 [of "8 + n"] unfolding m(1) bit_and_iff bit_mask_iff bit_drop_bit_eq by (auto simp: add.commute)
    then show "bit (drop_bit 40 w AND 15) n \<longleftrightarrow> bit (ucast ?t :: u64) n" unfolding b1 bit_ucast_iff using bt [of n] by auto
  qed
  then have ty: "gate_type w = ty" using t(2) uint_wide [of ?t] by (simp add: gate_type_def)
  have fl: "bit w 44 \<longleftrightarrow> cls = CLS_CODE_DATA" "gate_present w" "bit w 54" "bit w 55 \<longleftrightarrow> gran = GRAN_PAGE"
    unfolding gate_present_def g b1 by (auto dest: bd bt bl)
  show ?thesis using assms e w base limit dpl ty fl by (simp add: make_seg_desc_def desc_ok_def Let_def)
qed

text \<open>The table that \<^verbatim>\<open>gdt_init\<close> leaves: flat code and data segments for the kernel and, with privilege 3, for user code, and the task state segment.\<close>

theorem gdt_init_segments:
  assumes "tss_ptr s \<noteq> 0" and "length (gdt s) = SEL_CNT"
  shows "\<exists>s'. gdt_init table s = Some s' \<and> gdt s' ! 0 = 0 \<and>
    desc_ok (gdt s' ! 1) 0 0xfffff CLS_CODE_DATA 10 0 GRAN_PAGE \<and> desc_ok (gdt s' ! 2) 0 0xfffff CLS_CODE_DATA 2 0 GRAN_PAGE \<and>
    desc_ok (gdt s' ! 3) 0 0xfffff CLS_CODE_DATA 10 3 GRAN_PAGE \<and> desc_ok (gdt s' ! 4) 0 0xfffff CLS_CODE_DATA 2 3 GRAN_PAGE \<and>
    desc_ok (gdt s' ! 5) (of_nat (tss_ptr s)) 0x67 CLS_SYSTEM 9 0 GRAN_BYTE"
proof -
  obtain kc kd uc ud where c: "make_code_desc 0 = Some kc" "desc_ok kc 0 0xfffff CLS_CODE_DATA 10 0 GRAN_PAGE"
      "make_data_desc 0 = Some kd" "desc_ok kd 0 0xfffff CLS_CODE_DATA 2 0 GRAN_PAGE"
      "make_code_desc 3 = Some uc" "desc_ok uc 0 0xfffff CLS_CODE_DATA 10 3 GRAN_PAGE"
      "make_data_desc 3 = Some ud" "desc_ok ud 0 0xfffff CLS_CODE_DATA 2 3 GRAN_PAGE"
    using make_seg_desc_fields [of "0xfffff" 10 0 0 CLS_CODE_DATA GRAN_PAGE] make_seg_desc_fields [of "0xfffff" 2 0 0 CLS_CODE_DATA GRAN_PAGE]
      make_seg_desc_fields [of "0xfffff" 10 3 0 CLS_CODE_DATA GRAN_PAGE] make_seg_desc_fields [of "0xfffff" 2 3 0 CLS_CODE_DATA GRAN_PAGE]
    unfolding make_code_desc_def make_data_desc_def by auto
  obtain ts where t: "make_tss_desc (of_nat (tss_ptr s)) = Some ts" "desc_ok ts (of_nat (tss_ptr s)) 0x67 CLS_SYSTEM 9 0 GRAN_BYTE"
    using make_seg_desc_fields [of "0x67" 9 0 "of_nat (tss_ptr s)" CLS_SYSTEM GRAN_BYTE] unfolding make_tss_desc_def by auto
  obtain g0 g1 g2 g3 g4 g5 where g: "gdt s = [g0, g1, g2, g3, g4, g5]"
    using assms(2) by (auto simp: SEL_CNT_def eval_nat_numeral length_Suc_conv)
  have k: "unat SEL_KCSEG div 8 = 1" by (simp add: SEL_KCSEG_def)
  have "gdt_init table s = Some (s\<lparr>gdt := [0, kc, kd, uc, ud, ts], gdtr := make_gdtr_operand (of_nat (8 * SEL_CNT - 1)) table, task_register := SEL_TSS\<rparr>)"
    using assms(1) by (simp add: gdt_init_def set_segment_def tss_get_def c t g k arr_set_def SEL_NULL_def SEL_KDSEG_def SEL_UCSEG_def SEL_UDSEG_def SEL_TSS_def)
  then show ?thesis using c t by simp
qed

end
