(* ===== verification/Rtc.thy ===== *)
theory Rtc
  imports Interrupts "HOL-Library.Signed_Division"
begin

text \<open>
  The real-time clock, \<^verbatim>\<open>devices/rtc.c\<close>. The registers are read through the ports of the machine; signed overflow counts as stopping the kernel,
  and \<^verbatim>\<open>time_t\<close> has 32 bits without a sign.
\<close>

definition CMOS_REG_SET :: nat where "CMOS_REG_SET = 0x70"
definition CMOS_REG_IO :: nat where "CMOS_REG_IO = 0x71"
definition RTC_REG_SEC :: nat where "RTC_REG_SEC = 0"
definition RTC_REG_MIN :: nat where "RTC_REG_MIN = 2"
definition RTC_REG_HOUR :: nat where "RTC_REG_HOUR = 4"
definition RTC_REG_MDAY :: nat where "RTC_REG_MDAY = 7"
definition RTC_REG_MON :: nat where "RTC_REG_MON = 8"
definition RTC_REG_YEAR :: nat where "RTC_REG_YEAR = 9"

definition bcd_to_bin :: "u8 \<Rightarrow> int" where
  "bcd_to_bin x = uint (x AND 0x0f) + uint (drop_bit 4 x) * 10"

definition cmos_read :: "nat \<Rightarrow> 'a machine_scheme \<Rightarrow> u8 \<times> 'a machine_scheme" where
  "cmos_read index d = inb CMOS_REG_IO (outb CMOS_REG_SET index d)"

definition read_rtc :: "nat \<Rightarrow> 'a machine_scheme \<Rightarrow> int \<times> 'a machine_scheme" where
  "read_rtc index d = (let (v, d) = cmos_read index d in (bcd_to_bin v, d))"

partial_function (option) read_time :: "'a machine_scheme \<Rightarrow> ((int \<times> int \<times> int \<times> int \<times> int \<times> int) \<times> 'a machine_scheme) option" where
  "read_time d =
     (let (sec, d) = read_rtc RTC_REG_SEC d;
          (minute, d) = read_rtc RTC_REG_MIN d;
          (hour, d) = read_rtc RTC_REG_HOUR d;
          (mday, d) = read_rtc RTC_REG_MDAY d;
          (mon, d) = read_rtc RTC_REG_MON d;
          (year, d) = read_rtc RTC_REG_YEAR d;
          (again, d) = read_rtc RTC_REG_SEC d in
      if sec \<noteq> again then read_time d else Some ((sec, minute, hour, mday, mon, year), d))"

definition days_per_month :: "int list" where
  "days_per_month = [31, 28, 31, 30, 31, 30, 31, 31, 30, 31, 30, 31]"

primrec month_loop :: "nat \<Rightarrow> u32 \<Rightarrow> u32 option" where
  "month_loop 0 time = Some time"
| "month_loop (Suc i) time = do { time \<leftarrow> month_loop i time; days \<leftarrow> arr_get days_per_month i; Some (time + word_of_int (days * 24 * 60 * 60)) }"

definition rtc_seconds :: "int \<Rightarrow> int \<Rightarrow> int \<Rightarrow> int \<Rightarrow> int \<Rightarrow> int \<Rightarrow> u32 option" where
  "rtc_seconds sec minute hour mday mon year = do {
     let year = (if year < 70 then year + 100 else year);
     let year = year - 70;
     let t = (year * 365 + (year - 1) sdiv 4) * 24 * 60 * 60;
     ASSERT (- (2 ^ 31) \<le> t \<and> t < 2 ^ 31);
     time \<leftarrow> month_loop (nat mon) (word_of_int t);
     let time = (if 2 < mon \<and> year smod 4 = 0 then time + 24 * 60 * 60 else time);
     Some (time + word_of_int ((mday - 1) * 24 * 60 * 60) + word_of_int (hour * 60 * 60) + word_of_int (minute * 60) + word_of_int sec) }"

definition rtc_get_time :: "'a machine_scheme \<Rightarrow> (u32 \<times> 'a machine_scheme) option" where
  "rtc_get_time d = do {
     ((sec, minute, hour, mday, mon, year), d) \<leftarrow> read_time d;
     time \<leftarrow> rtc_seconds sec minute hour mday mon year;
     Some (time, d) }"

text \<open>A reading is taken when two readings of the seconds around it agree.\<close>

lemma read_time_stable:
  assumes "dv_in d CMOS_REG_IO (dv_reads d) = dv_in d CMOS_REG_IO (dv_reads d + 6)"
  shows "\<exists>d'. read_time d = Some ((bcd_to_bin (dv_in d CMOS_REG_IO (dv_reads d)), bcd_to_bin (dv_in d CMOS_REG_IO (dv_reads d + 1)),
    bcd_to_bin (dv_in d CMOS_REG_IO (dv_reads d + 2)), bcd_to_bin (dv_in d CMOS_REG_IO (dv_reads d + 3)), bcd_to_bin (dv_in d CMOS_REG_IO (dv_reads d + 4)),
    bcd_to_bin (dv_in d CMOS_REG_IO (dv_reads d + 5))), d')"
proof -
  have e: "n + 2 = Suc (Suc n)" "n + 3 = Suc (Suc (Suc n))" "n + 4 = Suc (Suc (Suc (Suc n)))" "n + 5 = Suc (Suc (Suc (Suc (Suc n))))"
    "n + 6 = Suc (Suc (Suc (Suc (Suc (Suc n)))))" for n :: nat by simp_all
  show ?thesis using assms unfolding e by (subst read_time.simps) (simp add: read_rtc_def cmos_read_def inb_def outb_def Let_def)
qed

text \<open>The loop over the months includes the current one, and leap years are taken from the years since 1970: the epoch is reported as the first of February 1970,
  and the first of March 2000 (951868800) as the last of March.\<close>

lemma month_loop_1: "month_loop (Suc 0) t = Some (t + 2678400)"
  by (simp add: days_per_month_def arr_get_def)

lemma month_loop_3: "month_loop (Suc (Suc (Suc 0))) t = Some (t + 7776000)"
  by (simp add: days_per_month_def arr_get_def)

theorem rtc_month_too_far:
  "rtc_seconds 0 0 0 1 1 70 = Some (31 * 24 * 60 * 60) \<and> rtc_seconds 0 0 0 1 3 0 = Some (951868800 + 30 * 24 * 60 * 60)"
proof -
  have n: "nat 1 = Suc 0" "nat 3 = Suc (Suc (Suc 0))" by simp_all
  have q: "(0 - 1 :: int) sdiv 4 = 0" "(30 - 1 :: int) sdiv 4 = 7" "(30 :: int) smod 4 = 2" "(1 :: int) sdiv 4 = 0"
    by (simp_all add: signed_divide_int_def signed_modulo_int_def)
  show ?thesis unfolding rtc_seconds_def n by (simp add: q month_loop_1 month_loop_3 Let_def del: month_loop.simps)
qed

end
