(* ===== verification/Spec2Isabelle.thy ===== *)
theory Spec2Isabelle
  imports Prelude Bitmap Kernel_List Threads Synch Lock_Protocol Block Cache Fs_Base Inode Inode_File CString File Directory Filesys
    Arith64 Stdlib Hash Palloc Pagedir Swap Suppl Frame Page Eviction Loader Process User_Memory Syscall Malloc Allocator Stdio Ustar Prng Intq Interrupts Serial Kbd Timers Vga Descriptors Rtc
begin

text \<open>
  A verification library for the Pintos kernel of this repository (the directories \<^verbatim>\<open>threads\<close>, \<^verbatim>\<open>devices\<close>, \<^verbatim>\<open>lib\<close>, \<^verbatim>\<open>userprog\<close>,
  \<^verbatim>\<open>vm\<close> and \<^verbatim>\<open>filesys\<close> of its \<^verbatim>\<open>src\<close>), a translation of the C code into functions and the theorems that make it correct.
  A definition has the name of the C function; the rest of this text says which theory holds what.

  \<^bold>\<open>The parts of the kernel and how they work together.\<close>
  At the bottom are data structures (bitmaps, linked lists, hash tables, strings, sorting, 64-bit division, formatted output, random numbers, tar headers).
  The thread system keeps the run queue, the semaphores and the sleeping threads; locks are built on semaphores, interrupt queues and
  the allocators on locks. Pages come from the page allocator (\<^verbatim>\<open>palloc\<close>), blocks within pages from \<^verbatim>\<open>malloc\<close>. Disks are arrays of
  sectors divided into partitions; the buffer cache stands between the file-system partition and inodes, free map, files and directories;
  \<^verbatim>\<open>fsaccess\<close> gives each thread numbers for its open files. Page directories map user pages to frames; the frame table says which thread uses a frame,
  the supplemental page table where a page comes from that is in no frame: a file, the swap space, or nowhere. Page faults, the loader, the processes
  (start, wait, exit) and the system call handler sit on top. Interrupts come in through the descriptor table and lead to the timer, keyboard and serial port,
  whose bytes go through interrupt queues; the screen and the serial port take the output.

  \<^bold>\<open>Theories, and the files they model.\<close>
  \<^item> \<open>Prelude\<close>: word types, arithmetic on sizes (\<^verbatim>\<open>lib/round.h\<close>), arrays with checked access, \<^verbatim>\<open>ASSERT\<close> (\<^verbatim>\<open>lib/debug.h\<close>).
  \<^item> \<open>Bitmap\<close> (\<^verbatim>\<open>lib/kernel/bitmap.c\<close>), \<open>Kernel_List\<close> (\<^verbatim>\<open>lib/kernel/list.c\<close>, pointers in a heap), \<open>Hash\<close> (\<^verbatim>\<open>lib/kernel/hash.c\<close>), \<open>CString\<close> (\<^verbatim>\<open>lib/string.c\<close>),
    \<open>Stdlib\<close> (\<^verbatim>\<open>lib/stdlib.c\<close>), \<open>Arith64\<close> (\<^verbatim>\<open>lib/arithmetic.c\<close>), \<open>Stdio\<close> (\<^verbatim>\<open>lib/stdio.c\<close>), \<open>Ustar\<close> (\<^verbatim>\<open>lib/ustar.c\<close>), \<open>Prng\<close> (\<^verbatim>\<open>lib/random.c\<close>).
  \<^item> \<open>Threads\<close> (\<^verbatim>\<open>threads/thread.c\<close>: scheduler and thread life), \<open>Synch\<close> (\<^verbatim>\<open>threads/synch.c\<close>, sleeping and the tick), \<open>Lock_Protocol\<close> (all interleavings of
    threads that use locks), \<open>Interrupts\<close> (\<^verbatim>\<open>threads/interrupt.c\<close> and the registrations of \<^verbatim>\<open>exception.c\<close> and \<^verbatim>\<open>syscall.c\<close>), \<open>Descriptors\<close> (\<^verbatim>\<open>userprog/gdt.c\<close>, \<^verbatim>\<open>tss.c\<close>).
  \<^item> \<open>Palloc\<close> (\<^verbatim>\<open>threads/palloc.c\<close>), \<open>Malloc\<close> and \<open>Allocator\<close> (\<^verbatim>\<open>threads/malloc.c\<close>: the operations, and what they promise).
  \<^item> \<open>Intq\<close> (\<^verbatim>\<open>devices/intq.c\<close>), \<open>Serial\<close> (\<^verbatim>\<open>serial.c\<close>, \<^verbatim>\<open>input.c\<close>), \<open>Kbd\<close> (\<^verbatim>\<open>kbd.c\<close>), \<open>Timers\<close> (\<^verbatim>\<open>pit.c\<close>, \<^verbatim>\<open>timer.c\<close>, \<^verbatim>\<open>speaker.c\<close>), \<open>Vga\<close> (\<^verbatim>\<open>vga.c\<close>), \<open>Rtc\<close> (\<^verbatim>\<open>rtc.c\<close>).
  \<^item> \<open>Block\<close> (\<^verbatim>\<open>devices/block.c\<close>, \<^verbatim>\<open>partition.c\<close>), \<open>Cache\<close> (\<^verbatim>\<open>filesys/cache.c\<close>), \<open>Fs_Base\<close> and \<open>File\<close> (\<^verbatim>\<open>filesys/free-map.c\<close>, \<^verbatim>\<open>file.c\<close>), \<open>Inode\<close> and
    \<open>Inode_File\<close> (\<^verbatim>\<open>filesys/inode.c\<close>: the operations, and files as byte arrays), \<open>Directory\<close> (\<^verbatim>\<open>directory.c\<close>), \<open>Filesys\<close> (\<^verbatim>\<open>filesys.c\<close>, \<^verbatim>\<open>fsaccess.c\<close>).
  \<^item> \<open>Pagedir\<close> (\<^verbatim>\<open>userprog/pagedir.c\<close>, \<^verbatim>\<open>threads/pte.h\<close>), \<open>Swap\<close> (\<^verbatim>\<open>vm/swap.c\<close>), \<open>Suppl\<close> and \<open>Page\<close> (\<^verbatim>\<open>vm/page.c\<close>, the page fault handler of \<^verbatim>\<open>userprog/exception.c\<close>),
    \<open>Frame\<close> and \<open>Eviction\<close> (\<^verbatim>\<open>vm/frame.c\<close>), \<open>User_Memory\<close> (what user code sees), \<open>Loader\<close> and \<open>Process\<close> (\<^verbatim>\<open>userprog/process.c\<close>), \<open>Syscall\<close> (\<^verbatim>\<open>userprog/syscall.c\<close>).

  \<^bold>\<open>What the groups of lemmas show.\<close>
  \<^item> Data structures: each is the abstract thing it stands for. The list sort terminates and sorts in place, a hash table is a finite map, the heap sort sorts,
    the division routines divide, the string functions work on the strings of the memory, \<^verbatim>\<open>printf\<close> never leaves its buffer.
  \<^item> Threads: the scheduler's invariant is kept by every operation, semaphores wake in order, locks exclude each other in every reachable configuration,
    the run queue is round-robin, the tick wakes the right sleepers.
  \<^item> Allocators: what is handed out is apart from all that is in use, over whole histories of requests (\<open>malloc_history\<close>).
  \<^item> File system: the cache is transparent and made durable by a flush, files are byte arrays, directories are maps, allocated sectors are disjoint, descriptors are private.
  \<^item> Virtual memory: page directories are maps, swap space returns what was put in, the frame table is exact, eviction takes the page the clock says and ends,
    and an evicted page comes back with its bytes.
  \<^item> Processes: program segments and arguments arrive where they belong, a parent gets its child's status, and pointers that a process may not use end it.
  \<^item> Devices: interrupt queues and the serial port deliver every byte once and in order, the screen shows the end of what was written.
  \<^item> Where the code does not do what it should, the model follows the code, and a theorem with a concrete state shows it.

  \<^bold>\<open>Conventions of the model.\<close>
  \<^item> The value \<open>None\<close> is a kernel that stops: a failed assertion, a \<^verbatim>\<open>PANIC\<close>, an access outside of an object, undefined behaviour, or a loop that does not end
    (\<open>partial_function\<close>; that the loops of the properties end is part of their statements). A result \<open>Switched\<close> is a call in which the caller went to sleep;
    what it does when it runs again is a definition of its own, with the suffix \<open>_resume\<close> or \<open>_end\<close>.
  \<^item> What C leaves open is an argument or a field of the state: the success of an allocation of the kernel's heap (the field \<open>mallocs\<close> of the state of \<open>Frame\<close>, a parameter in \<open>Hash\<close>),
    the contents of uninitialised locals (\<open>junk\<close>, \<open>stack_junk\<close>, and \<open>uninit\<close> for the flag \<^verbatim>\<open>is_allowed\<close> in line 174 of \<^verbatim>\<open>cache.c\<close>), the bytes read from ports, the
    addresses of the assembly stubs and of the static tables. All results about writing above the cache hold under \<open>reads_false\<close>, a conjunct of \<open>bc_ok\<close>: that flag reads as
    false. \<open>cache_write_uninitialised_flag\<close> shows that a write stops the kernel if it does not.
  \<^item> Two things are simplified. In the file system the structures of inodes, files, directories and descriptors are named by fresh addresses, and their allocation is assumed to succeed (in
    \<^verbatim>\<open>open_file_or_dir\<close> the code would use a null pointer otherwise). Operations of the file system run one at a time; their locks are flags, and an operation that finds its lock held stops.
  \<^item> Integers have the width of the code where it matters: sizes and words are machine words that wrap around (also the negation of \<^verbatim>\<open>INT64_MIN\<close> in \<open>sdiv64\<close>),
    the size of a buffer goes through \<open>size_as_int\<close> in \<open>vsnprintf\<close>, and file offsets are integers below \<open>2 ^ 31\<close>, which the theorems state as bounds.
  \<^item> A thread's structure is split: what the scheduler uses lies in \<open>ksys\<close>, its family in the state of \<open>Process\<close>, its page tables in that of \<open>Frame\<close>, its descriptors in that of \<open>Filesys\<close>.
    Headers of blocks in \<open>Malloc\<close> are kept beside the memory. The swap device is one of the devices of the file system's state (\<open>to_swap\<close>, \<open>of_swap\<close>).
  \<^item> Access to user memory goes through the page directory, with the page fault handler when that fails (\<open>user_access\<close>). A string or buffer of the user is read as a whole before
    the operation that uses it. The null bytes that \<^verbatim>\<open>strtok_r\<close> writes into the loader's copy of the command line are not shown. The messages of the kernel about itself are left out
    but for the printing of statistics and interrupt frames, which goes to \<open>dv_con\<close>.

  \<^bold>\<open>Bounds and fuel.\<close>
  \<open>fm_write\<close>, the write of the free map into its own file, may grow that file and so need the free map again: \<open>fm_write n\<close> allows \<open>n\<close> nested writes, of which a write that stays inside the file needs one, and the theorems hold for
  every \<open>n\<close> from one on. A format inside \<^verbatim>\<open>printf\<close> (for \<^verbatim>\<open>%p\<close>) nests once, which is all the code does. All other loops are structural recursions or \<open>partial_function\<close>s without fuel.

  \<^bold>\<open>Interfaces.\<close>
  The locales state what one part relies on: a queue of list elements (\<open>Kernel_List\<close>), the keys of a hash table (\<open>Hash\<close>, interpreted on the supplemental page table and the frame table),
  an allocator of bits or sectors (\<open>Bitmap\<close>, \<open>File\<close>), a store of sectors (\<open>Cache\<close>, interpreted on the cached and on the uncached operations), a file of bytes (\<open>Inode_File\<close>, also
  used by directories), a store of pages (\<open>Swap\<close>), a heap (\<open>Allocator\<close>), a channel of bytes (\<open>Intq\<close>). Each is interpreted on the definitions of the
  code in the theory that provides them.

  \<^bold>\<open>Not modelled.\<close>
  The start of the kernel (\<^verbatim>\<open>threads/init.c\<close>), assembly code, the IDE controller, shutdown, the console's lock, backtraces and the utilities of the kernel command line
  (\<^verbatim>\<open>filesys/fsutil.c\<close>) are glue or hardware; the library for user programs, example programs and tests are not part of the kernel; and \<^verbatim>\<open>thread2.c\<close>, \<^verbatim>\<open>process1.c\<close>,
  \<^verbatim>\<open>processss.c\<close>, \<^verbatim>\<open>pagedirr.c\<close>, \<^verbatim>\<open>ccc.c\<close>, \<^verbatim>\<open>changerr.c\<close> and \<^verbatim>\<open>testt.c\<close> are older versions that are not compiled.
\<close>

end
